(* ===== verification/Prelude.thy ===== *)
theory Prelude
  imports "HOL-Library.Word"
begin

text \<open>
  Shared material of the development: the fixed-width integer types of the C++ sources
  (\<open>uint8_t\<close> to \<open>uint64_t\<close>), the value of a little-endian array of 64-bit limbs
  (\<open>FrRawElement\<close> and the GMP arrays of the sources) as an integer, the arithmetic and
  bitwise laws of that value, and the generic facts on congruences that every proof about the
  prime field uses. \<open>limb_simps\<close> collects the rewriting rules for limb arrays.
\<close>

unbundle bit_operations_syntax

type_synonym u8 = "8 word"
type_synonym u32 = "32 word"
type_synonym u64 = "64 word"
type_synonym limbs = "u64 list"

named_theorems limb_simps

subsection \<open>Limb arrays as integers\<close>

text \<open>The limb base \<open>2 ^ 64\<close>, kept as a constant so that the simplifier does not expand it.\<close>

definition B64 :: int where
  "B64 = 2 ^ 64"

fun lval :: "limbs \<Rightarrow> int" where
  "lval [] = 0"
| "lval (x # xs) = uint x + B64 * lval xs"

fun limbs_of :: "nat \<Rightarrow> int \<Rightarrow> limbs" where
  "limbs_of 0 v = []"
| "limbs_of (Suc n) v = word_of_int v # limbs_of n (v div B64)"

abbreviation base :: "nat \<Rightarrow> int" where
  "base n \<equiv> B64 ^ n"

lemma B64_pos [simp]: "0 < B64" "0 \<le> B64" "B64 \<noteq> 0" "1 < B64" "1 \<le> B64"
  by (simp_all add: B64_def)

lemma base_pos [simp]: "0 < base n" "0 \<le> base n" "base n \<noteq> 0" "1 \<le> base n"
  by (simp_all add: one_le_power)

lemma base_eq_power: "base n = 2 ^ (64 * n)"
  by (simp add: B64_def power_mult)

lemma uint64_bounds [simp]: "0 \<le> uint (x::u64)" "uint (x::u64) < B64"
  using uint_lt2p [of x] by (simp_all add: B64_def)

lemma uint64_le: "uint (x::u64) \<le> B64 - 1"
  using uint64_bounds(2) [of x] by linarith

lemma uint_word_of_int_u64 [limb_simps]: "uint (word_of_int v :: u64) = v mod B64"
  by (simp add: uint_word_of_int B64_def)

lemma length_limbs_of [simp]: "length (limbs_of n v) = n"
  by (induction n arbitrary: v) auto

lemma lval_nonneg [simp]: "0 \<le> lval xs"
  by (induction xs) auto

lemma lval_less: "lval xs < base (length xs)"
proof (induction xs)
  case Nil
  then show ?case by simp
next
  case (Cons x xs)
  have "uint x + B64 * lval xs < B64 + B64 * lval xs"
    by simp
  also have "\<dots> = B64 * (lval xs + 1)" by (simp add: algebra_simps)
  also have "\<dots> \<le> B64 * base (length xs)"
    using Cons.IH by (intro mult_left_mono) auto
  finally show ?case by simp
qed

lemma lval_less_length: "length xs = n \<Longrightarrow> lval xs < base n"
  using lval_less by blast

lemma lval_append: "lval (xs @ ys) = lval xs + base (length xs) * lval ys"
  by (induction xs) (simp_all add: algebra_simps)

lemma lval_replicate_0 [simp]: "lval (replicate n 0) = 0"
  by (induction n) auto

lemma lval_limbs_of: "lval (limbs_of n v) = v mod base n"
proof (induction n arbitrary: v)
  case 0
  then show ?case by simp
next
  case (Suc n)
  have "lval (limbs_of (Suc n) v) = v mod B64 + B64 * (v div B64 mod base n)"
    by (simp add: Suc.IH uint_word_of_int_u64)
  also have "\<dots> = v mod (B64 * base n)"
    by (simp add: zmod_zmult2_eq)
  finally show ?case by simp
qed

lemma lval_limbs_of_id: "0 \<le> v \<Longrightarrow> v < base n \<Longrightarrow> lval (limbs_of n v) = v"
  by (simp add: lval_limbs_of)

lemma lval_Cons_mod [limb_simps]: "lval (x # xs) mod B64 = uint x"
  by (simp add: mod_add_eq)

lemma lval_Cons_div [limb_simps]: "lval (x # xs) div B64 = lval xs"
  by (simp add: div_add1_eq)

lemma lval_hd: "xs \<noteq> [] \<Longrightarrow> lval xs mod B64 = uint (xs ! 0)"
  by (cases xs) (simp_all add: lval_Cons_mod del: lval.simps)

lemma lval_tl: "xs \<noteq> [] \<Longrightarrow> lval (drop 1 xs) = lval xs div B64"
  by (cases xs) (simp_all add: lval_Cons_div del: lval.simps)

lemma lval_inject: "length xs = length ys \<Longrightarrow> lval xs = lval ys \<Longrightarrow> xs = ys"
proof (induction xs ys rule: list_induct2)
  case Nil
  then show ?case by simp
next
  case (Cons x xs y ys)
  from Cons.prems have "uint x = uint y" and "lval xs = lval ys"
    using lval_Cons_mod [of x xs] lval_Cons_mod [of y ys] lval_Cons_div [of x xs] lval_Cons_div [of y ys]
    by metis+
  then show ?case using Cons.IH by (simp add: word_uint_eq_iff)
qed

lemma lval_eq_iff: "length xs = length ys \<Longrightarrow> lval xs = lval ys \<longleftrightarrow> xs = ys"
  using lval_inject by blast

lemma lval_eq_0_iff: "lval xs = 0 \<longleftrightarrow> xs = replicate (length xs) 0"
  using lval_eq_iff [of xs "replicate (length xs) 0"] by simp

text \<open>Splitting an array at a limb.\<close>

lemma lval_take_drop: "n \<le> length xs \<Longrightarrow> lval xs = lval (take n xs) + base n * lval (drop n xs)"
  using lval_append [of "take n xs" "drop n xs"] by simp

lemma lval_take: "n \<le> length xs \<Longrightarrow> lval (take n xs) = lval xs mod base n"
  using lval_take_drop [of n xs] lval_less [of "take n xs"] by simp

lemma lval_drop: "n \<le> length xs \<Longrightarrow> lval (drop n xs) = lval xs div base n"
  using lval_take_drop [of n xs] lval_less [of "take n xs"] by (simp add: div_add1_eq)

subsection \<open>Bits of a limb array\<close>

lemma lval_Cons_concat: "lval (x # xs) = concat_bit 64 (uint x) (lval xs)"
  using uint64_bounds [of x]
  by (simp add: concat_bit_eq push_bit_eq_mult take_bit_int_eq_self [of "uint x"] B64_def
      mult.commute del: uint64_bounds)

lemma concat_bit_and:
  "concat_bit n (a AND b) (c AND d) = concat_bit n a c AND concat_bit n b d"
  by (rule bit_eqI) (auto simp: bit_concat_bit_iff bit_and_iff)

lemma concat_bit_or:
  "concat_bit n (a OR b) (c OR d) = concat_bit n a c OR concat_bit n b d"
  by (rule bit_eqI) (auto simp: bit_concat_bit_iff bit_or_iff)

lemma concat_bit_xor:
  "concat_bit n (a XOR b) (c XOR d) = concat_bit n a c XOR concat_bit n b d"
  by (rule bit_eqI) (auto simp: bit_concat_bit_iff bit_xor_iff)

lemma lval_and: "length xs = length ys \<Longrightarrow> lval (map2 (AND) xs ys) = lval xs AND lval ys"
  by (induction xs ys rule: list_induct2)
    (simp_all add: lval_Cons_concat uint_and concat_bit_and del: lval.simps(2))

lemma lval_or: "length xs = length ys \<Longrightarrow> lval (map2 (OR) xs ys) = lval xs OR lval ys"
  by (induction xs ys rule: list_induct2)
    (simp_all add: lval_Cons_concat uint_or concat_bit_or del: lval.simps(2))

lemma lval_xor: "length xs = length ys \<Longrightarrow> lval (map2 (XOR) xs ys) = lval xs XOR lval ys"
  by (induction xs ys rule: list_induct2)
    (simp_all add: lval_Cons_concat uint_xor concat_bit_xor del: lval.simps(2))

lemma uint_not_u64: "uint (NOT (x::u64)) = B64 - 1 - uint x"
proof -
  have "NOT x = word_of_int (B64 - 1 - uint x)"
    by (simp add: not_eq_complement B64_def)
  then have "uint (NOT x) = (B64 - 1 - uint x) mod B64"
    by (simp only: uint_word_of_int_u64)
  also have "\<dots> = B64 - 1 - uint x"
    using uint64_bounds [of x] by (intro mod_pos_pos_trivial) linarith+
  finally show ?thesis .
qed

lemma lval_not: "lval (map NOT xs) = base (length xs) - 1 - lval xs"
proof (induction xs)
  case Nil
  then show ?case by simp
next
  case (Cons x xs)
  have "lval (map NOT (x # xs)) = B64 - 1 - uint x + B64 * (base (length xs) - 1 - lval xs)"
    by (simp only: list.map lval.simps Cons.IH uint_not_u64)
  then show ?case by (simp add: right_diff_distrib)
qed

subsection \<open>Carries and borrows\<close>

lemma uint_ge_1: "(c::u64) \<noteq> 0 \<Longrightarrow> 1 \<le> uint c"
proof -
  assume "c \<noteq> 0"
  then have "uint c \<noteq> 0" by (simp add: word_uint_eq_iff)
  then show ?thesis using uint64_bounds(1) [of c] by linarith
qed

lemma div_less_of_less_mult:
  assumes "0 < b" "v < b * (k::int)"
  shows "v div b < k"
proof (rule ccontr)
  assume "\<not> v div b < k"
  then have "b * k \<le> b * (v div b)" using assms(1) by (intro mult_left_mono) auto
  also have "\<dots> \<le> v" using assms(1) pos_mod_sign [of b v] mult_div_mod_eq [of b v] by linarith
  finally show False using assms(2) by simp
qed


lemma carry_cases:
  assumes "length zs = n" "lval zs + base n * uint (c::u64) = s"
  shows "c = 0 \<Longrightarrow> s < base n" "c \<noteq> 0 \<Longrightarrow> base n \<le> s" "lval zs = s mod base n"
proof -
  show "c = 0 \<Longrightarrow> s < base n" using assms(2) lval_less_length [OF assms(1)] by simp
  show "base n \<le> s" if "c \<noteq> 0"
  proof -
    have "base n * 1 \<le> base n * uint c" using uint_ge_1 [OF that] by (intro mult_left_mono) auto
    then show ?thesis using assms(2) lval_nonneg [of zs] by linarith
  qed
  have "(lval zs + base n * uint c) mod base n = lval zs"
    using lval_less_length [OF assms(1)] by simp
  then show "lval zs = s mod base n" using assms(2) by simp
qed

lemma borrow_cases:
  assumes "length zs = n" "lval zs - base n * uint (c::u64) = d" "d < base n"
  shows "c \<noteq> 0 \<longleftrightarrow> d < 0" "lval zs = d mod base n"
proof -
  show "c \<noteq> 0 \<longleftrightarrow> d < 0"
  proof
    assume "c \<noteq> 0"
    then have "base n * 1 \<le> base n * uint c" using uint_ge_1 by (intro mult_left_mono) auto
    then show "d < 0" using assms lval_less_length [OF assms(1)] by linarith
  next
    assume "d < 0"
    then show "c \<noteq> 0" using assms(2) lval_nonneg [of zs] by (auto simp del: lval_nonneg)
  qed
  have "(lval zs + base n * (- uint c)) mod base n = lval zs mod base n"
    by (rule mod_mult_self2)
  then show "lval zs = d mod base n" using assms lval_less_length [OF assms(1)] by simp
qed

lemma lval_diff_bounds:
  assumes "length xs = length ys"
  shows "- base (length xs) \<le> lval xs - lval ys \<and> lval xs - lval ys < base (length xs)"
  using lval_less [of xs] lval_less [of ys] lval_nonneg [of xs] lval_nonneg [of ys] assms
  by (auto simp del: lval_nonneg)

subsection \<open>Signed and masked words\<close>

lemma lval_replicate_ones: "lval (replicate n (- 1)) = base n - 1"
proof (induction n)
  case 0
  then show ?case by simp
next
  case (Suc n)
  have "uint (- 1 :: u64) = B64 - 1" using uint_not_u64 [of 0] by simp
  then show ?case using Suc.IH by (simp add: right_diff_distrib)
qed

lemma sint_u64: "sint (x::u64) = (if uint x < 2 ^ 63 then uint x else uint x - B64)"
proof -
  have s: "sint x = take_bit 64 (uint x + 2 ^ 63) - 2 ^ 63"
    by (simp add: sint_uint signed_take_bit_eq_take_bit_shift)
  show ?thesis
  proof (cases "uint x < 2 ^ 63")
    case True
    then show ?thesis using s by (simp add: take_bit_int_eq_self)
  next
    case False
    have "(uint x + 2 ^ 63) mod 2 ^ 64 = uint x + 2 ^ 63 - 2 ^ 64"
      using False uint64_bounds(2) [of x]
        mod_pos_pos_trivial [of "uint x + 2 ^ 63 - 2 ^ 64" "2 ^ 64"]
        minus_mod_self2 [of "uint x + 2 ^ 63" "2 ^ 64"] by (simp add: B64_def)
    then show ?thesis using s False by (simp add: take_bit_eq_mod B64_def)
  qed
qed

lemma and_exp_minus_1: "(x::int) AND (2 ^ k - 1) = x mod 2 ^ k"
  by (simp add: take_bit_eq_mask mask_eq_exp_minus_1 flip: take_bit_eq_mod)

lemma and_less_power: "0 \<le> (x::int) \<Longrightarrow> x < 2 ^ k \<Longrightarrow> 0 \<le> y \<Longrightarrow> x AND y < 2 ^ k"
  by (rule le_less_trans [OF AND_upper1])

lemma or_less_power: "0 \<le> (x::int) \<Longrightarrow> x < 2 ^ k \<Longrightarrow> y < 2 ^ k \<Longrightarrow> x OR y < 2 ^ k"
  by (rule OR_upper)

lemma xor_less_power: "0 \<le> (x::int) \<Longrightarrow> x < 2 ^ k \<Longrightarrow> y < 2 ^ k \<Longrightarrow> x XOR y < 2 ^ k"
  by (rule XOR_upper)

lemma uint_mult_u64: "uint ((x::u64) * y) = uint x * uint y mod B64"
  by (simp add: uint_word_ariths B64_def)

lemma uint_add_u64: "uint ((x::u64) + y) = (uint x + uint y) mod B64"
  by (simp add: uint_word_ariths B64_def)

lemma uint_sub_u64: "uint (x - y :: u64) = (uint x - uint y) mod B64"
  by (simp add: uint_word_ariths B64_def)

subsection \<open>Lists and conversions\<close>

lemma length_concat_ge: "xs \<in> set xss \<Longrightarrow> length xs \<le> length (concat xss)"
  by (induction xss) auto

lemma list_all2_concat: "list_all2 (list_all2 R) xss yss \<Longrightarrow> list_all2 R (concat xss) (concat yss)"
  by (induction rule: list_all2_induct) (auto simp: list_all2_appendI)

lemma zip_concat:
  "list_all2 (\<lambda>a b. length a = length b) xss yss \<Longrightarrow> zip (concat xss) (concat yss) = concat (map2 zip xss yss)"
  by (induction rule: list_all2_induct) auto

lemma unat_ucast_32: "unat (w::u64) < 2 ^ 32 \<Longrightarrow> unat (ucast w :: u32) = unat w"
  by (simp only: unsigned_ucast_eq) (simp add: take_bit_nat_eq_self)

lemma unat_ucast_64: "unat (ucast (w::u32) :: u64) = unat w"
proof -
  have "unat w < 2 ^ 32" using unsigned_less [of w] by simp
  then have "unat w < 2 ^ 64" by simp
  then show ?thesis by (simp only: unsigned_ucast_eq) (simp add: take_bit_nat_eq_self)
qed

subsection \<open>Sequencing of operations that may fail\<close>

definition and_then :: "'e + 'a \<Rightarrow> ('a \<Rightarrow> 'e + 'b) \<Rightarrow> 'e + 'b" where
  "and_then x f = (case x of Inl e \<Rightarrow> Inl e | Inr v \<Rightarrow> f v)"

lemma and_then_simps [simp]: "and_then (Inl e) f = Inl e" "and_then (Inr v) f = f v"
  by (simp_all add: and_then_def)

lemma and_then_Inr_iff: "and_then x f = Inr w \<longleftrightarrow> (\<exists>v. x = Inr v \<and> f v = Inr w)"
  by (cases x) auto

lemma and_then_InrE:
  assumes "and_then x f = Inr w"
  obtains v where "x = Inr v" "f v = Inr w"
  using assms by (auto simp: and_then_Inr_iff)

end
