(* ===== verification/Gmp.thy ===== *)
theory Gmp
  imports Prelude
begin

text \<open>
  The interface to the GNU multiple precision library, which the field runtime calls and whose
  code is not part of the repository. The low-level functions on limb arrays (\<open>mpn_*\<close>) are the
  fields of a record that every definition calling them takes as its argument; the locale
  \<open>mpn_lib\<close> states what the GMP manual documents of each of them, as equations on the
  integer the limbs stand for. An operand array is passed as a list whose length is the
  documented size argument, and a function that writes an array and returns a carry returns
  the pair. \<open>mpn_ref\<close> is a complete arbitrary-size implementation of that interface, and
  interprets the locale.
\<close>

record mpn_api =
  mpn_add_n :: "limbs \<Rightarrow> limbs \<Rightarrow> limbs \<times> u64"
  mpn_sub_n :: "limbs \<Rightarrow> limbs \<Rightarrow> limbs \<times> u64"
  mpn_add_1 :: "limbs \<Rightarrow> u64 \<Rightarrow> limbs \<times> u64"
  mpn_sub_1 :: "limbs \<Rightarrow> u64 \<Rightarrow> limbs \<times> u64"
  mpn_add :: "limbs \<Rightarrow> limbs \<Rightarrow> limbs \<times> u64"
  mpn_mul_1 :: "limbs \<Rightarrow> u64 \<Rightarrow> limbs \<times> u64"
  mpn_addmul_1 :: "limbs \<Rightarrow> limbs \<Rightarrow> u64 \<Rightarrow> limbs \<times> u64"
  mpn_cmp :: "limbs \<Rightarrow> limbs \<Rightarrow> int"
  mpn_zero_p :: "limbs \<Rightarrow> int"
  mpn_copyi :: "limbs \<Rightarrow> limbs"
  mpn_and_n :: "limbs \<Rightarrow> limbs \<Rightarrow> limbs"
  mpn_ior_n :: "limbs \<Rightarrow> limbs \<Rightarrow> limbs"
  mpn_xor_n :: "limbs \<Rightarrow> limbs \<Rightarrow> limbs"
  mpn_com :: "limbs \<Rightarrow> limbs"
  mpn_lshift :: "limbs \<Rightarrow> u64 \<Rightarrow> limbs \<times> u64"
  mpn_rshift :: "limbs \<Rightarrow> u64 \<Rightarrow> limbs \<times> u64"

locale mpn_lib =
  fixes G :: mpn_api
  assumes add_n_law: "length xs = length ys \<Longrightarrow> xs \<noteq> [] \<Longrightarrow> mpn_add_n G xs ys = (zs, c) \<Longrightarrow>
      length zs = length xs \<and> lval zs + base (length xs) * uint c = lval xs + lval ys"
    and sub_n_law: "length xs = length ys \<Longrightarrow> xs \<noteq> [] \<Longrightarrow> mpn_sub_n G xs ys = (zs, c) \<Longrightarrow>
      length zs = length xs \<and> lval zs - base (length xs) * uint c = lval xs - lval ys"
    and add_1_law: "xs \<noteq> [] \<Longrightarrow> mpn_add_1 G xs b = (zs, c) \<Longrightarrow>
      length zs = length xs \<and> lval zs + base (length xs) * uint c = lval xs + uint b"
    and sub_1_law: "xs \<noteq> [] \<Longrightarrow> mpn_sub_1 G xs b = (zs, c) \<Longrightarrow>
      length zs = length xs \<and> lval zs - base (length xs) * uint c = lval xs - uint b"
    and add_law: "ys \<noteq> [] \<Longrightarrow> length ys \<le> length xs \<Longrightarrow> mpn_add G xs ys = (zs, c) \<Longrightarrow>
      length zs = length xs \<and> lval zs + base (length xs) * uint c = lval xs + lval ys"
    and mul_1_law: "xs \<noteq> [] \<Longrightarrow> mpn_mul_1 G xs b = (zs, c) \<Longrightarrow>
      length zs = length xs \<and> lval zs + base (length xs) * uint c = lval xs * uint b"
    and addmul_1_law: "length rs = length xs \<Longrightarrow> xs \<noteq> [] \<Longrightarrow> mpn_addmul_1 G rs xs b = (zs, c) \<Longrightarrow>
      length zs = length xs \<and> lval zs + base (length xs) * uint c = lval rs + lval xs * uint b"
    and cmp_law: "length xs = length ys \<Longrightarrow> sgn (mpn_cmp G xs ys) = sgn (lval xs - lval ys)"
    and zero_p_law: "mpn_zero_p G xs = (if lval xs = 0 then 1 else 0)"
    and copyi_law: "mpn_copyi G xs = xs"
    and and_n_law: "length xs = length ys \<Longrightarrow> length (mpn_and_n G xs ys) = length xs \<and>
      lval (mpn_and_n G xs ys) = (lval xs AND lval ys)"
    and ior_n_law: "length xs = length ys \<Longrightarrow> length (mpn_ior_n G xs ys) = length xs \<and>
      lval (mpn_ior_n G xs ys) = (lval xs OR lval ys)"
    and xor_n_law: "length xs = length ys \<Longrightarrow> length (mpn_xor_n G xs ys) = length xs \<and>
      lval (mpn_xor_n G xs ys) = (lval xs XOR lval ys)"
    and com_law: "length (mpn_com G xs) = length xs \<and>
      lval (mpn_com G xs) = base (length xs) - 1 - lval xs"
    and lshift_law: "xs \<noteq> [] \<Longrightarrow> 0 < k \<Longrightarrow> k < 64 \<Longrightarrow> mpn_lshift G xs k = (zs, c) \<Longrightarrow>
      length zs = length xs \<and> lval zs = lval xs * 2 ^ unat k mod base (length xs)"
    and rshift_law: "xs \<noteq> [] \<Longrightarrow> 0 < k \<Longrightarrow> k < 64 \<Longrightarrow> mpn_rshift G xs k = (zs, c) \<Longrightarrow>
      length zs = length xs \<and> lval zs = lval xs div 2 ^ unat k"

begin

text \<open>
  What the callers use of these laws: the result of a carrying operation is the sum modulo the
  array's size, and the carry or borrow says whether the integer operation left the array.
\<close>

lemma add_n_cases:
  assumes "length xs = n" "length ys = n" "0 < n"
  shows "length (fst (mpn_add_n G xs ys)) = n"
    and "snd (mpn_add_n G xs ys) = 0 \<Longrightarrow> lval xs + lval ys < base n"
    and "snd (mpn_add_n G xs ys) \<noteq> 0 \<Longrightarrow> base n \<le> lval xs + lval ys"
    and "lval (fst (mpn_add_n G xs ys)) = (lval xs + lval ys) mod base n"
proof -
  obtain zs c where e: "mpn_add_n G xs ys = (zs, c)" by fastforce
  have l: "length zs = n" "lval zs + base n * uint c = lval xs + lval ys"
    using add_n_law [OF _ _ e] assms by auto
  show "length (fst (mpn_add_n G xs ys)) = n" using l e by simp
  show "snd (mpn_add_n G xs ys) = 0 \<Longrightarrow> lval xs + lval ys < base n"
    and "snd (mpn_add_n G xs ys) \<noteq> 0 \<Longrightarrow> base n \<le> lval xs + lval ys"
    and "lval (fst (mpn_add_n G xs ys)) = (lval xs + lval ys) mod base n"
    using carry_cases [OF l] e by simp_all
qed

lemma add_1_cases:
  assumes "length xs = n" "0 < n"
  shows "length (fst (mpn_add_1 G xs b)) = n"
    and "snd (mpn_add_1 G xs b) = 0 \<Longrightarrow> lval xs + uint b < base n"
    and "snd (mpn_add_1 G xs b) \<noteq> 0 \<Longrightarrow> base n \<le> lval xs + uint b"
    and "lval (fst (mpn_add_1 G xs b)) = (lval xs + uint b) mod base n"
proof -
  obtain zs c where e: "mpn_add_1 G xs b = (zs, c)" by fastforce
  have l: "length zs = n" "lval zs + base n * uint c = lval xs + uint b"
    using add_1_law [OF _ e] assms by auto
  show "length (fst (mpn_add_1 G xs b)) = n" using l e by simp
  show "snd (mpn_add_1 G xs b) = 0 \<Longrightarrow> lval xs + uint b < base n"
    and "snd (mpn_add_1 G xs b) \<noteq> 0 \<Longrightarrow> base n \<le> lval xs + uint b"
    and "lval (fst (mpn_add_1 G xs b)) = (lval xs + uint b) mod base n"
    using carry_cases [OF l] e by simp_all
qed

lemma sub_n_cases:
  assumes "length xs = n" "length ys = n" "0 < n"
  shows "length (fst (mpn_sub_n G xs ys)) = n"
    and "snd (mpn_sub_n G xs ys) \<noteq> 0 \<longleftrightarrow> lval xs < lval ys"
    and "lval (fst (mpn_sub_n G xs ys)) = (lval xs - lval ys) mod base n"
proof -
  obtain zs c where e: "mpn_sub_n G xs ys = (zs, c)" by fastforce
  have l: "length zs = n" "lval zs - base n * uint c = lval xs - lval ys"
    using sub_n_law [OF _ _ e] assms by auto
  have u: "lval xs - lval ys < base n" using lval_diff_bounds [of xs ys] assms by simp
  show "length (fst (mpn_sub_n G xs ys)) = n" using l e by simp
  show "snd (mpn_sub_n G xs ys) \<noteq> 0 \<longleftrightarrow> lval xs < lval ys"
    and "lval (fst (mpn_sub_n G xs ys)) = (lval xs - lval ys) mod base n"
    using borrow_cases [OF l u] e by auto
qed

lemma sub_1_cases:
  assumes "length xs = n" "0 < n"
  shows "length (fst (mpn_sub_1 G xs b)) = n"
    and "snd (mpn_sub_1 G xs b) \<noteq> 0 \<longleftrightarrow> lval xs < uint b"
    and "lval (fst (mpn_sub_1 G xs b)) = (lval xs - uint b) mod base n"
proof -
  obtain zs c where e: "mpn_sub_1 G xs b = (zs, c)" by fastforce
  have l: "length zs = n" "lval zs - base n * uint c = lval xs - uint b"
    using sub_1_law [OF _ e] assms by auto
  have u: "lval xs - uint b < base n"
    using lval_less_length [OF assms(1)] uint64_bounds(1) [of b] by linarith
  show "length (fst (mpn_sub_1 G xs b)) = n" using l e by simp
  show "snd (mpn_sub_1 G xs b) \<noteq> 0 \<longleftrightarrow> lval xs < uint b"
    and "lval (fst (mpn_sub_1 G xs b)) = (lval xs - uint b) mod base n"
    using borrow_cases [OF l u] e by auto
qed

lemma cmp_ge: "length xs = length ys \<Longrightarrow> 0 \<le> mpn_cmp G xs ys \<longleftrightarrow> lval ys \<le> lval xs"
  using cmp_law [of xs ys] by (auto simp: sgn_if split: if_splits)

lemma cmp_eq: "length xs = length ys \<Longrightarrow> mpn_cmp G xs ys = 0 \<longleftrightarrow> lval xs = lval ys"
  using cmp_law [of xs ys] by (auto simp: sgn_if split: if_splits)

lemma cmp_gt: "length xs = length ys \<Longrightarrow> 0 < mpn_cmp G xs ys \<longleftrightarrow> lval ys < lval xs"
  using cmp_law [of xs ys] by (auto simp: sgn_if split: if_splits)

lemma cmp_lt: "length xs = length ys \<Longrightarrow> mpn_cmp G xs ys < 0 \<longleftrightarrow> lval xs < lval ys"
  using cmp_law [of xs ys] by (auto simp: sgn_if split: if_splits)

end

subsection \<open>A complete implementation of the interface\<close>

definition carry_pair :: "nat \<Rightarrow> int \<Rightarrow> limbs \<times> u64" where
  "carry_pair n v = (limbs_of n v, word_of_int (v div base n))"

definition borrow_pair :: "nat \<Rightarrow> int \<Rightarrow> limbs \<times> u64" where
  "borrow_pair n v = (limbs_of n v, word_of_int (- (v div base n)))"

definition mpn_ref :: mpn_api where
  "mpn_ref = \<lparr>
     mpn_add_n = (\<lambda>xs ys. carry_pair (length xs) (lval xs + lval ys)),
     mpn_sub_n = (\<lambda>xs ys. borrow_pair (length xs) (lval xs - lval ys)),
     mpn_add_1 = (\<lambda>xs b. carry_pair (length xs) (lval xs + uint b)),
     mpn_sub_1 = (\<lambda>xs b. borrow_pair (length xs) (lval xs - uint b)),
     mpn_add = (\<lambda>xs ys. carry_pair (length xs) (lval xs + lval ys)),
     mpn_mul_1 = (\<lambda>xs b. carry_pair (length xs) (lval xs * uint b)),
     mpn_addmul_1 = (\<lambda>rs xs b. carry_pair (length xs) (lval rs + lval xs * uint b)),
     mpn_cmp = (\<lambda>xs ys. sgn (lval xs - lval ys)),
     mpn_zero_p = (\<lambda>xs. if lval xs = 0 then 1 else 0),
     mpn_copyi = (\<lambda>xs. xs),
     mpn_and_n = (\<lambda>xs ys. map2 (AND) xs ys),
     mpn_ior_n = (\<lambda>xs ys. map2 (OR) xs ys),
     mpn_xor_n = (\<lambda>xs ys. map2 (XOR) xs ys),
     mpn_com = (\<lambda>xs. map NOT xs),
     mpn_lshift = (\<lambda>xs k. carry_pair (length xs) (lval xs * 2 ^ unat k)),
     mpn_rshift = (\<lambda>xs k. (limbs_of (length xs) (lval xs div 2 ^ unat k),
       word_of_int (lval xs mod 2 ^ unat k * 2 ^ (64 - unat k))))\<rparr>"

lemma carry_pair_law:
  assumes "carry_pair n v = (zs, c)" "0 \<le> v" "v < base n * B64"
  shows "length zs = n" "lval zs + base n * uint c = v"
proof -
  have "0 \<le> v div base n" using assms(2) by (simp add: pos_imp_zdiv_nonneg_iff)
  moreover have "v div base n < B64"
    using assms(3) by (intro div_less_of_less_mult) simp_all
  ultimately have "uint (word_of_int (v div base n) :: u64) = v div base n"
    by (simp add: uint_word_of_int_u64)
  then show "length zs = n" "lval zs + base n * uint c = v"
    using assms(1) by (auto simp: carry_pair_def lval_limbs_of)
qed

lemma borrow_pair_law:
  assumes "borrow_pair n v = (zs, c)" "- base n \<le> v" "v < base n"
  shows "length zs = n" "lval zs - base n * uint c = v"
proof -
  have "v div base n = (if v < 0 then - 1 else 0)"
  proof (cases "v < 0")
    case True
    then have "(v + base n) div base n = 0" using assms(2) by (intro div_pos_pos_trivial) simp_all
    moreover have "(v + base n) div base n = v div base n + 1" by (intro div_add_self2) simp
    ultimately show ?thesis using True by simp
  qed (use assms(3) in simp)
  then have "uint (word_of_int (- (v div base n)) :: u64) = - (v div base n)"
    by (simp add: uint_word_of_int_u64 B64_def)
  then show "length zs = n" "lval zs - base n * uint c = v"
    using assms(1) by (auto simp: borrow_pair_def lval_limbs_of)
qed

lemma uint_mult_bound:
  assumes "0 \<le> v" "v < base n"
  shows "v * uint (b::u64) < base n * B64"
proof -
  have "v * uint b \<le> v * B64" using assms(1) by (intro mult_left_mono) (auto simp: less_imp_le)
  also have "\<dots> < base n * B64" using assms(2) by (intro mult_strict_right_mono) auto
  finally show ?thesis .
qed

lemma add_bound: "(a::int) < base n \<Longrightarrow> b \<le> base n \<Longrightarrow> a + b < base n * B64"
proof -
  assume "a < base n" "b \<le> base n"
  moreover have "base n * 2 \<le> base n * B64" by (intro mult_left_mono) (auto simp: B64_def)
  ultimately show ?thesis by linarith
qed

lemma lval_add_bound: "length ys \<le> length xs \<Longrightarrow> lval xs + lval ys < base (length xs) * B64"
proof (rule add_bound [OF lval_less])
  assume "length ys \<le> length xs"
  then have "base (length ys) \<le> base (length xs)" by (intro power_increasing) auto
  then show "lval ys \<le> base (length xs)" using lval_less [of ys] by linarith
qed

lemma uint_le_base: "xs \<noteq> [] \<Longrightarrow> uint (b::u64) \<le> base (length xs)"
proof -
  assume "xs \<noteq> []"
  then have "B64 ^ 1 \<le> base (length xs)" by (intro power_increasing) (auto simp: Suc_le_eq)
  then show ?thesis using uint64_bounds(2) [of b] by (simp del: uint64_bounds)
qed

lemma addmul_bound:
  assumes "length rs = length xs"
  shows "lval rs + lval xs * uint (b::u64) < base (length xs) * B64"
proof -
  have "lval xs * uint b \<le> lval xs * (B64 - 1)"
    using uint64_le by (intro mult_left_mono) auto
  also have "\<dots> \<le> base (length xs) * (B64 - 1)"
    using lval_less [of xs] by (intro mult_right_mono) auto
  also have "\<dots> = base (length xs) * B64 - base (length xs)" by (simp add: right_diff_distrib)
  finally show ?thesis using lval_less [of rs] assms by simp
qed

interpretation gmp_ref: mpn_lib mpn_ref
proof (unfold_locales, goal_cases)
  case (1 xs ys zs c)
  then show ?case using carry_pair_law [of "length xs" _ zs c] lval_add_bound [of ys xs]
    by (simp add: mpn_ref_def)
next
  case (2 xs ys zs c)
  then show ?case using borrow_pair_law [of "length xs" _ zs c] lval_diff_bounds [of xs ys]
    by (simp add: mpn_ref_def)
next
  case (3 xs b zs c)
  then show ?case
    using carry_pair_law [of "length xs" _ zs c] add_bound [OF lval_less uint_le_base, of xs b]
    by (simp add: mpn_ref_def)
next
  case (4 xs b zs c)
  moreover have "- base (length xs) \<le> lval xs - uint b" "lval xs - uint b < base (length xs)"
    using uint_le_base [of xs b] lval_less [of xs] lval_nonneg [of xs] uint64_bounds(1) [of b] 4
    by linarith+
  ultimately show ?case using borrow_pair_law [of "length xs" _ zs c]
    by (simp add: mpn_ref_def)
next
  case (5 ys xs zs c)
  then show ?case using carry_pair_law [of "length xs" _ zs c] lval_add_bound [of ys xs]
    by (simp add: mpn_ref_def)
next
  case (6 xs b zs c)
  then show ?case
    using carry_pair_law [of "length xs" _ zs c] uint_mult_bound [OF lval_nonneg lval_less, of xs b]
    by (simp add: mpn_ref_def)
next
  case (7 rs xs b zs c)
  then show ?case using carry_pair_law [of "length xs" _ zs c] addmul_bound [of rs xs b]
    by (simp add: mpn_ref_def)
next
  case (11 xs ys)
  then show ?case by (simp add: mpn_ref_def lval_and)
next
  case (12 xs ys)
  then show ?case by (simp add: mpn_ref_def lval_or)
next
  case (13 xs ys)
  then show ?case by (simp add: mpn_ref_def lval_xor)
next
  case (14 xs)
  then show ?case by (simp add: mpn_ref_def lval_not)
next
  case (15 xs k zs c)
  then show ?case by (auto simp: mpn_ref_def carry_pair_def lval_limbs_of)
next
  case (16 xs k zs c)
  have "lval xs div 2 ^ unat k \<le> lval xs" using zdiv_mono2 [of "lval xs" 1 "2 ^ unat k"] by simp
  then have "lval xs div 2 ^ unat k < base (length xs)" using lval_less [of xs] by linarith
  with 16 show ?case by (auto simp: mpn_ref_def lval_limbs_of pos_imp_zdiv_nonneg_iff)
qed (simp_all add: mpn_ref_def)

end
