(* ===== verification/FrParams.thy ===== *)
theory FrParams
  imports Gmp
begin

text \<open>
  The parameters of the field runtime. \<open>generic/fr.cpp\<close> and \<open>generic/fr.hpp\<close> of circom's C
  code producer are templates; \<open>c_code_generator.rs\<close> renders them for the chosen prime. The
  record \<open>fr_params\<close> holds the values the template leaves open, \<open>render_params\<close> computes them
  the way the generator does, and \<open>fr_params_ok\<close> is what the operations rely on. The theorem
  \<open>render_params_ok\<close> shows that rendering establishes it, and \<open>bn128_params\<close> is the instance
  for the default prime of circom, which is also the scalar field of rapidsnark.
\<close>

subsection \<open>The template variables\<close>

record fr_params =
  fr_n64 :: nat                 \<comment> \<open>number of 64-bit limbs of an element\<close>
  qbits :: nat                  \<comment> \<open>bit length of the prime\<close>
  fr_q_list :: limbs            \<comment> \<open>\<open>Fr_q.longVal\<close> and \<open>Fr_rawq\<close>\<close>
  fr_r2_list :: limbs           \<comment> \<open>\<open>Fr_R2.longVal\<close> and \<open>Fr_rawR2\<close>\<close>
  fr_r3_list :: limbs           \<comment> \<open>\<open>Fr_R3.longVal\<close>\<close>
  half_list :: limbs            \<comment> \<open>\<open>half\<close>, the prime divided by two\<close>
  fr_np :: u64                  \<comment> \<open>\<open>Fr_np\<close>, minus the inverse of the prime modulo \<open>2 ^ 64\<close>\<close>
  lboMask :: u64                \<comment> \<open>\<open>lboMask\<close>, the mask of the top limb\<close>
  cannotOptimize :: bool        \<comment> \<open>whether the prime leaves no spare bit in the top limb\<close>

text \<open>The prime as an integer, and the Montgomery radix.\<close>

definition qv :: "fr_params \<Rightarrow> int" where
  "qv P = lval (fr_q_list P)"

definition Rv :: "fr_params \<Rightarrow> int" where
  "Rv P = base (fr_n64 P)"

definition fr_params_ok :: "fr_params \<Rightarrow> bool" where
  "fr_params_ok P \<longleftrightarrow>
     0 < fr_n64 P \<and> fr_n64 P \<le> 16 \<and> length (fr_q_list P) = fr_n64 P \<and> length (fr_r2_list P) = fr_n64 P \<and>
     length (fr_r3_list P) = fr_n64 P \<and> length (half_list P) = fr_n64 P \<and>
     odd (qv P) \<and> 2 ^ 62 < qv P \<and>
     lval (fr_r2_list P) = Rv P ^ 2 mod qv P \<and> lval (fr_r3_list P) = Rv P ^ 3 mod qv P \<and>
     lval (half_list P) = qv P div 2 \<and>
     (uint (fr_np P) * qv P + 1) mod B64 = 0 \<and>
     64 * (fr_n64 P - 1) < qbits P \<and> qbits P \<le> 64 * fr_n64 P \<and>
     2 ^ (qbits P - 1) \<le> qv P \<and> qv P < 2 ^ qbits P \<and>
     uint (lboMask P) = 2 ^ (qbits P - 64 * (fr_n64 P - 1)) - 1 \<and>
     (if cannotOptimize P then (B64 + 1) * qv P \<le> B64 * Rv P else 2 * qv P \<le> Rv P)"

subsection \<open>Rendering the template\<close>

text \<open>\<open>BigInt::bits\<close>: the fewest bits that express the number.\<close>

function bigint_bits :: "int \<Rightarrow> nat" where
  "bigint_bits v = (if v \<le> 0 then 0 else Suc (bigint_bits (v div 2)))"
  by pat_completeness auto
termination
  by (relation "measure nat") auto

declare bigint_bits.simps [simp del]

text \<open>
  The values \<open>generate_fr_cpp_file\<close> and \<open>generate_fr_hpp_file\<close> pass to the templates. \<open>p_inv\<close> is
  the result of \<open>p.mod_inverse(1 << 64)\<close>, of the external crate \<open>num_bigint\<close>. The limb lists
  are those \<open>get_vector_of_u64\<close> makes of a big-endian byte string, least significant limb
  first.
\<close>

definition render_params :: "int \<Rightarrow> int \<Rightarrow> fr_params" where
  "render_params p p_inv =
     (let pbits = bigint_bits p;
          half = p div 2;
          np = 2 ^ 64 - p_inv;
          n64 = (pbits + 63) div 64;
          nbits = n64 * 64;
          lbo_mask = (0x10000000000000000 div 2 ^ (nbits - pbits)) - 1;
          r2 = 2 ^ (nbits * 2) mod p;
          r3 = 2 ^ (nbits * 3) mod p
      in \<lparr>fr_n64 = n64,
          qbits = pbits,
          fr_q_list = limbs_of n64 p,
          fr_r2_list = limbs_of n64 r2,
          fr_r3_list = limbs_of n64 r3,
          half_list = limbs_of n64 half,
          fr_np = word_of_int np,
          lboMask = word_of_int lbo_mask,
          cannotOptimize = (p div 2 ^ ((n64 - 1) * 64) > (2 ^ 64 - 1) div 2 - 1)\<rparr>)"

lemma bigint_bits_bounds:
  assumes "0 < v"
  shows "2 ^ (bigint_bits v - 1) \<le> v \<and> v < 2 ^ bigint_bits v \<and> 0 < bigint_bits v"
  using assms
proof (induction v rule: bigint_bits.induct)
  case (1 v)
  have e: "bigint_bits v = Suc (bigint_bits (v div 2))"
    using "1.prems" by (subst bigint_bits.simps) simp
  show ?case
  proof (cases "v = 1")
    case True
    then have "bigint_bits v = 1" using e by (simp add: bigint_bits.simps [of 0])
    then show ?thesis using True by simp
  next
    case False
    then have p: "0 < v div 2" using "1.prems" by linarith
    then have IH: "2 ^ (bigint_bits (v div 2) - 1) \<le> v div 2" "v div 2 < 2 ^ bigint_bits (v div 2)"
      "0 < bigint_bits (v div 2)"
      using 1 by auto
    define k where "k = bigint_bits (v div 2)"
    have "(2::int) ^ k \<le> v"
    proof -
      have "(2::int) ^ k = 2 * 2 ^ (k - 1)"
        using IH(3) by (simp add: k_def power_eq_if)
      then show ?thesis using IH(1) unfolding k_def by linarith
    qed
    moreover have "v < 2 * 2 ^ k" using IH(2) unfolding k_def by linarith
    ultimately show ?thesis by (simp add: e flip: k_def)
  qed
qed

lemma bigint_bits_eqI:
  assumes "2 ^ (k - 1) \<le> v" "v < 2 ^ k" "0 < k"
  shows "bigint_bits v = k"
proof -
  have p: "0 < v" using assms(1) by (rule less_le_trans [rotated]) simp
  note b = bigint_bits_bounds [OF p]
  have "(2::int) ^ (k - 1) < 2 ^ bigint_bits v" using assms(1) b by linarith
  then have "k - 1 < bigint_bits v" by simp
  moreover have "(2::int) ^ (bigint_bits v - 1) < 2 ^ k" using assms(2) b by linarith
  then have "bigint_bits v - 1 < k" by simp
  ultimately show ?thesis using assms(3) b by linarith
qed

lemma ceil_div_64:
  assumes "0 < (k::nat)"
  shows "0 < (k + 63) div 64" "64 * ((k + 63) div 64 - 1) < k" "k \<le> 64 * ((k + 63) div 64)"
  using assms div_mult_mod_eq [of "k + 63" 64] mod_less_divisor [of 64 "k + 63"] by linarith+

lemma render_params_sel:
  "fr_n64 (render_params p p_inv) = (bigint_bits p + 63) div 64"
  "qbits (render_params p p_inv) = bigint_bits p"
  "fr_q_list (render_params p p_inv) = limbs_of ((bigint_bits p + 63) div 64) p"
  "fr_r2_list (render_params p p_inv) =
     limbs_of ((bigint_bits p + 63) div 64) (2 ^ ((bigint_bits p + 63) div 64 * 64 * 2) mod p)"
  "fr_r3_list (render_params p p_inv) =
     limbs_of ((bigint_bits p + 63) div 64) (2 ^ ((bigint_bits p + 63) div 64 * 64 * 3) mod p)"
  "half_list (render_params p p_inv) = limbs_of ((bigint_bits p + 63) div 64) (p div 2)"
  "fr_np (render_params p p_inv) = word_of_int (2 ^ 64 - p_inv)"
  "lboMask (render_params p p_inv) = word_of_int
     (0x10000000000000000 div 2 ^ ((bigint_bits p + 63) div 64 * 64 - bigint_bits p) - 1)"
  by (simp_all add: render_params_def Let_def)

text \<open>
  Rendering establishes what the runtime relies on, for an odd prime of more than 62 bits and
  a right inverse. The last hypothesis concerns primes with no spare bit only: the Montgomery
  loop then has to keep its running sum within one extra limb.
\<close>

lemma render_params_limbs:
  fixes p p_inv :: int
  assumes p: "0 < p" and P: "P = render_params p p_inv"
  shows "0 < fr_n64 P" and "64 * (fr_n64 P - 1) < qbits P" and "qbits P \<le> 64 * fr_n64 P"
    and "qv P = p" and "lval (fr_r2_list P) = Rv P ^ 2 mod p"
    and "lval (fr_r3_list P) = Rv P ^ 3 mod p" and "lval (half_list P) = p div 2"
    and "p < Rv P" and "qbits P = bigint_bits p"
proof -
  let ?b = "bigint_bits p" and ?n = "(bigint_bits p + 63) div 64"
  note b = bigint_bits_bounds [OF p]
  show q: "qbits P = ?b" by (simp add: P render_params_sel)
  have n: "fr_n64 P = ?n" by (simp add: P render_params_sel)
  show "0 < fr_n64 P" and "64 * (fr_n64 P - 1) < qbits P" and u: "qbits P \<le> 64 * fr_n64 P"
    unfolding n q using ceil_div_64 b by blast+
  have "(2::int) ^ ?b \<le> 2 ^ (64 * ?n)" using u n q by (intro power_increasing) auto
  then have pb: "p < base ?n" using b by (simp only: base_eq_power) linarith
  then show "p < Rv P" by (simp add: Rv_def n)
  show "qv P = p" using p pb
    by (simp add: qv_def P render_params_sel lval_limbs_of)
  have r: "v mod p < base ?n" for v using p pb pos_mod_bound [of p v] by linarith
  show "lval (half_list P) = p div 2" using p pb
    by (simp add: P render_params_sel lval_limbs_of)
  show "lval (fr_r2_list P) = Rv P ^ 2 mod p" "lval (fr_r3_list P) = Rv P ^ 3 mod p"
    using p r by (simp_all add: Rv_def n P render_params_sel lval_limbs_of base_eq_power
        mult.commute mult.left_commute flip: power_mult)
qed

lemma render_lboMask:
  fixes p p_inv :: int
  assumes p: "0 < p" and P: "P = render_params p p_inv"
  shows "uint (lboMask P) = 2 ^ (qbits P - 64 * (fr_n64 P - 1)) - 1"
proof -
  note l = render_params_limbs [OF p P]
  define d where "d = 64 * fr_n64 P - qbits P"
  have d: "d < 64" "qbits P - 64 * (fr_n64 P - 1) = 64 - d" using l(1-3) by (auto simp: d_def)
  have "(2::int) ^ 64 div 2 ^ d = 2 ^ (64 - d)"
    using d(1) by (simp add: power_diff del: power_numeral)
  moreover have "lboMask P = word_of_int (2 ^ 64 div 2 ^ d - 1)"
    by (simp add: P render_params_def Let_def d_def mult.commute)
  moreover have "(2::int) ^ (64 - d) \<le> B64" unfolding B64_def by (rule power_increasing) simp_all
  moreover have "(1::int) \<le> 2 ^ (64 - d)" by simp
  ultimately have "uint (lboMask P) = (2 ^ (64 - d) - 1) mod B64"
    by (simp only: uint_word_of_int_u64)
  also have "\<dots> = 2 ^ (64 - d) - 1"
    using \<open>2 ^ (64 - d) \<le> B64\<close> \<open>1 \<le> 2 ^ (64 - d)\<close> by (intro mod_pos_pos_trivial) linarith+
  finally show ?thesis unfolding d(2) .
qed

lemma render_fr_np:
  fixes p p_inv :: int
  assumes "P = render_params p p_inv" and "0 < p_inv" "p_inv < 2 ^ 64" "(p_inv * p) mod 2 ^ 64 = 1"
  shows "(uint (fr_np P) * p + 1) mod B64 = 0"
proof -
  have np: "uint (fr_np P) = B64 - p_inv"
  proof -
    have "fr_np P = word_of_int (B64 - p_inv)"
      by (simp add: assms(1) render_params_def Let_def B64_def)
    then have "uint (fr_np P) = (B64 - p_inv) mod B64" by (simp only: uint_word_of_int_u64)
    also have "\<dots> = B64 - p_inv"
      using assms(2,3) by (intro mod_pos_pos_trivial) (simp_all add: B64_def)
    finally show ?thesis .
  qed
  have "(B64 * p + (1 - p_inv * p)) mod B64 = (1 - p_inv * p) mod B64" by simp
  also have "\<dots> = (1 mod B64 - p_inv * p mod B64) mod B64" by (rule mod_diff_eq [symmetric])
  also have "\<dots> = 0" using assms(4) by (simp add: B64_def)
  finally show ?thesis by (simp add: np algebra_simps)
qed

lemma render_cannotOptimize:
  fixes p p_inv :: int
  assumes p: "0 < p" and P: "P = render_params p p_inv" and c: "\<not> cannotOptimize P"
  shows "2 * p \<le> Rv P"
proof -
  note l = render_params_limbs [OF p P]
  obtain k where k: "fr_n64 P = Suc k" using l(1) by (cases "fr_n64 P") auto
  have "p div base k \<le> 2 ^ 63 - 2"
    using c k by (simp add: P render_params_def Let_def base_eq_power mult.commute)
  then have "p div base k < 2 ^ 63 - 1" by simp
  have "p < base k * (p div base k + 1)"
    using mult_div_mod_eq [of "base k" p] pos_mod_bound [OF base_pos(1) [of k], of p]
    unfolding distrib_left mult_1_right by linarith
  also have "\<dots> \<le> base k * (2 ^ 63 - 1)"
    using \<open>p div base k < 2 ^ 63 - 1\<close> by (intro mult_left_mono) auto
  also have "\<dots> = (2 ^ 63 - 1) * base k" by (simp only: mult.commute)
  also have "\<dots> \<le> 2 ^ 63 * base k" by (intro mult_right_mono) auto
  finally have "2 * p \<le> 2 * (2 ^ 63 * base k)" by linarith
  then show ?thesis by (simp add: Rv_def k B64_def)
qed

lemma render_params_ok_aux:
  fixes p p_inv :: int
  assumes "P = render_params p p_inv" "odd p" "2 ^ 62 < p"
    and "0 < p_inv" "p_inv < 2 ^ 64" "(p_inv * p) mod 2 ^ 64 = 1"
    and "cannotOptimize P \<Longrightarrow> (B64 + 1) * p \<le> B64 * Rv P" and "fr_n64 P \<le> 16"
  shows "fr_params_ok P"
proof -
  have p: "0 < p" using assms(3) by simp
  note l = render_params_limbs [OF p assms(1)] and b = bigint_bits_bounds [OF p]
  have len: "length (fr_q_list P) = fr_n64 P" "length (fr_r2_list P) = fr_n64 P"
    "length (fr_r3_list P) = fr_n64 P" "length (half_list P) = fr_n64 P"
    by (simp_all add: assms(1) render_params_def Let_def)
  show ?thesis unfolding fr_params_ok_def
    using assms(2,3,7,8) l b len render_lboMask [OF p assms(1)] render_fr_np [OF assms(1,4-6)]
      render_cannotOptimize [OF p assms(1)]
    by (simp del: One_nat_def)
qed

subsection \<open>The supported primes\<close>

text \<open>
  The primes \<open>UsefulConstants::new\<close> accepts, without \<open>goldilocks\<close>, for which
  \<open>generate_fr_cpp_file\<close> renders nothing (its field has a source file of its own).
\<close>

definition circom_primes :: "(string \<times> int) list" where
  "circom_primes =
     [(''bn128'',
       21888242871839275222246405745257275088548364400416034343698204186575808495617),
      (''bls12381'',
       52435875175126190479447740508185965837690552500527637822603658699938581184513),
      (''grumpkin'',
       21888242871839275222246405745257275088696311157297823662689037894645226208583),
      (''pallas'',
       28948022309329048855892746252171976963363056481941560715954676764349967630337),
      (''vesta'',
       28948022309329048855892746252171976963363056481941647379679742748393362948097),
      (''secq256r1'',
       115792089210356248762697446949407573530086143415290314195533631308867097853951),
      (''bls12377'',
       8444461749428370424248824938781546531375899335154063827935233455917409239041)]"

lemma circom_primes_bounds:
  "\<forall>(name, p) \<in> set circom_primes. odd p \<and> 2 ^ 252 \<le> p \<and> (2 ^ 64 + 1) * p \<le> 2 ^ 64 * 2 ^ 256"
  by (simp add: circom_primes_def)

lemma render_n64_4:
  assumes "2 ^ 252 \<le> p" "p < 2 ^ 256"
  shows "fr_n64 (render_params p p_inv) = 4"
proof -
  have p: "0 < p" using assms(1) by simp
  note b = bigint_bits_bounds [OF p]
  have "(2::int) ^ 252 < 2 ^ bigint_bits p" using assms(1) b by linarith
  then have "252 < bigint_bits p" by (rule power_less_imp_less_exp [rotated]) simp
  moreover have "(2::int) ^ (bigint_bits p - 1) < 2 ^ 256" using assms(2) b by linarith
  then have "bigint_bits p - 1 < 256" by (rule power_less_imp_less_exp [rotated]) simp
  ultimately show ?thesis by (simp add: render_params_def Let_def)
qed

lemma render_params_ok:
  assumes "(name, p) \<in> set circom_primes"
    and "0 < p_inv" "p_inv < 2 ^ 64" "(p_inv * p) mod 2 ^ 64 = 1"
  shows "fr_params_ok (render_params p p_inv)"
proof -
  have p: "odd p" "2 ^ 252 \<le> p" "(2 ^ 64 + 1) * p \<le> 2 ^ 64 * 2 ^ 256"
    using circom_primes_bounds assms(1) by auto
  then have "p < 2 ^ 256" by simp
  then have "Rv (render_params p p_inv) = 2 ^ 256"
    using render_n64_4 p by (simp add: Rv_def base_eq_power)
  then show ?thesis using render_params_ok_aux [OF refl] p assms render_n64_4 [OF p(2) \<open>p < 2 ^ 256\<close>]
    by (simp add: B64_def)
qed

text \<open>
  Property C35. For every prime the compiler offers to the C backend and for the inverse of
  that prime modulo \<open>2 ^ 64\<close>, the values \<open>generate_fr_cpp_file\<close> renders satisfy everything
  the runtime relies on: limb counts, the constants R2, R3, half and Fr_np of Montgomery
  arithmetic, the mask of the top limb, and the choice between the two Montgomery loops.
\<close>

theorem render_params_supported:
  assumes "(name, p) \<in> set circom_primes"
    and "0 < p_inv" "p_inv < 2 ^ 64" "(p_inv * p) mod 2 ^ 64 = 1"
  shows "fr_params_ok (render_params p p_inv)"
  by (rule render_params_ok [OF assms])

theorem render_params_supported_witness:
  "fr_params_ok (render_params
     21888242871839275222246405745257275088548364400416034343698204186575808495617
     4403968944856104961)"
  by (rule render_params_supported [of "''bn128''"]) (simp_all add: circom_primes_def)

subsection \<open>The instance for bn128\<close>

definition bn128_params :: fr_params where
  "bn128_params = render_params
     21888242871839275222246405745257275088548364400416034343698204186575808495617
     4403968944856104961"

lemma bn128_params_ok: "fr_params_ok bn128_params"
  unfolding bn128_params_def
  by (rule render_params_ok [of "''bn128''"]) (simp_all add: circom_primes_def)

lemma bn128_bits:
  "bigint_bits 21888242871839275222246405745257275088548364400416034343698204186575808495617 = 254"
  by (rule bigint_bits_eqI) simp_all

text \<open>
  The rendered constants of the copy of the runtime that rapidsnark carries for the same
  prime, as its source has them.
\<close>

definition rapidsnark_raw_consts :: "limbs \<times> u64 \<times> u64" where
  "rapidsnark_raw_consts =
     ([0x43e1f593f0000001, 0x2833e84879b97091, 0xb85045b68181585d, 0x30644e72e131a029],
      0xc2e1f593efffffff,
      0x3fffffffffffffff)"

definition rapidsnark_consts :: "limbs \<times> limbs \<times> limbs \<times> limbs" where
  "rapidsnark_consts =
     ([0x43e1f593f0000001, 0x2833e84879b97091, 0xb85045b68181585d, 0x30644e72e131a029],
      [0x1bb8e645ae216da7, 0x53fe3ab1e35c59e3, 0x8c49833d53bb8085, 0x0216d0b17f4e44a5],
      [0x5e94d8e1b4bf0040, 0x2a489cbe1cfbb6b8, 0x893cc664a19fcfed, 0x0cf8594b7fcc657c],
      [0xa1f0fac9f8000000, 0x9419f4243cdcb848, 0xdc2822db40c0ac2e, 0x183227397098d014])"

lemma limbs_of_4:
  "limbs_of 4 v = [word_of_int v, word_of_int (v div 2 ^ 64), word_of_int (v div 2 ^ 64 div 2 ^ 64),
     word_of_int (v div 2 ^ 64 div 2 ^ 64 div 2 ^ 64)]"
  by (simp add: eval_nat_numeral B64_def)

lemma int_mod_eqI: "(a::int) = k * m + r \<Longrightarrow> 0 \<le> r \<Longrightarrow> r < m \<Longrightarrow> a mod m = r"
  by simp

lemma bn128_r2: "(2::int) ^ 512 mod
    21888242871839275222246405745257275088548364400416034343698204186575808495617 =
    944936681149208446651664254269745548490766851729442924617792859073125903783"
  by (rule int_mod_eqI [where k =
    "612557527273816073910311476275045157067432104571610153771051915293407781491289"])
    simp_all

lemma bn128_r3: "(2::int) ^ 768 mod
    21888242871839275222246405745257275088548364400416034343698204186575808495617 =
    5866548545943845227489894872040244720403868105578784105281690076696998248512"
  by (rule int_mod_eqI [where k = "70929315861079460050545713470651790607402830534048198787532827173243548470465703496313271925294460383522548860604705121879455647723825082663417941967568832"])
    simp_all

lemma bn128_n64: "((254::nat) + 63) div 64 = 4" "(4::nat) * 64 * 2 = 512" "(4::nat) * 64 * 3 = 768"
  by simp_all

lemma bn128_fields:
  "fr_n64 bn128_params = 4" "qbits bn128_params = 254"
  "fr_q_list bn128_params = limbs_of 4
     21888242871839275222246405745257275088548364400416034343698204186575808495617"
  "fr_r2_list bn128_params = limbs_of 4
     944936681149208446651664254269745548490766851729442924617792859073125903783"
  "fr_r3_list bn128_params = limbs_of 4
     5866548545943845227489894872040244720403868105578784105281690076696998248512"
  "half_list bn128_params = limbs_of 4
     10944121435919637611123202872628637544274182200208017171849102093287904247808"
  "fr_np bn128_params = 0xc2e1f593efffffff"
  "lboMask bn128_params = 0x3fffffffffffffff"
  unfolding bn128_params_def render_params_sel bn128_bits bn128_n64 bn128_r2 bn128_r3 by simp_all

lemma bn128_limbs:
  "limbs_of 4 21888242871839275222246405745257275088548364400416034343698204186575808495617 =
     [0x43e1f593f0000001, 0x2833e84879b97091, 0xb85045b68181585d, 0x30644e72e131a029]"
  "limbs_of 4 944936681149208446651664254269745548490766851729442924617792859073125903783 =
     [0x1bb8e645ae216da7, 0x53fe3ab1e35c59e3, 0x8c49833d53bb8085, 0x0216d0b17f4e44a5]"
  "limbs_of 4 5866548545943845227489894872040244720403868105578784105281690076696998248512 =
     [0x5e94d8e1b4bf0040, 0x2a489cbe1cfbb6b8, 0x893cc664a19fcfed, 0x0cf8594b7fcc657c]"
  "limbs_of 4 10944121435919637611123202872628637544274182200208017171849102093287904247808 =
     [0xa1f0fac9f8000000, 0x9419f4243cdcb848, 0xdc2822db40c0ac2e, 0x183227397098d014]"
  unfolding limbs_of_4 by simp_all

text \<open>
  Rendering circom's template for bn128 gives, limb for limb, the constants
  compiled into rapidsnark's copy of the field runtime.
\<close>

lemma rapidsnark_consts_rendered:
  "rapidsnark_raw_consts = (fr_q_list bn128_params, fr_np bn128_params, lboMask bn128_params) \<and>
   rapidsnark_consts = (fr_q_list bn128_params, fr_r2_list bn128_params, fr_r3_list bn128_params,
     half_list bn128_params)"
  unfolding bn128_fields bn128_limbs rapidsnark_raw_consts_def rapidsnark_consts_def
  by (intro conjI refl)

end
