(* ===== verification/FrRaw.thy ===== *)
theory FrRaw
  imports FrParams
begin

text \<open>
  The raw layer of \<open>generic/fr.cpp\<close>: functions on \<open>FrRawElement\<close>, an array of \<open>Fr_N64\<close>
  limbs, without the Montgomery multiplications (theory \<open>FrMont\<close>). A function that writes
  \<open>pRawResult\<close> returns the new array. GMP's functions allow the result to be an operand, and
  the runtime reads every operand before it writes the result, except in \<open>Fr_rawNegLS\<close> and
  \<open>Fr_rawShl\<close>: these two take a flag that says whether \<open>pRawResult\<close> and the operand are the
  same array. The locale \<open>fr_field\<close> (GMP's laws and well-formed parameters) holds one lemma per
  function, which gives its result as an integer modulo the prime.
\<close>

subsection \<open>The functions\<close>

definition Fr_rawAdd :: "mpn_api \<Rightarrow> fr_params \<Rightarrow> limbs \<Rightarrow> limbs \<Rightarrow> limbs" where
  "Fr_rawAdd G P pRawA pRawB =
     (let (r, carry) = mpn_add_n G pRawA pRawB
      in if carry \<noteq> 0 \<or> mpn_cmp G r (fr_q_list P) \<ge> 0
         then fst (mpn_sub_n G r (fr_q_list P)) else r)"

definition Fr_rawAddLS :: "mpn_api \<Rightarrow> fr_params \<Rightarrow> limbs \<Rightarrow> u64 \<Rightarrow> limbs" where
  "Fr_rawAddLS G P pRawA rawB =
     (let (r, carry) = mpn_add_1 G pRawA rawB
      in if carry \<noteq> 0 \<or> mpn_cmp G r (fr_q_list P) \<ge> 0
         then fst (mpn_sub_n G r (fr_q_list P)) else r)"

definition Fr_rawSub :: "mpn_api \<Rightarrow> fr_params \<Rightarrow> limbs \<Rightarrow> limbs \<Rightarrow> limbs" where
  "Fr_rawSub G P pRawA pRawB =
     (let (r, carry) = mpn_sub_n G pRawA pRawB
      in if carry \<noteq> 0 then fst (mpn_add_n G r (fr_q_list P)) else r)"

definition Fr_rawSubRegular :: "mpn_api \<Rightarrow> limbs \<Rightarrow> limbs \<Rightarrow> limbs" where
  "Fr_rawSubRegular G pRawA pRawB = fst (mpn_sub_n G pRawA pRawB)"

definition Fr_rawSubSL :: "mpn_api \<Rightarrow> fr_params \<Rightarrow> u64 \<Rightarrow> limbs \<Rightarrow> limbs" where
  "Fr_rawSubSL G P rawA pRawB =
     (let pRawA = rawA # replicate (fr_n64 P - 1) 0;
          (r, carry) = mpn_sub_n G pRawA pRawB
      in if carry \<noteq> 0 then fst (mpn_add_n G r (fr_q_list P)) else r)"

definition Fr_rawSubLS :: "mpn_api \<Rightarrow> fr_params \<Rightarrow> limbs \<Rightarrow> u64 \<Rightarrow> limbs" where
  "Fr_rawSubLS G P pRawA rawB =
     (let (r, carry) = mpn_sub_1 G pRawA rawB
      in if carry \<noteq> 0 then fst (mpn_add_n G r (fr_q_list P)) else r)"

definition raw_zero :: "fr_params \<Rightarrow> limbs" where
  "raw_zero P = replicate (fr_n64 P) 0"

definition Fr_rawNeg :: "mpn_api \<Rightarrow> fr_params \<Rightarrow> limbs \<Rightarrow> limbs" where
  "Fr_rawNeg G P pRawA =
     (if mpn_cmp G pRawA (raw_zero P) \<noteq> 0 then fst (mpn_sub_n G (fr_q_list P) pRawA)
      else mpn_copyi G (raw_zero P))"

text \<open>
  \<open>Fr_rawNegLS\<close> writes \<open>pRawResult\<close> before it reads \<open>pRawA\<close>: with \<open>same\<close> the second
  subtraction reads what the first one wrote.
\<close>

definition Fr_rawNegLS :: "mpn_api \<Rightarrow> fr_params \<Rightarrow> bool \<Rightarrow> limbs \<Rightarrow> u64 \<Rightarrow> limbs" where
  "Fr_rawNegLS G P same pRawA rawB =
     (let (r1, carry1) = mpn_sub_1 G (fr_q_list P) rawB;
          (r2, carry2) = mpn_sub_n G r1 (if same then r1 else pRawA)
      in if carry1 \<noteq> 0 \<or> carry2 \<noteq> 0 then fst (mpn_add_n G r2 (fr_q_list P)) else r2)"

definition Fr_rawCopy :: "limbs \<Rightarrow> limbs" where
  "Fr_rawCopy pRawA = pRawA"

definition Fr_rawIsEq :: "mpn_api \<Rightarrow> limbs \<Rightarrow> limbs \<Rightarrow> bool" where
  "Fr_rawIsEq G pRawA pRawB \<longleftrightarrow> mpn_cmp G pRawA pRawB = 0"

definition Fr_rawIsZero :: "mpn_api \<Rightarrow> limbs \<Rightarrow> int" where
  "Fr_rawIsZero G rawA = (if mpn_zero_p G rawA \<noteq> 0 then 1 else 0)"

definition Fr_rawCmp :: "mpn_api \<Rightarrow> limbs \<Rightarrow> limbs \<Rightarrow> int" where
  "Fr_rawCmp G pRawA pRawB = mpn_cmp G pRawA pRawB"

definition Fr_rawSwap :: "limbs \<Rightarrow> limbs \<Rightarrow> limbs \<times> limbs" where
  "Fr_rawSwap pRawResult pRawA =
     (let temp = Fr_rawCopy pRawResult;
          pRawResult' = Fr_rawCopy pRawA;
          pRawA' = Fr_rawCopy temp
      in (pRawResult', pRawA'))"

text \<open>\<open>val\<close> is an \<open>int64_t\<close>.\<close>

definition Fr_rawCopyS2L :: "mpn_api \<Rightarrow> fr_params \<Rightarrow> u64 \<Rightarrow> limbs" where
  "Fr_rawCopyS2L G P val =
     (if sint val < 0
      then fst (mpn_add_n G (val # replicate (fr_n64 P - 1) (- 1)) (fr_q_list P))
      else val # replicate (fr_n64 P - 1) 0)"

definition mask_top :: "fr_params \<Rightarrow> limbs \<Rightarrow> limbs" where
  "mask_top P r = r[fr_n64 P - 1 := (r ! (fr_n64 P - 1)) AND lboMask P]"

definition Fr_rawAnd :: "mpn_api \<Rightarrow> fr_params \<Rightarrow> limbs \<Rightarrow> limbs \<Rightarrow> limbs" where
  "Fr_rawAnd G P pRawA pRawB =
     (let r = mask_top P (mpn_and_n G pRawA pRawB)
      in if mpn_cmp G r (fr_q_list P) \<ge> 0 then fst (mpn_sub_n G r (fr_q_list P)) else r)"

definition Fr_rawOr :: "mpn_api \<Rightarrow> fr_params \<Rightarrow> limbs \<Rightarrow> limbs \<Rightarrow> limbs" where
  "Fr_rawOr G P pRawA pRawB =
     (let r = mask_top P (mpn_ior_n G pRawA pRawB)
      in if mpn_cmp G r (fr_q_list P) \<ge> 0 then fst (mpn_sub_n G r (fr_q_list P)) else r)"

definition Fr_rawXor :: "mpn_api \<Rightarrow> fr_params \<Rightarrow> limbs \<Rightarrow> limbs \<Rightarrow> limbs" where
  "Fr_rawXor G P pRawA pRawB =
     (let r = mask_top P (mpn_xor_n G pRawA pRawB)
      in if mpn_cmp G r (fr_q_list P) \<ge> 0 then fst (mpn_sub_n G r (fr_q_list P)) else r)"

text \<open>
  \<open>mpn_copyi\<close> copies increasingly: when source and destination are the same array and the
  destination starts \<open>k\<close> limbs later, a limb already written is read again.
\<close>

definition copyi_within :: "limbs \<Rightarrow> nat \<Rightarrow> nat \<Rightarrow> limbs" where
  "copyi_within r k count = foldl (\<lambda>r i. r[k + i := r ! i]) r [0..<count]"

definition Fr_rawShl :: "mpn_api \<Rightarrow> fr_params \<Rightarrow> bool \<Rightarrow> limbs \<Rightarrow> u64 \<Rightarrow> limbs" where
  "Fr_rawShl G P same a b =
     (let bit_shift = b mod 64;
          word_shift = unat (b div 64);
          word_count = fr_n64 P - word_shift;
          r1 = (if same then copyi_within a word_shift word_count
                else replicate word_shift 0 @ mpn_copyi G (take word_count a));
          r2 = replicate word_shift 0 @ drop word_shift r1;
          r3 = (if bit_shift \<noteq> 0 then fst (mpn_lshift G r2 bit_shift) else r2);
          r4 = mask_top P r3
      in if mpn_cmp G r4 (fr_q_list P) \<ge> 0 then fst (mpn_sub_n G r4 (fr_q_list P)) else r4)"

definition Fr_rawShr :: "mpn_api \<Rightarrow> fr_params \<Rightarrow> limbs \<Rightarrow> u64 \<Rightarrow> limbs" where
  "Fr_rawShr G P a b =
     (let bit_shift = b mod 64;
          word_shift = unat (b div 64);
          word_count = fr_n64 P - word_shift;
          r1 = mpn_copyi G (take word_count (drop word_shift a)) @ replicate word_shift 0
      in if bit_shift \<noteq> 0 then fst (mpn_rshift G r1 bit_shift) else r1)"

definition Fr_rawNot :: "mpn_api \<Rightarrow> fr_params \<Rightarrow> limbs \<Rightarrow> limbs" where
  "Fr_rawNot G P pRawA =
     (let r = mask_top P (mpn_com G pRawA)
      in if mpn_cmp G r (fr_q_list P) \<ge> 0 then fst (mpn_sub_n G r (fr_q_list P)) else r)"

definition Fr_rawZero :: "fr_params \<Rightarrow> limbs" where
  "Fr_rawZero P = replicate (fr_n64 P) 0"

subsection \<open>Their values\<close>

text \<open>
  \<open>in_field P x\<close>: the array \<open>x\<close> holds an integer below the prime; \<open>reduced P r v\<close>: the
  array \<open>r\<close> holds \<open>v\<close> modulo the prime.
\<close>

definition in_field :: "fr_params \<Rightarrow> limbs \<Rightarrow> bool" where
  "in_field P x \<longleftrightarrow> length x = fr_n64 P \<and> lval x < qv P"

definition reduced :: "fr_params \<Rightarrow> limbs \<Rightarrow> int \<Rightarrow> bool" where
  "reduced P r v \<longleftrightarrow> length r = fr_n64 P \<and> lval r = v mod qv P"

locale fr_field = mpn_lib G for G :: mpn_api +
  fixes P :: fr_params
  assumes params_ok: "fr_params_ok P"

begin

lemma n_pos: "0 < fr_n64 P"
  and n_le: "fr_n64 P \<le> 16"
  and len_q: "length (fr_q_list P) = fr_n64 P"
  and len_r2: "length (fr_r2_list P) = fr_n64 P"
  and len_r3: "length (fr_r3_list P) = fr_n64 P"
  and len_half: "length (half_list P) = fr_n64 P"
  and odd_q: "odd (qv P)"
  and q_gt: "2 ^ 62 < qv P"
  and val_r2: "lval (fr_r2_list P) = Rv P ^ 2 mod qv P"
  and val_r3: "lval (fr_r3_list P) = Rv P ^ 3 mod qv P"
  and val_half: "lval (half_list P) = qv P div 2"
  and np_law: "(uint (fr_np P) * qv P + 1) mod B64 = 0"
  and qbits_bounds: "64 * (fr_n64 P - 1) < qbits P" "qbits P \<le> 64 * fr_n64 P"
  and q_ge_pow: "2 ^ (qbits P - 1) \<le> qv P" and q_less_pow: "qv P < 2 ^ qbits P"
  and val_lboMask: "uint (lboMask P) = 2 ^ (qbits P - 64 * (fr_n64 P - 1)) - 1"
  and optimize_law: "if cannotOptimize P then (B64 + 1) * qv P \<le> B64 * Rv P else 2 * qv P \<le> Rv P"
  using params_ok unfolding fr_params_ok_def by (simp_all del: One_nat_def)

lemma q_pos: "0 < qv P"
  by (rule less_trans [OF _ q_gt]) simp

lemma val_q: "lval (fr_q_list P) = qv P"
  by (simp add: qv_def)

lemma q_less_R: "qv P < Rv P"
  using lval_less_length [OF len_q] by (simp add: val_q Rv_def)

lemmas field_lens = n_pos len_q len_r2 len_r3 len_half

text \<open>One conditional subtraction of the prime reduces a value below twice the prime.\<close>

lemma mod_q_once: "0 \<le> v \<Longrightarrow> v < 2 * qv P \<Longrightarrow> v mod qv P = (if v < qv P then v else v - qv P)"
  using minus_mod_self2 [of v "qv P"] mod_pos_pos_trivial [of "v - qv P" "qv P"]
    mod_pos_pos_trivial [of v "qv P"] by (simp split: if_split)

lemma sub_q:
  assumes "length r = fr_n64 P" "lval r = v mod Rv P" "qv P \<le> v" "v < 2 * qv P"
  shows "reduced P (fst (mpn_sub_n G r (fr_q_list P))) v"
proof -
  have "lval (fst (mpn_sub_n G r (fr_q_list P))) = (v - qv P) mod Rv P"
    using sub_n_cases [of r "fr_n64 P" "fr_q_list P"] assms field_lens
    by (simp add: val_q mod_diff_left_eq flip: Rv_def)
  also have "\<dots> = v - qv P"
    using assms q_less_R by (intro mod_pos_pos_trivial) linarith+
  finally show ?thesis
    using sub_n_cases [of r "fr_n64 P" "fr_q_list P"] assms field_lens mod_q_once [of v] q_pos
    by (simp add: reduced_def)
qed

lemma reduce_once:
  assumes "length r = fr_n64 P" "0 \<le> v" "v < 2 * qv P" "lval r = v mod Rv P"
    and "c \<Longrightarrow> Rv P \<le> v" "\<not> c \<Longrightarrow> v < Rv P"
  shows "reduced P (if c \<or> mpn_cmp G r (fr_q_list P) \<ge> 0
      then fst (mpn_sub_n G r (fr_q_list P)) else r) v"
proof (cases "v < qv P")
  case True
  then have "\<not> c" "lval r = v" using assms q_less_R by auto
  then show ?thesis using True assms(1,2) field_lens by (simp add: cmp_ge val_q reduced_def)
next
  case False
  then have "c \<or> lval r \<ge> qv P" using assms by (cases c) auto
  then show ?thesis using sub_q [OF assms(1,4)] False assms(1,3) field_lens
    by (simp add: cmp_ge val_q)
qed

lemma add_q:
  assumes "length r = fr_n64 P" "lval r = v mod Rv P" "- qv P \<le> v" "v < 0"
  shows "reduced P (fst (mpn_add_n G r (fr_q_list P))) v"
proof -
  have "lval (fst (mpn_add_n G r (fr_q_list P))) = (v + qv P) mod Rv P"
    using add_n_cases(4) [of r "fr_n64 P" "fr_q_list P"] assms field_lens
    by (simp add: val_q mod_add_left_eq flip: Rv_def)
  also have "\<dots> = v + qv P"
    using assms q_less_R by (intro mod_pos_pos_trivial) linarith+
  also have "\<dots> = (v + qv P) mod qv P"
    using assms by (intro mod_pos_pos_trivial [symmetric]) linarith+
  finally show ?thesis
    using add_n_cases(1) [of r "fr_n64 P" "fr_q_list P"] assms field_lens
    by (simp add: reduced_def)
qed

lemma fix_borrow:
  assumes "length r = fr_n64 P" "- qv P \<le> v" "v < qv P" "lval r = v mod Rv P" "c \<longleftrightarrow> v < 0"
  shows "reduced P (if c then fst (mpn_add_n G r (fr_q_list P)) else r) v"
proof (cases "v < 0")
  case True
  then show ?thesis using add_q assms by simp
next
  case False
  then have "lval r = v" using assms q_less_R by simp
  then show ?thesis using False assms by (simp add: reduced_def)
qed

text \<open>Sums and differences.\<close>

lemma rawAdd_val:
  assumes "in_field P a" "in_field P b"
  shows "reduced P (Fr_rawAdd G P a b) (lval a + lval b)"
proof -
  have l: "length a = fr_n64 P" "lval a < qv P" "length b = fr_n64 P" "lval b < qv P"
    using assms by (simp_all add: in_field_def)
  note c = add_n_cases [OF l(1,3) n_pos]
  have "reduced P (if snd (mpn_add_n G a b) \<noteq> 0 \<or> mpn_cmp G (fst (mpn_add_n G a b)) (fr_q_list P) \<ge> 0
      then fst (mpn_sub_n G (fst (mpn_add_n G a b)) (fr_q_list P)) else fst (mpn_add_n G a b))
      (lval a + lval b)"
    using c l by (intro reduce_once) (auto simp: Rv_def)
  then show ?thesis by (simp add: Fr_rawAdd_def case_prod_beta Let_def)
qed

lemma rawAddLS_val:
  assumes "in_field P a" "uint b \<le> qv P"
  shows "reduced P (Fr_rawAddLS G P a b) (lval a + uint b)"
proof -
  have l: "length a = fr_n64 P" "lval a < qv P" using assms by (simp_all add: in_field_def)
  note c = add_1_cases [OF l(1) n_pos, of b]
  have "reduced P (if snd (mpn_add_1 G a b) \<noteq> 0 \<or> mpn_cmp G (fst (mpn_add_1 G a b)) (fr_q_list P) \<ge> 0
      then fst (mpn_sub_n G (fst (mpn_add_1 G a b)) (fr_q_list P)) else fst (mpn_add_1 G a b))
      (lval a + uint b)"
    using c l assms(2) by (intro reduce_once) (auto simp: Rv_def)
  then show ?thesis by (simp add: Fr_rawAddLS_def case_prod_beta Let_def)
qed

lemma rawSub_val:
  assumes "in_field P a" "in_field P b"
  shows "reduced P (Fr_rawSub G P a b) (lval a - lval b)"
proof -
  have l: "length a = fr_n64 P" "lval a < qv P" "length b = fr_n64 P" "lval b < qv P"
    using assms by (simp_all add: in_field_def)
  note c = sub_n_cases [OF l(1,3) n_pos]
  have "reduced P (if snd (mpn_sub_n G a b) \<noteq> 0 then
      fst (mpn_add_n G (fst (mpn_sub_n G a b)) (fr_q_list P)) else fst (mpn_sub_n G a b))
      (lval a - lval b)"
    using c l lval_nonneg [of a] lval_nonneg [of b]
    by (intro fix_borrow) (auto simp: Rv_def simp del: lval_nonneg)
  then show ?thesis by (simp add: Fr_rawSub_def case_prod_beta Let_def)
qed

lemma rawSubLS_val:
  assumes "in_field P a" "uint b \<le> qv P"
  shows "reduced P (Fr_rawSubLS G P a b) (lval a - uint b)"
proof -
  have l: "length a = fr_n64 P" "lval a < qv P" using assms by (simp_all add: in_field_def)
  note c = sub_1_cases [OF l(1) n_pos, of b]
  have bd: "- qv P \<le> lval a - uint b" "lval a - uint b < qv P"
    using l(2) assms(2) lval_nonneg [of a] uint64_bounds(1) [of b] by linarith+
  have "reduced P (if snd (mpn_sub_1 G a b) \<noteq> 0 then
      fst (mpn_add_n G (fst (mpn_sub_1 G a b)) (fr_q_list P)) else fst (mpn_sub_1 G a b))
      (lval a - uint b)"
    using c by (intro fix_borrow [OF _ bd]) (auto simp: Rv_def)
  then show ?thesis by (simp add: Fr_rawSubLS_def case_prod_beta Let_def)
qed

lemma short_in_field: "uint x < qv P \<Longrightarrow> in_field P (x # replicate (fr_n64 P - 1) 0)"
  and lval_short: "lval (x # replicate (fr_n64 P - 1) 0) = uint x"
  using n_pos by (simp_all add: in_field_def)

lemma rawSubSL_val:
  assumes "uint a < qv P" "in_field P b"
  shows "reduced P (Fr_rawSubSL G P a b) (uint a - lval b)"
proof -
  have "Fr_rawSubSL G P a b = Fr_rawSub G P (a # replicate (fr_n64 P - 1) 0) b"
    by (simp add: Fr_rawSubSL_def Fr_rawSub_def)
  then show ?thesis using rawSub_val [OF short_in_field assms(2)] assms(1)
    unfolding lval_short by simp
qed

lemma val_zero: "lval (raw_zero P) = 0" "length (raw_zero P) = fr_n64 P"
  by (simp_all add: raw_zero_def)

lemma rawNeg_val:
  assumes "in_field P a"
  shows "reduced P (Fr_rawNeg G P a) (- lval a)"
proof (cases "lval a = 0")
  case True
  then show ?thesis using assms
    by (simp add: Fr_rawNeg_def cmp_eq val_zero in_field_def copyi_law reduced_def)
next
  case False
  have l: "length a = fr_n64 P" "lval a < qv P" using assms by (simp_all add: in_field_def)
  have b: "0 < qv P - lval a" "qv P - lval a < qv P" "qv P - lval a < Rv P"
    using l(2) False lval_nonneg [of a] q_less_R by linarith+
  note c = sub_n_cases [OF len_q l(1) n_pos]
  have "lval (fst (mpn_sub_n G (fr_q_list P) a)) = qv P - lval a"
    using c(3) b by (simp add: val_q flip: Rv_def)
  also have "\<dots> = (- lval a) mod qv P"
    using b False by (simp add: zmod_zminus1_eq_if l(2))
  finally show ?thesis using c(1) l False
    by (simp add: Fr_rawNeg_def cmp_eq val_zero reduced_def)
qed

lemma rawNegLS_val:
  assumes "in_field P a" "0 < uint b" "uint b \<le> qv P"
  shows "reduced P (Fr_rawNegLS G P False a b) (- uint b - lval a)"
proof -
  have l: "length a = fr_n64 P" "lval a < qv P" using assms by (simp_all add: in_field_def)
  note c1 = sub_1_cases [OF len_q n_pos, of b]
  let ?r1 = "fst (mpn_sub_1 G (fr_q_list P) b)"
  note c2 = sub_n_cases [OF c1(1) l(1) n_pos]
  have r1: "lval ?r1 = qv P - uint b"
    using c1(3) assms(2,3) q_less_R by (simp add: val_q flip: Rv_def)
  have nc: "snd (mpn_sub_1 G (fr_q_list P) b) = 0" using c1(2) assms(3) by (simp add: val_q)
  have bd: "- qv P \<le> qv P - uint b - lval a" "qv P - uint b - lval a < qv P"
    using l(2) assms(2,3) lval_nonneg [of a] by linarith+
  let ?r2 = "fst (mpn_sub_n G ?r1 a)" and ?v = "qv P - uint b - lval a"
  have v: "lval ?r2 = ?v mod Rv P" "snd (mpn_sub_n G ?r1 a) \<noteq> 0 \<longleftrightarrow> ?v < 0"
    using c2 r1 by (auto simp: Rv_def)
  have e: "Fr_rawNegLS G P False a b =
      (if snd (mpn_sub_n G ?r1 a) \<noteq> 0 then fst (mpn_add_n G ?r2 (fr_q_list P)) else ?r2)"
    using nc by (simp add: Fr_rawNegLS_def case_prod_beta Let_def)
  have "reduced P (Fr_rawNegLS G P False a b) ?v"
    unfolding e using v c2(1) by (intro fix_borrow [OF _ bd]) auto
  moreover have "?v mod qv P = (- uint b - lval a) mod qv P"
    using mod_add_self1 [of "qv P" "- uint b - lval a"] by (simp add: algebra_simps)
  ultimately show ?thesis by (simp add: reduced_def)
qed

text \<open>Comparisons, and the conversion of a signed machine integer.\<close>

lemma rawIsZero_val: "Fr_rawIsZero G a = (if lval a = 0 then 1 else 0)"
  by (simp add: Fr_rawIsZero_def zero_p_law)

lemma rawCmp_val:
  assumes "length a = length b"
  shows "Fr_rawCmp G a b = 0 \<longleftrightarrow> lval a = lval b" "Fr_rawCmp G a b < 0 \<longleftrightarrow> lval a < lval b"
    "0 < Fr_rawCmp G a b \<longleftrightarrow> lval b < lval a" "0 \<le> Fr_rawCmp G a b \<longleftrightarrow> lval b \<le> lval a"
  using assms by (simp_all add: Fr_rawCmp_def cmp_eq cmp_lt cmp_gt cmp_ge)

lemma rawCopyS2L_val:
  assumes "- (2 ^ 62) \<le> sint v" "sint v \<le> 2 ^ 62"
  shows "reduced P (Fr_rawCopyS2L G P v) (sint v)"
proof (cases "sint v < 0")
  case True
  let ?x = "v # replicate (fr_n64 P - 1) (- 1)"
  have l: "length ?x = fr_n64 P" using n_pos by simp
  have bR: "B64 * base (fr_n64 P - 1) = Rv P" using n_pos by (simp add: Rv_def power_eq_if)
  have "lval ?x = Rv P + sint v"
    using True uint64_bounds(1) [of v] bR
    by (simp add: lval_replicate_ones sint_u64 right_diff_distrib split: if_splits)
  moreover have "(Rv P + sint v) = (Rv P + sint v) mod Rv P"
    using True assms q_gt q_less_R by (intro mod_pos_pos_trivial [symmetric]) linarith+
  ultimately have "lval ?x = sint v mod Rv P" by simp
  then have "reduced P (fst (mpn_add_n G ?x (fr_q_list P))) (sint v)"
    using True assms q_gt by (intro add_q [OF l]) linarith+
  then show ?thesis using True by (simp add: Fr_rawCopyS2L_def)
next
  case False
  then have "sint v = uint v" using uint64_bounds(2) [of v] by (simp add: sint_u64 split: if_splits)
  moreover have "in_field P (v # replicate (fr_n64 P - 1) 0)"
    using calculation False assms q_gt by (intro short_in_field) linarith
  ultimately show ?thesis using False lval_short [of v]
    by (simp add: Fr_rawCopyS2L_def reduced_def in_field_def)
qed

text \<open>The bitwise functions: mask the top limb, then subtract the prime once if needed.\<close>

lemma pow_qbits: "2 ^ qbits P \<le> 2 * qv P" "2 ^ qbits P \<le> Rv P" "(2::int) ^ qbits P dvd Rv P"
proof -
  have "(2::int) ^ qbits P = 2 * 2 ^ (qbits P - 1)" using qbits_bounds by (simp add: power_eq_if)
  then show "2 ^ qbits P \<le> 2 * qv P" using q_ge_pow by simp
  show "2 ^ qbits P \<le> Rv P" "(2::int) ^ qbits P dvd Rv P" unfolding Rv_def base_eq_power
    using qbits_bounds by (auto intro!: power_increasing le_imp_power_dvd)
qed

lemma mask_top_val:
  assumes "length r = fr_n64 P"
  shows "length (mask_top P r) = fr_n64 P" "lval (mask_top P r) = lval r mod 2 ^ qbits P"
proof -
  define k where "k = qbits P - 64 * (fr_n64 P - 1)"
  let ?lo = "take (fr_n64 P - 1) r" and ?x = "r ! (fr_n64 P - 1)"
  have r: "r = ?lo @ [?x]" using assms n_pos
    by (metis One_nat_def Suc_pred lessI less_or_eq_imp_le take_Suc_conv_app_nth take_all_iff)
  have m: "mask_top P r = ?lo @ [?x AND lboMask P]"
    using assms n_pos unfolding mask_top_def
    by (subst (1) r) (simp add: list_update_append del: append_take_drop_id)
  have lo: "length ?lo = fr_n64 P - 1" using assms by simp
  have q: "(2::int) ^ qbits P = base (fr_n64 P - 1) * 2 ^ k"
    using qbits_bounds by (simp add: base_eq_power k_def flip: power_add)
  have "lval (mask_top P r) = lval ?lo + base (fr_n64 P - 1) * (uint ?x mod 2 ^ k)"
    unfolding m lval_append lo k_def
    by (simp add: uint_and val_lboMask and_exp_minus_1 del: One_nat_def)
  also have "\<dots> = (lval ?lo + base (fr_n64 P - 1) * uint ?x) mod (base (fr_n64 P - 1) * 2 ^ k)"
    using lval_less_length [OF lo] by (simp add: zmod_zmult2_eq div_add1_eq)
  also have "lval ?lo + base (fr_n64 P - 1) * uint ?x = lval r"
    using arg_cong [OF r, of lval] unfolding lval_append lo by simp
  finally show "lval (mask_top P r) = lval r mod 2 ^ qbits P" by (simp add: q)
  show "length (mask_top P r) = fr_n64 P" using assms by (simp add: mask_top_def)
qed

lemma mask_reduce:
  assumes "length r = fr_n64 P"
  shows "reduced P (if mpn_cmp G (mask_top P r) (fr_q_list P) \<ge> 0
      then fst (mpn_sub_n G (mask_top P r) (fr_q_list P)) else mask_top P r) (lval r mod 2 ^ qbits P)"
proof -
  have "lval r mod 2 ^ qbits P < 2 ^ qbits P" by simp
  then have "lval r mod 2 ^ qbits P < 2 * qv P" "lval r mod 2 ^ qbits P < Rv P"
    using pow_qbits by linarith+
  then show ?thesis
    using reduce_once [of "mask_top P r" "lval r mod 2 ^ qbits P" False] mask_top_val [OF assms]
    by simp
qed

lemma in_field_bits: "in_field P a \<Longrightarrow> lval a < 2 ^ qbits P"
  using q_less_pow by (auto simp: in_field_def)

lemma rawAnd_val:
  assumes "in_field P a" "in_field P b"
  shows "reduced P (Fr_rawAnd G P a b) (lval a AND lval b)"
proof -
  have l: "length a = length b" "length a = fr_n64 P" using assms by (simp_all add: in_field_def)
  note c = and_n_law [OF l(1)]
  have "lval a AND lval b < 2 ^ qbits P" using in_field_bits [OF assms(1)]
    by (intro and_less_power) auto
  then show ?thesis using mask_reduce [of "mpn_and_n G a b"] c l
    by (simp add: Fr_rawAnd_def Let_def mod_pos_pos_trivial)
qed

lemma rawOr_val:
  assumes "in_field P a" "in_field P b"
  shows "reduced P (Fr_rawOr G P a b) (lval a OR lval b)"
proof -
  have l: "length a = length b" "length a = fr_n64 P" using assms by (simp_all add: in_field_def)
  note c = ior_n_law [OF l(1)]
  have "lval a OR lval b < 2 ^ qbits P" using in_field_bits assms by (intro or_less_power) auto
  then show ?thesis using mask_reduce [of "mpn_ior_n G a b"] c l
    by (simp add: Fr_rawOr_def Let_def mod_pos_pos_trivial)
qed

lemma rawXor_val:
  assumes "in_field P a" "in_field P b"
  shows "reduced P (Fr_rawXor G P a b) (lval a XOR lval b)"
proof -
  have l: "length a = length b" "length a = fr_n64 P" using assms by (simp_all add: in_field_def)
  note c = xor_n_law [OF l(1)]
  have "lval a XOR lval b < 2 ^ qbits P" using in_field_bits assms by (intro xor_less_power) auto
  then show ?thesis using mask_reduce [of "mpn_xor_n G a b"] c l
    by (simp add: Fr_rawXor_def Let_def mod_pos_pos_trivial)
qed

lemma rawNot_val:
  assumes "in_field P a"
  shows "reduced P (Fr_rawNot G P a) (2 ^ qbits P - 1 - lval a)"
proof -
  have l: "length a = fr_n64 P" using assms by (simp add: in_field_def)
  have "(Rv P - 1 - lval a) mod 2 ^ qbits P = (2 ^ qbits P - 1 - lval a) mod 2 ^ qbits P"
    using pow_qbits(3) by (metis diff_diff_eq dvd_imp_mod_0 mod_diff_left_eq mod_self)
  also have "\<dots> = 2 ^ qbits P - 1 - lval a"
    using in_field_bits [OF assms] lval_nonneg [of a] by (intro mod_pos_pos_trivial) linarith+
  finally show ?thesis using mask_reduce [of "mpn_com G a"] com_law [of a] l
    by (simp add: Fr_rawNot_def Let_def Rv_def)
qed

text \<open>The shifts, for a shift count below the bit length of the prime.\<close>

lemma shift_split:
  assumes "unat (b::u64) < qbits P"
  shows "unat (b div 64) < fr_n64 P" "unat (b mod 64) < 64" "b mod 64 < 64"
    "(2::int) ^ unat b = base (unat (b div 64)) * 2 ^ unat (b mod 64)"
proof -
  show "unat (b div 64) < fr_n64 P" using assms qbits_bounds by (simp add: unat_div)
  show "unat (b mod 64) < 64" by (simp add: unat_mod)
  then show "b mod 64 < 64" by (simp add: word_less_nat_alt)
  have "unat b = 64 * unat (b div 64) + unat (b mod 64)" by (simp add: unat_div unat_mod)
  then show "(2::int) ^ unat b = base (unat (b div 64)) * 2 ^ unat (b mod 64)"
    by (metis base_eq_power power_add)
qed

lemma rawShl_val:
  assumes "in_field P a" "unat b < qbits P"
  shows "reduced P (Fr_rawShl G P False a b) (lval a * 2 ^ unat b mod 2 ^ qbits P)"
proof -
  note sp = shift_split [OF assms(2)]
  have la: "length a = fr_n64 P" using assms by (simp add: in_field_def)
  define ws where "ws = unat (b div 64)"
  define r2 where "r2 = replicate ws (0::u64) @ take (fr_n64 P - ws) a"
  have l2: "length r2 = fr_n64 P" using sp(1) la by (simp add: r2_def ws_def)
  have "base ws * base (fr_n64 P - ws) = Rv P" using sp(1)
    by (simp add: Rv_def ws_def flip: power_add)
  then have v2: "lval r2 = (lval a * base ws) mod Rv P"
    using la by (simp add: r2_def lval_append lval_take mult_mod_right mult.commute)
  define r3 where "r3 = (if b mod 64 \<noteq> 0 then fst (mpn_lshift G r2 (b mod 64)) else r2)"
  have l3: "length r3 = fr_n64 P \<and> lval r3 = (lval a * 2 ^ unat b) mod Rv P"
  proof (cases "b mod 64 = 0")
    case True
    then show ?thesis using l2 v2 sp(4) by (simp add: r3_def ws_def)
  next
    case False
    obtain zs c where e: "mpn_lshift G r2 (b mod 64) = (zs, c)" by fastforce
    have "r2 \<noteq> []" using l2 n_pos by auto
    then have "length zs = fr_n64 P" "lval zs = lval r2 * 2 ^ unat (b mod 64) mod Rv P"
      using lshift_law [OF _ _ sp(3) e] False l2 by (auto simp: word_neq_0_conv Rv_def)
    then show ?thesis using False e v2 sp(4)
      by (simp add: r3_def mod_mult_left_eq mult.assoc ws_def)
  qed
  have "drop ws (replicate ws 0 @ take (fr_n64 P - ws) a) = take (fr_n64 P - ws) a" by simp
  then have e: "Fr_rawShl G P False a b = (if mpn_cmp G (mask_top P r3) (fr_q_list P) \<ge> 0
      then fst (mpn_sub_n G (mask_top P r3) (fr_q_list P)) else mask_top P r3)"
    by (simp add: Fr_rawShl_def Let_def copyi_law r3_def r2_def ws_def)
  have "lval r3 mod 2 ^ qbits P = lval a * 2 ^ unat b mod 2 ^ qbits P"
    using l3 pow_qbits(3) by (simp add: mod_mod_cancel)
  then show ?thesis unfolding e using mask_reduce [of r3] l3 by simp
qed

lemma rawShr_val:
  assumes "in_field P a" "unat b < qbits P"
  shows "reduced P (Fr_rawShr G P a b) (lval a div 2 ^ unat b)"
proof -
  note sp = shift_split [OF assms(2)]
  have la: "length a = fr_n64 P" using assms by (simp add: in_field_def)
  define ws where "ws = unat (b div 64)"
  define r1 where "r1 = drop ws a @ replicate ws (0::u64)"
  have l1: "length r1 = fr_n64 P" using sp(1) la by (simp add: r1_def ws_def)
  have v1: "lval r1 = lval a div base ws"
    using la sp(1) by (simp add: r1_def lval_append lval_drop ws_def)
  have e: "Fr_rawShr G P a b = (if b mod 64 \<noteq> 0 then fst (mpn_rshift G r1 (b mod 64)) else r1)"
    using la by (simp add: Fr_rawShr_def Let_def copyi_law r1_def ws_def)
  have "length (Fr_rawShr G P a b) = fr_n64 P \<and> lval (Fr_rawShr G P a b) = lval a div 2 ^ unat b"
  proof (cases "b mod 64 = 0")
    case True
    then show ?thesis using l1 v1 sp(4) e by (simp add: ws_def)
  next
    case False
    obtain zs c where z: "mpn_rshift G r1 (b mod 64) = (zs, c)" by fastforce
    have "r1 \<noteq> []" using l1 n_pos by auto
    then have "length zs = fr_n64 P" "lval zs = lval r1 div 2 ^ unat (b mod 64)"
      using rshift_law [OF _ _ sp(3) z] False l1 by (auto simp: word_neq_0_conv)
    then show ?thesis using False e z v1 sp(4) by (simp add: zdiv_zmult2_eq ws_def)
  qed
  moreover have "lval a div 2 ^ unat b \<le> lval a" using zdiv_mono2 [of "lval a" 1 "2 ^ unat b"] by simp
  moreover have "lval a < qv P" using assms by (simp add: in_field_def)
  ultimately show ?thesis
    by (simp add: reduced_def mod_pos_pos_trivial pos_imp_zdiv_nonneg_iff)
qed

end

subsection \<open>The runtime for bn128\<close>

lemma bn128_fr_field: "fr_field mpn_ref bn128_params"
  by (simp add: fr_field_def fr_field_axioms_def gmp_ref.mpn_lib_axioms bn128_params_ok)

interpretation bn128: fr_field mpn_ref bn128_params
  by (rule bn128_fr_field)

end
