(* ===== verification/FrMont.thy ===== *)
theory FrMont
  imports FrRaw
begin

text \<open>
  Montgomery multiplication of \<open>generic/fr.cpp\<close>: \<open>Fr_rawMMul\<close>, \<open>Fr_rawMMul1\<close>,
  \<open>Fr_rawToMontgomery\<close> and \<open>Fr_rawFromMontgomery\<close>. The template unrolls its loops into the
  arrays \<open>product0, product1, \<dots>\<close> of \<open>N = Fr_N64 + 1\<close> limbs; here the unrolled iterations are
  a recursion that carries the current array and the initial content of the next one. Both
  renderings are kept: the one for primes that fill the top limb (\<open>cannotOptimize\<close>), which
  collects carries, and the one that drops them. The lemmas end in \<open>mmul_val\<close>, \<open>mmul1_val\<close> and
  \<open>fromMontgomery_val\<close>: the result is the reduced quotient by the radix.
\<close>

subsection \<open>The functions\<close>

definition Fr_rawq :: "fr_params \<Rightarrow> limbs" where
  "Fr_rawq P = fr_q_list P @ [0]"

text \<open>The end of the three functions: the last reduction step, the copy, the subtraction.\<close>

definition mont_last :: "mpn_api \<Rightarrow> fr_params \<Rightarrow> limbs \<Rightarrow> u64 \<Rightarrow> limbs" where
  "mont_last G P product c =
     (let np0 = fr_np P * product ! 0;
          (product', carry) = mpn_addmul_1 G product (Fr_rawq P) np0;
          r = mpn_copyi G (drop 1 product')
      in if (cannotOptimize P \<and> c + carry \<noteq> 0) \<or> mpn_cmp G r (fr_q_list P) \<ge> 0
         then fst (mpn_sub_n G r (fr_q_list P)) else r)"

text \<open>
  The iterations of \<open>Fr_rawMMul\<close> over \<open>pRawA[1], pRawA[2], \<dots>\<close>, for a prime without a spare
  bit. \<open>nxt\<close> is \<open>product{i+1}\<close> as the iteration finds it: zero, but for the top limb, where
  the previous iteration stored the carry of its addition.
\<close>

fun mmul_loop :: "mpn_api \<Rightarrow> fr_params \<Rightarrow> limbs \<Rightarrow> limbs \<Rightarrow> limbs \<Rightarrow> limbs \<Rightarrow> limbs \<times> u64" where
  "mmul_loop G P pRawB [] product nxt = (product, 0)"
| "mmul_loop G P pRawB (a # as) product nxt =
     (let n = fr_n64 P;
          np0 = fr_np P * product ! 0;
          (product', c1) = mpn_addmul_1 G product (Fr_rawq P) np0;
          nxt1 = nxt[n := c1];
          (lo, c2) = mpn_addmul_1 G (take n nxt1) pRawB a;
          nxt2 = lo @ [nxt1 ! n + c2];
          (nxt3, c3) = mpn_add G nxt2 (drop 1 product')
      in if as = [] then (nxt3, c3)
         else mmul_loop G P pRawB as nxt3 ((replicate (n + 1) 0)[n := c3]))"

text \<open>
  The same iterations for a prime with a spare bit, as circom's template has them; the copy in
  rapidsnark stores the carry of the first line, which is zero for such a prime, at index one.
\<close>

fun mmul_loop_opt :: "mpn_api \<Rightarrow> fr_params \<Rightarrow> limbs \<Rightarrow> limbs \<Rightarrow> limbs \<Rightarrow> limbs" where
  "mmul_loop_opt G P pRawB [] product = product"
| "mmul_loop_opt G P pRawB (a # as) product =
     (let n = fr_n64 P;
          np0 = fr_np P * product ! 0;
          (product', c1) = mpn_addmul_1 G product (Fr_rawq P) np0;
          nxt1 = (replicate (n + 1) 0)[n := c1];
          (lo, c2) = mpn_addmul_1 G (take n nxt1) pRawB a;
          nxt2 = lo @ [c2];
          (nxt3, c3) = mpn_add G nxt2 (drop 1 product')
      in mmul_loop_opt G P pRawB as nxt3)"

definition Fr_rawMMul :: "mpn_api \<Rightarrow> fr_params \<Rightarrow> limbs \<Rightarrow> limbs \<Rightarrow> limbs" where
  "Fr_rawMMul G P pRawA pRawB =
     (let n = fr_n64 P;
          (lo, c0) = mpn_mul_1 G pRawB (pRawA ! 0);
          product0 = lo @ [c0]
      in if cannotOptimize P
         then (case mmul_loop G P pRawB (drop 1 pRawA) product0 (replicate (n + 1) 0) of
                 (product, c) \<Rightarrow> mont_last G P product c)
         else mont_last G P (mmul_loop_opt G P pRawB (drop 1 pRawA) product0) 0)"

definition Fr_rawMSquare :: "mpn_api \<Rightarrow> fr_params \<Rightarrow> limbs \<Rightarrow> limbs" where
  "Fr_rawMSquare G P pRawA = Fr_rawMMul G P pRawA pRawA"

text \<open>The \<open>Fr_N64 - 1\<close> reduction steps of \<open>Fr_rawMMul1\<close> and \<open>Fr_rawFromMontgomery\<close>.\<close>

fun redc_loop :: "mpn_api \<Rightarrow> fr_params \<Rightarrow> nat \<Rightarrow> limbs \<Rightarrow> limbs" where
  "redc_loop G P 0 product = product"
| "redc_loop G P (Suc k) product =
     (let n = fr_n64 P;
          np0 = fr_np P * product ! 0;
          (product', c1) = mpn_addmul_1 G product (Fr_rawq P) np0;
          nxt1 = (if cannotOptimize P then (replicate (n + 1) 0)[n := c1]
                  else (replicate (n + 1) 0)[1 := c1]);
          (nxt2, c2) = mpn_add G nxt1 (drop 1 product')
      in redc_loop G P k nxt2)"

definition Fr_rawMMul1 :: "mpn_api \<Rightarrow> fr_params \<Rightarrow> limbs \<Rightarrow> u64 \<Rightarrow> limbs" where
  "Fr_rawMMul1 G P pRawA pRawB =
     (let (lo, c0) = mpn_mul_1 G pRawA pRawB;
          product0 = lo @ [c0]
      in mont_last G P (redc_loop G P (fr_n64 P - 1) product0) 0)"

definition Fr_rawToMontgomery :: "mpn_api \<Rightarrow> fr_params \<Rightarrow> limbs \<Rightarrow> limbs" where
  "Fr_rawToMontgomery G P pRawA = Fr_rawMMul G P pRawA (fr_r2_list P)"

definition Fr_rawFromMontgomery :: "mpn_api \<Rightarrow> fr_params \<Rightarrow> limbs \<Rightarrow> limbs" where
  "Fr_rawFromMontgomery G P pRawA =
     (let product0 = mpn_copyi G pRawA @ [0]
      in mont_last G P (redc_loop G P (fr_n64 P - 1) product0) 0)"

subsection \<open>One reduction step\<close>

context fr_field
begin

lemma rawq: "length (Fr_rawq P) = fr_n64 P + 1" "lval (Fr_rawq P) = qv P"
  by (simp_all add: Fr_rawq_def len_q lval_append val_q)

lemma sum_bound: "(B64 + 1) * qv P \<le> B64 * Rv P"
proof (cases "cannotOptimize P")
  case True
  then show ?thesis using optimize_law by simp
next
  case False
  then have "B64 * (2 * qv P) \<le> B64 * Rv P" using optimize_law by (intro mult_left_mono) auto
  moreover have "(B64 + 1) * qv P \<le> (B64 * 2) * qv P"
    using q_pos by (intro mult_right_mono) auto
  ultimately show ?thesis by (simp only: mult.assoc)
qed

lemma np0_cancels:
  assumes "xs \<noteq> []"
  shows "(lval xs + qv P * uint (fr_np P * xs ! 0)) mod B64 = 0"
proof -
  have np0: "uint (fr_np P * xs ! 0) = (uint (fr_np P) * lval xs) mod B64"
    unfolding uint_mult_u64 lval_hd [OF assms, symmetric] by (rule mod_mult_right_eq)
  have "(lval xs + qv P * uint (fr_np P * xs ! 0)) mod B64
      = (lval xs + qv P * (uint (fr_np P) * lval xs)) mod B64"
    unfolding np0 by (metis mod_add_right_eq mod_mult_right_eq)
  also have "\<dots> = (lval xs * (uint (fr_np P) * qv P + 1)) mod B64"
    by (simp add: algebra_simps)
  also have "\<dots> = 0" using np_law by (metis mod_mult_right_eq mult_zero_right mod_0)
  finally show ?thesis .
qed

lemma redc_step:
  assumes l: "length product = fr_n64 P + 1" and b: "lval product < (B64 + 1) * qv P"
    and e: "mpn_addmul_1 G product (Fr_rawq P) (fr_np P * product ! 0) = (p', c1)"
  defines "u \<equiv> lval (drop 1 p') + Rv P * uint c1"
  shows "length p' = fr_n64 P + 1" and "u < 2 * qv P"
    and "\<exists>k. u * B64 = lval product + k * qv P" and "\<not> cannotOptimize P \<Longrightarrow> c1 = 0"
proof -
  define m where "m = uint (fr_np P * product ! 0)"
  have ne: "product \<noteq> []" and nq: "Fr_rawq P \<noteq> []" using l rawq by auto
  have law: "length p' = fr_n64 P + 1"
    "lval p' + base (fr_n64 P + 1) * uint c1 = lval product + qv P * m"
    using addmul_1_law [OF _ nq e] l rawq by (auto simp: m_def)
  then show lp: "length p' = fr_n64 P + 1" by simp
  have np: "p' \<noteq> []" using lp by auto
  have "lval p' mod B64 = (lval p' + base (fr_n64 P + 1) * uint c1) mod B64"
    by (simp add: mult.assoc)
  also have "\<dots> = 0" using law(2) np0_cancels [OF ne] by (simp add: m_def)
  finally have "lval p' = B64 * lval (drop 1 p')"
    using lval_tl [OF np] mult_div_mod_eq [of B64 "lval p'"] by simp
  then have eq: "u * B64 = lval product + m * qv P"
    using law(2) by (simp add: u_def Rv_def algebra_simps)
  then show "\<exists>k. u * B64 = lval product + k * qv P" by blast
  have "m * qv P \<le> (B64 - 1) * qv P"
    using uint64_le q_pos by (intro mult_right_mono) (auto simp: m_def)
  then have "u * B64 < (2 * qv P) * B64" using eq b by (simp add: algebra_simps)
  then show u: "u < 2 * qv P" by simp
  show "c1 = 0" if "\<not> cannotOptimize P"
  proof (rule ccontr)
    assume "c1 \<noteq> 0"
    then have "Rv P * 1 \<le> Rv P * uint c1" using uint_ge_1 by (intro mult_left_mono) (auto simp: Rv_def)
    then have "Rv P \<le> u" unfolding u_def using lval_nonneg [of "drop 1 p'"] by linarith
    then show False using u optimize_law that by auto
  qed
qed

lemma mont_last_val:
  assumes l: "length product = fr_n64 P + 1" and b: "lval product < (B64 + 1) * qv P"
  shows "\<exists>v k. reduced P (mont_last G P product 0) v \<and> v * B64 = lval product + k * qv P"
proof -
  obtain p' c1 where e: "mpn_addmul_1 G product (Fr_rawq P) (fr_np P * product ! 0) = (p', c1)"
    by fastforce
  note st = redc_step [OF l b e]
  let ?r = "drop 1 p'" and ?v = "lval (drop 1 p') + Rv P * uint c1"
  have lr: "length ?r = fr_n64 P" using st(1) by simp
  have red: "reduced P (if (cannotOptimize P \<and> c1 \<noteq> 0) \<or> mpn_cmp G ?r (fr_q_list P) \<ge> 0
      then fst (mpn_sub_n G ?r (fr_q_list P)) else ?r) ?v"
  proof (rule reduce_once [OF lr _ st(2)])
    show "0 \<le> ?v" by (simp add: Rv_def)
    show "lval ?r = ?v mod Rv P" using lval_less_length [OF lr] by (simp add: Rv_def)
    show "Rv P \<le> ?v" if "cannotOptimize P \<and> c1 \<noteq> 0"
    proof -
      have "Rv P * 1 \<le> Rv P * uint c1"
        using uint_ge_1 that by (intro mult_left_mono) (auto simp: Rv_def)
      then show ?thesis using lval_nonneg [of ?r] by linarith
    qed
    show "?v < Rv P" if "\<not> (cannotOptimize P \<and> c1 \<noteq> 0)"
      using that st(4) lval_less_length [OF lr] by (auto simp: Rv_def)
  qed
  obtain k where k: "?v * B64 = lval product + k * qv P" using st(3) by blast
  have m: "mont_last G P product 0 = (if (cannotOptimize P \<and> c1 \<noteq> 0) \<or> mpn_cmp G ?r (fr_q_list P) \<ge> 0
      then fst (mpn_sub_n G ?r (fr_q_list P)) else ?r)"
    by (simp add: mont_last_def Let_def e copyi_law)
  show ?thesis unfolding m using red k by blast
qed

subsection \<open>The loops\<close>

lemma acc_step:
  assumes B: "in_field P B" and l: "length product = fr_n64 P + 1"
    and b: "lval product < (B64 + 1) * qv P"
    and e1: "mpn_addmul_1 G product (Fr_rawq P) (fr_np P * product ! 0) = (p', c1)"
    and e2: "mpn_addmul_1 G (replicate (fr_n64 P) 0) B a = (lo, c2)"
    and e3: "mpn_add G (lo @ [c1 + c2]) (drop 1 p') = (r, c3)"
  shows "length r = fr_n64 P + 1" "lval r < (B64 + 1) * qv P" "c3 = 0"
    "\<exists>k. lval r * B64 = lval product + B64 * (uint a * lval B) + k * qv P"
proof -
  note st = redc_step [OF l b e1]
  let ?u = "lval (drop 1 p') + Rv P * uint c1"
  have lB: "length B = fr_n64 P" "lval B < qv P" and nB: "B \<noteq> []"
    using B n_pos by (auto simp: in_field_def)
  have law2: "length lo = fr_n64 P" "lval lo + Rv P * uint c2 = lval B * uint a"
    using addmul_1_law [OF _ nB e2] lB by (auto simp: Rv_def)
  have "lval B * uint a \<le> qv P * (B64 - 1)"
    using lB uint64_le q_pos by (intro mult_mono) auto
  then have tot: "lval B * uint a + ?u < (B64 + 1) * qv P"
    using st(2) by (simp add: algebra_simps)
  have "Rv P * (uint c1 + uint c2) \<le> lval B * uint a + ?u"
    using law2(2) lval_nonneg [of lo] lval_nonneg [of "drop 1 p'"]
    unfolding distrib_left by linarith
  also have "\<dots> < Rv P * B64" using tot sum_bound by (simp add: mult.commute)
  finally have "uint c1 + uint c2 < B64" by (simp add: Rv_def)
  then have c12: "uint (c1 + c2) = uint c1 + uint c2" by (simp add: uint_add_u64)
  have sum: "lval (lo @ [c1 + c2]) + lval (drop 1 p') = lval B * uint a + ?u"
    using law2 by (simp add: lval_append c12 Rv_def distrib_left)
  have nd: "drop 1 p' \<noteq> []" "length (drop 1 p') \<le> length (lo @ [c1 + c2])"
    using st(1) n_pos law2(1) by auto
  have law3: "length r = fr_n64 P + 1"
    "lval r + base (fr_n64 P + 1) * uint c3 = lval B * uint a + ?u"
    using add_law [OF nd e3] law2(1) sum by auto
  then show "length r = fr_n64 P + 1" by simp
  have "lval B * uint a + ?u < base (fr_n64 P + 1)" using tot sum_bound by (simp add: Rv_def)
  then show c3: "c3 = 0" using carry_cases(2) [OF law3] by (meson not_le)
  then have r: "lval r = lval B * uint a + ?u" using law3 by simp
  then show "lval r < (B64 + 1) * qv P" using tot by simp
  obtain k where "?u * B64 = lval product + k * qv P" using st(3) by blast
  then have "lval r * B64 = lval product + B64 * (uint a * lval B) + k * qv P"
    unfolding r by (simp add: algebra_simps)
  then show "\<exists>k. lval r * B64 = lval product + B64 * (uint a * lval B) + k * qv P" by blast
qed

lemma step_chain:
  fixes x y z s t k k' q w :: int
  assumes "x * w = y + w * (a * v) + k * q" "z * s = x + w * t * v + k' * q"
  shows "\<exists>k. z * (w * s) = y + w * (a + w * t) * v + k * q"
proof -
  have "z * (w * s) = (z * s) * w" by simp
  also have "\<dots> = x * w + w * (w * t * v) + (w * k') * q" unfolding assms(2) by (simp add: algebra_simps)
  also have "\<dots> = y + w * (a + w * t) * v + (k + w * k') * q"
    unfolding assms(1) by (simp add: algebra_simps)
  finally show ?thesis by blast
qed

definition loop_result :: "limbs \<Rightarrow> limbs \<Rightarrow> limbs \<Rightarrow> limbs \<Rightarrow> bool" where
  "loop_result product as B r \<longleftrightarrow> length r = fr_n64 P + 1 \<and> lval r < (B64 + 1) * qv P \<and>
     (\<exists>k. lval r * base (length as) = lval product + B64 * lval as * lval B + k * qv P)"

lemma loop_result_Cons:
  assumes "lval s * B64 = lval product + B64 * (uint a * lval B) + k * qv P"
    and "loop_result s as B r"
  shows "loop_result product (a # as) B r"
  using assms(2) step_chain [OF assms(1)] by (auto simp: loop_result_def)

lemma mmul_loop_val:
  assumes B: "in_field P B" and "length product = fr_n64 P + 1"
    and "lval product < (B64 + 1) * qv P"
    and "length nxt = fr_n64 P + 1" "take (fr_n64 P) nxt = replicate (fr_n64 P) 0"
    and "mmul_loop G P B as product nxt = (r, c)"
  shows "c = 0 \<and> loop_result product as B r"
  using assms(2-)
proof (induction as arbitrary: product nxt)
  case Nil
  then show ?case by (auto simp: loop_result_def)
next
  case (Cons a as)
  obtain p' c1 where e1: "mpn_addmul_1 G product (Fr_rawq P) (fr_np P * product ! 0) = (p', c1)"
    by fastforce
  obtain lo c2 where e2: "mpn_addmul_1 G (replicate (fr_n64 P) 0) B a = (lo, c2)" by fastforce
  obtain s c3 where e3: "mpn_add G (lo @ [c1 + c2]) (drop 1 p') = (s, c3)" by fastforce
  note st = acc_step [OF B Cons.prems(1,2) e1 e2 e3]
  obtain k where k: "lval s * B64 = lval product + B64 * (uint a * lval B) + k * qv P"
    using st(4) by blast
  have t: "take (fr_n64 P) (nxt[fr_n64 P := c1]) = replicate (fr_n64 P) 0"
    "nxt[fr_n64 P := c1] ! fr_n64 P = c1"
    using Cons.prems(3,4) by (simp_all add: take_update_swap list_update_beyond)
  have e3': "mpn_add G (lo @ [c1 + c2]) (drop (Suc 0) p') = (s, c3)" using e3 by simp
  let ?nx = "(replicate (fr_n64 P + 1) (0::u64))[fr_n64 P := c3]"
  have loop: "mmul_loop G P B (a # as) product nxt =
      (if as = [] then (s, c3) else mmul_loop G P B as s ?nx)"
    using t by (simp add: Let_def e1 e2 e3')
  show ?case
  proof (cases "as = []")
    case True
    then have "loop_result s as B r" "c = 0"
      using loop Cons.prems(5) st(1-3) by (auto simp: loop_result_def)
    then show ?thesis using loop_result_Cons [OF k] by blast
  next
    case False
    have "mmul_loop G P B as s ?nx = (r, c)" using loop Cons.prems(5) False by simp
    then have "c = 0 \<and> loop_result s as B r"
      by (intro Cons.IH [OF st(1,2)]) (simp_all add: take_update_swap list_update_beyond del: replicate.simps)
    then show ?thesis using loop_result_Cons [OF k] by blast
  qed
qed

lemma mmul_loop_opt_val:
  assumes B: "in_field P B" and opt: "\<not> cannotOptimize P" and "length product = fr_n64 P + 1"
    and "lval product < (B64 + 1) * qv P"
  shows "loop_result product as B (mmul_loop_opt G P B as product)"
  using assms(3-)
proof (induction as arbitrary: product)
  case Nil
  then show ?case by (auto simp: loop_result_def)
next
  case (Cons a as)
  obtain p' c1 where e1: "mpn_addmul_1 G product (Fr_rawq P) (fr_np P * product ! 0) = (p', c1)"
    by fastforce
  obtain lo c2 where e2: "mpn_addmul_1 G (replicate (fr_n64 P) 0) B a = (lo, c2)" by fastforce
  obtain s c3 where e3: "mpn_add G (lo @ [c1 + c2]) (drop 1 p') = (s, c3)" by fastforce
  note st = acc_step [OF B Cons.prems e1 e2 e3]
  obtain k where k: "lval s * B64 = lval product + B64 * (uint a * lval B) + k * qv P"
    using st(4) by blast
  have c1: "c1 = 0" using redc_step(4) [OF Cons.prems e1 opt] .
  have "take (fr_n64 P) ((replicate (fr_n64 P + 1) (0::u64))[fr_n64 P := c1]) = replicate (fr_n64 P) 0"
    by (simp add: take_update_swap list_update_beyond del: replicate.simps)
  moreover have "mpn_add G (lo @ [c2]) (drop (Suc 0) p') = (s, c3)" using e3 c1 by simp
  ultimately have "mmul_loop_opt G P B (a # as) product = mmul_loop_opt G P B as s"
    using e1 e2 by (simp add: Let_def del: replicate.simps)
  then show ?case using loop_result_Cons [OF k] Cons.IH [OF st(1,2)] by simp
qed

subsection \<open>The results\<close>

text \<open>The radix is invertible modulo the prime.\<close>

lemma coprime_R: "coprime (qv P) (Rv P)"
  using odd_q by (simp add: Rv_def base_eq_power coprime_commute)

lemma cancel_R:
  assumes "(u * Rv P) mod qv P = (w * Rv P) mod qv P"
  shows "u mod qv P = w mod qv P"
proof -
  have "qv P dvd (u - w) * Rv P"
    using assms by (simp add: left_diff_distrib mod_eq_dvd_iff)
  then have "qv P dvd u - w" using coprime_R by (simp add: coprime_dvd_mult_left_iff)
  then show ?thesis by (simp add: mod_eq_dvd_iff)
qed

lemma mont_quot: "\<exists>w. t mod qv P = (w * Rv P) mod qv P"
proof -
  obtain a c where "a * qv P + c * Rv P = gcd (qv P) (Rv P)" using bezout_int by blast
  then have "a * qv P + c * Rv P = 1" using coprime_R by simp
  then have "t = (t * c) * Rv P + (t * a) * qv P" by (metis (no_types) add.commute distrib_left mult.assoc mult.right_neutral)
  then show ?thesis by (metis mod_mult_self1)
qed

lemma reduced_quotient:
  assumes "reduced P r v" "v * Rv P = t + k * qv P" "t mod qv P = (w * Rv P) mod qv P"
  shows "reduced P r w"
proof -
  have "(v * Rv P) mod qv P = (w * Rv P) mod qv P" using assms(2,3) by simp
  then have "v mod qv P = w mod qv P" by (rule cancel_R)
  then show ?thesis using assms(1) by (simp add: reduced_def)
qed

lemma loop_last:
  assumes "loop_result product as B r" and "length as = fr_n64 P - 1"
  shows "\<exists>v k. reduced P (mont_last G P r 0) v \<and>
    v * Rv P = lval product + B64 * lval as * lval B + k * qv P"
proof -
  obtain k1 where r: "length r = fr_n64 P + 1" "lval r < (B64 + 1) * qv P"
    "lval r * base (fr_n64 P - 1) = lval product + B64 * lval as * lval B + k1 * qv P"
    using assms by (auto simp: loop_result_def)
  obtain v k2 where v: "reduced P (mont_last G P r 0) v" "v * B64 = lval r + k2 * qv P"
    using mont_last_val [OF r(1,2)] by blast
  have "v * Rv P = (v * B64) * base (fr_n64 P - 1)" using n_pos by (simp add: Rv_def power_eq_if)
  also have "\<dots> = lval r * base (fr_n64 P - 1) + (k2 * base (fr_n64 P - 1)) * qv P"
    unfolding v(2) by (simp add: algebra_simps)
  also have "\<dots> = lval product + B64 * lval as * lval B + (k1 + k2 * base (fr_n64 P - 1)) * qv P"
    unfolding r(3) by (simp add: algebra_simps)
  finally show ?thesis using v(1) by blast
qed

lemma first_product:
  assumes B: "in_field P B" and e: "mpn_mul_1 G B a = (lo, c0)"
  shows "length (lo @ [c0]) = fr_n64 P + 1" "lval (lo @ [c0]) = lval B * uint a"
    "lval (lo @ [c0]) < (B64 + 1) * qv P"
proof -
  have lB: "length B = fr_n64 P" "lval B < qv P" "B \<noteq> []"
    using B n_pos by (auto simp: in_field_def)
  have law: "length lo = fr_n64 P" "lval lo + Rv P * uint c0 = lval B * uint a"
    using mul_1_law [OF lB(3) e] lB by (auto simp: Rv_def)
  then show "length (lo @ [c0]) = fr_n64 P + 1" "lval (lo @ [c0]) = lval B * uint a"
    by (simp_all add: lval_append Rv_def)
  moreover have "lval B * uint a \<le> qv P * B64"
    using lB q_pos by (intro mult_mono) (auto simp: less_imp_le)
  ultimately show "lval (lo @ [c0]) < (B64 + 1) * qv P" using q_pos by (simp add: algebra_simps)
qed

lemma mmul_quotient:
  assumes a: "length a = fr_n64 P" and B: "in_field P b"
  shows "\<exists>v k. reduced P (Fr_rawMMul G P a b) v \<and> v * Rv P = lval a * lval b + k * qv P"
proof -
  obtain lo c0 where e: "mpn_mul_1 G b (a ! 0) = (lo, c0)" by fastforce
  note f = first_product [OF B e]
  have as: "length (drop 1 a) = fr_n64 P - 1" using a by simp
  have "a = (a ! 0) # drop 1 a" using a n_pos by (cases a) auto
  then have "lval a = uint (a ! 0) + B64 * lval (drop 1 a)" by (metis lval.simps(2))
  then have sum: "lval (lo @ [c0]) + B64 * lval (drop 1 a) * lval b = lval a * lval b"
    unfolding f(2) by (simp add: algebra_simps)
  show ?thesis
  proof (cases "cannotOptimize P")
    case True
    obtain r c where l: "mmul_loop G P b (drop 1 a) (lo @ [c0]) (replicate (fr_n64 P + 1) 0) = (r, c)"
      by fastforce
    have "c = 0 \<and> loop_result (lo @ [c0]) (drop 1 a) b r"
      by (rule mmul_loop_val [OF B f(1,3) _ _ l]) (simp_all del: replicate.simps)
    moreover have "Fr_rawMMul G P a b = mont_last G P r c"
      using True e l by (simp add: Fr_rawMMul_def Let_def del: replicate.simps)
    ultimately show ?thesis using loop_last [OF _ as] sum by (metis (no_types, lifting))
  next
    case False
    then have "Fr_rawMMul G P a b = mont_last G P (mmul_loop_opt G P b (drop 1 a) (lo @ [c0])) 0"
      using e by (simp add: Fr_rawMMul_def Let_def)
    then show ?thesis
      using loop_last [OF mmul_loop_opt_val [OF B False f(1,3)] as] sum by simp
  qed
qed

lemma mmul_val:
  assumes "length a = fr_n64 P" "in_field P b" "(lval a * lval b) mod qv P = (w * Rv P) mod qv P"
  shows "reduced P (Fr_rawMMul G P a b) w"
  using mmul_quotient [OF assms(1,2)] reduced_quotient assms(3) by blast

lemma redc_loop_val:
  assumes "length product = fr_n64 P + 1" "lval product < (B64 + 1) * qv P" "j < fr_n64 P"
  shows "length (redc_loop G P j product) = fr_n64 P + 1 \<and>
    lval (redc_loop G P j product) < (B64 + 1) * qv P \<and>
    (\<exists>k. lval (redc_loop G P j product) * base j = lval product + k * qv P)"
  using assms
proof (induction j arbitrary: product)
  case 0
  then show ?case by auto
next
  case (Suc j)
  obtain p' c1 where e1: "mpn_addmul_1 G product (Fr_rawq P) (fr_np P * product ! 0) = (p', c1)"
    by fastforce
  note st = redc_step [OF Suc.prems(1,2) e1]
  let ?nx = "if cannotOptimize P then (replicate (fr_n64 P + 1) (0::u64))[fr_n64 P := c1]
      else (replicate (fr_n64 P + 1) 0)[1 := c1]"
  obtain s c2 where e2: "mpn_add G ?nx (drop 1 p') = (s, c2)" by fastforce
  have nx: "length ?nx = fr_n64 P + 1" "lval ?nx = Rv P * uint c1"
  proof -
    have "(replicate (fr_n64 P + 1) (0::u64))[fr_n64 P := c1] = replicate (fr_n64 P) 0 @ [c1]"
      unfolding replicate_add by (simp add: list_update_append)
    moreover have "(replicate (fr_n64 P + 1) (0::u64))[1 := 0] = replicate (fr_n64 P + 1) 0"
      by (metis list_update_id list_update_beyond length_replicate nth_replicate not_less)
    ultimately show "length ?nx = fr_n64 P + 1" "lval ?nx = Rv P * uint c1"
      using st(4) by (auto simp: lval_append Rv_def simp del: replicate.simps One_nat_def)
  qed
  let ?u = "lval (drop 1 p') + Rv P * uint c1"
  have nd: "drop 1 p' \<noteq> []" "length (drop 1 p') \<le> length ?nx"
    using st(1) nx(1) n_pos by (auto simp del: replicate.simps)
  have law: "length s = fr_n64 P + 1" "lval s + base (fr_n64 P + 1) * uint c2 = ?u"
    using add_law [OF nd e2] nx by auto
  have "2 * qv P \<le> (B64 + 1) * qv P" using q_pos by (intro mult_right_mono) (auto simp: B64_def)
  then have u: "?u < (B64 + 1) * qv P" "?u < base (fr_n64 P + 1)"
    using st(2) sum_bound by (auto simp: Rv_def)
  then have "c2 = 0" using carry_cases(2) [OF law] by (meson not_le)
  then have s: "lval s = ?u" using law by simp
  have sb: "lval s < (B64 + 1) * qv P" using s u by simp
  have red: "redc_loop G P (Suc j) product = redc_loop G P j s"
    using e1 e2 by (simp add: Let_def del: replicate.simps One_nat_def)
  obtain k where k: "lval s * B64 = lval product + k * qv P" using st(3) s by auto
  obtain k' where k': "lval (redc_loop G P j s) * base j = lval s + k' * qv P"
    using Suc.IH [OF law(1) sb] Suc.prems(3) by auto
  have "lval (redc_loop G P j s) * base (Suc j) = (lval (redc_loop G P j s) * base j) * B64" by simp
  also have "\<dots> = lval s * B64 + (k' * B64) * qv P" unfolding k' by (simp add: algebra_simps)
  also have "\<dots> = lval product + (k + k' * B64) * qv P" unfolding k by (simp add: algebra_simps)
  finally show ?case unfolding red using Suc.IH [OF law(1) sb Suc_lessD [OF Suc.prems(3)]] by blast
qed

lemma redc_val:
  assumes "length product = fr_n64 P + 1" "lval product < (B64 + 1) * qv P"
    and "lval product mod qv P = (w * Rv P) mod qv P"
  shows "reduced P (mont_last G P (redc_loop G P (fr_n64 P - 1) product) 0) w"
proof -
  let ?r = "redc_loop G P (fr_n64 P - 1) product"
  have "loop_result product (replicate (fr_n64 P - 1) 0) [] ?r"
    using redc_loop_val [OF assms(1,2), of "fr_n64 P - 1"] n_pos by (auto simp: loop_result_def)
  from loop_last [OF this] show ?thesis using reduced_quotient assms(3) by auto
qed

lemma mmul1_val:
  assumes "in_field P a" "(lval a * uint b) mod qv P = (w * Rv P) mod qv P"
  shows "reduced P (Fr_rawMMul1 G P a b) w"
proof -
  obtain lo c0 where e: "mpn_mul_1 G a b = (lo, c0)" by fastforce
  note f = first_product [OF assms(1) e]
  show ?thesis using redc_val [OF f(1,3)] assms(2) f(2) e
    by (simp add: Fr_rawMMul1_def Let_def del: One_nat_def)
qed

lemma fromMontgomery_val:
  assumes "in_field P a" "lval a mod qv P = (w * Rv P) mod qv P"
  shows "reduced P (Fr_rawFromMontgomery G P a) w"
proof -
  have "length (a @ [0]) = fr_n64 P + 1" "lval (a @ [0]) = lval a" "lval a < qv P"
    using assms by (simp_all add: in_field_def lval_append)
  moreover have "qv P \<le> (B64 + 1) * qv P" using q_pos by simp
  ultimately show ?thesis using redc_val [of "a @ [0]" w] assms(2)
    by (simp add: Fr_rawFromMontgomery_def Let_def copyi_law del: One_nat_def)
qed

lemma toMontgomery_val:
  assumes "length a = fr_n64 P"
  shows "reduced P (Fr_rawToMontgomery G P a) (lval a * Rv P)"
proof -
  have "(lval a * lval (fr_r2_list P)) mod qv P = (lval a * Rv P * Rv P) mod qv P"
    by (simp add: val_r2 mod_mult_right_eq power2_eq_square mult.assoc)
  moreover have "in_field P (fr_r2_list P)" using q_pos by (simp add: in_field_def len_r2 val_r2)
  ultimately show ?thesis using mmul_val [OF assms] by (simp add: Fr_rawToMontgomery_def)
qed

end

subsection \<open>The results\<close>

text \<open>
  Property C6. Montgomery multiplication, in both renderings of the template, returns a
  reduced limb array that holds the product of its operands divided by the radix, and
  multiplying by one machine word does the same.
\<close>

theorem Fr_rawMMul_correct:
  assumes "fr_field G P" "in_field P a" "in_field P b"
  shows "in_field P (Fr_rawMMul G P a b) \<and>
    (lval (Fr_rawMMul G P a b) * Rv P) mod qv P = (lval a * lval b) mod qv P \<and>
    in_field P (Fr_rawMMul1 G P a w) \<and>
    (lval (Fr_rawMMul1 G P a w) * Rv P) mod qv P = (lval a * uint w) mod qv P"
proof -
  have q: "0 < qv P" by (rule fr_field.q_pos [OF assms(1)])
  obtain x where x: "(lval a * lval b) mod qv P = (x * Rv P) mod qv P"
    using fr_field.mont_quot [OF assms(1)] by blast
  obtain y where y: "(lval a * uint w) mod qv P = (y * Rv P) mod qv P"
    using fr_field.mont_quot [OF assms(1)] by blast
  have "reduced P (Fr_rawMMul G P a b) x"
    using fr_field.mmul_val [OF assms(1) _ assms(3) x] assms(2) by (simp add: in_field_def)
  moreover have "reduced P (Fr_rawMMul1 G P a w) y"
    by (rule fr_field.mmul1_val [OF assms(1,2) y])
  ultimately show ?thesis using q x y by (simp add: reduced_def in_field_def mod_mult_left_eq)
qed

theorem Fr_rawMMul_correct_witness:
  "(lval (Fr_rawMMul mpn_ref bn128_params (fr_r2_list bn128_params) (half_list bn128_params)) *
      Rv bn128_params) mod qv bn128_params =
    (lval (fr_r2_list bn128_params) * lval (half_list bn128_params)) mod qv bn128_params"
proof -
  have "in_field bn128_params (fr_r2_list bn128_params)"
    using bn128.q_pos by (simp add: in_field_def bn128.len_r2 bn128.val_r2)
  moreover have "in_field bn128_params (half_list bn128_params)"
    using bn128.q_pos by (simp add: in_field_def bn128.len_half bn128.val_half)
  ultimately show ?thesis using Fr_rawMMul_correct [OF bn128_fr_field] by blast
qed

text \<open>
  Property C36. Converting a reduced limb array to Montgomery form and back gives the same
  array, limb for limb.
\<close>

theorem Montgomery_roundtrip:
  assumes "fr_field G P" "in_field P a"
  shows "Fr_rawFromMontgomery G P (Fr_rawToMontgomery G P a) = a"
proof -
  have l: "length a = fr_n64 P" "lval a mod qv P = lval a" "0 < qv P"
    using assms(2) fr_field.q_pos [OF assms(1)] by (simp_all add: in_field_def)
  have "reduced P (Fr_rawToMontgomery G P a) (lval a * Rv P)"
    by (rule fr_field.toMontgomery_val [OF assms(1) l(1)])
  then have "reduced P (Fr_rawFromMontgomery G P (Fr_rawToMontgomery G P a)) (lval a)"
    using l(3) by (intro fr_field.fromMontgomery_val [OF assms(1)]) (simp_all add: reduced_def in_field_def)
  then show ?thesis using l by (intro lval_inject) (simp_all add: reduced_def)
qed

theorem Montgomery_roundtrip_witness:
  "Fr_rawFromMontgomery mpn_ref bn128_params
     (Fr_rawToMontgomery mpn_ref bn128_params (half_list bn128_params)) = half_list bn128_params"
  using bn128.q_pos by (intro Montgomery_roundtrip [OF bn128_fr_field])
    (simp add: in_field_def bn128.len_half bn128.val_half)

end
