(* ===== verification/FrElem.thy ===== *)
theory FrElem
  imports FrMont
begin

text \<open>
  Field elements of \<open>generic/fr.hpp\<close> and the memory they live in. An \<open>FrElement\<close> holds a
  32-bit integer, a type word and an array of limbs; the two top bits of the type say which of
  the other two fields count and whether the limbs are in Montgomery form. The functions of
  \<open>generic/fr.cpp\<close> take pointers, so the model passes a memory: \<open>Ext i\<close> is the address of an
  element of the caller, \<open>Loc x\<close> that of a local variable of the runtime. Every assignment
  of the code is one update, in the order of the code, so that calls whose result is one of
  their operands are modelled too. \<open>fr_rep P e v\<close> says that the element \<open>e\<close> represents the
  integer \<open>v\<close> modulo the prime.
\<close>

subsection \<open>Elements and memory\<close>

definition Fr_SHORT :: u32 where "Fr_SHORT = 0x00000000"
definition Fr_MONTGOMERY :: u32 where "Fr_MONTGOMERY = 0x40000000"
definition Fr_SHORTMONTGOMERY :: u32 where "Fr_SHORTMONTGOMERY = 0x40000000"
definition Fr_LONG :: u32 where "Fr_LONG = 0x80000000"
definition Fr_LONGMONTGOMERY :: u32 where "Fr_LONGMONTGOMERY = 0xC0000000"

record FrElement =
  shortVal :: u32
  fr_type :: u32
  longVal :: limbs

datatype local_var = A_m | B_m | M_a | A_n | B_n | E_n | A_l | B_l | S_l | Tmp | D_tmp

datatype ptr = Ext nat | Loc local_var

type_synonym fr_mem = "ptr \<Rightarrow> FrElement"

abbreviation is_long :: "FrElement \<Rightarrow> bool" where
  "is_long e \<equiv> fr_type e AND Fr_LONG \<noteq> 0"

abbreviation is_mont :: "FrElement \<Rightarrow> bool" where
  "is_mont e \<equiv> fr_type e AND Fr_MONTGOMERY \<noteq> 0"

definition set_type :: "ptr \<Rightarrow> u32 \<Rightarrow> fr_mem \<Rightarrow> fr_mem" where
  "set_type p t m = m(p := (m p)\<lparr>fr_type := t\<rparr>)"

definition set_short :: "ptr \<Rightarrow> u32 \<Rightarrow> fr_mem \<Rightarrow> fr_mem" where
  "set_short p s m = m(p := (m p)\<lparr>shortVal := s\<rparr>)"

definition set_long :: "ptr \<Rightarrow> limbs \<Rightarrow> fr_mem \<Rightarrow> fr_mem" where
  "set_long p l m = m(p := (m p)\<lparr>longVal := l\<rparr>)"

lemma set_fields [simp]:
  "fr_type (set_type r t m p) = (if p = r then t else fr_type (m p))"
  "shortVal (set_type r t m p) = shortVal (m p)"
  "longVal (set_type r t m p) = longVal (m p)"
  "fr_type (set_short r s m p) = fr_type (m p)"
  "shortVal (set_short r s m p) = (if p = r then s else shortVal (m p))"
  "longVal (set_short r s m p) = longVal (m p)"
  "fr_type (set_long r l m p) = fr_type (m p)"
  "shortVal (set_long r l m p) = shortVal (m p)"
  "longVal (set_long r l m p) = (if p = r then l else longVal (m p))"
  by (simp_all add: set_type_def set_short_def set_long_def)

lemma set_other:
  "p \<noteq> r \<Longrightarrow> set_type r t m p = m p"
  "p \<noteq> r \<Longrightarrow> set_short r s m p = m p"
  "p \<noteq> r \<Longrightarrow> set_long r l m p = m p"
  by (simp_all add: set_type_def set_short_def set_long_def)

text \<open>\<open>frame r m m'\<close>: of the caller's elements, only the one at \<open>r\<close> may have changed.\<close>

definition frame :: "ptr \<Rightarrow> fr_mem \<Rightarrow> fr_mem \<Rightarrow> bool" where
  "frame r m m' \<longleftrightarrow> (\<forall>i. Ext i \<noteq> r \<longrightarrow> m' (Ext i) = m (Ext i))"

lemma frame_simps [simp]:
  "frame r m m"
  "frame r m m' \<Longrightarrow> frame r m (set_type r t m')"
  "frame r m m' \<Longrightarrow> frame r m (set_short r s m')"
  "frame r m m' \<Longrightarrow> frame r m (set_long r l m')"
  "frame r m m' \<Longrightarrow> frame r m (m'(r := e))"
  "frame r m m' \<Longrightarrow> frame r m (set_type (Loc x) t m')"
  "frame r m m' \<Longrightarrow> frame r m (set_short (Loc x) s m')"
  "frame r m m' \<Longrightarrow> frame r m (set_long (Loc x) l m')"
  "frame r m m' \<Longrightarrow> frame r m (m'(Loc x := e))"
  by (simp_all add: frame_def set_other)

lemma frame_at: "frame r m m' \<Longrightarrow> Ext i \<noteq> r \<Longrightarrow> m' (Ext i) = m (Ext i)"
  by (simp add: frame_def)

lemma type_bits [simp]:
  "Fr_SHORT AND Fr_LONG = 0" "Fr_SHORTMONTGOMERY AND Fr_LONG = 0"
  "Fr_LONG \<noteq> 0" "Fr_LONG AND Fr_LONG \<noteq> 0" "Fr_LONGMONTGOMERY AND Fr_LONG \<noteq> 0"
  "Fr_SHORT AND Fr_MONTGOMERY = 0" "Fr_LONG AND Fr_MONTGOMERY = 0"
  "Fr_SHORTMONTGOMERY AND Fr_MONTGOMERY \<noteq> 0" "Fr_LONGMONTGOMERY AND Fr_MONTGOMERY \<noteq> 0"
  "Fr_SHORT \<noteq> Fr_LONG" "Fr_SHORT \<noteq> Fr_LONGMONTGOMERY" "Fr_SHORT \<noteq> Fr_SHORTMONTGOMERY"
  "Fr_LONG \<noteq> Fr_SHORT" "Fr_LONG \<noteq> Fr_LONGMONTGOMERY" "Fr_LONG \<noteq> Fr_SHORTMONTGOMERY"
  "Fr_LONGMONTGOMERY \<noteq> Fr_SHORT" "Fr_LONGMONTGOMERY \<noteq> Fr_LONG"
  "Fr_LONGMONTGOMERY \<noteq> Fr_SHORTMONTGOMERY" "Fr_SHORTMONTGOMERY \<noteq> Fr_SHORT"
  "Fr_SHORTMONTGOMERY \<noteq> Fr_LONG" "Fr_SHORTMONTGOMERY \<noteq> Fr_LONGMONTGOMERY"
  by (simp_all add: Fr_SHORT_def Fr_LONG_def Fr_MONTGOMERY_def Fr_SHORTMONTGOMERY_def
      Fr_LONGMONTGOMERY_def)

subsection \<open>Copies and conversions between the representations\<close>

definition Fr_copy :: "ptr \<Rightarrow> ptr \<Rightarrow> fr_mem \<Rightarrow> fr_mem" where
  "Fr_copy r a m = m(r := m a)"

definition Fr_toNormal :: "mpn_api \<Rightarrow> fr_params \<Rightarrow> ptr \<Rightarrow> ptr \<Rightarrow> fr_mem \<Rightarrow> fr_mem" where
  "Fr_toNormal G P r a m =
     (if fr_type (m a) = Fr_LONGMONTGOMERY
      then let m = set_type r Fr_LONG m
           in set_long r (Fr_rawFromMontgomery G P (longVal (m a))) m
      else Fr_copy r a m)"

definition Fr_toLongNormal :: "mpn_api \<Rightarrow> fr_params \<Rightarrow> ptr \<Rightarrow> ptr \<Rightarrow> fr_mem \<Rightarrow> fr_mem" where
  "Fr_toLongNormal G P r a m =
     (if is_long (m a)
      then if is_mont (m a)
           then let m = set_long r (Fr_rawFromMontgomery G P (longVal (m a))) m
                in set_type r Fr_LONG m
           else Fr_copy r a m
      else let m = set_long r (Fr_rawCopyS2L G P (scast (shortVal (m a)))) m;
               m = set_type r Fr_LONG m
           in set_short r 0 m)"

definition Fr_toMontgomery :: "mpn_api \<Rightarrow> fr_params \<Rightarrow> ptr \<Rightarrow> ptr \<Rightarrow> fr_mem \<Rightarrow> fr_mem" where
  "Fr_toMontgomery G P r a m =
     (if is_mont (m a) then Fr_copy r a m
      else if is_long (m a)
      then let m = set_short r (shortVal (m a)) m;
               m = set_long r (Fr_rawMMul G P (longVal (m a)) (fr_r2_list P)) m
           in set_type r Fr_LONGMONTGOMERY m
      else if sint (shortVal (m a)) < 0
      then let a_shortVal = scast (shortVal (m a));
               m = set_long r (Fr_rawMMul1 G P (fr_r2_list P) (- a_shortVal)) m;
               m = set_long r (Fr_rawNeg G P (longVal (m r))) m
           in set_type r Fr_SHORTMONTGOMERY m
      else let m = set_long r (Fr_rawMMul1 G P (fr_r2_list P) (scast (shortVal (m a)))) m
           in set_type r Fr_SHORTMONTGOMERY m)"

text \<open>\<open>Fr_copyn\<close> copies \<open>n\<close> consecutive elements; \<open>memcpy\<close> asks for disjoint ranges.\<close>

definition Fr_copyn :: "nat \<Rightarrow> nat \<Rightarrow> nat \<Rightarrow> fr_mem \<Rightarrow> fr_mem" where
  "Fr_copyn r a n m =
     (\<lambda>p. case p of Ext i \<Rightarrow> (if r \<le> i \<and> i < r + n then m (Ext (a + (i - r))) else m (Ext i))
                  | Loc x \<Rightarrow> m (Loc x))"

subsection \<open>What an element represents\<close>

definition short_rep :: "fr_params \<Rightarrow> u32 \<Rightarrow> int \<Rightarrow> bool" where
  "short_rep P s v \<longleftrightarrow> sint s mod qv P = v mod qv P"

definition fr_rep :: "fr_params \<Rightarrow> FrElement \<Rightarrow> int \<Rightarrow> bool" where
  "fr_rep P e v \<longleftrightarrow> length (longVal e) = fr_n64 P \<and>
     (if fr_type e = Fr_SHORT then short_rep P (shortVal e) v
      else if fr_type e = Fr_LONG then reduced P (longVal e) v
      else if fr_type e = Fr_LONGMONTGOMERY then reduced P (longVal e) (v * Rv P)
      else fr_type e = Fr_SHORTMONTGOMERY \<and> short_rep P (shortVal e) v \<and>
        reduced P (longVal e) (v * Rv P))"

lemma fr_rep_cases:
  assumes "fr_rep P e v"
  obtains (short) "fr_type e = Fr_SHORT" "short_rep P (shortVal e) v"
  | (long) "fr_type e = Fr_LONG" "reduced P (longVal e) v"
  | (longmont) "fr_type e = Fr_LONGMONTGOMERY" "reduced P (longVal e) (v * Rv P)"
  | (shortmont) "fr_type e = Fr_SHORTMONTGOMERY" "short_rep P (shortVal e) v"
      "reduced P (longVal e) (v * Rv P)"
  using assms unfolding fr_rep_def by (auto split: if_splits)

lemma fr_rep_length: "fr_rep P e v \<Longrightarrow> length (longVal e) = fr_n64 P"
  by (simp add: fr_rep_def)

lemma reduced_length: "reduced P r v \<Longrightarrow> length r = fr_n64 P"
  by (simp add: reduced_def)

lemma fr_rep_intros:
  "fr_type e = Fr_SHORT \<Longrightarrow> length (longVal e) = fr_n64 P \<Longrightarrow> short_rep P (shortVal e) v \<Longrightarrow> fr_rep P e v"
  "fr_type e = Fr_LONG \<Longrightarrow> reduced P (longVal e) v \<Longrightarrow> fr_rep P e v"
  "fr_type e = Fr_LONGMONTGOMERY \<Longrightarrow> reduced P (longVal e) (v * Rv P) \<Longrightarrow> fr_rep P e v"
  by (simp_all add: fr_rep_def reduced_length)

lemma fr_rep_short: "fr_type e = Fr_SHORT \<Longrightarrow>
    fr_rep P e v \<longleftrightarrow> length (longVal e) = fr_n64 P \<and> short_rep P (shortVal e) v"
  and fr_rep_long: "fr_type e = Fr_LONG \<Longrightarrow> fr_rep P e v \<longleftrightarrow> reduced P (longVal e) v"
  and fr_rep_longmont: "fr_type e = Fr_LONGMONTGOMERY \<Longrightarrow>
    fr_rep P e v \<longleftrightarrow> reduced P (longVal e) (v * Rv P)"
  by (auto simp: fr_rep_def reduced_length)

lemma mod_neg_cong: "(a::int) mod q = b mod q \<Longrightarrow> (- a) mod q = (- b) mod q"
  by (metis mod_minus_eq)

lemma reduced_cong: "reduced P r u \<Longrightarrow> u mod qv P = v mod qv P \<Longrightarrow> reduced P r v"
  by (simp add: reduced_def)

lemma reduced_unique: "reduced P r u \<Longrightarrow> reduced P r v \<Longrightarrow> u mod qv P = v mod qv P"
  by (simp add: reduced_def)

lemma fr_rep_cong: "fr_rep P e u \<Longrightarrow> u mod qv P = v mod qv P \<Longrightarrow> fr_rep P e v"
  unfolding fr_rep_def short_rep_def reduced_def
  by (metis (no_types, opaque_lifting) mod_mult_left_eq)

subsection \<open>Machine integers\<close>


lemma sint_u32_bounds: "- (2 ^ 31) \<le> sint (s::u32)" "sint (s::u32) < 2 ^ 31"
  using sint_greater_eq [of s] sint_less [of s] by simp_all

lemma sint_scast_64: "sint (scast (s::u32) :: u64) = sint s"
  by (simp add: sint_up_scast is_up)

lemma uint_scast_64: "uint (scast (s::u32) :: u64) = sint s mod 2 ^ 64"
  unfolding scast_eq uint_word_of_int by simp

lemma uint_scast_pos:
  assumes "\<not> sint (s::u32) < 0"
  shows "uint (scast s :: u64) = sint s"
proof -
  have "sint s < 2 ^ 64" using sint_u32_bounds(2) [of s] by (rule less_trans) simp
  then show ?thesis using assms unfolding uint_scast_64 by (intro mod_pos_pos_trivial) auto
qed

lemma uint_scast_neg:
  assumes "sint (s::u32) < 0"
  shows "uint (- scast s :: u64) = - sint s"
proof -
  have "uint (- scast s :: u64) = (- sint s) mod 2 ^ 64"
    unfolding uint_word_ariths uint_scast_64 by (simp add: mod_minus_eq)
  moreover have "- sint s \<le> 2 ^ 31" using sint_u32_bounds(1) [of s] by simp
  moreover have "(2::int) ^ 31 < 2 ^ 64" by simp
  ultimately show ?thesis using assms by (simp add: mod_pos_pos_trivial del: power_numeral)
qed


text \<open>The overflow tests of the short operations, on 64-bit results.\<close>

definition has_mul32_overflow :: "u64 \<Rightarrow> int" where
  "has_mul32_overflow val =
     (let sign = signed_drop_bit 31 val;
          sign = (if sign \<noteq> 0 then NOT sign else sign)
      in if sign \<noteq> 0 then 1 else 0)"

definition has_add32_overflow :: "u64 \<Rightarrow> int" where
  "has_add32_overflow val =
     (let signs = signed_drop_bit 31 val AND 0x3
      in if signs = 1 \<or> signs = 2 then 1 else 0)"

definition fits32 :: "u64 \<Rightarrow> bool" where
  "fits32 v \<longleftrightarrow> - (2 ^ 31) \<le> sint v \<and> sint v < 2 ^ 31"

lemma sint_shift31: "sint (signed_drop_bit 31 (v::u64)) = sint v div 2 ^ 31"
  by (simp add: sint_signed_drop_bit_eq drop_bit_eq_div)

lemma fits32_div: "fits32 v \<longleftrightarrow> sint v div 2 ^ 31 = 0 \<or> sint v div 2 ^ 31 = - 1"
  unfolding fits32_def by (auto simp: div_eq_0_iff)

lemma word_sint_simps: "(w::u64) = 0 \<longleftrightarrow> sint w = 0" "(w::u64) = - 1 \<longleftrightarrow> sint w = - 1"
  by (simp_all add: signed_eq_0_iff) (metis sint_n1 signed_word_eqI)

lemma mul32_overflow: "has_mul32_overflow v = (if fits32 v then 0 else 1)"
proof -
  have "NOT (w::u64) = 0 \<longleftrightarrow> w = - 1" for w
    by (metis bit.compl_zero bit.double_compl)
  then show ?thesis
    unfolding has_mul32_overflow_def Let_def fits32_div sint_shift31 [symmetric]
    by (auto simp: word_sint_simps(1) word_sint_simps(2) sint_shift31)
qed

lemma add32_overflow:
  assumes "- (2 ^ 32) \<le> sint v" "sint v < 2 ^ 32"
  shows "has_add32_overflow v = (if fits32 v then 0 else 1)"
proof -
  let ?w = "signed_drop_bit 31 v"
  have "sint v div 2 ^ 31 \<in> {-2, -1, 0, 1}" using assms by auto
  then have "?w \<in> {- 2, - 1, 0, 1}"
    unfolding sint_shift31 [symmetric]
    by (auto intro: signed_word_eqI simp: word_sint_simps)
  then show ?thesis unfolding has_add32_overflow_def Let_def fits32_div sint_shift31 [symmetric]
    by auto
qed

lemma sint_ucast_32:
  assumes "fits32 v"
  shows "sint (ucast v :: u32) = sint v"
proof -
  have u: "uint v = sint v \<or> uint v = sint v + 4294967296 * 4294967296"
    by (auto simp: sint_u64 B64_def)
  have "sint (ucast v :: u32) = (uint v + 2147483648) mod 4294967296 - 2147483648"
    by (simp add: signed_ucast_eq signed_take_bit_eq_take_bit_shift take_bit_eq_mod)
  moreover have "(uint v + 2147483648) mod 4294967296 = (sint v + 2147483648) mod 4294967296"
    using u
  proof
    assume "uint v = sint v + 4294967296 * 4294967296"
    then have "uint v + 2147483648 = (sint v + 2147483648) + 4294967296 * 4294967296" by simp
    then show ?thesis by (simp only: mod_mult_self2)
  qed simp
  moreover have "(sint v + 2147483648) mod 4294967296 = sint v + 2147483648"
    using assms unfolding fits32_def by (intro mod_pos_pos_trivial) auto
  ultimately show ?thesis by simp
qed


subsection \<open>The raw functions on representations\<close>

context fr_field begin

lemma reduced_in_field: "reduced P a u \<Longrightarrow> in_field P a"
  using q_pos by (simp add: reduced_def in_field_def)

lemma reduced_lval: "reduced P a u \<Longrightarrow> lval a = u mod qv P"
  by (simp add: reduced_def)

lemma q_gt_31: "2 ^ 31 < qv P"
  by (rule less_trans [OF _ q_gt]) simp

lemma mod_q_bounds [simp]: "v mod qv P < qv P" "v mod qv P \<le> qv P"
  using q_pos by (simp_all add: less_imp_le)

lemma short_bounds:
  "sint s < 0 \<Longrightarrow> 0 < uint (- scast (s::u32) :: u64)"
  "sint s < 0 \<Longrightarrow> uint (- scast (s::u32) :: u64) \<le> qv P"
  "\<not> sint s < 0 \<Longrightarrow> uint (scast (s::u32) :: u64) < qv P"
proof -
  assume n: "sint s < 0"
  show "0 < uint (- scast s :: u64)" using n unfolding uint_scast_neg [OF n] by simp
  have "- sint s \<le> 2 ^ 31" using sint_u32_bounds(1) [of s] by linarith
  then show "uint (- scast s :: u64) \<le> qv P" using q_gt_31 unfolding uint_scast_neg [OF n] by linarith
next
  assume p: "\<not> sint s < 0"
  show "uint (scast s :: u64) < qv P"
    using sint_u32_bounds(2) [of s] q_gt_31 unfolding uint_scast_pos [OF p] by (rule less_trans)
qed

lemma short_mod:
  "short_rep P s y \<Longrightarrow> sint s < 0 \<Longrightarrow> uint (- scast (s::u32) :: u64) mod qv P = (- y) mod qv P"
  "short_rep P s y \<Longrightarrow> \<not> sint s < 0 \<Longrightarrow> uint (scast (s::u32) :: u64) mod qv P = y mod qv P"
  using uint_scast_neg [of s] uint_scast_pos [of s]
  by (simp_all add: short_rep_def) (metis mod_neg_cong)

lemma red_Add:
  assumes "reduced P a u" "reduced P b v"
  shows "reduced P (Fr_rawAdd G P a b) (u + v)"
  by (rule reduced_cong [OF rawAdd_val])
    (use assms in \<open>simp_all add: reduced_in_field reduced_lval mod_simps\<close>)

lemma red_Sub:
  assumes "reduced P a u" "reduced P b v"
  shows "reduced P (Fr_rawSub G P a b) (u - v)"
  by (rule reduced_cong [OF rawSub_val])
    (use assms in \<open>simp_all add: reduced_in_field reduced_lval mod_simps\<close>)

lemma red_Neg:
  assumes "reduced P a u"
  shows "reduced P (Fr_rawNeg G P a) (- u)"
  by (rule reduced_cong [OF rawNeg_val])
    (use assms in \<open>simp_all add: reduced_in_field reduced_lval mod_simps\<close>)

lemma red_AddLS:
  assumes "reduced P a u" "short_rep P s y"
  shows "\<not> sint s < 0 \<Longrightarrow> reduced P (Fr_rawAddLS G P a (scast s)) (u + y)"
    and "sint s < 0 \<Longrightarrow> reduced P (Fr_rawAddLS G P a (- scast s)) (u - y)"
proof -
  assume "\<not> sint s < 0"
  then show "reduced P (Fr_rawAddLS G P a (scast s)) (u + y)"
    using assms short_bounds short_mod(2) [OF assms(2)]
    by (intro reduced_cong [OF rawAddLS_val])
      (auto simp: reduced_in_field reduced_lval mod_simps intro: mod_add_cong less_imp_le)
next
  assume "sint s < 0"
  then show "reduced P (Fr_rawAddLS G P a (- scast s)) (u - y)"
    using assms short_bounds mod_add_cong [OF refl short_mod(1) [OF assms(2)], of "u"]
    by (intro reduced_cong [OF rawAddLS_val]) (auto simp: reduced_in_field reduced_lval mod_simps)
qed

lemma red_SubLS:
  assumes "reduced P a u" "short_rep P s y"
  shows "\<not> sint s < 0 \<Longrightarrow> reduced P (Fr_rawSubLS G P a (scast s)) (u - y)"
    and "sint s < 0 \<Longrightarrow> reduced P (Fr_rawSubLS G P a (- scast s)) (u + y)"
proof -
  assume "\<not> sint s < 0"
  then show "reduced P (Fr_rawSubLS G P a (scast s)) (u - y)"
    using assms short_bounds short_mod(2) [OF assms(2)]
    by (intro reduced_cong [OF rawSubLS_val])
      (auto simp: reduced_in_field reduced_lval mod_simps intro: mod_diff_cong less_imp_le)
next
  assume "sint s < 0"
  then show "reduced P (Fr_rawSubLS G P a (- scast s)) (u + y)"
    using assms short_bounds mod_diff_cong [OF refl short_mod(1) [OF assms(2)], of "u"]
    by (intro reduced_cong [OF rawSubLS_val]) (auto simp: reduced_in_field reduced_lval mod_simps)
qed

lemma red_SubSL:
  assumes "reduced P b v" "short_rep P s y"
  shows "\<not> sint s < 0 \<Longrightarrow> reduced P (Fr_rawSubSL G P (scast s) b) (y - v)"
    and "sint s < 0 \<Longrightarrow> reduced P (Fr_rawNegLS G P False b (- scast s)) (y - v)"
proof -
  assume "\<not> sint s < 0"
  then show "reduced P (Fr_rawSubSL G P (scast s) b) (y - v)"
    using assms short_bounds short_mod(2) [OF assms(2)]
    by (intro reduced_cong [OF rawSubSL_val])
      (auto simp: reduced_in_field reduced_lval mod_simps intro: mod_diff_cong)
next
  assume n: "sint s < 0"
  then have "(- uint (- scast s :: u64) - v) mod qv P = (y - v) mod qv P"
    using mod_diff_cong [OF mod_neg_cong [OF short_mod(1) [OF assms(2)]] refl, of v] by simp
  then show "reduced P (Fr_rawNegLS G P False b (- scast s)) (y - v)"
    using n assms short_bounds
    by (intro reduced_cong [OF rawNegLS_val]) (auto simp: reduced_in_field reduced_lval mod_simps)
qed

lemma red_MMul:
  assumes "reduced P a u" "reduced P b v" "(u * v) mod qv P = (w * Rv P) mod qv P"
  shows "reduced P (Fr_rawMMul G P a b) w"
  by (rule mmul_val)
    (use assms in \<open>simp_all add: reduced_in_field reduced_lval reduced_length mod_simps\<close>)

lemma red_MMul_forms:
  "reduced P a (x * Rv P) \<Longrightarrow> reduced P b (y * Rv P) \<Longrightarrow> reduced P (Fr_rawMMul G P a b) (x * y * Rv P)"
  "reduced P a (x * Rv P) \<Longrightarrow> reduced P b y \<Longrightarrow> reduced P (Fr_rawMMul G P a b) (x * y)"
  "reduced P a x \<Longrightarrow> reduced P b (y * Rv P) \<Longrightarrow> reduced P (Fr_rawMMul G P a b) (x * y)"
  by (rule red_MMul, assumption, assumption, simp add: algebra_simps)+

lemma red_r2: "reduced P (fr_r2_list P) (Rv P * Rv P)"
  and red_r3: "reduced P (fr_r3_list P) (Rv P * Rv P * Rv P)"
  by (simp_all add: reduced_def len_r2 len_r3 val_r2 val_r3 power2_eq_square power3_eq_cube)

lemma red_MMul_nn:
  assumes "reduced P a x" "reduced P b y"
  shows "reduced P (Fr_rawMMul G P (Fr_rawMMul G P a b) (fr_r3_list P)) (x * y * Rv P)"
proof -
  obtain w where w: "(x * y) mod qv P = (w * Rv P) mod qv P" using mont_quot by blast
  show ?thesis
    by (rule red_MMul [OF red_MMul [OF assms w] red_r3])
      (use w in \<open>metis (no_types, opaque_lifting) mod_mult_left_eq mult.assoc\<close>)
qed

lemma red_MMul1:
  assumes "reduced P a x" "short_rep P s y" "(x * y) mod qv P = (w * Rv P) mod qv P"
  shows "\<not> sint s < 0 \<Longrightarrow> reduced P (Fr_rawMMul1 G P a (scast s)) w"
    and "sint s < 0 \<Longrightarrow> reduced P (Fr_rawNeg G P (Fr_rawMMul1 G P a (- scast s))) w"
proof -
  assume "\<not> sint s < 0"
  then show "reduced P (Fr_rawMMul1 G P a (scast s)) w"
    using assms mod_mult_cong [OF refl short_mod(2) [OF assms(2)], of x]
    by (intro mmul1_val) (auto simp: reduced_in_field reduced_lval mod_simps)
next
  assume "sint s < 0"
  then have "reduced P (Fr_rawMMul1 G P a (- scast s)) (- w)"
    using assms mod_mult_cong [OF refl short_mod(1) [OF assms(2)], of x] mod_neg_cong [OF assms(3)]
    by (intro mmul1_val) (auto simp: reduced_in_field reduced_lval mod_simps)
  from red_Neg [OF this] show "reduced P (Fr_rawNeg G P (Fr_rawMMul1 G P a (- scast s))) w" by simp
qed

lemma red_MMul1_m:
  assumes "reduced P a (x * Rv P)" "short_rep P s y"
  shows "\<not> sint s < 0 \<Longrightarrow> reduced P (Fr_rawMMul1 G P a (scast s)) (x * y)"
    and "sint s < 0 \<Longrightarrow> reduced P (Fr_rawNeg G P (Fr_rawMMul1 G P a (- scast s))) (x * y)"
  using red_MMul1 [OF assms, of "x * y"] by (simp_all add: algebra_simps)

lemma red_MMul1_n:
  assumes "reduced P a x" "short_rep P s y"
  shows "\<not> sint s < 0 \<Longrightarrow>
      reduced P (Fr_rawMMul G P (Fr_rawMMul1 G P a (scast s)) (fr_r3_list P)) (x * y * Rv P)"
    and "sint s < 0 \<Longrightarrow>
      reduced P (Fr_rawMMul G P (Fr_rawNeg G P (Fr_rawMMul1 G P a (- scast s))) (fr_r3_list P))
        (x * y * Rv P)"
proof -
  obtain w where w: "(x * y) mod qv P = (w * Rv P) mod qv P" using mont_quot by blast
  have e: "(w * (Rv P * Rv P * Rv P)) mod qv P = (x * y * Rv P * Rv P) mod qv P"
    using w by (metis (no_types, opaque_lifting) mod_mult_left_eq mult.assoc)
  note r = red_MMul1 [OF assms w]
  show "\<not> sint s < 0 \<Longrightarrow>
      reduced P (Fr_rawMMul G P (Fr_rawMMul1 G P a (scast s)) (fr_r3_list P)) (x * y * Rv P)"
    by (rule red_MMul [OF r(1) red_r3 e])
  show "sint s < 0 \<Longrightarrow>
      reduced P (Fr_rawMMul G P (Fr_rawNeg G P (Fr_rawMMul1 G P a (- scast s))) (fr_r3_list P))
        (x * y * Rv P)"
    by (rule red_MMul [OF r(2) red_r3 e])
qed

lemma red_FromMont:
  assumes "reduced P a (x * Rv P)"
  shows "reduced P (Fr_rawFromMontgomery G P a) x"
  by (rule fromMontgomery_val) (use assms in \<open>simp_all add: reduced_in_field reduced_lval\<close>)

lemma red_S2L:
  assumes "- (2 ^ 62) \<le> sint v" "sint v \<le> 2 ^ 62" "sint v mod qv P = x mod qv P"
  shows "reduced P (Fr_rawCopyS2L G P v) x"
  by (rule reduced_cong [OF rawCopyS2L_val [OF assms(1,2)] assms(3)])

lemma red_S2L_short: "short_rep P s x \<Longrightarrow> reduced P (Fr_rawCopyS2L G P (scast s)) x"
  using sint_u32_bounds [of s] by (intro red_S2L) (auto simp: sint_scast_64 short_rep_def)

text \<open>The conversions, as rewriting rules on the element they write.\<close>

lemmas rep_iff = fr_rep_short fr_rep_long fr_rep_longmont

lemma toNormal_rep:
  assumes "fr_rep P (m a) v"
  shows "fr_rep P (Fr_toNormal G P r a m r) v"
  by (rule fr_rep_cases [OF assms]; insert assms)
    (simp_all add: Fr_toNormal_def Fr_copy_def Let_def rep_iff red_FromMont)

lemma toLongNormal_rep:
  assumes "fr_rep P (m a) v"
  shows "fr_type (Fr_toLongNormal G P r a m r) = Fr_LONG"
    and "reduced P (longVal (Fr_toLongNormal G P r a m r)) v"
  by (rule fr_rep_cases [OF assms];
      simp add: Fr_toLongNormal_def Fr_copy_def Let_def red_FromMont red_S2L_short)+

lemma red_ToMont_short:
  assumes "short_rep P s x"
  shows "\<not> sint s < 0 \<Longrightarrow> reduced P (Fr_rawMMul1 G P (fr_r2_list P) (scast s)) (x * Rv P)"
    and "sint s < 0 \<Longrightarrow> reduced P (Fr_rawNeg G P (Fr_rawMMul1 G P (fr_r2_list P) (- scast s))) (x * Rv P)"
  using red_MMul1 [OF red_r2 assms, of "x * Rv P"] by (simp_all add: algebra_simps)

lemma toMontgomery_long:
  assumes "fr_rep P (m a) x"
  shows "reduced P (longVal (Fr_toMontgomery G P r a m r)) (x * Rv P)"
  using assms by (cases rule: fr_rep_cases)
    (simp_all add: Fr_toMontgomery_def Fr_copy_def Let_def red_ToMont_short
      red_MMul [OF _ red_r2] algebra_simps)

lemma toMontgomery_rep:
  assumes "fr_rep P (m a) x" "r = a \<or> fr_type (m a) \<noteq> Fr_SHORT"
  shows "fr_rep P (Fr_toMontgomery G P r a m r) x"
  using assms(1)
proof (cases rule: fr_rep_cases)
  case short
  then have "fr_type (Fr_toMontgomery G P a a m a) = Fr_SHORTMONTGOMERY"
    "shortVal (Fr_toMontgomery G P a a m a) = shortVal (m a)"
    by (simp_all add: Fr_toMontgomery_def Let_def)
  then show ?thesis using short assms(2) toMontgomery_long [where m = m and a = a and r = a, OF assms(1)]
    by (simp add: fr_rep_def reduced_length)
qed (use assms toMontgomery_long [where m = m and a = a and r = r, OF assms(1)] in
    \<open>simp_all add: fr_rep_def Fr_toMontgomery_def Fr_copy_def Let_def reduced_length\<close>)

end

text \<open>What the conversions leave alone.\<close>

lemma conv_other [simp]:
  "p \<noteq> r \<Longrightarrow> Fr_copy r a m p = m p"
  "p \<noteq> r \<Longrightarrow> Fr_toNormal G P r a m p = m p"
  "p \<noteq> r \<Longrightarrow> Fr_toLongNormal G P r a m p = m p"
  "p \<noteq> r \<Longrightarrow> Fr_toMontgomery G P r a m p = m p"
  by (simp_all add: Fr_copy_def Fr_toNormal_def Fr_toLongNormal_def Fr_toMontgomery_def Let_def
      set_other)

lemma conv_frame [simp]:
  "frame r m m' \<Longrightarrow> frame r m (Fr_copy r a m')"
  "frame r m m' \<Longrightarrow> frame r m (Fr_toNormal G P r a m')"
  "frame r m m' \<Longrightarrow> frame r m (Fr_toLongNormal G P r a m')"
  "frame r m m' \<Longrightarrow> frame r m (Fr_toMontgomery G P r a m')"
  "frame r m m' \<Longrightarrow> frame r m (Fr_copy (Loc x) a m')"
  "frame r m m' \<Longrightarrow> frame r m (Fr_toNormal G P (Loc x) a m')"
  "frame r m m' \<Longrightarrow> frame r m (Fr_toLongNormal G P (Loc x) a m')"
  "frame r m m' \<Longrightarrow> frame r m (Fr_toMontgomery G P (Loc x) a m')"
  by (simp_all add: frame_def)

subsection \<open>A memory for concrete runs\<close>

text \<open>
  Over bn128: the short element \<open>-3\<close> at 0, the long element \<open>5\<close> at 1, the element \<open>7\<close> in
  Montgomery form at 2, and a slot for results at 3.
\<close>

definition bn_mem :: fr_mem where
  "bn_mem p =
     (if p = Ext 0 then \<lparr>shortVal = - 3, fr_type = Fr_SHORT, longVal = replicate 4 0\<rparr>
      else if p = Ext 1 then \<lparr>shortVal = 0, fr_type = Fr_LONG, longVal = [5, 0, 0, 0]\<rparr>
      else if p = Ext 2 then \<lparr>shortVal = 0, fr_type = Fr_LONGMONTGOMERY,
        longVal = limbs_of 4 (7 * Rv bn128_params mod qv bn128_params)\<rparr>
      else \<lparr>shortVal = 0, fr_type = Fr_SHORT, longVal = replicate 4 0\<rparr>)"

lemma bn_mem_reps:
  "fr_rep bn128_params (bn_mem (Ext 0)) (- 3)" "fr_rep bn128_params (bn_mem (Ext 1)) 5"
  "fr_rep bn128_params (bn_mem (Ext 2)) 7" "length (longVal (bn_mem p)) = fr_n64 bn128_params"
proof -
  have n: "fr_n64 bn128_params = 4" by (simp add: bn128_fields)
  have "(5::int) < qv bn128_params" by (rule less_trans [OF _ bn128.q_gt]) simp
  then have "reduced bn128_params [5, 0, 0, 0] 5" by (simp add: reduced_def n)
  then show "fr_rep bn128_params (bn_mem (Ext 1)) 5" by (simp add: bn_mem_def fr_rep_long)
  show "fr_rep bn128_params (bn_mem (Ext 0)) (- 3)"
    by (simp add: bn_mem_def fr_rep_short short_rep_def n)
  have "7 * Rv bn128_params mod qv bn128_params < base 4"
    using less_trans [OF bn128.mod_q_bounds(1) bn128.q_less_R] by (simp add: Rv_def n)
  then show "fr_rep bn128_params (bn_mem (Ext 2)) 7"
    using bn128.q_pos by (simp add: bn_mem_def fr_rep_longmont reduced_def n lval_limbs_of_id)
  show "length (longVal (bn_mem p)) = fr_n64 bn128_params" by (simp add: bn_mem_def n)
qed

subsection \<open>Montgomery form\<close>

text \<open>
  Property C9. \<open>Fr_toNormal\<close>, \<open>Fr_toLongNormal\<close> and \<open>Fr_copy\<close> keep the represented value for
  every representation and for every aliasing of result and operand, and change no other
  element of the caller. \<open>Fr_toNormal\<close> turns a long Montgomery element into a long normal one, whose
  limbs hold the residue, and copies every other element; the result of \<open>Fr_toLongNormal\<close> is long and
  normal, with the residue in its limbs; a copy is the element itself.
\<close>

theorem conversions_keep_value:
  assumes "fr_field G P" "fr_rep P (m (Ext a)) x"
  shows "fr_rep P (Fr_copy (Ext r) (Ext a) m (Ext r)) x \<and>
    fr_rep P (Fr_toNormal G P (Ext r) (Ext a) m (Ext r)) x \<and>
    fr_rep P (Fr_toLongNormal G P (Ext r) (Ext a) m (Ext r)) x \<and>
    Fr_copy (Ext r) (Ext a) m (Ext r) = m (Ext a) \<and>
    fr_type (Fr_toNormal G P (Ext r) (Ext a) m (Ext r)) =
      (if fr_type (m (Ext a)) = Fr_LONGMONTGOMERY then Fr_LONG else fr_type (m (Ext a))) \<and>
    (if fr_type (m (Ext a)) = Fr_LONGMONTGOMERY
     then lval (longVal (Fr_toNormal G P (Ext r) (Ext a) m (Ext r))) = x mod qv P
     else Fr_toNormal G P (Ext r) (Ext a) m (Ext r) = m (Ext a)) \<and>
    fr_type (Fr_toLongNormal G P (Ext r) (Ext a) m (Ext r)) = Fr_LONG \<and>
    lval (longVal (Fr_toLongNormal G P (Ext r) (Ext a) m (Ext r))) = x mod qv P \<and>
    frame (Ext r) m (Fr_copy (Ext r) (Ext a) m) \<and>
    frame (Ext r) m (Fr_toNormal G P (Ext r) (Ext a) m) \<and>
    frame (Ext r) m (Fr_toLongNormal G P (Ext r) (Ext a) m)"
proof -
  let ?n = "Fr_toNormal G P (Ext r) (Ext a) m (Ext r)" and ?l = "Fr_toLongNormal G P (Ext r) (Ext a) m (Ext r)"
  note n = fr_field.toNormal_rep [where m = m and a = "Ext a" and r = "Ext r", OF assms]
  note l = fr_field.toLongNormal_rep [where m = m and a = "Ext a" and r = "Ext r", OF assms]
  have tn: "fr_type ?n = (if fr_type (m (Ext a)) = Fr_LONGMONTGOMERY then Fr_LONG else fr_type (m (Ext a)))"
    by (simp add: Fr_toNormal_def Fr_copy_def Let_def)
  have vn: "lval (longVal ?n) = x mod qv P" if "fr_type (m (Ext a)) = Fr_LONGMONTGOMERY"
  proof -
    have "reduced P (longVal ?n) x" using n tn that by (simp add: fr_rep_def)
    then show ?thesis by (rule fr_field.reduced_lval [OF assms(1)])
  qed
  have cn: "?n = m (Ext a)" if "fr_type (m (Ext a)) \<noteq> Fr_LONGMONTGOMERY"
    using that by (simp add: Fr_toNormal_def Fr_copy_def)
  show ?thesis
    using n l tn vn cn fr_field.reduced_lval [OF assms(1)] fr_field.rep_iff(2) [OF assms(1)] assms(2)
    by (simp add: Fr_copy_def frame_def)
qed

theorem conversions_keep_value_witness:
  "fr_rep bn128_params (Fr_toNormal mpn_ref bn128_params (Ext 3) (Ext 2) bn_mem (Ext 3)) 7 \<and>
   fr_type (Fr_toNormal mpn_ref bn128_params (Ext 3) (Ext 2) bn_mem (Ext 3)) = Fr_LONG \<and>
   lval (longVal (Fr_toNormal mpn_ref bn128_params (Ext 3) (Ext 2) bn_mem (Ext 3))) = 7"
proof -
  have t: "fr_type (bn_mem (Ext 2)) = Fr_LONGMONTGOMERY" by (simp add: bn_mem_def)
  have "(7::int) < qv bn128_params" by (rule less_trans [OF _ bn128.q_gt]) simp
  then have "(7::int) mod qv bn128_params = 7" by simp
  then show ?thesis
    using conversions_keep_value [where m = bn_mem and a = 2 and r = 3, OF bn128_fr_field bn_mem_reps(3)] t by simp
qed

text \<open>
  Property C20. \<open>Fr_toMontgomery\<close> always stores the Montgomery form of the value in the limbs.
  For a short operand and a result that is another element it does not store the short
  field, so the result stands for the value exactly if the stale short field of the result already
  did; in place, and for every other operand, the result stands for the value.
\<close>

theorem toMontgomery_value:
  assumes "fr_field G P" "fr_rep P (m (Ext a)) x"
  shows "reduced P (longVal (Fr_toMontgomery G P (Ext r) (Ext a) m (Ext r))) (x * Rv P) \<and>
    (if fr_type (m (Ext a)) = Fr_SHORT \<and> r \<noteq> a
     then fr_rep P (Fr_toMontgomery G P (Ext r) (Ext a) m (Ext r)) x \<longleftrightarrow>
       short_rep P (shortVal (m (Ext r))) x
     else fr_rep P (Fr_toMontgomery G P (Ext r) (Ext a) m (Ext r)) x)"
proof (cases "fr_type (m (Ext a)) = Fr_SHORT \<and> r \<noteq> a")
  case True
  let ?e = "Fr_toMontgomery G P (Ext r) (Ext a) m (Ext r)"
  have "fr_type ?e = Fr_SHORTMONTGOMERY" "shortVal ?e = shortVal (m (Ext r))"
    using True by (simp_all add: Fr_toMontgomery_def Let_def)
  then show ?thesis
    using True fr_field.toMontgomery_long [where m = m and a = "Ext a" and r = "Ext r", OF assms]
    by (simp add: fr_rep_def reduced_length)
next
  case False
  then show ?thesis
    using fr_field.toMontgomery_long [where m = m and a = "Ext a" and r = "Ext r", OF assms]
      fr_field.toMontgomery_rep [where m = m and a = "Ext a" and r = "Ext r", OF assms]
    by auto
qed

theorem toMontgomery_value_witness:
  "\<not> fr_rep bn128_params (Fr_toMontgomery mpn_ref bn128_params (Ext 3) (Ext 0) bn_mem (Ext 3)) (- 3)"
proof -
  have "(3::int) < qv bn128_params" by (rule less_trans [OF _ bn128.q_gt]) simp
  then have "\<not> short_rep bn128_params 0 (- 3)" by (simp add: short_rep_def zmod_zminus1_eq_if)
  then show ?thesis
    using toMontgomery_value [where m = bn_mem and a = 0 and r = 3, OF bn128_fr_field bn_mem_reps(1)]
    by (simp add: bn_mem_def)
qed

end
