(* ===== verification/FrArith.thy ===== *)
theory FrArith
  imports FrElem
begin

text \<open>
  Multiplication, subtraction, addition, negation and squaring of field elements
  (\<open>generic/fr.cpp\<close>). A suffix such as \<open>l1ms2n\<close> says how a leaf finds its operands: the first
  one long (\<open>l\<close>) in Montgomery form (\<open>m\<close>), the second one short (\<open>s\<close>) and normal (\<open>n\<close>). The
  dispatching function tests the two top bits of the types. The lemmas of \<open>fr_field\<close> at the
  end say that the result represents the sum, difference or product of what the operands
  represent, and that no other element of the caller changes.
\<close>

subsection \<open>Multiplication\<close>

definition Fr_rawSMul :: "u32 \<Rightarrow> u32 \<Rightarrow> u64 \<times> int" where
  "Fr_rawSMul a b = (let r = scast a * scast b in (r, has_mul32_overflow r))"

definition mul_s1s2 :: "mpn_api \<Rightarrow> fr_params \<Rightarrow> ptr \<Rightarrow> ptr \<Rightarrow> ptr \<Rightarrow> fr_mem \<Rightarrow> fr_mem" where
  "mul_s1s2 G P r a b m =
     (let (result, overflow) = Fr_rawSMul (shortVal (m a)) (shortVal (m b))
      in if overflow \<noteq> 0
         then let m = set_long r (Fr_rawCopyS2L G P result) m;
                  m = set_type r Fr_LONG m
              in set_short r 0 m
         else let m = set_short r (ucast result) m;
                  m = set_type r Fr_SHORT m;
                  m = set_long r (Fr_rawCopyS2L G P result) m;
                  m = set_type r Fr_LONG m
              in set_short r 0 m)"

definition mul_l1nl2n :: "mpn_api \<Rightarrow> fr_params \<Rightarrow> ptr \<Rightarrow> ptr \<Rightarrow> ptr \<Rightarrow> fr_mem \<Rightarrow> fr_mem" where
  "mul_l1nl2n G P r a b m =
     (let m = set_type r Fr_LONGMONTGOMERY m;
          m = set_long r (Fr_rawMMul G P (longVal (m a)) (longVal (m b))) m
      in set_long r (Fr_rawMMul G P (longVal (m r)) (fr_r3_list P)) m)"

definition mul_l1nl2m :: "mpn_api \<Rightarrow> fr_params \<Rightarrow> ptr \<Rightarrow> ptr \<Rightarrow> ptr \<Rightarrow> fr_mem \<Rightarrow> fr_mem" where
  "mul_l1nl2m G P r a b m =
     (let m = set_type r Fr_LONG m
      in set_long r (Fr_rawMMul G P (longVal (m a)) (longVal (m b))) m)"

definition mul_l1ml2m :: "mpn_api \<Rightarrow> fr_params \<Rightarrow> ptr \<Rightarrow> ptr \<Rightarrow> ptr \<Rightarrow> fr_mem \<Rightarrow> fr_mem" where
  "mul_l1ml2m G P r a b m =
     (let m = set_type r Fr_LONGMONTGOMERY m
      in set_long r (Fr_rawMMul G P (longVal (m a)) (longVal (m b))) m)"

definition mul_l1ml2n :: "mpn_api \<Rightarrow> fr_params \<Rightarrow> ptr \<Rightarrow> ptr \<Rightarrow> ptr \<Rightarrow> fr_mem \<Rightarrow> fr_mem" where
  "mul_l1ml2n G P r a b m =
     (let m = set_type r Fr_LONG m
      in set_long r (Fr_rawMMul G P (longVal (m a)) (longVal (m b))) m)"

definition mul_l1ns2n :: "mpn_api \<Rightarrow> fr_params \<Rightarrow> ptr \<Rightarrow> ptr \<Rightarrow> ptr \<Rightarrow> fr_mem \<Rightarrow> fr_mem" where
  "mul_l1ns2n G P r a b m =
     (let m = set_type r Fr_LONGMONTGOMERY m;
          m = (if sint (shortVal (m b)) < 0
               then let b_shortVal = scast (shortVal (m b));
                        m = set_long r (Fr_rawMMul1 G P (longVal (m a)) (- b_shortVal)) m
                    in set_long r (Fr_rawNeg G P (longVal (m r))) m
               else set_long r (Fr_rawMMul1 G P (longVal (m a)) (scast (shortVal (m b)))) m)
      in set_long r (Fr_rawMMul G P (longVal (m r)) (fr_r3_list P)) m)"

definition mul_s1nl2n :: "mpn_api \<Rightarrow> fr_params \<Rightarrow> ptr \<Rightarrow> ptr \<Rightarrow> ptr \<Rightarrow> fr_mem \<Rightarrow> fr_mem" where
  "mul_s1nl2n G P r a b m =
     (let m = set_type r Fr_LONGMONTGOMERY m;
          m = (if sint (shortVal (m a)) < 0
               then let a_shortVal = scast (shortVal (m a));
                        m = set_long r (Fr_rawMMul1 G P (longVal (m b)) (- a_shortVal)) m
                    in set_long r (Fr_rawNeg G P (longVal (m r))) m
               else set_long r (Fr_rawMMul1 G P (longVal (m b)) (scast (shortVal (m a)))) m)
      in set_long r (Fr_rawMMul G P (longVal (m r)) (fr_r3_list P)) m)"

definition mul_l1ms2n :: "mpn_api \<Rightarrow> fr_params \<Rightarrow> ptr \<Rightarrow> ptr \<Rightarrow> ptr \<Rightarrow> fr_mem \<Rightarrow> fr_mem" where
  "mul_l1ms2n G P r a b m =
     (let m = set_type r Fr_LONG m
      in if sint (shortVal (m b)) < 0
         then let b_shortVal = scast (shortVal (m b));
                  m = set_long r (Fr_rawMMul1 G P (longVal (m a)) (- b_shortVal)) m
              in set_long r (Fr_rawNeg G P (longVal (m r))) m
         else set_long r (Fr_rawMMul1 G P (longVal (m a)) (scast (shortVal (m b)))) m)"

definition mul_s1nl2m :: "mpn_api \<Rightarrow> fr_params \<Rightarrow> ptr \<Rightarrow> ptr \<Rightarrow> ptr \<Rightarrow> fr_mem \<Rightarrow> fr_mem" where
  "mul_s1nl2m G P r a b m =
     (let m = set_type r Fr_LONG m
      in if sint (shortVal (m a)) < 0
         then let a_shortVal = scast (shortVal (m a));
                  m = set_long r (Fr_rawMMul1 G P (longVal (m b)) (- a_shortVal)) m
              in set_long r (Fr_rawNeg G P (longVal (m r))) m
         else set_long r (Fr_rawMMul1 G P (longVal (m b)) (scast (shortVal (m a)))) m)"

definition mul_l1ns2m :: "mpn_api \<Rightarrow> fr_params \<Rightarrow> ptr \<Rightarrow> ptr \<Rightarrow> ptr \<Rightarrow> fr_mem \<Rightarrow> fr_mem" where
  "mul_l1ns2m G P r a b m =
     (let m = set_type r Fr_LONG m
      in set_long r (Fr_rawMMul G P (longVal (m a)) (longVal (m b))) m)"

definition mul_l1ms2m :: "mpn_api \<Rightarrow> fr_params \<Rightarrow> ptr \<Rightarrow> ptr \<Rightarrow> ptr \<Rightarrow> fr_mem \<Rightarrow> fr_mem" where
  "mul_l1ms2m G P r a b m =
     (let m = set_type r Fr_LONGMONTGOMERY m
      in set_long r (Fr_rawMMul G P (longVal (m a)) (longVal (m b))) m)"

definition mul_s1ml2m :: "mpn_api \<Rightarrow> fr_params \<Rightarrow> ptr \<Rightarrow> ptr \<Rightarrow> ptr \<Rightarrow> fr_mem \<Rightarrow> fr_mem" where
  "mul_s1ml2m G P r a b m =
     (let m = set_type r Fr_LONGMONTGOMERY m
      in set_long r (Fr_rawMMul G P (longVal (m a)) (longVal (m b))) m)"

definition mul_s1ml2n :: "mpn_api \<Rightarrow> fr_params \<Rightarrow> ptr \<Rightarrow> ptr \<Rightarrow> ptr \<Rightarrow> fr_mem \<Rightarrow> fr_mem" where
  "mul_s1ml2n G P r a b m =
     (let m = set_type r Fr_LONG m
      in set_long r (Fr_rawMMul G P (longVal (m a)) (longVal (m b))) m)"

definition Fr_mul :: "mpn_api \<Rightarrow> fr_params \<Rightarrow> ptr \<Rightarrow> ptr \<Rightarrow> ptr \<Rightarrow> fr_mem \<Rightarrow> fr_mem" where
  "Fr_mul G P r a b m =
     (if is_long (m a)
      then if is_long (m b)
           then if is_mont (m a)
                then if is_mont (m b) then mul_l1ml2m G P r a b m else mul_l1ml2n G P r a b m
                else if is_mont (m b) then mul_l1nl2m G P r a b m else mul_l1nl2n G P r a b m
           else if is_mont (m a)
           then if is_mont (m b) then mul_l1ms2m G P r a b m else mul_l1ms2n G P r a b m
           else if is_mont (m b) then mul_l1ns2m G P r a b m else mul_l1ns2n G P r a b m
      else if is_long (m b)
      then if is_mont (m a)
           then if is_mont (m b) then mul_s1ml2m G P r a b m else mul_s1ml2n G P r a b m
           else if is_mont (m b) then mul_s1nl2m G P r a b m else mul_s1nl2n G P r a b m
      else mul_s1s2 G P r a b m)"

lemmas mul_leafs =
  mul_s1s2_def mul_l1nl2n_def mul_l1nl2m_def mul_l1ml2m_def mul_l1ml2n_def mul_l1ns2n_def
  mul_s1nl2n_def mul_l1ms2n_def mul_s1nl2m_def mul_l1ns2m_def mul_l1ms2m_def mul_s1ml2m_def
  mul_s1ml2n_def

subsection \<open>Subtraction\<close>

definition Fr_rawSSub :: "u32 \<Rightarrow> u32 \<Rightarrow> u64 \<times> int" where
  "Fr_rawSSub a b = (let r = scast a - scast b in (r, has_add32_overflow r))"

definition sub_s1s2 :: "mpn_api \<Rightarrow> fr_params \<Rightarrow> ptr \<Rightarrow> ptr \<Rightarrow> ptr \<Rightarrow> fr_mem \<Rightarrow> fr_mem" where
  "sub_s1s2 G P r a b m =
     (let (diff, overflow) = Fr_rawSSub (shortVal (m a)) (shortVal (m b))
      in if overflow \<noteq> 0
         then let m = set_long r (Fr_rawCopyS2L G P diff) m;
                  m = set_type r Fr_LONG m
              in set_short r 0 m
         else let m = set_type r Fr_SHORT m
              in set_short r (ucast diff) m)"

definition sub_l1nl2n :: "mpn_api \<Rightarrow> fr_params \<Rightarrow> ptr \<Rightarrow> ptr \<Rightarrow> ptr \<Rightarrow> fr_mem \<Rightarrow> fr_mem" where
  "sub_l1nl2n G P r a b m =
     (let m = set_type r Fr_LONG m
      in set_long r (Fr_rawSub G P (longVal (m a)) (longVal (m b))) m)"

definition sub_l1nl2m :: "mpn_api \<Rightarrow> fr_params \<Rightarrow> ptr \<Rightarrow> ptr \<Rightarrow> ptr \<Rightarrow> fr_mem \<Rightarrow> fr_mem" where
  "sub_l1nl2m G P r a b m =
     (let m = set_type r Fr_LONGMONTGOMERY m;
          m = Fr_toMontgomery G P (Loc A_m) a m
      in set_long r (Fr_rawSub G P (longVal (m (Loc A_m))) (longVal (m b))) m)"

definition sub_l1ml2m :: "mpn_api \<Rightarrow> fr_params \<Rightarrow> ptr \<Rightarrow> ptr \<Rightarrow> ptr \<Rightarrow> fr_mem \<Rightarrow> fr_mem" where
  "sub_l1ml2m G P r a b m =
     (let m = set_type r Fr_LONGMONTGOMERY m
      in set_long r (Fr_rawSub G P (longVal (m a)) (longVal (m b))) m)"

definition sub_l1ml2n :: "mpn_api \<Rightarrow> fr_params \<Rightarrow> ptr \<Rightarrow> ptr \<Rightarrow> ptr \<Rightarrow> fr_mem \<Rightarrow> fr_mem" where
  "sub_l1ml2n G P r a b m =
     (let m = set_type r Fr_LONGMONTGOMERY m;
          m = Fr_toMontgomery G P (Loc B_m) b m
      in set_long r (Fr_rawSub G P (longVal (m a)) (longVal (m (Loc B_m)))) m)"

definition sub_s1l2n :: "mpn_api \<Rightarrow> fr_params \<Rightarrow> ptr \<Rightarrow> ptr \<Rightarrow> ptr \<Rightarrow> fr_mem \<Rightarrow> fr_mem" where
  "sub_s1l2n G P r a b m =
     (let m = set_type r Fr_LONG m
      in if sint (shortVal (m a)) \<ge> 0
         then set_long r (Fr_rawSubSL G P (scast (shortVal (m a))) (longVal (m b))) m
         else let a_shortVal = scast (shortVal (m a))
              in set_long r (Fr_rawNegLS G P (r = b) (longVal (m b)) (- a_shortVal)) m)"

definition sub_l1ms2n :: "mpn_api \<Rightarrow> fr_params \<Rightarrow> ptr \<Rightarrow> ptr \<Rightarrow> ptr \<Rightarrow> fr_mem \<Rightarrow> fr_mem" where
  "sub_l1ms2n G P r a b m =
     (let m = set_type r Fr_LONGMONTGOMERY m;
          m = Fr_toMontgomery G P (Loc B_m) b m
      in set_long r (Fr_rawSub G P (longVal (m a)) (longVal (m (Loc B_m)))) m)"

definition sub_s1nl2m :: "mpn_api \<Rightarrow> fr_params \<Rightarrow> ptr \<Rightarrow> ptr \<Rightarrow> ptr \<Rightarrow> fr_mem \<Rightarrow> fr_mem" where
  "sub_s1nl2m G P r a b m =
     (let m = set_type r Fr_LONGMONTGOMERY m;
          m = Fr_toMontgomery G P (Loc A_m) a m
      in set_long r (Fr_rawSub G P (longVal (m (Loc A_m))) (longVal (m b))) m)"

definition sub_l1ns2 :: "mpn_api \<Rightarrow> fr_params \<Rightarrow> ptr \<Rightarrow> ptr \<Rightarrow> ptr \<Rightarrow> fr_mem \<Rightarrow> fr_mem" where
  "sub_l1ns2 G P r a b m =
     (let m = set_type r Fr_LONG m
      in if sint (shortVal (m b)) < 0
         then let b_shortVal = scast (shortVal (m b))
              in set_long r (Fr_rawAddLS G P (longVal (m a)) (- b_shortVal)) m
         else set_long r (Fr_rawSubLS G P (longVal (m a)) (scast (shortVal (m b)))) m)"

definition sub_l1ms2m :: "mpn_api \<Rightarrow> fr_params \<Rightarrow> ptr \<Rightarrow> ptr \<Rightarrow> ptr \<Rightarrow> fr_mem \<Rightarrow> fr_mem" where
  "sub_l1ms2m G P r a b m =
     (let m = set_type r Fr_LONGMONTGOMERY m
      in set_long r (Fr_rawSub G P (longVal (m a)) (longVal (m b))) m)"

definition sub_s1ml2m :: "mpn_api \<Rightarrow> fr_params \<Rightarrow> ptr \<Rightarrow> ptr \<Rightarrow> ptr \<Rightarrow> fr_mem \<Rightarrow> fr_mem" where
  "sub_s1ml2m G P r a b m =
     (let m = set_type r Fr_LONGMONTGOMERY m
      in set_long r (Fr_rawSub G P (longVal (m a)) (longVal (m b))) m)"

definition Fr_sub :: "mpn_api \<Rightarrow> fr_params \<Rightarrow> ptr \<Rightarrow> ptr \<Rightarrow> ptr \<Rightarrow> fr_mem \<Rightarrow> fr_mem" where
  "Fr_sub G P r a b m =
     (if is_long (m a)
      then if is_long (m b)
           then if is_mont (m a)
                then if is_mont (m b) then sub_l1ml2m G P r a b m else sub_l1ml2n G P r a b m
                else if is_mont (m b) then sub_l1nl2m G P r a b m else sub_l1nl2n G P r a b m
           else if is_mont (m a)
           then if is_mont (m b) then sub_l1ms2m G P r a b m else sub_l1ms2n G P r a b m
           else sub_l1ns2 G P r a b m
      else if is_long (m b)
      then if is_mont (m b)
           then if is_mont (m a) then sub_s1ml2m G P r a b m else sub_s1nl2m G P r a b m
           else sub_s1l2n G P r a b m
      else sub_s1s2 G P r a b m)"

lemmas sub_leafs =
  sub_s1s2_def sub_l1nl2n_def sub_l1nl2m_def sub_l1ml2m_def sub_l1ml2n_def sub_s1l2n_def
  sub_l1ms2n_def sub_s1nl2m_def sub_l1ns2_def sub_l1ms2m_def sub_s1ml2m_def

subsection \<open>Addition\<close>

definition Fr_rawSAdd :: "u32 \<Rightarrow> u32 \<Rightarrow> u64 \<times> int" where
  "Fr_rawSAdd a b = (let r = scast a + scast b in (r, has_add32_overflow r))"

definition add_s1s2 :: "mpn_api \<Rightarrow> fr_params \<Rightarrow> ptr \<Rightarrow> ptr \<Rightarrow> ptr \<Rightarrow> fr_mem \<Rightarrow> fr_mem" where
  "add_s1s2 G P r a b m =
     (let (sum, overflow) = Fr_rawSAdd (shortVal (m a)) (shortVal (m b))
      in if overflow \<noteq> 0
         then let m = set_long r (Fr_rawCopyS2L G P sum) m;
                  m = set_type r Fr_LONG m
              in set_short r 0 m
         else let m = set_type r Fr_SHORT m
              in set_short r (ucast sum) m)"

definition add_l1nl2n :: "mpn_api \<Rightarrow> fr_params \<Rightarrow> ptr \<Rightarrow> ptr \<Rightarrow> ptr \<Rightarrow> fr_mem \<Rightarrow> fr_mem" where
  "add_l1nl2n G P r a b m =
     (let m = set_type r Fr_LONG m
      in set_long r (Fr_rawAdd G P (longVal (m a)) (longVal (m b))) m)"

definition add_l1nl2m :: "mpn_api \<Rightarrow> fr_params \<Rightarrow> ptr \<Rightarrow> ptr \<Rightarrow> ptr \<Rightarrow> fr_mem \<Rightarrow> fr_mem" where
  "add_l1nl2m G P r a b m =
     (let m = set_type r Fr_LONGMONTGOMERY m;
          m = Fr_toMontgomery G P (Loc A_m) a m
      in set_long r (Fr_rawAdd G P (longVal (m (Loc A_m))) (longVal (m b))) m)"

definition add_l1ml2m :: "mpn_api \<Rightarrow> fr_params \<Rightarrow> ptr \<Rightarrow> ptr \<Rightarrow> ptr \<Rightarrow> fr_mem \<Rightarrow> fr_mem" where
  "add_l1ml2m G P r a b m =
     (let m = set_type r Fr_LONGMONTGOMERY m
      in set_long r (Fr_rawAdd G P (longVal (m a)) (longVal (m b))) m)"

definition add_l1ml2n :: "mpn_api \<Rightarrow> fr_params \<Rightarrow> ptr \<Rightarrow> ptr \<Rightarrow> ptr \<Rightarrow> fr_mem \<Rightarrow> fr_mem" where
  "add_l1ml2n G P r a b m =
     (let m = set_type r Fr_LONGMONTGOMERY m;
          m = Fr_toMontgomery G P (Loc B_m) b m
      in set_long r (Fr_rawAdd G P (longVal (m a)) (longVal (m (Loc B_m)))) m)"

definition add_s1l2n :: "mpn_api \<Rightarrow> fr_params \<Rightarrow> ptr \<Rightarrow> ptr \<Rightarrow> ptr \<Rightarrow> fr_mem \<Rightarrow> fr_mem" where
  "add_s1l2n G P r a b m =
     (let m = set_type r Fr_LONG m
      in if sint (shortVal (m a)) \<ge> 0
         then set_long r (Fr_rawAddLS G P (longVal (m b)) (scast (shortVal (m a)))) m
         else let a_shortVal = scast (shortVal (m a))
              in set_long r (Fr_rawSubLS G P (longVal (m b)) (- a_shortVal)) m)"

definition add_l1ms2n :: "mpn_api \<Rightarrow> fr_params \<Rightarrow> ptr \<Rightarrow> ptr \<Rightarrow> ptr \<Rightarrow> fr_mem \<Rightarrow> fr_mem" where
  "add_l1ms2n G P r a b m =
     (let m = set_type r Fr_LONGMONTGOMERY m;
          m = Fr_toMontgomery G P (Loc B_m) b m
      in set_long r (Fr_rawAdd G P (longVal (m a)) (longVal (m (Loc B_m)))) m)"

definition add_s1nl2m :: "mpn_api \<Rightarrow> fr_params \<Rightarrow> ptr \<Rightarrow> ptr \<Rightarrow> ptr \<Rightarrow> fr_mem \<Rightarrow> fr_mem" where
  "add_s1nl2m G P r a b m =
     (let m = set_type r Fr_LONGMONTGOMERY m;
          m = Fr_toMontgomery G P (Loc M_a) a m
      in set_long r (Fr_rawAdd G P (longVal (m (Loc M_a))) (longVal (m b))) m)"

definition add_l1ns2 :: "mpn_api \<Rightarrow> fr_params \<Rightarrow> ptr \<Rightarrow> ptr \<Rightarrow> ptr \<Rightarrow> fr_mem \<Rightarrow> fr_mem" where
  "add_l1ns2 G P r a b m =
     (let m = set_type r Fr_LONG m
      in if sint (shortVal (m b)) \<ge> 0
         then set_long r (Fr_rawAddLS G P (longVal (m a)) (scast (shortVal (m b)))) m
         else let b_shortVal = scast (shortVal (m b))
              in set_long r (Fr_rawSubLS G P (longVal (m a)) (- b_shortVal)) m)"

definition add_l1ms2m :: "mpn_api \<Rightarrow> fr_params \<Rightarrow> ptr \<Rightarrow> ptr \<Rightarrow> ptr \<Rightarrow> fr_mem \<Rightarrow> fr_mem" where
  "add_l1ms2m G P r a b m =
     (let m = set_type r Fr_LONGMONTGOMERY m
      in set_long r (Fr_rawAdd G P (longVal (m a)) (longVal (m b))) m)"

definition add_s1ml2m :: "mpn_api \<Rightarrow> fr_params \<Rightarrow> ptr \<Rightarrow> ptr \<Rightarrow> ptr \<Rightarrow> fr_mem \<Rightarrow> fr_mem" where
  "add_s1ml2m G P r a b m =
     (let m = set_type r Fr_LONGMONTGOMERY m
      in set_long r (Fr_rawAdd G P (longVal (m a)) (longVal (m b))) m)"

definition Fr_add :: "mpn_api \<Rightarrow> fr_params \<Rightarrow> ptr \<Rightarrow> ptr \<Rightarrow> ptr \<Rightarrow> fr_mem \<Rightarrow> fr_mem" where
  "Fr_add G P r a b m =
     (if is_long (m a)
      then if is_long (m b)
           then if is_mont (m a)
                then if is_mont (m b) then add_l1ml2m G P r a b m else add_l1ml2n G P r a b m
                else if is_mont (m b) then add_l1nl2m G P r a b m else add_l1nl2n G P r a b m
           else if is_mont (m a)
           then if is_mont (m b) then add_l1ms2m G P r a b m else add_l1ms2n G P r a b m
           else add_l1ns2 G P r a b m
      else if is_long (m b)
      then if is_mont (m b)
           then if is_mont (m a) then add_s1ml2m G P r a b m else add_s1nl2m G P r a b m
           else add_s1l2n G P r a b m
      else add_s1s2 G P r a b m)"

lemmas add_leafs =
  add_s1s2_def add_l1nl2n_def add_l1nl2m_def add_l1ml2m_def add_l1ml2n_def add_s1l2n_def
  add_l1ms2n_def add_s1nl2m_def add_l1ns2_def add_l1ms2m_def add_s1ml2m_def

subsection \<open>Negation and squaring\<close>

definition Fr_rawSNeg :: "u32 \<Rightarrow> u64 \<times> int" where
  "Fr_rawSNeg a = (let r = - scast a in (r, has_add32_overflow r))"

definition Fr_neg :: "mpn_api \<Rightarrow> fr_params \<Rightarrow> ptr \<Rightarrow> ptr \<Rightarrow> fr_mem \<Rightarrow> fr_mem" where
  "Fr_neg G P r a m =
     (if is_long (m a)
      then let m = set_type r (fr_type (m a)) m;
               m = set_short r (shortVal (m a)) m
           in set_long r (Fr_rawNeg G P (longVal (m a))) m
      else let (a_shortVal, overflow) = Fr_rawSNeg (shortVal (m a))
           in if overflow \<noteq> 0
              then let m = set_long r (Fr_rawCopyS2L G P a_shortVal) m;
                       m = set_type r Fr_LONG m
                   in set_short r 0 m
              else let m = set_type r Fr_SHORT m
                   in set_short r (ucast a_shortVal) m)"

definition Fr_square :: "mpn_api \<Rightarrow> fr_params \<Rightarrow> ptr \<Rightarrow> ptr \<Rightarrow> fr_mem \<Rightarrow> fr_mem" where
  "Fr_square G P r a m =
     (if is_long (m a)
      then if fr_type (m a) = Fr_LONGMONTGOMERY
           then let m = set_type r Fr_LONGMONTGOMERY m
                in set_long r (Fr_rawMSquare G P (longVal (m a))) m
           else let m = set_type r Fr_LONGMONTGOMERY m;
                    m = set_long r (Fr_rawMSquare G P (longVal (m a))) m
                in set_long r (Fr_rawMMul G P (longVal (m r)) (fr_r3_list P)) m
      else let (result, overflow) = Fr_rawSMul (shortVal (m a)) (shortVal (m a))
           in if overflow \<noteq> 0
              then let m = set_long r (Fr_rawCopyS2L G P result) m;
                       m = set_type r Fr_LONG m
                   in set_short r 0 m
              else let m = set_short r (ucast result) m;
                       m = set_type r Fr_SHORT m;
                       m = set_long r (Fr_rawCopyS2L G P result) m;
                       m = set_type r Fr_LONG m
                   in set_short r 0 m)"

subsection \<open>What they compute\<close>

lemma sint_fits: "\<bar>k\<bar> \<le> 2 ^ 62 \<Longrightarrow> signed_take_bit 63 (k::int) = k"
  by (rule signed_take_bit_int_eq_self) auto

lemma short_product:
  "sint (scast (a::u32) * scast (b::u32) :: u64) = sint a * sint b" "\<bar>sint a * sint b\<bar> \<le> 2 ^ 62"
proof -
  have "\<bar>sint a * sint b\<bar> \<le> 2 ^ 31 * 2 ^ 31"
    unfolding abs_mult using sint_u32_bounds [of a] sint_u32_bounds [of b]
    by (intro mult_mono) auto
  then show "\<bar>sint a * sint b\<bar> \<le> 2 ^ 62" by simp
  then show "sint (scast a * scast b :: u64) = sint a * sint b"
    by (simp add: sint_word_mult sint_scast_64 sint_fits)
qed

lemma short_sum:
  "sint (scast (a::u32) + scast (b::u32) :: u64) = sint a + sint b"
  "sint (scast a - scast b :: u64) = sint a - sint b" "sint (- scast a :: u64) = - sint a"
  using sint_u32_bounds [of a] sint_u32_bounds [of b]
  by (simp_all add: sint_word_add sint_word_diff sint_word_minus sint_scast_64 sint_fits)

text \<open>A short result either fits 32 bits or becomes a long element; both represent it.\<close>

definition store_short :: "mpn_api \<Rightarrow> fr_params \<Rightarrow> ptr \<Rightarrow> u64 \<times> int \<Rightarrow> fr_mem \<Rightarrow> fr_mem" where
  "store_short G P r res m =
     (let (v, overflow) = res
      in if overflow \<noteq> 0 then set_short r 0 (set_type r Fr_LONG (set_long r (Fr_rawCopyS2L G P v) m))
         else set_short r (ucast v) (set_type r Fr_SHORT m))"

context fr_field begin

lemma store_short_rep:
  assumes "- (2 ^ 32) \<le> sint v" "sint v < 2 ^ 32" "length (longVal (m r)) = fr_n64 P"
    and "sint v mod qv P = x mod qv P"
  shows "fr_rep P (store_short G P r (v, has_add32_overflow v) m r) x"
  using assms sint_ucast_32 [of v]
  by (auto simp: store_short_def add32_overflow rep_iff short_rep_def intro!: red_S2L)

lemma s1s2_rep:
  assumes "short_rep P s x" "short_rep P t y"
  shows "(sint s * sint t) mod qv P = (x * y) mod qv P"
    "(sint s + sint t) mod qv P = (x + y) mod qv P"
    "(sint s - sint t) mod qv P = (x - y) mod qv P" "(- sint s) mod qv P = (- x) mod qv P"
  using assms unfolding short_rep_def
  by (blast intro: mod_mult_cong mod_add_cong mod_diff_cong mod_neg_cong)+

lemma red_S2L_prod:
  assumes "short_rep P s x" "short_rep P t y"
  shows "reduced P (Fr_rawCopyS2L G P (scast s * scast t)) (x * y)"
  using short_product [of s t] s1s2_rep [OF assms] by (intro red_S2L) auto

lemma mul_s1s2_rep:
  assumes "short_rep P (shortVal (m a)) x" "short_rep P (shortVal (m b)) y"
  shows "fr_rep P (mul_s1s2 G P r a b m r) (x * y)"
  using red_S2L_prod [OF assms]
  by (simp add: mul_s1s2_def Fr_rawSMul_def Let_def rep_iff)

lemma add_s1s2_rep:
  assumes "short_rep P (shortVal (m a)) x" "short_rep P (shortVal (m b)) y"
    and "length (longVal (m r)) = fr_n64 P"
  shows "fr_rep P (add_s1s2 G P r a b m r) (x + y)"
proof -
  have "fr_rep P (store_short G P r (Fr_rawSAdd (shortVal (m a)) (shortVal (m b))) m r) (x + y)"
    unfolding Fr_rawSAdd_def Let_def
    using sint_u32_bounds [of "shortVal (m a)"] sint_u32_bounds [of "shortVal (m b)"]
      s1s2_rep [OF assms(1,2)] assms(3)
    by (intro store_short_rep) (simp_all add: short_sum)
  then show ?thesis by (simp add: add_s1s2_def store_short_def Let_def case_prod_beta split: if_splits)
qed

lemma sub_s1s2_rep:
  assumes "short_rep P (shortVal (m a)) x" "short_rep P (shortVal (m b)) y"
    and "length (longVal (m r)) = fr_n64 P"
  shows "fr_rep P (sub_s1s2 G P r a b m r) (x - y)"
proof -
  have "fr_rep P (store_short G P r (Fr_rawSSub (shortVal (m a)) (shortVal (m b))) m r) (x - y)"
    unfolding Fr_rawSSub_def Let_def
    using sint_u32_bounds [of "shortVal (m a)"] sint_u32_bounds [of "shortVal (m b)"]
      s1s2_rep [OF assms(1,2)] assms(3)
    by (intro store_short_rep) (simp_all add: short_sum)
  then show ?thesis by (simp add: sub_s1s2_def store_short_def Let_def case_prod_beta split: if_splits)
qed

lemma Fr_neg_rep:
  assumes A: "fr_rep P (m a) x" and r: "length (longVal (m r)) = fr_n64 P"
  shows "fr_rep P (Fr_neg G P r a m r) (- x)"
proof (cases "is_long (m a)")
  case True
  show ?thesis using A True red_Neg [of "longVal (m a)" x] red_Neg [of "longVal (m a)" "x * Rv P"]
    by (cases rule: fr_rep_cases) (auto simp: Fr_neg_def Let_def rep_iff)
next
  case False
  then have s: "short_rep P (shortVal (m a)) x"
    by (cases rule: fr_rep_cases [OF A]) simp_all
  have "fr_rep P (store_short G P r (Fr_rawSNeg (shortVal (m a))) m r) (- x)"
    unfolding Fr_rawSNeg_def Let_def
    using sint_u32_bounds [of "shortVal (m a)"] s1s2_rep [OF s s] r
    by (intro store_short_rep) (simp_all add: short_sum)
  then show ?thesis using False by (simp add: Fr_neg_def store_short_def Let_def case_prod_beta split: if_splits)
qed

lemma red_MMul1_comm:
  assumes "reduced P a x" "short_rep P s y"
  shows "\<not> sint s < 0 \<Longrightarrow>
      reduced P (Fr_rawMMul G P (Fr_rawMMul1 G P a (scast s)) (fr_r3_list P)) (y * x * Rv P)"
    and "sint s < 0 \<Longrightarrow>
      reduced P (Fr_rawMMul G P (Fr_rawNeg G P (Fr_rawMMul1 G P a (- scast s))) (fr_r3_list P))
        (y * x * Rv P)"
  using red_MMul1_n [OF assms] by (simp_all add: mult.commute)

lemma red_MMul1_m_comm:
  assumes "reduced P a (x * Rv P)" "short_rep P s y"
  shows "\<not> sint s < 0 \<Longrightarrow> reduced P (Fr_rawMMul1 G P a (scast s)) (y * x)"
    and "sint s < 0 \<Longrightarrow> reduced P (Fr_rawNeg G P (Fr_rawMMul1 G P a (- scast s))) (y * x)"
  using red_MMul1_m [OF assms] by (simp_all add: mult.commute)

lemmas mul_rules = red_MMul_forms red_MMul_nn red_MMul1_n red_MMul1_m red_MMul1_comm red_MMul1_m_comm

lemma Fr_mul_rep:
  assumes A: "fr_rep P (m a) x" and B: "fr_rep P (m b) y"
  shows "fr_rep P (Fr_mul G P r a b m r) (x * y)"
  by (rule fr_rep_cases [OF A]; rule fr_rep_cases [OF B])
    (simp_all add: Fr_mul_def mul_s1s2_rep,
     simp_all add: mul_leafs Let_def rep_iff mul_rules)

lemma Fr_square_rep:
  assumes A: "fr_rep P (m a) x"
  shows "fr_rep P (Fr_square G P r a m r) (x * x)"
  by (rule fr_rep_cases [OF A])
    (simp_all add: Fr_square_def Fr_rawMSquare_def Fr_rawSMul_def red_S2L_prod Let_def rep_iff
      mul_rules)

lemma red_AddSub_m:
  assumes "reduced P a (x * Rv P)" "reduced P b (y * Rv P)"
  shows "reduced P (Fr_rawAdd G P a b) ((x + y) * Rv P)"
    and "reduced P (Fr_rawSub G P a b) ((x - y) * Rv P)"
  using red_Add [OF assms] red_Sub [OF assms] by (simp_all add: algebra_simps)

lemma red_AddLS_comm:
  assumes "reduced P a u" "short_rep P s y"
  shows "\<not> sint s < 0 \<Longrightarrow> reduced P (Fr_rawAddLS G P a (scast s)) (y + u)"
    and "sint s < 0 \<Longrightarrow> reduced P (Fr_rawSubLS G P a (- scast s)) (y + u)"
  using red_AddLS(1) [OF assms] red_SubLS(2) [OF assms] by (simp_all add: add.commute)

lemmas add_rules = red_Add red_Sub red_AddSub_m red_AddLS red_AddLS_comm red_SubLS red_SubSL

lemma Fr_add_rep:
  assumes A: "fr_rep P (m (Ext a)) x" and B: "fr_rep P (m (Ext b)) y"
    and r: "r \<noteq> a" "r \<noteq> b" and l: "length (longVal (m (Ext r))) = fr_n64 P"
  shows "fr_rep P (Fr_add G P (Ext r) (Ext a) (Ext b) m (Ext r)) (x + y)"
  by (rule fr_rep_cases [OF A]; rule fr_rep_cases [OF B]; insert r r [symmetric])
    (simp_all add: Fr_add_def add_s1s2_rep l,
     simp_all add: add_leafs Let_def rep_iff add_rules set_other toMontgomery_long A B not_le
      flip: not_less)

lemma Fr_sub_rep:
  assumes A: "fr_rep P (m (Ext a)) x" and B: "fr_rep P (m (Ext b)) y"
    and r: "r \<noteq> a" "r \<noteq> b" and l: "length (longVal (m (Ext r))) = fr_n64 P"
  shows "fr_rep P (Fr_sub G P (Ext r) (Ext a) (Ext b) m (Ext r)) (x - y)"
  by (rule fr_rep_cases [OF A]; rule fr_rep_cases [OF B]; insert r r [symmetric])
    (simp_all add: Fr_sub_def sub_s1s2_rep l,
     simp_all add: sub_leafs Let_def rep_iff add_rules set_other toMontgomery_long A B not_le
      flip: not_less)

end

lemma arith_frame:
  "frame r m (Fr_mul G P r a b m)" "frame r m (Fr_add G P r a b m)" "frame r m (Fr_sub G P r a b m)"
  "frame r m (Fr_neg G P r a m)" "frame r m (Fr_square G P r a m)"
  by (simp_all add: Fr_mul_def Fr_add_def Fr_sub_def Fr_neg_def Fr_square_def Let_def
      mul_leafs add_leafs sub_leafs split: prod.split)

subsection \<open>The results\<close>

text \<open>
  Property C7. \<open>Fr_mul\<close> stores an element that represents the product of what its operands
  represent, in each of the sixteen combinations of representations and also when the result
  is one of the operands; \<open>Fr_square\<close> does the same with one operand. No other element changes.
\<close>

theorem Fr_mul_correct:
  assumes "fr_field G P" "fr_rep P (m (Ext a)) x" "fr_rep P (m (Ext b)) y"
  shows "fr_rep P (Fr_mul G P (Ext r) (Ext a) (Ext b) m (Ext r)) (x * y) \<and>
    frame (Ext r) m (Fr_mul G P (Ext r) (Ext a) (Ext b) m) \<and>
    fr_rep P (Fr_square G P (Ext r) (Ext a) m (Ext r)) (x * x) \<and>
    frame (Ext r) m (Fr_square G P (Ext r) (Ext a) m)"
  using fr_field.Fr_mul_rep [where m = m and a = "Ext a" and b = "Ext b", OF assms]
    fr_field.Fr_square_rep [where m = m and a = "Ext a", OF assms(1,2)]
  by (simp add: arith_frame)

theorem Fr_mul_correct_witness:
  "fr_rep bn128_params (Fr_mul mpn_ref bn128_params (Ext 0) (Ext 0) (Ext 2) bn_mem (Ext 0)) (- 3 * 7)"
  using Fr_mul_correct [where m = bn_mem and a = 0 and b = 2 and r = 0, OF bn128_fr_field bn_mem_reps(1,3)]
  by blast

text \<open>
  Property C8. \<open>Fr_add\<close> and \<open>Fr_sub\<close> store an element that represents the sum and the
  difference, for every combination of representations, when the result is neither operand;
  short results that do not fit 32 bits become long. No other element changes. In place they are not
  always right: \<open>Fr_sub_in_place\<close> below.
\<close>

theorem Fr_add_sub_correct:
  assumes "fr_field G P" "fr_rep P (m (Ext a)) x" "fr_rep P (m (Ext b)) y"
    and "r \<noteq> a" "r \<noteq> b" "length (longVal (m (Ext r))) = fr_n64 P"
  shows "fr_rep P (Fr_add G P (Ext r) (Ext a) (Ext b) m (Ext r)) (x + y) \<and>
    fr_rep P (Fr_sub G P (Ext r) (Ext a) (Ext b) m (Ext r)) (x - y) \<and>
    frame (Ext r) m (Fr_add G P (Ext r) (Ext a) (Ext b) m) \<and>
    frame (Ext r) m (Fr_sub G P (Ext r) (Ext a) (Ext b) m)"
  using fr_field.Fr_add_rep [where m = m and a = a and b = b, OF assms]
    fr_field.Fr_sub_rep [where m = m and a = a and b = b, OF assms]
  by (simp add: arith_frame)

theorem Fr_add_sub_correct_witness:
  "fr_rep bn128_params (Fr_sub mpn_ref bn128_params (Ext 3) (Ext 0) (Ext 2) bn_mem (Ext 3)) (- 3 - 7)"
  using Fr_add_sub_correct [where m = bn_mem and a = 0 and b = 2 and r = 3,
      OF bn128_fr_field bn_mem_reps(1,3) _ _ bn_mem_reps(4)] by simp

text \<open>
  Subtraction in place of a Montgomery operand from a long normal one is not
  subtraction: the type of the result is written before the first operand is converted, so
  the operand is taken to be in Montgomery form already. The result is right only if the
  value times the radix minus one vanishes modulo the prime.
\<close>

lemma Fr_sub_in_place:
  assumes "fr_field G P" "fr_rep P (m (Ext a)) x" "fr_rep P (m (Ext b)) y" "a \<noteq> b"
    and "fr_type (m (Ext a)) = Fr_LONG" "fr_type (m (Ext b)) = Fr_LONGMONTGOMERY"
  shows "fr_rep P (Fr_sub G P (Ext a) (Ext a) (Ext b) m (Ext a)) (x - y) \<longleftrightarrow>
    (x * (Rv P - 1)) mod qv P = 0"
proof -
  let ?e = "Fr_sub G P (Ext a) (Ext a) (Ext b) m (Ext a)"
  have l: "reduced P (longVal (m (Ext a))) x" "reduced P (longVal (m (Ext b))) (y * Rv P)"
    using assms(2,3,5,6) by (simp_all add: fr_rep_long fr_rep_longmont)
  have e: "fr_type ?e = Fr_LONGMONTGOMERY"
    "longVal ?e = Fr_rawSub G P (longVal (m (Ext a))) (longVal (m (Ext b)))"
    using assms(4-6) by (simp_all add: Fr_sub_def sub_l1nl2m_def Let_def Fr_toMontgomery_def Fr_copy_def)
  have "reduced P (longVal ?e) (x - y * Rv P)"
    unfolding e(2) by (rule fr_field.red_Sub [OF assms(1) l])
  then have "fr_rep P ?e (x - y) \<longleftrightarrow> (x - y * Rv P) mod qv P = ((x - y) * Rv P) mod qv P"
    using e(1) by (simp add: fr_rep_longmont reduced_def)
  also have "\<dots> \<longleftrightarrow> qv P dvd (x - y * Rv P) - (x - y) * Rv P" by (rule mod_eq_dvd_iff)
  also have "(x - y * Rv P) - (x - y) * Rv P = - (x * (Rv P - 1))" by (simp add: algebra_simps)
  also have "qv P dvd - (x * (Rv P - 1)) \<longleftrightarrow> qv P dvd x * (Rv P - 1)" by (rule dvd_minus_iff)
  finally show ?thesis unfolding dvd_eq_mod_eq_0 .
qed

lemma Fr_sub_in_place_witness:
  "fr_rep bn128_params (Fr_sub mpn_ref bn128_params (Ext 1) (Ext 1) (Ext 2) bn_mem (Ext 1)) (5 - 7) \<longleftrightarrow>
    (5 * (Rv bn128_params - 1)) mod qv bn128_params = 0"
  using Fr_sub_in_place [where m = bn_mem and a = 1 and b = 2, OF bn128_fr_field bn_mem_reps(2,3)]
  by (simp add: bn_mem_def)

text \<open>
  \<open>Fr_neg\<close> stores an element that represents the negated value, also when the
  result is the operand and when the operand is the least short integer.
\<close>

lemma Fr_neg_correct:
  assumes "fr_field G P" "fr_rep P (m (Ext a)) x" "length (longVal (m (Ext r))) = fr_n64 P"
  shows "fr_rep P (Fr_neg G P (Ext r) (Ext a) m (Ext r)) (- x) \<and>
    frame (Ext r) m (Fr_neg G P (Ext r) (Ext a) m)"
  using fr_field.Fr_neg_rep [where m = m, OF assms]
  by (simp add: arith_frame)

lemma Fr_neg_correct_witness:
  "fr_rep bn128_params (Fr_neg mpn_ref bn128_params (Ext 2) (Ext 2) bn_mem (Ext 2)) (- 7)"
  using Fr_neg_correct [where m = bn_mem and a = 2 and r = 2, OF bn128_fr_field bn_mem_reps(3,4)] by simp

end
