(* ===== verification/FrCmp.thy ===== *)
theory FrCmp
  imports FrArith
begin

text \<open>
  Order, equality and logical operators on field elements (\<open>generic/fr.cpp\<close>). Circom orders a
  field element as a signed number: a residue above half of the prime counts as negative
  (\<open>fr_signed\<close>). The comparisons convert both operands to long normal form in local
  variables and compare the limbs with \<open>half\<close> and with each other; equality converts to
  whichever form the other operand has. The lemmas say what each operator stores.
\<close>

subsection \<open>Less than\<close>

definition rlt_s1s2 :: "ptr \<Rightarrow> ptr \<Rightarrow> fr_mem \<Rightarrow> u32" where
  "rlt_s1s2 a b m = (if sint (shortVal (m a)) < sint (shortVal (m b)) then 1 else 0)"

definition rltRawL1L2 :: "mpn_api \<Rightarrow> limbs \<Rightarrow> limbs \<Rightarrow> u32" where
  "rltRawL1L2 G pRawA pRawB = (if Fr_rawCmp G pRawB pRawA > 0 then 1 else 0)"

definition rltl1l2_n1 :: "mpn_api \<Rightarrow> fr_params \<Rightarrow> limbs \<Rightarrow> limbs \<Rightarrow> u32" where
  "rltl1l2_n1 G P pRawA pRawB =
     (if Fr_rawCmp G (half_list P) pRawB < 0 then rltRawL1L2 G pRawA pRawB else 1)"

definition rltl1l2_p1 :: "mpn_api \<Rightarrow> fr_params \<Rightarrow> limbs \<Rightarrow> limbs \<Rightarrow> u32" where
  "rltl1l2_p1 G P pRawA pRawB =
     (if Fr_rawCmp G (half_list P) pRawB < 0 then 0 else rltRawL1L2 G pRawA pRawB)"

definition rltL1L2 :: "mpn_api \<Rightarrow> fr_params \<Rightarrow> limbs \<Rightarrow> limbs \<Rightarrow> u32" where
  "rltL1L2 G P pRawA pRawB =
     (if Fr_rawCmp G (half_list P) pRawA < 0 then rltl1l2_n1 G P pRawA pRawB
      else rltl1l2_p1 G P pRawA pRawB)"

definition rlt_l1nl2n :: "mpn_api \<Rightarrow> fr_params \<Rightarrow> ptr \<Rightarrow> ptr \<Rightarrow> fr_mem \<Rightarrow> u32" where
  "rlt_l1nl2n G P a b m =
     rltL1L2 G P (longVal (m a)) (longVal (m b))"

definition rlt_l1nl2m :: "mpn_api \<Rightarrow> fr_params \<Rightarrow> ptr \<Rightarrow> ptr \<Rightarrow> fr_mem \<Rightarrow> u32" where
  "rlt_l1nl2m G P a b m =
     (let m = Fr_toNormal G P (Loc B_n) b m
      in rltL1L2 G P (longVal (m a)) (longVal (m (Loc B_n))))"

definition rlt_l1ml2m :: "mpn_api \<Rightarrow> fr_params \<Rightarrow> ptr \<Rightarrow> ptr \<Rightarrow> fr_mem \<Rightarrow> u32" where
  "rlt_l1ml2m G P a b m =
     (let m = Fr_toNormal G P (Loc A_n) a m;
          m = Fr_toNormal G P (Loc B_n) b m
      in rltL1L2 G P (longVal (m (Loc A_n))) (longVal (m (Loc B_n))))"

definition rlt_l1ml2n :: "mpn_api \<Rightarrow> fr_params \<Rightarrow> ptr \<Rightarrow> ptr \<Rightarrow> fr_mem \<Rightarrow> u32" where
  "rlt_l1ml2n G P a b m =
     (let m = Fr_toNormal G P (Loc A_n) a m
      in rltL1L2 G P (longVal (m (Loc A_n))) (longVal (m b)))"

definition rlt_s1l2n :: "mpn_api \<Rightarrow> fr_params \<Rightarrow> ptr \<Rightarrow> ptr \<Rightarrow> fr_mem \<Rightarrow> u32" where
  "rlt_s1l2n G P a b m =
     (let m = Fr_toLongNormal G P (Loc A_n) a m
      in rltL1L2 G P (longVal (m (Loc A_n))) (longVal (m b)))"

definition rlt_l1ms2 :: "mpn_api \<Rightarrow> fr_params \<Rightarrow> ptr \<Rightarrow> ptr \<Rightarrow> fr_mem \<Rightarrow> u32" where
  "rlt_l1ms2 G P a b m =
     (let m = Fr_toLongNormal G P (Loc B_l) b m;
          m = Fr_toNormal G P (Loc A_n) a m
      in rltL1L2 G P (longVal (m (Loc A_n))) (longVal (m (Loc B_l))))"

definition rlt_s1l2m :: "mpn_api \<Rightarrow> fr_params \<Rightarrow> ptr \<Rightarrow> ptr \<Rightarrow> fr_mem \<Rightarrow> u32" where
  "rlt_s1l2m G P a b m =
     (let m = Fr_toLongNormal G P (Loc A_n) a m;
          m = Fr_toNormal G P (Loc B_n) b m
      in rltL1L2 G P (longVal (m (Loc A_n))) (longVal (m (Loc B_n))))"

definition rlt_l1ns2 :: "mpn_api \<Rightarrow> fr_params \<Rightarrow> ptr \<Rightarrow> ptr \<Rightarrow> fr_mem \<Rightarrow> u32" where
  "rlt_l1ns2 G P a b m =
     (let m = Fr_toLongNormal G P (Loc B_n) b m
      in rltL1L2 G P (longVal (m a)) (longVal (m (Loc B_n))))"

definition Fr_rlt :: "mpn_api \<Rightarrow> fr_params \<Rightarrow> ptr \<Rightarrow> ptr \<Rightarrow> fr_mem \<Rightarrow> u32" where
  "Fr_rlt G P a b m =
     (if is_long (m a)
      then if is_long (m b)
           then if is_mont (m a)
                then if is_mont (m b) then rlt_l1ml2m G P a b m else rlt_l1ml2n G P a b m
                else if is_mont (m b) then rlt_l1nl2m G P a b m else rlt_l1nl2n G P a b m
           else if is_mont (m a) then rlt_l1ms2 G P a b m else rlt_l1ns2 G P a b m
      else if is_long (m b)
      then if is_mont (m b) then rlt_s1l2m G P a b m else rlt_s1l2n G P a b m
      else rlt_s1s2 a b m)"

definition Fr_lt :: "mpn_api \<Rightarrow> fr_params \<Rightarrow> ptr \<Rightarrow> ptr \<Rightarrow> ptr \<Rightarrow> fr_mem \<Rightarrow> fr_mem" where
  "Fr_lt G P r a b m =
     (let m = set_short r (Fr_rlt G P a b m) m
      in set_type r Fr_SHORT m)"

definition Fr_geq :: "mpn_api \<Rightarrow> fr_params \<Rightarrow> ptr \<Rightarrow> ptr \<Rightarrow> ptr \<Rightarrow> fr_mem \<Rightarrow> fr_mem" where
  "Fr_geq G P r a b m =
     (let result = Fr_rlt G P a b m;
          result = result XOR 0x1;
          m = set_short r result m
      in set_type r Fr_SHORT m)"

subsection \<open>Greater than\<close>

definition rgt_s1s2 :: "ptr \<Rightarrow> ptr \<Rightarrow> fr_mem \<Rightarrow> u32" where
  "rgt_s1s2 a b m = (if sint (shortVal (m a)) > sint (shortVal (m b)) then 1 else 0)"

definition rgtRawL1L2 :: "mpn_api \<Rightarrow> limbs \<Rightarrow> limbs \<Rightarrow> u32" where
  "rgtRawL1L2 G pRawA pRawB = (if Fr_rawCmp G pRawB pRawA < 0 then 1 else 0)"

definition rgtl1l2_n1 :: "mpn_api \<Rightarrow> fr_params \<Rightarrow> limbs \<Rightarrow> limbs \<Rightarrow> u32" where
  "rgtl1l2_n1 G P pRawA pRawB =
     (if Fr_rawCmp G (half_list P) pRawB < 0 then rgtRawL1L2 G pRawA pRawB else 0)"

definition rgtl1l2_p1 :: "mpn_api \<Rightarrow> fr_params \<Rightarrow> limbs \<Rightarrow> limbs \<Rightarrow> u32" where
  "rgtl1l2_p1 G P pRawA pRawB =
     (if Fr_rawCmp G (half_list P) pRawB < 0 then 1 else rgtRawL1L2 G pRawA pRawB)"

definition rgtL1L2 :: "mpn_api \<Rightarrow> fr_params \<Rightarrow> limbs \<Rightarrow> limbs \<Rightarrow> u32" where
  "rgtL1L2 G P pRawA pRawB =
     (if Fr_rawCmp G (half_list P) pRawA < 0 then rgtl1l2_n1 G P pRawA pRawB
      else rgtl1l2_p1 G P pRawA pRawB)"

definition rgt_l1nl2n :: "mpn_api \<Rightarrow> fr_params \<Rightarrow> ptr \<Rightarrow> ptr \<Rightarrow> fr_mem \<Rightarrow> u32" where
  "rgt_l1nl2n G P a b m =
     rgtL1L2 G P (longVal (m a)) (longVal (m b))"

definition rgt_l1nl2m :: "mpn_api \<Rightarrow> fr_params \<Rightarrow> ptr \<Rightarrow> ptr \<Rightarrow> fr_mem \<Rightarrow> u32" where
  "rgt_l1nl2m G P a b m =
     (let m = Fr_toNormal G P (Loc B_n) b m
      in rgtL1L2 G P (longVal (m a)) (longVal (m (Loc B_n))))"

definition rgt_l1ml2m :: "mpn_api \<Rightarrow> fr_params \<Rightarrow> ptr \<Rightarrow> ptr \<Rightarrow> fr_mem \<Rightarrow> u32" where
  "rgt_l1ml2m G P a b m =
     (let m = Fr_toNormal G P (Loc A_n) a m;
          m = Fr_toNormal G P (Loc B_n) b m
      in rgtL1L2 G P (longVal (m (Loc A_n))) (longVal (m (Loc B_n))))"

definition rgt_l1ml2n :: "mpn_api \<Rightarrow> fr_params \<Rightarrow> ptr \<Rightarrow> ptr \<Rightarrow> fr_mem \<Rightarrow> u32" where
  "rgt_l1ml2n G P a b m =
     (let m = Fr_toNormal G P (Loc A_n) a m
      in rgtL1L2 G P (longVal (m (Loc A_n))) (longVal (m b)))"

definition rgt_s1l2n :: "mpn_api \<Rightarrow> fr_params \<Rightarrow> ptr \<Rightarrow> ptr \<Rightarrow> fr_mem \<Rightarrow> u32" where
  "rgt_s1l2n G P a b m =
     (let m = Fr_toLongNormal G P (Loc A_n) a m
      in rgtL1L2 G P (longVal (m (Loc A_n))) (longVal (m b)))"

definition rgt_l1ms2 :: "mpn_api \<Rightarrow> fr_params \<Rightarrow> ptr \<Rightarrow> ptr \<Rightarrow> fr_mem \<Rightarrow> u32" where
  "rgt_l1ms2 G P a b m =
     (let m = Fr_toNormal G P (Loc A_n) a m;
          m = Fr_toLongNormal G P (Loc B_n) b m
      in rgtL1L2 G P (longVal (m (Loc A_n))) (longVal (m (Loc B_n))))"

definition rgt_s1l2m :: "mpn_api \<Rightarrow> fr_params \<Rightarrow> ptr \<Rightarrow> ptr \<Rightarrow> fr_mem \<Rightarrow> u32" where
  "rgt_s1l2m G P a b m =
     (let m = Fr_toLongNormal G P (Loc A_n) a m;
          m = Fr_toNormal G P (Loc B_n) b m
      in rgtL1L2 G P (longVal (m (Loc A_n))) (longVal (m (Loc B_n))))"

definition rgt_l1ns2 :: "mpn_api \<Rightarrow> fr_params \<Rightarrow> ptr \<Rightarrow> ptr \<Rightarrow> fr_mem \<Rightarrow> u32" where
  "rgt_l1ns2 G P a b m =
     (let m = Fr_toLongNormal G P (Loc B_n) b m
      in rgtL1L2 G P (longVal (m a)) (longVal (m (Loc B_n))))"

text \<open>\<open>Fr_rgt\<close> and \<open>Fr_req\<close> also take the result pointer, which they do not use.\<close>

definition Fr_rgt :: "mpn_api \<Rightarrow> fr_params \<Rightarrow> ptr \<Rightarrow> ptr \<Rightarrow> fr_mem \<Rightarrow> u32" where
  "Fr_rgt G P a b m =
     (if is_long (m a)
      then if is_long (m b)
           then if is_mont (m a)
                then if is_mont (m b) then rgt_l1ml2m G P a b m else rgt_l1ml2n G P a b m
                else if is_mont (m b) then rgt_l1nl2m G P a b m else rgt_l1nl2n G P a b m
           else if is_mont (m a) then rgt_l1ms2 G P a b m else rgt_l1ns2 G P a b m
      else if is_long (m b)
      then if is_mont (m b) then rgt_s1l2m G P a b m else rgt_s1l2n G P a b m
      else rgt_s1s2 a b m)"

definition Fr_gt :: "mpn_api \<Rightarrow> fr_params \<Rightarrow> ptr \<Rightarrow> ptr \<Rightarrow> ptr \<Rightarrow> fr_mem \<Rightarrow> fr_mem" where
  "Fr_gt G P r a b m =
     (let m = set_short r (Fr_rgt G P a b m) m
      in set_type r Fr_SHORT m)"

definition Fr_leq :: "mpn_api \<Rightarrow> fr_params \<Rightarrow> ptr \<Rightarrow> ptr \<Rightarrow> ptr \<Rightarrow> fr_mem \<Rightarrow> fr_mem" where
  "Fr_leq G P r a b m =
     (let result = Fr_rgt G P a b m;
          result = result XOR 0x1;
          m = set_short r result m
      in set_type r Fr_SHORT m)"

subsection \<open>Equality\<close>

definition reqL1L2 :: "mpn_api \<Rightarrow> limbs \<Rightarrow> limbs \<Rightarrow> u32" where
  "reqL1L2 G pRawA pRawB = (if Fr_rawCmp G pRawB pRawA = 0 then 1 else 0)"

definition req_s1s2 :: "ptr \<Rightarrow> ptr \<Rightarrow> fr_mem \<Rightarrow> u32" where
  "req_s1s2 a b m = (if shortVal (m a) = shortVal (m b) then 1 else 0)"

definition req_l1nl2n :: "mpn_api \<Rightarrow> fr_params \<Rightarrow> ptr \<Rightarrow> ptr \<Rightarrow> fr_mem \<Rightarrow> u32" where
  "req_l1nl2n G P a b m =
     reqL1L2 G (longVal (m a)) (longVal (m b))"

definition req_l1nl2m :: "mpn_api \<Rightarrow> fr_params \<Rightarrow> ptr \<Rightarrow> ptr \<Rightarrow> fr_mem \<Rightarrow> u32" where
  "req_l1nl2m G P a b m =
     (let m = Fr_toMontgomery G P (Loc A_m) a m
      in reqL1L2 G (longVal (m (Loc A_m))) (longVal (m b)))"

definition req_l1ml2m :: "mpn_api \<Rightarrow> fr_params \<Rightarrow> ptr \<Rightarrow> ptr \<Rightarrow> fr_mem \<Rightarrow> u32" where
  "req_l1ml2m G P a b m =
     reqL1L2 G (longVal (m a)) (longVal (m b))"

definition req_l1ml2n :: "mpn_api \<Rightarrow> fr_params \<Rightarrow> ptr \<Rightarrow> ptr \<Rightarrow> fr_mem \<Rightarrow> u32" where
  "req_l1ml2n G P a b m =
     (let m = Fr_toMontgomery G P (Loc B_m) b m
      in reqL1L2 G (longVal (m a)) (longVal (m (Loc B_m))))"

definition req_s1l2n :: "mpn_api \<Rightarrow> fr_params \<Rightarrow> ptr \<Rightarrow> ptr \<Rightarrow> fr_mem \<Rightarrow> u32" where
  "req_s1l2n G P a b m =
     (let m = Fr_toLongNormal G P (Loc A_n) a m
      in reqL1L2 G (longVal (m (Loc A_n))) (longVal (m b)))"

definition req_l1ms2 :: "mpn_api \<Rightarrow> fr_params \<Rightarrow> ptr \<Rightarrow> ptr \<Rightarrow> fr_mem \<Rightarrow> u32" where
  "req_l1ms2 G P a b m =
     (let m = Fr_toMontgomery G P (Loc B_m) b m
      in reqL1L2 G (longVal (m a)) (longVal (m (Loc B_m))))"

definition req_s1l2m :: "mpn_api \<Rightarrow> fr_params \<Rightarrow> ptr \<Rightarrow> ptr \<Rightarrow> fr_mem \<Rightarrow> u32" where
  "req_s1l2m G P a b m =
     (let m = Fr_toMontgomery G P (Loc A_m) a m
      in reqL1L2 G (longVal (m (Loc A_m))) (longVal (m b)))"

definition req_l1ns2 :: "mpn_api \<Rightarrow> fr_params \<Rightarrow> ptr \<Rightarrow> ptr \<Rightarrow> fr_mem \<Rightarrow> u32" where
  "req_l1ns2 G P a b m =
     (let m = Fr_toLongNormal G P (Loc B_n) b m
      in reqL1L2 G (longVal (m a)) (longVal (m (Loc B_n))))"

definition Fr_req :: "mpn_api \<Rightarrow> fr_params \<Rightarrow> ptr \<Rightarrow> ptr \<Rightarrow> fr_mem \<Rightarrow> u32" where
  "Fr_req G P a b m =
     (if is_long (m a)
      then if is_long (m b)
           then if is_mont (m a)
                then if is_mont (m b) then req_l1ml2m G P a b m else req_l1ml2n G P a b m
                else if is_mont (m b) then req_l1nl2m G P a b m else req_l1nl2n G P a b m
           else if is_mont (m a) then req_l1ms2 G P a b m else req_l1ns2 G P a b m
      else if is_long (m b)
      then if is_mont (m b) then req_s1l2m G P a b m else req_s1l2n G P a b m
      else req_s1s2 a b m)"

definition Fr_eq :: "mpn_api \<Rightarrow> fr_params \<Rightarrow> ptr \<Rightarrow> ptr \<Rightarrow> ptr \<Rightarrow> fr_mem \<Rightarrow> fr_mem" where
  "Fr_eq G P r a b m =
     (let m = set_short r (Fr_req G P a b m) m
      in set_type r Fr_SHORT m)"

definition Fr_neq :: "mpn_api \<Rightarrow> fr_params \<Rightarrow> ptr \<Rightarrow> ptr \<Rightarrow> ptr \<Rightarrow> fr_mem \<Rightarrow> fr_mem" where
  "Fr_neq G P r a b m =
     (let result = Fr_req G P a b m;
          m = set_short r (result XOR 0x1) m
      in set_type r Fr_SHORT m)"

subsection \<open>Logical operators\<close>

definition Fr_isTrue :: "mpn_api \<Rightarrow> ptr \<Rightarrow> fr_mem \<Rightarrow> int" where
  "Fr_isTrue G pE m =
     (if is_long (m pE) then (if Fr_rawIsZero G (longVal (m pE)) = 0 then 1 else 0)
      else (if shortVal (m pE) \<noteq> 0 then 1 else 0))"

definition Fr_lor :: "mpn_api \<Rightarrow> ptr \<Rightarrow> ptr \<Rightarrow> ptr \<Rightarrow> fr_mem \<Rightarrow> fr_mem" where
  "Fr_lor G r a b m =
     (let is_true_a = (if is_long (m a)
                       then (if Fr_rawIsZero G (longVal (m a)) = 0 then 1 else 0)
                       else (if shortVal (m a) \<noteq> 0 then 1 else 0));
          is_true_b = (if is_long (m b)
                       then (if Fr_rawIsZero G (longVal (m b)) = 0 then 1 else 0)
                       else (if shortVal (m b) \<noteq> 0 then 1 else 0));
          m = set_short r (is_true_a OR is_true_b) m
      in set_type r Fr_SHORT m)"

definition Fr_land :: "mpn_api \<Rightarrow> ptr \<Rightarrow> ptr \<Rightarrow> ptr \<Rightarrow> fr_mem \<Rightarrow> fr_mem" where
  "Fr_land G r a b m =
     (let is_true_a = (if is_long (m a)
                       then (if Fr_rawIsZero G (longVal (m a)) = 0 then 1 else 0)
                       else (if shortVal (m a) \<noteq> 0 then 1 else 0));
          is_true_b = (if is_long (m b)
                       then (if Fr_rawIsZero G (longVal (m b)) = 0 then 1 else 0)
                       else (if shortVal (m b) \<noteq> 0 then 1 else 0));
          m = set_short r (is_true_a AND is_true_b) m
      in set_type r Fr_SHORT m)"

definition Fr_lnot :: "mpn_api \<Rightarrow> ptr \<Rightarrow> ptr \<Rightarrow> fr_mem \<Rightarrow> fr_mem" where
  "Fr_lnot G r a m =
     (let m = (if is_long (m a)
               then set_short r (word_of_int (Fr_rawIsZero G (longVal (m a)))) m
               else set_short r (if shortVal (m a) \<noteq> 0 then 0 else 1) m)
      in set_type r Fr_SHORT m)"

lemmas rlt_leafs = rlt_l1nl2n_def rlt_l1nl2m_def rlt_l1ml2m_def rlt_l1ml2n_def rlt_s1l2n_def
  rlt_l1ms2_def rlt_s1l2m_def rlt_l1ns2_def

lemmas rgt_leafs = rgt_l1nl2n_def rgt_l1nl2m_def rgt_l1ml2m_def rgt_l1ml2n_def rgt_s1l2n_def
  rgt_l1ms2_def rgt_s1l2m_def rgt_l1ns2_def

lemmas req_leafs = req_l1nl2n_def req_l1nl2m_def req_l1ml2m_def req_l1ml2n_def req_s1l2n_def
  req_l1ms2_def req_s1l2m_def req_l1ns2_def

subsection \<open>What they store\<close>

definition fr_signed :: "fr_params \<Rightarrow> int \<Rightarrow> int" where
  "fr_signed P v = (let u = v mod qv P in if u > qv P div 2 then u - qv P else u)"

context fr_field begin

lemma signed_short:
  assumes "short_rep P s x"
  shows "fr_signed P x = sint s"
proof -
  have q: "2 ^ 32 < qv P" by (rule less_trans [OF _ q_gt]) simp
  have e: "x mod qv P = (if sint s < 0 then sint s + qv P else sint s)"
  proof (cases "sint s < 0")
    case True
    have "sint s mod qv P = (sint s + qv P) mod qv P" by simp
    also have "\<dots> = sint s + qv P"
      using True sint_u32_bounds [of s] q by (intro mod_pos_pos_trivial) auto
    finally show ?thesis using True assms by (simp add: short_rep_def)
  next
    case False
    then have "sint s mod qv P = sint s"
      using sint_u32_bounds [of s] q by (intro mod_pos_pos_trivial) auto
    then show ?thesis using False assms by (simp add: short_rep_def)
  qed
  show ?thesis unfolding fr_signed_def Let_def e using sint_u32_bounds [of s] q by auto
qed

lemma rlt_s1s2_val:
  assumes "short_rep P (shortVal (m a)) x" "short_rep P (shortVal (m b)) y"
  shows "rlt_s1s2 a b m = of_bool (fr_signed P x < fr_signed P y)"
  using assms by (simp add: rlt_s1s2_def signed_short)

lemma rgt_s1s2_val:
  assumes "short_rep P (shortVal (m a)) x" "short_rep P (shortVal (m b)) y"
  shows "rgt_s1s2 a b m = of_bool (fr_signed P y < fr_signed P x)"
  using assms by (simp add: rgt_s1s2_def signed_short)

lemma req_s1s2_val:
  assumes "short_rep P (shortVal (m a)) x" "short_rep P (shortVal (m b)) y"
  shows "req_s1s2 a b m = of_bool (x mod qv P = y mod qv P)"
proof -
  have "shortVal (m a) = shortVal (m b) \<longleftrightarrow> x mod qv P = y mod qv P"
    using assms signed_short [OF assms(1)] signed_short [OF assms(2)]
    by (metis fr_signed_def short_rep_def signed_word_eqI)
  then show ?thesis by (simp add: req_s1s2_def)
qed

lemma cmp_half:
  assumes "reduced P a x"
  shows "Fr_rawCmp G (half_list P) a < 0 \<longleftrightarrow> qv P div 2 < x mod qv P"
  using assms len_half val_half by (simp add: rawCmp_val reduced_def)

lemma mod_q_pos [simp]: "0 \<le> v mod qv P"
  using q_pos by simp

lemma order_mod:
  "x mod qv P - qv P < y mod qv P" "x mod qv P - qv P \<le> y mod qv P"
  using mod_q_bounds(1) [of x] mod_q_pos [of y] by linarith+

lemma rltL1L2_val:
  assumes "reduced P a x" "reduced P b y"
  shows "rltL1L2 G P a b = of_bool (fr_signed P x < fr_signed P y)"
proof -
  have r: "rltRawL1L2 G a b = of_bool (x mod qv P < y mod qv P)"
    using assms by (simp add: rltRawL1L2_def rawCmp_val reduced_def)
  show ?thesis
    unfolding rltL1L2_def rltl1l2_n1_def rltl1l2_p1_def r fr_signed_def Let_def
      cmp_half [OF assms(1)] cmp_half [OF assms(2)]
    by (auto simp: not_less order_mod)
qed

lemma rgtL1L2_val:
  assumes "reduced P a x" "reduced P b y"
  shows "rgtL1L2 G P a b = of_bool (fr_signed P y < fr_signed P x)"
proof -
  have r: "rgtRawL1L2 G a b = of_bool (y mod qv P < x mod qv P)"
    using assms by (simp add: rgtRawL1L2_def rawCmp_val reduced_def)
  show ?thesis
    unfolding rgtL1L2_def rgtl1l2_n1_def rgtl1l2_p1_def r fr_signed_def Let_def
      cmp_half [OF assms(1)] cmp_half [OF assms(2)]
    by (auto simp: not_less order_mod)
qed

lemma reqL1L2_val:
  assumes "reduced P a x" "reduced P b y"
  shows "reqL1L2 G a b = of_bool (x mod qv P = y mod qv P)"
  using assms by (auto simp: reqL1L2_def rawCmp_val reduced_def)

lemma cancel_R_iff: "(x * Rv P) mod qv P = (y * Rv P) mod qv P \<longleftrightarrow> x mod qv P = y mod qv P"
  by (blast intro: cancel_R mod_mult_cong)

lemma reqL1L2_val_m:
  assumes "reduced P a (x * Rv P)" "reduced P b (y * Rv P)"
  shows "reqL1L2 G a b = of_bool (x mod qv P = y mod qv P)"
  using reqL1L2_val [OF assms] by (simp only: cancel_R_iff)

lemma toNormal_long:
  assumes "fr_rep P (m a) v" "is_long (m a)"
  shows "reduced P (longVal (Fr_toNormal G P r a m r)) v"
  by (rule fr_rep_cases [OF assms(1)]; use assms(2) in
      \<open>simp add: Fr_toNormal_def Fr_copy_def Let_def red_FromMont\<close>)

lemma Fr_rlt_val:
  assumes A: "fr_rep P (m (Ext a)) x" and B: "fr_rep P (m (Ext b)) y"
  shows "Fr_rlt G P (Ext a) (Ext b) m = of_bool (fr_signed P x < fr_signed P y)"
  by (rule fr_rep_cases [OF A]; rule fr_rep_cases [OF B];
      simp add: Fr_rlt_def rlt_leafs Let_def split del: split_of_bool;
      (rule rlt_s1s2_val rltL1L2_val;
       simp add: toNormal_long toLongNormal_rep A B))

lemma Fr_rgt_val:
  assumes A: "fr_rep P (m (Ext a)) x" and B: "fr_rep P (m (Ext b)) y"
  shows "Fr_rgt G P (Ext a) (Ext b) m = of_bool (fr_signed P y < fr_signed P x)"
  by (rule fr_rep_cases [OF A]; rule fr_rep_cases [OF B];
      simp add: Fr_rgt_def rgt_leafs Let_def split del: split_of_bool;
      (rule rgt_s1s2_val rgtL1L2_val;
       simp add: toNormal_long toLongNormal_rep A B))

lemma Fr_req_val:
  assumes A: "fr_rep P (m (Ext a)) x" and B: "fr_rep P (m (Ext b)) y"
  shows "Fr_req G P (Ext a) (Ext b) m = of_bool (x mod qv P = y mod qv P)"
  by (rule fr_rep_cases [OF A]; rule fr_rep_cases [OF B];
      simp add: Fr_req_def req_leafs Let_def split del: split_of_bool;
      ((rule req_s1s2_val reqL1L2_val; simp add: toLongNormal_rep A B; fail)
       | (rule reqL1L2_val_m; simp add: toMontgomery_long A B)))

text \<open>An element is true when it does not represent zero.\<close>

lemma zero_long:
  assumes "reduced P a x"
  shows "Fr_rawIsZero G a = of_bool (x mod qv P = 0)"
  using assms by (simp add: rawIsZero_val reduced_def)

lemma cancel_R_zero: "(x * Rv P) mod qv P = 0 \<longleftrightarrow> x mod qv P = 0"
  using cancel_R_iff [of x 0] by simp

lemma zero_short:
  assumes "short_rep P s x"
  shows "s = 0 \<longleftrightarrow> x mod qv P = 0"
proof -
  have "fr_signed P 0 = 0" using q_pos by (simp add: fr_signed_def)
  then have "s = 0 \<longleftrightarrow> fr_signed P x = fr_signed P 0" by (simp add: signed_short [OF assms] signed_eq_0_iff)
  moreover have "x mod qv P = 0 \<Longrightarrow> fr_signed P x = 0" using q_pos by (simp add: fr_signed_def)
  moreover have "fr_signed P x = 0 \<Longrightarrow> x mod qv P = 0"
    using less_imp_neq [OF mod_q_bounds(1) [of x]]
    by (auto simp: fr_signed_def Let_def split: if_splits)
  ultimately show ?thesis using \<open>fr_signed P 0 = 0\<close> by auto
qed

lemma truth_val:
  assumes A: "fr_rep P (m a) x"
  shows "(if is_long (m a) then (if Fr_rawIsZero G (longVal (m a)) = 0 then 1 else 0)
      else (if shortVal (m a) \<noteq> 0 then 1 else 0)) = (of_bool (x mod qv P \<noteq> 0) :: 'z :: zero_neq_one)"
  by (rule fr_rep_cases [OF A]) (simp_all add: zero_short zero_long cancel_R_zero)

text \<open>The stored results are the short elements 0 and 1.\<close>

lemma bit_rep:
  assumes "length (longVal (m r)) = fr_n64 P"
  shows "fr_rep P (set_type r Fr_SHORT (set_short r (of_bool b) m) r) (of_bool b)"
  using assms by (simp add: rep_iff short_rep_def)

lemma not_bit: "(of_bool b :: u32) XOR 1 = of_bool (\<not> b)"
  by (cases b) simp_all

lemma or_bit: "(of_bool b :: u32) OR of_bool c = of_bool (b \<or> c)"
  "(of_bool b :: u32) AND of_bool c = of_bool (b \<and> c)"
  by (cases b; cases c; simp)+

lemma Fr_cmp_rep:
  assumes A: "fr_rep P (m (Ext a)) x" and B: "fr_rep P (m (Ext b)) y"
    and l: "length (longVal (m r)) = fr_n64 P"
  shows "fr_rep P (Fr_lt G P r (Ext a) (Ext b) m r) (of_bool (fr_signed P x < fr_signed P y))"
    "fr_rep P (Fr_geq G P r (Ext a) (Ext b) m r) (of_bool (fr_signed P x \<ge> fr_signed P y))"
    "fr_rep P (Fr_gt G P r (Ext a) (Ext b) m r) (of_bool (fr_signed P x > fr_signed P y))"
    "fr_rep P (Fr_leq G P r (Ext a) (Ext b) m r) (of_bool (fr_signed P x \<le> fr_signed P y))"
    "fr_rep P (Fr_eq G P r (Ext a) (Ext b) m r) (of_bool (x mod qv P = y mod qv P))"
    "fr_rep P (Fr_neq G P r (Ext a) (Ext b) m r) (of_bool (x mod qv P \<noteq> y mod qv P))"
  using l unfolding Fr_lt_def Fr_geq_def Fr_gt_def Fr_leq_def Fr_eq_def Fr_neq_def Let_def
    Fr_rlt_val [OF A B] Fr_rgt_val [OF A B] Fr_req_val [OF A B] not_bit
    not_less not_le [symmetric]
  by (simp_all only: bit_rep not_not)

lemma Fr_logic_rep:
  assumes A: "fr_rep P (m a) x" and B: "fr_rep P (m b) y"
    and l: "length (longVal (m r)) = fr_n64 P"
  shows "fr_rep P (Fr_lor G r a b m r) (of_bool (x mod qv P \<noteq> 0 \<or> y mod qv P \<noteq> 0))"
    "fr_rep P (Fr_land G r a b m r) (of_bool (x mod qv P \<noteq> 0 \<and> y mod qv P \<noteq> 0))"
    "fr_rep P (Fr_lnot G r a m r) (of_bool (x mod qv P = 0))"
    "Fr_isTrue G a m = of_bool (x mod qv P \<noteq> 0)"
proof -
  show "fr_rep P (Fr_lor G r a b m r) (of_bool (x mod qv P \<noteq> 0 \<or> y mod qv P \<noteq> 0))"
    "fr_rep P (Fr_land G r a b m r) (of_bool (x mod qv P \<noteq> 0 \<and> y mod qv P \<noteq> 0))"
    unfolding Fr_lor_def Fr_land_def Let_def truth_val [where m = m and a = a, OF A] truth_val [where m = m and a = b, OF B] or_bit
    by (rule bit_rep [where m = m, OF l])+
  have "Fr_lnot G r a m = set_type r Fr_SHORT (set_short r (of_bool (x mod qv P = 0)) m)"
    by (rule fr_rep_cases [OF A])
      (simp_all add: Fr_lnot_def Let_def zero_short zero_long cancel_R_zero)
  then show "fr_rep P (Fr_lnot G r a m r) (of_bool (x mod qv P = 0))" using bit_rep [where m = m, OF l] by simp
  show "Fr_isTrue G a m = of_bool (x mod qv P \<noteq> 0)"
    unfolding Fr_isTrue_def by (rule truth_val [where m = m, OF A])
qed

end

lemma cmp_frame:
  "frame r m (Fr_lt G P r a b m)" "frame r m (Fr_geq G P r a b m)" "frame r m (Fr_gt G P r a b m)"
  "frame r m (Fr_leq G P r a b m)" "frame r m (Fr_eq G P r a b m)" "frame r m (Fr_neq G P r a b m)"
  "frame r m (Fr_lor G r a b m)" "frame r m (Fr_land G r a b m)" "frame r m (Fr_lnot G r a m)"
  by (simp_all add: Fr_lt_def Fr_geq_def Fr_gt_def Fr_leq_def Fr_eq_def Fr_neq_def Fr_lor_def
      Fr_land_def Fr_lnot_def Let_def)

subsection \<open>The results\<close>

text \<open>
  Property C37. The comparisons \<open>Fr_lt\<close>, \<open>Fr_geq\<close>, \<open>Fr_gt\<close> and \<open>Fr_leq\<close> order field elements as
  signed numbers, whatever the representations, and \<open>Fr_eq\<close> and \<open>Fr_neq\<close> compare them modulo
  the prime; each stores 0 or 1.
\<close>

theorem Fr_comparisons_correct:
  assumes "fr_field G P" "fr_rep P (m (Ext a)) x" "fr_rep P (m (Ext b)) y"
    and "length (longVal (m (Ext r))) = fr_n64 P"
  shows "fr_rep P (Fr_lt G P (Ext r) (Ext a) (Ext b) m (Ext r)) (of_bool (fr_signed P x < fr_signed P y)) \<and>
    fr_rep P (Fr_geq G P (Ext r) (Ext a) (Ext b) m (Ext r)) (of_bool (fr_signed P x \<ge> fr_signed P y)) \<and>
    fr_rep P (Fr_gt G P (Ext r) (Ext a) (Ext b) m (Ext r)) (of_bool (fr_signed P x > fr_signed P y)) \<and>
    fr_rep P (Fr_leq G P (Ext r) (Ext a) (Ext b) m (Ext r)) (of_bool (fr_signed P x \<le> fr_signed P y)) \<and>
    fr_rep P (Fr_eq G P (Ext r) (Ext a) (Ext b) m (Ext r)) (of_bool (x mod qv P = y mod qv P)) \<and>
    fr_rep P (Fr_neq G P (Ext r) (Ext a) (Ext b) m (Ext r)) (of_bool (x mod qv P \<noteq> y mod qv P))"
  using fr_field.Fr_cmp_rep [where m = m and a = a and b = b and r = "Ext r", OF assms] by blast

theorem Fr_comparisons_correct_witness:
  "fr_rep bn128_params (Fr_lt mpn_ref bn128_params (Ext 3) (Ext 0) (Ext 2) bn_mem (Ext 3))
     (of_bool (fr_signed bn128_params (- 3) < fr_signed bn128_params 7))"
  using Fr_comparisons_correct [where m = bn_mem and a = 0 and b = 2 and r = 3,
      OF bn128_fr_field bn_mem_reps(1,3,4)] by blast

text \<open>
  The logical operators take an element as true exactly if it does not represent
  zero: \<open>Fr_land\<close>, \<open>Fr_lor\<close> and \<open>Fr_lnot\<close> store the corresponding 0 or 1 and \<open>Fr_isTrue\<close>
  returns it.
\<close>

lemma Fr_logic_correct:
  assumes "fr_field G P" "fr_rep P (m (Ext a)) x" "fr_rep P (m (Ext b)) y"
    and "length (longVal (m (Ext r))) = fr_n64 P"
  shows "fr_rep P (Fr_lor G (Ext r) (Ext a) (Ext b) m (Ext r))
      (of_bool (x mod qv P \<noteq> 0 \<or> y mod qv P \<noteq> 0)) \<and>
    fr_rep P (Fr_land G (Ext r) (Ext a) (Ext b) m (Ext r))
      (of_bool (x mod qv P \<noteq> 0 \<and> y mod qv P \<noteq> 0)) \<and>
    fr_rep P (Fr_lnot G (Ext r) (Ext a) m (Ext r)) (of_bool (x mod qv P = 0)) \<and>
    Fr_isTrue G (Ext a) m = of_bool (x mod qv P \<noteq> 0)"
  using fr_field.Fr_logic_rep [where m = m and a = "Ext a" and b = "Ext b" and r = "Ext r", OF assms]
  by blast

lemma Fr_logic_correct_witness:
  "Fr_isTrue mpn_ref (Ext 2) bn_mem = of_bool (7 mod qv bn128_params \<noteq> 0)"
  using Fr_logic_correct [where m = bn_mem and a = 2 and b = 2 and r = 3,
      OF bn128_fr_field bn_mem_reps(3,3,4)] by blast

end
