(* ===== verification/FrBits.thy ===== *)
theory FrBits
  imports FrCmp
begin

text \<open>
  Bitwise operators and shifts of field elements (\<open>generic/fr.cpp\<close>). The bitwise operators
  work on the residues below the prime, mask the result to \<open>qbits\<close> bits and reduce it. A shift
  count is read as a signed field element: a negative count shifts the other way, and a count
  of \<open>qbits\<close> or more gives zero.
\<close>

subsection \<open>And, or, exclusive or\<close>

text \<open>The initialiser \<open>{0, 0, {(uint64_t)v}}\<close>; the limbs that it does not name are zero.\<close>

definition long_literal :: "fr_params \<Rightarrow> u32 \<Rightarrow> FrElement" where
  "long_literal P v =
     \<lparr>shortVal = 0, fr_type = 0, longVal = scast v # replicate (fr_n64 P - 1) 0\<rparr>"

definition and_s1s2 :: "mpn_api \<Rightarrow> fr_params \<Rightarrow> ptr \<Rightarrow> ptr \<Rightarrow> ptr \<Rightarrow> fr_mem \<Rightarrow> fr_mem" where
  "and_s1s2 G P r a b m =
     (if sint (shortVal (m a)) \<ge> 0 \<and> sint (shortVal (m b)) \<ge> 0
      then let result = shortVal (m a) AND shortVal (m b);
               m = set_short r result m
           in set_type r Fr_SHORT m
      else let m = set_type r Fr_LONG m;
               m = Fr_toLongNormal G P (Loc A_n) a m;
               m = Fr_toLongNormal G P (Loc B_n) b m
           in set_long r (Fr_rawAnd G P (longVal (m (Loc A_n))) (longVal (m (Loc B_n)))) m)"

definition and_l1nl2n :: "mpn_api \<Rightarrow> fr_params \<Rightarrow> ptr \<Rightarrow> ptr \<Rightarrow> ptr \<Rightarrow> fr_mem \<Rightarrow> fr_mem" where
  "and_l1nl2n G P r a b m =
     (let m = set_type r Fr_LONG m
      in set_long r (Fr_rawAnd G P (longVal (m a)) (longVal (m b))) m)"

definition and_l1nl2m :: "mpn_api \<Rightarrow> fr_params \<Rightarrow> ptr \<Rightarrow> ptr \<Rightarrow> ptr \<Rightarrow> fr_mem \<Rightarrow> fr_mem" where
  "and_l1nl2m G P r a b m =
     (let m = set_type r Fr_LONG m;
          m = Fr_toNormal G P (Loc B_n) b m
      in set_long r (Fr_rawAnd G P (longVal (m a)) (longVal (m (Loc B_n)))) m)"

definition and_l1ml2m :: "mpn_api \<Rightarrow> fr_params \<Rightarrow> ptr \<Rightarrow> ptr \<Rightarrow> ptr \<Rightarrow> fr_mem \<Rightarrow> fr_mem" where
  "and_l1ml2m G P r a b m =
     (let m = set_type r Fr_LONG m;
          m = Fr_toNormal G P (Loc A_n) a m;
          m = Fr_toNormal G P (Loc B_n) b m
      in set_long r (Fr_rawAnd G P (longVal (m (Loc A_n))) (longVal (m (Loc B_n)))) m)"

definition and_l1ml2n :: "mpn_api \<Rightarrow> fr_params \<Rightarrow> ptr \<Rightarrow> ptr \<Rightarrow> ptr \<Rightarrow> fr_mem \<Rightarrow> fr_mem" where
  "and_l1ml2n G P r a b m =
     (let m = set_type r Fr_LONG m;
          m = Fr_toNormal G P (Loc A_n) a m
      in set_long r (Fr_rawAnd G P (longVal (m (Loc A_n))) (longVal (m b))) m)"

definition and_s1l2n :: "mpn_api \<Rightarrow> fr_params \<Rightarrow> ptr \<Rightarrow> ptr \<Rightarrow> ptr \<Rightarrow> fr_mem \<Rightarrow> fr_mem" where
  "and_s1l2n G P r a b m =
     (let m = set_type r Fr_LONG m;
          m = (if sint (shortVal (m a)) \<ge> 0 then m(Loc A_n := long_literal P (shortVal (m a)))
               else Fr_toLongNormal G P (Loc A_n) a m)
      in set_long r (Fr_rawAnd G P (longVal (m (Loc A_n))) (longVal (m b))) m)"

definition and_l1ms2 :: "mpn_api \<Rightarrow> fr_params \<Rightarrow> ptr \<Rightarrow> ptr \<Rightarrow> ptr \<Rightarrow> fr_mem \<Rightarrow> fr_mem" where
  "and_l1ms2 G P r a b m =
     (let m = set_type r Fr_LONG m;
          m = Fr_toNormal G P (Loc A_n) a m;
          m = (if sint (shortVal (m b)) \<ge> 0 then m(Loc B_n := long_literal P (shortVal (m b)))
               else Fr_toLongNormal G P (Loc B_n) b m)
      in set_long r (Fr_rawAnd G P (longVal (m (Loc B_n))) (longVal (m (Loc A_n)))) m)"

definition and_s1l2m :: "mpn_api \<Rightarrow> fr_params \<Rightarrow> ptr \<Rightarrow> ptr \<Rightarrow> ptr \<Rightarrow> fr_mem \<Rightarrow> fr_mem" where
  "and_s1l2m G P r a b m =
     (let m = set_type r Fr_LONG m;
          m = Fr_toNormal G P (Loc B_n) b m;
          m = (if sint (shortVal (m a)) \<ge> 0 then m(Loc A_n := long_literal P (shortVal (m a)))
               else Fr_toLongNormal G P (Loc A_n) a m)
      in set_long r (Fr_rawAnd G P (longVal (m (Loc A_n))) (longVal (m (Loc B_n)))) m)"

definition and_l1ns2 :: "mpn_api \<Rightarrow> fr_params \<Rightarrow> ptr \<Rightarrow> ptr \<Rightarrow> ptr \<Rightarrow> fr_mem \<Rightarrow> fr_mem" where
  "and_l1ns2 G P r a b m =
     (let m = set_type r Fr_LONG m;
          m = (if sint (shortVal (m b)) \<ge> 0 then m(Loc B_n := long_literal P (shortVal (m b)))
               else Fr_toLongNormal G P (Loc B_n) b m)
      in set_long r (Fr_rawAnd G P (longVal (m a)) (longVal (m (Loc B_n)))) m)"

definition Fr_band :: "mpn_api \<Rightarrow> fr_params \<Rightarrow> ptr \<Rightarrow> ptr \<Rightarrow> ptr \<Rightarrow> fr_mem \<Rightarrow> fr_mem" where
  "Fr_band G P r a b m =
     (if is_long (m a)
      then if is_long (m b)
           then if is_mont (m a)
                then if is_mont (m b) then and_l1ml2m G P r a b m else and_l1ml2n G P r a b m
                else if is_mont (m b) then and_l1nl2m G P r a b m else and_l1nl2n G P r a b m
           else if is_mont (m a) then and_l1ms2 G P r a b m else and_l1ns2 G P r a b m
      else if is_long (m b)
      then if is_mont (m b) then and_s1l2m G P r a b m else and_s1l2n G P r a b m
      else and_s1s2 G P r a b m)"

lemmas and_leafs = and_l1nl2n_def and_l1nl2m_def and_l1ml2m_def and_l1ml2n_def and_s1l2n_def
  and_l1ms2_def and_s1l2m_def and_l1ns2_def

definition or_s1s2 :: "mpn_api \<Rightarrow> fr_params \<Rightarrow> ptr \<Rightarrow> ptr \<Rightarrow> ptr \<Rightarrow> fr_mem \<Rightarrow> fr_mem" where
  "or_s1s2 G P r a b m =
     (if sint (shortVal (m a)) \<ge> 0 \<and> sint (shortVal (m b)) \<ge> 0
      then let result = shortVal (m a) OR shortVal (m b);
               m = set_short r result m
           in set_type r Fr_SHORT m
      else let m = set_type r Fr_LONG m;
               m = Fr_toLongNormal G P (Loc A_n) a m;
               m = Fr_toLongNormal G P (Loc B_n) b m
           in set_long r (Fr_rawOr G P (longVal (m (Loc A_n))) (longVal (m (Loc B_n)))) m)"

definition or_l1nl2n :: "mpn_api \<Rightarrow> fr_params \<Rightarrow> ptr \<Rightarrow> ptr \<Rightarrow> ptr \<Rightarrow> fr_mem \<Rightarrow> fr_mem" where
  "or_l1nl2n G P r a b m =
     (let m = set_type r Fr_LONG m
      in set_long r (Fr_rawOr G P (longVal (m a)) (longVal (m b))) m)"

definition or_l1nl2m :: "mpn_api \<Rightarrow> fr_params \<Rightarrow> ptr \<Rightarrow> ptr \<Rightarrow> ptr \<Rightarrow> fr_mem \<Rightarrow> fr_mem" where
  "or_l1nl2m G P r a b m =
     (let m = set_type r Fr_LONG m;
          m = Fr_toNormal G P (Loc B_n) b m
      in set_long r (Fr_rawOr G P (longVal (m a)) (longVal (m (Loc B_n)))) m)"

definition or_l1ml2m :: "mpn_api \<Rightarrow> fr_params \<Rightarrow> ptr \<Rightarrow> ptr \<Rightarrow> ptr \<Rightarrow> fr_mem \<Rightarrow> fr_mem" where
  "or_l1ml2m G P r a b m =
     (let m = set_type r Fr_LONG m;
          m = Fr_toNormal G P (Loc A_n) a m;
          m = Fr_toNormal G P (Loc B_n) b m
      in set_long r (Fr_rawOr G P (longVal (m (Loc A_n))) (longVal (m (Loc B_n)))) m)"

definition or_l1ml2n :: "mpn_api \<Rightarrow> fr_params \<Rightarrow> ptr \<Rightarrow> ptr \<Rightarrow> ptr \<Rightarrow> fr_mem \<Rightarrow> fr_mem" where
  "or_l1ml2n G P r a b m =
     (let m = set_type r Fr_LONG m;
          m = Fr_toNormal G P (Loc A_n) a m
      in set_long r (Fr_rawOr G P (longVal (m (Loc A_n))) (longVal (m b))) m)"

definition or_s1l2n :: "mpn_api \<Rightarrow> fr_params \<Rightarrow> ptr \<Rightarrow> ptr \<Rightarrow> ptr \<Rightarrow> fr_mem \<Rightarrow> fr_mem" where
  "or_s1l2n G P r a b m =
     (let m = set_type r Fr_LONG m;
          m = (if sint (shortVal (m a)) \<ge> 0 then m(Loc A_n := long_literal P (shortVal (m a)))
               else Fr_toLongNormal G P (Loc A_n) a m)
      in set_long r (Fr_rawOr G P (longVal (m (Loc A_n))) (longVal (m b))) m)"

definition or_l1ms2 :: "mpn_api \<Rightarrow> fr_params \<Rightarrow> ptr \<Rightarrow> ptr \<Rightarrow> ptr \<Rightarrow> fr_mem \<Rightarrow> fr_mem" where
  "or_l1ms2 G P r a b m =
     (let m = set_type r Fr_LONG m;
          m = Fr_toNormal G P (Loc A_n) a m;
          m = (if sint (shortVal (m b)) \<ge> 0 then m(Loc B_n := long_literal P (shortVal (m b)))
               else Fr_toLongNormal G P (Loc B_n) b m)
      in set_long r (Fr_rawOr G P (longVal (m (Loc B_n))) (longVal (m (Loc A_n)))) m)"

definition or_s1l2m :: "mpn_api \<Rightarrow> fr_params \<Rightarrow> ptr \<Rightarrow> ptr \<Rightarrow> ptr \<Rightarrow> fr_mem \<Rightarrow> fr_mem" where
  "or_s1l2m G P r a b m =
     (let m = set_type r Fr_LONG m;
          m = Fr_toNormal G P (Loc B_n) b m;
          m = (if sint (shortVal (m a)) \<ge> 0 then m(Loc A_n := long_literal P (shortVal (m a)))
               else Fr_toLongNormal G P (Loc A_n) a m)
      in set_long r (Fr_rawOr G P (longVal (m (Loc A_n))) (longVal (m (Loc B_n)))) m)"

definition or_l1ns2 :: "mpn_api \<Rightarrow> fr_params \<Rightarrow> ptr \<Rightarrow> ptr \<Rightarrow> ptr \<Rightarrow> fr_mem \<Rightarrow> fr_mem" where
  "or_l1ns2 G P r a b m =
     (let m = set_type r Fr_LONG m;
          m = (if sint (shortVal (m b)) \<ge> 0 then m(Loc B_n := long_literal P (shortVal (m b)))
               else Fr_toLongNormal G P (Loc B_n) b m)
      in set_long r (Fr_rawOr G P (longVal (m a)) (longVal (m (Loc B_n)))) m)"

definition Fr_bor :: "mpn_api \<Rightarrow> fr_params \<Rightarrow> ptr \<Rightarrow> ptr \<Rightarrow> ptr \<Rightarrow> fr_mem \<Rightarrow> fr_mem" where
  "Fr_bor G P r a b m =
     (if is_long (m a)
      then if is_long (m b)
           then if is_mont (m a)
                then if is_mont (m b) then or_l1ml2m G P r a b m else or_l1ml2n G P r a b m
                else if is_mont (m b) then or_l1nl2m G P r a b m else or_l1nl2n G P r a b m
           else if is_mont (m a) then or_l1ms2 G P r a b m else or_l1ns2 G P r a b m
      else if is_long (m b)
      then if is_mont (m b) then or_s1l2m G P r a b m else or_s1l2n G P r a b m
      else or_s1s2 G P r a b m)"

lemmas or_leafs = or_l1nl2n_def or_l1nl2m_def or_l1ml2m_def or_l1ml2n_def or_s1l2n_def
  or_l1ms2_def or_s1l2m_def or_l1ns2_def

definition xor_s1s2 :: "mpn_api \<Rightarrow> fr_params \<Rightarrow> ptr \<Rightarrow> ptr \<Rightarrow> ptr \<Rightarrow> fr_mem \<Rightarrow> fr_mem" where
  "xor_s1s2 G P r a b m =
     (if sint (shortVal (m a)) \<ge> 0 \<and> sint (shortVal (m b)) \<ge> 0
      then let result = shortVal (m a) XOR shortVal (m b);
               m = set_short r result m
           in set_type r Fr_SHORT m
      else let m = set_type r Fr_LONG m;
               m = Fr_toLongNormal G P (Loc A_n) a m;
               m = Fr_toLongNormal G P (Loc B_n) b m
           in set_long r (Fr_rawXor G P (longVal (m (Loc A_n))) (longVal (m (Loc B_n)))) m)"

definition xor_l1nl2n :: "mpn_api \<Rightarrow> fr_params \<Rightarrow> ptr \<Rightarrow> ptr \<Rightarrow> ptr \<Rightarrow> fr_mem \<Rightarrow> fr_mem" where
  "xor_l1nl2n G P r a b m =
     (let m = set_type r Fr_LONG m
      in set_long r (Fr_rawXor G P (longVal (m a)) (longVal (m b))) m)"

definition xor_l1nl2m :: "mpn_api \<Rightarrow> fr_params \<Rightarrow> ptr \<Rightarrow> ptr \<Rightarrow> ptr \<Rightarrow> fr_mem \<Rightarrow> fr_mem" where
  "xor_l1nl2m G P r a b m =
     (let m = set_type r Fr_LONG m;
          m = Fr_toNormal G P (Loc B_n) b m
      in set_long r (Fr_rawXor G P (longVal (m a)) (longVal (m (Loc B_n)))) m)"

definition xor_l1ml2m :: "mpn_api \<Rightarrow> fr_params \<Rightarrow> ptr \<Rightarrow> ptr \<Rightarrow> ptr \<Rightarrow> fr_mem \<Rightarrow> fr_mem" where
  "xor_l1ml2m G P r a b m =
     (let m = set_type r Fr_LONG m;
          m = Fr_toNormal G P (Loc A_n) a m;
          m = Fr_toNormal G P (Loc B_n) b m
      in set_long r (Fr_rawXor G P (longVal (m (Loc A_n))) (longVal (m (Loc B_n)))) m)"

definition xor_l1ml2n :: "mpn_api \<Rightarrow> fr_params \<Rightarrow> ptr \<Rightarrow> ptr \<Rightarrow> ptr \<Rightarrow> fr_mem \<Rightarrow> fr_mem" where
  "xor_l1ml2n G P r a b m =
     (let m = set_type r Fr_LONG m;
          m = Fr_toNormal G P (Loc A_n) a m
      in set_long r (Fr_rawXor G P (longVal (m (Loc A_n))) (longVal (m b))) m)"

definition xor_s1l2n :: "mpn_api \<Rightarrow> fr_params \<Rightarrow> ptr \<Rightarrow> ptr \<Rightarrow> ptr \<Rightarrow> fr_mem \<Rightarrow> fr_mem" where
  "xor_s1l2n G P r a b m =
     (let m = set_type r Fr_LONG m;
          m = (if sint (shortVal (m a)) \<ge> 0 then m(Loc A_n := long_literal P (shortVal (m a)))
               else Fr_toLongNormal G P (Loc A_n) a m)
      in set_long r (Fr_rawXor G P (longVal (m (Loc A_n))) (longVal (m b))) m)"

definition xor_l1ms2 :: "mpn_api \<Rightarrow> fr_params \<Rightarrow> ptr \<Rightarrow> ptr \<Rightarrow> ptr \<Rightarrow> fr_mem \<Rightarrow> fr_mem" where
  "xor_l1ms2 G P r a b m =
     (let m = set_type r Fr_LONG m;
          m = Fr_toNormal G P (Loc A_n) a m;
          m = (if sint (shortVal (m b)) \<ge> 0 then m(Loc B_n := long_literal P (shortVal (m b)))
               else Fr_toLongNormal G P (Loc B_n) b m)
      in set_long r (Fr_rawXor G P (longVal (m (Loc B_n))) (longVal (m (Loc A_n)))) m)"

definition xor_s1l2m :: "mpn_api \<Rightarrow> fr_params \<Rightarrow> ptr \<Rightarrow> ptr \<Rightarrow> ptr \<Rightarrow> fr_mem \<Rightarrow> fr_mem" where
  "xor_s1l2m G P r a b m =
     (let m = set_type r Fr_LONG m;
          m = Fr_toNormal G P (Loc B_n) b m;
          m = (if sint (shortVal (m a)) \<ge> 0 then m(Loc A_n := long_literal P (shortVal (m a)))
               else Fr_toLongNormal G P (Loc A_n) a m)
      in set_long r (Fr_rawXor G P (longVal (m (Loc A_n))) (longVal (m (Loc B_n)))) m)"

definition xor_l1ns2 :: "mpn_api \<Rightarrow> fr_params \<Rightarrow> ptr \<Rightarrow> ptr \<Rightarrow> ptr \<Rightarrow> fr_mem \<Rightarrow> fr_mem" where
  "xor_l1ns2 G P r a b m =
     (let m = set_type r Fr_LONG m;
          m = (if sint (shortVal (m b)) \<ge> 0 then m(Loc B_n := long_literal P (shortVal (m b)))
               else Fr_toLongNormal G P (Loc B_n) b m)
      in set_long r (Fr_rawXor G P (longVal (m a)) (longVal (m (Loc B_n)))) m)"

definition Fr_bxor :: "mpn_api \<Rightarrow> fr_params \<Rightarrow> ptr \<Rightarrow> ptr \<Rightarrow> ptr \<Rightarrow> fr_mem \<Rightarrow> fr_mem" where
  "Fr_bxor G P r a b m =
     (if is_long (m a)
      then if is_long (m b)
           then if is_mont (m a)
                then if is_mont (m b) then xor_l1ml2m G P r a b m else xor_l1ml2n G P r a b m
                else if is_mont (m b) then xor_l1nl2m G P r a b m else xor_l1nl2n G P r a b m
           else if is_mont (m a) then xor_l1ms2 G P r a b m else xor_l1ns2 G P r a b m
      else if is_long (m b)
      then if is_mont (m b) then xor_s1l2m G P r a b m else xor_s1l2n G P r a b m
      else xor_s1s2 G P r a b m)"

lemmas xor_leafs = xor_l1nl2n_def xor_l1nl2m_def xor_l1ml2m_def xor_l1ml2n_def xor_s1l2n_def
  xor_l1ms2_def xor_s1l2m_def xor_l1ns2_def

definition Fr_bnot :: "mpn_api \<Rightarrow> fr_params \<Rightarrow> ptr \<Rightarrow> ptr \<Rightarrow> fr_mem \<Rightarrow> fr_mem" where
  "Fr_bnot G P r a m =
     (let m = set_type r Fr_LONG m
      in if fr_type (m a) = Fr_LONG
         then if is_mont (m a)
              then let m = Fr_toNormal G P (Loc A_n) a m
                   in set_long r (Fr_rawNot G P (longVal (m (Loc A_n)))) m
              else set_long r (Fr_rawNot G P (longVal (m a))) m
         else let m = Fr_toLongNormal G P (Loc A_n) a m
              in set_long r (Fr_rawNot G P (longVal (m (Loc A_n)))) m)"

subsection \<open>Shifts\<close>

definition rawShl :: "mpn_api \<Rightarrow> fr_params \<Rightarrow> bool \<Rightarrow> limbs \<Rightarrow> u64 \<Rightarrow> limbs" where
  "rawShl G P same a b =
     (if b = 0 then Fr_rawCopy a
      else if b \<ge> of_nat (qbits P) then Fr_rawZero P
      else Fr_rawShl G P same a b)"

definition rawShr :: "mpn_api \<Rightarrow> fr_params \<Rightarrow> limbs \<Rightarrow> u64 \<Rightarrow> limbs" where
  "rawShr G P a b =
     (if b = 0 then Fr_rawCopy a
      else if b \<ge> of_nat (qbits P) then Fr_rawZero P
      else Fr_rawShr G P a b)"

definition Fr_setzero :: "ptr \<Rightarrow> fr_mem \<Rightarrow> fr_mem" where
  "Fr_setzero r m = (let m = set_type r 0 m in set_short r 0 m)"

definition do_shlcl :: "mpn_api \<Rightarrow> fr_params \<Rightarrow> ptr \<Rightarrow> ptr \<Rightarrow> u64 \<Rightarrow> fr_mem \<Rightarrow> fr_mem" where
  "do_shlcl G P r a b m =
     (let m = Fr_toLongNormal G P (Loc A_l) a m;
          m = set_type r Fr_LONG m
      in set_long r (rawShl G P (r = Loc A_l) (longVal (m (Loc A_l))) b) m)"

definition do_shlln :: "mpn_api \<Rightarrow> fr_params \<Rightarrow> ptr \<Rightarrow> ptr \<Rightarrow> u64 \<Rightarrow> fr_mem \<Rightarrow> fr_mem" where
  "do_shlln G P r a b m =
     (let m = set_type r Fr_LONG m
      in set_long r (rawShl G P (r = a) (longVal (m a)) b) m)"

definition do_shl :: "mpn_api \<Rightarrow> fr_params \<Rightarrow> ptr \<Rightarrow> ptr \<Rightarrow> u64 \<Rightarrow> fr_mem \<Rightarrow> fr_mem" where
  "do_shl G P r a b m =
     (if is_long (m a)
      then if fr_type (m a) = Fr_LONGMONTGOMERY
           then let m = Fr_toNormal G P (Loc A_l) a m
                in do_shlln G P r (Loc A_l) b m
           else do_shlln G P r a b m
      else let a_shortVal = scast (shortVal (m a)) :: u64
           in if a_shortVal = 0 then Fr_setzero r m
              else if sint a_shortVal < 0 then do_shlcl G P r a b m
              else if b \<ge> 31 then do_shlcl G P r a b m
              else let a_shortVal = push_bit (unat b) a_shortVal;
                       a_is_over_short = signed_drop_bit 31 a_shortVal
                   in if a_is_over_short \<noteq> 0 then do_shlcl G P r a b m
                      else let m = set_type r Fr_SHORT m
                           in set_short r (ucast a_shortVal) m)"

definition do_shrln :: "mpn_api \<Rightarrow> fr_params \<Rightarrow> ptr \<Rightarrow> ptr \<Rightarrow> u64 \<Rightarrow> fr_mem \<Rightarrow> fr_mem" where
  "do_shrln G P r a b m =
     (let m = set_type r Fr_LONG m
      in set_long r (rawShr G P (longVal (m a)) b) m)"

definition do_shrl :: "mpn_api \<Rightarrow> fr_params \<Rightarrow> ptr \<Rightarrow> ptr \<Rightarrow> u64 \<Rightarrow> fr_mem \<Rightarrow> fr_mem" where
  "do_shrl G P r a b m =
     (if fr_type (m a) = Fr_LONGMONTGOMERY
      then let m = Fr_toNormal G P (Loc A_l) a m
           in do_shrln G P r (Loc A_l) b m
      else do_shrln G P r a b m)"

definition do_shr :: "mpn_api \<Rightarrow> fr_params \<Rightarrow> ptr \<Rightarrow> ptr \<Rightarrow> u64 \<Rightarrow> fr_mem \<Rightarrow> fr_mem" where
  "do_shr G P r a b m =
     (if is_long (m a) then do_shrl G P r a b m
      else let a_shortVal = scast (shortVal (m a)) :: u64
           in if a_shortVal = 0 then Fr_setzero r m
              else if sint a_shortVal < 0
              then let m = Fr_toLongNormal G P (Loc S_l) a m
                   in do_shrl G P r (Loc S_l) b m
              else if b \<ge> 31 then Fr_setzero r m
              else let a_shortVal = signed_drop_bit (unat b) a_shortVal;
                       m = set_short r (ucast a_shortVal) m
                   in set_type r Fr_SHORT m)"

text \<open>The constant \<open>max_shift\<close> of the functions on long shift counts.\<close>

definition max_shift :: "fr_params \<Rightarrow> limbs" where
  "max_shift P = of_nat (qbits P) # replicate (fr_n64 P - 1) 0"

definition Fr_shr_big_shift :: "mpn_api \<Rightarrow> fr_params \<Rightarrow> ptr \<Rightarrow> ptr \<Rightarrow> ptr \<Rightarrow> fr_mem \<Rightarrow> fr_mem" where
  "Fr_shr_big_shift G P r a b m =
     (let shift = Fr_rawSubRegular G (fr_q_list P) (longVal (m b))
      in if Fr_rawCmp G shift (max_shift P) \<ge> 0 then Fr_setzero r m
         else do_shl G P r a (shift ! 0) m)"

definition Fr_shr_long :: "mpn_api \<Rightarrow> fr_params \<Rightarrow> ptr \<Rightarrow> ptr \<Rightarrow> ptr \<Rightarrow> fr_mem \<Rightarrow> fr_mem" where
  "Fr_shr_long G P r a b m =
     (if Fr_rawCmp G (longVal (m b)) (max_shift P) \<ge> 0 then Fr_shr_big_shift G P r a b m
      else do_shr G P r a (longVal (m b) ! 0) m)"

definition Fr_shr :: "mpn_api \<Rightarrow> fr_params \<Rightarrow> ptr \<Rightarrow> ptr \<Rightarrow> ptr \<Rightarrow> fr_mem \<Rightarrow> fr_mem" where
  "Fr_shr G P r a b m =
     (if is_long (m b)
      then if fr_type (m b) = Fr_LONGMONTGOMERY
           then let m = Fr_toNormal G P (Loc B_l) b m
                in Fr_shr_long G P r a (Loc B_l) m
           else Fr_shr_long G P r a b m
      else let b_shortVal = scast (shortVal (m b)) :: u64
           in if sint b_shortVal < 0
              then let b_shortVal = - b_shortVal
                   in if sint b_shortVal \<ge> int (qbits P) then Fr_setzero r m
                      else do_shl G P r a b_shortVal m
              else if sint b_shortVal \<ge> int (qbits P) then Fr_setzero r m
              else do_shr G P r a b_shortVal m)"

definition Fr_shl_big_shift :: "mpn_api \<Rightarrow> fr_params \<Rightarrow> ptr \<Rightarrow> ptr \<Rightarrow> ptr \<Rightarrow> fr_mem \<Rightarrow> fr_mem" where
  "Fr_shl_big_shift G P r a b m =
     (let shift = Fr_rawSubRegular G (fr_q_list P) (longVal (m b))
      in if Fr_rawCmp G shift (max_shift P) \<ge> 0 then Fr_setzero r m
         else do_shr G P r a (shift ! 0) m)"

definition Fr_shl_long :: "mpn_api \<Rightarrow> fr_params \<Rightarrow> ptr \<Rightarrow> ptr \<Rightarrow> ptr \<Rightarrow> fr_mem \<Rightarrow> fr_mem" where
  "Fr_shl_long G P r a b m =
     (if Fr_rawCmp G (longVal (m b)) (max_shift P) \<ge> 0 then Fr_shl_big_shift G P r a b m
      else do_shl G P r a (longVal (m b) ! 0) m)"

definition Fr_shl :: "mpn_api \<Rightarrow> fr_params \<Rightarrow> ptr \<Rightarrow> ptr \<Rightarrow> ptr \<Rightarrow> fr_mem \<Rightarrow> fr_mem" where
  "Fr_shl G P r a b m =
     (if is_long (m b)
      then if fr_type (m b) = Fr_LONGMONTGOMERY
           then let m = Fr_toNormal G P (Loc B_l) b m
                in Fr_shl_long G P r a (Loc B_l) m
           else Fr_shl_long G P r a b m
      else let b_shortVal = scast (shortVal (m b)) :: u64
           in if sint b_shortVal < 0
              then let b_shortVal = - b_shortVal
                   in if sint b_shortVal \<ge> int (qbits P) then Fr_setzero r m
                      else do_shr G P r a b_shortVal m
              else if sint b_shortVal \<ge> int (qbits P) then Fr_setzero r m
              else do_shl G P r a b_shortVal m)"

subsection \<open>What the bitwise operators compute\<close>

lemma sint_bitops:
  assumes "0 \<le> sint (s::u32)" "0 \<le> sint (t::u32)"
  shows "sint (s AND t) = sint s AND sint t" "sint (s OR t) = sint s OR sint t"
    "sint (s XOR t) = sint s XOR sint t"
  by (simp_all add: signed_and_eq signed_or_eq signed_xor_eq)

context fr_field begin

lemma red_literal:
  assumes "short_rep P s x" "0 \<le> sint s"
  shows "reduced P (longVal (long_literal P s)) x"
proof -
  have "\<not> sint s < 0" using assms(2) by simp
  then show ?thesis using short_mod(2) [OF assms(1)] short_bounds(3) [of s] n_pos
    by (simp add: reduced_def long_literal_def)
qed

lemma red_bits:
  assumes "reduced P a x" "reduced P b y"
  shows "reduced P (Fr_rawAnd G P a b) ((x mod qv P) AND (y mod qv P))"
    "reduced P (Fr_rawOr G P a b) ((x mod qv P) OR (y mod qv P))"
    "reduced P (Fr_rawXor G P a b) ((x mod qv P) XOR (y mod qv P))"
    "reduced P (Fr_rawAnd G P b a) ((x mod qv P) AND (y mod qv P))"
    "reduced P (Fr_rawOr G P b a) ((x mod qv P) OR (y mod qv P))"
    "reduced P (Fr_rawXor G P b a) ((x mod qv P) XOR (y mod qv P))"
  using assms [THEN reduced_in_field] assms [THEN reduced_lval]
    rawAnd_val [of a b] rawOr_val [of a b] rawXor_val [of a b]
    rawAnd_val [of b a] rawOr_val [of b a] rawXor_val [of b a]
  by (simp_all add: and.commute or.commute xor.commute)

lemma mod_short_nonneg:
  assumes "short_rep P s x" "0 \<le> sint s"
  shows "x mod qv P = sint s"
  using signed_short [OF assms(1)] assms short_bounds(3) [of s] uint_scast_pos [of s]
  by (simp add: short_rep_def)

lemma and_s1s2_rep:
  assumes A: "short_rep P (shortVal (m (Ext a))) x" and B: "short_rep P (shortVal (m (Ext b))) y"
    and t: "fr_rep P (m (Ext a)) x" "fr_rep P (m (Ext b)) y"
    and r: "r \<noteq> a" "r \<noteq> b" and l: "length (longVal (m (Ext r))) = fr_n64 P"
  shows "fr_rep P (and_s1s2 G P (Ext r) (Ext a) (Ext b) m (Ext r)) ((x mod qv P) AND (y mod qv P))"
proof (cases "sint (shortVal (m (Ext a))) \<ge> 0 \<and> sint (shortVal (m (Ext b))) \<ge> 0")
  case True
  then show ?thesis
    using mod_short_nonneg [OF A] mod_short_nonneg [OF B] l
    by (simp add: and_s1s2_def Let_def rep_iff short_rep_def sint_bitops)
next
  case False
  then show ?thesis using r t
    by (auto simp: and_s1s2_def Let_def rep_iff set_other red_bits toLongNormal_rep)
qed

lemma Fr_band_rep:
  assumes A: "fr_rep P (m (Ext a)) x" and B: "fr_rep P (m (Ext b)) y"
    and r: "r \<noteq> a" "r \<noteq> b" and l: "length (longVal (m (Ext r))) = fr_n64 P"
  shows "fr_rep P (Fr_band G P (Ext r) (Ext a) (Ext b) m (Ext r)) ((x mod qv P) AND (y mod qv P))"
  by (rule fr_rep_cases [OF A]; rule fr_rep_cases [OF B])
    (simp_all add: Fr_band_def and_s1s2_rep A B r l,
     simp_all add: and_leafs Let_def rep_iff set_other r r [symmetric] red_bits red_literal
      toNormal_long toLongNormal_rep A B)

lemma or_s1s2_rep:
  assumes A: "short_rep P (shortVal (m (Ext a))) x" and B: "short_rep P (shortVal (m (Ext b))) y"
    and t: "fr_rep P (m (Ext a)) x" "fr_rep P (m (Ext b)) y"
    and r: "r \<noteq> a" "r \<noteq> b" and l: "length (longVal (m (Ext r))) = fr_n64 P"
  shows "fr_rep P (or_s1s2 G P (Ext r) (Ext a) (Ext b) m (Ext r)) ((x mod qv P) OR (y mod qv P))"
proof (cases "sint (shortVal (m (Ext a))) \<ge> 0 \<and> sint (shortVal (m (Ext b))) \<ge> 0")
  case True
  then show ?thesis
    using mod_short_nonneg [OF A] mod_short_nonneg [OF B] l
    by (simp add: or_s1s2_def Let_def rep_iff short_rep_def sint_bitops)
next
  case False
  then show ?thesis using r t
    by (auto simp: or_s1s2_def Let_def rep_iff set_other red_bits toLongNormal_rep)
qed

lemma Fr_bor_rep:
  assumes A: "fr_rep P (m (Ext a)) x" and B: "fr_rep P (m (Ext b)) y"
    and r: "r \<noteq> a" "r \<noteq> b" and l: "length (longVal (m (Ext r))) = fr_n64 P"
  shows "fr_rep P (Fr_bor G P (Ext r) (Ext a) (Ext b) m (Ext r)) ((x mod qv P) OR (y mod qv P))"
  by (rule fr_rep_cases [OF A]; rule fr_rep_cases [OF B])
    (simp_all add: Fr_bor_def or_s1s2_rep A B r l,
     simp_all add: or_leafs Let_def rep_iff set_other r r [symmetric] red_bits red_literal
      toNormal_long toLongNormal_rep A B)

lemma xor_s1s2_rep:
  assumes A: "short_rep P (shortVal (m (Ext a))) x" and B: "short_rep P (shortVal (m (Ext b))) y"
    and t: "fr_rep P (m (Ext a)) x" "fr_rep P (m (Ext b)) y"
    and r: "r \<noteq> a" "r \<noteq> b" and l: "length (longVal (m (Ext r))) = fr_n64 P"
  shows "fr_rep P (xor_s1s2 G P (Ext r) (Ext a) (Ext b) m (Ext r)) ((x mod qv P) XOR (y mod qv P))"
proof (cases "sint (shortVal (m (Ext a))) \<ge> 0 \<and> sint (shortVal (m (Ext b))) \<ge> 0")
  case True
  then show ?thesis
    using mod_short_nonneg [OF A] mod_short_nonneg [OF B] l
    by (simp add: xor_s1s2_def Let_def rep_iff short_rep_def sint_bitops)
next
  case False
  then show ?thesis using r t
    by (auto simp: xor_s1s2_def Let_def rep_iff set_other red_bits toLongNormal_rep)
qed

lemma Fr_bxor_rep:
  assumes A: "fr_rep P (m (Ext a)) x" and B: "fr_rep P (m (Ext b)) y"
    and r: "r \<noteq> a" "r \<noteq> b" and l: "length (longVal (m (Ext r))) = fr_n64 P"
  shows "fr_rep P (Fr_bxor G P (Ext r) (Ext a) (Ext b) m (Ext r)) ((x mod qv P) XOR (y mod qv P))"
  by (rule fr_rep_cases [OF A]; rule fr_rep_cases [OF B])
    (simp_all add: Fr_bxor_def xor_s1s2_rep A B r l,
     simp_all add: xor_leafs Let_def rep_iff set_other r r [symmetric] red_bits red_literal
      toNormal_long toLongNormal_rep A B)

lemma red_Not:
  assumes "reduced P a x"
  shows "reduced P (Fr_rawNot G P a) (2 ^ qbits P - 1 - x)"
  by (rule reduced_cong [OF rawNot_val])
    (use assms in \<open>simp_all add: reduced_in_field reduced_lval mod_simps\<close>)

lemma Fr_bnot_rep:
  assumes A: "fr_rep P (m (Ext a)) x" and r: "r \<noteq> a"
  shows "fr_rep P (Fr_bnot G P (Ext r) (Ext a) m (Ext r)) (2 ^ qbits P - 1 - x)"
  by (rule fr_rep_cases [OF A])
    (simp_all add: Fr_bnot_def Let_def rep_iff set_other r r [symmetric] red_Not toLongNormal_rep A)

end

subsection \<open>What the shifts compute\<close>

text \<open>
  A shift works on the residue; a left shift keeps \<open>qbits\<close> bits. With a count of \<open>qbits\<close> or
  more both give zero.
\<close>

definition shl_val :: "fr_params \<Rightarrow> int \<Rightarrow> nat \<Rightarrow> int" where
  "shl_val P v k = (v mod qv P) * 2 ^ k mod 2 ^ qbits P"

definition shr_val :: "fr_params \<Rightarrow> int \<Rightarrow> nat \<Rightarrow> int" where
  "shr_val P v k = (v mod qv P) div 2 ^ k"

definition shl_spec :: "fr_params \<Rightarrow> int \<Rightarrow> int \<Rightarrow> int" where
  "shl_spec P v k = (if 0 \<le> k then shl_val P v (nat k) else shr_val P v (nat (- k)))"

definition shr_spec :: "fr_params \<Rightarrow> int \<Rightarrow> int \<Rightarrow> int" where
  "shr_spec P v k = (if 0 \<le> k then shr_val P v (nat k) else shl_val P v (nat (- k)))"

lemma scast_zero: "scast (s::u32) = (0::u64) \<longleftrightarrow> sint s = 0"
  by (simp only: word_sint_simps(1) sint_scast_64)

lemma over_short: "0 < sint (t::u64) \<Longrightarrow> signed_drop_bit 31 t = 0 \<longleftrightarrow> sint t < 2 ^ 31"
  unfolding word_sint_simps(1) sint_shift31 by (auto simp: zdiv_eq_0_iff)

lemma shift_spec_neg:
  "0 < j \<Longrightarrow> shr_spec P v (- int j) = shl_val P v j" "0 < j \<Longrightarrow> shl_spec P v (- int j) = shr_val P v j"
  by (simp_all add: shl_spec_def shr_spec_def)

lemma sint_shifts:
  assumes "0 \<le> sint s" "k < 31"
  shows "sint (push_bit k (scast (s::u32)) :: u64) = sint s * 2 ^ k"
    and "sint (signed_drop_bit k (scast s) :: u64) = sint s div 2 ^ k"
proof -
  have "(2::int) ^ k \<le> 2 ^ 31" using assms(2) by (intro power_increasing) auto
  then have "sint s * 2 ^ k \<le> 2 ^ 31 * 2 ^ 31"
    using sint_u32_bounds(2) [of s] assms(1) by (intro mult_mono) auto
  then have "\<bar>sint s * 2 ^ k\<bar> \<le> 2 ^ 62" using assms(1) by simp
  then show "sint (push_bit k (scast s) :: u64) = sint s * 2 ^ k"
    unfolding signed_push_bit_eq by (simp add: push_bit_eq_mult sint_scast_64 sint_fits)
  show "sint (signed_drop_bit k (scast s) :: u64) = sint s div 2 ^ k"
    by (simp add: sint_signed_drop_bit_eq drop_bit_eq_div sint_scast_64)
qed

context fr_field begin

lemma qbits_le: "qbits P \<le> 1024"
  using qbits_bounds(2) n_le by linarith

lemma qbits_u64: "unat (of_nat (qbits P) :: u64) = qbits P" "uint (of_nat (qbits P) :: u64) = int (qbits P)"
  using qbits_le by (simp_all add: unat_of_nat uint_nat)

lemma short_less_qbits: "(2::int) ^ 31 < 2 ^ qbits P"
  using q_gt_31 q_less_pow by linarith

lemma shift_zero:
  assumes "qbits P \<le> k"
  shows "shl_val P v k = 0" "shr_val P v k = 0"
proof -
  have "(2::int) ^ qbits P dvd 2 ^ k" using assms by (rule le_imp_power_dvd)
  then show "shl_val P v k = 0" by (simp add: shl_val_def)
  have "v mod qv P < 2 ^ k"
    using less_le_trans [OF less_trans [OF mod_q_bounds(1) q_less_pow] power_increasing [OF assms]]
    by simp
  then show "shr_val P v k = 0" by (simp add: shr_val_def)
qed

lemma shift_spec_zero:
  "int (qbits P) \<le> \<bar>k\<bar> \<Longrightarrow> shl_spec P v k = 0"
  "int (qbits P) \<le> \<bar>k\<bar> \<Longrightarrow> shr_spec P v k = 0"
  by (auto simp: shl_spec_def shr_spec_def shift_zero)

lemma red_rawZero: "reduced P (Fr_rawZero P) 0"
  by (simp add: reduced_def Fr_rawZero_def)

lemma qbits_le_iff: "b \<ge> (of_nat (qbits P) :: u64) \<longleftrightarrow> qbits P \<le> unat b"
  by (simp add: word_le_nat_alt qbits_u64)

lemma red_rawShl:
  assumes "reduced P a x"
  shows "reduced P (rawShl G P False a b) (shl_val P x (unat b))"
proof -
  have "x mod qv P < 2 ^ qbits P" by (rule less_trans [OF mod_q_bounds(1) q_less_pow])
  then have "b = 0 \<Longrightarrow> reduced P a (shl_val P x (unat b))"
    using assms by (simp add: shl_val_def reduced_def)
  moreover have "\<not> qbits P \<le> unat b \<Longrightarrow> reduced P (Fr_rawShl G P False a b) (shl_val P x (unat b))"
    using rawShl_val [OF reduced_in_field [OF assms], of b] reduced_lval [OF assms]
    by (simp add: shl_val_def)
  ultimately show ?thesis
    by (auto simp: rawShl_def Fr_rawCopy_def qbits_le_iff shift_zero red_rawZero)
qed

lemma red_rawShr:
  assumes "reduced P a x"
  shows "reduced P (rawShr G P a b) (shr_val P x (unat b))"
proof -
  have "b = 0 \<Longrightarrow> reduced P a (shr_val P x (unat b))"
    using assms by (simp add: shr_val_def reduced_def)
  moreover have "\<not> qbits P \<le> unat b \<Longrightarrow> reduced P (Fr_rawShr G P a b) (shr_val P x (unat b))"
    using rawShr_val [OF reduced_in_field [OF assms], of b] reduced_lval [OF assms]
    by (simp add: shr_val_def)
  ultimately show ?thesis
    by (auto simp: rawShr_def Fr_rawCopy_def qbits_le_iff shift_zero red_rawZero)
qed

lemma setzero_rep:
  "length (longVal (m r)) = fr_n64 P \<Longrightarrow> fr_rep P (Fr_setzero r m r) 0"
  by (simp add: Fr_setzero_def Let_def fr_rep_def short_rep_def Fr_SHORT_def)

lemma shlcl_rep:
  assumes "fr_rep P (m (Ext a)) x"
  shows "fr_rep P (do_shlcl G P (Ext r) (Ext a) b m (Ext r)) (shl_val P x (unat b))"
  using toLongNormal_rep(2) [where m = m and a = "Ext a", OF assms]
  by (simp add: do_shlcl_def Let_def rep_iff red_rawShl)

lemma do_shl_rep:
  assumes A: "fr_rep P (m (Ext a)) x" and r: "r \<noteq> a" and l: "length (longVal (m (Ext r))) = fr_n64 P"
  shows "fr_rep P (do_shl G P (Ext r) (Ext a) b m (Ext r)) (shl_val P x (unat b))"
proof (cases "is_long (m (Ext a))")
  case True
  then show ?thesis
    by (rule_tac fr_rep_cases [OF A]) (use r A in
      \<open>simp_all add: do_shl_def do_shlln_def Let_def rep_iff red_rawShl toNormal_long\<close>)
next
  case False
  let ?s = "shortVal (m (Ext a))"
  have s: "short_rep P ?s x" by (rule fr_rep_cases [OF A]) (use False in simp_all)
  consider "sint ?s = 0" | "sint ?s < 0 \<or> b \<ge> 31" | "sint ?s > 0" "b < 31" by fastforce
  then show ?thesis
  proof cases
    case 1
    then have "scast ?s = (0::u64)" by (simp add: scast_zero)
    moreover have "x mod qv P = 0" using 1 s by (simp add: short_rep_def)
    ultimately show ?thesis using False setzero_rep [where m = m, OF l]
      by (simp add: do_shl_def Let_def shl_val_def)
  next
    case 2
    then show ?thesis using False shlcl_rep [where m = m, OF A] setzero_rep [where m = m, OF l] s
      by (auto simp: do_shl_def Let_def sint_scast_64 shl_val_def short_rep_def
          simp: scast_zero)
  next
    case 3
    then have b: "unat b < 31" and nb: "\<not> 31 \<le> b" by (simp_all add: word_less_nat_alt not_le)
    let ?t = "push_bit (unat b) (scast ?s) :: u64"
    have t: "sint ?t = sint ?s * 2 ^ unat b" "0 < sint ?t" using 3 b by (simp_all add: sint_shifts)
    have x: "x mod qv P = sint ?s" using mod_short_nonneg [OF s] 3 by simp
    have over: "signed_drop_bit 31 ?t = 0 \<longleftrightarrow> sint ?t < 2 ^ 31"
      by (rule over_short [OF t(2)])
    show ?thesis
    proof (cases "sint ?t < 2 ^ 31")
      case True
      then have "shl_val P x (unat b) = sint ?t" "fits32 ?t"
        using t short_less_qbits x by (auto simp: shl_val_def fits32_def)
      then show ?thesis using nb 3 True False over l
        by (simp add: do_shl_def Let_def sint_scast_64 rep_iff short_rep_def sint_ucast_32 scast_zero)
    next
      case f: False
      then show ?thesis using nb 3 False over shlcl_rep [where m = m, OF A]
        by (simp add: do_shl_def Let_def sint_scast_64 scast_zero)
    qed
  qed
qed

lemma do_shrl_rep:
  assumes A: "fr_rep P (m a) x" and "is_long (m a)"
  shows "fr_rep P (do_shrl G P (Ext r) a b m (Ext r)) (shr_val P x (unat b))"
  by (rule fr_rep_cases [OF A]) (use assms in
      \<open>simp_all add: do_shrl_def do_shrln_def Let_def rep_iff red_rawShr toNormal_long\<close>)

lemma do_shr_rep:
  assumes A: "fr_rep P (m (Ext a)) x" and l: "length (longVal (m (Ext r))) = fr_n64 P"
  shows "fr_rep P (do_shr G P (Ext r) (Ext a) b m (Ext r)) (shr_val P x (unat b))"
proof (cases "is_long (m (Ext a))")
  case True
  then show ?thesis using do_shrl_rep [where m = m, OF A] by (simp add: do_shr_def)
next
  case False
  let ?s = "shortVal (m (Ext a))"
  have s: "short_rep P ?s x" by (rule fr_rep_cases [OF A]) (use False in simp_all)
  note z = setzero_rep [where m = m, OF l]
  consider "sint ?s = 0" | "sint ?s < 0" | "sint ?s > 0" by fastforce
  then show ?thesis
  proof cases
    case 1
    then have "x mod qv P = 0" using s by (simp add: short_rep_def)
    then show ?thesis using 1 False z by (simp add: do_shr_def Let_def shr_val_def scast_zero)
  next
    case 2
    let ?m = "Fr_toLongNormal G P (Loc S_l) (Ext a) m"
    have t: "fr_type (?m (Loc S_l)) = Fr_LONG" "reduced P (longVal (?m (Loc S_l))) x"
      by (rule toLongNormal_rep [where m = m, OF A])+
    then have "fr_rep P (?m (Loc S_l)) x" by (rule fr_rep_intros)
    from do_shrl_rep [where m = ?m, OF this] show ?thesis using 2 False t
      by (simp add: do_shr_def Let_def scast_zero sint_scast_64)
  next
    case 3
    have x: "x mod qv P = sint ?s" using mod_short_nonneg [OF s] 3 by simp
    show ?thesis
    proof (cases "b \<ge> 31")
      case True
      then have "(2::int) ^ 31 \<le> 2 ^ unat b" by (intro power_increasing) (simp_all add: word_le_nat_alt)
      then have "shr_val P x (unat b) = 0"
        using sint_u32_bounds(2) [of ?s] 3 x by (simp add: shr_val_def)
      then show ?thesis using 3 True False z
        by (simp add: do_shr_def Let_def scast_zero sint_scast_64)
    next
      case nb: False
      then have b: "unat b < 31" by (simp add: word_less_nat_alt not_le)
      let ?t = "signed_drop_bit (unat b) (scast ?s) :: u64"
      have t: "sint ?t = sint ?s div 2 ^ unat b" using 3 b by (simp add: sint_shifts)
      moreover have "sint ?s div 2 ^ unat b \<le> sint ?s div 1" using 3 by (intro zdiv_mono2) auto
      ultimately have "fits32 ?t" "shr_val P x (unat b) = sint ?t"
        using 3 sint_u32_bounds(2) [of ?s] x
        by (auto simp: fits32_def shr_val_def pos_imp_zdiv_nonneg_iff intro: order_trans [of _ 0])
      then show ?thesis using nb 3 False l
        by (simp add: do_shr_def Let_def scast_zero sint_scast_64 rep_iff short_rep_def sint_ucast_32)
    qed
  qed
qed

text \<open>How a long shift count is read.\<close>

lemma val_max_shift: "lval (max_shift P) = int (qbits P)" "length (max_shift P) = fr_n64 P"
  using n_pos by (simp_all add: max_shift_def qbits_u64)

lemma low_limb:
  assumes "length xs = fr_n64 P" "lval xs < int (qbits P)"
  shows "int (unat (xs ! 0)) = lval xs"
proof -
  have "lval xs < B64" using assms(2) qbits_le by (simp add: B64_def)
  moreover have "xs \<noteq> []" using assms(1) n_pos by auto
  ultimately have "uint (xs ! 0) = lval xs" using lval_hd [of xs] by simp
  then show ?thesis by simp
qed

lemma long_count:
  assumes "reduced P b y"
  defines "shift \<equiv> Fr_rawSubRegular G (fr_q_list P) b"
  shows "\<not> Fr_rawCmp G b (max_shift P) \<ge> 0 \<Longrightarrow> fr_signed P y = int (unat (b ! 0))"
    and "Fr_rawCmp G b (max_shift P) \<ge> 0 \<Longrightarrow> \<not> Fr_rawCmp G shift (max_shift P) \<ge> 0 \<Longrightarrow>
      fr_signed P y = - int (unat (shift ! 0)) \<and> 0 < unat (shift ! 0)"
    and "Fr_rawCmp G b (max_shift P) \<ge> 0 \<Longrightarrow> Fr_rawCmp G shift (max_shift P) \<ge> 0 \<Longrightarrow>
      int (qbits P) \<le> \<bar>fr_signed P y\<bar>"
proof -
  have b: "length b = fr_n64 P" "lval b = y mod qv P" using assms(1) by (simp_all add: reduced_def)
  have bq: "lval b < qv P" using b by simp
  have "(qv P - lval b) mod Rv P = qv P - lval b"
    using bq q_less_R lval_nonneg [of b] by (intro mod_pos_pos_trivial) linarith+
  then have s: "length shift = fr_n64 P" "lval shift = qv P - lval b"
    using sub_n_cases [OF len_q b(1) n_pos] bq q_less_R
    by (simp_all add: shift_def Fr_rawSubRegular_def val_q flip: Rv_def)
  have q: "2 * int (qbits P) < qv P" using qbits_le q_gt by simp
  have c: "0 \<le> Fr_rawCmp G b (max_shift P) \<longleftrightarrow> int (qbits P) \<le> lval b"
    "0 \<le> Fr_rawCmp G shift (max_shift P) \<longleftrightarrow> int (qbits P) \<le> qv P - lval b"
    using b s val_max_shift by (simp_all add: rawCmp_val)
  show "\<not> Fr_rawCmp G b (max_shift P) \<ge> 0 \<Longrightarrow> fr_signed P y = int (unat (b ! 0))"
    unfolding c using low_limb [OF b(1)] q by (auto simp: fr_signed_def Let_def b(2))
  show "Fr_rawCmp G b (max_shift P) \<ge> 0 \<Longrightarrow> \<not> Fr_rawCmp G shift (max_shift P) \<ge> 0 \<Longrightarrow>
      fr_signed P y = - int (unat (shift ! 0)) \<and> 0 < unat (shift ! 0)"
  proof -
    assume "Fr_rawCmp G b (max_shift P) \<ge> 0" "\<not> Fr_rawCmp G shift (max_shift P) \<ge> 0"
    then have u: "\<not> int (qbits P) \<le> qv P - lval b" unfolding c by blast
    then have e: "int (unat (shift ! 0)) = qv P - lval b" using low_limb [OF s(1)] s(2) by simp
    moreover from e have "0 < unat (shift ! 0)" using bq by linarith
    moreover have "fr_signed P y = lval b - qv P"
      using u q by (simp add: fr_signed_def Let_def b(2))
    ultimately show ?thesis by simp
  qed
  show "Fr_rawCmp G b (max_shift P) \<ge> 0 \<Longrightarrow> Fr_rawCmp G shift (max_shift P) \<ge> 0 \<Longrightarrow>
      int (qbits P) \<le> \<bar>fr_signed P y\<bar>"
    unfolding c using b(2) by (auto simp: fr_signed_def Let_def)
qed

lemma Fr_shr_long_rep:
  assumes A: "fr_rep P (m (Ext a)) x" and B: "reduced P (longVal (m b)) y"
    and r: "r \<noteq> a" and l: "length (longVal (m (Ext r))) = fr_n64 P"
  shows "fr_rep P (Fr_shr_long G P (Ext r) (Ext a) b m (Ext r)) (shr_spec P x (fr_signed P y))"
proof -
  note c = long_count [OF B]
  note w = do_shl_rep [where m = m, OF A r l] do_shr_rep [where m = m, OF A l] setzero_rep [where m = m, OF l]
  show ?thesis
  proof (cases "Fr_rawCmp G (longVal (m b)) (max_shift P) \<ge> 0")
    case True
    show ?thesis
    proof (cases "Fr_rawCmp G (Fr_rawSubRegular G (fr_q_list P) (longVal (m b))) (max_shift P) \<ge> 0")
      case big: True
      then show ?thesis using True shift_spec_zero [OF c(3) [OF True big]] w(3)
        by (simp add: Fr_shr_long_def Fr_shr_big_shift_def Let_def)
    next
      case False
      then show ?thesis using True c(2) [OF True False] w(1,2)
        by (simp add: Fr_shr_long_def Fr_shr_big_shift_def Let_def shift_spec_neg
            del: of_nat_unat int_nat_eq)
    qed
  next
    case False
    then show ?thesis using c(1) w by (simp add: Fr_shr_long_def shr_spec_def)
  qed
qed

lemma Fr_shr_rep:
  assumes A: "fr_rep P (m (Ext a)) x" and B: "fr_rep P (m (Ext b)) y"
    and r: "r \<noteq> a" and l: "length (longVal (m (Ext r))) = fr_n64 P"
  shows "fr_rep P (Fr_shr G P (Ext r) (Ext a) (Ext b) m (Ext r)) (shr_spec P x (fr_signed P y))"
proof (cases "is_long (m (Ext b))")
  case True
  show ?thesis
  proof (cases "fr_type (m (Ext b)) = Fr_LONGMONTGOMERY")
    case mont: True
    let ?m = "Fr_toNormal G P (Loc B_l) (Ext b) m"
    have "fr_rep P (?m (Ext a)) x" "length (longVal (?m (Ext r))) = fr_n64 P" using A l by simp_all
    from Fr_shr_long_rep [where m = ?m, OF this(1) toNormal_long [where m = m, OF B True] r this(2)]
    show ?thesis using True mont by (simp add: Fr_shr_def)
  next
    case False
    then have "reduced P (longVal (m (Ext b))) y"
      by (rule_tac fr_rep_cases [OF B]) (use True in simp_all)
    from Fr_shr_long_rep [where m = m, OF A this r l] show ?thesis
      using True False by (simp add: Fr_shr_def)
  qed
next
  case False
  let ?t = "shortVal (m (Ext b))"
  have t: "short_rep P ?t y" by (rule fr_rep_cases [OF B]) (use False in simp_all)
  note w = do_shl_rep [where m = m, OF A r l] do_shr_rep [where m = m, OF A l]
    setzero_rep [where m = m, OF l]
  have n: "nat (- sint ?t) = unat (- scast ?t :: u64)" if "sint ?t < 0"
    using uint_scast_neg [OF that] by (metis nat_uint_eq)
  have p: "nat (sint ?t) = unat (scast ?t :: u64)" if "\<not> sint ?t < 0"
    using uint_scast_pos [OF that] by (metis nat_uint_eq)
  show ?thesis
  proof (cases "int (qbits P) \<le> \<bar>sint ?t\<bar>")
    case True
    then show ?thesis using False w(3) short_sum(3) [of ?t]
      by (auto simp: Fr_shr_def Let_def sint_scast_64 signed_short [OF t] shift_spec_zero)
  next
    case small: False
    then show ?thesis
      using False w(1,2) short_sum(3) [of ?t] n p
      by (auto simp: Fr_shr_def Let_def sint_scast_64 signed_short [OF t] shr_spec_def)
  qed
qed

lemma Fr_shl_long_rep:
  assumes A: "fr_rep P (m (Ext a)) x" and B: "reduced P (longVal (m b)) y"
    and r: "r \<noteq> a" and l: "length (longVal (m (Ext r))) = fr_n64 P"
  shows "fr_rep P (Fr_shl_long G P (Ext r) (Ext a) b m (Ext r)) (shl_spec P x (fr_signed P y))"
proof -
  note c = long_count [OF B]
  note w = do_shl_rep [where m = m, OF A r l] do_shr_rep [where m = m, OF A l] setzero_rep [where m = m, OF l]
  show ?thesis
  proof (cases "Fr_rawCmp G (longVal (m b)) (max_shift P) \<ge> 0")
    case True
    show ?thesis
    proof (cases "Fr_rawCmp G (Fr_rawSubRegular G (fr_q_list P) (longVal (m b))) (max_shift P) \<ge> 0")
      case big: True
      then show ?thesis using True shift_spec_zero [OF c(3) [OF True big]] w(3)
        by (simp add: Fr_shl_long_def Fr_shl_big_shift_def Let_def)
    next
      case False
      then show ?thesis using True c(2) [OF True False] w(1,2)
        by (simp add: Fr_shl_long_def Fr_shl_big_shift_def Let_def shift_spec_neg
            del: of_nat_unat int_nat_eq)
    qed
  next
    case False
    then show ?thesis using c(1) w by (simp add: Fr_shl_long_def shl_spec_def)
  qed
qed

lemma Fr_shl_rep:
  assumes A: "fr_rep P (m (Ext a)) x" and B: "fr_rep P (m (Ext b)) y"
    and r: "r \<noteq> a" and l: "length (longVal (m (Ext r))) = fr_n64 P"
  shows "fr_rep P (Fr_shl G P (Ext r) (Ext a) (Ext b) m (Ext r)) (shl_spec P x (fr_signed P y))"
proof (cases "is_long (m (Ext b))")
  case True
  show ?thesis
  proof (cases "fr_type (m (Ext b)) = Fr_LONGMONTGOMERY")
    case mont: True
    let ?m = "Fr_toNormal G P (Loc B_l) (Ext b) m"
    have "fr_rep P (?m (Ext a)) x" "length (longVal (?m (Ext r))) = fr_n64 P" using A l by simp_all
    from Fr_shl_long_rep [where m = ?m, OF this(1) toNormal_long [where m = m, OF B True] r this(2)]
    show ?thesis using True mont by (simp add: Fr_shl_def)
  next
    case False
    then have "reduced P (longVal (m (Ext b))) y"
      by (rule_tac fr_rep_cases [OF B]) (use True in simp_all)
    from Fr_shl_long_rep [where m = m, OF A this r l] show ?thesis
      using True False by (simp add: Fr_shl_def)
  qed
next
  case False
  let ?t = "shortVal (m (Ext b))"
  have t: "short_rep P ?t y" by (rule fr_rep_cases [OF B]) (use False in simp_all)
  note w = do_shl_rep [where m = m, OF A r l] do_shr_rep [where m = m, OF A l]
    setzero_rep [where m = m, OF l]
  have n: "nat (- sint ?t) = unat (- scast ?t :: u64)" if "sint ?t < 0"
    using uint_scast_neg [OF that] by (metis nat_uint_eq)
  have p: "nat (sint ?t) = unat (scast ?t :: u64)" if "\<not> sint ?t < 0"
    using uint_scast_pos [OF that] by (metis nat_uint_eq)
  show ?thesis
  proof (cases "int (qbits P) \<le> \<bar>sint ?t\<bar>")
    case True
    then show ?thesis using False w(3) short_sum(3) [of ?t]
      by (auto simp: Fr_shl_def Let_def sint_scast_64 signed_short [OF t] shift_spec_zero)
  next
    case small: False
    then show ?thesis
      using False w(1,2) short_sum(3) [of ?t] n p
      by (auto simp: Fr_shl_def Let_def sint_scast_64 signed_short [OF t] shl_spec_def)
  qed
qed

end

lemma bits_frame:
  "frame r m (Fr_band G P r a b m)" "frame r m (Fr_bor G P r a b m)"
  "frame r m (Fr_bxor G P r a b m)" "frame r m (Fr_bnot G P r a m)"
  by (simp_all add: Fr_band_def Fr_bor_def Fr_bxor_def Fr_bnot_def Let_def and_leafs or_leafs
      xor_leafs and_s1s2_def or_s1s2_def xor_s1s2_def)

lemma do_shift_frame:
  "frame r m m' \<Longrightarrow> frame r m (do_shl G P r a b m')" "frame r m m' \<Longrightarrow> frame r m (do_shr G P r a b m')"
  by (simp_all add: do_shl_def do_shr_def do_shrl_def do_shlln_def do_shrln_def do_shlcl_def
      Fr_setzero_def Let_def)

lemma shift_frame: "frame r m (Fr_shl G P r a b m)" "frame r m (Fr_shr G P r a b m)"
  by (simp_all add: Fr_shl_def Fr_shr_def Fr_shl_long_def Fr_shr_long_def Fr_shl_big_shift_def
      Fr_shr_big_shift_def Fr_setzero_def Let_def do_shift_frame)

subsection \<open>The results\<close>

text \<open>
  Property C38. \<open>Fr_band\<close>, \<open>Fr_bor\<close> and \<open>Fr_bxor\<close> store the bitwise combination of the residues
  of their operands, reduced modulo the prime, and \<open>Fr_bnot\<close> the complement with respect to
  \<open>qbits\<close> bits, when the result is neither operand: the code writes the type of the result before it
  reads the operands, so nothing is said of calls in place.
\<close>

theorem Fr_bitwise_correct:
  assumes "fr_field G P" "fr_rep P (m (Ext a)) x" "fr_rep P (m (Ext b)) y"
    and "r \<noteq> a" "r \<noteq> b" "length (longVal (m (Ext r))) = fr_n64 P"
  shows "fr_rep P (Fr_band G P (Ext r) (Ext a) (Ext b) m (Ext r)) ((x mod qv P) AND (y mod qv P)) \<and>
    fr_rep P (Fr_bor G P (Ext r) (Ext a) (Ext b) m (Ext r)) ((x mod qv P) OR (y mod qv P)) \<and>
    fr_rep P (Fr_bxor G P (Ext r) (Ext a) (Ext b) m (Ext r)) ((x mod qv P) XOR (y mod qv P)) \<and>
    fr_rep P (Fr_bnot G P (Ext r) (Ext a) m (Ext r)) (2 ^ qbits P - 1 - x)"
  using fr_field.Fr_band_rep [where m = m and a = a and b = b, OF assms]
    fr_field.Fr_bor_rep [where m = m and a = a and b = b, OF assms]
    fr_field.Fr_bxor_rep [where m = m and a = a and b = b, OF assms]
    fr_field.Fr_bnot_rep [where m = m and a = a, OF assms(1,2,4)] by blast

theorem Fr_bitwise_correct_witness:
  "fr_rep bn128_params (Fr_band mpn_ref bn128_params (Ext 3) (Ext 1) (Ext 2) bn_mem (Ext 3))
     ((5 mod qv bn128_params) AND (7 mod qv bn128_params))"
  using Fr_bitwise_correct [where m = bn_mem and a = 1 and b = 2 and r = 3,
      OF bn128_fr_field bn_mem_reps(2,3) _ _ bn_mem_reps(4)] by simp

text \<open>
  \<open>Fr_shl\<close> and \<open>Fr_shr\<close> read the count as a signed field element: a negative
  count shifts the other way, a count of \<open>qbits\<close> or more gives zero, and otherwise the
  residue is shifted, a left shift keeping \<open>qbits\<close> bits before the reduction.
\<close>

lemma Fr_shifts_correct:
  assumes "fr_field G P" "fr_rep P (m (Ext a)) x" "fr_rep P (m (Ext b)) y"
    and "r \<noteq> a" "length (longVal (m (Ext r))) = fr_n64 P"
  shows "fr_rep P (Fr_shl G P (Ext r) (Ext a) (Ext b) m (Ext r)) (shl_spec P x (fr_signed P y)) \<and>
    fr_rep P (Fr_shr G P (Ext r) (Ext a) (Ext b) m (Ext r)) (shr_spec P x (fr_signed P y)) \<and>
    frame (Ext r) m (Fr_shl G P (Ext r) (Ext a) (Ext b) m) \<and>
    frame (Ext r) m (Fr_shr G P (Ext r) (Ext a) (Ext b) m) \<and>
    (int (qbits P) \<le> \<bar>fr_signed P y\<bar> \<longrightarrow>
       shl_spec P x (fr_signed P y) = 0 \<and> shr_spec P x (fr_signed P y) = 0)"
  using fr_field.Fr_shl_rep [where m = m and a = a and b = b, OF assms]
    fr_field.Fr_shr_rep [where m = m and a = a and b = b, OF assms]
  by (simp add: shift_frame fr_field.shift_spec_zero [OF assms(1)])

lemma Fr_shifts_correct_witness:
  "fr_rep bn128_params (Fr_shl mpn_ref bn128_params (Ext 3) (Ext 1) (Ext 2) bn_mem (Ext 3))
     (shl_spec bn128_params 5 (fr_signed bn128_params 7))"
  using Fr_shifts_correct [where m = bn_mem and a = 1 and b = 2 and r = 3,
      OF bn128_fr_field bn_mem_reps(2,3) _ bn_mem_reps(4)] by simp

end
