(* ===== verification/Bytes.thy ===== *)
theory Bytes
  imports Prelude
begin

text \<open>
  Byte sequences of the files that the programs exchange: the little-endian encoding of the
  fixed-width integers, their decoding from memory, and splitting a sequence into records of
  one size. The readers of the sources copy bytes into integers on a little-endian machine; the
  writers either do the same or, in the compiler, reverse big-endian bytes.
\<close>

type_synonym bytes = "u8 list"

subsection \<open>Little-endian numbers\<close>

fun le_bytes :: "nat \<Rightarrow> nat \<Rightarrow> bytes" where
  "le_bytes 0 v = []"
| "le_bytes (Suc k) v = of_nat v # le_bytes k (v div 256)"

fun le_nat :: "bytes \<Rightarrow> nat" where
  "le_nat [] = 0"
| "le_nat (b # bs) = unat b + 256 * le_nat bs"

lemma length_le_bytes [simp]: "length (le_bytes k v) = k"
  by (induction k arbitrary: v) auto

lemma unat_of_nat_u8: "unat (of_nat v :: u8) = v mod 256"
  by (simp add: unat_of_nat)

lemma le_nat_le_bytes: "le_nat (le_bytes k v) = v mod 256 ^ k"
proof (induction k arbitrary: v)
  case (Suc k)
  have "v mod 256 + 256 * (v div 256 mod 256 ^ k) = v mod (256 * 256 ^ k)"
    by (rule mod_mult2_eq [symmetric, simplified add.commute])
  then show ?case by (simp only: le_bytes.simps le_nat.simps Suc.IH unat_of_nat_u8 power_Suc)
qed simp

lemma le_nat_less: "le_nat bs < 256 ^ length bs"
proof (induction bs)
  case (Cons b bs)
  have "unat b < 256" using unsigned_less [of b] by simp
  then have "unat b + 256 * le_nat bs < 256 * (le_nat bs + 1)" by simp
  also have "\<dots> \<le> 256 * 256 ^ length bs" using Cons.IH by (intro mult_le_mono2) simp
  finally show ?case by simp
qed simp

lemma le_bytes_append: "le_bytes (j + k) v = le_bytes j v @ le_bytes k (v div 256 ^ j)"
  by (induction j arbitrary: v) (simp_all add: div_mult2_eq)

lemma le_bytes_0: "le_bytes k 0 = replicate k 0"
  by (induction k) auto

lemma le_bytes_le_nat: "le_bytes (length bs) (le_nat bs) = bs"
proof (induction bs)
  case (Cons b bs)
  have u: "unat b < 256" using unsigned_less [of b] by simp
  then have "(unat b + 256 * le_nat bs) div 256 = le_nat bs" by simp
  moreover have "(of_nat (unat b + 256 * le_nat bs) :: u8) = b"
  proof (rule word_unat_eq_iff [THEN iffD2])
    show "unat (of_nat (unat b + 256 * le_nat bs) :: u8) = unat b"
      using u by (simp only: unat_of_nat_u8) simp
  qed
  ultimately show ?case using Cons.IH by (simp del: of_nat_add)
qed simp

subsection \<open>Integers in memory\<close>

text \<open>Reading an integer at the head of a sequence, and the bytes that \<open>to_be_bytes\<close> gives.\<close>

definition rd32 :: "bytes \<Rightarrow> u32" where
  "rd32 bs = of_nat (le_nat (take 4 bs))"

definition rd64 :: "bytes \<Rightarrow> u64" where
  "rd64 bs = of_nat (le_nat (take 8 bs))"

definition to_be_bytes32 :: "u32 \<Rightarrow> bytes" where
  "to_be_bytes32 w = rev (le_bytes 4 (unat w))"

definition to_be_bytes64 :: "u64 \<Rightarrow> bytes" where
  "to_be_bytes64 w = rev (le_bytes 8 (unat w))"

lemma length_to_be_bytes [simp]: "length (to_be_bytes32 w) = 4" "length (to_be_bytes64 w') = 8"
  by (simp_all add: to_be_bytes32_def to_be_bytes64_def)

lemma rd32_le [simp]: "rd32 (le_bytes 4 v @ bs) = of_nat v"
proof -
  have "unat (of_nat (v mod 4294967296) :: u32) = unat (of_nat v :: u32)"
    by (simp add: unat_of_nat)
  then have "(of_nat (v mod 4294967296) :: u32) = of_nat v" by (simp only: word_unat_eq_iff)
  then show ?thesis by (simp add: rd32_def le_nat_le_bytes)
qed

lemma rd64_le [simp]: "rd64 (le_bytes 8 v @ bs) = of_nat v"
proof -
  have "unat (of_nat (v mod 18446744073709551616) :: u64) = unat (of_nat v :: u64)"
    by (simp add: unat_of_nat)
  then have "(of_nat (v mod 18446744073709551616) :: u64) = of_nat v" by (simp only: word_unat_eq_iff)
  then show ?thesis by (simp add: rd64_def le_nat_le_bytes)
qed

lemma rd_be [simp]:
  "rd32 (rev (to_be_bytes32 w) @ bs) = w" "rd64 (rev (to_be_bytes64 w') @ bs) = w'"
  by (simp_all add: to_be_bytes32_def to_be_bytes64_def)

lemma rd_be_nil [simp]: "rd32 (rev (to_be_bytes32 w)) = w" "rd64 (rev (to_be_bytes64 w')) = w'"
  using rd_be [where bs = "[]"] unfolding append_Nil2 by blast+

subsection \<open>Records of one size\<close>

fun chunks :: "nat \<Rightarrow> nat \<Rightarrow> 'a list \<Rightarrow> 'a list list" where
  "chunks k 0 xs = []"
| "chunks k (Suc n) xs = take k xs # chunks k n (drop k xs)"

lemma length_chunks [simp]: "length (chunks k n xs) = n"
  by (induction n arbitrary: xs) auto

lemma chunks_concat:
  "\<forall>x \<in> set xss. length x = k \<Longrightarrow> chunks k (length xss) (concat xss @ ys) = xss"
  by (induction xss) auto

lemma length_concat_const: "\<forall>x \<in> set xss. length x = k \<Longrightarrow> length (concat xss) = length xss * k"
  by (induction xss) auto

text \<open>The 64-bit limbs of a number in \<open>8 * n\<close> bytes.\<close>

lemma chunks_limbs:
  "map rd64 (chunks 8 n (le_bytes (8 * n) v @ ys)) = limbs_of n (int v)"
proof (induction n arbitrary: v)
  case 0
  then show ?case by simp
next
  case (Suc n)
  have "le_bytes (8 * Suc n) v = le_bytes 8 v @ le_bytes (8 * n) (v div 256 ^ 8)"
    using le_bytes_append [of 8 "8 * n" v] by simp
  then have "map rd64 (chunks 8 (Suc n) (le_bytes (8 * Suc n) v @ ys)) =
      of_nat v # limbs_of n (int (v div 256 ^ 8))"
    using Suc.IH [of "v div 256 ^ 8"] rd64_le [of v "[]"] by (simp del: rd64_le)
  then show ?case by (simp add: B64_def zdiv_int)
qed

lemma lval_chunks: "v < 2 ^ (64 * n) \<Longrightarrow>
    lval (map rd64 (chunks 8 n (le_bytes (8 * n) v @ ys))) = int v"
proof -
  assume "v < 2 ^ (64 * n)"
  then have "int v < base n" unfolding base_eq_power by (metis of_nat_less_iff of_nat_numeral of_nat_power)
  then show ?thesis unfolding chunks_limbs by (intro lval_limbs_of_id) simp_all
qed

text \<open>
  \<open>BigInt::to_bytes_be\<close> of a number, reversed: no leading zero byte, one byte for zero; and the
  zeros that the compiler appends up to a width.
\<close>

fun min_bytes :: "nat \<Rightarrow> bytes" where
  "min_bytes v = (if v < 256 then [of_nat v] else of_nat v # min_bytes (v div 256))"

declare min_bytes.simps [simp del]

lemma min_bytes_pad:
  assumes "v < 256 ^ w" "0 < w"
  shows "length (min_bytes v) \<le> w \<and> min_bytes v @ replicate (w - length (min_bytes v)) 0 = le_bytes w v"
  using assms
proof (induction v arbitrary: w rule: min_bytes.induct)
  case (1 v)
  obtain w' where w: "w = Suc w'" using 1(3) by (cases w) auto
  show ?case
  proof (cases "v < 256")
    case True
    then show ?thesis by (simp add: min_bytes.simps [of v] w le_bytes_0)
  next
    case False
    have "v div 256 < 256 ^ w'" using 1(2) by (simp add: w div_less_iff_less_mult mult.commute)
    moreover from False this have "0 < w'" by (cases w') auto
    ultimately show ?thesis using 1(1) [OF False, of w'] False by (simp add: min_bytes.simps [of v] w)
  qed
qed

end
