(* ===== verification/Mpz.thy ===== *)
theory Mpz
  imports Bytes "HOL-Library.Char_ord"
begin

text \<open>
  The part of GMP's integer interface (\<open>mpz_t\<close>) that the field runtime calls. GMP is not part
  of the repository: \<open>mpz_api\<close> is a parameter of the model and the locale \<open>mpz_lib\<close> states the
  documented behaviour its callers rely on. An \<open>mpz_t\<close> is the integer it holds. A division by
  zero stops the program, which \<open>None\<close> stands for; \<open>mpz_invert\<close> returns the C result and the
  number it stores, of which nothing is known when there is no inverse. Decimal strings are
  written and read by \<open>dec_str\<close> and \<open>dec_val\<close>, which also stand for \<open>sprintf\<close> with \<open>%d\<close>.
\<close>

subsection \<open>Decimal strings\<close>

definition digit_char :: "nat \<Rightarrow> char" where
  "digit_char d = char_of (48 + d)"

definition digit_val :: "char \<Rightarrow> nat" where
  "digit_val c = of_char c - 48"

definition is_digit :: "char \<Rightarrow> bool" where
  "is_digit c \<longleftrightarrow> 48 \<le> (of_char c :: nat) \<and> (of_char c :: nat) \<le> 57"

fun dec_str :: "nat \<Rightarrow> string" where
  "dec_str n = (if n < 10 then [digit_char n] else dec_str (n div 10) @ [digit_char (n mod 10)])"

declare dec_str.simps [simp del]

definition dec_val :: "string \<Rightarrow> nat" where
  "dec_val s = foldl (\<lambda>v c. 10 * v + digit_val c) 0 s"

definition is_decimal :: "string \<Rightarrow> bool" where
  "is_decimal s \<longleftrightarrow> s \<noteq> [] \<and> (\<forall>c \<in> set s. is_digit c)"

lemma digit_char_val: "d < 10 \<Longrightarrow> digit_val (digit_char d) = d" "d < 10 \<Longrightarrow> is_digit (digit_char d)"
  by (simp_all add: digit_char_def digit_val_def is_digit_def)

lemma dec_val_append: "dec_val (s @ [c]) = 10 * dec_val s + digit_val c"
  by (simp add: dec_val_def)

lemma dec_val_str: "dec_val (dec_str n) = n"
proof (induction n rule: dec_str.induct)
  case (1 n)
  show ?case
  proof (cases "n < 10")
    case True
    then show ?thesis by (simp add: dec_str.simps [of n] dec_val_def digit_char_val)
  next
    case False
    then have "dec_val (dec_str n) = 10 * (n div 10) + n mod 10"
      using 1 by (simp add: dec_str.simps [of n] dec_val_append digit_char_val)
    then show ?thesis by simp
  qed
qed

lemma is_decimal_str: "is_decimal (dec_str n)"
proof (induction n rule: dec_str.induct)
  case (1 n)
  then show ?case
    by (cases "n < 10") (auto simp: dec_str.simps [of n] is_decimal_def digit_char_val)
qed

subsection \<open>Numbers in other bases\<close>

text \<open>The digits that GMP accepts in a base up to 16; the case of a letter does not matter.\<close>

definition hex_val :: "char \<Rightarrow> nat" where
  "hex_val c =
     (let k = (of_char c :: nat)
      in if 48 \<le> k \<and> k \<le> 57 then k - 48
         else if 97 \<le> k \<and> k \<le> 102 then k - 87
         else if 65 \<le> k \<and> k \<le> 70 then k - 55
         else 255)"

definition num_val :: "nat \<Rightarrow> string \<Rightarrow> nat" where
  "num_val b s = foldl (\<lambda>v c. b * v + hex_val c) 0 s"

definition is_num :: "nat \<Rightarrow> string \<Rightarrow> bool" where
  "is_num b s \<longleftrightarrow> s \<noteq> [] \<and> (\<forall>c \<in> set s. hex_val c < b)"

lemma hex_val_digit: "is_digit c \<Longrightarrow> hex_val c = digit_val c" "hex_val c < 10 \<longleftrightarrow> is_digit c"
  by (auto simp: hex_val_def is_digit_def digit_val_def Let_def)

lemma is_num_10: "is_num 10 s \<longleftrightarrow> is_decimal s"
  by (simp add: is_num_def is_decimal_def hex_val_digit)

lemma num_val_10: "is_decimal s \<Longrightarrow> num_val 10 s = dec_val s"
proof -
  have "\<forall>c \<in> set s. is_digit c \<Longrightarrow>
      foldl (\<lambda>v c. 10 * v + hex_val c) a s = foldl (\<lambda>v c. 10 * v + digit_val c) a s" for a
    by (induction s arbitrary: a) (simp_all add: hex_val_digit)
  then show "is_decimal s \<Longrightarrow> num_val 10 s = dec_val s"
    by (simp add: is_decimal_def num_val_def dec_val_def)
qed

lemma minus_not_num: "b \<le> 16 \<Longrightarrow> \<not> is_num b (CHR ''-'' # s)"
  by (simp add: is_num_def hex_val_def)

subsection \<open>The interface\<close>

record mpz_api =
  mpz_import :: "limbs \<Rightarrow> int"          \<comment> \<open>least significant limb first\<close>
  mpz_import_bytes :: "bytes \<Rightarrow> int"    \<comment> \<open>words of one byte, least significant first\<close>
  mpz_export :: "int \<Rightarrow> limbs"          \<comment> \<open>the limbs of the number, without leading zeros\<close>
  mpz_fits_sint_p :: "int \<Rightarrow> bool"
  mpz_get_si :: "int \<Rightarrow> u64"
  mpz_set_si :: "u64 \<Rightarrow> int"
  mpz_get_ui :: "int \<Rightarrow> u64"
  mpz_set_ui :: "u64 \<Rightarrow> int"
  mpz_add_ui :: "int \<Rightarrow> u64 \<Rightarrow> int"
  mpz_cmp_ui :: "int \<Rightarrow> u64 \<Rightarrow> int"
  mpz_tstbit :: "int \<Rightarrow> nat \<Rightarrow> bool"
  mpz_fdiv_q_2exp :: "int \<Rightarrow> nat \<Rightarrow> int"
  mpz_tdiv_q_2exp :: "int \<Rightarrow> nat \<Rightarrow> int"
  mpz_add :: "int \<Rightarrow> int \<Rightarrow> int"
  mpz_sub :: "int \<Rightarrow> int \<Rightarrow> int"
  mpz_mul_2exp :: "int \<Rightarrow> nat \<Rightarrow> int"
  mpz_sizeinbase2 :: "int \<Rightarrow> nat"
  mpz_fdiv_q :: "int \<Rightarrow> int \<Rightarrow> int option"
  mpz_fdiv_r :: "int \<Rightarrow> int \<Rightarrow> int option"
  mpz_powm :: "int \<Rightarrow> int \<Rightarrow> int \<Rightarrow> int"
  mpz_invert :: "int \<Rightarrow> int \<Rightarrow> int \<times> int"
  mpz_init_set_str :: "string \<Rightarrow> nat \<Rightarrow> int \<times> int"
  mpz_get_str10 :: "int \<Rightarrow> string"

locale mpz_lib =
  fixes Z :: mpz_api
  assumes import_law: "mpz_import Z xs = lval xs"
    and import_bytes_law: "mpz_import_bytes Z bs = int (le_nat bs)"
    and export_law: "0 \<le> v \<Longrightarrow> v < base n \<Longrightarrow> length (mpz_export Z v) \<le> n \<and> lval (mpz_export Z v) = v"
    and fits_sint_law: "mpz_fits_sint_p Z v \<longleftrightarrow> - (2 ^ 31) \<le> v \<and> v < 2 ^ 31"
    and get_si_law: "mpz_fits_sint_p Z v \<Longrightarrow> sint (mpz_get_si Z v) = v"
    and set_si_law: "mpz_set_si Z x = sint x"
    and get_ui_law: "0 \<le> v \<Longrightarrow> mpz_get_ui Z v = word_of_int v"
    and set_ui_law: "mpz_set_ui Z x = uint x"
    and add_ui_law: "mpz_add_ui Z v x = v + uint x"
    and cmp_ui_law: "mpz_cmp_ui Z v x = 0 \<longleftrightarrow> v = uint x"
    and tstbit_law: "mpz_tstbit Z v k \<longleftrightarrow> bit v k"
    and fdiv_q_2exp_law: "mpz_fdiv_q_2exp Z v k = v div 2 ^ k"
    and tdiv_q_2exp_law: "0 \<le> v \<Longrightarrow> mpz_tdiv_q_2exp Z v k = v div 2 ^ k"
    and add_law: "mpz_add Z v w = v + w"
    and sub_law: "mpz_sub Z v w = v - w"
    and mul_2exp_law: "mpz_mul_2exp Z v k = v * 2 ^ k"
    and sizeinbase_law: "0 < v \<Longrightarrow> 2 ^ (mpz_sizeinbase2 Z v - 1) \<le> v \<and> v < 2 ^ mpz_sizeinbase2 Z v"
    and fdiv_q_law: "mpz_fdiv_q Z v w = (if w = 0 then None else Some (v div w))"
    and fdiv_r_law: "mpz_fdiv_r Z v w = (if w = 0 then None else Some (v mod w))"
    and powm_law: "0 \<le> e \<Longrightarrow> 0 < q \<Longrightarrow> mpz_powm Z v e q = v ^ nat e mod q"
    and invert_law: "1 < q \<Longrightarrow> coprime v q \<Longrightarrow> mpz_invert Z v q = (c, w) \<Longrightarrow>
      0 \<le> w \<and> w < q \<and> (w * v) mod q = 1"
    and set_str_base_law: "2 \<le> b \<Longrightarrow> b \<le> 16 \<Longrightarrow> is_num b s \<Longrightarrow>
      mpz_init_set_str Z s b = (0, int (num_val b s))"
    and set_str_neg_law: "2 \<le> b \<Longrightarrow> b \<le> 16 \<Longrightarrow> is_num b s \<Longrightarrow>
      mpz_init_set_str Z (CHR ''-'' # s) b = (0, - int (num_val b s))"
    and get_str_law: "0 \<le> v \<Longrightarrow> mpz_get_str10 Z v = dec_str (nat v)"

context mpz_lib
begin

lemma set_str_law: "is_decimal s \<Longrightarrow> mpz_init_set_str Z s 10 = (0, int (dec_val s))"
  using set_str_base_law [of 10 s] by (simp add: is_num_10 num_val_10)

end

subsection \<open>A reference implementation\<close>

text \<open>It shows that the laws can hold, and lets concrete runs be evaluated.\<close>

fun drop_zeros :: "limbs \<Rightarrow> limbs" where
  "drop_zeros [] = []"
| "drop_zeros (x # xs) = (let ys = drop_zeros xs in if x = 0 \<and> ys = [] then [] else x # ys)"

function limbs_nat :: "nat \<Rightarrow> limbs" where
  "limbs_nat v = (if v = 0 then [] else of_nat v # limbs_nat (v div 2 ^ 64))"
  by pat_completeness auto
termination
  by (relation "measure id") auto

declare limbs_nat.simps [simp del]

function bit_length :: "nat \<Rightarrow> nat" where
  "bit_length v = (if v = 0 then 0 else Suc (bit_length (v div 2)))"
  by pat_completeness auto
termination
  by (relation "measure id") auto

declare bit_length.simps [simp del]

function egcd :: "int \<Rightarrow> int \<Rightarrow> int \<times> int" where
  "egcd a b = (if b \<le> 0 then (1, 0) else (let (x, y) = egcd b (a mod b) in (y, x - a div b * y)))"
  by pat_completeness auto
termination
  by (relation "measure (\<lambda>(a, b). nat b)") auto

declare egcd.simps [simp del]

definition inverse_mod :: "int \<Rightarrow> int \<Rightarrow> int" where
  "inverse_mod v q = fst (egcd (v mod q) q) mod q"

definition mpz_ref :: mpz_api where
  "mpz_ref =
     \<lparr>mpz_import = lval, mpz_import_bytes = (\<lambda>bs. int (le_nat bs)), mpz_export = (\<lambda>v. limbs_nat (nat \<bar>v\<bar>)),
      mpz_fits_sint_p = (\<lambda>v. - (2 ^ 31) \<le> v \<and> v < 2 ^ 31),
      mpz_get_si = word_of_int, mpz_set_si = sint,
      mpz_get_ui = (\<lambda>v. word_of_int \<bar>v\<bar>), mpz_set_ui = uint, mpz_add_ui = (\<lambda>v x. v + uint x),
      mpz_cmp_ui = (\<lambda>v x. v - uint x), mpz_tstbit = bit, mpz_fdiv_q_2exp = (\<lambda>v k. v div 2 ^ k),
      mpz_tdiv_q_2exp = (\<lambda>v k. sgn v * (\<bar>v\<bar> div 2 ^ k)),
      mpz_add = (+), mpz_sub = (-), mpz_mul_2exp = (\<lambda>v k. v * 2 ^ k),
      mpz_sizeinbase2 = (\<lambda>v. bit_length (nat v)),
      mpz_fdiv_q = (\<lambda>v w. if w = 0 then None else Some (v div w)),
      mpz_fdiv_r = (\<lambda>v w. if w = 0 then None else Some (v mod w)),
      mpz_powm = (\<lambda>v e q. v ^ nat e mod q),
      mpz_invert = (\<lambda>v q. (if coprime v q then 1 else 0, inverse_mod v q)),
      mpz_init_set_str = (\<lambda>s b.
        if is_num b s then (0, int (num_val b s))
        else case s of c # t \<Rightarrow> (if c = CHR ''-'' \<and> is_num b t then (0, - int (num_val b t)) else (- 1, 0))
             | [] \<Rightarrow> (- 1, 0)),
      mpz_get_str10 = (\<lambda>v. dec_str (nat v))\<rparr>"

lemma limbs_nat_val: "lval (limbs_nat v) = int v"
proof (induction v rule: limbs_nat.induct)
  case (1 v)
  show ?case
  proof (cases "v = 0")
    case True
    then show ?thesis by (simp add: limbs_nat.simps)
  next
    case False
    have "uint (of_nat v :: u64) = int v mod B64"
      using uint_word_of_int_u64 [of "int v"] by simp
    moreover have "int (v div 2 ^ 64) = int v div B64" by (simp add: B64_def zdiv_int)
    ultimately have "lval (limbs_nat v) = int v mod B64 + B64 * (int v div B64)"
      using 1 [OF False] False by (subst limbs_nat.simps) simp
    then show ?thesis by simp
  qed
qed

lemma limbs_nat_length: "int v < base n \<Longrightarrow> length (limbs_nat v) \<le> n"
proof (induction v arbitrary: n rule: limbs_nat.induct)
  case (1 v)
  show ?case
  proof (cases "v = 0")
    case True
    then show ?thesis by (simp add: limbs_nat.simps)
  next
    case False
    then obtain k where n: "n = Suc k" using "1.prems" by (cases n) auto
    have "int (v div 2 ^ 64) = int v div B64" by (simp add: B64_def zdiv_int)
    also have "\<dots> < base k" using "1.prems" by (simp add: n div_less_of_less_mult)
    finally have "length (limbs_nat (v div 2 ^ 64)) \<le> k" by (rule "1.IH" [OF False])
    then show ?thesis using False n by (subst limbs_nat.simps) simp
  qed
qed

lemma bit_length_bounds: "0 < v \<Longrightarrow> 2 ^ (bit_length v - 1) \<le> v \<and> v < 2 ^ bit_length v"
proof (induction v rule: bit_length.induct)
  case (1 v)
  show ?case
  proof (cases "v = 1")
    case True
    then show ?thesis by (simp add: bit_length.simps [of "Suc 0"] bit_length.simps [of 0])
  next
    case False
    then have p: "0 < v div 2" using "1.prems" by simp
    let ?k = "bit_length (v div 2)"
    have IH: "2 ^ (?k - 1) \<le> v div 2" "v div 2 < 2 ^ ?k" using "1.IH" p "1.prems" by auto
    have k: "0 < ?k" using IH p by (cases ?k) auto
    have "bit_length v = Suc ?k" using "1.prems" by (subst bit_length.simps) simp
    moreover have "(2::nat) ^ ?k = 2 * 2 ^ (?k - 1)" using k by (simp add: power_eq_if)
    ultimately show ?thesis using IH by simp linarith
  qed
qed

lemma egcd_val:
  assumes "0 \<le> a" "0 \<le> b" "egcd a b = (x, y)"
  shows "x * a + y * b = gcd a b"
  using assms
proof (induction a b arbitrary: x y rule: egcd.induct)
  case (1 a b)
  show ?case
  proof (cases "b \<le> 0")
    case True
    then show ?thesis using "1.prems" by (simp add: egcd.simps)
  next
    case False
    obtain u w where e: "egcd b (a mod b) = (u, w)" by fastforce
    then have xy: "x = w" "y = u - a div b * w" using "1.prems"(3) False by (auto simp: egcd.simps [of a b])
    have "u * b + w * (a mod b) = gcd b (a mod b)" using "1.IH" [OF False _ _ e] False by simp
    also have "\<dots> = gcd a b" by (metis gcd.commute gcd_red_int)
    finally have "u * b + w * (a - a div b * b) = gcd a b" by (simp add: minus_div_mult_eq_mod)
    then show ?thesis unfolding xy by (simp add: algebra_simps)
  qed
qed

lemma inverse_mod_val:
  assumes "1 < q" "coprime v q"
  shows "0 \<le> inverse_mod v q \<and> inverse_mod v q < q \<and> (inverse_mod v q * v) mod q = 1"
proof -
  obtain x y where b: "egcd (v mod q) q = (x, y)" by fastforce
  have "gcd (v mod q) q = 1" using assms by (metis coprime_imp_gcd_eq_1 coprime_mod_left_iff less_numeral_extra(3) not_one_less_zero)
  then have "x * (v mod q) + y * q = 1" using egcd_val [OF _ _ b] assms(1) by simp
  then have "(x * (v mod q)) mod q = 1 mod q" by (metis mod_mult_self1 mult.commute)
  then have "(x * v) mod q = 1" using assms(1) by (simp add: mod_mult_right_eq)
  then show ?thesis using assms(1) b by (simp add: inverse_mod_def mod_mult_left_eq)
qed

interpretation gmp_mpz: mpz_lib mpz_ref
proof
  show "0 < v \<Longrightarrow> 2 ^ (mpz_sizeinbase2 mpz_ref v - 1) \<le> v \<and> v < 2 ^ mpz_sizeinbase2 mpz_ref v" for v
    using bit_length_bounds [of "nat v"] by (simp add: mpz_ref_def nat_le_iff nat_less_iff)
qed (auto simp: mpz_ref_def sgn_if limbs_nat_val limbs_nat_length signed_of_int inverse_mod_val minus_not_num
    intro!: signed_take_bit_int_eq_self)

end
