(* ===== verification/FrConv.thy ===== *)
theory FrConv
  imports FrBits Mpz
begin

text \<open>
  Conversions of field elements to machine integers, GMP integers and strings, and the
  operators the runtime computes with GMP: integer division and remainder, power, inverse and
  division (\<open>generic/fr.cpp\<close>). The static variables \<open>Fr_init\<close> sets are a record that the
  operations receive. \<open>None\<close> is a stop of the program: an assertion that fails, a division by
  zero in GMP, or a number that does not fit the limbs of an element.
\<close>

subsection \<open>To a machine integer\<close>

definition Fr_longNeg :: "mpn_api \<Rightarrow> fr_params \<Rightarrow> ptr \<Rightarrow> fr_mem \<Rightarrow> u32 option" where
  "Fr_longNeg G P pE m =
     (if Fr_rawCmp G (longVal (m pE)) (fr_q_list P) \<ge> 0 then None
      else let result = longVal (m pE) ! 0 - fr_q_list P ! 0;
               is_long = signed_drop_bit 31 result + 1
           in if is_long \<noteq> 0 then None else Some (ucast result))"

definition Fr_longNormal :: "mpn_api \<Rightarrow> fr_params \<Rightarrow> ptr \<Rightarrow> fr_mem \<Rightarrow> u32 option" where
  "Fr_longNormal G P pE m =
     (let result = longVal (m pE) ! 0;
          is_long = drop_bit 31 result
      in if is_long \<noteq> 0 then Fr_longNeg G P pE m
         else if drop 1 (longVal (m pE)) \<noteq> replicate (fr_n64 P - 1) 0 then Fr_longNeg G P pE m
         else Some (ucast result))"

definition Fr_toInt :: "mpn_api \<Rightarrow> fr_params \<Rightarrow> ptr \<Rightarrow> fr_mem \<Rightarrow> u32 option" where
  "Fr_toInt G P pE m =
     (if is_long (m pE)
      then if is_mont (m pE)
           then let m = Fr_toNormal G P (Loc E_n) pE m
                in Fr_longNormal G P (Loc E_n) m
           else Fr_longNormal G P pE m
      else Some (shortVal (m pE)))"

subsection \<open>GMP integers\<close>

record fr_globals =
  initialized :: bool
  mpz_q :: int
  mpz_zero :: int
  mpz_one :: int
  mpz_mask :: int
  nBits :: nat

definition Fr_init :: "mpz_api \<Rightarrow> fr_params \<Rightarrow> fr_globals \<Rightarrow> bool \<times> fr_globals" where
  "Fr_init Z P S =
     (if initialized S then (False, S)
      else let S = S\<lparr>initialized := True\<rparr>;
               S = S\<lparr>mpz_q := mpz_import Z (fr_q_list P)\<rparr>;
               S = S\<lparr>mpz_zero := 0\<rparr>;
               S = S\<lparr>mpz_one := 1\<rparr>;
               S = S\<lparr>nBits := mpz_sizeinbase2 Z (mpz_q S)\<rparr>;
               S = S\<lparr>mpz_mask := mpz_mul_2exp Z (mpz_one S) (nBits S)\<rparr>;
               S = S\<lparr>mpz_mask := mpz_sub Z (mpz_mask S) (mpz_one S)\<rparr>
           in (True, S))"

definition Fr_toMpz :: "mpz_api \<Rightarrow> mpn_api \<Rightarrow> fr_params \<Rightarrow> fr_globals \<Rightarrow> ptr \<Rightarrow> fr_mem \<Rightarrow> int" where
  "Fr_toMpz Z G P S pE m =
     (let m = Fr_toNormal G P (Loc Tmp) pE m;
          tmp = m (Loc Tmp)
      in if \<not> is_long tmp
         then let r = mpz_set_si Z (scast (shortVal tmp))
              in if sint (shortVal tmp) < 0 then mpz_add Z r (mpz_q S) else r
         else mpz_import Z (longVal tmp))"

definition Fr_fromMpz :: "mpz_api \<Rightarrow> fr_params \<Rightarrow> ptr \<Rightarrow> int \<Rightarrow> fr_mem \<Rightarrow> fr_mem option" where
  "Fr_fromMpz Z P pE v m =
     (if mpz_fits_sint_p Z v
      then let m = set_type pE Fr_SHORT m
           in Some (set_short pE (ucast (mpz_get_si Z v)) m)
      else let m = set_type pE Fr_LONG m;
               m = set_long pE (replicate (fr_n64 P) 0) m;
               out = mpz_export Z v
           in if length out > fr_n64 P then None
              else Some (set_long pE (out @ drop (length out) (longVal (m pE))) m))"

definition Fr_str2element ::
    "mpz_api \<Rightarrow> fr_params \<Rightarrow> fr_globals \<Rightarrow> ptr \<Rightarrow> string \<Rightarrow> nat \<Rightarrow> fr_mem \<Rightarrow> fr_mem option" where
  "Fr_str2element Z P S pE s radix m =
     (let (ret, mr) = mpz_init_set_str Z s radix
      in case mpz_fdiv_r Z mr (mpz_q S) of
           None \<Rightarrow> None
         | Some mr \<Rightarrow> Fr_fromMpz Z P pE mr m)"

definition Fr_element2str ::
    "mpz_api \<Rightarrow> mpn_api \<Rightarrow> fr_params \<Rightarrow> fr_globals \<Rightarrow> ptr \<Rightarrow> fr_mem \<Rightarrow> string" where
  "Fr_element2str Z G P S pE m =
     (if \<not> is_long (m pE)
      then if sint (shortVal (m pE)) \<ge> 0 then dec_str (nat (sint (shortVal (m pE))))
           else let r = mpz_set_si Z (scast (shortVal (m pE)));
                    r = mpz_add Z r (mpz_q S)
                in mpz_get_str10 Z r
      else let m = Fr_toNormal G P (Loc Tmp) pE m;
               r = mpz_import Z (longVal (m (Loc Tmp)))
           in mpz_get_str10 Z r)"

subsection \<open>Operators computed with GMP\<close>

definition Fr_idiv :: "mpz_api \<Rightarrow> mpn_api \<Rightarrow> fr_params \<Rightarrow> fr_globals \<Rightarrow> ptr \<Rightarrow> ptr \<Rightarrow> ptr \<Rightarrow> fr_mem \<Rightarrow>
    fr_mem option" where
  "Fr_idiv Z G P S r a b m =
     (let ma = Fr_toMpz Z G P S a m;
          mb = Fr_toMpz Z G P S b m
      in case mpz_fdiv_q Z ma mb of None \<Rightarrow> None | Some mr \<Rightarrow> Fr_fromMpz Z P r mr m)"

definition Fr_mod :: "mpz_api \<Rightarrow> mpn_api \<Rightarrow> fr_params \<Rightarrow> fr_globals \<Rightarrow> ptr \<Rightarrow> ptr \<Rightarrow> ptr \<Rightarrow> fr_mem \<Rightarrow>
    fr_mem option" where
  "Fr_mod Z G P S r a b m =
     (let ma = Fr_toMpz Z G P S a m;
          mb = Fr_toMpz Z G P S b m
      in case mpz_fdiv_r Z ma mb of None \<Rightarrow> None | Some mr \<Rightarrow> Fr_fromMpz Z P r mr m)"

definition Fr_pow :: "mpz_api \<Rightarrow> mpn_api \<Rightarrow> fr_params \<Rightarrow> fr_globals \<Rightarrow> ptr \<Rightarrow> ptr \<Rightarrow> ptr \<Rightarrow> fr_mem \<Rightarrow>
    fr_mem option" where
  "Fr_pow Z G P S r a b m =
     (let ma = Fr_toMpz Z G P S a m;
          mb = Fr_toMpz Z G P S b m;
          mr = mpz_powm Z ma mb (mpz_q S)
      in Fr_fromMpz Z P r mr m)"

definition Fr_inv :: "mpz_api \<Rightarrow> mpn_api \<Rightarrow> fr_params \<Rightarrow> fr_globals \<Rightarrow> ptr \<Rightarrow> ptr \<Rightarrow> fr_mem \<Rightarrow>
    fr_mem option" where
  "Fr_inv Z G P S r a m =
     (let ma = Fr_toMpz Z G P S a m;
          (ret, mr) = mpz_invert Z ma (mpz_q S)
      in Fr_fromMpz Z P r mr m)"

definition Fr_div :: "mpz_api \<Rightarrow> mpn_api \<Rightarrow> fr_params \<Rightarrow> fr_globals \<Rightarrow> ptr \<Rightarrow> ptr \<Rightarrow> ptr \<Rightarrow> fr_mem \<Rightarrow>
    fr_mem option" where
  "Fr_div Z G P S r a b m =
     (case Fr_inv Z G P S (Loc D_tmp) b m of
        None \<Rightarrow> None
      | Some m \<Rightarrow> Some (Fr_mul G P r a (Loc D_tmp) m))"

subsection \<open>What they compute\<close>

context fr_field begin

text \<open>\<open>Fr_toInt\<close> on the elements of its range.\<close>

lemma shift31_bits: "drop_bit 31 (w::u64) = 0 \<longleftrightarrow> uint w < 2 ^ 31"
proof -
  have "uint (drop_bit 31 w) = uint w div 2 ^ 31" using uint_lt2p [of w]
    by (simp only: unsigned_drop_bit_eq) (simp add: drop_bit_eq_div take_bit_eq_mod)
  then have "drop_bit 31 w = 0 \<longleftrightarrow> uint w div 2 ^ 31 = 0" by (metis unsigned_eq_0_iff)
  then show ?thesis by (auto simp: zdiv_eq_0_iff)
qed

lemma shift31_neg: "signed_drop_bit 31 (w::u64) + 1 = 0 \<longleftrightarrow> - (2 ^ 31) \<le> sint w \<and> sint w < 0"
proof -
  have "signed_drop_bit 31 w + 1 = 0 \<longleftrightarrow> signed_drop_bit 31 w = - 1" by (simp add: eq_neg_iff_add_eq_0)
  also have "\<dots> \<longleftrightarrow> sint w div 2 ^ 31 = - 1" unfolding word_sint_simps(2) sint_shift31 ..
  finally show ?thesis by auto
qed

lemma longNeg_val:
  assumes "longVal (m pE) = x" "length x = fr_n64 P" "lval x < qv P"
    and "sint (x ! 0 - fr_q_list P ! 0) = - k" "1 \<le> k" "k \<le> 2 ^ 31"
  shows "\<exists>s. Fr_longNeg G P pE m = Some s \<and> sint s = - k"
proof -
  have "fits32 (x ! 0 - fr_q_list P ! 0)" using assms by (simp add: fits32_def)
  then show ?thesis using assms len_q
    by (simp add: Fr_longNeg_def rawCmp_val val_q shift31_neg Let_def sint_ucast_32)
qed

lemma low_diff:
  assumes "length x = fr_n64 P" "lval x = qv P - k - c * B64" "\<bar>k\<bar> \<le> 2 ^ 31"
  shows "sint (x ! 0 - fr_q_list P ! 0) = - k"
proof -
  have ne: "x \<noteq> []" "fr_q_list P \<noteq> []" using assms(1) len_q n_pos by auto
  have "uint (x ! 0) = lval x mod B64" "uint (fr_q_list P ! 0) = qv P mod B64"
    using lval_hd [OF ne(1)] lval_hd [OF ne(2)] by (simp_all add: val_q)
  then have "uint (x ! 0 - fr_q_list P ! 0) = (lval x - qv P) mod B64"
    by (simp add: uint_sub_u64 mod_diff_eq)
  also have "\<dots> = (- k) mod B64" unfolding assms(2)
    using mod_mult_self1 [of "- k" "- c" B64] by (simp add: algebra_simps)
  finally have u: "uint (x ! 0 - fr_q_list P ! 0) = (- k) mod B64" .
  have "x ! 0 - fr_q_list P ! 0 = word_of_int (- k)"
    using u uint_word_of_int_u64 [of "- k"] by (metis word_uint_eqI)
  then have "sint (x ! 0 - fr_q_list P ! 0) = signed_take_bit 63 (- k)" by (simp only: signed_of_int) simp
  then show ?thesis using assms(3) by (simp add: sint_fits)
qed

lemma longNormal_neg:
  assumes "longVal (m pE) = x" "length x = fr_n64 P" "lval x = qv P - k - c * B64"
    and "1 \<le> k" "k \<le> 2 ^ 31" "0 \<le> c" "2 ^ 31 \<le> lval x"
  shows "\<exists>s. Fr_longNormal G P pE m = Some s \<and> sint s = - k"
proof -
  have "0 \<le> c * B64" using assms(6) by simp
  then have q: "lval x < qv P" using assms(3,4) by linarith
  have "sint (x ! 0 - fr_q_list P ! 0) = - k" using low_diff [OF assms(2,3)] assms(4,5) by simp
  from longNeg_val [where m = m and pE = pE, OF assms(1,2) q this assms(4,5)]
  have n: "\<exists>s. Fr_longNeg G P pE m = Some s \<and> sint s = - k" .
  have "drop 1 x = replicate (fr_n64 P - 1) 0 \<Longrightarrow> uint (x ! 0) = lval x"
    using assms(2) n_pos by (cases x) (auto simp: lval_replicate_0)
  then have "\<not> (drop_bit 31 (x ! 0) = 0 \<and> drop 1 x = replicate (fr_n64 P - 1) 0)"
    using assms(7) by (auto simp: shift31_bits)
  then show ?thesis using n assms(1) by (auto simp: Fr_longNormal_def Let_def)
qed

lemma longNormal_pos:
  assumes "longVal (m pE) = x" "length x = fr_n64 P" "lval x < 2 ^ 31"
  shows "\<exists>s. Fr_longNormal G P pE m = Some s \<and> sint s = lval x"
proof -
  obtain y ys where x: "x = y # ys" using assms(2) n_pos by (cases x) auto
  have "lval ys = 0"
  proof (rule ccontr)
    assume "lval ys \<noteq> 0"
    then have "1 \<le> lval ys" using lval_nonneg [of ys] by linarith
    then have "B64 * 1 \<le> B64 * lval ys" by (intro mult_left_mono) auto
    moreover have "(2::int) ^ 31 < B64" by (simp add: B64_def)
    moreover have "uint y + B64 * lval ys < 2 ^ 31" using assms(3) x by simp
    ultimately show False using uint64_bounds(1) [of y] by linarith
  qed
  then have y: "uint y = lval x" and "lval ys = lval (replicate (fr_n64 P - 1) (0::u64))"
    using x by simp_all
  then have z: "ys = replicate (fr_n64 P - 1) 0"
    using assms(2) x by (intro lval_inject) simp_all
  have "sint y = uint y" using y assms(3) by (simp add: sint_u64)
  then have "sint y = lval x" "0 \<le> sint y" using y by simp_all
  moreover have "- (2 ^ 31) \<le> sint y" by (rule order_trans [OF _ \<open>0 \<le> sint y\<close>]) simp
  ultimately have "fits32 y" "sint y = lval x" using assms(3) by (simp_all only: fits32_def)
  moreover have "longVal (m pE) = y # replicate (fr_n64 P - 1) 0" unfolding assms(1) x z ..
  moreover have "uint y < 2 ^ 31" unfolding y by (rule assms(3))
  ultimately have "fits32 y" "sint y = lval x" "Fr_longNormal G P pE m = Some (ucast y)"
    by (simp_all add: Fr_longNormal_def Let_def shift31_bits)
  then show ?thesis by (simp add: sint_ucast_32)
qed

lemma longNormal_val:
  assumes "reduced P (longVal (m pE)) x" "- (2 ^ 31) \<le> fr_signed P x" "fr_signed P x < 2 ^ 31"
  shows "\<exists>s. Fr_longNormal G P pE m = Some s \<and> sint s = fr_signed P x"
proof -
  have l: "length (longVal (m pE)) = fr_n64 P" "lval (longVal (m pE)) = x mod qv P"
    using assms(1) by (simp_all add: reduced_def)
  show ?thesis
  proof (cases "x mod qv P > qv P div 2")
    case True
    then have f: "fr_signed P x = x mod qv P - qv P" by (simp add: fr_signed_def Let_def)
    have "2 ^ 31 \<le> qv P div 2" using q_gt by simp
    then show ?thesis using longNormal_neg [where m = m and pE = pE, OF refl l(1), of "- fr_signed P x" 0] f l(2) True assms(2)
        mod_q_bounds(1) [of x] by simp
  next
    case False
    then have "fr_signed P x = x mod qv P" by (simp add: fr_signed_def Let_def)
    then show ?thesis using longNormal_pos [where m = m and pE = pE, OF refl l(1)] l(2) assms(3) by simp
  qed
qed

lemma Fr_toInt_val:
  assumes A: "fr_rep P (m pE) x" and "- (2 ^ 31) \<le> fr_signed P x" "fr_signed P x < 2 ^ 31"
  shows "\<exists>s. Fr_toInt G P pE m = Some s \<and> sint s = fr_signed P x"
  by (rule fr_rep_cases [OF A])
    (use A assms(2,3) in \<open>simp_all add: Fr_toInt_def longNormal_val toNormal_long signed_short\<close>)

end

text \<open>The bit length of the prime is determined by its bounds.\<close>

lemma bit_length_unique:
  assumes "(2::int) ^ (k - 1) \<le> v" "v < 2 ^ k" "(2::int) ^ (j - 1) \<le> v" "v < 2 ^ j"
  shows "k = j"
proof -
  have "(2::int) ^ (k - 1) < 2 ^ j" "(2::int) ^ (j - 1) < 2 ^ k" using assms by linarith+
  then have "k - 1 < j" "j - 1 < k" by (auto dest: power_less_imp_less_exp [rotated])
  moreover have "k = 0 \<Longrightarrow> j = 0" "j = 0 \<Longrightarrow> k = 0"
    using assms by (auto simp: one_le_power dest: order_trans [OF one_le_power])
  ultimately show ?thesis by linarith
qed

text \<open>The globals after \<open>Fr_init\<close>.\<close>

definition globals_ok :: "fr_params \<Rightarrow> fr_globals \<Rightarrow> bool" where
  "globals_ok P S \<longleftrightarrow> initialized S \<and> mpz_q S = qv P \<and> mpz_zero S = 0 \<and> mpz_one S = 1 \<and>
     nBits S = qbits P \<and> mpz_mask S = 2 ^ qbits P - 1"

locale fr_mpz = fr_field G P + mpz_lib Z for G P and Z :: mpz_api +
  fixes S :: fr_globals
  assumes S_ok: "globals_ok P S"

begin

lemma S_q: "mpz_q S = qv P"
  using S_ok by (simp add: globals_ok_def)

lemma toMpz_val:
  assumes A: "fr_rep P (m pE) x"
  shows "Fr_toMpz Z G P S pE m = x mod qv P"
proof -
  have s: "sint s + qv P = x mod qv P" if "short_rep P s x" "sint s < 0" for s
  proof -
    have "x mod qv P = (sint s + qv P) mod qv P" using that by (simp add: short_rep_def)
    also have "\<dots> = sint s + qv P"
      using that(2) sint_u32_bounds(1) [of s] q_gt_31 by (intro mod_pos_pos_trivial) auto
    finally show ?thesis by simp
  qed
  show ?thesis
    by (rule fr_rep_cases [OF A]) (use s mod_short_nonneg in \<open>simp_all add: Fr_toMpz_def Fr_toNormal_def Fr_copy_def
      Let_def set_si_law add_law S_q sint_scast_64 import_law reduced_lval red_FromMont\<close>)
qed

lemma fromMpz_rep:
  assumes "0 \<le> v" "v < qv P" "length (longVal (m r)) = fr_n64 P"
  shows "\<exists>m'. Fr_fromMpz Z P r v m = Some m' \<and> fr_rep P (m' r) v \<and> frame r m m' \<and>
    (\<forall>p. p \<noteq> r \<longrightarrow> m' p = m p)"
proof (cases "mpz_fits_sint_p Z v")
  case True
  then have "sint (mpz_get_si Z v) = v" "fits32 (mpz_get_si Z v)"
    using get_si_law fits_sint_law by (simp_all add: fits32_def)
  then show ?thesis using True assms(3)
    by (simp add: Fr_fromMpz_def Let_def rep_iff short_rep_def sint_ucast_32 set_other)
next
  case False
  have "v < base (fr_n64 P)" using assms(2) q_less_R by (simp add: Rv_def)
  then have e: "length (mpz_export Z v) \<le> fr_n64 P" "lval (mpz_export Z v) = v"
    using export_law [OF assms(1)] by simp_all
  then have "reduced P (mpz_export Z v @ replicate (fr_n64 P - length (mpz_export Z v)) 0) v"
    using assms(1,2) by (simp add: reduced_def lval_append)
  then show ?thesis using False e
    by (simp add: Fr_fromMpz_def Let_def rep_iff set_other not_less)
qed

lemma fr_rep_mod: "fr_rep P e (v mod qv P) \<longleftrightarrow> fr_rep P e v"
  using fr_rep_cong [of P e v "v mod qv P"] fr_rep_cong [of P e "v mod qv P" v] by auto

lemma mod_q_range: "0 \<le> v mod qv P \<and> v mod qv P < qv P"
  by simp

lemma idiv_rep:
  assumes A: "fr_rep P (m a) x" and B: "fr_rep P (m b) y" and l: "length (longVal (m r)) = fr_n64 P"
  shows "if y mod qv P = 0 then Fr_idiv Z G P S r a b m = None
    else \<exists>m'. Fr_idiv Z G P S r a b m = Some m' \<and>
      fr_rep P (m' r) ((x mod qv P) div (y mod qv P)) \<and> frame r m m'"
proof (cases "y mod qv P = 0")
  case True
  then show ?thesis using toMpz_val [where m = m, OF A] toMpz_val [where m = m, OF B]
    by (simp add: Fr_idiv_def fdiv_q_law)
next
  case False
  then have "1 \<le> y mod qv P" using mod_q_pos [of y] by linarith
  then have "(x mod qv P) div (y mod qv P) \<le> x mod qv P"
    using zdiv_mono2 [of "x mod qv P" 1 "y mod qv P"] by simp
  then have "(x mod qv P) div (y mod qv P) < qv P" using mod_q_bounds(1) [of x] by linarith
  moreover have "0 \<le> (x mod qv P) div (y mod qv P)" by (simp add: div_int_pos_iff)
  ultimately show ?thesis
    using False fromMpz_rep [where m = m, OF _ _ l] toMpz_val [where m = m, OF A] toMpz_val [where m = m, OF B]
    by (fastforce simp: Fr_idiv_def fdiv_q_law Let_def)
qed

lemma mod_rep:
  assumes A: "fr_rep P (m a) x" and B: "fr_rep P (m b) y" and l: "length (longVal (m r)) = fr_n64 P"
  shows "if y mod qv P = 0 then Fr_mod Z G P S r a b m = None
    else \<exists>m'. Fr_mod Z G P S r a b m = Some m' \<and>
      fr_rep P (m' r) ((x mod qv P) mod (y mod qv P)) \<and> frame r m m'"
proof (cases "y mod qv P = 0")
  case True
  then show ?thesis using toMpz_val [where m = m, OF A] toMpz_val [where m = m, OF B]
    by (simp add: Fr_mod_def fdiv_r_law)
next
  case False
  then have "0 < y mod qv P" using mod_q_pos [of y] by linarith
  then have "0 \<le> (x mod qv P) mod (y mod qv P)" "(x mod qv P) mod (y mod qv P) < y mod qv P" by simp_all
  moreover from this have "(x mod qv P) mod (y mod qv P) < qv P" using mod_q_bounds(1) [of y] by linarith
  ultimately show ?thesis
    using False fromMpz_rep [where m = m, OF _ _ l] toMpz_val [where m = m, OF A] toMpz_val [where m = m, OF B]
    by (fastforce simp: Fr_mod_def fdiv_r_law Let_def)
qed

lemma pow_rep:
  assumes A: "fr_rep P (m a) x" and B: "fr_rep P (m b) y" and l: "length (longVal (m r)) = fr_n64 P"
  shows "\<exists>m'. Fr_pow Z G P S r a b m = Some m' \<and> fr_rep P (m' r) (x ^ nat (y mod qv P)) \<and> frame r m m'"
proof -
  let ?v = "(x mod qv P) ^ nat (y mod qv P) mod qv P"
  have v: "mpz_powm Z (Fr_toMpz Z G P S a m) (Fr_toMpz Z G P S b m) (mpz_q S) = ?v"
    using toMpz_val [where m = m, OF A] toMpz_val [where m = m, OF B] q_pos by (simp add: powm_law S_q)
  have "?v mod qv P = x ^ nat (y mod qv P) mod qv P" by (simp add: power_mod)
  then show ?thesis using fromMpz_rep [where m = m, OF _ _ l, of ?v] v
    by (auto simp: Fr_pow_def Let_def fr_rep_mod)
qed

lemma inv_rep:
  assumes A: "fr_rep P (m a) x" and l: "length (longVal (m r)) = fr_n64 P" and c: "coprime x (qv P)"
  shows "\<exists>m' w. Fr_inv Z G P S r a m = Some m' \<and> fr_rep P (m' r) w \<and> (w * x) mod qv P = 1 \<and>
    (\<forall>p. p \<noteq> r \<longrightarrow> m' p = m p)"
proof -
  obtain d w where e: "mpz_invert Z (x mod qv P) (qv P) = (d, w)" by fastforce
  have q: "1 < qv P" by (rule less_trans [OF _ q_gt]) simp
  moreover have "coprime (x mod qv P) (qv P)" using c q by simp
  ultimately have w: "0 \<le> w" "w < qv P" "(w * (x mod qv P)) mod qv P = 1"
    using invert_law [OF _ _ e] by auto
  then have "(w * x) mod qv P = 1" by (simp add: mod_mult_right_eq)
  then show ?thesis using fromMpz_rep [where m = m, OF w(1,2) l] e toMpz_val [where m = m, OF A]
    by (auto simp: Fr_inv_def Let_def S_q)
qed

lemma div_rep:
  assumes A: "fr_rep P (m (Ext a)) x" and B: "fr_rep P (m (Ext b)) y"
    and l: "length (longVal (m (Loc D_tmp))) = fr_n64 P" and c: "coprime y (qv P)"
  shows "\<exists>m' z. Fr_div Z G P S (Ext r) (Ext a) (Ext b) m = Some m' \<and> fr_rep P (m' (Ext r)) z \<and>
    (z * y) mod qv P = x mod qv P \<and> frame (Ext r) m m'"
proof -
  obtain m1 w where i: "Fr_inv Z G P S (Loc D_tmp) (Ext b) m = Some m1"
    "fr_rep P (m1 (Loc D_tmp)) w" "(w * y) mod qv P = 1" "\<forall>p. p \<noteq> Loc D_tmp \<longrightarrow> m1 p = m p"
    using inv_rep [where m = m, OF B l c] by blast
  have "fr_rep P (m1 (Ext a)) x" using A i(4) by simp
  from Fr_mul_rep [where m = m1, OF this i(2)]
  have f: "fr_rep P (Fr_mul G P (Ext r) (Ext a) (Loc D_tmp) m1 (Ext r)) (x * w)" .
  have "(x * w * y) mod qv P = (x * ((w * y) mod qv P)) mod qv P" by (simp add: mod_mult_right_eq mult.assoc)
  then have "(x * w * y) mod qv P = x mod qv P" using i(3) by simp
  moreover have "frame (Ext r) m (Fr_mul G P (Ext r) (Ext a) (Loc D_tmp) m1)"
    using arith_frame(1) [where m = m1] i(4) by (simp add: frame_def)
  ultimately show ?thesis using f i(1) unfolding Fr_div_def by (intro exI conjI) auto
qed

text \<open>Strings.\<close>

lemma element2str_val:
  assumes A: "fr_rep P (m pE) x"
  shows "Fr_element2str Z G P S pE m = dec_str (nat (x mod qv P))"
proof -
  have "Fr_element2str Z G P S pE m = dec_str (nat (Fr_toMpz Z G P S pE m))"
    if "fr_type (m pE) \<noteq> Fr_SHORTMONTGOMERY \<or> True"
    using toMpz_val [where m = m, OF A] toNormal_long [where m = m, OF A]
    by (rule_tac fr_rep_cases [OF A]) (auto simp: Fr_element2str_def Fr_toMpz_def Fr_toNormal_def
        Fr_copy_def Let_def set_si_law add_law S_q sint_scast_64 import_law get_str_law split: if_splits)
  then show ?thesis using toMpz_val [where m = m, OF A] by simp
qed

lemma str2element_rep:
  assumes "is_decimal s" "length (longVal (m pE)) = fr_n64 P"
  shows "\<exists>m'. Fr_str2element Z P S pE s 10 m = Some m' \<and> fr_rep P (m' pE) (int (dec_val s)) \<and> frame pE m m'"
proof -
  let ?v = "int (dec_val s) mod qv P"
  have "Fr_str2element Z P S pE s 10 m = Fr_fromMpz Z P pE ?v m"
    using set_str_law [OF assms(1)] q_pos by (simp add: Fr_str2element_def fdiv_r_law S_q)
  moreover have "?v mod qv P = int (dec_val s) mod qv P" by simp
  ultimately show ?thesis using fromMpz_rep [where m = m, OF _ _ assms(2), of ?v]
    by (auto simp: fr_rep_mod)
qed

end


subsection \<open>Initialisation\<close>

lemma Fr_init_ok:
  assumes "mpz_lib Z" "fr_field G P" "\<not> initialized S"
  shows "fst (Fr_init Z P S) \<and> globals_ok P (snd (Fr_init Z P S))"
proof -
  note f = fr_field.q_pos [OF assms(2)] fr_field.q_ge_pow [OF assms(2)] fr_field.q_less_pow [OF assms(2)]
    fr_field.val_q [OF assms(2)]
  have "mpz_sizeinbase2 Z (qv P) = qbits P"
    using mpz_lib.sizeinbase_law [OF assms(1) f(1)] f(2,3) by (blast intro: bit_length_unique)
  then show ?thesis using assms(3) f(4)
    by (simp add: Fr_init_def globals_ok_def Let_def mpz_lib.import_law [OF assms(1)]
        mpz_lib.mul_2exp_law [OF assms(1)] mpz_lib.sub_law [OF assms(1)])
qed

definition bn128_globals :: fr_globals where
  "bn128_globals = snd (Fr_init mpz_ref bn128_params
     \<lparr>initialized = False, mpz_q = 0, mpz_zero = 0, mpz_one = 0, mpz_mask = 0, nBits = 0\<rparr>)"

lemma bn128_globals_ok: "globals_ok bn128_params bn128_globals"
  unfolding bn128_globals_def
  using Fr_init_ok [OF gmp_mpz.mpz_lib_axioms bn128_fr_field] by simp

lemma bn128_fr_mpz: "fr_mpz mpn_ref bn128_params mpz_ref bn128_globals"
  by (simp add: fr_mpz_def fr_mpz_axioms_def bn128_fr_field gmp_mpz.mpz_lib_axioms bn128_globals_ok)

interpretation bn128_gmp: fr_mpz mpn_ref bn128_params mpz_ref bn128_globals
  by (rule bn128_fr_mpz)

lemma bn128_coprime_7: "coprime 7 (qv bn128_params)"
proof -
  have "qv bn128_params = 21888242871839275222246405745257275088548364400416034343698204186575808495617"
    by (simp add: bn128_fields bn128_limbs qv_def B64_def)
  then have e: "qv bn128_params = 7 * 3126891838834182174606629392179610726935480628630862049099743455225115499373 + 6"
    by simp
  have c: "coprime (7::int) (7 * k + 6)" for k
  proof (rule coprimeI)
    fix d :: int
    assume d: "d dvd 7" "d dvd 7 * k + 6"
    then have "d dvd (7 * k + 6) - 7 * k" by (intro dvd_diff dvd_mult2) auto
    then have "d dvd 7 - 6" using d(1) by (intro dvd_diff) simp_all
    then show "is_unit d" by simp
  qed
  show ?thesis unfolding e by (rule c)
qed

subsection \<open>The results\<close>

text \<open>
  \<open>Fr_init\<close>, the first time, sets the GMP globals: the prime, zero, one, the bit
  length of the prime and the mask of that many bits; later calls change nothing.
\<close>

lemma Fr_init_correct:
  assumes "mpz_lib Z" "fr_field G P"
  shows "(if initialized S then Fr_init Z P S = (False, S)
    else fst (Fr_init Z P S) \<and> globals_ok P (snd (Fr_init Z P S)))"
  using Fr_init_ok [OF assms] by (simp add: Fr_init_def)

lemma Fr_init_correct_witness:
  "Fr_init mpz_ref bn128_params bn128_globals = (False, bn128_globals)"
  using Fr_init_correct [OF gmp_mpz.mpz_lib_axioms bn128_fr_field, of bn128_globals] bn128_globals_ok
  by (simp add: globals_ok_def)

text \<open>
  \<open>Fr_toInt\<close> returns the signed value of every element whose signed value fits
  an \<open>int\<close>, in every representation.
\<close>

lemma Fr_toInt_correct:
  assumes "fr_field G P" "fr_rep P (m (Ext a)) x"
    and "- (2 ^ 31) \<le> fr_signed P x" "fr_signed P x < 2 ^ 31"
  shows "\<exists>s. Fr_toInt G P (Ext a) m = Some s \<and> sint s = fr_signed P x"
  using fr_field.Fr_toInt_val [where m = m and pE = "Ext a", OF assms] .

lemma Fr_toInt_correct_witness:
  "\<exists>s. Fr_toInt mpn_ref bn128_params (Ext 2) bn_mem = Some s \<and> sint s = fr_signed bn128_params 7"
proof (rule Fr_toInt_correct [where m = bn_mem and a = 2, OF bn128_fr_field bn_mem_reps(3)])
  have "14 < qv bn128_params" by (rule less_trans [OF _ bn128.q_gt]) simp
  then have "fr_signed bn128_params 7 = 7" by (simp add: fr_signed_def)
  then show "- (2 ^ 31) \<le> fr_signed bn128_params 7" "fr_signed bn128_params 7 < 2 ^ 31" by simp_all
qed

text \<open>
  \<open>Fr_toInt\<close> does not look at the upper limbs of a long element when it decides
  that the element is a small negative number: every residue that differs from \<open>- k\<close> by a
  multiple of \<open>2 ^ 64\<close> is returned as \<open>- k\<close>, where the assertion on out-of-range values
  should have stopped the program.
\<close>

lemma Fr_toInt_ignores_high_limbs:
  assumes "fr_field G P" "fr_type (m (Ext a)) = Fr_LONG" "length (longVal (m (Ext a))) = fr_n64 P"
    and "lval (longVal (m (Ext a))) = qv P - k - c * 2 ^ 64" "2 ^ 31 \<le> lval (longVal (m (Ext a)))"
    and "1 \<le> k" "k \<le> 2 ^ 31" "0 \<le> c"
  shows "\<exists>s. Fr_toInt G P (Ext a) m = Some s \<and> sint s = - k"
  using fr_field.longNormal_neg [where m = m and pE = "Ext a" and c = c, OF assms(1) refl assms(3) _ assms(6-8,5)]
    assms(2,4) by (simp add: Fr_toInt_def B64_def)

lemma Fr_toInt_ignores_high_limbs_witness:
  "\<exists>s. Fr_toInt mpn_ref bn128_params (Ext 0)
      (\<lambda>p. \<lparr>shortVal = 0, fr_type = Fr_LONG, longVal = [0x43e1f593f0000000, 0, 0, 0]\<rparr>) = Some s \<and>
    sint s = - 1"
  by (rule Fr_toInt_ignores_high_limbs [where k = 1 and
        c = "(21888242871839275222246405745257275088548364400416034343698204186575808495617 -
          0x43e1f593f0000001) div 2 ^ 64", OF bn128_fr_field])
    (simp_all add: bn128_fields bn128_limbs qv_def B64_def)

text \<open>
  \<open>Fr_idiv\<close> and \<open>Fr_mod\<close> store the quotient and the remainder of the residues;
  a divisor that is zero modulo the prime stops the program.
\<close>

lemma Fr_idiv_mod_correct:
  assumes "fr_mpz G P Z S" "fr_rep P (m (Ext a)) x" "fr_rep P (m (Ext b)) y"
    and "length (longVal (m (Ext r))) = fr_n64 P"
  shows "if y mod qv P = 0
    then Fr_idiv Z G P S (Ext r) (Ext a) (Ext b) m = None \<and> Fr_mod Z G P S (Ext r) (Ext a) (Ext b) m = None
    else (\<exists>m'. Fr_idiv Z G P S (Ext r) (Ext a) (Ext b) m = Some m' \<and>
        fr_rep P (m' (Ext r)) ((x mod qv P) div (y mod qv P)) \<and> frame (Ext r) m m') \<and>
      (\<exists>m'. Fr_mod Z G P S (Ext r) (Ext a) (Ext b) m = Some m' \<and>
        fr_rep P (m' (Ext r)) ((x mod qv P) mod (y mod qv P)) \<and> frame (Ext r) m m')"
  using fr_mpz.idiv_rep [where m = m and a = "Ext a" and b = "Ext b" and r = "Ext r", OF assms]
    fr_mpz.mod_rep [where m = m and a = "Ext a" and b = "Ext b" and r = "Ext r", OF assms]
  by (simp split: if_splits)

lemma Fr_idiv_mod_correct_witness:
  "Fr_idiv mpz_ref mpn_ref bn128_params bn128_globals (Ext 3) (Ext 1) (Ext 3) bn_mem = None"
proof -
  have "fr_rep bn128_params (bn_mem (Ext 3)) 0"
    using bn_mem_reps(4) [of "Ext 3"] by (simp add: bn_mem_def fr_rep_short short_rep_def)
  from Fr_idiv_mod_correct [where m = bn_mem and a = 1 and b = 3 and r = 3,
      OF bn128_fr_mpz bn_mem_reps(2) this bn_mem_reps(4)]
  show ?thesis by simp
qed

text \<open>\<open>Fr_pow\<close> stores the power of the base by the residue of the exponent.\<close>

lemma Fr_pow_correct:
  assumes "fr_mpz G P Z S" "fr_rep P (m (Ext a)) x" "fr_rep P (m (Ext b)) y"
    and "length (longVal (m (Ext r))) = fr_n64 P"
  shows "\<exists>m'. Fr_pow Z G P S (Ext r) (Ext a) (Ext b) m = Some m' \<and>
    fr_rep P (m' (Ext r)) (x ^ nat (y mod qv P)) \<and> frame (Ext r) m m'"
  using fr_mpz.pow_rep [where m = m and a = "Ext a" and b = "Ext b" and r = "Ext r", OF assms] .

lemma Fr_pow_correct_witness:
  "\<exists>m'. Fr_pow mpz_ref mpn_ref bn128_params bn128_globals (Ext 3) (Ext 0) (Ext 2) bn_mem = Some m' \<and>
    fr_rep bn128_params (m' (Ext 3)) ((- 3) ^ nat (7 mod qv bn128_params)) \<and> frame (Ext 3) bn_mem m'"
  by (rule Fr_pow_correct [where m = bn_mem, OF bn128_fr_mpz bn_mem_reps(1,3,4)])

text \<open>
  \<open>Fr_div\<close> stores the quotient in the field when the divisor is coprime to the
  prime: multiplied by the divisor it gives the dividend. The result may be an operand.
\<close>

lemma Fr_div_correct:
  assumes "fr_mpz G P Z S" "fr_rep P (m (Ext a)) x" "fr_rep P (m (Ext b)) y"
    and "length (longVal (m (Loc D_tmp))) = fr_n64 P" "coprime y (qv P)"
  shows "\<exists>m' z. Fr_div Z G P S (Ext r) (Ext a) (Ext b) m = Some m' \<and> fr_rep P (m' (Ext r)) z \<and>
    (z * y) mod qv P = x mod qv P \<and> frame (Ext r) m m'"
  using fr_mpz.div_rep [where m = m and a = a and b = b, OF assms] .

lemma Fr_div_correct_witness:
  "\<exists>m' z. Fr_div mpz_ref mpn_ref bn128_params bn128_globals (Ext 3) (Ext 0) (Ext 2) bn_mem = Some m' \<and>
    fr_rep bn128_params (m' (Ext 3)) z \<and> (z * 7) mod qv bn128_params = (- 3) mod qv bn128_params \<and>
    frame (Ext 3) bn_mem m'"
  by (rule Fr_div_correct [where m = bn_mem, OF bn128_fr_mpz bn_mem_reps(1,3,4) bn128_coprime_7])

text \<open>
  Property C39. Printing an element and reading the string back in base ten gives an element
  that represents the same value; the string is the decimal form of the residue.
\<close>

theorem element_string_roundtrip:
  assumes "fr_mpz G P Z S" "fr_rep P (m (Ext a)) x" "length (longVal (m (Ext r))) = fr_n64 P"
  shows "Fr_element2str Z G P S (Ext a) m = dec_str (nat (x mod qv P)) \<and>
    (\<exists>m'. Fr_str2element Z P S (Ext r) (Fr_element2str Z G P S (Ext a) m) 10 m = Some m' \<and>
      fr_rep P (m' (Ext r)) x \<and> frame (Ext r) m m')"
proof -
  have s: "Fr_element2str Z G P S (Ext a) m = dec_str (nat (x mod qv P))"
    by (rule fr_mpz.element2str_val [where m = m, OF assms(1,2)])
  have f: "fr_field G P" using assms(1) by (simp add: fr_mpz_def)
  have "int (dec_val (dec_str (nat (x mod qv P)))) = x mod qv P"
    using fr_field.q_pos [OF f] by (simp add: dec_val_str)
  then show ?thesis
    using fr_mpz.str2element_rep [where m = m, OF assms(1) is_decimal_str assms(3), of "nat (x mod qv P)"]
      fr_mpz.fr_rep_mod [OF assms(1)] s by simp
qed

theorem element_string_roundtrip_witness:
  "\<exists>m'. Fr_str2element mpz_ref bn128_params bn128_globals (Ext 3)
      (Fr_element2str mpz_ref mpn_ref bn128_params bn128_globals (Ext 0) bn_mem) 10 bn_mem = Some m' \<and>
    fr_rep bn128_params (m' (Ext 3)) (- 3) \<and> frame (Ext 3) bn_mem m'"
  using element_string_roundtrip [where m = bn_mem and a = 0 and r = 3, OF bn128_fr_mpz bn_mem_reps(1,4)]
  by blast

end
