(* ===== verification/Goldilocks.thy ===== *)
theory Goldilocks
  imports Mpz
begin

text \<open>
  The field of the 64-bit prime \<open>2 ^ 64 - 2 ^ 32 + 1\<close> (\<open>goldilocks/fr.hpp\<close>): an element is one
  \<open>uint64_t\<close>, and the operators are inline functions on machine words. The names of the source
  carry the suffix \<open>_gl\<close> here, because the runtime for the larger primes has the same names.
  The lemmas say what each operator computes on canonical elements, those below the prime.
\<close>

subsection \<open>Constants and conversions\<close>

definition Fr_prime :: u64 where "Fr_prime = 18446744069414584321"
definition Fr_half :: u64 where "Fr_half = 9223372034707292160"

definition Fr_prime_str :: string where "Fr_prime_str = ''18446744069414584321''"

definition Fr_copyn_gl :: "u64 list \<Rightarrow> u64 list \<Rightarrow> nat \<Rightarrow> u64 list" where
  "Fr_copyn_gl r a n = foldl (\<lambda>r i. r[i := a ! i]) r [0..<n]"

definition Fr_toInt_gl :: "u64 \<Rightarrow> u32" where
  "Fr_toInt_gl a = (if a > Fr_half then - (ucast (Fr_prime - a)) else ucast a)"

text \<open>The C function \<open>strtoull\<close>: spaces, a sign, a base prefix, digits; it saturates.\<close>

definition is_space :: "char \<Rightarrow> bool" where
  "is_space c \<longleftrightarrow> (of_char c :: nat) = 32 \<or> (9 \<le> (of_char c :: nat) \<and> (of_char c :: nat) \<le> 13)"

definition digit_of :: "char \<Rightarrow> nat" where
  "digit_of c =
     (let n = of_char c
      in if 48 \<le> n \<and> n \<le> 57 then n - 48
         else if 97 \<le> n \<and> n \<le> 122 then n - 87
         else if 65 \<le> n \<and> n \<le> 90 then n - 55
         else 36)"

definition strtoull :: "string \<Rightarrow> nat \<Rightarrow> u64" where
  "strtoull s radix =
     (let s = dropWhile is_space s;
          neg = (s \<noteq> [] \<and> hd s = CHR ''-'');
          s = (if s \<noteq> [] \<and> (hd s = CHR ''-'' \<or> hd s = CHR ''+'') then tl s else s);
          s = (if radix = 16 \<and> length s \<ge> 3 \<and> (take 2 s = ''0x'' \<or> take 2 s = ''0X'') \<and>
                  digit_of (s ! 2) < 16 then drop 2 s else s);
          v = foldl (\<lambda>v c. v * radix + digit_of c) 0 (takeWhile (\<lambda>c. digit_of c < radix) s)
      in if v \<ge> 2 ^ 64 then - 1 else if neg then - of_nat v else of_nat v)"

definition Fr_str2element_gl :: "string \<Rightarrow> nat \<Rightarrow> u64" where
  "Fr_str2element_gl s radix = strtoull s radix"

definition Fr_element2str_gl :: "u64 \<Rightarrow> string" where
  "Fr_element2str_gl a = dec_str (unat a)"

subsection \<open>Arithmetic\<close>

definition Fr_add_gl :: "u64 \<Rightarrow> u64 \<Rightarrow> u64" where
  "Fr_add_gl a b =
     (if a \<le> Fr_half
      then if b > Fr_half
           then let bn = Fr_prime - b
                in if bn \<le> a then a - bn else a + b
           else a + b
      else let an = Fr_prime - a
           in if an > b then a + b else b - an)"

definition Fr_sub_gl :: "u64 \<Rightarrow> u64 \<Rightarrow> u64" where
  "Fr_sub_gl a b = (if b \<le> a then a - b else Fr_prime - (b - a))"

definition low32 :: "u64 \<Rightarrow> u64" where
  "low32 a = ucast (ucast a :: u32)"

definition Fr_mul_gl :: "u64 \<Rightarrow> u64 \<Rightarrow> u64" where
  "Fr_mul_gl a b =
     (let a0 = low32 a;
          a1 = drop_bit 32 a;
          b0 = low32 b;
          b1 = drop_bit 32 b;
          a0b0 = a0 * b0;
          a0b1 = a0 * b1;
          a1b0 = a1 * b0;
          a1b1 = a1 * b1;
          res32 = Fr_add_gl (Fr_add_gl a1b1 a1b0) a0b1;
          res0 = Fr_sub_gl a0b0 a1b1;
          res32_0 = low32 res32;
          res32_1 = drop_bit 32 res32;
          res32_1_aux = push_bit 32 res32_1;
          res32_0 = push_bit 32 res32_0;
          aux = Fr_sub_gl (Fr_add_gl res32_1_aux res32_0) res32_1
      in Fr_add_gl aux res0)"

definition Fr_inv_gl :: "mpz_api \<Rightarrow> u64 \<Rightarrow> u64" where
  "Fr_inv_gl Z a =
     (let a0 = ucast a :: u32;
          a1 = ucast (drop_bit 32 a) :: u32;
          ma = uint a1;
          ma = mpz_mul_2exp Z ma 32;
          ma = mpz_add Z ma (uint a0);
          mpz_prime = snd (mpz_init_set_str Z Fr_prime_str 10);
          mr = snd (mpz_invert Z ma mpz_prime);
          a0 = ucast (mpz_get_ui Z mr) :: u32;
          mr = mpz_tdiv_q_2exp Z mr 32;
          a1 = ucast (mpz_get_ui Z mr) :: u32;
          ra = push_bit 32 (ucast a1) :: u64
      in ra + ucast a0)"

definition Fr_div_gl :: "mpz_api \<Rightarrow> u64 \<Rightarrow> u64 \<Rightarrow> u64" where
  "Fr_div_gl Z a b = (let ib = Fr_inv_gl Z b in Fr_mul_gl a ib)"

text \<open>A machine division by zero stops the program.\<close>

definition Fr_idiv_gl :: "u64 \<Rightarrow> u64 \<Rightarrow> u64 option" where
  "Fr_idiv_gl a b = (if b = 0 then None else Some (a div b))"

definition Fr_mod_gl :: "u64 \<Rightarrow> u64 \<Rightarrow> u64 option" where
  "Fr_mod_gl a b = (if b = 0 then None else Some (a mod b))"

text \<open>The loop of \<open>Fr_pow\<close> on its variables \<open>p\<close>, \<open>ao\<close> and \<open>bo\<close>.\<close>

function pow_loop :: "u64 \<Rightarrow> u64 \<Rightarrow> u64 \<Rightarrow> u64" where
  "pow_loop p ao bo =
     (if bo > 0
      then if bo mod 2 = 0 then pow_loop p (Fr_mul_gl ao ao) (bo div 2)
           else pow_loop (Fr_mul_gl p ao) ao (bo - 1)
      else p)"
  by pat_completeness auto
termination
proof (relation "measure (\<lambda>(p, ao, bo). unat bo)")
  fix p ao bo :: u64
  assume "bo > 0" "bo mod 2 = 0"
  then show "((p, Fr_mul_gl ao ao, bo div 2), (p, ao, bo)) \<in> measure (\<lambda>(p, ao, bo). unat bo)"
    by (simp add: unat_div word_less_nat_alt)
next
  fix p ao bo :: u64
  assume "bo > 0"
  then show "((Fr_mul_gl p ao, ao, bo - 1), (p, ao, bo)) \<in> measure (\<lambda>(p, ao, bo). unat bo)"
    by (simp add: measure_unat word_neq_0_conv)
qed simp

declare pow_loop.simps [simp del]

definition Fr_pow_gl :: "u64 \<Rightarrow> u64 \<Rightarrow> u64" where
  "Fr_pow_gl a b = pow_loop 1 a b"

definition Fr_neg_gl :: "u64 \<Rightarrow> u64" where
  "Fr_neg_gl a = (if a = 0 then a else Fr_prime - a)"

subsection \<open>Shifts\<close>

text \<open>
  \<open>Fr_shl\<close> and \<open>Fr_shr\<close> call each other for a count above \<open>Fr_half\<close>. The number of calls is
  bounded by fuel: one call is enough for every canonical count, and none is for a count above
  the prime.
\<close>

fun shift_gl :: "nat \<Rightarrow> bool \<Rightarrow> u64 \<Rightarrow> u64 \<Rightarrow> u64 option" where
  "shift_gl 0 left a b = None"
| "shift_gl (Suc fuel) True a b =
     (if b > Fr_half then shift_gl fuel False a (Fr_prime - b)
      else if b \<ge> 64 then Some 0
      else let s = push_bit (unat b) a in Some (if s < Fr_prime then s else s - Fr_prime))"
| "shift_gl (Suc fuel) False a b =
     (if b > Fr_half then shift_gl fuel True a (Fr_prime - b)
      else if b \<ge> 64 then Some 0
      else Some (drop_bit (unat b) a))"

definition Fr_shl_gl :: "nat \<Rightarrow> u64 \<Rightarrow> u64 \<Rightarrow> u64 option" where
  "Fr_shl_gl fuel a b = shift_gl fuel True a b"

definition Fr_shr_gl :: "nat \<Rightarrow> u64 \<Rightarrow> u64 \<Rightarrow> u64 option" where
  "Fr_shr_gl fuel a b = shift_gl fuel False a b"

subsection \<open>Comparisons, logical and bitwise operators\<close>

definition Fr_leq_gl :: "u64 \<Rightarrow> u64 \<Rightarrow> u64" where
  "Fr_leq_gl a b =
     (if a \<le> Fr_half then (if b \<le> Fr_half then of_bool (a \<le> b) else 0)
      else (if b \<le> Fr_half then 1 else of_bool (a \<le> b)))"

definition Fr_geq_gl :: "u64 \<Rightarrow> u64 \<Rightarrow> u64" where
  "Fr_geq_gl a b =
     (if a \<le> Fr_half then (if b \<le> Fr_half then of_bool (a \<ge> b) else 1)
      else (if b \<le> Fr_half then 0 else of_bool (a \<ge> b)))"

definition Fr_lt_gl :: "u64 \<Rightarrow> u64 \<Rightarrow> u64" where
  "Fr_lt_gl a b =
     (if a \<le> Fr_half then (if b \<le> Fr_half then of_bool (a < b) else 0)
      else (if b \<le> Fr_half then 1 else of_bool (a < b)))"

definition Fr_gt_gl :: "u64 \<Rightarrow> u64 \<Rightarrow> u64" where
  "Fr_gt_gl a b =
     (if a \<le> Fr_half then (if b \<le> Fr_half then of_bool (a > b) else 1)
      else (if b \<le> Fr_half then 0 else of_bool (a > b)))"

definition Fr_eq_gl :: "u64 \<Rightarrow> u64 \<Rightarrow> u64" where
  "Fr_eq_gl a b = of_bool (a = b)"

fun Fr_eq_array_gl :: "nat \<Rightarrow> u64 list \<Rightarrow> u64 list \<Rightarrow> nat \<Rightarrow> u64" where
  "Fr_eq_array_gl i a b 0 = 1"
| "Fr_eq_array_gl i a b (Suc n) = (if a ! i \<noteq> b ! i then 0 else Fr_eq_array_gl (Suc i) a b n)"

definition Fr_neq_gl :: "u64 \<Rightarrow> u64 \<Rightarrow> u64" where
  "Fr_neq_gl a b = of_bool (a \<noteq> b)"

definition Fr_lor_gl :: "u64 \<Rightarrow> u64 \<Rightarrow> u64" where
  "Fr_lor_gl a b = (if a = 0 \<and> b = 0 then 0 else 1)"

definition Fr_land_gl :: "u64 \<Rightarrow> u64 \<Rightarrow> u64" where
  "Fr_land_gl a b = (if a = 0 \<or> b = 0 then 0 else 1)"

definition Fr_bor_gl :: "u64 \<Rightarrow> u64 \<Rightarrow> u64" where
  "Fr_bor_gl a b = (let bor = a OR b in if bor < Fr_prime then bor else bor - Fr_prime)"

definition Fr_band_gl :: "u64 \<Rightarrow> u64 \<Rightarrow> u64" where
  "Fr_band_gl a b = a AND b"

definition Fr_bxor_gl :: "u64 \<Rightarrow> u64 \<Rightarrow> u64" where
  "Fr_bxor_gl a b = (let bxor = a XOR b in if bxor < Fr_prime then bxor else bxor - Fr_prime)"

definition Fr_lnot_gl :: "u64 \<Rightarrow> u64" where
  "Fr_lnot_gl a = (if a = 0 then 1 else 0)"

definition Fr_isTrue_gl :: "u64 \<Rightarrow> int" where
  "Fr_isTrue_gl a = (if a = 0 then 0 else 1)"

definition Fr_bnot_gl :: "u64 \<Rightarrow> u64" where
  "Fr_bnot_gl a = (let bnot = NOT a in if bnot < Fr_prime then bnot else bnot - Fr_prime)"

subsection \<open>Values\<close>

definition gq :: int where "gq = 18446744069414584321"

definition canon :: "u64 \<Rightarrow> bool" where
  "canon a \<longleftrightarrow> uint a < gq"

lemma uint_prime [simp]: "uint Fr_prime = gq" and uint_half [simp]: "uint Fr_half = 9223372034707292160"
  by (simp_all add: Fr_prime_def Fr_half_def gq_def)

lemma int_mod_unique: "(v::int) = k * m + r \<Longrightarrow> 0 \<le> r \<Longrightarrow> r < m \<Longrightarrow> v mod m = r"
  by simp

lemma uint_minus:
  assumes "b \<le> a"
  shows "uint (a - b :: u64) = uint a - uint b"
proof -
  have "0 \<le> uint a - uint b" "uint a - uint b < B64"
    using assms uint64_bounds [of a] uint64_bounds(1) [of b] by (simp_all only: word_le_def)
  then show ?thesis unfolding uint_sub_u64 by (rule mod_pos_pos_trivial)
qed

lemma uint_plus:
  assumes "uint a + uint b < B64"
  shows "uint (a + b :: u64) = uint a + uint b"
  using assms unfolding uint_add_u64 by (intro mod_pos_pos_trivial) auto

lemma B64_num: "B64 = 18446744073709551616"
  by (simp add: B64_def)

lemma gq_pos [simp]: "0 < gq" "gq < B64"
  by (simp_all add: gq_def B64_num)

lemma mod_gq:
  "gq \<le> v \<Longrightarrow> v < 2 * gq \<Longrightarrow> v mod gq = v - gq" "- gq \<le> v \<Longrightarrow> v < 0 \<Longrightarrow> v mod gq = v + gq"
  using minus_mod_self2 [of v gq] mod_add_self2 [of v gq] mod_pos_pos_trivial [of "v - gq" gq]
    mod_pos_pos_trivial [of "v + gq" gq] by linarith+

lemma canon_cases:
  assumes "canon a" "canon b"
  shows "0 \<le> uint a" "uint a < gq" "0 \<le> uint b" "uint b < gq"
  using assms by (simp_all add: canon_def)

lemma Fr_add_gl_val:
  assumes "canon a" "canon b"
  shows "uint (Fr_add_gl a b) = (uint a + uint b) mod gq"
proof -
  note c = canon_cases [OF assms]
  have d: "b > Fr_half \<Longrightarrow> uint (Fr_prime - b) = gq - uint b" "a > Fr_half \<Longrightarrow> uint (Fr_prime - a) = gq - uint a"
    using c by (simp_all add: uint_minus word_le_def)
  consider (low) "a \<le> Fr_half" "\<not> b > Fr_half" | (hb) "a \<le> Fr_half" "b > Fr_half"
    | (ha) "a > Fr_half" by fastforce
  then show ?thesis
  proof cases
    case low
    then have "uint a + uint b < gq" by (simp add: word_le_def word_less_def gq_def not_less)
    then show ?thesis using low c by (simp add: Fr_add_gl_def uint_plus B64_num gq_def)
  next
    case hb
    have l: "Fr_prime - b \<le> a \<longleftrightarrow> gq \<le> uint a + uint b" using d(1) [OF hb(2)] by (simp add: word_le_def) linarith
    show ?thesis
    proof (cases "gq \<le> uint a + uint b")
      case True
      then show ?thesis using hb l c d(1) by (simp add: Fr_add_gl_def Let_def uint_minus mod_gq)
    next
      case False
      then show ?thesis using hb l c d(1) by (simp add: Fr_add_gl_def Let_def uint_plus B64_num gq_def)
    qed
  next
    case ha
    have na: "\<not> a \<le> Fr_half" using ha by simp
    have l: "Fr_prime - a > b \<longleftrightarrow> uint a + uint b < gq" using d(2) [OF ha] by (simp add: word_less_def) linarith
    show ?thesis
    proof (cases "uint a + uint b < gq")
      case True
      then show ?thesis using na ha l c d(2) by (simp add: Fr_add_gl_def Let_def uint_plus B64_num gq_def)
    next
      case False
      then have "Fr_prime - a \<le> b" using l by simp
      then show ?thesis using False na ha l c d(2)
        by (simp add: Fr_add_gl_def Let_def uint_minus mod_gq)
    qed
  qed
qed

lemma Fr_sub_gl_val:
  assumes "canon a" "canon b"
  shows "uint (Fr_sub_gl a b) = (uint a - uint b) mod gq"
proof (cases "b \<le> a")
  case True
  then have "0 \<le> uint a - uint b" "uint a - uint b < gq"
    using canon_cases [OF assms] unfolding word_le_def by linarith+
  then show ?thesis using True by (simp add: Fr_sub_gl_def uint_minus)
next
  case False
  then have d: "uint (b - a) = uint b - uint a" "uint a < uint b"
    by (simp_all add: uint_minus word_le_def)
  then have "b - a \<le> Fr_prime" using canon_cases [OF assms] unfolding word_le_def uint_prime by linarith
  moreover have "(uint a - uint b) mod gq = uint a - uint b + gq"
    using canon_cases [OF assms] d(2) by (intro mod_gq) linarith+
  ultimately show ?thesis using False d by (simp add: Fr_sub_gl_def uint_minus)
qed

lemma canon_ops: "canon a \<Longrightarrow> canon b \<Longrightarrow> canon (Fr_add_gl a b)" "canon a \<Longrightarrow> canon b \<Longrightarrow> canon (Fr_sub_gl a b)"
  by (simp_all add: canon_def [of "Fr_add_gl a b"] canon_def [of "Fr_sub_gl a b"] Fr_add_gl_val Fr_sub_gl_val)

lemma uint_ucast_u64: "uint (ucast (w::u32) :: u64) = uint w"
  by (simp add: uint_up_ucast is_up)

lemma uint_ucast_u32: "uint (ucast (a::u64) :: u32) = uint a mod 2 ^ 32"
  by (simp only: unsigned_ucast_eq take_bit_eq_mod) simp

lemma low32_val: "uint (low32 a) = uint a mod 2 ^ 32"
  by (simp only: low32_def uint_ucast_u64 uint_ucast_u32)

lemma drop32_val: "uint (drop_bit 32 (a::u64)) = uint a div 2 ^ 32"
  using uint_lt2p [of a] by (simp only: unsigned_drop_bit_eq) (simp add: drop_bit_eq_div take_bit_eq_mod)

lemma halves: "uint (a::u64) = uint (drop_bit 32 a) * 2 ^ 32 + uint (low32 a)"
  "uint (drop_bit 32 a) < 2 ^ 32" "uint (low32 a) < 2 ^ 32"
  using uint64_bounds(2) [of a] by (simp_all add: low32_val drop32_val B64_num)

lemma half_product:
  assumes "uint a < 2 ^ 32" "uint (b::u64) < 2 ^ 32"
  shows "uint (a * b) = uint a * uint b" "canon (a * b)"
proof -
  have "uint a * uint b \<le> (2 ^ 32 - 1) * (2 ^ 32 - 1)" using assms by (intro mult_mono) auto
  then have l: "uint a * uint b < gq" by (simp add: gq_def)
  then have "uint a * uint b < B64" using gq_pos(2) by linarith
  then show "uint (a * b) = uint a * uint b" by (simp add: uint_mult_u64)
  then show "canon (a * b)" using l by (simp add: canon_def)
qed

lemma shifted_half:
  assumes "uint (a::u64) < 2 ^ 32"
  shows "uint (push_bit 32 a) = uint a * 2 ^ 32" "canon (push_bit 32 a)" "canon a"
proof -
  have "uint (push_bit 32 a) = uint a * 2 ^ 32 mod 2 ^ 64"
    by (simp only: unsigned_push_bit_eq) (simp add: push_bit_eq_mult take_bit_eq_mod)
  then show "uint (push_bit 32 a) = uint a * 2 ^ 32" using assms by simp
  then show "canon (push_bit 32 a)" using assms by (simp add: canon_def gq_def)
  show "canon a" using assms by (simp add: canon_def gq_def)
qed

text \<open>The product of two arbitrary words, canonical or not.\<close>

lemma Fr_mul_gl_val: "uint (Fr_mul_gl a b) = (uint a * uint b) mod gq"
proof -
  let ?a0 = "low32 a" and ?a1 = "drop_bit 32 a" and ?b0 = "low32 b" and ?b1 = "drop_bit 32 b"
  note h = halves [of a] halves [of b]
  note p = half_product [OF h(3,6)] half_product [OF h(3,5)] half_product [OF h(2,6)] half_product [OF h(2,5)]
  define r where "r = Fr_add_gl (Fr_add_gl (?a1 * ?b1) (?a1 * ?b0)) (?a0 * ?b1)"
  have r: "uint r = (uint ?a1 * uint ?b1 + uint ?a1 * uint ?b0 + uint ?a0 * uint ?b1) mod gq"
    unfolding r_def by (simp add: Fr_add_gl_val canon_ops p mod_simps)
  note hr = halves [of r]
  note s = shifted_half [OF hr(3)] shifted_half [OF hr(2)]
  define x where "x = Fr_sub_gl (Fr_add_gl (push_bit 32 (drop_bit 32 r)) (push_bit 32 (low32 r))) (drop_bit 32 r)"
  have x: "uint x = (uint (drop_bit 32 r) * 2 ^ 32 + uint (low32 r) * 2 ^ 32 - uint (drop_bit 32 r)) mod gq" "canon x"
    unfolding x_def using canon_ops s by (simp_all add: Fr_add_gl_val Fr_sub_gl_val mod_simps)
  have g: "(2::int) ^ 64 = gq + 2 ^ 32 - 1" by (simp add: gq_def)
  have "uint r * 2 ^ 32 = uint (drop_bit 32 r) * 2 ^ 64 + uint (low32 r) * 2 ^ 32"
    by (subst hr(1)) (simp add: algebra_simps)
  also have "\<dots> = (uint (drop_bit 32 r) * 2 ^ 32 + uint (low32 r) * 2 ^ 32 - uint (drop_bit 32 r))
      + uint (drop_bit 32 r) * gq" unfolding g by (simp add: algebra_simps)
  finally have xr: "uint x = (uint r * 2 ^ 32) mod gq" unfolding x(1) by simp
  have m: "Fr_mul_gl a b = Fr_add_gl x (Fr_sub_gl (?a0 * ?b0) (?a1 * ?b1))"
    by (simp add: Fr_mul_gl_def Let_def r_def x_def)
  have "uint (Fr_mul_gl a b) = (uint r * 2 ^ 32 + (uint ?a0 * uint ?b0 - uint ?a1 * uint ?b1)) mod gq"
    unfolding m using x(2) p canon_ops by (simp add: Fr_add_gl_val Fr_sub_gl_val xr mod_simps)
  also have "\<dots> = ((uint ?a1 * uint ?b1 + uint ?a1 * uint ?b0 + uint ?a0 * uint ?b1) * 2 ^ 32 +
      (uint ?a0 * uint ?b0 - uint ?a1 * uint ?b1)) mod gq" unfolding r by (rule mod_add_cong [OF mod_mult_cong [OF mod_mod_trivial refl] refl])
  also have "\<dots> = (uint a * uint b) mod gq"
  proof -
    have "uint a * uint b = uint ?a1 * uint ?b1 * 2 ^ 64 +
        (uint ?a1 * uint ?b0 + uint ?a0 * uint ?b1) * 2 ^ 32 + uint ?a0 * uint ?b0"
      by (subst h(1), subst h(4)) (simp add: algebra_simps)
    also have "\<dots> = ((uint ?a1 * uint ?b1 + uint ?a1 * uint ?b0 + uint ?a0 * uint ?b1) * 2 ^ 32 +
        (uint ?a0 * uint ?b0 - uint ?a1 * uint ?b1)) + uint ?a1 * uint ?b1 * gq"
      unfolding g by (simp add: algebra_simps)
    finally show ?thesis by simp
  qed
  finally show ?thesis .
qed

text \<open>Powers and inverses.\<close>

lemma pow_loop_val:
  "canon p \<Longrightarrow> uint (pow_loop p ao bo) = (uint p * uint ao ^ unat bo) mod gq"
proof (induction p ao bo rule: pow_loop.induct)
  case (1 p ao bo)
  show ?case
  proof (cases "bo > 0")
    case False
    then have "bo = 0" by (simp add: word_gt_0)
    then show ?thesis using 1(3) by (simp add: pow_loop.simps [of p ao 0] canon_def)
  next
    case True
    show ?thesis
    proof (cases "bo mod 2 = 0")
      case even: True
      have "unat (bo mod 2) = 0" using even by simp
      then have "unat bo mod 2 = 0" by (simp add: unat_mod)
      then have e: "unat bo = 2 * unat (bo div 2)" using mult_div_mod_eq [of 2 "unat bo"] by (simp add: unat_div)
      have "uint (pow_loop p ao bo) = (uint p * uint (Fr_mul_gl ao ao) ^ unat (bo div 2)) mod gq"
        using 1(1) [OF True even] 1(3) True even by (simp add: pow_loop.simps [of p ao bo])
      also have "\<dots> = (uint p * (uint ao * uint ao) ^ unat (bo div 2)) mod gq"
        unfolding Fr_mul_gl_val by (rule mod_mult_cong [OF refl power_mod])
      also have "\<dots> = (uint p * uint ao ^ unat bo) mod gq"
        by (subst e) (simp add: power_mult power2_eq_square)
      finally show ?thesis .
    next
      case odd: False
      have e: "unat bo = Suc (unat (bo - 1))" using True by (simp add: unat_minus_one word_neq_0_conv unat_gt_0)
      have "canon (Fr_mul_gl p ao)" by (simp add: canon_def Fr_mul_gl_val)
      from 1(2) [OF True odd this]
      have "uint (pow_loop p ao bo) = (uint p * uint ao mod gq * uint ao ^ unat (bo - 1)) mod gq"
        using True odd by (simp add: pow_loop.simps [of p ao bo] Fr_mul_gl_val)
      also have "\<dots> = (uint p * uint ao ^ unat bo) mod gq" unfolding e by (simp add: mod_mult_left_eq mult.assoc)
      finally show ?thesis .
    qed
  qed
qed

lemma Fr_inv_gl_val:
  assumes "mpz_lib Z" "coprime (uint a) gq"
  shows "canon (Fr_inv_gl Z a)" "(uint (Fr_inv_gl Z a) * uint a) mod gq = 1"
proof -
  have d: "is_decimal Fr_prime_str" "dec_val Fr_prime_str = 18446744069414584321"
    by (simp_all add: Fr_prime_str_def is_decimal_def is_digit_def dec_val_def digit_val_def)
  have p: "snd (mpz_init_set_str Z Fr_prime_str 10) = gq"
    using mpz_lib.set_str_law [OF assms(1) d(1)] d(2) by (simp add: gq_def)
  have ma: "uint (ucast (drop_bit 32 a) :: u32) * 2 ^ 32 + uint (ucast a :: u32) = uint a"
    using halves [of a] by (simp add: uint_ucast_u32 low32_val mod_pos_pos_trivial)
  obtain c w where e: "mpz_invert Z (uint a) gq = (c, w)" by fastforce
  have w: "0 \<le> w" "w < gq" "(w * uint a) mod gq = 1"
    using mpz_lib.invert_law [OF assms(1) _ assms(2) e] by (simp_all add: gq_def)
  have wb: "w < 2 ^ 64" using w(2) by (simp add: gq_def)
  have lo: "uint (ucast (mpz_get_ui Z w) :: u32) = w mod 2 ^ 32"
    using mpz_lib.get_ui_law [OF assms(1) w(1)] wb w(1)
    by (simp add: uint_ucast_u32 uint_word_of_int mod_pos_pos_trivial)
  have "0 \<le> w div 2 ^ 32" "w div 2 ^ 32 < 2 ^ 32" using w(1) wb by simp_all
  then have hi: "uint (ucast (mpz_get_ui Z (mpz_tdiv_q_2exp Z w 32)) :: u32) = w div 2 ^ 32"
    using mpz_lib.tdiv_q_2exp_law [OF assms(1) w(1)] mpz_lib.get_ui_law [OF assms(1), of "w div 2 ^ 32"]
    by (simp add: uint_ucast_u32 uint_word_of_int mod_pos_pos_trivial)
  let ?h = "ucast (ucast (mpz_get_ui Z (mpz_tdiv_q_2exp Z w 32)) :: u32) :: u64"
  let ?l = "ucast (ucast (mpz_get_ui Z w) :: u32) :: u64"
  have h: "uint ?h = w div 2 ^ 32" "uint ?l = w mod 2 ^ 32" by (simp_all only: uint_ucast_u64 hi lo)
  then have s: "uint (push_bit 32 ?h) = w div 2 ^ 32 * 2 ^ 32"
    using shifted_half(1) [of ?h] \<open>w div 2 ^ 32 < 2 ^ 32\<close> by simp
  have "uint (push_bit 32 ?h + ?l) = w"
    using s h(2) wb by (subst uint_plus) (simp_all add: B64_def)
  then have "uint (Fr_inv_gl Z a) = w"
    using p e ma by (simp add: Fr_inv_gl_def Let_def mpz_lib.mul_2exp_law [OF assms(1)] mpz_lib.add_law [OF assms(1)])
  then show "canon (Fr_inv_gl Z a)" "(uint (Fr_inv_gl Z a) * uint a) mod gq = 1"
    using w by (simp_all add: canon_def)
qed

text \<open>Reduction of a word below twice the prime.\<close>

lemma reduce_word: "uint (if x < Fr_prime then x else x - Fr_prime) = uint x mod gq"
proof (cases "x < Fr_prime")
  case True
  then show ?thesis by (simp add: word_less_def mod_pos_pos_trivial)
next
  case False
  then have "gq \<le> uint x" by (simp add: word_less_def)
  moreover have "uint x < 2 * gq" using uint64_bounds(2) [of x] by (simp add: gq_def B64_num)
  ultimately show ?thesis using False by (simp add: uint_minus mod_gq not_less)
qed

text \<open>Signed order: a word above half of the prime counts as negative.\<close>

definition signed_gl :: "u64 \<Rightarrow> int" where
  "signed_gl a = (if a > Fr_half then uint a - gq else uint a)"

lemma signed_gl_cases:
  assumes "canon a"
  shows "a \<le> Fr_half \<Longrightarrow> signed_gl a = uint a \<and> 0 \<le> signed_gl a"
    "\<not> a \<le> Fr_half \<Longrightarrow> signed_gl a = uint a - gq \<and> signed_gl a < 0"
  using assms by (simp_all add: signed_gl_def canon_def not_less)

lemma order_gl:
  assumes "canon a" "canon b"
  shows "Fr_lt_gl a b = of_bool (signed_gl a < signed_gl b)"
    "Fr_leq_gl a b = of_bool (signed_gl a \<le> signed_gl b)"
    "Fr_gt_gl a b = of_bool (signed_gl a > signed_gl b)"
    "Fr_geq_gl a b = of_bool (signed_gl a \<ge> signed_gl b)"
  using signed_gl_cases [OF assms(1)] signed_gl_cases [OF assms(2)]
  by (cases "a \<le> Fr_half"; cases "b \<le> Fr_half";
      simp add: Fr_lt_gl_def Fr_leq_gl_def Fr_gt_gl_def Fr_geq_gl_def word_less_def word_le_def)+

text \<open>Shifts: one call decides every canonical count; no fuel is enough above the prime.\<close>

definition shift_left_gl :: "int \<Rightarrow> nat \<Rightarrow> int" where
  "shift_left_gl v k = v * 2 ^ k mod 2 ^ 64 mod gq"

lemma word_of_uint: "uint (x::u64) = v \<Longrightarrow> x = word_of_int v"
  by auto

lemma shift_gl_small:
  assumes "\<not> b > Fr_half"
  shows "shift_gl (Suc fuel) True a b = Some (word_of_int (shift_left_gl (uint a) (unat b)))"
    and "shift_gl (Suc fuel) False a b = Some (word_of_int (uint a div 2 ^ unat b))"
proof -
  have z: "b \<ge> 64 \<Longrightarrow> (2::int) ^ 64 dvd 2 ^ unat b"
    by (rule le_imp_power_dvd) (simp add: word_le_nat_alt)
  have p: "uint (push_bit (unat b) a) = uint a * 2 ^ unat b mod 2 ^ 64"
    by (simp only: unsigned_push_bit_eq) (simp add: push_bit_eq_mult take_bit_eq_mod)
  show "shift_gl (Suc fuel) True a b = Some (word_of_int (shift_left_gl (uint a) (unat b)))"
  proof (cases "b \<ge> 64")
    case True
    then have "uint a * 2 ^ unat b mod 2 ^ 64 = 0" using z by (simp add: dvd_imp_mod_0 dvd_mult)
    then show ?thesis using True assms by (simp add: shift_left_gl_def)
  next
    case False
    let ?s = "push_bit (unat b) a"
    have "(if ?s < Fr_prime then ?s else ?s - Fr_prime) = word_of_int (shift_left_gl (uint a) (unat b))"
      by (rule word_of_uint) (simp only: reduce_word p shift_left_gl_def)
    then show ?thesis using False assms by (simp add: Let_def)
  qed
  show "shift_gl (Suc fuel) False a b = Some (word_of_int (uint a div 2 ^ unat b))"
  proof (cases "b \<ge> 64")
    case True
    then have "(2::int) ^ 64 \<le> 2 ^ unat b" by (intro power_increasing) (simp_all add: word_le_nat_alt)
    then have "uint a div 2 ^ unat b = 0" using uint_lt2p [of a] by simp
    then show ?thesis using True assms by simp
  next
    case False
    have "uint (drop_bit (unat b) a) = uint a div 2 ^ unat b"
      using uint_lt2p [of a] by (simp only: unsigned_drop_bit_eq) (simp add: drop_bit_eq_div take_bit_eq_mod)
    then have "drop_bit (unat b) a = word_of_int (uint a div 2 ^ unat b)" by (rule word_of_uint)
    then show ?thesis using False assms by simp
  qed
qed

lemma shift_gl_neg:
  assumes "canon b" "b > Fr_half"
  shows "shift_gl (Suc (Suc fuel)) left a b =
    (if left then Some (word_of_int (uint a div 2 ^ unat (Fr_prime - b)))
     else Some (word_of_int (shift_left_gl (uint a) (unat (Fr_prime - b)))))"
proof -
  have "b \<le> Fr_prime" using assms(1) by (simp add: canon_def word_le_def)
  then have "\<not> Fr_prime - b > Fr_half" using assms
    by (simp add: word_less_def uint_minus gq_def)
  note s = shift_gl_small [OF this, of fuel a]
  show ?thesis using assms(2) s by (cases left) (simp_all del: shift_gl.simps add: shift_gl.simps(2,3)[of "Suc fuel"])
qed

lemma shift_gl_diverges:
  assumes "Fr_prime < b"
  shows "shift_gl fuel left a b = None \<and> shift_gl fuel left a (Fr_prime - b) = None"
proof (induction fuel arbitrary: left)
  case 0
  then show ?case by simp
next
  case (Suc fuel)
  have h: "b > Fr_half" using assms by (simp add: word_less_def gq_def)
  have "uint (Fr_prime - b) = gq - uint b + B64"
    using assms uint64_bounds(2) [of b] unfolding uint_sub_u64
    by (intro int_mod_unique [where k = "- 1"]) (simp_all add: word_less_def gq_def B64_num)
  then have g: "Fr_prime - b > Fr_half"
    using uint64_bounds(2) [of b] by (simp add: word_less_def gq_def B64_num)
  show ?case using h g Suc [of "\<not> left"] by (cases left) simp_all
qed

subsection \<open>The results\<close>

text \<open>
  Property C40. On canonical elements the machine-word addition, subtraction and negation are
  those of the field, with canonical results; multiplication and powers are right for
  arbitrary words, and a division multiplied by its divisor gives the dividend when the
  divisor is coprime to the prime.
\<close>

theorem goldilocks_arithmetic:
  assumes "canon a" "canon b" "mpz_lib Z"
  shows "uint (Fr_add_gl a b) = (uint a + uint b) mod gq \<and> uint (Fr_sub_gl a b) = (uint a - uint b) mod gq \<and>
    uint (Fr_neg_gl a) = (- uint a) mod gq \<and> uint (Fr_mul_gl c d) = (uint c * uint d) mod gq \<and>
    uint (Fr_pow_gl c d) = uint c ^ unat d mod gq \<and>
    (coprime (uint b) gq \<longrightarrow> (uint (Fr_div_gl Z a b) * uint b) mod gq = uint a)"
proof -
  have pow: "uint (Fr_pow_gl c d) = uint c ^ unat d mod gq"
    using pow_loop_val [of 1 c d] by (simp add: Fr_pow_gl_def canon_def gq_def)
  have neg: "uint (Fr_neg_gl a) = (- uint a) mod gq"
  proof (cases "a = 0")
    case False
    then have p: "0 < uint a" by (simp add: word_neq_0_conv word_less_def)
    have "(- uint a) mod gq = - uint a + gq" using p assms(1) by (intro mod_gq) (auto simp: canon_def)
    moreover have "a \<le> Fr_prime" using assms(1) by (simp add: canon_def word_le_def)
    ultimately show ?thesis using False by (simp add: Fr_neg_gl_def uint_minus)
  qed (simp add: Fr_neg_gl_def)
  have div: "(uint (Fr_div_gl Z a b) * uint b) mod gq = uint a" if "coprime (uint b) gq"
  proof -
    have "(uint (Fr_div_gl Z a b) * uint b) mod gq = (uint a * ((uint (Fr_inv_gl Z b) * uint b) mod gq)) mod gq"
      by (simp add: Fr_div_gl_def Fr_mul_gl_val mod_simps mult.assoc)
    then show ?thesis using Fr_inv_gl_val(2) [OF assms(3) that] assms(1) by (simp add: canon_def)
  qed
  show ?thesis
    by (intro conjI impI Fr_add_gl_val Fr_sub_gl_val Fr_mul_gl_val pow neg div assms(1,2))
qed

theorem goldilocks_arithmetic_witness:
  "uint (Fr_mul_gl 0xFFFFFFFFFFFFFFFF 0xFFFFFFFFFFFFFFFE) =
    (uint (0xFFFFFFFFFFFFFFFF :: u64) * uint (0xFFFFFFFFFFFFFFFE :: u64)) mod gq"
proof -
  have "canon 0" by (simp add: canon_def)
  from goldilocks_arithmetic [where c = "0xFFFFFFFFFFFFFFFF" and d = "0xFFFFFFFFFFFFFFFE",
      OF this this gmp_mpz.mpz_lib_axioms]
  show ?thesis by blast
qed

text \<open>
  The comparisons order canonical elements as signed numbers, and the bitwise
  operators store the combination of the words reduced modulo the prime.
\<close>

lemma goldilocks_compare_bits:
  assumes "canon a" "canon b"
  shows "Fr_lt_gl a b = of_bool (signed_gl a < signed_gl b) \<and>
    Fr_leq_gl a b = of_bool (signed_gl a \<le> signed_gl b) \<and>
    Fr_gt_gl a b = of_bool (signed_gl a > signed_gl b) \<and>
    Fr_geq_gl a b = of_bool (signed_gl a \<ge> signed_gl b) \<and>
    uint (Fr_band_gl a b) = (uint a AND uint b) mod gq \<and>
    uint (Fr_bor_gl a b) = (uint a OR uint b) mod gq \<and>
    uint (Fr_bxor_gl a b) = (uint a XOR uint b) mod gq \<and>
    uint (Fr_bnot_gl a) = (2 ^ 64 - 1 - uint a) mod gq"
proof -
  have "uint a AND uint b \<le> uint a" by (rule AND_upper1) simp
  then have "uint a AND uint b < gq" using assms(1) by (simp add: canon_def)
  then have "uint (Fr_band_gl a b) = (uint a AND uint b) mod gq"
    by (simp add: Fr_band_gl_def uint_and)
  moreover have "uint (NOT a) = 2 ^ 64 - 1 - uint a"
    using lval_not [of "[a]"] by (simp add: B64_num)
  ultimately show ?thesis using order_gl [OF assms]
    by (simp add: Fr_bor_gl_def Fr_bxor_gl_def Fr_bnot_gl_def Let_def reduce_word uint_or uint_xor)
qed

lemma goldilocks_compare_bits_witness:
  "Fr_lt_gl 18446744069414584320 1 = of_bool (signed_gl 18446744069414584320 < signed_gl 1)"
  using goldilocks_compare_bits [of 18446744069414584320 1] by (simp add: canon_def gq_def)

text \<open>
  A shift by a canonical count returns after at most two calls: a count above
  half of the prime shifts the other way by its negation, a count of 64 or more gives zero. A
  count above the prime makes the two functions call each other without end.
\<close>

lemma goldilocks_shifts:
  assumes "2 \<le> fuel"
  shows "(canon b \<longrightarrow>
      Fr_shl_gl fuel a b = Some (word_of_int (if b > Fr_half then uint a div 2 ^ unat (Fr_prime - b)
        else shift_left_gl (uint a) (unat b))) \<and>
      Fr_shr_gl fuel a b = Some (word_of_int (if b > Fr_half then shift_left_gl (uint a) (unat (Fr_prime - b))
        else uint a div 2 ^ unat b))) \<and>
    (Fr_prime < b \<longrightarrow> Fr_shl_gl fuel a b = None \<and> Fr_shr_gl fuel a b = None)"
proof -
  obtain k where f: "fuel = Suc (Suc k)" using le_Suc_ex [OF assms] by auto
  have "Fr_shl_gl fuel a b = Some (word_of_int (if b > Fr_half then uint a div 2 ^ unat (Fr_prime - b)
        else shift_left_gl (uint a) (unat b))) \<and>
      Fr_shr_gl fuel a b = Some (word_of_int (if b > Fr_half then shift_left_gl (uint a) (unat (Fr_prime - b))
        else uint a div 2 ^ unat b))" if "canon b"
  proof (cases "b > Fr_half")
    case True
    note n = shift_gl_neg [OF that True, of k True a] shift_gl_neg [OF that True, of k False a]
    show ?thesis unfolding f Fr_shl_gl_def Fr_shr_gl_def n by (simp only: True if_True if_False simp_thms)
  next
    case False
    show ?thesis unfolding f Fr_shl_gl_def Fr_shr_gl_def shift_gl_small [OF False]
      by (simp only: False if_False simp_thms)
  qed
  moreover have "Fr_shl_gl fuel a b = None \<and> Fr_shr_gl fuel a b = None" if "Fr_prime < b"
    using shift_gl_diverges [OF that] unfolding Fr_shl_gl_def Fr_shr_gl_def by blast
  ultimately show ?thesis by blast
qed

lemma goldilocks_shifts_witness:
  "Fr_shl_gl 2 3 18446744069414584322 = None \<and> Fr_shr_gl 2 12 18446744069414584320 = Some (word_of_int (shift_left_gl 12 1))"
  using goldilocks_shifts [of 2 18446744069414584322 3] goldilocks_shifts [of 2 18446744069414584320 12]
  by (simp add: canon_def Fr_prime_def Fr_half_def gq_def)

text \<open>Decimal strings as \<open>strtoull\<close> reads them.\<close>

lemma digit_of_digit: "is_digit c \<Longrightarrow> digit_of c = digit_val c \<and> digit_of c < 10 \<and> \<not> is_space c"
  by (auto simp: is_digit_def digit_of_def digit_val_def Let_def is_space_def)

lemma digits_foldl:
  assumes "\<forall>c \<in> set s. is_digit c"
  shows "foldl (\<lambda>v c. v * 10 + digit_of c) v s = foldl (\<lambda>v c. 10 * v + digit_val c) v s"
  using assms by (induction s arbitrary: v) (simp_all add: digit_of_digit mult.commute)

lemma strtoull_decimal:
  assumes "is_decimal s" "dec_val s < 2 ^ 64"
  shows "strtoull s 10 = of_nat (dec_val s)"
proof -
  obtain c cs where s: "s = c # cs" using assms(1) by (cases s) (auto simp: is_decimal_def)
  have d: "\<forall>x \<in> set s. is_digit x" using assms(1) by (simp add: is_decimal_def)
  then have c: "\<not> is_space c" "c \<noteq> CHR ''-''" "c \<noteq> CHR ''+''"
    by (auto simp: s digit_of_digit) (auto simp: is_digit_def)
  have t: "takeWhile (\<lambda>c. digit_of c < 10) s = s" unfolding takeWhile_eq_all_conv using d digit_of_digit by blast
  have f: "foldl (\<lambda>v c. v * 10 + digit_of c) 0 s = dec_val s" using digits_foldl [OF d] by (simp add: dec_val_def)
  have "dropWhile is_space s = s" using c(1) by (simp add: s)
  then show ?thesis using c assms(2) t f by (simp add: strtoull_def Let_def s)
qed

text \<open>
  Every element survives printing and reading back. A decimal string below
  \<open>2 ^ 64\<close> is read as it stands, without reduction: a number from the prime up gives a word
  that is not canonical, which \<open>Fr_eq\<close> tells apart from the element it is congruent to.
\<close>

lemma goldilocks_strings:
  "Fr_str2element_gl (Fr_element2str_gl a) 10 = a \<and>
   (\<forall>n. gq \<le> int n \<and> int n < 2 ^ 64 \<longrightarrow>
     \<not> canon (Fr_str2element_gl (dec_str n) 10) \<and>
     Fr_eq_gl (Fr_str2element_gl (dec_str n) 10) (Fr_str2element_gl (dec_str (nat (int n mod gq))) 10) = 0)"
proof -
  have r: "Fr_str2element_gl (dec_str n) 10 = of_nat n" if "n < 2 ^ 64" for n
    using strtoull_decimal [OF is_decimal_str] that by (simp add: Fr_str2element_gl_def dec_val_str)
  have u: "uint (of_nat n :: u64) = int n" if "n < 2 ^ 64" for n
    using that uint_word_of_int_u64 [of "int n"] by (simp add: B64_num)
  have "Fr_str2element_gl (Fr_element2str_gl a) 10 = a"
  proof -
    have "unat a < 2 ^ 64" by (rule order_less_le_trans [OF unsigned_less]) simp
    then show ?thesis using r [of "unat a"] by (simp add: Fr_element2str_gl_def)
  qed
  moreover have "\<not> canon (Fr_str2element_gl (dec_str n) 10) \<and>
      Fr_eq_gl (Fr_str2element_gl (dec_str n) 10) (Fr_str2element_gl (dec_str (nat (int n mod gq))) 10) = 0"
    if n: "gq \<le> int n" "int n < 2 ^ 64" for n
  proof -
    have b: "n < 2 ^ 64" using n(2) by simp
    have m: "int n mod gq < gq" "0 \<le> int n mod gq" by simp_all
    then have mb: "nat (int n mod gq) < 2 ^ 64" by (simp add: nat_less_iff gq_def)
    have "uint (of_nat n :: u64) \<noteq> uint (of_nat (nat (int n mod gq)) :: u64)"
      unfolding u [OF b] u [OF mb] using m n(1) by linarith
    then have "(of_nat n :: u64) \<noteq> of_nat (nat (int n mod gq))" by metis
    then show ?thesis using r [OF b] r [OF mb] u [OF b] n(1) by (simp add: canon_def Fr_eq_gl_def)
  qed
  ultimately show ?thesis by blast
qed

lemma goldilocks_strings_witness:
  "Fr_eq_gl (Fr_str2element_gl (dec_str 18446744069414584322) 10)
     (Fr_str2element_gl (dec_str (nat (int 18446744069414584322 mod gq))) 10) = 0"
proof -
  have "gq \<le> int 18446744069414584322 \<and> int 18446744069414584322 < 2 ^ 64" by (simp add: gq_def)
  then show ?thesis using goldilocks_strings [of 0] by blast
qed

end
