(* ===== verification/CalcWit.thy ===== *)
theory CalcWit
  imports FrConv
begin

text \<open>
  The witness calculator of circom's C++ backend (\<open>common/calcwit.cpp\<close>): the hash table of the
  main component's input signals, which the compiler fills (\<open>generate_hash_map\<close> of
  \<open>c_code_generator.rs\<close>) and the calculator searches by linear probing; the state that counts
  the inputs still to be set and starts the circuit with the last one; and the functions that
  print positions and traces. The code generated for the circuit (\<open>run\<close>) is a parameter. An
  \<open>assert(false)\<close>, a division by zero and an access outside an array are values of
  \<open>cw_error\<close>.
\<close>

subsection \<open>The circuit\<close>

record HashSignalInfo =
  hash :: u64
  signalid :: u64
  signalsize :: u64

record IOFieldDef =
  offset :: u32
  lengths :: "u32 list"
  def_size :: u32
  busId :: u32

record Circom_Circuit =
  InputHashMap :: "HashSignalInfo list"
  witness2SignalList :: "u64 list"
  circuitConstants :: "FrElement list"
  templateInsId2IOSignalInfo :: "u32 \<rightharpoonup> IOFieldDef list"
  busInsId2FieldInfo :: "IOFieldDef list list option"   \<comment> \<open>\<open>None\<close>: the pointer is not set\<close>

text \<open>The sizes that the generated code returns (\<open>get_main_input_signal_no()\<close> and so on).\<close>

record circuit_sizes =
  main_input_signal_start :: u32
  main_input_signal_no :: u32
  total_signal_no :: u32
  number_of_components :: u32
  size_of_input_hashmap :: u32
  size_of_witness :: u32
  size_of_constants :: u32
  size_of_io_map :: u32
  size_of_bus_field_map :: u32

record Circom_Component =
  componentName :: string
  idFather :: u64

datatype cw_error = Signal_not_found | Signals_not_found | No_more_signals | Access_exceeds_size
  | Signal_assigned_twice u32 | Out_of_bounds | Division_by_zero | Not_enough_values string
  | Too_many_values string | Invalid_number string | Invalid_type | Types_differ string
  | Uninitialised | Assertion_failed | Heap_overflow | Out_of_fuel

subsection \<open>The hash table\<close>

text \<open>
  \<open>u64(c)\<close> for a \<open>char\<close>, a signed type on the platforms the generated makefile builds for:
  a character from 128 up is sign-extended.
\<close>

definition char_u64 :: "char \<Rightarrow> u64" where
  "char_u64 c = scast (of_nat (of_char c) :: u8)"

definition fnv1a :: "string \<Rightarrow> u64" where
  "fnv1a s = foldl (\<lambda>hash c. (hash XOR char_u64 c) * 0x100000001B3) 0xCBF29CE484222325 s"

text \<open>The loop of \<open>getInputSignalHashPosition\<close>; \<open>fuel\<close> bounds its iterations.\<close>

fun hash_probe :: "nat \<Rightarrow> HashSignalInfo list \<Rightarrow> u64 \<Rightarrow> u32 \<Rightarrow> u32 \<Rightarrow> u32 \<Rightarrow> cw_error + u32" where
  "hash_probe 0 H h n inipos pos = Inl Out_of_fuel"
| "hash_probe (Suc fuel) H h n inipos pos =
     (if pos = inipos then Inl Signals_not_found
      else if unat pos \<ge> length H then Inl Out_of_bounds
      else if hash (H ! unat pos) = h then Inr pos
      else if signalid (H ! unat pos) = 0 then Inl Signal_not_found
      else hash_probe fuel H h n inipos ((pos + 1) mod n))"

definition getInputSignalHashPosition :: "HashSignalInfo list \<Rightarrow> u32 \<Rightarrow> u64 \<Rightarrow> cw_error + u32" where
  "getInputSignalHashPosition H n h =
     (if n = 0 then Inl Division_by_zero
      else let pos = ucast (h mod ucast n) :: u32
           in if unat pos \<ge> length H then Inl Out_of_bounds
              else if hash (H ! unat pos) \<noteq> h
              then let inipos = pos;
                       pos = (pos + 1) mod n
                   in hash_probe (unat n) H h n inipos pos
              else Inr pos)"

text \<open>
  The compiler's side. An input is a name, its first signal and its size; \<open>hasher\<close> is the
  hash function of a Rust library. The table is full when the fuel runs out.
\<close>

definition empty_entry :: HashSignalInfo where
  "empty_entry = \<lparr>hash = 0, signalid = 0, signalsize = 0\<rparr>"

fun free_slot :: "nat \<Rightarrow> HashSignalInfo list \<Rightarrow> nat \<Rightarrow> nat option" where
  "free_slot 0 H p = None"
| "free_slot (Suc fuel) H p =
     (if signalid (H ! p) \<noteq> 0 then free_slot fuel H ((p + 1) mod length H) else Some p)"

fun insert_inputs :: "(string \<Rightarrow> u64) \<Rightarrow> (string \<times> u64 \<times> u64) list \<Rightarrow> HashSignalInfo list \<Rightarrow>
    HashSignalInfo list option" where
  "insert_inputs hasher [] H = Some H"
| "insert_inputs hasher ((name, start, len) # xs) H =
     (let h = hasher name
      in case free_slot (length H) H (unat h mod length H) of
           None \<Rightarrow> None
         | Some p \<Rightarrow> insert_inputs hasher xs (H[p := \<lparr>hash = h, signalid = start, signalsize = len\<rparr>]))"

definition generate_hash_map :: "(string \<Rightarrow> u64) \<Rightarrow> (string \<times> u64 \<times> u64) list \<Rightarrow> nat \<Rightarrow>
    HashSignalInfo list option" where
  "generate_hash_map hasher inputs n =
     (if length inputs \<le> n then insert_inputs hasher inputs (replicate n empty_entry) else None)"

subsection \<open>Linear probing\<close>

text \<open>
  \<open>probing H\<close>: from the home slot of an occupied entry to the entry itself every slot is
  occupied, and no two occupied entries have the same hash.
\<close>

definition occupied :: "HashSignalInfo list \<Rightarrow> nat \<Rightarrow> bool" where
  "occupied H p \<longleftrightarrow> p < length H \<and> signalid (H ! p) \<noteq> 0"

definition probing :: "HashSignalInfo list \<Rightarrow> bool" where
  "probing H \<longleftrightarrow>
     (\<forall>p. occupied H p \<longrightarrow> (\<exists>k < length H. p = (unat (hash (H ! p)) + k) mod length H \<and>
        (\<forall>j < k. occupied H ((unat (hash (H ! p)) + j) mod length H)))) \<and>
     (\<forall>p p'. occupied H p \<longrightarrow> occupied H p' \<longrightarrow> hash (H ! p) = hash (H ! p') \<longrightarrow> p = p')"

lemma occupied_empty: "\<not> occupied (replicate n empty_entry) p"
  by (auto simp: occupied_def empty_entry_def)

lemma probing_empty: "probing (replicate n empty_entry)"
  by (simp add: probing_def occupied_empty)

lemma mod_len: "p < length H \<Longrightarrow> q mod length H < length H"
  by (rule mod_less_divisor) linarith

lemma occupied_update:
  assumes "p < length H" "signalid e \<noteq> 0"
  shows "occupied (H[p := e]) q \<longleftrightarrow> q = p \<or> occupied H q"
  using assms by (auto simp: occupied_def nth_list_update)

lemma probing_insert:
  assumes P: "probing H" and p: "p = (unat (hash e) + k) mod length H" "k < length H"
    and free: "\<not> occupied H p" and path: "\<forall>j < k. occupied H ((unat (hash e) + j) mod length H)"
    and e: "signalid e \<noteq> 0" and new: "\<forall>q. occupied H q \<longrightarrow> hash (H ! q) \<noteq> hash e"
  shows "probing (H[p := e])"
proof -
  have pl: "p < length H" unfolding p(1) by (rule mod_len [OF p(2)])
  note o = occupied_update [of p H e, OF pl e]
  show ?thesis unfolding probing_def length_list_update
  proof (intro conjI allI impI)
    fix q assume q: "occupied (H[p := e]) q"
    show "\<exists>k < length H. q = (unat (hash (H[p := e] ! q)) + k) mod length H \<and>
        (\<forall>j < k. occupied (H[p := e]) ((unat (hash (H[p := e] ! q)) + j) mod length H))"
    proof (cases "q = p")
      case True
      then show ?thesis using p path o pl by (auto intro!: exI [of _ k])
    next
      case False
      then have "occupied H q" using q o by simp
      then obtain i where "i < length H" "q = (unat (hash (H ! q)) + i) mod length H"
        "\<forall>j < i. occupied H ((unat (hash (H ! q)) + j) mod length H)"
        using P unfolding probing_def by blast
      then show ?thesis using False o by (intro exI [of _ i]) simp
    qed
  next
    fix q q' assume "occupied (H[p := e]) q" "occupied (H[p := e]) q'"
      "hash (H[p := e] ! q) = hash (H[p := e] ! q')"
    then show "q = q'" using P new o pl unfolding probing_def
      by (auto simp: nth_list_update split: if_splits)
  qed
qed

lemma free_slot_spec:
  assumes "free_slot fuel H p = Some s" "p < length H"
  shows "\<exists>k < fuel. s = (p + k) mod length H \<and> \<not> occupied H s \<and> (\<forall>j < k. occupied H ((p + j) mod length H))"
  using assms
proof (induction fuel H p rule: free_slot.induct)
  case (1 H p)
  then show ?case by simp
next
  case (2 fuel H p)
  show ?case
  proof (cases "signalid (H ! p) \<noteq> 0")
    case False
    then show ?thesis using 2 by (auto simp: occupied_def intro!: exI [of _ 0])
  next
    case True
    then have "\<exists>k < fuel. s = ((p + 1) mod length H + k) mod length H \<and> \<not> occupied H s \<and>
        (\<forall>j < k. occupied H (((p + 1) mod length H + j) mod length H))"
      using 2(1) [OF _ _ mod_len [OF 2(3)]] 2(2) by simp
    then obtain k where k: "k < fuel" "s = (p + Suc k) mod length H" "\<not> occupied H s"
      "\<forall>j < k. occupied H ((p + Suc j) mod length H)" by (auto simp: mod_simps)
    moreover have "occupied H ((p + j) mod length H)" if "j < Suc k" for j
      using that k(4) True 2 by (cases j) (auto simp: occupied_def)
    ultimately show ?thesis by (intro exI [of _ "Suc k"]) auto
  qed
qed

lemma free_slot_exists:
  assumes "p < length H" "\<not> occupied H ((p + k) mod length H)" "k < fuel"
  shows "free_slot fuel H p \<noteq> None"
  using assms
proof (induction fuel H p arbitrary: k rule: free_slot.induct)
  case (1 H p)
  then show ?case by simp
next
  case (2 fuel H p)
  show ?case
  proof (cases "signalid (H ! p) \<noteq> 0")
    case True
    then obtain j where k: "k = Suc j" using 2 by (cases k) (auto simp: occupied_def)
    then show ?thesis using 2(1) [OF True, of j] True 2(2-4) mod_len [OF 2(2)] by (auto simp: mod_simps)
  qed simp
qed

text \<open>Filling the table.\<close>

definition free_slots :: "HashSignalInfo list \<Rightarrow> nat set" where
  "free_slots H = {p. p < length H \<and> \<not> occupied H p}"

lemma finite_free [simp]: "finite (free_slots H)"
  by (simp add: free_slots_def)

lemma cyclic_reach:
  assumes "p < n" "q < (n::nat)"
  shows "\<exists>k < n. (p + k) mod n = q"
proof (cases "p \<le> q")
  case True
  then show ?thesis using assms by (intro exI [of _ "q - p"]) auto
next
  case False
  then show ?thesis using assms by (intro exI [of _ "n - p + q"]) auto
qed

lemma free_slot_total:
  assumes "free_slots H \<noteq> {}" "p < length H"
  shows "\<exists>s. free_slot (length H) H p = Some s"
proof -
  obtain q where q: "q < length H" "\<not> occupied H q" using assms(1) by (auto simp: free_slots_def)
  obtain k where "k < length H" "(p + k) mod length H = q" using cyclic_reach [OF assms(2) q(1)] by blast
  then show ?thesis using free_slot_exists [OF assms(2), of k "length H"] q(2) by auto
qed

definition entry_of :: "(string \<Rightarrow> u64) \<Rightarrow> string \<times> u64 \<times> u64 \<Rightarrow> HashSignalInfo" where
  "entry_of hasher x = \<lparr>hash = hasher (fst x), signalid = fst (snd x), signalsize = snd (snd x)\<rparr>"

lemma insert_inputs_ok:
  assumes "probing H" "length inputs \<le> card (free_slots H)" "\<forall>x \<in> set inputs. fst (snd x) \<noteq> 0"
    and "distinct (map (hasher \<circ> fst) inputs)"
    and "\<forall>x \<in> set inputs. \<forall>p. occupied H p \<longrightarrow> hash (H ! p) \<noteq> hasher (fst x)"
  shows "\<exists>H'. insert_inputs hasher inputs H = Some H' \<and> length H' = length H \<and> probing H' \<and>
    (\<forall>p. occupied H p \<longrightarrow> occupied H' p \<and> H' ! p = H ! p) \<and>
    (\<forall>x \<in> set inputs. \<exists>p. occupied H' p \<and> H' ! p = entry_of hasher x) \<and>
    (\<forall>p. p < length H \<longrightarrow> H' ! p = H ! p \<or> H' ! p \<in> entry_of hasher ` set inputs)"
  using assms
proof (induction inputs arbitrary: H)
  case Nil
  then show ?case by simp
next
  case (Cons x xs)
  obtain name start len where x: "x = (name, start, len)" by (cases x) auto
  let ?h = "hasher name" and ?e = "entry_of hasher x"
  have e: "?e = \<lparr>hash = ?h, signalid = start, signalsize = len\<rparr>" by (simp add: entry_of_def x)
  have es: "hash ?e = ?h" "signalid ?e = start" by (simp_all add: e)
  have ne: "free_slots H \<noteq> {}" using Cons.prems(2) by auto
  then have n: "0 < length H" by (auto simp: free_slots_def)
  obtain s where s: "free_slot (length H) H (unat ?h mod length H) = Some s"
    using free_slot_total [OF ne mod_less_divisor [OF n]] by blast
  obtain k where k: "k < length H" "s = (unat ?h mod length H + k) mod length H" "\<not> occupied H s"
    "\<forall>j < k. occupied H ((unat ?h mod length H + j) mod length H)"
    using free_slot_spec [OF s] n by auto
  have sl: "s < length H" using k(2) n by simp
  let ?H = "H[s := ?e]"
  have P: "probing ?H"
    using k Cons.prems(1,3,5) by (intro probing_insert [where k = k]) (auto simp: es x [symmetric] mod_simps, auto simp: x)
  have o: "occupied ?H q \<longleftrightarrow> q = s \<or> occupied H q" for q
    by (rule occupied_update [OF sl]) (use Cons.prems(3) in \<open>simp add: entry_of_def x\<close>)
  have fr: "free_slots ?H = free_slots H - {s}" using o by (auto simp: free_slots_def)
  have "card (free_slots ?H) = card (free_slots H) - 1"
    unfolding fr using sl k(3) by (simp add: free_slots_def)
  then have c: "length xs \<le> card (free_slots ?H)" using Cons.prems(2) by simp
  have new: "\<forall>y \<in> set xs. \<forall>p. occupied ?H p \<longrightarrow> hash (?H ! p) \<noteq> hasher (fst y)"
  proof (intro ballI allI impI)
    fix y p assume y: "y \<in> set xs" "occupied ?H p"
    have "hasher (fst y) \<noteq> ?h" using Cons.prems(4) y(1) by (force simp: x)
    then show "hash (?H ! p) \<noteq> hasher (fst y)"
      using y o Cons.prems(5) sl by (cases "p = s") (auto simp: es)
  qed
  have "insert_inputs hasher (x # xs) H = insert_inputs hasher xs ?H"
    using s by (simp add: x entry_of_def Let_def)
  moreover obtain H' where H': "insert_inputs hasher xs ?H = Some H'" "length H' = length ?H" "probing H'"
    "\<forall>p. occupied ?H p \<longrightarrow> occupied H' p \<and> H' ! p = ?H ! p"
    "\<forall>y \<in> set xs. \<exists>p. occupied H' p \<and> H' ! p = entry_of hasher y"
    "\<forall>p. p < length ?H \<longrightarrow> H' ! p = ?H ! p \<or> H' ! p \<in> entry_of hasher ` set xs"
    using Cons.IH [OF P c _ _ new] Cons.prems(3,4) by auto
  moreover have "occupied H' s \<and> H' ! s = ?e" using H'(4) o sl by simp
  moreover have "occupied H' p \<and> H' ! p = H ! p" if "occupied H p" for p
    using H'(4) o that k(3) by (cases "p = s") auto
  moreover have "H' ! p = H ! p \<or> H' ! p \<in> entry_of hasher ` set (x # xs)" if "p < length H" for p
    using H'(6) that sl by (cases "p = s") auto
  ultimately show ?case by auto
qed

lemma generate_hash_map_ok:
  assumes "length inputs \<le> n" "\<forall>x \<in> set inputs. fst (snd x) \<noteq> 0" "distinct (map (hasher \<circ> fst) inputs)"
  shows "\<exists>H. generate_hash_map hasher inputs n = Some H \<and> length H = n \<and> probing H \<and>
    (\<forall>x \<in> set inputs. \<exists>p. occupied H p \<and> H ! p = entry_of hasher x) \<and>
    set H \<subseteq> insert empty_entry (entry_of hasher ` set inputs)"
proof -
  have "free_slots (replicate n empty_entry) = {..<n}" by (auto simp: free_slots_def occupied_empty)
  then obtain H where "insert_inputs hasher inputs (replicate n empty_entry) = Some H" "length H = n"
    "probing H" "\<forall>x \<in> set inputs. \<exists>p. occupied H p \<and> H ! p = entry_of hasher x"
    "\<forall>p. p < n \<longrightarrow> H ! p = replicate n empty_entry ! p \<or> H ! p \<in> entry_of hasher ` set inputs"
    using insert_inputs_ok [OF probing_empty, of inputs n hasher] assms by (auto simp: occupied_empty)
  then show ?thesis using assms(1) by (auto simp: generate_hash_map_def in_set_conv_nth)
qed

text \<open>Searching it.\<close>

lemma next_pos:
  assumes "length H = unat (n::u32)" "unat pos < length H"
  shows "unat ((pos + 1) mod n) = (unat pos + 1) mod length H"
proof -
  have n: "unat n < 2 ^ 32" by (rule order_less_le_trans [OF unsigned_less]) simp
  have e: "pos + 1 = of_nat (unat pos + 1)" by simp
  have "unat (pos + 1) = unat pos + 1" unfolding e unat_of_nat using assms n by simp
  then show ?thesis using assms(1) by (simp add: unat_mod)
qed

lemma pos_of_nat: "unat (pos::u32) = k \<Longrightarrow> pos = of_nat k"
  by auto

lemma hash_probe_found:
  assumes "length H = unat n" "s < length H" "i \<le> k" "1 \<le> i" "k < length H" "k - i < fuel"
    and "\<forall>j. i \<le> j \<and> j < k \<longrightarrow> occupied H ((s + j) mod length H) \<and> hash (H ! ((s + j) mod length H)) \<noteq> h"
    and "hash (H ! ((s + k) mod length H)) = h" "unat inipos = s" "unat pos = (s + i) mod length H"
  shows "hash_probe fuel H h n inipos pos = Inr (of_nat ((s + k) mod length H))"
  using assms
proof (induction fuel arbitrary: i pos)
  case 0
  then show ?case by simp
next
  case (Suc fuel)
  have pl: "unat pos < length H" unfolding Suc.prems(10) by (rule mod_len [OF Suc.prems(2)])
  have ne: "(s + i) mod length H \<noteq> s"
  proof
    assume "(s + i) mod length H = s"
    then have "(s + i) mod length H = (s + 0) mod length H" using Suc.prems(2) by simp
    then have "length H dvd i" by (simp add: mod_eq_dvd_iff_nat)
    then show False using Suc.prems(3-5) by (auto dest: dvd_imp_le)
  qed
  then have p: "pos \<noteq> inipos" using Suc.prems(9,10) by auto
  show ?case
  proof (cases "i = k")
    case True
    then have "pos = of_nat ((s + k) mod length H)" using Suc.prems(10) by (intro pos_of_nat) simp
    then show ?thesis using True p pl Suc.prems(8,10) by simp
  next
    case False
    then have c: "occupied H (unat pos)" "hash (H ! unat pos) \<noteq> h"
      using Suc.prems(3,7,10) by auto
    have "unat ((pos + 1) mod n) = (s + (i + 1)) mod length H"
      using next_pos [OF Suc.prems(1) pl] Suc.prems(10) by (simp add: mod_simps)
    then have "hash_probe fuel H h n inipos ((pos + 1) mod n) = Inr (of_nat ((s + k) mod length H))"
      using Suc.prems(1-3,5-9) False by (intro Suc.IH [of "i + 1"]) auto
    then show ?thesis using p pl c by (simp add: occupied_def)
  qed
qed

lemma hash_probe_absent:
  assumes "length H = unat n" "s < length H" "i \<le> length H" "length H - i < fuel"
    and "\<forall>e \<in> set H. hash e \<noteq> h" "unat inipos = s" "unat pos = (s + i) mod length H"
  shows "hash_probe fuel H h n inipos pos \<in> {Inl Signal_not_found, Inl Signals_not_found}"
  using assms
proof (induction fuel arbitrary: i pos)
  case 0
  then show ?case by simp
next
  case (Suc fuel)
  have pl: "unat pos < length H" unfolding Suc.prems(7) by (rule mod_len [OF Suc.prems(2)])
  then have h: "hash (H ! unat pos) \<noteq> h" using Suc.prems(5) by simp
  show ?case
  proof (cases "pos = inipos")
    case False
    then have "i \<noteq> length H" using Suc.prems(2,6,7) by (auto simp: word_unat_eq_iff)
    then have i: "i < length H" using Suc.prems(3) by simp
    have "unat ((pos + 1) mod n) = (s + (i + 1)) mod length H"
      using next_pos [OF Suc.prems(1) pl] Suc.prems(7) by (simp add: mod_simps)
    then have "hash_probe fuel H h n inipos ((pos + 1) mod n) \<in> {Inl Signal_not_found, Inl Signals_not_found}"
      using Suc.prems i by (intro Suc.IH [of "i + 1"]) auto
    then show ?thesis using False pl h by simp
  qed simp
qed

lemma home_slot:
  assumes "length H = unat (n::u32)" "0 < length H"
  shows "n \<noteq> 0" "unat (ucast (h mod ucast n) :: u32) = unat (h::u64) mod length H"
proof -
  show "n \<noteq> 0" using assms by auto
  have n: "unat n < 2 ^ 32" by (rule order_less_le_trans [OF unsigned_less]) simp
  have u: "unat (ucast n :: u64) = unat n" unfolding unsigned_ucast_eq
    using n by (simp add: take_bit_nat_eq_self)
  have "unat (h mod ucast n) = unat h mod length H" using assms(1) u by (simp add: unat_mod)
  moreover have "unat h mod length H < 2 ^ 32" using n assms mod_less_divisor [of "length H" "unat h"] by linarith
  ultimately show "unat (ucast (h mod ucast n) :: u32) = unat h mod length H"
    unfolding unsigned_ucast_eq by (simp add: take_bit_nat_eq_self)
qed

lemma lookup_found:
  assumes "length H = unat n" "probing H" "occupied H p" "hash (H ! p) = h"
  shows "getInputSignalHashPosition H n h = Inr (of_nat p)"
proof -
  have pl: "p < length H" using assms(3) by (simp add: occupied_def)
  then have l: "0 < length H" by linarith
  note hm = home_slot(1) [OF assms(1) l] home_slot(2) [OF assms(1) l, of h]
  let ?s = "unat h mod length H"
  obtain k where k: "k < length H" "p = (unat h + k) mod length H"
    "\<forall>j < k. occupied H ((unat h + j) mod length H)"
    using assms(2-4) unfolding probing_def by blast
  have sl: "?s < length H" using l by simp
  have pk: "p = (?s + k) mod length H" using k(2) by (simp add: mod_simps)
  have path: "occupied H ((?s + j) mod length H) \<and> hash (H ! ((?s + j) mod length H)) \<noteq> h" if "j < k" for j
  proof -
    have o: "occupied H ((?s + j) mod length H)" using k(3) that by (simp add: mod_simps)
    moreover have "(?s + j) mod length H \<noteq> p"
    proof
      assume "(?s + j) mod length H = p"
      then have "(?s + k) mod length H = (?s + j) mod length H" using pk by simp
      then have "length H dvd k - j" using that by (simp add: mod_eq_dvd_iff_nat)
      then show False using that k(1) by (auto dest: dvd_imp_le)
    qed
    ultimately show ?thesis using assms(2-4) unfolding probing_def by blast
  qed
  show ?thesis
  proof (cases k)
    case 0
    then have ps: "p = ?s" using pk sl by simp
    then have "ucast (h mod ucast n) = (of_nat p :: u32)" using hm(2) by (intro pos_of_nat) simp
    then show ?thesis using hm assms(4) ps pl by (simp add: getInputSignalHashPosition_def Let_def)
  next
    case (Suc k')
    let ?p0 = "ucast (h mod ucast n) :: u32"
    have p1: "unat ((?p0 + 1) mod n) = (?s + 1) mod length H"
      using next_pos [OF assms(1), of ?p0] hm(2) sl by simp
    have "hash_probe (unat n) H h n ?p0 ((?p0 + 1) mod n) = Inr (of_nat ((?s + k) mod length H))"
      by (rule hash_probe_found [where i = 1, OF assms(1) sl _ _ k(1) _ _ _ hm(2) p1])
        (use path pk assms(1,4) Suc k(1) in auto)
    moreover have "hash (H ! ?s) \<noteq> h" using path [of 0] Suc sl by simp
    ultimately show ?thesis using hm sl pk by (simp add: getInputSignalHashPosition_def Let_def)
  qed
qed

lemma lookup_absent:
  assumes "length H = unat n" "0 < length H" "\<forall>e \<in> set H. hash e \<noteq> h"
  shows "getInputSignalHashPosition H n h \<in> {Inl Signal_not_found, Inl Signals_not_found}"
proof -
  note hm = home_slot(1) [OF assms(1,2)] home_slot(2) [OF assms(1,2), of h]
  let ?s = "unat h mod length H" and ?p0 = "ucast (h mod ucast n) :: u32"
  have sl: "?s < length H" using assms(2) by simp
  have p1: "unat ((?p0 + 1) mod n) = (?s + 1) mod length H"
    using next_pos [OF assms(1), of ?p0] hm(2) sl by simp
  have "hash_probe (unat n) H h n ?p0 ((?p0 + 1) mod n) \<in> {Inl Signal_not_found, Inl Signals_not_found}"
    by (rule hash_probe_absent [where i = 1, OF assms(1) sl _ _ assms(3) hm(2) p1])
      (use assms(1,2) in auto)
  moreover have "hash (H ! ?s) \<noteq> h" using assms(3) sl by simp
  ultimately show ?thesis using hm sl by (simp add: getInputSignalHashPosition_def Let_def)
qed

subsection \<open>The calculator\<close>

record Circom_CalcWit =
  inputSignalAssigned :: "bool list"
  inputSignalAssignedCounter :: u32
  signalValues :: "FrElement list"
  componentMemory :: "Circom_Component list"

text \<open>
  The constructor. The arrays are allocated uninitialised: \<open>mem0\<close> is what the signal array
  holds before \<open>Fr_str2element\<close> writes its entry 0.
\<close>

definition new_CalcWit :: "mpz_api \<Rightarrow> fr_params \<Rightarrow> fr_globals \<Rightarrow> circuit_sizes \<Rightarrow> fr_mem \<Rightarrow>
    Circom_Component list \<Rightarrow> Circom_CalcWit option" where
  "new_CalcWit Z P S sz mem0 comps =
     (case Fr_str2element Z P S (Ext 0) ''1'' 10 mem0 of
        None \<Rightarrow> None
      | Some m \<Rightarrow> Some
          \<lparr>inputSignalAssigned = replicate (unat (main_input_signal_no sz)) False,
           inputSignalAssignedCounter = main_input_signal_no sz,
           signalValues = map (\<lambda>i. m (Ext i)) [0..<unat (total_signal_no sz)],
           componentMemory = comps\<rparr>)"

definition tryRunCircuit :: "(Circom_CalcWit \<Rightarrow> Circom_CalcWit) \<Rightarrow> Circom_CalcWit \<Rightarrow> Circom_CalcWit" where
  "tryRunCircuit run ctx = (if inputSignalAssignedCounter ctx = 0 then run ctx else ctx)"

definition setInputSignal :: "(Circom_CalcWit \<Rightarrow> Circom_CalcWit) \<Rightarrow> circuit_sizes \<Rightarrow> HashSignalInfo list \<Rightarrow>
    u64 \<Rightarrow> u32 \<Rightarrow> FrElement \<Rightarrow> Circom_CalcWit \<Rightarrow> cw_error + Circom_CalcWit" where
  "setInputSignal run sz H h i val ctx =
     (if inputSignalAssignedCounter ctx = 0 then Inl No_more_signals
      else case getInputSignalHashPosition H (size_of_input_hashmap sz) h of
        Inl e \<Rightarrow> Inl e
      | Inr pos \<Rightarrow>
          if ucast i \<ge> signalsize (H ! unat pos) then Inl Access_exceeds_size
          else let si = ucast (signalid (H ! unat pos) + ucast i) :: u32;
                   idx = unat (si - main_input_signal_start sz)
               in if idx \<ge> length (inputSignalAssigned ctx) then Inl Out_of_bounds
                  else if inputSignalAssigned ctx ! idx then Inl (Signal_assigned_twice si)
                  else if unat si \<ge> length (signalValues ctx) then Inl Out_of_bounds
                  else let ctx = ctx\<lparr>signalValues := (signalValues ctx)[unat si := val]\<rparr>;
                           ctx = ctx\<lparr>inputSignalAssigned := (inputSignalAssigned ctx)[idx := True]\<rparr>;
                           ctx = ctx\<lparr>inputSignalAssignedCounter := inputSignalAssignedCounter ctx - 1\<rparr>
                       in Inr (tryRunCircuit run ctx))"

definition getInputSignalSize :: "circuit_sizes \<Rightarrow> HashSignalInfo list \<Rightarrow> u64 \<Rightarrow> cw_error + u64" where
  "getInputSignalSize sz H h =
     (case getInputSignalHashPosition H (size_of_input_hashmap sz) h of
        Inl e \<Rightarrow> Inl e
      | Inr pos \<Rightarrow> Inr (signalsize (H ! unat pos)))"

definition getRemaingInputsToBeSet :: "Circom_CalcWit \<Rightarrow> u32" where
  "getRemaingInputsToBeSet ctx = inputSignalAssignedCounter ctx"

definition getWitness :: "Circom_Circuit \<Rightarrow> Circom_CalcWit \<Rightarrow> u32 \<Rightarrow> FrElement" where
  "getWitness circuit ctx idx = signalValues ctx ! unat (witness2SignalList circuit ! unat idx)"

text \<open>
  The names from the main component down to component \<open>id_cmp\<close>. The recursion follows
  \<open>idFather\<close>; \<open>fuel\<close> bounds its depth.
\<close>

fun getTrace :: "nat \<Rightarrow> Circom_Component list \<Rightarrow> u64 \<Rightarrow> string option" where
  "getTrace 0 comps id_cmp = None"
| "getTrace (Suc fuel) comps id_cmp =
     (if id_cmp = 0 then Some (componentName (comps ! unat id_cmp))
      else let id_father = idFather (comps ! unat id_cmp);
               my_name = componentName (comps ! unat id_cmp)
           in case getTrace fuel comps id_father of
                None \<Rightarrow> None
              | Some s \<Rightarrow> Some (s @ ''.'' @ my_name))"

text \<open>\<open>std::hex\<close> with a width of 16 and the fill character 0.\<close>

fun hex_digits :: "nat \<Rightarrow> nat \<Rightarrow> string" where
  "hex_digits 0 i = []"
| "hex_digits (Suc k) i =
     (if i = 0 then [] else hex_digits k (i div 16) @ [''0123456789abcdef'' ! (i mod 16)])"

definition int_to_hex :: "u64 \<Rightarrow> string" where
  "int_to_hex i =
     (let s = (if i = 0 then ''0'' else hex_digits 16 (unat i))
      in ''0x'' @ replicate (16 - length s) (CHR ''0'') @ s)"

text \<open>The loop of \<open>generate_position_array\<close>, from the last dimension to the first.\<close>

fun position_loop :: "u32 list \<Rightarrow> u32 \<Rightarrow> string \<Rightarrow> string" where
  "position_loop [] index positions = positions"
| "position_loop (d # ds) index positions =
     (let last_pos = index mod d;
          index = index div d;
          new_pos = ''['' @ dec_str (unat last_pos) @ '']''
      in position_loop ds index (new_pos @ positions))"

definition generate_position_array :: "u32 list \<Rightarrow> u32 \<Rightarrow> string option" where
  "generate_position_array dimensions index =
     (if 0 \<in> set dimensions then None else Some (position_loop (rev dimensions) index []))"

subsection \<open>Setting the inputs\<close>

text \<open>
  The counter is the number of inputs without a value. \<open>input_slot\<close> says which signal an input
  of \<open>setInputSignal\<close> is, and \<open>mark_input\<close> is the part of the function that stores it.
\<close>

definition cw_inv :: "circuit_sizes \<Rightarrow> Circom_CalcWit \<Rightarrow> bool" where
  "cw_inv sz ctx \<longleftrightarrow>
     length (inputSignalAssigned ctx) = unat (main_input_signal_no sz) \<and>
     unat (inputSignalAssignedCounter ctx) = count_list (inputSignalAssigned ctx) False"

definition input_slot :: "circuit_sizes \<Rightarrow> HashSignalInfo list \<Rightarrow> u64 \<Rightarrow> u32 \<Rightarrow> u32 \<Rightarrow> bool" where
  "input_slot sz H h i si \<longleftrightarrow>
     (\<exists>pos. getInputSignalHashPosition H (size_of_input_hashmap sz) h = Inr pos \<and>
        ucast i < signalsize (H ! unat pos) \<and> si = ucast (signalid (H ! unat pos) + ucast i))"

definition flag_index :: "circuit_sizes \<Rightarrow> u32 \<Rightarrow> nat" where
  "flag_index sz si = unat (si - main_input_signal_start sz)"

definition mark_input :: "circuit_sizes \<Rightarrow> u32 \<Rightarrow> FrElement \<Rightarrow> Circom_CalcWit \<Rightarrow> Circom_CalcWit" where
  "mark_input sz si v ctx =
     ctx\<lparr>signalValues := (signalValues ctx)[unat si := v],
         inputSignalAssigned := (inputSignalAssigned ctx)[flag_index sz si := True],
         inputSignalAssignedCounter := inputSignalAssignedCounter ctx - 1\<rparr>"

fun set_inputs :: "(Circom_CalcWit \<Rightarrow> Circom_CalcWit) \<Rightarrow> circuit_sizes \<Rightarrow> HashSignalInfo list \<Rightarrow>
    (u64 \<times> u32 \<times> FrElement) list \<Rightarrow> Circom_CalcWit \<Rightarrow> cw_error + Circom_CalcWit" where
  "set_inputs run sz H [] ctx = Inr ctx"
| "set_inputs run sz H ((h, i, v) # xs) ctx =
     (case setInputSignal run sz H h i v ctx of
        Inl e \<Rightarrow> Inl e
      | Inr ctx \<Rightarrow> set_inputs run sz H xs ctx)"

definition settable :: "circuit_sizes \<Rightarrow> Circom_CalcWit \<Rightarrow> u32 \<Rightarrow> bool" where
  "settable sz ctx si \<longleftrightarrow>
     flag_index sz si < length (inputSignalAssigned ctx) \<and> \<not> inputSignalAssigned ctx ! flag_index sz si \<and>
     unat si < length (signalValues ctx)"

lemma flag_index_inject: "flag_index sz si = flag_index sz si' \<longleftrightarrow> si = si'"
  by (simp add: flag_index_def flip: word_unat_eq_iff)

lemma count_list_update:
  "k < length xs \<Longrightarrow> \<not> xs ! k \<Longrightarrow> count_list (xs[k := True]) False = count_list xs False - 1 \<and>
    0 < count_list xs False"
proof (induction xs arbitrary: k)
  case (Cons x xs)
  then show ?case by (cases k) fastforce+
qed simp

lemma setInputSignal_ok:
  assumes "input_slot sz H h i si" "settable sz ctx si" "inputSignalAssignedCounter ctx \<noteq> 0"
  shows "setInputSignal run sz H h i v ctx = Inr (tryRunCircuit run (mark_input sz si v ctx))"
  using assms unfolding input_slot_def settable_def flag_index_def
  by (auto simp: setInputSignal_def Let_def mark_input_def flag_index_def not_le)

lemma mark_inv:
  assumes "cw_inv sz ctx" "settable sz ctx si"
  shows "cw_inv sz (mark_input sz si v ctx)" "inputSignalAssignedCounter ctx \<noteq> 0"
    "unat (inputSignalAssignedCounter (mark_input sz si v ctx)) = unat (inputSignalAssignedCounter ctx) - 1"
proof -
  note c = count_list_update [of "flag_index sz si" "inputSignalAssigned ctx"]
  have p: "0 < count_list (inputSignalAssigned ctx) False" using c assms(2) by (simp add: settable_def)
  then show n: "inputSignalAssignedCounter ctx \<noteq> 0" using assms(1) by (auto simp: cw_inv_def)
  then show m: "unat (inputSignalAssignedCounter (mark_input sz si v ctx)) = unat (inputSignalAssignedCounter ctx) - 1"
    by (simp add: mark_input_def unat_minus_one)
  show "cw_inv sz (mark_input sz si v ctx)"
    using assms c m by (simp add: cw_inv_def settable_def) (simp add: mark_input_def)
qed

lemma settable_mark: "settable sz ctx si' \<Longrightarrow> si \<noteq> si' \<Longrightarrow> settable sz (mark_input sz si v ctx) si'"
  by (simp add: settable_def mark_input_def flag_index_inject)

lemma set_inputs_run:
  assumes "cw_inv sz ctx" "list_all2 (\<lambda>(h, i, v) si. input_slot sz H h i si) xs slots" "distinct slots"
    and "\<forall>si \<in> set slots. settable sz ctx si" "xs \<noteq> []"
  shows "set_inputs run sz H xs ctx =
    (let ctx' = fold (\<lambda>(si, v). mark_input sz si v) (zip slots (map (snd \<circ> snd) xs)) ctx
     in Inr (if length xs = unat (inputSignalAssignedCounter ctx) then run ctx' else ctx')) \<or>
    unat (inputSignalAssignedCounter ctx) < length xs"
  using assms
proof (induction xs arbitrary: ctx slots)
  case Nil
  then show ?case by simp
next
  case (Cons x xs)
  obtain h i v where x: "x = (h, i, v)" by (cases x) auto
  obtain si sl where s: "slots = si # sl" "input_slot sz H h i si"
    "list_all2 (\<lambda>(h, i, v) si. input_slot sz H h i si) xs sl"
    using Cons.prems(2) by (auto simp: x list_all2_Cons1)
  have st: "settable sz ctx si" using Cons.prems(4) s(1) by simp
  note m = mark_inv [OF Cons.prems(1) st]
  let ?c = "mark_input sz si v ctx"
  have step: "setInputSignal run sz H h i v ctx = Inr (tryRunCircuit run ?c)"
    by (rule setInputSignal_ok [OF s(2) st m(2)])
  have cp: "0 < unat (inputSignalAssignedCounter ctx)" using m(2) by (simp add: unat_gt_0)
  show ?case
  proof (cases "unat (inputSignalAssignedCounter ctx) = 1")
    case True
    then have "inputSignalAssignedCounter ?c = 0" using m(3) by (simp add: unat_eq_zero)
    then show ?thesis using True step s(1) by (cases xs) (auto simp: x tryRunCircuit_def)
  next
    case False
    have nz: "inputSignalAssignedCounter ?c \<noteq> 0"
    proof
      assume "inputSignalAssignedCounter ?c = 0"
      then have "unat (inputSignalAssignedCounter ctx) - 1 = 0" using m(3) [of v] by simp
      then show False using False cp by linarith
    qed
    then have t: "tryRunCircuit run ?c = ?c" by (simp add: tryRunCircuit_def)
    show ?thesis
    proof (cases "xs = []")
      case True
      then show ?thesis using False step t s by (simp add: x Let_def)
    next
      case ne: False
      have st': "\<forall>si' \<in> set sl. settable sz ?c si'"
        using Cons.prems(3,4) s(1) by (auto intro!: settable_mark)
      have d: "distinct sl" using Cons.prems(3) s(1) by simp
      have eq: "set_inputs run sz H (x # xs) ctx = set_inputs run sz H xs ?c"
        using step t by (simp add: x)
      have len: "length (x # xs) = unat (inputSignalAssignedCounter ctx) \<longleftrightarrow>
          length xs = unat (inputSignalAssignedCounter ?c)"
        "unat (inputSignalAssignedCounter ctx) < length (x # xs) \<longleftrightarrow>
          unat (inputSignalAssignedCounter ?c) < length xs"
        unfolding m(3) using cp by auto
      have f: "fold (\<lambda>(si, v). mark_input sz si v) (zip slots (map (snd \<circ> snd) (x # xs))) ctx =
          fold (\<lambda>(si, v). mark_input sz si v) (zip sl (map (snd \<circ> snd) xs)) ?c"
        by (simp add: s(1) x)
      show ?thesis unfolding eq len f by (rule Cons.IH [OF m(1) s(3) d st' ne])
    qed
  qed
qed

text \<open>What the stored inputs look like afterwards.\<close>

lemma fold_mark:
  assumes "cw_inv sz ctx" "distinct slots" "\<forall>si \<in> set slots. settable sz ctx si"
    and "length vs = length slots" "ctx' = fold (\<lambda>(si, v). mark_input sz si v) (zip slots vs) ctx"
  shows "cw_inv sz ctx' \<and>
    unat (inputSignalAssignedCounter ctx') + length slots = unat (inputSignalAssignedCounter ctx) \<and>
    length (signalValues ctx') = length (signalValues ctx) \<and> componentMemory ctx' = componentMemory ctx \<and>
    (\<forall>k < length slots. signalValues ctx' ! unat (slots ! k) = vs ! k) \<and>
    (\<forall>i. (\<forall>si \<in> set slots. i \<noteq> unat si) \<longrightarrow> signalValues ctx' ! i = signalValues ctx ! i)"
  using assms
proof (induction slots arbitrary: ctx vs)
  case Nil
  then show ?case by simp
next
  case (Cons si slots)
  obtain v ws where vs: "vs = v # ws" using Cons.prems(4) by (cases vs) auto
  let ?c = "mark_input sz si v ctx"
  have st: "settable sz ctx si" using Cons.prems(3) by simp
  note m = mark_inv(1) [OF Cons.prems(1) st, where v = v] mark_inv(2) [OF Cons.prems(1) st]
    mark_inv(3) [OF Cons.prems(1) st, where v = v]
  have cp: "0 < unat (inputSignalAssignedCounter ctx)" using m(2) by (simp add: unat_gt_0)
  have st': "\<forall>si' \<in> set slots. settable sz ?c si'"
    using Cons.prems(2,3) by (auto intro!: settable_mark)
  have ih: "cw_inv sz ctx'" 
    "unat (inputSignalAssignedCounter ctx') + length slots = unat (inputSignalAssignedCounter ?c)"
    "length (signalValues ctx') = length (signalValues ?c)" "componentMemory ctx' = componentMemory ?c"
    "\<forall>k < length slots. signalValues ctx' ! unat (slots ! k) = ws ! k"
    "\<forall>i. (\<forall>si \<in> set slots. i \<noteq> unat si) \<longrightarrow> signalValues ctx' ! i = signalValues ?c ! i"
    using Cons.IH [OF m(1) _ st', of ws] Cons.prems(2,4,5) by (simp_all add: vs)
  have u: "unat si \<noteq> unat si'" if "si' \<in> set slots" for si'
    using that Cons.prems(2) word_unat_eq_iff [of si si'] by auto
  have sv: "signalValues ?c ! unat si = v" "\<And>i. i \<noteq> unat si \<Longrightarrow> signalValues ?c ! i = signalValues ctx ! i"
    "length (signalValues ?c) = length (signalValues ctx)" "componentMemory ?c = componentMemory ctx"
    using st by (simp_all add: mark_input_def settable_def)
  have "signalValues ctx' ! unat ((si # slots) ! k) = vs ! k" if "k < length (si # slots)" for k
  proof (cases k)
    case 0
    then show ?thesis using ih(6) u sv(1) by (simp add: vs)
  next
    case (Suc j)
    then show ?thesis using ih(5) that by (simp add: vs)
  qed
  then show ?case using ih sv m(3) cp by auto
qed

lemma all_flags_set:
  assumes "cw_inv sz ctx" "inputSignalAssignedCounter ctx = 0"
  shows "inputSignalAssigned ctx = replicate (unat (main_input_signal_no sz)) True"
proof -
  have "count_list (inputSignalAssigned ctx) False = 0" using assms by (simp add: cw_inv_def)
  then have "False \<notin> set (inputSignalAssigned ctx)" by (simp add: count_list_0_iff)
  then have "\<forall>b \<in> set (inputSignalAssigned ctx). b" by (metis (full_types))
  then show ?thesis using assms(1) by (intro replicate_eqI) (auto simp: cw_inv_def)
qed

lemma count_replicate_False: "count_list (replicate n False) False = n"
  by (induction n) auto

lemma new_CalcWit_inv:
  assumes "new_CalcWit Z P S sz mem0 comps = Some ctx"
  shows "cw_inv sz ctx" "inputSignalAssigned ctx = replicate (unat (main_input_signal_no sz)) False"
    "length (signalValues ctx) = unat (total_signal_no sz)"
    "inputSignalAssignedCounter ctx = main_input_signal_no sz"
  using assms by (auto simp: new_CalcWit_def cw_inv_def count_replicate_False split: option.splits)

lemma setInputSignal_cases:
  assumes "setInputSignal run sz H h i v ctx = Inr ctx'"
  shows "\<exists>si. input_slot sz H h i si \<and> settable sz ctx si \<and> inputSignalAssignedCounter ctx \<noteq> 0 \<and>
    ctx' = tryRunCircuit run (mark_input sz si v ctx)"
proof -
  obtain pos where pos: "getInputSignalHashPosition H (size_of_input_hashmap sz) h = Inr pos"
    "\<not> ucast i \<ge> signalsize (H ! unat pos)" "inputSignalAssignedCounter ctx \<noteq> 0"
    using assms by (auto simp: setInputSignal_def Let_def split: if_splits sum.splits)
  let ?si = "ucast (signalid (H ! unat pos) + ucast i) :: u32"
  have s: "input_slot sz H h i ?si" using pos by (auto simp: input_slot_def)
  have t: "settable sz ctx ?si"
    using assms pos by (auto simp: setInputSignal_def settable_def flag_index_def Let_def split: if_splits)
  have "ctx' = tryRunCircuit run (mark_input sz ?si v ctx)"
    using setInputSignal_ok [OF s t pos(3), where run = run and v = v] assms by simp
  then show ?thesis using s t pos(3) by blast
qed

subsection \<open>Printing positions, traces and hashes\<close>

definition row_major :: "nat list \<Rightarrow> nat list \<Rightarrow> nat" where
  "row_major dims idxs = foldl (\<lambda>n (d, i). n * d + i) 0 (zip dims idxs)"

definition brackets :: "nat list \<Rightarrow> string" where
  "brackets idxs = concat (map (\<lambda>i. ''['' @ dec_str i @ '']'') idxs)"

lemma brackets_simps [simp]:
  "brackets [] = []" "brackets (xs @ [i]) = brackets xs @ ''['' @ dec_str i @ '']''"
  by (simp_all add: brackets_def)

lemma row_major_snoc:
  "length dims = length idxs \<Longrightarrow> row_major (dims @ [d]) (idxs @ [i]) = row_major dims idxs * d + i"
  by (simp add: row_major_def)

lemma position_loop_spec:
  assumes "list_all2 (\<lambda>d i. i < unat d) dims idxs" "unat index = row_major (map unat dims) idxs"
  shows "position_loop (rev dims) index ps = brackets idxs @ ps"
  using assms
proof (induction dims arbitrary: idxs index ps rule: rev_induct)
  case Nil
  then show ?case by simp
next
  case (snoc d dims)
  obtain js i where i: "idxs = js @ [i]" "i < unat d" "list_all2 (\<lambda>d i. i < unat d) dims js"
    using snoc.prems(1) by (auto simp: list_all2_append1 list_all2_Cons1)
  have l: "length (map unat dims) = length js" using i(3) by (simp add: list_all2_lengthD)
  have v: "unat index = row_major (map unat dims) js * unat d + i"
    using snoc.prems(2) row_major_snoc [OF l] by (simp add: i(1))
  have q: "unat (index div d) = row_major (map unat dims) js" using i(2) by (simp add: unat_div v)
  have r: "unat (index mod d) = i" using i(2) by (simp add: unat_mod v)
  show ?case using snoc.IH [OF i(3) q] r by (simp add: Let_def i(1))
qed

text \<open>The path of components from the main one, in which each is the father of the next.\<close>

definition component_path :: "Circom_Component list \<Rightarrow> u64 list \<Rightarrow> bool" where
  "component_path comps path \<longleftrightarrow> path \<noteq> [] \<and> hd path = 0 \<and> 0 \<notin> set (tl path) \<and>
     (\<forall>k. Suc k < length path \<longrightarrow> path ! k = idFather (comps ! unat (path ! Suc k)))"

definition dotted :: "Circom_Component list \<Rightarrow> u64 list \<Rightarrow> string" where
  "dotted comps path = componentName (comps ! unat (hd path)) @
     concat (map (\<lambda>i. ''.'' @ componentName (comps ! unat i)) (tl path))"

lemma component_path_snoc:
  assumes "component_path comps path" "idFather (comps ! unat i) = last path" "i \<noteq> 0"
  shows "component_path comps (path @ [i])" "dotted comps (path @ [i]) = dotted comps path @ ''.'' @ componentName (comps ! unat i)"
proof -
  have n: "path \<noteq> []" using assms(1) by (simp add: component_path_def)
  then have "path ! k = last path" if "Suc k = length path" for k
    using that by (simp add: last_conv_nth flip: that)
  then show "component_path comps (path @ [i])"
    using assms n by (auto simp: component_path_def nth_append less_Suc_eq)
  show "dotted comps (path @ [i]) = dotted comps path @ ''.'' @ componentName (comps ! unat i)"
    using n by (simp add: dotted_def)
qed

lemma getTrace_path:
  assumes "\<forall>i. i \<noteq> 0 \<longrightarrow> i \<le> id_cmp \<longrightarrow> idFather (comps ! unat i) < i" "unat id_cmp < fuel"
  shows "\<exists>path. component_path comps path \<and> last path = id_cmp \<and>
    getTrace fuel comps id_cmp = Some (dotted comps path)"
  using assms
proof (induction fuel comps id_cmp rule: getTrace.induct)
  case (1 comps id_cmp)
  then show ?case by simp
next
  case (2 fuel comps i)
  show ?case
  proof (cases "i = 0")
    case True
    then show ?thesis by (intro exI [of _ "[0]"]) (simp add: component_path_def dotted_def)
  next
    case False
    let ?f = "idFather (comps ! unat i)"
    have lt: "?f < i" using 2(2) False by simp
    then have "unat ?f < fuel" using 2(3) by (simp add: word_less_nat_alt)
    moreover have "\<forall>j. j \<noteq> 0 \<longrightarrow> j \<le> ?f \<longrightarrow> idFather (comps ! unat j) < j" using 2(2) lt by force
    ultimately obtain path where p: "component_path comps path" "last path = ?f"
      "getTrace fuel comps ?f = Some (dotted comps path)" using 2(1) [OF False refl refl] by blast
    then show ?thesis using component_path_snoc [OF p(1) _ False] False
      by (intro exI [of _ "path @ [i]"]) (simp add: Let_def)
  qed
qed

subsection \<open>Properties\<close>

text \<open>A small circuit with one input of two elements, for the concrete instances.\<close>

definition demo_sizes :: circuit_sizes where
  "demo_sizes = \<lparr>main_input_signal_start = 2, main_input_signal_no = 2, total_signal_no = 5,
     number_of_components = 1, size_of_input_hashmap = 1, size_of_witness = 3, size_of_constants = 0,
     size_of_io_map = 0, size_of_bus_field_map = 0\<rparr>"

definition demo_table :: "HashSignalInfo list" where
  "demo_table = [\<lparr>hash = 77, signalid = 2, signalsize = 2\<rparr>]"

lemma demo_slots:
  "input_slot demo_sizes demo_table 77 0 2" "input_slot demo_sizes demo_table 77 1 3"
  by (simp_all add: input_slot_def demo_sizes_def demo_table_def getInputSignalHashPosition_def Let_def)

lemma demo_new: "\<exists>ctx. new_CalcWit mpz_ref bn128_params bn128_globals demo_sizes bn_mem [] = Some ctx"
proof -
  have "is_decimal ''1''" by (simp add: is_decimal_def is_digit_def)
  from bn128_gmp.str2element_rep [where m = bn_mem and pE = "Ext 0", OF this bn_mem_reps(4)]
  obtain m' where "Fr_str2element mpz_ref bn128_params bn128_globals (Ext 0) ''1'' 10 bn_mem = Some m'"
    by blast
  then show ?thesis by (simp add: new_CalcWit_def)
qed

text \<open>
  Property C23. The search of the C++ side agrees with the table that the compiler fills: when
  the table has room, the signals of the inputs are not 0 and the hashes of their names differ,
  the compiler's loop ends with a table in which every input is found with its own signal and
  size, and a hash of no input is reported as missing (the loop never runs past one round).
\<close>

theorem input_hash_map_lookup:
  assumes "length inputs \<le> unat n" "0 < n"
    and "\<forall>(name, start, len) \<in> set inputs. start \<noteq> 0" "distinct (map (hasher \<circ> fst) inputs)"
  shows "\<exists>H. generate_hash_map hasher inputs (unat n) = Some H \<and> length H = unat n \<and>
    (\<forall>(name, start, len) \<in> set inputs. \<exists>pos.
       getInputSignalHashPosition H n (hasher name) = Inr pos \<and>
       H ! unat pos = \<lparr>hash = hasher name, signalid = start, signalsize = len\<rparr>) \<and>
    (\<forall>h. h \<noteq> 0 \<longrightarrow> h \<notin> hasher ` fst ` set inputs \<longrightarrow>
       getInputSignalHashPosition H n h \<in> {Inl Signal_not_found, Inl Signals_not_found})"
proof -
  have s: "\<forall>x \<in> set inputs. fst (snd x) \<noteq> 0" using assms(3) by auto
  obtain H where H: "generate_hash_map hasher inputs (unat n) = Some H" "length H = unat n" "probing H"
    "\<forall>x \<in> set inputs. \<exists>p. occupied H p \<and> H ! p = entry_of hasher x"
    "set H \<subseteq> insert empty_entry (entry_of hasher ` set inputs)"
    using generate_hash_map_ok [OF assms(1) s assms(4)] by blast
  have r2: "\<exists>pos. getInputSignalHashPosition H n (hasher name) = Inr pos \<and>
      H ! unat pos = \<lparr>hash = hasher name, signalid = start, signalsize = len\<rparr>"
    if x: "(name, start, len) \<in> set inputs" for name start len
  proof -
    obtain p where p: "occupied H p" "H ! p = entry_of hasher (name, start, len)"
      using bspec [OF H(4) x] by blast
    have "p < unat n" using p(1) unfolding occupied_def H(2) by (rule conjunct1)
    then have "p < 2 ^ 32" by (rule less_trans) (use unsigned_less [of n] in simp)
    then have "unat (of_nat p :: u32) = p" by (simp add: unat_of_nat)
    then show ?thesis using lookup_found [OF H(2,3) p(1) refl] p(2) by (simp add: entry_of_def)
  qed
  have ab: "\<forall>e \<in> set H. hash e \<noteq> h" if "h \<noteq> 0" "h \<notin> hasher ` fst ` set inputs" for h
  proof
    fix e assume "e \<in> set H"
    then consider "e = empty_entry" | x where "x \<in> set inputs" "e = entry_of hasher x" using H(5) by blast
    then show "hash e \<noteq> h" using that by cases (auto simp: empty_entry_def entry_of_def)
  qed
  have z: "0 < length H" using assms(2) H(2) by (simp add: word_greater_zero_iff unat_gt_0)
  have r3: "getInputSignalHashPosition H n h \<in> {Inl Signal_not_found, Inl Signals_not_found}"
    if "h \<noteq> 0" "h \<notin> hasher ` fst ` set inputs" for h
    by (rule lookup_absent [OF H(2) z ab [OF that]])
  show ?thesis using H(1,2) r2 r3 by (intro exI [of _ H] conjI allI impI ballI) (auto simp del: insert_iff)
qed

theorem input_hash_map_lookup_witness:
  "\<exists>H. generate_hash_map fnv1a [(''a'', 1, 1), (''in'', 2, 4)] 4 = Some H \<and>
    (\<exists>pos. getInputSignalHashPosition H 4 (fnv1a ''in'') = Inr pos \<and> signalsize (H ! unat pos) = 4)"
proof -
  have d: "distinct (map (fnv1a \<circ> fst) [(''a'', 1::u64, 1::u64), (''in'', 2, 4)])"
    by (simp add: fnv1a_def char_u64_def)
  have l: "length [(''a'', 1::u64, 1::u64), (''in'', 2, 4)] \<le> unat (4::u32)" by simp
  have p: "\<forall>(name, start, len) \<in> set [(''a'', 1::u64, 1::u64), (''in'', 2, 4)]. start \<noteq> 0" by simp
  obtain H where "generate_hash_map fnv1a [(''a'', 1, 1), (''in'', 2, 4)] (unat (4::u32)) = Some H"
    "\<exists>pos. getInputSignalHashPosition H 4 (fnv1a ''in'') = Inr pos \<and>
       H ! unat pos = \<lparr>hash = fnv1a ''in'', signalid = 2, signalsize = 4\<rparr>"
    using input_hash_map_lookup [OF l _ p d] by simp blast
  then show ?thesis by auto
qed

lemma new_inputs_run:
  assumes "new_CalcWit Z P S sz mem0 comps = Some ctx"
    and "list_all2 (\<lambda>(h, i, v) si. input_slot sz H h i si) xs slots" "distinct slots" "xs \<noteq> []"
    and "\<forall>si \<in> set slots. flag_index sz si < unat (main_input_signal_no sz) \<and> unat si < unat (total_signal_no sz)"
    and "length xs \<le> unat (main_input_signal_no sz)"
  shows "\<exists>ctx'. set_inputs run sz H xs ctx =
       Inr (if length xs = unat (main_input_signal_no sz) then run ctx' else ctx') \<and>
     unat (inputSignalAssignedCounter ctx') = unat (main_input_signal_no sz) - length xs \<and>
     (length xs = unat (main_input_signal_no sz) \<longrightarrow>
        inputSignalAssigned ctx' = replicate (unat (main_input_signal_no sz)) True) \<and>
     (\<forall>k < length xs. signalValues ctx' ! unat (slots ! k) = snd (snd (xs ! k))) \<and>
     (\<forall>i. (\<forall>si \<in> set slots. i \<noteq> unat si) \<longrightarrow> signalValues ctx' ! i = signalValues ctx ! i) \<and>
     length (signalValues ctx') = unat (total_signal_no sz)"
proof -
  note n = new_CalcWit_inv [OF assms(1)]
  let ?vs = "map (snd \<circ> snd) xs"
  let ?c = "fold (\<lambda>(si, v). mark_input sz si v) (zip slots ?vs) ctx"
  have st: "\<forall>si \<in> set slots. settable sz ctx si" using assms(5) n by (simp add: settable_def)
  have l: "length ?vs = length slots" using assms(2) by (simp add: list_all2_lengthD)
  obtain c where c: "c = ?c" by blast
  have r1: "set_inputs run sz H xs ctx =
      Inr (if length xs = unat (main_input_signal_no sz) then run c else c)"
    using set_inputs_run [OF n(1) assms(2,3) st assms(4), of run] assms(6) n(4) c by (simp add: Let_def)
  note f = fold_mark [OF n(1) assms(3) st l c]
  have r3: "inputSignalAssigned c = replicate (unat (main_input_signal_no sz)) True"
    if "length xs = unat (main_input_signal_no sz)"
  proof (rule all_flags_set)
    show "cw_inv sz c" using f by simp
    have "unat (inputSignalAssignedCounter c) = 0" using f that l n(4) by simp
    then show "inputSignalAssignedCounter c = 0" by (simp only: unat_eq_zero)
  qed
  have r2: "unat (inputSignalAssignedCounter c) = unat (main_input_signal_no sz) - length xs"
  proof -
    have "unat (inputSignalAssignedCounter c) + length slots = unat (main_input_signal_no sz)"
      using f unfolding n(4) by blast
    then show ?thesis using l by simp
  qed
  have r4: "\<forall>k < length xs. signalValues c ! unat (slots ! k) = snd (snd (xs ! k))"
    using f l by simp
  have r5: "\<forall>i. (\<forall>si \<in> set slots. i \<noteq> unat si) \<longrightarrow> signalValues c ! i = signalValues ctx ! i"
    using f by (elim conjE)
  have r6: "length (signalValues c) = unat (total_signal_no sz)" using f n(3) by simp
  show ?thesis by (intro exI [of _ c] conjI impI r1 r2 r3 r4 r5 r6)
qed

text \<open>
  Property C21. A new calculator that receives every element of the main inputs exactly once, in
  any order, stores each value at the signal of its input, leaves every other signal alone and
  starts the circuit exactly once, with the last value, when all flags are set and the counter
  is 0; as long as an input is missing the circuit does not start.
\<close>

theorem inputs_run_circuit_once:
  assumes "new_CalcWit Z P S sz mem0 comps = Some ctx"
    and "list_all2 (\<lambda>(h, i, v) si. input_slot sz H h i si) xs slots" "distinct slots" "xs \<noteq> []"
    and "\<forall>si \<in> set slots. flag_index sz si < unat (main_input_signal_no sz) \<and> unat si < unat (total_signal_no sz)"
    and "length xs \<le> unat (main_input_signal_no sz)"
  shows "\<exists>ctx'. set_inputs run sz H xs ctx =
       Inr (if length xs = unat (main_input_signal_no sz) then run ctx' else ctx') \<and>
     unat (inputSignalAssignedCounter ctx') = unat (main_input_signal_no sz) - length xs \<and>
     (length xs = unat (main_input_signal_no sz) \<longrightarrow>
        inputSignalAssigned ctx' = replicate (unat (main_input_signal_no sz)) True) \<and>
     (\<forall>k < length xs. signalValues ctx' ! unat (slots ! k) = snd (snd (xs ! k))) \<and>
     (\<forall>i. (\<forall>si \<in> set slots. i \<noteq> unat si) \<longrightarrow> signalValues ctx' ! i = signalValues ctx ! i) \<and>
     length (signalValues ctx') = unat (total_signal_no sz)"
  by (rule new_inputs_run [OF assms])

theorem inputs_run_circuit_once_witness:
  "\<exists>ctx ctx'. new_CalcWit mpz_ref bn128_params bn128_globals demo_sizes bn_mem [] = Some ctx \<and>
     set_inputs (\<lambda>c. c) demo_sizes demo_table [(77, 1, bn_mem (Ext 1)), (77, 0, bn_mem (Ext 2))] ctx = Inr ctx' \<and>
     inputSignalAssigned ctx' = [True, True] \<and> signalValues ctx' ! 3 = bn_mem (Ext 1)"
proof -
  obtain ctx where c: "new_CalcWit mpz_ref bn128_params bn128_globals demo_sizes bn_mem [] = Some ctx"
    using demo_new by blast
  have a: "list_all2 (\<lambda>(h, i, v) si. input_slot demo_sizes demo_table h i si)
      [(77, 1, bn_mem (Ext 1)), (77, 0, bn_mem (Ext 2))] [3, 2]"
    using demo_slots by simp
  have b: "\<forall>si \<in> set [3, 2]. flag_index demo_sizes si < unat (main_input_signal_no demo_sizes) \<and>
      unat si < unat (total_signal_no demo_sizes)"
    by (simp add: demo_sizes_def flag_index_def)
  have n: "main_input_signal_no demo_sizes = 2" by (simp add: demo_sizes_def)
  obtain ctx' where "set_inputs (\<lambda>c. c) demo_sizes demo_table
        [(77, 1, bn_mem (Ext 1)), (77, 0, bn_mem (Ext 2))] ctx = Inr ctx'"
    "inputSignalAssigned ctx' = replicate 2 True"
    "\<forall>k < 2. signalValues ctx' ! unat ([3, 2::u32] ! k) =
       snd (snd ([(77::u64, 1::u32, bn_mem (Ext 1)), (77, 0, bn_mem (Ext 2))] ! k))"
    using inputs_run_circuit_once [OF c a _ _ b, of "\<lambda>c. c"] by (auto simp: n)
  moreover from this(3) have "signalValues ctx' ! 3 = bn_mem (Ext 1)"
    by (drule_tac x = 0 in spec) simp
  moreover from calculation(2) have "inputSignalAssigned ctx' = [True, True]"
    by (simp add: numeral_2_eq_2)
  ultimately show ?thesis using c by blast
qed

text \<open>
  Property C22. Each input element is written at most once: a successful \<open>setInputSignal\<close> keeps
  the invariant that the counter is the number of unset flags, takes exactly one from it and
  turns exactly one flag from false to true; the same element is refused afterwards, and so is
  everything when the counter is 0. The circuit's code is only assumed to leave flags and counter
  alone.
\<close>

theorem setInputSignal_write_once:
  assumes "cw_inv sz ctx" "setInputSignal run sz H h i v ctx = Inr ctx'"
    and "\<forall>c. inputSignalAssigned (run c) = inputSignalAssigned c \<and>
           inputSignalAssignedCounter (run c) = inputSignalAssignedCounter c"
  shows "cw_inv sz ctx' \<and>
    unat (inputSignalAssignedCounter ctx) = unat (inputSignalAssignedCounter ctx') + 1 \<and>
    (\<exists>k < length (inputSignalAssigned ctx). \<not> inputSignalAssigned ctx ! k \<and>
       inputSignalAssigned ctx' = (inputSignalAssigned ctx)[k := True]) \<and>
    setInputSignal run sz H h i w ctx' \<in> {Inl No_more_signals} \<union> range (\<lambda>si. Inl (Signal_assigned_twice si))"
proof -
  obtain si where si: "input_slot sz H h i si" "settable sz ctx si" "inputSignalAssignedCounter ctx \<noteq> 0"
    "ctx' = tryRunCircuit run (mark_input sz si v ctx)"
    using setInputSignal_cases [OF assms(2)] by blast
  let ?c = "mark_input sz si v ctx"
  have e: "inputSignalAssigned ctx' = inputSignalAssigned ?c"
    "inputSignalAssignedCounter ctx' = inputSignalAssignedCounter ?c"
    using assms(3) si(4) by (simp_all add: tryRunCircuit_def)
  have "cw_inv sz ctx'" using mark_inv(1) [OF assms(1) si(2), of v] e by (simp add: cw_inv_def)
  moreover have "unat (inputSignalAssignedCounter ctx) = unat (inputSignalAssignedCounter ctx') + 1"
    using mark_inv(3) [OF assms(1) si(2), of v] e si(3) by (simp add: unat_gt_0)
  moreover have k: "flag_index sz si < length (inputSignalAssigned ctx)"
    "\<not> inputSignalAssigned ctx ! flag_index sz si"
    "inputSignalAssigned ctx' = (inputSignalAssigned ctx)[flag_index sz si := True]"
    using si(2) e by (simp_all add: settable_def mark_input_def)
  moreover have "setInputSignal run sz H h i w ctx' \<in> {Inl No_more_signals, Inl (Signal_assigned_twice si)}"
  proof -
    obtain pos where pos: "getInputSignalHashPosition H (size_of_input_hashmap sz) h = Inr pos"
      "\<not> ucast i \<ge> signalsize (H ! unat pos)" "si = ucast (signalid (H ! unat pos) + ucast i)"
      using si(1) by (auto simp: input_slot_def)
    have "flag_index sz si < length (inputSignalAssigned ctx')" "inputSignalAssigned ctx' ! flag_index sz si"
      using k by simp_all
    then show ?thesis using pos(1,2) unfolding setInputSignal_def pos(3) flag_index_def
      by (simp add: Let_def)
  qed
  ultimately show ?thesis by blast
qed

theorem setInputSignal_write_once_witness:
  "\<exists>ctx ctx'. cw_inv demo_sizes ctx \<and>
     setInputSignal (\<lambda>c. c) demo_sizes demo_table 77 0 (bn_mem (Ext 1)) ctx = Inr ctx' \<and>
     cw_inv demo_sizes ctx' \<and> inputSignalAssignedCounter ctx' = 1"
proof -
  obtain ctx where c: "new_CalcWit mpz_ref bn128_params bn128_globals demo_sizes bn_mem [] = Some ctx"
    using demo_new by blast
  note n = new_CalcWit_inv [OF c]
  have s: "setInputSignal (\<lambda>c. c) demo_sizes demo_table 77 0 (bn_mem (Ext 1)) ctx =
      Inr (mark_input demo_sizes 2 (bn_mem (Ext 1)) ctx)"
    using setInputSignal_ok [OF demo_slots(1), where run = "\<lambda>c. c" and ctx = ctx] n
    by (simp add: settable_def flag_index_def demo_sizes_def tryRunCircuit_def)
  have "inputSignalAssignedCounter (mark_input demo_sizes 2 (bn_mem (Ext 1)) ctx) = 1"
    using n(4) by (simp add: mark_input_def demo_sizes_def)
  then show ?thesis using setInputSignal_write_once [OF n(1) s, of "bn_mem (Ext 1)"] n(1) s by blast
qed

text \<open>
  For dimensions of which none is 0, \<open>generate_position_array\<close> prints the indices
  of the element whose row-major number it is given; a dimension 0 divides by zero.
\<close>

lemma position_array_row_major:
  assumes "list_all2 (\<lambda>d i. i < unat d) dims idxs" "unat index = row_major (map unat dims) idxs"
  shows "generate_position_array dims index = Some (brackets idxs) \<and>
    generate_position_array (d # dims @ [0]) index = None"
proof -
  have "0 \<notin> set dims" using assms(1) by (auto simp: in_set_conv_nth list_all2_conv_all_nth)
  then show ?thesis using position_loop_spec [OF assms, of "[]"] by (simp add: generate_position_array_def)
qed

lemma position_array_row_major_witness:
  "generate_position_array [2, 3] 5 = Some (''['' @ dec_str 1 @ '']['' @ dec_str 2 @ '']'')"
  using position_array_row_major [of "[2, 3]" "[1, 2]" 5] by (simp add: row_major_def brackets_def)

text \<open>
  When every component but the main one has a father with a smaller number, which
  is how the generated code numbers them, \<open>getTrace\<close> returns: a call for component \<open>i\<close> makes
  at most \<open>i\<close> recursive calls and gives the names of the components on the way from the main
  one, joined by dots.
\<close>

lemma getTrace_returns_path:
  assumes "\<forall>i. i \<noteq> 0 \<longrightarrow> i \<le> id_cmp \<longrightarrow> idFather (comps ! unat i) < i"
  shows "\<exists>path. component_path comps path \<and> last path = id_cmp \<and>
    getTrace (Suc (unat id_cmp)) comps id_cmp = Some (dotted comps path)"
  by (rule getTrace_path [OF assms]) simp

lemma getTrace_returns_path_witness:
  "\<exists>path. component_path [\<lparr>componentName = ''main'', idFather = 0\<rparr>, \<lparr>componentName = ''c'', idFather = 0\<rparr>] path \<and>
    last path = 1 \<and>
    getTrace 2 [\<lparr>componentName = ''main'', idFather = 0\<rparr>, \<lparr>componentName = ''c'', idFather = 0\<rparr>] 1 =
      Some (dotted [\<lparr>componentName = ''main'', idFather = 0\<rparr>, \<lparr>componentName = ''c'', idFather = 0\<rparr>] path)"
proof -
  have o: "i = 1" if "i \<noteq> 0" "i \<le> 1" for i :: u64
    using that by (metis antisym_conv3 linorder_not_less word_less_1)
  have p: "\<forall>i. i \<noteq> 0 \<longrightarrow> i \<le> 1 \<longrightarrow> idFather ([\<lparr>componentName = ''main'', idFather = 0\<rparr>,
      \<lparr>componentName = ''c'', idFather = 0\<rparr>] ! unat i) < i"
    by (auto dest: o)
  show ?thesis using getTrace_returns_path [OF p] by (simp add: numeral_2_eq_2)
qed

end
