(* ===== verification/DatFile.thy ===== *)
theory DatFile
  imports CalcWit Bytes "HOL-Library.Signed_Division"
begin

text \<open>
  The data file of a compiled circuit. The compiler writes it (the \<open>generate_dat_\<close> functions of
  \<open>c_code_generator.rs\<close>): the hash table of the inputs, the signals of the witness, the field
  constants, the input and output signals of the templates and the fields of the buses. The
  witness program reads it back (\<open>loadCircuit\<close> of \<open>common/main.cpp\<close>). The main result is that the
  program reads what the compiler wrote, and that every constant it reads represents the number
  the compiler meant.
\<close>

subsection \<open>The compiler's side\<close>

text \<open>\<open>usize\<close> is a natural number; \<open>as u32\<close> keeps the low 32 bits.\<close>

record IODef =
  io_offset :: nat
  io_lengths :: "nat list"
  io_size :: nat
  io_bus_id :: "nat option"

record FieldData =
  fd_dimensions :: "nat list"
  fd_size :: nat
  fd_offset :: nat
  fd_bus_id :: "nat option"

definition generate_dat_from_hash_map :: "HashSignalInfo list \<Rightarrow> bytes" where
  "generate_dat_from_hash_map H =
     concat (map (\<lambda>e. rev (to_be_bytes64 (hash e)) @ rev (to_be_bytes64 (signalid e)) @
       rev (to_be_bytes64 (signalsize e))) H)"

definition generate_dat_witness_to_signal_list :: "nat list \<Rightarrow> bytes" where
  "generate_dat_witness_to_signal_list signals =
     concat (map (\<lambda>s. rev (to_be_bytes64 (of_nat s))) signals)"

text \<open>
  The bytes of one constant; a number that needs more bytes than its field has makes the
  subtraction of lengths fail.
\<close>

definition dat_constant :: "int \<Rightarrow> nat \<Rightarrow> int \<Rightarrow> bytes option" where
  "dat_constant p n32 n =
     (let b = ((bigint_bits p + 63) div 64) * 64;
          r = 2 ^ b;
          n = n smod p;
          n = n + p;
          n = n smod p;
          hp = p div 2;
          nn = (if n > hp then n - p else n);
          head = (if - 2147483648 \<le> nn \<and> nn \<le> 2147483647
                  then let nn = (if nn < 0 then 0x100000000 + nn else nn);
                           v = min_bytes (nat nn)
                       in if length v > 4 then None
                          else Some (v @ replicate (4 - length v) 0 @ rev (to_be_bytes32 0x40000000))
                  else Some (replicate 4 0 @ rev (to_be_bytes32 0xC0000000)));
          n = (n * r) smod p;
          v = min_bytes (nat n)
      in case head of
           None \<Rightarrow> None
         | Some h \<Rightarrow> if length v > n32 * 4 then None
                     else Some (h @ v @ replicate (n32 * 4 - length v) 0))"

fun generate_dat_constant_list :: "int \<Rightarrow> nat \<Rightarrow> int list \<Rightarrow> bytes option" where
  "generate_dat_constant_list p n32 [] = Some []"
| "generate_dat_constant_list p n32 (n # ns) =
     (case dat_constant p n32 n of
        None \<Rightarrow> None
      | Some c \<Rightarrow> (case generate_dat_constant_list p n32 ns of
                     None \<Rightarrow> None
                   | Some cs \<Rightarrow> Some (c @ cs)))"

definition put32 :: "nat \<Rightarrow> bytes" where
  "put32 v = rev (to_be_bytes32 (of_nat v))"

definition dat_io_def :: "IODef \<Rightarrow> bytes" where
  "dat_io_def s =
     put32 (io_offset s) @
     put32 (if length (io_lengths s) > 0 then length (io_lengths s) - 1 else 0) @
     concat (map put32 (drop 1 (io_lengths s))) @
     put32 (io_size s) @
     put32 (case io_bus_id s of Some value \<Rightarrow> value | None \<Rightarrow> 0)"

definition generate_dat_io_signals_info :: "(nat \<times> IODef list) list \<Rightarrow> bytes" where
  "generate_dat_io_signals_info io_map =
     concat (map (\<lambda>(t_ins, _). put32 t_ins) io_map) @
     concat (map (\<lambda>(_, l_io_def). put32 (length l_io_def) @ concat (map dat_io_def l_io_def)) io_map)"

definition dat_field :: "FieldData \<Rightarrow> bytes" where
  "dat_field s =
     put32 (fd_offset s) @
     put32 (if length (fd_dimensions s) > 0 then length (fd_dimensions s) - 1 else 0) @
     concat (map put32 (drop 1 (fd_dimensions s))) @
     put32 (fd_size s) @
     put32 (case fd_bus_id s of Some value \<Rightarrow> value | None \<Rightarrow> 0)"

definition generate_dat_bus_field_info :: "FieldData list list \<Rightarrow> bytes" where
  "generate_dat_bus_field_info field_map =
     concat (map (\<lambda>fs. put32 (length fs) @ concat (map dat_field fs)) field_map)"

record CProducer =
  main_input_list :: "(string \<times> u64 \<times> u64) list"
  input_hash_map_entry_size :: nat
  witness_to_signal_list :: "nat list"
  field_constant_list :: "int list"
  io_map :: "(nat \<times> IODef list) list"
  busid_field_info :: "FieldData list list"
  prime_value :: int
  prime_is_goldilocks :: bool
  size_32_bit :: nat

definition generate_dat_file :: "(string \<Rightarrow> u64) \<Rightarrow> CProducer \<Rightarrow> bytes option" where
  "generate_dat_file hasher producer =
     (case generate_hash_map hasher (main_input_list producer) (input_hash_map_entry_size producer) of
        None \<Rightarrow> None
      | Some hmap \<Rightarrow>
     (case (if prime_is_goldilocks producer then Some []
            else generate_dat_constant_list (prime_value producer) (size_32_bit producer)
                   (field_constant_list producer)) of
        None \<Rightarrow> None
      | Some constants \<Rightarrow>
          Some (generate_dat_from_hash_map hmap @
            generate_dat_witness_to_signal_list (witness_to_signal_list producer) @
            constants @
            generate_dat_io_signals_info (io_map producer) @
            (if length (io_map producer) > 0
             then generate_dat_bus_field_info (busid_field_info producer) else []))))"

subsection \<open>The program's side\<close>

definition dec_HashSignalInfo :: "bytes \<Rightarrow> HashSignalInfo" where
  "dec_HashSignalInfo bs = \<lparr>hash = rd64 bs, signalid = rd64 (drop 8 bs), signalsize = rd64 (drop 16 bs)\<rparr>"

definition dec_FrElement :: "nat \<Rightarrow> bytes \<Rightarrow> FrElement" where
  "dec_FrElement n64 bs =
     \<lparr>shortVal = rd32 bs, fr_type = rd32 (drop 4 bs), longVal = map rd64 (chunks 8 n64 (drop 8 bs))\<rparr>"

text \<open>
  \<open>new T[n]\<close> and \<open>memcpy\<close> of \<open>n * sizeof(T)\<close> bytes from offset \<open>inisize\<close> of the mapped file.
  The size is kept in a \<open>uint\<close>: when it does not fit, a part of the array is not written.
\<close>

definition dsize_of :: "u32 \<Rightarrow> nat \<Rightarrow> u32" where
  "dsize_of n width = of_nat (unat n * width)"

definition read_array :: "(bytes \<Rightarrow> 'a) \<Rightarrow> nat \<Rightarrow> u32 \<Rightarrow> bytes \<Rightarrow> u32 \<Rightarrow> cw_error + 'a list" where
  "read_array dec width n bdata inisize =
     (if unat (dsize_of n width) \<noteq> unat n * width then Inl Uninitialised
      else if unat inisize + unat n * width > length bdata then Inl Out_of_bounds
      else Inr (map dec (chunks width (unat n) (drop (unat inisize) bdata))))"

text \<open>The loop over the definitions of a template or a bus; \<open>pu32\<close> is what is left of the data.\<close>

fun read_defs :: "nat \<Rightarrow> u32 list \<Rightarrow> cw_error + IOFieldDef list \<times> u32 list" where
  "read_defs 0 pu32 = Inr ([], pu32)"
| "read_defs (Suc n) pu32 =
     (case pu32 of
        off # len # rest \<Rightarrow>
          if unat len + 2 > length rest then Inl Out_of_bounds
          else let d = \<lparr>offset = off, lengths = take (unat len) rest,
                        def_size = rest ! unat len, busId = rest ! (unat len + 1)\<rparr>
               in (case read_defs n (drop (unat len + 2) rest) of
                     Inl e \<Rightarrow> Inl e
                   | Inr (ds, pu32) \<Rightarrow> Inr (d # ds, pu32))
      | _ \<Rightarrow> Inl Out_of_bounds)"

fun read_io_map :: "u32 list \<Rightarrow> u32 list \<Rightarrow> (u32 \<rightharpoonup> IOFieldDef list) \<Rightarrow>
    cw_error + (u32 \<rightharpoonup> IOFieldDef list) \<times> u32 list" where
  "read_io_map [] pu32 m = Inr (m, pu32)"
| "read_io_map (t # ts) pu32 m =
     (case pu32 of
        [] \<Rightarrow> Inl Out_of_bounds
      | n # pu32 \<Rightarrow>
          (case read_defs (unat n) pu32 of
             Inl e \<Rightarrow> Inl e
           | Inr (defs, pu32) \<Rightarrow> read_io_map ts pu32 (m(t \<mapsto> defs))))"

text \<open>A bus gets an array of 10 definitions, whatever its number of fields is.\<close>

fun read_buses :: "nat \<Rightarrow> u32 list \<Rightarrow> cw_error + IOFieldDef list list" where
  "read_buses 0 pu32 = Inr []"
| "read_buses (Suc k) pu32 =
     (case pu32 of
        [] \<Rightarrow> Inl Out_of_bounds
      | n # pu32 \<Rightarrow>
          (case read_defs (unat n) pu32 of
             Inl e \<Rightarrow> Inl e
           | Inr (defs, pu32) \<Rightarrow>
               if unat n > 10 then Inl Heap_overflow
               else (case read_buses k pu32 of
                       Inl e \<Rightarrow> Inl e
                     | Inr bs \<Rightarrow> Inr (defs # bs))))"

definition sizeof_FrElement :: "fr_params \<Rightarrow> nat" where
  "sizeof_FrElement P = 8 + 8 * fr_n64 P"

definition load_io :: "circuit_sizes \<Rightarrow> bytes \<Rightarrow> u32 \<Rightarrow>
    cw_error + (u32 \<rightharpoonup> IOFieldDef list) \<times> IOFieldDef list list option" where
  "load_io sz bdata inisize =
     (if size_of_io_map sz > 0
      then (case read_array rd32 4 (size_of_io_map sz) bdata inisize of
              Inl e \<Rightarrow> Inl e
            | Inr index \<Rightarrow>
                let inisize = inisize + dsize_of (size_of_io_map sz) 4
                in if inisize mod 4 \<noteq> 0 \<or> length bdata mod 4 \<noteq> 0 then Inl Assertion_failed
                   else let rest = drop (unat inisize) bdata;
                            dataiomap = map rd32 (chunks 4 (length rest div 4) rest)
                        in (case read_io_map index dataiomap Map.empty of
                              Inl e \<Rightarrow> Inl e
                            | Inr (m, pu32) \<Rightarrow>
                                (case read_buses (unat (size_of_bus_field_map sz)) pu32 of
                                   Inl e \<Rightarrow> Inl e
                                 | Inr bs \<Rightarrow> Inr (m, Some bs))))
      else Inr (Map.empty, None))"

definition loadCircuit :: "fr_params \<Rightarrow> circuit_sizes \<Rightarrow> bytes \<Rightarrow> cw_error + Circom_Circuit" where
  "loadCircuit P sz bdata =
     (case read_array dec_HashSignalInfo 24 (size_of_input_hashmap sz) bdata 0 of
        Inl e \<Rightarrow> Inl e
      | Inr H \<Rightarrow>
     let inisize = dsize_of (size_of_input_hashmap sz) 24;
         dsize = dsize_of (size_of_witness sz) 8
     in (case read_array rd64 8 (size_of_witness sz) bdata inisize of
        Inl e \<Rightarrow> Inl e
      | Inr W \<Rightarrow>
     (case (if size_of_constants sz > 0
            then map_sum id (\<lambda>C. (C, inisize + dsize, dsize_of (size_of_constants sz) (sizeof_FrElement P)))
              (read_array (dec_FrElement (fr_n64 P)) (sizeof_FrElement P) (size_of_constants sz) bdata
                 (inisize + dsize))
            else Inr ([], inisize, dsize)) of
        Inl e \<Rightarrow> Inl e
      | Inr (C, inisize, dsize) \<Rightarrow>
     (case load_io sz bdata (inisize + dsize) of
        Inl e \<Rightarrow> Inl e
      | Inr (m, bs) \<Rightarrow>
          Inr \<lparr>InputHashMap = H, witness2SignalList = W, circuitConstants = C,
               templateInsId2IOSignalInfo = m, busInsId2FieldInfo = bs\<rparr>))))"

subsection \<open>Reading arrays\<close>

lemma unat_dsize: "unat n * width < 2 ^ 32 \<Longrightarrow> unat (dsize_of n width) = unat n * width"
  unfolding dsize_of_def unsigned_of_nat by (simp add: take_bit_nat_eq_self)

lemma read_array_ok:
  assumes "\<forall>x \<in> set xss. length x = width" "length xss = unat n" "bdata = pre @ concat xss @ post"
    and "length pre = unat inisize" "unat n * width < 2 ^ 32"
  shows "read_array dec width n bdata inisize = Inr (map dec xss)"
proof -
  have "unat (dsize_of n width) = unat n * width"
    by (rule unat_dsize [OF assms(5)])
  moreover have "length (concat xss) = unat n * width" using length_concat_const [OF assms(1)] assms(2) by simp
  moreover have "chunks width (unat n) (drop (unat inisize) bdata) = xss"
    using chunks_concat [OF assms(1), of post] assms(2-4) by simp
  ultimately show ?thesis using assms(3,4) by (simp add: read_array_def)
qed

subsection \<open>Definitions of signals and fields\<close>

definition enc32 :: "u32 \<Rightarrow> bytes" where
  "enc32 w = rev (to_be_bytes32 w)"

lemma length_enc32 [simp]: "length (enc32 w) = 4"
  by (simp add: enc32_def)

lemma put32_enc: "put32 v = enc32 (of_nat v)"
  by (simp add: put32_def enc32_def)

definition io_field :: "IODef \<Rightarrow> IOFieldDef" where
  "io_field s = \<lparr>offset = of_nat (io_offset s), lengths = map of_nat (drop 1 (io_lengths s)),
     def_size = of_nat (io_size s), busId = of_nat (case io_bus_id s of Some v \<Rightarrow> v | None \<Rightarrow> 0)\<rparr>"

definition bus_field :: "FieldData \<Rightarrow> IOFieldDef" where
  "bus_field s = \<lparr>offset = of_nat (fd_offset s), lengths = map of_nat (drop 1 (fd_dimensions s)),
     def_size = of_nat (fd_size s), busId = of_nat (case fd_bus_id s of Some v \<Rightarrow> v | None \<Rightarrow> 0)\<rparr>"

definition def_words :: "IOFieldDef \<Rightarrow> u32 list" where
  "def_words d = offset d # of_nat (length (lengths d)) # lengths d @ [def_size d, busId d]"

definition list_words :: "IOFieldDef list \<Rightarrow> u32 list" where
  "list_words ds = of_nat (length ds) # concat (map def_words ds)"

lemma dat_defs_words:
  "dat_io_def s = concat (map enc32 (def_words (io_field s)))"
  "dat_field f = concat (map enc32 (def_words (bus_field f)))"
  by (auto simp: dat_io_def_def dat_field_def def_words_def io_field_def bus_field_def put32_enc comp_def
      fun_eq_iff intro!: arg_cong [of _ _ concat] split: option.splits)

lemma concat_enc_defs:
  "concat (map dat_io_def ss) = concat (map enc32 (concat (map (\<lambda>s. def_words (io_field s)) ss)))"
  "concat (map dat_field fs) = concat (map enc32 (concat (map (\<lambda>s. def_words (bus_field s)) fs)))"
  by (induction ss, simp_all add: dat_defs_words) (induction fs, simp_all add: dat_defs_words)

lemma put_defs_words:
  "put32 (length ss) @ concat (map dat_io_def ss) = concat (map enc32 (list_words (map io_field ss)))"
  "put32 (length fs) @ concat (map dat_field fs) = concat (map enc32 (list_words (map bus_field fs)))"
  by (simp_all add: list_words_def put32_enc concat_enc_defs comp_def)

lemma dat_io_words:
  "generate_dat_io_signals_info m =
     concat (map enc32 (map (\<lambda>(t, _). of_nat t) m @ concat (map (\<lambda>(_, ss). list_words (map io_field ss)) m)))"
proof -
  have "concat (map (\<lambda>(t, _). put32 t) m) = concat (map enc32 (map (\<lambda>(t, _). of_nat t) m))"
    by (induction m) (auto simp: put32_enc)
  moreover have "concat (map (\<lambda>(_, ss). put32 (length ss) @ concat (map dat_io_def ss)) m) =
      concat (map enc32 (concat (map (\<lambda>(_, ss). list_words (map io_field ss)) m)))"
    by (induction m) (auto simp: put_defs_words)
  ultimately show ?thesis by (simp add: generate_dat_io_signals_info_def)
qed

lemma dat_bus_words:
  "generate_dat_bus_field_info fss = concat (map enc32 (concat (map (\<lambda>fs. list_words (map bus_field fs)) fss)))"
  by (induction fss) (auto simp: generate_dat_bus_field_info_def put_defs_words)

lemma rd32_words:
  "map rd32 (chunks 4 (length (concat (map enc32 ws)) div 4) (concat (map enc32 ws))) = ws"
proof -
  have l: "\<forall>x \<in> set (map enc32 ws). length x = 4" by simp
  have "length (concat (map enc32 ws)) div 4 = length (map enc32 ws)"
    unfolding length_concat_const [OF l] by simp
  then have "chunks 4 (length (concat (map enc32 ws)) div 4) (concat (map enc32 ws)) = map enc32 ws"
    using chunks_concat [OF l, of "[]"] by simp
  then show ?thesis by (simp add: comp_def enc32_def)
qed

text \<open>A list of definitions that fits into 32-bit counts.\<close>

definition fits_defs :: "IOFieldDef list \<Rightarrow> bool" where
  "fits_defs ds \<longleftrightarrow> length ds < 2 ^ 32 \<and> (\<forall>d \<in> set ds. length (lengths d) < 2 ^ 32)"

lemma read_defs_words:
  assumes "\<forall>d \<in> set ds. length (lengths d) < 2 ^ 32"
  shows "read_defs (length ds) (concat (map def_words ds) @ rest) = Inr (ds, rest)"
  using assms
proof (induction ds)
  case (Cons d ds)
  have "unat (of_nat (length (lengths d)) :: u32) = length (lengths d)"
    using Cons.prems by (simp add: unat_of_nat)
  then show ?case using Cons by (simp add: def_words_def nth_append Let_def)
qed simp

lemma read_io_map_words:
  assumes "\<forall>ds \<in> set dss. fits_defs ds" "length ts = length dss"
  shows "read_io_map ts (concat (map list_words dss) @ rest) m = Inr (m ++ map_of (rev (zip ts dss)), rest)"
  using assms(2,1)
proof (induction ts dss arbitrary: m rule: list_induct2)
  case (Cons t ts ds dss)
  have "unat (of_nat (length ds) :: u32) = length ds" using Cons.prems by (simp add: fits_defs_def unat_of_nat)
  then show ?case using Cons read_defs_words [of ds] by (simp add: list_words_def fits_defs_def)
qed simp

lemma read_bus_step:
  assumes "fits_defs ds"
  shows "read_buses (Suc k) (list_words ds @ rest) =
    (if 10 < length ds then Inl Heap_overflow
     else case read_buses k rest of Inl e \<Rightarrow> Inl e | Inr bs \<Rightarrow> Inr (ds # bs))"
proof -
  have "unat (of_nat (length ds) :: u32) = length ds" using assms by (simp add: fits_defs_def unat_of_nat)
  then show ?thesis using assms read_defs_words [of ds] by (simp add: list_words_def fits_defs_def)
qed

lemma read_buses_words:
  assumes "\<forall>ds \<in> set dss. fits_defs ds \<and> length ds \<le> 10"
  shows "read_buses (length dss) (concat (map list_words dss) @ rest) = Inr dss"
  using assms by (induction dss) (simp_all add: read_bus_step del: read_buses.simps(2))

lemma read_buses_overflow:
  assumes "\<forall>ds \<in> set dss. fits_defs ds" "\<exists>ds \<in> set dss. length ds > 10"
  shows "read_buses (length dss) (concat (map list_words dss) @ rest) = Inl Heap_overflow"
  using assms
proof (induction dss)
  case (Cons ds dss)
  have "length ds > 10 \<or> read_buses (length dss) (concat (map list_words dss) @ rest) = Inl Heap_overflow"
    using Cons by auto
  then show ?case using Cons.prems(1) by (auto simp: read_bus_step simp del: read_buses.simps(2))
qed simp

subsection \<open>Constants\<close>

lemma smod_normal:
  assumes "0 < (p::int)"
  shows "(n smod p + p) smod p = n mod p"
proof -
  have b: "- p < n smod p" "n smod p < p"
    using assms pos_mod_bound [of p "\<bar>n\<bar>"] pos_mod_sign [of p "\<bar>n\<bar>"]
    unfolding signed_modulo_int_def by (cases n rule: linorder_cases [of _ 0]; simp; linarith)+
  have "(n smod p + p) smod p = (n smod p + p) mod p"
    using assms b by (simp add: signed_modulo_int_def sgn_if)
  also have "\<dots> = n mod p"
  proof -
    have "n = p * (n sdiv p) + n smod p" by (rule mult_sdiv_smod_eq [symmetric])
    then have "n mod p = (n smod p) mod p" by (metis mod_mult_self4)
    then show ?thesis by simp
  qed
  finally show ?thesis .
qed

lemma smod_nonneg: "0 \<le> (a::int) \<Longrightarrow> 0 < p \<Longrightarrow> a smod p = a mod p"
  by (simp add: signed_modulo_int_def sgn_if)

context fr_field
begin

lemma bits_q: "bigint_bits (qv P) = qbits P"
proof -
  note b = bigint_bits_bounds [OF q_pos]
  have "0 < qbits P" using qbits_bounds(1) by linarith
  then show ?thesis using b q_ge_pow q_less_pow by (metis bit_length_unique)
qed

lemma n64_q: "(bigint_bits (qv P) + 63) div 64 = fr_n64 P"
proof -
  obtain k where k: "fr_n64 P = Suc k" using n_pos by (cases "fr_n64 P") auto
  show ?thesis using qbits_bounds unfolding bits_q k by simp
qed

text \<open>The bytes of a constant, and what the program decodes from them.\<close>

lemma dat_constant_rep:
  assumes "n32 * 4 = 8 * fr_n64 P"
  shows "\<exists>c. dat_constant (qv P) n32 n = Some c \<and> length c = 8 + 8 * fr_n64 P \<and>
    fr_rep P (dec_FrElement (fr_n64 P) c) n"
proof -
  let ?p = "qv P" and ?n = "n mod qv P" and ?R = "Rv P"
  let ?nn = "if ?n > ?p div 2 then ?n - ?p else ?n"
  let ?m = "?n * ?R mod ?p"
  have r: "(2::int) ^ ((bigint_bits ?p + 63) div 64 * 64) = ?R"
    by (simp add: n64_q Rv_def base_eq_power mult.commute)
  have nz: "0 \<le> ?n" "?n < ?p" using q_pos by simp_all
  have Rp: "0 \<le> ?R" by (simp add: Rv_def)
  have m: "(?n * ?R) smod ?p = ?m" using nz(1) Rp q_pos by (simp add: smod_nonneg)
  have mb: "0 \<le> ?m" "?m < ?R" using q_pos less_trans [OF pos_mod_bound q_less_R] by simp_all
  have R: "?R = 2 ^ (64 * fr_n64 P)" by (simp add: Rv_def base_eq_power)
  have "nat ?m < 2 ^ (64 * fr_n64 P)" using mb unfolding R by (simp add: nat_less_iff)
  then have ml: "nat ?m < 256 ^ (8 * fr_n64 P)" by (simp add: power_mult)
  have body: "length (min_bytes (nat ?m)) \<le> 8 * fr_n64 P \<and>
      min_bytes (nat ?m) @ replicate (8 * fr_n64 P - length (min_bytes (nat ?m))) 0 = le_bytes (8 * fr_n64 P) (nat ?m)"
    by (rule min_bytes_pad [OF ml]) (use n_pos in simp)
  have dec: "longVal (dec_FrElement (fr_n64 P) (h @ le_bytes (8 * fr_n64 P) (nat ?m))) =
      map rd64 (chunks 8 (fr_n64 P) (le_bytes (8 * fr_n64 P) (nat ?m) @ []))" if "length h = 8" for h
    using that by (simp add: dec_FrElement_def)
  have red: "reduced P (map rd64 (chunks 8 (fr_n64 P) (le_bytes (8 * fr_n64 P) (nat ?m) @ []))) (n * ?R)"
    using \<open>nat ?m < 2 ^ (64 * fr_n64 P)\<close> mb(1)
    by (simp only: reduced_def lval_chunks) (simp add: mod_mult_left_eq)
  have nn: "?nn mod ?p = n mod ?p" by simp
  show ?thesis
  proof (cases "- 2147483648 \<le> ?nn \<and> ?nn \<le> 2147483647")
    case False
    let ?h = "replicate 4 0 @ rev (to_be_bytes32 0xC0000000)"
    have h: "dat_constant ?p n32 n = Some (?h @ le_bytes (8 * fr_n64 P) (nat ?m))"
      using False body unfolding dat_constant_def Let_def smod_normal [OF q_pos] r m assms
      by (simp only: if_False option.case) simp
    have "fr_type (dec_FrElement (fr_n64 P) (?h @ le_bytes (8 * fr_n64 P) (nat ?m))) = Fr_LONGMONTGOMERY"
      by (simp add: dec_FrElement_def Fr_LONGMONTGOMERY_def)
    then have "fr_rep P (dec_FrElement (fr_n64 P) (?h @ le_bytes (8 * fr_n64 P) (nat ?m))) n"
      using red dec [of ?h] by (simp add: fr_rep_longmont)
    then show ?thesis using h by simp
  next
    case True
    let ?u = "if ?nn < 0 then 0x100000000 + ?nn else ?nn"
    have u: "0 \<le> ?u" "?u < 2 ^ 32" using True by (simp_all split: if_splits)
    then have "nat ?u < 256 ^ 4" by (simp add: nat_less_iff)
    then have sb: "length (min_bytes (nat ?u)) \<le> 4 \<and>
        min_bytes (nat ?u) @ replicate (4 - length (min_bytes (nat ?u))) 0 = le_bytes 4 (nat ?u)"
      by (rule min_bytes_pad) simp
    let ?h = "le_bytes 4 (nat ?u) @ rev (to_be_bytes32 0x40000000)"
    have h: "dat_constant ?p n32 n = Some (?h @ le_bytes (8 * fr_n64 P) (nat ?m))"
      using True body sb unfolding dat_constant_def Let_def smod_normal [OF q_pos] r m assms
      by (simp only: if_True option.case) simp
    let ?e = "dec_FrElement (fr_n64 P) (?h @ le_bytes (8 * fr_n64 P) (nat ?m))"
    have t: "fr_type ?e = Fr_SHORTMONTGOMERY" "shortVal ?e = of_nat (nat ?u)"
      by (simp_all add: dec_FrElement_def Fr_SHORTMONTGOMERY_def)
    have "(of_nat (nat ?u) :: u32) = of_int ?u" using u by simp
    also have "\<dots> = of_int ?nn" by simp
    finally have "sint (shortVal ?e) = ?nn" using True t(2) by (simp add: signed_of_int signed_take_bit_int_eq_self)
    then have "short_rep P (shortVal ?e) n" using nn by (simp add: short_rep_def)
    then have "fr_rep P ?e n" using red dec [of ?h] t(1)
      by (simp add: fr_rep_def reduced_length Fr_SHORT_def Fr_LONG_def Fr_LONGMONTGOMERY_def Fr_SHORTMONTGOMERY_def)
    then show ?thesis using h by simp
  qed
qed

lemma dat_constants_rep:
  assumes "n32 * 4 = 8 * fr_n64 P"
  shows "\<exists>cs. generate_dat_constant_list (qv P) n32 ns = Some (concat cs) \<and> length cs = length ns \<and>
    (\<forall>c \<in> set cs. length c = 8 + 8 * fr_n64 P) \<and>
    (\<forall>i < length ns. fr_rep P (dec_FrElement (fr_n64 P) (cs ! i)) (ns ! i))"
proof (induction ns)
  case (Cons n ns)
  obtain c where c: "dat_constant (qv P) n32 n = Some c" "length c = 8 + 8 * fr_n64 P"
    "fr_rep P (dec_FrElement (fr_n64 P) c) n" using dat_constant_rep [OF assms] by blast
  obtain cs where cs: "generate_dat_constant_list (qv P) n32 ns = Some (concat cs)" "length cs = length ns"
    "\<forall>c \<in> set cs. length c = 8 + 8 * fr_n64 P"
    "\<forall>i < length ns. fr_rep P (dec_FrElement (fr_n64 P) (cs ! i)) (ns ! i)" using Cons.IH by blast
  show ?case
  proof (intro exI [of _ "c # cs"] conjI allI impI)
    fix i assume "i < length (n # ns)"
    then show "fr_rep P (dec_FrElement (fr_n64 P) ((c # cs) ! i)) ((n # ns) ! i)"
      using c(3) cs(4) by (cases i) auto
  qed (use c cs in auto)
qed simp

end

subsection \<open>The whole file\<close>

lemma unat_add_u32: "unat (a::u32) + unat b < 2 ^ 32 \<Longrightarrow> unat (a + b) = unat a + unat b"
  by (simp add: unat_word_ariths)

lemma fits_list_words: "length (list_words ds) < 2 ^ 32 \<Longrightarrow> fits_defs ds"
proof -
  assume l: "length (list_words ds) < 2 ^ 32"
  have a: "length ds \<le> length (concat (map def_words ds))"
    by (induction ds) (auto simp: def_words_def)
  have "length (lengths d) \<le> length (concat (map def_words ds))" if "d \<in> set ds" for d
    using that by (induction ds) (auto simp: def_words_def)
  then show ?thesis using l a by (fastforce simp: fits_defs_def list_words_def)
qed

lemma length_concat_enc [simp]: "length (concat (map enc32 ws)) = 4 * length ws"
  by (induction ws) auto

definition io_table :: "(nat \<times> IODef list) list \<Rightarrow> u32 \<rightharpoonup> IOFieldDef list" where
  "io_table m = map_of (rev (map (\<lambda>(t, ss). (of_nat t, map io_field ss)) m))"

lemma load_io_ok:
  assumes "m \<noteq> []" "unat (size_of_io_map sz) = length m" "unat (size_of_bus_field_map sz) = length fss"
    and dat: "dat = pre @ generate_dat_io_signals_info m @ generate_dat_bus_field_info fss"
    and "length pre = unat inisize" "length pre mod 4 = 0" "length dat < 2 ^ 32"
  shows "load_io sz dat inisize =
    (if \<exists>fs \<in> set fss. 10 < length fs then Inl Heap_overflow
     else Inr (io_table m, Some (map (map bus_field) fss)))"
proof -
  let ?ts = "map (\<lambda>(t, _). of_nat t :: u32) m"
  let ?iw = "map (\<lambda>(_, ss). map io_field ss) m" and ?bw = "map (map bus_field) fss"
  have iw: "concat (map (\<lambda>(_, ss). list_words (map io_field ss)) m) = concat (map list_words ?iw)"
    by (induction m) auto
  have bw: "concat (map (\<lambda>fs. list_words (map bus_field fs)) fss) = concat (map list_words ?bw)"
    by (induction fss) auto
  have d: "dat = pre @ concat (map enc32 ?ts) @
      concat (map enc32 (concat (map list_words ?iw) @ concat (map list_words ?bw)))"
    by (simp only: dat dat_io_words dat_bus_words iw bw map_append concat_append append.assoc)
  let ?ws = "concat (map list_words ?iw) @ concat (map list_words ?bw)"
  have ld: "length dat = length pre + 4 * length m + 4 * length ?ws"
    unfolding d by (simp only: length_append length_concat_enc length_map)
  have i0: "unat inisize + length m * 4 < 2 ^ 32" using assms(5,7) ld by simp
  have l4: "length m * 4 < 2 ^ 32" using i0 by simp
  have ra: "read_array rd32 4 (size_of_io_map sz) dat inisize = Inr ?ts"
  proof -
    have "read_array rd32 4 (size_of_io_map sz) dat inisize = Inr (map rd32 (map enc32 ?ts))"
      by (rule read_array_ok [where pre = pre]) (use d assms(2,5) l4 in simp_all)
    then show ?thesis by (simp add: comp_def enc32_def)
  qed
  let ?i = "inisize + dsize_of (size_of_io_map sz) 4"
  have ds: "unat (dsize_of (size_of_io_map sz) 4) = length m * 4"
    using unat_dsize [of "size_of_io_map sz" 4] assms(2) l4 by simp
  have i: "unat ?i = unat inisize + length m * 4"
    using unat_add_u32 [of inisize "dsize_of (size_of_io_map sz) 4"] i0 unfolding ds by simp
  have "unat (?i mod 4) = 0" using i assms(5,6) by (simp add: unat_mod)
  then have al: "?i mod 4 = 0" by (simp only: unat_eq_zero)
  have al2: "length dat mod 4 = 0" using ld assms(6) by presburger
  have rest: "drop (unat ?i) dat = concat (map enc32 ?ws)"
  proof -
    have "unat ?i = length (pre @ concat (map enc32 ?ts))"
      unfolding length_append length_concat_enc length_map using i assms(5) by simp
    then show ?thesis unfolding d by simp
  qed
  have fit: "fits_defs ds" if "ds \<in> set ?iw \<union> set ?bw" for ds
  proof (rule fits_list_words)
    have "length (list_words ds) \<le> length ?ws"
      by (rule length_concat_ge [of _ "map list_words (?iw @ ?bw)", simplified concat_append map_append])
        (use that in \<open>simp only: set_map set_append, blast\<close>)
    then show "length (list_words ds) < 2 ^ 32" using ld assms(7) by linarith
  qed
  have rio: "read_io_map ?ts ?ws Map.empty = Inr (io_table m, concat (map list_words ?bw))"
  proof -
    have "zip ?ts ?iw = map (\<lambda>(t, ss). (of_nat t, map io_field ss)) m" by (induction m) auto
    then show ?thesis using read_io_map_words [of ?iw ?ts "concat (map list_words ?bw)" Map.empty] fit
      by (simp add: io_table_def)
  qed
  have rb: "read_buses (length fss) (concat (map list_words ?bw)) =
      (if \<exists>fs \<in> set fss. 10 < length fs then Inl Heap_overflow else Inr ?bw)"
  proof (cases "\<exists>fs \<in> set fss. 10 < length fs")
    case True
    then show ?thesis using read_buses_overflow [of ?bw "[]"] fit by simp
  next
    case False
    then show ?thesis using read_buses_words [of ?bw "[]"] fit by (fastforce simp: not_less)
  qed
  have "0 < length m" using assms(1) by simp
  then have "size_of_io_map sz \<noteq> 0" using assms(2) by auto
  then have "0 < size_of_io_map sz" by (simp add: word_greater_zero_iff)
  then show ?thesis
    unfolding load_io_def ra by (simp only: if_True sum.case Let_def al al2 rest rd32_words rio prod.case rb assms(3)) simp
qed

text \<open>What the compiler hands to the C++ backend is consistent with the sizes in the generated code.\<close>

definition producer_ok :: "fr_params \<Rightarrow> circuit_sizes \<Rightarrow> CProducer \<Rightarrow> bool" where
  "producer_ok P sz producer \<longleftrightarrow>
     prime_value producer = qv P \<and> \<not> prime_is_goldilocks producer \<and>
     size_32_bit producer * 4 = 8 * fr_n64 P \<and>
     unat (size_of_input_hashmap sz) = input_hash_map_entry_size producer \<and>
     unat (size_of_witness sz) = length (witness_to_signal_list producer) \<and>
     unat (size_of_constants sz) = length (field_constant_list producer) \<and>
     unat (size_of_io_map sz) = length (io_map producer) \<and>
     unat (size_of_bus_field_map sz) = length (busid_field_info producer)"

lemma insert_inputs_length: "insert_inputs hasher xs H = Some H' \<Longrightarrow> length H' = length H"
proof (induction xs arbitrary: H)
  case (Cons x xs)
  obtain name start len where "x = (name, start, len)" by (cases x) auto
  then show ?case using Cons.prems Cons.IH by (auto simp: Let_def split: option.splits)
qed simp

lemma generate_hash_map_length: "generate_hash_map hasher xs n = Some H \<Longrightarrow> length H = n"
  by (auto simp: generate_hash_map_def dest: insert_inputs_length split: if_splits)

lemma read_hash_map:
  assumes "length H = unat n" "dat = generate_dat_from_hash_map H @ post" "unat n * 24 < 2 ^ 32"
  shows "read_array dec_HashSignalInfo 24 n dat 0 = Inr H"
proof -
  let ?enc = "\<lambda>e. rev (to_be_bytes64 (hash e)) @ rev (to_be_bytes64 (signalid e)) @ rev (to_be_bytes64 (signalsize e))"
  have "read_array dec_HashSignalInfo 24 n dat 0 = Inr (map dec_HashSignalInfo (map ?enc H))"
    by (rule read_array_ok [where pre = "[]" and post = post])
      (use assms in \<open>simp_all add: generate_dat_from_hash_map_def\<close>)
  moreover have "dec_HashSignalInfo (?enc e) = e" for e
    by (simp add: dec_HashSignalInfo_def)
  ultimately show ?thesis by (simp add: comp_def)
qed

lemma read_witness_list:
  assumes "length ws = unat n" "dat = pre @ generate_dat_witness_to_signal_list ws @ post"
    and "length pre = unat inisize" "unat n * 8 < 2 ^ 32"
  shows "read_array rd64 8 n dat inisize = Inr (map of_nat ws)"
proof -
  have "read_array rd64 8 n dat inisize = Inr (map rd64 (map (\<lambda>s. rev (to_be_bytes64 (of_nat s))) ws))"
    by (rule read_array_ok [where pre = pre and post = post])
      (use assms in \<open>simp_all add: generate_dat_witness_to_signal_list_def\<close>)
  then show ?thesis by (simp add: comp_def)
qed

lemma length_dat_parts:
  "length (generate_dat_from_hash_map H) = length H * 24"
  "length (generate_dat_witness_to_signal_list ws) = length ws * 8"
  by (induction H, auto simp: generate_dat_from_hash_map_def)
    (induction ws, auto simp: generate_dat_witness_to_signal_list_def)

lemma loadCircuit_result:
  assumes f: "fr_field G P" and ok: "producer_ok P sz producer"
    and dat: "generate_dat_file hasher producer = Some dat" and l: "length dat < 2 ^ 32"
  shows "\<exists>H C. generate_hash_map hasher (main_input_list producer) (input_hash_map_entry_size producer) = Some H \<and>
    length C = length (field_constant_list producer) \<and>
    (\<forall>i < length C. fr_rep P (C ! i) (field_constant_list producer ! i)) \<and>
    loadCircuit P sz dat =
      (if io_map producer \<noteq> [] \<and> (\<exists>fs \<in> set (busid_field_info producer). 10 < length fs)
       then Inl Heap_overflow
       else Inr \<lparr>InputHashMap = H, witness2SignalList = map of_nat (witness_to_signal_list producer),
         circuitConstants = C, templateInsId2IOSignalInfo = io_table (io_map producer),
         busInsId2FieldInfo = (if io_map producer = [] then None
           else Some (map (map bus_field) (busid_field_info producer)))\<rparr>)"
proof -
  note o = ok [unfolded producer_ok_def]
  let ?k = "8 + 8 * fr_n64 P" and ?ns = "field_constant_list producer"
  let ?ws = "witness_to_signal_list producer"
  obtain H where H: "generate_hash_map hasher (main_input_list producer) (input_hash_map_entry_size producer) = Some H"
    using dat by (auto simp: generate_dat_file_def split: option.splits)
  have lH: "length H = unat (size_of_input_hashmap sz)" using generate_hash_map_length [OF H] o by simp
  obtain cs where cs: "generate_dat_constant_list (qv P) (size_32_bit producer) ?ns = Some (concat cs)"
    "length cs = length ?ns" "\<forall>c \<in> set cs. length c = ?k"
    "\<forall>i < length ?ns. fr_rep P (dec_FrElement (fr_n64 P) (cs ! i)) (?ns ! i)"
    using fr_field.dat_constants_rep [OF f, of "size_32_bit producer" ?ns] o by blast
  let ?io = "if length (io_map producer) > 0
     then generate_dat_io_signals_info (io_map producer) @ generate_dat_bus_field_info (busid_field_info producer) else []"
  have io0: "generate_dat_io_signals_info [] = []" by (simp add: generate_dat_io_signals_info_def)
  have d: "dat = generate_dat_from_hash_map H @ generate_dat_witness_to_signal_list ?ws @ concat cs @ ?io"
    using dat H cs(1) o io0 by (auto simp: generate_dat_file_def)
  have lc: "length (concat cs) = length ?ns * ?k" using length_concat_const [OF cs(3)] cs(2) by simp
  have ld: "length dat = length H * 24 + length ?ws * 8 + length ?ns * ?k + length ?io"
    unfolding d by (simp only: length_append length_dat_parts lc)
  have b: "unat (size_of_input_hashmap sz) * 24 < 2 ^ 32" "unat (size_of_witness sz) * 8 < 2 ^ 32"
    "unat (size_of_constants sz) * ?k < 2 ^ 32"
  proof -
    have "unat (size_of_constants sz) = length ?ns" "unat (size_of_witness sz) = length ?ws" using o by simp_all
    then show "unat (size_of_input_hashmap sz) * 24 < 2 ^ 32" "unat (size_of_witness sz) * 8 < 2 ^ 32"
      "unat (size_of_constants sz) * ?k < 2 ^ 32" using l ld lH by simp_all
  qed
  let ?i1 = "dsize_of (size_of_input_hashmap sz) 24" and ?d2 = "dsize_of (size_of_witness sz) 8"
  let ?d3 = "dsize_of (size_of_constants sz) ?k"
  have u: "unat ?i1 = length H * 24" "unat ?d2 = length ?ws * 8" "unat ?d3 = length ?ns * ?k"
    using unat_dsize [OF b(1)] unat_dsize [OF b(2)] unat_dsize [OF b(3)] lH o by simp_all
  have i2: "unat (?i1 + ?d2) = length H * 24 + length ?ws * 8"
    using unat_add_u32 [of ?i1 ?d2] u l ld by simp
  have i3: "unat (?i1 + ?d2 + ?d3) = length H * 24 + length ?ws * 8 + length ?ns * ?k"
    using unat_add_u32 [of "?i1 + ?d2" ?d3] i2 u l ld by simp
  have r1: "read_array dec_HashSignalInfo 24 (size_of_input_hashmap sz) dat 0 = Inr H"
    by (rule read_hash_map [OF lH d b(1)])
  have r2: "read_array rd64 8 (size_of_witness sz) dat ?i1 = Inr (map of_nat ?ws)"
    by (rule read_witness_list [where pre = "generate_dat_from_hash_map H" and post = "concat cs @ ?io"])
      (use o d u(1) b(2) length_dat_parts in simp_all)
  let ?C = "map (dec_FrElement (fr_n64 P)) cs"
  have r3: "read_array (dec_FrElement (fr_n64 P)) ?k (size_of_constants sz) dat (?i1 + ?d2) = Inr ?C"
    by (rule read_array_ok [where pre = "generate_dat_from_hash_map H @ generate_dat_witness_to_signal_list ?ws" and post = ?io])
      (use cs(2,3) o d i2 b(3) length_dat_parts in simp_all)
  have r4: "load_io sz dat (?i1 + ?d2 + ?d3) =
      (if io_map producer \<noteq> [] \<and> (\<exists>fs \<in> set (busid_field_info producer). 10 < length fs) then Inl Heap_overflow
       else Inr (io_table (io_map producer),
         if io_map producer = [] then None else Some (map (map bus_field) (busid_field_info producer))))"
  proof (cases "io_map producer = []")
    case True
    then have "size_of_io_map sz = 0" using o by (simp add: unat_eq_zero)
    then show ?thesis using True by (simp add: load_io_def io_table_def)
  next
    case False
    let ?pre = "generate_dat_from_hash_map H @ generate_dat_witness_to_signal_list ?ws @ concat cs"
    have lp: "length ?pre = unat (?i1 + ?d2 + ?d3)" by (simp only: length_append length_dat_parts lc i3)
    have "?k = 4 * (2 + 2 * fr_n64 P)" by simp
    then have "length H * 24 + length ?ws * 8 + length ?ns * ?k =
        4 * (length H * 6 + length ?ws * 2 + length ?ns * (2 + 2 * fr_n64 P))"
      by (simp only: distrib_left mult.assoc mult.left_commute)
    then have "length ?pre mod 4 = 0" unfolding lp i3 by (simp only: mod_mult_self1_is_0)
    then show ?thesis
      using load_io_ok [OF False _ _ _ lp, of sz "busid_field_info producer" dat] False o d l by simp
  qed
  show ?thesis
  proof (intro exI conjI)
    show "\<forall>i < length ?C. fr_rep P (?C ! i) (?ns ! i)" using cs(2,4) by simp
    show "length ?C = length ?ns" using cs(2) by simp
    have c3: "(if size_of_constants sz > 0
            then map_sum id (\<lambda>C. (C, ?i1 + ?d2, dsize_of (size_of_constants sz) (sizeof_FrElement P)))
              (read_array (dec_FrElement (fr_n64 P)) (sizeof_FrElement P) (size_of_constants sz) dat (?i1 + ?d2))
            else Inr ([], ?i1, ?d2)) = Inr (?C, if size_of_constants sz > 0 then (?i1 + ?d2, ?d3) else (?i1, ?d2))"
    proof (cases "size_of_constants sz > 0")
      case False
      then have "length cs = 0" using cs(2) o by (simp add: word_greater_zero_iff)
      then show ?thesis using False by simp
    qed (simp add: sizeof_FrElement_def r3)
    have z: "?d3 = 0" if "\<not> size_of_constants sz > 0"
      using that by (simp add: word_greater_zero_iff dsize_of_def)
    show "loadCircuit P sz dat =
      (if io_map producer \<noteq> [] \<and> (\<exists>fs \<in> set (busid_field_info producer). 10 < length fs)
       then Inl Heap_overflow
       else Inr \<lparr>InputHashMap = H, witness2SignalList = map of_nat ?ws,
         circuitConstants = ?C, templateInsId2IOSignalInfo = io_table (io_map producer),
         busInsId2FieldInfo = (if io_map producer = [] then None
           else Some (map (map bus_field) (busid_field_info producer)))\<rparr>)"
      unfolding loadCircuit_def r1 Let_def sum.case r2 c3
      using r4 z by (cases "size_of_constants sz > 0") simp_all
  qed (rule H)
qed

lemma io_table_lookup:
  assumes "distinct (map fst m)" "\<forall>(t, ss) \<in> set m. t < 2 ^ 32" "(t, ss) \<in> set m"
  shows "io_table m (of_nat t) = Some (map io_field ss)"
proof -
  have "inj_on (of_nat :: nat \<Rightarrow> u32) (set (map fst m))"
  proof (rule inj_onI)
    fix x y assume "x \<in> set (map fst m)" "y \<in> set (map fst m)" and e: "(of_nat x :: u32) = of_nat y"
    then have "x < 2 ^ 32" "y < 2 ^ 32" using assms(2) by auto
    then show "x = y" using arg_cong [OF e, of unat] by (simp add: unat_of_nat)
  qed
  then have "distinct (map (of_nat :: nat \<Rightarrow> u32) (map fst m))" using assms(1) distinct_map by blast
  moreover have e: "map fst (map (\<lambda>(t, ss). (of_nat t :: u32, map io_field ss)) m) = map of_nat (map fst m)"
    by (induction m) auto
  ultimately have d: "distinct (map fst (rev (map (\<lambda>(t, ss). (of_nat t :: u32, map io_field ss)) m)))"
    by (simp only: rev_map [symmetric] distinct_rev e)
  show ?thesis unfolding io_table_def
    by (rule map_of_is_SomeI [OF d]) (use assms(3) in force)
qed

subsection \<open>Properties\<close>

text \<open>A producer with one input, two constants, one template and one bus, for the concrete instances.\<close>

definition demo_producer :: CProducer where
  "demo_producer = \<lparr>main_input_list = [(''in'', 2, 2)], input_hash_map_entry_size = 1,
     witness_to_signal_list = [0, 1, 3], field_constant_list = [- 5, 4294967296],
     io_map = [(7, [\<lparr>io_offset = 1, io_lengths = [2, 3], io_size = 6, io_bus_id = None\<rparr>])],
     busid_field_info = [[\<lparr>fd_dimensions = [], fd_size = 1, fd_offset = 0, fd_bus_id = Some 2\<rparr>]],
     prime_value = qv bn128_params, prime_is_goldilocks = False, size_32_bit = 8\<rparr>"

definition demo_dat_sizes :: circuit_sizes where
  "demo_dat_sizes = \<lparr>main_input_signal_start = 2, main_input_signal_no = 2, total_signal_no = 5,
     number_of_components = 1, size_of_input_hashmap = 1, size_of_witness = 3, size_of_constants = 2,
     size_of_io_map = 1, size_of_bus_field_map = 1\<rparr>"

lemma demo_producer_ok: "producer_ok bn128_params demo_dat_sizes demo_producer"
  by (simp add: producer_ok_def demo_producer_def demo_dat_sizes_def bn128_fields)

lemma demo_dat: "\<exists>dat. generate_dat_file hasher demo_producer = Some dat \<and> length dat < 1000"
proof -
  let ?H = "[\<lparr>hash = hasher ''in'', signalid = 2, signalsize = 2\<rparr>]"
  have H: "generate_hash_map hasher (main_input_list demo_producer) (input_hash_map_entry_size demo_producer) = Some ?H"
    by (simp add: demo_producer_def generate_hash_map_def empty_entry_def)
  obtain cs where cs: "generate_dat_constant_list (qv bn128_params) 8 [- 5, 4294967296] = Some (concat cs)"
    "length cs = 2" "\<forall>c \<in> set cs. length c = 8 + 8 * fr_n64 bn128_params"
    using bn128.dat_constants_rep [of 8 "[- 5, 4294967296]"] by (auto simp: bn128_fields)
  have "length (concat cs) = 80" using length_concat_const [OF cs(3)] cs(2) by (simp add: bn128_fields)
  then show ?thesis using cs(1) unfolding generate_dat_file_def H
    by (simp add: demo_producer_def length_dat_parts dat_io_words dat_bus_words list_words_def def_words_def
        io_field_def bus_field_def)
qed

text \<open>
  Property C24. The witness program reads back what the compiler wrote. For a file below 4 GiB
  and buses of at most ten fields, \<open>loadCircuit\<close> on the bytes of \<open>generate_dat_file\<close> returns the
  compiler's hash table and witness list, constants of which each represents the compiler's
  number (whatever its size and sign), for every template the definitions of its signals, and
  the fields of the buses.
\<close>

theorem loadCircuit_reads_dat:
  assumes "fr_field G P" "producer_ok P sz producer"
    and "generate_dat_file hasher producer = Some dat" "length dat < 2 ^ 32"
    and "\<forall>fs \<in> set (busid_field_info producer). length fs \<le> 10"
    and "distinct (map fst (io_map producer))" "\<forall>(t, ss) \<in> set (io_map producer). t < 2 ^ 32"
  shows "\<exists>c. loadCircuit P sz dat = Inr c \<and>
    generate_hash_map hasher (main_input_list producer) (input_hash_map_entry_size producer) = Some (InputHashMap c) \<and>
    witness2SignalList c = map of_nat (witness_to_signal_list producer) \<and>
    length (circuitConstants c) = length (field_constant_list producer) \<and>
    (\<forall>i < length (circuitConstants c). fr_rep P (circuitConstants c ! i) (field_constant_list producer ! i)) \<and>
    (\<forall>(t, ss) \<in> set (io_map producer). templateInsId2IOSignalInfo c (of_nat t) = Some (map io_field ss)) \<and>
    (io_map producer \<noteq> [] \<longrightarrow> busInsId2FieldInfo c = Some (map (map bus_field) (busid_field_info producer)))"
proof -
  obtain H C where r: "generate_hash_map hasher (main_input_list producer) (input_hash_map_entry_size producer) = Some H"
    "length C = length (field_constant_list producer)"
    "\<forall>i < length C. fr_rep P (C ! i) (field_constant_list producer ! i)"
    "loadCircuit P sz dat =
      (if io_map producer \<noteq> [] \<and> (\<exists>fs \<in> set (busid_field_info producer). 10 < length fs) then Inl Heap_overflow
       else Inr \<lparr>InputHashMap = H, witness2SignalList = map of_nat (witness_to_signal_list producer),
         circuitConstants = C, templateInsId2IOSignalInfo = io_table (io_map producer),
         busInsId2FieldInfo = (if io_map producer = [] then None
           else Some (map (map bus_field) (busid_field_info producer)))\<rparr>)"
    using loadCircuit_result [OF assms(1-4)] by blast
  have n: "\<not> (\<exists>fs \<in> set (busid_field_info producer). 10 < length fs)" using assms(5) by (simp add: not_less)
  have "io_table (io_map producer) (of_nat t) = Some (map io_field ss)"
    if x: "(t, ss) \<in> set (io_map producer)" for t ss
    using io_table_lookup [OF assms(6,7) x] .
  then show ?thesis using r n by (intro exI [of _ "\<lparr>InputHashMap = H,
      witness2SignalList = map of_nat (witness_to_signal_list producer),
      circuitConstants = C, templateInsId2IOSignalInfo = io_table (io_map producer),
      busInsId2FieldInfo = (if io_map producer = [] then None
        else Some (map (map bus_field) (busid_field_info producer)))\<rparr>"]) auto
qed

theorem loadCircuit_reads_dat_witness:
  "\<exists>dat c. generate_dat_file fnv1a demo_producer = Some dat \<and>
    loadCircuit bn128_params demo_dat_sizes dat = Inr c \<and>
    fr_rep bn128_params (circuitConstants c ! 0) (- 5) \<and>
    templateInsId2IOSignalInfo c 7 = Some [\<lparr>offset = 1, lengths = [3], def_size = 6, busId = 0\<rparr>]"
proof -
  obtain dat where d: "generate_dat_file fnv1a demo_producer = Some dat" "length dat < 2 ^ 32"
    using demo_dat [of fnv1a] by fastforce
  have "\<forall>fs \<in> set (busid_field_info demo_producer). length fs \<le> 10" "distinct (map fst (io_map demo_producer))"
    "\<forall>(t, ss) \<in> set (io_map demo_producer). t < 2 ^ 32" by (simp_all add: demo_producer_def)
  from loadCircuit_reads_dat [OF bn128_fr_field demo_producer_ok d this]
  obtain c where c: "loadCircuit bn128_params demo_dat_sizes dat = Inr c"
    "length (circuitConstants c) = length (field_constant_list demo_producer)"
    "\<forall>i < length (circuitConstants c). fr_rep bn128_params (circuitConstants c ! i) (field_constant_list demo_producer ! i)"
    "\<forall>(t, ss) \<in> set (io_map demo_producer). templateInsId2IOSignalInfo c (of_nat t) = Some (map io_field ss)"
    by blast
  have "fr_rep bn128_params (circuitConstants c ! 0) (- 5)"
    using c(2,3) by (force simp: demo_producer_def)
  moreover have "templateInsId2IOSignalInfo c 7 = Some [\<lparr>offset = 1, lengths = [3], def_size = 6, busId = 0\<rparr>]"
    using c(4) by (simp add: demo_producer_def io_field_def)
  ultimately show ?thesis using d(1) c(1) by blast
qed

text \<open>
  \<open>loadCircuit\<close> allocates ten definitions for every bus. When a circuit has a bus
  with more fields than that and any template with inputs or outputs in the map, loading the
  compiler's own file writes past the end of an allocation.
\<close>

lemma loadCircuit_bus_overflow:
  assumes "fr_field G P" "producer_ok P sz producer"
    and "generate_dat_file hasher producer = Some dat" "length dat < 2 ^ 32"
    and "io_map producer \<noteq> []" "fs \<in> set (busid_field_info producer)" "10 < length fs"
  shows "loadCircuit P sz dat = Inl Heap_overflow"
  using loadCircuit_result [OF assms(1-4)] assms(5-7) by auto

text \<open>Field 11 of a bus, for the instance of the overflow.\<close>

definition wide_producer :: CProducer where
  "wide_producer = demo_producer\<lparr>busid_field_info :=
     [replicate 11 \<lparr>fd_dimensions = [], fd_size = 1, fd_offset = 0, fd_bus_id = None\<rparr>]\<rparr>"

lemma loadCircuit_bus_overflow_witness:
  "\<exists>dat. generate_dat_file fnv1a wide_producer = Some dat \<and>
    loadCircuit bn128_params demo_dat_sizes dat = Inl Heap_overflow"
proof -
  have w: "producer_ok bn128_params demo_dat_sizes wide_producer"
    by (simp add: producer_ok_def wide_producer_def demo_producer_def demo_dat_sizes_def bn128_fields)
  have e: "generate_dat_file fnv1a wide_producer =
      map_option (\<lambda>dat. take (length dat - 20) dat @ generate_dat_bus_field_info (busid_field_info wide_producer))
        (generate_dat_file fnv1a demo_producer)"
    by (auto simp: generate_dat_file_def wide_producer_def demo_producer_def generate_dat_bus_field_info_def
        dat_field_def put32_enc split: option.splits)
  have "length (generate_dat_bus_field_info (busid_field_info wide_producer)) = 180"
    by (simp add: wide_producer_def generate_dat_bus_field_info_def dat_field_def put32_enc length_concat
        map_replicate_const sum_list_replicate)
  then obtain dat where d: "generate_dat_file fnv1a wide_producer = Some dat" "length dat < 2 ^ 32"
    using demo_dat [of fnv1a] unfolding e by force
  show ?thesis
    using loadCircuit_bus_overflow [OF bn128_fr_field w d, of "replicate 11 \<lparr>fd_dimensions = [], fd_size = 1, fd_offset = 0, fd_bus_id = None\<rparr>"] d(1)
    by (auto simp: wide_producer_def demo_producer_def)
qed

end
