(* ===== verification/JsonInput.thy ===== *)
theory JsonInput
  imports CalcWit "HOL-Library.List_Lexorder" "HOL-Library.Multiset"
begin

text \<open>
  How the witness program reads its inputs (\<open>common/main.cpp\<close>): flattening nested objects and
  arrays of objects to qualified names (\<open>qualify_input\<close>), checking that an array holds values of
  one type (\<open>check_type\<close>), turning numbers and strings into field elements
  (\<open>json2FrElements\<close>), and setting the circuit's inputs with them (\<open>loadJson\<close>). The JSON library
  is not part of the circuit's sources: a parsed document is a value of the datatype \<open>json\<close>,
  whose objects are the ordered maps of that library.
\<close>

subsection \<open>Documents\<close>

text \<open>\<open>Json_float m e\<close> is the double \<open>m * 2 ^ e\<close>.\<close>

datatype json = Json_null | Json_boolean bool | Json_integer int | Json_unsigned nat
  | Json_float int int | Json_string string | Json_array "json list" | Json_object "(string \<times> json) list"

datatype value_t = Value_null | Value_object | Value_array | Value_string | Value_boolean
  | Value_number_integer | Value_number_unsigned | Value_number_float

fun json_type :: "json \<Rightarrow> value_t" where
  "json_type Json_null = Value_null"
| "json_type (Json_boolean b) = Value_boolean"
| "json_type (Json_integer v) = Value_number_integer"
| "json_type (Json_unsigned v) = Value_number_unsigned"
| "json_type (Json_float m e) = Value_number_float"
| "json_type (Json_string s) = Value_string"
| "json_type (Json_array vs) = Value_array"
| "json_type (Json_object fs) = Value_object"

fun is_array :: "json \<Rightarrow> bool" where
  "is_array (Json_array vs) = True"
| "is_array _ = False"

text \<open>\<open>in1[key] = v\<close>: the entries of an object are kept in the order of their keys.\<close>

fun json_put :: "string \<Rightarrow> json \<Rightarrow> (string \<times> json) list \<Rightarrow> (string \<times> json) list" where
  "json_put k v [] = [(k, v)]"
| "json_put k v ((k', v') # xs) =
     (if k = k' then (k, v) # xs
      else if k < k' then (k, v) # (k', v') # xs
      else (k', v') # json_put k v xs)"

subsection \<open>Numbers\<close>

definition check_valid_number :: "string \<Rightarrow> nat \<Rightarrow> bool" where
  "check_valid_number s radix =
     (if radix = 16
      then foldl (\<lambda>is_valid c. is_valid \<and>
             ((48 \<le> (of_char c :: nat) \<and> (of_char c :: nat) \<le> 57) \<or>
              (97 \<le> (of_char c :: nat) \<and> (of_char c :: nat) \<le> 102) \<or>
              (65 \<le> (of_char c :: nat) \<and> (of_char c :: nat) \<le> 70))) True s
      else foldl (\<lambda>is_valid c. is_valid \<and>
             (48 \<le> (of_char c :: nat) \<and> (of_char c :: nat) < 48 + radix)) True s)"

text \<open>
  A quotient by a power of two, rounded to the nearest integer and halves to the even one; the
  conversion of an integer to a double, which keeps 53 bits; and a double printed with
  \<open>std::fixed\<close> and a precision of 0.
\<close>

definition round_shift :: "nat \<Rightarrow> nat \<Rightarrow> nat" where
  "round_shift a k =
     (let q = a div 2 ^ k; r = a mod 2 ^ k
      in if 2 * r > 2 ^ k \<or> (2 * r = 2 ^ k \<and> odd q) then q + 1 else q)"

definition double_of_nat :: "nat \<Rightarrow> nat" where
  "double_of_nat a = (let k = bit_length a - 53 in round_shift a k * 2 ^ k)"

definition fixed_0 :: "bool \<Rightarrow> nat \<Rightarrow> string" where
  "fixed_0 negative a = (if negative then CHR ''-'' # dec_str a else dec_str a)"

text \<open>The string and the base that \<open>json2FrElements\<close> passes to \<open>Fr_str2element\<close>.\<close>

fun number_string :: "json \<Rightarrow> cw_error + string \<times> nat" where
  "number_string (Json_string s_aux) =
     (let possible_prefix = take 2 s_aux;
          (s, radix) = (if possible_prefix = ''0b'' \<or> possible_prefix = ''0B'' then (drop 2 s_aux, 2)
                        else if possible_prefix = ''0o'' \<or> possible_prefix = ''0O'' then (drop 2 s_aux, 8)
                        else if possible_prefix = ''0x'' \<or> possible_prefix = ''0X'' then (drop 2 s_aux, 16)
                        else (s_aux, 10))
      in if \<not> check_valid_number s radix then Inl (Invalid_number s_aux) else Inr (s, radix))"
| "number_string (Json_integer v) = Inr (fixed_0 (v < 0) (double_of_nat (nat \<bar>v\<bar>)), 10)"
| "number_string (Json_unsigned v) = Inr (fixed_0 False (double_of_nat v), 10)"
| "number_string (Json_float m e) =
     Inr (fixed_0 (m < 0) (if e \<ge> 0 then nat \<bar>m\<bar> * 2 ^ nat e else round_shift (nat \<bar>m\<bar>) (nat (- e))), 10)"
| "number_string _ = Inl Invalid_type"

text \<open>\<open>v0\<close> is the uninitialised local element.\<close>

fun json2FrElements :: "mpz_api \<Rightarrow> fr_params \<Rightarrow> fr_globals \<Rightarrow> FrElement \<Rightarrow> json \<Rightarrow> FrElement list \<Rightarrow>
      cw_error + FrElement list"
  and json2_list :: "mpz_api \<Rightarrow> fr_params \<Rightarrow> fr_globals \<Rightarrow> FrElement \<Rightarrow> json list \<Rightarrow> FrElement list \<Rightarrow>
      cw_error + FrElement list" where
  "json2FrElements Z P S v0 (Json_array vs) vval = json2_list Z P S v0 vs vval"
| "json2FrElements Z P S v0 val vval =
     (case number_string val of
        Inl e \<Rightarrow> Inl e
      | Inr (s, radix) \<Rightarrow>
          (case Fr_str2element Z P S (Ext 0) s radix (\<lambda>_. v0) of
             None \<Rightarrow> Inl Out_of_bounds
           | Some m \<Rightarrow> Inr (vval @ [m (Ext 0)])))"
| "json2_list Z P S v0 [] vval = Inr vval"
| "json2_list Z P S v0 (v # vs) vval =
     (case json2FrElements Z P S v0 v vval of
        Inl e \<Rightarrow> Inl e
      | Inr vval \<Rightarrow> json2_list Z P S v0 vs vval)"

subsection \<open>Types and names\<close>

fun check_type :: "string \<Rightarrow> json \<Rightarrow> cw_error + value_t"
  and check_rest :: "string \<Rightarrow> value_t \<Rightarrow> json list \<Rightarrow> cw_error + value_t" where
  "check_type prefix (Json_array []) = Inr Value_null"
| "check_type prefix (Json_array (v # vs)) =
     (case check_type prefix v of
        Inl e \<Rightarrow> Inl e
      | Inr t \<Rightarrow> check_rest prefix t vs)"
| "check_type prefix v =
     Inr (if json_type v \<in> {Value_number_integer, Value_number_unsigned, Value_string}
          then Value_number_integer else json_type v)"
| "check_rest prefix t [] = Inr t"
| "check_rest prefix t (v # vs) =
     (case check_type prefix v of
        Inl e \<Rightarrow> Inl e
      | Inr t' \<Rightarrow> if t \<noteq> t' then Inl (Types_differ prefix) else check_rest prefix t vs)"

function (sequential) qualify_input :: "string \<Rightarrow> json \<Rightarrow> (string \<times> json) list \<Rightarrow> cw_error + (string \<times> json) list"
  and qualify_input_list :: "string \<Rightarrow> json \<Rightarrow> (string \<times> json) list \<Rightarrow> cw_error + (string \<times> json) list"
  and qualify_elements :: "string \<Rightarrow> nat \<Rightarrow> json list \<Rightarrow> (string \<times> json) list \<Rightarrow> cw_error + (string \<times> json) list"
  and qualify_fields :: "string \<Rightarrow> (string \<times> json) list \<Rightarrow> (string \<times> json) list \<Rightarrow> cw_error + (string \<times> json) list" where
  "qualify_input prefix (Json_array vs) in1 =
     (if length vs > 0
      then (case check_type prefix (Json_array vs) of
              Inl e \<Rightarrow> Inl e
            | Inr t \<Rightarrow> if t = Value_object then qualify_input_list prefix (Json_array vs) in1
                       else Inr (json_put prefix (Json_array vs) in1))
      else Inr (json_put prefix (Json_array vs) in1))"
| "qualify_input prefix (Json_object fs) in1 = qualify_fields prefix fs in1"
| "qualify_input prefix v in1 = Inr (json_put prefix v in1)"
| "qualify_input_list prefix (Json_array vs) in1 = qualify_elements prefix 0 vs in1"
| "qualify_input_list prefix v in1 = qualify_input prefix v in1"
| "qualify_elements prefix i [] in1 = Inr in1"
| "qualify_elements prefix i (v # vs) in1 =
     (let new_prefix = prefix @ ''['' @ dec_str i @ '']''
      in case qualify_input_list new_prefix v in1 of
           Inl e \<Rightarrow> Inl e
         | Inr in1 \<Rightarrow> qualify_elements prefix (i + 1) vs in1)"
| "qualify_fields prefix [] in1 = Inr in1"
| "qualify_fields prefix ((key, v) # fs) in1 =
     (let new_prefix = (if length prefix = 0 then key else prefix @ ''.'' @ key)
      in case qualify_input new_prefix v in1 of
           Inl e \<Rightarrow> Inl e
         | Inr in1 \<Rightarrow> qualify_fields prefix fs in1)"
  by pat_completeness auto

text \<open>
  The calls end: an element or a field is smaller than its document; \<open>qualify_input\<close> hands an
  array on to \<open>qualify_input_list\<close>, which hands everything else back.
\<close>

termination
  by (relation "measures
      [\<lambda>x. case x of Inl (Inl (p, v, m)) \<Rightarrow> size v | Inl (Inr (p, v, m)) \<Rightarrow> size v
          | Inr (Inl (p, i, vs, m)) \<Rightarrow> size_list size vs
          | Inr (Inr (p, fs, m)) \<Rightarrow> size_list (size_prod (\<lambda>_. 0) size) fs,
       \<lambda>x. case x of Inl (Inl (p, v, m)) \<Rightarrow> if is_array v then 1 else 0
          | Inl (Inr (p, v, m)) \<Rightarrow> if is_array v then 0 else 1
          | Inr y \<Rightarrow> 0]") (auto simp: size_list_conv_sum_list)

subsection \<open>Setting the inputs\<close>

fun load_items :: "mpz_api \<Rightarrow> fr_params \<Rightarrow> fr_globals \<Rightarrow> FrElement \<Rightarrow> (Circom_CalcWit \<Rightarrow> Circom_CalcWit) \<Rightarrow>
    circuit_sizes \<Rightarrow> HashSignalInfo list \<Rightarrow> (string \<times> json) list \<Rightarrow> Circom_CalcWit \<Rightarrow>
    cw_error + Circom_CalcWit" where
  "load_items Z P S v0 run sz H [] ctx = Inr ctx"
| "load_items Z P S v0 run sz H ((key, val) # j) ctx =
     (let h = fnv1a key
      in case json2FrElements Z P S v0 val [] of
           Inl e \<Rightarrow> Inl e
         | Inr v \<Rightarrow>
             (case getInputSignalSize sz H h of
                Inl e \<Rightarrow> Inl e
              | Inr isize \<Rightarrow>
                  let signalSize = ucast isize :: u32
                  in if length v < unat signalSize then Inl (Not_enough_values key)
                     else if length v > unat signalSize then Inl (Too_many_values key)
                     else (case set_inputs run sz H (map (\<lambda>i. (h, of_nat i, v ! i)) [0..<length v]) ctx of
                             Inl e \<Rightarrow> Inl e
                           | Inr ctx \<Rightarrow> load_items Z P S v0 run sz H j ctx)))"

definition loadJson :: "mpz_api \<Rightarrow> fr_params \<Rightarrow> fr_globals \<Rightarrow> FrElement \<Rightarrow> (Circom_CalcWit \<Rightarrow> Circom_CalcWit) \<Rightarrow>
    circuit_sizes \<Rightarrow> HashSignalInfo list \<Rightarrow> json \<Rightarrow> Circom_CalcWit \<Rightarrow> cw_error + Circom_CalcWit" where
  "loadJson Z P S v0 run sz H jin ctx =
     (case qualify_input '''' jin [] of
        Inl e \<Rightarrow> Inl e
      | Inr j \<Rightarrow>
          let ctx = (if length j = 0 then tryRunCircuit run ctx else ctx)
          in load_items Z P S v0 run sz H j ctx)"

subsection \<open>Numbers of a document\<close>

text \<open>
  The numbers that a document of nested arrays denotes, where the program reads them exactly:
  strings of digits with an optional base prefix, and integers below \<open>2 ^ 53\<close> in absolute value.
\<close>

fun num_of :: "json \<Rightarrow> int option" where
  "num_of (Json_string s) =
     (case number_string (Json_string s) of
        Inl e \<Rightarrow> None
      | Inr (t, radix) \<Rightarrow> if t = [] then None else Some (int (num_val radix t)))"
| "num_of (Json_integer v) = (if \<bar>v\<bar> < 2 ^ 53 then Some v else None)"
| "num_of (Json_unsigned v) = (if v < 2 ^ 53 then Some (int v) else None)"
| "num_of _ = None"

fun json_nums :: "json \<Rightarrow> int list option"
  and json_nums_list :: "json list \<Rightarrow> int list option" where
  "json_nums (Json_array vs) = json_nums_list vs"
| "json_nums v = map_option (\<lambda>n. [n]) (num_of v)"
| "json_nums_list [] = Some []"
| "json_nums_list (v # vs) =
     (case json_nums v of None \<Rightarrow> None | Some ns \<Rightarrow> map_option ((@) ns) (json_nums_list vs))"

lemma foldl_conj: "foldl (\<lambda>b c. b \<and> Q c) a s \<longleftrightarrow> a \<and> (\<forall>c \<in> set s. Q c)"
  by (induction s arbitrary: a) auto

lemma check_valid_number_iff:
  "radix \<in> {2, 8, 10, 16} \<Longrightarrow> check_valid_number s radix \<longleftrightarrow> (\<forall>c \<in> set s. hex_val c < radix)"
proof -
  have "(48 \<le> (of_char c :: nat) \<and> (of_char c :: nat) < 48 + radix) \<longleftrightarrow> hex_val c < radix"
    if "radix \<in> {2, 8, 10}" for c
    using that by (auto simp: hex_val_def Let_def)
  moreover have "((48 \<le> (of_char c :: nat) \<and> (of_char c :: nat) \<le> 57) \<or>
      (97 \<le> (of_char c :: nat) \<and> (of_char c :: nat) \<le> 102) \<or>
      (65 \<le> (of_char c :: nat) \<and> (of_char c :: nat) \<le> 70)) \<longleftrightarrow> hex_val c < 16" for c
    by (auto simp: hex_val_def Let_def)
  ultimately show "radix \<in> {2, 8, 10, 16} \<Longrightarrow> ?thesis"
    unfolding check_valid_number_def foldl_conj by auto
qed

lemma number_string_string:
  assumes "number_string (Json_string s) = Inr (t, radix)"
  shows "radix \<in> {2, 8, 10, 16} \<and> (t \<noteq> [] \<longrightarrow> is_num radix t)"
  using assms by (auto simp: is_num_def check_valid_number_iff Let_def split: if_splits)

lemma double_exact: "a < 2 ^ 53 \<Longrightarrow> double_of_nat a = a"
proof -
  assume a: "a < 2 ^ 53"
  have "bit_length a \<le> 53"
  proof (cases "a = 0")
    case True
    then show ?thesis by (simp add: bit_length.simps)
  next
    case False
    then have "(2::nat) ^ (bit_length a - 1) < 2 ^ 53" using bit_length_bounds [of a] a by linarith
    then have "bit_length a - 1 < 53" by (rule power_less_imp_less_exp [rotated]) simp
    then show ?thesis by simp
  qed
  then show ?thesis by (simp add: double_of_nat_def round_shift_def)
qed

context fr_mpz
begin

lemma str2element_value:
  assumes "mpz_init_set_str Z s radix = (0, v)" "length (longVal (m pE)) = fr_n64 P"
  shows "\<exists>m'. Fr_str2element Z P S pE s radix m = Some m' \<and> fr_rep P (m' pE) v"
proof -
  let ?v = "v mod qv P"
  have "Fr_str2element Z P S pE s radix m = Fr_fromMpz Z P pE ?v m"
    using assms(1) q_pos by (simp add: Fr_str2element_def fdiv_r_law S_q)
  moreover have "?v mod qv P = v mod qv P" by simp
  ultimately show ?thesis using fromMpz_rep [where m = m, OF _ _ assms(2), of ?v] q_pos
    by (auto simp: fr_rep_mod)
qed

lemma set_str_fixed:
  "mpz_init_set_str Z (fixed_0 neg a) 10 = (0, if neg then - int a else int a)"
  using set_str_base_law [of 10 "dec_str a"] set_str_neg_law [of 10 "dec_str a"]
  by (simp add: fixed_0_def is_num_10 is_decimal_str num_val_10 dec_val_str)

lemma number_rep:
  assumes "num_of v = Some n" "length (longVal v0) = fr_n64 P"
  shows "\<exists>s radix m. number_string v = Inr (s, radix) \<and>
    Fr_str2element Z P S (Ext 0) s radix (\<lambda>_. v0) = Some m \<and> fr_rep P (m (Ext 0)) n"
proof -
  have e: ?thesis if "number_string v = Inr (s, radix)" "mpz_init_set_str Z s radix = (0, n)" for s radix
    using that str2element_value [where m = "\<lambda>_. v0" and pE = "Ext 0", OF that(2)] assms(2) by blast
  show ?thesis
  proof (cases v)
    case (Json_integer k)
    have k: "n = k" "\<bar>k\<bar> < 2 ^ 53" using assms(1) Json_integer by (auto split: if_splits)
    then have "double_of_nat (nat \<bar>k\<bar>) = nat \<bar>k\<bar>" by (intro double_exact) simp
    then show ?thesis using e [of "fixed_0 (k < 0) (nat \<bar>k\<bar>)" 10] k(1) Json_integer
      by (simp add: set_str_fixed)
  next
    case (Json_unsigned k)
    have k: "n = int k" "k < 2 ^ 53" using assms(1) Json_unsigned by (auto split: if_splits)
    then show ?thesis using e [of "fixed_0 False k" 10] double_exact [of k] Json_unsigned
      by (simp add: set_str_fixed)
  next
    case (Json_string s)
    obtain t radix where t: "number_string (Json_string s) = Inr (t, radix)" "t \<noteq> []"
      "n = int (num_val radix t)"
      using assms(1) Json_string by (auto simp del: number_string.simps split: sum.splits if_splits)
    have "is_num radix t" "2 \<le> radix" "radix \<le> 16" using number_string_string [OF t(1)] t(2) by auto
    then show ?thesis using e [of t radix] t(1,3) Json_string set_str_base_law [of radix t]
      by (simp del: number_string.simps)
  qed (use assms(1) in simp_all)
qed

lemma json2FrElements_rep:
  assumes "length (longVal v0) = fr_n64 P"
  shows "json_nums v = Some ns \<Longrightarrow>
      \<exists>es. json2FrElements Z P S v0 v vval = Inr (vval @ es) \<and> list_all2 (fr_rep P) es ns"
    and "json_nums_list vs = Some ns \<Longrightarrow>
      \<exists>es. json2_list Z P S v0 vs vval = Inr (vval @ es) \<and> list_all2 (fr_rep P) es ns"
proof (induction v and vs arbitrary: vval ns and vval ns rule: json_nums_json_nums_list.induct, goal_cases)
  case (10 v vs vval ns)
  obtain a b where ab: "json_nums v = Some a" "json_nums_list vs = Some b" "ns = a @ b"
    using 10(3) by (auto split: option.splits)
  obtain es where e: "json2FrElements Z P S v0 v vval = Inr (vval @ es)" "list_all2 (fr_rep P) es a"
    using 10(1) [OF ab(1)] by blast
  obtain fs where f: "json2_list Z P S v0 vs (vval @ es) = Inr (vval @ es @ fs)" "list_all2 (fr_rep P) fs b"
    using 10(2) [OF ab(1,2), of "vval @ es"] by auto
  show ?case using e f ab(3) by (intro exI [of _ "es @ fs"]) (simp add: list_all2_appendI)
qed (use number_rep [OF _ assms] in \<open>fastforce simp del: number_string.simps num_of.simps split: option.splits\<close>)+

end

subsection \<open>Documents without nested objects\<close>

fun no_empty :: "json \<Rightarrow> bool" where
  "no_empty (Json_array vs) = (vs \<noteq> [] \<and> (\<forall>v \<in> set vs. no_empty v))"
| "no_empty _ = True"

lemma check_type_nums:
  "json_nums v = Some ns \<Longrightarrow> no_empty v \<Longrightarrow> check_type p v = Inr Value_number_integer"
  "json_nums_list vs = Some ns \<Longrightarrow> \<forall>v \<in> set vs. no_empty v \<Longrightarrow>
     check_rest p Value_number_integer vs = Inr Value_number_integer"
proof (induction v and vs arbitrary: ns and ns rule: json_nums_json_nums_list.induct, goal_cases)
  case (1 vs ns)
  then show ?case by (cases vs) (auto split: option.splits sum.splits if_splits)
next
  case (10 v vs ns)
  then show ?case by (auto split: option.splits)
qed auto

lemma qualify_nums:
  assumes "json_nums v = Some ns" "no_empty v"
  shows "qualify_input p v in1 = Inr (json_put p v in1)"
proof (cases v)
  case (Json_array vs)
  then show ?thesis using check_type_nums(1) [OF assms, of p] assms(2) by simp
qed (use assms in simp_all)

lemma json_put_last: "\<forall>x \<in> set m. fst x < k \<Longrightarrow> json_put k v m = m @ [(k, v)]"
  by (induction m) auto

lemma qualify_fields_nums:
  assumes "\<forall>(k, v) \<in> set fs. json_nums v \<noteq> None \<and> no_empty v" "sorted_wrt (<) (map fst (m @ fs))"
  shows "qualify_fields '''' fs m = Inr (m @ fs)"
  using assms
proof (induction fs arbitrary: m)
  case (Cons kv fs)
  obtain k v where kv: "kv = (k, v)" by (cases kv)
  obtain ns where "json_nums v = Some ns" "no_empty v" using Cons.prems(1) by (auto simp: kv)
  then have "qualify_input k v m = Inr (json_put k v m)" by (rule qualify_nums)
  moreover have "json_put k v m = m @ [(k, v)]"
    by (rule json_put_last) (use Cons.prems(2) in \<open>auto simp: kv sorted_wrt_append\<close>)
  ultimately show ?case using Cons.IH [of "m @ [(k, v)]"] Cons.prems by (simp add: kv)
qed simp

subsection \<open>The inputs of the circuit\<close>

lemma set_inputs_append:
  "set_inputs run sz H (xs @ ys) ctx =
     (case set_inputs run sz H xs ctx of Inl e \<Rightarrow> Inl e | Inr ctx \<Rightarrow> set_inputs run sz H ys ctx)"
  by (induction run sz H xs ctx rule: set_inputs.induct) (auto split: sum.splits)

definition item_inputs :: "string \<Rightarrow> FrElement list \<Rightarrow> (u64 \<times> u32 \<times> FrElement) list" where
  "item_inputs key es = map (\<lambda>i. (fnv1a key, of_nat i, es ! i)) [0..<length es]"

text \<open>
  The signals of the inputs, in the order of the compiler's list, and their layout: they are
  different, as many as the circuit has main inputs, and lie in the range of the main inputs.
\<close>

definition input_signals :: "(string \<times> u64 \<times> u64) list \<Rightarrow> nat list" where
  "input_signals inputs = concat (map (\<lambda>(name, start, len). [unat start..<unat start + unat len]) inputs)"

definition inputs_layout :: "circuit_sizes \<Rightarrow> (string \<times> u64 \<times> u64) list \<Rightarrow> bool" where
  "inputs_layout sz inputs \<longleftrightarrow>
     distinct (map fst inputs) \<and> distinct (input_signals inputs) \<and>
     length (input_signals inputs) = unat (main_input_signal_no sz) \<and>
     (\<forall>s \<in> set (input_signals inputs). unat (main_input_signal_start sz) \<le> s \<and>
        s < unat (main_input_signal_start sz) + unat (main_input_signal_no sz) \<and> s < unat (total_signal_no sz))"

lemma input_signals_perm:
  assumes "mset xs = mset ys"
  shows "mset (input_signals xs) = mset (input_signals ys)"
proof -
  have "mset (input_signals zs) =
      sum_mset (image_mset (\<lambda>(name, start, len). mset [unat start..<unat start + unat len]) (mset zs))" for zs
    by (induction zs) (auto simp: input_signals_def)
  then show ?thesis using assms by simp
qed

lemma inputs_layout_perm:
  assumes "mset xs = mset ys" "inputs_layout sz ys"
  shows "inputs_layout sz xs"
proof -
  have p: "mset (input_signals xs) = mset (input_signals ys)" by (rule input_signals_perm [OF assms(1)])
  have "mset (map fst xs) = mset (map fst ys)" using assms(1) by simp
  then show ?thesis using assms(2) mset_eq_imp_distinct_iff mset_eq_setD [OF p] mset_eq_length [OF p] p
    unfolding inputs_layout_def by metis
qed

lemma layout_slot:
  assumes "inputs_layout sz inputs" "s \<in> set (input_signals inputs)"
  shows "unat (of_nat s :: u32) = s" "flag_index sz (of_nat s) = s - unat (main_input_signal_start sz)"
    "flag_index sz (of_nat s) < unat (main_input_signal_no sz)"
proof -
  have b: "unat (main_input_signal_start sz) \<le> s"
    "s < unat (main_input_signal_start sz) + unat (main_input_signal_no sz)" "s < unat (total_signal_no sz)"
    using assms by (auto simp: inputs_layout_def)
  have "unat (total_signal_no sz) < 2 ^ 32" using unsigned_less [of "total_signal_no sz"] by simp
  then have "s < 2 ^ 32" using b(3) by linarith
  then show u: "unat (of_nat s :: u32) = s" by (simp add: unat_of_nat)
  then have "main_input_signal_start sz \<le> of_nat s" using b(1) by (simp add: word_le_nat_alt)
  then show i: "flag_index sz (of_nat s) = s - unat (main_input_signal_start sz)"
    using u by (simp add: flag_index_def unat_sub)
  show "flag_index sz (of_nat s) < unat (main_input_signal_no sz)" unfolding i using b by linarith
qed

lemma loadJson_flat:
  assumes "\<forall>(k, v) \<in> set fs. json_nums v \<noteq> None \<and> no_empty v" "sorted_wrt (<) (map fst fs)" "fs \<noteq> []"
  shows "loadJson Z P S v0 run sz H (Json_object fs) ctx = load_items Z P S v0 run sz H fs ctx"
  using qualify_fields_nums [of fs "[]"] assms by (simp add: loadJson_def)

text \<open>The slots of the values of one input.\<close>

lemma input_slots:
  assumes l: "length H = unat (size_of_input_hashmap sz)" and p: "probing H"
    and o: "occupied H q" "H ! q = entry_of hasher (name, start, len)" and L: "inputs_layout sz inputs"
    and x: "(name, start, len) \<in> set inputs" and i: "i < unat len"
  shows "input_slot sz H (hasher name) (of_nat i) (of_nat (unat start + i))"
    "unat start + i \<in> set (input_signals inputs)"
proof -
  show m: "unat start + i \<in> set (input_signals inputs)"
    using x i by (force simp: input_signals_def)
  have "unat start + i < unat (total_signal_no sz)" using L m by (auto simp: inputs_layout_def)
  moreover have "unat (total_signal_no sz) < 2 ^ 32" using unsigned_less [of "total_signal_no sz"] by simp
  ultimately have b: "unat start + i < 2 ^ 32" by linarith
  have ql: "q < unat (size_of_input_hashmap sz)" using o(1) l by (simp add: occupied_def)
  moreover have "unat (size_of_input_hashmap sz) < 2 ^ 32" using unsigned_less [of "size_of_input_hashmap sz"] by simp
  ultimately have q: "unat (of_nat q :: u32) = q" by (simp add: unat_of_nat)
  have pos: "getInputSignalHashPosition H (size_of_input_hashmap sz) (hasher name) = Inr (of_nat q)"
    by (rule lookup_found [OF l p o(1)]) (simp add: o(2) entry_of_def)
  have ui: "unat (ucast (of_nat i :: u32) :: u64) = i"
    using b by (simp add: unsigned_ucast_eq unat_of_nat take_bit_nat_eq_self)
  then have lt: "(ucast (of_nat i :: u32) :: u64) < len" using i by (simp add: word_less_nat_alt)
  have us: "unat (start + ucast (of_nat i :: u32)) = unat start + i"
    using b ui by (simp add: unat_word_ariths)
  have "unat (ucast (start + ucast (of_nat i :: u32)) :: u32) = unat (of_nat (unat start + i) :: u32)"
  proof -
    have "unat (of_nat (unat start + i) :: u32) = unat start + i"
      using b by (simp add: unat_of_nat del: of_nat_add)
    then show ?thesis using unat_ucast_32 [of "start + ucast (of_nat i :: u32)"] b unfolding us by simp
  qed
  then have "of_nat (unat start + i) = (ucast (start + ucast (of_nat i :: u32)) :: u32)"
    by (simp only: word_unat_eq_iff)
  then show "input_slot sz H (hasher name) (of_nat i) (of_nat (unat start + i))"
    unfolding input_slot_def using pos lt by (intro exI [of _ "of_nat q"]) (simp add: q o(2) entry_of_def)
qed

text \<open>A document that gives every input its values.\<close>

definition complete_doc :: "(string \<times> u64 \<times> u64) list \<Rightarrow> (string \<times> json) list \<Rightarrow> bool" where
  "complete_doc inputs fs \<longleftrightarrow>
     sorted_wrt (<) (map fst fs) \<and> fst ` set fs = fst ` set inputs \<and>
     (\<forall>(k, v) \<in> set fs. no_empty v \<and>
        (\<exists>ns. json_nums v = Some ns \<and> (\<forall>(name, start, len) \<in> set inputs. name = k \<longrightarrow> length ns = unat len)))"

lemma sorted_distinct: "sorted_wrt (<) (xs :: string list) \<Longrightarrow> distinct xs"
  by (induction xs) auto

definition doc_elements :: "mpz_api \<Rightarrow> fr_params \<Rightarrow> fr_globals \<Rightarrow> FrElement \<Rightarrow> json \<Rightarrow> FrElement list" where
  "doc_elements Z P S v0 v =
     (case json2FrElements Z P S v0 v [] of Inl e \<Rightarrow> [] | Inr es \<Rightarrow> es)"

text \<open>The table's answers for one input.\<close>

lemma item_slots:
  assumes l: "length H = unat (size_of_input_hashmap sz)" and p: "probing H"
    and o: "\<forall>x \<in> set inputs. \<exists>q. occupied H q \<and> H ! q = entry_of fnv1a x" and L: "inputs_layout sz inputs"
    and x: "(name, start, len) \<in> set inputs" and es: "length es = unat len"
  shows "getInputSignalSize sz H (fnv1a name) = Inr len \<and> unat (ucast len :: u32) = unat len \<and>
    list_all2 (\<lambda>(h, i, v) si. input_slot sz H h i si) (item_inputs name es)
      (map of_nat [unat start..<unat start + unat len])"
proof -
  obtain q where q: "occupied H q" "H ! q = entry_of fnv1a (name, start, len)" using o x by blast
  note s = input_slots [OF l p q L x]
  have "list_all2 (\<lambda>(h, i, v) si. input_slot sz H h i si) (item_inputs name es)
      (map of_nat [unat start..<unat start + unat len])"
    using s(1) es by (auto simp: list_all2_conv_all_nth item_inputs_def)
  moreover have "getInputSignalSize sz H (fnv1a name) = Inr len"
  proof -
    have "q < unat (size_of_input_hashmap sz)" using q(1) l by (simp add: occupied_def)
    moreover have "unat (size_of_input_hashmap sz) < 2 ^ 32" using unsigned_less [of "size_of_input_hashmap sz"] by simp
    ultimately have "unat (of_nat q :: u32) = q" by (simp add: unat_of_nat)
    then show ?thesis using lookup_found [OF l p q(1), of "fnv1a name"] q(2)
      by (simp add: getInputSignalSize_def entry_of_def)
  qed
  moreover have "unat len < 2 ^ 32"
  proof -
    have "length [unat start..<unat start + unat len] \<le> length (input_signals inputs)"
      unfolding input_signals_def by (rule length_concat_ge) (use x in force)
    then have "unat len \<le> unat (main_input_signal_no sz)" using L by (simp add: inputs_layout_def)
    moreover have "unat (main_input_signal_no sz) < 2 ^ 32" using unsigned_less [of "main_input_signal_no sz"] by simp
    ultimately show ?thesis by (rule le_less_trans)
  qed
  then have "unat (ucast len :: u32) = unat len" by (rule unat_ucast_32)
  ultimately show ?thesis by blast
qed

text \<open>
  \<open>named k\<close>: what the compiler knows of the input \<open>k\<close>. The document lists the inputs in another
  order than the compiler.
\<close>

abbreviation named :: "(string \<times> u64 \<times> u64) list \<Rightarrow> string \<Rightarrow> u64 \<times> u64" where
  "named inputs k \<equiv> the (map_of inputs k)"

definition doc_inputs :: "(string \<times> u64 \<times> u64) list \<Rightarrow> (string \<times> json) list \<Rightarrow> (string \<times> u64 \<times> u64) list" where
  "doc_inputs inputs fs = map (\<lambda>(k, v). (k, named inputs k)) fs"

lemma doc_named:
  assumes "fst ` set fs = fst ` set inputs" "distinct (map fst inputs)" "(k, v) \<in> set fs"
  shows "(k, named inputs k) \<in> set inputs"
proof -
  have "k \<in> fst ` set fs" using assms(3) by force
  then obtain y where y: "(k, y) \<in> set inputs" unfolding assms(1) by auto
  then have "map_of inputs k = Some y" by (rule map_of_is_SomeI [OF assms(2)])
  then show ?thesis using y by simp
qed

lemma doc_inputs_perm:
  assumes "fst ` set fs = fst ` set inputs" "distinct (map fst inputs)" "distinct (map fst fs)"
  shows "mset (doc_inputs inputs fs) = mset inputs"
proof -
  have f: "map fst (doc_inputs inputs fs) = map fst fs" by (simp add: doc_inputs_def case_prod_beta comp_def)
  have d: "distinct (doc_inputs inputs fs)"
    using assms(3) unfolding f [symmetric] distinct_map by (rule conjunct1)
  have "set (doc_inputs inputs fs) = set inputs"
  proof
    show "set (doc_inputs inputs fs) \<subseteq> set inputs" using doc_named [OF assms(1,2)] by (auto simp: doc_inputs_def)
    show "set inputs \<subseteq> set (doc_inputs inputs fs)"
    proof
      fix x assume x: "x \<in> set inputs"
      obtain k y where k: "x = (k, y)" by (cases x)
      have "k \<in> fst ` set fs" unfolding assms(1) using x k by force
      then obtain v where v: "(k, v) \<in> set fs" by auto
      have "map_of inputs k = Some y" using x unfolding k by (rule map_of_is_SomeI [OF assms(2)])
      then have "x = (\<lambda>(k, v). (k, named inputs k)) (k, v)" by (simp add: k)
      then show "x \<in> set (doc_inputs inputs fs)" unfolding doc_inputs_def set_map using v by (rule image_eqI)
    qed
  qed
  moreover have "distinct inputs" using assms(2) unfolding distinct_map by (rule conjunct1)
  ultimately show ?thesis using d set_eq_iff_mset_eq_distinct by blast
qed

text \<open>The calls of \<open>setInputSignal\<close> for a document, and the signals that they set.\<close>

definition doc_calls :: "(json \<Rightarrow> FrElement list) \<Rightarrow> (string \<times> json) list \<Rightarrow> (u64 \<times> u32 \<times> FrElement) list list" where
  "doc_calls es fs = map (\<lambda>(k, v). item_inputs k (es v)) fs"

definition doc_slots :: "(string \<times> u64 \<times> u64) list \<Rightarrow> (string \<times> json) list \<Rightarrow> u32 list list" where
  "doc_slots inputs fs = map (\<lambda>(k, v). map of_nat
     [unat (fst (named inputs k))..<unat (fst (named inputs k)) + unat (snd (named inputs k))]) fs"

lemma concat_doc_slots: "concat (doc_slots inputs fs) = map of_nat (input_signals (doc_inputs inputs fs))"
  by (induction fs) (auto simp: doc_slots_def doc_inputs_def input_signals_def split: prod.splits)

lemma doc_slots_ok:
  assumes "inputs_layout sz (doc_inputs inputs fs)"
  shows "distinct (concat (doc_slots inputs fs))"
    "length (concat (doc_slots inputs fs)) = unat (main_input_signal_no sz)"
    "\<forall>si \<in> set (concat (doc_slots inputs fs)).
       flag_index sz si < unat (main_input_signal_no sz) \<and> unat si < unat (total_signal_no sz)"
proof -
  let ?s = "input_signals (doc_inputs inputs fs)"
  have u: "unat (of_nat s :: u32) = s" "flag_index sz (of_nat s) < unat (main_input_signal_no sz)"
    "s < unat (total_signal_no sz)" if "s \<in> set ?s" for s
    using layout_slot [OF assms that] assms that by (auto simp: inputs_layout_def)
  have "inj_on (of_nat :: nat \<Rightarrow> u32) (set ?s)"
    by (rule inj_onI) (metis u(1))
  then show "distinct (concat (doc_slots inputs fs))"
    using assms unfolding concat_doc_slots inputs_layout_def by (simp add: distinct_map)
  show "length (concat (doc_slots inputs fs)) = unat (main_input_signal_no sz)"
    using assms unfolding concat_doc_slots inputs_layout_def by simp
  show "\<forall>si \<in> set (concat (doc_slots inputs fs)).
       flag_index sz si < unat (main_input_signal_no sz) \<and> unat si < unat (total_signal_no sz)"
    unfolding concat_doc_slots using u by auto
qed

text \<open>What the program computes for one entry of a complete document.\<close>

definition entry_ok :: "mpz_api \<Rightarrow> fr_params \<Rightarrow> fr_globals \<Rightarrow> FrElement \<Rightarrow> circuit_sizes \<Rightarrow> HashSignalInfo list \<Rightarrow>
    (string \<times> u64 \<times> u64) list \<Rightarrow> string \<times> json \<Rightarrow> bool" where
  "entry_ok Z P S v0 sz H inputs x \<longleftrightarrow>
     (case x of (k, v) \<Rightarrow>
        \<exists>ns. json_nums v = Some ns \<and> no_empty v \<and>
          json2FrElements Z P S v0 v [] = Inr (doc_elements Z P S v0 v) \<and>
          list_all2 (fr_rep P) (doc_elements Z P S v0 v) ns \<and> length ns = unat (snd (named inputs k)) \<and>
          getInputSignalSize sz H (fnv1a k) = Inr (snd (named inputs k)) \<and>
          unat (ucast (snd (named inputs k)) :: u32) = length ns \<and>
          list_all2 (\<lambda>(h, i, v) si. input_slot sz H h i si) (item_inputs k (doc_elements Z P S v0 v))
            (map of_nat [unat (fst (named inputs k))..<unat (fst (named inputs k)) + unat (snd (named inputs k))]))"

lemma entry_ok:
  assumes m: "fr_mpz G P Z S" and v0: "length (longVal v0) = fr_n64 P"
    and H: "length H = unat (size_of_input_hashmap sz)" "probing H"
      "\<forall>x \<in> set inputs. \<exists>q. occupied H q \<and> H ! q = entry_of fnv1a x"
    and L: "inputs_layout sz inputs" and doc: "complete_doc inputs fs" and kv: "(k, v) \<in> set fs"
  shows "entry_ok Z P S v0 sz H inputs (k, v)"
proof -
  obtain ns where ns: "json_nums v = Some ns" "no_empty v"
    "\<forall>(name, start, len) \<in> set inputs. name = k \<longrightarrow> length ns = unat len"
    using doc kv unfolding complete_doc_def by blast
  obtain start len where sl: "named inputs k = (start, len)" by (cases "named inputs k")
  have x: "(k, start, len) \<in> set inputs"
    using doc_named [OF _ _ kv, of inputs] doc L unfolding complete_doc_def inputs_layout_def sl by blast
  then have l: "length ns = unat len" using ns(3) by auto
  obtain es where es: "json2FrElements Z P S v0 v [] = Inr es" "list_all2 (fr_rep P) es ns"
    using fr_mpz.json2FrElements_rep(1) [OF m v0 ns(1), of "[]"] by auto
  have le: "length es = unat len" using list_all2_lengthD [OF es(2)] l by simp
  show ?thesis using ns es l item_slots [OF H L x le] by (simp add: entry_ok_def doc_elements_def sl)
qed

lemma entry_length:
  assumes "entry_ok Z P S v0 sz H inputs (k, v)"
  shows "length (doc_elements Z P S v0 v) = unat (snd (named inputs k))"
proof -
  obtain ns where "list_all2 (fr_rep P) (doc_elements Z P S v0 v) ns" "length ns = unat (snd (named inputs k))"
    using assms unfolding entry_ok_def by blast
  then show ?thesis using list_all2_lengthD by force
qed

lemma entry_facts:
  assumes "entry_ok Z P S v0 sz H inputs (k, v)"
  shows "json2FrElements Z P S v0 v [] = Inr (doc_elements Z P S v0 v)"
    "getInputSignalSize sz H (fnv1a k) = Inr (snd (named inputs k))"
    "unat (ucast (snd (named inputs k)) :: u32) = length (doc_elements Z P S v0 v)"
proof -
  show "json2FrElements Z P S v0 v [] = Inr (doc_elements Z P S v0 v)"
    "getInputSignalSize sz H (fnv1a k) = Inr (snd (named inputs k))"
    using assms by (auto simp: entry_ok_def)
  have "unat (ucast (snd (named inputs k)) :: u32) = unat (snd (named inputs k))"
    using assms by (auto simp: entry_ok_def)
  then show "unat (ucast (snd (named inputs k)) :: u32) = length (doc_elements Z P S v0 v)"
    unfolding entry_length [OF assms] .
qed

lemma load_items_calls:
  assumes "\<forall>x \<in> set fs. entry_ok Z P S v0 sz H inputs x"
  shows "load_items Z P S v0 run sz H fs ctx =
    set_inputs run sz H (concat (doc_calls (doc_elements Z P S v0) fs)) ctx"
  using assms
proof (induction fs arbitrary: ctx)
  case Nil
  then show ?case by (simp add: doc_calls_def)
next
  case (Cons x fs)
  obtain k v where x: "x = (k, v)" by (cases x)
  have e: "entry_ok Z P S v0 sz H inputs (k, v)" using Cons.prems by (simp add: x)
  note f = entry_facts [OF e]
  have ih: "load_items Z P S v0 run sz H fs ctx' =
      set_inputs run sz H (concat (doc_calls (doc_elements Z P S v0) fs)) ctx'" for ctx'
    by (rule Cons.IH) (use Cons.prems in simp)
  have "load_items Z P S v0 run sz H ((k, v) # fs) ctx =
      (case set_inputs run sz H (item_inputs k (doc_elements Z P S v0 v)) ctx of
         Inl e \<Rightarrow> Inl e | Inr ctx \<Rightarrow> load_items Z P S v0 run sz H fs ctx)"
    by (simp add: f Let_def item_inputs_def)
  then show ?case by (simp only: x ih doc_calls_def list.map prod.case concat.simps set_inputs_append)
qed

lemma calls_slots:
  assumes "\<forall>x \<in> set fs. entry_ok Z P S v0 sz H inputs x"
  shows "list_all2 (list_all2 (\<lambda>(h, i, v) si. input_slot sz H h i si))
    (doc_calls (doc_elements Z P S v0) fs) (doc_slots inputs fs)"
  using assms unfolding doc_calls_def doc_slots_def by (induction fs) (auto simp: entry_ok_def)

lemma call_of_value:
  assumes ok: "\<forall>x \<in> set fs. entry_ok Z P S v0 sz H inputs x" and kv: "(k, v) \<in> set fs"
    and i: "i < unat (snd (named inputs k))"
  shows "((fnv1a k, of_nat i, doc_elements Z P S v0 v ! i), of_nat (unat (fst (named inputs k)) + i) :: u32) \<in>
    set (zip (concat (doc_calls (doc_elements Z P S v0) fs)) (concat (doc_slots inputs fs)))"
proof -
  let ?c = "doc_calls (doc_elements Z P S v0) fs" and ?s = "doc_slots inputs fs"
  let ?r = "[unat (fst (named inputs k))..<unat (fst (named inputs k)) + unat (snd (named inputs k))]"
  have "list_all2 (\<lambda>a b. length a = length b) ?c ?s"
    by (rule list_all2_mono [OF calls_slots [OF ok]]) (simp add: list_all2_lengthD)
  then have z: "zip (concat ?c) (concat ?s) = concat (map2 zip ?c ?s)" by (rule zip_concat)
  obtain j where j: "j < length fs" "fs ! j = (k, v)" using kv by (auto simp: in_set_conv_nth)
  have "length (doc_elements Z P S v0 v) = unat (snd (named inputs k))"
    by (rule entry_length [OF bspec [OF ok kv]])
  then have "i < length (zip (item_inputs k (doc_elements Z P S v0 v)) (map of_nat ?r :: u32 list))"
    "zip (item_inputs k (doc_elements Z P S v0 v)) (map of_nat ?r :: u32 list) ! i =
      ((fnv1a k, of_nat i, doc_elements Z P S v0 v ! i), of_nat (unat (fst (named inputs k)) + i))"
    using i by (simp_all add: item_inputs_def)
  then have "((fnv1a k, of_nat i, doc_elements Z P S v0 v ! i), of_nat (unat (fst (named inputs k)) + i)) \<in>
      set (zip (item_inputs k (doc_elements Z P S v0 v)) (map of_nat ?r :: u32 list))"
    by (metis nth_mem)
  moreover have "zip (item_inputs k (doc_elements Z P S v0 v)) (map of_nat ?r :: u32 list) = map2 zip ?c ?s ! j"
    using j by (simp add: doc_calls_def doc_slots_def)
  moreover have "j < length (map2 zip ?c ?s)" using j by (simp add: doc_calls_def doc_slots_def)
  then have "map2 zip ?c ?s ! j \<in> set (map2 zip ?c ?s)" by (rule nth_mem)
  ultimately show ?thesis unfolding z set_concat by (simp only:) (rule UN_I)
qed

lemma loadJson_complete:
  assumes m: "fr_mpz G P Z S" and v0: "length (longVal v0) = fr_n64 P"
    and new: "new_CalcWit Z P S sz mem0 comps = Some ctx" and no: "0 < main_input_signal_no sz"
    and room: "length inputs \<le> unat (size_of_input_hashmap sz)" "\<forall>(name, start, len) \<in> set inputs. start \<noteq> 0"
      "distinct (map (fnv1a \<circ> fst) inputs)"
    and H: "generate_hash_map fnv1a inputs (unat (size_of_input_hashmap sz)) = Some H"
    and L: "inputs_layout sz inputs" and doc: "complete_doc inputs fs"
  shows "\<exists>ctx'. loadJson Z P S v0 run sz H (Json_object fs) ctx = Inr (run ctx') \<and>
    inputSignalAssignedCounter ctx' = 0 \<and>
    (\<forall>(name, start, len) \<in> set inputs. \<forall>v ns. (name, v) \<in> set fs \<longrightarrow> json_nums v = Some ns \<longrightarrow>
       (\<forall>i < length ns. fr_rep P (signalValues ctx' ! (unat start + i)) (ns ! i))) \<and>
    (\<forall>i. i \<notin> set (input_signals inputs) \<longrightarrow> signalValues ctx' ! i = signalValues ctx ! i) \<and>
    length (signalValues ctx') = unat (total_signal_no sz)"
proof -
  have "\<forall>x \<in> set inputs. fst (snd x) \<noteq> 0" using room(2) by auto
  from generate_hash_map_ok [OF room(1) this room(3)] H
  have Hp: "length H = unat (size_of_input_hashmap sz)" "probing H"
    "\<forall>x \<in> set inputs. \<exists>q. occupied H q \<and> H ! q = entry_of fnv1a x" by auto
  have df: "distinct (map fst fs)" "sorted_wrt (<) (map fst fs)" "fst ` set fs = fst ` set inputs"
    using doc sorted_distinct by (auto simp: complete_doc_def)
  have dn: "distinct (map fst inputs)" using L by (simp add: inputs_layout_def)
  have mi: "mset (doc_inputs inputs fs) = mset inputs" by (rule doc_inputs_perm [OF df(3) dn df(1)])
  have Li: "inputs_layout sz (doc_inputs inputs fs)" by (rule inputs_layout_perm [OF mi L])
  have ok: "\<forall>x \<in> set fs. entry_ok Z P S v0 sz H inputs x"
    using entry_ok [OF m v0 Hp L doc] by auto
  let ?c = "concat (doc_calls (doc_elements Z P S v0) fs)" and ?s = "concat (doc_slots inputs fs)"
  note s = doc_slots_ok [OF Li]
  have sl: "list_all2 (\<lambda>(h, i, v) si. input_slot sz H h i si) ?c ?s"
    by (rule list_all2_concat [OF calls_slots [OF ok]])
  have lx: "length ?c = unat (main_input_signal_no sz)" using list_all2_lengthD [OF sl] s(2) by simp
  moreover have "0 < unat (main_input_signal_no sz)" using no by (simp add: word_less_nat_alt)
  ultimately have ne: "?c \<noteq> []" by force
  obtain ctx' where c: "set_inputs run sz H ?c ctx = Inr (run ctx')"
    "unat (inputSignalAssignedCounter ctx') = 0"
    "\<forall>k < length ?c. signalValues ctx' ! unat (?s ! k) = snd (snd (?c ! k))"
    "\<forall>i. (\<forall>si \<in> set ?s. i \<noteq> unat si) \<longrightarrow> signalValues ctx' ! i = signalValues ctx ! i"
    "length (signalValues ctx') = unat (total_signal_no sz)"
    using new_inputs_run [OF new sl s(1) ne s(3), of run] lx by auto
  have res: "fr_rep P (signalValues ctx' ! (unat start + i)) (ns ! i)"
    if x: "(name, start, len) \<in> set inputs" and kv: "(name, v) \<in> set fs" and ns: "json_nums v = Some ns"
      and i: "i < length ns" for name start len v ns i
  proof -
    have "map_of inputs name = Some (start, len)" by (rule map_of_is_SomeI [OF dn x])
    then have l: "named inputs name = (start, len)" by simp
    have e: "length ns = unat len" "list_all2 (fr_rep P) (doc_elements Z P S v0 v) ns"
      using bspec [OF ok kv] ns by (auto simp: entry_ok_def l)
    have "((fnv1a name, of_nat i, doc_elements Z P S v0 v ! i), of_nat (unat start + i)) \<in> set (zip ?c ?s)"
      using call_of_value [OF ok kv, of i] i e(1) by (simp add: l)
    then have "signalValues ctx' ! unat (of_nat (unat start + i) :: u32) = doc_elements Z P S v0 v ! i"
      using c(3) by (auto simp: in_set_zip)
    moreover have "unat start + i \<in> set (input_signals inputs)"
      using x i e(1) by (force simp: input_signals_def)
    ultimately have "signalValues ctx' ! (unat start + i) = doc_elements Z P S v0 v ! i"
      using layout_slot(1) [OF L] by metis
    then show ?thesis using list_all2_nthD2 [OF e(2) i] by simp
  qed
  have "fs \<noteq> []" using ne by (auto simp: doc_calls_def)
  moreover have "\<forall>(k, v) \<in> set fs. json_nums v \<noteq> None \<and> no_empty v" using ok by (auto simp: entry_ok_def)
  ultimately have "loadJson Z P S v0 run sz H (Json_object fs) ctx = Inr (run ctx')"
    using loadJson_flat [of fs] df(2) load_items_calls [OF ok] c(1) by simp
  moreover have "inputSignalAssignedCounter ctx' = 0" using c(2) by (simp only: unat_eq_zero)
  moreover have "signalValues ctx' ! i = signalValues ctx ! i" if "i \<notin> set (input_signals inputs)" for i
  proof -
    have "set (input_signals (doc_inputs inputs fs)) = set (input_signals inputs)"
      using input_signals_perm [OF mi] by (rule mset_eq_setD)
    then have "\<forall>si \<in> set ?s. i \<noteq> unat si"
      using layout_slot(1) [OF Li] that unfolding concat_doc_slots by auto
    then show ?thesis using c(4) by blast
  qed
  ultimately show ?thesis using res c(5) by blast
qed

subsection \<open>Properties\<close>

definition demo_inputs :: "(string \<times> u64 \<times> u64) list" where
  "demo_inputs = [(''in'', 2, 2)]"

definition demo_fields :: "(string \<times> json) list" where
  "demo_fields = [(''in'', Json_array [Json_string ''0x1f'', Json_integer (- 3)])]"

lemma demo_nums:
  "json_nums (Json_array [Json_string ''0x1f'', Json_integer (- 3)]) = Some [31, - 3]"
  by (simp add: check_valid_number_def num_val_def hex_val_def)

lemma demo_complete: "complete_doc demo_inputs demo_fields" "inputs_layout demo_sizes demo_inputs"
  using demo_nums
  by (auto simp: complete_doc_def demo_inputs_def demo_fields_def inputs_layout_def input_signals_def demo_sizes_def
      upt_rec [of 2 4] upt_rec [of 3 4] upt_rec [of 4 4] simp del: json_nums.simps)



text \<open>
  An integer of a document takes the way through a double: up to \<open>2 ^ 53\<close> in absolute
  value it reaches the field unchanged, but \<open>2 ^ 53 + 1\<close> becomes \<open>2 ^ 53\<close> without an error.
\<close>

lemma json_integer_through_double:
  "(\<bar>v\<bar> < 2 ^ 53 \<longrightarrow> number_string (Json_integer v) = Inr (fixed_0 (v < 0) (nat \<bar>v\<bar>), 10)) \<and>
   number_string (Json_integer (2 ^ 53 + 1)) = Inr (dec_str (2 ^ 53), 10)"
proof -
  have "double_of_nat (nat \<bar>v\<bar>) = nat \<bar>v\<bar>" if "\<bar>v\<bar> < 2 ^ 53" by (rule double_exact) (use that in simp)
  moreover have "double_of_nat (2 ^ 53 + 1) = 2 ^ 53"
    by (simp add: double_of_nat_def round_shift_def Let_def bit_length.simps)
  moreover have "nat \<bar>2 ^ 53 + 1\<bar> = 2 ^ 53 + 1" by simp
  ultimately show ?thesis by (simp add: fixed_0_def)
qed

lemma json_integer_through_double_witness:
  "number_string (Json_integer (- 1000)) = Inr (''-1000'', 10)"
proof -
  have d: "number_string (Json_integer (- 1000)) = Inr (fixed_0 True 1000, 10)"
    using json_integer_through_double [of "- 1000"] by simp
  have f: "fixed_0 True 1000 = ''-1000''" by code_simp
  show ?thesis using d unfolding f .
qed

text \<open>
  An entry with fewer or more values than its signal has is refused with its name
  before any of its values is set, and an entry whose name is no input is refused with the error
  of the look-up. Nothing after the entry is read.
\<close>

lemma load_items_count_errors:
  assumes "fr_mpz G P Z S" "length (longVal v0) = fr_n64 P" "json_nums v = Some ns"
    and "\<forall>n. getInputSignalSize sz H (fnv1a key) = Inr n \<longrightarrow> length ns \<noteq> unat (ucast n :: u32)"
  shows "load_items Z P S v0 run sz H ((key, v) # j) ctx =
    (case getInputSignalSize sz H (fnv1a key) of
       Inl e \<Rightarrow> Inl e
     | Inr n \<Rightarrow> Inl (if length ns < unat (ucast n :: u32) then Not_enough_values key else Too_many_values key))"
proof -
  obtain es where es: "json2FrElements Z P S v0 v [] = Inr es" "list_all2 (fr_rep P) es ns"
    using fr_mpz.json2FrElements_rep(1) [OF assms(1-3), of "[]"] by auto
  have l: "length es = length ns" by (rule list_all2_lengthD [OF es(2)])
  show ?thesis using es(1) l assms(4) by (auto simp: Let_def split: sum.splits)
qed

lemma load_items_count_errors_witness:
  "\<exists>H. \<forall>ctx. generate_hash_map fnv1a demo_inputs 1 = Some H \<and>
    load_items mpz_ref bn128_params bn128_globals (bn_mem (Ext 0)) (\<lambda>c. c) demo_sizes H
      [(''in'', Json_integer 7)] ctx = Inl (Not_enough_values ''in'') \<and>
    load_items mpz_ref bn128_params bn128_globals (bn_mem (Ext 0)) (\<lambda>c. c) demo_sizes H
      [(''out'', Json_integer 7)] ctx = Inl Signals_not_found"
proof -
  obtain H where H: "generate_hash_map fnv1a demo_inputs 1 = Some H" "H = [\<lparr>hash = fnv1a ''in'', signalid = 2, signalsize = 2\<rparr>]"
    by (simp add: generate_hash_map_def demo_inputs_def empty_entry_def)
  have ne: "fnv1a ''in'' \<noteq> fnv1a ''out''" by code_simp
  have v: "length (longVal (bn_mem (Ext 0))) = fr_n64 bn128_params" by (rule bn_mem_reps(4))
  have n: "json_nums (Json_integer 7) = Some [7]" by simp
  have s: "getInputSignalSize demo_sizes H (fnv1a ''in'') = Inr 2"
    "getInputSignalSize demo_sizes H (fnv1a ''out'') = Inl Signals_not_found"
    using ne by (simp_all add: H(2) getInputSignalSize_def getInputSignalHashPosition_def demo_sizes_def Let_def)
  note t = load_items_count_errors [OF bn128_fr_mpz v n, where run = "\<lambda>c. c" and sz = demo_sizes and H = H]
  show ?thesis using t [where key = "''in''"] t [where key = "''out''"] H(1) s by auto
qed

end
