(* ===== verification/BinFile.thy ===== *)
theory BinFile
  imports Mpz
begin

text \<open>
  The reader of sectioned binary files (\<open>binfile_utils.cpp\<close>) and of the headers of witness and
  key files (\<open>wtns_utils.cpp\<close>, \<open>zkey_utils.cpp\<close>) of rapidsnark. A file is a type, a version, a
  number of sections, and the sections, each an identifier, a length and its bytes. The object
  keeps the position of the next read and the list of sections of each identifier; an address
  of the sources is an offset from the start of the buffer. The exceptions are the values of
  \<open>bin_error\<close>; \<open>Out_of_buffer\<close> is a read outside the buffer and \<open>Null_section\<close> the use of a null
  pointer, which no check of the code reports.
\<close>

subsection \<open>The reader\<close>

datatype bin_error = File_too_short | Invalid_file_type string | Invalid_version u32
  | Too_short_for_sections u32 | Invalid_section u32 | Pos_too_big u64 | No_section u32
  | Section_pos_too_big u32 | Already_reading | Invalid_section_size | Not_groth16
  | Curve_not_supported | Out_of_buffer | Null_section | Zero_division

record Section =
  sec_start :: u64
  sec_size :: u64

record BinFile =
  bin_data :: bytes
  bin_size :: u64
  bin_pos :: u64
  sections :: "u32 \<rightharpoonup> Section list"
  bin_type :: string
  bin_version :: u32
  readingSection :: "Section option"

definition readU32LE :: "BinFile \<Rightarrow> bin_error + u32 \<times> BinFile" where
  "readU32LE f =
     (let new_pos = bin_pos f + 4
      in if new_pos > bin_size f then Inl (Pos_too_big new_pos)
         else if unat (bin_pos f) + 4 > length (bin_data f) then Inl Out_of_buffer
         else let res = rd32 (drop (unat (bin_pos f)) (bin_data f))
              in Inr (res, f\<lparr>bin_pos := new_pos\<rparr>))"

definition readU64LE :: "BinFile \<Rightarrow> bin_error + u64 \<times> BinFile" where
  "readU64LE f =
     (let new_pos = bin_pos f + 8
      in if new_pos > bin_size f then Inl (Pos_too_big new_pos)
         else if unat (bin_pos f) + 8 > length (bin_data f) then Inl Out_of_buffer
         else let res = rd64 (drop (unat (bin_pos f)) (bin_data f))
              in Inr (res, f\<lparr>bin_pos := new_pos\<rparr>))"

text \<open>\<open>read\<close> returns a pointer; its callers use the \<open>len\<close> bytes from there.\<close>

definition bin_read :: "BinFile \<Rightarrow> u64 \<Rightarrow> bin_error + bytes \<times> BinFile" where
  "bin_read f len =
     (let new_pos = bin_pos f + len
      in if new_pos > bin_size f then Inl (Pos_too_big new_pos)
         else if unat (bin_pos f) + unat len > length (bin_data f) then Inl Out_of_buffer
         else Inr (take (unat len) (drop (unat (bin_pos f)) (bin_data f)), f\<lparr>bin_pos := new_pos\<rparr>))"

text \<open>The loop over the sections; \<open>i\<close> is the number of the section.\<close>

fun read_sections :: "nat \<Rightarrow> u32 \<Rightarrow> BinFile \<Rightarrow> bin_error + BinFile" where
  "read_sections 0 i f = Inr f"
| "read_sections (Suc k) i f =
     and_then (readU32LE f) (\<lambda>(sType, f).
     and_then (readU64LE f) (\<lambda>(sSize, f).
       let f = (if sections f sType = None then f\<lparr>sections := (sections f)(sType \<mapsto> [])\<rparr> else f);
           f = f\<lparr>sections := (sections f)(sType \<mapsto>
                 the (sections f sType) @ [\<lparr>sec_start = bin_pos f, sec_size = sSize\<rparr>])\<rparr>;
           f = f\<lparr>bin_pos := bin_pos f + sSize\<rparr>
       in if bin_pos f > bin_size f then Inl (Invalid_section i)
          else read_sections k (i + 1) f))"

definition readFileData :: "BinFile \<Rightarrow> string \<Rightarrow> u32 \<Rightarrow> bin_error + BinFile" where
  "readFileData f type' maxVersion =
     (let headerSize = 12; minSectionSize = 12
      in if bin_size f < headerSize then Inl File_too_short
         else if length (bin_data f) < 4 then Inl Out_of_buffer
         else let f = f\<lparr>bin_type := map (\<lambda>b. char_of (unat b)) (take 4 (bin_data f))\<rparr>;
                  f = f\<lparr>bin_pos := 4\<rparr>
              in if bin_type f \<noteq> type' then Inl (Invalid_file_type (bin_type f))
                 else and_then (readU32LE f) (\<lambda>(v, f).
                   let f = f\<lparr>bin_version := v\<rparr>
                   in if v > maxVersion then Inl (Invalid_version v)
                      else and_then (readU32LE f) (\<lambda>(nSections, f).
                        if bin_size f < headerSize + ucast nSections * minSectionSize
                        then Inl (Too_short_for_sections nSections)
                        else and_then (read_sections (unat nSections) 0 f) (\<lambda>f.
                          Inr (f\<lparr>bin_pos := 0, readingSection := None\<rparr>)))))"

definition new_BinFile :: "bytes \<Rightarrow> string \<Rightarrow> u32 \<Rightarrow> bin_error + BinFile" where
  "new_BinFile fileData type' maxVersion =
     readFileData \<lparr>bin_data = fileData, bin_size = of_nat (length fileData), bin_pos = 0,
       sections = Map.empty, bin_type = '''', bin_version = 0, readingSection = None\<rparr> type' maxVersion"

definition section_at :: "BinFile \<Rightarrow> u32 \<Rightarrow> u32 \<Rightarrow> bin_error + Section" where
  "section_at f sectionId sectionPos =
     (case sections f sectionId of
        None \<Rightarrow> Inl (No_section sectionId)
      | Some l \<Rightarrow> if unat sectionPos \<ge> length l then Inl (Section_pos_too_big sectionPos)
                  else Inr (l ! unat sectionPos))"

definition startReadSection :: "BinFile \<Rightarrow> u32 \<Rightarrow> u32 \<Rightarrow> bin_error + BinFile" where
  "startReadSection f sectionId sectionPos =
     and_then (section_at f sectionId sectionPos) (\<lambda>s.
       if readingSection f \<noteq> None then Inl Already_reading
       else let f = f\<lparr>bin_pos := sec_start s\<rparr>
            in Inr (f\<lparr>readingSection := Some s\<rparr>))"

definition endReadSection :: "BinFile \<Rightarrow> bool \<Rightarrow> bin_error + BinFile" where
  "endReadSection f check =
     (if check
      then (case readingSection f of
              None \<Rightarrow> Inl Null_section
            | Some s \<Rightarrow> if bin_pos f - sec_start s \<noteq> sec_size s then Inl Invalid_section_size
                        else Inr (f\<lparr>readingSection := None\<rparr>))
      else Inr (f\<lparr>readingSection := None\<rparr>))"

definition getSectionData :: "BinFile \<Rightarrow> u32 \<Rightarrow> u32 \<Rightarrow> bin_error + u64" where
  "getSectionData f sectionId sectionPos =
     and_then (section_at f sectionId sectionPos) (\<lambda>s. Inr (sec_start s))"

definition getSectionSize :: "BinFile \<Rightarrow> u32 \<Rightarrow> u32 \<Rightarrow> bin_error + u64" where
  "getSectionSize f sectionId sectionPos =
     and_then (section_at f sectionId sectionPos) (\<lambda>s. Inr (sec_size s))"

subsection \<open>The headers\<close>

record wtns_Header =
  w_n8 :: u32
  w_prime :: int
  w_nVars :: u32

definition wtns_loadHeader :: "mpz_api \<Rightarrow> BinFile \<Rightarrow> bin_error + wtns_Header \<times> BinFile" where
  "wtns_loadHeader Z f =
     and_then (startReadSection f 1 0) (\<lambda>f.
     and_then (readU32LE f) (\<lambda>(n8, f).
     and_then (bin_read f (ucast n8)) (\<lambda>(bs, f).
       let prime' = mpz_import_bytes Z bs
       in and_then (readU32LE f) (\<lambda>(nVars, f).
          and_then (endReadSection f True) (\<lambda>f.
            Inr (\<lparr>w_n8 = n8, w_prime = prime', w_nVars = nVars\<rparr>, f))))))"

record zkey_Header =
  n8q :: u32
  qPrime :: int
  n8r :: u32
  rPrime :: int
  z_nVars :: u32
  z_nPublic :: u32
  z_domainSize :: u32
  z_nCoefs :: u64
  vk_alpha1 :: bytes
  vk_beta1 :: bytes
  vk_beta2 :: bytes
  vk_gamma2 :: bytes
  vk_delta1 :: bytes
  vk_delta2 :: bytes

text \<open>The products with \<open>n8q\<close> are products of 32-bit integers, which wrap.\<close>

definition zkey_loadHeader :: "mpz_api \<Rightarrow> BinFile \<Rightarrow> bin_error + zkey_Header \<times> BinFile" where
  "zkey_loadHeader Z f =
     and_then (startReadSection f 1 0) (\<lambda>f.
     and_then (readU32LE f) (\<lambda>(protocol, f).
       if protocol \<noteq> 1 then Inl Not_groth16
       else
     and_then (endReadSection f True) (\<lambda>f.
     and_then (startReadSection f 2 0) (\<lambda>f.
     and_then (readU32LE f) (\<lambda>(n8q', f).
     and_then (bin_read f (ucast n8q')) (\<lambda>(qp, f).
     and_then (readU32LE f) (\<lambda>(n8r', f).
     and_then (bin_read f (ucast n8r')) (\<lambda>(rp, f).
     and_then (readU32LE f) (\<lambda>(nVars, f).
     and_then (readU32LE f) (\<lambda>(nPublic, f).
     and_then (readU32LE f) (\<lambda>(domainSize, f).
     and_then (bin_read f (ucast (n8q' * 2))) (\<lambda>(alpha1, f).
     and_then (bin_read f (ucast (n8q' * 2))) (\<lambda>(beta1, f).
     and_then (bin_read f (ucast (n8q' * 4))) (\<lambda>(beta2, f).
     and_then (bin_read f (ucast (n8q' * 4))) (\<lambda>(gamma2, f).
     and_then (bin_read f (ucast (n8q' * 2))) (\<lambda>(delta1, f).
     and_then (bin_read f (ucast (n8q' * 4))) (\<lambda>(delta2, f).
     and_then (endReadSection f True) (\<lambda>f.
     and_then (getSectionSize f 4 0) (\<lambda>size4.
       if 12 + n8r' = 0 then Inl Zero_division
       else Inr (\<lparr>n8q = n8q', qPrime = mpz_import_bytes Z qp, n8r = n8r', rPrime = mpz_import_bytes Z rp,
              z_nVars = nVars, z_nPublic = nPublic, z_domainSize = domainSize,
              z_nCoefs = size4 div ucast (12 + n8r'),
              vk_alpha1 = alpha1, vk_beta1 = beta1, vk_beta2 = beta2, vk_gamma2 = gamma2,
              vk_delta1 = delta1, vk_delta2 = delta2\<rparr>, f))))))))))))))))))))"

subsection \<open>The invariant of the reader\<close>

text \<open>
  The position and the start of every section lie in the buffer, and so does the end of a
  section unless its sum wraps. Objects have fewer than \<open>2 ^ 63\<close> bytes, so that the sums of
  the reading functions do not wrap.
\<close>

definition section_in :: "nat \<Rightarrow> Section \<Rightarrow> bool" where
  "section_in k s \<longleftrightarrow> unat (sec_start s) \<le> k \<and>
     (unat (sec_start s) + unat (sec_size s) \<le> k \<or> 2 ^ 64 \<le> unat (sec_start s) + unat (sec_size s))"

definition bin_inv :: "BinFile \<Rightarrow> bool" where
  "bin_inv f \<longleftrightarrow> length (bin_data f) < 2 ^ 63 \<and> bin_size f = of_nat (length (bin_data f)) \<and>
     unat (bin_pos f) \<le> length (bin_data f) \<and>
     (\<forall>id l. sections f id = Some l \<longrightarrow> (\<forall>s \<in> set l. section_in (length (bin_data f)) s))"

lemma bin_inv_simps: "bin_inv f \<Longrightarrow> unat (bin_size f) = length (bin_data f)"
  by (simp add: bin_inv_def unat_of_nat)

lemma unat_add_small: "unat (a::u64) + unat b < 2 ^ 64 \<Longrightarrow> unat (a + b) = unat a + unat b"
  using unat_word_ariths(1) [of a b] by simp

text \<open>A read of \<open>n\<close> bytes: the check of the code is the check against the length of the buffer.\<close>

lemma pos_check:
  assumes "bin_inv f" "unat (n::u64) < 2 ^ 63"
  shows "bin_size f < bin_pos f + n \<longleftrightarrow> length (bin_data f) < unat (bin_pos f) + unat n"
    and "unat (bin_pos f + n) = unat (bin_pos f) + unat n"
proof -
  have "unat (bin_pos f) < 2 ^ 63" using assms(1) by (simp add: bin_inv_def)
  then have "unat (bin_pos f) + unat n < 2 ^ 64" using assms(2) by simp
  then show u: "unat (bin_pos f + n) = unat (bin_pos f) + unat n" by (rule unat_add_small)
  show "bin_size f < bin_pos f + n \<longleftrightarrow> length (bin_data f) < unat (bin_pos f) + unat n"
    unfolding word_less_nat_alt u bin_inv_simps [OF assms(1)] ..
qed

lemma read_eqs:
  assumes "bin_inv f"
  shows "readU32LE f = (if length (bin_data f) < unat (bin_pos f) + 4 then Inl (Pos_too_big (bin_pos f + 4))
      else Inr (rd32 (drop (unat (bin_pos f)) (bin_data f)), f\<lparr>bin_pos := bin_pos f + 4\<rparr>))"
    and "readU64LE f = (if length (bin_data f) < unat (bin_pos f) + 8 then Inl (Pos_too_big (bin_pos f + 8))
      else Inr (rd64 (drop (unat (bin_pos f)) (bin_data f)), f\<lparr>bin_pos := bin_pos f + 8\<rparr>))"
    and "unat len < 2 ^ 63 \<Longrightarrow>
      bin_read f len = (if length (bin_data f) < unat (bin_pos f) + unat len then Inl (Pos_too_big (bin_pos f + len))
      else Inr (take (unat len) (drop (unat (bin_pos f)) (bin_data f)), f\<lparr>bin_pos := bin_pos f + len\<rparr>))"
  using pos_check(1) [OF assms, of 4] pos_check(1) [OF assms, of 8] pos_check(1) [OF assms, of len]
  by (simp_all add: readU32LE_def readU64LE_def bin_read_def Let_def)

lemma bin_inv_pos:
  "bin_inv f \<Longrightarrow> unat n < 2 ^ 63 \<Longrightarrow> \<not> length (bin_data f) < unat (bin_pos f) + unat n \<Longrightarrow>
    bin_inv (f\<lparr>bin_pos := bin_pos f + n\<rparr>)"
  using pos_check(2) [of f n] by (simp add: bin_inv_def)

lemma read_inv:
  assumes "bin_inv f"
  shows "readU32LE f = Inr (v, f') \<Longrightarrow> bin_inv f' \<and> bin_data f' = bin_data f"
    and "readU64LE f = Inr (w, f') \<Longrightarrow> bin_inv f' \<and> bin_data f' = bin_data f"
    and "unat len < 2 ^ 63 \<Longrightarrow> bin_read f len = Inr (bs, f') \<Longrightarrow> bin_inv f' \<and> bin_data f' = bin_data f"
  using bin_inv_pos [OF assms, of 4] bin_inv_pos [OF assms, of 8] bin_inv_pos [OF assms, of len]
  by (auto simp: read_eqs [OF assms] split: if_splits)

text \<open>
  The bytes of a successful \<open>bin_read\<close> lie in the buffer for every length; a length whose sum with
  the position wraps passes the check of the code with a pointer whose bytes do not.
\<close>

lemma bin_read_any:
  assumes "bin_inv f"
  shows "bin_read f len = Inr (bs, f') \<Longrightarrow> bin_inv f' \<and> bin_data f' = bin_data f"
    and "bin_read f len = Inl Out_of_buffer \<longleftrightarrow> 2 ^ 64 \<le> unat (bin_pos f) + unat len \<and> bin_pos f + len \<le> bin_size f"
proof -
  have l: "length (bin_data f) < 2 ^ 63" using assms by (simp add: bin_inv_def)
  show "bin_inv f' \<and> bin_data f' = bin_data f" if "bin_read f len = Inr (bs, f')"
  proof -
    have "unat (bin_pos f) + unat len \<le> length (bin_data f)"
      using that by (auto simp: bin_read_def Let_def split: if_splits)
    then have "unat len < 2 ^ 63" using l by linarith
    then show ?thesis using read_inv(3) [OF assms _ that] by simp
  qed
  show "bin_read f len = Inl Out_of_buffer \<longleftrightarrow> 2 ^ 64 \<le> unat (bin_pos f) + unat len \<and> bin_pos f + len \<le> bin_size f"
  proof (cases "unat (bin_pos f) + unat len < 2 ^ 64")
    case True
    have "bin_size f < bin_pos f + len \<longleftrightarrow> length (bin_data f) < unat (bin_pos f) + unat len"
      unfolding word_less_nat_alt unat_add_small [OF True] bin_inv_simps [OF assms] ..
    then show ?thesis using True by (simp add: bin_read_def Let_def)
  next
    case False
    then show ?thesis using l by (auto simp: bin_read_def Let_def not_less)
  qed
qed

lemma section_at_Inr:
  "section_at f i p = Inr s \<longleftrightarrow> (\<exists>l. sections f i = Some l \<and> unat p < length l \<and> s = l ! unat p)"
  by (auto simp: section_at_def split: option.splits)

lemma section_at_start:
  assumes "bin_inv f" "section_at f i p = Inr s"
  shows "unat (sec_start s) \<le> length (bin_data f)"
proof -
  obtain l where "sections f i = Some l" "s \<in> set l" using assms(2) by (auto simp: section_at_Inr)
  then show ?thesis using assms(1) by (auto simp: bin_inv_def section_in_def)
qed

lemma section_inv:
  assumes "bin_inv f"
  shows "startReadSection f i p = Inr f' \<Longrightarrow> bin_inv f' \<and> bin_data f' = bin_data f"
    and "endReadSection f c = Inr f' \<Longrightarrow> bin_inv f' \<and> bin_data f' = bin_data f"
  using assms section_at_start [OF assms, of i p]
  by (auto simp: startReadSection_def endReadSection_def and_then_Inr_iff bin_inv_def
      split: if_splits option.splits)

lemma section_no_buffer:
  "startReadSection f i p \<noteq> Inl Out_of_buffer" "endReadSection f c \<noteq> Inl Out_of_buffer"
  by (auto simp: startReadSection_def endReadSection_def section_at_def and_then_def
      split: sum.splits option.splits)

text \<open>The loop over the sections keeps the invariant, and every section starts in the file.\<close>

lemma add_section_inv:
  assumes "bin_inv f" "f' = f\<lparr>sections := m, bin_pos := p\<rparr>" "\<not> p > bin_size f" "p = bin_pos f + n"
    and "m = (sections f)(t \<mapsto> l @ [\<lparr>sec_start = bin_pos f, sec_size = n\<rparr>])"
    and "\<forall>s \<in> set l. \<exists>l'. sections f t = Some l' \<and> s \<in> set l'"
  shows "bin_inv f'"
proof -
  let ?k = "length (bin_data f)"
  have p: "unat p \<le> ?k"
    using assms(3) bin_inv_simps [OF assms(1)] by (simp add: not_less word_le_nat_alt)
  have "section_in ?k \<lparr>sec_start = bin_pos f, sec_size = n\<rparr>"
  proof (cases "unat (bin_pos f) + unat n < 2 ^ 64")
    case True
    then show ?thesis using p assms(1) unat_add_small [OF True] by (simp add: section_in_def assms(4) bin_inv_def)
  qed (use assms(1) in \<open>simp add: section_in_def bin_inv_def\<close>)
  moreover have "\<forall>s \<in> set l. section_in ?k s" using assms(1,6) unfolding bin_inv_def by blast
  ultimately have "\<forall>s \<in> set l'. section_in ?k s" if "m id = Some l'" for id l'
    using that assms(1,5) unfolding bin_inv_def by (cases "id = t") auto
  then show ?thesis using assms(1,2) p unfolding bin_inv_def by simp
qed

lemma read_sections_safe:
  assumes "bin_inv f"
  shows "case read_sections k i f of Inl e \<Rightarrow> e \<noteq> Out_of_buffer
    | Inr f' \<Rightarrow> bin_inv f' \<and> bin_data f' = bin_data f"
  using assms
proof (induction k arbitrary: i f)
  case (Suc k)
  let ?step = "\<lambda>t n g. g\<lparr>sections := (sections g)(t \<mapsto> (case sections g t of None \<Rightarrow> [] | Some l \<Rightarrow> l) @
      [\<lparr>sec_start = bin_pos g, sec_size = n\<rparr>]), bin_pos := bin_pos g + n\<rparr>"
  have s: "read_sections (Suc k) i f = and_then (readU32LE f) (\<lambda>(t, g). and_then (readU64LE g) (\<lambda>(n, h).
      if bin_pos (?step t n h) > bin_size h then Inl (Invalid_section i) else read_sections k (i + 1) (?step t n h)))"
    by (auto simp: Let_def split: option.splits intro!: arg_cong2 [of _ _ _ _ and_then] ext)
  have inv: "bin_inv (?step t n g)" if "bin_inv g" "\<not> bin_pos (?step t n g) > bin_size g" for t n g
  proof (cases "sections g t")
    case None
    show ?thesis
      by (rule add_section_inv [where t = t and l = "[]" and n = n, OF that(1) refl]) (use that None in simp_all)
  next
    case (Some l)
    show ?thesis
      by (rule add_section_inv [where t = t and l = l and n = n, OF that(1) refl]) (use that Some in auto)
  qed
  show ?case
  proof (cases "length (bin_data f) < unat (bin_pos f) + 4")
    case True
    then show ?thesis by (simp add: s read_eqs(1) [OF Suc.prems] del: read_sections.simps)
  next
    case False
    then obtain t g where a: "readU32LE f = Inr (t, g)" by (simp add: read_eqs(1) [OF Suc.prems])
    note g = read_inv(1) [OF Suc.prems a]
    show ?thesis
    proof (cases "length (bin_data g) < unat (bin_pos g) + 8")
      case True
      then show ?thesis using g by (simp add: s a read_eqs(2) del: read_sections.simps)
    next
      case False
      then obtain n h where b: "readU64LE g = Inr (n, h)" using g by (simp add: read_eqs(2))
      note h = read_inv(2) [OF conjunct1 [OF g] b]
      have e: "read_sections (Suc k) i f = (if bin_pos (?step t n h) > bin_size h then Inl (Invalid_section i)
          else read_sections k (i + 1) (?step t n h))" by (simp add: s a b del: read_sections.simps)
      show ?thesis
      proof (cases "bin_pos (?step t n h) > bin_size h")
        case False
        have "bin_inv (?step t n h)" by (rule inv [OF conjunct1 [OF h] False])
        moreover have d: "bin_data (?step t n h) = bin_data f" using g h by simp
        ultimately show ?thesis using Suc.IH [of "?step t n h" "i + 1"] unfolding e if_not_P [OF False] d by blast
      qed (simp add: e del: read_sections.simps)
    qed
  qed
qed simp

lemma bin_inv_reset: "bin_inv f \<Longrightarrow> bin_inv (f\<lparr>bin_pos := 0, readingSection := r\<rparr>)"
  by (simp add: bin_inv_def)

lemma readFileData_safe:
  assumes "bin_inv f"
  shows "case readFileData f t v of Inl e \<Rightarrow> e \<noteq> Out_of_buffer | Inr f' \<Rightarrow> bin_inv f' \<and> bin_data f' = bin_data f"
proof (cases "bin_size f < 12")
  case False
  let ?f = "f\<lparr>bin_type := map (\<lambda>b. char_of (unat b)) (take 4 (bin_data f)), bin_pos := 4\<rparr>"
  have l: "12 \<le> length (bin_data f)"
    using False bin_inv_simps [OF assms] by (simp add: word_less_nat_alt)
  then have i: "bin_inv ?f" using assms by (simp add: bin_inv_def)
  obtain w g where a: "readU32LE ?f = Inr (w, g)" using l by (simp add: read_eqs(1) [OF i])
  note g = read_inv(1) [OF i a]
  let ?g = "g\<lparr>bin_version := w\<rparr>"
  have ig: "bin_inv ?g" using conjunct1 [OF g] by (simp add: bin_inv_def)
  have lg: "bin_pos g = 8" using l a by (auto simp: read_eqs(1) [OF i] split: if_splits)
  obtain n h where b: "readU32LE ?g = Inr (n, h)" using l g lg by (simp add: read_eqs(1) [OF ig])
  note h = read_inv(1) [OF ig b]
  note r = read_sections_safe [OF conjunct1 [OF h], of "unat n" 0]
  show ?thesis
  proof (cases "map (\<lambda>b. char_of (unat b)) (take 4 (bin_data f)) = t \<and> \<not> w > v \<and> \<not> bin_size h < 12 + ucast n * 12")
    case True
    then have e: "readFileData f t v = and_then (read_sections (unat n) 0 h) (\<lambda>f. Inr (f\<lparr>bin_pos := 0, readingSection := None\<rparr>))"
      using False l a b by (simp add: readFileData_def Let_def)
    show ?thesis
    proof (cases "read_sections (unat n) 0 h")
      case (Inr f')
      have "bin_inv (f'\<lparr>bin_pos := 0, readingSection := None\<rparr>)" "bin_data f' = bin_data f"
        using r Inr g h bin_inv_reset by simp_all
      then show ?thesis using e Inr by simp
    qed (use r e in simp)
  qed (use False l a b in \<open>auto simp: readFileData_def Let_def\<close>)
qed (simp add: readFileData_def Let_def)

lemma new_BinFile_safe:
  assumes "length dat < 2 ^ 63"
  shows "case new_BinFile dat t v of Inl e \<Rightarrow> e \<noteq> Out_of_buffer | Inr f' \<Rightarrow> bin_inv f' \<and> bin_data f' = dat"
proof -
  let ?f = "\<lparr>bin_data = dat, bin_size = of_nat (length dat), bin_pos = 0,
       sections = Map.empty, bin_type = '''', bin_version = 0, readingSection = None\<rparr> :: BinFile"
  have "bin_inv ?f" "bin_data ?f = dat" using assms by (simp_all add: bin_inv_def)
  then show ?thesis using readFileData_safe [of ?f t v] unfolding new_BinFile_def by (simp only:)
qed

text \<open>The objects that a caller can have: opened, and changed by successful operations.\<close>

inductive bin_reach :: "bytes \<Rightarrow> BinFile \<Rightarrow> bool" for dat where
  opened: "new_BinFile dat t v = Inr f \<Longrightarrow> bin_reach dat f"
| read_u32: "bin_reach dat f \<Longrightarrow> readU32LE f = Inr (w, f') \<Longrightarrow> bin_reach dat f'"
| read_u64: "bin_reach dat f \<Longrightarrow> readU64LE f = Inr (x, f') \<Longrightarrow> bin_reach dat f'"
| read_bytes: "bin_reach dat f \<Longrightarrow> bin_read f len = Inr (bs, f') \<Longrightarrow> bin_reach dat f'"
| start_section: "bin_reach dat f \<Longrightarrow> startReadSection f i p = Inr f' \<Longrightarrow> bin_reach dat f'"
| end_section: "bin_reach dat f \<Longrightarrow> endReadSection f c = Inr f' \<Longrightarrow> bin_reach dat f'"

lemma bin_reach_inv:
  assumes "bin_reach dat f" "length dat < 2 ^ 63"
  shows "bin_inv f \<and> bin_data f = dat"
  using assms(1)
proof induction
  case (opened t v f)
  then show ?case using new_BinFile_safe [OF assms(2), of t v] by simp
qed (use read_inv(1,2) bin_read_any(1) section_inv in metis)+

lemma bin_inv_no_buffer:
  assumes "bin_inv f"
  shows "readU32LE f \<noteq> Inl Out_of_buffer" "readU64LE f \<noteq> Inl Out_of_buffer"
    "unat len < 2 ^ 63 \<Longrightarrow> bin_read f len \<noteq> Inl Out_of_buffer"
  by (simp_all add: read_eqs [OF assms])

subsection \<open>Files of sections\<close>

text \<open>
  The bytes of a file, and the list of its sections in their order. The reader finds exactly
  these sections, and the bytes of each.
\<close>

definition bin_file :: "string \<Rightarrow> u32 \<Rightarrow> (u32 \<times> bytes) list \<Rightarrow> bytes" where
  "bin_file t v secs = map (\<lambda>c. of_nat (of_char c)) t @ le_bytes 4 (unat v) @ le_bytes 4 (length secs) @
     concat (map (\<lambda>(sid, c). le_bytes 4 (unat sid) @ le_bytes 8 (length c) @ c) secs)"

fun sec_layout :: "nat \<Rightarrow> (u32 \<times> bytes) list \<Rightarrow> (u32 \<times> Section) list" where
  "sec_layout off [] = []"
| "sec_layout off ((sid, c) # secs) =
     (sid, \<lparr>sec_start = of_nat (off + 12), sec_size = of_nat (length c)\<rparr>) # sec_layout (off + 12 + length c) secs"

fun add_secs :: "(u32 \<rightharpoonup> Section list) \<Rightarrow> (u32 \<times> Section) list \<Rightarrow> u32 \<rightharpoonup> Section list" where
  "add_secs m [] = m"
| "add_secs m ((sid, s) # l) = add_secs (m(sid \<mapsto> (case m sid of None \<Rightarrow> [] | Some l \<Rightarrow> l) @ [s])) l"

lemma read_u32_at:
  assumes "bin_inv f" "drop (unat (bin_pos f)) (bin_data f) = le_bytes 4 v @ rest"
  shows "readU32LE f = Inr (of_nat v, f\<lparr>bin_pos := bin_pos f + 4\<rparr>)"
proof -
  have "unat (bin_pos f) + 4 \<le> length (bin_data f)"
    using arg_cong [OF assms(2), of length] by simp
  then show ?thesis unfolding read_eqs(1) [OF assms(1)] assms(2) by simp
qed

lemma read_u64_at:
  assumes "bin_inv f" "drop (unat (bin_pos f)) (bin_data f) = le_bytes 8 v @ rest"
  shows "readU64LE f = Inr (of_nat v, f\<lparr>bin_pos := bin_pos f + 8\<rparr>)"
proof -
  have "unat (bin_pos f) + 8 \<le> length (bin_data f)"
    using arg_cong [OF assms(2), of length] by simp
  then show ?thesis unfolding read_eqs(2) [OF assms(1)] assms(2) by simp
qed

lemma read_bytes_at:
  assumes "bin_inv f" "drop (unat (bin_pos f)) (bin_data f) = bs @ rest" "length bs = unat len" "unat len < 2 ^ 63"
  shows "bin_read f len = Inr (bs, f\<lparr>bin_pos := bin_pos f + len\<rparr>)"
proof -
  have "unat (bin_pos f) \<le> length (bin_data f)" using assms(1) by (simp add: bin_inv_def)
  then have "unat (bin_pos f) + unat len \<le> length (bin_data f)"
    using arg_cong [OF assms(2), of length] assms(3) by simp
  then show ?thesis unfolding read_eqs(3) [OF assms(1,4)] assms(2) using assms(3) by simp
qed

lemma read_sections_layout:
  assumes "bin_inv f" "bin_data f = pre @ concat (map (\<lambda>(sid, c). le_bytes 4 (unat sid) @ le_bytes 8 (length c) @ c) secs)"
    and "unat (bin_pos f) = length pre"
  shows "\<exists>p. read_sections (length secs) i f =
    Inr (f\<lparr>sections := add_secs (sections f) (sec_layout (length pre) secs), bin_pos := p\<rparr>)"
  using assms
proof (induction secs arbitrary: i f pre)
  case Nil
  then show ?case by (auto intro!: exI [of _ "bin_pos f"])
next
  case (Cons x secs)
  obtain sid c where x: "x = (sid, c)" by (cases x)
  let ?rest = "concat (map (\<lambda>(sid, c). le_bytes 4 (unat sid) @ le_bytes 8 (length c) @ c) secs)"
  have d: "bin_data f = pre @ le_bytes 4 (unat sid) @ le_bytes 8 (length c) @ c @ ?rest"
    using Cons.prems(2) by (simp add: x)
  let ?g = "f\<lparr>bin_pos := bin_pos f + 4\<rparr>"
  have a: "readU32LE f = Inr (sid, ?g)"
    using read_u32_at [OF Cons.prems(1), of "unat sid"] d Cons.prems(3) by simp
  note g = read_inv(1) [OF Cons.prems(1) a]
  have pg: "unat (bin_pos ?g) = length pre + 4"
    using pos_check(2) [OF Cons.prems(1), of 4] Cons.prems(3) by simp
  let ?h = "?g\<lparr>bin_pos := bin_pos ?g + 8\<rparr>"
  have dg: "drop (unat (bin_pos ?g)) (bin_data ?g) = le_bytes 8 (length c) @ c @ ?rest"
    unfolding pg using d by simp
  have b: "readU64LE ?g = Inr (of_nat (length c), ?h)"
    by (rule read_u64_at [OF conjunct1 [OF g] dg])
  note h = read_inv(2) [OF conjunct1 [OF g] b]
  have ph: "unat (bin_pos ?h) = length pre + 12"
    using pos_check(2) [OF conjunct1 [OF g], of 8] pg by simp
  have ph': "bin_pos ?h = of_nat (length pre + 12)" using arg_cong [OF ph, of "of_nat :: nat \<Rightarrow> u64"] by simp
  have lc: "unat (of_nat (length c) :: u64) = length c"
    using d Cons.prems(1) by (simp add: unat_of_nat bin_inv_def)
  let ?s = "\<lparr>sec_start = bin_pos ?h, sec_size = of_nat (length c)\<rparr>"
  let ?m = "(sections f)(sid \<mapsto> (case sections f sid of None \<Rightarrow> [] | Some l \<Rightarrow> l) @ [?s])"
  let ?k = "?h\<lparr>sections := ?m, bin_pos := bin_pos ?h + of_nat (length c)\<rparr>"
  have pk: "unat (bin_pos ?k) = length pre + 12 + length c"
    using pos_check(2) [OF conjunct1 [OF h], of "of_nat (length c)"] ph lc d Cons.prems(1) by (simp add: bin_inv_def)
  have sk: "\<not> bin_pos ?k > bin_size ?h"
    unfolding word_less_nat_alt pk bin_inv_simps [OF conjunct1 [OF h]] using d by simp
  have ik: "bin_inv ?k"
  proof (cases "sections f sid")
    case None
    show ?thesis
      by (rule add_section_inv [where t = sid and l = "[]" and n = "of_nat (length c)", OF conjunct1 [OF h] refl])
        (use None sk in simp_all)
  next
    case (Some l)
    show ?thesis
      by (rule add_section_inv [where t = sid and l = l and n = "of_nat (length c)", OF conjunct1 [OF h] refl])
        (use Some sk in auto)
  qed
  let ?L = "length pre + 12 + length c"
  have r: "read_sections (length (x # secs)) i f = read_sections (length secs) (i + 1) ?k"
    using a b sk by (cases "sections f sid") (simp_all add: Let_def)
  have ll: "length (pre @ le_bytes 4 (unat sid) @ le_bytes 8 (length c) @ c) = ?L" by simp
  have "\<exists>p. read_sections (length secs) (i + 1) ?k =
      Inr (?k\<lparr>sections := add_secs (sections ?k) (sec_layout (length (pre @ le_bytes 4 (unat sid) @ le_bytes 8 (length c) @ c)) secs), bin_pos := p\<rparr>)"
    by (rule Cons.IH [OF ik]) (use d pk in simp_all)
  then obtain p where e: "read_sections (length secs) (i + 1) ?k =
      Inr (?k\<lparr>sections := add_secs (sections ?k) (sec_layout ?L secs), bin_pos := p\<rparr>)"
    unfolding ll by blast
  have s: "add_secs (sections f) (sec_layout (length pre) (x # secs)) = add_secs (sections ?k) (sec_layout ?L secs)"
    unfolding x sec_layout.simps add_secs.simps ph' [symmetric] by simp
  show ?case unfolding r e s by (rule exI [of _ p]) simp
qed

lemma char_bytes: "map (\<lambda>b. char_of (unat b)) (map (\<lambda>c. of_nat (of_char c) :: u8) t) = t"
proof -
  have "char_of (unat (of_nat (of_char c) :: u8)) = c" for c :: char
    using of_char_mod_256 [of c, where 'a = nat] by (simp only: unat_of_nat_u8) simp
  then show ?thesis by (simp add: comp_def)
qed

definition bin_opened :: "bytes \<Rightarrow> string \<Rightarrow> u32 \<Rightarrow> (u32 \<Rightarrow> Section list option) \<Rightarrow> BinFile" where
  "bin_opened dat t v m = \<lparr>bin_data = dat, bin_size = of_nat (length dat), bin_pos = 0, sections = m,
     bin_type = t, bin_version = v, readingSection = None\<rparr>"

lemma new_BinFile_file:
  assumes "length t = 4" "v \<le> maxv" "length secs < 2 ^ 32" "dat = bin_file t v secs" "length dat < 2 ^ 63"
  shows "new_BinFile dat t maxv = Inr (bin_opened dat t v (add_secs Map.empty (sec_layout 12 secs)))"
proof -
  let ?f = "\<lparr>bin_data = dat, bin_size = of_nat (length dat), bin_pos = 0,
       sections = Map.empty, bin_type = '''', bin_version = 0, readingSection = None\<rparr> :: BinFile"
  let ?body = "concat (map (\<lambda>(sid, c). le_bytes 4 (unat sid) @ le_bytes 8 (length c) @ c) secs)"
  let ?pre = "map (\<lambda>c. of_nat (of_char c)) t @ le_bytes 4 (unat v) @ le_bytes 4 (length secs)"
  have d: "dat = ?pre @ ?body" "length ?pre = 12" using assms(1,4) by (simp_all add: bin_file_def)
  have lb: "length secs * 12 \<le> length ?body"
    by (induction secs) auto
  have ld: "length dat = 12 + length ?body" using d(2) by (subst d(1)) simp
  have s: "unat (bin_size ?f) = length dat" using assms(5) by (simp add: unat_of_nat)
  have t: "map (\<lambda>b. char_of (unat b)) (take 4 dat) = t"
    using assms(1) char_bytes [of t] unfolding d(1) by simp
  have d4: "drop 4 dat = le_bytes 4 (unat v) @ le_bytes 4 (length secs) @ ?body"
    "drop 8 dat = le_bytes 4 (length secs) @ ?body"
    using assms(1) unfolding d(1) by simp_all
  let ?g = "?f\<lparr>bin_type := t, bin_pos := 4\<rparr>"
  have ig: "bin_inv ?g" using assms(5) ld by (simp add: bin_inv_def)
  have a: "readU32LE ?g = Inr (v, ?g\<lparr>bin_pos := 8\<rparr>)"
    using read_u32_at [OF ig, of "unat v"] d4 by simp
  let ?h = "?g\<lparr>bin_pos := 8, bin_version := v\<rparr>"
  have ih: "bin_inv ?h" using assms(5) ld by (simp add: bin_inv_def)
  have b: "readU32LE ?h = Inr (of_nat (length secs), ?h\<lparr>bin_pos := 12\<rparr>)"
    using read_u32_at [OF ih, of "length secs"] d4 by simp
  let ?k = "?h\<lparr>bin_pos := 12\<rparr>"
  have ik: "bin_inv ?k" using assms(5) ld by (simp add: bin_inv_def)
  have n: "unat (of_nat (length secs) :: u32) = length secs" using assms(3) by (simp add: unat_of_nat)
  have "unat (12 + ucast (of_nat (length secs) :: u32) * 12 :: u64) = 12 + length secs * 12"
  proof -
    have "unat (ucast (of_nat (length secs) :: u32) :: u64) = length secs" using n by (simp only: unat_ucast_64)
    then show ?thesis using assms(3) by (simp add: unat_word_ariths)
  qed
  then have c: "\<not> bin_size ?k < 12 + ucast (of_nat (length secs) :: u32) * 12"
    using s ld lb by (simp add: word_less_nat_alt)
  obtain p where e: "read_sections (length secs) 0 ?k = Inr (?k\<lparr>sections := add_secs (sections ?k) (sec_layout (length ?pre) secs), bin_pos := p\<rparr>)"
    using read_sections_layout [OF ik, of ?pre secs 0] d by auto
  have "\<not> bin_size ?f < 12" "\<not> length dat < 4" using s ld by (simp_all add: word_less_nat_alt)
  then have "new_BinFile dat t maxv = and_then (read_sections (length secs) 0 ?k)
      (\<lambda>f. Inr (f\<lparr>bin_pos := 0, readingSection := None\<rparr>))"
    using t a b c n leD [OF assms(2)] by (simp add: new_BinFile_def readFileData_def Let_def)
  then show ?thesis unfolding e d(2) by (simp add: bin_opened_def)
qed

text \<open>The witness file: its header and its data.\<close>

definition wtns_file :: "nat \<Rightarrow> nat \<Rightarrow> nat \<Rightarrow> bytes \<Rightarrow> bytes" where
  "wtns_file n8 q nVars body = bin_file ''wtns'' 2
     [(1, le_bytes 4 n8 @ le_bytes n8 q @ le_bytes 4 nVars), (2, body)]"

lemma length_wtns_file: "length (wtns_file n8 q nVars body) = 44 + n8 + length body"
  by (simp add: wtns_file_def bin_file_def)

context mpz_lib
begin

lemma wtns_file_header:
  assumes n: "n8 < 2 ^ 32" "q < 256 ^ n8" "nVars < 2 ^ 32" and l: "length (wtns_file n8 q nVars body) < 2 ^ 63"
  shows "\<exists>f f'. new_BinFile (wtns_file n8 q nVars body) ''wtns'' 2 = Inr f \<and>
    wtns_loadHeader Z f = Inr (\<lparr>w_n8 = of_nat n8, w_prime = int q, w_nVars = of_nat nVars\<rparr>, f') \<and>
    bin_data f' = wtns_file n8 q nVars body \<and> getSectionData f' 2 0 = Inr (of_nat (44 + n8)) \<and>
    getSectionSize f' 2 0 = Inr (of_nat (length body)) \<and> drop (44 + n8) (bin_data f') = body"
proof -
  let ?dat = "wtns_file n8 q nVars body"
  let ?hdr = "le_bytes 4 n8 @ le_bytes n8 q @ le_bytes 4 nVars"
  let ?s1 = "\<lparr>sec_start = 24, sec_size = of_nat (8 + n8)\<rparr>"
  let ?m = "add_secs Map.empty (sec_layout 12 [(1, ?hdr), (2, body)])"
  have m: "?m 1 = Some [?s1]" "?m 2 = Some [\<lparr>sec_start = of_nat (44 + n8), sec_size = of_nat (length body)\<rparr>]"
    by (simp_all add: add.assoc)
  let ?f = "bin_opened ?dat ''wtns'' 2 ?m"
  have o: "new_BinFile ?dat ''wtns'' 2 = Inr ?f"
    by (rule new_BinFile_file) (use l in \<open>simp_all add: wtns_file_def\<close>)
  have io: "bin_inv ?f" using new_BinFile_safe [OF l, of "''wtns''" 2] unfolding o by simp
  have d: "drop 24 ?dat = ?hdr @ le_bytes 4 2 @ le_bytes 8 (length body) @ body"
    by (simp add: wtns_file_def bin_file_def)
  let ?g = "?f\<lparr>bin_pos := 24, readingSection := Some ?s1\<rparr>"
  have a: "startReadSection ?f 1 0 = Inr ?g"
    using m by (simp add: startReadSection_def section_at_def bin_opened_def)
  note ig = conjunct1 [OF section_inv(1) [OF io a]]
  have dg: "bin_data ?g = ?dat" "unat (bin_pos ?g) = 24" by (simp_all add: bin_opened_def)
  let ?h = "?g\<lparr>bin_pos := 28\<rparr>"
  have b: "readU32LE ?g = Inr (of_nat n8, ?h)"
    using read_u32_at [OF ig, of n8] d unfolding dg by simp
  note ih = conjunct1 [OF read_inv(1) [OF ig b]]
  have n8: "unat (ucast (of_nat n8 :: u32) :: u64) = n8" using n(1) by (simp add: unat_ucast_64 unat_of_nat)
  have "drop 28 ?dat = drop 4 (drop 24 ?dat)" by simp
  then have d28: "drop 28 ?dat = le_bytes n8 q @ le_bytes 4 nVars @ le_bytes 4 2 @ le_bytes 8 (length body) @ body"
    unfolding d by simp
  then have dh: "drop (unat (bin_pos ?h)) (bin_data ?h) = le_bytes n8 q @ le_bytes 4 nVars @ le_bytes 4 2 @ le_bytes 8 (length body) @ body"
    by (simp add: bin_opened_def)
  let ?k = "?h\<lparr>bin_pos := 28 + ucast (of_nat n8 :: u32)\<rparr>"
  have c: "bin_read ?h (ucast (of_nat n8 :: u32)) = Inr (le_bytes n8 q, ?k)"
    using read_bytes_at [OF ih dh, of "ucast (of_nat n8 :: u32)"] n n8 by simp
  have r: "unat (ucast (of_nat n8 :: u32) :: u64) < 2 ^ 63" unfolding n8 using n(1) by simp
  note ik = conjunct1 [OF read_inv(3) [OF ih r c]]
  have pk: "unat (bin_pos ?k) = 28 + n8"
    using unat_add_small [of 28 "ucast (of_nat n8 :: u32)"] n(1) unfolding n8 by simp
  have "drop (28 + n8) ?dat = drop n8 (drop 28 ?dat)" by (simp add: add.commute)
  then have d28n: "drop (28 + n8) ?dat = le_bytes 4 nVars @ le_bytes 4 2 @ le_bytes 8 (length body) @ body"
    unfolding d28 by simp
  have "bin_data ?k = ?dat" by (simp add: bin_opened_def)
  then have dk: "drop (unat (bin_pos ?k)) (bin_data ?k) = le_bytes 4 nVars @ le_bytes 4 2 @ le_bytes 8 (length body) @ body"
    by (simp only: pk d28n)
  let ?l = "?k\<lparr>bin_pos := bin_pos ?k + 4\<rparr>"
  have e: "readU32LE ?k = Inr (of_nat nVars, ?l)"
    by (rule read_u32_at [OF ik dk])
  have sz: "bin_pos ?l - sec_start ?s1 = sec_size ?s1"
  proof -
    have "(ucast (of_nat n8 :: u32) :: u64) = of_nat n8"
      using arg_cong [OF n8, of "of_nat :: nat \<Rightarrow> u64"] by (simp only: of_nat_unat ucast_id)
    then show ?thesis by simp
  qed
  let ?r = "?l\<lparr>readingSection := None\<rparr>"
  have x: "endReadSection ?l True = Inr ?r"
    using sz by (simp add: endReadSection_def)
  have p: "mpz_import_bytes Z (le_bytes n8 q) = int q"
    using n(2) by (simp add: import_bytes_law le_nat_le_bytes)
  have "wtns_loadHeader Z ?f = Inr (\<lparr>w_n8 = of_nat n8, w_prime = int q, w_nVars = of_nat nVars\<rparr>, ?r)"
    unfolding wtns_loadHeader_def a and_then_simps b prod.case c Let_def e x p ..
  moreover have "getSectionData ?r 2 0 = Inr (of_nat (44 + n8))" "getSectionSize ?r 2 0 = Inr (of_nat (length body))"
    using m by (simp_all add: getSectionData_def getSectionSize_def section_at_def bin_opened_def)
  moreover have "drop (44 + n8) ?dat = body"
  proof -
    have "drop (44 + n8) ?dat = drop (20 + n8) (drop 24 ?dat)" by simp
    then show ?thesis unfolding d by simp
  qed
  ultimately show ?thesis using o by (intro exI [of _ ?f] exI [of _ ?r]) (simp add: bin_opened_def)
qed

end

subsection \<open>Reading never leaves the buffer\<close>

definition in_buffer :: "bin_error + 'a \<Rightarrow> bool" where
  "in_buffer r \<longleftrightarrow> r \<noteq> Inl Out_of_buffer"

lemma unat_ucast_small: "unat (ucast (w::u32) :: u64) < 2 ^ 63"
proof -
  have "unat w < 2 ^ 32" using unsigned_less [of w] by simp
  then show ?thesis by (simp add: unat_ucast_64)
qed

text \<open>One rule for each call: what follows it may use the invariant of the new state.\<close>

lemma in_buffer_u32:
  assumes "bin_inv f" "\<And>a f'. bin_inv f' \<Longrightarrow> in_buffer (g a f')"
  shows "in_buffer (and_then (readU32LE f) (\<lambda>(a, f). g a f))"
  using bin_inv_no_buffer(1) [OF assms(1)] read_inv(1) [OF assms(1)] assms(2)
  by (cases "readU32LE f") (auto simp: in_buffer_def)

lemma in_buffer_bytes:
  assumes "bin_inv f" "\<And>a f'. bin_inv f' \<Longrightarrow> in_buffer (g a f')"
  shows "in_buffer (and_then (bin_read f (ucast (w::u32))) (\<lambda>(a, f). g a f))"
  using bin_inv_no_buffer(3) [OF assms(1) unat_ucast_small] read_inv(3) [OF assms(1) unat_ucast_small] assms(2)
  by (cases "bin_read f (ucast w)") (auto simp: in_buffer_def)

lemma in_buffer_section:
  assumes "bin_inv f" "\<And>f'. bin_inv f' \<Longrightarrow> in_buffer (g f')"
  shows "in_buffer (and_then (startReadSection f i p) g)" "in_buffer (and_then (endReadSection f c) g)"
  using section_no_buffer section_inv [OF assms(1)] assms(2)
  by (cases "startReadSection f i p", auto simp: in_buffer_def)
    (cases "endReadSection f c", auto simp: in_buffer_def)

lemma in_buffer_size: "(\<And>a. in_buffer (g a)) \<Longrightarrow> in_buffer (and_then (getSectionSize f i p) g)"
  by (cases "getSectionSize f i p")
    (auto simp: in_buffer_def getSectionSize_def section_at_def and_then_def split: option.splits if_splits)

lemma in_buffer_values: "in_buffer (Inr x)" "e \<noteq> Out_of_buffer \<Longrightarrow> in_buffer (Inl e)"
  "(b \<Longrightarrow> in_buffer y) \<Longrightarrow> (\<not> b \<Longrightarrow> in_buffer z) \<Longrightarrow> in_buffer (if b then y else z)"
  by (simp_all add: in_buffer_def)

lemmas in_buffer_rules = in_buffer_u32 in_buffer_bytes in_buffer_section in_buffer_size in_buffer_values

lemma wtns_header_in_buffer: "bin_inv f \<Longrightarrow> in_buffer (wtns_loadHeader Z f)"
  unfolding wtns_loadHeader_def Let_def by (intro in_buffer_rules)

lemma zkey_header_in_buffer: "bin_inv f \<Longrightarrow> in_buffer (zkey_loadHeader Z f)"
  unfolding zkey_loadHeader_def Let_def by (intro in_buffer_rules) simp_all

subsection \<open>Properties\<close>

text \<open>
  Property C34. Whatever the bytes of a file are, opening it, reading an integer after any sequence
  of operations on the object, and reading the header of a witness or key file never read outside
  the buffer: every such access is refused with an exception. The check of \<open>read\<close> is complete except for
  a length whose sum with the position wraps and is then in the file: it hands out a pointer whose
  bytes leave the buffer, and does so for no other length. A section lies in the buffer, except
  when the sum of its start and its length wraps: the only check that a section ends in the file
  compares the wrapped sum.
\<close>

theorem reader_stays_in_buffer:
  assumes "length dat < 2 ^ 63"
  shows "in_buffer (new_BinFile dat t v) \<and>
    (\<forall>f. bin_reach dat f \<longrightarrow>
      in_buffer (readU32LE f) \<and> in_buffer (readU64LE f) \<and>
      (\<forall>len. in_buffer (bin_read f len) \<longleftrightarrow> \<not> (2 ^ 64 \<le> unat (bin_pos f) + unat len \<and> bin_pos f + len \<le> bin_size f)) \<and>
      in_buffer (wtns_loadHeader Z f) \<and> in_buffer (zkey_loadHeader Z f) \<and>
      (\<forall>i l s. sections f i = Some l \<longrightarrow> s \<in> set l \<longrightarrow>
         unat (sec_start s) + unat (sec_size s) \<le> length dat \<or> 2 ^ 64 \<le> unat (sec_start s) + unat (sec_size s)))"
proof (intro conjI allI impI)
  show "in_buffer (new_BinFile dat t v)"
    using new_BinFile_safe [OF assms, of t v] by (auto simp: in_buffer_def split: sum.splits)
  fix f assume r: "bin_reach dat f"
  have i: "bin_inv f" "bin_data f = dat" using bin_reach_inv [OF r assms] by simp_all
  show "in_buffer (readU32LE f)" "in_buffer (readU64LE f)"
    using bin_inv_no_buffer(1,2) [OF i(1)] by (simp_all add: in_buffer_def)
  show "\<And>len. in_buffer (bin_read f len) \<longleftrightarrow> \<not> (2 ^ 64 \<le> unat (bin_pos f) + unat len \<and> bin_pos f + len \<le> bin_size f)"
    unfolding bin_read_any(2) [OF i(1), symmetric] by (simp add: in_buffer_def)
  show "in_buffer (wtns_loadHeader Z f)" "in_buffer (zkey_loadHeader Z f)"
    by (rule wtns_header_in_buffer [OF i(1)], rule zkey_header_in_buffer [OF i(1)])
  show "\<And>j l s. sections f j = Some l \<Longrightarrow> s \<in> set l \<Longrightarrow>
      unat (sec_start s) + unat (sec_size s) \<le> length dat \<or> 2 ^ 64 \<le> unat (sec_start s) + unat (sec_size s)"
    using i unfolding bin_inv_def section_in_def by blast
qed

text \<open>A file of 24 bytes whose only section claims to have \<open>2 ^ 64 - 24\<close>.\<close>

definition wrap_file :: bytes where
  "wrap_file = [122, 107, 101, 121, 1, 0, 0, 0, 1, 0, 0, 0, 1, 0, 0, 0, 232, 255, 255, 255, 255, 255, 255, 255]"

lemma zkey_chars: "char_of (101::nat) = CHR ''e''" "char_of (107::nat) = CHR ''k''"
  "char_of (121::nat) = CHR ''y''" "char_of (122::nat) = CHR ''z''"
  by code_simp+

lemma wrap_file_opens: "\<exists>f. new_BinFile wrap_file ''zkey'' 1 = Inr f \<and>
    sections f 1 = Some [\<lparr>sec_start = 24, sec_size = 18446744073709551592\<rparr>]"
  by (simp add: new_BinFile_def readFileData_def wrap_file_def Let_def readU32LE_def readU64LE_def rd32_def rd64_def
    zkey_chars)

theorem reader_stays_in_buffer_witness:
  "\<exists>f. new_BinFile wrap_file ''zkey'' 1 = Inr f \<and> in_buffer (readU64LE f) \<and>
    in_buffer (zkey_loadHeader mpz_ref f) \<and> (\<exists>s. sections f 1 = Some [s] \<and>
      length wrap_file < unat (sec_size s) \<and> 2 ^ 64 \<le> unat (sec_start s) + unat (sec_size s))"
proof -
  obtain f where f: "new_BinFile wrap_file ''zkey'' 1 = Inr f"
    "sections f 1 = Some [\<lparr>sec_start = 24, sec_size = 18446744073709551592\<rparr>]"
    using wrap_file_opens by blast
  have l: "length wrap_file < 2 ^ 63" "length wrap_file = 24" by (simp_all add: wrap_file_def)
  have r: "bin_reach wrap_file f" by (rule bin_reach.opened [OF f(1)])
  show ?thesis
    using reader_stays_in_buffer [OF l(1), where Z = mpz_ref] r f l(2) by (intro exI [of _ f]) auto
qed

end
