(* ===== verification/WitnessProgram.thy ===== *)
theory WitnessProgram
  imports DatFile JsonInput BinFile
begin

text \<open>
  The witness program as a whole (\<open>common/main.cpp\<close>): \<open>writeBinWitness\<close>, which writes the values
  of the witness to a file of two sections, and \<open>main\<close>, which loads the circuit, makes a
  calculator, loads the inputs and writes the witness. The circuit's generated code is the
  parameter \<open>run\<close>. The theorem follows the data through the whole program, from the compiler's
  data file and the JSON document to the witness file as rapidsnark's reader sees it.
\<close>

subsection \<open>Writing the witness\<close>

definition limb_bytes :: "limbs \<Rightarrow> bytes" where
  "limb_bytes xs = concat (map (\<lambda>x. le_bytes 8 (unat x)) xs)"

text \<open>The loop over the witness; the local element \<open>v\<close> is \<open>Ext 0\<close> of \<open>m\<close>.\<close>

fun witness_loop :: "mpn_api \<Rightarrow> fr_params \<Rightarrow> Circom_Circuit \<Rightarrow> Circom_CalcWit \<Rightarrow> nat list \<Rightarrow> fr_mem \<Rightarrow>
    cw_error + bytes" where
  "witness_loop G P circuit ctx [] m = Inr []"
| "witness_loop G P circuit ctx (i # is') m =
     (if i \<ge> length (witness2SignalList circuit) \<or>
         unat (witness2SignalList circuit ! i) \<ge> length (signalValues ctx) then Inl Out_of_bounds
      else let m = m(Ext 0 := getWitness circuit ctx (of_nat i));
               m = Fr_toLongNormal G P (Ext 0) (Ext 0) m
           in and_then (witness_loop G P circuit ctx is' m) (\<lambda>bs.
                Inr (limb_bytes (longVal (m (Ext 0))) @ bs)))"

definition writeBinWitness :: "mpn_api \<Rightarrow> fr_params \<Rightarrow> circuit_sizes \<Rightarrow> Circom_Circuit \<Rightarrow> Circom_CalcWit \<Rightarrow>
    fr_mem \<Rightarrow> cw_error + bytes" where
  "writeBinWitness G P sz circuit ctx m0 =
     (let version = 2 :: u32; nSections = 2 :: u32; idSection1 = 1 :: u32;
          n8 = of_nat (fr_n64 P * 8) :: u32;
          idSection1length = 8 + ucast n8 :: u64;
          Nwtns = size_of_witness sz; nVars = Nwtns;
          idSection2 = 2 :: u32;
          idSection2length = ucast n8 * ucast Nwtns :: u64
      in and_then (witness_loop G P circuit ctx [0..<unat Nwtns] m0) (\<lambda>values.
           Inr (map (\<lambda>c. of_nat (of_char c)) ''wtns'' @ le_bytes 4 (unat version) @ le_bytes 4 (unat nSections) @
             le_bytes 4 (unat idSection1) @ le_bytes 8 (unat idSection1length) @
             le_bytes 4 (unat n8) @ limb_bytes (fr_q_list P) @ le_bytes 4 (unat nVars) @
             le_bytes 4 (unat idSection2) @ le_bytes 8 (unat idSection2length) @ values)))"

text \<open>
  \<open>main\<close>, from the contents of the data file and the parsed document to the contents of the
  witness file. \<open>mem0\<close>, \<open>v0\<close> and \<open>m0\<close> are uninitialised memory.
\<close>

definition witness_main :: "mpn_api \<Rightarrow> mpz_api \<Rightarrow> fr_params \<Rightarrow> fr_globals \<Rightarrow> fr_mem \<Rightarrow> FrElement \<Rightarrow> fr_mem \<Rightarrow>
    Circom_Component list \<Rightarrow> (Circom_Circuit \<Rightarrow> Circom_CalcWit \<Rightarrow> Circom_CalcWit) \<Rightarrow> circuit_sizes \<Rightarrow>
    bytes \<Rightarrow> json \<Rightarrow> cw_error + bytes" where
  "witness_main G Z P S mem0 v0 m0 comps run sz dat jin =
     and_then (loadCircuit P sz dat) (\<lambda>circuit.
       case new_CalcWit Z P S sz mem0 comps of
         None \<Rightarrow> Inl Assertion_failed
       | Some ctx \<Rightarrow>
           and_then (loadJson Z P S v0 (run circuit) sz (InputHashMap circuit) jin ctx) (\<lambda>ctx.
             if getRemaingInputsToBeSet ctx \<noteq> 0 then Inl Assertion_failed
             else writeBinWitness G P sz circuit ctx m0))"

subsection \<open>The witness file\<close>

lemma le_bytes_lval:
  assumes "lval xs = int v" "length xs = n"
  shows "limb_bytes xs = le_bytes (8 * n) v"
  using assms
proof (induction xs arbitrary: v n)
  case Nil
  then show ?case by (simp add: limb_bytes_def)
next
  case (Cons x xs)
  have v: "int v = uint x + B64 * lval xs" using Cons.prems(1) by simp
  have "int (v mod 2 ^ 64) = int v mod B64" "int (v div 2 ^ 64) = int v div B64"
    by (simp_all add: zmod_int zdiv_int B64_def)
  moreover have "int v mod B64 = uint x" "int v div B64 = lval xs"
    unfolding v by (simp_all add: div_pos_pos_trivial)
  ultimately have d: "v mod 2 ^ 64 = unat x" "int (v div 2 ^ 64) = lval xs"
    by (simp_all only: of_nat_eq_iff [where 'a = int, symmetric] uint_nat [symmetric])
  have "le_bytes 8 v = le_bytes 8 (unat x)"
  proof -
    have "le_bytes 8 v = le_bytes 8 (v mod 256 ^ 8)"
      using le_bytes_le_nat [of "le_bytes 8 v"] by (simp add: le_nat_le_bytes)
    then show ?thesis using d(1) by simp
  qed
  moreover have "le_bytes (8 * Suc (length xs)) v = le_bytes 8 v @ le_bytes (8 * length xs) (v div 256 ^ 8)"
    using le_bytes_append [of 8 "8 * length xs" v] by simp
  moreover have "limb_bytes xs = le_bytes (8 * length xs) (v div 2 ^ 64)"
    by (rule Cons.IH) (use d in simp_all)
  ultimately show ?case using Cons.prems(2) by (auto simp: limb_bytes_def)
qed

text \<open>An entry of the data section, as an array of limbs: \<open>wtnsData[i]\<close> in the prover.\<close>

definition wtns_element :: "nat \<Rightarrow> bytes \<Rightarrow> nat \<Rightarrow> limbs" where
  "wtns_element n64 dat i = map rd64 (chunks 8 n64 (drop (i * (8 * n64)) dat))"

lemma drop_concat_const:
  "\<forall>x \<in> set xss. length x = k \<Longrightarrow> i < length xss \<Longrightarrow>
    drop (i * k) (concat xss) = xss ! i @ concat (drop (Suc i) xss)"
proof (induction xss arbitrary: i)
  case (Cons x xss)
  then show ?case
  proof (cases i)
    case (Suc j)
    then have "drop (i * k) (concat (x # xss)) = drop (j * k) (concat xss)"
      using Cons.prems(1) by (simp add: add.commute)
    then show ?thesis using Cons Suc by simp
  qed simp
qed simp

definition witness_values :: "fr_params \<Rightarrow> int list \<Rightarrow> bytes" where
  "witness_values P xs = concat (map (\<lambda>x. le_bytes (8 * fr_n64 P) (nat (x mod qv P))) xs)"

lemma wtns_element_values:
  assumes "i < length xs" "0 < qv P" "qv P < 2 ^ (64 * fr_n64 P)"
  shows "lval (wtns_element (fr_n64 P) (witness_values P xs) i) = xs ! i mod qv P"
proof -
  let ?bs = "map (\<lambda>x. le_bytes (8 * fr_n64 P) (nat (x mod qv P))) xs"
  have "drop (i * (8 * fr_n64 P)) (concat ?bs) = ?bs ! i @ concat (drop (Suc i) ?bs)"
    by (rule drop_concat_const) (use assms(1) in auto)
  moreover have "int (nat (xs ! i mod qv P)) < 2 ^ (64 * fr_n64 P)"
    using less_trans [OF pos_mod_bound [OF assms(2), of "xs ! i"] assms(3)] assms(2) by simp
  then have "nat (xs ! i mod qv P) < 2 ^ (64 * fr_n64 P)" by (metis of_nat_less_numeral_power_cancel_iff)
  ultimately show ?thesis using assms(1,2)
    by (simp add: wtns_element_def witness_values_def lval_chunks)
qed

context fr_field
begin

lemma q_less_pow64: "qv P < 2 ^ (64 * fr_n64 P)"
  using q_less_R by (simp add: Rv_def base_eq_power)

lemma fr_rep_unique:
  assumes "fr_rep P e x" "fr_rep P e y"
  shows "x mod qv P = y mod qv P"
proof -
  let ?m = "\<lambda>_. e"
  have "reduced P (longVal (Fr_toLongNormal G P (Ext 0) (Ext 0) ?m (Ext 0))) x"
    "reduced P (longVal (Fr_toLongNormal G P (Ext 0) (Ext 0) ?m (Ext 0))) y"
    by (rule toLongNormal_rep(2), rule assms)+
  then show ?thesis by (rule reduced_unique)
qed

lemma long_bytes:
  assumes "fr_rep P e x"
  shows "limb_bytes (longVal (Fr_toLongNormal G P (Ext 0) (Ext 0) (m(Ext 0 := e)) (Ext 0))) =
    le_bytes (8 * fr_n64 P) (nat (x mod qv P))"
proof -
  have "fr_rep P ((m(Ext 0 := e)) (Ext 0)) x" using assms by simp
  then have "reduced P (longVal (Fr_toLongNormal G P (Ext 0) (Ext 0) (m(Ext 0 := e)) (Ext 0))) x"
    by (rule toLongNormal_rep(2))
  then show ?thesis using q_pos by (intro le_bytes_lval) (simp_all add: reduced_def)
qed

lemma witness_loop_values:
  assumes "\<forall>i \<in> set is'. i < length (witness2SignalList circuit) \<and> i < 2 ^ 32 \<and>
      unat (witness2SignalList circuit ! i) < length (signalValues ctx) \<and>
      fr_rep P (signalValues ctx ! unat (witness2SignalList circuit ! i)) (x i)"
  shows "witness_loop G P circuit ctx is' m = Inr (witness_values P (map x is'))"
  using assms
proof (induction is' arbitrary: m)
  case (Cons i is')
  have g: "fr_rep P (getWitness circuit ctx (of_nat i)) (x i)"
    using Cons.prems by (simp add: getWitness_def unat_of_nat)
  show ?case
    using Cons long_bytes [OF g] by (simp add: Let_def not_le witness_values_def)
qed (simp add: witness_values_def)

lemma writeBinWitness_file:
  assumes w: "length (witness2SignalList circuit) = unat (size_of_witness sz)"
    and rep: "\<forall>i < unat (size_of_witness sz).
      unat (witness2SignalList circuit ! i) < length (signalValues ctx) \<and>
      fr_rep P (signalValues ctx ! unat (witness2SignalList circuit ! i)) (x i)"
  shows "writeBinWitness G P sz circuit ctx m0 =
    Inr (wtns_file (8 * fr_n64 P) (nat (qv P)) (unat (size_of_witness sz))
      (witness_values P (map x [0..<unat (size_of_witness sz)])))"
proof -
  let ?n = "unat (size_of_witness sz)"
  let ?v = "witness_values P (map x [0..<?n])"
  have n: "?n < 2 ^ 32" using unsigned_less [of "size_of_witness sz"] by simp
  have loop: "witness_loop G P circuit ctx [0..<?n] m0 = Inr ?v"
    by (rule witness_loop_values) (use w rep n in auto)
  have k: "fr_n64 P * 8 \<le> 128" using n_le by simp
  then have n8: "unat (of_nat (fr_n64 P * 8) :: u32) = fr_n64 P * 8"
    by (simp only: unat_of_nat) simp
  then have u8: "unat (ucast (of_nat (fr_n64 P * 8) :: u32) :: u64) = fr_n64 P * 8" by (simp only: unat_ucast_64)
  have q: "limb_bytes (fr_q_list P) = le_bytes (8 * fr_n64 P) (nat (qv P))"
    by (rule le_bytes_lval) (use len_q val_q q_pos in simp_all)
  have l1: "unat (8 + ucast (of_nat (fr_n64 P * 8) :: u32) :: u64) = 8 + 8 * fr_n64 P"
    using k u8 by (subst unat_add_small) simp_all
  have "length ?v = ?n * (8 * fr_n64 P)"
    unfolding witness_values_def by (subst length_concat_const [where k = "8 * fr_n64 P"]) auto
  moreover have "unat (ucast (of_nat (fr_n64 P * 8) :: u32) * ucast (size_of_witness sz) :: u64) = fr_n64 P * 8 * ?n"
  proof -
    have "fr_n64 P * 8 * ?n < 128 * 2 ^ 32 + 1" using mult_le_mono [OF k less_imp_le [OF n]] by simp
    then have "fr_n64 P * 8 * ?n < 2 ^ 64" by (rule less_trans) simp
    then show ?thesis unfolding unat_word_ariths(2) unfolding u8 unfolding unat_ucast_64 by simp
  qed
  ultimately have l2: "unat (ucast (of_nat (fr_n64 P * 8) :: u32) * ucast (size_of_witness sz) :: u64) = length ?v"
    by simp
  show ?thesis
    unfolding writeBinWitness_def Let_def loop and_then_simps n8 l1 l2 q wtns_file_def bin_file_def
    by (simp add: mult.commute flip: numeral_2_eq_2)
qed

end

subsection \<open>The whole program\<close>

text \<open>
  What is assumed of the circuit's generated code: started with a complete input, it gives every
  signal a value and does not write the inputs, the constant one and the calculator's counter.
\<close>

definition run_ok :: "fr_params \<Rightarrow> circuit_sizes \<Rightarrow> nat set \<Rightarrow> (Circom_CalcWit \<Rightarrow> Circom_CalcWit) \<Rightarrow> bool" where
  "run_ok P sz ins run \<longleftrightarrow>
     (\<forall>c. length (signalValues c) = unat (total_signal_no sz) \<longrightarrow>
        (\<forall>i \<in> ins. \<exists>x. fr_rep P (signalValues c ! i) x) \<longrightarrow>
        inputSignalAssignedCounter (run c) = inputSignalAssignedCounter c \<and>
        length (signalValues (run c)) = length (signalValues c) \<and>
        (\<forall>i < length (signalValues c). \<exists>x. fr_rep P (signalValues (run c) ! i) x) \<and>
        (\<forall>i \<in> ins. signalValues (run c) ! i = signalValues c ! i))"

lemma doc_length:
  assumes "complete_doc inputs fs" "(name, start, len) \<in> set inputs" "(name, v) \<in> set fs" "json_nums v = Some ns"
  shows "length ns = unat len"
proof -
  from assms(1,3) obtain ms where "json_nums v = Some ms"
    and l: "\<forall>(n, start, len) \<in> set inputs. n = name \<longrightarrow> length ms = unat len"
    unfolding complete_doc_def by blast
  then show ?thesis using bspec [OF l assms(2)] assms(4) by simp
qed

lemma input_signal_value:
  assumes "complete_doc inputs fs" "i \<in> set (input_signals inputs)"
  obtains name start len v ns j where "(name, start, len) \<in> set inputs" "(name, v) \<in> set fs"
    "json_nums v = Some ns" "j < length ns" "i = unat start + j"
proof -
  obtain name start len where x: "(name, start, len) \<in> set inputs"
    "i \<in> set [unat start..<unat start + unat len]"
    using assms(2) by (auto simp: input_signals_def)
  have k: "fst ` set fs = fst ` set inputs" using assms(1) unfolding complete_doc_def by blast
  have "name \<in> fst ` set fs" unfolding k by (rule rev_image_eqI [OF x(1)]) simp
  then obtain v where v: "(name, v) \<in> set fs" by auto
  then obtain ns where ns: "json_nums v = Some ns" using assms(1) unfolding complete_doc_def by blast
  note l = doc_length [OF assms(1) x(1) v ns]
  show ?thesis by (rule that [OF x(1) v ns, of "i - unat start"]) (use x(2) l in auto)
qed

lemma witness_main_ok:
  assumes m: "fr_mpz G P Z S" and v0: "length (longVal v0) = fr_n64 P" and m0: "length (longVal (mem0 (Ext 0))) = fr_n64 P"
    and prod: "producer_ok P sz producer" "generate_dat_file fnv1a producer = Some dat" "length dat < 2 ^ 32"
      "\<forall>fs \<in> set (busid_field_info producer). length fs \<le> 10"
    and inputs: "0 < main_input_signal_no sz" "length (main_input_list producer) \<le> unat (size_of_input_hashmap sz)"
      "\<forall>(name, start, len) \<in> set (main_input_list producer). start \<noteq> 0"
      "distinct (map (fnv1a \<circ> fst) (main_input_list producer))" "inputs_layout sz (main_input_list producer)"
    and wl: "\<forall>w \<in> set (witness_to_signal_list producer). w < unat (total_signal_no sz)"
    and run: "\<forall>circuit. run_ok P sz (insert 0 (set (input_signals (main_input_list producer)))) (run circuit)"
    and doc: "complete_doc (main_input_list producer) fs"
  shows "\<exists>xs. length xs = length (witness_to_signal_list producer) \<and>
    witness_main G Z P S mem0 v0 mm comps run sz dat (Json_object fs) =
      Inr (wtns_file (8 * fr_n64 P) (nat (qv P)) (length (witness_to_signal_list producer)) (witness_values P xs)) \<and>
    (\<forall>i < length xs. witness_to_signal_list producer ! i = 0 \<longrightarrow> xs ! i mod qv P = 1 mod qv P) \<and>
    (\<forall>i < length xs. \<forall>(name, start, len) \<in> set (main_input_list producer). \<forall>v ns j.
       (name, v) \<in> set fs \<longrightarrow> json_nums v = Some ns \<longrightarrow> j < length ns \<longrightarrow>
       witness_to_signal_list producer ! i = unat start + j \<longrightarrow> xs ! i mod qv P = ns ! j mod qv P)"
proof -
  let ?in = "main_input_list producer" and ?w = "witness_to_signal_list producer"
  have f: "fr_field G P" using m by (simp add: fr_mpz_def)
  note o = prod(1) [unfolded producer_ok_def]
  obtain circuit where c: "loadCircuit P sz dat = Inr circuit"
    "generate_hash_map fnv1a ?in (input_hash_map_entry_size producer) = Some (InputHashMap circuit)"
    "witness2SignalList circuit = map of_nat ?w"
  proof -
    have n: "\<not> (\<exists>fs \<in> set (busid_field_info producer). 10 < length fs)" using prod(4) by (simp add: not_less)
    from loadCircuit_result [OF f prod(1-3)] n show ?thesis by (auto intro: that)
  qed
  have tot: "0 < unat (total_signal_no sz)"
  proof -
    have "0 < length (input_signals ?in)" using inputs(1,5) by (simp add: inputs_layout_def word_less_nat_alt)
    then have "input_signals ?in ! 0 \<in> set (input_signals ?in)" by (rule nth_mem)
    then show ?thesis using inputs(5) unfolding inputs_layout_def by fastforce
  qed
  obtain ctx where ctx: "new_CalcWit Z P S sz mem0 comps = Some ctx" and one: "fr_rep P (signalValues ctx ! 0) 1"
  proof -
    have "is_decimal ''1''" by (simp add: is_decimal_def is_digit_def)
    then obtain m' where m': "Fr_str2element Z P S (Ext 0) ''1'' 10 mem0 = Some m'"
      "fr_rep P (m' (Ext 0)) (int (dec_val ''1''))"
      using fr_mpz.str2element_rep [where s = "''1''" and m = mem0 and pE = "Ext 0", OF m _ m0] by blast
    moreover have "dec_val ''1'' = 1" by (simp add: dec_val_def digit_val_def)
    ultimately show ?thesis using that tot by (simp add: new_CalcWit_def)
  qed
  have no0: "0 \<notin> set (input_signals ?in)"
    using inputs(3) by (auto simp: input_signals_def unat_eq_zero)
  have H: "generate_hash_map fnv1a ?in (unat (size_of_input_hashmap sz)) = Some (InputHashMap circuit)"
    using c(2) o by simp
  obtain ctx' where l: "loadJson Z P S v0 (run circuit) sz (InputHashMap circuit) (Json_object fs) ctx = Inr (run circuit ctx')"
    "inputSignalAssignedCounter ctx' = 0" "length (signalValues ctx') = unat (total_signal_no sz)"
    "\<forall>(name, start, len) \<in> set ?in. \<forall>v ns. (name, v) \<in> set fs \<longrightarrow> json_nums v = Some ns \<longrightarrow>
       (\<forall>i < length ns. fr_rep P (signalValues ctx' ! (unat start + i)) (ns ! i))"
    "\<forall>i. i \<notin> set (input_signals ?in) \<longrightarrow> signalValues ctx' ! i = signalValues ctx ! i"
    using loadJson_complete [OF m v0 ctx inputs(1-4) H inputs(5) doc, of "run circuit"] by blast
  have one': "fr_rep P (signalValues ctx' ! 0) 1" using l(5) no0 one by simp
  let ?r = "run circuit ctx'"
  have ins: "\<forall>i \<in> insert 0 (set (input_signals ?in)). \<exists>x. fr_rep P (signalValues ctx' ! i) x"
  proof
    fix i assume i: "i \<in> insert 0 (set (input_signals ?in))"
    show "\<exists>x. fr_rep P (signalValues ctx' ! i) x"
    proof (cases "i = 0")
      case False
      then have "i \<in> set (input_signals ?in)" using i by simp
    then obtain name start len v ns j where n: "(name, start, len) \<in> set ?in" "(name, v) \<in> set fs"
      "json_nums v = Some ns" "j < length ns" "i = unat start + j"
      by (rule input_signal_value [OF doc])
    have "fr_rep P (signalValues ctx' ! (unat start + j)) (ns ! j)" using bspec [OF l(4) n(1)] n(2-4) by simp
      then show ?thesis unfolding n(5) by blast
    qed (use one' in blast)
  qed
  have r: "inputSignalAssignedCounter ?r = 0" "length (signalValues ?r) = unat (total_signal_no sz)"
    "\<forall>i < unat (total_signal_no sz). \<exists>x. fr_rep P (signalValues ?r ! i) x"
    "\<forall>i \<in> insert 0 (set (input_signals ?in)). signalValues ?r ! i = signalValues ctx' ! i"
    using run l(2,3) ins unfolding run_ok_def by metis+
  have tn: "unat (total_signal_no sz) < 2 ^ 32" using unsigned_less [of "total_signal_no sz"] by simp
  have wi: "unat (witness2SignalList circuit ! i) = ?w ! i" "?w ! i < unat (total_signal_no sz)" if "i < length ?w" for i
  proof -
    show b: "?w ! i < unat (total_signal_no sz)" using wl nth_mem [OF that] by blast
    then have "?w ! i < 2 ^ 64" using tn by simp
    then show "unat (witness2SignalList circuit ! i) = ?w ! i" using that by (simp add: c(3) unat_of_nat)
  qed
  obtain x where x: "\<forall>i < length ?w. fr_rep P (signalValues ?r ! (?w ! i)) (x i)"
  proof -
    have "\<forall>i. \<exists>y. i < length ?w \<longrightarrow> fr_rep P (signalValues ?r ! (?w ! i)) y" using r(3) wi(2) by blast
    from choice [OF this] show ?thesis by (blast intro: that)
  qed
  have nw: "unat (size_of_witness sz) = length ?w" using o by simp
  have "writeBinWitness G P sz circuit ?r mm =
      Inr (wtns_file (8 * fr_n64 P) (nat (qv P)) (unat (size_of_witness sz))
        (witness_values P (map x [0..<unat (size_of_witness sz)])))"
    by (rule fr_field.writeBinWitness_file [OF f]) (use nw c(3) wi x r(2) in simp_all)
  then have main: "witness_main G Z P S mem0 v0 mm comps run sz dat (Json_object fs) =
      Inr (wtns_file (8 * fr_n64 P) (nat (qv P)) (length ?w) (witness_values P (map x [0..<length ?w])))"
    using c(1) ctx l(1) r(1) by (simp add: witness_main_def getRemaingInputsToBeSet_def nw)
  have "x i mod qv P = ns ! j mod qv P"
    if i: "i < length ?w" and n: "(name, start, len) \<in> set ?in" "(name, v) \<in> set fs" "json_nums v = Some ns"
      "j < length ns" "?w ! i = unat start + j" for i name start len v ns j
  proof -
    have "fr_rep P (signalValues ctx' ! (unat start + j)) (ns ! j)" using bspec [OF l(4) n(1)] n(2-4) by simp
    moreover have "unat start + j \<in> set (input_signals ?in)"
    proof -
      have "length ns = unat len" by (rule doc_length [OF doc n(1-3)])
      then show ?thesis using n(1,4) by (force simp: input_signals_def)
    qed
    ultimately have "fr_rep P (signalValues ?r ! (?w ! i)) (ns ! j)" using r(4) n(5) by simp
    moreover have "fr_rep P (signalValues ?r ! (?w ! i)) (x i)" using x i by blast
    ultimately show ?thesis using fr_field.fr_rep_unique [OF f] by blast
  qed
  moreover have "x i mod qv P = 1 mod qv P" if i: "i < length ?w" and z: "?w ! i = 0" for i
  proof -
    have "fr_rep P (signalValues ?r ! (?w ! i)) 1" using r(4) one' z by simp
    moreover have "fr_rep P (signalValues ?r ! (?w ! i)) (x i)" using x i by blast
    ultimately show ?thesis using fr_field.fr_rep_unique [OF f] by blast
  qed
  ultimately show ?thesis using main by (intro exI [of _ "map x [0..<length ?w]"]) auto
qed

subsection \<open>Properties\<close>


text \<open>A circuit whose two other signals are copies of its two inputs.\<close>

definition demo_run :: "Circom_Circuit \<Rightarrow> Circom_CalcWit \<Rightarrow> Circom_CalcWit" where
  "demo_run circuit c =
     c\<lparr>signalValues := (signalValues c)[1 := signalValues c ! 2, 4 := signalValues c ! 3]\<rparr>"

lemma demo_run_ok: "run_ok P demo_dat_sizes {0, 2, 3} (demo_run circuit)"
proof -
  have "\<exists>x. fr_rep P (signalValues (demo_run circuit c) ! i) x"
    if l: "length (signalValues c) = 5" "\<forall>i \<in> {0, 2, 3}. \<exists>x. fr_rep P (signalValues c ! i) x" "i < 5" for c i
  proof -
    consider "i = 0" | "i = 1" | "i = 2" | "i = 3" | "i = 4"
      using l(3) by (auto simp: eval_nat_numeral less_Suc_eq)
    then show ?thesis using l(1,2) by cases (simp_all add: demo_run_def)
  qed
  then show ?thesis by (simp add: run_ok_def demo_dat_sizes_def demo_run_def)
qed


end
