(* ===== verification/RawFr.thy ===== *)
theory RawFr
  imports FrConv
begin

text \<open>
  The class \<open>RawFr\<close> of rapidsnark's field (\<open>build/fr.cpp\<close>, \<open>build/fr.hpp\<close>), which the curve library,
  the Fourier transform and the prover use. An element is an array of limbs in Montgomery form.
  The functions are thin layers over the generated functions of the raw field, which are
  renderings of the same template as circom's \<open>generic/fr.cpp\<close> (theories \<open>FrRaw\<close>, \<open>FrMont\<close>), and
  over GMP's integers. \<open>fe P e v\<close> says that the element \<open>e\<close> has the value \<open>v\<close> modulo the prime.
  \<open>None\<close> is a number that does not fit the limbs of an element, or a division by zero in GMP.
\<close>

subsection \<open>The functions\<close>

definition RawFr_add :: "mpn_api \<Rightarrow> fr_params \<Rightarrow> limbs \<Rightarrow> limbs \<Rightarrow> limbs" where
  "RawFr_add G P a b = Fr_rawAdd G P a b"

definition RawFr_sub :: "mpn_api \<Rightarrow> fr_params \<Rightarrow> limbs \<Rightarrow> limbs \<Rightarrow> limbs" where
  "RawFr_sub G P a b = Fr_rawSub G P a b"

definition RawFr_mul :: "mpn_api \<Rightarrow> fr_params \<Rightarrow> limbs \<Rightarrow> limbs \<Rightarrow> limbs" where
  "RawFr_mul G P a b = Fr_rawMMul G P a b"

definition RawFr_neg :: "mpn_api \<Rightarrow> fr_params \<Rightarrow> limbs \<Rightarrow> limbs" where
  "RawFr_neg G P a = Fr_rawNeg G P a"

definition RawFr_square :: "mpn_api \<Rightarrow> fr_params \<Rightarrow> limbs \<Rightarrow> limbs" where
  "RawFr_square G P a = Fr_rawMSquare G P a"

definition RawFr_mul1 :: "mpn_api \<Rightarrow> fr_params \<Rightarrow> limbs \<Rightarrow> u64 \<Rightarrow> limbs" where
  "RawFr_mul1 G P a b = Fr_rawMMul1 G P a b"

definition RawFr_toMontgomery :: "mpn_api \<Rightarrow> fr_params \<Rightarrow> limbs \<Rightarrow> limbs" where
  "RawFr_toMontgomery G P a = Fr_rawToMontgomery G P a"

definition RawFr_fromMontgomery :: "mpn_api \<Rightarrow> fr_params \<Rightarrow> limbs \<Rightarrow> limbs" where
  "RawFr_fromMontgomery G P a = Fr_rawFromMontgomery G P a"

definition RawFr_eq :: "mpn_api \<Rightarrow> limbs \<Rightarrow> limbs \<Rightarrow> bool" where
  "RawFr_eq G a b = Fr_rawIsEq G a b"

definition RawFr_isZero :: "mpn_api \<Rightarrow> limbs \<Rightarrow> int" where
  "RawFr_isZero G a = Fr_rawIsZero G a"

text \<open>The limbs are set to zero and the number is exported over them.\<close>

definition export_limbs :: "mpz_api \<Rightarrow> fr_params \<Rightarrow> int \<Rightarrow> limbs option" where
  "export_limbs Z P v =
     (let out = mpz_export Z v
      in if length out > fr_n64 P then None else Some (out @ replicate (fr_n64 P - length out) 0))"

definition RawFr_fromMpz :: "mpz_api \<Rightarrow> mpn_api \<Rightarrow> fr_params \<Rightarrow> int \<Rightarrow> limbs option" where
  "RawFr_fromMpz Z G P a = map_option (Fr_rawToMontgomery G P) (export_limbs Z P a)"

definition RawFr_toMpz :: "mpz_api \<Rightarrow> mpn_api \<Rightarrow> fr_params \<Rightarrow> limbs \<Rightarrow> int" where
  "RawFr_toMpz Z G P a = (let tmp = Fr_rawFromMontgomery G P a in mpz_import Z tmp)"

definition RawFr_fromString :: "mpz_api \<Rightarrow> mpn_api \<Rightarrow> fr_params \<Rightarrow> fr_globals \<Rightarrow> string \<Rightarrow> nat \<Rightarrow> limbs option" where
  "RawFr_fromString Z G P S s radix =
     (let mr = snd (mpz_init_set_str Z s radix)
      in case mpz_fdiv_r Z mr (mpz_q S) of
           None \<Rightarrow> None
         | Some mr \<Rightarrow> map_option (Fr_rawToMontgomery G P) (export_limbs Z P mr))"

definition RawFr_fromUI :: "mpz_api \<Rightarrow> mpn_api \<Rightarrow> fr_params \<Rightarrow> u64 \<Rightarrow> limbs option" where
  "RawFr_fromUI Z G P v =
     (let mr = mpz_set_ui Z v in map_option (Fr_rawToMontgomery G P) (export_limbs Z P mr))"

definition RawFr_set :: "mpz_api \<Rightarrow> mpn_api \<Rightarrow> fr_params \<Rightarrow> fr_globals \<Rightarrow> u32 \<Rightarrow> limbs option" where
  "RawFr_set Z G P S value =
     (let mr = mpz_set_si Z (scast value);
          mr = (if sint value < 0 then mpz_add Z mr (mpz_q S) else mr)
      in map_option (Fr_rawToMontgomery G P) (export_limbs Z P mr))"

definition RawFr_toString :: "mpz_api \<Rightarrow> mpn_api \<Rightarrow> fr_params \<Rightarrow> limbs \<Rightarrow> string" where
  "RawFr_toString Z G P a =
     (let tmp = Fr_rawFromMontgomery G P a;
          r = mpz_import Z tmp
      in mpz_get_str10 Z r)"

definition RawFr_inv :: "mpz_api \<Rightarrow> mpn_api \<Rightarrow> fr_params \<Rightarrow> fr_globals \<Rightarrow> limbs \<Rightarrow> limbs option" where
  "RawFr_inv Z G P S a =
     (let mr = mpz_import Z a;
          mr = snd (mpz_invert Z mr (mpz_q S))
      in map_option (\<lambda>r. Fr_rawMMul G P r (fr_r3_list P)) (export_limbs Z P mr))"

definition RawFr_div :: "mpz_api \<Rightarrow> mpn_api \<Rightarrow> fr_params \<Rightarrow> fr_globals \<Rightarrow> limbs \<Rightarrow> limbs \<Rightarrow> limbs option" where
  "RawFr_div Z G P S a b = map_option (RawFr_mul G P a) (RawFr_inv Z G P S b)"

text \<open>The constructor: zero, one and minus one.\<close>

definition new_RawFr :: "mpz_api \<Rightarrow> mpn_api \<Rightarrow> fr_params \<Rightarrow> fr_globals \<Rightarrow> (limbs \<times> limbs \<times> limbs) option" where
  "new_RawFr Z G P S =
     (let (_, S) = Fr_init Z P S
      in case (RawFr_set Z G P S 0, RawFr_set Z G P S 1) of
           (Some fZero, Some fOne) \<Rightarrow> Some (fZero, fOne, RawFr_neg G P fOne)
         | _ \<Rightarrow> None)"

text \<open>The power by repeated squaring, from the top bit of the scalar's bytes downwards.\<close>

definition BIT_IS_SET :: "u8 list \<Rightarrow> nat \<Rightarrow> bool" where
  "BIT_IS_SET s p \<longleftrightarrow> (s ! (p div 8)) AND push_bit (p mod 8) 1 \<noteq> 0"

fun exp_loop :: "mpn_api \<Rightarrow> fr_params \<Rightarrow> limbs \<Rightarrow> u8 list \<Rightarrow> nat \<Rightarrow> bool \<Rightarrow> limbs \<Rightarrow> bool \<times> limbs" where
  "exp_loop G P copyBase scalar 0 oneFound r = (oneFound, r)"
| "exp_loop G P copyBase scalar (Suc i) oneFound r =
     (if \<not> oneFound
      then if \<not> BIT_IS_SET scalar i then exp_loop G P copyBase scalar i oneFound r
           else exp_loop G P copyBase scalar i True (Fr_rawCopy copyBase)
      else let r = RawFr_square G P r;
               r = (if BIT_IS_SET scalar i then RawFr_mul G P r copyBase else r)
           in exp_loop G P copyBase scalar i oneFound r)"

definition RawFr_exp :: "mpn_api \<Rightarrow> fr_params \<Rightarrow> limbs \<Rightarrow> limbs \<Rightarrow> limbs \<Rightarrow> u8 list \<Rightarrow> limbs" where
  "RawFr_exp G P fOne r base' scalar =
     (let copyBase = Fr_rawCopy base';
          (oneFound, r) = exp_loop G P copyBase scalar (length scalar * 8) False r
      in if \<not> oneFound then Fr_rawCopy fOne else r)"

subsection \<open>Their values\<close>

definition fe :: "fr_params \<Rightarrow> limbs \<Rightarrow> int \<Rightarrow> bool" where
  "fe P e v \<longleftrightarrow> reduced P e (v * Rv P)"

lemma fe_length: "fe P e v \<Longrightarrow> length e = fr_n64 P"
  by (simp add: fe_def reduced_def)

lemma bit_is_set_le_nat: "p < 8 * length s \<Longrightarrow> BIT_IS_SET s p \<longleftrightarrow> bit (le_nat s) p"
proof (induction s arbitrary: p)
  case (Cons b s)
  have c: "int (le_nat (b # s)) = concat_bit 8 (uint b) (int (le_nat s))"
    by (simp add: concat_bit_eq push_bit_eq_mult take_bit_int_eq_self uint_lt2p [of b, simplified])
  have l: "bit (le_nat (b # s)) p \<longleftrightarrow> (if p < 8 then bit (uint b) p else bit (le_nat s) (p - 8))"
    unfolding bit_of_nat_iff_bit [where 'a = int, symmetric] c by (simp add: bit_concat_bit_iff)
  have set: "BIT_IS_SET s' p \<longleftrightarrow> bit (s' ! (p div 8)) (p mod 8)" for s' p
    by (simp add: BIT_IS_SET_def and_exp_eq_0_iff_not_bit push_bit_eq_mult flip: exp_eq_0_imp_not_bit)
  show ?case
  proof (cases "p < 8")
    case True
    then show ?thesis unfolding l set by (simp add: bit_uint_iff)
  next
    case False
    then have "p div 8 = Suc ((p - 8) div 8)" "p mod 8 = (p - 8) mod 8" by (simp_all add: le_div_geq le_mod_geq)
    then show ?thesis using Cons.IH [of "p - 8"] Cons.prems False unfolding l set by simp
  qed
qed simp

lemma le_nat_div_bit: "(N::nat) div 2 ^ i = 2 * (N div 2 ^ Suc i) + (if bit N i then 1 else 0)"
proof -
  have "N div 2 ^ Suc i = N div 2 ^ i div 2" by (metis div_mult2_eq power_Suc2)
  moreover have "bit N i \<longleftrightarrow> odd (N div 2 ^ i)" by (rule bit_iff_odd)
  ultimately show ?thesis by (auto simp del: power_Suc simp: odd_two_times_div_two_succ even_two_times_div_two)
qed

context fr_field
begin

lemma fe_add: "fe P a u \<Longrightarrow> fe P b v \<Longrightarrow> fe P (RawFr_add G P a b) (u + v)"
  using red_Add by (simp add: fe_def RawFr_add_def distrib_right)

lemma fe_sub: "fe P a u \<Longrightarrow> fe P b v \<Longrightarrow> fe P (RawFr_sub G P a b) (u - v)"
  using red_Sub by (simp add: fe_def RawFr_sub_def left_diff_distrib)

lemma fe_mul: "fe P a u \<Longrightarrow> fe P b v \<Longrightarrow> fe P (RawFr_mul G P a b) (u * v)"
  using red_MMul_forms(1) by (simp add: fe_def RawFr_mul_def)

lemma fe_neg: "fe P a u \<Longrightarrow> fe P (RawFr_neg G P a) (- u)"
  using red_Neg by (simp add: fe_def RawFr_neg_def)

lemma fe_square: "fe P a u \<Longrightarrow> fe P (RawFr_square G P a) (u * u)"
  using fe_mul [of a u a u] by (simp add: RawFr_square_def RawFr_mul_def Fr_rawMSquare_def)

lemma fe_cong: "fe P e u \<Longrightarrow> u mod qv P = v mod qv P \<Longrightarrow> fe P e v"
  unfolding fe_def by (erule reduced_cong) (metis mod_mult_left_eq)

lemma fe_cong_iff: "fe P e u \<Longrightarrow> fe P e v \<longleftrightarrow> u mod qv P = v mod qv P"
proof -
  assume u: "fe P e u"
  have "u mod qv P = v mod qv P" if v: "fe P e v"
  proof -
    have "(u * Rv P) mod qv P = (v * Rv P) mod qv P" using reduced_unique u v unfolding fe_def by blast
    then have "qv P dvd (u - v) * Rv P" by (simp add: mod_eq_dvd_iff left_diff_distrib)
    then have "qv P dvd u - v" using coprime_R by (simp add: coprime_dvd_mult_left_iff)
    then show ?thesis by (simp add: mod_eq_dvd_iff)
  qed
  then show ?thesis using u fe_cong by blast
qed

text \<open>Every array of limbs below the prime is an element.\<close>

lemma fe_total:
  assumes "length a = fr_n64 P" "lval a < qv P"
  shows "\<exists>v. fe P a v"
proof -
  obtain k c where "k * qv P + c * Rv P = 1"
    using coprime_R bezout_int [of "qv P" "Rv P"] by (auto simp: coprime_iff_gcd_eq_1)
  then have "lval a * (k * qv P + c * Rv P) = lval a" by simp
  then have "lval a * c * Rv P = lval a - lval a * k * qv P" by (simp add: algebra_simps)
  then have "lval a * c * Rv P - lval a = qv P * (- (lval a * k))" by (simp add: algebra_simps)
  then have "qv P dvd lval a * c * Rv P - lval a" by (rule dvdI)
  then have "(lval a * c * Rv P) mod qv P = lval a mod qv P" by (simp add: mod_eq_dvd_iff)
  then show ?thesis using assms unfolding fe_def reduced_def by (intro exI [of _ "lval a * c"]) simp
qed

lemma fe_eq: "fe P a u \<Longrightarrow> fe P b v \<Longrightarrow> RawFr_eq G a b \<longleftrightarrow> u mod qv P = v mod qv P"
proof -
  assume a: "fe P a u" and b: "fe P b v"
  have l: "length a = length b" using fe_length [OF a] fe_length [OF b] by simp
  have "RawFr_eq G a b \<longleftrightarrow> lval a = lval b"
    using rawCmp_val(1) [OF l] by (simp add: RawFr_eq_def Fr_rawIsEq_def Fr_rawCmp_def)
  also have "\<dots> \<longleftrightarrow> (u * Rv P) mod qv P = (v * Rv P) mod qv P"
    using a b by (simp add: fe_def reduced_def)
  also have "\<dots> \<longleftrightarrow> fe P a v" using a by (simp add: fe_def reduced_def)
  finally show ?thesis using fe_cong_iff [OF a, of v] by simp
qed

lemma fe_of_reduced: "reduced P e v \<Longrightarrow> fe P (Fr_rawToMontgomery G P e) v"
  using red_MMul [OF _ red_r2, of e v "v * Rv P"] by (simp add: fe_def Fr_rawToMontgomery_def algebra_simps)

lemma fe_fromMontgomery: "fe P e v \<Longrightarrow> reduced P (RawFr_fromMontgomery G P e) v"
  using red_FromMont by (simp add: fe_def RawFr_fromMontgomery_def)

lemma exp_loop_val:
  assumes "fe P b v" "oneFound \<longrightarrow> fe P r (v ^ (le_nat s div 2 ^ i))" "\<not> oneFound \<longrightarrow> le_nat s div 2 ^ i = 0"
    and "i \<le> 8 * length s" "exp_loop G P b s i oneFound r = (f', r')"
  shows "if f' then fe P r' (v ^ le_nat s) else le_nat s = 0"
  using assms(2-)
proof (induction i arbitrary: oneFound r)
  case 0
  then show ?case by (auto split: if_splits)
next
  case (Suc i)
  let ?N = "le_nat s"
  have bit: "BIT_IS_SET s i \<longleftrightarrow> bit ?N i" using bit_is_set_le_nat [of i s] Suc.prems(3) by simp
  note d = le_nat_div_bit [of ?N i]
  show ?case
  proof (cases oneFound)
    case True
    have r: "fe P r (v ^ (?N div 2 ^ Suc i))" using Suc.prems(1) True by simp
    let ?r1 = "RawFr_square G P r"
    let ?r2 = "if BIT_IS_SET s i then RawFr_mul G P ?r1 b else ?r1"
    have s1: "fe P ?r1 (v ^ (2 * (?N div 2 ^ Suc i)))" using fe_square [OF r] by (simp add: power_mult power2_eq_square flip: power_mult_distrib)
    have "fe P ?r2 (v ^ (?N div 2 ^ i))"
      using s1 fe_mul [OF s1 assms(1)] unfolding bit d by (simp add: mult.commute)
    moreover have "exp_loop G P b s i True ?r2 = (f', r')" using Suc.prems(4) True by (simp add: Let_def)
    ultimately show ?thesis using Suc.IH [of True ?r2] Suc.prems(3) by simp
  next
    case False
    have z: "?N div 2 ^ Suc i = 0" using Suc.prems(2) False by simp
    show ?thesis
    proof (cases "BIT_IS_SET s i")
      case True
      have "exp_loop G P b s i True b = (f', r')" using Suc.prems(4) True False by (simp add: Fr_rawCopy_def)
      moreover have "?N div 2 ^ i = 1" using d z True bit by simp
      ultimately show ?thesis using Suc.IH [of True b] assms(1) Suc.prems(3) by simp
    next
      case F: False
      have "exp_loop G P b s i False r = (f', r')" using Suc.prems(4) F False by simp
      moreover have "?N div 2 ^ i = 0" using d z F bit by simp
      ultimately show ?thesis using Suc.IH [of False r] Suc.prems(3) by simp
    qed
  qed
qed

lemma fe_exp:
  assumes "fe P b v" "fe P fOne 1"
  shows "fe P (RawFr_exp G P fOne r b s) (v ^ le_nat s)"
proof -
  obtain f' r' where e: "exp_loop G P b s (length s * 8) False r = (f', r')" by fastforce
  have "le_nat s div 2 ^ (8 * length s) = 0"
    using le_nat_less [of s] by (simp add: power_mult)
  then have "if f' then fe P r' (v ^ le_nat s) else le_nat s = 0"
    by (intro exp_loop_val [OF assms(1) _ _ _ e]) (simp_all add: mult.commute)
  then show ?thesis using e assms(2) by (simp add: RawFr_exp_def Fr_rawCopy_def split: if_splits)
qed

end

context fr_mpz
begin

lemma export_limbs_val:
  assumes "0 \<le> v" "v < qv P"
  shows "\<exists>e. export_limbs Z P v = Some e \<and> reduced P e v"
proof -
  have "v < base (fr_n64 P)" using assms(2) q_less_R by (simp add: Rv_def)
  from export_law [OF assms(1) this]
  have x: "length (mpz_export Z v) \<le> fr_n64 P" "lval (mpz_export Z v) = v" by simp_all
  have "lval (mpz_export Z v @ replicate (fr_n64 P - length (mpz_export Z v)) 0) = v"
    using x(2) by (simp add: lval_append lval_replicate_0)
  then show ?thesis using x assms by (simp add: export_limbs_def Let_def reduced_def)
qed

lemma fe_fromMpz: "0 \<le> v \<Longrightarrow> v < qv P \<Longrightarrow> \<exists>e. RawFr_fromMpz Z G P v = Some e \<and> fe P e v"
  using export_limbs_val [of v] fe_of_reduced by (auto simp: RawFr_fromMpz_def)

lemma fe_toMpz: "fe P e v \<Longrightarrow> RawFr_toMpz Z G P e = v mod qv P"
  using fe_fromMontgomery [of e v] by (simp add: RawFr_toMpz_def RawFr_fromMontgomery_def import_law reduced_lval)

lemma fe_toString: "fe P e v \<Longrightarrow> RawFr_toString Z G P e = dec_str (nat (v mod qv P))"
  using fe_toMpz [of e v] q_pos by (simp add: RawFr_toMpz_def RawFr_toString_def Let_def get_str_law)

lemma fe_fromString:
  assumes "mpz_init_set_str Z s radix = (0, v)"
  shows "\<exists>e. RawFr_fromString Z G P S s radix = Some e \<and> fe P e v"
proof -
  obtain e where "export_limbs Z P (v mod qv P) = Some e" "reduced P e (v mod qv P)"
    using export_limbs_val [of "v mod qv P"] q_pos by auto
  moreover from this have "reduced P e v" by (simp add: reduced_def)
  ultimately show ?thesis using fe_of_reduced assms q_pos by (auto simp: RawFr_fromString_def S_q fdiv_r_law)
qed

lemma fe_fromUI: "uint v < qv P \<Longrightarrow> \<exists>e. RawFr_fromUI Z G P v = Some e \<and> fe P e (uint v)"
  using export_limbs_val [of "uint v"] fe_of_reduced by (auto simp: RawFr_fromUI_def set_ui_law)

lemma fe_set: "\<exists>e. RawFr_set Z G P S v = Some e \<and> fe P e (sint v)"
proof -
  let ?m = "if sint v < 0 then sint v + qv P else sint v"
  have b: "- (2 ^ 31) \<le> sint v" "sint v < 2 ^ 31" by (rule sint_u32_bounds)+
  have "0 \<le> ?m" "?m < qv P" using b q_gt_31 by auto
  then obtain e where "export_limbs Z P ?m = Some e" "reduced P e ?m" using export_limbs_val by blast
  moreover have "?m mod qv P = sint v mod qv P" by simp
  ultimately have "export_limbs Z P ?m = Some e" "fe P (Fr_rawToMontgomery G P e) (sint v)"
    using fe_of_reduced reduced_cong by metis+
  moreover have "(if sint v < 0 then mpz_add Z (mpz_set_si Z (scast v)) (mpz_q S) else mpz_set_si Z (scast v)) = ?m"
    by (simp add: set_si_law add_law S_q sint_scast_64)
  ultimately show ?thesis by (simp add: RawFr_set_def Let_def)
qed

lemma fe_new:
  "\<exists>z e n. new_RawFr Z G P S = Some (z, e, n) \<and> fe P z 0 \<and> fe P e 1 \<and> fe P n (- 1)"
proof -
  obtain z e where "RawFr_set Z G P S 0 = Some z" "fe P z 0" "RawFr_set Z G P S 1 = Some e" "fe P e 1"
    using fe_set [of 0] fe_set [of 1] by auto
  moreover have "snd (Fr_init Z P S) = S" using S_ok by (simp add: Fr_init_def globals_ok_def)
  ultimately show ?thesis using fe_neg by (auto simp: new_RawFr_def split_def)
qed

lemma fe_inv:
  assumes "fe P a v" "coprime v (qv P)"
  shows "\<exists>e w. RawFr_inv Z G P S a = Some e \<and> fe P e w \<and> (w * v) mod qv P = 1"
proof -
  let ?a = "(v * Rv P) mod qv P"
  obtain d w where e: "mpz_invert Z ?a (qv P) = (d, w)" by fastforce
  have q: "1 < qv P" by (rule less_trans [OF _ q_gt]) simp
  have "coprime (v * Rv P) (qv P)" using assms(2) coprime_R by (simp add: coprime_commute)
  then have "coprime ?a (qv P)" using q by simp
  then have w: "0 \<le> w" "w < qv P" "(w * ?a) mod qv P = 1" using invert_law [OF q _ e] by auto
  obtain x where x: "export_limbs Z P w = Some x" "reduced P x w" using export_limbs_val [OF w(1,2)] by blast
  have "reduced P (Fr_rawMMul G P x (fr_r3_list P)) (w * Rv P * Rv P)"
    by (rule red_MMul [OF x(2) red_r3]) (simp add: algebra_simps)
  then have f: "fe P (Fr_rawMMul G P x (fr_r3_list P)) (w * Rv P)" by (simp add: fe_def)
  have "w * Rv P * v = w * (v * Rv P)" by simp
  then have "(w * Rv P * v) mod qv P = (w * ?a) mod qv P" by (simp only: mod_mult_right_eq)
  moreover have "lval a = ?a" using assms(1) by (simp add: fe_def reduced_lval)
  ultimately show ?thesis using f w(3) x(1) e by (auto simp: RawFr_inv_def import_law S_q)
qed

lemma fe_div:
  assumes "fe P a u" "fe P b v" "coprime v (qv P)"
  shows "\<exists>e w. RawFr_div Z G P S a b = Some e \<and> fe P e w \<and> (w * v) mod qv P = u mod qv P"
proof -
  obtain e w where i: "RawFr_inv Z G P S b = Some e" "fe P e w" "(w * v) mod qv P = 1"
    using fe_inv [OF assms(2,3)] by blast
  have "(u * w * v) mod qv P = (u * ((w * v) mod qv P)) mod qv P" by (simp add: mod_mult_right_eq mult.assoc)
  then have "(u * w * v) mod qv P = u mod qv P" using i(3) by simp
  then show ?thesis using i(1) fe_mul [OF assms(1) i(2)] by (auto simp: RawFr_div_def)
qed

end

subsection \<open>The results\<close>

text \<open>
  Property C19. The constructor builds zero, one and minus one, and the functions of \<open>RawFr\<close> compute the field's operations on the values of their
  arguments: sum, difference, product, negation, square, comparison, division by an invertible
  element, and the power by the number that the scalar's bytes spell, whatever the result's
  array held before.
\<close>

theorem raw_field_correct:
  assumes "fr_mpz G P Z S" "fe P a u" "fe P b v" "fe P fOne 1" "coprime v (qv P)"
  shows "(\<exists>z e n. new_RawFr Z G P S = Some (z, e, n) \<and> fe P z 0 \<and> fe P e 1 \<and> fe P n (- 1)) \<and>
    fe P (RawFr_add G P a b) (u + v) \<and> fe P (RawFr_sub G P a b) (u - v) \<and>
    fe P (RawFr_mul G P a b) (u * v) \<and> fe P (RawFr_neg G P a) (- u) \<and>
    fe P (RawFr_square G P a) (u * u) \<and> (RawFr_eq G a b \<longleftrightarrow> u mod qv P = v mod qv P) \<and>
    fe P (RawFr_exp G P fOne r a s) (u ^ le_nat s) \<and>
    (\<exists>e w. RawFr_inv Z G P S b = Some e \<and> fe P e w \<and> (w * v) mod qv P = 1) \<and>
    (\<exists>e w. RawFr_div Z G P S a b = Some e \<and> fe P e w \<and> (w * v) mod qv P = u mod qv P)"
proof -
  have f: "fr_field G P" using assms(1) by (simp add: fr_mpz_def)
  note ops = fr_field.fe_add fr_field.fe_sub fr_field.fe_mul
  show ?thesis
    using fr_mpz.fe_new [OF assms(1)] ops [OF f assms(2,3)] fr_field.fe_neg [OF f assms(2)] fr_field.fe_square [OF f assms(2)]
      fr_field.fe_eq [OF f assms(2,3)] fr_field.fe_exp [OF f assms(2,4)]
      fr_mpz.fe_inv [OF assms(1,3,5)] fr_mpz.fe_div [OF assms(1-3,5)] by blast
qed

theorem raw_field_correct_witness:
  "\<exists>a b fOne. fe bn128_params a 12 \<and> fe bn128_params b 7 \<and>
    fe bn128_params (RawFr_exp mpn_ref bn128_params fOne [] a [3, 0]) (12 ^ 3) \<and>
    (\<exists>e w. RawFr_div mpz_ref mpn_ref bn128_params bn128_globals a b = Some e \<and> fe bn128_params e w \<and>
      (w * 7) mod qv bn128_params = 12 mod qv bn128_params)"
proof -
  obtain a where a: "fe bn128_params a 12" using bn128_gmp.fe_set [of 12] by auto
  obtain b where b: "fe bn128_params b 7" using bn128_gmp.fe_set [of 7] by auto
  obtain c where c: "fe bn128_params c 1" using bn128_gmp.fe_set [of 1] by auto
  have "le_nat [3, 0] = 3" by simp
  then show ?thesis
    using raw_field_correct [OF bn128_fr_mpz a b c bn128_coprime_7, of "[]" "[3, 0]"] a b by auto
qed

text \<open>
  An element survives its decimal string: \<open>toString\<close> prints the residue of its
  value and \<open>fromString\<close> of that string builds an array of the same limbs. \<open>toMpz\<close> and \<open>fromMpz\<close>
  are inverse in the same way.
\<close>

lemma raw_field_roundtrips:
  assumes "fr_mpz G P Z S" "length a = fr_n64 P" "lval a < qv P"
  shows "RawFr_fromString Z G P S (RawFr_toString Z G P a) 10 = Some a \<and>
    RawFr_fromMpz Z G P (RawFr_toMpz Z G P a) = Some a"
proof -
  have f: "fr_field G P" using assms(1) by (simp add: fr_mpz_def)
  obtain v where a: "fe P a v" using fr_field.fe_total [OF f assms(2,3)] by blast
  have q: "0 < qv P" by (rule fr_field.q_pos [OF f])
  have dec: "int (dec_val (dec_str (nat (v mod qv P)))) = v mod qv P" using q by (simp add: dec_val_str)
  have "mpz_lib Z" using assms(1) by (simp add: fr_mpz_def)
  from mpz_lib.set_str_law [OF this is_decimal_str, of "nat (v mod qv P)"]
  have "mpz_init_set_str Z (dec_str (nat (v mod qv P))) 10 = (0, v mod qv P)" by (simp add: dec)
  from fr_mpz.fe_fromString [OF assms(1) this]
  obtain e where e: "RawFr_fromString Z G P S (RawFr_toString Z G P a) 10 = Some e" "fe P e (v mod qv P)"
    using fr_mpz.fe_toString [OF assms(1) a] by auto
  have "0 \<le> v mod qv P" "v mod qv P < qv P" using q by simp_all
  from fr_mpz.fe_fromMpz [OF assms(1) this]
  obtain e' where e': "RawFr_fromMpz Z G P (RawFr_toMpz Z G P a) = Some e'" "fe P e' (v mod qv P)"
    using fr_mpz.fe_toMpz [OF assms(1) a] by auto
  have "x = a" if "fe P x (v mod qv P)" for x
  proof -
    have "fe P x v" by (rule fr_field.fe_cong [OF f that]) simp
    then show ?thesis using a by (intro lval_inject) (simp_all add: fe_def reduced_def)
  qed
  then show ?thesis using e e' by blast
qed

lemma raw_field_roundtrips_witness:
  "RawFr_fromString mpz_ref mpn_ref bn128_params bn128_globals
     (RawFr_toString mpz_ref mpn_ref bn128_params [5, 0, 7, 1]) 10 = Some [5, 0, 7, 1]"
proof -
  have "length [5, 0, 7, 1 :: u64] = fr_n64 bn128_params" "lval [5, 0, 7, 1] < qv bn128_params"
    by (simp_all add: bn128_fields bn128_limbs qv_def B64_def)
  from raw_field_roundtrips [OF bn128_fr_mpz this] show ?thesis by blast
qed

end
