(* ===== verification/Fft.thy ===== *)
theory Fft
  imports RawFr "HOL-Library.Multiset"
begin

text \<open>
  The Fourier transform of the prover (\<open>ffiasm/c/fft.cpp\<close>) with the division of a loop among
  threads (\<open>ThreadPool\<close> of \<open>ffiasm/c/misc.hpp\<close>). The functions are templates over a field: the
  operations are the fields of a record. The iterations of a parallel loop run in some order
  that keeps only the order inside a job: the parameter \<open>il\<close> merges the jobs, and the results
  hold for every merge. The iterations of each loop write disjoint cells, so that runs of them
  at the same time have the effect of one of these orders. \<open>None\<close> is a failed assertion or an
  access outside an array.
\<close>

subsection \<open>Parallel loops\<close>

fun job_ranges :: "nat \<Rightarrow> nat \<Rightarrow> nat \<Rightarrow> nat \<Rightarrow> nat \<Rightarrow> (nat \<times> nat) list" where
  "job_ranges 0 i minJobSize elementRest jobBegin = []"
| "job_ranges (Suc k) i minJobSize elementRest jobBegin =
     (let jobSize = (if i < elementRest then minJobSize + 1 else minJobSize)
      in (jobBegin, jobBegin + jobSize) # job_ranges k (i + 1) minJobSize elementRest (jobBegin + jobSize))"

definition divideWork :: "nat \<Rightarrow> nat \<Rightarrow> nat \<Rightarrow> (nat \<times> nat) list" where
  "divideWork begin' end' threadCount =
     (let elementCount = end' - begin';
          chunkCount = min (threadCount * 4) elementCount;
          minJobSize = elementCount div chunkCount;
          elementRest = elementCount mod chunkCount
      in job_ranges chunkCount 0 minJobSize elementRest begin')"

definition parallelFor :: "(nat list list \<Rightarrow> nat list) \<Rightarrow> nat \<Rightarrow> nat \<Rightarrow> nat \<Rightarrow> (nat \<Rightarrow> 'a \<Rightarrow> 'a) \<Rightarrow> 'a \<Rightarrow> 'a" where
  "parallelFor il nThreads begin' end' func st =
     (let b = sint (of_nat begin' :: u32); e = sint (of_nat end' :: u32)
      in if b \<ge> e then st
         else foldl (\<lambda>st i. func i st) st (il (map (\<lambda>(b, e). [b..<e]) (divideWork (nat b) (nat e) nThreads))))"

subsection \<open>The transform\<close>

record 'e field_ops =
  f_add :: "'e \<Rightarrow> 'e \<Rightarrow> 'e"
  f_sub :: "'e \<Rightarrow> 'e \<Rightarrow> 'e"
  f_mul :: "'e \<Rightarrow> 'e \<Rightarrow> 'e"
  f_exp :: "'e \<Rightarrow> 'e \<Rightarrow> u8 list \<Rightarrow> 'e"   \<comment> \<open>the old contents of the result, the base, the scalar\<close>
  f_eq :: "'e \<Rightarrow> 'e \<Rightarrow> bool"
  f_zero :: 'e
  f_one :: 'e
  f_negOne :: 'e
  f_toMontgomery :: "'e \<Rightarrow> 'e"
  f_fromMontgomery :: "'e \<Rightarrow> 'e"
  f_toMpz :: "'e \<Rightarrow> int"
  f_fromMpz :: "int \<Rightarrow> 'e option"
  f_toString :: "'e \<Rightarrow> string"

record 'e FFT =
  fft_s :: nat
  nqr :: 'e
  roots :: "'e list"
  powTwoInv :: "'e list"

function log2_loop :: "u64 \<Rightarrow> nat \<Rightarrow> nat" where
  "log2_loop n res = (if n \<le> 1 then res else log2_loop (drop_bit 1 n) (res + 1))"
  by pat_completeness auto
termination
proof (relation "measure (\<lambda>(n, _). unat n)")
  fix n :: u64 and res :: nat
  assume "\<not> n \<le> 1"
  then have "1 < unat n" by (simp add: word_less_nat_alt not_le)
  then show "((drop_bit 1 n, res + 1), (n, res)) \<in> measure (\<lambda>(n, _). unat n)"
    by (simp add: drop_bit_eq_div unat_div)
qed simp

declare log2_loop.simps [simp del]

definition fft_log2 :: "u64 \<Rightarrow> nat option" where
  "fft_log2 n = (if n = 0 then None else Some (log2_loop n 0))"

text \<open>The bits of a 32-bit number in reverse order.\<close>

definition BR :: "u64 \<Rightarrow> nat \<Rightarrow> u64" where
  "BR x domainPow =
     (let x = drop_bit 16 x OR push_bit 16 x;
          x = drop_bit 8 (x AND 0xFF00FF00) OR push_bit 8 (x AND 0x00FF00FF);
          x = drop_bit 4 (x AND 0xF0F0F0F0) OR push_bit 4 (x AND 0x0F0F0F0F);
          x = drop_bit 2 (x AND 0xCCCCCCCC) OR push_bit 2 (x AND 0x33333333)
      in drop_bit (32 - domainPow) (drop_bit 1 (x AND 0xAAAAAAAA) OR push_bit 1 (x AND 0x55555555)))"

definition fft_root :: "'e FFT \<Rightarrow> nat \<Rightarrow> nat \<Rightarrow> 'e" where
  "fft_root fft domainPow idx = roots fft ! (idx * 2 ^ (fft_s fft - domainPow))"

definition reverse_step :: "nat \<Rightarrow> nat \<Rightarrow> 'e list \<Rightarrow> 'e list" where
  "reverse_step domainPow i a =
     (let r = unat (BR (of_nat i) domainPow)
      in if i > r then let tmp = a ! i; a = a[i := a ! r] in a[r := tmp] else a)"

definition reversePermutation :: "(nat list list \<Rightarrow> nat list) \<Rightarrow> nat \<Rightarrow> 'e list \<Rightarrow> nat \<Rightarrow> nat \<Rightarrow> 'e list" where
  "reversePermutation il nThreads a n domainPow = parallelFor il nThreads 0 n (reverse_step domainPow) a"

definition fft_step :: "'e field_ops \<Rightarrow> 'e FFT \<Rightarrow> nat \<Rightarrow> nat \<Rightarrow> 'e list \<Rightarrow> 'e list" where
  "fft_step F fft s i a =
     (let m = 2 ^ s; mdiv2 = m div 2;
          k = (i div mdiv2) * m; j = i mod mdiv2;
          t = f_mul F (fft_root fft s j) (a ! (k + j + mdiv2));
          u = a ! (k + j);
          a = a[k + j := f_add F t u]
      in a[k + j + mdiv2 := f_sub F u t])"

definition fft_fft :: "'e field_ops \<Rightarrow> 'e FFT \<Rightarrow> (nat list list \<Rightarrow> nat list) \<Rightarrow> nat \<Rightarrow> 'e list \<Rightarrow> nat \<Rightarrow> 'e list option" where
  "fft_fft F fft il nThreads a n =
     (case fft_log2 (of_nat n) of
        None \<Rightarrow> None
      | Some domainPow \<Rightarrow>
          if 2 ^ domainPow \<noteq> n \<or> domainPow > fft_s fft \<or> n > length a then None
          else let a = reversePermutation il nThreads a n domainPow
               in Some (foldl (\<lambda>a s. parallelFor il nThreads 0 (n div 2) (fft_step F fft s) a) a [1..<domainPow + 1]))"

definition ifft_step :: "'e field_ops \<Rightarrow> 'e FFT \<Rightarrow> nat \<Rightarrow> nat \<Rightarrow> nat \<Rightarrow> 'e list \<Rightarrow> 'e list" where
  "ifft_step F fft n domainPow i a =
     (let r = n - i;
          tmp = a ! i;
          a = a[i := f_mul F (a ! r) (powTwoInv fft ! domainPow)]
      in a[r := f_mul F tmp (powTwoInv fft ! domainPow)])"

definition fft_ifft :: "'e field_ops \<Rightarrow> 'e FFT \<Rightarrow> (nat list list \<Rightarrow> nat list) \<Rightarrow> nat \<Rightarrow> 'e list \<Rightarrow> nat \<Rightarrow> 'e list option" where
  "fft_ifft F fft il nThreads a n =
     (case fft_fft F fft il nThreads a n of
        None \<Rightarrow> None
      | Some a \<Rightarrow>
     (case fft_log2 (of_nat n) of
        None \<Rightarrow> None
      | Some domainPow \<Rightarrow>
          let nDiv2 = n div 2;
              a = parallelFor il nThreads 1 nDiv2 (ifft_step F fft n domainPow) a;
              a = a[0 := f_mul F (a ! 0) (powTwoInv fft ! domainPow)]
          in Some (a[n div 2 := f_mul F (a ! (n div 2)) (powTwoInv fft ! domainPow)])))"

subsection \<open>The iterations of a parallel loop\<close>

text \<open>A merge of jobs runs every iteration once.\<close>

definition fair :: "(nat list list \<Rightarrow> nat list) \<Rightarrow> bool" where
  "fair il \<longleftrightarrow> (\<forall>jobs. mset (il jobs) = mset (concat jobs))"

lemma job_ranges_concat:
  "concat (map (\<lambda>(b, e). [b..<e]) (job_ranges k i mn rest b)) = [b..<b + k * mn + (min (i + k) rest - min i rest)]"
proof (induction k arbitrary: i b)
  case (Suc k)
  let ?sz = "if i < rest then mn + 1 else mn"
  let ?x = "k * mn + (min (i + 1 + k) rest - min (i + 1) rest)"
  have "concat (map (\<lambda>(b, e). [b..<e]) (job_ranges (Suc k) i mn rest b)) = [b..<b + ?sz] @ [b + ?sz..<b + ?sz + ?x]"
    using Suc.IH [of "i + 1" "b + ?sz"] by (simp only: job_ranges.simps Let_def list.map concat.simps prod.case add.assoc)
  also have "\<dots> = [b..<b + ?sz + ?x]" by (rule upt_add_eq_append [symmetric]) simp
  also have "b + ?sz + ?x = b + Suc k * mn + (min (i + Suc k) rest - min i rest)" by (auto simp: min_def)
  finally show ?case .
qed simp

lemma divideWork_concat:
  assumes "b < e" "0 < t"
  shows "concat (map (\<lambda>(b, e). [b..<e]) (divideWork b e t)) = [b..<e]"
proof -
  let ?n = "e - b" and ?c = "min (t * 4) (e - b)"
  have "?n mod ?c \<le> ?c" using assms by (intro less_imp_le mod_less_divisor) simp
  then have "b + ?c * (?n div ?c) + (min (0 + ?c) (?n mod ?c) - min 0 (?n mod ?c)) = b + (?c * (?n div ?c) + ?n mod ?c)"
    by simp
  also have "\<dots> = e" using assms(1) by (simp only: mult_div_mod_eq)
  finally show ?thesis unfolding divideWork_def Let_def job_ranges_concat by simp
qed

lemma sint_of_nat: "n < 2 ^ 31 \<Longrightarrow> sint (of_nat n :: u32) = int n"
  by (simp add: signed_of_nat signed_take_bit_int_eq_self)

lemma pow_30: "k \<le> 30 \<Longrightarrow> (2::nat) ^ k < 2 ^ 31" "k \<le> 30 \<Longrightarrow> (2::nat) ^ k div 2 < 2 ^ 31"
proof -
  assume "k \<le> 30"
  then have "(2::nat) ^ k \<le> 2 ^ 30" by (intro power_increasing) simp_all
  then show "(2::nat) ^ k < 2 ^ 31" "(2::nat) ^ k div 2 < 2 ^ 31" by simp_all
qed

lemma parallelFor_perm:
  assumes "fair il" "0 < t" "b \<le> 1" "e < 2 ^ 31"
  obtains xs where "parallelFor il t b e f st = foldl (\<lambda>st i. f i st) st xs" "distinct xs" "set xs = {b..<e}"
proof (cases "b < e")
  case True
  let ?xs = "il (map (\<lambda>(b, e). [b..<e]) (divideWork b e t))"
  have m: "mset ?xs = mset [b..<e]"
    using assms(1) divideWork_concat [OF True assms(2)] unfolding fair_def by metis
  have s: "sint (of_nat b :: u32) = int b" "sint (of_nat e :: u32) = int e" using assms(3,4) by (auto intro: sint_of_nat)
  show ?thesis
  proof (rule that)
    show "parallelFor il t b e f st = foldl (\<lambda>st i. f i st) st ?xs"
      using True unfolding parallelFor_def s by simp
    show "distinct ?xs" using mset_eq_imp_distinct_iff [OF m] by simp
    show "set ?xs = {b..<e}" using mset_eq_setD [OF m] by simp
  qed
next
  case False
  have s: "sint (of_nat b :: u32) = int b" "sint (of_nat e :: u32) = int e" using assms(3,4) by (auto intro: sint_of_nat)
  show ?thesis using False by (intro that [of "[]"]) (simp_all add: parallelFor_def s)
qed

text \<open>Iterations that touch two cells each, no cell twice: their order does not matter.\<close>

lemma foldl_cells:
  assumes "\<And>i a. i \<in> set xs \<Longrightarrow> f i a = a[p i := g i (a ! p i) (a ! q i), q i := h i (a ! p i) (a ! q i)]"
    and "\<And>i. i \<in> set xs \<Longrightarrow> p i < length a \<and> q i < length a \<and> p i \<noteq> q i"
    and "\<And>i j. i \<in> set xs \<Longrightarrow> j \<in> set xs \<Longrightarrow> i \<noteq> j \<Longrightarrow> p i \<noteq> p j \<and> p i \<noteq> q j \<and> q i \<noteq> q j"
    and "distinct xs"
  shows "length (foldl (\<lambda>a i. f i a) a xs) = length a \<and>
    (\<forall>i \<in> set xs. foldl (\<lambda>a i. f i a) a xs ! p i = g i (a ! p i) (a ! q i) \<and>
       foldl (\<lambda>a i. f i a) a xs ! q i = h i (a ! p i) (a ! q i)) \<and>
    (\<forall>c. (\<forall>i \<in> set xs. c \<noteq> p i \<and> c \<noteq> q i) \<longrightarrow> foldl (\<lambda>a i. f i a) a xs ! c = a ! c)"
  using assms
proof (induction xs arbitrary: a)
  case (Cons i xs)
  let ?a = "f i a"
  have fa: "?a = a[p i := g i (a ! p i) (a ! q i), q i := h i (a ! p i) (a ! q i)]" by (rule Cons.prems(1)) simp
  have i: "p i < length a" "q i < length a" "p i \<noteq> q i" using Cons.prems(2) [of i] by simp_all
  have la: "length ?a = length a" by (simp add: fa)
  have ap: "?a ! p i = g i (a ! p i) (a ! q i)" "?a ! q i = h i (a ! p i) (a ! q i)"
    using i by (simp_all add: fa)
  have ao: "?a ! c = a ! c" if "c \<noteq> p i" "c \<noteq> q i" for c using that by (simp add: fa)
  have ni: "i \<notin> set xs" using Cons.prems(4) by simp
  have IH: "length (foldl (\<lambda>a i. f i a) ?a xs) = length ?a \<and>
    (\<forall>j \<in> set xs. foldl (\<lambda>a i. f i a) ?a xs ! p j = g j (?a ! p j) (?a ! q j) \<and>
       foldl (\<lambda>a i. f i a) ?a xs ! q j = h j (?a ! p j) (?a ! q j)) \<and>
    (\<forall>c. (\<forall>j \<in> set xs. c \<noteq> p j \<and> c \<noteq> q j) \<longrightarrow> foldl (\<lambda>a i. f i a) ?a xs ! c = ?a ! c)"
    by (rule Cons.IH) (use Cons.prems la in auto)
  have dj: "p j \<noteq> p i \<and> p j \<noteq> q i \<and> q j \<noteq> p i \<and> q j \<noteq> q i" if "j \<in> set xs" for j
  proof -
    have "i \<noteq> j" using that ni by blast
    then show ?thesis using Cons.prems(3) [of i j] Cons.prems(3) [of j i] that by simp
  qed
  have r: "foldl (\<lambda>a i. f i a) ?a xs ! p j = g j (a ! p j) (a ! q j) \<and>
      foldl (\<lambda>a i. f i a) ?a xs ! q j = h j (a ! p j) (a ! q j)" if "j \<in> set xs" for j
    using IH that dj [OF that] ao by simp
  have o: "foldl (\<lambda>a i. f i a) ?a xs ! c = ?a ! c" if "\<forall>j \<in> set xs. c \<noteq> p j \<and> c \<noteq> q j" for c
    using IH that by blast
  have "foldl (\<lambda>a i. f i a) ?a xs ! p i = ?a ! p i" "foldl (\<lambda>a i. f i a) ?a xs ! q i = ?a ! q i"
    using dj by (fastforce intro: o)+
  then show ?case using IH r ap ao o la by simp
qed simp

subsection \<open>Bit reversal\<close>

fun revbits :: "nat \<Rightarrow> nat \<Rightarrow> nat" where
  "revbits 0 b = 0"
| "revbits (Suc j) b = (b mod 2) * 2 ^ j + revbits j (b div 2)"

lemma revbits_less: "revbits k b < 2 ^ k"
proof (induction k arbitrary: b)
  case (Suc k)
  have "b mod 2 * 2 ^ k \<le> 2 ^ k" by (cases "even b") (simp_all add: odd_iff_mod_2_eq_one even_iff_mod_2_eq_zero)
  then show ?case using Suc.IH [of "b div 2"] unfolding revbits.simps power_Suc by linarith
qed simp

lemma bit_revbits: "bit (revbits k b) i \<longleftrightarrow> i < k \<and> bit b (k - 1 - i)"
proof (induction k arbitrary: b)
  case (Suc k)
  have e: "revbits (Suc k) b = revbits k (b div 2) OR push_bit k (b mod 2)"
  proof -
    have "push_bit k (b mod 2) AND revbits k (b div 2) = 0"
    proof (rule bit_eqI)
      fix n
      have "\<not> bit (revbits k (b div 2)) n" if "k \<le> n"
        using less_le_trans [OF revbits_less [of k "b div 2"] power_increasing [OF that]] by (simp add: bit_iff_odd)
      then show "bit (push_bit k (b mod 2) AND revbits k (b div 2)) n \<longleftrightarrow> bit 0 n"
        by (auto simp: bit_and_iff bit_push_bit_iff not_le)
    qed
    then show ?thesis
      by (simp add: disjunctive_add_eq_or push_bit_eq_mult [symmetric] or.commute)
  qed
  have b0: "bit (push_bit k (b mod 2)) i \<longleftrightarrow> i = k \<and> odd b"
  proof -
    have "bit (b mod 2) n \<longleftrightarrow> n = 0 \<and> odd b" for n
      by (cases "odd b") (simp_all add: odd_iff_mod_2_eq_one even_iff_mod_2_eq_zero bit_Suc_0_iff)
    then show ?thesis by (auto simp: bit_push_bit_iff)
  qed
  show ?case
  proof (cases "i < k")
    case True
    then have "bit (b div 2) (k - 1 - i) \<longleftrightarrow> bit b (k - i)"
      by (simp add: bit_Suc [symmetric] Suc_diff_Suc)
    then show ?thesis unfolding e bit_or_iff b0 Suc.IH using True by simp
  next
    case False
    then show ?thesis unfolding e bit_or_iff b0 Suc.IH by (auto simp: bit_0)
  qed
qed simp

lemma revbits_double: "revbits (Suc j) (2 * b) = revbits j b" "revbits (Suc j) (2 * b + 1) = 2 ^ j + revbits j b"
  by simp_all

lemma revbits_involution: "b < 2 ^ k \<Longrightarrow> revbits k (revbits k b) = b"
proof (rule bit_eqI)
  fix i assume b: "b < 2 ^ k"
  have "\<not> bit b i" if "k \<le> i"
    using less_le_trans [OF b power_increasing [OF that]] by (simp add: bit_iff_odd)
  then show "bit (revbits k (revbits k b)) i \<longleftrightarrow> bit b i"
    unfolding bit_revbits by (cases "i < k") auto
qed

lemma swap_bits:
  fixes x :: u64
  shows "bit (drop_bit d (x AND m1) OR push_bit d (x AND m2)) i \<longleftrightarrow>
      (bit x (i + d) \<and> bit m1 (i + d)) \<or> (d \<le> i \<and> i < 64 \<and> bit x (i - d) \<and> bit m2 (i - d))"
    and "bit (drop_bit d x OR push_bit d x) i \<longleftrightarrow> bit x (i + d) \<or> (d \<le> i \<and> i < 64 \<and> bit x (i - d))"
  by (auto simp: bit_or_iff bit_and_iff bit_drop_bit_eq bit_push_bit_iff add.commute dest: bit_imp_le_length)

text \<open>For every power up to 32, \<open>BR\<close> reverses the lowest bits.\<close>

lemma BR_32_bit:
  assumes "\<And>n. 32 \<le> n \<Longrightarrow> \<not> bit x n"
  shows "bit (BR x 32) i \<longleftrightarrow> i < 32 \<and> bit x (31 - i)"
proof (cases "i < 64")
  case True
  have "\<forall>i \<in> set [0..<64]. bit (BR x 32) i \<longleftrightarrow> i < 32 \<and> bit x (31 - i)"
    unfolding BR_def Let_def diff_self_eq_0 drop_bit_0 id_apply swap_bits
    by (simp add: assms upt_rec, simp add: eval_nat_numeral)
  then show ?thesis using True by simp
qed (use bit_imp_le_length [of "BR x 32" i] in auto)

lemma BR_drop: "k \<le> 32 \<Longrightarrow> BR x k = drop_bit (32 - k) (BR x 32)"
  unfolding BR_def Let_def by (simp only: diff_self_eq_0 drop_bit_0 id_apply)

lemma BR_revbits:
  assumes "k \<le> 32" "i < 2 ^ k"
  shows "unat (BR (of_nat i) k) = revbits k i"
proof (rule bit_eqI)
  fix j
  have i: "\<not> bit i n" if "k \<le> n" for n
    using less_le_trans [OF assms(2) power_increasing [OF that]] by (simp add: bit_iff_odd)
  have "i < 2 ^ 64" using less_le_trans [OF assms(2) power_increasing [of k 64]] assms(1) by simp
  then have x: "bit (of_nat i :: u64) n \<longleftrightarrow> n < 64 \<and> bit i n" for n
    by (simp add: bit_of_nat_iff)
  have h: "\<not> bit (of_nat i :: u64) n" if "32 \<le> n" for n using i [of n] assms(1) that by (simp add: x)
  have "bit (unat (BR (of_nat i) k)) j \<longleftrightarrow> bit (BR (of_nat i) 32) (32 - k + j)"
    unfolding BR_drop [OF assms(1)] by (simp add: bit_unsigned_iff bit_drop_bit_eq)
  also have "\<dots> \<longleftrightarrow> 32 - k + j < 32 \<and> bit (of_nat i :: u64) (31 - (32 - k + j))" by (rule BR_32_bit [OF h])
  also have "\<dots> \<longleftrightarrow> j < k \<and> bit i (k - 1 - j)"
  proof -
    have "31 - (32 - k + j) = k - 1 - j" if "j < k" using assms(1) that by simp
    then show ?thesis using assms(1) by (auto simp: x)
  qed
  finally show "bit (unat (BR (of_nat i) k)) j \<longleftrightarrow> bit (revbits k i) j" by (simp add: bit_revbits)
qed

lemma log2_loop_pow: "k < 64 \<Longrightarrow> log2_loop (of_nat (2 ^ k)) r = r + k"
proof (induction k arbitrary: r)
  case 0
  show ?case by (subst log2_loop.simps) simp
next
  case (Suc k)
  have p: "(2::nat) ^ Suc k < 2 ^ 64" using Suc.prems by (intro power_strict_increasing) simp_all
  have u: "unat (of_nat (2 ^ Suc k) :: u64) = 2 ^ Suc k" using p by (simp only: unat_of_nat) simp
  have "\<not> (of_nat (2 ^ Suc k) :: u64) \<le> 1"
  proof -
    have "\<not> (2::nat) ^ Suc k \<le> 1" using one_less_power [of "2::nat" "Suc k"] by linarith
    then show ?thesis unfolding word_le_nat_alt u unat_1 .
  qed
  moreover have "drop_bit 1 (of_nat (2 ^ Suc k) :: u64) = of_nat (2 ^ k)"
  proof -
    have "unat (drop_bit 1 (of_nat (2 ^ Suc k) :: u64)) = 2 ^ k"
      unfolding unat_drop_bit_eq u by (simp add: drop_bit_Suc)
    moreover have "(2::nat) ^ k < 2 ^ 64" using Suc.prems by (intro power_strict_increasing) simp_all
    then have "unat (of_nat (2 ^ k) :: u64) = 2 ^ k" by (simp only: unat_of_nat) simp
    ultimately show ?thesis unfolding word_unat_eq_iff by (simp only:)
  qed
  ultimately show ?case using Suc.IH [of "r + 1"] Suc.prems by (subst log2_loop.simps) simp
qed

lemma fft_log2_pow: "k < 64 \<Longrightarrow> fft_log2 (of_nat (2 ^ k)) = Some k"
proof -
  assume k: "k < 64"
  then have "(2::nat) ^ k < 2 ^ 64" by (intro power_strict_increasing) simp_all
  then have "unat (of_nat (2 ^ k) :: u64) = 2 ^ k" by (simp only: unat_of_nat) simp
  then have "of_nat (2 ^ k) \<noteq> (0 :: u64)" by (metis power_not_zero unat_0 zero_neq_numeral)
  then show ?thesis using log2_loop_pow [OF k] by (simp add: fft_log2_def)
qed

lemma foldl_skip:
  "(\<And>i a. i \<in> set xs \<Longrightarrow> \<not> P i \<Longrightarrow> f i a = a) \<Longrightarrow>
   foldl (\<lambda>a i. f i a) a xs = foldl (\<lambda>a i. f i a) a (filter P xs)"
  by (induction xs arbitrary: a) simp_all

lemma reversePermutation_nth:
  assumes "fair il" "0 < nT" "k \<le> 30" "2 ^ k \<le> length a"
  shows "length (reversePermutation il nT a (2 ^ k) k) = length a \<and>
    (\<forall>i < 2 ^ k. reversePermutation il nT a (2 ^ k) k ! i = a ! revbits k i)"
proof -
  let ?r = "revbits k" and ?f = "reverse_step k"
  obtain xs where xs: "parallelFor il nT 0 (2 ^ k) ?f a = foldl (\<lambda>st i. ?f i st) a xs"
      "distinct xs" "set xs = {0..<2 ^ k}"
    by (rule parallelFor_perm [OF assms(1,2) zero_le_one pow_30(1) [OF assms(3)]])
  let ?ys = "filter (\<lambda>i. ?r i < i) xs"
  have step: "?f i b = (if ?r i < i then b[i := b ! ?r i, ?r i := b ! i] else b)" if "i \<in> set xs" for i b
    using that xs(3) BR_revbits [of k i] assms(3) by (simp add: reverse_step_def Let_def)
  have e: "foldl (\<lambda>st i. ?f i st) a xs = foldl (\<lambda>st i. ?f i st) a ?ys"
    by (rule foldl_skip) (simp add: step)
  have inv: "?r (?r i) = i" if "i \<in> set xs" for i using that xs(3) by (intro revbits_involution) simp
  have c: "length (foldl (\<lambda>st i. ?f i st) a ?ys) = length a \<and>
    (\<forall>i \<in> set ?ys. foldl (\<lambda>st i. ?f i st) a ?ys ! i = a ! ?r i \<and> foldl (\<lambda>st i. ?f i st) a ?ys ! ?r i = a ! i) \<and>
    (\<forall>c. (\<forall>i \<in> set ?ys. c \<noteq> i \<and> c \<noteq> ?r i) \<longrightarrow> foldl (\<lambda>st i. ?f i st) a ?ys ! c = a ! c)"
  proof (rule foldl_cells)
    fix i b assume "i \<in> set ?ys"
    then show "?f i b = b[i := b ! ?r i, ?r i := b ! i]" by (simp add: step)
  next
    fix i assume "i \<in> set ?ys"
    then show "i < length a \<and> ?r i < length a \<and> i \<noteq> ?r i"
      using xs(3) assms(4) revbits_less [of k i] by auto
  next
    fix i j assume i: "i \<in> set ?ys" and j: "j \<in> set ?ys" and ne: "i \<noteq> j"
    have "i \<noteq> ?r j" using inv [of j] i j by auto
    moreover have "?r i \<noteq> ?r j" using inv [of i] inv [of j] i j ne by auto
    ultimately show "i \<noteq> j \<and> i \<noteq> ?r j \<and> ?r i \<noteq> ?r j" using ne by simp
  qed (use xs(2) in simp)
  have "foldl (\<lambda>st i. ?f i st) a ?ys ! i = a ! ?r i" if i: "i < 2 ^ k" for i
  proof -
    consider "?r i < i" | "?r i = i" | "i < ?r i" by linarith
    then show ?thesis
    proof cases
      case 1
      then show ?thesis using c i xs(3) by simp
    next
      case 2
      have "i \<noteq> j \<and> i \<noteq> ?r j" if "j \<in> set ?ys" for j using inv [of j] that 2 by auto
      then show ?thesis using c 2 by metis
    next
      case 3
      have "?r i \<in> set ?ys" using 3 xs(3) i inv [of i] revbits_less [of k i] by simp
      then show ?thesis using c inv [of i] xs(3) i by fastforce
    qed
  qed
  then show ?thesis using c xs(1) e by (simp add: reversePermutation_def)
qed

subsection \<open>The values of the transform\<close>

lemma sum_even_odd: "(\<Sum>i < 2 * n. f i) = (\<Sum>i < n. f (2 * i)) + (\<Sum>i < (n::nat). f (2 * i + 1) :: int)"
  by (induction n) simp_all

text \<open>The sum that the cell \<open>b * 2 ^ t + c\<close> holds after \<open>t\<close> stages.\<close>

definition dft :: "(nat \<Rightarrow> int) \<Rightarrow> (nat \<Rightarrow> int) \<Rightarrow> nat \<Rightarrow> nat \<Rightarrow> nat \<Rightarrow> nat \<Rightarrow> int" where
  "dft x W k t b c = (\<Sum>i < 2 ^ t. x (i * 2 ^ (k - t) + revbits (k - t) b) * W t ^ (i * c))"

lemma dft_double:
  assumes "t < k" "W (Suc t) ^ 2 = W t"
  shows "dft x W k (Suc t) b c = dft x W k t (2 * b) c + W (Suc t) ^ c * dft x W k t (2 * b + 1) c"
proof -
  let ?j = "k - Suc t"
  have kt: "k - t = Suc ?j" using assms(1) by simp
  have x0: "2 * i * 2 ^ ?j + revbits ?j b = i * 2 ^ (k - t) + revbits (k - t) (2 * b)" for i
    unfolding kt revbits_double by simp
  have x1: "(2 * i + 1) * 2 ^ ?j + revbits ?j b = i * 2 ^ (k - t) + revbits (k - t) (2 * b + 1)" for i
    unfolding kt revbits_double by simp
  have w0: "W (Suc t) ^ (2 * i * c) = W t ^ (i * c)" for i
    by (simp add: power_mult mult.assoc flip: assms(2))
  have w1: "W (Suc t) ^ ((2 * i + 1) * c) = W (Suc t) ^ c * W t ^ (i * c)" for i
    unfolding add_mult_distrib power_add w0 mult_1 by (rule mult.commute)
  show ?thesis
    unfolding dft_def power_Suc sum_even_odd x0 x1 w0 w1 by (simp add: sum_distrib_left mult.assoc mult.left_commute)
qed

text \<open>
  The laws of the field's operations, over representatives of the values modulo \<open>q\<close>, and the
  tables of the transform: powers of a root \<open>w\<close> of the order \<open>2 ^ s\<close>, powers of the inverse of two.
\<close>

locale field_vals =
  fixes F :: "'e field_ops" and rel :: "'e \<Rightarrow> int \<Rightarrow> bool" and q :: int
  assumes rel_add: "rel a u \<Longrightarrow> rel b v \<Longrightarrow> rel (f_add F a b) (u + v)"
    and rel_sub: "rel a u \<Longrightarrow> rel b v \<Longrightarrow> rel (f_sub F a b) (u - v)"
    and rel_mul: "rel a u \<Longrightarrow> rel b v \<Longrightarrow> rel (f_mul F a b) (u * v)"
    and rel_cong: "rel a u \<Longrightarrow> u mod q = v mod q \<Longrightarrow> rel a v"
begin

definition eqm :: "int \<Rightarrow> int \<Rightarrow> bool" where
  "eqm u v \<longleftrightarrow> u mod q = v mod q"

lemma eqm_refl [simp]: "eqm u u"
  by (simp add: eqm_def)

lemma eqm_sym: "eqm u v \<Longrightarrow> eqm v u"
  by (simp add: eqm_def)

lemma eqm_trans [trans]: "eqm u v \<Longrightarrow> eqm v w \<Longrightarrow> eqm u w"
  by (simp add: eqm_def)

lemma eqm_add: "eqm u v \<Longrightarrow> eqm x y \<Longrightarrow> eqm (u + x) (v + y)"
  unfolding eqm_def by (rule mod_add_cong)

lemma eqm_diff: "eqm u v \<Longrightarrow> eqm x y \<Longrightarrow> eqm (u - x) (v - y)"
  unfolding eqm_def by (rule mod_diff_cong)

lemma eqm_mult: "eqm u v \<Longrightarrow> eqm x y \<Longrightarrow> eqm (u * x) (v * y)"
  unfolding eqm_def by (rule mod_mult_cong)

lemma eqm_pow: "eqm u v \<Longrightarrow> eqm (u ^ n) (v ^ n)"
  unfolding eqm_def by (metis power_mod)

lemma eqm_sum: "(\<And>i. i \<in> A \<Longrightarrow> eqm (f i) (g i)) \<Longrightarrow> eqm (sum f A) (sum g A)"
  by (induction A rule: infinite_finite_induct) (simp_all add: eqm_add)

lemma rel_eqm: "rel a u \<Longrightarrow> eqm u v \<Longrightarrow> rel a v"
  unfolding eqm_def by (rule rel_cong)

end

locale fft_tables = field_vals F rel q for F :: "'e field_ops" and rel q +
  fixes fft :: "'e FFT" and w p :: int
  assumes roots_rel: "i < 2 ^ fft_s fft \<Longrightarrow> rel (roots fft ! i) (w ^ i)"
    and w_order: "(w ^ 2 ^ (fft_s fft - 1) + 1) mod q = 0"
    and inv_rel: "i \<le> fft_s fft \<Longrightarrow> rel (powTwoInv fft ! i) (p ^ i)"
    and p_inv: "(2 * p) mod q = 1 mod q"
    and s_pos: "0 < fft_s fft"
begin

definition W :: "nat \<Rightarrow> int" where
  "W t = w ^ 2 ^ (fft_s fft - t)"

lemma W_double: "t < fft_s fft \<Longrightarrow> W (Suc t) ^ 2 = W t"
  unfolding W_def power_mult [symmetric] by (simp flip: power_Suc2 add: Suc_diff_Suc)

lemma W_half: "0 < t \<Longrightarrow> t \<le> fft_s fft \<Longrightarrow> eqm (W t ^ 2 ^ (t - 1)) (- 1)"
proof -
  assume "0 < t" "t \<le> fft_s fft"
  then have "fft_s fft - t + (t - 1) = fft_s fft - 1" by simp
  then have e: "W t ^ 2 ^ (t - 1) = w ^ 2 ^ (fft_s fft - 1)"
    by (simp add: W_def flip: power_mult power_add)
  show ?thesis
    using w_order unfolding e eqm_def mod_eq_dvd_iff by (simp add: mod_eq_0_iff_dvd)
qed

lemma W_full: "t \<le> fft_s fft \<Longrightarrow> eqm (W t ^ 2 ^ t) 1"
proof (cases t)
  case 0
  have "eqm ((w ^ 2 ^ (fft_s fft - 1)) ^ 2) ((- 1) ^ 2)"
    using W_half [of "fft_s fft"] s_pos by (intro eqm_pow) (simp add: W_def)
  moreover have "(w ^ 2 ^ (fft_s fft - 1)) ^ 2 = W 0"
    using s_pos unfolding W_def power_mult [symmetric] by (simp flip: power_Suc2)
  ultimately show ?thesis using 0 by simp
next
  case (Suc u)
  assume "t \<le> fft_s fft"
  then have "eqm ((W t ^ 2 ^ (t - 1)) ^ 2) ((- 1) ^ 2)" using W_half [of t] Suc by (intro eqm_pow) simp
  then show ?thesis using Suc by (simp add: mult.commute flip: power_mult)
qed

lemma root_rel: "t \<le> fft_s fft \<Longrightarrow> j < 2 ^ t \<Longrightarrow> rel (fft_root fft t j) (W t ^ j)"
proof -
  assume t: "t \<le> fft_s fft" "j < 2 ^ t"
  then have "j * 2 ^ (fft_s fft - t) < 2 ^ t * 2 ^ (fft_s fft - t)" by simp
  then have "j * 2 ^ (fft_s fft - t) < 2 ^ fft_s fft" using t(1) by (simp flip: power_add)
  then show ?thesis using roots_rel unfolding fft_root_def W_def by (simp add: mult.commute flip: power_mult)
qed

lemma dft_shift:
  assumes "t < k" "k \<le> fft_s fft"
  shows "eqm (dft x W k (Suc t) b (c + 2 ^ t)) (dft x W k t (2 * b) c - W (Suc t) ^ c * dft x W k t (2 * b + 1) c)"
proof -
  have per: "eqm (dft x W k t b' (c + 2 ^ t)) (dft x W k t b' c)" for b'
    unfolding dft_def
  proof (rule eqm_sum)
    fix i
    have "eqm ((W t ^ 2 ^ t) ^ i) (1 ^ i)" using assms by (intro eqm_pow W_full) simp
    then have "eqm (W t ^ (i * c) * (W t ^ 2 ^ t) ^ i) (W t ^ (i * c) * 1)" by (intro eqm_mult) simp_all
    moreover have "W t ^ (i * (c + 2 ^ t)) = W t ^ (i * c) * (W t ^ 2 ^ t) ^ i"
      by (simp add: distrib_left power_add mult.commute flip: power_mult)
    ultimately show "eqm (x (i * 2 ^ (k - t) + revbits (k - t) b') * W t ^ (i * (c + 2 ^ t)))
        (x (i * 2 ^ (k - t) + revbits (k - t) b') * W t ^ (i * c))"
      by (intro eqm_mult) simp_all
  qed
  have "eqm (W (Suc t) ^ 2 ^ t) (- 1)" using W_half [of "Suc t"] assms by simp
  then have "eqm (W (Suc t) ^ c * W (Suc t) ^ 2 ^ t) (W (Suc t) ^ c * (- 1))" by (intro eqm_mult) simp_all
  then have m: "eqm (W (Suc t) ^ (c + 2 ^ t)) (- (W (Suc t) ^ c))" by (simp add: power_add)
  have "eqm (dft x W k t (2 * b) (c + 2 ^ t) + W (Suc t) ^ (c + 2 ^ t) * dft x W k t (2 * b + 1) (c + 2 ^ t))
      (dft x W k t (2 * b) c + - (W (Suc t) ^ c) * dft x W k t (2 * b + 1) c)"
    by (intro eqm_add eqm_mult per m)
  then show ?thesis
    using assms W_double [of t] by (simp add: dft_double)
qed

end

lemma cell_arith:
  fixes i M :: nat
  assumes "0 < M"
  shows "(i div M * (2 * M) + i mod M) div (2 * M) = i div M" "(i div M * (2 * M) + i mod M) mod (2 * M) = i mod M"
    "(i div M * (2 * M) + i mod M + M) div (2 * M) = i div M" "(i div M * (2 * M) + i mod M + M) mod (2 * M) = i mod M + M"
proof -
  have d: "(b * (2 * M) + r) div (2 * M) = b \<and> (b * (2 * M) + r) mod (2 * M) = r" if "r < 2 * M" for b r
    using that by simp
  have m: "i mod M < M" using assms by simp
  then show "(i div M * (2 * M) + i mod M) div (2 * M) = i div M" "(i div M * (2 * M) + i mod M) mod (2 * M) = i mod M"
    using d [of "i mod M" "i div M"] by auto
  show "(i div M * (2 * M) + i mod M + M) div (2 * M) = i div M" "(i div M * (2 * M) + i mod M + M) mod (2 * M) = i mod M + M"
    using d [of "i mod M + M" "i div M"] m by (auto simp: add.assoc)
qed

lemma block_less:
  fixes b c :: nat
  assumes "b < 2 ^ j" "c < 2 ^ t"
  shows "b * 2 ^ t + c < 2 ^ (j + t)"
proof -
  have "b * 2 ^ t + c < Suc b * 2 ^ t" using assms(2) by simp
  also have "\<dots> \<le> 2 ^ j * 2 ^ t" using assms(1) by (intro mult_le_mono1) simp
  finally show ?thesis by (simp add: power_add)
qed

text \<open>The butterflies of a stage, in any order.\<close>

lemma fft_stage_cells:
  assumes "fair il" "0 < nT" "t < k" "2 ^ k \<le> length a" "k \<le> 30"
  shows "let a' = parallelFor il nT 0 (2 ^ k div 2) (fft_step F fft (Suc t)) a;
             R = fft_root fft (Suc t)
         in length a' = length a \<and>
            (\<forall>b < 2 ^ (k - Suc t). \<forall>c < 2 ^ t.
               (let u = a ! (2 * b * 2 ^ t + c); v = f_mul F (R c) (a ! ((2 * b + 1) * 2 ^ t + c))
                in a' ! (b * 2 ^ Suc t + c) = f_add F v u \<and> a' ! (b * 2 ^ Suc t + (c + 2 ^ t)) = f_sub F u v))"
proof -
  let ?M = "2 ^ t :: nat" and ?f = "fft_step F fft (Suc t)" and ?R = "fft_root fft (Suc t)"
  let ?p = "\<lambda>i. i div ?M * (2 * ?M) + i mod ?M" and ?q = "\<lambda>i. i div ?M * (2 * ?M) + i mod ?M + ?M"
  let ?g = "\<lambda>i u v. f_add F (f_mul F (?R (i mod ?M)) v) u" and ?h = "\<lambda>i u v. f_sub F u (f_mul F (?R (i mod ?M)) v)"
  obtain xs where xs: "parallelFor il nT 0 (2 ^ k div 2) ?f a = foldl (\<lambda>st i. ?f i st) a xs"
      "distinct xs" "set xs = {0..<2 ^ k div 2}"
    by (rule parallelFor_perm [OF assms(1,2) zero_le_one pow_30(2) [OF assms(5)]])
  obtain j where k: "k = Suc (j + t)" using less_imp_Suc_add [OF assms(3)] by (auto simp: add.commute)
  have pq: "?q i < 2 ^ k" if "i \<in> set xs" for i
  proof -
    have "i < 2 ^ j * 2 ^ t" using that xs(3) k by (simp add: power_add)
    then have "i div ?M < 2 ^ j" by (simp add: less_mult_imp_div_less)
    moreover have "i mod ?M + ?M < 2 ^ Suc t" by simp
    ultimately have "i div ?M * 2 ^ Suc t + (i mod ?M + ?M) < 2 ^ (j + Suc t)" by (rule block_less)
    then show ?thesis using k by (simp add: add.assoc)
  qed
  have c: "length (foldl (\<lambda>a i. ?f i a) a xs) = length a \<and>
    (\<forall>i \<in> set xs. foldl (\<lambda>a i. ?f i a) a xs ! ?p i = ?g i (a ! ?p i) (a ! ?q i) \<and>
       foldl (\<lambda>a i. ?f i a) a xs ! ?q i = ?h i (a ! ?p i) (a ! ?q i)) \<and>
    (\<forall>c. (\<forall>i \<in> set xs. c \<noteq> ?p i \<and> c \<noteq> ?q i) \<longrightarrow> foldl (\<lambda>a i. ?f i a) a xs ! c = a ! c)"
  proof (rule foldl_cells [where p = ?p and q = ?q and g = ?g and h = ?h])
    fix i a
    show "?f i a = a[?p i := ?g i (a ! ?p i) (a ! ?q i), ?q i := ?h i (a ! ?p i) (a ! ?q i)]"
      by (simp add: fft_step_def Let_def)
  next
    fix i assume "i \<in> set xs"
    then have q: "?q i < length a" using pq [of i] assms(4) by (meson less_le_trans)
    have "0 < ?M" by simp
    then show "?p i < length a \<and> ?q i < length a \<and> ?p i \<noteq> ?q i" using q by (intro conjI; linarith)
  next
    fix i j :: nat
    assume "i \<noteq> j"
    then have ne: "i div ?M \<noteq> j div ?M \<or> i mod ?M \<noteq> j mod ?M" by (metis div_mult_mod_eq)
    have M: "0 < ?M" "i mod ?M < ?M" "j mod ?M < ?M" by simp_all
    note ca = cell_arith [OF M(1)]
    have "?p i \<noteq> ?p j" using ne ca(1,2) by metis
    moreover have "?q i \<noteq> ?q j" using ne ca(1,2) by (metis add_right_cancel)
    moreover have "?p i \<noteq> ?q j"
    proof
      assume "?p i = ?q j"
      then have "i mod ?M = j mod ?M + ?M" using ca(2) [of i] ca(4) [of j] by metis
      then show False using M(2) by simp
    qed
    ultimately show "?p i \<noteq> ?p j \<and> ?p i \<noteq> ?q j \<and> ?q i \<noteq> ?q j" by blast
  qed (rule xs(2))
  have "foldl (\<lambda>a i. ?f i a) a xs ! (b * 2 ^ Suc t + c) = f_add F (f_mul F (?R c) (a ! ((2 * b + 1) * ?M + c))) (a ! (2 * b * ?M + c)) \<and>
      foldl (\<lambda>a i. ?f i a) a xs ! (b * 2 ^ Suc t + (c + ?M)) = f_sub F (a ! (2 * b * ?M + c)) (f_mul F (?R c) (a ! ((2 * b + 1) * ?M + c)))"
    if b: "b < 2 ^ (k - Suc t)" and c': "c < ?M" for b c
  proof -
    let ?i = "b * ?M + c"
    have e: "?i div ?M = b" "?i mod ?M = c" using c' by simp_all
    have "?i < 2 ^ (j + t)" using b k by (intro block_less c') simp
    then have mem: "?i \<in> set xs" using xs(3) k by simp
    have eqs: "2 * b * ?M + c = b * (2 * ?M) + c" "(2 * b + 1) * ?M + c = b * (2 * ?M) + c + ?M"
      "b * 2 ^ Suc t + c = b * (2 * ?M) + c" "b * 2 ^ Suc t + (c + ?M) = b * (2 * ?M) + c + ?M"
      by (simp_all add: algebra_simps)
    show ?thesis
      unfolding eqs using bspec [OF conjunct1 [OF conjunct2 [OF c]] mem] unfolding e .
  qed
  then show ?thesis using c xs(1) by (simp only: Let_def) blast
qed

context fft_tables
begin

lemma fft_stage:
  assumes "fair il" "0 < nT" "t < k" "k \<le> fft_s fft" "2 ^ k \<le> length a"
    and "\<forall>b < 2 ^ (k - t). \<forall>c < 2 ^ t. rel (a ! (b * 2 ^ t + c)) (dft x W k t b c)" "k \<le> 30"
  defines "a' \<equiv> parallelFor il nT 0 (2 ^ k div 2) (fft_step F fft (Suc t)) a"
  shows "length a' = length a \<and>
    (\<forall>b < 2 ^ (k - Suc t). \<forall>c < 2 ^ Suc t. rel (a' ! (b * 2 ^ Suc t + c)) (dft x W k (Suc t) b c))"
proof -
  note cells = fft_stage_cells [OF assms(1-3,5,7), of F fft, unfolded Let_def, folded a'_def]
  have "rel (a' ! (b * 2 ^ Suc t + c)) (dft x W k (Suc t) b c)"
    if b: "b < 2 ^ (k - Suc t)" and c: "c < 2 ^ Suc t" for b c
  proof -
    define c0 where "c0 = (if c < 2 ^ t then c else c - 2 ^ t)"
    have c0: "c0 < 2 ^ t" using c by (auto simp: c0_def)
    let ?u = "a ! (2 * b * 2 ^ t + c0)" and ?v = "a ! ((2 * b + 1) * 2 ^ t + c0)"
    have kt: "k - t = Suc (k - Suc t)" using assms(3) by simp
    have "2 * b < 2 ^ (k - t)" "2 * b + 1 < 2 ^ (k - t)" using b unfolding kt power_Suc by linarith+
    then have u: "rel ?u (dft x W k t (2 * b) c0)" and v: "rel ?v (dft x W k t (2 * b + 1) c0)"
      using assms(6) c0 by blast+
    have m: "rel (f_mul F (fft_root fft (Suc t) c0) ?v) (W (Suc t) ^ c0 * dft x W k t (2 * b + 1) c0)"
      using assms(3,4) c0 by (intro rel_mul root_rel v) simp_all
    have w2: "W (Suc t) ^ 2 = W t" using assms(3,4) by (intro W_double) simp
    show ?thesis
    proof (cases "c < 2 ^ t")
      case True
      then have "a' ! (b * 2 ^ Suc t + c) = f_add F (f_mul F (fft_root fft (Suc t) c0) ?v) ?u"
        using cells b c0 by (simp add: c0_def)
      then show ?thesis
        using rel_add [OF m u] True dft_double [OF assms(3) w2, of x b c] by (simp add: c0_def add.commute)
    next
      case False
      then have "c = c0 + 2 ^ t" by (simp add: c0_def)
      moreover have "a' ! (b * 2 ^ Suc t + (c0 + 2 ^ t)) = f_sub F ?u (f_mul F (fft_root fft (Suc t) c0) ?v)"
        using cells b c0 by simp
      ultimately show ?thesis
        using rel_eqm [OF rel_sub [OF u m] eqm_sym [OF dft_shift [OF assms(3,4)]]] by simp
    qed
  qed
  then show ?thesis using cells by blast
qed

lemma fft_stages:
  assumes "fair il" "0 < nT" "k \<le> fft_s fft" "2 ^ k \<le> length a"
    and "\<forall>b < 2 ^ k. rel (a ! b) (x (revbits k b))" and "t \<le> k" "k \<le> 30"
  defines "a' \<equiv> foldl (\<lambda>a s. parallelFor il nT 0 (2 ^ k div 2) (fft_step F fft s) a) a [1..<t + 1]"
  shows "length a' = length a \<and> (\<forall>b < 2 ^ (k - t). \<forall>c < 2 ^ t. rel (a' ! (b * 2 ^ t + c)) (dft x W k t b c))"
  using assms(6) unfolding a'_def
proof (induction t)
  case 0
  then show ?case using assms(5) by (simp add: dft_def)
next
  case (Suc t)
  let ?b = "foldl (\<lambda>a s. parallelFor il nT 0 (2 ^ k div 2) (fft_step F fft s) a) a [1..<t + 1]"
  have IH: "length ?b = length a" "\<forall>b < 2 ^ (k - t). \<forall>c < 2 ^ t. rel (?b ! (b * 2 ^ t + c)) (dft x W k t b c)"
    using Suc by simp_all
  have "t < k" "2 ^ k \<le> length ?b" using Suc.prems assms(4) IH(1) by simp_all
  from fft_stage [OF assms(1,2) this(1) assms(3) this(2) IH(2) assms(7)]
  show ?case using IH(1) by simp
qed

text \<open>The transform evaluates the polynomial of the coefficients at the powers of the root.\<close>

lemma fft_fft_rel:
  assumes "fair il" "0 < nT" "k \<le> 30" "k \<le> fft_s fft" "length a = 2 ^ k" "\<forall>i < 2 ^ k. rel (a ! i) (x i)"
  shows "\<exists>a'. fft_fft F fft il nT a (2 ^ k) = Some a' \<and> length a' = 2 ^ k \<and>
    (\<forall>j < 2 ^ k. rel (a' ! j) (\<Sum>i < 2 ^ k. x i * W k ^ (i * j)))"
proof -
  let ?a = "reversePermutation il nT a (2 ^ k) k"
  have r: "length ?a = 2 ^ k" "\<forall>i < 2 ^ k. ?a ! i = a ! revbits k i"
    using reversePermutation_nth [OF assms(1-3), of a] assms(5) by simp_all
  have "\<forall>b < 2 ^ k. rel (?a ! b) (x (revbits k b))" using r(2) assms(6) revbits_less by simp
  from fft_stages [OF assms(1,2,4) _ this order_refl assms(3)] r(1)
  have "length (foldl (\<lambda>a s. parallelFor il nT 0 (2 ^ k div 2) (fft_step F fft s) a) ?a [1..<k + 1]) = 2 ^ k"
    "\<forall>c < 2 ^ k. rel (foldl (\<lambda>a s. parallelFor il nT 0 (2 ^ k div 2) (fft_step F fft s) a) ?a [1..<k + 1] ! c)
       (dft x W k k 0 c)" by simp_all
  then show ?thesis
    using assms(3-5) fft_log2_pow [of k] by (simp add: fft_fft_def dft_def Let_def del: upt_Suc)
qed

end

lemma ifft_cells:
  fixes fft :: "'e FFT" and F :: "'e field_ops"
  assumes "fair il" "0 < nT" "length a = 2 ^ k" "k \<le> 30"
  defines "iv \<equiv> powTwoInv fft ! k" and "n \<equiv> 2 ^ k"
  defines "a1 \<equiv> parallelFor il nT 1 (n div 2) (ifft_step F fft n k) a"
  defines "a2 \<equiv> a1[0 := f_mul F (a1 ! 0) iv]"
  defines "a3 \<equiv> a2[n div 2 := f_mul F (a2 ! (n div 2)) iv]"
  shows "length a3 = n \<and>
    (\<forall>j < n. a3 ! j = f_mul F (a ! ((n - j) mod n)) iv \<or>
       (k = 0 \<and> a3 ! j = f_mul F (f_mul F (a ! j) iv) iv))"
proof -
  let ?f = "ifft_step F fft n k" and ?g = "\<lambda>i u v. f_mul F v iv" and ?h = "\<lambda>i u v. f_mul F u iv"
  obtain xs where xs: "a1 = foldl (\<lambda>st i. ?f i st) a xs" "distinct xs" "set xs = {1..<n div 2}"
    unfolding a1_def by (rule parallelFor_perm [OF assms(1,2) order_refl pow_30(2) [OF assms(4), folded n_def]])
  have c: "length (foldl (\<lambda>a i. ?f i a) a xs) = length a \<and>
    (\<forall>i \<in> set xs. foldl (\<lambda>a i. ?f i a) a xs ! i = ?g i (a ! i) (a ! (n - i)) \<and>
       foldl (\<lambda>a i. ?f i a) a xs ! (n - i) = ?h i (a ! i) (a ! (n - i))) \<and>
    (\<forall>c. (\<forall>i \<in> set xs. c \<noteq> i \<and> c \<noteq> n - i) \<longrightarrow> foldl (\<lambda>a i. ?f i a) a xs ! c = a ! c)"
  proof (rule foldl_cells [where g = ?g and h = ?h])
    fix i b
    show "?f i b = b[i := ?g i (b ! i) (b ! (n - i)), n - i := ?h i (b ! i) (b ! (n - i))]"
      by (simp add: ifft_step_def Let_def iv_def)
  next
    fix i assume "i \<in> set xs"
    then show "i < length a \<and> n - i < length a \<and> i \<noteq> n - i" using xs(3) assms(3) by (auto simp: n_def)
  next
    fix i j assume "i \<in> set xs" "j \<in> set xs" "i \<noteq> j"
    then show "i \<noteq> j \<and> i \<noteq> n - j \<and> n - i \<noteq> n - j" using xs(3) by auto
  qed (rule xs(2))
  have l1: "length a1 = n" using c xs(1) assms(3) by (simp add: n_def)
  have ev: "n = 1 \<or> n = n div 2 + n div 2" unfolding n_def by (cases k) simp_all
  have in1: "a1 ! j = f_mul F (a ! (n - j)) iv" if "0 < j" "j < n" "j \<noteq> n div 2" for j
  proof (cases "j < n div 2")
    case True
    then show ?thesis using c that xs by simp
  next
    case False
    then have "n - j \<in> set xs" "n - (n - j) = j" using that xs(3) ev by auto
    then show ?thesis using c xs(1) by metis
  qed
  have keep: "a1 ! j = a ! j" if "\<forall>i \<in> set xs. j \<noteq> i \<and> j \<noteq> n - i" for j using c that xs(1) by blast
  have out: "a1 ! 0 = a ! 0" "a1 ! (n div 2) = a ! (n div 2)" by (rule keep, use xs(3) ev in auto)+
  show ?thesis
  proof (cases k)
    case 0
    then have "n = 1" by (simp add: n_def)
    then show ?thesis using 0 l1 out by (simp add: a3_def a2_def)
  next
    case (Suc m)
    then have n: "n = 2 * 2 ^ m" by (simp add: n_def)
    have h: "n div 2 \<noteq> 0" "n - n div 2 = n div 2" "n div 2 < n" using n by simp_all
    have "a3 ! j = f_mul F (a ! ((n - j) mod n)) iv" if "j < n" for j
    proof -
      consider "j = 0" | "j = n div 2" | "0 < j" "j \<noteq> n div 2" by blast
      then show ?thesis
      proof cases
        case 1
        then show ?thesis using l1 out h that by (simp add: a3_def a2_def)
      next
        case 2
        then show ?thesis using l1 out h by (simp add: a3_def a2_def)
      next
        case 3
        then show ?thesis using l1 in1 that by (simp add: a3_def a2_def)
      qed
    qed
    then show ?thesis using l1 by (simp add: a3_def a2_def)
  qed
qed

context fft_tables
begin

lemma fft_ifft_rel:
  assumes "fair il" "0 < nT" "k \<le> 30" "k \<le> fft_s fft" "length a = 2 ^ k" "\<forall>i < 2 ^ k. rel (a ! i) (x i)"
  shows "\<exists>a'. fft_ifft F fft il nT a (2 ^ k) = Some a' \<and> length a' = 2 ^ k \<and>
    (\<forall>j < 2 ^ k. rel (a' ! j) (p ^ k * (\<Sum>i < 2 ^ k. x i * W k ^ (i * ((2 ^ k - j) mod 2 ^ k)))))"
proof -
  let ?n = "2 ^ k :: nat" and ?y = "\<lambda>j. \<Sum>i < 2 ^ k. x i * W k ^ (i * j)"
  obtain b where b: "fft_fft F fft il nT a ?n = Some b" "length b = ?n" "\<forall>j < ?n. rel (b ! j) (?y j)"
    using fft_fft_rel [OF assms] by blast
  obtain a' where a': "fft_ifft F fft il nT a ?n = Some a'" "length a' = ?n"
      "\<forall>j < ?n. a' ! j = f_mul F (b ! ((?n - j) mod ?n)) (powTwoInv fft ! k) \<or>
         (k = 0 \<and> a' ! j = f_mul F (f_mul F (b ! j) (powTwoInv fft ! k)) (powTwoInv fft ! k))"
    using ifft_cells [OF assms(1,2) b(2) assms(3), where fft = fft and F = F] b(1) fft_log2_pow [of k] assms(3)
    by (simp add: fft_ifft_def Let_def)
  have i: "rel (powTwoInv fft ! k) (p ^ k)" using assms(4) by (rule inv_rel)
  have "rel (a' ! j) (p ^ k * ?y ((?n - j) mod ?n))" if j: "j < ?n" for j
  proof -
    consider "a' ! j = f_mul F (b ! ((?n - j) mod ?n)) (powTwoInv fft ! k)" |
      "k = 0" "a' ! j = f_mul F (f_mul F (b ! j) (powTwoInv fft ! k)) (powTwoInv fft ! k)"
      using a'(3) j by blast
    then show ?thesis
    proof cases
      case 1
      have "rel (b ! ((?n - j) mod ?n)) (?y ((?n - j) mod ?n))" using b(3) by simp
      from rel_mul [OF this i] show ?thesis unfolding 1 by (simp only: mult.commute [of "p ^ k"])
    next
      case 2
      have "rel (f_mul F (f_mul F (b ! j) (powTwoInv fft ! k)) (powTwoInv fft ! k)) (?y j * p ^ k * p ^ k)"
        using b(3) j by (intro rel_mul i) simp
      then show ?thesis using 2 j by simp
    qed
  qed
  then show ?thesis using a' by blast
qed

text \<open>Orthogonality of the powers of the root.\<close>

lemma root_neg: "k \<le> fft_s fft \<Longrightarrow> 0 < d \<Longrightarrow> d < 2 ^ k \<Longrightarrow> \<exists>m < k. eqm ((W k ^ d) ^ 2 ^ m) (- 1)"
proof (induction k arbitrary: d)
  case (Suc k)
  show ?case
  proof (cases "even d")
    case True
    then obtain d' where d: "d = 2 * d'" by blast
    have "W (Suc k) ^ d = W k ^ d'" using W_double [of k] Suc.prems(1) by (simp add: d power_mult)
    moreover obtain m where "m < k" "eqm ((W k ^ d') ^ 2 ^ m) (- 1)" using Suc.IH [of d'] Suc.prems d by auto
    ultimately show ?thesis using less_SucI by metis
  next
    case False
    have "eqm ((W (Suc k) ^ 2 ^ k) ^ d) ((- 1) ^ d)" using W_half [of "Suc k"] Suc.prems(1) by (intro eqm_pow) simp
    moreover have "(W (Suc k) ^ 2 ^ k) ^ d = (W (Suc k) ^ d) ^ 2 ^ k" by (simp add: mult.commute flip: power_mult)
    ultimately show ?thesis using False by (intro exI [of _ k]) simp
  qed
qed simp

lemma geometric_zero: "m < k \<Longrightarrow> eqm (y ^ 2 ^ m) (- 1) \<Longrightarrow> eqm (\<Sum>i < 2 ^ k. y ^ i) 0"
proof (induction k arbitrary: y m)
  case (Suc k)
  have e: "(\<Sum>i < 2 ^ Suc k. y ^ i) = (1 + y) * (\<Sum>i < 2 ^ k. (y ^ 2) ^ i)"
    unfolding power_Suc sum_even_odd by (simp add: distrib_right sum_distrib_left sum.distrib power_mult)
  show ?case
  proof (cases m)
    case 0
    have "eqm ((1 + y) * (\<Sum>i < 2 ^ k. (y ^ 2) ^ i)) ((1 + - 1) * (\<Sum>i < 2 ^ k. (y ^ 2) ^ i))"
      using Suc.prems(2) 0 by (intro eqm_mult eqm_add) simp_all
    then show ?thesis unfolding e by simp
  next
    case (Suc m')
    have "eqm ((y ^ 2) ^ 2 ^ m') (- 1)" using Suc.prems(2) Suc by (simp add: mult.commute flip: power_mult)
    then have "eqm (\<Sum>i < 2 ^ k. (y ^ 2) ^ i) 0" using Suc.IH Suc.prems(1) Suc by simp
    then have "eqm ((1 + y) * (\<Sum>i < 2 ^ k. (y ^ 2) ^ i)) ((1 + y) * 0)" by (intro eqm_mult) simp_all
    then show ?thesis unfolding e by simp
  qed
qed simp

lemma W_mod: "k \<le> fft_s fft \<Longrightarrow> eqm (W k ^ d) (W k ^ (d mod 2 ^ k))"
proof -
  assume k: "k \<le> fft_s fft"
  have "W k ^ d = (W k ^ 2 ^ k) ^ (d div 2 ^ k) * W k ^ (d mod 2 ^ k)"
    by (simp flip: power_mult power_add)
  also have "eqm \<dots> (1 ^ (d div 2 ^ k) * W k ^ (d mod 2 ^ k))" by (intro eqm_mult eqm_pow W_full k eqm_refl)
  finally show ?thesis by simp
qed

lemma orthogonal:
  assumes "k \<le> fft_s fft"
  shows "eqm (\<Sum>j < 2 ^ k. W k ^ (j * d)) (if 2 ^ k dvd d then 2 ^ k else 0)"
proof (cases "2 ^ k dvd d")
  case True
  have "eqm (W k ^ (j * d)) 1" for j
  proof -
    have "j * d mod 2 ^ k = 0" using dvd_mult [OF True, of j] by (rule dvd_imp_mod_0)
    then show ?thesis using W_mod [OF assms, of "j * d"] by (simp only: power_0)
  qed
  then have "eqm (\<Sum>j < 2 ^ k. W k ^ (j * d)) (\<Sum>j < (2 :: nat) ^ k. 1)" by (intro eqm_sum) simp
  moreover have "(\<Sum>j < (2 :: nat) ^ k. 1) = (2 ^ k :: int)" by simp
  ultimately show ?thesis by (simp only: True if_True)
next
  case False
  then have d: "0 < d mod 2 ^ k" "d mod 2 ^ k < 2 ^ k" by (simp_all add: dvd_eq_mod_eq_0)
  obtain m where m: "m < k" "eqm ((W k ^ (d mod 2 ^ k)) ^ 2 ^ m) (- 1)" using root_neg [OF assms d] by blast
  have "eqm ((W k ^ d) ^ 2 ^ m) (- 1)" using eqm_pow [OF W_mod [OF assms]] m(2) by (rule eqm_trans)
  from geometric_zero [OF m(1) this] show ?thesis using False by (simp add: mult.commute flip: power_mult)
qed

lemma interpolate:
  fixes x :: "nat \<Rightarrow> int"
  assumes "k \<le> fft_s fft" "l < 2 ^ k" "\<And>i. i < 2 ^ k \<Longrightarrow> 2 ^ k dvd e i \<longleftrightarrow> i = l"
  shows "eqm (p ^ k * (\<Sum>i < 2 ^ k. x i * (\<Sum>j < 2 ^ k. W k ^ (j * e i)))) (x l)"
proof -
  have "eqm (\<Sum>i < 2 ^ k. x i * (\<Sum>j < 2 ^ k. W k ^ (j * e i))) (\<Sum>i < 2 ^ k. x i * (if i = l then 2 ^ k else 0))"
  proof (intro eqm_sum)
    fix i :: nat assume "i \<in> {..<2 ^ k}"
    then show "eqm (x i * (\<Sum>j < 2 ^ k. W k ^ (j * e i))) (x i * (if i = l then 2 ^ k else 0))"
      using orthogonal [OF assms(1), of "e i"] assms(3) [of i] by (intro eqm_mult) simp_all
  qed
  also have "(\<Sum>i < 2 ^ k. x i * (if i = l then 2 ^ k else 0)) = x l * 2 ^ k"
    using assms(2) by (simp add: if_distrib cong: if_cong)
  finally have "eqm (p ^ k * (\<Sum>i < 2 ^ k. x i * (\<Sum>j < 2 ^ k. W k ^ (j * e i)))) (p ^ k * (x l * 2 ^ k))"
    by (intro eqm_mult) simp_all
  also have "p ^ k * (x l * 2 ^ k) = x l * (2 * p) ^ k" by (simp add: power_mult_distrib)
  also have "eqm (x l * (2 * p) ^ k) (x l * 1 ^ k)"
    using p_inv by (intro eqm_mult eqm_pow) (simp_all add: eqm_def)
  finally show ?thesis by simp
qed

text \<open>The coefficients that the inverse transform computes.\<close>

definition coeffs :: "nat \<Rightarrow> (nat \<Rightarrow> int) \<Rightarrow> nat \<Rightarrow> int" where
  "coeffs k x j = p ^ k * (\<Sum>i < 2 ^ k. x i * W k ^ (i * ((2 ^ k - j) mod 2 ^ k)))"

lemma coeffs_of_values:
  assumes k: "k \<le> fft_s fft" and l: "l < 2 ^ k"
  shows "eqm (coeffs k (\<lambda>j. \<Sum>i < 2 ^ k. x i * W k ^ (i * j)) l) (x l)"
proof -
  let ?n = "2 ^ k :: nat" and ?y = "\<lambda>j. \<Sum>i < 2 ^ k. x i * W k ^ (i * j)"
  let ?r = "(?n - l) mod ?n"
  have e: "(\<Sum>j < 2 ^ k. ?y j * W k ^ (j * ?r)) = (\<Sum>i < 2 ^ k. x i * (\<Sum>j < 2 ^ k. W k ^ (j * (i + ?r))))"
  proof -
    have t: "x i * W k ^ (i * j) * W k ^ (j * ?r) = x i * W k ^ (j * (i + ?r))" for i j
      unfolding distrib_left power_add mult.commute [of i j] by (rule mult.assoc)
    have "(\<Sum>j < 2 ^ k. ?y j * W k ^ (j * ?r)) = (\<Sum>j < 2 ^ k. \<Sum>i < 2 ^ k. x i * W k ^ (j * (i + ?r)))"
      unfolding sum_distrib_right t ..
    also have "\<dots> = (\<Sum>i < 2 ^ k. \<Sum>j < 2 ^ k. x i * W k ^ (j * (i + ?r)))" by (rule sum.swap)
    finally show ?thesis by (simp add: sum_distrib_left)
  qed
  have "?n dvd i + ?r \<longleftrightarrow> i = l" if "i < ?n" for i
  proof (cases "l = 0")
    case True
    then show ?thesis using that by (auto dest: dvd_imp_le)
  next
    case False
    then have r: "?r = ?n - l" using l by simp
    show ?thesis
    proof
      assume "?n dvd i + ?r"
      then obtain t where t: "i + ?r = ?n * t" by (elim dvdE)
      moreover have "0 < i + ?r" "i + ?r < ?n * 2" using r l that False by simp_all
      ultimately have "t = 1" by (cases t) auto
      then show "i = l" using t r l by simp
    qed (use r l in simp)
  qed
  then show ?thesis unfolding coeffs_def e by (rule interpolate [OF k l])
qed

text \<open>The two transforms are inverse.\<close>

lemma ifft_fft:
  assumes "fair il" "0 < nT" "k \<le> 30" "k \<le> fft_s fft" "length a = 2 ^ k" "\<forall>i < 2 ^ k. rel (a ! i) (x i)"
  shows "\<exists>b c. fft_fft F fft il nT a (2 ^ k) = Some b \<and> fft_ifft F fft il nT b (2 ^ k) = Some c \<and>
    length c = 2 ^ k \<and> (\<forall>l < 2 ^ k. rel (c ! l) (x l))"
proof -
  obtain b where b: "fft_fft F fft il nT a (2 ^ k) = Some b" "length b = 2 ^ k"
      "\<forall>j < 2 ^ k. rel (b ! j) (\<Sum>i < 2 ^ k. x i * W k ^ (i * j))"
    using fft_fft_rel [OF assms] by blast
  obtain c where c: "fft_ifft F fft il nT b (2 ^ k) = Some c" "length c = 2 ^ k"
      "\<forall>l < 2 ^ k. rel (c ! l) (coeffs k (\<lambda>j. \<Sum>i < 2 ^ k. x i * W k ^ (i * j)) l)"
    using fft_ifft_rel [OF assms(1-4) b(2,3)] unfolding coeffs_def by blast
  then show ?thesis using b(1) rel_eqm coeffs_of_values [OF assms(4)] by blast
qed

lemma exponent_swap:
  fixes i j n :: nat
  assumes "i < n" "j < n"
  shows "(i * ((n - j) mod n)) mod n = (j * (n - i)) mod n"
proof -
  have d: "i * (n - j) = i * n - i * j" "j * (n - i) = j * n - i * j" by (simp_all add: diff_mult_distrib2 mult.commute)
  have "i * j \<le> i * n" "i * j \<le> j * n" using assms by (simp_all add: mult.commute)
  then have "i * (n - j) + j * n = j * (n - i) + i * n" unfolding d by linarith
  then have "(i * (n - j) + j * n) mod n = (j * (n - i) + i * n) mod n" by (rule arg_cong)
  then show ?thesis by (simp add: mod_mult_right_eq)
qed

lemma coeffs_eval:
  assumes k: "k \<le> fft_s fft" and l: "l < 2 ^ k"
  shows "eqm (\<Sum>j < 2 ^ k. coeffs k x j * W k ^ (j * l)) (x l)"
proof -
  let ?n = "2 ^ k :: nat"
  let ?e = "\<lambda>i. ?n - i + l"
  have w: "eqm (W k ^ (i * ((?n - j) mod ?n)) * W k ^ (j * l)) (W k ^ (j * ?e i))" if "i < ?n" "j < ?n" for i j
  proof -
    have "eqm (W k ^ (i * ((?n - j) mod ?n))) (W k ^ (j * (?n - i)))"
      using eqm_trans [OF W_mod [OF k, of "i * ((?n - j) mod ?n)"], of "W k ^ (j * (?n - i))"]
        eqm_sym [OF W_mod [OF k, of "j * (?n - i)"]] unfolding exponent_swap [OF that] by blast
    then have "eqm (W k ^ (i * ((?n - j) mod ?n)) * W k ^ (j * l)) (W k ^ (j * (?n - i)) * W k ^ (j * l))"
      by (intro eqm_mult) simp_all
    then show ?thesis by (simp only: distrib_left power_add)
  qed
  have e1: "(\<Sum>j < ?n. coeffs k x j * W k ^ (j * l)) =
      (\<Sum>i < ?n. \<Sum>j < ?n. p ^ k * (x i * (W k ^ (i * ((?n - j) mod ?n)) * W k ^ (j * l))))"
    unfolding coeffs_def sum_distrib_left sum_distrib_right mult.assoc by (rule sum.swap)
  have e2: "eqm (\<Sum>i < ?n. \<Sum>j < ?n. p ^ k * (x i * (W k ^ (i * ((?n - j) mod ?n)) * W k ^ (j * l))))
      (\<Sum>i < ?n. \<Sum>j < ?n. p ^ k * (x i * W k ^ (j * ?e i)))"
    using w by (intro eqm_sum eqm_mult) simp_all
  have e3: "(\<Sum>i < ?n. \<Sum>j < ?n. p ^ k * (x i * W k ^ (j * ?e i))) = p ^ k * (\<Sum>i < ?n. x i * (\<Sum>j < ?n. W k ^ (j * ?e i)))"
    by (simp only: sum_distrib_left)
  have e4: "eqm (p ^ k * (\<Sum>i < ?n. x i * (\<Sum>j < ?n. W k ^ (j * ?e i)))) (x l)"
  proof (rule interpolate [OF k l])
    fix i assume i: "i < ?n"
    show "?n dvd ?e i \<longleftrightarrow> i = l"
    proof
      assume "?n dvd ?e i"
      then obtain t where t: "?e i = ?n * t" by (elim dvdE)
      moreover have "0 < ?e i" "?e i < ?n * 2" using i l by simp_all
      ultimately have "t = 1" by (cases t) auto
      then show "i = l" using t i l by simp
    qed (use i in simp)
  qed
  show ?thesis unfolding e1 by (rule eqm_trans [OF e2]) (unfold e3, rule e4)
qed

lemma fft_ifft_coeffs:
  assumes "fair il" "0 < nT" "k \<le> 30" "k \<le> fft_s fft" "length a = 2 ^ k" "\<forall>i < 2 ^ k. rel (a ! i) (x i)"
  shows "\<exists>c. fft_ifft F fft il nT a (2 ^ k) = Some c \<and> length c = 2 ^ k \<and> (\<forall>j < 2 ^ k. rel (c ! j) (coeffs k x j))"
  using fft_ifft_rel [OF assms] by (simp add: coeffs_def)

lemma fft_ifft:
  assumes "fair il" "0 < nT" "k \<le> 30" "k \<le> fft_s fft" "length a = 2 ^ k" "\<forall>i < 2 ^ k. rel (a ! i) (x i)"
  shows "\<exists>b c. fft_ifft F fft il nT a (2 ^ k) = Some b \<and> fft_fft F fft il nT b (2 ^ k) = Some c \<and>
    length c = 2 ^ k \<and> (\<forall>l < 2 ^ k. rel (c ! l) (x l))"
proof -
  obtain b where b: "fft_ifft F fft il nT a (2 ^ k) = Some b" "length b = 2 ^ k" "\<forall>j < 2 ^ k. rel (b ! j) (coeffs k x j)"
    using fft_ifft_coeffs [OF assms] by blast
  obtain c where c: "fft_fft F fft il nT b (2 ^ k) = Some c" "length c = 2 ^ k"
      "\<forall>l < 2 ^ k. rel (c ! l) (\<Sum>j < 2 ^ k. coeffs k x j * W k ^ (j * l))"
    using fft_fft_rel [OF assms(1-4) b(2,3)] by blast
  then show ?thesis using b(1) rel_eqm coeffs_eval [OF assms(4)] by blast
qed

end

end
