(* ===== verification/FftTables.thy ===== *)
theory FftTables
  imports Fft
begin

text \<open>
  The constructor of the transform (\<open>ffiasm/c/fft.cpp\<close>, \<open>FFT::FFT\<close>): the search for a non-residue,
  the order of the roots, the table of the roots, which the threads of \<open>ThreadPool::parallelBlock\<close>
  fill (\<open>order\<close> is the order in which they run: a thread's block is one step, which is the code's
  behaviour because the blocks write different roots, apart from the first two, which a
  thread may write again with the values they have), and the powers of the inverse of two. \<open>None\<close> is a
  search that does not end, a failed assertion or a number that does not fit; \<open>Inl\<close> is the
  exception. \<open>uninit\<close> stands for the contents of a new array. At the end the interface of the
  transform is interpreted on rapidsnark's field of bn128.
\<close>

subsection \<open>The constructor\<close>

partial_function (option) nqr_loop :: "mpz_api \<Rightarrow> int \<Rightarrow> int \<Rightarrow> int \<Rightarrow> int \<Rightarrow> int option" where
  "nqr_loop Z m_qm1d2 m_q m_nqr m_aux =
     (if mpz_cmp_ui Z m_aux 1 = 0
      then let m_nqr = mpz_add_ui Z m_nqr 1
           in nqr_loop Z m_qm1d2 m_q m_nqr (mpz_powm Z m_nqr m_qm1d2 m_q)
      else Some m_nqr)"

function s_loop :: "mpz_api \<Rightarrow> nat \<Rightarrow> nat \<Rightarrow> int \<Rightarrow> nat \<times> int" where
  "s_loop Z domainPow s m_aux =
     (if \<not> mpz_tstbit Z m_aux 0 \<and> s < domainPow
      then s_loop Z domainPow (s + 1) (mpz_fdiv_q_2exp Z m_aux 1) else (s, m_aux))"
  by pat_completeness auto
termination
  by (relation "measure (\<lambda>(_, d, s, _). d - s)") auto

declare s_loop.simps [simp del]

definition root_block :: "'e field_ops \<Rightarrow> nat \<Rightarrow> nat \<Rightarrow> nat \<Rightarrow> 'e list \<Rightarrow> 'e list" where
  "root_block F nRoots nThreads idThread roots' =
     (let increment = nRoots div nThreads;
          start = (if idThread = 0 then 2 else idThread * increment);
          end' = (if idThread = nThreads - 1 then nRoots else (idThread + 1) * increment);
          roots' = (if end' > start
                   then roots'[start := f_exp F (roots' ! start) (roots' ! 1) (le_bytes 8 start)] else roots')
      in foldl (\<lambda>roots' i. roots'[i := f_mul F (roots' ! (i - 1)) (roots' ! 1)]) roots' [start + 1..<end'])"

definition parallelBlock :: "nat list \<Rightarrow> nat \<Rightarrow> (nat \<Rightarrow> nat \<Rightarrow> 'a \<Rightarrow> 'a) \<Rightarrow> 'a \<Rightarrow> 'a" where
  "parallelBlock order nThreads func st = foldl (\<lambda>st k. func nThreads k st) st order"

definition new_FFT :: "mpz_api \<Rightarrow> 'e field_ops \<Rightarrow> nat list \<Rightarrow> nat \<Rightarrow> 'e \<Rightarrow> u64 \<Rightarrow> (string + 'e FFT) option" where
  "new_FFT Z F order nThreads uninit maxDomainSize =
     (case fft_log2 maxDomainSize of
        None \<Rightarrow> None
      | Some domainPow \<Rightarrow>
     (let m_aux = f_toMpz F (f_negOne F);
          m_q = mpz_add_ui Z m_aux 1;
          m_qm1d2 = mpz_fdiv_q_2exp Z m_aux 1;
          m_nqr = mpz_set_ui Z 2
      in case nqr_loop Z m_qm1d2 m_q m_nqr (mpz_powm Z m_nqr m_qm1d2 m_q) of
           None \<Rightarrow> None
         | Some m_nqr \<Rightarrow>
     (case f_fromMpz F m_nqr of
        None \<Rightarrow> None
      | Some nqr' \<Rightarrow>
     (let (s, m_aux) = s_loop Z domainPow 1 m_qm1d2
      in if s < domainPow then Some (Inl ''Domain size too big for the curve'')
         else
     (let nRoots = 2 ^ s;
          roots' = (replicate nRoots uninit)[0 := f_one F];
          powTwoInv' = (replicate (s + 1) uninit)[0 := f_one F]
      in case (f_fromMpz F (mpz_powm Z m_nqr m_aux m_q),
               f_fromMpz F (snd (mpz_invert Z (mpz_set_ui Z 2) m_q))) of
           (Some r1, Some p1) \<Rightarrow>
             (let roots' = (if nRoots > 1 then roots'[1 := r1] else roots');
                  powTwoInv' = (if nRoots > 1 then powTwoInv'[1 := p1] else powTwoInv');
                  roots' = parallelBlock order nThreads (root_block F nRoots) roots';
                  aux = f_mul F (roots' ! (nRoots - 1)) (roots' ! 1)
              in if \<not> f_eq F aux (f_one F) then None
                 else let powTwoInv' =
                        foldl (\<lambda>p i. p[i := f_mul F (p ! (i - 1)) (p ! 1)]) powTwoInv' [2..<s + 1]
                      in Some (Inr \<lparr>fft_s = s, nqr = nqr', roots = roots', powTwoInv = powTwoInv'\<rparr>))
         | _ \<Rightarrow> None)))))"

subsection \<open>The interface of a field\<close>

locale field_api = field_vals F rel q + mpz_lib Z
  for F :: "'e field_ops" and rel q and Z :: mpz_api +
  assumes rel_zero: "rel (f_zero F) 0" and rel_one: "rel (f_one F) 1" and rel_negOne: "rel (f_negOne F) (- 1)"
    and rel_exp: "rel b v \<Longrightarrow> rel (f_exp F r b s) (v ^ le_nat s)"
    and rel_eq: "rel a u \<Longrightarrow> rel b v \<Longrightarrow> f_eq F a b \<longleftrightarrow> u mod q = v mod q"
    and rel_toMpz: "rel a u \<Longrightarrow> f_toMpz F a = u mod q"
    and rel_fromMpz: "0 \<le> u \<Longrightarrow> u < q \<Longrightarrow> \<exists>e. f_fromMpz F u = Some e \<and> rel e u"
    and rel_toString: "rel a u \<Longrightarrow> f_toString F a = dec_str (nat (u mod q))"
    and q_odd: "odd q" and q_gt_2: "2 < q"
begin

lemma nqr_loop_first:
  assumes "\<And>y. 2 \<le> y \<Longrightarrow> y < z \<Longrightarrow> y ^ nat ((q - 1) div 2) mod q = 1"
    and "z ^ nat ((q - 1) div 2) mod q \<noteq> 1" and "2 \<le> y" "y \<le> z"
  shows "nqr_loop Z ((q - 1) div 2) q y (y ^ nat ((q - 1) div 2) mod q) = Some z"
  using assms(3,4)
proof (induction "nat (z - y)" arbitrary: y)
  case 0
  then have "y = z" by simp
  then show ?case using assms(2) by (subst nqr_loop.simps) (simp add: cmp_ui_law)
next
  case (Suc n)
  then have y: "y < z" "n = nat (z - (y + 1))" "2 \<le> y + 1" by simp_all
  have "y ^ nat ((q - 1) div 2) mod q = 1" using assms(1) [of y] Suc.prems(1) y(1) by simp
  moreover have "mpz_powm Z (y + 1) ((q - 1) div 2) q = (y + 1) ^ nat ((q - 1) div 2) mod q"
    using q_gt_2 by (intro powm_law) simp_all
  moreover have "nqr_loop Z ((q - 1) div 2) q (y + 1) ((y + 1) ^ nat ((q - 1) div 2) mod q) = Some z"
    using y by (intro Suc.hyps(1)) simp_all
  ultimately show ?case by (subst nqr_loop.simps) (simp add: cmp_ui_law add_ui_law Let_def)
qed

lemma s_loop_runs:
  "2 ^ (d - s) dvd aux \<Longrightarrow> s \<le> d \<Longrightarrow> s_loop Z d s aux = (d, aux div 2 ^ (d - s))"
proof (induction "d - s" arbitrary: s aux)
  case 0
  then show ?case by (subst s_loop.simps) simp
next
  case (Suc n)
  have e: "d - s = Suc (d - (s + 1))" using Suc.hyps(2) Suc.prems(2) by simp
  obtain c where c: "aux = 2 ^ (d - s) * c" using Suc.prems(1) by blast
  then have c2: "aux = 2 * (2 ^ (d - (s + 1)) * c)" unfolding e by simp
  then have "s_loop Z d (s + 1) (aux div 2) = (d, aux div 2 div 2 ^ (d - (s + 1)))"
    using Suc.hyps(2) Suc.prems(2) by (intro Suc.hyps(1)) simp_all
  moreover have "\<not> bit aux 0" unfolding c2 by (simp add: bit_0)
  moreover have "s < d" using Suc.hyps(2) by simp
  ultimately show ?case
    unfolding e by (subst s_loop.simps) (simp add: tstbit_law fdiv_q_2exp_law zdiv_zmult2_eq)
qed

lemma s_loop_stops:
  "\<not> 2 ^ (d - s) dvd aux \<Longrightarrow> fst (s_loop Z d s aux) < d"
proof (induction "d - s" arbitrary: s aux)
  case (Suc n)
  have e: "d - s = Suc (d - (s + 1))" using Suc.hyps(2) by simp
  show ?case
  proof (cases "bit aux 0")
    case True
    then show ?thesis using Suc.hyps(2) by (subst s_loop.simps) (simp add: tstbit_law)
  next
    case False
    then obtain c where c: "aux = 2 * c" by (auto simp: bit_0)
    have "\<not> 2 ^ (d - (s + 1)) dvd aux div 2" using Suc.prems unfolding e c by simp
    then have "fst (s_loop Z d (s + 1) (aux div 2)) < d" using Suc.hyps by simp
    then show ?thesis using False Suc.hyps(2) by (subst s_loop.simps) (simp add: tstbit_law fdiv_q_2exp_law)
  qed
qed simp

text \<open>The powers that the threads write.\<close>

lemma mul_run:
  assumes "1 \<le> i0" "e \<le> length r" "rel (r ! 1) w" "\<And>i. i \<in> A \<Longrightarrow> rel (r ! i) (w ^ i)" "i0 - 1 \<in> A" "1 < length r"
  defines "r' \<equiv> foldl (\<lambda>r i. r[i := f_mul F (r ! (i - 1)) (r ! 1)]) r [i0..<e]"
  shows "length r' = length r \<and> rel (r' ! 1) w \<and> (\<forall>i \<in> A \<union> {i0..<e}. rel (r' ! i) (w ^ i))"
  using assms(2) unfolding r'_def
proof (induction e)
  case 0
  then show ?case using assms by simp
next
  case (Suc e)
  let ?r = "foldl (\<lambda>r i. r[i := f_mul F (r ! (i - 1)) (r ! 1)]) r [i0..<e]"
  have IH: "length ?r = length r" "rel (?r ! 1) w" "\<And>i. i \<in> A \<union> {i0..<e} \<Longrightarrow> rel (?r ! i) (w ^ i)"
    using Suc by simp_all
  show ?case
  proof (cases "i0 \<le> e")
    case True
    have "e - 1 \<in> A \<union> {i0..<e}" using True assms(1,5) by (cases "e = i0") auto
    then have "rel (f_mul F (?r ! (e - 1)) (?r ! 1)) (w ^ (e - 1) * w)" by (intro rel_mul IH)
    moreover have "w ^ (e - 1) * w = w ^ e" using True assms(1) by (cases e) simp_all
    ultimately have m: "rel (f_mul F (?r ! (e - 1)) (?r ! 1)) (w ^ e)" by simp
    have l: "e < length ?r" "1 < length ?r" using Suc.prems IH(1) assms(6) by simp_all
    have "rel (?r[e := f_mul F (?r ! (e - 1)) (?r ! 1)] ! i) (w ^ i)" if "i \<in> A \<union> {i0..<Suc e}" for i
      using that m l IH(3) [of i] by (cases "i = e") auto
    moreover have "rel (?r[e := f_mul F (?r ! (e - 1)) (?r ! 1)] ! 1) w"
      using m l IH(2) by (cases "e = 1") auto
    ultimately show ?thesis using True IH(1) by simp
  qed (use IH Suc in \<open>simp add: not_le\<close>)
qed

end

context field_api
begin

lemma root_block_rel:
  assumes "length r = n" "n \<le> 2 ^ 62" "2 \<le> n" "k < t" "rel (r ! 1) w" "\<And>i. i \<in> A \<Longrightarrow> rel (r ! i) (w ^ i)"
  defines "b \<equiv> if k = 0 then 2 else k * (n div t)" and "e \<equiv> if k = t - 1 then n else (k + 1) * (n div t)"
  shows "length (root_block F n t k r) = n \<and> rel (root_block F n t k r ! 1) w \<and>
    (\<forall>i \<in> A \<union> {b..<e}. rel (root_block F n t k r ! i) (w ^ i))"
proof (cases "b < e")
  case True
  have "(k + 1) * (n div t) \<le> t * (n div t)" using assms(4) by (intro mult_le_mono1) simp
  also have "\<dots> \<le> n" by (simp add: mult.commute)
  finally have en: "e \<le> n" by (simp add: e_def)
  let ?x = "f_exp F (r ! b) (r ! 1) (le_bytes 8 b)"
  have "b < 256 ^ 8" using True en assms(2) by simp
  then have x: "rel ?x (w ^ b)" using rel_exp [OF assms(5), of "r ! b" "le_bytes 8 b"] by (simp add: le_nat_le_bytes)
  let ?r = "r[b := ?x]"
  have l: "length ?r = n" "b < n" using assms(1) True en by simp_all
  have r1: "rel (?r ! 1) w" using x assms(1,3,5) by (cases "b = 1") auto
  have A: "rel (?r ! i) (w ^ i)" if "i \<in> insert b A" for i
    using that x l assms(1) assms(6) [of i] by (cases "i = b") auto
  have main: "length (foldl (\<lambda>r i. r[i := f_mul F (r ! (i - 1)) (r ! 1)]) ?r [b + 1..<e]) = length ?r \<and>
    rel (foldl (\<lambda>r i. r[i := f_mul F (r ! (i - 1)) (r ! 1)]) ?r [b + 1..<e] ! 1) w \<and>
    (\<forall>i \<in> insert b A \<union> {b + 1..<e}. rel (foldl (\<lambda>r i. r[i := f_mul F (r ! (i - 1)) (r ! 1)]) ?r [b + 1..<e] ! i) (w ^ i))"
    by (rule mul_run) (use en l r1 A assms(3) in auto)
  have rb: "root_block F n t k r = foldl (\<lambda>r i. r[i := f_mul F (r ! (i - 1)) (r ! 1)]) ?r [b + 1..<e]"
    using True by (simp add: root_block_def b_def e_def Let_def)
  have A2: "insert b A \<union> {b + 1..<e} = A \<union> {b..<e}" using True by auto
  show ?thesis using main unfolding A2 rb l(1) .
next
  case False
  then have "root_block F n t k r = r" by (auto simp: root_block_def b_def e_def Let_def)
  then show ?thesis using False assms by simp
qed

text \<open>The ranges of the threads cover the table.\<close>

lemma ranges_cover:
  assumes "0 < t" "2 \<le> i" "i < (n::nat)"
  shows "\<exists>k < t. i \<in> {(if k = 0 then 2 else k * (n div t))..<(if k = t - 1 then n else (k + 1) * (n div t))}"
proof -
  let ?c = "n div t"
  show ?thesis
  proof (cases "(t - 1) * ?c \<le> i")
    case True
    then show ?thesis using assms by (intro exI [of _ "t - 1"]) auto
  next
    case False
    then have c: "0 < ?c" by (cases "?c = 0") auto
    have lt: "i div ?c < t - 1" using False c by (simp add: not_le less_mult_imp_div_less)
    have "i div ?c * ?c \<le> i" "i < (i div ?c + 1) * ?c"
      using c div_mult_mod_eq [of i ?c] mod_less_divisor [OF c, of i] by (simp_all add: distrib_right)
    then show ?thesis using assms lt by (intro exI [of _ "i div ?c"]) auto
  qed
qed

lemma parallelBlock_rel:
  assumes "length r = n" "n \<le> 2 ^ 62" "2 \<le> n" "set order = {0..<t}" "0 < t"
    and "rel (r ! 1) w" "rel (r ! 0) 1"
  shows "length (parallelBlock order t (root_block F n) r) = n \<and>
    (\<forall>i < n. rel (parallelBlock order t (root_block F n) r ! i) (w ^ i))"
proof -
  let ?b = "\<lambda>k. if k = 0 then 2 else k * (n div t)" and ?e = "\<lambda>k. if k = t - 1 then n else (k + 1) * (n div t)"
  have "length (foldl (\<lambda>st k. root_block F n t k st) r ks) = n \<and>
      rel (foldl (\<lambda>st k. root_block F n t k st) r ks ! 1) w \<and>
      (\<forall>i \<in> {0, 1} \<union> (\<Union>k \<in> set ks. {?b k..<?e k}). rel (foldl (\<lambda>st k. root_block F n t k st) r ks ! i) (w ^ i))"
    if "set ks \<subseteq> {0..<t}" for ks
    using that
  proof (induction ks rule: rev_induct)
    case Nil
    then show ?case using assms by auto
  next
    case (snoc k ks)
    let ?r = "foldl (\<lambda>st k. root_block F n t k st) r ks" and ?A = "{0, 1} \<union> (\<Union>k \<in> set ks. {?b k..<?e k})"
    have sub: "set ks \<subseteq> {0..<t}" and k: "k < t" using snoc.prems by auto
    note I = snoc.IH [OF sub]
    have IH: "length ?r = n" "rel (?r ! 1) w" using I by blast+
    have IH3: "rel (?r ! i) (w ^ i)" if "i \<in> ?A" for i using I that by blast
    have main: "length (root_block F n t k ?r) = n \<and> rel (root_block F n t k ?r ! 1) w \<and>
      (\<forall>i \<in> ?A \<union> {?b k..<?e k}. rel (root_block F n t k ?r ! i) (w ^ i))"
      by (rule root_block_rel [OF IH(1) assms(2,3) k IH(2) IH3])
    have A: "?A \<union> {?b k..<?e k} = {0, 1} \<union> (\<Union>k \<in> set (ks @ [k]). {?b k..<?e k})" by auto
    show ?case unfolding foldl_append foldl.simps using main unfolding A .
  qed
  note runs = this [of order, unfolded assms(4)]
  have all: "length (parallelBlock order t (root_block F n) r) = n"
    "\<forall>i \<in> {0, 1} \<union> (\<Union>k \<in> {0..<t}. {?b k..<?e k}). rel (parallelBlock order t (root_block F n) r ! i) (w ^ i)"
    unfolding parallelBlock_def using runs by blast+
  have "i \<in> {0, 1} \<union> (\<Union>k \<in> {0..<t}. {?b k..<?e k})" if i: "i < n" for i
  proof (cases "2 \<le> i")
    case True
    then obtain k where "k < t" "i \<in> {?b k..<?e k}" using ranges_cover [OF assms(5) True i] by blast
    then show ?thesis by fastforce
  qed auto
  then show ?thesis using all by blast
qed

lemma rel_half:
  assumes "mpz_invert Z 2 q = (c, p)"
  shows "0 \<le> p \<and> p < q \<and> (2 * p) mod q = 1 mod q"
proof -
  have "coprime 2 q" using q_odd by (simp add: coprime_left_2_iff_odd)
  then show ?thesis using invert_law [of q 2 c p] assms q_gt_2 by (simp add: mult.commute)
qed

text \<open>The constructor builds the tables of a root of the order of the domain.\<close>

lemma new_FFT_tables:
  assumes d: "fft_log2 n = Some d" "d \<le> 62" "2 ^ max 1 d dvd q - 1"
    and t: "set order = {0..<t}" "0 < t"
    and z: "\<And>y. 2 \<le> y \<Longrightarrow> y < z \<Longrightarrow> y ^ nat ((q - 1) div 2) mod q = 1"
      "z ^ nat ((q - 1) div 2) mod q = q - 1" "2 \<le> z" "z < q"
  shows "\<exists>fft. new_FFT Z F order t uninit n = Some (Inr fft) \<and> fft_s fft = max 1 d \<and>
    fft_tables F rel q fft (z ^ nat ((q - 1) div 2 ^ max 1 d)) (snd (mpz_invert Z 2 q))"
proof -
  let ?s = "max 1 d" and ?h = "(q - 1) div 2" and ?N = "2 ^ max 1 d :: nat"
  let ?w = "z ^ nat ((q - 1) div 2 ^ ?s)"
  have qm1: "f_toMpz F (f_negOne F) = q - 1" using rel_toMpz [OF rel_negOne] q_gt_2 by (simp add: zmod_minus1)
  have powm: "mpz_powm Z y x q = y ^ nat x mod q" if "0 \<le> x" for x y using q_gt_2 that by (intro powm_law) simp_all
  have search: "nqr_loop Z ?h q 2 (2 ^ nat ?h mod q) = Some z"
    using z q_gt_2 by (intro nqr_loop_first) auto
  obtain e where e: "f_fromMpz F z = Some e" "rel e z" using rel_fromMpz [of z] z(3,4) by auto
  obtain c where c: "q - 1 = 2 ^ ?s * c" using d(3) by blast
  have s2: "(2::int) ^ ?s = 2 * 2 ^ (?s - 1)" using power_Suc [of "2::int" "?s - 1"] by simp
  have hc: "?h = 2 ^ (?s - 1) * c" unfolding c s2 by simp
  have s: "s_loop Z d 1 ?h = (?s, (q - 1) div 2 ^ ?s)"
  proof (cases "1 \<le> d")
    case True
    then have m: "?s = d" by simp
    have "2 ^ (d - 1) dvd ?h" using hc unfolding m by simp
    then have "s_loop Z d 1 ?h = (d, ?h div 2 ^ (d - 1))" using True by (rule s_loop_runs)
    moreover have "?h div 2 ^ (d - 1) = c" "(q - 1) div 2 ^ d = c" using hc c unfolding m by simp_all
    ultimately show ?thesis unfolding m by simp
  next
    case False
    then show ?thesis by (subst s_loop.simps) simp
  qed
  have mq: "0 \<le> ?w mod q" "?w mod q < q" using q_gt_2 by simp_all
  then obtain r1 where r1: "f_fromMpz F (?w mod q) = Some r1" "rel r1 ?w"
    using rel_fromMpz rel_cong mod_mod_trivial by metis
  obtain c' p where p: "mpz_invert Z 2 q = (c', p)" by fastforce
  then obtain p1 where p1: "f_fromMpz F p = Some p1" "rel p1 p" using rel_half rel_fromMpz by blast
  let ?r = "parallelBlock order t (root_block F ?N) ((replicate ?N uninit)[0 := f_one F, 1 := r1])"
  have "(2::nat) ^ 1 \<le> ?N" by (intro power_increasing) simp_all
  moreover have N62: "?N \<le> 2 ^ 62" using d(2) by (intro power_increasing) simp_all
  ultimately have N: "2 \<le> ?N" "?N \<le> 2 ^ 62" by (simp_all only: power_one_right)
  have "length ?r = ?N \<and> (\<forall>i < ?N. rel (?r ! i) (?w ^ i))"
    by (rule parallelBlock_rel) (use N t r1 rel_one in auto)
  then have r: "length ?r = ?N" "\<And>i. i < ?N \<Longrightarrow> rel (?r ! i) (?w ^ i)" by auto
  have "0 \<le> 2 ^ ?s * c" using c q_gt_2 by linarith
  then have "0 \<le> c" by (simp add: zero_le_mult_iff)
  then have nh: "nat ?h = 2 ^ (?s - 1) * nat c" unfolding hc by (simp add: nat_mult_distrib nat_power_eq)
  have cq: "(q - 1) div 2 ^ ?s = c" unfolding c by simp
  have w2: "?w ^ 2 ^ (?s - 1) = z ^ nat ?h"
    using nh cq by (simp add: mult.commute flip: power_mult)
  have order: "(?w ^ 2 ^ (?s - 1) + 1) mod q = 0"
    using mod_add_left_eq [of "z ^ nat ?h" q 1] unfolding w2 z(2) by simp
  have assertion: "f_eq F (f_mul F (?r ! (?N - 1)) (?r ! 1)) (f_one F)"
  proof -
    have N2: "?N = 2 ^ (?s - 1) * 2" using power_Suc [of "2::nat" "?s - 1"] by simp
    have "?w ^ (?N - 1) * ?w ^ 1 = ?w ^ ?N" using N by (simp flip: power_Suc2)
    also have "\<dots> = (?w ^ 2 ^ (?s - 1)) ^ 2" by (simp only: N2 power_mult)
    finally have e: "?w ^ (?N - 1) * ?w ^ 1 = (?w ^ 2 ^ (?s - 1)) ^ 2" .
    have "(?w ^ 2 ^ (?s - 1)) mod q = (- 1) mod q"
      using order by (metis add_diff_cancel_right' diff_0 mod_0 mod_diff_left_eq)
    then have "((?w ^ 2 ^ (?s - 1)) ^ 2) mod q = ((- 1) ^ 2) mod q" by (metis power_mod)
    moreover have "rel (f_mul F (?r ! (?N - 1)) (?r ! 1)) (?w ^ (?N - 1) * ?w ^ 1)" using r N by (intro rel_mul r) simp_all
    ultimately show ?thesis using rel_eq [OF _ rel_one] unfolding e by simp
  qed
  let ?base = "(replicate (?s + 1) uninit)[0 := f_one F, 1 := p1]"
  let ?p = "foldl (\<lambda>p i. p[i := f_mul F (p ! (i - 1)) (p ! 1)]) ?base [2..<?s + 1]"
  have P: "length ?p = length ?base \<and> rel (?p ! 1) p \<and> (\<forall>i \<in> {0, 1} \<union> {2..<?s + 1}. rel (?p ! i) (p ^ i))"
    by (rule mul_run) (use p1 rel_one in auto)
  have pow: "rel (?p ! i) (p ^ i)" if "i \<le> ?s" for i
  proof -
    have "i \<in> {0, 1} \<union> {2..<?s + 1}" using that by auto
    then show ?thesis using P by blast
  qed
  let ?fft = "\<lparr>fft_s = ?s, nqr = e, roots = ?r, powTwoInv = ?p\<rparr>"
  have run: "new_FFT Z F order t uninit n = Some (Inr ?fft)"
  proof -
    have gmp: "mpz_add_ui Z (q - 1) 1 = q" "mpz_fdiv_q_2exp Z (q - 1) 1 = ?h" "mpz_set_ui Z 2 = 2"
      by (simp_all add: add_ui_law fdiv_q_2exp_law set_ui_law)
    have "0 \<le> ?h" "0 \<le> (q - 1) div 2 ^ ?s" using q_gt_2 by (simp_all add: pos_imp_zdiv_nonneg_iff)
    then have pw: "mpz_powm Z 2 ?h q = 2 ^ nat ?h mod q" "mpz_powm Z z ((q - 1) div 2 ^ ?s) q = ?w mod q"
      by (simp_all only: powm)
    have n1: "1 < ?N" "\<not> ?s < d" using N(1) by simp_all
    show ?thesis
      unfolding new_FFT_def d(1) option.case qm1 Let_def gmp pw search e(1) s prod.case r1(1) p snd_conv p1(1)
      using assertion by (simp only: n1 if_True if_False not_True_eq_False)
  qed
  have "fft_tables F rel q ?fft ?w p"
    using r pow order rel_half [OF p] by unfold_locales simp_all
  then have "fft_tables F rel q ?fft ?w (snd (mpz_invert Z 2 q))" using p by simp
  then show ?thesis using run by (intro exI conjI) (assumption, rule FFT.select_convs, assumption)
qed

text \<open>A domain that does not divide the group's order is refused.\<close>

lemma new_FFT_refuses:
  assumes d: "fft_log2 n = Some d" "1 \<le> d" "\<not> 2 ^ d dvd q - 1"
    and z: "\<And>y. 2 \<le> y \<Longrightarrow> y < z \<Longrightarrow> y ^ nat ((q - 1) div 2) mod q = 1"
      "z ^ nat ((q - 1) div 2) mod q \<noteq> 1" "2 \<le> z" "z < q"
  shows "new_FFT Z F order t uninit n = Some (Inl ''Domain size too big for the curve'')"
proof -
  let ?h = "(q - 1) div 2"
  have qm1: "f_toMpz F (f_negOne F) = q - 1" using rel_toMpz [OF rel_negOne] q_gt_2 by (simp add: zmod_minus1)
  have gmp: "mpz_add_ui Z (q - 1) 1 = q" "mpz_fdiv_q_2exp Z (q - 1) 1 = ?h" "mpz_set_ui Z 2 = 2"
    by (simp_all add: add_ui_law fdiv_q_2exp_law set_ui_law)
  have pw: "mpz_powm Z 2 ?h q = 2 ^ nat ?h mod q"
    using q_gt_2 by (intro powm_law) (simp_all add: pos_imp_zdiv_nonneg_iff)
  have search: "nqr_loop Z ?h q 2 (2 ^ nat ?h mod q) = Some z" using z by (intro nqr_loop_first) auto
  obtain e where e: "f_fromMpz F z = Some e" using rel_fromMpz [of z] z(3,4) by auto
  have "q - 1 = 2 * ?h" using q_odd by simp
  moreover have "(2::int) ^ d = 2 * 2 ^ (d - 1)" using d(2) by (simp flip: power_Suc)
  ultimately have "\<not> 2 ^ (d - 1) dvd ?h" using d(3) by (metis mult_dvd_mono dvd_refl)
  then have "fst (s_loop Z d 1 ?h) < d" by (rule s_loop_stops)
  then obtain s a where "s_loop Z d 1 ?h = (s, a)" "s < d" by (cases "s_loop Z d 1 ?h") simp
  then show ?thesis unfolding new_FFT_def d(1) option.case qm1 Let_def gmp pw search e by simp
qed

end

subsection \<open>The field of the prover\<close>

definition RawFr_ops :: "mpz_api \<Rightarrow> mpn_api \<Rightarrow> fr_params \<Rightarrow> fr_globals \<Rightarrow> limbs \<times> limbs \<times> limbs \<Rightarrow> limbs field_ops" where
  "RawFr_ops Z G P S field =
     (let (fZero, fOne, fNegOne) = field
      in \<lparr>f_add = RawFr_add G P, f_sub = RawFr_sub G P, f_mul = RawFr_mul G P, f_exp = RawFr_exp G P fOne,
          f_eq = RawFr_eq G, f_zero = fZero, f_one = fOne, f_negOne = fNegOne,
          f_toMontgomery = RawFr_toMontgomery G P, f_fromMontgomery = RawFr_fromMontgomery G P,
          f_toMpz = RawFr_toMpz Z G P, f_fromMpz = RawFr_fromMpz Z G P, f_toString = RawFr_toString Z G P\<rparr>)"

lemma RawFr_field_vals: "fr_field G P \<Longrightarrow> field_vals (RawFr_ops Z G P S field) (fe P) (qv P)"
  by unfold_locales
    (auto simp: RawFr_ops_def split_def fr_field.fe_add fr_field.fe_sub fr_field.fe_mul fr_field.fe_cong)

lemma RawFr_field_api:
  assumes m: "fr_mpz G P Z S" and n: "new_RawFr Z G P S = Some field"
  shows "field_api (RawFr_ops Z G P S field) (fe P) (qv P) Z"
proof -
  have f: "fr_field G P" and z: "mpz_lib Z" using m by (simp_all add: fr_mpz_def)
  obtain z e n where field: "field = (z, e, n)" "fe P z 0" "fe P e 1" "fe P n (- 1)"
    using fr_mpz.fe_new [OF m] n by auto
  have "odd (qv P)" "2 < qv P" using fr_field.odd_q [OF f] fr_field.q_gt [OF f] by simp_all
  then show ?thesis
    using field fr_field.fe_exp [OF f] fr_field.fe_eq [OF f] fr_mpz.fe_toMpz [OF m] fr_mpz.fe_fromMpz [OF m]
      fr_mpz.fe_toString [OF m]
    by (intro field_api.intro RawFr_field_vals [OF f] z field_api_axioms.intro) (simp_all add: RawFr_ops_def)
qed

definition bn128_RawFr :: "limbs \<times> limbs \<times> limbs" where
  "bn128_RawFr = the (new_RawFr mpz_ref mpn_ref bn128_params bn128_globals)"

lemma bn128_RawFr_new: "new_RawFr mpz_ref mpn_ref bn128_params bn128_globals = Some bn128_RawFr"
  unfolding bn128_RawFr_def using bn128_gmp.fe_new by auto

definition bn128_Fr :: "limbs field_ops" where
  "bn128_Fr = RawFr_ops mpz_ref mpn_ref bn128_params bn128_globals bn128_RawFr"

interpretation bn128_field: field_api bn128_Fr "fe bn128_params" "qv bn128_params" mpz_ref
  unfolding bn128_Fr_def by (rule RawFr_field_api [OF bn128_fr_mpz bn128_RawFr_new])

text \<open>A root of order eight, and the tables of a domain of that size.\<close>

definition bn128_root8 :: int where
  "bn128_root8 = 19540430494807482326159819597004422086093766032135589407132600596362845576832"

lemma bn128_q: "qv bn128_params = 21888242871839275222246405745257275088548364400416034343698204186575808495617"
  by (simp add: bn128_fields bn128_limbs qv_def B64_def)

lemma fourth_power:
  fixes a i k j q :: int
  assumes "a * a = k * q + i" "i * i + 1 = j * q"
  shows "(a ^ 4 + 1) mod q = 0"
proof -
  have "a ^ 4 + 1 = (k * q + i) * (k * q + i) + 1" using assms(1) by (simp add: power4_eq_xxxx mult.assoc)
  also have "\<dots> = (k * k * q + 2 * k * i) * q + (i * i + 1)" by (simp add: algebra_simps)
  also have "\<dots> = (k * k * q + 2 * k * i + j) * q" unfolding assms(2) by (simp add: distrib_right)
  finally show ?thesis by simp
qed

lemma bn128_root8_order: "(bn128_root8 ^ 4 + 1) mod qv bn128_params = 0"
proof (rule fourth_power)
  show "bn128_root8 * bn128_root8 = 17444452995066617625487937660570427516240463878249347913698484080455254673866 * qv bn128_params + 21888242871839275217838484774961031246007050428528088939761107053157389710902"
    unfolding bn128_root8_def bn128_q by simp
  show "(21888242871839275217838484774961031246007050428528088939761107053157389710902 :: int) * 21888242871839275217838484774961031246007050428528088939761107053157389710902 + 1 = 21888242871839275213430563804664787404353416997930879449828600104561791390565 * qv bn128_params"
    unfolding bn128_q by simp
qed

definition bn128_half :: int where
  "bn128_half = (qv bn128_params + 1) div 2"

definition bn128_table :: "int \<Rightarrow> nat \<Rightarrow> limbs list" where
  "bn128_table b n = map (\<lambda>i. the (RawFr_fromMpz mpz_ref mpn_ref bn128_params (b ^ i mod qv bn128_params))) [0..<n]"

definition bn128_FFT :: "limbs FFT" where
  "bn128_FFT = \<lparr>fft_s = 3, nqr = the (RawFr_fromMpz mpz_ref mpn_ref bn128_params 5),
     roots = bn128_table bn128_root8 8, powTwoInv = bn128_table bn128_half 4\<rparr>"

lemma bn128_table_rel: "i < n \<Longrightarrow> fe bn128_params (bn128_table b n ! i) (b ^ i)"
proof -
  assume i: "i < n"
  have "0 \<le> b ^ i mod qv bn128_params" "b ^ i mod qv bn128_params < qv bn128_params"
    using bn128.q_pos by simp_all
  from bn128_gmp.fe_fromMpz [OF this]
  obtain e where e: "RawFr_fromMpz mpz_ref mpn_ref bn128_params (b ^ i mod qv bn128_params) = Some e"
      "fe bn128_params e (b ^ i mod qv bn128_params)" by blast
  have "fe bn128_params e (b ^ i)" by (rule bn128.fe_cong [OF e(2)]) simp
  then show ?thesis using e(1) i by (simp add: bn128_table_def)
qed

interpretation bn128_fft: fft_tables bn128_Fr "fe bn128_params" "qv bn128_params" bn128_FFT bn128_root8 bn128_half
proof unfold_locales
  fix i :: nat assume "i < 2 ^ fft_s bn128_FFT"
  then show "fe bn128_params (roots bn128_FFT ! i) (bn128_root8 ^ i)"
    by (simp add: bn128_FFT_def bn128_table_rel)
next
  fix i assume "i \<le> fft_s bn128_FFT"
  then show "fe bn128_params (powTwoInv bn128_FFT ! i) (bn128_half ^ i)"
    by (simp add: bn128_FFT_def bn128_table_rel)
next
  show "(bn128_root8 ^ 2 ^ (fft_s bn128_FFT - 1) + 1) mod qv bn128_params = 0"
    using bn128_root8_order by (simp add: bn128_FFT_def)
next
  have "even (qv bn128_params + 1)" using bn128.odd_q by simp
  then have "2 * bn128_half = qv bn128_params + 1" unfolding bn128_half_def by (rule dvd_mult_div_cancel)
  then show "2 * bn128_half mod qv bn128_params = 1 mod qv bn128_params" by simp
qed (simp add: bn128_FFT_def)

subsection \<open>The results\<close>

text \<open>
  Property C10. The transform of \<open>2 ^ k\<close> elements, for \<open>k\<close> up to 30, evaluates the polynomial they are the
  coefficients of at the powers of the root of that order, for every division of the loops
  among threads and every order in which the jobs run; no assertion fails.
\<close>

theorem fft_evaluates:
  assumes "fft_tables F rel q fft w p" "fair il" "0 < nT" "k \<le> 30" "k \<le> fft_s fft"
    and "length a = 2 ^ k" "\<forall>i < 2 ^ k. rel (a ! i) (x i)"
  shows "\<exists>a'. fft_fft F fft il nT a (2 ^ k) = Some a' \<and> length a' = 2 ^ k \<and>
    (\<forall>j < 2 ^ k. rel (a' ! j) (\<Sum>i < 2 ^ k. x i * (w ^ 2 ^ (fft_s fft - k)) ^ (i * j)))"
  using fft_tables.fft_fft_rel [OF assms] unfolding fft_tables.W_def [OF assms(1)] .

lemma bn128_input: "\<exists>a. length a = 4 \<and> (\<forall>i < 4. fe bn128_params (a ! i) (int i))"
proof -
  obtain a b c d where "fe bn128_params a 0" "fe bn128_params b 1" "fe bn128_params c 2" "fe bn128_params d 3"
    using bn128_gmp.fe_set [of 0] bn128_gmp.fe_set [of 1] bn128_gmp.fe_set [of 2] bn128_gmp.fe_set [of 3] by auto
  then have "\<forall>i < 4. fe bn128_params ([a, b, c, d] ! i) (int i)" by (simp add: less_Suc_eq numeral_eq_Suc)
  then show ?thesis by (intro exI [of _ "[a, b, c, d]"]) simp
qed

lemma fair_concat: "fair concat" "fair (\<lambda>jobs. rev (concat jobs))"
  by (simp_all add: fair_def)

theorem fft_evaluates_witness:
  "\<exists>a a'. length a = 4 \<and> (\<forall>i < 4. fe bn128_params (a ! i) (int i)) \<and>
    fft_fft bn128_Fr bn128_FFT (\<lambda>jobs. rev (concat jobs)) 3 a 4 = Some a' \<and>
    fe bn128_params (a' ! 3) (\<Sum>i < 4. int i * (bn128_root8 ^ 2) ^ (i * 3))"
proof -
  obtain a where a: "length a = 4" "\<forall>i < 4. fe bn128_params (a ! i) (int i)" using bn128_input by blast
  have p: "(4::nat) = 2 ^ 2" "bn128_root8 ^ 2 = bn128_root8 ^ 2 ^ (fft_s bn128_FFT - 2)" by (simp_all add: bn128_FFT_def)
  have k: "(2::nat) \<le> fft_s bn128_FFT" "(0::nat) < 3" "(2::nat) \<le> 30" by (simp_all add: bn128_FFT_def)
  have r: "(3::nat) < 4" by simp
  obtain a' where "fft_fft bn128_Fr bn128_FFT (\<lambda>jobs. rev (concat jobs)) 3 a 4 = Some a'"
    "\<forall>j < 4. fe bn128_params (a' ! j) (\<Sum>i < 4. int i * (bn128_root8 ^ 2) ^ (i * j))"
    using fft_evaluates [OF bn128_fft.fft_tables_axioms fair_concat(2) k(2,3,1) a [unfolded p(1)], folded p] by blast
  then show ?thesis using a r by blast
qed

text \<open>
  Property C11. The two transforms are inverse, in both orders and for every order of the jobs.
\<close>

theorem fft_inverse:
  assumes "fft_tables F rel q fft w p" "fair il" "0 < nT" "k \<le> 30" "k \<le> fft_s fft"
    and "length a = 2 ^ k" "\<forall>i < 2 ^ k. rel (a ! i) (x i)"
  shows "(\<exists>b c. fft_fft F fft il nT a (2 ^ k) = Some b \<and> fft_ifft F fft il nT b (2 ^ k) = Some c \<and>
      length c = 2 ^ k \<and> (\<forall>l < 2 ^ k. rel (c ! l) (x l))) \<and>
    (\<exists>b c. fft_ifft F fft il nT a (2 ^ k) = Some b \<and> fft_fft F fft il nT b (2 ^ k) = Some c \<and>
      length c = 2 ^ k \<and> (\<forall>l < 2 ^ k. rel (c ! l) (x l)))"
  using fft_tables.ifft_fft [OF assms] fft_tables.fft_ifft [OF assms] by blast

theorem fft_inverse_witness:
  "\<exists>a b c. length a = 4 \<and> (\<forall>i < 4. fe bn128_params (a ! i) (int i)) \<and>
    fft_fft bn128_Fr bn128_FFT concat 2 a 4 = Some b \<and> fft_ifft bn128_Fr bn128_FFT concat 2 b 4 = Some c \<and>
    (\<forall>l < 4. fe bn128_params (c ! l) (int l))"
proof -
  obtain a where a: "length a = 4" "\<forall>i < 4. fe bn128_params (a ! i) (int i)" using bn128_input by blast
  have p: "(4::nat) = 2 ^ 2" by simp
  have k: "(2::nat) \<le> fft_s bn128_FFT" "(0::nat) < 2" "(2::nat) \<le> 30" by (simp_all add: bn128_FFT_def)
  show ?thesis
    using conjunct1 [OF fft_inverse [OF bn128_fft.fft_tables_axioms fair_concat(1) k(2,3,1) a [unfolded p]], folded p] a
    by blast
qed

text \<open>
  Property C12. The constructor of the transform ends and builds correct tables when the domain
  divides the order of the group, in whatever order the threads run; otherwise it throws. The
  hypotheses on \<open>z\<close> say that it is the first number that is not a square.
\<close>

theorem new_FFT_correct:
  assumes f: "field_api F rel q Z" and d: "fft_log2 n = Some d" "1 \<le> d" "d \<le> 62"
    and t: "mset order = mset [0..<t]" "0 < t"
    and z: "\<forall>y. 2 \<le> y \<and> y < z \<longrightarrow> y ^ nat ((q - 1) div 2) mod q = 1"
      "z ^ nat ((q - 1) div 2) mod q = q - 1" "2 \<le> z" "z < q"
  shows "if 2 ^ d dvd q - 1
    then \<exists>fft. new_FFT Z F order t uninit n = Some (Inr fft) \<and> fft_s fft = d \<and>
      fft_tables F rel q fft (z ^ nat ((q - 1) div 2 ^ d)) (snd (mpz_invert Z 2 q))
    else new_FFT Z F order t uninit n = Some (Inl ''Domain size too big for the curve'')"
proof -
  have s: "set order = {0..<t}" using mset_eq_setD [OF t(1)] by simp
  have m: "max 1 d = d" using d(2) by simp
  have z': "\<And>y. 2 \<le> y \<Longrightarrow> y < z \<Longrightarrow> y ^ nat ((q - 1) div 2) mod q = 1" using z(1) by blast
  have "q - 1 \<noteq> 1" using field_api.q_gt_2 [OF f] by simp
  then have ne: "z ^ nat ((q - 1) div 2) mod q \<noteq> 1" using z(2) by simp
  show ?thesis
    using field_api.new_FFT_tables [OF f d(1,3) _ s t(2) z' z(2-4), of uninit, unfolded m]
      field_api.new_FFT_refuses [OF f d(1,2) _ z' ne z(3,4), of order t uninit] by simp
qed

text \<open>The integers modulo 17, for a closed run.\<close>

definition mod17 :: "int field_ops" where
  "mod17 = \<lparr>f_add = \<lambda>a b. (a + b) mod 17, f_sub = \<lambda>a b. (a - b) mod 17, f_mul = \<lambda>a b. (a * b) mod 17,
     f_exp = \<lambda>r b s. b ^ le_nat s mod 17, f_eq = (=), f_zero = 0, f_one = 1, f_negOne = 16,
     f_toMontgomery = id, f_fromMontgomery = id, f_toMpz = id, f_fromMpz = Some,
     f_toString = \<lambda>a. dec_str (nat a)\<rparr>"

lemma mod17_field: "field_api mod17 (\<lambda>a u. a = u mod 17) 17 mpz_ref"
  by (intro field_api.intro field_vals.intro field_api_axioms.intro gmp_mpz.mpz_lib_axioms)
    (simp_all add: mod17_def mod_simps)

theorem new_FFT_correct_witness:
  "(\<exists>fft. new_FFT mpz_ref mod17 [1, 0] 2 0 8 = Some (Inr fft) \<and> fft_s fft = 3 \<and>
     fft_tables mod17 (\<lambda>a u. a = u mod 17) 17 fft (3 ^ nat (16 div 2 ^ 3)) (snd (mpz_invert mpz_ref 2 17))) \<and>
   new_FFT mpz_ref mod17 [1, 0] 2 0 32 = Some (Inl ''Domain size too big for the curve'')"
proof -
  have l: "fft_log2 8 = Some 3" "fft_log2 32 = Some 5" using fft_log2_pow [of 3] fft_log2_pow [of 5] by simp_all
  have z: "\<forall>y. 2 \<le> y \<and> y < (3::int) \<longrightarrow> y ^ nat ((17 - 1) div 2) mod 17 = 1"
  proof (intro allI impI)
    fix y :: int assume "2 \<le> y \<and> y < 3"
    then have "y = 2" by simp
    then show "y ^ nat ((17 - 1) div 2) mod 17 = 1" by simp
  qed
  have o: "mset [1, 0] = mset [0..<2]" by (simp add: upt_rec)
  show ?thesis
    using new_FFT_correct [OF mod17_field l(1) _ _ o _ z, of 0] new_FFT_correct [OF mod17_field l(2) _ _ o _ z, of 0]
    by simp
qed

end
