(* ===== verification/GroupMul.thy ===== *)
theory GroupMul
  imports FftTables
begin

text \<open>
  Multiplication of points by scalars, the work of the prover: the signed binary digits of
  \<open>ffiasm/c/naf.cpp\<close>, double-and-add over them (\<open>exp.hpp\<close>, the methods \<open>mulByScalar\<close> of
  \<open>curve.hpp\<close>), and the sum of many products by signed buckets (\<open>msm.hpp\<close>, \<open>msm.cpp\<close>). The group
  is a parameter: a record of the operations of \<open>Curve\<close> on points and affine points. The
  locale \<open>curve_vals\<close> states what they promise, as multiples of a generator modulo its order; the
  negation of an affine point to a projective one promises nothing for the point at infinity.
  A table entry of 64 bits is the list of its bytes in memory, lowest first.
\<close>

subsection \<open>The group\<close>

record ('p, 'a) curve_ops =
  g_zero :: 'p
  g_add :: "'p \<Rightarrow> 'p \<Rightarrow> 'p"
  g_addA :: "'p \<Rightarrow> 'a \<Rightarrow> 'p"
  g_sub :: "'p \<Rightarrow> 'p \<Rightarrow> 'p"
  g_subA :: "'p \<Rightarrow> 'a \<Rightarrow> 'p"
  g_dbl :: "'p \<Rightarrow> 'p"
  g_neg :: "'p \<Rightarrow> 'p"
  g_negA :: "'a \<Rightarrow> 'p"
  g_fromAffine :: "'a \<Rightarrow> 'p"
  g_toAffine :: "'p \<Rightarrow> 'a"

subsection \<open>Signed binary digits\<close>

definition naf_digit :: "bool \<Rightarrow> bool \<Rightarrow> bool \<Rightarrow> bool \<times> bool \<times> u8" where
  "naf_digit last' carry cur =
     (if last'
      then if cur then if carry then (False, True, 1) else (False, True, 2)
           else if carry then (False, True, 2) else (False, False, 1)
      else if cur then if carry then (False, True, 0) else (True, False, 0)
           else if carry then (True, False, 0) else (False, False, 0))"

fun naf_loop :: "nat \<Rightarrow> nat \<Rightarrow> bool \<Rightarrow> bool \<Rightarrow> nat \<Rightarrow> bool \<times> bool \<times> u8 list" where
  "naf_loop num i last' carry 0 = (last', carry, [])"
| "naf_loop num i last' carry (Suc k) =
     (let cur = bit num (i + 1);
          (last', carry, d) = naf_digit last' carry cur;
          (last', carry, ds) = naf_loop num (i + 1) last' carry k
      in (last', carry, d # ds))"

definition NAFTable :: "nat \<Rightarrow> u8 list" where
  "NAFTable num =
     (let carry = bit num 9; last' = bit num 0;
          (last', carry, res) = naf_loop num 0 last' carry 8;
          res = (if carry then res[0 := res ! 0 OR 4] else res);
          res = (if last' then res[0 := res ! 0 OR 8] else res)
      in res)"

fun buildNaf_loop :: "bytes \<Rightarrow> nat \<Rightarrow> nat \<Rightarrow> bool \<Rightarrow> bool \<Rightarrow> nat \<Rightarrow> u8 list" where
  "buildNaf_loop scalar scalarSize i last' carry 0 = []"
| "buildNaf_loop scalar scalarSize i last' carry (Suc k) =
     (let st = (if last' then 1 else 0);
          st = (if i < scalarSize then st + unat (scalar ! i AND 0xFE) else st);
          st = (if i + 1 < scalarSize then st + push_bit 8 (unat (scalar ! (i + 1) AND 1)) else st);
          st = (if carry then st + 0x200 else st);
          rs = NAFTable st;
          carry = (rs ! 0 AND 4 \<noteq> 0);
          last' = (rs ! 0 AND 8 \<noteq> 0)
      in map (\<lambda>b. b AND 3) rs @ buildNaf_loop scalar scalarSize (i + 1) last' carry k)"

definition buildNaf :: "bytes \<Rightarrow> nat \<Rightarrow> u8 list" where
  "buildNaf scalar scalarSize = buildNaf_loop scalar scalarSize 0 (bit (scalar ! 0) 0) False (scalarSize + 2)"

subsection \<open>Double and add\<close>

text \<open>\<open>addb\<close> and \<open>subb\<close> are the group's operations for the type of the base.\<close>

fun skip_zeros :: "u8 list \<Rightarrow> nat \<Rightarrow> nat" where
  "skip_zeros naf 0 = 0"
| "skip_zeros naf (Suc i) = (if naf ! i = 0 then skip_zeros naf i else Suc i)"

fun nafMul_loop :: "('p, 'a) curve_ops \<Rightarrow> ('p \<Rightarrow> 'b \<Rightarrow> 'p) \<Rightarrow> ('p \<Rightarrow> 'b \<Rightarrow> 'p) \<Rightarrow> u8 list \<Rightarrow> 'b \<Rightarrow> nat \<Rightarrow> 'p \<Rightarrow> 'p" where
  "nafMul_loop G addb subb naf baseCopy 0 r = r"
| "nafMul_loop G addb subb naf baseCopy (Suc i) r =
     (let r = g_dbl G r;
          r = (if naf ! i = 1 then addb r baseCopy else if naf ! i = 2 then subb r baseCopy else r)
      in nafMul_loop G addb subb naf baseCopy i r)"

definition nafMulByScalar :: "('p, 'a) curve_ops \<Rightarrow> ('p \<Rightarrow> 'b \<Rightarrow> 'p) \<Rightarrow> ('p \<Rightarrow> 'b \<Rightarrow> 'p) \<Rightarrow> 'b \<Rightarrow> bytes \<Rightarrow> nat \<Rightarrow> 'p" where
  "nafMulByScalar G addb subb base' scalar scalarSize =
     (let nBits = scalarSize * 8 + 2;
          naf = buildNaf scalar scalarSize;
          i = skip_zeros naf nBits
      in nafMul_loop G addb subb naf base' i (g_zero G))"

definition mulByScalar :: "('p, 'a) curve_ops \<Rightarrow> 'p \<Rightarrow> bytes \<Rightarrow> nat \<Rightarrow> 'p" where
  "mulByScalar G base' scalar scalarSize = nafMulByScalar G (g_add G) (g_sub G) base' scalar scalarSize"

definition mulByScalarA :: "('p, 'a) curve_ops \<Rightarrow> 'a \<Rightarrow> bytes \<Rightarrow> nat \<Rightarrow> 'p" where
  "mulByScalarA G base' scalar scalarSize = nafMulByScalar G (g_addA G) (g_subA G) base' scalar scalarSize"

subsection \<open>Sums of products\<close>

definition calcChunkCount :: "u64 \<Rightarrow> u64 \<Rightarrow> u64" where
  "calcChunkCount scalarSize bitsPerChunk = (scalarSize * 8 - 1) div bitsPerChunk + 1"

definition calcAddsCount :: "u64 \<Rightarrow> u64 \<Rightarrow> u64 \<Rightarrow> u64" where
  "calcAddsCount nPoints scalarSize bitsPerChunk =
     calcChunkCount scalarSize bitsPerChunk * (nPoints + push_bit (unat bitsPerChunk) 1 + bitsPerChunk + 1)"

fun bits_loop :: "u64 \<Rightarrow> u64 \<Rightarrow> nat list \<Rightarrow> u64 \<Rightarrow> u64 \<Rightarrow> u64" where
  "bits_loop n scalarSize [] bitsPerChunk minAdds = bitsPerChunk"
| "bits_loop n scalarSize (k # ks) bitsPerChunk minAdds =
     (let curAdds = calcAddsCount n scalarSize (of_nat k)
      in if curAdds < minAdds then bits_loop n scalarSize ks (of_nat k) curAdds
         else bits_loop n scalarSize ks bitsPerChunk minAdds)"

definition calcBitsPerChunk :: "u64 \<Rightarrow> u64 \<Rightarrow> u64" where
  "calcBitsPerChunk n scalarSize = bits_loop n scalarSize [4..<17] 3 (calcAddsCount n scalarSize 3)"

definition calcBucketCount :: "u64 \<Rightarrow> u64" where
  "calcBucketCount bitsPerChunk = push_bit (unat (bitsPerChunk - 1)) 1"

definition getBucketIndex :: "bytes \<Rightarrow> u64 \<Rightarrow> u64 \<Rightarrow> u64 \<Rightarrow> u64 \<Rightarrow> u64" where
  "getBucketIndex scalars scalarSize bitsPerChunk scalarIdx chunkIdx =
     (let bitStart = chunkIdx * bitsPerChunk;
          byteStart = bitStart div 8;
          byteStart = (if byteStart > scalarSize - 8 then scalarSize - 8 else byteStart);
          efectiveBitsPerChunk = (if bitStart + bitsPerChunk > scalarSize * 8 then scalarSize * 8 - bitStart else bitsPerChunk);
          shift = bitStart - byteStart * 8;
          v = rd64 (drop (unat (scalarIdx * scalarSize + byteStart)) scalars);
          v = drop_bit (unat shift) v
      in v AND (push_bit (unat efectiveBitsPerChunk) 1 - 1))"

text \<open>The digits of a scalar in its chunks; the last carry is dropped.\<close>

fun slice_loop :: "bytes \<Rightarrow> u64 \<Rightarrow> u64 \<Rightarrow> nat \<Rightarrow> nat \<Rightarrow> int \<Rightarrow> nat \<Rightarrow> int list" where
  "slice_loop scalars scalarSize bitsPerChunk i j carry 0 = []"
| "slice_loop scalars scalarSize bitsPerChunk i j carry (Suc k) =
     (let nBuckets = uint (calcBucketCount bitsPerChunk);
          bucketIndex = uint (getBucketIndex scalars scalarSize bitsPerChunk (of_nat i) (of_nat j)) + carry;
          (bucketIndex, carry) =
            (if bucketIndex \<ge> nBuckets then (bucketIndex - nBuckets * 2, 1) else (bucketIndex, 0))
      in bucketIndex # slice_loop scalars scalarSize bitsPerChunk i (j + 1) carry k)"

text \<open>The buckets of a chunk; every thread has its own, and every chunk starts from zeros.\<close>

definition bucket_step :: "('p, 'a) curve_ops \<Rightarrow> 'a list \<Rightarrow> int list list \<Rightarrow> nat \<Rightarrow> nat \<Rightarrow> 'p list \<Rightarrow> 'p list" where
  "bucket_step G bases slicedScalars j i buckets =
     (let bucketIndex = slicedScalars ! i ! j
      in if bucketIndex > 0
         then let b = nat (bucketIndex - 1) in buckets[b := g_addA G (buckets ! b) (bases ! i)]
         else if bucketIndex < 0
         then let b = nat (- bucketIndex - 1) in buckets[b := g_subA G (buckets ! b) (bases ! i)]
         else buckets)"

fun bucket_sum :: "('p, 'a) curve_ops \<Rightarrow> 'p list \<Rightarrow> nat \<Rightarrow> 'p \<Rightarrow> 'p \<Rightarrow> 'p" where
  "bucket_sum G buckets 0 t tmp = t"
| "bucket_sum G buckets (Suc i) t tmp =
     (let tmp = g_add G tmp (buckets ! i); t = g_add G t tmp in bucket_sum G buckets i t tmp)"

definition chunk_value :: "('p, 'a) curve_ops \<Rightarrow> 'a list \<Rightarrow> int list list \<Rightarrow> nat \<Rightarrow> nat \<Rightarrow> nat \<Rightarrow> 'p" where
  "chunk_value G bases slicedScalars nBuckets nPoints j =
     (let buckets = replicate nBuckets (g_zero G);
          buckets = foldl (\<lambda>buckets i. bucket_step G bases slicedScalars j i buckets) buckets [0..<nPoints];
          t = buckets ! (nBuckets - 1);
          tmp = t
      in bucket_sum G buckets (nBuckets - 1) t tmp)"

fun combine_chunks :: "('p, 'a) curve_ops \<Rightarrow> 'p list \<Rightarrow> nat \<Rightarrow> nat \<Rightarrow> 'p \<Rightarrow> 'p" where
  "combine_chunks G chunks' bitsPerChunk 0 r = r"
| "combine_chunks G chunks' bitsPerChunk (Suc j) r =
     combine_chunks G chunks' bitsPerChunk j (g_add G ((g_dbl G ^^ bitsPerChunk) r) (chunks' ! j))"

definition multiMulByScalarMSM :: "('p, 'a) curve_ops \<Rightarrow> (nat list list \<Rightarrow> nat list) \<Rightarrow> nat \<Rightarrow> 'a list \<Rightarrow> bytes \<Rightarrow>
    u64 \<Rightarrow> u64 \<Rightarrow> 'p" where
  "multiMulByScalarMSM G il nThreads bases scalars scalarSize n =
     (let bitsPerChunk = calcBitsPerChunk n scalarSize; nPoints = unat n
      in if nPoints = 0 then g_zero G
         else if nPoints = 1 then mulByScalarA G (bases ! 0) scalars (unat scalarSize)
         else let nChunks = unat (calcChunkCount scalarSize bitsPerChunk);
                  nBuckets = unat (calcBucketCount bitsPerChunk);
                  slicedScalars = parallelFor il nThreads 0 nPoints
                    (\<lambda>i rows. rows[i := slice_loop scalars scalarSize bitsPerChunk i 0 0 nChunks]) (replicate nPoints []);
                  chunks' = parallelFor il nThreads 0 nChunks
                    (\<lambda>j chunks'. chunks'[j := chunk_value G bases slicedScalars nBuckets nPoints j])
                    (replicate nChunks (g_zero G))
              in combine_chunks G chunks' (unat bitsPerChunk) (nChunks - 1) (chunks' ! (nChunks - 1)))"

subsection \<open>The value of the digits\<close>

definition dv :: "u8 \<Rightarrow> int" where
  "dv d = (if d = 1 then 1 else if d = 2 then - 1 else 0)"

fun nval :: "u8 list \<Rightarrow> int" where
  "nval [] = 0"
| "nval (d # ds) = dv d + 2 * nval ds"

lemma nval_append: "nval (xs @ ys) = nval xs + 2 ^ length xs * nval ys"
  by (induction xs) (simp_all add: algebra_simps)

abbreviation pend :: "bool \<Rightarrow> bool \<Rightarrow> int" where
  "pend l c \<equiv> of_bool l + 2 * of_bool c"

lemma naf_digit_val:
  "naf_digit l c cur = (l', c', d) \<Longrightarrow>
     pend l c + 2 * of_bool cur = dv d + 2 * pend l' c' \<and> d \<in> {0, 1, 2} \<and> \<not> (l' \<and> c')"
  by (auto simp: naf_digit_def dv_def split: if_splits)

lemma naf_loop_val:
  "naf_loop num i l c k = (l', c', ds) \<Longrightarrow>
     length ds = k \<and> set ds \<subseteq> {0, 1, 2} \<and> (k = 0 \<or> \<not> (l' \<and> c')) \<and>
     pend l c + 2 * int ((num div 2 ^ (i + 1)) mod 2 ^ k) = nval ds + 2 ^ k * pend l' c'"
proof (induction k arbitrary: i l c l' c' ds)
  case (Suc k)
  let ?M = "num div 2 ^ (i + 1)"
  obtain l1 c1 d where d: "naf_digit l c (bit num (i + 1)) = (l1, c1, d)" by (metis prod_cases3)
  obtain l2 c2 es where e: "naf_loop num (i + 1) l1 c1 k = (l2, c2, es)" by (metis prod_cases3)
  have r: "l' = l2" "c' = c2" "ds = d # es" using Suc.prems d e by (simp_all add: Let_def)
  note IH = Suc.IH [OF e]
  have b: "(of_bool (bit num (i + 1)) :: int) = int (?M mod 2)" by (simp add: bit_iff_odd odd_iff_mod_2_eq_one)
  have "num div 2 ^ (i + 1 + 1) = ?M div 2" by (simp only: power_add power_one_right div_mult2_eq)
  moreover have "?M mod 2 ^ Suc k = ?M mod 2 + 2 * (?M div 2 mod 2 ^ k)" by (simp only: power_Suc mod_mult2_eq)
  ultimately have m: "int (?M mod 2 ^ Suc k) = of_bool (bit num (i + 1)) + 2 * int ((num div 2 ^ (i + 1 + 1)) mod 2 ^ k)"
    using b by simp
  have "k = 0 \<or> \<not> (l2 \<and> c2)" "\<not> (l1 \<and> c1)" using IH naf_digit_val [OF d] by blast+
  moreover have "k = 0 \<Longrightarrow> l2 = l1 \<and> c2 = c1" using e by simp
  ultimately have nlc: "\<not> (l2 \<and> c2)" by blast
  have "pend l c + 2 * int (?M mod 2 ^ Suc k) = nval ds + 2 ^ Suc k * pend l' c'"
    using naf_digit_val [OF d] IH unfolding m r by simp
  then show ?case using IH naf_digit_val [OF d] nlc r by simp
qed simp

text \<open>An entry of the table, read back as \<open>buildNaf\<close> does.\<close>

lemma digit_bits:
  assumes "d \<in> {0, 1, 2 :: u8}"
  shows "(d OR 4) AND 3 = d" "(d OR 8) AND 3 = d" "(d OR 4 OR 8) AND 3 = d" "d AND 3 = d" "d AND 4 = 0" "d AND 8 = 0"
    "(d OR 4) AND 4 \<noteq> 0" "(d OR 4) AND 8 = 0" "(d OR 8) AND 4 = 0" "(d OR 8) AND 8 \<noteq> 0"
    "(d OR 4 OR 8) AND 4 \<noteq> 0" "(d OR 4 OR 8) AND 8 \<noteq> 0"
  using assms by auto

lemma NAFTable_val:
  assumes "naf_loop num 0 (bit num 0) (bit num 9) 8 = (l', c', ds)"
  shows "map (\<lambda>b. b AND 3) (NAFTable num) = ds" "NAFTable num ! 0 AND 4 \<noteq> 0 \<longleftrightarrow> c'" "NAFTable num ! 0 AND 8 \<noteq> 0 \<longleftrightarrow> l'"
proof -
  have ds: "length ds = 8" "set ds \<subseteq> {0, 1, 2}" using naf_loop_val [OF assms] by auto
  then obtain d es where d: "ds = d # es" "d \<in> {0, 1, 2}" "set es \<subseteq> {0, 1, 2}" by (cases ds) auto
  have es: "map (\<lambda>b. b AND 3) es = es" using d(3) digit_bits(4) by (intro map_idI) blast
  have t: "NAFTable num = (if l' then if c' then d OR 4 OR 8 else d OR 8 else if c' then d OR 4 else d) # es"
    using assms d(1) by (auto simp: NAFTable_def or.assoc)
  show "map (\<lambda>b. b AND 3) (NAFTable num) = ds" "NAFTable num ! 0 AND 4 \<noteq> 0 \<longleftrightarrow> c'" "NAFTable num ! 0 AND 8 \<noteq> 0 \<longleftrightarrow> l'"
    unfolding t using digit_bits [OF d(2)] es d(1) by (auto simp: or.assoc)
qed

definition naf_rest :: "bytes \<Rightarrow> nat \<Rightarrow> bool \<Rightarrow> bool \<Rightarrow> int" where
  "naf_rest scalar i l c = pend l c + 2 * int (le_nat scalar div 2 ^ (8 * i + 1))"

lemma unat_u8: "unat (b :: u8) < 256"
  using unsigned_less [of b] by simp

lemma le_nat_byte: "i < length s \<Longrightarrow> le_nat s div 2 ^ (8 * i) mod 256 = unat (s ! i)"
proof (induction s arbitrary: i)
  case (Cons b s)
  show ?case
  proof (cases i)
    case (Suc j)
    have "le_nat (b # s) div 2 ^ (8 * i) = le_nat (b # s) div 256 div 2 ^ (8 * j)"
      by (simp add: Suc power_add div_mult2_eq)
    also have "le_nat (b # s) div 256 = le_nat s" using unat_u8 [of b] by simp
    finally show ?thesis using Cons Suc by simp
  qed (simp add: unat_u8)
qed simp

text \<open>The index that \<open>buildNaf\<close> looks up, from the bits of the scalar.\<close>

lemma table_index:
  fixes x y :: nat
  assumes "st = of_bool l + 2 * x + 256 * y + 512 * of_bool c" "x < 128" "y < 2"
  shows "bit st 0 = l" "bit st 9 = c" "(st div 2 ^ (0 + 1)) mod 2 ^ 8 = x + 128 * y"
proof -
  have "st div 2 = x + 128 * y + 256 * of_bool c" using assms(1) by (cases l) simp_all
  then show "(st div 2 ^ (0 + 1)) mod 2 ^ 8 = x + 128 * y" using assms(2,3) by simp
  show "bit st 0 = l" using assms(1) by (cases l) (simp_all add: bit_0)
  have "of_bool l + 2 * x + 256 * y < 512" using assms(2,3) by (cases l) simp_all
  then have "st div 512 = of_bool c" using assms(1) by (cases c) simp_all
  then show "bit st 9 = c" by (simp add: bit_iff_odd)
qed

lemma and_masks: "unat (b AND 0xFE) = 2 * (unat b div 2)" "unat (b AND 1) = unat b mod 2" for b :: u8
proof -
  show "unat (b AND 1) = unat b mod 2" by (simp add: and_one_eq unat_mod)
  have "unat b AND 0xFE = 2 * (unat b div 2)"
  proof (rule bit_eqI)
    fix n
    have f: "bit (0xFE :: nat) n \<longleftrightarrow> 1 \<le> n \<and> n < 8"
    proof -
      have "(0xFE :: nat) = push_bit 1 (mask 7)" by (simp add: mask_eq_exp_minus_1)
      then show ?thesis by (simp only: bit_push_bit_iff bit_mask_iff) auto
    qed
    have "\<not> bit (unat b) n" if "8 \<le> n" using that bit_imp_le_length [of b n] by (auto simp: bit_unsigned_iff)
    moreover have "bit (2 * (unat b div 2)) n \<longleftrightarrow> 1 \<le> n \<and> bit (unat b) n"
      by (cases n) (simp_all add: bit_0 bit_Suc)
    ultimately show "bit (unat b AND 0xFE) n \<longleftrightarrow> bit (2 * (unat b div 2)) n"
      unfolding bit_and_iff f by (meson linorder_not_le)
  qed
  then show "unat (b AND 0xFE) = 2 * (unat b div 2)" by (simp add: unsigned_and_eq)
qed

lemma byte_window:
  assumes "i < length s"
  defines "b \<equiv> \<lambda>j. if j < length s then unat (s ! j) else 0"
  shows "(le_nat s div 2 ^ (8 * i + 1)) mod 2 ^ 8 = b i div 2 + 128 * (b (i + 1) mod 2)"
proof -
  let ?n = "le_nat s div 2 ^ (8 * i)"
  have b0: "?n mod 256 = b i" using le_nat_byte [OF assms(1)] assms(1) by (simp add: b_def)
  have "?n div 256 mod 256 = b (i + 1)"
  proof (cases "i + 1 < length s")
    case True
    have "?n div 256 = le_nat s div 2 ^ (8 * (i + 1))" by (simp add: power_add mult.commute flip: div_mult2_eq)
    then show ?thesis using le_nat_byte [OF True] True by (simp add: b_def)
  next
    case False
    then have "length s = i + 1" using assms(1) by simp
    then have "le_nat s < 256 ^ (i + 1)" using le_nat_less [of s] by simp
    then have "le_nat s < 2 ^ (8 * i) * 256" by (simp add: power_mult)
    then have "?n < 256" by (simp add: less_mult_imp_div_less mult.commute)
    then show ?thesis using False by (simp add: b_def)
  qed
  then have y: "?n div 256 mod 2 = b (i + 1) mod 2" using mod_mod_cancel [of 2 256 "?n div 256"] by simp
  have "?n mod 2 = b i mod 2" using b0 mod_mod_cancel [of 2 256 ?n] by simp
  moreover have "2 * (?n div 2 mod 256) + ?n mod 2 = 256 * (?n div 256 mod 2) + ?n mod 256"
    using mod_mult2_eq [of ?n 2 256] mod_mult2_eq [of ?n 256 2] by simp
  ultimately have "2 * (?n div 2 mod 256) + b i mod 2 = 256 * (b (i + 1) mod 2) + b i" unfolding y b0 by simp
  then have "?n div 2 mod 256 = b i div 2 + 128 * (b (i + 1) mod 2)" using div_mult_mod_eq [of "b i" 2] by linarith
  moreover have "le_nat s div 2 ^ (8 * i + 1) = ?n div 2" by (simp only: power_add power_one_right div_mult2_eq)
  ultimately show ?thesis by simp
qed

text \<open>The bytes of the scalar give its digits; the rest is what the later bytes and the state hold.\<close>

lemma buildNaf_step:
  assumes i: "i < length s" and st: "naf_rest s i l c = v"
  obtains l' c' ds where
    "buildNaf_loop s (length s) i l c (Suc k) = ds @ buildNaf_loop s (length s) (i + 1) l' c' k"
    "length ds = 8" "\<not> (l' \<and> c')" "v = nval ds + 256 * naf_rest s (i + 1) l' c'"
proof -
  let ?b = "\<lambda>j. if j < length s then unat (s ! j) else 0"
  let ?x = "?b i div 2" and ?y = "?b (i + 1) mod 2"
  define n where "n = of_bool l + 2 * ?x + 256 * ?y + 512 * of_bool c"
  have n: "bit n 0 = l" "bit n 9 = c" "(n div 2 ^ (0 + 1)) mod 2 ^ 8 = ?x + 128 * ?y"
    by (rule table_index [OF n_def]; use unat_u8 [of "s ! i"] in auto)+
  obtain l' c' ds where t: "naf_loop n 0 (bit n 0) (bit n 9) 8 = (l', c', ds)" by (metis prod_cases3)
  note T = NAFTable_val [OF t] and V = naf_loop_val [OF t]
  have "buildNaf_loop s (length s) i l c (Suc k) =
      map (\<lambda>b. b AND 3) (NAFTable n) @ buildNaf_loop s (length s) (i + 1) (NAFTable n ! 0 AND 8 \<noteq> 0) (NAFTable n ! 0 AND 4 \<noteq> 0) k"
  proof -
    have "n = (let st = (if l then 1 else 0);
          st = (if i < length s then st + unat (s ! i AND 0xFE) else st);
          st = (if i + 1 < length s then st + push_bit 8 (unat (s ! (i + 1) AND 1)) else st)
        in if c then st + 0x200 else st)"
      using i by (simp add: n_def and_masks push_bit_eq_mult Let_def)
    then show ?thesis by (simp add: Let_def)
  qed
  then have run: "buildNaf_loop s (length s) i l c (Suc k) = ds @ buildNaf_loop s (length s) (i + 1) l' c' k"
    unfolding T .
  have m: "(le_nat s div 2 ^ (8 * i + 1)) mod 2 ^ 8 = ?x + 128 * ?y" by (rule byte_window [OF i])
  let ?r = "le_nat s div 2 ^ (8 * i + 1)"
  have d: "le_nat s div 2 ^ (8 * (i + 1) + 1) = ?r div 2 ^ 8" by (simp add: power_add flip: div_mult2_eq)
  have "int ?r = int (?r mod 2 ^ 8) + 256 * int (?r div 2 ^ 8)"
    using arg_cong [OF mod_mult_div_eq [of ?r "2 ^ 8"], of int] by (simp only: of_nat_add of_nat_mult) simp
  then have "v = pend l c + 2 * int (?r mod 2 ^ 8) + 2 * (256 * int (?r div 2 ^ 8))"
    using st by (simp add: naf_rest_def)
  then have "v = nval ds + 256 * naf_rest s (i + 1) l' c'"
    using V unfolding n m naf_rest_def d by simp
  then show ?thesis using that run V by auto
qed

lemma buildNaf_prefix:
  assumes "i + k \<le> length s" "naf_rest s i l c = v" "\<not> (l \<and> c)"
  obtains l' c' ds where
    "buildNaf_loop s (length s) i l c (k + m) = ds @ buildNaf_loop s (length s) (i + k) l' c' m"
    "length ds = 8 * k" "\<not> (l' \<and> c')" "v = nval ds + 2 ^ (8 * k) * naf_rest s (i + k) l' c'"
  using assms
proof (induction k arbitrary: i l c v thesis)
  case 0
  show ?case by (rule 0(1) [of "[]" l c]) (use 0 in simp_all)
next
  case (Suc k)
  have i: "i < length s" using Suc.prems(2) by simp
  obtain l1 c1 d where s1: "buildNaf_loop s (length s) i l c (Suc (k + m)) = d @ buildNaf_loop s (length s) (i + 1) l1 c1 (k + m)"
    "length d = 8" "\<not> (l1 \<and> c1)" "v = nval d + 256 * naf_rest s (i + 1) l1 c1"
    by (rule buildNaf_step [OF i Suc.prems(3)])
  have ik: "i + 1 + k \<le> length s" using Suc.prems(2) by simp
  obtain l2 c2 ds where s2: "buildNaf_loop s (length s) (i + 1) l1 c1 (k + m) = ds @ buildNaf_loop s (length s) (i + 1 + k) l2 c2 m"
    "length ds = 8 * k" "\<not> (l2 \<and> c2)"
    "naf_rest s (i + 1) l1 c1 = nval ds + 2 ^ (8 * k) * naf_rest s (i + 1 + k) l2 c2"
    by (rule Suc.IH [OF _ ik refl s1(3)])
  have i2: "i + 1 + k = i + Suc k" by simp
  show ?case
  proof (rule Suc.prems(1))
    show "buildNaf_loop s (length s) i l c (Suc k + m) = (d @ ds) @ buildNaf_loop s (length s) (i + Suc k) l2 c2 m"
      using s1(1) s2(1) unfolding i2 by simp
    show "v = nval (d @ ds) + 2 ^ (8 * Suc k) * naf_rest s (i + Suc k) l2 c2"
      using s1(2,4) s2(4) unfolding i2 by (simp add: nval_append power_add algebra_simps)
  qed (use s1(2) s2(2,3) in simp_all)
qed

lemma NAFTable_entries:
  "NAFTable 0 = [0, 0, 0, 0, 0, 0, 0, 0]" "NAFTable (Suc 0) = [1, 0, 0, 0, 0, 0, 0, 0]"
  "NAFTable 512 = [0, 1, 0, 0, 0, 0, 0, 0]"
  by code_simp+

text \<open>The first \<open>8 * n + 2\<close> digits carry the whole value of a scalar of \<open>n\<close> bytes.\<close>

lemma buildNaf_val:
  assumes "0 < length s"
  shows "nval (take (length s * 8 + 2) (buildNaf s (length s))) = int (le_nat s) \<and>
    length s * 8 + 2 \<le> length (buildNaf s (length s))"
proof -
  have N0: "naf_rest s 0 (bit (s ! 0) 0) False = int (le_nat s)"
  proof -
    have "le_nat s mod 2 = unat (s ! 0) mod 2"
      using le_nat_byte [OF assms] mod_mod_cancel [of 2 256 "le_nat s"] by simp
    moreover have "bit (s ! 0) 0 \<longleftrightarrow> odd (unat (s ! 0))"
      using bit_unsigned_iff [of "s ! 0" 0, where ?'a = nat] by (simp only: bit_0 possible_bit_nat simp_thms)
    then have "(of_bool (bit (s ! 0) 0) :: int) = int (unat (s ! 0) mod 2)"
      by (simp only: odd_iff_mod_2_eq_one) simp
    ultimately have "of_bool (bit (s ! 0) 0) = int (le_nat s mod 2)" by simp
    then show ?thesis unfolding naf_rest_def using arg_cong [OF mod_mult_div_eq [of "le_nat s" 2], of int]
      by (simp only: of_nat_add of_nat_mult) simp
  qed
  have g: "0 + length s \<le> length s" "\<not> (bit (s ! 0) 0 \<and> False)" by simp_all
  obtain l c ds where p: "buildNaf_loop s (length s) 0 (bit (s ! 0) 0) False (length s + 2) = ds @ buildNaf_loop s (length s) (0 + length s) l c 2"
    "length ds = 8 * length s" "\<not> (l \<and> c)" "int (le_nat s) = nval ds + 2 ^ (8 * length s) * naf_rest s (0 + length s) l c"
    by (rule buildNaf_prefix [OF g(1) N0 g(2)])
  have "le_nat s div 2 ^ (8 * length s + 1) = 0"
    using le_nat_less [of s] by (simp add: power_mult)
  then have rest: "naf_rest s (0 + length s) l c = pend l c" by (simp add: naf_rest_def)
  consider "\<not> l" "\<not> c" | "l" "\<not> c" | "\<not> l" "c" using p(3) by blast
  then obtain d es where e: "buildNaf_loop s (length s) (length s) l c 2 = d @ es" "length d = 2" "nval d = pend l c"
    "length es = 14"
  proof cases
    case 1
    then show ?thesis
      by (intro that [of "[0, 0]" "[0, 0, 0, 0, 0, 0, 0, 0, 0, 0, 0, 0, 0, 0]"]) (simp_all add: NAFTable_entries numeral_eq_Suc [of "Num.Bit0 Num.One"] dv_def)
  next
    case 2
    then show ?thesis
      by (intro that [of "[1, 0]" "[0, 0, 0, 0, 0, 0, 0, 0, 0, 0, 0, 0, 0, 0]"]) (simp_all add: NAFTable_entries numeral_eq_Suc [of "Num.Bit0 Num.One"] dv_def)
  next
    case 3
    then show ?thesis
      by (intro that [of "[0, 1]" "[0, 0, 0, 0, 0, 0, 0, 0, 0, 0, 0, 0, 0, 0]"]) (simp_all add: NAFTable_entries numeral_eq_Suc [of "Num.Bit0 Num.One"] dv_def)
  qed
  have b: "buildNaf s (length s) = ds @ d @ es" using p(1) e(1) by (simp add: buildNaf_def)
  have "take (length s * 8 + 2) (ds @ d @ es) = ds @ d" using p(2) e(2) by simp
  then show ?thesis unfolding b using p(2,4) e rest by (simp add: nval_append)
qed

subsection \<open>The laws of the group\<close>

text \<open>\<open>gp p k\<close>: the point \<open>p\<close> is \<open>k\<close> times the generator, of order \<open>q\<close>; \<open>ga\<close> for affine points.\<close>

locale curve_vals =
  fixes G :: "('p, 'a) curve_ops" and gp :: "'p \<Rightarrow> int \<Rightarrow> bool" and ga :: "'a \<Rightarrow> int \<Rightarrow> bool" and q :: int
  assumes gp_zero: "gp (g_zero G) 0"
    and gp_add: "gp a u \<Longrightarrow> gp b v \<Longrightarrow> gp (g_add G a b) (u + v)"
    and gp_addA: "gp a u \<Longrightarrow> ga c v \<Longrightarrow> gp (g_addA G a c) (u + v)"
    and gp_sub: "gp a u \<Longrightarrow> gp b v \<Longrightarrow> gp (g_sub G a b) (u - v)"
    and gp_subA: "gp a u \<Longrightarrow> ga c v \<Longrightarrow> gp (g_subA G a c) (u - v)"
    and gp_dbl: "gp a u \<Longrightarrow> gp (g_dbl G a) (2 * u)"
    and gp_neg: "gp a u \<Longrightarrow> gp (g_neg G a) (- u)"
    and gp_negA: "ga c v \<Longrightarrow> v mod q \<noteq> 0 \<Longrightarrow> gp (g_negA G c) (- v)"
    and gp_fromAffine: "ga c v \<Longrightarrow> gp (g_fromAffine G c) v"
    and ga_toAffine: "gp a u \<Longrightarrow> ga (g_toAffine G a) u"
    and gp_cong: "gp a u \<Longrightarrow> u mod q = v mod q \<Longrightarrow> gp a v"
begin

lemma nval_take_Suc: "i < length ds \<Longrightarrow> nval (take (Suc i) ds) = nval (take i ds) + 2 ^ i * dv (ds ! i)"
  by (simp add: take_Suc_conv_app_nth nval_append)

lemma nafMul_loop_val:
  assumes "\<And>r v. gp r v \<Longrightarrow> gp (addb r b) (v + k)" "\<And>r v. gp r v \<Longrightarrow> gp (subb r b) (v - k)"
  shows "i \<le> length naf \<Longrightarrow> gp r v \<Longrightarrow> gp (nafMul_loop G addb subb naf b i r) (2 ^ i * v + nval (take i naf) * k)"
proof (induction i arbitrary: r v)
  case (Suc i)
  let ?r = "if naf ! i = 1 then addb (g_dbl G r) b else if naf ! i = 2 then subb (g_dbl G r) b else g_dbl G r"
  have "gp ?r (2 * v + dv (naf ! i) * k)"
    using gp_dbl [OF Suc.prems(2)] assms by (auto simp: dv_def)
  from Suc.IH [OF _ this] Suc.prems(1)
  have "gp (nafMul_loop G addb subb naf b i ?r) (2 ^ i * (2 * v + dv (naf ! i) * k) + nval (take i naf) * k)" by simp
  moreover have "2 ^ i * (2 * v + dv (naf ! i) * k) + nval (take i naf) * k = 2 ^ Suc i * v + nval (take (Suc i) naf) * k"
    using Suc.prems(1) by (simp add: nval_take_Suc algebra_simps)
  ultimately show ?case by (simp add: Let_def)
qed simp

lemma skip_zeros_val: "n \<le> length naf \<Longrightarrow> skip_zeros naf n \<le> n \<and> nval (take (skip_zeros naf n) naf) = nval (take n naf)"
  by (induction n) (auto simp: nval_take_Suc dv_def)

lemma nafMulByScalar_val:
  assumes "\<And>r v. gp r v \<Longrightarrow> gp (addb r b) (v + k)" "\<And>r v. gp r v \<Longrightarrow> gp (subb r b) (v - k)" "0 < length s"
  shows "gp (nafMulByScalar G addb subb b s (length s)) (int (le_nat s) * k)"
proof -
  let ?naf = "buildNaf s (length s)" and ?n = "length s * 8 + 2"
  let ?i = "skip_zeros ?naf ?n"
  note v = buildNaf_val [OF assms(3)]
  have z: "?i \<le> ?n" "nval (take ?i ?naf) = int (le_nat s)" using skip_zeros_val [of ?n ?naf] v by auto
  have "?i \<le> length ?naf" using z(1) v by linarith
  then have "gp (nafMul_loop G addb subb ?naf b ?i (g_zero G)) (2 ^ ?i * 0 + nval (take ?i ?naf) * k)"
    by (rule nafMul_loop_val [where addb = addb and subb = subb, rotated 2]) (fact gp_zero assms)+
  then show ?thesis unfolding z(2) nafMulByScalar_def Let_def by simp
qed

lemma mulByScalar_val: "gp p k \<Longrightarrow> 0 < length s \<Longrightarrow> gp (mulByScalar G p s (length s)) (int (le_nat s) * k)"
  unfolding mulByScalar_def by (rule nafMulByScalar_val) (auto intro: gp_add gp_sub)

lemma mulByScalarA_val: "ga p k \<Longrightarrow> 0 < length s \<Longrightarrow> gp (mulByScalarA G p s (length s)) (int (le_nat s) * k)"
  unfolding mulByScalarA_def by (rule nafMulByScalar_val) (auto intro: gp_addA gp_subA)

end

subsection \<open>The chunks of a scalar\<close>

lemma bits_loop_range: "3 \<le> unat b \<Longrightarrow> unat b \<le> 16 \<Longrightarrow> set ks \<subseteq> {3..16} \<Longrightarrow>
    3 \<le> unat (bits_loop n s ks b m) \<and> unat (bits_loop n s ks b m) \<le> 16"
proof (induction ks arbitrary: b m)
  case (Cons k ks)
  have "unat (of_nat k :: u64) = k" using Cons.prems(3) by (simp add: unat_of_nat)
  then show ?case using Cons.IH [of b] Cons.IH [of "of_nat k"] Cons.prems by (simp add: Let_def)
qed simp

lemma bitsPerChunk_range: "3 \<le> unat (calcBitsPerChunk n s)" "unat (calcBitsPerChunk n s) \<le> 16"
  using bits_loop_range [of 3 "[4..<17]" n s] unfolding calcBitsPerChunk_def by auto

lemma le_nat_append: "le_nat (xs @ ys) = le_nat xs + 256 ^ length xs * le_nat ys"
  by (induction xs) (simp_all add: algebra_simps)

lemma le_nat_window:
  assumes "b + n \<le> length s"
  shows "le_nat (take n (drop b s)) = take_bit (8 * n) (drop_bit (8 * b) (le_nat s))"
proof -
  have "s = take b s @ take n (drop b s) @ drop (b + n) s" by (metis append_take_drop_id drop_drop add.commute)
  then have e: "le_nat s = le_nat (take b s) + 256 ^ b * (le_nat (take n (drop b s)) + 256 ^ n * le_nat (drop (b + n) s))"
    using le_nat_append [of "take b s"] le_nat_append [of "take n (drop b s)"] assms by (metis length_take length_drop min.absorb2 add_leD1 le_diff_conv2 add.commute)
  have "le_nat (take b s) < 256 ^ b" "le_nat (take n (drop b s)) < 256 ^ n"
    using le_nat_less [of "take b s"] le_nat_less [of "take n (drop b s)"] assms by simp_all
  then show ?thesis unfolding e by (simp add: take_bit_eq_mod drop_bit_eq_div power_mult)
qed

lemma unat_ops:
  fixes x y :: u64
  shows "unat x * unat y < 2 ^ 64 \<Longrightarrow> unat (x * y) = unat x * unat y"
    and "unat x + unat y < 2 ^ 64 \<Longrightarrow> unat (x + y) = unat x + unat y"
    and "unat y \<le> unat x \<Longrightarrow> unat (x - y) = unat x - unat y"
    and "k < 2 ^ 64 \<Longrightarrow> unat (of_nat k :: u64) = k"
  using unat_mult_lem [of x y] unat_add_lem [of x y]
  by (simp_all add: unat_sub word_le_nat_alt unat_of_nat)

definition scalar_at :: "bytes \<Rightarrow> nat \<Rightarrow> nat \<Rightarrow> nat" where
  "scalar_at scalars S i = le_nat (take S (drop (i * S) scalars))"

lemma getBucketIndex_val:
  fixes sz B :: u64
  defines "S \<equiv> unat sz" and "c \<equiv> unat B"
  assumes S: "8 \<le> S" "S < 2 ^ 28" and c: "3 \<le> c" "c \<le> 16" and i: "i < 2 ^ 31" "i * S + S \<le> length scalars"
    and j: "j * c < 8 * S"
  shows "unat (getBucketIndex scalars sz B (of_nat i) (of_nat j)) =
    take_bit (min c (8 * S - j * c)) (drop_bit (j * c) (scalar_at scalars S i))"
proof -
  let ?b = "min (j * c div 8) (S - 8)" and ?e = "min c (8 * S - j * c)"
  have S35: "8 * S < 2 ^ 31" using S(2) by simp
  have jc: "j \<le> j * c" using c(1) by (cases c) simp_all
  have "j < 2 ^ 31" using j jc S35 by linarith
  then have wj: "unat (of_nat j :: u64) = j" by (intro unat_ops(4)) simp
  have bitStart: "unat (of_nat j * B) = j * c" using j S35 by (subst unat_ops(1)) (simp_all add: wj c_def)
  have s8: "unat (sz - 8) = S - 8" using S(1) by (subst unat_ops(3)) (simp_all add: S_def)
  have sb: "unat (sz * 8) = 8 * S" using S35 by (subst unat_ops(1)) (simp_all add: S_def)
  have bd: "unat (of_nat j * B div 8 :: u64) = j * c div 8" by (simp add: unat_div bitStart)
  have byteStart: "unat (if of_nat j * B div 8 > sz - 8 then sz - 8 else of_nat j * B div 8) = ?b"
    by (simp add: word_less_nat_alt bd s8 min_def)
  have sum: "unat (of_nat j * B + B) = j * c + c"
    using j S35 c(2) by (subst unat_ops(2)) (simp_all add: bitStart flip: c_def)
  have m: "?e = (if 8 * S < j * c + c then 8 * S - j * c else c)" using j by (simp add: min_def) arith
  have eff: "unat (if of_nat j * B + B > sz * 8 then sz * 8 - of_nat j * B else B) = ?e"
    unfolding m using j by (simp add: word_less_nat_alt sum sb unat_ops(3) bitStart flip: c_def)
  let ?bs = "if of_nat j * B div 8 > sz - 8 then sz - 8 else of_nat j * B div 8"
  have "?b * 8 \<le> j * c div 8 * 8" by simp
  also have "\<dots> \<le> j * c" by (rule div_times_less_eq_dividend)
  finally have b8: "?b * 8 \<le> j * c" .
  have bs8: "unat (?bs * 8) = ?b * 8"
    using b8 j S35 by (subst unat_ops(1)) (simp_all only: byteStart, simp_all)
  have shift: "unat (of_nat j * B - ?bs * 8) = j * c - ?b * 8"
    using b8 by (subst unat_ops(3)) (simp_all only: bs8 bitStart)
  have "i * S < 2 ^ 31 * 2 ^ 28" using i(1) S(2) by (intro mult_strict_mono) simp_all
  then have iS: "i * S < 2 ^ 59" by simp
  have wi: "unat (of_nat i * sz) = i * S" using iS i(1) by (subst unat_ops(1)) (simp_all add: unat_ops(4) S_def)
  have off: "unat (of_nat i * sz + ?bs) = i * S + ?b"
    using iS S(2) by (subst unat_ops(2)) (simp_all only: wi byteStart, auto simp: min_def)
  let ?N = "scalar_at scalars S i"
  have "take 8 (drop (i * S + ?b) scalars) = take 8 (drop ?b (take S (drop (i * S) scalars)))"
    using S(1) by (simp add: take_drop min_def add.commute)
  moreover have "?b + 8 \<le> length (take S (drop (i * S) scalars))"
    using S(1) i(2) by (simp add: min_def) arith
  ultimately have "le_nat (take 8 (drop (i * S + ?b) scalars)) = take_bit 64 (drop_bit (8 * ?b) ?N)"
    using le_nat_window [of ?b 8] unfolding scalar_at_def by (simp only:) simp
  then have v: "unat (rd64 (drop (i * S + ?b) scalars)) = take_bit 64 (drop_bit (8 * ?b) ?N)"
    by (simp add: rd64_def unat_of_nat take_bit_eq_mod)
  have sh: "j * c - ?b * 8 + ?e \<le> 64"
    using c S(1) j by (auto simp: min_def)
  have "unat (getBucketIndex scalars sz B (of_nat i) (of_nat j)) =
      take_bit ?e (drop_bit (j * c - ?b * 8) (take_bit 64 (drop_bit (8 * ?b) ?N)))"
    unfolding getBucketIndex_def Let_def off shift eff
    by (simp add: unsigned_take_bit_eq unsigned_drop_bit_eq v push_bit_eq_mult flip: mask_eq_exp_minus_1 take_bit_eq_mask)
  also have "\<dots> = take_bit ?e (drop_bit (j * c) ?N)"
  proof (rule bit_eqI)
    fix n
    have jn: "8 * ?b + (j * c - ?b * 8 + n) = j * c + n" using b8 by simp
    show "bit (take_bit ?e (drop_bit (j * c - ?b * 8) (take_bit 64 (drop_bit (8 * ?b) ?N)))) n \<longleftrightarrow>
        bit (take_bit ?e (drop_bit (j * c) ?N)) n"
    proof (cases "n < ?e")
      case True
      then have "j * c - ?b * 8 + n < 64" using sh by linarith
      then show ?thesis
        by (simp only: jn bit_take_bit_iff bit_drop_bit_eq comp_def simp_thms True)
    next
      case False
      then show ?thesis by (simp only: bit_take_bit_iff simp_thms)
    qed
  qed
  finally show ?thesis .
qed

fun sval :: "nat \<Rightarrow> int list \<Rightarrow> int" where
  "sval c [] = 0"
| "sval c (d # ds) = d + 2 ^ c * sval c ds"

lemma sval_sum: "sval c ds = (\<Sum>j < length ds. ds ! j * 2 ^ (c * j))"
proof (induction ds)
  case (Cons d ds)
  have "(\<Sum>j < length ds. ds ! j * 2 ^ (c * Suc j)) = 2 ^ c * (\<Sum>j < length ds. ds ! j * 2 ^ (c * j))"
    by (simp add: sum_distrib_left power_add mult.left_commute)
  then show ?case using Cons.IH by (simp only: sval.simps length_Cons sum.lessThan_Suc_shift) simp
qed simp

lemma calcBucketCount_val:
  assumes "3 \<le> unat B" "unat B \<le> 16"
  shows "unat (calcBucketCount B) = 2 ^ (unat B - 1)"
proof -
  have B1: "unat (B - 1) = unat B - 1" using assms(1) by (subst unat_ops(3)) simp_all
  have "(2::nat) ^ (unat B - 1) \<le> 2 ^ 15" using assms(2) by (intro power_increasing) simp_all
  then have p: "(2::nat) ^ (unat B - 1) < 2 ^ 64" by simp
  have "calcBucketCount B = of_nat (2 ^ (unat B - 1))"
    unfolding calcBucketCount_def B1 by (simp add: push_bit_eq_mult)
  then show ?thesis using unat_ops(4) [OF p] by (simp only:)
qed

text \<open>The digits of a scalar that leaves its two highest bits free.\<close>

lemma slice_loop_val:
  fixes sz B :: u64
  defines "S \<equiv> unat sz" and "c \<equiv> unat B"
  assumes S: "8 \<le> S" "S < 2 ^ 28" and c: "3 \<le> c" "c \<le> 16" and i: "i < 2 ^ 31" "i * S + S \<le> length scalars"
    and s: "scalar_at scalars S i < 2 ^ (8 * S - 2)"
    and jk: "(j + k - 1) * c < 8 * S" "8 * S \<le> (j + k) * c" "0 < k" and carry: "carry \<in> {0, 1}"
  shows "length (slice_loop scalars sz B i j carry k) = k \<and>
    (\<forall>d \<in> set (slice_loop scalars sz B i j carry k). - (2 ^ (c - 1)) \<le> d \<and> d \<le> 2 ^ (c - 1)) \<and>
    sval c (slice_loop scalars sz B i j carry k) = int (drop_bit (j * c) (scalar_at scalars S i)) + carry"
  using jk carry
proof (induction k arbitrary: j carry)
  case (Suc k)
  let ?N = "scalar_at scalars S i" and ?nb = "(2::int) ^ (c - 1)"
  have nb: "uint (calcBucketCount B) = ?nb"
    using calcBucketCount_val [of B] c by (simp add: uint_nat c_def)
  have twice: "?nb * 2 = 2 ^ c" using c(1) by (simp flip: power_Suc2)
  have j: "j * c < 8 * S"
  proof -
    have "j * c \<le> (j + Suc k - 1) * c" by (intro mult_le_mono1) simp
    then show ?thesis using Suc.prems(1) by linarith
  qed
  define g where "g = int (take_bit (min c (8 * S - j * c)) (drop_bit (j * c) ?N))"
  have g: "uint (getBucketIndex scalars sz B (of_nat i) (of_nat j)) = g"
    using getBucketIndex_val [of sz B i scalars j] S c i j unfolding g_def S_def c_def by (simp add: uint_nat)
  have "take_bit (min c (8 * S - j * c)) (drop_bit (j * c) ?N) < 2 ^ min c (8 * S - j * c)" by (rule take_bit_nat_less_exp)
  moreover have "(2::nat) ^ min c (8 * S - j * c) \<le> 2 ^ c" by (intro power_increasing) simp_all
  ultimately have "take_bit (min c (8 * S - j * c)) (drop_bit (j * c) ?N) < 2 ^ c" by linarith
  then have gb: "0 \<le> g" "g < 2 ^ c" unfolding g_def by (simp_all flip: of_nat_less_iff)
  define b where "b = (if g + carry \<ge> ?nb then g + carry - ?nb * 2 else g + carry)"
  define carry' :: int where "carry' = (if g + carry \<ge> ?nb then 1 else 0)"
  have run: "slice_loop scalars sz B i j carry (Suc k) = b # slice_loop scalars sz B i (j + 1) carry' k"
    unfolding slice_loop.simps Let_def nb g b_def carry'_def by simp
  have "0 < ?nb" by simp
  then have bb: "- ?nb \<le> b" "b \<le> ?nb" using gb Suc.prems(4) unfolding b_def twice [symmetric] by auto
  have bc: "b + 2 ^ c * carry' = g + carry" unfolding b_def carry'_def twice [symmetric] by simp
  show ?case
  proof (cases k)
    case 0
    have e: "min c (8 * S - j * c) = 8 * S - j * c" using Suc.prems(2) 0 by (simp add: algebra_simps)
    have "drop_bit (j * c) ?N < 2 ^ (8 * S - j * c)"
    proof -
      have "(2::nat) ^ (8 * S - 2) \<le> 2 ^ (8 * S)" by (intro power_increasing) simp_all
      then have "?N < 2 ^ (8 * S)" using s by linarith
      also have "8 * S = j * c + (8 * S - j * c)" using j by simp
      finally show ?thesis unfolding drop_bit_eq_div power_add by (simp add: less_mult_imp_div_less mult.commute)
    qed
    then have gN: "g = int (drop_bit (j * c) ?N)" unfolding g_def e by (simp add: take_bit_nat_eq_self)
    have "g + 1 < ?nb"
    proof (cases "j * c + 2 \<le> 8 * S")
      case True
      have "?N < 2 ^ (j * c) * 2 ^ (8 * S - j * c - 2)" using s True by (simp flip: power_add)
      then have "drop_bit (j * c) ?N < 2 ^ (8 * S - j * c - 2)"
        unfolding drop_bit_eq_div by (simp add: less_mult_imp_div_less mult.commute)
      moreover have "8 * S - j * c - 2 \<le> c - 2" using e by linarith
      then have "(2::nat) ^ (8 * S - j * c - 2) \<le> 2 ^ (c - 2)" by (intro power_increasing) simp_all
      ultimately have "drop_bit (j * c) ?N < 2 ^ (c - 2)" by linarith
      then have "g < 2 ^ (c - 2)" unfolding gN by (simp flip: of_nat_less_iff)
      moreover have "?nb = 2 * 2 ^ (c - 2)" using c(1) by (simp flip: power_Suc)
      moreover have "(2::int) ^ 1 \<le> 2 ^ (c - 2)" using c(1) by (intro power_increasing) simp_all
      then have "(2::int) \<le> 2 ^ (c - 2)" by (simp only: power_one_right)
      ultimately show ?thesis by linarith
    next
      case False
      then have "8 * S - 2 \<le> j * c" by simp
      then have "(2::nat) ^ (8 * S - 2) \<le> 2 ^ (j * c)" by (intro power_increasing) simp_all
      then have "?N < 2 ^ (j * c)" using s by linarith
      then have "g = 0" unfolding gN by (simp add: drop_bit_eq_div)
      moreover have "(2::int) ^ 2 \<le> ?nb" using c(1) by (intro power_increasing) simp_all
      ultimately show ?thesis by simp
    qed
    then have "carry' = 0" "b = g + carry" using Suc.prems(4) unfolding b_def carry'_def by auto
    then show ?thesis using run bb gN 0 by simp
  next
    case (Suc k')
    have e: "min c (8 * S - j * c) = c"
    proof -
      have "(j + 1) * c \<le> (j + Suc k - 1) * c" using Suc by (intro mult_le_mono1) simp
      then show ?thesis using Suc.prems(1) by simp
    qed
    have carry': "carry' \<in> {0, 1}" by (simp add: carry'_def)
    have "drop_bit (j * c) ?N = take_bit c (drop_bit (j * c) ?N) + 2 ^ c * drop_bit ((j + 1) * c) ?N"
    proof -
      have "(j + 1) * c = j * c + c" by simp
      then have "?N div 2 ^ ((j + 1) * c) = ?N div 2 ^ (j * c) div 2 ^ c" by (simp only: power_add div_mult2_eq)
      then show ?thesis by (simp only: take_bit_eq_mod drop_bit_eq_div mod_mult_div_eq)
    qed
    then have "int (drop_bit (j * c) ?N) = g + 2 ^ c * int (drop_bit ((j + 1) * c) ?N)"
      unfolding g_def e by (metis of_nat_add of_nat_mult of_nat_numeral of_nat_power)
    then show ?thesis
      using Suc.IH [of "j + 1" carry'] Suc.prems(1,2) Suc carry' run bb bc by (simp add: algebra_simps)
  qed
qed simp

subsection \<open>The buckets\<close>

lemma fill_fold: "length rows = n \<Longrightarrow> set xs \<subseteq> {..<n} \<Longrightarrow>
    length (foldl (\<lambda>rows i. rows[i := g i]) rows xs) = n \<and>
    (\<forall>i < n. foldl (\<lambda>rows i. rows[i := g i]) rows xs ! i = (if i \<in> set xs then g i else rows ! i))"
proof (induction xs arbitrary: rows)
  case (Cons x xs)
  then show ?case using Cons.IH [of "rows[x := g x]"] by (auto simp: nth_list_update)
qed simp

lemma parallelFor_fill:
  assumes "fair il" "0 < t" "n < 2 ^ 31" "length rows = n"
  shows "parallelFor il t 0 n (\<lambda>i rows. rows[i := g i]) rows = map g [0..<n]"
proof -
  obtain xs where xs: "parallelFor il t 0 n (\<lambda>i rows. rows[i := g i]) rows = foldl (\<lambda>rows i. rows[i := g i]) rows xs"
    "distinct xs" "set xs = {0..<n}"
    by (rule parallelFor_perm [OF assms(1,2) zero_le_one assms(3)])
  have "set xs \<subseteq> {..<n}" using xs(3) by auto
  note f = fill_fold [OF assms(4) this, of g]
  show ?thesis unfolding xs(1) by (rule nth_equalityI) (use f xs(3) in simp_all)
qed

definition contrib :: "int \<Rightarrow> int \<Rightarrow> nat \<Rightarrow> int" where
  "contrib d k b = (if d = int b + 1 then k else if d = - (int b + 1) then - k else 0)"

lemma contrib_sum: "- int n \<le> d \<Longrightarrow> d \<le> int n \<Longrightarrow> (\<Sum>b < n. int (b + 1) * contrib d k b) = d * k"
proof -
  assume d: "- int n \<le> d" "d \<le> int n"
  show ?thesis
  proof (cases "d = 0")
    case True
    then show ?thesis by (simp add: contrib_def)
  next
    case False
    define c where "c = nat (\<bar>d\<bar> - 1)"
    have c: "c < n" "int c = \<bar>d\<bar> - 1" using d False unfolding c_def by auto
    then consider "d = int c + 1" | "d = - (int c + 1)" by linarith
    then have t: "int (b + 1) * contrib d k b = (if b = c then d * k else 0)" for b
    proof cases
      case 1
      then show ?thesis by (simp add: contrib_def)
    next
      case 2
      then have "d \<noteq> int b + 1" "d = - (int b + 1) \<longleftrightarrow> b = c" by linarith+
      moreover have "d * k = - (k + int c * k)" unfolding 2 by (simp add: algebra_simps)
      ultimately show ?thesis by (simp add: contrib_def algebra_simps)
    qed
    have "(\<Sum>b < n. int (b + 1) * contrib d k b) = (\<Sum>b < n. if b = c then d * k else 0)"
      by (simp only: t)
    also have "\<dots> = d * k" using c(1) by simp
    finally show ?thesis .
  qed
qed

context curve_vals
begin

lemma bucket_fold:
  assumes d: "\<And>i. i \<in> set xs \<Longrightarrow> - int nb \<le> sl ! i ! j \<and> sl ! i ! j \<le> int nb"
    and k: "\<And>i. i \<in> set xs \<Longrightarrow> ga (bases ! i) (k i)"
  shows "length buckets = nb \<Longrightarrow> (\<And>b. b < nb \<Longrightarrow> gp (buckets ! b) (v b)) \<Longrightarrow>
    length (foldl (\<lambda>buckets i. bucket_step G bases sl j i buckets) buckets xs) = nb \<and>
    (\<forall>b < nb. gp (foldl (\<lambda>buckets i. bucket_step G bases sl j i buckets) buckets xs ! b)
       (v b + (\<Sum>i \<leftarrow> xs. contrib (sl ! i ! j) (k i) b)))"
  using d k
proof (induction xs arbitrary: buckets v)
  case (Cons x xs)
  let ?d = "sl ! x ! j" and ?b' = "bucket_step G bases sl j x buckets"
  have r: "- int nb \<le> ?d" "?d \<le> int nb" and kx: "ga (bases ! x) (k x)" using Cons.prems(3,4) [of x] by simp_all
  have l: "length ?b' = nb" using Cons.prems(1) by (simp add: bucket_step_def Let_def)
  have g: "gp (?b' ! b) (v b + contrib ?d (k x) b)" if b: "b < nb" for b
  proof -
    consider "?d = int b + 1" | "?d = - (int b + 1)" | "?d \<noteq> int b + 1" "?d \<noteq> - (int b + 1)" by blast
    then show ?thesis
    proof cases
      case 1
      then have "?b' ! b = g_addA G (buckets ! b) (bases ! x)"
        using b Cons.prems(1) by (simp add: bucket_step_def Let_def)
      then show ?thesis using 1 gp_addA [OF Cons.prems(2) [OF b] kx] by (simp add: contrib_def)
    next
      case 2
      then have "?b' ! b = g_subA G (buckets ! b) (bases ! x)"
        using b Cons.prems(1) by (simp add: bucket_step_def Let_def)
      then show ?thesis using 2 gp_subA [OF Cons.prems(2) [OF b] kx] by (simp add: contrib_def)
    next
      case 3
      then have "?b' ! b = buckets ! b" by (auto simp: bucket_step_def Let_def nth_list_update)
      then show ?thesis using 3 Cons.prems(2) [OF b] by (simp add: contrib_def)
    qed
  qed
  show ?case using Cons.IH [of ?b' "\<lambda>b. v b + contrib ?d (k x) b", OF l g] Cons.prems(3,4)
    by (simp add: add.assoc)
qed simp

lemma bucket_sum_val: "gp t T \<Longrightarrow> gp tmp M \<Longrightarrow> (\<And>b. b < i \<Longrightarrow> gp (buckets ! b) (v b)) \<Longrightarrow>
    gp (bucket_sum G buckets i t tmp) (T + int i * M + (\<Sum>b < i. int (b + 1) * v b))"
proof (induction i arbitrary: t tmp T M)
  case (Suc i)
  have m: "gp (g_add G tmp (buckets ! i)) (M + v i)" by (rule gp_add [OF Suc.prems(2) Suc.prems(3)]) simp
  have "gp (bucket_sum G buckets (Suc i) t tmp) (T + (M + v i) + int i * (M + v i) + (\<Sum>b < i. int (b + 1) * v b))"
    unfolding bucket_sum.simps Let_def
    by (rule Suc.IH [OF gp_add [OF Suc.prems(1) m] m Suc.prems(3)]) simp
  moreover have "T + (M + v i) + int i * (M + v i) + (\<Sum>b < i. int (b + 1) * v b) =
      T + int (Suc i) * M + (\<Sum>b < Suc i. int (b + 1) * v b)"
    by (simp add: algebra_simps)
  ultimately show ?case by (simp only:)
qed simp

lemma chunk_value_val:
  assumes d: "\<And>i. i < n \<Longrightarrow> - int nb \<le> sl ! i ! j \<and> sl ! i ! j \<le> int nb" and k: "\<And>i. i < n \<Longrightarrow> ga (bases ! i) (k i)"
    and nb: "0 < nb"
  shows "gp (chunk_value G bases sl nb n j) (\<Sum>i < n. sl ! i ! j * k i)"
proof -
  let ?B = "foldl (\<lambda>buckets i. bucket_step G bases sl j i buckets) (replicate nb (g_zero G)) [0..<n]"
  define V where "V = (\<lambda>b. \<Sum>i < n. contrib (sl ! i ! j) (k i) b)"
  have B: "gp (?B ! b) (V b)" if b: "b < nb" for b
  proof -
    have "gp (?B ! b) (0 + (\<Sum>i \<leftarrow> [0..<n]. contrib (sl ! i ! j) (k i) b))"
      using bucket_fold [of "[0..<n]" nb sl j bases k "replicate nb (g_zero G)" "\<lambda>b. 0"] d k b gp_zero by simp
    then show ?thesis unfolding V_def by (simp add: interv_sum_list_conv_sum_set_nat atLeast0LessThan)
  qed
  let ?m = "nb - 1"
  have "gp (bucket_sum G ?B ?m (?B ! ?m) (?B ! ?m)) (V ?m + int ?m * V ?m + (\<Sum>b < ?m. int (b + 1) * V b))"
    using nb by (intro bucket_sum_val B) simp_all
  moreover have "V ?m + int ?m * V ?m + (\<Sum>b < ?m. int (b + 1) * V b) = (\<Sum>b < nb. int (b + 1) * V b)"
  proof -
    have "(\<Sum>b < Suc ?m. int (b + 1) * V b) = (\<Sum>b < ?m. int (b + 1) * V b) + int (?m + 1) * V ?m" by simp
    then show ?thesis using nb by (simp add: algebra_simps)
  qed
  moreover have "(\<Sum>b < nb. int (b + 1) * V b) = (\<Sum>i < n. \<Sum>b < nb. int (b + 1) * contrib (sl ! i ! j) (k i) b)"
    unfolding V_def by (subst sum.swap) (simp add: sum_distrib_left)
  moreover have "\<dots> = (\<Sum>i < n. sl ! i ! j * k i)" using d by (intro sum.cong contrib_sum) simp_all
  ultimately show ?thesis unfolding chunk_value_def Let_def by simp
qed

lemma dbl_pow_val: "gp r v \<Longrightarrow> gp ((g_dbl G ^^ n) r) (2 ^ n * v)"
proof (induction n)
  case (Suc n)
  show ?case using gp_dbl [OF Suc.IH [OF Suc.prems]] by (simp add: mult.assoc)
qed simp

lemma combine_chunks_val: "gp r v \<Longrightarrow> (\<And>m. m < j \<Longrightarrow> gp (chunks' ! m) (C m)) \<Longrightarrow>
    gp (combine_chunks G chunks' c j r) (2 ^ (c * j) * v + (\<Sum>m < j. 2 ^ (c * m) * C m))"
proof (induction j arbitrary: r v)
  case (Suc j)
  have "gp (combine_chunks G chunks' c (Suc j) r) (2 ^ (c * j) * (2 ^ c * v + C j) + (\<Sum>m < j. 2 ^ (c * m) * C m))"
    unfolding combine_chunks.simps
    by (rule Suc.IH [OF gp_add [OF dbl_pow_val [OF Suc.prems(1)] Suc.prems(2)]]) (simp_all add: Suc.prems(2))
  then show ?case by (simp add: power_add algebra_simps)
qed simp

end

lemma chunk_count:
  fixes sz B :: u64
  defines "S \<equiv> unat sz" and "c \<equiv> unat B"
  assumes S: "8 \<le> S" "S < 2 ^ 28" and c: "3 \<le> c"
  shows "unat (calcChunkCount sz B) = (8 * S - 1) div c + 1"
    and "(unat (calcChunkCount sz B) - 1) * c < 8 * S" "8 * S \<le> unat (calcChunkCount sz B) * c"
    and "unat (calcChunkCount sz B) < 2 ^ 31"
proof -
  have S31: "8 * S < 2 ^ 31" using S(2) by simp
  have s: "unat (sz * 8) = 8 * S" using S31 by (subst unat_ops(1)) (simp_all add: S_def)
  have m: "unat (sz * 8 - 1) = 8 * S - 1" using S(1) by (subst unat_ops(3)) (simp_all only: s, simp_all)
  have d: "unat ((sz * 8 - 1) div B) = (8 * S - 1) div c" by (simp add: unat_div m c_def)
  have le: "(8 * S - 1) div c \<le> 8 * S - 1" by (rule div_le_dividend)
  show v: "unat (calcChunkCount sz B) = (8 * S - 1) div c + 1"
  proof -
    have "(8 * S - 1) div c + 1 < 2 ^ 31" using le S(1) S31 by linarith
    then have "unat ((sz * 8 - 1) div B) + unat (1 :: u64) < 2 ^ 64" unfolding d by simp
    then show ?thesis unfolding calcChunkCount_def by (simp only: unat_ops(2) d) simp
  qed
  have "(8 * S - 1) div c * c \<le> 8 * S - 1" by (rule div_times_less_eq_dividend)
  then have "(8 * S - 1) div c * c < 8 * S" using S(1) by linarith
  then show "(unat (calcChunkCount sz B) - 1) * c < 8 * S" unfolding v by simp
  have "8 * S - 1 < (8 * S - 1) div c * c + c"
    using mod_less_divisor [of c "8 * S - 1"] div_mult_mod_eq [of "8 * S - 1" c] c by linarith
  then show "8 * S \<le> unat (calcChunkCount sz B) * c" unfolding v by simp
  show "unat (calcChunkCount sz B) < 2 ^ 31" unfolding v using le S(1) S31 by linarith
qed

context curve_vals
begin

lemma multiMulByScalarMSM_val:
  fixes sz n :: u64
  defines "S \<equiv> unat sz" and "N \<equiv> unat n"
  assumes il: "fair il" "0 < nThreads" and S: "8 \<le> S" "S < 2 ^ 28" and N: "N < 2 ^ 31"
    and len: "length scalars = N * S" and s: "\<And>i. i < N \<Longrightarrow> scalar_at scalars S i < 2 ^ (8 * S - 2)"
    and k: "\<And>i. i < N \<Longrightarrow> ga (bases ! i) (k i)"
  shows "gp (multiMulByScalarMSM G il nThreads bases scalars sz n) (\<Sum>i < N. int (scalar_at scalars S i) * k i)"
proof -
  consider "N = 0" | "N = 1" | "2 \<le> N" by linarith
  then show ?thesis
  proof cases
    case 1
    then show ?thesis using gp_zero by (simp add: multiMulByScalarMSM_def Let_def flip: N_def)
  next
    case 2
    have "gp (mulByScalarA G (bases ! 0) scalars (length scalars)) (int (le_nat scalars) * k 0)"
      using 2 len S(1) k by (intro mulByScalarA_val) auto
    then show ?thesis using 2 len by (simp add: multiMulByScalarMSM_def Let_def scalar_at_def flip: N_def S_def)
  next
    case 3
    define B where "B = calcBitsPerChunk n sz"
    define c where "c = unat B"
    define nC where "nC = unat (calcChunkCount sz B)"
    define sl where "sl = map (\<lambda>i. slice_loop scalars sz B i 0 0 nC) [0..<N]"
    define nb where "nb = unat (calcBucketCount B)"
    define ch where "ch = map (chunk_value G bases sl nb N) [0..<nC]"
    have c: "3 \<le> c" "c \<le> 16" unfolding c_def B_def by (rule bitsPerChunk_range)+
    note C = chunk_count [of sz B, folded S_def c_def nC_def, OF S c(1)]
    have nC0: "0 < nC" unfolding C(1) by simp
    have nb: "nb = 2 ^ (c - 1)" unfolding nb_def c_def by (rule calcBucketCount_val) (use c in \<open>simp_all add: c_def\<close>)
    then have nb0: "0 < nb" by simp
    have sd: "length (sl ! i) = nC \<and> (\<forall>d \<in> set (sl ! i). - int nb \<le> d \<and> d \<le> int nb) \<and>
        sval c (sl ! i) = int (scalar_at scalars S i)" if i: "i < N" for i
    proof -
      have "Suc i * S \<le> N * S" using i by (intro mult_le_mono1) simp
      then have iS: "i * S + S \<le> length scalars" using len by simp
      have "sl ! i = slice_loop scalars sz B i 0 0 nC" using i by (simp add: sl_def)
      then show ?thesis
        using slice_loop_val [of sz B i scalars 0 nC 0, folded S_def c_def, OF S c _ iS s [OF i]] i N C nC0
        by (simp add: nb)
    qed
    have rng: "- int nb \<le> sl ! i ! j \<and> sl ! i ! j \<le> int nb" if "i < N" "j < nC" for i j
      using sd [OF that(1)] that(2) by simp
    have chv: "gp (ch ! j) (\<Sum>i < N. sl ! i ! j * k i)" if "j < nC" for j
      using chunk_value_val [of N nb sl j bases k] rng that k nb0 by (simp add: ch_def)
    have run: "multiMulByScalarMSM G il nThreads bases scalars sz n = combine_chunks G ch c (nC - 1) (ch ! (nC - 1))"
    proof -
      have "parallelFor il nThreads 0 N (\<lambda>i rows. rows[i := slice_loop scalars sz B i 0 0 nC]) (replicate N []) = sl"
        unfolding sl_def by (rule parallelFor_fill [OF il N]) simp
      moreover have "parallelFor il nThreads 0 nC (\<lambda>j chunks'. chunks'[j := chunk_value G bases sl nb N j]) (replicate nC (g_zero G)) = ch"
        unfolding ch_def by (rule parallelFor_fill [OF il C(4)]) simp
      ultimately show ?thesis using 3
        by (simp add: multiMulByScalarMSM_def Let_def flip: N_def B_def c_def nC_def nb_def)
    qed
    have "gp (combine_chunks G ch c (nC - 1) (ch ! (nC - 1)))
        (2 ^ (c * (nC - 1)) * (\<Sum>i < N. sl ! i ! (nC - 1) * k i) + (\<Sum>m < nC - 1. 2 ^ (c * m) * (\<Sum>i < N. sl ! i ! m * k i)))"
      using nC0 by (intro combine_chunks_val chv) simp_all
    moreover have "2 ^ (c * (nC - 1)) * (\<Sum>i < N. sl ! i ! (nC - 1) * k i) + (\<Sum>m < nC - 1. 2 ^ (c * m) * (\<Sum>i < N. sl ! i ! m * k i)) =
        (\<Sum>m < Suc (nC - 1). 2 ^ (c * m) * (\<Sum>i < N. sl ! i ! m * k i))" by simp
    moreover have "Suc (nC - 1) = nC" using nC0 by simp
    moreover have "(\<Sum>m < nC. 2 ^ (c * m) * (\<Sum>i < N. sl ! i ! m * k i)) = (\<Sum>i < N. \<Sum>m < nC. sl ! i ! m * 2 ^ (c * m) * k i)"
      by (subst sum.swap) (simp add: sum_distrib_left ac_simps)
    moreover have "\<dots> = (\<Sum>i < N. int (scalar_at scalars S i) * k i)"
    proof (rule sum.cong [OF refl])
      fix i assume "i \<in> {..<N}"
      then have "sval c (sl ! i) = int (scalar_at scalars S i)" "length (sl ! i) = nC" using sd by auto
      then show "(\<Sum>m < nC. sl ! i ! m * 2 ^ (c * m) * k i) = int (scalar_at scalars S i) * k i"
        using sval_sum [of c "sl ! i"] by (simp flip: sum_distrib_right)
    qed
    ultimately show ?thesis unfolding run by (simp only:)
  qed
qed

end

subsection \<open>The field as a group\<close>

definition field_group :: "'e field_ops \<Rightarrow> ('e, 'e) curve_ops" where
  "field_group F =
     \<lparr>g_zero = f_zero F, g_add = f_add F, g_addA = f_add F, g_sub = f_sub F, g_subA = f_sub F,
      g_dbl = \<lambda>a. f_add F a a, g_neg = f_sub F (f_zero F), g_negA = f_sub F (f_zero F),
      g_fromAffine = id, g_toAffine = id\<rparr>"

context field_api
begin

lemma additive: "curve_vals (field_group F) rel rel q"
proof unfold_locales
  fix a u assume a: "rel a u"
  show "rel (g_dbl (field_group F) a) (2 * u)"
    using rel_add [OF a a] by (simp add: field_group_def)
  show "rel (g_neg (field_group F) a) (- u)" "rel (g_negA (field_group F) a) (- u)"
    using rel_sub [OF rel_zero a] by (simp_all add: field_group_def)
qed (auto simp: field_group_def intro: rel_zero rel_add rel_sub rel_cong)

end

interpretation bn128_add: curve_vals "field_group bn128_Fr" "fe bn128_params" "fe bn128_params" "qv bn128_params"
  by (rule bn128_field.additive)

subsection \<open>The results\<close>

text \<open>
  The digits of a scalar are 0, 1 or -1 and their weighted sum is the scalar; the
  table that the loop reads is built for every index it can form.
\<close>

lemma buildNaf_correct:
  assumes "0 < length s"
  shows "set (buildNaf s (length s)) \<subseteq> {0, 1, 2} \<and> length (buildNaf s (length s)) = 8 * (length s + 2) \<and>
    nval (take (length s * 8 + 2) (buildNaf s (length s))) = int (le_nat s)"
proof -
  have "set (buildNaf_loop s n i l c k) \<subseteq> {0, 1, 2} \<and> length (buildNaf_loop s n i l c k) = 8 * k" for n i l c k
  proof (induction k arbitrary: i l c)
    case (Suc k)
    have "set (map (\<lambda>b. b AND 3) (NAFTable m)) \<subseteq> {0, 1, 2} \<and> length (map (\<lambda>b. b AND 3) (NAFTable m)) = 8" for m
    proof -
      obtain l' c' ds where t: "naf_loop m 0 (bit m 0) (bit m 9) 8 = (l', c', ds)" by (metis prod_cases3)
      show ?thesis using naf_loop_val [OF t] unfolding NAFTable_val [OF t] by blast
    qed
    then show ?case using Suc.IH by (simp add: Let_def)
  qed simp
  then show ?thesis using buildNaf_val [OF assms] unfolding buildNaf_def by blast
qed

lemma buildNaf_correct_witness:
  "nval (take 18 (buildNaf [255, 129] 2)) = 33279 \<and> length (buildNaf [255, 129] 2) = 32"
proof -
  have l: "length [255 :: u8, 129] = 2" by simp
  show ?thesis using buildNaf_correct [of "[255, 129]", unfolded l] by simp
qed

text \<open>
  Property C13. Double-and-add over the signed digits multiplies a point by a scalar of any positive
  number of bytes.
\<close>

theorem mulByScalar_correct:
  assumes "curve_vals G gp ga q" "0 < length s"
  shows "(gp p k \<longrightarrow> gp (mulByScalar G p s (length s)) (int (le_nat s) * k)) \<and>
    (ga b k \<longrightarrow> gp (mulByScalarA G b s (length s)) (int (le_nat s) * k))"
  using curve_vals.mulByScalar_val [OF assms(1)] curve_vals.mulByScalarA_val [OF assms(1)] assms(2) by blast

theorem mulByScalar_correct_witness:
  "\<exists>a. fe bn128_params a 3 \<and> fe bn128_params (mulByScalar (field_group bn128_Fr) a [255, 129] 2) (33279 * 3)"
proof -
  obtain a where a: "fe bn128_params a 3" using bn128_gmp.fe_set [of 3] by auto
  have l: "length [255 :: u8, 129] = 2" by simp
  have v: "int (le_nat [255, 129]) = 33279" by simp
  show ?thesis using mulByScalar_correct [OF bn128_add.curve_vals_axioms, of "[255, 129]" a 3, unfolded l v] a by auto
qed

text \<open>
  Property C14. The sum of products by signed buckets is the sum of the scalars times the points,
  for every order in which the threads take the scalars and the chunks, when the two highest bits
  of every scalar are zero (the scalars of the prover are below the order of the group).
\<close>

theorem msm_correct:
  assumes "curve_vals G gp ga q" "fair il" "0 < nThreads" "8 \<le> unat sz" "unat sz < 2 ^ 28" "unat n < 2 ^ 31"
    and "length scalars = unat n * unat sz" "\<forall>i < unat n. scalar_at scalars (unat sz) i < 2 ^ (8 * unat sz - 2)"
    and "\<forall>i < unat n. ga (bases ! i) (k i)"
  shows "gp (multiMulByScalarMSM G il nThreads bases scalars sz n)
    (\<Sum>i < unat n. int (scalar_at scalars (unat sz) i) * k i)"
  using curve_vals.multiMulByScalarMSM_val [OF assms(1-7)] assms(8,9) by blast

theorem msm_correct_witness:
  "\<exists>a. length a = 4 \<and> (\<forall>i < 4. fe bn128_params (a ! i) (int i)) \<and>
    fe bn128_params (multiMulByScalarMSM (field_group bn128_Fr) (\<lambda>jobs. rev (concat jobs)) 2 a
      [7, 1, 0, 0, 0, 0, 0, 0, 200, 0, 0, 0, 0, 0, 0, 63, 9, 0, 0, 0, 0, 0, 0, 0] 8 3) (0 + 4539628424389460168 * 1 + 9 * 2)"
proof -
  obtain a where a: "length a = 4" "\<forall>i < 4. fe bn128_params (a ! i) (int i)" using bn128_input by blast
  let ?s = "[7, 1, 0, 0, 0, 0, 0, 0, 200, 0, 0, 0, 0, 0, 0, 63, 9, 0, 0, 0, 0, 0, 0, 0] :: bytes"
  have s: "scalar_at ?s 8 0 = 263" "scalar_at ?s 8 (Suc 0) = 4539628424389460168" "scalar_at ?s 8 2 = 9"
    by (simp_all add: scalar_at_def)
  have u: "unat (8 :: u64) = 8" "unat (3 :: u64) = 3" by simp_all
  have i: "i < 3 \<Longrightarrow> i = 0 \<or> i = Suc 0 \<or> i = 2" for i :: nat by linarith
  have b: "\<forall>i < 3. scalar_at ?s 8 i < 2 ^ (8 * 8 - 2)" using i s by fastforce
  have k: "\<forall>i < 3. fe bn128_params (a ! i) (int i)" using a(2) by simp
  have l: "length ?s = 3 * 8" by simp
  have r: "fe bn128_params (multiMulByScalarMSM (field_group bn128_Fr) (\<lambda>jobs. rev (concat jobs)) 2 a ?s 8 3)
      (\<Sum>i < unat (3 :: u64). int (scalar_at ?s (unat (8 :: u64)) i) * int i)"
    using msm_correct [OF bn128_add.curve_vals_axioms fair_concat(2), of 2 8 3 ?s a int, unfolded u, OF _ _ _ _ l b k]
    by (simp only: u) simp
  have v: "(\<Sum>i < unat (3 :: u64). int (scalar_at ?s (unat (8 :: u64)) i) * int i) = 0 + 4539628424389460168 * 1 + 9 * 2"
  proof -
    have "(\<Sum>i < 3. f i) = f 0 + f (Suc 0) + f 2" for f :: "nat \<Rightarrow> int" by (simp add: eval_nat_numeral)
    then show ?thesis unfolding u by (simp only: s)
  qed
  show ?thesis by (rule exI [of _ a], intro conjI a) (rule r [unfolded v])
qed

text \<open>A scalar that uses its highest bit loses \<open>2 ^ 64\<close>: the carry out of its last chunk has no chunk.\<close>

lemma slice_loop_drops_carry:
  "slice_loop [0, 0, 0, 0, 0, 0, 0, 128] 8 4 0 15 0 (Suc 0) = [- 8]"
proof -
  let ?s = "[0, 0, 0, 0, 0, 0, 0, 128] :: bytes"
  have v: "unat (4 :: u64) = 4" "unat (8 :: u64) = 8" by simp_all
  have "scalar_at ?s 8 0 = 2 ^ 63" by (simp add: scalar_at_def)
  then have "unat (getBucketIndex ?s 8 4 (of_nat 0) (of_nat 15)) = 8"
    using getBucketIndex_val [of 8 4 0 ?s 15, unfolded v] by (simp add: drop_bit_eq_div take_bit_eq_mod)
  then have g: "uint (getBucketIndex ?s 8 4 (of_nat 0) (of_nat 15)) = 8" by (simp add: uint_nat)
  have "uint (calcBucketCount 4) = 8" using calcBucketCount_val [of 4] by (simp add: uint_nat)
  then show ?thesis unfolding slice_loop.simps Let_def g by simp
qed

end
