(* ===== verification/Groth16.thy ===== *)
theory Groth16
  imports GroupMul WitnessProgram
begin

text \<open>
  The Groth16 prover and verifier of rapidsnark (\<open>src/groth16.hpp\<close>, \<open>src/groth16.cpp\<close>), templates
  over an engine: the record \<open>Engine\<close> holds the operations of its scalar field and of its two
  groups. The random bytes and the order of the threads' jobs are parameters of \<open>Groth16_prove\<close>.
  The pairing (the loop of Miller and the final exponentiation, \<open>PairingOps\<close>) is an interface here. The
  theorem of the theory is completeness: for a proving key that belongs to a circuit, and a witness
  that satisfies it, the proof that the prover returns satisfies the equation of the verifier, which
  accepts it under every pairing with the laws of the interface.
\<close>

subsection \<open>The engine\<close>

record ('e, 'p, 'a, 'r, 'b) Engine =
  e_fr :: "'e field_ops"
  fr_bytes :: "'e \<Rightarrow> bytes"     \<comment> \<open>an element as the bytes in memory\<close>
  fr_ofBytes :: "bytes \<Rightarrow> 'e"
  fr_size :: u32
  e_g1 :: "('p, 'a) curve_ops"
  e_g2 :: "('r, 'b) curve_ops"

record 'e Coef =
  coef_m :: u32
  coef_c :: u32
  coef_s :: u32
  coef_coef :: 'e

record ('e, 'a, 'b) Prover =
  nVars :: u32
  nPublic :: u32
  domainSize :: u32
  nCoefs :: u64
  vk_alpha1 :: 'a
  vk_beta1 :: 'a
  vk_beta2 :: 'b
  vk_delta1 :: 'a
  vk_delta2 :: 'b
  p_coefs :: "'e Coef list"
  pointsA :: "'a list"
  pointsB1 :: "'a list"
  pointsB2 :: "'b list"
  pointsC :: "'a list"
  pointsH :: "'a list"
  p_fft :: "'e FFT"

record ('a, 'b) Proof =
  pf_A :: 'a
  pf_B :: 'b
  pf_C :: 'a

record ('a, 'b) VerificationKey =
  vk_Alpha :: 'a
  vk_Beta :: 'b
  vk_Gamma :: 'b
  vk_Delta :: 'b
  vk_IC :: "'a list"

subsection \<open>The prover\<close>

text \<open>The constructor makes the transform of the doubled domain; the product is one of 32 bits.\<close>

definition Prover_fft_size :: "u32 \<Rightarrow> u32" where
  "Prover_fft_size domainSize' = domainSize' * 2"

text \<open>One coefficient. The code uses its two indices unchecked; \<open>None\<close> stands for an access outside the arrays.\<close>

definition coef_step :: "'e field_ops \<Rightarrow> 'e list \<Rightarrow> 'e Coef list \<Rightarrow> nat \<Rightarrow> ('e list \<times> 'e list) option \<Rightarrow> ('e list \<times> 'e list) option" where
  "coef_step F wtns coefs i st =
     (case st of
        None \<Rightarrow> None
      | Some (a, b) \<Rightarrow>
          (let cf = coefs ! i;
               ab = (if coef_m cf = 0 then a else b);
               aux = f_mul F (wtns ! unat (coef_s cf)) (coef_coef cf);
               c = unat (coef_c cf)
           in if i \<ge> length coefs \<or> unat (coef_s cf) \<ge> length wtns \<or> c \<ge> length ab then None
              else let ab = ab[c := f_add F (ab ! c) aux]
                   in Some (if coef_m cf = 0 then (ab, b) else (a, ab))))"

text \<open>The values of a polynomial on the other half of the doubled domain.\<close>

definition shift_domain :: "'e field_ops \<Rightarrow> (nat list list \<Rightarrow> nat list) \<Rightarrow> nat \<Rightarrow> 'e FFT \<Rightarrow> nat \<Rightarrow> nat \<Rightarrow> 'e list \<Rightarrow> 'e list option" where
  "shift_domain F il nThreads fft domainPower n a =
     (case fft_ifft F fft il nThreads a n of
        None \<Rightarrow> None
      | Some a \<Rightarrow>
          let a = parallelFor il nThreads 0 n (\<lambda>i a. a[i := f_mul F (a ! i) (fft_root fft (domainPower + 1) i)]) a
          in fft_fft F fft il nThreads a n)"

definition prove_abc :: "'e field_ops \<Rightarrow> (nat list list \<Rightarrow> nat list) \<Rightarrow> nat \<Rightarrow> 'e \<Rightarrow> ('e, 'a, 'b) Prover \<Rightarrow> 'e list \<Rightarrow> 'e list option" where
  "prove_abc F il nThreads uninit P wtns =
     (let n = unat (domainSize P);
          a = replicate n uninit; b = replicate n uninit; c = replicate n uninit;
          (a, b) = parallelFor il nThreads 0 n (\<lambda>i (a, b). (a[i := f_zero F], b[i := f_zero F])) (a, b);
          ab = parallelFor il nThreads 0 (unat (nCoefs P)) (coef_step F wtns (p_coefs P)) (Some (a, b))
      in case ab of
           None \<Rightarrow> None
         | Some (a, b) \<Rightarrow>
     (let c = parallelFor il nThreads 0 n (\<lambda>i c. c[i := f_mul F (a ! i) (b ! i)]) c
      in case fft_log2 (of_nat n) of
           None \<Rightarrow> None
         | Some domainPower \<Rightarrow>
      (case shift_domain F il nThreads (p_fft P) domainPower n a of
         None \<Rightarrow> None
       | Some a \<Rightarrow>
      (case shift_domain F il nThreads (p_fft P) domainPower n b of
         None \<Rightarrow> None
       | Some b \<Rightarrow>
      (case shift_domain F il nThreads (p_fft P) domainPower n c of
         None \<Rightarrow> None
       | Some c \<Rightarrow>
           Some (parallelFor il nThreads 0 n
             (\<lambda>i a. a[i := f_fromMontgomery F (f_sub F (f_mul F (a ! i) (b ! i)) (c ! i))]) a))))))"

definition random_element :: "('e, 'p, 'a, 'r, 'b) Engine \<Rightarrow> bytes \<Rightarrow> 'e" where
  "random_element E rnd =
     (let k = unat (fr_size E) - 1 in fr_ofBytes E (take k rnd @ drop k (fr_bytes E (f_zero (e_fr E)))))"

definition Groth16_prove :: "('e, 'p, 'a, 'r, 'b) Engine \<Rightarrow> (nat list list \<Rightarrow> nat list) \<Rightarrow> nat \<Rightarrow> 'e \<Rightarrow>
    ('e, 'a, 'b) Prover \<Rightarrow> 'e list \<Rightarrow> bytes \<Rightarrow> bytes \<Rightarrow> ('a, 'b) Proof option" where
  "Groth16_prove E il nThreads uninit P wtns rnd_r rnd_s =
     (let F = e_fr E; G1 = e_g1 E; G2 = e_g2 E; sW = ucast (fr_size E); size' = unat (fr_size E);
          wtnsBytes = concat (map (fr_bytes E) wtns);
          pi_a = multiMulByScalarMSM G1 il nThreads (pointsA P) wtnsBytes sW (ucast (nVars P));
          pib1 = multiMulByScalarMSM G1 il nThreads (pointsB1 P) wtnsBytes sW (ucast (nVars P));
          pi_b = multiMulByScalarMSM G2 il nThreads (pointsB2 P) wtnsBytes sW (ucast (nVars P));
          pi_c = multiMulByScalarMSM G1 il nThreads (pointsC P)
                   (drop (unat ((nPublic P + 1) * fr_size E)) wtnsBytes) sW (ucast (nVars P - nPublic P - 1))
      in case prove_abc F il nThreads uninit P wtns of
           None \<Rightarrow> None
         | Some a \<Rightarrow>
      (let pih = multiMulByScalarMSM G1 il nThreads (pointsH P) (concat (map (fr_bytes E) a)) sW (ucast (domainSize P));
           r = random_element E rnd_r;
           s = random_element E rnd_s;
           pi_a = g_addA G1 pi_a (vk_alpha1 P);
           p1 = mulByScalarA G1 (vk_delta1 P) (fr_bytes E r) size';
           pi_a = g_add G1 pi_a p1;
           pi_b = g_addA G2 pi_b (vk_beta2 P);
           p2 = mulByScalarA G2 (vk_delta2 P) (fr_bytes E s) size';
           pi_b = g_add G2 pi_b p2;
           pib1 = g_addA G1 pib1 (vk_beta1 P);
           p1 = mulByScalarA G1 (vk_delta1 P) (fr_bytes E s) size';
           pib1 = g_add G1 pib1 p1;
           pi_c = g_add G1 pi_c pih;
           p1 = mulByScalar G1 pi_a (fr_bytes E s) size';
           pi_c = g_add G1 pi_c p1;
           p1 = mulByScalar G1 pib1 (fr_bytes E r) size';
           pi_c = g_add G1 pi_c p1;
           rs = f_mul F r s;
           rs = f_toMontgomery F rs;
           p1 = mulByScalarA G1 (vk_delta1 P) (fr_bytes E rs) size';
           pi_c = g_sub G1 pi_c p1
       in Some \<lparr>pf_A = g_toAffine G1 pi_a, pf_B = g_toAffine G2 pi_b, pf_C = g_toAffine G1 pi_c\<rparr>))"

subsection \<open>The verifier\<close>

record ('p, 'r, 't) Pairing =
  pr_isZero1 :: "'p \<Rightarrow> bool"
  pr_isZero2 :: "'r \<Rightarrow> bool"
  pr_one :: 't
  pr_mul :: "'t \<Rightarrow> 't \<Rightarrow> 't"
  pr_miller :: "'r \<Rightarrow> 'p \<Rightarrow> 't"
  pr_finalExponentiation :: "'t \<Rightarrow> 't"
  pr_isOne :: "'t \<Rightarrow> bool"

fun pairing_loop :: "('p, 'r, 't) Pairing \<Rightarrow> 'p list \<Rightarrow> 'r list \<Rightarrow> 't \<Rightarrow> 't" where
  "pairing_loop T (a # as) (b # bs) acc =
     (if pr_isZero1 T a \<or> pr_isZero2 T b then pairing_loop T as bs acc
      else pairing_loop T as bs (pr_mul T acc (pr_miller T b a)))"
| "pairing_loop T _ _ acc = acc"

definition pairingCheck :: "('p, 'r, 't) Pairing \<Rightarrow> 'p list \<Rightarrow> 'r list \<Rightarrow> bool" where
  "pairingCheck T a b = (let acc = pairing_loop T a b (pr_one T); ret = pr_finalExponentiation T acc in pr_isOne T ret)"

fun inputs_loop :: "('e, 'p, 'a, 'r, 'b) Engine \<Rightarrow> 'e list \<Rightarrow> 'a list \<Rightarrow> nat \<Rightarrow> 'p \<Rightarrow> 'p" where
  "inputs_loop E [] IC i vkX = vkX"
| "inputs_loop E (x # xs) IC i vkX =
     (let input = f_fromMontgomery (e_fr E) x;
          p1 = mulByScalarA (e_g1 E) (IC ! (i + 1)) (fr_bytes E input) (unat (fr_size E));
          vkX = g_add (e_g1 E) vkX p1
      in inputs_loop E xs IC (i + 1) vkX)"

definition Groth16_verify :: "('e, 'p, 'a, 'r, 'b) Engine \<Rightarrow> ('p, 'r, 't) Pairing \<Rightarrow> ('a, 'b) Proof \<Rightarrow> 'e list \<Rightarrow>
    ('a, 'b) VerificationKey \<Rightarrow> string + bool" where
  "Groth16_verify E T proof' inputs key =
     (if length inputs + 1 \<noteq> length (vk_IC key) then Inl ''len(inputs)+1 != len(vk.IC)''
      else let G1 = e_g1 E; G2 = e_g2 E;
               vkX = g_zero G1;
               vkX = inputs_loop E inputs (vk_IC key) 0 vkX;
               vkX = g_addA G1 vkX (vk_IC key ! 0);
               pA = g_fromAffine G1 (pf_A proof');
               negAlpha = g_negA G1 (vk_Alpha key);
               negvkX = g_neg G1 vkX;
               negC = g_negA G1 (pf_C proof');
               pB = g_fromAffine G2 (pf_B proof');
               pBeta = g_fromAffine G2 (vk_Beta key);
               pGamma = g_fromAffine G2 (vk_Gamma key);
               pDelta = g_fromAffine G2 (vk_Delta key)
           in Inr (pairingCheck T [pA, negAlpha, negvkX, negC] [pB, pBeta, pGamma, pDelta]))"

subsection \<open>Polynomials on the two domains\<close>

context fft_tables
begin

definition lag :: "nat \<Rightarrow> nat \<Rightarrow> int \<Rightarrow> int" where
  "lag K m t = (\<Sum>j < 2 ^ K. coeffs K (\<lambda>i. of_bool (i = m)) j * t ^ j)"

definition poly_at :: "nat \<Rightarrow> (nat \<Rightarrow> int) \<Rightarrow> int \<Rightarrow> int" where
  "poly_at K x t = (\<Sum>j < 2 ^ K. coeffs K x j * t ^ j)"

lemma coeffs_lag: "coeffs K x j = (\<Sum>m < 2 ^ K. x m * coeffs K (\<lambda>i. of_bool (i = m)) j)"
proof -
  have "(\<Sum>i < 2 ^ K. of_bool (i = m) * W K ^ (i * ((2 ^ K - j) mod 2 ^ K))) = W K ^ (m * ((2 ^ K - j) mod 2 ^ K))"
    if "m < 2 ^ K" for m
    using that by (subst sum.remove [of _ m]) simp_all
  then show ?thesis unfolding coeffs_def by (simp add: sum_distrib_left mult.left_commute)
qed

lemma poly_at_lag: "poly_at K x t = (\<Sum>m < 2 ^ K. x m * lag K m t)"
proof -
  have "poly_at K x t = (\<Sum>j < 2 ^ K. \<Sum>m < 2 ^ K. x m * (coeffs K (\<lambda>i. of_bool (i = m)) j * t ^ j))"
    unfolding poly_at_def by (simp add: coeffs_lag [of K x] sum_distrib_right mult.assoc)
  also have "\<dots> = (\<Sum>m < 2 ^ K. \<Sum>j < 2 ^ K. x m * (coeffs K (\<lambda>i. of_bool (i = m)) j * t ^ j))" by (rule sum.swap)
  finally show ?thesis by (simp add: lag_def sum_distrib_left)
qed

text \<open>Every power below the size of the domain, and every polynomial of small degree, is interpolated.\<close>

lemma power_interpolate:
  assumes "K \<le> fft_s fft" "e < 2 ^ K"
  shows "eqm (\<Sum>m < 2 ^ K. W K ^ (e * m) * lag K m t) (t ^ e)"
proof -
  let ?x = "\<lambda>i. of_bool (i = e) :: int"
  have d: "(\<Sum>i < 2 ^ K. ?x i * W K ^ (i * m)) = W K ^ (e * m)" for m
    using assms(2) by (subst sum.remove [of _ e]) simp_all
  have "eqm (\<Sum>j < 2 ^ K. coeffs K (\<lambda>m. W K ^ (e * m)) j * t ^ j) (\<Sum>j < 2 ^ K. ?x j * t ^ j)"
    using coeffs_of_values [OF assms(1), of _ ?x] unfolding d by (intro eqm_sum eqm_mult) simp_all
  moreover have "(\<Sum>j < 2 ^ K. ?x j * t ^ j) = t ^ e" using assms(2) by (subst sum.remove [of _ e]) simp_all
  ultimately show ?thesis using poly_at_lag [of K "\<lambda>m. W K ^ (e * m)" t] by (simp add: poly_at_def)
qed

lemma poly_interpolate:
  assumes "Suc k \<le> fft_s fft"
  shows "eqm (\<Sum>m < 2 ^ Suc k. (poly_at k x (W (Suc k) ^ m) * poly_at k y (W (Suc k) ^ m) - poly_at k z (W (Suc k) ^ m)) * lag (Suc k) m t)
    (poly_at k x t * poly_at k y t - poly_at k z t)"
proof -
  let ?n = "2 ^ k :: nat" and ?N = "2 ^ Suc k :: nat" and ?g = "W (Suc k)"
  have p: "(?g ^ m) ^ i = ?g ^ (i * m)" for m i by (simp add: mult.commute flip: power_mult)
  have "(\<Sum>m < ?N. poly_at k x (?g ^ m) * poly_at k y (?g ^ m) * lag (Suc k) m t) =
      (\<Sum>m < ?N. \<Sum>i < ?n. \<Sum>j < ?n. coeffs k x i * coeffs k y j * (?g ^ ((i + j) * m) * lag (Suc k) m t))"
    unfolding poly_at_def p sum_product unfolding sum_distrib_right
    by (intro sum.cong refl) (simp add: distrib_left power_add ac_simps)
  also have "\<dots> = (\<Sum>i < ?n. \<Sum>m < ?N. \<Sum>j < ?n. coeffs k x i * coeffs k y j * (?g ^ ((i + j) * m) * lag (Suc k) m t))"
    by (rule sum.swap)
  also have "\<dots> = (\<Sum>i < ?n. \<Sum>j < ?n. \<Sum>m < ?N. coeffs k x i * coeffs k y j * (?g ^ ((i + j) * m) * lag (Suc k) m t))"
    by (rule sum.cong [OF refl], rule sum.swap)
  also have "\<dots> = (\<Sum>i < ?n. \<Sum>j < ?n. coeffs k x i * coeffs k y j * (\<Sum>m < ?N. ?g ^ ((i + j) * m) * lag (Suc k) m t))"
    by (simp add: sum_distrib_left)
  finally have e1: "(\<Sum>m < ?N. poly_at k x (?g ^ m) * poly_at k y (?g ^ m) * lag (Suc k) m t) = \<dots>" .
  have "eqm (\<Sum>i < ?n. \<Sum>j < ?n. coeffs k x i * coeffs k y j * (\<Sum>m < ?N. ?g ^ ((i + j) * m) * lag (Suc k) m t))
      (\<Sum>i < ?n. \<Sum>j < ?n. coeffs k x i * coeffs k y j * t ^ (i + j))"
    by (intro eqm_sum eqm_mult power_interpolate assms eqm_refl) simp
  moreover have "(\<Sum>i < ?n. \<Sum>j < ?n. coeffs k x i * coeffs k y j * t ^ (i + j)) = poly_at k x t * poly_at k y t"
    unfolding poly_at_def sum_product by (simp add: power_add ac_simps)
  ultimately have p1: "eqm (\<Sum>m < ?N. poly_at k x (?g ^ m) * poly_at k y (?g ^ m) * lag (Suc k) m t) (poly_at k x t * poly_at k y t)"
    unfolding e1 by simp
  have "(\<Sum>m < ?N. poly_at k z (?g ^ m) * lag (Suc k) m t) = (\<Sum>m < ?N. \<Sum>i < ?n. coeffs k z i * (?g ^ (i * m) * lag (Suc k) m t))"
    unfolding poly_at_def p sum_distrib_right by (simp add: ac_simps)
  also have "\<dots> = (\<Sum>i < ?n. \<Sum>m < ?N. coeffs k z i * (?g ^ (i * m) * lag (Suc k) m t))" by (rule sum.swap)
  also have "\<dots> = (\<Sum>i < ?n. coeffs k z i * (\<Sum>m < ?N. ?g ^ (i * m) * lag (Suc k) m t))" by (simp add: sum_distrib_left)
  finally have e2: "(\<Sum>m < ?N. poly_at k z (?g ^ m) * lag (Suc k) m t) = \<dots>" .
  have p2: "eqm (\<Sum>m < ?N. poly_at k z (?g ^ m) * lag (Suc k) m t) (poly_at k z t)"
    unfolding e2 poly_at_def [of k z t] by (intro eqm_sum eqm_mult power_interpolate assms eqm_refl) simp
  show ?thesis using eqm_diff [OF p1 p2] by (simp add: left_diff_distrib sum_subtractf)
qed

lemma sum_double: "(\<Sum>m < 2 * n. f m) = (\<Sum>l < n. f (2 * l)) + (\<Sum>l < n. f (2 * l + 1 :: nat) :: int)"
  by (induction n) simp_all

text \<open>What vanishes on the first domain is given by its values on the other half of the doubled one.\<close>

lemma odd_interpolate:
  assumes "Suc k \<le> fft_s fft" "\<And>l. l < 2 ^ k \<Longrightarrow> eqm (x l * y l) (z l)"
  shows "eqm (\<Sum>l < 2 ^ k. (poly_at k x (W (Suc k) ^ (2 * l + 1)) * poly_at k y (W (Suc k) ^ (2 * l + 1)) - poly_at k z (W (Suc k) ^ (2 * l + 1))) * lag (Suc k) (2 * l + 1) t)
    (poly_at k x t * poly_at k y t - poly_at k z t)"
proof -
  let ?P = "\<lambda>m. poly_at k x (W (Suc k) ^ m) * poly_at k y (W (Suc k) ^ m) - poly_at k z (W (Suc k) ^ m)"
  have k: "k < fft_s fft" using assms(1) by simp
  have ev: "eqm (poly_at k v (W (Suc k) ^ (2 * l))) (v l)" if "l < 2 ^ k" for v l
  proof -
    have "(W (Suc k) ^ (2 * l)) ^ j = W k ^ (j * l)" for j
      using W_double [OF k] by (metis power_mult mult.commute)
    then show ?thesis using coeffs_eval [of k l v] k that by (simp add: poly_at_def)
  qed
  have "eqm (?P (2 * l) * lag (Suc k) (2 * l) t) (0 * lag (Suc k) (2 * l) t)" if l: "l < 2 ^ k" for l
  proof -
    have "eqm (?P (2 * l)) (x l * y l - z l)" by (intro eqm_diff eqm_mult ev l)
    moreover have "eqm (x l * y l - z l) (z l - z l)" by (intro eqm_diff assms(2) l) simp
    ultimately have "eqm (?P (2 * l)) 0" by (simp add: eqm_trans)
    then show ?thesis by (intro eqm_mult) simp_all
  qed
  then have "eqm (\<Sum>l < 2 ^ k. ?P (2 * l) * lag (Suc k) (2 * l) t) (\<Sum>l < (2 :: nat) ^ k. 0)" by (intro eqm_sum) simp
  then have z: "eqm (\<Sum>l < 2 ^ k. ?P (2 * l) * lag (Suc k) (2 * l) t) 0" by simp
  have "eqm (\<Sum>l < 2 ^ k. ?P (2 * l + 1) * lag (Suc k) (2 * l + 1) t) (\<Sum>m < 2 ^ Suc k. ?P m * lag (Suc k) m t)"
    unfolding power_Suc sum_double using eqm_add [OF eqm_sym [OF z] eqm_refl] by simp
  from eqm_trans [OF this poly_interpolate [OF assms(1)]] show ?thesis .
qed

end

subsection \<open>The loops of the prover\<close>

lemma map_fold: "length a = n \<Longrightarrow> distinct xs \<Longrightarrow> set xs \<subseteq> {..<n} \<Longrightarrow>
    length (foldl (\<lambda>a i. a[i := g i (a ! i)]) a xs) = n \<and>
    (\<forall>i < n. foldl (\<lambda>a i. a[i := g i (a ! i)]) a xs ! i = (if i \<in> set xs then g i (a ! i) else a ! i))"
proof (induction xs arbitrary: a)
  case (Cons x xs)
  then show ?case using Cons.IH [of "a[x := g x (a ! x)]"] by (auto simp: nth_list_update)
qed simp

lemma parallelFor_map:
  assumes "fair il" "0 < t" "n < 2 ^ 31" "length a = n"
  shows "parallelFor il t 0 n (\<lambda>i a. a[i := g i (a ! i)]) a = map (\<lambda>i. g i (a ! i)) [0..<n]"
proof -
  obtain xs where xs: "parallelFor il t 0 n (\<lambda>i a. a[i := g i (a ! i)]) a = foldl (\<lambda>a i. a[i := g i (a ! i)]) a xs"
    "distinct xs" "set xs = {0..<n}"
    by (rule parallelFor_perm [OF assms(1,2) zero_le_one assms(3)])
  have "set xs \<subseteq> {..<n}" using xs(3) by auto
  note f = map_fold [OF assms(4) xs(2) this, of g]
  show ?thesis unfolding xs(1) by (rule nth_equalityI) (use f xs(3) in simp_all)
qed

lemma parallelFor_zeros:
  assumes "fair il" "0 < t" "n < 2 ^ 31" "length a = n" "length b = n"
  shows "parallelFor il t 0 n (\<lambda>i (a, b). (a[i := z], b[i := z])) (a, b) = (replicate n z, replicate n z)"
proof -
  obtain xs where xs: "parallelFor il t 0 n (\<lambda>i (a, b). (a[i := z], b[i := z])) (a, b) =
      foldl (\<lambda>st i. (\<lambda>(a, b). (a[i := z], b[i := z])) st) (a, b) xs" "distinct xs" "set xs = {0..<n}"
    by (rule parallelFor_perm [OF assms(1,2) zero_le_one assms(3)])
  have p: "foldl (\<lambda>st i. (\<lambda>(a, b). (a[i := z], b[i := z])) st) (a, b) ys =
      (foldl (\<lambda>a i. a[i := z]) a ys, foldl (\<lambda>b i. b[i := z]) b ys)" for ys
    by (induction ys arbitrary: a b) simp_all
  have s: "set xs \<subseteq> {..<n}" using xs(3) by auto
  show ?thesis unfolding xs(1) p using fill_fold [OF assms(4) s, of "\<lambda>i. z"] fill_fold [OF assms(5) s, of "\<lambda>i. z"] xs(3)
    by (auto intro!: nth_equalityI)
qed

lemma unat_up: "unat (ucast (x :: u32) :: u64) = unat x"
proof -
  have "unat x < 2 ^ 32" using unsigned_less [of x] by simp
  then have "unat x < 2 ^ 64" by simp
  then show ?thesis by (simp add: unsigned_ucast_eq take_bit_nat_eq_self)
qed

lemma concat_slice:
  "\<forall>x \<in> set xs. length x = S \<Longrightarrow> i < length xs \<Longrightarrow> take S (drop (i * S) (concat xs)) = xs ! i"
proof (induction xs arbitrary: i)
  case (Cons x xs)
  then show ?case by (cases i) simp_all
qed simp

lemma length_concat_slices: "\<forall>x \<in> set xs. length x = S \<Longrightarrow> length (concat xs) = length xs * S"
  by (induction xs) simp_all

lemma concat_drop: "\<forall>x \<in> set xs. length x = S \<Longrightarrow> drop (i * S) (concat xs) = concat (drop i xs)"
proof (induction xs arbitrary: i)
  case (Cons x xs)
  then show ?case by (cases i) simp_all
qed simp

text \<open>
  What the prover relies on: the field, the groups as multiples of a generator of order \<open>q\<close>, and
  the bytes of an element, those of its value times \<open>R\<close>.
\<close>

locale engine_vals = field_vals "e_fr E" rel q + g1: curve_vals "e_g1 E" gp1 ga1 q + g2: curve_vals "e_g2 E" gp2 ga2 q
  for E :: "('e, 'p, 'a, 'r, 'b) Engine" and rel q gp1 ga1 gp2 ga2 +
  fixes R Ri :: int
  assumes R_inv: "(R * Ri) mod q = 1 mod q"
    and rel_zero: "rel (f_zero (e_fr E)) 0"
    and rel_toMontgomery: "rel a u \<Longrightarrow> rel (f_toMontgomery (e_fr E) a) (u * R)"
    and rel_fromMontgomery: "rel a u \<Longrightarrow> rel (f_fromMontgomery (e_fr E) a) (u * Ri)"
    and bytes_len: "rel a u \<Longrightarrow> length (fr_bytes E a) = unat (fr_size E)"
    and bytes_val: "rel a u \<Longrightarrow> int (le_nat (fr_bytes E a)) = (u * R) mod q"
    and rel_ofBytes: "length s = unat (fr_size E) \<Longrightarrow> int (le_nat s) < q \<Longrightarrow> rel (fr_ofBytes E s) (int (le_nat s) * Ri)"
    and size_ok: "8 \<le> unat (fr_size E)" "unat (fr_size E) < 2 ^ 28"
    and q_range: "2 ^ (8 * (unat (fr_size E) - 1)) < q" "q < 2 ^ (8 * unat (fr_size E) - 2)"
begin

lemma q_pos: "0 < q"
proof -
  have "(0::int) < 2 ^ (8 * (unat (fr_size E) - 1))" by simp
  then show ?thesis using q_range(1) by linarith
qed

lemma normal_val: "rel a (v * Ri) \<Longrightarrow> int (le_nat (fr_bytes E a)) = v mod q"
proof -
  assume a: "rel a (v * Ri)"
  have "eqm (v * (R * Ri)) (v * 1)" using R_inv by (intro eqm_mult eqm_refl) (simp add: eqm_def)
  then show ?thesis using bytes_val [OF a] by (simp add: eqm_def ac_simps)
qed

lemma mont_val: "rel a u \<Longrightarrow> int (le_nat (fr_bytes E (f_toMontgomery (e_fr E) a))) = (u * R * R) mod q"
  using bytes_val [OF rel_toMontgomery] by blast

text \<open>A sum of products whose scalars are elements in normal form.\<close>

lemma MSM_elements:
  assumes G: "curve_vals G gp ga q" and il: "fair il" "0 < nT" and N: "unat N = length xs" "unat N < 2 ^ 31"
    and x: "\<And>i. i < length xs \<Longrightarrow> rel (xs ! i) (v i * Ri)" and k: "\<And>i. i < length xs \<Longrightarrow> ga (bases ! i) (k i)"
  shows "gp (multiMulByScalarMSM G il nT bases (concat (map (fr_bytes E) xs)) (ucast (fr_size E)) N) (\<Sum>i < length xs. v i * k i)"
proof -
  note mono = curve_vals.multiMulByScalarMSM_val [OF G il]
  let ?s = "concat (map (fr_bytes E) xs)" and ?S = "unat (fr_size E)"
  have S: "unat (ucast (fr_size E) :: u64) = ?S" by (rule unat_up)
  have l: "\<forall>b \<in> set (map (fr_bytes E) xs). length b = ?S" using bytes_len [OF x] by (auto simp: in_set_conv_nth)
  have at: "int (scalar_at ?s ?S i) = v i mod q" if "i < length xs" for i
    using concat_slice [OF l, of i] that normal_val [OF x [OF that]] by (simp add: scalar_at_def)
  have b: "scalar_at ?s ?S i < 2 ^ (8 * ?S - 2)" if "i < length xs" for i
  proof -
    have "int (scalar_at ?s ?S i) < q" using at [OF that] q_pos by simp
    then have "int (scalar_at ?s ?S i) < 2 ^ (8 * ?S - 2)" using q_range(2) by linarith
    then show ?thesis by simp
  qed
  have "gp (multiMulByScalarMSM G il nT bases ?s (ucast (fr_size E)) N) (\<Sum>i < unat N. int (scalar_at ?s ?S i) * k i)"
    using mono [of "ucast (fr_size E)" N ?s bases k] size_ok N b k length_concat_slices [OF l] by (simp add: S)
  moreover have "(\<Sum>i < unat N. int (scalar_at ?s ?S i) * k i) mod q = (\<Sum>i < length xs. v i * k i) mod q"
  proof -
    have "eqm (\<Sum>i < unat N. int (scalar_at ?s ?S i) * k i) (\<Sum>i < length xs. v i * k i)"
      unfolding N(1) by (intro eqm_sum eqm_mult eqm_refl) (simp add: at eqm_def)
    then show ?thesis by (simp only: eqm_def)
  qed
  ultimately show ?thesis by (rule curve_vals.gp_cong [OF G])
qed

lemma mul_element:
  assumes G: "curve_vals G gp ga q" and a: "rel a (v * Ri)"
  shows "gp b k \<Longrightarrow> gp (mulByScalar G b (fr_bytes E a) (unat (fr_size E))) (v * k)"
    and "ga c k \<Longrightarrow> gp (mulByScalarA G c (fr_bytes E a) (unat (fr_size E))) (v * k)"
proof -
  have l: "length (fr_bytes E a) = unat (fr_size E)" "0 < length (fr_bytes E a)" using bytes_len [OF a] size_ok by simp_all
  have v: "(int (le_nat (fr_bytes E a)) * k) mod q = (v * k) mod q" unfolding normal_val [OF a] by (simp add: mod_mult_left_eq)
  show "gp b k \<Longrightarrow> gp (mulByScalar G b (fr_bytes E a) (unat (fr_size E))) (v * k)"
    using curve_vals.mulByScalar_val [OF G _ l(2)] curve_vals.gp_cong [OF G _ v] unfolding l(1) by blast
  show "ga c k \<Longrightarrow> gp (mulByScalarA G c (fr_bytes E a) (unat (fr_size E))) (v * k)"
    using curve_vals.mulByScalarA_val [OF G _ l(2)] curve_vals.gp_cong [OF G _ v] unfolding l(1) by blast
qed

lemma random_element_val:
  assumes "length rnd = unat (fr_size E) - 1"
  shows "rel (random_element E rnd) (int (le_nat rnd) * Ri)"
proof -
  let ?S = "unat (fr_size E)" and ?z = "fr_bytes E (f_zero (e_fr E))"
  have z: "length ?z = ?S" "le_nat ?z = 0" using bytes_len [OF rel_zero] bytes_val [OF rel_zero] by simp_all
  have "?z = take (?S - 1) ?z @ drop (?S - 1) ?z" by simp
  then have "le_nat (drop (?S - 1) ?z) = 0"
    using z le_nat_append [of "take (?S - 1) ?z" "drop (?S - 1) ?z"] by simp
  then have v: "le_nat (rnd @ drop (?S - 1) ?z) = le_nat rnd" by (simp add: le_nat_append)
  have l: "length (rnd @ drop (?S - 1) ?z) = ?S" using assms z size_ok by simp
  have "int (le_nat rnd) < 2 ^ (8 * (?S - 1))"
    using le_nat_less [of rnd] assms by (simp add: power_mult flip: of_nat_less_iff)
  then have "int (le_nat (rnd @ drop (?S - 1) ?z)) < q" unfolding v using q_range(1) by linarith
  from rel_ofBytes [OF l this] show ?thesis using assms unfolding random_element_def Let_def v by simp
qed

end

text \<open>A row of the matrix that the coefficients describe, applied to a witness; a column of the matrix.\<close>

definition row_value :: "'e Coef list \<Rightarrow> (nat \<Rightarrow> int) \<Rightarrow> (nat \<Rightarrow> int) \<Rightarrow> bool \<Rightarrow> nat \<Rightarrow> int" where
  "row_value cs cv wv inA c =
     (\<Sum>t < length cs. if (coef_m (cs ! t) = 0) = inA \<and> unat (coef_c (cs ! t)) = c then cv t * wv (unat (coef_s (cs ! t))) else 0)"

definition column :: "'e Coef list \<Rightarrow> (nat \<Rightarrow> int) \<Rightarrow> bool \<Rightarrow> nat \<Rightarrow> nat \<Rightarrow> int" where
  "column cs cv inA i c =
     (\<Sum>t < length cs. if (coef_m (cs ! t) = 0) = inA \<and> unat (coef_c (cs ! t)) = c \<and> unat (coef_s (cs ! t)) = i then cv t else 0)"

lemma row_value_columns:
  assumes "\<And>t. t < length cs \<Longrightarrow> unat (coef_s (cs ! t)) < N"
  shows "row_value cs cv wv inA c = (\<Sum>i < N. column cs cv inA i c * wv i)"
proof -
  let ?on = "\<lambda>t. (coef_m (cs ! t) = 0) = inA \<and> unat (coef_c (cs ! t)) = c"
  have "(\<Sum>i < N. column cs cv inA i c * wv i) =
      (\<Sum>t < length cs. \<Sum>i < N. (if ?on t \<and> unat (coef_s (cs ! t)) = i then cv t else 0) * wv i)"
    unfolding column_def sum_distrib_right by (subst sum.swap) (simp add: conj_assoc)
  also have "\<dots> = (\<Sum>t < length cs. if ?on t then cv t * wv (unat (coef_s (cs ! t))) else 0)"
  proof (rule sum.cong [OF refl])
    fix t assume "t \<in> {..<length cs}"
    then have s: "unat (coef_s (cs ! t)) < N" using assms by simp
    have "(\<Sum>i < N. (if ?on t \<and> unat (coef_s (cs ! t)) = i then cv t else 0) * wv i) =
        (\<Sum>i < N. if unat (coef_s (cs ! t)) = i then if ?on t then cv t * wv i else 0 else 0)"
      by (rule sum.cong) auto
    also have "\<dots> = (if ?on t then cv t * wv (unat (coef_s (cs ! t))) else 0)" using s by (subst sum.delta') simp_all
    finally show "(\<Sum>i < N. (if ?on t \<and> unat (coef_s (cs ! t)) = i then cv t else 0) * wv i) = \<dots>" .
  qed
  finally show ?thesis by (simp add: row_value_def)
qed

context engine_vals
begin

lemma coef_fold:
  assumes w: "\<And>t. t \<in> set xs \<Longrightarrow> rel (wtns ! unat (coef_s (cs ! t))) (wv (unat (coef_s (cs ! t))) * Ri)"
    and cv: "\<And>t. t \<in> set xs \<Longrightarrow> rel (coef_coef (cs ! t)) (cv t * R)"
    and ix: "\<And>t. t \<in> set xs \<Longrightarrow> t < length cs \<and> unat (coef_s (cs ! t)) < length wtns \<and> unat (coef_c (cs ! t)) < n"
  defines "v \<equiv> \<lambda>inA c t. if (coef_m (cs ! t) = 0) = inA \<and> unat (coef_c (cs ! t)) = c then cv t * wv (unat (coef_s (cs ! t))) else 0"
  shows "length a = n \<Longrightarrow> length b = n \<Longrightarrow> \<forall>c < n. rel (a ! c) (x c) \<and> rel (b ! c) (y c) \<Longrightarrow>
    \<exists>a' b'. foldl (\<lambda>st t. coef_step (e_fr E) wtns cs t st) (Some (a, b)) xs = Some (a', b') \<and>
    length a' = n \<and> length b' = n \<and>
    (\<forall>c < n. rel (a' ! c) (x c + (\<Sum>t \<leftarrow> xs. v True c t)) \<and> rel (b' ! c) (y c + (\<Sum>t \<leftarrow> xs. v False c t)))"
  using w cv ix
proof (induction xs arbitrary: a b x y)
  case (Cons t xs)
  let ?F = "e_fr E" and ?c = "unat (coef_c (cs ! t))"
  let ?aux = "f_mul ?F (wtns ! unat (coef_s (cs ! t))) (coef_coef (cs ! t))"
  have "rel ?aux (wv (unat (coef_s (cs ! t))) * Ri * (cv t * R))" using Cons.prems(4,5) by (intro rel_mul) simp_all
  moreover have "eqm (wv (unat (coef_s (cs ! t))) * cv t * (R * Ri)) (wv (unat (coef_s (cs ! t))) * cv t * 1)"
    using R_inv by (intro eqm_mult eqm_refl) (simp add: eqm_def)
  ultimately have aux: "rel ?aux (cv t * wv (unat (coef_s (cs ! t))))"
    by (elim rel_eqm) (simp add: ac_simps)
  have tx: "t < length cs" "unat (coef_s (cs ! t)) < length wtns" "?c < n" using Cons.prems(6) by simp_all
  define a1 b1 where "a1 = (if coef_m (cs ! t) = 0 then a[?c := f_add ?F (a ! ?c) ?aux] else a)"
    and "b1 = (if coef_m (cs ! t) = 0 then b else b[?c := f_add ?F (b ! ?c) ?aux])"
  have s: "coef_step ?F wtns cs t (Some (a, b)) = Some (a1, b1)"
    using tx Cons.prems(1,2) by (simp add: coef_step_def Let_def a1_def b1_def)
  have l: "length a1 = n" "length b1 = n" using Cons.prems(1,2) by (simp_all add: a1_def b1_def)
  have r: "\<forall>c < n. rel (a1 ! c) (x c + v True c t) \<and> rel (b1 ! c) (y c + v False c t)"
  proof (intro allI impI)
    fix c assume c: "c < n"
    then have ab: "rel (a ! c) (x c)" "rel (b ! c) (y c)" using Cons.prems(3) by simp_all
    show "rel (a1 ! c) (x c + v True c t) \<and> rel (b1 ! c) (y c + v False c t)"
    proof (cases "?c = c")
      case True
      then show ?thesis using ab rel_add [OF ab(1) aux] rel_add [OF ab(2) aux] Cons.prems(1,2) c
        by (auto simp: a1_def b1_def v_def)
    next
      case False
      then show ?thesis using ab by (auto simp: a1_def b1_def v_def)
    qed
  qed
  have "\<exists>a' b'. foldl (\<lambda>st t. coef_step ?F wtns cs t st) (Some (a1, b1)) xs = Some (a', b') \<and> length a' = n \<and> length b' = n \<and>
      (\<forall>c < n. rel (a' ! c) (x c + v True c t + (\<Sum>t \<leftarrow> xs. v True c t)) \<and> rel (b' ! c) (y c + v False c t + (\<Sum>t \<leftarrow> xs. v False c t)))"
    by (rule Cons.IH [OF l r]) (use Cons.prems(4-6) in simp_all)
  then show ?case by (simp add: s add.assoc)
qed simp

lemma coef_loop:
  assumes il: "fair il" "0 < nT" and N: "length cs < 2 ^ 31"
    and w: "\<And>t. t < length cs \<Longrightarrow> rel (wtns ! unat (coef_s (cs ! t))) (wv (unat (coef_s (cs ! t))) * Ri)"
    and cv: "\<And>t. t < length cs \<Longrightarrow> rel (coef_coef (cs ! t)) (cv t * R)"
    and ix: "\<And>t. t < length cs \<Longrightarrow> unat (coef_s (cs ! t)) < length wtns \<and> unat (coef_c (cs ! t)) < n"
  shows "\<exists>a b. parallelFor il nT 0 (length cs) (coef_step (e_fr E) wtns cs) (Some (replicate n (f_zero (e_fr E)), replicate n (f_zero (e_fr E)))) = Some (a, b) \<and>
    length a = n \<and> length b = n \<and>
    (\<forall>c < n. rel (a ! c) (row_value cs cv wv True c) \<and> rel (b ! c) (row_value cs cv wv False c))"
proof -
  let ?z = "replicate n (f_zero (e_fr E))"
  obtain xs where xs: "parallelFor il nT 0 (length cs) (coef_step (e_fr E) wtns cs) (Some (?z, ?z)) =
      foldl (\<lambda>st t. coef_step (e_fr E) wtns cs t st) (Some (?z, ?z)) xs" "distinct xs" "set xs = {0..<length cs}"
    by (rule parallelFor_perm [OF il zero_le_one N])
  have z: "\<forall>c < n. rel (?z ! c) 0 \<and> rel (?z ! c) 0" using rel_zero by simp
  have w': "rel (wtns ! unat (coef_s (cs ! t))) (wv (unat (coef_s (cs ! t))) * Ri)"
    and cv': "rel (coef_coef (cs ! t)) (cv t * R)"
    and ix': "t < length cs \<and> unat (coef_s (cs ! t)) < length wtns \<and> unat (coef_c (cs ! t)) < n" if "t \<in> set xs" for t
    using that xs(3) w cv ix by simp_all
  have s: "(\<Sum>t \<leftarrow> xs. f t) = (\<Sum>t < length cs. f t)" for f :: "nat \<Rightarrow> int"
    using sum_list_distinct_conv_sum_set [OF xs(2), of f] xs(3) by (simp add: atLeast0LessThan)
  have z': "length ?z = n" by simp
  show ?thesis
    using coef_fold [of xs, OF w' cv' ix' z' z' z] unfolding xs(1) s row_value_def by (simp only: add_0)
qed

end

locale prover_vals = engine_vals E rel q gp1 ga1 gp2 ga2 R Ri + fft_tables "e_fr E" rel q fft w p
  for E :: "('e, 'p, 'a, 'r, 'b) Engine" and rel q gp1 ga1 gp2 ga2 R Ri and fft :: "'e FFT" and w p
begin

lemma shift_domain_rel:
  assumes il: "fair il" "0 < nT" and k: "k \<le> 30" "Suc k \<le> fft_s fft" and a: "length a = 2 ^ k" "\<forall>i < 2 ^ k. rel (a ! i) (x i)"
  shows "\<exists>a'. shift_domain (e_fr E) il nT fft k (2 ^ k) a = Some a' \<and> length a' = 2 ^ k \<and>
    (\<forall>l < 2 ^ k. rel (a' ! l) (poly_at k x (W (Suc k) ^ (2 * l + 1))))"
proof -
  let ?n = "2 ^ k :: nat" and ?F = "e_fr E"
  have k': "k \<le> fft_s fft" "k < fft_s fft" using k(2) by simp_all
  obtain c where c: "fft_ifft ?F fft il nT a ?n = Some c" "length c = ?n" "\<forall>j < ?n. rel (c ! j) (coeffs k x j)"
    using fft_ifft_coeffs [OF il k(1) k'(1) a] by blast
  define d where "d = parallelFor il nT 0 ?n (\<lambda>i a. a[i := f_mul ?F (a ! i) (fft_root fft (k + 1) i)]) c"
  have d: "d = map (\<lambda>i. f_mul ?F (c ! i) (fft_root fft (k + 1) i)) [0..<?n]"
    unfolding d_def by (rule parallelFor_map [OF il pow_30(1) [OF k(1)] c(2)])
  have dv: "\<forall>i < ?n. rel (d ! i) (coeffs k x i * W (Suc k) ^ i)"
  proof (intro allI impI)
    fix i assume i: "i < ?n"
    have "rel (fft_root fft (Suc k) i) (W (Suc k) ^ i)" using i k(2) by (intro root_rel) simp_all
    then have "rel (f_mul ?F (c ! i) (fft_root fft (Suc k) i)) (coeffs k x i * W (Suc k) ^ i)"
      using c(3) i by (intro rel_mul) simp_all
    then show "rel (d ! i) (coeffs k x i * W (Suc k) ^ i)" using i by (simp add: d)
  qed
  have dl: "length d = ?n" by (simp add: d)
  obtain e where e: "fft_fft ?F fft il nT d ?n = Some e" "length e = ?n"
      "\<forall>l < ?n. rel (e ! l) (\<Sum>i < 2 ^ k. coeffs k x i * W (Suc k) ^ i * W k ^ (i * l))"
    using fft_fft_rel [OF il k(1) k'(1) dl dv] by blast
  have "(\<Sum>i < 2 ^ k. coeffs k x i * W (Suc k) ^ i * W k ^ (i * l)) = poly_at k x (W (Suc k) ^ (2 * l + 1))" for l
  proof -
    have "W (Suc k) ^ i * W k ^ (i * l) = (W (Suc k) ^ (2 * l + 1)) ^ i" for i
      unfolding W_double [OF k'(2), symmetric] by (simp add: algebra_simps flip: power_mult power_add)
    then show ?thesis unfolding poly_at_def by (simp only: mult.assoc)
  qed
  then show ?thesis using c(1) e unfolding d_def shift_domain_def by simp
qed

text \<open>The numerator of the quotient at the points of the other half, in normal form.\<close>

definition abc_at :: "nat \<Rightarrow> (nat \<Rightarrow> int) \<Rightarrow> (nat \<Rightarrow> int) \<Rightarrow> nat \<Rightarrow> int" where
  "abc_at k x y l =
     (let t = W (Suc k) ^ (2 * l + 1) in poly_at k x t * poly_at k y t - poly_at k (\<lambda>c. x c * y c) t)"

lemma prove_abc_val:
  assumes il: "fair il" "0 < nT" and k: "k \<le> 30" "Suc k \<le> fft_s fft" "unat (domainSize P) = 2 ^ k" "p_fft P = fft"
    and N: "unat (nCoefs P) = length (p_coefs P)" "length (p_coefs P) < 2 ^ 31"
    and w: "\<And>t. t < length (p_coefs P) \<Longrightarrow> rel (wtns ! unat (coef_s (p_coefs P ! t))) (wv (unat (coef_s (p_coefs P ! t))) * Ri)"
    and cv: "\<And>t. t < length (p_coefs P) \<Longrightarrow> rel (coef_coef (p_coefs P ! t)) (cv t * R)"
    and ix: "\<And>t. t < length (p_coefs P) \<Longrightarrow> unat (coef_s (p_coefs P ! t)) < length wtns \<and> unat (coef_c (p_coefs P ! t)) < 2 ^ k"
  shows "\<exists>h. prove_abc (e_fr E) il nT uninit P wtns = Some h \<and> length h = 2 ^ k \<and>
    (\<forall>l < 2 ^ k. rel (h ! l) (abc_at k (row_value (p_coefs P) cv wv True) (row_value (p_coefs P) cv wv False) l * Ri))"
proof -
  let ?F = "e_fr E" and ?n = "2 ^ k :: nat" and ?u = "replicate (2 ^ k) uninit"
  let ?x = "row_value (p_coefs P) cv wv True" and ?y = "row_value (p_coefs P) cv wv False"
  have n31: "?n < 2 ^ 31" by (rule pow_30(1) [OF k(1)])
  have z: "parallelFor il nT 0 ?n (\<lambda>i (a, b). (a[i := f_zero ?F], b[i := f_zero ?F])) (?u, ?u) =
      (replicate ?n (f_zero ?F), replicate ?n (f_zero ?F))"
    by (rule parallelFor_zeros [OF il n31]) simp_all
  obtain a b where ab: "parallelFor il nT 0 (length (p_coefs P)) (coef_step ?F wtns (p_coefs P))
        (Some (replicate ?n (f_zero ?F), replicate ?n (f_zero ?F))) = Some (a, b)"
      "length a = ?n" "length b = ?n" "\<forall>c < ?n. rel (a ! c) (?x c) \<and> rel (b ! c) (?y c)"
    using coef_loop [OF il N(2) w cv ix] by blast
  define c where "c = parallelFor il nT 0 ?n (\<lambda>i c. c[i := f_mul ?F (a ! i) (b ! i)]) ?u"
  have c: "c = map (\<lambda>i. f_mul ?F (a ! i) (b ! i)) [0..<?n]"
    unfolding c_def by (rule parallelFor_fill [OF il n31]) simp
  have cl: "length c = ?n" "\<forall>i < ?n. rel (c ! i) (?x i * ?y i)" using ab(4) by (simp_all add: c rel_mul)
  have al: "\<forall>c < ?n. rel (a ! c) (?x c)" "\<forall>c < ?n. rel (b ! c) (?y c)" using ab(4) by simp_all
  obtain a2 where a2: "shift_domain ?F il nT fft k ?n a = Some a2" "length a2 = ?n"
      "\<forall>l < ?n. rel (a2 ! l) (poly_at k ?x (W (Suc k) ^ (2 * l + 1)))"
    using shift_domain_rel [OF il k(1,2) ab(2) al(1)] by blast
  obtain b2 where b2: "shift_domain ?F il nT fft k ?n b = Some b2" "length b2 = ?n"
      "\<forall>l < ?n. rel (b2 ! l) (poly_at k ?y (W (Suc k) ^ (2 * l + 1)))"
    using shift_domain_rel [OF il k(1,2) ab(3) al(2)] by blast
  obtain c2 where c2: "shift_domain ?F il nT fft k ?n c = Some c2" "length c2 = ?n"
      "\<forall>l < ?n. rel (c2 ! l) (poly_at k (\<lambda>c. ?x c * ?y c) (W (Suc k) ^ (2 * l + 1)))"
    using shift_domain_rel [OF il k(1,2) cl] by blast
  define h where "h = parallelFor il nT 0 ?n
      (\<lambda>i a. a[i := f_fromMontgomery ?F (f_sub ?F (f_mul ?F (a ! i) (b2 ! i)) (c2 ! i))]) a2"
  have h: "h = map (\<lambda>i. f_fromMontgomery ?F (f_sub ?F (f_mul ?F (a2 ! i) (b2 ! i)) (c2 ! i))) [0..<?n]"
    unfolding h_def by (rule parallelFor_map [OF il n31 a2(2)])
  have log: "fft_log2 (of_nat ?n) = Some k" using fft_log2_pow [of k] k(1) by simp
  have run: "prove_abc ?F il nT uninit P wtns = Some h"
    unfolding prove_abc_def Let_def k(3,4) N(1) z prod.case ab(1) option.case c_def [symmetric] log a2(1) b2(1) c2(1) h_def ..
  have "rel (h ! l) (abc_at k ?x ?y l * Ri)" if "l < ?n" for l
    using that a2(3) b2(3) c2(3) unfolding abc_at_def Let_def
    by (simp add: h rel_fromMontgomery rel_sub rel_mul)
  then show ?thesis using run by (simp add: h)
qed

end

text \<open>A proving key whose points have the given values.\<close>

record key_values =
  kv_alpha :: int
  kv_beta :: int
  kv_delta :: int
  kv_A :: "nat \<Rightarrow> int"
  kv_B :: "nat \<Rightarrow> int"
  kv_C :: "nat \<Rightarrow> int"
  kv_H :: "nat \<Rightarrow> int"

definition key_points :: "('a \<Rightarrow> int \<Rightarrow> bool) \<Rightarrow> ('b \<Rightarrow> int \<Rightarrow> bool) \<Rightarrow> ('e, 'a, 'b) Prover \<Rightarrow> key_values \<Rightarrow> bool" where
  "key_points ga1 ga2 P V \<longleftrightarrow>
     ga1 (vk_alpha1 P) (kv_alpha V) \<and> ga1 (vk_beta1 P) (kv_beta V) \<and> ga2 (vk_beta2 P) (kv_beta V) \<and>
     ga1 (vk_delta1 P) (kv_delta V) \<and> ga2 (vk_delta2 P) (kv_delta V) \<and>
     (\<forall>i < unat (nVars P). ga1 (pointsA P ! i) (kv_A V i) \<and> ga1 (pointsB1 P ! i) (kv_B V i) \<and> ga2 (pointsB2 P ! i) (kv_B V i)) \<and>
     (\<forall>i. unat (nPublic P) < i \<and> i < unat (nVars P) \<longrightarrow> ga1 (pointsC P ! (i - unat (nPublic P) - 1)) (kv_C V i)) \<and>
     (\<forall>l < unat (domainSize P). ga1 (pointsH P ! l) (kv_H V l))"

text \<open>The shape of a key: its sizes fit the loops and its coefficients its sizes.\<close>

definition key_shape :: "('e, 'a, 'b) Prover \<Rightarrow> nat \<Rightarrow> bool" where
  "key_shape P k \<longleftrightarrow>
     unat (domainSize P) = 2 ^ k \<and> k \<le> 30 \<and> unat (nPublic P) < unat (nVars P) \<and> unat (nVars P) < 2 ^ 31 \<and>
     unat (nCoefs P) = length (p_coefs P) \<and> length (p_coefs P) < 2 ^ 31 \<and>
     (\<forall>t < length (p_coefs P). unat (coef_s (p_coefs P ! t)) < unat (nVars P) \<and> unat (coef_c (p_coefs P ! t)) < unat (domainSize P))"

context prover_vals
begin

lemma prove_val:
  assumes il: "fair il" "0 < nT" and shape: "key_shape P k" and k: "Suc k \<le> fft_s fft" "p_fft P = fft"
    and nw: "length wtns = unat (nVars P)" and w: "\<forall>i < unat (nVars P). rel (wtns ! i) (wv i * Ri)"
    and cv: "\<forall>t < length (p_coefs P). rel (coef_coef (p_coefs P ! t)) (cv t * R)"
    and key: "key_points ga1 ga2 P V" and r: "length rr = unat (fr_size E) - 1" "length rs = unat (fr_size E) - 1"
    and fits: "unat (nVars P) * unat (fr_size E) < 2 ^ 32"
  defines "rho \<equiv> int (le_nat rr)" and "sig \<equiv> int (le_nat rs)"
  defines "h \<equiv> abc_at k (row_value (p_coefs P) cv wv True) (row_value (p_coefs P) cv wv False)"
  defines "Av \<equiv> (\<Sum>i < unat (nVars P). wv i * kv_A V i) + kv_alpha V + rho * kv_delta V"
  defines "Bv \<equiv> (\<Sum>i < unat (nVars P). wv i * kv_B V i) + kv_beta V + sig * kv_delta V"
  shows "\<exists>pf. Groth16_prove E il nT uninit P wtns rr rs = Some pf \<and> ga1 (pf_A pf) Av \<and> ga2 (pf_B pf) Bv \<and>
    ga1 (pf_C pf) ((\<Sum>i \<in> {unat (nPublic P) + 1..<unat (nVars P)}. wv i * kv_C V i) + (\<Sum>l < 2 ^ k. h l * kv_H V l) +
      sig * Av + rho * Bv - rho * sig * kv_delta V)"
proof -
  let ?F = "e_fr E" and ?G1 = "e_g1 E" and ?G2 = "e_g2 E" and ?S = "unat (fr_size E)" and ?sW = "ucast (fr_size E) :: u64"
  let ?N = "unat (nVars P)" and ?L = "unat (nPublic P)" and ?bytes = "\<lambda>xs. concat (map (fr_bytes E) xs)"
  note sh = shape [unfolded key_shape_def]
  have L: "?L < ?N" using sh by blast
  note G1 = g1.curve_vals_axioms and G2 = g2.curve_vals_axioms
  have N: "unat (ucast (nVars P) :: u64) = length wtns" "unat (ucast (nVars P) :: u64) < 2 ^ 31"
    using sh nw by (simp_all add: unat_up)
  have wi: "rel (wtns ! i) (wv i * Ri)" if "i < length wtns" for i using w that nw by simp
  have kA: "ga1 (pointsA P ! i) (kv_A V i)" "ga1 (pointsB1 P ! i) (kv_B V i)" "ga2 (pointsB2 P ! i) (kv_B V i)"
    if "i < length wtns" for i using key that [unfolded nw] unfolding key_points_def by blast+
  have kC: "ga1 (pointsC P ! (i - ?L - 1)) (kv_C V i)" if "?L < i" "i < ?N" for i
    using key that unfolding key_points_def by blast
  have kd: "ga1 (vk_alpha1 P) (kv_alpha V)" "ga1 (vk_beta1 P) (kv_beta V)" "ga2 (vk_beta2 P) (kv_beta V)"
    "ga1 (vk_delta1 P) (kv_delta V)" "ga2 (vk_delta2 P) (kv_delta V)" using key unfolding key_points_def by blast+
  let ?a = "multiMulByScalarMSM ?G1 il nT (pointsA P) (?bytes wtns) ?sW (ucast (nVars P))"
  let ?b1 = "multiMulByScalarMSM ?G1 il nT (pointsB1 P) (?bytes wtns) ?sW (ucast (nVars P))"
  let ?b2 = "multiMulByScalarMSM ?G2 il nT (pointsB2 P) (?bytes wtns) ?sW (ucast (nVars P))"
  have a: "gp1 ?a (\<Sum>i < ?N. wv i * kv_A V i)" using MSM_elements [OF G1 il N wi kA(1)] by (simp add: nw)
  have b1: "gp1 ?b1 (\<Sum>i < ?N. wv i * kv_B V i)" using MSM_elements [OF G1 il N wi kA(2)] by (simp add: nw)
  have b2: "gp2 ?b2 (\<Sum>i < ?N. wv i * kv_B V i)" using MSM_elements [OF G2 il N wi kA(3)] by (simp add: nw)
  \<comment> \<open>the private part\<close>
  let ?priv = "drop (?L + 1) wtns"
  let ?c = "multiMulByScalarMSM ?G1 il nT (pointsC P) (drop (unat ((nPublic P + 1) * fr_size E)) (?bytes wtns)) ?sW
      (ucast (nVars P - nPublic P - 1))"
  have c: "gp1 ?c (\<Sum>i \<in> {?L + 1..<?N}. wv i * kv_C V i)"
  proof -
    have L1: "unat (nPublic P + 1) = ?L + 1" using L sh by (simp add: unat_word_ariths)
    have "(?L + 1) * ?S \<le> ?N * ?S" using L by (intro mult_le_mono1) simp
    then have off: "unat ((nPublic P + 1) * fr_size E) = (?L + 1) * ?S" using fits L1 by (simp add: unat_word_ariths)
    have l: "\<forall>x \<in> set (map (fr_bytes E) wtns). length x = ?S" using bytes_len [OF wi] by (auto simp: in_set_conv_nth)
    have d: "drop (unat ((nPublic P + 1) * fr_size E)) (?bytes wtns) = ?bytes ?priv"
      unfolding off concat_drop [OF l] by (simp add: drop_map)
    have n: "unat (nVars P - nPublic P - 1) = length ?priv"
    proof -
      have "unat (nVars P - nPublic P) = ?N - ?L" using L by (simp add: unat_sub word_le_nat_alt)
      then show ?thesis using L nw by (simp add: unat_sub word_le_nat_alt)
    qed
    have N': "unat (ucast (nVars P - nPublic P - 1) :: u64) = length ?priv" "unat (ucast (nVars P - nPublic P - 1) :: u64) < 2 ^ 31"
      using n sh nw by (simp_all add: unat_up less_imp_diff_less)
    have "gp1 ?c (\<Sum>j < length ?priv. wv (j + (?L + 1)) * kv_C V (j + (?L + 1)))"
      unfolding d
    proof (rule MSM_elements [OF G1 il N'])
      fix j assume j: "j < length ?priv"
      then show "rel (?priv ! j) (wv (j + (?L + 1)) * Ri)" using wi [of "j + (?L + 1)"] nw by (simp add: add.commute)
      have "?L < j + (?L + 1)" "j + (?L + 1) < ?N" using j nw by auto
      from kC [OF this] show "ga1 (pointsC P ! j) (kv_C V (j + (?L + 1)))" by simp
    qed
    moreover have "(\<Sum>j < length ?priv. wv (j + (?L + 1)) * kv_C V (j + (?L + 1))) = (\<Sum>i \<in> {?L + 1..<?N}. wv i * kv_C V i)"
      using sum.shift_bounds_nat_ivl [of "\<lambda>i. wv i * kv_C V i" 0 "?L + 1" "length ?priv"] nw L
      by (simp add: atLeast0LessThan)
    ultimately show ?thesis by simp
  qed
  \<comment> \<open>the quotient\<close>
  obtain hs where hs: "prove_abc ?F il nT uninit P wtns = Some hs" "length hs = 2 ^ k" "\<forall>l < 2 ^ k. rel (hs ! l) (h l * Ri)"
  proof -
    have s: "k \<le> 30" "unat (domainSize P) = 2 ^ k" "unat (nCoefs P) = length (p_coefs P)" "length (p_coefs P) < 2 ^ 31"
      using sh by blast+
    have ix: "unat (coef_s (p_coefs P ! t)) < length wtns \<and> unat (coef_c (p_coefs P ! t)) < 2 ^ k" if "t < length (p_coefs P)" for t
      using sh that unfolding nw s(2) [symmetric] by blast
    have w': "rel (wtns ! unat (coef_s (p_coefs P ! t))) (wv (unat (coef_s (p_coefs P ! t))) * Ri)"
      and cv': "rel (coef_coef (p_coefs P ! t)) (cv t * R)" if "t < length (p_coefs P)" for t
      using that ix [OF that] w cv unfolding nw by blast+
    show ?thesis using prove_abc_val [OF il s(1) k(1) s(2) k(2) s(3,4) w' cv' ix, of uninit] that unfolding h_def by blast
  qed
  let ?h = "multiMulByScalarMSM ?G1 il nT (pointsH P) (?bytes hs) ?sW (ucast (domainSize P))"
  have hv: "gp1 ?h (\<Sum>l < 2 ^ k. h l * kv_H V l)"
  proof -
    have D: "unat (ucast (domainSize P) :: u64) = length hs" "unat (ucast (domainSize P) :: u64) < 2 ^ 31"
      using sh hs(2) pow_30(1) [of k] by (simp_all add: unat_up)
    have kH: "ga1 (pointsH P ! l) (kv_H V l)" if "l < length hs" for l
      using key that hs(2) sh unfolding key_points_def by simp
    show ?thesis using MSM_elements [OF G1 il D _ kH, of h] hs(2,3) by simp
  qed
  \<comment> \<open>the random elements\<close>
  let ?r = "random_element E rr" and ?s = "random_element E rs"
  have rv: "rel ?r (rho * Ri)" "rel ?s (sig * Ri)" unfolding rho_def sig_def by (rule random_element_val r)+
  let ?rs = "f_toMontgomery ?F (f_mul ?F ?r ?s)"
  have "rel ?rs (rho * Ri * (sig * Ri) * R)" by (intro rel_toMontgomery rel_mul rv)
  moreover have "eqm (rho * sig * Ri * (R * Ri)) (rho * sig * Ri * 1)"
    using R_inv by (intro eqm_mult eqm_refl) (simp add: eqm_def)
  ultimately have rsv: "rel ?rs (rho * sig * Ri)" by (elim rel_eqm) (simp add: ac_simps)
  note m1 = mul_element [OF G1] and m2 = mul_element [OF G2]
  let ?A = "g_add ?G1 (g_addA ?G1 ?a (vk_alpha1 P)) (mulByScalarA ?G1 (vk_delta1 P) (fr_bytes E ?r) ?S)"
  let ?B = "g_add ?G2 (g_addA ?G2 ?b2 (vk_beta2 P)) (mulByScalarA ?G2 (vk_delta2 P) (fr_bytes E ?s) ?S)"
  let ?B1 = "g_add ?G1 (g_addA ?G1 ?b1 (vk_beta1 P)) (mulByScalarA ?G1 (vk_delta1 P) (fr_bytes E ?s) ?S)"
  let ?C = "g_sub ?G1 (g_add ?G1 (g_add ?G1 (g_add ?G1 ?c ?h) (mulByScalar ?G1 ?A (fr_bytes E ?s) ?S))
      (mulByScalar ?G1 ?B1 (fr_bytes E ?r) ?S)) (mulByScalarA ?G1 (vk_delta1 P) (fr_bytes E ?rs) ?S)"
  have A: "gp1 ?A Av" unfolding Av_def by (intro g1.gp_add g1.gp_addA a kd m1(2) [OF rv(1)])
  have B: "gp2 ?B Bv" unfolding Bv_def by (intro g2.gp_add g2.gp_addA b2 kd m2(2) [OF rv(2)])
  have B1: "gp1 ?B1 Bv" unfolding Bv_def by (intro g1.gp_add g1.gp_addA b1 kd m1(2) [OF rv(2)])
  have C: "gp1 ?C ((\<Sum>i \<in> {?L + 1..<?N}. wv i * kv_C V i) + (\<Sum>l < 2 ^ k. h l * kv_H V l) + sig * Av + rho * Bv - rho * sig * kv_delta V)"
    by (intro g1.gp_sub g1.gp_add c hv m1(1) [OF rv(2) A] m1(1) [OF rv(1) B1] m1(2) [OF rsv kd(4)])
  have run: "Groth16_prove E il nT uninit P wtns rr rs =
      Some \<lparr>pf_A = g_toAffine ?G1 ?A, pf_B = g_toAffine ?G2 ?B, pf_C = g_toAffine ?G1 ?C\<rparr>"
    unfolding Groth16_prove_def Let_def hs(1) option.case ..
  show ?thesis
    unfolding run by (intro exI conjI) (rule refl, simp_all only: Proof.select_convs, (intro g1.ga_toAffine g2.ga_toAffine A B C)+)
qed

end

subsection \<open>The verifier checks the equation\<close>

text \<open>
  The pairing, by the exponents of its values: a product of two points' multiples, one exactly if
  the exponent is a multiple of the order. The product is only needed for points that are not zero.
\<close>

locale pairing_vals =
  fixes T :: "('p, 'r, 't) Pairing" and gp1 :: "'p \<Rightarrow> int \<Rightarrow> bool" and gp2 :: "'r \<Rightarrow> int \<Rightarrow> bool"
    and q :: int and pv :: "'t \<Rightarrow> int \<Rightarrow> bool"
  assumes pv_one: "pv (pr_one T) 0"
    and pv_mul: "pv s u \<Longrightarrow> pv t v \<Longrightarrow> pv (pr_mul T s t) (u + v)"
    and pv_miller: "gp1 a u \<Longrightarrow> gp2 b v \<Longrightarrow> \<not> pr_isZero1 T a \<Longrightarrow> \<not> pr_isZero2 T b \<Longrightarrow> pv (pr_miller T b a) (u * v)"
    and zero1: "gp1 a u \<Longrightarrow> pr_isZero1 T a \<Longrightarrow> u mod q = 0"
    and zero2: "gp2 b v \<Longrightarrow> pr_isZero2 T b \<Longrightarrow> v mod q = 0"
    and pv_final: "pv t u \<Longrightarrow> pr_isOne T (pr_finalExponentiation T t) \<longleftrightarrow> u mod q = 0"
begin

lemma pairing_loop_val:
  "list_all2 gp1 as us \<Longrightarrow> list_all2 gp2 bs vs \<Longrightarrow> length as = length bs \<Longrightarrow> pv acc e \<Longrightarrow>
     \<exists>e'. pv (pairing_loop T as bs acc) e' \<and> e' mod q = (e + (\<Sum>(u, v) \<leftarrow> zip us vs. u * v)) mod q"
proof (induction as arbitrary: bs us vs acc e)
  case (Cons a as)
  obtain u us' where u: "us = u # us'" "gp1 a u" "list_all2 gp1 as us'" using Cons.prems(1) by (auto simp: list_all2_Cons1)
  obtain b bs' where b: "bs = b # bs'" using Cons.prems(3) by (cases bs) simp_all
  obtain v vs' where v: "vs = v # vs'" "gp2 b v" "list_all2 gp2 bs' vs'" using Cons.prems(2) b by (auto simp: list_all2_Cons1)
  have l: "length as = length bs'" using Cons.prems(3) b by simp
  let ?rest = "\<Sum>(u, v) \<leftarrow> zip us' vs'. u * v"
  show ?case
  proof (cases "pr_isZero1 T a \<or> pr_isZero2 T b")
    case True
    then have "(u * v) mod q = 0" using zero1 [OF u(2)] zero2 [OF v(2)] by (auto simp: mod_eq_0_iff_dvd)
    then have "(e + (u * v + ?rest)) mod q = (e + ?rest) mod q" by (metis mod_add_left_eq add.left_commute add_0)
    then show ?thesis using Cons.IH [OF u(3) v(3) l Cons.prems(4)] True u(1) v(1) b by simp
  next
    case False
    then have "pv (pr_mul T acc (pr_miller T b a)) (e + u * v)" using u(2) v(2) Cons.prems(4) by (intro pv_mul pv_miller) simp_all
    from Cons.IH [OF u(3) v(3) l this] show ?thesis using False u(1) v(1) b by (simp add: add.assoc)
  qed
qed auto

lemma pairingCheck_val:
  assumes "list_all2 gp1 as us" "list_all2 gp2 bs vs" "length as = length bs"
  shows "pairingCheck T as bs \<longleftrightarrow> (\<Sum>(u, v) \<leftarrow> zip us vs. u * v) mod q = 0"
proof -
  obtain e where "pv (pairing_loop T as bs (pr_one T)) e" "e mod q = (0 + (\<Sum>(u, v) \<leftarrow> zip us vs. u * v)) mod q"
    using pairing_loop_val [OF assms pv_one] by blast
  then show ?thesis using pv_final unfolding pairingCheck_def Let_def by simp
qed

end

text \<open>The points of a verification key.\<close>

definition vkey_points :: "('a \<Rightarrow> int \<Rightarrow> bool) \<Rightarrow> ('b \<Rightarrow> int \<Rightarrow> bool) \<Rightarrow> ('a, 'b) VerificationKey \<Rightarrow>
    int \<Rightarrow> int \<Rightarrow> int \<Rightarrow> int \<Rightarrow> (nat \<Rightarrow> int) \<Rightarrow> bool" where
  "vkey_points ga1 ga2 key alpha beta gamma delta ic \<longleftrightarrow>
     ga1 (vk_Alpha key) alpha \<and> ga2 (vk_Beta key) beta \<and> ga2 (vk_Gamma key) gamma \<and> ga2 (vk_Delta key) delta \<and>
     (\<forall>i < length (vk_IC key). ga1 (vk_IC key ! i) (ic i))"

context engine_vals
begin

lemma inputs_loop_val:
  "gp1 vkX v \<Longrightarrow> \<forall>j < length xs. rel (xs ! j) (x (i + j)) \<Longrightarrow> \<forall>j < length xs. ga1 (IC ! (i + j + 1)) (ic (i + j + 1)) \<Longrightarrow>
     gp1 (inputs_loop E xs IC i vkX) (v + (\<Sum>j < length xs. x (i + j) * ic (i + j + 1)))"
proof (induction xs arbitrary: i vkX v)
  case (Cons y xs)
  let ?in = "f_fromMontgomery (e_fr E) y"
  let ?vkX = "g_add (e_g1 E) vkX (mulByScalarA (e_g1 E) (IC ! (i + 1)) (fr_bytes E ?in) (unat (fr_size E)))"
  have "rel y (x i)" "ga1 (IC ! (i + 1)) (ic (i + 1))" using Cons.prems(2,3) by force+
  then have 1: "gp1 ?vkX (v + x i * ic (i + 1))"
    by (intro g1.gp_add Cons.prems(1) mul_element(2) [OF g1.curve_vals_axioms] rel_fromMontgomery)
  have 2: "\<forall>j < length xs. rel (xs ! j) (x (i + 1 + j))" using Cons.prems(2) by force
  have 3: "\<forall>j < length xs. ga1 (IC ! (i + 1 + j + 1)) (ic (i + 1 + j + 1))"
  proof (intro allI impI)
    fix j assume "j < length xs"
    then show "ga1 (IC ! (i + 1 + j + 1)) (ic (i + 1 + j + 1))" using Cons.prems(3) [rule_format, of "Suc j"] by simp
  qed
  have "(\<Sum>j < length (y # xs). x (i + j) * ic (i + j + 1)) = x i * ic (i + 1) + (\<Sum>j < length xs. x (i + 1 + j) * ic (i + 1 + j + 1))"
    unfolding length_Cons sum.lessThan_Suc_shift by simp
  then show ?case using Cons.IH [OF 1 2 3] by (simp add: Let_def add.assoc)
qed simp

lemma verify_val:
  assumes T: "pairing_vals T gp1 gp2 q pv" and key: "vkey_points ga1 ga2 key alpha beta gamma delta ic"
    and x: "\<forall>i < length inputs. rel (inputs ! i) (x i)" and l: "length inputs + 1 = length (vk_IC key)"
    and pf: "ga1 (pf_A pf) a" "ga2 (pf_B pf) b" "ga1 (pf_C pf) c" and nz: "alpha mod q \<noteq> 0" "c mod q \<noteq> 0"
  shows "Groth16_verify E T pf inputs key =
    Inr ((a * b - alpha * beta - (ic 0 + (\<Sum>i < length inputs. x i * ic (i + 1))) * gamma - c * delta) mod q = 0)"
proof -
  let ?G1 = "e_g1 E" and ?G2 = "e_g2 E"
  have kd: "ga1 (vk_Alpha key) alpha" "ga2 (vk_Beta key) beta" "ga2 (vk_Gamma key) gamma" "ga2 (vk_Delta key) delta"
    and ic: "\<And>i. i < length (vk_IC key) \<Longrightarrow> ga1 (vk_IC key ! i) (ic i)"
    using key unfolding vkey_points_def by blast+
  let ?X = "\<Sum>i < length inputs. x i * ic (i + 1)"
  let ?vkX = "g_addA ?G1 (inputs_loop E inputs (vk_IC key) 0 (g_zero ?G1)) (vk_IC key ! 0)"
  have "gp1 (inputs_loop E inputs (vk_IC key) 0 (g_zero ?G1)) (0 + (\<Sum>j < length inputs. x (0 + j) * ic (0 + j + 1)))"
    using x ic l by (intro inputs_loop_val g1.gp_zero) simp_all
  moreover have "ga1 (vk_IC key ! 0) (ic 0)" by (rule ic) (use l in linarith)
  ultimately have X: "gp1 ?vkX (?X + ic 0)" by (intro g1.gp_addA) simp_all
  let ?as = "[g_fromAffine ?G1 (pf_A pf), g_negA ?G1 (vk_Alpha key), g_neg ?G1 ?vkX, g_negA ?G1 (pf_C pf)]"
  let ?bs = "[g_fromAffine ?G2 (pf_B pf), g_fromAffine ?G2 (vk_Beta key), g_fromAffine ?G2 (vk_Gamma key), g_fromAffine ?G2 (vk_Delta key)]"
  have as: "list_all2 gp1 ?as [a, - alpha, - (?X + ic 0), - c]"
    by (simp only: list_all2_Cons list_all2_Nil simp_thms) (intro conjI g1.gp_fromAffine g1.gp_neg g1.gp_negA pf kd X nz)
  have bs: "list_all2 gp2 ?bs [b, beta, gamma, delta]"
    by (simp only: list_all2_Cons list_all2_Nil simp_thms) (intro conjI g2.gp_fromAffine pf kd)
  have e1: "pairingCheck T ?as ?bs \<longleftrightarrow> (\<Sum>(u, v) \<leftarrow> zip [a, - alpha, - (?X + ic 0), - c] [b, beta, gamma, delta]. u * v) mod q = 0"
    by (rule pairing_vals.pairingCheck_val [OF T as bs]) simp
  have e2: "(\<Sum>(u, v) \<leftarrow> zip [a, - alpha, - (?X + ic 0), - c] [b, beta, gamma, delta]. u * v) =
      a * b - alpha * beta - (ic 0 + ?X) * gamma - c * delta"
    by (simp add: algebra_simps)
  show ?thesis using l by (simp only: Groth16_verify_def Let_def e1 e2 simp_thms if_False)
qed

end

subsection \<open>Completeness\<close>

text \<open>The polynomial with the values \<open>x\<close> on the powers of a root \<open>w\<close> of order \<open>2 ^ K\<close>, at \<open>t\<close>; \<open>p\<close> is the inverse of two.\<close>

definition interpolant :: "int \<Rightarrow> int \<Rightarrow> nat \<Rightarrow> (nat \<Rightarrow> int) \<Rightarrow> int \<Rightarrow> int" where
  "interpolant w p K x t = (\<Sum>j < 2 ^ K. p ^ K * (\<Sum>i < 2 ^ K. x i * w ^ (i * ((2 ^ K - j) mod 2 ^ K))) * t ^ j)"

text \<open>
  A circuit is the list of coefficients of its first two matrices, with their values \<open>cv\<close>, and
  the third matrix \<open>Cm\<close>, which the key does not hold; row \<open>c\<close> of variable \<open>i\<close> is \<open>Cm i c\<close>.
\<close>

definition satisfies :: "int \<Rightarrow> nat \<Rightarrow> nat \<Rightarrow> 'e Coef list \<Rightarrow> (nat \<Rightarrow> int) \<Rightarrow> (nat \<Rightarrow> nat \<Rightarrow> int) \<Rightarrow> (nat \<Rightarrow> int) \<Rightarrow> bool" where
  "satisfies q k N cs cv Cm wv \<longleftrightarrow>
     wv 0 = 1 \<and> (\<forall>c < 2 ^ k. (row_value cs cv wv True c * row_value cs cv wv False c) mod q = (\<Sum>i < N. Cm i c * wv i) mod q)"

text \<open>The keys that the setup makes for a circuit at the secret point \<open>t\<close>; \<open>ic\<close> belongs to the verification key.\<close>

definition key_of_circuit :: "int \<Rightarrow> int \<Rightarrow> int \<Rightarrow> nat \<Rightarrow> nat \<Rightarrow> nat \<Rightarrow> 'e Coef list \<Rightarrow> (nat \<Rightarrow> int) \<Rightarrow> (nat \<Rightarrow> nat \<Rightarrow> int) \<Rightarrow>
    int \<Rightarrow> int \<Rightarrow> key_values \<Rightarrow> (nat \<Rightarrow> int) \<Rightarrow> bool" where
  "key_of_circuit q w p k N L cs cv Cm t gamma V ic \<longleftrightarrow>
     (let at = \<lambda>x. interpolant (w ^ 2) p k x t;
          K = \<lambda>i. kv_beta V * at (column cs cv True i) + kv_alpha V * at (column cs cv False i) + at (Cm i)
      in (\<forall>i < N. kv_A V i mod q = at (column cs cv True i) mod q \<and> kv_B V i mod q = at (column cs cv False i) mod q) \<and>
         (\<forall>i \<le> L. (ic i * gamma) mod q = K i mod q) \<and>
         (\<forall>i. L < i \<and> i < N \<longrightarrow> (kv_C V i * kv_delta V) mod q = K i mod q) \<and>
         (\<forall>l < 2 ^ k. (kv_H V l * kv_delta V) mod q = interpolant w p (Suc k) (\<lambda>m. of_bool (m = 2 * l + 1)) t mod q))"

text \<open>The third point of the proof, as a multiple of the generator; \<open>rho\<close> and \<open>sig\<close> are the random scalars.\<close>

definition proof_point_C :: "int \<Rightarrow> int \<Rightarrow> nat \<Rightarrow> nat \<Rightarrow> nat \<Rightarrow> 'e Coef list \<Rightarrow> (nat \<Rightarrow> int) \<Rightarrow> (nat \<Rightarrow> int) \<Rightarrow> key_values \<Rightarrow> int \<Rightarrow> int \<Rightarrow> int" where
  "proof_point_C w p k N L cs cv wv V rho sig =
     (let x = row_value cs cv wv True; y = row_value cs cv wv False;
          at = \<lambda>x l. interpolant (w ^ 2) p k x (w ^ (2 * l + 1));
          h = \<lambda>l. at x l * at y l - at (\<lambda>c. x c * y c) l;
          a = (\<Sum>i < N. wv i * kv_A V i) + kv_alpha V + rho * kv_delta V;
          b = (\<Sum>i < N. wv i * kv_B V i) + kv_beta V + sig * kv_delta V
      in (\<Sum>i \<in> {L + 1..<N}. wv i * kv_C V i) + (\<Sum>l < 2 ^ k. h l * kv_H V l) + sig * a + rho * b - rho * sig * kv_delta V)"

lemma interpolant_sum: "interpolant w p K (\<lambda>c. \<Sum>i < N. f i c * v i) t = (\<Sum>i < N. v i * interpolant w p K (f i) t)"
proof -
  have s: "(\<Sum>c < 2 ^ K. (\<Sum>i < N. f i c * v i) * e c) = (\<Sum>i < N. v i * (\<Sum>c < 2 ^ K. f i c * e c))" for e :: "nat \<Rightarrow> int"
    unfolding sum_distrib_right sum_distrib_left by (subst sum.swap) (simp add: ac_simps)
  have d: "c * (\<Sum>i < N. v i * g i) * e = (\<Sum>i < N. v i * (c * g i * e))" for c e :: int and g
    by (simp add: sum_distrib_left sum_distrib_right ac_simps)
  have "interpolant w p K (\<lambda>c. \<Sum>i < N. f i c * v i) t =
      (\<Sum>j < 2 ^ K. \<Sum>i < N. v i * (p ^ K * (\<Sum>c < 2 ^ K. f i c * w ^ (c * ((2 ^ K - j) mod 2 ^ K))) * t ^ j))"
    unfolding interpolant_def s d ..
  also have "\<dots> = (\<Sum>i < N. \<Sum>j < 2 ^ K. v i * (p ^ K * (\<Sum>c < 2 ^ K. f i c * w ^ (c * ((2 ^ K - j) mod 2 ^ K))) * t ^ j))"
    by (rule sum.swap)
  finally show ?thesis by (simp add: interpolant_def sum_distrib_left)
qed

context prover_vals
begin

lemma poly_at_interpolant: "poly_at K x t = interpolant (W K) p K x t"
  by (simp add: poly_at_def coeffs_def interpolant_def)

lemma interpolant_cong: "(\<And>c. c < 2 ^ K \<Longrightarrow> eqm (x c) (y c)) \<Longrightarrow> eqm (interpolant v p K x t) (interpolant v p K y t)"
  unfolding interpolant_def by (intro eqm_sum eqm_mult eqm_refl) simp

lemma quotient_val:
  assumes k: "fft_s fft = Suc k"
    and H: "\<And>l. l < 2 ^ k \<Longrightarrow> eqm (H l * d) (interpolant w p (Suc k) (\<lambda>m. of_bool (m = 2 * l + 1)) t)"
  shows "eqm ((\<Sum>l < 2 ^ k. abc_at k x y l * H l) * d)
    (interpolant (w ^ 2) p k x t * interpolant (w ^ 2) p k y t - interpolant (w ^ 2) p k (\<lambda>c. x c * y c) t)"
proof -
  have W: "W (Suc k) = w" "W k = w ^ 2" using k by (simp_all add: W_def)
  have "eqm (abc_at k x y l * (H l * d)) (abc_at k x y l * lag (Suc k) (2 * l + 1) t)" if "l < 2 ^ k" for l
    using H [OF that] poly_at_interpolant [of "Suc k" "\<lambda>m. of_bool (m = 2 * l + 1)" t] W
    by (intro eqm_mult eqm_refl) (simp add: lag_def poly_at_def)
  then have 1: "eqm (\<Sum>l < 2 ^ k. abc_at k x y l * (H l * d)) (\<Sum>l < 2 ^ k. abc_at k x y l * lag (Suc k) (2 * l + 1) t)"
    by (intro eqm_sum) simp
  have 2: "eqm (\<Sum>l < 2 ^ k. abc_at k x y l * lag (Suc k) (2 * l + 1) t)
      (poly_at k x t * poly_at k y t - poly_at k (\<lambda>c. x c * y c) t)"
    unfolding abc_at_def Let_def by (rule odd_interpolate) (use k in simp_all)
  have "(\<Sum>l < 2 ^ k. abc_at k x y l * H l) * d = (\<Sum>l < 2 ^ k. abc_at k x y l * (H l * d))"
    by (simp add: sum_distrib_right mult.assoc)
  then show ?thesis using eqm_trans [OF 1 2] unfolding poly_at_interpolant W by simp
qed

lemma abc_at_interpolant:
  "fft_s fft = Suc k \<Longrightarrow> abc_at k x y l =
    (let t = w ^ (2 * l + 1); at = \<lambda>x. interpolant (w ^ 2) p k x t in at x * at y - at (\<lambda>c. x c * y c))"
  by (simp add: abc_at_def poly_at_interpolant W_def)

text \<open>The equation of the verifier for the values that the prover computes.\<close>

lemma equation:
  fixes rho sig :: int
  assumes k: "fft_s fft = Suc k" and L: "L < N"
    and cs: "\<And>t. t < length cs \<Longrightarrow> unat (coef_s (cs ! t)) < N"
    and sat: "satisfies q k N cs cv Cm wv" and key: "key_of_circuit q w p k N L cs cv Cm t gamma V ic"
  defines "h \<equiv> abc_at k (row_value cs cv wv True) (row_value cs cv wv False)"
  defines "Av \<equiv> (\<Sum>i < N. wv i * kv_A V i) + kv_alpha V + rho * kv_delta V"
  defines "Bv \<equiv> (\<Sum>i < N. wv i * kv_B V i) + kv_beta V + sig * kv_delta V"
  shows "(Av * Bv - kv_alpha V * kv_beta V - (ic 0 + (\<Sum>i < L. wv (i + 1) * ic (i + 1))) * gamma -
    ((\<Sum>i \<in> {L + 1..<N}. wv i * kv_C V i) + (\<Sum>l < 2 ^ k. h l * kv_H V l) + sig * Av + rho * Bv - rho * sig * kv_delta V) * kv_delta V) mod q = 0"
proof -
  let ?at = "\<lambda>x. interpolant (w ^ 2) p k x t" and ?x = "row_value cs cv wv True" and ?y = "row_value cs cv wv False"
  let ?col = "column cs cv" and ?a = "kv_alpha V" and ?b = "kv_beta V" and ?d = "kv_delta V"
  let ?K = "\<lambda>i. ?b * ?at (?col True i) + ?a * ?at (?col False i) + ?at (Cm i)"
  let ?SA = "\<Sum>i < N. wv i * kv_A V i" and ?SB = "\<Sum>i < N. wv i * kv_B V i" and ?SC = "\<Sum>i < N. wv i * ?at (Cm i)"
  let ?X = "ic 0 + (\<Sum>i < L. wv (i + 1) * ic (i + 1))" and ?P = "\<Sum>i \<in> {L + 1..<N}. wv i * kv_C V i"
  let ?H = "\<Sum>l < 2 ^ k. h l * kv_H V l"
  note key' = key [unfolded key_of_circuit_def Let_def] and sat' = sat [unfolded satisfies_def]
  have row: "?at (row_value cs cv wv A) = (\<Sum>i < N. wv i * ?at (?col A i))" for A
  proof -
    have r: "row_value cs cv wv A = (\<lambda>c. \<Sum>i < N. ?col A i c * wv i)"
      by (rule ext, rule row_value_columns [OF cs])
    show ?thesis unfolding r by (rule interpolant_sum)
  qed
  have SA: "eqm ?SA (?at ?x)" and SB: "eqm ?SB (?at ?y)"
  proof -
    have "eqm (kv_A V i) (?at (?col True i))" "eqm (kv_B V i) (?at (?col False i))" if "i < N" for i
      using key' that unfolding eqm_def by blast+
    then show "eqm ?SA (?at ?x)" "eqm ?SB (?at ?y)" unfolding row by (auto intro!: eqm_sum eqm_mult)
  qed
  have SC: "eqm (?at (\<lambda>c. ?x c * ?y c)) ?SC"
    unfolding interpolant_sum [symmetric] using sat' by (intro interpolant_cong) (simp add: eqm_def)
  have Kall: "eqm (\<Sum>i < N. wv i * ?K i) (?b * ?SA + ?a * ?SB + ?SC)"
  proof -
    have "(\<Sum>i < N. wv i * ?K i) = ?b * ?at ?x + ?a * ?at ?y + ?SC"
      unfolding row by (simp add: algebra_simps sum.distrib sum_distrib_left)
    then show ?thesis using eqm_sym [OF SA] eqm_sym [OF SB] by (auto intro!: eqm_add eqm_mult)
  qed
  have X: "eqm (?X * gamma) (\<Sum>i < L + 1. wv i * ?K i)"
  proof -
    have "?X * gamma = (\<Sum>i < L + 1. wv i * (ic i * gamma))"
      using sat' by (simp add: sum.lessThan_Suc_shift distrib_right sum_distrib_right mult.assoc del: sum.lessThan_Suc)
    moreover have "eqm (\<Sum>i < L + 1. wv i * (ic i * gamma)) (\<Sum>i < L + 1. wv i * ?K i)"
      using key' by (intro eqm_sum eqm_mult eqm_refl) (simp add: eqm_def)
    ultimately show ?thesis by simp
  qed
  have P: "eqm (?P * ?d) (\<Sum>i \<in> {L + 1..<N}. wv i * ?K i)"
    unfolding sum_distrib_right mult.assoc using key' by (intro eqm_sum eqm_mult eqm_refl) (simp add: eqm_def)
  have split: "(\<Sum>i < L + 1. wv i * ?K i) + (\<Sum>i \<in> {L + 1..<N}. wv i * ?K i) = (\<Sum>i < N. wv i * ?K i)"
    using sum.atLeastLessThan_concat [of 0 "L + 1" N "\<lambda>i. wv i * ?K i"] L by (simp add: atLeast0LessThan)
  have XP: "eqm (?X * gamma + ?P * ?d) (?b * ?SA + ?a * ?SB + ?SC)"
    using eqm_add [OF X P] Kall unfolding split by (rule eqm_trans)
  have H: "eqm (?H * ?d) (?SA * ?SB - ?SC)"
  proof -
    have "eqm (?H * ?d) (?at ?x * ?at ?y - ?at (\<lambda>c. ?x c * ?y c))"
      unfolding h_def using key' by (intro quotient_val [OF k]) (simp add: eqm_def)
    then show ?thesis by (rule eqm_trans) (intro eqm_diff eqm_mult eqm_sym [OF SA] eqm_sym [OF SB] SC)
  qed
  have e0: "eqm (Av * Bv - ?a * ?b - (?X * gamma + ?P * ?d) - ?H * ?d - (sig * Av + rho * Bv - rho * sig * ?d) * ?d)
      (Av * Bv - ?a * ?b - (?b * ?SA + ?a * ?SB + ?SC) - (?SA * ?SB - ?SC) - (sig * Av + rho * Bv - rho * sig * ?d) * ?d)"
    by (intro eqm_diff XP H eqm_refl)
  have e1: "Av * Bv - ?a * ?b - (?b * ?SA + ?a * ?SB + ?SC) - (?SA * ?SB - ?SC) - (sig * Av + rho * Bv - rho * sig * ?d) * ?d = 0"
    unfolding Av_def Bv_def by (simp only: algebra_simps)
  have e2: "Av * Bv - ?a * ?b - (?X * gamma + ?P * ?d) - ?H * ?d - (sig * Av + rho * Bv - rho * sig * ?d) * ?d =
      Av * Bv - ?a * ?b - ?X * gamma - (?P + ?H + sig * Av + rho * Bv - rho * sig * ?d) * ?d"
    by (simp only: algebra_simps)
  show ?thesis using e0 unfolding e1 e2 eqm_def by (simp only: mod_0)
qed

end

subsection \<open>The field as its own engine\<close>

text \<open>The bytes of an array of limbs, and the groups of the field: an engine over code of the repository.\<close>

definition RawFr_engine :: "fr_params \<Rightarrow> limbs field_ops \<Rightarrow> (limbs, limbs, limbs, limbs, limbs) Engine" where
  "RawFr_engine P F =
     \<lparr>e_fr = F, fr_bytes = limb_bytes, fr_ofBytes = \<lambda>s. map rd64 (chunks 8 (fr_n64 P) s),
      fr_size = of_nat (8 * fr_n64 P), e_g1 = field_group F, e_g2 = field_group F\<rparr>"

definition field_pairing :: "'e field_ops \<Rightarrow> ('e, 'e, 'e) Pairing" where
  "field_pairing F =
     \<lparr>pr_isZero1 = \<lambda>a. f_eq F a (f_zero F), pr_isZero2 = \<lambda>a. f_eq F a (f_zero F), pr_one = f_zero F,
      pr_mul = f_add F, pr_miller = \<lambda>b a. f_mul F a b, pr_finalExponentiation = id, pr_isOne = \<lambda>a. f_eq F a (f_zero F)\<rparr>"

context field_api
begin

lemma field_pairing_vals: "pairing_vals (field_pairing F) rel rel q rel"
  by unfold_locales (auto simp: field_pairing_def rel_zero rel_add rel_mul dest: rel_eq [OF _ rel_zero])

end

context fr_field
begin

lemma le_nat_limb_bytes: "int (le_nat (limb_bytes xs)) = lval xs"
proof (induction xs)
  case (Cons x xs)
  have "unat x < 256 ^ 8" using unsigned_less [of x] by simp
  then have "le_nat (le_bytes 8 (unat x)) = unat x" by (simp add: le_nat_le_bytes)
  then show ?case using Cons.IH by (simp add: limb_bytes_def le_nat_append B64_def)
qed (simp add: limb_bytes_def)

lemma length_limb_bytes: "length (limb_bytes xs) = 8 * length xs"
  by (induction xs) (simp_all add: limb_bytes_def)

lemma lval_of_bytes:
  "length s = 8 * n \<Longrightarrow> lval (map rd64 (chunks 8 n s)) = int (le_nat s)"
proof -
  assume s: "length s = 8 * n"
  have "int (le_nat s) < 2 ^ (64 * n)"
    using le_nat_less [of s] s by (simp add: power_mult flip: of_nat_less_iff)
  then have v: "le_nat s < 2 ^ (64 * n)" by simp
  have "le_bytes (8 * n) (le_nat s) = s" using le_bytes_le_nat [of s] s by simp
  then show ?thesis using lval_chunks [OF v, of "[]"] by simp
qed

lemma fe_toMontgomery: "fe P e v \<Longrightarrow> fe P (RawFr_toMontgomery G P e) (v * Rv P)"
  using fe_of_reduced by (simp add: fe_def RawFr_toMontgomery_def)

lemma fe_bytes: "fe P e v \<Longrightarrow> int (le_nat (limb_bytes e)) = (v * Rv P) mod qv P"
  by (simp add: fe_def reduced_def le_nat_limb_bytes)

lemma fe_normal: "(Rv P * Ri) mod qv P = 1 mod qv P \<Longrightarrow> reduced P e v \<Longrightarrow> fe P e (v * Ri)"
proof -
  assume R: "(Rv P * Ri) mod qv P = 1 mod qv P" and e: "reduced P e v"
  have "(v * (Rv P * Ri)) mod qv P = (v * 1) mod qv P" using R by (metis mod_mult_right_eq)
  then have "v mod qv P = (v * Ri * Rv P) mod qv P" by (simp add: ac_simps)
  then show ?thesis using e unfolding fe_def by (rule reduced_cong [rotated])
qed

end

definition bn128_Ri :: int where
  "bn128_Ri = fst (bezw (nat (Rv bn128_params)) (nat (qv bn128_params)))"

lemma bn128_Ri: "(Rv bn128_params * bn128_Ri) mod qv bn128_params = 1 mod qv bn128_params"
proof -
  let ?R = "Rv bn128_params" and ?q = "qv bn128_params"
  have R: "int (nat ?R) = ?R" "int (nat ?q) = ?q" using bn128.q_pos by (simp_all add: Rv_def)
  have "gcd ?R ?q = 1" using bn128.coprime_R by (simp add: coprime_iff_gcd_eq_1 gcd.commute)
  then have "int (gcd (nat ?R) (nat ?q)) = 1" using R by (metis gcd_int_int_eq)
  then have "1 = bn128_Ri * ?R + snd (bezw (nat ?R) (nat ?q)) * ?q"
    using bezw_aux [of "nat ?R" "nat ?q"] R by (simp add: bn128_Ri_def)
  then have "?R * bn128_Ri = 1 + ?q * (- snd (bezw (nat ?R) (nat ?q)))" by (simp add: algebra_simps)
  then show ?thesis by (metis mod_mult_self2)
qed

definition bn128_engine :: "(limbs, limbs, limbs, limbs, limbs) Engine" where
  "bn128_engine = RawFr_engine bn128_params bn128_Fr"

lemma bn128_engine_sel:
  "e_fr bn128_engine = bn128_Fr" "fr_bytes bn128_engine = limb_bytes"
  "fr_ofBytes bn128_engine = (\<lambda>s. map rd64 (chunks 8 4 s))" "fr_size bn128_engine = 32"
  "e_g1 bn128_engine = field_group bn128_Fr" "e_g2 bn128_engine = field_group bn128_Fr"
  by (simp_all add: bn128_engine_def RawFr_engine_def bn128_fields)

interpretation bn128_engine: engine_vals bn128_engine "fe bn128_params" "qv bn128_params" "fe bn128_params" "fe bn128_params"
    "fe bn128_params" "fe bn128_params" "Rv bn128_params" bn128_Ri
proof (intro engine_vals.intro engine_vals_axioms.intro; (unfold bn128_engine_sel)?)
  show "field_vals bn128_Fr (fe bn128_params) (qv bn128_params)" by (rule bn128_field.field_vals_axioms)
  show "curve_vals (field_group bn128_Fr) (fe bn128_params) (fe bn128_params) (qv bn128_params)"
    "curve_vals (field_group bn128_Fr) (fe bn128_params) (fe bn128_params) (qv bn128_params)"
    by (rule bn128_field.additive)+
  show "(Rv bn128_params * bn128_Ri) mod qv bn128_params = 1 mod qv bn128_params" by (rule bn128_Ri)
  show "fe bn128_params (f_zero bn128_Fr) 0" by (rule bn128_field.rel_zero)
  fix a u assume a: "fe bn128_params a u"
  show "fe bn128_params (f_toMontgomery bn128_Fr a) (u * Rv bn128_params)"
    using bn128.fe_toMontgomery [OF a] by (simp add: bn128_Fr_def RawFr_ops_def split_def)
  show "fe bn128_params (f_fromMontgomery bn128_Fr a) (u * bn128_Ri)"
    using bn128.fe_normal [OF bn128_Ri bn128.fe_fromMontgomery [OF a]] by (simp add: bn128_Fr_def RawFr_ops_def split_def)
  show "length (limb_bytes a) = unat (32 :: u32)" using bn128.length_limb_bytes fe_length [OF a] by (simp add: bn128_fields)
  show "int (le_nat (limb_bytes a)) = (u * Rv bn128_params) mod qv bn128_params" by (rule bn128.fe_bytes [OF a])
next
  fix s :: bytes assume s: "length s = unat (32 :: u32)" "int (le_nat s) < qv bn128_params"
  have "reduced bn128_params (map rd64 (chunks 8 4 s)) (int (le_nat s))"
    using s bn128.lval_of_bytes [of s 4] by (simp add: reduced_def bn128_fields)
  then show "fe bn128_params (map rd64 (chunks 8 4 s)) (int (le_nat s) * bn128_Ri)" by (rule bn128.fe_normal [OF bn128_Ri])
qed (simp_all add: bn128_q)

interpretation bn128_pairing: pairing_vals "field_pairing bn128_Fr" "fe bn128_params" "fe bn128_params" "qv bn128_params" "fe bn128_params"
  by (rule bn128_field.field_pairing_vals)

subsection \<open>The results\<close>

text \<open>The value of an element, as an element, and the points of a small circuit: one product.\<close>

definition bn128_el :: "int \<Rightarrow> limbs" where
  "bn128_el v = the (RawFr_fromMpz mpz_ref mpn_ref bn128_params (v mod qv bn128_params))"

lemma bn128_el: "fe bn128_params (bn128_el v) v"
proof -
  obtain e where e: "RawFr_fromMpz mpz_ref mpn_ref bn128_params (v mod qv bn128_params) = Some e"
      "fe bn128_params e (v mod qv bn128_params)"
    using bn128_gmp.fe_fromMpz [of "v mod qv bn128_params"] bn128.q_pos by auto
  then show ?thesis unfolding bn128_el_def by (auto intro: bn128.fe_cong)
qed

definition square_coefs :: "'e \<Rightarrow> 'e Coef list" where
  "square_coefs e = map (\<lambda>m. \<lparr>coef_m = m, coef_c = 0, coef_s = 2, coef_coef = e\<rparr>) [0, 1]"

definition square_C :: "nat \<Rightarrow> nat \<Rightarrow> int" where
  "square_C i c = of_bool (i = 1 \<and> c = 0)"

definition square_wv :: "nat \<Rightarrow> int" where
  "square_wv i = [1, 9, 3] ! i"

definition square_at :: "int \<Rightarrow> int \<Rightarrow> nat \<Rightarrow> (nat \<Rightarrow> int) \<Rightarrow> int" where
  "square_at w p k x = interpolant (w ^ 2) p k x 5"

definition square_K :: "int \<Rightarrow> int \<Rightarrow> nat \<Rightarrow> 'e \<Rightarrow> nat \<Rightarrow> int" where
  "square_K w p k e i = 3 * square_at w p k (column (square_coefs e) (\<lambda>_. 1) True i) +
     2 * square_at w p k (column (square_coefs e) (\<lambda>_. 1) False i) + square_at w p k (square_C i)"

definition square_values :: "int \<Rightarrow> int \<Rightarrow> nat \<Rightarrow> 'e \<Rightarrow> key_values" where
  "square_values w p k e = \<lparr>kv_alpha = 2, kv_beta = 3, kv_delta = 1,
     kv_A = \<lambda>i. square_at w p k (column (square_coefs e) (\<lambda>_. 1) True i),
     kv_B = \<lambda>i. square_at w p k (column (square_coefs e) (\<lambda>_. 1) False i),
     kv_C = square_K w p k e, kv_H = \<lambda>l. interpolant w p (Suc k) (\<lambda>m. of_bool (m = 2 * l + 1)) 5\<rparr>"

definition square_one :: limbs where
  "square_one = bn128_el (Rv bn128_params)"

definition square_prover :: "int \<Rightarrow> int \<Rightarrow> (limbs, limbs, limbs) Prover" where
  "square_prover w p = (let V = square_values w p 2 square_one in
     \<lparr>nVars = 3, nPublic = 1, domainSize = 4, nCoefs = 2,
     vk_alpha1 = bn128_el 2, vk_beta1 = bn128_el 3, vk_beta2 = bn128_el 3, vk_delta1 = bn128_el 1, vk_delta2 = bn128_el 1,
     p_coefs = square_coefs square_one, pointsA = map (\<lambda>i. bn128_el (kv_A V i)) [0..<3],
     pointsB1 = map (\<lambda>i. bn128_el (kv_B V i)) [0..<3], pointsB2 = map (\<lambda>i. bn128_el (kv_B V i)) [0..<3],
     pointsC = [bn128_el (kv_C V 2)], pointsH = map (\<lambda>l. bn128_el (kv_H V l)) [0..<4],
     p_fft = bn128_FFT\<rparr>)"

definition square_vkey :: "int \<Rightarrow> int \<Rightarrow> (limbs, limbs) VerificationKey" where
  "square_vkey w p = \<lparr>vk_Alpha = bn128_el 2, vk_Beta = bn128_el 3, vk_Gamma = bn128_el 1, vk_Delta = bn128_el 1,
     vk_IC = map (\<lambda>i. bn128_el (square_K w p 2 square_one i)) [0..<2]\<rparr>"

definition square_wtns :: "limbs list" where
  "square_wtns = map (\<lambda>i. bn128_el (square_wv i * bn128_Ri)) [0..<3]"

lemma square_vkey_points:
  "vkey_points (fe bn128_params) (fe bn128_params) (square_vkey w p) 2 3 1 1 (square_K w p 2 square_one)"
  by (auto simp: vkey_points_def square_vkey_def bn128_el less_Suc_eq nth_append)

text \<open>The equation of Groth16 for the multiples of the generators that the points of a proof are.\<close>

definition groth16_equation :: "int \<Rightarrow> int \<Rightarrow> int \<Rightarrow> int \<Rightarrow> int \<Rightarrow> (nat \<Rightarrow> int) \<Rightarrow> nat \<Rightarrow> (nat \<Rightarrow> int) \<Rightarrow> int \<Rightarrow> int \<Rightarrow> int \<Rightarrow> bool" where
  "groth16_equation q alpha beta gamma delta ic L wv A B C \<longleftrightarrow>
     (A * B) mod q = (alpha * beta + (ic 0 + (\<Sum>i < L. wv (i + 1) * ic (i + 1))) * gamma + C * delta) mod q"

lemma groth16_equation_zero:
  "groth16_equation q alpha beta gamma delta ic L wv A B C \<longleftrightarrow>
     (A * B - alpha * beta - (ic 0 + (\<Sum>i < L. wv (i + 1) * ic (i + 1))) * gamma - C * delta) mod q = 0"
  by (simp add: groth16_equation_def mod_eq_dvd_iff mod_eq_0_iff_dvd algebra_simps)

text \<open>
  The proof that the prover returns for a satisfying witness satisfies the equation; for every pairing,
  every proof whose points have the same values is then accepted for the public signals.
\<close>

lemma groth16_run:
  assumes "prover_vals E rel q gp1 ga1 gp2 ga2 R Ri (p_fft P) w p"
    and "fair il" "0 < nT" "key_shape P k" "fft_s (p_fft P) = Suc k" "unat (nVars P) * unat (fr_size E) < 2 ^ 32"
    and "length wtns = unat (nVars P)" "\<forall>i < unat (nVars P). rel (wtns ! i) (wv i * Ri)"
    and "\<forall>t < length (p_coefs P). rel (coef_coef (p_coefs P ! t)) (cv t * R)"
    and "key_points ga1 ga2 P V"
    and "key_of_circuit q w p k (unat (nVars P)) (unat (nPublic P)) (p_coefs P) cv Cm t gamma V ic"
    and "satisfies q k (unat (nVars P)) (p_coefs P) cv Cm wv"
    and "length rr = unat (fr_size E) - 1" "length rs = unat (fr_size E) - 1"
  defines "C \<equiv> proof_point_C w p k (unat (nVars P)) (unat (nPublic P)) (p_coefs P) cv wv V (int (le_nat rr)) (int (le_nat rs))"
  shows "\<exists>pf A B. Groth16_prove E il nT uninit P wtns rr rs = Some pf \<and> ga1 (pf_A pf) A \<and> ga2 (pf_B pf) B \<and> ga1 (pf_C pf) C \<and>
    groth16_equation q (kv_alpha V) (kv_beta V) gamma (kv_delta V) ic (unat (nPublic P)) wv A B C"
proof -
  note a = assms(1-14)
  note C = C_def [unfolded proof_point_C_def Let_def]
  have s: "Suc k \<le> fft_s (p_fft P)" using a(5) by simp
  have L: "unat (nPublic P) < unat (nVars P)" and cs: "\<And>t. t < length (p_coefs P) \<Longrightarrow> unat (coef_s (p_coefs P ! t)) < unat (nVars P)"
    using a(4) unfolding key_shape_def by blast+
  note h = prover_vals.abc_at_interpolant [OF a(1,5), unfolded Let_def]
  from prover_vals.prove_val [OF a(1,2,3,4) s refl a(7-10,13,14,6), of uninit]
  show ?thesis
    using prover_vals.equation [OF a(1,5) L cs a(12,11)] unfolding C h groth16_equation_zero by blast
qed

lemma groth16_accepts:
  assumes e: "engine_vals E rel q gp1 ga1 gp2 ga2 R Ri" and T: "pairing_vals T gp1 gp2 q pv"
    and key: "vkey_points ga1 ga2 key alpha beta gamma delta ic" "length (vk_IC key) = L + 1"
    and eq: "groth16_equation q alpha beta gamma delta ic L wv A B C" and nz: "alpha mod q \<noteq> 0" "C mod q \<noteq> 0"
    and p: "ga1 (pf_A pf) A" "ga2 (pf_B pf) B" "ga1 (pf_C pf) C"
    and i: "length inputs = L" "\<forall>i < length inputs. rel (inputs ! i) (wv (i + 1))"
  shows "Groth16_verify E T pf inputs key = Inr True"
proof -
  have l: "length inputs + 1 = length (vk_IC key)" using i(1) key(2) by simp
  show ?thesis using engine_vals.verify_val [OF e T key(1) i(2) l p nz] eq i(1) by (simp add: groth16_equation_zero)
qed

text \<open>
  Property C3. Completeness: for keys that belong to a circuit and a witness in normal form that
  satisfies it, the prover returns a proof for every order of the threads' jobs and all random bytes,
  and its points, as multiples of the generators, satisfy the equation of Groth16. For every pairing
  with the laws of \<open>pairing_vals\<close> the verifier accepts it for the public signals, if neither the
  proof's third point nor the key's first is at infinity; the verifier negates these two wrongly
  when they are.
\<close>

theorem groth16_complete:
  assumes "prover_vals E rel q gp1 ga1 gp2 ga2 R Ri (p_fft P) w p"
    and "fair il" "0 < nT" "key_shape P k" "fft_s (p_fft P) = Suc k" "unat (nVars P) * unat (fr_size E) < 2 ^ 32"
    and "length wtns = unat (nVars P)" "\<forall>i < unat (nVars P). rel (wtns ! i) (wv i * Ri)"
    and "\<forall>t < length (p_coefs P). rel (coef_coef (p_coefs P ! t)) (cv t * R)"
    and "key_points ga1 ga2 P V"
    and "key_of_circuit q w p k (unat (nVars P)) (unat (nPublic P)) (p_coefs P) cv Cm t gamma V ic"
    and "satisfies q k (unat (nVars P)) (p_coefs P) cv Cm wv"
    and "length rr = unat (fr_size E) - 1" "length rs = unat (fr_size E) - 1"
    and "vkey_points ga1 ga2 key (kv_alpha V) (kv_beta V) gamma (kv_delta V) ic"
    and "length (vk_IC key) = unat (nPublic P) + 1" "length inputs = unat (nPublic P)" "\<forall>i < length inputs. rel (inputs ! i) (wv (i + 1))"
  shows "\<exists>pf A B C. Groth16_prove E il nT uninit P wtns rr rs = Some pf \<and> ga1 (pf_A pf) A \<and> ga2 (pf_B pf) B \<and> ga1 (pf_C pf) C \<and>
    C = proof_point_C w p k (unat (nVars P)) (unat (nPublic P)) (p_coefs P) cv wv V (int (le_nat rr)) (int (le_nat rs)) \<and>
    groth16_equation q (kv_alpha V) (kv_beta V) gamma (kv_delta V) ic (unat (nPublic P)) wv A B C \<and>
    (kv_alpha V mod q \<noteq> 0 \<and> C mod q \<noteq> 0 \<longrightarrow>
     (\<forall>T pv. pairing_vals T gp1 gp2 q pv \<longrightarrow> Groth16_verify E T pf inputs key = Inr True))"
proof -
  have e: "engine_vals E rel q gp1 ga1 gp2 ga2 R Ri" using assms(1) by (simp add: prover_vals_def)
  let ?C = "proof_point_C w p k (unat (nVars P)) (unat (nPublic P)) (p_coefs P) cv wv V (int (le_nat rr)) (int (le_nat rs))"
  obtain pf A B where pf: "Groth16_prove E il nT uninit P wtns rr rs = Some pf" "ga1 (pf_A pf) A" "ga2 (pf_B pf) B" "ga1 (pf_C pf) ?C"
    and eq: "groth16_equation q (kv_alpha V) (kv_beta V) gamma (kv_delta V) ic (unat (nPublic P)) wv A B ?C"
    using groth16_run [OF assms(1-14), of uninit] by (elim exE conjE) rule
  have "Groth16_verify E T pf inputs key = Inr True" if "kv_alpha V mod q \<noteq> 0 \<and> ?C mod q \<noteq> 0" "pairing_vals T gp1 gp2 q pv" for T pv
    using groth16_accepts [OF e that(2) assms(15,16) eq conjunct1 [OF that(1)] conjunct2 [OF that(1)] pf(2-4) assms(17,18)] .
  then show ?thesis using pf eq by (intro exI [of _ pf] exI [of _ A] exI [of _ B] exI [of _ ?C] conjI impI allI) simp_all
qed

lemma square_prover_vals:
  "prover_vals bn128_engine (fe bn128_params) (qv bn128_params) (fe bn128_params) (fe bn128_params) (fe bn128_params) (fe bn128_params)
     (Rv bn128_params) bn128_Ri bn128_FFT bn128_root8 bn128_half"
  using bn128_engine.engine_vals_axioms bn128_fft.fft_tables_axioms by (simp add: prover_vals_def bn128_engine_sel)

text \<open>The circuit's key and witness have the values that the theorems ask for.\<close>

lemma square_coefs_at:
  "length (square_coefs e) = 2" "\<And>t. t < 2 \<Longrightarrow> coef_c (square_coefs e ! t) = 0 \<and> coef_s (square_coefs e ! t) = 2 \<and>
      coef_coef (square_coefs e ! t) = e"
    "coef_m (square_coefs e ! 0) = 0" "coef_m (square_coefs e ! Suc 0) = 1"
  by (auto simp: square_coefs_def less_2_cases_iff)

lemma square_key:
  "key_shape (square_prover w p) 2"
  "key_points (fe bn128_params) (fe bn128_params) (square_prover w p) (square_values w p 2 square_one)"
  "key_of_circuit q w p k 3 1 (square_coefs e) (\<lambda>_. 1) square_C 5 1 (square_values w p k e) (square_K w p k e)"
proof -
  have i2: "Suc 0 < i \<and> i < 3 \<longleftrightarrow> i = 2" for i by auto
  show "key_shape (square_prover w p) 2" unfolding key_shape_def by (simp add: square_prover_def Let_def square_coefs_at)
  show "key_points (fe bn128_params) (fe bn128_params) (square_prover w p) (square_values w p 2 square_one)"
    unfolding key_points_def by (simp add: square_prover_def square_values_def Let_def bn128_el i2)
  show "key_of_circuit q w p k 3 1 (square_coefs e) (\<lambda>_. 1) square_C 5 1 (square_values w p k e) (square_K w p k e)"
    unfolding key_of_circuit_def Let_def
    by (simp add: square_values_def square_K_def square_at_def)
qed

lemma square_satisfied: "satisfies q k 3 (square_coefs e) (\<lambda>_. 1) square_C square_wv"
proof -
  have r: "row_value (square_coefs e) (\<lambda>_. 1) square_wv A c = (if c = 0 then 3 else 0)" for A c
  proof -
    have sum2: "(\<Sum>t < 2. f t) = f 0 + f (Suc 0)" for f :: "nat \<Rightarrow> int" by (simp add: numeral_2_eq_2)
    have wv: "square_wv 2 = 3" by (simp add: square_wv_def)
    show ?thesis by (cases A) (simp_all add: row_value_def square_coefs_at sum2 wv)
  qed
  have C: "(\<Sum>i < 3. square_C i c * square_wv i) = (if c = 0 then 9 else 0)" for c
    by (simp add: eval_nat_numeral square_C_def square_wv_def)
  show ?thesis unfolding satisfies_def r C by (simp add: square_wv_def)
qed

lemma square_elements:
  "length square_wtns = 3" "\<forall>i < 3. fe bn128_params (square_wtns ! i) (square_wv i * bn128_Ri)"
  "\<forall>t < length (square_coefs square_one). fe bn128_params (coef_coef (square_coefs square_one ! t)) (1 * Rv bn128_params)"
  "vkey_points (fe bn128_params) (fe bn128_params) (square_vkey w p) (kv_alpha (square_values w p 2 square_one)) (kv_beta (square_values w p 2 square_one)) 1
     (kv_delta (square_values w p 2 square_one)) (square_K w p 2 square_one)"
  using square_vkey_points bn128_el by (simp_all add: square_coefs_at square_wtns_def square_values_def square_one_def)

text \<open>One of four choices of the random bytes gives a third point that is not at infinity.\<close>

lemma random_choice:
  assumes "kv_delta V = 1" "0 < d" "\<not> q dvd 1"
  shows "\<exists>rho sig. rho \<in> {0, 1} \<and> sig \<in> {0, 1} \<and> proof_point_C w p k N L cs cv wv V (int (le_nat (rho # replicate d 0))) (int (le_nat (sig # replicate d 0))) mod q \<noteq> 0"
proof -
  define c where "c = proof_point_C w p k N L cs cv wv V 0 0"
  define a where "a = (\<Sum>i < N. wv i * kv_A V i) + kv_alpha V"
  define b where "b = (\<Sum>i < N. wv i * kv_B V i) + kv_beta V"
  have p: "proof_point_C w p k N L cs cv wv V rho sig = c + sig * a + rho * b + rho * sig" for rho sig
    by (simp add: c_def a_def b_def proof_point_C_def Let_def assms(1) algebra_simps)
  have z: "le_nat (replicate d 0) = 0" by (induction d) simp_all
  have "q dvd c \<Longrightarrow> q dvd c + a \<Longrightarrow> q dvd c + b \<Longrightarrow> q dvd c + a + b + 1 \<Longrightarrow> False"
    using assms(3) by (metis dvd_add_right_iff)
  then have "\<not> q dvd c \<or> \<not> q dvd c + a \<or> \<not> q dvd c + b \<or> \<not> q dvd c + a + b + 1" by blast
  then show ?thesis
  proof (elim disjE)
    assume "\<not> q dvd c"
    then show ?thesis by (intro exI [of _ 0]) (simp add: p z dvd_eq_mod_eq_0)
  next
    assume "\<not> q dvd c + a"
    then show ?thesis by (intro exI [of _ 0] exI [of _ 1]) (simp add: p z dvd_eq_mod_eq_0)
  next
    assume "\<not> q dvd c + b"
    then show ?thesis by (intro exI [of _ 1] exI [of _ 0]) (simp add: p z dvd_eq_mod_eq_0)
  next
    assume "\<not> q dvd c + a + b + 1"
    then show ?thesis by (intro exI [of _ 1]) (simp add: p z dvd_eq_mod_eq_0)
  qed
qed

theorem groth16_complete_witness:
  "\<exists>rho sig pf A B C. Groth16_prove bn128_engine (\<lambda>jobs. rev (concat jobs)) 2 [] (square_prover bn128_root8 bn128_half) square_wtns (rho # replicate 30 0) (sig # replicate 30 0) = Some pf \<and>
     fe bn128_params (pf_A pf) A \<and> fe bn128_params (pf_B pf) B \<and> fe bn128_params (pf_C pf) C \<and>
     groth16_equation (qv bn128_params) 2 3 1 1 (square_K bn128_root8 bn128_half 2 square_one) 1 square_wv A B C \<and>
     Groth16_verify bn128_engine (field_pairing bn128_Fr) pf [bn128_el 9] (square_vkey bn128_root8 bn128_half) = Inr True"
proof -
  let ?P = "square_prover bn128_root8 bn128_half" and ?V = "square_values bn128_root8 bn128_half 2 square_one" and ?fe = "fe bn128_params"
  let ?key = "square_vkey bn128_root8 bn128_half"
  have u: "unat (nVars ?P) = 3" "unat (nPublic ?P) = 1" "unat (domainSize ?P) = 4" "unat (nCoefs ?P) = 2"
    "p_fft ?P = bn128_FFT" "p_coefs ?P = square_coefs square_one" "unat (fr_size bn128_engine) = 32"
    by (simp_all add: square_prover_def Let_def bn128_engine_sel)
  have inp: "\<forall>i < length [bn128_el 9]. ?fe ([bn128_el 9] ! i) (square_wv (i + 1))" by (simp add: bn128_el square_wv_def)
  have V: "kv_delta ?V = 1" "kv_alpha ?V = 2" "kv_beta ?V = 3" by (simp_all add: square_values_def)
  have q: "\<not> qv bn128_params dvd 1" "(2 :: int) mod qv bn128_params \<noteq> 0" by (simp_all add: bn128_q)
  have thirty: "(0 :: nat) < 30" by simp
  obtain rho sig where r: "proof_point_C bn128_root8 bn128_half 2 3 1 (square_coefs square_one) (\<lambda>_. 1) square_wv ?V
      (int (le_nat (rho # replicate 30 0))) (int (le_nat (sig # replicate 30 0))) mod qv bn128_params \<noteq> 0"
    using random_choice [OF V(1) thirty q(1), of bn128_root8 bn128_half 2 3 1 "square_coefs square_one" "\<lambda>_. 1" square_wv] by blast
  note C = groth16_complete [where P = ?P and E = bn128_engine and k = 2 and V = ?V and wtns = square_wtns and cv = "\<lambda>_. 1"
      and Cm = square_C and wv = square_wv and t = 5 and gamma = 1 and ic = "square_K bn128_root8 bn128_half 2 square_one" and key = ?key and inputs = "[bn128_el 9]"
      and rr = "rho # replicate 30 0" and rs = "sig # replicate 30 0" and uninit = "[]" and il = "\<lambda>jobs. rev (concat jobs)" and nT = 2, unfolded u]
  let ?C = "proof_point_C bn128_root8 bn128_half 2 3 1 (square_coefs square_one) (\<lambda>_. 1) square_wv ?V (int (le_nat (rho # replicate 30 0))) (int (le_nat (sig # replicate 30 0)))"
  have "\<exists>pf A B C. Groth16_prove bn128_engine (\<lambda>jobs. rev (concat jobs)) 2 [] ?P square_wtns (rho # replicate 30 0) (sig # replicate 30 0) = Some pf \<and>
      ?fe (pf_A pf) A \<and> ?fe (pf_B pf) B \<and> ?fe (pf_C pf) C \<and> C = ?C \<and>
      groth16_equation (qv bn128_params) (kv_alpha ?V) (kv_beta ?V) 1 (kv_delta ?V) (square_K bn128_root8 bn128_half 2 square_one) 1 square_wv A B C \<and>
      (kv_alpha ?V mod qv bn128_params \<noteq> 0 \<and> C mod qv bn128_params \<noteq> 0 \<longrightarrow>
       (\<forall>(T :: (limbs, limbs, limbs) Pairing) pv. pairing_vals T ?fe ?fe (qv bn128_params) pv \<longrightarrow> Groth16_verify bn128_engine T pf [bn128_el 9] ?key = Inr True))"
    by (rule C [OF square_prover_vals fair_concat(2) _ square_key(1) _ _ square_elements(1,2,3)
          square_key(2,3) square_satisfied _ _ square_elements(4) _ _ inp])
      (simp_all add: bn128_FFT_def square_vkey_def)
  then obtain pf A B where pf: "Groth16_prove bn128_engine (\<lambda>jobs. rev (concat jobs)) 2 [] ?P square_wtns (rho # replicate 30 0) (sig # replicate 30 0) = Some pf"
      "?fe (pf_A pf) A" "?fe (pf_B pf) B" "?fe (pf_C pf) ?C"
      "groth16_equation (qv bn128_params) (kv_alpha ?V) (kv_beta ?V) 1 (kv_delta ?V) (square_K bn128_root8 bn128_half 2 square_one) 1 square_wv A B ?C"
    and v: "kv_alpha ?V mod qv bn128_params \<noteq> 0 \<and> ?C mod qv bn128_params \<noteq> 0 \<longrightarrow>
       (\<forall>(T :: (limbs, limbs, limbs) Pairing) pv. pairing_vals T ?fe ?fe (qv bn128_params) pv \<longrightarrow> Groth16_verify bn128_engine T pf [bn128_el 9] ?key = Inr True)"
    by (elim exE conjE) (simp only:)
  have nz: "kv_alpha ?V mod qv bn128_params \<noteq> 0 \<and> ?C mod qv bn128_params \<noteq> 0" using r q(2) V(2) by (simp only: simp_thms)
  have "Groth16_verify bn128_engine (field_pairing bn128_Fr) pf [bn128_el 9] ?key = Inr True"
    using mp [OF v nz] bn128_pairing.pairing_vals_axioms by blast
  then show ?thesis using pf unfolding V by blast
qed

end
