(* ===== verification/ProverApi.thy ===== *)
theory ProverApi
  imports BinFile JsonInput Groth16
begin

text \<open>
  The library's interface to the prover and the verifier (\<open>prover.h\<close>, \<open>prover.cpp\<close>, \<open>verifier.cpp\<close>):
  C functions over buffers that return a code. An exception of the C++ code is a value of
  \<open>api_error\<close>, its text the parameter \<open>what\<close>; \<open>Undefined\<close> is a use of memory that the code does
  not own, a failed assertion or a run that does not end, after which no function returns
  (\<open>None\<close>). A pointer is \<open>None\<close> when it is null; a buffer is the list of its characters. Mapped
  files have addresses: the prover keeps a pointer into the file of its key, and the memory says
  which files are still mapped.
\<close>

subsection \<open>Errors\<close>

datatype api_error = Bin_error bin_error | Invalid_witness_length u32 u32 | Invalid_argument string | Undefined

text \<open>The reader's errors that no check of the code reports are not exceptions.\<close>

definition of_bin :: "bin_error + 'a \<Rightarrow> api_error + 'a" where
  "of_bin x =
     (case x of
        Inl e \<Rightarrow> Inl (if e \<in> {Out_of_buffer, Null_section, Zero_division} then Undefined else Bin_error e)
      | Inr v \<Rightarrow> Inr v)"

definition PROVER_OK :: nat where "PROVER_OK = 0"
definition PROVER_ERROR :: nat where "PROVER_ERROR = 1"
definition PROVER_ERROR_SHORT_BUFFER :: nat where "PROVER_ERROR_SHORT_BUFFER = 2"
definition PROVER_INVALID_WITNESS_LENGTH :: nat where "PROVER_INVALID_WITNESS_LENGTH = 3"

definition VERIFIER_VALID_PROOF :: nat where "VERIFIER_VALID_PROOF = 0"
definition VERIFIER_INVALID_PROOF :: nat where "VERIFIER_INVALID_PROOF = 1"
definition VERIFIER_ERROR :: nat where "VERIFIER_ERROR = 2"

text \<open>Characters written over the start of a buffer; \<open>snprintf\<close> and \<open>strncpy\<close> on one.\<close>

definition overwrite :: "string \<Rightarrow> string \<Rightarrow> string" where
  "overwrite buf s = s @ drop (length s) buf"

definition CopyError :: "string option \<Rightarrow> u64 \<Rightarrow> string \<Rightarrow> string option" where
  "CopyError error_msg error_msg_maxsize msg =
     (case error_msg of
        None \<Rightarrow> None
      | Some buf \<Rightarrow>
          if error_msg_maxsize = 0 then Some buf
          else Some (overwrite buf (take (unat error_msg_maxsize - 1) msg @ [CHR 0x00])))"

definition strncpy :: "string \<Rightarrow> string \<Rightarrow> nat \<Rightarrow> string" where
  "strncpy buf s n = overwrite buf (take n s @ replicate (n - length s) (CHR 0x00))"

subsection \<open>The texts of proofs and public signals\<close>

text \<open>The text of a document, as \<open>dump\<close> writes it; no document of these functions holds a real number.\<close>

definition json_escape :: "char \<Rightarrow> string" where
  "json_escape c =
     (if c = CHR 0x22 then [CHR 0x5c, CHR 0x22]
      else if c = CHR 0x5c then [CHR 0x5c, CHR 0x5c]
      else if c = CHR 0x08 then [CHR 0x5c, CHR ''b'']
      else if c = CHR 0x0c then [CHR 0x5c, CHR ''f'']
      else if c = CHR 0x0a then [CHR 0x5c, CHR ''n'']
      else if c = CHR 0x0d then [CHR 0x5c, CHR ''r'']
      else if c = CHR 0x09 then [CHR 0x5c, CHR ''t'']
      else if of_char c < (32 :: nat)
      then CHR 0x5c # ''u00'' @ map (\<lambda>d. if d < 10 then char_of (48 + d) else char_of (87 + d)) [of_char c div 16, of_char c mod 16 :: nat]
      else [c])"

definition json_string :: "string \<Rightarrow> string" where
  "json_string s = CHR 0x22 # concat (map json_escape s) @ [CHR 0x22]"

fun join :: "string list \<Rightarrow> string" where
  "join [] = []"
| "join [s] = s"
| "join (s # t # ss) = s @ '','' @ join (t # ss)"

fun json_dump :: "json \<Rightarrow> string" where
  "json_dump Json_null = ''null''"
| "json_dump (Json_boolean b) = (if b then ''true'' else ''false'')"
| "json_dump (Json_integer i) = (if i < 0 then ''-'' @ dec_str (nat (- i)) else dec_str (nat i))"
| "json_dump (Json_unsigned n) = dec_str n"
| "json_dump (Json_string s) = json_string s"
| "json_dump (Json_array xs) = ''['' @ join (map json_dump xs) @ '']''"
| "json_dump (Json_object fs) = ''{'' @ join (map (\<lambda>(k, v). json_string k @ '':'' @ json_dump v) fs) @ ''}''"

text \<open>
  How an engine's data lie in memory: the size of affine points and how they are read, and the
  decimal strings of their coordinates.
\<close>

record ('a, 'b) layout =
  a1_size :: nat
  a1_dec :: "bytes \<Rightarrow> 'a"
  a2_size :: nat
  a2_dec :: "bytes \<Rightarrow> 'b"
  a1_str :: "'a \<Rightarrow> string \<times> string"
  a2_str :: "'b \<Rightarrow> (string \<times> string) \<times> (string \<times> string)"

text \<open>An object's members are in the order of their names.\<close>

definition Proof_toJson :: "('a, 'b) layout \<Rightarrow> ('a, 'b) Proof \<Rightarrow> json" where
  "Proof_toJson Y pf =
     (let g1 = \<lambda>(x, y). Json_array [Json_string x, Json_string y, Json_string ''1''];
          f2 = \<lambda>(a, b). Json_array [Json_string a, Json_string b];
          (x, y) = a2_str Y (pf_B pf)
      in Json_object
           [(''pi_a'', g1 (a1_str Y (pf_A pf))),
            (''pi_b'', Json_array [f2 x, f2 y, f2 (''1'', ''0'')]),
            (''pi_c'', g1 (a1_str Y (pf_C pf))),
            (''protocol'', Json_string ''groth16'')])"

text \<open>An array to which nothing was pushed is still null.\<close>

definition public_json :: "'e field_ops \<Rightarrow> 'e list \<Rightarrow> u32 \<Rightarrow> json" where
  "public_json F wtnsData nPub =
     (if nPub = 0 then Json_null
      else Json_array (map (\<lambda>i. let aux = f_toMontgomery F (wtnsData ! i) in Json_string (f_toString F aux)) [1..<unat nPub + 1]))"

definition BuildPublicString :: "'e field_ops \<Rightarrow> 'e list \<Rightarrow> u32 \<Rightarrow> string" where
  "BuildPublicString F wtnsData nPub = json_dump (public_json F wtnsData nPub)"

definition ProofBufferMinSize :: u64 where
  "ProofBufferMinSize = 810"

definition PublicBufferMinSize :: "u64 \<Rightarrow> u64" where
  "PublicBufferMinSize n = n * 82 + 4"

subsection \<open>The prover object\<close>

record memory =
  mem_next :: nat
  mem_mapped :: "nat \<rightharpoonup> bytes"

definition FileLoader_load :: "memory \<Rightarrow> bytes \<Rightarrow> nat \<times> memory" where
  "FileLoader_load M contents =
     (mem_next M, M\<lparr>mem_next := mem_next M + 1, mem_mapped := (mem_mapped M)(mem_next M \<mapsto> contents)\<rparr>)"

definition FileLoader_free :: "memory \<Rightarrow> nat \<Rightarrow> memory" where
  "FileLoader_free M addr = M\<lparr>mem_mapped := (mem_mapped M)(addr := None)\<rparr>"

definition PrimeIsValid :: "int \<Rightarrow> bool" where
  "PrimeIsValid prime \<longleftrightarrow> prime = 21888242871839275222246405745257275088548364400416034343698204186575808495617"

record 'e Groth16Prover =
  o_addr :: nat
  o_header :: zkey_Header
  o_coefs :: u64
  o_pointsA :: u64
  o_pointsB1 :: u64
  o_pointsB2 :: u64
  o_pointsC :: u64
  o_pointsH :: u64
  o_fft :: "'e FFT"

definition new_Groth16Prover :: "mpz_api \<Rightarrow> 'e field_ops \<Rightarrow> nat list \<Rightarrow> nat \<Rightarrow> 'e \<Rightarrow> memory \<Rightarrow> nat \<Rightarrow> api_error + 'e Groth16Prover" where
  "new_Groth16Prover Z F order nThreads uninit M addr =
     (case mem_mapped M addr of
        None \<Rightarrow> Inl Undefined
      | Some zkey_buffer \<Rightarrow>
     and_then (of_bin (new_BinFile zkey_buffer ''zkey'' 1)) (\<lambda>zkey.
     and_then (of_bin (zkey_loadHeader Z zkey)) (\<lambda>(zkeyHeader, zkey).
       if \<not> PrimeIsValid (rPrime zkeyHeader) then Inl (Invalid_argument ''zkey curve not supported'')
       else
     and_then (of_bin (getSectionData zkey 4 0)) (\<lambda>coefs.
     and_then (of_bin (getSectionData zkey 5 0)) (\<lambda>A.
     and_then (of_bin (getSectionData zkey 6 0)) (\<lambda>B1.
     and_then (of_bin (getSectionData zkey 7 0)) (\<lambda>B2.
     and_then (of_bin (getSectionData zkey 8 0)) (\<lambda>C.
     and_then (of_bin (getSectionData zkey 9 0)) (\<lambda>H.
       case new_FFT Z F order nThreads uninit (ucast (Prover_fft_size (z_domainSize zkeyHeader))) of
         None \<Rightarrow> Inl Undefined
       | Some (Inl e) \<Rightarrow> Inl (Invalid_argument e)
       | Some (Inr fft) \<Rightarrow>
           Inr \<lparr>o_addr = addr, o_header = zkeyHeader, o_coefs = coefs, o_pointsA = A, o_pointsB1 = B1, o_pointsB2 = B2,
              o_pointsC = C, o_pointsH = H, o_fft = fft\<rparr>)))))))))"

text \<open>An array that the code reads in place: its elements, when they all lie in the buffer.\<close>

definition view :: "bytes \<Rightarrow> nat \<Rightarrow> nat \<Rightarrow> nat \<Rightarrow> (bytes \<Rightarrow> 'x) \<Rightarrow> api_error + 'x list" where
  "view dat off n size' dec =
     (if off + n * size' > length dat then Inl Undefined
      else Inr (map dec (chunks size' n (drop off dat))))"

definition Coef_dec :: "('e, 'p, 'a, 'r, 'b) Engine \<Rightarrow> bytes \<Rightarrow> 'e Coef" where
  "Coef_dec E s = \<lparr>coef_m = rd32 s, coef_c = rd32 (drop 4 s), coef_s = rd32 (drop 8 s), coef_coef = fr_ofBytes E (drop 12 s)\<rparr>"

text \<open>The key as \<open>makeProver\<close> passes it; every index of a coefficient must lie in the arrays.\<close>

definition key_of_buffer :: "('e, 'p, 'a, 'r, 'b) Engine \<Rightarrow> ('a, 'b) layout \<Rightarrow> 'e Groth16Prover \<Rightarrow> bytes \<Rightarrow> api_error + ('e, 'a, 'b) Prover" where
  "key_of_buffer E Y ob dat =
     (let h = o_header ob; nv = unat (z_nVars h); S = unat (fr_size E)
      in and_then (view dat (unat (o_coefs ob) + 4) (unat (z_nCoefs h)) (12 + S) (Coef_dec E)) (\<lambda>coefs.
         and_then (view dat (unat (o_pointsA ob)) nv (a1_size Y) (a1_dec Y)) (\<lambda>A.
         and_then (view dat (unat (o_pointsB1 ob)) nv (a1_size Y) (a1_dec Y)) (\<lambda>B1.
         and_then (view dat (unat (o_pointsB2 ob)) nv (a2_size Y) (a2_dec Y)) (\<lambda>B2.
         and_then (view dat (unat (o_pointsC ob)) (unat (z_nVars h - z_nPublic h - 1)) (a1_size Y) (a1_dec Y)) (\<lambda>C.
         and_then (view dat (unat (o_pointsH ob)) (unat (z_domainSize h)) (a1_size Y) (a1_dec Y)) (\<lambda>H.
           if list_all (\<lambda>cf. coef_s cf < z_nVars h \<and> coef_c cf < z_domainSize h) coefs
           then Inr \<lparr>nVars = z_nVars h, nPublic = z_nPublic h, domainSize = z_domainSize h, nCoefs = z_nCoefs h,
                  vk_alpha1 = a1_dec Y (zkey_Header.vk_alpha1 h), vk_beta1 = a1_dec Y (zkey_Header.vk_beta1 h),
                  vk_beta2 = a2_dec Y (zkey_Header.vk_beta2 h), vk_delta1 = a1_dec Y (zkey_Header.vk_delta1 h),
                  vk_delta2 = a2_dec Y (zkey_Header.vk_delta2 h),
                  p_coefs = coefs, pointsA = A, pointsB1 = B1, pointsB2 = B2, pointsC = C, pointsH = H, p_fft = o_fft ob\<rparr>
           else Inl Undefined)))))))"

text \<open>
  What differs from one call to the next: the order of the threads' jobs, the contents of memory that
  is not initialised, and the random bytes.
\<close>

record 'e run_env =
  r_il :: "nat list list \<Rightarrow> nat list"
  r_threads :: nat
  r_uninit :: 'e
  r_rnd_r :: bytes
  r_rnd_s :: bytes

definition Groth16Prover_prove :: "mpz_api \<Rightarrow> ('e, 'p, 'a, 'r, 'b) Engine \<Rightarrow> ('a, 'b) layout \<Rightarrow> memory \<Rightarrow>
    'e Groth16Prover \<Rightarrow> bytes \<Rightarrow> 'e run_env \<Rightarrow> api_error + string \<times> string" where
  "Groth16Prover_prove Z E Y M ob wtns_buffer X =
     and_then (of_bin (new_BinFile wtns_buffer ''wtns'' 2)) (\<lambda>wtns.
     and_then (of_bin (wtns_loadHeader Z wtns)) (\<lambda>(wtnsHeader, wtns).
       let h = o_header ob
       in if z_nVars h \<noteq> w_nVars wtnsHeader then Inl (Invalid_witness_length (z_nVars h) (w_nVars wtnsHeader))
          else if \<not> PrimeIsValid (w_prime wtnsHeader) then Inl (Invalid_argument ''different wtns curve'')
          else
     and_then (of_bin (getSectionData wtns 2 0)) (\<lambda>wtnsData.
       case mem_mapped M (o_addr ob) of
         None \<Rightarrow> Inl Undefined
       | Some dat \<Rightarrow>
     and_then (key_of_buffer E Y ob dat) (\<lambda>P.
     and_then (view wtns_buffer (unat wtnsData) (unat (z_nVars h)) (unat (fr_size E)) (fr_ofBytes E)) (\<lambda>wtnsData.
       if z_nPublic h \<ge> z_nVars h then Inl Undefined
       else (case Groth16_prove E (r_il X) (r_threads X) (r_uninit X) P wtnsData (r_rnd_r X) (r_rnd_s X) of
               None \<Rightarrow> Inl Undefined
             | Some proof' \<Rightarrow> Inr (json_dump (Proof_toJson Y proof'), BuildPublicString (e_fr E) wtnsData (z_nPublic h))))))))"

subsection \<open>The interface\<close>

text \<open>The caller's buffers: outputs with their sizes, and the error message.\<close>

record api_io =
  io_proof :: "string option"
  io_proof_size :: "u64 option"
  io_public :: "string option"
  io_public_size :: "u64 option"
  io_error :: "string option"
  io_error_maxsize :: u64

definition api_fail :: "nat \<Rightarrow> string \<Rightarrow> api_io \<Rightarrow> (nat \<times> api_io) option" where
  "api_fail code msg io = Some (code, io\<lparr>io_error := CopyError (io_error io) (io_error_maxsize io) msg\<rparr>)"

definition short_buffer_message :: "u64 \<Rightarrow> u64 \<Rightarrow> u64 \<Rightarrow> u64 \<Rightarrow> string" where
  "short_buffer_message requiredProofSize origProofSize requiredPublicSize origPublicSize =
     ''Buffer insufficient for generated proof. Required - proof: '' @ dec_str (unat requiredProofSize) @
     '' (provided: '' @ dec_str (unat origProofSize) @ ''), public: '' @ dec_str (unat requiredPublicSize) @
     '' (provided: '' @ dec_str (unat origPublicSize) @ '')''"

definition store_result :: "string \<Rightarrow> string \<Rightarrow> string \<Rightarrow> u64 \<Rightarrow> string \<Rightarrow> u64 \<Rightarrow> api_io \<Rightarrow> (nat \<times> api_io) option" where
  "store_result stringProof stringPublic proof_buffer proof_size public_buffer public_size io =
     (let requiredProofSize = of_nat (length stringProof) + 1;
          requiredPublicSize = of_nat (length stringPublic) + 1
      in if proof_size < requiredProofSize \<or> public_size < requiredPublicSize
         then api_fail PROVER_ERROR_SHORT_BUFFER
                (short_buffer_message requiredProofSize proof_size requiredPublicSize public_size)
                (io\<lparr>io_proof_size := Some requiredProofSize, io_public_size := Some requiredPublicSize\<rparr>)
         else Some (PROVER_OK,
                io\<lparr>io_proof := Some (overwrite proof_buffer (stringProof @ [CHR 0x00])),
                   io_proof_size := Some (of_nat (length stringProof)),
                   io_public := Some (overwrite public_buffer (stringPublic @ [CHR 0x00])),
                   io_public_size := Some (of_nat (length stringPublic))\<rparr>))"

text \<open>\<open>prove\<close> is the prover object's method, \<open>X\<close> the environment of this call; a null object is \<open>None\<close>.\<close>

definition groth16_prover_prove :: "(api_error \<Rightarrow> string) \<Rightarrow> ('o \<Rightarrow> bytes \<Rightarrow> 'x \<Rightarrow> api_error + string \<times> string) \<Rightarrow> 'o option \<Rightarrow>
    bytes option \<Rightarrow> 'x \<Rightarrow> api_io \<Rightarrow> (nat \<times> api_io) option" where
  "groth16_prover_prove what prove prover_object wtns_buffer X io =
     (case prover_object of None \<Rightarrow> api_fail PROVER_ERROR ''Null prover object'' io | Some ob \<Rightarrow>
      case wtns_buffer of None \<Rightarrow> api_fail PROVER_ERROR ''Null witness buffer'' io | Some wtns \<Rightarrow>
      case io_proof io of None \<Rightarrow> api_fail PROVER_ERROR ''Null proof buffer'' io | Some proof_buffer \<Rightarrow>
      case io_proof_size io of None \<Rightarrow> api_fail PROVER_ERROR ''Null proof size'' io | Some proof_size \<Rightarrow>
      case io_public io of None \<Rightarrow> api_fail PROVER_ERROR ''Null public buffer'' io | Some public_buffer \<Rightarrow>
      case io_public_size io of None \<Rightarrow> api_fail PROVER_ERROR ''Null public size'' io | Some public_size \<Rightarrow>
      (case prove ob wtns X of
         Inl Undefined \<Rightarrow> None
       | Inl (Invalid_witness_length a b) \<Rightarrow>
           api_fail PROVER_INVALID_WITNESS_LENGTH (what (Invalid_witness_length a b)) io
       | Inl e \<Rightarrow> api_fail PROVER_ERROR (what e) io
       | Inr (stringProof, stringPublic) \<Rightarrow>
           store_result stringProof stringPublic proof_buffer proof_size public_buffer public_size io))"

definition groth16_public_size_for_zkey_buf :: "mpz_api \<Rightarrow> (api_error \<Rightarrow> string) \<Rightarrow> bytes \<Rightarrow> api_io \<Rightarrow> (nat \<times> api_io) option" where
  "groth16_public_size_for_zkey_buf Z what zkey_buffer io =
     (case and_then (of_bin (new_BinFile zkey_buffer ''zkey'' 1)) (\<lambda>zkey. of_bin (zkey_loadHeader Z zkey)) of
        Inl Undefined \<Rightarrow> None
      | Inl e \<Rightarrow> api_fail PROVER_ERROR (what e) io
      | Inr (zkeyHeader, zkey) \<Rightarrow>
          Some (PROVER_OK, io\<lparr>io_public_size := Some (PublicBufferMinSize (ucast (z_nPublic zkeyHeader)))\<rparr>))"

text \<open>A file is the error of its loader or its contents.\<close>

definition groth16_public_size_for_zkey_file :: "mpz_api \<Rightarrow> (api_error \<Rightarrow> string) \<Rightarrow> string + bytes \<Rightarrow> api_io \<Rightarrow> (nat \<times> api_io) option" where
  "groth16_public_size_for_zkey_file Z what zkey_file io =
     (case zkey_file of
        Inl e \<Rightarrow> api_fail PROVER_ERROR e io
      | Inr contents \<Rightarrow> groth16_public_size_for_zkey_buf Z what contents io)"

definition groth16_proof_size :: "api_io \<Rightarrow> api_io" where
  "groth16_proof_size io = io\<lparr>io_proof_size := Some ProofBufferMinSize\<rparr>"

text \<open>\<open>create\<close> is the constructor of the prover object, on the memory and the address of the key's file.\<close>

definition groth16_prover_create :: "(api_error \<Rightarrow> string) \<Rightarrow> (memory \<Rightarrow> nat \<Rightarrow> api_error + 'o) \<Rightarrow> memory \<Rightarrow> bool \<Rightarrow> nat option \<Rightarrow>
    api_io \<Rightarrow> (nat \<times> 'o option \<times> api_io) option" where
  "groth16_prover_create what create M has_object zkey_buffer io =
     (let failed = \<lambda>msg. map_option (\<lambda>(c, io). (c, None, io)) (api_fail PROVER_ERROR msg io)
      in if \<not> has_object then failed (what (Invalid_argument ''Null prover object''))
         else case zkey_buffer of
           None \<Rightarrow> failed (what (Invalid_argument ''Null zkey buffer''))
         | Some addr \<Rightarrow>
        (case create M addr of
           Inl Undefined \<Rightarrow> None
         | Inl e \<Rightarrow> failed (what e)
         | Inr ob \<Rightarrow> Some (PROVER_OK, Some ob, io)))"

text \<open>The loader unmaps the file at the end of the function.\<close>

definition groth16_prover_create_zkey_file :: "(api_error \<Rightarrow> string) \<Rightarrow> (memory \<Rightarrow> nat \<Rightarrow> api_error + 'o) \<Rightarrow> memory \<Rightarrow> bool \<Rightarrow>
    string + bytes \<Rightarrow> api_io \<Rightarrow> (nat \<times> 'o option \<times> api_io \<times> memory) option" where
  "groth16_prover_create_zkey_file what create M has_object zkey_file io =
     (case zkey_file of
        Inl e \<Rightarrow> map_option (\<lambda>(c, io). (c, None, io, M)) (api_fail PROVER_ERROR e io)
      | Inr contents \<Rightarrow>
          let (addr, M) = FileLoader_load M contents
          in map_option (\<lambda>(c, ob, io). (c, ob, io, FileLoader_free M addr))
               (groth16_prover_create what create M has_object (Some addr) io))"

definition groth16_prover :: "(api_error \<Rightarrow> string) \<Rightarrow> (memory \<Rightarrow> nat \<Rightarrow> api_error + 'o) \<Rightarrow> (memory \<Rightarrow> 'o \<Rightarrow> bytes \<Rightarrow> 'x \<Rightarrow> api_error + string \<times> string) \<Rightarrow>
    memory \<Rightarrow> nat option \<Rightarrow> bytes option \<Rightarrow> 'x \<Rightarrow> api_io \<Rightarrow> (nat \<times> api_io) option" where
  "groth16_prover what create prove M zkey_buffer wtns_buffer X io =
     (case groth16_prover_create what create M True zkey_buffer io of
        None \<Rightarrow> None
      | Some (error, prover, io) \<Rightarrow>
          if error \<noteq> PROVER_OK then Some (error, io)
          else groth16_prover_prove what (prove M) prover wtns_buffer X io)"

definition groth16_prover_zkey_file :: "(api_error \<Rightarrow> string) \<Rightarrow> (memory \<Rightarrow> nat \<Rightarrow> api_error + 'o) \<Rightarrow> (memory \<Rightarrow> 'o \<Rightarrow> bytes \<Rightarrow> 'x \<Rightarrow> api_error + string \<times> string) \<Rightarrow>
    memory \<Rightarrow> string + bytes \<Rightarrow> bytes option \<Rightarrow> 'x \<Rightarrow> api_io \<Rightarrow> (nat \<times> api_io \<times> memory) option" where
  "groth16_prover_zkey_file what create prove M zkey_file wtns_buffer X io =
     (case zkey_file of
        Inl e \<Rightarrow> map_option (\<lambda>(c, io). (c, io, M)) (api_fail PROVER_ERROR e io)
      | Inr contents \<Rightarrow>
          let (addr, M) = FileLoader_load M contents
          in map_option (\<lambda>(c, io). (c, io, FileLoader_free M addr))
               (groth16_prover what create prove M (Some addr) wtns_buffer X io))"

subsection \<open>The verifier\<close>

text \<open>
  Access to a parsed document. An operation on a value of the wrong type throws; a constant
  object or array does not check that the member exists (an assertion in debug builds only).
  A function that parses turns every exception into its own error.
\<close>

definition type_error :: "api_error + 'a" where
  "type_error = Inl (Invalid_argument ''type_error'')"

fun at_key :: "json \<Rightarrow> string \<Rightarrow> api_error + json" where
  "at_key (Json_object fs) k = (case map_of fs k of None \<Rightarrow> Inl Undefined | Some v \<Rightarrow> Inr v)"
| "at_key _ k = type_error"

fun at_index :: "json \<Rightarrow> nat \<Rightarrow> api_error + json" where
  "at_index (Json_array xs) i = (if i < length xs then Inr (xs ! i) else Inl Undefined)"
| "at_index _ i = type_error"

text \<open>The operator of an object that may change adds a null member.\<close>

fun put_key :: "json \<Rightarrow> string \<Rightarrow> api_error + json" where
  "put_key (Json_object fs) k = (case map_of fs k of None \<Rightarrow> Inr Json_null | Some v \<Rightarrow> Inr v)"
| "put_key Json_null k = Inr Json_null"
| "put_key _ k = type_error"

fun get_string :: "json \<Rightarrow> api_error + string" where
  "get_string (Json_string s) = Inr s"
| "get_string _ = type_error"

fun is_number :: "json \<Rightarrow> bool" where
  "is_number (Json_integer _) = True"
| "is_number (Json_unsigned _) = True"
| "is_number (Json_float _ _) = True"
| "is_number _ = False"

definition rethrow :: "string \<Rightarrow> api_error + 'a \<Rightarrow> api_error + 'a" where
  "rethrow msg x = (case x of Inl Undefined \<Rightarrow> Inl Undefined | Inl e \<Rightarrow> Inl (Invalid_argument msg) | Inr v \<Rightarrow> Inr v)"

text \<open>How an engine reads an element and points from decimal strings; \<open>None\<close> is a run with no result.\<close>

record ('e, 'a, 'b) readers =
  rd_fr :: "string \<Rightarrow> 'e option"
  rd_a1 :: "string \<Rightarrow> string \<Rightarrow> 'a option"
  rd_a2 :: "string \<Rightarrow> string \<Rightarrow> string \<Rightarrow> string \<Rightarrow> 'b option"

definition defined :: "'a option \<Rightarrow> api_error + 'a" where
  "defined x = (case x of None \<Rightarrow> Inl Undefined | Some v \<Rightarrow> Inr v)"

definition string_at :: "json \<Rightarrow> nat \<Rightarrow> api_error + string" where
  "string_at v i = and_then (at_index v i) get_string"

definition G1PointAffineFromJson :: "('e, 'a, 'b) readers \<Rightarrow> json \<Rightarrow> api_error + 'a" where
  "G1PointAffineFromJson D v =
     and_then (string_at v 0) (\<lambda>x. and_then (string_at v 1) (\<lambda>y. defined (rd_a1 D x y)))"

definition G2PointAffineFromJson :: "('e, 'a, 'b) readers \<Rightarrow> json \<Rightarrow> api_error + 'b" where
  "G2PointAffineFromJson D v =
     and_then (and_then (at_index v 0) (\<lambda>w. string_at w 0)) (\<lambda>xa.
     and_then (and_then (at_index v 0) (\<lambda>w. string_at w 1)) (\<lambda>xb.
     and_then (and_then (at_index v 1) (\<lambda>w. string_at w 0)) (\<lambda>ya.
     and_then (and_then (at_index v 1) (\<lambda>w. string_at w 1)) (\<lambda>yb.
       defined (rd_a2 D xa xb ya yb)))))"

definition Proof_fromJson :: "('e, 'a, 'b) readers \<Rightarrow> json \<Rightarrow> api_error + ('a, 'b) Proof" where
  "Proof_fromJson D proof' =
     and_then (and_then (at_key proof' ''pi_a'') (G1PointAffineFromJson D)) (\<lambda>A.
     and_then (and_then (at_key proof' ''pi_b'') (G2PointAffineFromJson D)) (\<lambda>B.
     and_then (and_then (at_key proof' ''pi_c'') (G1PointAffineFromJson D)) (\<lambda>C.
       Inr \<lparr>pf_A = A, pf_B = B, pf_C = C\<rparr>)))"

text \<open>The values that \<open>items\<close> runs over: a value that is no array or object is its own item.\<close>

fun json_items :: "json \<Rightarrow> json list" where
  "json_items (Json_array xs) = xs"
| "json_items (Json_object fs) = map snd fs"
| "json_items Json_null = []"
| "json_items v = [v]"

fun map_results :: "('x \<Rightarrow> api_error + 'y) \<Rightarrow> 'x list \<Rightarrow> api_error + 'y list" where
  "map_results f [] = Inr []"
| "map_results f (x # xs) = and_then (f x) (\<lambda>y. and_then (map_results f xs) (\<lambda>ys. Inr (y # ys)))"

definition VerificationKey_fromJson :: "('e, 'a, 'b) readers \<Rightarrow> json \<Rightarrow> api_error + ('a, 'b) VerificationKey" where
  "VerificationKey_fromJson D key =
     and_then (and_then (at_key key ''vk_alpha_1'') (G1PointAffineFromJson D)) (\<lambda>Alpha.
     and_then (and_then (at_key key ''vk_beta_2'') (G2PointAffineFromJson D)) (\<lambda>Beta.
     and_then (and_then (at_key key ''vk_gamma_2'') (G2PointAffineFromJson D)) (\<lambda>Gamma.
     and_then (and_then (at_key key ''vk_delta_2'') (G2PointAffineFromJson D)) (\<lambda>Delta.
     and_then (at_key key ''IC'') (\<lambda>j_ic.
     and_then (map_results (G1PointAffineFromJson D) (json_items j_ic)) (\<lambda>IC.
       Inr \<lparr>vk_Alpha = Alpha, vk_Beta = Beta, vk_Gamma = Gamma, vk_Delta = Delta, vk_IC = IC\<rparr>))))))"

text \<open>A document is \<open>None\<close> when the text does not parse.\<close>

definition json_parse :: "json option \<Rightarrow> api_error + json" where
  "json_parse doc = (case doc of None \<Rightarrow> Inl (Invalid_argument ''parse_error'') | Some j \<Rightarrow> Inr j)"

definition parse_proof :: "('e, 'a, 'b) readers \<Rightarrow> json option \<Rightarrow> api_error + ('a, 'b) Proof" where
  "parse_proof D doc =
     rethrow ''invalid proof data''
      (and_then (json_parse doc) (\<lambda>proof_json.
       and_then (and_then (put_key proof_json ''protocol'') get_string) (\<lambda>protocol.
         if protocol \<noteq> ''groth16'' then Inl (Invalid_argument ''invalid proof data'')
         else Proof_fromJson D proof_json)))"

definition parse_inputs :: "('e, 'a, 'b) readers \<Rightarrow> json option \<Rightarrow> api_error + 'e list" where
  "parse_inputs D doc =
     rethrow ''invalid inputs data''
      (and_then (json_parse doc) (\<lambda>inputs_json.
       and_then (case inputs_json of Json_array xs \<Rightarrow> map_results get_string xs | _ \<Rightarrow> type_error) (\<lambda>inputs_str_vec.
         if inputs_str_vec = [] then Inl (Invalid_argument ''invalid inputs data'')
         else map_results (\<lambda>elem. defined (rd_fr D elem)) inputs_str_vec)))"

definition parse_key :: "('e, 'a, 'b) readers \<Rightarrow> json option \<Rightarrow> api_error + ('a, 'b) VerificationKey" where
  "parse_key D doc =
     rethrow ''invalid verification key data''
      (and_then (json_parse doc) (\<lambda>key_json.
       and_then (and_then (put_key key_json ''protocol'') get_string) (\<lambda>protocol.
       and_then (and_then (put_key key_json ''curve'') get_string) (\<lambda>curve.
       and_then (and_then (put_key key_json ''nPublic'') (\<lambda>n. if is_number n then Inr n else type_error)) (\<lambda>nPublic.
         if protocol \<noteq> ''groth16'' \<or> curve \<noteq> ''bn128'' then Inl (Invalid_argument ''invalid verification key data'')
         else and_then (VerificationKey_fromJson D key_json) (\<lambda>key.
           if vk_IC key = [] then Inl (Invalid_argument ''invalid verification key data'') else Inr key))))))"

definition groth16_verify :: "('e, 'p, 'a, 'r, 'b) Engine \<Rightarrow> ('p, 'r, 't) Pairing \<Rightarrow> ('e, 'a, 'b) readers \<Rightarrow>
    json option \<Rightarrow> json option \<Rightarrow> json option \<Rightarrow> string option \<Rightarrow> nat \<Rightarrow> (nat \<times> string option) option" where
  "groth16_verify E T D proof' inputs verification_key error_msg error_msg_maxsize =
     (case and_then (parse_proof D proof') (\<lambda>proof_value.
           and_then (parse_inputs D inputs) (\<lambda>inputs_value.
           and_then (parse_key D verification_key) (\<lambda>key_value.
             case Groth16_verify E T proof_value inputs_value key_value of
               Inl e \<Rightarrow> Inl (Invalid_argument e)
             | Inr valid \<Rightarrow> Inr valid))) of
        Inr valid \<Rightarrow> Some (if valid then VERIFIER_VALID_PROOF else VERIFIER_INVALID_PROOF, error_msg)
      | Inl (Invalid_argument e) \<Rightarrow>
          Some (VERIFIER_ERROR, map_option (\<lambda>buf. strncpy buf e error_msg_maxsize) error_msg)
      | Inl _ \<Rightarrow> None)"

subsection \<open>The protocol of the buffers\<close>

lemma length_overwrite: "length s \<le> length buf \<Longrightarrow> length (overwrite buf s) = length buf"
  by (simp add: overwrite_def)

lemma take_overwrite: "take (length s) (overwrite buf s) = s"
  by (simp add: overwrite_def)

lemma drop_overwrite: "length s \<le> k \<Longrightarrow> drop k (overwrite buf s) = drop k buf"
  by (simp add: overwrite_def)

lemma u64_of_nat_less: "n < 2 ^ 63 \<Longrightarrow> (s < (of_nat n :: u64) + 1) \<longleftrightarrow> unat s \<le> n"
  and u64_of_nat_Suc: "n < 2 ^ 63 \<Longrightarrow> unat ((of_nat n :: u64) + 1) = n + 1"
proof -
  assume n: "n < 2 ^ 63"
  then have "n < 2 ^ 64" "n + 1 < 2 ^ 64" by simp_all
  then show u: "unat ((of_nat n :: u64) + 1) = n + 1" by (subst unat_ops(2)) (simp_all add: unat_ops(4))
  show "(s < (of_nat n :: u64) + 1) \<longleftrightarrow> unat s \<le> n" unfolding word_less_nat_alt u by linarith
qed

text \<open>
  Property C25. With all pointers given, a proof that was made is written to the buffers, each with
  a terminator and its length and nothing past the announced size, or, when a buffer is too short,
  the sizes this proof needs are reported and the buffers are left as they are. A second call with
  buffers of these sizes makes a new proof with new random bytes: it succeeds exactly if the texts of
  that proof are not longer, and otherwise reports its sizes again.
\<close>

theorem prover_prove_buffers:
  assumes "prove ob wtns X = Inr (sp, sq)" "length sp < 2 ^ 63" "length sq < 2 ^ 63"
    and "io_proof io = Some pb" "io_proof_size io = Some ps" "io_public io = Some qb" "io_public_size io = Some qs"
    and "unat ps \<le> length pb" "unat qs \<le> length qb"
  shows "(if length sp < unat ps \<and> length sq < unat qs
    then \<exists>pb' qb'. groth16_prover_prove what prove (Some ob) (Some wtns) X io =
        Some (PROVER_OK, io\<lparr>io_proof := Some pb', io_proof_size := Some (of_nat (length sp)),
                io_public := Some qb', io_public_size := Some (of_nat (length sq))\<rparr>) \<and>
      take (length sp + 1) pb' = sp @ [CHR 0x00] \<and> length pb' = length pb \<and> drop (unat ps) pb' = drop (unat ps) pb \<and>
      take (length sq + 1) qb' = sq @ [CHR 0x00] \<and> length qb' = length qb \<and> drop (unat qs) qb' = drop (unat qs) qb
    else \<exists>io' ps' qs'. groth16_prover_prove what prove (Some ob) (Some wtns) X io = Some (PROVER_ERROR_SHORT_BUFFER, io') \<and>
      io_proof io' = Some pb \<and> io_public io' = Some qb \<and> io_proof_size io' = Some ps' \<and> io_public_size io' = Some qs' \<and>
      unat ps' = length sp + 1 \<and> unat qs' = length sq + 1 \<and>
      (\<forall>pb2 qb2 X2 sp2 sq2. length pb2 = unat ps' \<and> length qb2 = unat qs' \<and> prove ob wtns X2 = Inr (sp2, sq2) \<and>
          length sp2 < 2 ^ 63 \<and> length sq2 < 2 ^ 63 \<longrightarrow>
        (\<exists>c io2. groth16_prover_prove what prove (Some ob) (Some wtns) X2 (io'\<lparr>io_proof := Some pb2, io_public := Some qb2\<rparr>) = Some (c, io2) \<and>
          (if length sp2 \<le> length sp \<and> length sq2 \<le> length sq
           then c = PROVER_OK \<and> io_proof io2 = Some (overwrite pb2 (sp2 @ [CHR 0x00])) \<and> io_public io2 = Some (overwrite qb2 (sq2 @ [CHR 0x00]))
           else c = PROVER_ERROR_SHORT_BUFFER \<and> io_proof io2 = Some pb2 \<and> io_public io2 = Some qb2 \<and>
             io_proof_size io2 = Some (of_nat (length sp2) + 1) \<and> io_public_size io2 = Some (of_nat (length sq2) + 1)))))"
proof -
  let ?ps = "of_nat (length sp) + 1 :: u64" and ?qs = "of_nat (length sq) + 1 :: u64"
  note s = u64_of_nat_less [OF assms(2), of ps] u64_of_nat_less [OF assms(3), of qs]
  note n = u64_of_nat_Suc [OF assms(2)] u64_of_nat_Suc [OF assms(3)]
  have run: "groth16_prover_prove what prove (Some ob) (Some wtns) X io = store_result sp sq pb ps qb qs io"
    using assms(1,4-7) by (simp add: groth16_prover_prove_def)
  show ?thesis
  proof (cases "length sp < unat ps \<and> length sq < unat qs")
    case True
    then have "\<not> (ps < ?ps \<or> qs < ?qs)" using s by simp
    moreover have "take (length sp + 1) (overwrite pb (sp @ [CHR 0x00])) = sp @ [CHR 0x00]"
      "take (length sq + 1) (overwrite qb (sq @ [CHR 0x00])) = sq @ [CHR 0x00]" by (simp_all add: overwrite_def)
    moreover have "length (overwrite pb (sp @ [CHR 0x00])) = length pb" "length (overwrite qb (sq @ [CHR 0x00])) = length qb"
      using True assms(8,9) by (simp_all add: length_overwrite)
    moreover have "drop (unat ps) (overwrite pb (sp @ [CHR 0x00])) = drop (unat ps) pb"
      "drop (unat qs) (overwrite qb (sq @ [CHR 0x00])) = drop (unat qs) qb"
      using True by (simp_all add: drop_overwrite)
    ultimately show ?thesis using True unfolding run store_result_def Let_def by auto
  next
    case False
    then have short: "ps < ?ps \<or> qs < ?qs" using s by auto
    let ?io = "io\<lparr>io_proof_size := Some ?ps, io_public_size := Some ?qs,
      io_error := CopyError (io_error io) (io_error_maxsize io) (short_buffer_message ?ps ps ?qs qs)\<rparr>"
    have first: "store_result sp sq pb ps qb qs io = Some (PROVER_ERROR_SHORT_BUFFER, ?io)"
      using short by (simp add: store_result_def Let_def api_fail_def)
    show ?thesis unfolding run first if_not_P [OF False]
    proof (rule exI [of _ ?io], rule exI [of _ ?ps], rule exI [of _ ?qs], intro conjI allI impI)
      fix pb2 qb2 sp2 sq2 :: string and X2
      let ?io1 = "?io\<lparr>io_proof := Some pb2, io_public := Some qb2\<rparr>"
      assume l: "length pb2 = unat ?ps \<and> length qb2 = unat ?qs \<and> prove ob wtns X2 = Inr (sp2, sq2) \<and> length sp2 < 2 ^ 63 \<and> length sq2 < 2 ^ 63"
      have s2: "?ps < of_nat (length sp2) + 1 \<longleftrightarrow> \<not> length sp2 \<le> length sp" "?qs < of_nat (length sq2) + 1 \<longleftrightarrow> \<not> length sq2 \<le> length sq"
        using u64_of_nat_less [of "length sp2" ?ps] u64_of_nat_less [of "length sq2" ?qs] l n by auto
      have r2: "groth16_prover_prove what prove (Some ob) (Some wtns) X2 ?io1 = store_result sp2 sq2 pb2 ?ps qb2 ?qs ?io1"
        using l by (simp add: groth16_prover_prove_def)
      show "\<exists>c io2. groth16_prover_prove what prove (Some ob) (Some wtns) X2 ?io1 = Some (c, io2) \<and>
          (if length sp2 \<le> length sp \<and> length sq2 \<le> length sq
           then c = PROVER_OK \<and> io_proof io2 = Some (overwrite pb2 (sp2 @ [CHR 0x00])) \<and> io_public io2 = Some (overwrite qb2 (sq2 @ [CHR 0x00]))
           else c = PROVER_ERROR_SHORT_BUFFER \<and> io_proof io2 = Some pb2 \<and> io_public io2 = Some qb2 \<and>
             io_proof_size io2 = Some (of_nat (length sp2) + 1) \<and> io_public_size io2 = Some (of_nat (length sq2) + 1))"
        unfolding r2 store_result_def Let_def s2 api_fail_def by simp
    qed (use assms(4,6) n in simp_all)
  qed
qed

theorem prover_prove_buffers_witness:
  "(\<exists>pb qb. groth16_prover_prove (\<lambda>_. []) (\<lambda>_ _ _. Inr (''{}'', ''[]'')) (Some ()) (Some []) ()
      \<lparr>io_proof = Some ''abcde'', io_proof_size = Some 4, io_public = Some ''xyz'', io_public_size = Some 3,
       io_error = None, io_error_maxsize = 0\<rparr> =
    Some (PROVER_OK, \<lparr>io_proof = Some pb, io_proof_size = Some 2, io_public = Some qb, io_public_size = Some 2,
       io_error = None, io_error_maxsize = 0\<rparr>) \<and> take (length ''{}'' + 1) pb = ''{}'' @ [CHR 0x00] \<and> drop 4 pb = ''e'') \<and>
   (\<exists>io'. groth16_prover_prove (\<lambda>_. []) (\<lambda>_ _ b. Inr (if b then ''{1}'' else ''{}'', ''[]'')) (Some ()) (Some []) False
      \<lparr>io_proof = Some ''ab'', io_proof_size = Some 2, io_public = Some ''xyz'', io_public_size = Some 3,
       io_error = None, io_error_maxsize = 0\<rparr> = Some (PROVER_ERROR_SHORT_BUFFER, io') \<and>
     (\<exists>io2. groth16_prover_prove (\<lambda>_. []) (\<lambda>_ _ b. Inr (if b then ''{1}'' else ''{}'', ''[]'')) (Some ()) (Some []) True
       (io'\<lparr>io_proof := Some ''abc'', io_public := Some ''xyz''\<rparr>) = Some (PROVER_ERROR_SHORT_BUFFER, io2)))"
proof (rule conjI)
  show "\<exists>pb qb. groth16_prover_prove (\<lambda>_. []) (\<lambda>_ _ _. Inr (''{}'', ''[]'')) (Some ()) (Some []) ()
      \<lparr>io_proof = Some ''abcde'', io_proof_size = Some 4, io_public = Some ''xyz'', io_public_size = Some 3,
       io_error = None, io_error_maxsize = 0\<rparr> =
    Some (PROVER_OK, \<lparr>io_proof = Some pb, io_proof_size = Some 2, io_public = Some qb, io_public_size = Some 2,
       io_error = None, io_error_maxsize = 0\<rparr>) \<and> take (length ''{}'' + 1) pb = ''{}'' @ [CHR 0x00] \<and> drop 4 pb = ''e''"
    using prover_prove_buffers [of "\<lambda>_ _ _. Inr (''{}'', ''[]'')" "()" "[]" "()" "''{}''" "''[]''"
        "\<lparr>io_proof = Some ''abcde'', io_proof_size = Some 4, io_public = Some ''xyz'', io_public_size = Some 3,
         io_error = None, io_error_maxsize = 0\<rparr>" "''abcde''" 4 "''xyz''" 3 "\<lambda>_. []"] by auto
next
  let ?prove = "\<lambda>(_ :: unit) (_ :: bytes) b. Inr (if b then ''{1}'' else ''{}'', ''[]'') :: api_error + string \<times> string"
  let ?io = "\<lparr>io_proof = Some ''ab'', io_proof_size = Some 2, io_public = Some ''xyz'', io_public_size = Some 3, io_error = None, io_error_maxsize = 0\<rparr>"
  have c: "\<not> (length ''{}'' < unat (2 :: u64) \<and> length ''[]'' < unat (3 :: u64))" by simp
  have f: "?prove () [] False = Inr (''{}'', ''[]'')" "length ''{}'' < 2 ^ 63" "length ''[]'' < 2 ^ 63" "io_proof ?io = Some ''ab''"
    "io_proof_size ?io = Some 2" "io_public ?io = Some ''xyz''" "io_public_size ?io = Some 3" "unat (2 :: u64) \<le> length ''ab''"
    "unat (3 :: u64) \<le> length ''xyz''" by simp_all
  note T = prover_prove_buffers [of ?prove "()" "[]" False "''{}''" "''[]''" ?io "''ab''" 2 "''xyz''" 3 "\<lambda>_. []", OF f, unfolded if_not_P [OF c]]
  from T obtain io' and ps' qs' :: u64 where 1: "groth16_prover_prove (\<lambda>_. []) ?prove (Some ()) (Some []) False ?io = Some (PROVER_ERROR_SHORT_BUFFER, io')"
    "unat ps' = length ''{}'' + 1" "unat qs' = length ''[]'' + 1"
    and 2: "\<forall>pb2 qb2 X2 sp2 sq2. length pb2 = unat ps' \<and> length qb2 = unat qs' \<and> ?prove () [] X2 = Inr (sp2, sq2) \<and>
          length sp2 < 2 ^ 63 \<and> length sq2 < 2 ^ 63 \<longrightarrow>
        (\<exists>c io2. groth16_prover_prove (\<lambda>_. []) ?prove (Some ()) (Some []) X2 (io'\<lparr>io_proof := Some pb2, io_public := Some qb2\<rparr>) = Some (c, io2) \<and>
          (if length sp2 \<le> length ''{}'' \<and> length sq2 \<le> length ''[]''
           then c = PROVER_OK \<and> io_proof io2 = Some (overwrite pb2 (sp2 @ [CHR 0x00])) \<and> io_public io2 = Some (overwrite qb2 (sq2 @ [CHR 0x00]))
           else c = PROVER_ERROR_SHORT_BUFFER \<and> io_proof io2 = Some pb2 \<and> io_public io2 = Some qb2 \<and>
             io_proof_size io2 = Some (of_nat (length sp2) + 1) \<and> io_public_size io2 = Some (of_nat (length sq2) + 1)))"
    by (elim exE conjE) rule
  have 3: "length ''abc'' = unat ps' \<and> length ''xyz'' = unat qs' \<and> ?prove () [] True = Inr (''{1}'', ''[]'') \<and>
      length ''{1}'' < 2 ^ 63 \<and> length ''[]'' < 2 ^ 63" using 1(2,3) by simp
  have 4: "\<not> (length ''{1}'' \<le> length ''{}'' \<and> length ''[]'' \<le> length ''[]'')" by simp
  note 5 = 2 [THEN spec, THEN spec, THEN spec, THEN spec, THEN spec, THEN mp, OF 3, unfolded if_not_P [OF 4]]
  show "\<exists>io'. groth16_prover_prove (\<lambda>_. []) ?prove (Some ()) (Some []) False ?io = Some (PROVER_ERROR_SHORT_BUFFER, io') \<and>
     (\<exists>io2. groth16_prover_prove (\<lambda>_. []) ?prove (Some ()) (Some []) True (io'\<lparr>io_proof := Some ''abc'', io_public := Some ''xyz''\<rparr>) =
       Some (PROVER_ERROR_SHORT_BUFFER, io2))"
    using 1(1) 5 by blast
qed

subsection \<open>The announced sizes\<close>

lemma plain_string: "is_decimal s \<Longrightarrow> json_string s = CHR 0x22 # s @ [CHR 0x22]"
proof -
  assume s: "is_decimal s"
  have "json_escape c = [c]" if c: "is_digit c" for c
  proof -
    have n: "c \<noteq> d" if "(of_char d :: nat) < 48 \<or> 57 < (of_char d :: nat)" for d using c that by (auto simp: is_digit_def)
    have "\<not> of_char c < (32 :: nat)" using c by (simp add: is_digit_def)
    then show ?thesis
      using n [of "CHR 0x22"] n [of "CHR 0x5c"] n [of "CHR 0x08"] n [of "CHR 0x0c"] n [of "CHR 0x0a"] n [of "CHR 0x0d"] n [of "CHR 0x09"]
      by (simp add: json_escape_def)
  qed
  then have "concat (map json_escape t) = t" if "\<forall>c \<in> set t. is_digit c" for t using that by (induction t) auto
  then have "concat (map json_escape s) = s" using s by (simp add: is_decimal_def)
  then show ?thesis by (simp add: json_string_def)
qed

lemma length_join: "length (join ss) + (if ss = [] then 0 else 1) = (\<Sum>s \<leftarrow> ss. length s + 1)"
  by (induction ss rule: join.induct) simp_all

text \<open>The decimal strings of numbers of at most 77 digits, as those below the two primes.\<close>

definition coord :: "string \<Rightarrow> bool" where
  "coord s \<longleftrightarrow> is_decimal s \<and> length s \<le> 77"

text \<open>
  Property C26. The sizes that the library announces are enough for every proof and every list of
  at least one public signal; for a circuit without public signals the text is \<open>null\<close>, which
  does not fit.
\<close>

theorem announced_sizes:
  assumes "coord (fst (a1_str Y (pf_A pf)))" "coord (snd (a1_str Y (pf_A pf)))"
    and "coord (fst (a1_str Y (pf_C pf)))" "coord (snd (a1_str Y (pf_C pf)))"
    and "coord (fst (fst (a2_str Y (pf_B pf))))" "coord (snd (fst (a2_str Y (pf_B pf))))"
    and "coord (fst (snd (a2_str Y (pf_B pf))))" "coord (snd (snd (a2_str Y (pf_B pf))))"
    and "\<forall>i \<in> {1..unat n}. coord (f_toString F (f_toMontgomery F (w ! i)))"
  shows "length (json_dump (Proof_toJson Y pf)) < unat ProofBufferMinSize \<and>
    (length (BuildPublicString F w n) < unat (PublicBufferMinSize (ucast n)) \<longleftrightarrow> n \<noteq> 0)"
proof
  have js: "length (json_string s) \<le> 79" if "coord s" for s
    using that plain_string [of s] by (simp add: coord_def)
  have one: "json_string ''1'' = [CHR 0x22, CHR ''1'', CHR 0x22]" "json_string ''0'' = [CHR 0x22, CHR ''0'', CHR 0x22]"
    by (simp_all add: json_string_def json_escape_def)
  have keys: "length (json_string ''pi_a'') = 6" "length (json_string ''pi_b'') = 6" "length (json_string ''pi_c'') = 6"
    "length (json_string ''protocol'') = 10" "length (json_string ''groth16'') = 9"
    by (simp_all add: json_string_def json_escape_def)
  obtain ax ay where A: "a1_str Y (pf_A pf) = (ax, ay)" by fastforce
  obtain cx cy where C: "a1_str Y (pf_C pf) = (cx, cy)" by fastforce
  obtain ba bb bc bd where B: "a2_str Y (pf_B pf) = ((ba, bb), (bc, bd))" by (metis surj_pair)
  have l: "length (json_string ax) \<le> 79" "length (json_string ay) \<le> 79" "length (json_string cx) \<le> 79" "length (json_string cy) \<le> 79"
    "length (json_string ba) \<le> 79" "length (json_string bb) \<le> 79" "length (json_string bc) \<le> 79" "length (json_string bd) \<le> 79"
    using assms(1-8) by (auto simp: A B C intro: js)
  have "length (json_dump (Proof_toJson Y pf)) \<le> 809"
    using l by (simp add: Proof_toJson_def A B C Let_def one keys)
  then show "length (json_dump (Proof_toJson Y pf)) < unat ProofBufferMinSize" by (simp add: ProofBufferMinSize_def)
next
  have "unat n < 2 ^ 32" using unsigned_less [of n] by simp
  then have p: "unat (PublicBufferMinSize (ucast n)) = unat n * 82 + 4"
    unfolding PublicBufferMinSize_def by (simp add: unat_ops unat_up)
  show "length (BuildPublicString F w n) < unat (PublicBufferMinSize (ucast n)) \<longleftrightarrow> n \<noteq> 0"
  proof (cases "n = 0")
    case False
    let ?s = "\<lambda>i. json_string (f_toString F (f_toMontgomery F (w ! i)))" and ?l = "[1..<unat n + 1]"
    have js: "length (?s i) + 1 \<le> 80" if "i \<in> set ?l" for i
    proof -
      have "i \<in> {1..unat n}" using that by auto
      then have "coord (f_toString F (f_toMontgomery F (w ! i)))" using assms(9) by blast
      then show ?thesis using plain_string unfolding coord_def by simp
    qed
    have "(\<Sum>i \<leftarrow> ?l. length (?s i) + 1) \<le> (\<Sum>i \<leftarrow> ?l. 80)" by (rule sum_list_mono) (rule js)
    also have "\<dots> = unat n * 80" by (simp add: sum_list_triv)
    finally have "length (join (map ?s ?l)) \<le> unat n * 80" using length_join [of "map ?s ?l"] by (simp add: o_def)
    moreover have "BuildPublicString F w n = ''['' @ join (map ?s ?l) @ '']''"
      using False by (simp add: BuildPublicString_def public_json_def o_def Let_def)
    ultimately show ?thesis using False p by simp
  qed (simp add: BuildPublicString_def public_json_def PublicBufferMinSize_def)
qed

lemma length_dec_str: "n < 10 ^ k \<Longrightarrow> 0 < k \<Longrightarrow> length (dec_str n) \<le> k"
proof (induction n arbitrary: k rule: dec_str.induct)
  case (1 n)
  show ?case
  proof (cases "n < 10")
    case True
    then show ?thesis using "1.prems"(2) by (simp add: dec_str.simps [of n])
  next
    case False
    then obtain j where k: "k = Suc j" "0 < j" using "1.prems" by (cases k; cases "k - 1") auto
    have "n div 10 < 10 ^ j" using "1.prems"(1) k(1) by (simp add: less_mult_imp_div_less mult.commute)
    from "1.IH" [OF False this k(2)] show ?thesis using False k(1) by (simp add: dec_str.simps [of n])
  qed
qed

text \<open>The strings of the field of the scalars have at most 77 digits.\<close>

lemma coord_bn128: "fe bn128_params e v \<Longrightarrow> coord (f_toString bn128_Fr e)"
proof -
  assume e: "fe bn128_params e v"
  have m: "0 \<le> v mod qv bn128_params" "v mod qv bn128_params < qv bn128_params" using bn128.q_pos by simp_all
  have "qv bn128_params < 10 ^ 77" unfolding bn128_q by simp
  then have "v mod qv bn128_params < int (10 ^ 77)" using m(2) by (simp only: of_nat_power of_nat_numeral)
  then have "nat (v mod qv bn128_params) < 10 ^ 77" using m(1) by (simp only: nat_less_iff)
  then show ?thesis
    using length_dec_str [of _ 77] is_decimal_str unfolding coord_def bn128_field.rel_toString [OF e] by simp
qed

definition demo_layout :: "(limbs, limbs) layout" where
  "demo_layout = \<lparr>a1_size = 32, a1_dec = fr_ofBytes bn128_engine, a2_size = 32, a2_dec = fr_ofBytes bn128_engine,
     a1_str = \<lambda>a. (f_toString bn128_Fr a, ''0''), a2_str = \<lambda>a. ((f_toString bn128_Fr a, ''0''), (''0'', ''0''))\<rparr>"

lemma coord_0: "coord ''0''"
  by (simp add: coord_def is_decimal_def is_digit_def)

theorem announced_sizes_witness:
  "length (json_dump (Proof_toJson demo_layout \<lparr>pf_A = bn128_el 5, pf_B = bn128_el (- 1), pf_C = bn128_el 7\<rparr>)) < unat ProofBufferMinSize \<and>
   length (BuildPublicString bn128_Fr [bn128_el 1, bn128_el (- 3)] 1) < unat (PublicBufferMinSize 1) \<and>
   \<not> length (BuildPublicString bn128_Fr [bn128_el 1, bn128_el (- 3)] 0) < unat (PublicBufferMinSize 0)"
proof -
  let ?pf = "\<lparr>pf_A = bn128_el 5, pf_B = bn128_el (- 1), pf_C = bn128_el 7\<rparr>" and ?w = "[bn128_el 1, bn128_el (- 3)]"
  have el: "coord (f_toString bn128_Fr (bn128_el v))" for v by (rule coord_bn128 [OF bn128_el])
  have mo: "coord (f_toString bn128_Fr (f_toMontgomery bn128_Fr (bn128_el v)))" for v
    using coord_bn128 [OF bn128_engine.rel_toMontgomery [OF bn128_el [of v]]] by (simp add: bn128_engine_sel)
  have w: "\<forall>i \<in> {1..unat (1 :: u32)}. coord (f_toString bn128_Fr (f_toMontgomery bn128_Fr (?w ! i)))"
    "\<forall>i \<in> {1..unat (0 :: u32)}. coord (f_toString bn128_Fr (f_toMontgomery bn128_Fr (?w ! i)))"
    using mo by simp_all
  note a = announced_sizes [where Y = demo_layout and pf = ?pf and F = bn128_Fr and w = ?w]
  show ?thesis
    using a [of 1, OF _ _ _ _ _ _ _ _ w(1)] a [of 0, OF _ _ _ _ _ _ _ _ w(2)] el coord_0 by (simp add: demo_layout_def)
qed

subsection \<open>The life of the key's file\<close>

lemma new_Groth16Prover_addr:
  "new_Groth16Prover Z F order t u M addr = Inr ob \<Longrightarrow> o_addr ob = addr"
  by (auto simp: new_Groth16Prover_def and_then_Inr_iff split: option.splits if_splits sum.splits)
    (metis Groth16Prover.select_convs(1) sum.exhaust)

text \<open>A prover object makes no proof when its key is not mapped.\<close>

lemma prove_unmapped:
  "mem_mapped M (o_addr ob) = None \<Longrightarrow> Groth16Prover_prove Z E Y M ob w X \<noteq> Inr r"
  by (auto simp: Groth16Prover_prove_def Let_def and_then_Inr_iff split: if_splits)

subsection \<open>The verifier on the prover's texts\<close>

lemma map_results_Inr: "\<forall>x \<in> set xs. f x = Inr (g x) \<Longrightarrow> map_results f xs = Inr (map g xs)"
  by (induction xs) simp_all

lemma map_results_map: "map_results f (map g xs) = map_results (\<lambda>x. f (g x)) xs"
  by (induction xs) simp_all

lemma parse_proof_toJson:
  assumes "rd_a1 D (fst (a1_str Y (pf_A pf))) (snd (a1_str Y (pf_A pf))) = Some A"
    and "rd_a2 D (fst (fst (a2_str Y (pf_B pf)))) (snd (fst (a2_str Y (pf_B pf))))
      (fst (snd (a2_str Y (pf_B pf)))) (snd (snd (a2_str Y (pf_B pf)))) = Some B"
    and "rd_a1 D (fst (a1_str Y (pf_C pf))) (snd (a1_str Y (pf_C pf))) = Some C"
  shows "parse_proof D (Some (Proof_toJson Y pf)) = Inr \<lparr>pf_A = A, pf_B = B, pf_C = C\<rparr>"
proof -
  obtain ax ay where a: "a1_str Y (pf_A pf) = (ax, ay)" by fastforce
  obtain cx cy where c: "a1_str Y (pf_C pf) = (cx, cy)" by fastforce
  obtain ba bb bc bd where b: "a2_str Y (pf_B pf) = ((ba, bb), (bc, bd))" by (metis surj_pair)
  show ?thesis
    using assms by (simp add: a b c parse_proof_def json_parse_def rethrow_def Proof_toJson_def Let_def Proof_fromJson_def
        G1PointAffineFromJson_def G2PointAffineFromJson_def string_at_def defined_def)
qed

lemma parse_inputs_public:
  assumes "\<forall>i \<in> {1..unat n}. rd_fr D (f_toString F (f_toMontgomery F (w ! i))) = Some (x i)"
  shows "parse_inputs D (Some (public_json F w n)) =
    (if n = 0 then Inl (Invalid_argument ''invalid inputs data'') else Inr (map x [1..<unat n + 1]))"
proof (cases "n = 0")
  case False
  then have "0 < unat n" by (simp add: unat_gt_0)
  then have e: "map_results get_string (map (\<lambda>i. Json_string (s i)) [1..<unat n + 1]) = Inr (map s [1..<unat n + 1])"
    "map s [1..<unat n + 1] \<noteq> []" for s
    unfolding map_results_map by (simp_all add: map_results_Inr [where g = s])
  have "\<forall>i \<in> set [1..<unat n + 1]. defined (rd_fr D (f_toString F (f_toMontgomery F (w ! i)))) = Inr (x i)"
    using assms by (auto simp: defined_def simp del: upt_Suc)
  then have "map_results (\<lambda>elem. defined (rd_fr D elem)) (map (\<lambda>i. f_toString F (f_toMontgomery F (w ! i))) [1..<unat n + 1]) =
      Inr (map x [1..<unat n + 1])"
    unfolding map_results_map by (rule map_results_Inr)
  then show ?thesis
    using False e by (simp add: parse_inputs_def json_parse_def rethrow_def public_json_def Let_def del: upt_Suc)
qed (simp add: parse_inputs_def json_parse_def rethrow_def public_json_def type_error_def)

text \<open>The verifier's answer to the documents of a proof, for a key that parses.\<close>

lemma groth16_verify_documents:
  assumes "parse_proof D (Some pdoc) = Inr pf" "parse_key D kdoc = Inr key"
    and "parse_inputs D (Some idoc) = (if n = 0 then Inl (Invalid_argument ''invalid inputs data'') else Inr xs)"
    and "Groth16_verify E T pf xs key = Inr True"
  shows "groth16_verify E T D (Some pdoc) (Some idoc) kdoc err size' =
    (if n = (0 :: u32) then Some (VERIFIER_ERROR, map_option (\<lambda>buf. strncpy buf ''invalid inputs data'' size') err)
     else Some (VERIFIER_VALID_PROOF, err))"
  using assms by (simp add: groth16_verify_def)

text \<open>
  Messages of the prover always end in a terminator within the size that the caller gave; those of
  the verifier only when they are shorter than that size.
\<close>

lemma error_messages_terminated:
  assumes "unat n \<le> length buf" "CHR 0x00 \<notin> set msg" "CHR 0x00 \<notin> set buf"
  shows "CHR 0x00 \<in> set (take (unat n) (the (CopyError (Some buf) n msg))) \<longleftrightarrow> n \<noteq> 0"
    and "CHR 0x00 \<in> set (take (unat n) (strncpy buf msg (unat n))) \<longleftrightarrow> length msg < unat n"
proof -
  have s: "set (take k msg) \<subseteq> set msg" for k by (rule set_take_subset)
  have z: "CHR 0x00 \<notin> set (take k msg)" for k using s assms(2) by blast
  show "CHR 0x00 \<in> set (take (unat n) (the (CopyError (Some buf) n msg))) \<longleftrightarrow> n \<noteq> 0"
  proof (cases "n = 0")
    case False
    then have "0 < unat n" by (simp add: unat_gt_0)
    then have "take (unat n) (overwrite buf (take (unat n - 1) msg @ [CHR 0x00])) =
        take (unat n - 1) msg @ [CHR 0x00] @ take (unat n - Suc (min (unat n - 1) (length msg))) (drop (Suc (min (unat n - 1) (length msg))) buf)"
      by (auto simp: overwrite_def min_def take_Cons')
    then show ?thesis using False by (simp add: CopyError_def)
  qed (simp add: CopyError_def)
  show "CHR 0x00 \<in> set (take (unat n) (strncpy buf msg (unat n))) \<longleftrightarrow> length msg < unat n"
    using z by (auto simp: strncpy_def overwrite_def)
qed

end
