(* ===== verification/ProverFiles.thy ===== *)
theory ProverFiles
  imports ProverApi
begin

text \<open>
  The library on whole files. A proving key is a file of sections in any order, a witness a file
  of a header and its values; the prover object made from the bytes of the first, called on the
  bytes of the second, returns the texts of a proof and of its public signals, and the verifier
  accepts them. The theorem joins the reader of the files, the constructor of the prover, the
  tables of the Fourier transform, the prover itself, the writer of the proof's document, the
  readers of the documents and the verifier.
\<close>

subsection \<open>Reading a file of sections\<close>

text \<open>The bytes from a position of a file on; reading them one after the other.\<close>

definition stands :: "BinFile \<Rightarrow> u64 \<Rightarrow> bytes \<Rightarrow> bool" where
  "stands f p bs \<longleftrightarrow> bin_inv f \<and> unat p \<le> length (bin_data f) \<and> drop (unat p) (bin_data f) = bs"

lemma stands_inv: "stands f p bs \<Longrightarrow> bin_inv (f\<lparr>bin_pos := p, readingSection := r\<rparr>)"
  by (simp add: stands_def bin_inv_def)

lemma stands_step:
  assumes "stands f p (xs @ bs)" "length xs = unat n" "unat n < 2 ^ 63"
  shows "stands f (p + n) bs"
proof -
  let ?f = "f\<lparr>bin_pos := p\<rparr>"
  have i: "bin_inv ?f" using assms(1) by (simp add: stands_def bin_inv_def)
  have u: "unat (p + n) = unat p + unat n" using pos_check(2) [OF i assms(3)] by simp
  have d: "drop (unat p) (bin_data f) = xs @ bs" using assms(1) by (simp add: stands_def)
  have "length (bin_data f) - unat p = unat n + length bs" using arg_cong [OF d, of length] assms(2) by simp
  moreover have "unat p \<le> length (bin_data f)" using assms(1) by (simp add: stands_def)
  ultimately have "unat p + unat n \<le> length (bin_data f)" by linarith
  moreover have "drop (unat p + unat n) (bin_data f) = drop (unat n) (drop (unat p) (bin_data f))"
    by (simp add: add.commute)
  ultimately show ?thesis using assms(1,2) d u by (simp add: stands_def)
qed

lemma stands_u32:
  assumes "stands f p (le_bytes 4 v @ bs)"
  shows "readU32LE (f\<lparr>bin_pos := p, readingSection := r\<rparr>) = Inr (of_nat v, f\<lparr>bin_pos := p + 4, readingSection := r\<rparr>)"
    and "stands f (p + 4) bs"
proof -
  have "drop (unat p) (bin_data f) = le_bytes 4 v @ bs" using assms by (simp add: stands_def)
  then show "readU32LE (f\<lparr>bin_pos := p, readingSection := r\<rparr>) = Inr (of_nat v, f\<lparr>bin_pos := p + 4, readingSection := r\<rparr>)"
    using read_u32_at [OF stands_inv [OF assms], of r v bs] by simp
  show "stands f (p + 4) bs" using stands_step [OF assms, of 4] by simp
qed

lemma stands_bytes:
  assumes "stands f p (xs @ bs)" "length xs = unat n" "unat n < 2 ^ 63"
  shows "bin_read (f\<lparr>bin_pos := p, readingSection := r\<rparr>) n = Inr (xs, f\<lparr>bin_pos := p + n, readingSection := r\<rparr>)"
    and "stands f (p + n) bs"
proof -
  have "drop (unat p) (bin_data f) = xs @ bs" using assms by (simp add: stands_def)
  then show "bin_read (f\<lparr>bin_pos := p, readingSection := r\<rparr>) n = Inr (xs, f\<lparr>bin_pos := p + n, readingSection := r\<rparr>)"
    using read_bytes_at [OF stands_inv [OF assms(1)], of r xs bs n] assms(2,3) by simp
qed (rule stands_step [OF assms])

text \<open>Where a section of a file is, when no other has its number.\<close>

lemma add_secs_other: "sid \<notin> fst ` set secs \<Longrightarrow> add_secs m (sec_layout off secs) sid = m sid"
  by (induction secs arbitrary: m off) auto

lemma section_placed:
  assumes "(sid, c) \<in> set secs" "distinct (map fst secs)" "\<forall>x \<in> set secs. m (fst x) = None"
  shows "\<exists>off bs. add_secs m (sec_layout (length pre) secs) sid = Some [\<lparr>sec_start = of_nat off, sec_size = of_nat (length c)\<rparr>] \<and>
    off \<le> length pre + length (concat (map (\<lambda>(sid, c). le_bytes 4 (unat sid) @ le_bytes 8 (length c) @ c) secs)) \<and>
    drop off (pre @ concat (map (\<lambda>(sid, c). le_bytes 4 (unat sid) @ le_bytes 8 (length c) @ c) secs)) = c @ bs"
  using assms
proof (induction secs arbitrary: m pre)
  case (Cons x secs)
  obtain t d where x: "x = (t, d)" by (cases x)
  let ?body = "concat (map (\<lambda>(sid, c). le_bytes 4 (unat sid) @ le_bytes 8 (length c) @ c) secs)"
  let ?m = "m(t \<mapsto> (case m t of None \<Rightarrow> [] | Some l \<Rightarrow> l) @ [\<lparr>sec_start = of_nat (length pre + 12), sec_size = of_nat (length d)\<rparr>])"
  let ?pre = "pre @ le_bytes 4 (unat t) @ le_bytes 8 (length d) @ d"
  show ?case
  proof (cases "(sid, c) = x")
    case True
    then have e: "sid = t" "c = d" using x by simp_all
    have t: "t \<notin> fst ` set secs" and n: "m t = None" using Cons.prems(2,3) x by auto
    show ?thesis
      by (rule exI [of _ "length pre + 12"], rule exI [of _ ?body]) (simp add: x e n add_secs_other [OF t])
  next
    case False
    then have s: "(sid, c) \<in> set secs" using Cons.prems(1) by auto
    have m: "\<forall>y \<in> set secs. ?m (fst y) = None" using Cons.prems(2,3) x by force
    have d: "distinct (map fst secs)" using Cons.prems(2) by simp
    have l: "length ?pre = length pre + 12 + length d" by simp
    obtain off bs where IH: "add_secs ?m (sec_layout (length ?pre) secs) sid = Some [\<lparr>sec_start = of_nat off, sec_size = of_nat (length c)\<rparr>]"
        "off \<le> length ?pre + length ?body" "drop off (?pre @ ?body) = c @ bs"
      using Cons.IH [OF s d m, of ?pre] by blast
    have b: "pre @ concat (map (\<lambda>(sid, c). le_bytes 4 (unat sid) @ le_bytes 8 (length c) @ c) (x # secs)) = ?pre @ ?body"
      by (simp add: x)
    have "length (?pre @ ?body) = length pre + length (concat (map (\<lambda>(sid, c). le_bytes 4 (unat sid) @ le_bytes 8 (length c) @ c) (x # secs)))"
      unfolding b [symmetric] by (rule length_append)
    then have o: "off \<le> length pre + length (concat (map (\<lambda>(sid, c). le_bytes 4 (unat sid) @ le_bytes 8 (length c) @ c) (x # secs)))"
      using IH(2) by simp
    have a: "add_secs m (sec_layout (length pre) (x # secs)) = add_secs ?m (sec_layout (length ?pre) secs)"
      unfolding x sec_layout.simps add_secs.simps l ..
    show ?thesis unfolding a b using IH(1,3) o unfolding b by blast
  qed
qed simp

lemma section_in_file:
  assumes "length t = 4" "(sid, c) \<in> set secs" "distinct (map fst secs)" "length (bin_file t v secs) < 2 ^ 63"
    and f: "f = bin_opened (bin_file t v secs) t v (add_secs Map.empty (sec_layout 12 secs))" "bin_inv f"
  shows "\<exists>p bs. sections f sid = Some [\<lparr>sec_start = p, sec_size = of_nat (length c)\<rparr>] \<and> stands f p (c @ bs)"
proof -
  let ?pre = "map (\<lambda>c. of_nat (of_char c)) t @ le_bytes 4 (unat v) @ le_bytes 4 (length secs)"
  have l: "length ?pre = 12" using assms(1) by simp
  obtain off bs where s: "add_secs Map.empty (sec_layout (length ?pre) secs) sid = Some [\<lparr>sec_start = of_nat off, sec_size = of_nat (length c)\<rparr>]"
      "off \<le> length (bin_file t v secs)" "drop off (bin_file t v secs) = c @ bs"
    using section_placed [OF assms(2,3), of Map.empty ?pre] unfolding bin_file_def by auto
  have u: "unat (of_nat off :: u64) = off" using s(2) assms(4) by (simp add: unat_of_nat)
  show ?thesis
    by (rule exI [of _ "of_nat off"], rule exI [of _ bs]) (use s u f l in \<open>simp add: stands_def bin_opened_def\<close>)
qed

subsection \<open>The file of a proving key\<close>

text \<open>What a key's file holds; the lists are the bytes of the coefficients and of the points.\<close>

record zkey_contents =
  kf_q :: nat
  kf_nVars :: u32
  kf_nPublic :: u32
  kf_domainSize :: u32
  kf_alpha1 :: bytes
  kf_beta1 :: bytes
  kf_beta2 :: bytes
  kf_gamma2 :: bytes
  kf_delta1 :: bytes
  kf_delta2 :: bytes
  kf_coefs :: "bytes list"
  kf_A :: "bytes list"
  kf_B1 :: "bytes list"
  kf_B2 :: "bytes list"
  kf_C :: "bytes list"
  kf_H :: "bytes list"

definition bn128_r :: nat where
  "bn128_r = 21888242871839275222246405745257275088548364400416034343698204186575808495617"

definition zkey_sections :: "zkey_contents \<Rightarrow> (u32 \<times> bytes) list" where
  "zkey_sections c =
     [(1, le_bytes 4 1),
      (2, le_bytes 4 32 @ le_bytes 32 (kf_q c) @ le_bytes 4 32 @ le_bytes 32 bn128_r @
          le_bytes 4 (unat (kf_nVars c)) @ le_bytes 4 (unat (kf_nPublic c)) @ le_bytes 4 (unat (kf_domainSize c)) @
          kf_alpha1 c @ kf_beta1 c @ kf_beta2 c @ kf_gamma2 c @ kf_delta1 c @ kf_delta2 c),
      (4, le_bytes 4 (length (kf_coefs c)) @ concat (kf_coefs c)),
      (5, concat (kf_A c)), (6, concat (kf_B1 c)), (7, concat (kf_B2 c)), (8, concat (kf_C c)), (9, concat (kf_H c))]"

definition zkey_header :: "zkey_contents \<Rightarrow> zkey_Header" where
  "zkey_header c =
     \<lparr>n8q = 32, qPrime = int (kf_q c), n8r = 32, rPrime = int bn128_r,
      z_nVars = kf_nVars c, z_nPublic = kf_nPublic c, z_domainSize = kf_domainSize c, z_nCoefs = of_nat (length (kf_coefs c)),
      vk_alpha1 = kf_alpha1 c, vk_beta1 = kf_beta1 c, vk_beta2 = kf_beta2 c, vk_gamma2 = kf_gamma2 c,
      vk_delta1 = kf_delta1 c, vk_delta2 = kf_delta2 c\<rparr>"

definition header_ok :: "zkey_contents \<Rightarrow> bool" where
  "header_ok c \<longleftrightarrow> kf_q c < 256 ^ 32 \<and> length (kf_alpha1 c) = 64 \<and> length (kf_beta1 c) = 64 \<and> length (kf_beta2 c) = 128 \<and>
     length (kf_gamma2 c) = 128 \<and> length (kf_delta1 c) = 64 \<and> length (kf_delta2 c) = 128 \<and>
     (\<forall>s \<in> set (kf_coefs c). length s = 44)"

definition zkey_file :: "zkey_contents \<Rightarrow> bytes \<Rightarrow> bool" where
  "zkey_file c dat \<longleftrightarrow> header_ok c \<and> length dat < 2 ^ 63 \<and>
     (\<exists>secs. dat = bin_file ''zkey'' 1 secs \<and> length secs < 2 ^ 32 \<and> distinct (map fst secs) \<and> set (zkey_sections c) \<subseteq> set secs)"

lemma startRead_placed:
  assumes "sections f i = Some [s]"
  shows "startReadSection (f\<lparr>bin_pos := p, readingSection := None\<rparr>) i 0 = Inr (f\<lparr>bin_pos := sec_start s, readingSection := Some s\<rparr>)"
  using assms by (simp add: startReadSection_def section_at_def)

lemma endRead_placed:
  assumes "p - sec_start s = sec_size s"
  shows "endReadSection (f\<lparr>bin_pos := p, readingSection := Some s\<rparr>) True = Inr (f\<lparr>bin_pos := p, readingSection := None\<rparr>)"
  using assms by (simp add: endReadSection_def)

lemma le_bytes_fits: "unat (v :: u32) < 256 ^ 4"
  using unsigned_less [of v] by simp

lemma unat_u64_small: "m < 2 ^ 64 \<Longrightarrow> unat (of_nat m :: u64) = m"
  by (simp add: unat_of_nat)

context mpz_lib
begin

lemma zkey_loadHeader_file:
  assumes ok: "header_ok c" and f: "readingSection f = None"
    and s1: "sections f 1 = Some [\<lparr>sec_start = p1, sec_size = of_nat (length (le_bytes 4 1))\<rparr>]" "stands f p1 (le_bytes 4 1 @ r1)"
    and s2: "sections f 2 = Some [\<lparr>sec_start = p2, sec_size = of_nat (length (snd (zkey_sections c ! 1)))\<rparr>]" "stands f p2 (snd (zkey_sections c ! 1) @ r2)"
    and s4: "sections f 4 = Some [\<lparr>sec_start = p4, sec_size = of_nat (length (snd (zkey_sections c ! 2)))\<rparr>]" "length (concat (kf_coefs c)) < 2 ^ 63"
  shows "\<exists>p. zkey_loadHeader Z f = Inr (zkey_header c, f\<lparr>bin_pos := p, readingSection := None\<rparr>)"
proof -
  let ?s1 = "\<lparr>sec_start = p1, sec_size = of_nat (length (le_bytes 4 1))\<rparr>" and ?n = "of_nat 32 :: u32"
  let ?s2 = "\<lparr>sec_start = p2, sec_size = of_nat (length (snd (zkey_sections c ! 1)))\<rparr>"
  note l = ok [unfolded header_ok_def]
  have fe: "f = f\<lparr>bin_pos := bin_pos f, readingSection := None\<rparr>" using f by simp
  note a1 = startRead_placed [where p = "bin_pos f", OF s1(1), folded fe, simplified Section.simps]
  note a2 = stands_u32(1) [OF s1(2)]
  have a3: "endReadSection (f\<lparr>bin_pos := p1 + 4, readingSection := Some ?s1\<rparr>) True = Inr (f\<lparr>bin_pos := p1 + 4, readingSection := None\<rparr>)"
    by (rule endRead_placed) simp
  note a4 = startRead_placed [where p = "p1 + 4", OF s2(1), simplified Section.simps]
  have u: "unat (ucast ?n :: u64) = 32" "unat (ucast (?n * 2) :: u64) = 64" "unat (ucast (?n * 4) :: u64) = 128" by simp_all
  from s2(2) have d: "stands f p2 (le_bytes 4 32 @ le_bytes 32 (kf_q c) @ le_bytes 4 32 @ le_bytes 32 bn128_r @
          le_bytes 4 (unat (kf_nVars c)) @ le_bytes 4 (unat (kf_nPublic c)) @ le_bytes 4 (unat (kf_domainSize c)) @
          kf_alpha1 c @ kf_beta1 c @ kf_beta2 c @ kf_gamma2 c @ kf_delta1 c @ kf_delta2 c @ r2)" by (simp add: zkey_sections_def)
  have fit: "unat (ucast ?n :: u64) < 2 ^ 63" "unat (ucast (?n * 2) :: u64) < 2 ^ 63" "unat (ucast (?n * 4) :: u64) < 2 ^ 63" by simp_all
  have len: "length (le_bytes 32 v) = unat (ucast ?n :: u64)"
    "length (kf_alpha1 c) = unat (ucast (?n * 2) :: u64)" "length (kf_beta1 c) = unat (ucast (?n * 2) :: u64)"
    "length (kf_beta2 c) = unat (ucast (?n * 4) :: u64)" "length (kf_gamma2 c) = unat (ucast (?n * 4) :: u64)"
    "length (kf_delta1 c) = unat (ucast (?n * 2) :: u64)" "length (kf_delta2 c) = unat (ucast (?n * 4) :: u64)" for v
    using l unfolding u by simp_all
  note t1 = stands_u32 [OF d]
  note t2 = stands_bytes [OF t1(2) len(1) fit(1)]
  note t3 = stands_u32 [OF t2(2)]
  note t4 = stands_bytes [OF t3(2) len(1) fit(1)]
  note t5 = stands_u32 [OF t4(2)]
  note t6 = stands_u32 [OF t5(2)]
  note t7 = stands_u32 [OF t6(2)]
  note t8 = stands_bytes [OF t7(2) len(2) fit(2)]
  note t9 = stands_bytes [OF t8(2) len(3) fit(2)]
  note t10 = stands_bytes [OF t9(2) len(4) fit(3)]
  note t11 = stands_bytes [OF t10(2) len(5) fit(3)]
  note t12 = stands_bytes [OF t11(2) len(6) fit(2)]
  note t13 = stands_bytes [OF t12(2) len(7) fit(3)]
  note reads = t1(1) t2(1) t3(1) t4(1) t5(1) t6(1) t7(1) t8(1) t9(1) t10(1) t11(1) t12(1) t13(1)
  let ?p = "p2 + 4 + ucast ?n + 4 + ucast ?n + 4 + 4 + 4 + ucast (?n * 2) + ucast (?n * 2) + ucast (?n * 4) + ucast (?n * 4) + ucast (?n * 2) + ucast (?n * 4)"
  have a5: "endReadSection (f\<lparr>bin_pos := ?p, readingSection := Some ?s2\<rparr>) True = Inr (f\<lparr>bin_pos := ?p, readingSection := None\<rparr>)"
    by (rule endRead_placed) (use l in \<open>simp add: zkey_sections_def\<close>)
  have a6: "getSectionSize (f\<lparr>bin_pos := ?p, readingSection := None\<rparr>) 4 0 = Inr (of_nat (length (snd (zkey_sections c ! 2))))"
    using s4(1) by (simp add: getSectionSize_def section_at_def)
  have pr: "mpz_import_bytes Z (le_bytes 32 (kf_q c)) = int (kf_q c)" "mpz_import_bytes Z (le_bytes 32 bn128_r) = int bn128_r"
    using l by (simp_all add: import_bytes_law le_nat_le_bytes bn128_r_def)
  have cl: "length (concat (kf_coefs c)) = length (kf_coefs c) * 44" using l by (simp add: length_concat sum_list_triv cong: map_cong)
  have q: "of_nat (length (snd (zkey_sections c ! 2))) div ucast (12 + ?n :: u32) = (of_nat (length (kf_coefs c)) :: u64)"
  proof (rule word_unat_eq_iff [THEN iffD2])
    let ?k = "length (kf_coefs c)"
    have k: "?k * 44 < 2 ^ 63" using s4(2) cl by simp
    have "length (snd (zkey_sections c ! 2)) = 4 + ?k * 44" using cl by (simp add: zkey_sections_def)
    moreover have "unat (of_nat (4 + ?k * 44) :: u64) = 4 + ?k * 44" "unat (of_nat ?k :: u64) = ?k"
      by (rule unat_u64_small, use k in simp)+
    moreover have "unat (ucast (12 + ?n :: u32) :: u64) = 44" by simp
    ultimately show "unat (of_nat (length (snd (zkey_sections c ! 2))) div ucast (12 + ?n :: u32) :: u64) = unat (of_nat ?k :: u64)"
      by (simp add: unat_div)
  qed
  have z: "12 + ?n \<noteq> 0" by simp
  have o: "(of_nat 1 :: u32) = 1" by simp
  show ?thesis
    unfolding zkey_loadHeader_def a1 and_then_simps a2 prod.case o simp_thms if_False a3 a4 reads a5 a6 if_not_P [OF z] pr q
    by (intro exI [of _ ?p]) (simp add: zkey_header_def)
qed

end

subsection \<open>The prover object of a key's file\<close>

definition key_of_contents :: "('e, 'p, 'a, 'r, 'b) Engine \<Rightarrow> ('a, 'b) layout \<Rightarrow> zkey_contents \<Rightarrow> 'e FFT \<Rightarrow> ('e, 'a, 'b) Prover" where
  "key_of_contents E Y c fft =
     \<lparr>nVars = kf_nVars c, nPublic = kf_nPublic c, domainSize = kf_domainSize c, nCoefs = of_nat (length (kf_coefs c)),
      vk_alpha1 = a1_dec Y (kf_alpha1 c), vk_beta1 = a1_dec Y (kf_beta1 c), vk_beta2 = a2_dec Y (kf_beta2 c),
      vk_delta1 = a1_dec Y (kf_delta1 c), vk_delta2 = a2_dec Y (kf_delta2 c),
      p_coefs = map (Coef_dec E) (kf_coefs c), pointsA = map (a1_dec Y) (kf_A c), pointsB1 = map (a1_dec Y) (kf_B1 c),
      pointsB2 = map (a2_dec Y) (kf_B2 c), pointsC = map (a1_dec Y) (kf_C c), pointsH = map (a1_dec Y) (kf_H c), p_fft = fft\<rparr>"

definition contents_ok :: "('a, 'b) layout \<Rightarrow> zkey_contents \<Rightarrow> bool" where
  "contents_ok Y c \<longleftrightarrow>
     length (kf_A c) = unat (kf_nVars c) \<and> (\<forall>s \<in> set (kf_A c). length s = a1_size Y) \<and>
     length (kf_B1 c) = unat (kf_nVars c) \<and> (\<forall>s \<in> set (kf_B1 c). length s = a1_size Y) \<and>
     length (kf_B2 c) = unat (kf_nVars c) \<and> (\<forall>s \<in> set (kf_B2 c). length s = a2_size Y) \<and>
     length (kf_C c) = unat (kf_nVars c - kf_nPublic c - 1) \<and> (\<forall>s \<in> set (kf_C c). length s = a1_size Y) \<and>
     length (kf_H c) = unat (kf_domainSize c) \<and> (\<forall>s \<in> set (kf_H c). length s = a1_size Y) \<and>
     (\<forall>s \<in> set (kf_coefs c). rd32 (drop 8 s) < kf_nVars c \<and> rd32 (drop 4 s) < kf_domainSize c)"

lemma view_concat:
  assumes "drop off dat = concat xs @ bs" "off \<le> length dat" "\<forall>x \<in> set xs. length x = sz" "length xs = n"
  shows "view dat off n sz dec = Inr (map dec xs)"
proof -
  have "length (concat xs) = n * sz" using assms(3,4) by (simp add: length_concat sum_list_triv cong: map_cong)
  then have "length dat - off = n * sz + length bs" using arg_cong [OF assms(1), of length] by simp
  then have "\<not> off + n * sz > length dat" using assms(2) by linarith
  then show ?thesis using chunks_concat [OF assms(3), of bs] assms(1,4) by (simp add: view_def)
qed

lemma view_stands:
  assumes "stands f p (concat xs @ bs)" "\<forall>x \<in> set xs. length x = sz" "length xs = n"
  shows "view (bin_data f) (unat p) n sz dec = Inr (map dec xs)"
  using assms by (intro view_concat [where bs = bs]) (simp_all add: stands_def)

lemma getSectionData_placed:
  "sections f i = Some [s] \<Longrightarrow> getSectionData (f\<lparr>bin_pos := p, readingSection := r\<rparr>) i 0 = Inr (sec_start s)"
  by (simp add: getSectionData_def section_at_def)

lemma PrimeIsValid_r: "PrimeIsValid (int bn128_r)"
  by (simp add: PrimeIsValid_def bn128_r_def)

lemma of_bin_Inr [simp]: "of_bin (Inr v) = Inr v"
  by (simp add: of_bin_def)

context mpz_lib
begin

lemma prover_of_file:
  fixes E :: "('e, 'p, 'a, 'r, 'b) Engine"
  assumes zfile: "zkey_file c dat" and M: "mem_mapped M addr = Some dat"
    and fft: "new_FFT Z F order t u (ucast (Prover_fft_size (kf_domainSize c))) = Some (Inr fft)"
    and E: "fr_size E = 32" and Y: "contents_ok Y c"
  shows "\<exists>ob. new_Groth16Prover Z F order t u M addr = Inr ob \<and> o_addr ob = addr \<and> o_header ob = zkey_header c \<and>
    key_of_buffer E Y ob dat = Inr (key_of_contents E Y c fft)"
proof -
  obtain secs where secs: "dat = bin_file ''zkey'' 1 secs" "length secs < 2 ^ 32" "distinct (map fst secs)" "set (zkey_sections c) \<subseteq> set secs"
    and ok: "header_ok c" and l: "length dat < 2 ^ 63" using zfile by (auto simp: zkey_file_def)
  define f where "f = bin_opened dat ''zkey'' 1 (add_secs Map.empty (sec_layout 12 secs))"
  have o: "new_BinFile dat ''zkey'' 1 = Inr f"
    unfolding f_def by (rule new_BinFile_file) (use secs(1,2) l in simp_all)
  have i: "bin_inv f" using new_BinFile_safe [OF l, of "''zkey''" 1] unfolding o by simp
  have data: "bin_data f = dat" "readingSection f = None" by (simp_all add: f_def bin_opened_def)
  have placed: "\<exists>p bs. sections f sid = Some [\<lparr>sec_start = p, sec_size = of_nat (length x)\<rparr>] \<and> stands f p (x @ bs)"
    if "(sid, x) \<in> set (zkey_sections c)" for sid x
    using that secs l f_def i by (intro section_in_file [where t = "''zkey''" and v = 1 and secs = secs]) auto
  have placed': "\<exists>p bs. sections f (fst (zkey_sections c ! k)) = Some [\<lparr>sec_start = p, sec_size = of_nat (length (snd (zkey_sections c ! k)))\<rparr>] \<and>
      stands f p (snd (zkey_sections c ! k) @ bs)" if "k < 8" for k
  proof (rule placed)
    have "length (zkey_sections c) = 8" by (simp add: zkey_sections_def)
    then show "(fst (zkey_sections c ! k), snd (zkey_sections c ! k)) \<in> set (zkey_sections c)" using that by simp
  qed
  have n: "fst (zkey_sections c ! 0) = 1" "fst (zkey_sections c ! 1) = 2" "fst (zkey_sections c ! 2) = 4" "fst (zkey_sections c ! 3) = 5"
    "fst (zkey_sections c ! 4) = 6" "fst (zkey_sections c ! 5) = 7" "fst (zkey_sections c ! 6) = 8" "fst (zkey_sections c ! 7) = 9"
    "snd (zkey_sections c ! 0) = le_bytes 4 1" "snd (zkey_sections c ! 3) = concat (kf_A c)"
    "snd (zkey_sections c ! 4) = concat (kf_B1 c)" "snd (zkey_sections c ! 5) = concat (kf_B2 c)"
    "snd (zkey_sections c ! 6) = concat (kf_C c)" "snd (zkey_sections c ! 7) = concat (kf_H c)"
    by (simp_all add: zkey_sections_def)
  have c4: "snd (zkey_sections c ! 2) = le_bytes 4 (length (kf_coefs c)) @ concat (kf_coefs c)" by (simp add: zkey_sections_def)
  obtain p1 b1 where s1: "sections f 1 = Some [\<lparr>sec_start = p1, sec_size = of_nat (length (le_bytes 4 1))\<rparr>]" "stands f p1 (le_bytes 4 1 @ b1)"
    using placed' [of 0] unfolding n by auto
  obtain p2 b2 where s2: "sections f 2 = Some [\<lparr>sec_start = p2, sec_size = of_nat (length (snd (zkey_sections c ! 1)))\<rparr>]"
      "stands f p2 (snd (zkey_sections c ! 1) @ b2)"
    using placed' [of 1] unfolding n by auto
  obtain p4 b4 where s4: "sections f 4 = Some [\<lparr>sec_start = p4, sec_size = of_nat (length (snd (zkey_sections c ! 2)))\<rparr>]"
      "stands f p4 (snd (zkey_sections c ! 2) @ b4)"
    using placed' [of 2] unfolding n by auto
  obtain p5 b5 where s5: "sections f 5 = Some [\<lparr>sec_start = p5, sec_size = of_nat (length (concat (kf_A c)))\<rparr>]" "stands f p5 (concat (kf_A c) @ b5)"
    using placed' [of 3] unfolding n by auto
  obtain p6 b6 where s6: "sections f 6 = Some [\<lparr>sec_start = p6, sec_size = of_nat (length (concat (kf_B1 c)))\<rparr>]" "stands f p6 (concat (kf_B1 c) @ b6)"
    using placed' [of 4] unfolding n by auto
  obtain p7 b7 where s7: "sections f 7 = Some [\<lparr>sec_start = p7, sec_size = of_nat (length (concat (kf_B2 c)))\<rparr>]" "stands f p7 (concat (kf_B2 c) @ b7)"
    using placed' [of 5] unfolding n by auto
  obtain p8 b8 where s8: "sections f 8 = Some [\<lparr>sec_start = p8, sec_size = of_nat (length (concat (kf_C c)))\<rparr>]" "stands f p8 (concat (kf_C c) @ b8)"
    using placed' [of 6] unfolding n by auto
  obtain p9 b9 where s9: "sections f 9 = Some [\<lparr>sec_start = p9, sec_size = of_nat (length (concat (kf_H c)))\<rparr>]" "stands f p9 (concat (kf_H c) @ b9)"
    using placed' [of 7] unfolding n by auto
  have d4: "drop (unat p4) dat = le_bytes 4 (length (kf_coefs c)) @ concat (kf_coefs c) @ b4" "unat p4 \<le> length dat"
    using s4(2) by (simp_all add: stands_def data(1) c4)
  have "length dat - unat p4 = 4 + length (concat (kf_coefs c)) + length b4" using arg_cong [OF d4(1), of length] by simp
  then have k4: "length (concat (kf_coefs c)) < 2 ^ 63" "unat p4 + 4 \<le> length dat" using l by linarith+
  have d4': "drop (unat p4 + 4) dat = concat (kf_coefs c) @ b4"
  proof -
    have "drop (unat p4 + 4) dat = drop 4 (drop (unat p4) dat)" by (simp add: add.commute)
    then show ?thesis by (simp add: d4(1))
  qed
  obtain p where h: "zkey_loadHeader Z f = Inr (zkey_header c, f\<lparr>bin_pos := p, readingSection := None\<rparr>)"
    using zkey_loadHeader_file [OF ok data(2) s1 s2 s4(1) k4(1)] by blast
  let ?ob = "\<lparr>o_addr = addr, o_header = zkey_header c, o_coefs = p4, o_pointsA = p5, o_pointsB1 = p6, o_pointsB2 = p7,
    o_pointsC = p8, o_pointsH = p9, o_fft = fft\<rparr>"
  have hs: "rPrime (zkey_header c) = int bn128_r" "z_nVars (zkey_header c) = kf_nVars c" "z_nPublic (zkey_header c) = kf_nPublic c"
    "z_domainSize (zkey_header c) = kf_domainSize c" "z_nCoefs (zkey_header c) = of_nat (length (kf_coefs c))"
    "zkey_Header.vk_alpha1 (zkey_header c) = kf_alpha1 c" "zkey_Header.vk_beta1 (zkey_header c) = kf_beta1 c"
    "zkey_Header.vk_beta2 (zkey_header c) = kf_beta2 c" "zkey_Header.vk_delta1 (zkey_header c) = kf_delta1 c"
    "zkey_Header.vk_delta2 (zkey_header c) = kf_delta2 c"
    by (simp_all add: zkey_header_def)
  have ob: "new_Groth16Prover Z F order t u M addr = Inr ?ob"
    using s4(1) s5(1) s6(1) s7(1) s8(1) s9(1) PrimeIsValid_r
    by (simp add: new_Groth16Prover_def M o h getSectionData_placed hs fft)
  note y = Y [unfolded contents_ok_def] and okc = ok [unfolded header_ok_def]
  have nc: "unat (of_nat (length (kf_coefs c)) :: u64) = length (kf_coefs c)"
  proof -
    have "length (concat (kf_coefs c)) = length (kf_coefs c) * 44" using okc by (simp add: length_concat sum_list_triv cong: map_cong)
    then show ?thesis using k4(1) by (simp add: unat_of_nat)
  qed
  have vc: "view dat (unat p4 + 4) (length (kf_coefs c)) 44 (Coef_dec E) = Inr (map (Coef_dec E) (kf_coefs c))"
    by (rule view_concat [OF d4' k4(2)]) (use okc in simp_all)
  have all: "list_all (\<lambda>cf. coef_s cf < kf_nVars c \<and> coef_c cf < kf_domainSize c) (map (Coef_dec E) (kf_coefs c))"
    using y by (auto simp: list_all_iff Coef_dec_def)
  note v = view_stands [OF s5(2), where sz = "a1_size Y" and n = "unat (kf_nVars c)" and dec = "a1_dec Y"]
    view_stands [OF s6(2), where sz = "a1_size Y" and n = "unat (kf_nVars c)" and dec = "a1_dec Y"]
    view_stands [OF s7(2), where sz = "a2_size Y" and n = "unat (kf_nVars c)" and dec = "a2_dec Y"]
    view_stands [OF s8(2), where sz = "a1_size Y" and n = "unat (kf_nVars c - kf_nPublic c - 1)" and dec = "a1_dec Y"]
    view_stands [OF s9(2), where sz = "a1_size Y" and n = "unat (kf_domainSize c)" and dec = "a1_dec Y"]
  have "key_of_buffer E Y ?ob dat = Inr (key_of_contents E Y c fft)"
    using y v all by (simp add: key_of_buffer_def Let_def E hs nc vc data(1) key_of_contents_def)
  then show ?thesis using ob by (intro exI [of _ ?ob]) simp
qed

end

subsection \<open>From the files to an accepted proof\<close>

lemma prove_of_file:
  assumes Z: "mpz_lib Z" and M: "mem_mapped M (o_addr ob) = Some dat"
    and ob: "o_header ob = zkey_header c" "key_of_buffer E Y ob dat = Inr P" "fr_size E = 32"
    and w: "length wb = unat (kf_nVars c)" "\<forall>s \<in> set wb. length s = 32" "length (wtns_file 32 bn128_r (length wb) (concat wb)) < 2 ^ 63"
    and P: "kf_nPublic c < kf_nVars c"
    and pf: "Groth16_prove E (r_il X) (r_threads X) (r_uninit X) P (map (fr_ofBytes E) wb) (r_rnd_r X) (r_rnd_s X) = Some pf"
  shows "Groth16Prover_prove Z E Y M ob (wtns_file 32 bn128_r (length wb) (concat wb)) X =
    Inr (json_dump (Proof_toJson Y pf), BuildPublicString (e_fr E) (map (fr_ofBytes E) wb) (kf_nPublic c))"
proof -
  let ?w = "wtns_file 32 bn128_r (length wb) (concat wb)"
  have nv: "length wb < 2 ^ 32" "(of_nat (length wb) :: u32) = kf_nVars c"
    using unsigned_less [of "kf_nVars c"] by (simp_all add: w(1))
  have r: "bn128_r < 256 ^ 32" by (simp add: bn128_r_def)
  obtain f f' where f: "new_BinFile ?w ''wtns'' 2 = Inr f"
      "wtns_loadHeader Z f = Inr (\<lparr>w_n8 = of_nat 32, w_prime = int bn128_r, w_nVars = kf_nVars c\<rparr>, f')"
      "getSectionData f' 2 0 = Inr (of_nat 76)" "bin_data f' = ?w" "drop 76 (bin_data f') = concat wb"
    using mpz_lib.wtns_file_header [OF Z _ r nv(1) w(3)] unfolding nv(2) by auto
  have d: "drop 76 ?w = concat wb @ []" using f(4,5) by simp
  have "76 \<le> length ?w" by (simp add: length_wtns_file)
  then have v: "view ?w 76 (unat (kf_nVars c)) 32 (fr_ofBytes E) = Inr (map (fr_ofBytes E) wb)"
    by (intro view_concat [OF d]) (use w in simp_all)
  have h: "z_nVars (zkey_header c) = kf_nVars c" "z_nPublic (zkey_header c) = kf_nPublic c" by (simp_all add: zkey_header_def)
  have "\<not> kf_nVars c \<le> kf_nPublic c" using P by simp
  then show ?thesis
    using pf v by (simp add: Groth16Prover_prove_def f ob h M PrimeIsValid_r Let_def)
qed

text \<open>The lookups that the key's tables rest on do not see the tables of the transform.\<close>

lemma key_of_contents_fft:
  "key_shape (key_of_contents E Y c fft) k \<longleftrightarrow> key_shape (key_of_contents E Y c fft') k"
  "key_points ga1 ga2 (key_of_contents E Y c fft) V \<longleftrightarrow> key_points ga1 ga2 (key_of_contents E Y c fft') V"
  by (simp_all add: key_shape_def key_points_def key_of_contents_def)

lemma fft_size_pow:
  assumes "unat (d :: u32) = 2 ^ k" "k \<le> 30"
  shows "unat (ucast (Prover_fft_size d) :: u64) = 2 ^ Suc k"
proof -
  have "(2::nat) ^ k \<le> 2 ^ 30" using assms(2) by (rule power_increasing) simp
  then have "unat (d * 2) = 2 ^ k * 2" using assms(1) by (simp add: unat_word_ariths)
  then show ?thesis by (simp add: Prover_fft_size_def unat_ucast_64)
qed

text \<open>The tables that the constructor makes for a key, and the elements of the public document.\<close>

lemma fft_of_key:
  assumes F: "field_api F rel q Z" and threads: "mset order = mset [0..<t]" "0 < t" and d: "unat (d :: u32) = 2 ^ k" "k \<le> 30"
    and z: "\<forall>y. 2 \<le> y \<and> y < z \<longrightarrow> y ^ nat ((q - 1) div 2) mod q = 1" "z ^ nat ((q - 1) div 2) mod q = q - 1" "2 \<le> z" "z < q"
      "2 ^ Suc k dvd q - 1"
  shows "\<exists>fft. new_FFT Z F order t u (ucast (Prover_fft_size d)) = Some (Inr fft) \<and> fft_s fft = Suc k \<and>
    fft_tables F rel q fft (z ^ nat ((q - 1) div 2 ^ Suc k)) (snd (mpz_invert Z 2 q))"
proof -
  have so: "set order = {0..<t}" using mset_eq_setD [OF threads(1)] by simp
  have lg: "fft_log2 (ucast (Prover_fft_size d)) = Some (Suc k)"
  proof -
    have "ucast (Prover_fft_size d) = (of_nat (2 ^ Suc k) :: u64)"
      using arg_cong [OF fft_size_pow [OF d], of "of_nat :: nat \<Rightarrow> u64"] by simp
    then show ?thesis using fft_log2_pow [of "Suc k"] d(2) by simp
  qed
  have m: "max 1 (Suc k) = Suc k" "Suc k \<le> 62" using d(2) by simp_all
  show ?thesis
    using field_api.new_FFT_tables [OF F lg m(2) _ so threads(2) _ z(2-4), unfolded m(1), OF z(5)] z(1) by blast
qed

lemma public_value:
  assumes E: "engine_vals E rel q gp1 ga1 gp2 ga2 R Ri" and w: "rel e (v * Ri)"
  shows "rel (f_toMontgomery (e_fr E) e) v"
proof (rule field_vals.rel_cong [of "e_fr E" rel q _ "v * Ri * R"])
  show "field_vals (e_fr E) rel q" using E by (simp add: engine_vals_def)
  show "rel (f_toMontgomery (e_fr E) e) (v * Ri * R)" by (rule engine_vals.rel_toMontgomery [OF E w])
  have "(v * (R * Ri)) mod q = (v * 1) mod q" using engine_vals.R_inv [OF E] by (metis mod_mult_right_eq)
  then show "v * Ri * R mod q = v mod q" by (simp add: ac_simps)
qed

text \<open>
  Property C2. From files to a valid proof: the call \<open>groth16_prover\<close> on the bytes of a key
  file, whose sections may be in any order and beside others, and of a witness file that satisfies
  the key's circuit writes the texts of a proof and of the public signals to the caller's buffers
  (or reports the sizes they need). Read back, the proof's points are multiples of the generators
  that satisfy the equation of Groth16 for the public signals, and the signals are those of the witness.
  For every pairing with the laws of \<open>pairing_vals\<close> the call \<open>groth16_verify\<close> on the two documents answers
  that the proof is valid, if neither the proof's third point nor the key's first is at infinity; for
  a circuit without public signals, whose text is \<open>null\<close>, it then reports an error.
\<close>

theorem prover_on_files:
  assumes E: "engine_vals E rel q gp1 ga1 gp2 ga2 R Ri" "field_api (e_fr E) rel q Z" "fr_size E = 32"
    and z: "\<forall>y. 2 \<le> y \<and> y < z \<longrightarrow> y ^ nat ((q - 1) div 2) mod q = 1" "z ^ nat ((q - 1) div 2) mod q = q - 1" "2 \<le> z" "z < q"
      "2 ^ Suc k dvd q - 1"
    and threads: "mset order = mset [0..<t]" "0 < t" "fair (r_il X)" "0 < r_threads X" "length (r_rnd_r X) = 31" "length (r_rnd_s X) = 31"
    and files: "zkey_file c dat" "contents_ok Y c" "mem_mapped M addr = Some dat" "key_shape (key_of_contents E Y c fft0) k"
      "length wb = unat (kf_nVars c)" "\<forall>s \<in> set wb. length s = 32" "unat (kf_nVars c) * 32 < 2 ^ 32"
    and vals: "\<forall>i < length wb. rel (fr_ofBytes E (wb ! i)) (wv i * Ri)"
      "\<forall>j < length (kf_coefs c). rel (coef_coef (Coef_dec E (kf_coefs c ! j))) (cv j * R)"
      "key_points ga1 ga2 (key_of_contents E Y c fft0) V"
      "vkey_points ga1 ga2 key (kv_alpha V) (kv_beta V) gamma (kv_delta V) ic" "length (vk_IC key) = unat (kf_nPublic c) + 1"
      "key_of_circuit q (z ^ nat ((q - 1) div 2 ^ Suc k)) (snd (mpz_invert Z 2 q)) k (unat (kf_nVars c)) (unat (kf_nPublic c))
         (map (Coef_dec E) (kf_coefs c)) cv Cm tau gamma V ic"
      "satisfies q k (unat (kf_nVars c)) (map (Coef_dec E) (kf_coefs c)) cv Cm wv"
    and docs: "\<forall>e v. rel e v \<longrightarrow> (\<exists>e'. rd_fr D (f_toString (e_fr E) e) = Some e' \<and> rel e' v)"
      "\<forall>a v. ga1 a v \<longrightarrow> (\<exists>a'. rd_a1 D (fst (a1_str Y a)) (snd (a1_str Y a)) = Some a' \<and> ga1 a' v)"
      "\<forall>b v. ga2 b v \<longrightarrow> (\<exists>b'. rd_a2 D (fst (fst (a2_str Y b))) (snd (fst (a2_str Y b))) (fst (snd (a2_str Y b))) (snd (snd (a2_str Y b))) = Some b' \<and> ga2 b' v)"
      "parse_key D kdoc = Inr key"
    and io: "io_proof io = Some pb" "io_proof_size io = Some ps" "io_public io = Some qb" "io_public_size io = Some qs"
  shows "\<exists>pdoc idoc pf A B C inputs.
    groth16_prover what (new_Groth16Prover Z (e_fr E) order t u) (Groth16Prover_prove Z E Y) M (Some addr)
      (Some (wtns_file 32 bn128_r (length wb) (concat wb))) X io = store_result (json_dump pdoc) (json_dump idoc) pb ps qb qs io \<and>
    parse_proof D (Some pdoc) = Inr pf \<and> ga1 (pf_A pf) A \<and> ga2 (pf_B pf) B \<and> ga1 (pf_C pf) C \<and>
    C = proof_point_C (z ^ nat ((q - 1) div 2 ^ Suc k)) (snd (mpz_invert Z 2 q)) k (unat (kf_nVars c)) (unat (kf_nPublic c))
         (map (Coef_dec E) (kf_coefs c)) cv wv V (int (le_nat (r_rnd_r X))) (int (le_nat (r_rnd_s X))) \<and>
    groth16_equation q (kv_alpha V) (kv_beta V) gamma (kv_delta V) ic (unat (kf_nPublic c)) wv A B C \<and>
    parse_inputs D (Some idoc) = (if kf_nPublic c = 0 then Inl (Invalid_argument ''invalid inputs data'') else Inr inputs) \<and>
    length inputs = unat (kf_nPublic c) \<and> (\<forall>i < length inputs. rel (inputs ! i) (wv (i + 1))) \<and>
    (kv_alpha V mod q \<noteq> 0 \<and> C mod q \<noteq> 0 \<longrightarrow>
     (\<forall>T pv. pairing_vals T gp1 gp2 q pv \<longrightarrow>
      groth16_verify E T D (Some pdoc) (Some idoc) kdoc err n =
      (if kf_nPublic c = 0 then Some (VERIFIER_ERROR, map_option (\<lambda>buf. strncpy buf ''invalid inputs data'' n) err)
       else Some (VERIFIER_VALID_PROOF, err))))"
proof -
  let ?w = "map (fr_ofBytes E) wb" and ?F = "e_fr E" and ?nP = "unat (kf_nPublic c)"
  have sh: "unat (kf_domainSize c) = 2 ^ k" "k \<le> 30" "?nP < unat (kf_nVars c)"
    using files(4) by (simp_all add: key_shape_def key_of_contents_def)
  obtain fft where fft: "new_FFT Z ?F order t u (ucast (Prover_fft_size (kf_domainSize c))) = Some (Inr fft)" "fft_s fft = Suc k"
      "fft_tables ?F rel q fft (z ^ nat ((q - 1) div 2 ^ Suc k)) (snd (mpz_invert Z 2 q))"
    using fft_of_key [OF E(2) threads(1,2) sh(1,2) z] by blast
  let ?P = "key_of_contents E Y c fft"
  have mz: "mpz_lib Z" using E(2) by (simp add: field_api_def)
  obtain ob where ob: "new_Groth16Prover Z ?F order t u M addr = Inr ob" "o_addr ob = addr" "o_header ob = zkey_header c"
      "key_of_buffer E Y ob dat = Inr ?P"
    using mpz_lib.prover_of_file [OF mz files(1,3) fft(1) E(3) files(2)] by blast
  have sel: "nVars ?P = kf_nVars c" "nPublic ?P = kf_nPublic c" "p_coefs ?P = map (Coef_dec E) (kf_coefs c)" "p_fft ?P = fft"
    by (simp_all add: key_of_contents_def)
  have pv: "prover_vals E rel q gp1 ga1 gp2 ga2 R Ri (p_fft ?P) (z ^ nat ((q - 1) div 2 ^ Suc k)) (snd (mpz_invert Z 2 q))"
    using E(1) fft(3) by (simp add: prover_vals_def sel)
  have kp: "key_shape ?P k" "key_points ga1 ga2 ?P V"
    using files(4) vals(3) key_of_contents_fft by blast+
  have ws: "length ?w = unat (nVars ?P)" "\<forall>i < unat (nVars ?P). rel (?w ! i) (wv i * Ri)"
    using files(5) vals(1) by (simp_all add: sel)
  have cs: "\<forall>j < length (p_coefs ?P). rel (coef_coef (p_coefs ?P ! j)) (cv j * R)" using vals(2) by (simp add: sel)
  have sz: "unat (nVars ?P) * unat (fr_size E) < 2 ^ 32" "length (r_rnd_r X) = unat (fr_size E) - 1" "length (r_rnd_s X) = unat (fr_size E) - 1"
    using files(7) threads(5,6) by (simp_all add: sel E(3))
  let ?C = "proof_point_C (z ^ nat ((q - 1) div 2 ^ Suc k)) (snd (mpz_invert Z 2 q)) k (unat (kf_nVars c)) (unat (kf_nPublic c))
         (map (Coef_dec E) (kf_coefs c)) cv wv V (int (le_nat (r_rnd_r X))) (int (le_nat (r_rnd_s X)))"
  obtain pf A B where pf: "Groth16_prove E (r_il X) (r_threads X) (r_uninit X) ?P ?w (r_rnd_r X) (r_rnd_s X) = Some pf"
      "ga1 (pf_A pf) A" "ga2 (pf_B pf) B" "ga1 (pf_C pf) ?C"
    and eq: "groth16_equation q (kv_alpha V) (kv_beta V) gamma (kv_delta V) ic ?nP wv A B ?C"
    using groth16_run [OF pv threads(3,4) kp(1) _ sz(1) ws cs kp(2), unfolded sel, OF fft(2) vals(6,7) sz(2,3), of "r_uninit X"]
    by (elim exE conjE) rule
  have lw: "length (wtns_file 32 bn128_r (length wb) (concat wb)) < 2 ^ 63"
  proof -
    have "length (concat wb) = length wb * 32" using files(6) by (simp add: length_concat sum_list_triv cong: map_cong)
    then show ?thesis using files(5,7) by (simp add: length_wtns_file)
  qed
  have Mo: "mem_mapped M (o_addr ob) = Some dat" using files(3) ob(2) by simp
  have lt: "kf_nPublic c < kf_nVars c" using sh(3) by (simp add: word_less_nat_alt)
  note run = prove_of_file [OF mz Mo ob(3,4) E(3) files(5,6) lw lt pf(1)]
  obtain a b d where r: "rd_a1 D (fst (a1_str Y (pf_A pf))) (snd (a1_str Y (pf_A pf))) = Some a" "ga1 a A"
    "rd_a2 D (fst (fst (a2_str Y (pf_B pf)))) (snd (fst (a2_str Y (pf_B pf)))) (fst (snd (a2_str Y (pf_B pf)))) (snd (snd (a2_str Y (pf_B pf)))) = Some b" "ga2 b B"
    "rd_a1 D (fst (a1_str Y (pf_C pf))) (snd (a1_str Y (pf_C pf))) = Some d" "ga1 d ?C"
    using docs(2,3) pf(2-4) by meson
  have "\<exists>x. rd_fr D (f_toString ?F (f_toMontgomery ?F (?w ! i))) = Some x \<and> rel x (wv i)" if "i \<in> {1..?nP}" for i
    using public_value [OF E(1)] docs(1) ws(2) that sh(3) by (simp add: sel)
  then obtain x where x: "\<forall>i \<in> {1..?nP}. rd_fr D (f_toString ?F (f_toMontgomery ?F (?w ! i))) = Some (x i) \<and> rel (x i) (wv i)" by metis
  let ?in = "map x [1..<?nP + 1]"
  have li: "length ?in = ?nP" by (simp del: upt_Suc)
  have ri: "\<forall>i < length ?in. rel (?in ! i) (wv (i + 1))" using x by (simp add: li del: upt_Suc)
  let ?pf = "\<lparr>pf_A = a, pf_B = b, pf_C = d\<rparr>"
  note pp = parse_proof_toJson [OF r(1,3,5)]
  have pi: "parse_inputs D (Some (public_json ?F ?w (kf_nPublic c))) =
      (if kf_nPublic c = 0 then Inl (Invalid_argument ''invalid inputs data'') else Inr ?in)"
    by (rule parse_inputs_public) (use x in blast)
  have v: "groth16_verify E T D (Some (Proof_toJson Y pf)) (Some (public_json ?F ?w (kf_nPublic c))) kdoc err n =
      (if kf_nPublic c = 0 then Some (VERIFIER_ERROR, map_option (\<lambda>buf. strncpy buf ''invalid inputs data'' n) err)
       else Some (VERIFIER_VALID_PROOF, err))"
    if nz: "kv_alpha V mod q \<noteq> 0 \<and> ?C mod q \<noteq> 0" and T: "pairing_vals T gp1 gp2 q pv" for T pv
  proof (rule groth16_verify_documents [OF pp docs(4) pi])
    show "Groth16_verify E T ?pf ?in key = Inr True"
      by (rule groth16_accepts [OF E(1) T vals(4,5) eq nz [THEN conjunct1] nz [THEN conjunct2] _ _ _ li ri]) (use r in simp_all)
  qed
  have run': "groth16_prover what (new_Groth16Prover Z ?F order t u) (Groth16Prover_prove Z E Y) M (Some addr)
        (Some (wtns_file 32 bn128_r (length wb) (concat wb))) X io =
      store_result (json_dump (Proof_toJson Y pf)) (json_dump (public_json ?F ?w (kf_nPublic c))) pb ps qb qs io"
    using run io by (simp add: groth16_prover_def groth16_prover_create_def ob(1) groth16_prover_prove_def BuildPublicString_def)
  show ?thesis
    by (rule exI [of _ "Proof_toJson Y pf"], rule exI [of _ "public_json ?F ?w (kf_nPublic c)"], rule exI [of _ ?pf], rule exI [of _ A],
        rule exI [of _ B], rule exI [of _ ?C], rule exI [of _ ?in], intro conjI impI allI run' pp refl eq pi li ri v)
      (use r in simp_all)
qed

subsection \<open>A key file and a witness file\<close>

text \<open>
  The files of the circuit of one product, over integers below an odd number of 250 bits, whose
  bytes are read and written as the code does.
\<close>

definition demo_q :: int where
  "demo_q = 1206167596222043702328864427173832373471562340267089208744349833415761767083"

definition demo_field :: "int field_ops" where
  "demo_field = \<lparr>f_add = \<lambda>a b. (a + b) mod demo_q, f_sub = \<lambda>a b. (a - b) mod demo_q, f_mul = \<lambda>a b. (a * b) mod demo_q,
     f_exp = \<lambda>r b s. b ^ le_nat s mod demo_q, f_eq = (=), f_zero = 0, f_one = 1, f_negOne = demo_q - 1,
     f_toMontgomery = id, f_fromMontgomery = id, f_toMpz = id, f_fromMpz = Some, f_toString = \<lambda>a. dec_str (nat a)\<rparr>"

definition demo_rel :: "int \<Rightarrow> int \<Rightarrow> bool" where
  "demo_rel a u \<longleftrightarrow> a = u mod demo_q"

definition demo_enc :: "int \<Rightarrow> bytes" where
  "demo_enc v = le_bytes 32 (nat (v mod demo_q))"

definition demo_dec :: "bytes \<Rightarrow> int" where
  "demo_dec s = int (le_nat (take 32 s)) mod demo_q"

definition demo_engine :: "(int, int, int, int, int) Engine" where
  "demo_engine = \<lparr>e_fr = demo_field, fr_bytes = \<lambda>a. le_bytes 32 (nat a), fr_ofBytes = demo_dec, fr_size = 32,
     e_g1 = field_group demo_field, e_g2 = field_group demo_field\<rparr>"

lemma demo_q_bounds: "0 < demo_q" "demo_q < 256 ^ 32" "odd demo_q" "2 < demo_q"
  by (simp_all add: demo_q_def)

lemma demo_range: "0 \<le> v mod demo_q" "v mod demo_q < demo_q" "v mod demo_q < 256 ^ 32"
proof -
  show "0 \<le> v mod demo_q" "v mod demo_q < demo_q" using demo_q_bounds(1) by simp_all
  then show "v mod demo_q < 256 ^ 32" using demo_q_bounds(2) by linarith
qed

lemma demo_bytes: "int (le_nat (le_bytes 32 (nat (v mod demo_q)))) = v mod demo_q"
proof -
  have "nat (v mod demo_q) < 256 ^ 32" using demo_range [of v] by (simp add: nat_less_iff)
  then show ?thesis using demo_range [of v] by (simp add: le_nat_le_bytes)
qed

lemma demo_decoded [simp]: "demo_dec (demo_enc v @ bs) = v mod demo_q" "demo_dec (demo_enc v) = v mod demo_q"
  by (simp_all add: demo_dec_def demo_enc_def demo_bytes)

interpretation demo_field: field_api demo_field demo_rel demo_q mpz_ref
  by (intro field_api.intro field_vals.intro field_api_axioms.intro gmp_mpz.mpz_lib_axioms)
    (use demo_q_bounds in \<open>simp_all add: demo_field_def demo_rel_def mod_simps zmod_minus1\<close>)

interpretation demo_engine: engine_vals demo_engine demo_rel demo_q demo_rel demo_rel demo_rel demo_rel 1 1
proof (intro engine_vals.intro engine_vals_axioms.intro)
  show "field_vals (e_fr demo_engine) demo_rel demo_q" by (simp add: demo_engine_def demo_field.field_vals_axioms)
  show "curve_vals (e_g1 demo_engine) demo_rel demo_rel demo_q" "curve_vals (e_g2 demo_engine) demo_rel demo_rel demo_q"
    by (simp_all add: demo_engine_def demo_field.additive)
  show "int (le_nat (fr_bytes demo_engine a)) = u * 1 mod demo_q" if "demo_rel a u" for a u
    using that demo_bytes by (simp add: demo_engine_def demo_rel_def)
qed (simp_all add: demo_engine_def demo_rel_def demo_field_def demo_dec_def, simp_all add: demo_q_def)

interpretation demo_pairing: pairing_vals "field_pairing demo_field" demo_rel demo_rel demo_q demo_rel
  by (rule demo_field.field_pairing_vals)

lemma odd_power_mod: "(x :: int) mod q = (- 1) mod q \<Longrightarrow> odd m \<Longrightarrow> x ^ m mod q = (- 1) mod q"
  using power_mod [of x q m] power_mod [of "- 1" q m] by simp

text \<open>The number 2 is its first non-residue: \<open>3 * demo_q = 2 ^ 251 + 1\<close>.\<close>

lemma demo_nonresidue: "2 ^ nat ((demo_q - 1) div 2) mod demo_q = demo_q - 1"
proof -
  let ?m = "2402724295263035263603315591979745763887574383002169738534561421146935791 :: nat"
  have e: "nat ((demo_q - 1) div 2) = 251 * ?m" by (simp add: demo_q_def)
  have "(2::int) ^ 251 = 3 * demo_q - 1" by (simp add: demo_q_def)
  then have "(2::int) ^ 251 mod demo_q = (- 1) mod demo_q" by (simp only: mod_mult_self3 diff_conv_add_uminus)
  then have "(2 ^ 251) ^ ?m mod demo_q = (- 1) mod demo_q" by (rule odd_power_mod) simp
  then show ?thesis unfolding e power_mult using demo_q_bounds(4) by (simp only: zmod_minus1)
qed

definition demo_layout2 :: "(int, int) layout" where
  "demo_layout2 = \<lparr>a1_size = 32, a1_dec = demo_dec, a2_size = 32, a2_dec = demo_dec,
     a1_str = \<lambda>a. (dec_str (nat a), ''0''), a2_str = \<lambda>a. ((dec_str (nat a), ''0''), (''0'', ''0''))\<rparr>"

definition demo_readers :: "(int, int, int) readers" where
  "demo_readers = (let rd = \<lambda>s. Some (int (dec_val s) mod demo_q) in \<lparr>rd_fr = rd, rd_a1 = \<lambda>x y. rd x, rd_a2 = \<lambda>xa xb ya yb. rd xa\<rparr>)"

definition demo_w :: int where "demo_w = 2 ^ nat ((demo_q - 1) div 2 ^ Suc 0)"

definition demo_p :: int where "demo_p = snd (mpz_invert mpz_ref 2 demo_q)"

definition demo_values :: key_values where "demo_values = square_values demo_w demo_p 0 (1 :: int)"

definition demo_contents :: zkey_contents where
  "demo_contents = (let V = demo_values; e = demo_enc; pad = \<lambda>n v. demo_enc v @ replicate n 0 in
     \<lparr>kf_q = 7, kf_nVars = 3, kf_nPublic = 1, kf_domainSize = 1,
      kf_alpha1 = pad 32 2, kf_beta1 = pad 32 3, kf_beta2 = pad 96 3, kf_gamma2 = pad 96 1, kf_delta1 = pad 32 1, kf_delta2 = pad 96 1,
      kf_coefs = map (\<lambda>m. le_bytes 4 m @ le_bytes 4 0 @ le_bytes 4 2 @ e 1) [0, 1],
      kf_A = map (\<lambda>i. e (kv_A V i)) [0..<3], kf_B1 = map (\<lambda>i. e (kv_B V i)) [0..<3], kf_B2 = map (\<lambda>i. e (kv_B V i)) [0..<3],
      kf_C = [e (kv_C V 2)], kf_H = [e (kv_H V 0)]\<rparr>)"

definition demo_file :: bytes where
  "demo_file = bin_file ''zkey'' 1 ((10, [1, 2, 3]) # rev (zkey_sections demo_contents))"

definition demo_wtns :: "bytes list" where
  "demo_wtns = map (\<lambda>i. demo_enc (square_wv i)) [0..<3]"

definition demo_key :: "(int, int) VerificationKey" where
  "demo_key = \<lparr>vk_Alpha = 2, vk_Beta = 3, vk_Gamma = 1, vk_Delta = 1,
     vk_IC = map (\<lambda>i. square_K demo_w demo_p 0 (1 :: int) i mod demo_q) [0..<2]\<rparr>"

definition demo_key_json :: json where
  "demo_key_json = (let s = \<lambda>v. Json_string (dec_str (nat (v mod demo_q))); g1 = \<lambda>v. Json_array [s v, s 0, s 1];
       g2 = \<lambda>v. Json_array [Json_array [s v, s 0], Json_array [s 0, s 0], Json_array [s 1, s 0]]
     in Json_object
          [(''IC'', Json_array (map (\<lambda>i. g1 (square_K demo_w demo_p 0 (1 :: int) i)) [0..<2])), (''curve'', Json_string ''bn128''),
           (''nPublic'', Json_unsigned 1), (''protocol'', Json_string ''groth16''), (''vk_alpha_1'', g1 2), (''vk_beta_2'', g2 3),
           (''vk_delta_2'', g2 1), (''vk_gamma_2'', g2 1)])"

lemma length_demo_enc [simp]: "length (demo_enc v) = 32"
  by (simp add: demo_enc_def)

lemma upt_3: "[0..<3] = [0, 1, 2 :: nat]" "[0..<2] = [0, 1 :: nat]"
  by (simp_all add: upt_rec)

lemma demo_header_ok: "header_ok demo_contents"
  by (simp add: header_ok_def demo_contents_def Let_def)

lemma demo_zkey: "zkey_file demo_contents demo_file"
proof -
  have "length demo_file < 2 ^ 63"
    using demo_header_ok unfolding header_ok_def
    by (simp add: demo_file_def bin_file_def zkey_sections_def demo_contents_def Let_def upt_3)
  moreover have "distinct (map fst ((10, [1, 2, 3]) # rev (zkey_sections demo_contents)))" by (simp add: zkey_sections_def)
  moreover have "length ((10, [1, 2, 3]) # rev (zkey_sections demo_contents)) < 2 ^ 32" by (simp add: zkey_sections_def)
  ultimately show ?thesis
    unfolding zkey_file_def using demo_header_ok demo_file_def
    by (intro conjI exI [of _ "(10, [1, 2, 3]) # rev (zkey_sections demo_contents)"]) auto
qed

lemma demo_contents_ok: "contents_ok demo_layout2 demo_contents"
  by (simp add: contents_ok_def demo_contents_def demo_layout2_def Let_def upt_3)

lemma demo_coefs: "map (Coef_dec demo_engine) (kf_coefs demo_contents) = square_coefs 1"
proof -
  have "(1 :: int) mod demo_q = 1" using demo_q_bounds(4) by simp
  then show ?thesis by (simp add: demo_contents_def Let_def Coef_dec_def square_coefs_def demo_engine_def)
qed

lemma demo_small: "v mod demo_q = v" if "v \<in> {0, 1, 2, 3, 9}" for v :: int
  using that by (auto simp: demo_q_def)

lemma demo_dec_str: "int (dec_val (dec_str (nat (v mod demo_q)))) = v mod demo_q"
  using demo_range [of v] by (simp add: dec_val_str)

lemma demo_parse_key: "parse_key demo_readers (Some demo_key_json) = Inr demo_key"
  by (simp add: parse_key_def rethrow_def json_parse_def demo_key_json_def VerificationKey_fromJson_def G1PointAffineFromJson_def
      G2PointAffineFromJson_def string_at_def defined_def demo_readers_def demo_dec_str dec_val_str demo_key_def demo_small demo_range upt_3 Let_def)

lemma square_point_C: "proof_point_C w p 0 3 1 (square_coefs e) (\<lambda>_. 1) square_wv (square_values w p 0 e) 0 0 = 15"
proof -
  have i: "interpolant v p 0 x t = x 0" for v x t by (simp add: interpolant_def)
  have l: "{..<3} = {0, 1, 2 :: nat}" "{..<2} = {0, 1 :: nat}" "{Suc (Suc 0)..<3} = {2 :: nat}" by auto
  have c: "column (square_coefs e) (\<lambda>_. 1) A 2 0 = 1" for A
    by (cases A) (simp_all add: column_def square_coefs_at l)
  have r: "row_value (square_coefs e) (\<lambda>_. 1) square_wv A 0 = 3" for A
    by (cases A) (simp_all add: row_value_def square_coefs_at l square_wv_def)
  show ?thesis
    by (simp add: proof_point_C_def Let_def i r l) (simp add: square_values_def square_K_def square_at_def i c square_C_def square_wv_def)
qed

theorem prover_on_files_witness:
  "\<exists>pdoc idoc pf A B C.
    groth16_prover (\<lambda>_. []) (new_Groth16Prover mpz_ref demo_field [1, 0] 2 0)
      (Groth16Prover_prove mpz_ref demo_engine demo_layout2)
      \<lparr>mem_next = 1, mem_mapped = [0 \<mapsto> demo_file]\<rparr> (Some 0) (Some (wtns_file 32 bn128_r (length demo_wtns) (concat demo_wtns)))
      \<lparr>r_il = concat, r_threads = 2, r_uninit = 0, r_rnd_r = replicate 31 0, r_rnd_s = replicate 31 0\<rparr>
      \<lparr>io_proof = Some (replicate 810 CHR 0x00), io_proof_size = Some 810, io_public = Some (replicate 86 CHR 0x00),
       io_public_size = Some 86, io_error = None, io_error_maxsize = 0\<rparr> =
    store_result (json_dump pdoc) (json_dump idoc) (replicate 810 CHR 0x00) 810 (replicate 86 CHR 0x00) 86
      \<lparr>io_proof = Some (replicate 810 CHR 0x00), io_proof_size = Some 810, io_public = Some (replicate 86 CHR 0x00),
       io_public_size = Some 86, io_error = None, io_error_maxsize = 0\<rparr> \<and>
    parse_proof demo_readers (Some pdoc) = Inr pf \<and> demo_rel (pf_A pf) A \<and> demo_rel (pf_B pf) B \<and> demo_rel (pf_C pf) C \<and>
    groth16_equation demo_q 2 3 1 1 (square_K demo_w demo_p 0 (1 :: int)) 1 square_wv A B C \<and>
    groth16_verify demo_engine (field_pairing demo_field) demo_readers (Some pdoc) (Some idoc) (Some demo_key_json) None 0 =
      Some (VERIFIER_VALID_PROOF, None)"
proof -
  let ?X = "\<lparr>r_il = concat, r_threads = 2, r_uninit = 0, r_rnd_r = replicate 31 0, r_rnd_s = replicate 31 0\<rparr> :: int run_env"
  let ?io = "\<lparr>io_proof = Some (replicate 810 CHR 0x00), io_proof_size = Some 810, io_public = Some (replicate 86 CHR 0x00),
       io_public_size = Some 86, io_error = None, io_error_maxsize = 0\<rparr>"
  let ?run = "\<lambda>pdoc idoc. groth16_prover (\<lambda>_. []) (new_Groth16Prover mpz_ref demo_field [1, 0] 2 0) (Groth16Prover_prove mpz_ref demo_engine demo_layout2)
      \<lparr>mem_next = 1, mem_mapped = [0 \<mapsto> demo_file]\<rparr> (Some 0) (Some (wtns_file 32 bn128_r (length demo_wtns) (concat demo_wtns))) ?X ?io =
    store_result (json_dump pdoc) (json_dump idoc) (replicate 810 CHR 0x00) 810 (replicate 86 CHR 0x00) 86 ?io"
  let ?ver = "\<lambda>pdoc idoc. groth16_verify demo_engine (field_pairing demo_field) demo_readers (Some pdoc) (Some idoc) (Some demo_key_json) None 0 =
      Some (VERIFIER_VALID_PROOF, None)"
  let ?P = "key_of_contents demo_engine demo_layout2 demo_contents \<lparr>fft_s = 0, nqr = 0, roots = [], powTwoInv = []\<rparr>"
  have kf: "kf_nVars demo_contents = 3" "kf_nPublic demo_contents = 1" "kf_domainSize demo_contents = 1"
    "length (kf_coefs demo_contents) = 2" by (simp_all add: demo_contents_def Let_def)
  have Ps: "p_coefs ?P = square_coefs 1" using demo_coefs by (simp add: key_of_contents_def)
  have i2: "Suc 0 < i \<and> i < 3 \<longleftrightarrow> i = 2" for i by auto
  have F: "e_fr demo_engine = demo_field" by (simp add: demo_engine_def)
  have shape: "key_shape ?P 0"
    unfolding key_shape_def Ps by (simp add: square_coefs_at) (simp add: key_of_contents_def kf)
  have points: "key_points demo_rel demo_rel ?P demo_values"
    unfolding key_points_def
    by (simp add: key_of_contents_def demo_layout2_def demo_contents_def Let_def demo_rel_def i2 demo_values_def square_values_def
        demo_small)
  have w: "length demo_wtns = 3" "\<forall>s \<in> set demo_wtns. length s = 32"
    "\<forall>i < length demo_wtns. demo_rel (fr_ofBytes demo_engine (demo_wtns ! i)) (square_wv i * 1)"
    by (simp_all add: demo_wtns_def demo_engine_def demo_rel_def)
  have coefs: "\<forall>j < length (kf_coefs demo_contents). demo_rel (coef_coef (Coef_dec demo_engine (kf_coefs demo_contents ! j))) (1 * 1)"
  proof (intro allI impI)
    fix j assume j: "j < length (kf_coefs demo_contents)"
    then have "Coef_dec demo_engine (kf_coefs demo_contents ! j) = square_coefs 1 ! j" using demo_coefs by (metis nth_map)
    then show "demo_rel (coef_coef (Coef_dec demo_engine (kf_coefs demo_contents ! j))) (1 * 1)"
      using j by (simp add: kf square_coefs_at demo_rel_def demo_small)
  qed
  have key: "vkey_points demo_rel demo_rel demo_key (kv_alpha demo_values) (kv_beta demo_values) 1 (kv_delta demo_values)
      (square_K demo_w demo_p 0 (1 :: int))"
    by (simp add: vkey_points_def demo_key_def demo_rel_def demo_small demo_values_def square_values_def)
  have rd: "\<forall>e v. demo_rel e v \<longrightarrow> (\<exists>e'. rd_fr demo_readers (f_toString demo_field e) = Some e' \<and> demo_rel e' v)"
    "\<forall>a v. demo_rel a v \<longrightarrow> (\<exists>a'. rd_a1 demo_readers (fst (a1_str demo_layout2 a)) (snd (a1_str demo_layout2 a)) = Some a' \<and> demo_rel a' v)"
    "\<forall>b v. demo_rel b v \<longrightarrow> (\<exists>b'. rd_a2 demo_readers (fst (fst (a2_str demo_layout2 b))) (snd (fst (a2_str demo_layout2 b)))
      (fst (snd (a2_str demo_layout2 b))) (snd (snd (a2_str demo_layout2 b))) = Some b' \<and> demo_rel b' v)"
    by (simp_all add: demo_readers_def Let_def demo_field_def demo_rel_def demo_layout2_def demo_dec_str)
  have o: "mset [1, 0] = mset [0..<2]" by (simp add: upt_rec)
  note C = prover_on_files [where Z = mpz_ref and z = 2 and k = 0 and c = demo_contents and wb = demo_wtns and V = demo_values and wv = square_wv and
      cv = "\<lambda>_. 1" and key = demo_key and gamma = 1 and ic = "square_K demo_w demo_p 0 (1 :: int)" and Cm = square_C and tau = 5 and
      D = demo_readers and kdoc = "Some demo_key_json" and io = ?io and X = ?X and err = None and n = 0 and what = "\<lambda>_. []" and u = 0 and
      M = "\<lparr>mem_next = 1, mem_mapped = [0 \<mapsto> demo_file]\<rparr>" and addr = 0 and dat = demo_file and Y = demo_layout2,
      OF demo_engine.engine_vals_axioms _ _ _ demo_nonresidue _ _ _ o _ _ _ _ _ demo_zkey demo_contents_ok _ shape _
        w(2) _ w(3) coefs points key, unfolded F kf demo_coefs]
  have z: "\<forall>y. 2 \<le> y \<and> y < 2 \<longrightarrow> y ^ nat ((demo_q - 1) div 2) mod demo_q = 1" "2 ^ Suc 0 dvd demo_q - 1" "fr_size demo_engine = 32"
    by (simp_all add: demo_q_def demo_engine_def)
  have u: "unat (3 :: u32) = 3" "unat (1 :: u32) = 1" by simp_all
  have s: "(2 :: int) \<le> 2" "2 < demo_q" "(0 :: nat) < 2" "fair (r_il ?X)" "0 < r_threads ?X" "length (r_rnd_r ?X) = 31" "length (r_rnd_s ?X) = 31"
    "mem_mapped \<lparr>mem_next = 1, mem_mapped = [0 \<mapsto> demo_file]\<rparr> 0 = Some demo_file" "(3 :: nat) * 32 < 2 ^ 32"
    "length (vk_IC demo_key) = 1 + 1"
    using fair_concat(1) demo_q_bounds(4) by (simp_all add: demo_key_def)
  have i: "io_proof ?io = Some (replicate 810 CHR 0x00)" "io_proof_size ?io = Some 810" "io_public ?io = Some (replicate 86 CHR 0x00)"
    "io_public_size ?io = Some 86" by simp_all
  note kc = square_key(3) [of demo_q demo_w demo_p 0 "1 :: int", folded demo_values_def]
  note run = C [unfolded u, folded demo_w_def demo_p_def,
      OF demo_field.field_api_axioms z(3,1) s(1,2) z(2) s(3-8) w(1) s(9,10) kc square_satisfied rd demo_parse_key i]
  have "(1 :: u32) \<noteq> 0" by simp
  note run = run [unfolded if_not_P [OF this]]
  have z0: "int (le_nat (r_rnd_r ?X)) = 0" "int (le_nat (r_rnd_s ?X)) = 0" by (simp_all add: numeral_eq_Suc)
  have c15: "proof_point_C demo_w demo_p 0 3 1 (square_coefs (1 :: int)) (\<lambda>_. 1) square_wv demo_values
      (int (le_nat (r_rnd_r ?X))) (int (le_nat (r_rnd_s ?X))) = 15"
    unfolding z0 demo_values_def by (rule square_point_C)
  have V: "kv_alpha demo_values = 2" "kv_beta demo_values = 3" "kv_delta demo_values = 1" by (simp_all add: demo_values_def square_values_def)
  from run obtain pdoc idoc pf A B C where p: "?run pdoc idoc" "parse_proof demo_readers (Some pdoc) = Inr pf"
      "demo_rel (pf_A pf) A" "demo_rel (pf_B pf) B" "demo_rel (pf_C pf) C"
      "groth16_equation demo_q (kv_alpha demo_values) (kv_beta demo_values) 1 (kv_delta demo_values) (square_K demo_w demo_p 0 (1 :: int)) 1 square_wv A B C"
    and C: "C = 15"
    and v: "kv_alpha demo_values mod demo_q \<noteq> 0 \<and> C mod demo_q \<noteq> 0 \<longrightarrow>
      (\<forall>(T :: (int, int, int) Pairing) pv. pairing_vals T demo_rel demo_rel demo_q pv \<longrightarrow> groth16_verify demo_engine T demo_readers (Some pdoc) (Some idoc) (Some demo_key_json) None 0 =
        Some (VERIFIER_VALID_PROOF, None))"
    unfolding c15 by (elim exE conjE) rule
  have nz: "kv_alpha demo_values mod demo_q \<noteq> 0 \<and> C mod demo_q \<noteq> 0" unfolding C V by (simp add: demo_q_def)
  have "?ver pdoc idoc" using mp [OF v nz] demo_pairing.pairing_vals_axioms by blast
  then show ?thesis using p unfolding V by (intro exI conjI)
qed

subsection \<open>The life of the key's file\<close>

text \<open>
  Property C32. An object made from a key's file holds pointers into a file that is no longer
  mapped when the function returns, so that no proof can ever be made with it; the function that
  makes the object and the proof in one call keeps the file mapped, and gives what the call on a
  mapped key gives.
\<close>

theorem zkey_file_lifetime:
  fixes F :: "'e field_ops"
  assumes "groth16_prover_create_zkey_file what (new_Groth16Prover Z F order t u) M True (Inr contents) io = Some (PROVER_OK, Some ob, io', M')"
  shows "mem_mapped M' (o_addr ob) = None \<and> (\<forall>Z E Y X w r. Groth16Prover_prove Z E Y M' ob w X \<noteq> Inr r) \<and>
   groth16_prover_zkey_file what (new_Groth16Prover Z F order t u) (Groth16Prover_prove Z E Y) M (Inr contents) w X io =
     map_option (\<lambda>(c, io). (c, io, FileLoader_free (snd (FileLoader_load M contents)) (mem_next M)))
      (groth16_prover_prove what (Groth16Prover_prove Z E Y (snd (FileLoader_load M contents))) (Some ob) w X io')"
proof -
  let ?c = "new_Groth16Prover Z F order t u"
  obtain M1 where l: "FileLoader_load M contents = (mem_next M, M1)" by (simp add: FileLoader_load_def)
  have c: "groth16_prover_create what ?c M1 True (Some (mem_next M)) io = Some (PROVER_OK, Some ob, io')"
    and M': "M' = FileLoader_free M1 (mem_next M)"
    using assms unfolding groth16_prover_create_zkey_file_def by (auto simp: l)
  have "?c M1 (mem_next M) = Inr ob"
  proof (cases "?c M1 (mem_next M)")
    case (Inl e)
    then show ?thesis using c by (cases e) (simp_all add: groth16_prover_create_def api_fail_def)
  next
    case (Inr x)
    then show ?thesis using c by (simp add: groth16_prover_create_def)
  qed
  then have addr: "o_addr ob = mem_next M" by (rule new_Groth16Prover_addr)
  have none: "mem_mapped M' (o_addr ob) = None" by (simp add: addr M' FileLoader_free_def)
  show ?thesis
    using none c by (simp add: prove_unmapped [OF none] groth16_prover_zkey_file_def groth16_prover_def l)
qed

theorem zkey_file_lifetime_witness:
  "\<exists>ob M'. groth16_prover_create_zkey_file (\<lambda>_. []) (new_Groth16Prover mpz_ref demo_field [1, 0] 2 0) \<lparr>mem_next = 5, mem_mapped = Map.empty\<rparr>
      True (Inr demo_file) \<lparr>io_proof = None, io_proof_size = None, io_public = None, io_public_size = None, io_error = None, io_error_maxsize = 0\<rparr> =
      Some (PROVER_OK, Some ob, \<lparr>io_proof = None, io_proof_size = None, io_public = None, io_public_size = None, io_error = None, io_error_maxsize = 0\<rparr>, M') \<and>
    mem_mapped M' (o_addr ob) = None"
proof -
  let ?M = "\<lparr>mem_next = 5, mem_mapped = Map.empty\<rparr>" and ?c = "new_Groth16Prover mpz_ref demo_field [1, 0] 2 0"
  let ?io = "\<lparr>io_proof = None, io_proof_size = None, io_public = None, io_public_size = None, io_error = None, io_error_maxsize = 0\<rparr>"
  let ?M1 = "snd (FileLoader_load ?M demo_file)"
  have d: "unat (kf_domainSize demo_contents) = 2 ^ 0" by (simp add: demo_contents_def Let_def)
  have o: "mset [1, 0] = mset [0..<2]" by (simp add: upt_rec)
  have z: "\<forall>y. 2 \<le> y \<and> y < 2 \<longrightarrow> y ^ nat ((demo_q - 1) div 2) mod demo_q = 1" "2 ^ Suc 0 dvd demo_q - 1" "fr_size demo_engine = 32"
    by (simp_all add: demo_q_def demo_engine_def)
  obtain fft where fft: "new_FFT mpz_ref demo_field [1, 0] 2 0 (ucast (Prover_fft_size (kf_domainSize demo_contents))) = Some (Inr fft)"
    using fft_of_key [OF demo_field.field_api_axioms o _ d _ z(1) demo_nonresidue order_refl demo_q_bounds(4) z(2), of 0] by auto
  have m: "mem_mapped ?M1 5 = Some demo_file" by (simp add: FileLoader_load_def)
  obtain ob where ob: "?c ?M1 5 = Inr ob"
    using mpz_lib.prover_of_file [OF gmp_mpz.mpz_lib_axioms demo_zkey m fft z(3) demo_contents_ok] by blast
  then have "groth16_prover_create_zkey_file (\<lambda>_. []) ?c ?M True (Inr demo_file) ?io =
      Some (PROVER_OK, Some ob, ?io, FileLoader_free ?M1 5)"
    by (simp add: groth16_prover_create_zkey_file_def FileLoader_load_def groth16_prover_create_def)
  from this zkey_file_lifetime [OF this] show ?thesis by blast
qed

end
