(* ===== verification/ProofServer.thy ===== *)
theory ProofServer
  imports ProverFiles
begin

text \<open>
  The proof server (\<open>fullprover.cpp\<close>, \<open>proverapi.cpp\<close>): a state machine shared by the thread that
  serves requests and the threads that compute proofs. A thread of a proof is a value of \<open>worker\<close>,
  where it stands in \<open>thread_calculateProve\<close>; one step of it runs to the next access of shared
  data. The mutex is held by a step that needs it from its beginning to its end, except by a
  request that waits for itself: \<open>startProve\<close> calls \<open>abort\<close>, which locks the mutex again, and
  \<open>locked\<close> says that such a request holds it. The server has one thread for requests. A process
  that was ended by an exception that no handler catches, or that uses memory it does not own, is
  \<open>dead\<close>.
\<close>

subsection \<open>The state\<close>

datatype Status = aborted | busy | failed | success | unverified | uninitialized | initializing | ready

record 'e FullProver =
  status :: Status
  pendingInput :: string
  executingInput :: string
  pendingCircuit :: string
  executingCircuit :: string
  provers :: "string \<rightharpoonup> 'e Groth16Prover"
  fp_memory :: memory
  witness_files :: "string \<rightharpoonup> bytes"
  fp_proof :: json
  pubData :: json
  errString :: string
  canceled :: bool

text \<open>
  The world of the server: the JSON parser; the witness program of a circuit, which writes the
  circuit's witness file or ends without writing it; the messages. The witness files that were
  written before the server started or by it are part of the state.
\<close>

record fp_env =
  fe_parse :: "string \<Rightarrow> json option"
  fe_run :: "string \<Rightarrow> json \<Rightarrow> bytes option"
  fe_open_error :: string
  fe_what :: "bin_error \<Rightarrow> string"

definition after_last :: "(char \<Rightarrow> bool) \<Rightarrow> string \<Rightarrow> string" where
  "after_last p s = rev (takeWhile (\<lambda>c. \<not> p c) (rev s))"

definition before_last :: "(char \<Rightarrow> bool) \<Rightarrow> string \<Rightarrow> string" where
  "before_last p s = (if \<exists>c \<in> set s. p c then rev (tl (dropWhile (\<lambda>c. \<not> p c) (rev s))) else s)"

definition getfilename :: "string \<Rightarrow> string" where
  "getfilename path =
     (let path = after_last (\<lambda>c. c = CHR ''/'' \<or> c = CHR 0x5c) path in before_last (\<lambda>c. c = CHR ''.'') path)"

text \<open>The constructor; a file is its name and what its loader gives.\<close>

fun load_keys :: "(memory \<Rightarrow> nat \<Rightarrow> api_error + 'e Groth16Prover) \<Rightarrow> (string \<times> (string + bytes)) list \<Rightarrow> memory \<Rightarrow>
    (string \<rightharpoonup> 'e Groth16Prover) \<Rightarrow> (string + api_error) + (string \<rightharpoonup> 'e Groth16Prover) \<times> memory" where
  "load_keys create [] M ps = Inr (ps, M)"
| "load_keys create ((fname, key_file) # files) M ps =
     (case key_file of
        Inl e \<Rightarrow> Inl (Inl e)
      | Inr contents \<Rightarrow>
          let (addr, M) = FileLoader_load M contents
          in (case create M addr of
                Inl e \<Rightarrow> Inl (Inr e)
              | Inr ob \<Rightarrow> load_keys create files M (ps(getfilename fname \<mapsto> ob))))"

definition new_FullProver :: "(memory \<Rightarrow> nat \<Rightarrow> api_error + 'e Groth16Prover) \<Rightarrow> (string \<times> (string + bytes)) list \<Rightarrow> memory \<Rightarrow>
    (string \<rightharpoonup> bytes) \<Rightarrow> (string + api_error) + 'e FullProver" where
  "new_FullProver create files M build =
     and_then (load_keys create files M Map.empty) (\<lambda>(ps, M).
       Inr \<lparr>status = ready, pendingInput = '''', executingInput = '''', pendingCircuit = '''', executingCircuit = '''',
          provers = ps, fp_memory = M, witness_files = build, fp_proof = Json_null, pubData = Json_null, errString = '''', canceled = False\<rparr>)"

subsection \<open>The methods\<close>

text \<open>Whether a thread was started is the second result.\<close>

definition checkPending :: "'e FullProver \<Rightarrow> 'e FullProver \<times> bool" where
  "checkPending s =
     (if status s \<noteq> busy
      then (let input = pendingInput s; circuit = pendingCircuit s
            in if input \<noteq> '''' \<and> circuit \<noteq> ''''
               then (s\<lparr>status := busy, executingInput := pendingInput s, executingCircuit := pendingCircuit s,
                       pendingInput := '''', pendingCircuit := '''', errString := '''', canceled := False, fp_proof := Json_null\<rparr>, True)
               else (s, False))
      else (s, False))"

text \<open>\<open>None\<close>: the call waits for the mutex that it holds.\<close>

definition startProve :: "string \<Rightarrow> string \<Rightarrow> 'e FullProver \<Rightarrow> 'e FullProver \<times> bool option" where
  "startProve input circuit s =
     (let s = s\<lparr>pendingInput := input\<rparr>;
          s = s\<lparr>pendingCircuit := circuit\<rparr>
      in if status s = busy then (s, None)
         else let (s, started) = checkPending s in (s, Some started))"

definition fp_abort :: "'e FullProver \<Rightarrow> 'e FullProver" where
  "fp_abort s = (if status s \<noteq> busy then s else s\<lparr>canceled := True\<rparr>)"

definition calcFinished :: "'e FullProver \<Rightarrow> 'e FullProver \<times> bool" where
  "calcFinished s =
     (let s = (if canceled s then s\<lparr>status := aborted\<rparr>
               else if errString s \<noteq> '''' then s\<lparr>status := failed\<rparr>
               else s\<lparr>status := success\<rparr>);
          s = s\<lparr>canceled := False\<rparr>;
          s = s\<lparr>executingInput := ''''\<rparr>
      in checkPending s)"

text \<open>The members of the document are in the order of their names.\<close>

definition getStatus :: "'e FullProver \<Rightarrow> json" where
  "getStatus s =
     (case status s of
        ready \<Rightarrow> Json_object [(''status'', Json_string ''ready'')]
      | aborted \<Rightarrow> Json_object [(''status'', Json_string ''aborted'')]
      | failed \<Rightarrow> Json_object [(''error'', Json_string (errString s)), (''status'', Json_string ''failed'')]
      | success \<Rightarrow> Json_object [(''proof'', Json_string (json_dump (fp_proof s))), (''pubData'', Json_string (json_dump (pubData s))),
                    (''status'', Json_string ''success'')]
      | busy \<Rightarrow> Json_object [(''status'', Json_string ''busy'')]
      | _ \<Rightarrow> Json_null)"

subsection \<open>The thread of a proof\<close>

text \<open>
  \<open>std::runtime_error\<close> is caught, with its message; every other exception ends the process, and so
  does, here, the use of a null pointer or of memory outside a buffer.
\<close>

datatype thread_error = Runtime string | Fatal

fun runtime_error :: "bin_error \<Rightarrow> bool" where
  "runtime_error (Invalid_file_type t) = False"
| "runtime_error (Invalid_version v) = False"
| "runtime_error Not_groth16 = False"
| "runtime_error Curve_not_supported = False"
| "runtime_error Out_of_buffer = False"
| "runtime_error Null_section = False"
| "runtime_error Zero_division = False"
| "runtime_error _ = True"

definition thread_bin :: "fp_env \<Rightarrow> bin_error + 'a \<Rightarrow> thread_error + 'a" where
  "thread_bin V x =
     (case x of
        Inl e \<Rightarrow> Inl (if runtime_error e then Runtime (fe_what V e) else Fatal)
      | Inr v \<Rightarrow> Inr v)"

text \<open>The witness that the thread loads: the key's number of elements from their place in the file.\<close>

definition load_witness :: "mpz_api \<Rightarrow> ('e, 'p, 'a, 'r, 'b) Engine \<Rightarrow> fp_env \<Rightarrow> 'e Groth16Prover option \<Rightarrow> bytes option \<Rightarrow>
    thread_error + 'e list" where
  "load_witness Z E V prover witnessFile =
     (case witnessFile of
        None \<Rightarrow> Inl (Runtime (fe_open_error V))
      | Some file \<Rightarrow>
     and_then (thread_bin V (new_BinFile file ''wtns'' 2)) (\<lambda>wtns.
     and_then (thread_bin V (wtns_loadHeader Z wtns)) (\<lambda>(wtnsHeader, wtns).
       if \<not> PrimeIsValid (w_prime wtnsHeader) then Inl Fatal
       else
     and_then (thread_bin V (getSectionData wtns 2 0)) (\<lambda>wtnsData.
       case prover of
         None \<Rightarrow> Inl Fatal
       | Some ob \<Rightarrow>
           let h = o_header ob; nv = unat (z_nVars h); S = unat (fr_size E)
           in if z_nPublic h \<ge> z_nVars h \<or> unat wtnsData + nv * S > length file then Inl Fatal
              else Inr (map (fr_ofBytes E) (chunks S nv (drop (unat wtnsData) file)))))))"

fun json_clear :: "json \<Rightarrow> json" where
  "json_clear (Json_array xs) = Json_array []"
| "json_clear v = v"

text \<open>Pushing to an array or to a null document; the public data is never anything else.\<close>

fun json_push :: "json \<Rightarrow> json \<Rightarrow> json" where
  "json_push x (Json_array xs) = Json_array (xs @ [x])"
| "json_push x _ = Json_array [x]"

definition public_data :: "'e field_ops \<Rightarrow> 'e list \<Rightarrow> u32 \<Rightarrow> json \<Rightarrow> json" where
  "public_data F wtnsData nPub old =
     fold (\<lambda>i. json_push (Json_string (f_toString F (f_toMontgomery F (wtnsData ! i))))) [1..<unat nPub + 1] (json_clear old)"

datatype 'e worker =
    W_start
  | W_loaded string "'e list"
  | W_public string "'e list"
  | W_prove string "'e list"
  | W_skip
  | W_error string
  | W_finish

fun needs_mutex :: "'e worker \<Rightarrow> bool" where
  "needs_mutex (W_public c w) = True"
| "needs_mutex (W_error e) = True"
| "needs_mutex W_finish = True"
| "needs_mutex _ = False"

datatype 'e work_result = Goes_on "'e FullProver" "'e worker" | Ends "'e FullProver" bool | Dies

definition prove_in_place :: "('e, 'p, 'a, 'r, 'b) Engine \<Rightarrow> ('a, 'b) layout \<Rightarrow> 'e run_env \<Rightarrow> memory \<Rightarrow> 'e Groth16Prover \<Rightarrow> 'e list \<Rightarrow> json option" where
  "prove_in_place E Y X M ob wtnsData =
     (case mem_mapped M (o_addr ob) of
        None \<Rightarrow> None
      | Some dat \<Rightarrow>
     (case key_of_buffer E Y ob dat of
        Inl _ \<Rightarrow> None
      | Inr P \<Rightarrow> map_option (Proof_toJson Y) (Groth16_prove E (r_il X) (r_threads X) (r_uninit X) P wtnsData (r_rnd_r X) (r_rnd_s X))))"

fun thread_calculateProve :: "mpz_api \<Rightarrow> ('e, 'p, 'a, 'r, 'b) Engine \<Rightarrow> ('a, 'b) layout \<Rightarrow> fp_env \<Rightarrow> 'e run_env \<Rightarrow> 'e FullProver \<Rightarrow>
    'e worker \<Rightarrow> 'e work_result" where
  "thread_calculateProve Z E Y V X s W_start =
     (case fe_parse V (executingInput s) of
        None \<Rightarrow> Dies
      | Some j \<Rightarrow>
          let circuit = executingCircuit s;
              s = (case fe_run V circuit j of
                     None \<Rightarrow> s
                   | Some file \<Rightarrow> s\<lparr>witness_files := (witness_files s)(circuit \<mapsto> file)\<rparr>)
          in (case load_witness Z E V (provers s circuit) (witness_files s circuit) of
                Inl Fatal \<Rightarrow> Dies
              | Inl (Runtime e) \<Rightarrow> Goes_on s (W_error e)
              | Inr wtnsData \<Rightarrow> Goes_on s (W_loaded circuit wtnsData)))"
| "thread_calculateProve Z E Y V X s (W_loaded circuit wtnsData) =
     Goes_on (s\<lparr>pubData := public_data (e_fr E) wtnsData (z_nPublic (o_header (the (provers s circuit)))) (pubData s)\<rparr>)
       (W_public circuit wtnsData)"
| "thread_calculateProve Z E Y V X s (W_public circuit wtnsData) =
     Goes_on s (if canceled s then W_skip else W_prove circuit wtnsData)"
| "thread_calculateProve Z E Y V X s (W_prove circuit wtnsData) =
     (case prove_in_place E Y X (fp_memory s) (the (provers s circuit)) wtnsData of
        None \<Rightarrow> Dies
      | Some p \<Rightarrow> Goes_on (s\<lparr>fp_proof := p\<rparr>) W_finish)"
| "thread_calculateProve Z E Y V X s W_skip = Goes_on (s\<lparr>fp_proof := Json_null\<rparr>) W_finish"
| "thread_calculateProve Z E Y V X s (W_error e) = Goes_on (if canceled s then s else s\<lparr>errString := e\<rparr>) W_finish"
| "thread_calculateProve Z E Y V X s W_finish = (let (s, started) = calcFinished s in Ends s started)"

subsection \<open>The server\<close>

text \<open>
  The threads that run, and the requests for which a thread was started. A request is a call by
  the only thread that serves requests, so no request is served while that thread waits.
\<close>

record 'e server =
  sv :: "'e FullProver"
  workers :: "'e worker list"
  locked :: bool
  dead :: bool
  started_for :: "(string \<times> string) list"

definition new_server :: "'e FullProver \<Rightarrow> 'e server" where
  "new_server s = \<lparr>sv = s, workers = [], locked = False, dead = False, started_for = []\<rparr>"

text \<open>\<open>postInput\<close>, \<open>postCancel\<close>: what a request does to the server.\<close>

definition postInput :: "string \<Rightarrow> string \<Rightarrow> 'e server \<Rightarrow> 'e server" where
  "postInput body circuit S =
     (case startProve body circuit (sv S) of
        (s, None) \<Rightarrow> S\<lparr>sv := s, locked := True\<rparr>
      | (s, Some started) \<Rightarrow>
          if started then S\<lparr>sv := s, workers := workers S @ [W_start], started_for := started_for S @ [(executingInput s, executingCircuit s)]\<rparr>
          else S\<lparr>sv := s\<rparr>)"

definition postCancel :: "'e server \<Rightarrow> 'e server" where
  "postCancel S = S\<lparr>sv := fp_abort (sv S)\<rparr>"

text \<open>The step of the thread between those before and those after it.\<close>

definition work :: "mpz_api \<Rightarrow> ('e, 'p, 'a, 'r, 'b) Engine \<Rightarrow> ('a, 'b) layout \<Rightarrow> fp_env \<Rightarrow> 'e run_env \<Rightarrow> 'e worker list \<Rightarrow> 'e worker \<Rightarrow>
    'e worker list \<Rightarrow> 'e server \<Rightarrow> 'e server" where
  "work Z E Y V X ws1 w ws2 S =
     (case thread_calculateProve Z E Y V X (sv S) w of
        Dies \<Rightarrow> S\<lparr>dead := True\<rparr>
      | Goes_on s w' \<Rightarrow> S\<lparr>sv := s, workers := ws1 @ w' # ws2\<rparr>
      | Ends s started \<Rightarrow>
          if started then S\<lparr>sv := s, workers := ws1 @ ws2 @ [W_start], started_for := started_for S @ [(executingInput s, executingCircuit s)]\<rparr>
          else S\<lparr>sv := s, workers := ws1 @ ws2\<rparr>)"

inductive step :: "mpz_api \<Rightarrow> ('e, 'p, 'a, 'r, 'b) Engine \<Rightarrow> ('a, 'b) layout \<Rightarrow> fp_env \<Rightarrow> 'e server \<Rightarrow> 'e server \<Rightarrow> bool"
  for Z E Y V where
  step_input: "\<not> dead S \<Longrightarrow> \<not> locked S \<Longrightarrow> step Z E Y V S (postInput body circuit S)"
| step_cancel: "\<not> dead S \<Longrightarrow> \<not> locked S \<Longrightarrow> step Z E Y V S (postCancel S)"
| step_work: "\<not> dead S \<Longrightarrow> workers S = ws1 @ w # ws2 \<Longrightarrow> \<not> (locked S \<and> needs_mutex w) \<Longrightarrow>
    step Z E Y V S (work Z E Y V X ws1 w ws2 S)"

inductive reaches :: "mpz_api \<Rightarrow> ('e, 'p, 'a, 'r, 'b) Engine \<Rightarrow> ('a, 'b) layout \<Rightarrow> fp_env \<Rightarrow> 'e server \<Rightarrow> 'e server \<Rightarrow> bool"
  for Z E Y V S where
  reaches_refl: "reaches Z E Y V S S"
| reaches_step: "reaches Z E Y V S S' \<Longrightarrow> step Z E Y V S' S'' \<Longrightarrow> reaches Z E Y V S S''"

inductive_cases stepE: "step Z E Y V S S'"

subsection \<open>The invariant\<close>

text \<open>What a thread has established at its place; the last clause is a finished proof.\<close>

definition loaded :: "mpz_api \<Rightarrow> ('e, 'p, 'a, 'r, 'b) Engine \<Rightarrow> fp_env \<Rightarrow> 'e FullProver \<Rightarrow> string \<Rightarrow> string \<Rightarrow> 'e list \<Rightarrow> bool" where
  "loaded Z E V s input circuit w \<longleftrightarrow>
     (\<exists>ob j. provers s circuit = Some ob \<and> load_witness Z E V (Some ob) (witness_files s circuit) = Inr w \<and>
        fe_parse V input = Some j \<and> (\<forall>file. fe_run V circuit j = Some file \<longrightarrow> witness_files s circuit = Some file))"

definition public_ok :: "('e, 'p, 'a, 'r, 'b) Engine \<Rightarrow> 'e FullProver \<Rightarrow> string \<Rightarrow> 'e list \<Rightarrow> bool" where
  "public_ok E s circuit w \<longleftrightarrow>
     (let n = z_nPublic (o_header (the (provers s circuit)))
      in pubData s = public_json (e_fr E) w n \<or> n = 0 \<and> pubData s = Json_array [])"

definition proved :: "mpz_api \<Rightarrow> ('e, 'p, 'a, 'r, 'b) Engine \<Rightarrow> ('a, 'b) layout \<Rightarrow> fp_env \<Rightarrow> 'e FullProver \<Rightarrow> string \<Rightarrow> string \<Rightarrow> bool" where
  "proved Z E Y V s input circuit \<longleftrightarrow>
     (\<exists>w X. loaded Z E V s input circuit w \<and> public_ok E s circuit w \<and>
        prove_in_place E Y X (fp_memory s) (the (provers s circuit)) w = Some (fp_proof s))"

fun phase_ok :: "mpz_api \<Rightarrow> ('e, 'p, 'a, 'r, 'b) Engine \<Rightarrow> ('a, 'b) layout \<Rightarrow> fp_env \<Rightarrow> 'e FullProver \<Rightarrow> 'e worker \<Rightarrow> bool" where
  "phase_ok Z E Y V s W_start = True"
| "phase_ok Z E Y V s (W_loaded c w) = (c = executingCircuit s \<and> loaded Z E V s (executingInput s) c w)"
| "phase_ok Z E Y V s (W_public c w) = (c = executingCircuit s \<and> loaded Z E V s (executingInput s) c w \<and> public_ok E s c w)"
| "phase_ok Z E Y V s (W_prove c w) = (c = executingCircuit s \<and> loaded Z E V s (executingInput s) c w \<and> public_ok E s c w)"
| "phase_ok Z E Y V s W_skip = canceled s"
| "phase_ok Z E Y V s (W_error e) = (e \<noteq> '''')"
| "phase_ok Z E Y V s W_finish = (canceled s \<or> errString s \<noteq> '''' \<or> proved Z E Y V s (executingInput s) (executingCircuit s))"

definition server_inv :: "'e server \<Rightarrow> bool" where
  "server_inv S \<longleftrightarrow>
     (workers S = [] \<and> status (sv S) \<noteq> busy \<and> executingInput (sv S) = '''' \<and> \<not> canceled (sv S) \<and> \<not> locked S \<or>
      (\<exists>w. workers S = [w]) \<and> status (sv S) = busy \<and> started_for S \<noteq> [] \<and>
        last (started_for S) = (executingInput (sv S), executingCircuit (sv S)) \<and> executingInput (sv S) \<noteq> '''' \<and> executingCircuit (sv S) \<noteq> '''') \<and>
     (locked S \<or> pendingInput (sv S) = '''' \<or> pendingCircuit (sv S) = '''') \<and>
     status (sv S) \<in> {aborted, busy, failed, success, ready}"

definition result_inv :: "mpz_api \<Rightarrow> ('e, 'p, 'a, 'r, 'b) Engine \<Rightarrow> ('a, 'b) layout \<Rightarrow> fp_env \<Rightarrow> (string \<rightharpoonup> 'e Groth16Prover) \<Rightarrow> memory \<Rightarrow> 'e server \<Rightarrow> bool" where
  "result_inv Z E Y V ps M S \<longleftrightarrow>
     provers (sv S) = ps \<and> fp_memory (sv S) = M \<and> (pubData (sv S) = Json_null \<or> (\<exists>xs. pubData (sv S) = Json_array xs)) \<and>
     (\<forall>w \<in> set (workers S). phase_ok Z E Y V (sv S) w) \<and>
     (status (sv S) = success \<longrightarrow> started_for S \<noteq> [] \<and> proved Z E Y V (sv S) (fst (last (started_for S))) (snd (last (started_for S)))) \<and>
     (status (sv S) = failed \<longrightarrow> errString (sv S) \<noteq> '''')"

definition env_ok :: "fp_env \<Rightarrow> bool" where
  "env_ok V \<longleftrightarrow> fe_open_error V \<noteq> '''' \<and> (\<forall>e. fe_what V e \<noteq> '''')"

lemma checkPending_None: "pendingInput s = '''' \<or> pendingCircuit s = '''' \<Longrightarrow> checkPending s = (s, False)"
  by (auto simp: checkPending_def Let_def)

lemma public_data_json:
  assumes "old = Json_null \<or> (\<exists>xs. old = Json_array xs)"
  shows "public_data F w n old = public_json F w n \<or> n = 0 \<and> public_data F w n old = Json_array []"
proof -
  define g where "g i = Json_string (f_toString F (f_toMontgomery F (w ! i)))" for i
  have push: "fold (\<lambda>i. json_push (g i)) is (Json_array xs) = Json_array (xs @ map g is)" for "is" xs
    by (induction "is" arbitrary: xs) simp_all
  have d: "public_data F w n old = fold (\<lambda>i. json_push (g i)) [1..<unat n + 1] (json_clear old)"
    "public_json F w n = (if n = 0 then Json_null else Json_array (map g [1..<unat n + 1]))"
    by (simp_all add: public_data_def public_json_def g_def Let_def)
  show ?thesis
  proof (cases "n = 0")
    case True
    then show ?thesis using assms by (auto simp: public_data_def public_json_def)
  next
    case False
    then have "1 < unat n + 1" by (simp add: unat_gt_0)
    then have l: "[1..<unat n + 1] = 1 # [Suc 1..<unat n + 1]" by (rule upt_conv_Cons)
    from assms show ?thesis
    proof
      assume o: "old = Json_null"
      have "public_data F w n old = Json_array (map g [1..<unat n + 1])" 
        unfolding d(1) unfolding o l by (simp only: json_clear.simps fold_simps json_push.simps push list.map append.simps)
      then show ?thesis using False by (simp only: d(2) if_False simp_thms)
    next
      assume "\<exists>xs. old = Json_array xs"
      then have "public_data F w n old = Json_array (map g [1..<unat n + 1])" unfolding d(1) by (auto simp only: json_clear.simps push append_Nil)
      then show ?thesis using False by (simp only: d(2) if_False simp_thms)
    qed
  qed
qed

text \<open>The parts of the state that a predicate looks at.\<close>

lemma loaded_cong:
  "provers s' = provers s \<Longrightarrow> witness_files s' circuit = witness_files s circuit \<Longrightarrow> loaded Z E V s' i circuit w \<longleftrightarrow> loaded Z E V s i circuit w"
  by (simp add: loaded_def)

lemma public_ok_cong:
  "provers s' = provers s \<Longrightarrow> pubData s' = pubData s \<Longrightarrow> public_ok E s' circuit w \<longleftrightarrow> public_ok E s circuit w"
  by (simp add: public_ok_def)

lemma proved_cong:
  assumes "provers s' = provers s" "witness_files s' circuit = witness_files s circuit" "pubData s' = pubData s" "fp_memory s' = fp_memory s"
    "fp_proof s' = fp_proof s"
  shows "proved Z E Y V s' i circuit \<longleftrightarrow> proved Z E Y V s i circuit"
  using assms by (simp add: proved_def loaded_cong [OF assms(1,2)] public_ok_cong [OF assms(1,3)])

lemma phase_ok_cong:
  assumes "provers s' = provers s" "witness_files s' = witness_files s" "pubData s' = pubData s" "fp_memory s' = fp_memory s"
    "fp_proof s' = fp_proof s" "executingInput s' = executingInput s" "executingCircuit s' = executingCircuit s" "errString s' = errString s"
    "canceled s \<longrightarrow> canceled s'"
  shows "phase_ok Z E Y V s w \<Longrightarrow> phase_ok Z E Y V s' w"
proof -
  have f: "witness_files s' c = witness_files s c" for c using assms(2) by simp
  note c = loaded_cong [OF assms(1) f] public_ok_cong [OF assms(1,3)] proved_cong [OF assms(1) f assms(3,4,5)]
  show "phase_ok Z E Y V s w \<Longrightarrow> phase_ok Z E Y V s' w"
    using assms(6-9) by (cases w) (auto simp: c)
qed

lemma postInput_inv:
  assumes "server_inv S" "\<not> locked S"
  shows "server_inv (postInput body circuit S)"
proof (cases "status (sv S) = busy")
  case True
  then show ?thesis using assms by (auto simp: server_inv_def postInput_def startProve_def)
next
  case False
  then show ?thesis
    using assms by (auto simp: server_inv_def postInput_def startProve_def checkPending_def Let_def split: prod.splits)
qed

lemma postInput_result:
  assumes "result_inv Z E Y V ps M S" "server_inv S" "\<not> locked S"
  shows "result_inv Z E Y V ps M (postInput body circuit S)"
proof -
  let ?s = "sv S\<lparr>pendingInput := body, pendingCircuit := circuit\<rparr>"
  have p: "phase_ok Z E Y V (sv S) w \<Longrightarrow> phase_ok Z E Y V ?s w" for w by (rule phase_ok_cong) simp_all
  have r: "proved Z E Y V ?s i c \<longleftrightarrow> proved Z E Y V (sv S) i c" for i c by (rule proved_cong) simp_all
  show ?thesis
  proof (cases "status (sv S) = busy")
    case True
    then show ?thesis using assms(1) p by (auto simp: result_inv_def postInput_def startProve_def)
  next
    case False
    then have w: "workers S = []" using assms(2) by (auto simp: server_inv_def)
    show ?thesis
    proof (cases "body \<noteq> '''' \<and> circuit \<noteq> ''''")
      case True
      then show ?thesis
        using assms(1) False w by (auto simp: result_inv_def postInput_def startProve_def checkPending_def Let_def)
    next
      case f: False
      then have "postInput body circuit S = S\<lparr>sv := ?s\<rparr>"
        using False by (auto simp: postInput_def startProve_def checkPending_def Let_def)
      then show ?thesis using assms(1) w r by (simp add: result_inv_def)
    qed
  qed
qed

lemma postCancel_inv:
  assumes "server_inv S"
  shows "server_inv (postCancel S)"
  using assms by (auto simp: server_inv_def postCancel_def fp_abort_def)

lemma postCancel_result:
  assumes "result_inv Z E Y V ps M S"
  shows "result_inv Z E Y V ps M (postCancel S)"
proof -
  have p: "phase_ok Z E Y V (sv S) w \<Longrightarrow> phase_ok Z E Y V (sv S\<lparr>canceled := True\<rparr>) w" for w by (rule phase_ok_cong) simp_all
  then show ?thesis using assms by (auto simp: result_inv_def postCancel_def fp_abort_def)
qed

text \<open>
  A thread that finishes never starts another: a request that came while it ran holds the mutex
  that it needs to finish.
\<close>

lemma calcFinished_idle:
  assumes "pendingInput s = '''' \<or> pendingCircuit s = ''''"
  shows "calcFinished s = (s\<lparr>status := (if canceled s then aborted else if errString s \<noteq> '''' then failed else success),
    canceled := False, executingInput := ''''\<rparr>, False)"
  using assms by (auto simp: calcFinished_def Let_def checkPending_None)

lemma one_worker: "server_inv S \<Longrightarrow> workers S = ws1 @ w # ws2 \<Longrightarrow> ws1 = [] \<and> ws2 = [] \<and> workers S = [w] \<and> status (sv S) = busy"
  by (cases ws1) (auto simp: server_inv_def)

lemma work_inv:
  assumes i: "server_inv S" and w: "workers S = ws1 @ w # ws2" "\<not> (locked S \<and> needs_mutex w)"
  shows "server_inv (work Z E Y V X ws1 w ws2 S)"
proof -
  note o = one_worker [OF i w(1)]
  have b: "status (sv S) = busy" "started_for S \<noteq> []" "last (started_for S) = (executingInput (sv S), executingCircuit (sv S))"
    "executingInput (sv S) \<noteq> ''''" "executingCircuit (sv S) \<noteq> ''''"
    using i o by (auto simp: server_inv_def)
  have p: "locked S \<or> pendingInput (sv S) = '''' \<or> pendingCircuit (sv S) = ''''" using i by (simp add: server_inv_def)
  show ?thesis
  proof (cases w)
    case W_finish
    then have "\<not> locked S" "pendingInput (sv S) = '''' \<or> pendingCircuit (sv S) = ''''" using w(2) p by auto
    then show ?thesis
      using o W_finish by (auto simp: work_def calcFinished_idle server_inv_def)
  next
    case W_start
    then show ?thesis
      using o b p by (auto simp: work_def server_inv_def Let_def split: option.splits sum.splits thread_error.splits)
  qed (use o b p in \<open>auto simp: work_def server_inv_def split: option.splits\<close>)
qed

lemma public_json_shape: "public_json F w n = Json_null \<or> (\<exists>xs. public_json F w n = Json_array xs)"
  unfolding public_json_def by (cases "n = 0") simp_all

lemma updates [simp]:
  "loaded Z E V (s\<lparr>pubData := x\<rparr>) i c w \<longleftrightarrow> loaded Z E V s i c w"
  "loaded Z E V (s\<lparr>fp_proof := x\<rparr>) i c w \<longleftrightarrow> loaded Z E V s i c w"
  "public_ok E (s\<lparr>fp_proof := x\<rparr>) c w \<longleftrightarrow> public_ok E s c w"
  by (simp_all add: loaded_def public_ok_def)

lemma load_witness_key: "load_witness Z E V prover file = Inr w \<Longrightarrow> \<exists>ob. prover = Some ob"
  by (auto simp: load_witness_def and_then_Inr_iff split: option.splits if_splits)

lemma load_witness_message: "env_ok V \<Longrightarrow> load_witness Z E V prover file = Inl (Runtime e) \<Longrightarrow> e \<noteq> ''''"
  by (auto simp: load_witness_def env_ok_def thread_bin_def and_then_def Let_def split: option.splits sum.splits if_splits prod.splits)

lemma work_result:
  assumes r: "result_inv Z E Y V ps M S" and i: "server_inv S" and V: "env_ok V"
    and w: "workers S = ws1 @ w # ws2" "\<not> (locked S \<and> needs_mutex w)" and alive: "\<not> dead (work Z E Y V X ws1 w ws2 S)"
  shows "result_inv Z E Y V ps M (work Z E Y V X ws1 w ws2 S)"
proof -
  note o = one_worker [OF i w(1)]
  let ?s = "sv S"
  have ph: "phase_ok Z E Y V ?s w" and ps: "provers ?s = ps" "fp_memory ?s = M"
    and pd: "pubData ?s = Json_null \<or> (\<exists>xs. pubData ?s = Json_array xs)"
    using r o by (auto simp: result_inv_def)
  have p: "locked S \<or> pendingInput ?s = '''' \<or> pendingCircuit ?s = ''''" and l: "started_for S \<noteq> []"
    "last (started_for S) = (executingInput ?s, executingCircuit ?s)" using i o by (auto simp: server_inv_def)
  show ?thesis
  proof (cases w)
    case W_start
    then obtain j where j: "fe_parse V (executingInput ?s) = Some j" using alive by (auto simp: work_def split: option.splits)
    let ?c = "executingCircuit ?s"
    define s1 where "s1 = (case fe_run V ?c j of None \<Rightarrow> ?s | Some file \<Rightarrow> ?s\<lparr>witness_files := (witness_files ?s)(?c \<mapsto> file)\<rparr>)"
    have s1: "provers s1 = ps" "fp_memory s1 = M" "pubData s1 = pubData ?s" "executingInput s1 = executingInput ?s"
      "executingCircuit s1 = ?c" "status s1 = busy" "\<forall>file. fe_run V ?c j = Some file \<longrightarrow> witness_files s1 ?c = Some file"
      using ps o by (simp_all add: s1_def split: option.splits)
    have t: "thread_calculateProve Z E Y V X ?s W_start = (case load_witness Z E V (ps ?c) (witness_files s1 ?c) of
        Inl Fatal \<Rightarrow> Dies | Inl (Runtime e) \<Rightarrow> Goes_on s1 (W_error e) | Inr d \<Rightarrow> Goes_on s1 (W_loaded ?c d))"
      unfolding thread_calculateProve.simps(1) j option.case Let_def s1_def [symmetric] s1(1) ..
    show ?thesis
    proof (cases "load_witness Z E V (ps ?c) (witness_files s1 ?c)")
      case (Inl e)
      then obtain m where e: "e = Runtime m" using alive W_start t by (cases e) (simp_all add: work_def)
      then have "m \<noteq> ''''" using load_witness_message [OF V] Inl by blast
      moreover have "work Z E Y V X ws1 w ws2 S = S\<lparr>sv := s1, workers := [W_error m]\<rparr>"
        using W_start t o Inl e by (simp add: work_def)
      ultimately show ?thesis using s1 pd by (simp add: result_inv_def)
    next
      case (Inr d)
      obtain ob where "ps ?c = Some ob" using load_witness_key [OF Inr] by blast
      then have "loaded Z E V s1 (executingInput ?s) ?c d" using s1 Inr j by (simp add: loaded_def)
      moreover have "work Z E Y V X ws1 w ws2 S = S\<lparr>sv := s1, workers := [W_loaded ?c d]\<rparr>"
        using W_start t o Inr by (simp add: work_def)
      ultimately show ?thesis using s1 pd by (simp add: result_inv_def)
    qed
  next
    case (W_loaded c d)
    let ?n = "z_nPublic (o_header (the (provers ?s c)))"
    let ?s1 = "?s\<lparr>pubData := public_data (e_fr E) d ?n (pubData ?s)\<rparr>"
    have "public_ok E ?s1 c d" "pubData ?s1 = Json_null \<or> (\<exists>xs. pubData ?s1 = Json_array xs)"
      using public_data_json [OF pd, of "e_fr E" d ?n] public_json_shape [of "e_fr E" d ?n] by (auto simp: public_ok_def Let_def)
    moreover have "c = executingCircuit ?s" "loaded Z E V ?s1 (executingInput ?s) c d"
      using ph unfolding W_loaded by auto
    ultimately show ?thesis using W_loaded o ps by (simp add: work_def result_inv_def)
  next
    case (W_public c d)
    then show ?thesis using ph o ps pd by (auto simp: work_def result_inv_def)
  next
    case (W_prove c d)
    then obtain p where p': "prove_in_place E Y X M (the (ps c)) d = Some p" using alive ps by (auto simp: work_def split: option.splits)
    let ?s1 = "?s\<lparr>fp_proof := p\<rparr>"
    have "c = executingCircuit ?s" "loaded Z E V ?s1 (executingInput ?s) c d" "public_ok E ?s1 c d"
      using ph unfolding W_prove by auto
    then have "proved Z E Y V ?s1 (executingInput ?s) (executingCircuit ?s)" using p' ps unfolding proved_def by auto
    then show ?thesis using W_prove o ps pd p' by (simp add: work_def result_inv_def)
  next
    case W_skip
    then show ?thesis using ph o ps pd by (simp add: work_def result_inv_def)
  next
    case (W_error e)
    then show ?thesis using ph o ps pd by (simp add: work_def result_inv_def)
  next
    case W_finish
    then have u: "pendingInput ?s = '''' \<or> pendingCircuit ?s = ''''" using w(2) p by auto
    let ?s1 = "?s\<lparr>status := (if canceled ?s then aborted else if errString ?s \<noteq> '''' then failed else success), canceled := False, executingInput := ''''\<rparr>"
    have "proved Z E Y V ?s1 i c \<longleftrightarrow> proved Z E Y V ?s i c" for i c by (rule proved_cong) simp_all
    moreover have "work Z E Y V X ws1 w ws2 S = S\<lparr>sv := ?s1, workers := []\<rparr>"
      using W_finish o by (simp add: work_def calcFinished_idle [OF u])
    ultimately show ?thesis using W_finish ph ps pd l by (auto simp: result_inv_def)
  qed
qed

lemma reaches_inv:
  assumes "reaches Z E Y V S S'" "server_inv S" "dead S \<or> result_inv Z E Y V ps M S" "env_ok V"
  shows "server_inv S' \<and> (dead S' \<or> result_inv Z E Y V ps M S')"
  using assms
proof induction
  case (reaches_step S' S'')
  then have i: "server_inv S'" "dead S' \<or> result_inv Z E Y V ps M S'" by simp_all
  from reaches_step.hyps(2) show ?case
  proof (cases rule: step.cases)
    case step_input
    then show ?thesis using i postInput_inv postInput_result by blast
  next
    case step_cancel
    then show ?thesis using i postCancel_inv postCancel_result by blast
  next
    case (step_work ws1 w ws2 X)
    then show ?thesis using i work_inv [OF i(1) step_work(3,4)] work_result [OF _ i(1) reaches_step.prems(3) step_work(3,4)] by blast
  qed
qed simp

lemma reaches_server_inv: "reaches Z E Y V S S' \<Longrightarrow> server_inv S \<Longrightarrow> server_inv S'"
proof (induction rule: reaches.induct)
  case (reaches_step S' S'')
  from reaches_step.hyps(2) show ?case
    using reaches_step.IH reaches_step.prems postInput_inv postCancel_inv work_inv by (cases rule: step.cases) blast+
qed simp

lemma new_server_inv:
  assumes "new_FullProver create files M build = Inr s"
  shows "server_inv (new_server s)" "result_inv Z E Y V (provers s) (fp_memory s) (new_server s)" "\<not> dead (new_server s)"
  using assms by (auto simp: new_FullProver_def and_then_Inr_iff server_inv_def result_inv_def new_server_def split: prod.splits)

text \<open>The steps of the only thread, from a request to its end.\<close>

lemma reaches_trans: "reaches Z E Y V S S' \<Longrightarrow> reaches Z E Y V S' S'' \<Longrightarrow> reaches Z E Y V S S''"
  by (rotate_tac, induction rule: reaches.induct) (auto intro: reaches.intros)

lemma reaches_work:
  assumes "reaches Z E Y V S S'" "\<not> dead S'" "\<not> locked S'" "workers S' = [w]"
  shows "reaches Z E Y V S (work Z E Y V X [] w [] S')"
  using assms by (intro reaches_step [OF assms(1)] step_work) simp_all

fun phase_rank :: "'e worker \<Rightarrow> nat" where
  "phase_rank W_start = 5"
| "phase_rank (W_loaded c w) = 4"
| "phase_rank (W_public c w) = 3"
| "phase_rank (W_prove c w) = 2"
| "phase_rank W_skip = 2"
| "phase_rank (W_error e) = 2"
| "phase_rank W_finish = 1"

lemma thread_ends:
  fixes S S' :: "'e server"
  assumes "reaches Z E Y V S S'" "\<not> dead S'" "\<not> locked S'" "workers S' = [w]" "server_inv S'"
  shows "\<exists>S''. reaches Z E Y V S S'' \<and> (dead S'' \<or> workers S'' = []) \<and> started_for S'' = started_for S' \<and> \<not> locked S''"
  using assms
proof (induction "phase_rank w" arbitrary: w S' rule: less_induct)
  case less
  fix X :: "'e run_env"
  let ?n = "work Z E Y V X [] w [] S'"
  have r: "reaches Z E Y V S ?n" by (rule reaches_work [OF less.prems(1-4)])
  have w: "workers S' = [] @ w # []" using less.prems(4) by simp
  have i: "server_inv ?n" by (rule work_inv [OF less.prems(5) w]) (use less.prems(3) in simp)
  have p: "pendingInput (sv S') = '''' \<or> pendingCircuit (sv S') = ''''" using less.prems(3,5) by (auto simp: server_inv_def)
  show ?case
  proof (cases "thread_calculateProve Z E Y V X (sv S') w")
    case (Goes_on s w')
    then have "phase_rank w' < phase_rank w"
      by (cases w) (auto split: prod.splits option.splits sum.splits thread_error.splits if_splits simp: Let_def)
    moreover have "?n = S'\<lparr>sv := s, workers := [w']\<rparr>" using Goes_on by (simp add: work_def)
    ultimately show ?thesis using less.hyps [of w' ?n] r i less.prems(2,3) by simp
  next
    case (Ends s started)
    then have "w = W_finish" by (cases w) (auto split: prod.splits option.splits sum.splits thread_error.splits if_splits simp: Let_def)
    then have "\<not> started" using Ends by (simp add: calcFinished_idle [OF p])
    then have "?n = S'\<lparr>sv := s, workers := []\<rparr>" using Ends by (simp add: work_def)
    then show ?thesis using r less.prems(3) by (intro exI [of _ ?n]) simp
  next
    case Dies
    then have "?n = S'\<lparr>dead := True\<rparr>" by (simp add: work_def)
    then show ?thesis using r less.prems(3) by (intro exI [of _ ?n]) simp
  qed
qed

text \<open>The request of a server that is idle, up to its end.\<close>

lemma thread_run:
  fixes S0 S :: "'e server"
  assumes r: "reaches Z E Y V S0 S" and i: "server_inv S" and idle: "\<not> dead S" "status (sv S) \<noteq> busy" and V: "env_ok V"
    and req: "body \<noteq> ''''" "circuit \<noteq> ''''" "fe_parse V body = Some j"
    and files: "files' = (case fe_run V circuit j of None \<Rightarrow> witness_files (sv S) | Some file \<Rightarrow> (witness_files (sv S))(circuit \<mapsto> file))"
    and ob: "provers (sv S) circuit = Some ob" "load_witness Z E V (Some ob) (files' circuit) = Inr w"
      "prove_in_place E Y X (fp_memory (sv S)) ob w = Some p"
  shows "\<exists>S'. reaches Z E Y V S0 S' \<and> \<not> dead S' \<and> status (sv S') = success \<and> witness_files (sv S') = files' \<and>
    fp_proof (sv S') = p \<and> pubData (sv S') = public_data (e_fr E) w (z_nPublic (o_header ob)) (pubData (sv S)) \<and>
    started_for S' = started_for S @ [(body, circuit)]"
proof -
  let ?s0 = "sv S"
  define s1 where "s1 = ?s0\<lparr>status := busy, pendingInput := '''', pendingCircuit := '''', executingInput := body, executingCircuit := circuit,
    errString := '''', canceled := False, fp_proof := Json_null\<rparr>"
  define s2 where "s2 = s1\<lparr>witness_files := files'\<rparr>"
  define s3 where "s3 = s2\<lparr>pubData := public_data (e_fr E) w (z_nPublic (o_header ob)) (pubData ?s0)\<rparr>"
  define s4 where "s4 = s3\<lparr>fp_proof := p\<rparr>"
  define s5 where "s5 = s4\<lparr>status := success, executingInput := ''''\<rparr>"
  let ?at = "\<lambda>s ws. \<lparr>sv = s, workers = ws, locked = False, dead = False, started_for = started_for S @ [(body, circuit)]\<rparr>"
  have ws: "workers S = []" "\<not> locked S" using i idle(2) by (auto simp: server_inv_def)
  have "postInput body circuit S = ?at s1 [W_start]"
    by (rule server.equality) (use idle req(1,2) ws in \<open>simp_all add: postInput_def startProve_def checkPending_def Let_def s1_def\<close>)
  then have r1: "reaches Z E Y V S0 (?at s1 [W_start])" using reaches_step [OF r step_input [OF idle(1) ws(2), of Z E Y V body circuit]] by simp
  have f: "s2 = (case fe_run V circuit j of None \<Rightarrow> s1 | Some file \<Rightarrow> s1\<lparr>witness_files := (witness_files s1)(circuit \<mapsto> file)\<rparr>)"
    unfolding s2_def files by (simp add: s1_def split: option.split)
  have e: "executingCircuit s1 = circuit" "executingInput s1 = body" "provers s2 circuit = Some ob" "witness_files s2 = files'"
    using ob(1) by (simp_all add: s1_def s2_def)
  have t1: "thread_calculateProve Z E Y V X s1 W_start = Goes_on s2 (W_loaded circuit w)"
    unfolding thread_calculateProve.simps(1) e(1,2) req(3) option.case Let_def f [symmetric] e(3,4) ob(2) sum.case ..
  have t2: "thread_calculateProve Z E Y V X s2 (W_loaded circuit w) = Goes_on s3 (W_public circuit w)"
    using ob(1) by (simp add: s3_def s2_def s1_def)
  have t3: "thread_calculateProve Z E Y V X s3 (W_public circuit w) = Goes_on s3 (W_prove circuit w)"
    by (simp add: s3_def s2_def s1_def)
  have t4: "thread_calculateProve Z E Y V X s3 (W_prove circuit w) = Goes_on s4 W_finish"
    using ob(1,3) by (simp add: s4_def s3_def s2_def s1_def)
  have t5: "thread_calculateProve Z E Y V X s4 W_finish = Ends s5 False"
  proof -
    have "pendingInput s4 = '''' \<or> pendingCircuit s4 = ''''" by (simp add: s4_def s3_def s2_def s1_def)
    from calcFinished_idle [OF this] show ?thesis by (simp add: s5_def s4_def s3_def s2_def s1_def)
  qed
  have go: "reaches Z E Y V S0 (?at s' [v'])" if "reaches Z E Y V S0 (?at s [v])" "thread_calculateProve Z E Y V X s v = Goes_on s' v'" for s s' v v'
    using reaches_work [OF that(1), of v X] that(2) by (simp add: work_def)
  have r5: "reaches Z E Y V S0 (?at s4 [W_finish])" by (rule go [OF go [OF go [OF go [OF r1 t1] t2] t3] t4])
  have "reaches Z E Y V S0 (?at s5 [])" using reaches_work [OF r5, of W_finish X] t5 by (simp add: work_def)
  then show ?thesis
    by (rule_tac exI [of _ "?at s5 []"]) (simp add: s5_def s4_def s3_def s2_def)
qed

subsection \<open>What the server promises\<close>

text \<open>
  Property C30. Whatever requests come and however threads and requests interleave: a thread runs
  exactly while the status is busy, and never two of them; a request is marked as canceled, or waits
  for the mutex, only then; and the status document says which of five states the server is in.
\<close>

theorem server_states:
  fixes S :: "'e server"
  assumes "new_FullProver create files M build = Inr s" "reaches Z E Y V (new_server s) S"
  shows "length (workers S) = (if status (sv S) = busy then 1 else 0) \<and>
    (status (sv S) \<noteq> busy \<longrightarrow> \<not> canceled (sv S) \<and> \<not> locked S \<and> executingInput (sv S) = '''') \<and>
    (\<exists>members st. getStatus (sv S) = Json_object members \<and> map_of members ''status'' = Some (Json_string st) \<and>
      st \<in> {''ready'', ''aborted'', ''failed'', ''success'', ''busy''} \<and> (st = ''busy'' \<longleftrightarrow> workers S \<noteq> []))"
proof -
  have i: "server_inv S" using reaches_server_inv [OF assms(2)] new_server_inv(1) [OF assms(1)] .
  then have st: "status (sv S) \<in> {aborted, busy, failed, success, ready}" and w: "workers S \<noteq> [] \<longleftrightarrow> status (sv S) = busy"
    by (auto simp: server_inv_def)
  have "\<exists>members st. getStatus (sv S) = Json_object members \<and> map_of members ''status'' = Some (Json_string st) \<and>
      st \<in> {''ready'', ''aborted'', ''failed'', ''success'', ''busy''} \<and> (st = ''busy'' \<longleftrightarrow> workers S \<noteq> [])"
    using st by (cases "status (sv S)") (simp_all add: getStatus_def w)
  moreover have "length (workers S) = (if status (sv S) = busy then 1 else 0)" using i by (auto simp: server_inv_def)
  moreover have "status (sv S) \<noteq> busy \<longrightarrow> \<not> canceled (sv S) \<and> \<not> locked S \<and> executingInput (sv S) = ''''"
    using i by (auto simp: server_inv_def)
  ultimately show ?thesis by blast
qed

text \<open>
  Property C27. When the server reports success, the report belongs to the last request for which a
  thread was started: the proof was made with the prover of its circuit from the witness in the
  circuit's file, which is the one that the witness program wrote for this request if it wrote one,
  and the public data are this witness's.
\<close>

theorem success_belongs_to_request:
  fixes S :: "'e server"
  assumes "new_FullProver create files M build = Inr s" "env_ok V" "reaches Z E Y V (new_server s) S" "\<not> dead S" "status (sv S) = success"
  shows "\<exists>input circuit j ob w X p d. started_for S \<noteq> [] \<and> last (started_for S) = (input, circuit) \<and> fe_parse V input = Some j \<and>
    provers s circuit = Some ob \<and> load_witness Z E V (Some ob) (witness_files (sv S) circuit) = Inr w \<and>
    (\<forall>file. fe_run V circuit j = Some file \<longrightarrow> witness_files (sv S) circuit = Some file) \<and>
    prove_in_place E Y X (fp_memory s) ob w = Some p \<and>
    (d = public_json (e_fr E) w (z_nPublic (o_header ob)) \<or> z_nPublic (o_header ob) = 0 \<and> d = Json_array []) \<and>
    getStatus (sv S) = Json_object [(''proof'', Json_string (json_dump p)), (''pubData'', Json_string (json_dump d)),
      (''status'', Json_string ''success'')]"
proof -
  note n = new_server_inv [OF assms(1)]
  have "result_inv Z E Y V (provers s) (fp_memory s) S"
    using reaches_inv [OF assms(3) n(1) _ assms(2)] n(2) assms(4) by blast
  then have p: "provers (sv S) = provers s" "fp_memory (sv S) = fp_memory s" "started_for S \<noteq> []"
    "proved Z E Y V (sv S) (fst (last (started_for S))) (snd (last (started_for S)))"
    using assms(5) by (auto simp: result_inv_def)
  obtain input circuit where l: "last (started_for S) = (input, circuit)" by (cases "last (started_for S)")
  obtain w X where w: "loaded Z E V (sv S) input circuit w" "public_ok E (sv S) circuit w"
    "prove_in_place E Y X (fp_memory s) (the (provers s circuit)) w = Some (fp_proof (sv S))"
    using p(4) unfolding l proved_def p(1,2) by auto
  obtain ob j where ob: "provers s circuit = Some ob" "load_witness Z E V (Some ob) (witness_files (sv S) circuit) = Inr w"
    "fe_parse V input = Some j" "\<forall>file. fe_run V circuit j = Some file \<longrightarrow> witness_files (sv S) circuit = Some file"
    using w(1) unfolding loaded_def p(1) by blast
  have "pubData (sv S) = public_json (e_fr E) w (z_nPublic (o_header ob)) \<or> z_nPublic (o_header ob) = 0 \<and> pubData (sv S) = Json_array []"
    using w(2) by (simp add: public_ok_def p(1) ob(1) Let_def)
  moreover have "getStatus (sv S) = Json_object [(''proof'', Json_string (json_dump (fp_proof (sv S)))),
      (''pubData'', Json_string (json_dump (pubData (sv S)))), (''status'', Json_string ''success'')]"
    using assms(5) by (simp add: getStatus_def)
  ultimately show ?thesis using p(3) l ob w(3) by (simp only: option.sel) blast
qed
text \<open>While a request holds the mutex, only the steps of the thread that do not need it are left.\<close>

lemma locked_work:
  assumes "locked S" "workers S = ws1 @ w # ws2" "\<not> (locked S \<and> needs_mutex w)" "ws1 = []" "ws2 = []"
  shows "locked (work Z E Y V X ws1 w ws2 S) \<and> status (sv (work Z E Y V X ws1 w ws2 S)) = status (sv S) \<and>
    started_for (work Z E Y V X ws1 w ws2 S) = started_for S"
proof (cases w)
  case W_start
  then show ?thesis using assms by (auto simp: work_def Let_def split: option.splits sum.splits thread_error.splits)
qed (use assms in \<open>auto simp: work_def split: option.splits\<close>)

lemma locked_forever:
  assumes "reaches Z E Y V S0 S" "server_inv S0" "locked S0"
  shows "locked S \<and> status (sv S) = status (sv S0) \<and> started_for S = started_for S0"
  using assms
proof induction
  case (reaches_step S' S'')
  then have l: "locked S'" and i: "server_inv S'" using reaches_server_inv by blast+
  from reaches_step.hyps(2) show ?case
  proof (cases rule: step.cases)
    case (step_work ws1 w ws2 X)
    then show ?thesis using locked_work [OF l step_work(3,4)] one_worker [OF i step_work(3)] reaches_step by metis
  qed (use l in simp_all)
qed simp

text \<open>
  Property C28. A request that comes while a proof is computed waits for the mutex that it holds
  itself: from then on no request is served and no thread is started, the proof that was computed
  is never reported, and the status is busy in every state the server can reach.
\<close>

theorem second_request_deadlocks:
  fixes S :: "'e server"
  assumes "new_FullProver create files M build = Inr s" "reaches Z E Y V (new_server s) S" "status (sv S) = busy"
    and "reaches Z E Y V (postInput body circuit S) S'"
  shows "locked S' \<and> started_for S' = started_for S \<and> getStatus (sv S') = Json_object [(''status'', Json_string ''busy'')] \<and>
    (\<forall>S''. step Z E Y V S' S'' \<longrightarrow> (\<exists>ws1 w ws2 X. S'' = work Z E Y V X ws1 w ws2 S' \<and> \<not> needs_mutex w))"
proof -
  have i: "server_inv S" using reaches_server_inv [OF assms(2)] new_server_inv(1) [OF assms(1)] .
  have p: "server_inv (postInput body circuit S)" "locked (postInput body circuit S)" "status (sv (postInput body circuit S)) = busy"
    "started_for (postInput body circuit S) = started_for S"
    using i assms(3) by (auto simp: server_inv_def postInput_def startProve_def)
  have l: "locked S'" "status (sv S') = busy" "started_for S' = started_for S" using locked_forever [OF assms(4) p(1,2)] p(3,4) by simp_all
  have "\<exists>ws1 w ws2 X. S'' = work Z E Y V X ws1 w ws2 S' \<and> \<not> needs_mutex w" if "step Z E Y V S' S''" for S''
    using that
  proof (cases rule: step.cases)
    case (step_work ws1 w ws2 X)
    then show ?thesis using l(1) by blast
  qed (use l(1) in simp_all)
  then show ?thesis using l by (simp add: getStatus_def)
qed

text \<open>
  Property C29. From an idle server that is alive, a request whose input parses, for a circuit whose
  key was loaded and whose witness file can be loaded and proved, can be served: there is a run that
  ends with the status success, the proof and the public data. The file is the one that the witness
  program wrote or, if it ended without writing one, the file that an earlier run left there.
\<close>

theorem request_is_served:
  fixes S :: "'e server"
  assumes s: "new_FullProver create files M build = Inr s" "reaches Z E Y V (new_server s) S" "\<not> dead S" "status (sv S) \<noteq> busy" "env_ok V"
    and req: "body \<noteq> ''''" "circuit \<noteq> ''''" "fe_parse V body = Some j"
    and wtns: "witness = (case fe_run V circuit j of None \<Rightarrow> witness_files (sv S) circuit | Some file \<Rightarrow> Some file)"
    and ob: "provers s circuit = Some ob" "load_witness Z E V (Some ob) witness = Inr w" "prove_in_place E Y X (fp_memory s) ob w = Some p"
  shows "\<exists>S' d. reaches Z E Y V S S' \<and> started_for S' = started_for S @ [(body, circuit)] \<and> workers S' = [] \<and>
    witness_files (sv S') circuit = witness \<and>
    getStatus (sv S') = Json_object [(''proof'', Json_string (json_dump p)), (''pubData'', Json_string (json_dump d)),
      (''status'', Json_string ''success'')] \<and>
    (d = public_json (e_fr E) w (z_nPublic (o_header ob)) \<or> z_nPublic (o_header ob) = 0 \<and> d = Json_array [])"
proof -
  note n = new_server_inv [OF s(1)]
  have i: "server_inv S" "result_inv Z E Y V (provers s) (fp_memory s) S"
    using reaches_inv [OF s(2) n(1) _ s(5)] n(2) s(3) by blast+
  have ps: "provers (sv S) = provers s" "fp_memory (sv S) = fp_memory s" "pubData (sv S) = Json_null \<or> (\<exists>xs. pubData (sv S) = Json_array xs)"
    using i(2) by (simp_all add: result_inv_def)
  let ?fs = "case fe_run V circuit j of None \<Rightarrow> witness_files (sv S) | Some file \<Rightarrow> (witness_files (sv S))(circuit \<mapsto> file)"
  have f: "?fs circuit = witness" unfolding wtns by (simp split: option.split)
  obtain S' where S': "reaches Z E Y V S S'" "\<not> dead S'" "status (sv S') = success" "witness_files (sv S') = ?fs" "fp_proof (sv S') = p"
      "pubData (sv S') = public_data (e_fr E) w (z_nPublic (o_header ob)) (pubData (sv S))" "started_for S' = started_for S @ [(body, circuit)]"
    using thread_run [OF reaches_refl i(1) s(3,4,5) req refl, of ob Z E w Y X p] ob unfolding ps f by metis
  have "workers S' = []" using reaches_server_inv [OF S'(1) i(1)] S'(3) by (auto simp: server_inv_def)
  moreover have "getStatus (sv S') = Json_object [(''proof'', Json_string (json_dump p)),
      (''pubData'', Json_string (json_dump (public_data (e_fr E) w (z_nPublic (o_header ob)) (pubData (sv S))))), (''status'', Json_string ''success'')]"
    using S'(3,5,6) by (simp add: getStatus_def)
  ultimately show ?thesis using S'(1,4,7) f public_data_json [OF ps(3), of "e_fr E" w "z_nPublic (o_header ob)"]
    by (intro exI [of _ S'] exI [of _ "public_data (e_fr E) w (z_nPublic (o_header ob)) (pubData (sv S))"]) simp
qed

text \<open>
  Property C31. A proof that was started ends, unless a second request came: from every such state
  the server can reach one with no thread, where the status document says how it ended, or the
  process has ended.
\<close>

theorem started_proof_ends:
  fixes S :: "'e server"
  assumes s: "new_FullProver create files M build = Inr s" "reaches Z E Y V (new_server s) S" "\<not> dead S" "\<not> locked S"
  shows "\<exists>S'. reaches Z E Y V S S' \<and> started_for S' = started_for S \<and>
    (dead S' \<or> workers S' = [] \<and> \<not> locked S' \<and> getStatus (sv S') \<noteq> Json_object [(''status'', Json_string ''busy'')])"
proof (cases "workers S = []")
  case True
  have "server_inv S" using reaches_server_inv [OF s(2)] new_server_inv(1) [OF s(1)] .
  then show ?thesis using True s(4) by (intro exI [of _ S] conjI reaches_refl) (auto simp: server_inv_def getStatus_def)
next
  case False
  have i: "server_inv S" using reaches_server_inv [OF s(2)] new_server_inv(1) [OF s(1)] .
  then obtain w where w: "workers S = [w]" using False by (auto simp: server_inv_def)
  obtain S' where S': "reaches Z E Y V S S'" "dead S' \<or> workers S' = []" "started_for S' = started_for S" "\<not> locked S'"
    using thread_ends [OF reaches_refl s(3,4) w i, of Z E Y V] by metis
  have "workers S' = [] \<Longrightarrow> getStatus (sv S') \<noteq> Json_object [(''status'', Json_string ''busy'')]"
    using reaches_server_inv [OF S'(1) i] by (auto simp: server_inv_def getStatus_def)
  then show ?thesis using S' by blast
qed
subsection \<open>A server with one circuit\<close>

text \<open>
  The key file of one product, under the name of the circuit \<open>c\<close>. Its witness program writes the
  witness file for the input \<open>{}\<close> and nothing for every other input.
\<close>

definition demo_env :: fp_env where
  "demo_env = \<lparr>fe_parse = \<lambda>s. Some (if s = ''{}'' then Json_object [] else Json_null),
     fe_run = \<lambda>circuit j. if j = Json_object [] then Some (wtns_file 32 bn128_r (length demo_wtns) (concat demo_wtns)) else None,
     fe_open_error = ''open'', fe_what = \<lambda>e. ''format''\<rparr>"

definition demo_server :: "(string + api_error) + int FullProver" where
  "demo_server = new_FullProver (new_Groth16Prover mpz_ref demo_field [1, 0] 2 0) [(''key/c.zkey'', Inr demo_file)]
     \<lparr>mem_next = 5, mem_mapped = Map.empty\<rparr> Map.empty"

definition demo_choices :: "int run_env" where
  "demo_choices = \<lparr>r_il = concat, r_threads = 2, r_uninit = 0, r_rnd_r = replicate 31 7, r_rnd_s = replicate 31 9\<rparr>"

lemma load_witness_file:
  assumes Z: "mpz_lib Z" and ob: "o_header ob = zkey_header c" "fr_size E = 32"
    and w: "length wb = unat (kf_nVars c)" "\<forall>s \<in> set wb. length s = 32" "length (wtns_file 32 bn128_r (length wb) (concat wb)) < 2 ^ 63"
    and P: "kf_nPublic c < kf_nVars c"
  shows "load_witness Z E V (Some ob) (Some (wtns_file 32 bn128_r (length wb) (concat wb))) = Inr (map (fr_ofBytes E) wb)"
proof -
  let ?w = "wtns_file 32 bn128_r (length wb) (concat wb)"
  have nv: "length wb < 2 ^ 32" "(of_nat (length wb) :: u32) = kf_nVars c"
    using unsigned_less [of "kf_nVars c"] by (simp_all add: w(1))
  have r: "bn128_r < 256 ^ 32" by (simp add: bn128_r_def)
  obtain f f' where f: "new_BinFile ?w ''wtns'' 2 = Inr f"
      "wtns_loadHeader Z f = Inr (\<lparr>w_n8 = of_nat 32, w_prime = int bn128_r, w_nVars = kf_nVars c\<rparr>, f')"
      "getSectionData f' 2 0 = Inr (of_nat 76)" "bin_data f' = ?w" "drop 76 (bin_data f') = concat wb"
    using mpz_lib.wtns_file_header [OF Z _ r nv(1) w(3)] unfolding nv(2) by auto
  have d: "drop 76 ?w = concat wb @ []" using f(4,5) by simp
  have "76 \<le> length ?w" by (simp add: length_wtns_file)
  then have "view ?w 76 (unat (kf_nVars c)) 32 (fr_ofBytes E) = Inr (map (fr_ofBytes E) wb)"
    by (intro view_concat [OF d]) (use w in simp_all)
  then have v: "\<not> 76 + unat (kf_nVars c) * 32 > length ?w" "map (fr_ofBytes E) (chunks 32 (unat (kf_nVars c)) (drop 76 ?w)) = map (fr_ofBytes E) wb"
    by (simp_all add: view_def split: if_splits)
  have h: "z_nVars (zkey_header c) = kf_nVars c" "z_nPublic (zkey_header c) = kf_nPublic c" by (simp_all add: zkey_header_def)
  have "\<not> kf_nVars c \<le> kf_nPublic c" using P by simp
  then show ?thesis
    using v by (simp add: load_witness_def thread_bin_def f ob h PrimeIsValid_r Let_def)
qed

lemma demo_wtns_length: "length (wtns_file 32 bn128_r (length demo_wtns) (concat demo_wtns)) < 2 ^ 63"
  by (simp add: length_wtns_file demo_wtns_def upt_3)

lemma demo_prover:
  "\<exists>ob p. demo_server = Inr \<lparr>status = ready, pendingInput = '''', executingInput = '''', pendingCircuit = '''', executingCircuit = '''',
      provers = [''c'' \<mapsto> ob], fp_memory = \<lparr>mem_next = 6, mem_mapped = [5 \<mapsto> demo_file]\<rparr>, witness_files = Map.empty,
      fp_proof = Json_null, pubData = Json_null, errString = '''', canceled = False\<rparr> \<and>
    o_header ob = zkey_header demo_contents \<and>
    prove_in_place demo_engine demo_layout2 demo_choices \<lparr>mem_next = 6, mem_mapped = [5 \<mapsto> demo_file]\<rparr> ob (map (fr_ofBytes demo_engine) demo_wtns) = Some p"
proof -
  let ?M = "\<lparr>mem_next = 6, mem_mapped = [5 \<mapsto> demo_file]\<rparr>" and ?c = "new_Groth16Prover mpz_ref demo_field [1, 0] 2 0"
  have F: "e_fr demo_engine = demo_field" by (simp add: demo_engine_def)
  have d: "unat (kf_domainSize demo_contents) = 2 ^ 0" by (simp add: demo_contents_def Let_def)
  have o: "mset [1, 0] = mset [0..<2]" by (simp add: upt_rec)
  have z: "\<forall>y. 2 \<le> y \<and> y < 2 \<longrightarrow> y ^ nat ((demo_q - 1) div 2) mod demo_q = 1" "2 ^ Suc 0 dvd demo_q - 1" "fr_size demo_engine = 32"
    by (simp_all add: demo_q_def demo_engine_def)
  obtain fft where fft: "new_FFT mpz_ref demo_field [1, 0] 2 0 (ucast (Prover_fft_size (kf_domainSize demo_contents))) = Some (Inr fft)"
      "fft_s fft = Suc 0" "fft_tables demo_field demo_rel demo_q fft demo_w demo_p"
    using fft_of_key [OF demo_field.field_api_axioms o _ d _ z(1) demo_nonresidue order_refl demo_q_bounds(4) z(2), of 0]
    unfolding demo_w_def demo_p_def by auto
  have m: "mem_mapped ?M 5 = Some demo_file" by simp
  obtain ob where ob: "?c ?M 5 = Inr ob" "o_addr ob = 5" "o_header ob = zkey_header demo_contents"
      "key_of_buffer demo_engine demo_layout2 ob demo_file = Inr (key_of_contents demo_engine demo_layout2 demo_contents fft)"
    using mpz_lib.prover_of_file [OF gmp_mpz.mpz_lib_axioms demo_zkey m fft(1) z(3) demo_contents_ok] by blast
  let ?P = "key_of_contents demo_engine demo_layout2 demo_contents fft"
  have kf: "kf_nVars demo_contents = 3" "kf_nPublic demo_contents = 1" "kf_domainSize demo_contents = 1"
    "length (kf_coefs demo_contents) = 2" by (simp_all add: demo_contents_def Let_def)
  have Ps: "p_coefs ?P = square_coefs 1" using demo_coefs by (simp add: key_of_contents_def)
  have i2: "Suc 0 < i \<and> i < 3 \<longleftrightarrow> i = 2" for i by auto
  have shape: "key_shape ?P 0"
    unfolding key_shape_def Ps by (simp add: square_coefs_at) (simp add: key_of_contents_def kf)
  have points: "key_points demo_rel demo_rel ?P demo_values"
    unfolding key_points_def
    by (simp add: key_of_contents_def demo_layout2_def demo_contents_def Let_def demo_rel_def i2 demo_values_def square_values_def
        demo_small)
  have sel: "nVars ?P = 3" "p_fft ?P = fft" by (simp_all add: key_of_contents_def kf)
  let ?w = "map (fr_ofBytes demo_engine) demo_wtns"
  have w: "length ?w = unat (nVars ?P)" "\<forall>i < unat (nVars ?P). demo_rel (?w ! i) (square_wv i * 1)"
    unfolding sel by (simp_all add: demo_wtns_def demo_engine_def demo_rel_def)
  have cs: "\<forall>t < length (p_coefs ?P). demo_rel (coef_coef (p_coefs ?P ! t)) (1 * 1)"
    unfolding Ps by (simp add: square_coefs_at demo_rel_def demo_small)
  have pv: "prover_vals demo_engine demo_rel demo_q demo_rel demo_rel demo_rel demo_rel 1 1 (p_fft ?P) demo_w demo_p"
    using demo_engine.engine_vals_axioms fft(3) by (simp add: prover_vals_def sel F)
  obtain pf where "Groth16_prove demo_engine (r_il demo_choices) (r_threads demo_choices) (r_uninit demo_choices) ?P ?w (r_rnd_r demo_choices) (r_rnd_s demo_choices) = Some pf"
    using prover_vals.prove_val [OF pv _ _ shape _ refl w cs points, of "r_il demo_choices" "r_threads demo_choices" "r_rnd_r demo_choices" "r_rnd_s demo_choices" "r_uninit demo_choices"]
      fair_concat(1) by (auto simp: sel fft(2) z(3) demo_choices_def)
  then have "prove_in_place demo_engine demo_layout2 demo_choices ?M ob ?w = Some (Proof_toJson demo_layout2 pf)"
    by (simp add: prove_in_place_def ob(2,4))
  moreover have "getfilename ''key/c.zkey'' = ''c''" by (simp add: getfilename_def after_last_def before_last_def)
  then have "demo_server = Inr \<lparr>status = ready, pendingInput = '''', executingInput = '''', pendingCircuit = '''', executingCircuit = '''',
      provers = [''c'' \<mapsto> ob], fp_memory = ?M, witness_files = Map.empty,
      fp_proof = Json_null, pubData = Json_null, errString = '''', canceled = False\<rparr>"
    using ob(1) by (simp add: demo_server_def new_FullProver_def FileLoader_load_def)
  ultimately show ?thesis using ob(3) by blast
qed
lemma demo_env_ok: "env_ok demo_env"
  by (simp add: env_ok_def demo_env_def)

lemma demo_load:
  "o_header ob = zkey_header demo_contents \<Longrightarrow>
    load_witness mpz_ref demo_engine V (Some ob) (Some (wtns_file 32 bn128_r (length demo_wtns) (concat demo_wtns))) =
    Inr (map (fr_ofBytes demo_engine) demo_wtns)"
proof (rule load_witness_file [OF gmp_mpz.mpz_lib_axioms])
  show "length demo_wtns = unat (kf_nVars demo_contents)" "\<forall>s \<in> set demo_wtns. length s = 32" "kf_nPublic demo_contents < kf_nVars demo_contents"
    "fr_size demo_engine = 32"
    by (simp_all add: demo_wtns_def demo_contents_def demo_engine_def Let_def upt_3)
qed (use demo_wtns_length in simp_all)

text \<open>The server after one request, with its only thread at its start, and after the thread's end.\<close>

lemma demo_started:
  assumes "demo_server = Inr s"
  shows "status (sv (postInput ''{}'' ''c'' (new_server s))) = busy"
    "started_for (postInput ''{}'' ''c'' (new_server s)) = [(''{}'', ''c'')]"
    "reaches Z E Y V (new_server s) (postInput ''{}'' ''c'' (new_server s))"
    "\<not> dead (postInput ''{}'' ''c'' (new_server s))" "\<not> locked (postInput ''{}'' ''c'' (new_server s))"
proof -
  have s: "status s = ready" using demo_prover unfolding assms by auto
  then show "status (sv (postInput ''{}'' ''c'' (new_server s))) = busy"
    "started_for (postInput ''{}'' ''c'' (new_server s)) = [(''{}'', ''c'')]"
    "\<not> dead (postInput ''{}'' ''c'' (new_server s))" "\<not> locked (postInput ''{}'' ''c'' (new_server s))"
    by (simp_all add: new_server_def postInput_def startProve_def checkPending_def Let_def)
  show "reaches Z E Y V (new_server s) (postInput ''{}'' ''c'' (new_server s))"
    by (intro reaches_step [OF reaches_refl] step_input) (simp_all add: new_server_def)
qed

lemma demo_served:
  "\<exists>s ob p S. demo_server = Inr s \<and> provers s ''c'' = Some ob \<and> o_header ob = zkey_header demo_contents \<and>
    prove_in_place demo_engine demo_layout2 demo_choices (fp_memory s) ob (map (fr_ofBytes demo_engine) demo_wtns) = Some p \<and>
    reaches mpz_ref demo_engine demo_layout2 demo_env (new_server s) S \<and> \<not> dead S \<and> status (sv S) = success \<and>
    started_for S = [(''{}'', ''c'')] \<and>
    witness_files (sv S) ''c'' = Some (wtns_file 32 bn128_r (length demo_wtns) (concat demo_wtns))"
proof -
  let ?file = "wtns_file 32 bn128_r (length demo_wtns) (concat demo_wtns)"
  obtain ob p s where s: "demo_server = Inr s" "status s = ready" "provers s = [''c'' \<mapsto> ob]" "witness_files s = Map.empty"
    and ob: "o_header ob = zkey_header demo_contents"
      "prove_in_place demo_engine demo_layout2 demo_choices (fp_memory s) ob (map (fr_ofBytes demo_engine) demo_wtns) = Some p"
    using demo_prover by (metis FullProver.select_convs(1,6,7,8))
  let ?S = "new_server s"
  have i: "server_inv ?S" using new_server_inv(1) s(1) unfolding demo_server_def by blast
  have n: "\<not> dead ?S" "status (sv ?S) \<noteq> busy" "provers (sv ?S) ''c'' = Some ob" "fp_memory (sv ?S) = fp_memory s" "started_for ?S = []"
    by (simp_all add: new_server_def s)
  have e: "fe_parse demo_env ''{}'' = Some (Json_object [])"
    "[''c'' \<mapsto> ?file] = (case fe_run demo_env ''c'' (Json_object []) of None \<Rightarrow> witness_files (sv ?S) | Some file \<Rightarrow> (witness_files (sv ?S))(''c'' \<mapsto> file))"
    by (simp_all add: demo_env_def new_server_def s(4))
  have b: "''{}'' \<noteq> ''''" "''c'' \<noteq> ''''" by simp_all
  have l: "load_witness mpz_ref demo_engine demo_env (Some ob) ([''c'' \<mapsto> ?file] ''c'') = Inr (map (fr_ofBytes demo_engine) demo_wtns)"
    using demo_load [OF ob(1)] by simp
  obtain S' where "reaches mpz_ref demo_engine demo_layout2 demo_env ?S S'" "\<not> dead S'" "status (sv S') = success"
      "witness_files (sv S') = [''c'' \<mapsto> ?file]" "started_for S' = started_for ?S @ [(''{}'', ''c'')]"
    using thread_run [OF reaches_refl i n(1,2) demo_env_ok b e(1,2) n(3) l ob(2) [folded n(4)]] by blast
  then show ?thesis using s ob n(5) by (intro exI [of _ s] exI [of _ ob] exI [of _ p] exI [of _ S']) simp
qed

subsection \<open>The theorems at this server\<close>

theorem server_states_witness:
  "\<exists>s. demo_server = Inr s \<and> length (workers (postInput ''{}'' ''c'' (new_server s))) = 1"
proof -
  obtain s where s: "demo_server = Inr s" using demo_prover by blast
  show ?thesis
    using server_states [OF s [unfolded demo_server_def] demo_started(3) [OF s, of mpz_ref demo_engine demo_layout2 demo_env]]
    by (simp add: s demo_started(1) [OF s])
qed

theorem second_request_deadlocks_witness:
  "\<exists>s. demo_server = Inr s \<and> locked (postInput ''[]'' ''c'' (postInput ''{}'' ''c'' (new_server s)))"
proof -
  obtain s where s: "demo_server = Inr s" using demo_prover by blast
  show ?thesis
    using second_request_deadlocks [OF s [unfolded demo_server_def] demo_started(3) [OF s, of mpz_ref demo_engine demo_layout2 demo_env]
        demo_started(1) [OF s] reaches_refl] s by blast
qed

theorem started_proof_ends_witness:
  "\<exists>s S. demo_server = Inr s \<and> reaches mpz_ref demo_engine demo_layout2 demo_env (postInput ''{}'' ''c'' (new_server s)) S \<and>
    started_for S = [(''{}'', ''c'')] \<and> (dead S \<or> workers S = [])"
proof -
  obtain s where s: "demo_server = Inr s" using demo_prover by blast
  show ?thesis
    using started_proof_ends [OF s [unfolded demo_server_def] demo_started(3) [OF s, of mpz_ref demo_engine demo_layout2 demo_env]
        demo_started(4,5) [OF s]] s demo_started(2) [OF s] by (simp only:) blast
qed

theorem success_belongs_to_request_witness:
  "\<exists>s S p d. demo_server = Inr s \<and> reaches mpz_ref demo_engine demo_layout2 demo_env (new_server s) S \<and> started_for S = [(''{}'', ''c'')] \<and>
    getStatus (sv S) = Json_object [(''proof'', Json_string (json_dump p)), (''pubData'', Json_string (json_dump d)),
      (''status'', Json_string ''success'')]"
proof -
  obtain s S where s: "demo_server = Inr s" "reaches mpz_ref demo_engine demo_layout2 demo_env (new_server s) S" "\<not> dead S"
      "status (sv S) = success" "started_for S = [(''{}'', ''c'')]"
    using demo_served by blast
  from success_belongs_to_request [OF s(1) [unfolded demo_server_def] demo_env_ok s(2,3,4)] show ?thesis using s(1,2,5) by blast
qed

text \<open>The second request's witness program writes nothing, and the server reports the first one's proof again.\<close>

theorem request_is_served_witness:
  "\<exists>s S p d. demo_server = Inr s \<and> fe_run demo_env ''c'' Json_null = None \<and> fe_parse demo_env ''[]'' = Some Json_null \<and>
    reaches mpz_ref demo_engine demo_layout2 demo_env (new_server s) S \<and> started_for S = [(''{}'', ''c''), (''[]'', ''c'')] \<and>
    getStatus (sv S) = Json_object [(''proof'', Json_string (json_dump p)), (''pubData'', Json_string (json_dump d)),
      (''status'', Json_string ''success'')]"
proof -
  obtain s ob p S where s: "demo_server = Inr s" "provers s ''c'' = Some ob" "o_header ob = zkey_header demo_contents"
      "prove_in_place demo_engine demo_layout2 demo_choices (fp_memory s) ob (map (fr_ofBytes demo_engine) demo_wtns) = Some p"
    and S: "reaches mpz_ref demo_engine demo_layout2 demo_env (new_server s) S" "\<not> dead S" "status (sv S) = success" "started_for S = [(''{}'', ''c'')]"
      "witness_files (sv S) ''c'' = Some (wtns_file 32 bn128_r (length demo_wtns) (concat demo_wtns))"
    using demo_served by blast
  have e: "fe_parse demo_env ''[]'' = Some Json_null" "fe_run demo_env ''c'' Json_null = None" by (simp_all add: demo_env_def)
  have w: "Some (wtns_file 32 bn128_r (length demo_wtns) (concat demo_wtns)) =
      (case fe_run demo_env ''c'' Json_null of None \<Rightarrow> witness_files (sv S) ''c'' | Some file \<Rightarrow> Some file)"
    by (simp add: e(2) S(5))
  have b: "status (sv S) \<noteq> busy" "''[]'' \<noteq> ''''" "''c'' \<noteq> ''''" using S(3) by simp_all
  obtain S' d where S': "reaches mpz_ref demo_engine demo_layout2 demo_env S S'" "started_for S' = started_for S @ [(''[]'', ''c'')]"
      "getStatus (sv S') = Json_object [(''proof'', Json_string (json_dump p)), (''pubData'', Json_string (json_dump d)),
      (''status'', Json_string ''success'')]"
    using request_is_served [OF s(1) [unfolded demo_server_def] S(1,2) b(1) demo_env_ok b(2,3) e(1) w s(2) demo_load [OF s(3)] s(4)] by blast
  then show ?thesis using s(1) e reaches_trans [OF S(1) S'(1)] S(4)
    by (intro exI [of _ s] exI [of _ S'] exI [of _ p] exI [of _ d]) simp
qed
end
