(* ===== verification/FieldTower.thy ===== *)
theory FieldTower
  imports Complex_Main FftTables
begin

text \<open>
  The fields of the curves (\<open>ffiasm/c\<close>): the class \<open>RawFq\<close> as the base field, its quadratic
  extension \<open>F2Field\<close>, the cubic extension \<open>F6Field\<close> of that and the quadratic extension \<open>F12Field\<close>
  of that. The templates take the field below as a parameter; here it is a record of that field's
  operations. The locale \<open>base_field\<close> states what a field promises: its elements stand for values of
  a field, and the operations compute on the values. A class of the tower is proved to keep that
  promise for the elements \<open>a + b u\<close> over any field with a root \<open>u\<close> of its non-residue. Every
  operation but \<open>exp\<close> reads an element of its operands before it writes the same element of the
  result, or writes the result last, so that the result may be one of the operands.
\<close>

subsection \<open>The base field\<close>

record 'e base_ops =
  b_zero :: 'e
  b_one :: 'e
  b_negOne :: 'e
  b_add :: "'e \<Rightarrow> 'e \<Rightarrow> 'e"
  b_sub :: "'e \<Rightarrow> 'e \<Rightarrow> 'e"
  b_mul :: "'e \<Rightarrow> 'e \<Rightarrow> 'e"
  b_neg :: "'e \<Rightarrow> 'e"
  b_square :: "'e \<Rightarrow> 'e"
  b_inv :: "'e \<Rightarrow> 'e option"
  b_div :: "'e \<Rightarrow> 'e \<Rightarrow> 'e option"
  b_isZero :: "'e \<Rightarrow> bool"
  b_eq :: "'e \<Rightarrow> 'e \<Rightarrow> bool"
  b_toString :: "'e \<Rightarrow> string"
  b_fromString :: "string \<Rightarrow> 'e option"

text \<open>
  The class \<open>RawFq\<close> of \<open>build/fq.hpp\<close> is the class \<open>RawFr\<close> for the other prime: the same functions
  with other parameters. Its constants are those of its constructor.
\<close>

definition RawFq_ops :: "mpz_api \<Rightarrow> mpn_api \<Rightarrow> fr_params \<Rightarrow> fr_globals \<Rightarrow> limbs \<times> limbs \<times> limbs \<Rightarrow> limbs base_ops" where
  "RawFq_ops Z G P S field =
     (let (fZero, fOne, fNegOne) = field
      in \<lparr>b_zero = fZero, b_one = fOne, b_negOne = fNegOne,
          b_add = RawFr_add G P, b_sub = RawFr_sub G P, b_mul = RawFr_mul G P, b_neg = RawFr_neg G P,
          b_square = RawFr_square G P, b_inv = RawFr_inv Z G P S, b_div = RawFr_div Z G P S,
          b_isZero = \<lambda>a. RawFr_isZero G a \<noteq> 0, b_eq = RawFr_eq G,
          b_toString = RawFr_toString Z G P, b_fromString = \<lambda>s. RawFr_fromString Z G P S s 10\<rparr>)"

locale base_field =
  fixes F :: "'e base_ops" and ok :: "'e \<Rightarrow> bool" and val :: "'e \<Rightarrow> 'k::field"
  assumes zero [simp]: "ok (b_zero F)" "val (b_zero F) = 0"
    and one [simp]: "ok (b_one F)" "val (b_one F) = 1"
    and negOne [simp]: "ok (b_negOne F)" "val (b_negOne F) = - 1"
    and add [simp]: "ok a \<Longrightarrow> ok b \<Longrightarrow> ok (b_add F a b)" "ok a \<Longrightarrow> ok b \<Longrightarrow> val (b_add F a b) = val a + val b"
    and sub [simp]: "ok a \<Longrightarrow> ok b \<Longrightarrow> ok (b_sub F a b)" "ok a \<Longrightarrow> ok b \<Longrightarrow> val (b_sub F a b) = val a - val b"
    and mul [simp]: "ok a \<Longrightarrow> ok b \<Longrightarrow> ok (b_mul F a b)" "ok a \<Longrightarrow> ok b \<Longrightarrow> val (b_mul F a b) = val a * val b"
    and neg [simp]: "ok a \<Longrightarrow> ok (b_neg F a)" "ok a \<Longrightarrow> val (b_neg F a) = - val a"
    and square [simp]: "ok a \<Longrightarrow> ok (b_square F a)" "ok a \<Longrightarrow> val (b_square F a) = val a * val a"
    and inv: "ok a \<Longrightarrow> val a \<noteq> 0 \<Longrightarrow> \<exists>c. b_inv F a = Some c \<and> ok c \<and> val c = inverse (val a)"
    and div: "ok a \<Longrightarrow> ok b \<Longrightarrow> val b \<noteq> 0 \<Longrightarrow> \<exists>c. b_div F a b = Some c \<and> ok c \<and> val c = val a / val b"
    and isZero [simp]: "ok a \<Longrightarrow> b_isZero F a \<longleftrightarrow> val a = 0"
    and eq [simp]: "ok a \<Longrightarrow> ok b \<Longrightarrow> b_eq F a b \<longleftrightarrow> val a = val b"

text \<open>A field of the library with its own operations.\<close>

definition field_base :: "'k::field base_ops" where
  "field_base = \<lparr>b_zero = 0, b_one = 1, b_negOne = - 1, b_add = (+), b_sub = (-), b_mul = (*), b_neg = uminus,
     b_square = \<lambda>a. a * a, b_inv = \<lambda>a. Some (inverse a), b_div = \<lambda>a b. Some (a / b), b_isZero = \<lambda>a. a = 0, b_eq = (=),
     b_toString = \<lambda>_. '''', b_fromString = \<lambda>_. None\<rparr>"

lemma field_base: "base_field field_base (\<lambda>_. True) (\<lambda>a. a)"
  by unfold_locales (simp_all add: field_base_def)

text \<open>
  The elements of \<open>RawFq\<close> in any field whose characteristic is the prime: the value of an element is
  the image of its integer; \<open>Ri\<close> is the inverse of the Montgomery factor.
\<close>

definition Fq_ok :: "fr_params \<Rightarrow> limbs \<Rightarrow> bool" where
  "Fq_ok P e \<longleftrightarrow> length e = fr_n64 P \<and> lval e < qv P"

definition Fq_val :: "int \<Rightarrow> limbs \<Rightarrow> 'k::field" where
  "Fq_val Ri e = of_int (lval e * Ri)"

text \<open>Every number below a prime is coprime to it.\<close>

definition prime_modulus :: "int \<Rightarrow> bool" where
  "prime_modulus q \<longleftrightarrow> (\<forall>v. 0 < v \<and> v < q \<longrightarrow> coprime v q)"

lemma prime_coprime: "prime_modulus q \<Longrightarrow> 0 < q \<Longrightarrow> v mod q \<noteq> 0 \<Longrightarrow> coprime v q"
proof -
  assume p: "prime_modulus q" and q: "0 < q" and v: "v mod q \<noteq> 0"
  have "0 < v mod q" "v mod q < q" using v pos_mod_sign [OF q, of v] pos_mod_bound [OF q, of v] by linarith+
  then have "coprime (v mod q) q" using p unfolding prime_modulus_def by blast
  then show ?thesis using q by simp
qed

lemma of_int_mod:
  assumes "of_int q = (0 :: 'k::field)"
  shows "u mod q = v mod q \<Longrightarrow> of_int u = (of_int v :: 'k)"
proof -
  assume "u mod q = v mod q"
  then have "q dvd u - v" by (simp add: mod_eq_dvd_iff)
  then obtain c where "u - v = q * c" by (auto simp: dvd_def)
  then have "of_int u - of_int v = (of_int q * of_int c :: 'k)" by (metis of_int_diff of_int_mult)
  then show ?thesis using assms by simp
qed

lemma of_int_zero_iff:
  assumes c: "of_int q = (0 :: 'k::field)" and p: "prime_modulus q" and q: "0 < q"
  shows "of_int v = (0 :: 'k) \<longleftrightarrow> v mod q = 0"
proof
  assume v: "of_int v = (0 :: 'k)"
  show "v mod q = 0"
  proof (rule ccontr)
    assume "v mod q \<noteq> 0"
    then have "coprime v q" by (rule prime_coprime [OF p q])
    then obtain x y where "x * v + y * q = 1" using bezout_int [of v q] by (auto simp: coprime_iff_gcd_eq_1)
    then have "of_int (x * v + y * q) = (of_int 1 :: 'k)" by simp
    then show False using v c by simp
  qed
qed (use of_int_mod [OF c, of v 0] in simp)

text \<open>In characteristic \<open>q\<close> the power \<open>q\<close> is additive and fixes the integers.\<close>

lemma choose_prime:
  assumes "prime_modulus (int q)" "0 < k" "k < q"
  shows "q dvd (q choose k)"
proof -
  obtain j where k: "k = Suc j" using assms(2) by (cases k) auto
  obtain n where q: "q = Suc n" using assms(2,3) by (cases q) auto
  have "k * (q choose k) = q * (n choose j)" using Suc_times_binomial_eq [of n j] by (simp add: k q ac_simps)
  then have "q dvd k * (q choose k)" by simp
  moreover have "coprime q k" using assms unfolding prime_modulus_def by (metis coprime_commute coprime_int_iff of_nat_0_less_iff of_nat_less_iff)
  ultimately show ?thesis by (simp add: coprime_dvd_mult_right_iff)
qed

lemma power_sum_prime:
  fixes x y :: "'a::comm_ring_1"
  assumes "prime_modulus (int q)" "of_nat q = (0 :: 'a)" "0 < q"
  shows "(x + y) ^ q = x ^ q + y ^ q"
proof -
  have z: "of_nat (q choose k) * x ^ k * y ^ (q - k) = 0" if "k \<in> {..q} - {0, q}" for k
  proof -
    have "q dvd (q choose k)" using that by (intro choose_prime [OF assms(1)]) auto
    then obtain c where "q choose k = q * c" by (auto simp: dvd_def)
    then show ?thesis using assms(2) by simp
  qed
  have "(x + y) ^ q = (\<Sum>k \<le> q. of_nat (q choose k) * x ^ k * y ^ (q - k))" by (rule binomial_ring)
  also have "\<dots> = (\<Sum>k \<in> {0, q}. of_nat (q choose k) * x ^ k * y ^ (q - k))"
    using z by (intro sum.mono_neutral_right) auto
  finally show ?thesis using assms(3) by (simp add: add.commute)
qed

lemma of_int_fermat:
  assumes "prime_modulus (int q)" "of_nat q = (0 :: 'k::field)" "0 < q"
  shows "(of_int v :: 'k) ^ q = of_int v"
proof -
  have n: "(of_nat m :: 'k) ^ q = of_nat m" for m
    using power_sum_prime [OF assms] assms(3) by (induction m) (simp_all add: power_0_left)
  have "(of_int v :: 'k) = of_int (v mod int q)" using assms(2) by (intro of_int_mod [of "int q"]) simp_all
  also have "\<dots> = of_nat (nat (v mod int q))" using assms(3) by simp
  finally show ?thesis using n by simp
qed

text \<open>For a prime that is three modulo four a root of minus one is not a quotient of integers.\<close>

lemma minus_one_root:
  fixes u :: "'k::field"
  assumes "prime_modulus (int q)" "of_nat q = (0 :: 'k)" "q mod 4 = 3" "(1 :: 'k) \<noteq> - 1" "u * u = - 1"
  shows "of_int a + of_int b * u = 0 \<Longrightarrow> of_int a = (0 :: 'k) \<and> of_int b = (0 :: 'k)"
proof -
  assume z: "of_int a + of_int b * u = 0"
  have q0: "0 < q" using assms(3) by (cases q) simp_all
  have 3: "q = 2 * (2 * (q div 4) + 1) + 1" using assms(3) mult_div_mod_eq [of 4 q] by simp
  have "u ^ q = (u * u) ^ (2 * (q div 4) + 1) * u" by (subst 3) (simp only: power_add power_mult power2_eq_square power_one_right)
  then have uq: "u ^ q = - u" unfolding assms(5) by simp
  have u0: "u \<noteq> 0" using assms(5) by auto
  have "(of_int a + of_int b * u) ^ q = of_int a ^ q + of_int b ^ q * u ^ q"
    unfolding power_sum_prime [OF assms(1,2) q0] power_mult_distrib ..
  then have m: "of_int a - of_int b * u = 0" unfolding z zero_power [OF q0] of_int_fermat [OF assms(1,2) q0] uq by simp
  have two: "(2 :: 'k) \<noteq> 0"
  proof
    assume "(2 :: 'k) = 0"
    then have "1 + 1 = (0 :: 'k)" by (simp only: one_add_one)
    then show False using assms(4) by (simp only: eq_neg_iff_add_eq_0 simp_thms)
  qed
  have "2 * (of_int b * u) = 0" using z m by (simp add: algebra_simps)
  then have b: "of_int b = (0 :: 'k)" using two u0 by simp
  then show ?thesis using z by simp
qed

context fr_mpz
begin

lemma RawFq_base_field:
  assumes n: "new_RawFr Z G P S = Some field" and R: "(Rv P * Ri) mod qv P = 1 mod qv P" and p: "prime_modulus (qv P)"
    and c: "of_int (qv P) = (0 :: 'k::field)"
  shows "base_field (RawFq_ops Z G P S field) (Fq_ok P) (Fq_val Ri :: limbs \<Rightarrow> 'k)"
proof -
  let ?F = "RawFq_ops Z G P S field" and ?val = "Fq_val Ri :: limbs \<Rightarrow> 'k"
  obtain z e n where field: "field = (z, e, n)" "fe P z 0" "fe P e 1" "fe P n (- 1)" using fe_new n by auto
  have ok: "fe P a (lval a * Ri)" if "Fq_ok P a" for a
  proof -
    have "lval a * Ri * Rv P mod qv P = (lval a * ((Rv P * Ri) mod qv P)) mod qv P" by (simp only: mod_mult_right_eq) (simp only: ac_simps)
    also have "\<dots> = lval a" using that R lval_nonneg [of a] by (simp add: Fq_ok_def mod_mult_right_eq)
    finally show ?thesis using that by (simp add: fe_def reduced_def Fq_ok_def)
  qed
  have v: "Fq_ok P a \<and> ?val a = of_int w" if "fe P a w" for a w
  proof -
    have o: "Fq_ok P a" using that q_pos by (simp add: fe_def reduced_def Fq_ok_def)
    have "w mod qv P = (lval a * Ri) mod qv P" using fe_cong_iff [OF that] ok [OF o] by blast
    then show ?thesis using o of_int_mod [OF c, of w "lval a * Ri"] by (simp add: Fq_val_def)
  qed
  have val: "?val a = of_int (lval a * Ri)" for a by (simp add: Fq_val_def)
  have cop: "coprime (lval a * Ri) (qv P)" if "Fq_ok P a" "?val a \<noteq> 0" for a
  proof -
    have "(lval a * Ri) mod qv P \<noteq> 0" using that(2) of_int_zero_iff [OF c p q_pos] val by metis
    then show ?thesis by (rule prime_coprime [OF p q_pos])
  qed
  have frac: "of_int w = of_int u / (of_int v :: 'k)" if "(w * v) mod qv P = u mod qv P" "of_int v \<noteq> (0 :: 'k)" for u v w
  proof -
    have "of_int (w * v) = (of_int u :: 'k)" by (rule of_int_mod [OF c that(1)])
    then show ?thesis using that(2) by (simp add: field_simps)
  qed
  show ?thesis
  proof
    show "Fq_ok P (b_zero ?F)" "?val (b_zero ?F) = 0" "Fq_ok P (b_one ?F)" "?val (b_one ?F) = 1" "Fq_ok P (b_negOne ?F)" "?val (b_negOne ?F) = - 1"
      using v [OF field(2)] v [OF field(3)] v [OF field(4)] by (simp_all add: RawFq_ops_def field(1))
  next
    fix a b assume o: "Fq_ok P a" "Fq_ok P b"
    note f = ok [OF o(1)] ok [OF o(2)]
    show "Fq_ok P (b_add ?F a b)" "?val (b_add ?F a b) = ?val a + ?val b" "Fq_ok P (b_sub ?F a b)" "?val (b_sub ?F a b) = ?val a - ?val b"
      "Fq_ok P (b_mul ?F a b)" "?val (b_mul ?F a b) = ?val a * ?val b"
      using v [OF fe_add [OF f]] v [OF fe_sub [OF f]] v [OF fe_mul [OF f]] by (simp_all add: RawFq_ops_def field(1) val)
    show "b_eq ?F a b \<longleftrightarrow> ?val a = ?val b"
    proof -
      have "?val a = ?val b \<longleftrightarrow> of_int (lval a * Ri - lval b * Ri) = (0 :: 'k)" by (simp add: val)
      also have "\<dots> \<longleftrightarrow> (lval a * Ri) mod qv P = (lval b * Ri) mod qv P"
        unfolding of_int_zero_iff [OF c p q_pos] by (simp add: mod_eq_dvd_iff dvd_eq_mod_eq_0)
      finally show ?thesis using fe_eq [OF f] by (simp add: RawFq_ops_def field(1))
    qed
    assume nz: "?val b \<noteq> 0"
    then have nz': "of_int (lval b * Ri) \<noteq> (0 :: 'k)" by (simp only: val not_False_eq_True)
    obtain x w where x: "RawFr_div Z G P S a b = Some x" "fe P x w" "(w * (lval b * Ri)) mod qv P = (lval a * Ri) mod qv P"
      using fe_div [OF f cop [OF o(2) nz]] by blast
    show "\<exists>x. b_div ?F a b = Some x \<and> Fq_ok P x \<and> ?val x = ?val a / ?val b"
      using x(1) v [OF x(2)] frac [OF x(3) nz'] by (simp add: RawFq_ops_def field(1) val)
  next
    fix a assume o: "Fq_ok P a"
    note f = ok [OF o]
    show "Fq_ok P (b_neg ?F a)" "?val (b_neg ?F a) = - ?val a" "Fq_ok P (b_square ?F a)" "?val (b_square ?F a) = ?val a * ?val a"
      using v [OF fe_neg [OF f]] v [OF fe_square [OF f]] by (simp_all add: RawFq_ops_def field(1) val)
    show "b_isZero ?F a \<longleftrightarrow> ?val a = 0"
    proof -
      have "?val a = 0 \<longleftrightarrow> (lval a * Ri) mod qv P = 0" unfolding val by (rule of_int_zero_iff [OF c p q_pos])
      also have "\<dots> \<longleftrightarrow> (lval a * Ri * Rv P) mod qv P = 0"
        using coprime_R by (simp add: mod_eq_0_iff_dvd coprime_dvd_mult_left_iff)
      also have "\<dots> \<longleftrightarrow> lval a = 0" using f by (simp add: fe_def reduced_def)
      finally show ?thesis by (simp add: RawFq_ops_def field(1) RawFr_isZero_def rawIsZero_val)
    qed
    assume nz: "?val a \<noteq> 0"
    then have nz': "of_int (lval a * Ri) \<noteq> (0 :: 'k)" by (simp only: val not_False_eq_True)
    obtain x w where x: "RawFr_inv Z G P S a = Some x" "fe P x w" "(w * (lval a * Ri)) mod qv P = 1"
      using fe_inv [OF f cop [OF o nz]] by blast
    then have w: "(w * (lval a * Ri)) mod qv P = 1 mod qv P" by (metis mod_mod_trivial)
    show "\<exists>x. b_inv ?F a = Some x \<and> Fq_ok P x \<and> ?val x = inverse (?val a)"
      using x(1) v [OF x(2)] frac [OF w nz'] by (simp add: RawFq_ops_def field(1) val inverse_eq_divide)
  qed
qed

end

subsection \<open>The quadratic extension\<close>

datatype type_of_nr = nr_is_zero | nr_is_one | nr_is_negone | nr_is_long

record 'e F2 =
  f2a :: 'e
  f2b :: 'e

record 'e F2Field =
  F2_F :: "'e base_ops"
  F2_nr :: 'e
  F2_typeOfNr :: type_of_nr
  F2_one :: "'e F2"
  F2_zero :: "'e F2"
  F2_negOne :: "'e F2"

definition new_F2Field :: "'e base_ops \<Rightarrow> 'e \<Rightarrow> 'e F2Field" where
  "new_F2Field F anr =
     \<lparr>F2_F = F, F2_nr = anr,
      F2_typeOfNr = (if b_isZero F anr then nr_is_zero
                     else if b_eq F anr (b_one F) then nr_is_one
                     else if b_eq F anr (b_negOne F) then nr_is_negone
                     else nr_is_long),
      F2_one = \<lparr>f2a = b_one F, f2b = b_zero F\<rparr>, F2_zero = \<lparr>f2a = b_zero F, f2b = b_zero F\<rparr>,
      F2_negOne = \<lparr>f2a = b_negOne F, f2b = b_zero F\<rparr>\<rparr>"

definition F2_mulByNr :: "'e F2Field \<Rightarrow> 'e \<Rightarrow> 'e" where
  "F2_mulByNr K a =
     (case F2_typeOfNr K of
        nr_is_zero \<Rightarrow> b_zero (F2_F K)
      | nr_is_one \<Rightarrow> a
      | nr_is_negone \<Rightarrow> b_neg (F2_F K) a
      | nr_is_long \<Rightarrow> b_mul (F2_F K) (F2_nr K) a)"

definition F2_add :: "'e F2Field \<Rightarrow> 'e F2 \<Rightarrow> 'e F2 \<Rightarrow> 'e F2" where
  "F2_add K a b = (let F = F2_F K in \<lparr>f2a = b_add F (f2a a) (f2a b), f2b = b_add F (f2b a) (f2b b)\<rparr>)"

definition F2_sub :: "'e F2Field \<Rightarrow> 'e F2 \<Rightarrow> 'e F2 \<Rightarrow> 'e F2" where
  "F2_sub K a b = (let F = F2_F K in \<lparr>f2a = b_sub F (f2a a) (f2a b), f2b = b_sub F (f2b a) (f2b b)\<rparr>)"

definition F2_neg :: "'e F2Field \<Rightarrow> 'e F2 \<Rightarrow> 'e F2" where
  "F2_neg K a = (let F = F2_F K in \<lparr>f2a = b_neg F (f2a a), f2b = b_neg F (f2b a)\<rparr>)"

definition F2_conjugate :: "'e F2Field \<Rightarrow> 'e F2 \<Rightarrow> 'e F2" where
  "F2_conjugate K a = (let F = F2_F K in \<lparr>f2a = f2a a, f2b = b_neg F (f2b a)\<rparr>)"

definition F2_mul :: "'e F2Field \<Rightarrow> 'e F2 \<Rightarrow> 'e F2 \<Rightarrow> 'e F2" where
  "F2_mul K e1 e2 =
     (let F = F2_F K;
          aa = b_mul F (f2a e1) (f2a e2);
          bb = b_mul F (f2b e1) (f2b e2);
          bbr = F2_mulByNr K bb;
          sum1 = b_add F (f2a e1) (f2b e1);
          sum2 = b_add F (f2a e2) (f2b e2);
          ra = b_add F aa bbr;
          rb = b_mul F sum1 sum2;
          rb = b_sub F rb aa;
          rb = b_sub F rb bb
      in \<lparr>f2a = ra, f2b = rb\<rparr>)"

definition F2_mulScalar :: "'e F2Field \<Rightarrow> 'e F2 \<Rightarrow> 'e \<Rightarrow> 'e F2" where
  "F2_mulScalar K a b = (let F = F2_F K in \<lparr>f2a = b_mul F (f2a a) b, f2b = b_mul F (f2b a) b\<rparr>)"

definition F2_dbl :: "'e F2Field \<Rightarrow> 'e F2 \<Rightarrow> 'e F2" where
  "F2_dbl K a = (let F = F2_F K in \<lparr>f2a = b_add F (f2a a) (f2a a), f2b = b_add F (f2b a) (f2b a)\<rparr>)"

definition F2_mulXi :: "'e F2Field \<Rightarrow> 'e F2 \<Rightarrow> 'e F2" where
  "F2_mulXi K a =
     (let F = F2_F K;
          t = F2_dbl K a;
          t = F2_dbl K t;
          t = F2_dbl K t;
          t = F2_add K t a;
          t = t\<lparr>f2b := b_add F (f2b t) (f2a a)\<rparr>;
          t = t\<lparr>f2a := b_sub F (f2a t) (f2b a)\<rparr>
      in t)"

definition F2_square :: "'e F2Field \<Rightarrow> 'e F2 \<Rightarrow> 'e F2" where
  "F2_square K e1 =
     (let F = F2_F K
      in if F2_typeOfNr K = nr_is_negone
         then let ab = b_mul F (f2a e1) (f2b e1);
                  tmp1 = b_add F (f2a e1) (f2b e1);
                  tmp2 = b_sub F (f2a e1) (f2b e1)
              in \<lparr>f2a = b_mul F tmp1 tmp2, f2b = b_add F ab ab\<rparr>
         else let ab = b_mul F (f2a e1) (f2b e1);
                  tmp1 = b_add F (f2a e1) (f2b e1);
                  tmp2 = F2_mulByNr K (f2b e1);
                  tmp2 = b_add F (f2a e1) tmp1;
                  tmp1 = b_mul F tmp1 tmp2;
                  tmp2 = F2_mulByNr K ab;
                  tmp2 = b_add F ab tmp2
              in \<lparr>f2a = b_sub F tmp1 tmp2, f2b = b_add F ab ab\<rparr>)"

definition F2_inv :: "'e F2Field \<Rightarrow> 'e F2 \<Rightarrow> 'e F2 option" where
  "F2_inv K e1 =
     (let F = F2_F K;
          t0 = b_square F (f2a e1);
          t1 = b_square F (f2b e1);
          t2 = F2_mulByNr K t1;
          t2 = b_sub F t0 t2
      in case b_inv F t2 of
           None \<Rightarrow> None
         | Some t3 \<Rightarrow>
             let ra = b_mul F (f2a e1) t3;
                 rb = b_mul F (f2b e1) t3;
                 rb = b_neg F rb
             in Some \<lparr>f2a = ra, f2b = rb\<rparr>)"

definition F2_div :: "'e F2Field \<Rightarrow> 'e F2 \<Rightarrow> 'e F2 \<Rightarrow> 'e F2 option" where
  "F2_div K e1 e2 = map_option (F2_mul K e1) (F2_inv K e2)"

definition F2_isZero :: "'e F2Field \<Rightarrow> 'e F2 \<Rightarrow> bool" where
  "F2_isZero K a \<longleftrightarrow> b_isZero (F2_F K) (f2a a) \<and> b_isZero (F2_F K) (f2b a)"

definition F2_isOne :: "'e F2Field \<Rightarrow> 'e F2 \<Rightarrow> bool" where
  "F2_isOne K a \<longleftrightarrow> b_eq (F2_F K) (f2a a) (b_one (F2_F K)) \<and> b_isZero (F2_F K) (f2b a)"

definition F2_eq :: "'e F2Field \<Rightarrow> 'e F2 \<Rightarrow> 'e F2 \<Rightarrow> bool" where
  "F2_eq K a b \<longleftrightarrow> b_eq (F2_F K) (f2a a) (f2a b) \<and> b_eq (F2_F K) (f2b a) (f2b b)"

text \<open>The values of the elements, for a root \<open>u\<close> of the non-residue.\<close>

definition F2_ok :: "('e \<Rightarrow> bool) \<Rightarrow> 'e F2 \<Rightarrow> bool" where
  "F2_ok ok e \<longleftrightarrow> ok (f2a e) \<and> ok (f2b e)"

definition F2_val :: "('e \<Rightarrow> 'k::field) \<Rightarrow> 'k \<Rightarrow> 'e F2 \<Rightarrow> 'k" where
  "F2_val val u e = val (f2a e) + val (f2b e) * u"

text \<open>\<open>u\<close> is not a quotient of values of the base field.\<close>

definition independent :: "('e \<Rightarrow> bool) \<Rightarrow> ('e \<Rightarrow> 'k::field) \<Rightarrow> 'k \<Rightarrow> bool" where
  "independent ok val u \<longleftrightarrow> (\<forall>a b. ok a \<longrightarrow> ok b \<longrightarrow> val a + val b * u = 0 \<longrightarrow> val a = 0 \<and> val b = 0)"

text \<open>It is none for \<open>RawFq\<close> when its prime is three modulo four, as that of bn128 is, and \<open>u^2 = -1\<close>.\<close>

lemma RawFq_independent:
  fixes u :: "'k::field"
  assumes "prime_modulus (qv P)" "0 < qv P" "qv P mod 4 = 3" "of_int (qv P) = (0 :: 'k)" "(1 :: 'k) \<noteq> - 1" "u * u = - 1"
  shows "independent (Fq_ok P) (Fq_val Ri) u"
proof -
  let ?q = "nat (qv P)"
  have q: "int ?q = qv P" using assms(2) by simp
  then have p: "prime_modulus (int ?q)" using assms(1) by simp
  have c: "of_nat ?q = (0 :: 'k)" using q assms(4) by (metis of_int_of_nat_eq)
  have "int (?q mod 4) = 3" using assms(3) unfolding zmod_int q by simp
  then have m: "?q mod 4 = 3" by linarith
  show ?thesis
    unfolding independent_def Fq_val_def
    by (intro allI impI) (rule minus_one_root [OF p c m assms(5,6)])
qed

locale f2_field = base_field F ok val for F :: "'e base_ops" and ok and val :: "'e \<Rightarrow> 'k::field" +
  fixes nr :: 'e and u :: 'k
  assumes nr: "ok nr" "u * u = val nr"
begin

abbreviation K2 :: "'e F2Field" where
  "K2 \<equiv> new_F2Field F nr"

abbreviation ok2 :: "'e F2 \<Rightarrow> bool" where
  "ok2 \<equiv> F2_ok ok"

abbreviation val2 :: "'e F2 \<Rightarrow> 'k" where
  "val2 \<equiv> F2_val val u"

lemma K2 [simp]: "F2_F K2 = F" "F2_nr K2 = nr"
  by (simp_all add: new_F2Field_def)

lemma mulByNr [simp]: "ok a \<Longrightarrow> ok (F2_mulByNr K2 a)" "ok a \<Longrightarrow> val (F2_mulByNr K2 a) = val nr * val a"
  using nr(1) by (auto simp: F2_mulByNr_def new_F2Field_def split: if_splits)

lemma root: "x * u * u = x * val nr" "u * (u * x) = x * val nr" "u * u = val nr" "u * (x * u) = x * val nr"
  using nr(2) by (simp_all add: ac_simps)

lemma consts2 [simp]:
  "ok2 (F2_zero K2)" "val2 (F2_zero K2) = 0" "ok2 (F2_one K2)" "val2 (F2_one K2) = 1" "ok2 (F2_negOne K2)" "val2 (F2_negOne K2) = - 1"
  by (simp_all add: new_F2Field_def F2_ok_def F2_val_def)

lemma linear2 [simp]:
  "ok2 a \<Longrightarrow> ok2 b \<Longrightarrow> ok2 (F2_add K2 a b)" "ok2 a \<Longrightarrow> ok2 b \<Longrightarrow> val2 (F2_add K2 a b) = val2 a + val2 b"
  "ok2 a \<Longrightarrow> ok2 b \<Longrightarrow> ok2 (F2_sub K2 a b)" "ok2 a \<Longrightarrow> ok2 b \<Longrightarrow> val2 (F2_sub K2 a b) = val2 a - val2 b"
  "ok2 a \<Longrightarrow> ok2 (F2_neg K2 a)" "ok2 a \<Longrightarrow> val2 (F2_neg K2 a) = - val2 a"
  "ok2 a \<Longrightarrow> ok2 (F2_dbl K2 a)" "ok2 a \<Longrightarrow> val2 (F2_dbl K2 a) = 2 * val2 a"
  "ok2 a \<Longrightarrow> ok2 (F2_conjugate K2 a)" "ok2 a \<Longrightarrow> val2 (F2_conjugate K2 a) = val (f2a a) - val (f2b a) * u"
  "ok2 a \<Longrightarrow> ok c \<Longrightarrow> ok2 (F2_mulScalar K2 a c)" "ok2 a \<Longrightarrow> ok c \<Longrightarrow> val2 (F2_mulScalar K2 a c) = val2 a * val c"
  by (simp_all add: F2_add_def F2_sub_def F2_neg_def F2_dbl_def F2_conjugate_def F2_mulScalar_def F2_ok_def F2_val_def Let_def algebra_simps)

lemma mul2 [simp]:
  "ok2 a \<Longrightarrow> ok2 b \<Longrightarrow> ok2 (F2_mul K2 a b)" "ok2 a \<Longrightarrow> ok2 b \<Longrightarrow> val2 (F2_mul K2 a b) = val2 a * val2 b"
  by (simp_all add: F2_mul_def F2_ok_def F2_val_def Let_def algebra_simps root)

lemma eq2: "ok2 a \<Longrightarrow> ok2 b \<Longrightarrow> F2_eq K2 a b \<longleftrightarrow> val (f2a a) = val (f2a b) \<and> val (f2b a) = val (f2b b)"
  by (simp add: F2_eq_def F2_ok_def)

lemma isZero2: "ok2 a \<Longrightarrow> F2_isZero K2 a \<longleftrightarrow> val (f2a a) = 0 \<and> val (f2b a) = 0"
  by (simp add: F2_isZero_def F2_ok_def)

lemma square2_ok [simp]: "ok2 a \<Longrightarrow> ok2 (F2_square K2 a)"
  by (simp add: F2_square_def F2_ok_def Let_def)

lemma square2:
  assumes "ok2 a" "val nr = - 1" "(1 :: 'k) \<noteq> - 1"
  shows "val2 (F2_square K2 a) = val2 a * val2 a"
proof -
  have "F2_typeOfNr K2 = nr_is_negone" using assms(2,3) nr(1) by (simp add: new_F2Field_def)
  then show ?thesis using assms(1) by (simp add: F2_square_def F2_ok_def F2_val_def Let_def algebra_simps root assms(2))
qed

text \<open>For every other non-residue the first coordinate of the square uses \<open>a + b\<close> for \<open>nr b\<close>.\<close>

lemma square2_other:
  assumes "ok2 a" "val nr \<noteq> - 1"
  shows "val2 (F2_square K2 a) = val2 a * val2 a + (val (f2a a) + val (f2b a)) * (val (f2a a) + val (f2b a) - val nr * val (f2b a))"
proof -
  have "F2_typeOfNr K2 \<noteq> nr_is_negone" using assms(2) nr(1) by (simp add: new_F2Field_def)
  then show ?thesis using assms(1) by (simp add: F2_square_def F2_ok_def F2_val_def Let_def algebra_simps root)
qed

lemma mulXi2 [simp]:
  "ok2 a \<Longrightarrow> ok2 (F2_mulXi K2 a)" "ok2 a \<Longrightarrow> val nr = - 1 \<Longrightarrow> val2 (F2_mulXi K2 a) = (9 + u) * val2 a"
  by (simp_all add: F2_mulXi_def F2_dbl_def F2_add_def F2_ok_def F2_val_def Let_def algebra_simps root)

lemma inv2:
  assumes "ok2 a" "val (f2a a) * val (f2a a) \<noteq> val nr * (val (f2b a) * val (f2b a))"
  shows "\<exists>c. F2_inv K2 a = Some c \<and> ok2 c \<and> val2 c * val2 a = 1"
proof -
  let ?n = "b_sub F (b_square F (f2a a)) (F2_mulByNr K2 (b_square F (f2b a)))"
  let ?m = "val (f2a a) * val (f2a a) - val nr * (val (f2b a) * val (f2b a))"
  have o: "ok (f2a a)" "ok (f2b a)" using assms(1) by (simp_all add: F2_ok_def)
  have n: "ok ?n" "val ?n = ?m" "?m \<noteq> 0" using o assms(2) by simp_all
  obtain t where t: "b_inv F ?n = Some t" "ok t" "val t = inverse ?m" using inv [OF n(1)] n by auto
  let ?c = "\<lparr>f2a = b_mul F (f2a a) t, f2b = b_neg F (b_mul F (f2b a) t)\<rparr>"
  have "val2 ?c * val2 a = ?m * inverse ?m"
    using o t(2,3) by (simp add: F2_val_def algebra_simps root)
  then show ?thesis using o t n(3) by (intro exI [of _ ?c]) (simp add: F2_inv_def Let_def F2_ok_def)
qed

lemma div2:
  assumes "ok2 a" "ok2 b" "val (f2a b) * val (f2a b) \<noteq> val nr * (val (f2b b) * val (f2b b))"
  shows "\<exists>c. F2_div K2 a b = Some c \<and> ok2 c \<and> val2 c * val2 b = val2 a"
proof -
  obtain c where c: "F2_inv K2 b = Some c" "ok2 c" "val2 c * val2 b = 1" using inv2 [OF assms(2,3)] by blast
  then show ?thesis using assms(1) by (simp add: F2_div_def mult.assoc)
qed

end

text \<open>The quadratic extension is a field of the same kind when \<open>u\<close> is not a quotient of values.\<close>

definition F2_base :: "'e F2Field \<Rightarrow> ('e F2 \<Rightarrow> string) \<Rightarrow> (string \<Rightarrow> 'e F2 option) \<Rightarrow> 'e F2 base_ops" where
  "F2_base K to_str from_str =
     \<lparr>b_zero = F2_zero K, b_one = F2_one K, b_negOne = F2_negOne K, b_add = F2_add K, b_sub = F2_sub K, b_mul = F2_mul K,
      b_neg = F2_neg K, b_square = F2_square K, b_inv = F2_inv K, b_div = F2_div K, b_isZero = F2_isZero K, b_eq = F2_eq K,
      b_toString = to_str, b_fromString = from_str\<rparr>"

context f2_field
begin

lemma F2_base_field:
  assumes nr': "val nr = - 1" "(1 :: 'k) \<noteq> - 1"
    and indep: "\<And>a b. ok a \<Longrightarrow> ok b \<Longrightarrow> val a + val b * u = 0 \<Longrightarrow> val a = 0 \<and> val b = 0"
  shows "base_field (F2_base K2 ts fs) ok2 val2"
proof -
  have i: "val x = val y \<and> val x' = val y' \<longleftrightarrow> val x + val x' * u = val y + val y' * u" if "ok x" "ok y" "ok x'" "ok y'" for x x' y y'
    using indep [of "b_sub F x y" "b_sub F x' y'"] that by (auto simp: algebra_simps)
  have z: "val2 a = 0 \<longleftrightarrow> val (f2a a) = 0 \<and> val (f2b a) = 0" if "ok2 a" for a
    using i [of "f2a a" "b_zero F" "f2b a" "b_zero F"] that by (simp add: F2_ok_def F2_val_def)
  have n: "val (f2a a) * val (f2a a) \<noteq> val nr * (val (f2b a) * val (f2b a))" if "ok2 a" "val2 a \<noteq> 0" for a
  proof
    assume e: "val (f2a a) * val (f2a a) = val nr * (val (f2b a) * val (f2b a))"
    have "val2 (F2_conjugate K2 a) * val2 a = 0"
      unfolding linear2(10) [OF that(1)] unfolding F2_val_def using e by (simp add: algebra_simps root del: mult_eq_0_iff)
    then have "val2 (F2_conjugate K2 a) = 0" using that(2) by simp
    then have "val (f2a a) = 0 \<and> - val (f2b a) = 0"
      using that(1) z [of "F2_conjugate K2 a"] by (simp add: F2_conjugate_def F2_ok_def)
    then show False using that by (simp add: F2_val_def)
  qed
  show ?thesis
  proof
    fix a b assume a: "ok2 a" "ok2 b"
    show "b_eq (F2_base K2 ts fs) a b \<longleftrightarrow> val2 a = val2 b"
      using a i [of "f2a a" "f2a b" "f2b a" "f2b b"] by (simp add: F2_base_def eq2 F2_val_def F2_ok_def)
    assume b: "val2 b \<noteq> 0"
    obtain c where "F2_div K2 a b = Some c" "ok2 c" "val2 c * val2 b = val2 a" using div2 [OF a n [OF a(2) b]] by blast
    then show "\<exists>c. b_div (F2_base K2 ts fs) a b = Some c \<and> ok2 c \<and> val2 c = val2 a / val2 b"
      by (intro exI [of _ c]) (simp add: F2_base_def nonzero_eq_divide_eq [OF b])
  next
    fix a assume a: "ok2 a"
    show "b_isZero (F2_base K2 ts fs) a \<longleftrightarrow> val2 a = 0" using a z by (simp add: F2_base_def isZero2)
    assume b: "val2 a \<noteq> 0"
    obtain c where "F2_inv K2 a = Some c" "ok2 c" "val2 c * val2 a = 1" using inv2 [OF a n [OF a b]] by blast
    then show "\<exists>c. b_inv (F2_base K2 ts fs) a = Some c \<and> ok2 c \<and> val2 c = inverse (val2 a)"
      by (intro exI [of _ c]) (simp add: F2_base_def inverse_eq_divide nonzero_eq_divide_eq [OF b])
  qed (simp_all add: F2_base_def square2 [OF _ nr'])
qed

end

subsection \<open>The cubic extension\<close>

record 'e F6 =
  f6x :: "'e F2"
  f6y :: "'e F2"
  f6z :: "'e F2"

record 'e F6Field =
  F6_F :: "'e F2Field"
  F6_one :: "'e F6"
  F6_zero :: "'e F6"
  F6_negOne :: "'e F6"
  xiTo2PMinus2Over3 :: "'e F2"
  xiToPMinus1Over3 :: "'e F2"
  xiTo2PSquaredMinus2Over3 :: 'e
  xiToPSquaredMinus1Over3 :: 'e

definition F6_initField :: "'e F2Field \<Rightarrow> 'e F2 \<Rightarrow> 'e F2 \<Rightarrow> 'e \<Rightarrow> 'e \<Rightarrow> 'e F6Field" where
  "F6_initField F c1 c2 c3 c4 =
     \<lparr>F6_F = F, F6_one = \<lparr>f6x = F2_zero F, f6y = F2_zero F, f6z = F2_one F\<rparr>,
      F6_zero = \<lparr>f6x = F2_zero F, f6y = F2_zero F, f6z = F2_zero F\<rparr>,
      F6_negOne = \<lparr>f6x = F2_zero F, f6y = F2_zero F, f6z = F2_negOne F\<rparr>,
      xiTo2PMinus2Over3 = c1, xiToPMinus1Over3 = c2, xiTo2PSquaredMinus2Over3 = c3, xiToPSquaredMinus1Over3 = c4\<rparr>"

definition F6_add :: "'e F6Field \<Rightarrow> 'e F6 \<Rightarrow> 'e F6 \<Rightarrow> 'e F6" where
  "F6_add K a b = (let F = F6_F K in \<lparr>f6x = F2_add F (f6x a) (f6x b), f6y = F2_add F (f6y a) (f6y b), f6z = F2_add F (f6z a) (f6z b)\<rparr>)"

definition F6_sub :: "'e F6Field \<Rightarrow> 'e F6 \<Rightarrow> 'e F6 \<Rightarrow> 'e F6" where
  "F6_sub K a b = (let F = F6_F K in \<lparr>f6x = F2_sub F (f6x a) (f6x b), f6y = F2_sub F (f6y a) (f6y b), f6z = F2_sub F (f6z a) (f6z b)\<rparr>)"

definition F6_neg :: "'e F6Field \<Rightarrow> 'e F6 \<Rightarrow> 'e F6" where
  "F6_neg K a = (let F = F6_F K in \<lparr>f6x = F2_neg F (f6x a), f6y = F2_neg F (f6y a), f6z = F2_neg F (f6z a)\<rparr>)"

definition F6_mul :: "'e F6Field \<Rightarrow> 'e F6 \<Rightarrow> 'e F6 \<Rightarrow> 'e F6" where
  "F6_mul K a b =
     (let F = F6_F K;
          v0 = F2_mul F (f6z a) (f6z b);
          v1 = F2_mul F (f6y a) (f6y b);
          v2 = F2_mul F (f6x a) (f6x b);
          t0 = F2_add F (f6x a) (f6y a);
          t1 = F2_add F (f6x b) (f6y b);
          tz = F2_mul F t0 t1;
          tz = F2_sub F tz v1;
          tz = F2_sub F tz v2;
          tz = F2_mulXi F tz;
          tz = F2_add F tz v0;
          t0 = F2_add F (f6y a) (f6z a);
          t1 = F2_add F (f6y b) (f6z b);
          ty = F2_mul F t0 t1;
          ty = F2_sub F ty v0;
          ty = F2_sub F ty v1;
          t0 = F2_mulXi F v2;
          ty = F2_add F ty t0;
          t0 = F2_add F (f6x a) (f6z a);
          t1 = F2_add F (f6x b) (f6z b);
          tx = F2_mul F t0 t1;
          tx = F2_sub F tx v0;
          tx = F2_add F tx v1;
          tx = F2_sub F tx v2
      in \<lparr>f6x = tx, f6y = ty, f6z = tz\<rparr>)"

definition F6_mulScalar :: "'e F6Field \<Rightarrow> 'e F6 \<Rightarrow> 'e F2 \<Rightarrow> 'e F6" where
  "F6_mulScalar K a b = (let F = F6_F K in \<lparr>f6x = F2_mul F (f6x a) b, f6y = F2_mul F (f6y a) b, f6z = F2_mul F (f6z a) b\<rparr>)"

definition F6_mulTau :: "'e F6Field \<Rightarrow> 'e F6 \<Rightarrow> 'e F6" where
  "F6_mulTau K a =
     (let F = F6_F K;
          tz = F2_mulXi F (f6x a);
          ty = f6y a
      in \<lparr>f6x = ty, f6y = f6z a, f6z = tz\<rparr>)"

definition F6_mulGFP :: "'e F6Field \<Rightarrow> 'e F6 \<Rightarrow> 'e \<Rightarrow> 'e F6" where
  "F6_mulGFP K a b =
     (let F = F6_F K in \<lparr>f6x = F2_mulScalar F (f6x a) b, f6y = F2_mulScalar F (f6y a) b, f6z = F2_mulScalar F (f6z a) b\<rparr>)"

definition F6_square :: "'e F6Field \<Rightarrow> 'e F6 \<Rightarrow> 'e F6" where
  "F6_square K a =
     (let F = F6_F K;
          v0 = F2_square F (f6z a);
          v1 = F2_square F (f6y a);
          v2 = F2_square F (f6x a);
          c0 = F2_add F (f6x a) (f6y a);
          c0 = F2_square F c0;
          c0 = F2_sub F c0 v1;
          c0 = F2_sub F c0 v2;
          c0 = F2_mulXi F c0;
          c0 = F2_add F c0 v0;
          c1 = F2_add F (f6y a) (f6z a);
          c1 = F2_square F c1;
          c1 = F2_sub F c1 v0;
          c1 = F2_sub F c1 v1;
          xiV2 = F2_mulXi F v2;
          c1 = F2_add F c1 xiV2;
          c2 = F2_add F (f6x a) (f6z a);
          c2 = F2_square F c2;
          c2 = F2_sub F c2 v0;
          c2 = F2_add F c2 v1;
          c2 = F2_sub F c2 v2
      in \<lparr>f6x = c2, f6y = c1, f6z = c0\<rparr>)"

definition F6_dbl :: "'e F6Field \<Rightarrow> 'e F6 \<Rightarrow> 'e F6" where
  "F6_dbl K a = (let F = F6_F K in \<lparr>f6x = F2_dbl F (f6x a), f6y = F2_dbl F (f6y a), f6z = F2_dbl F (f6z a)\<rparr>)"

definition F6_Frobenius :: "'e F6Field \<Rightarrow> 'e F6 \<Rightarrow> 'e F6" where
  "F6_Frobenius K a =
     (let F = F6_F K;
          rx = F2_conjugate F (f6x a);
          ry = F2_conjugate F (f6y a);
          rz = F2_conjugate F (f6z a);
          rx = F2_mul F rx (xiTo2PMinus2Over3 K);
          ry = F2_mul F ry (xiToPMinus1Over3 K)
      in \<lparr>f6x = rx, f6y = ry, f6z = rz\<rparr>)"

definition F6_FrobeniusP2 :: "'e F6Field \<Rightarrow> 'e F6 \<Rightarrow> 'e F6" where
  "F6_FrobeniusP2 K a =
     (let F = F6_F K
      in \<lparr>f6x = F2_mulScalar F (f6x a) (xiTo2PSquaredMinus2Over3 K), f6y = F2_mulScalar F (f6y a) (xiToPSquaredMinus1Over3 K), f6z = f6z a\<rparr>)"

definition F6_inv :: "'e F6Field \<Rightarrow> 'e F6 \<Rightarrow> 'e F6 option" where
  "F6_inv K a =
     (let F = F6_F K;
          A = F2_square F (f6z a);
          t1 = F2_mul F (f6x a) (f6y a);
          t1 = F2_mulXi F t1;
          A = F2_sub F A t1;
          B = F2_square F (f6x a);
          B = F2_mulXi F B;
          t1 = F2_mul F (f6y a) (f6z a);
          B = F2_sub F B t1;
          C = F2_square F (f6y a);
          t1 = F2_mul F (f6x a) (f6z a);
          C = F2_sub F C t1;
          G = F2_mul F C (f6y a);
          G = F2_mulXi F G;
          t1 = F2_mul F A (f6z a);
          G = F2_add F G t1;
          t1 = F2_mul F B (f6x a);
          t1 = F2_mulXi F t1;
          G = F2_add F G t1
      in case F2_inv F G of
           None \<Rightarrow> None
         | Some G \<Rightarrow> Some \<lparr>f6x = F2_mul F C G, f6y = F2_mul F B G, f6z = F2_mul F A G\<rparr>)"

definition F6_div :: "'e F6Field \<Rightarrow> 'e F6 \<Rightarrow> 'e F6 \<Rightarrow> 'e F6 option" where
  "F6_div K a b = map_option (F6_mul K a) (F6_inv K b)"

definition F6_isZero :: "'e F6Field \<Rightarrow> 'e F6 \<Rightarrow> bool" where
  "F6_isZero K a \<longleftrightarrow> F2_isZero (F6_F K) (f6x a) \<and> F2_isZero (F6_F K) (f6y a) \<and> F2_isZero (F6_F K) (f6z a)"

definition F6_isOne :: "'e F6Field \<Rightarrow> 'e F6 \<Rightarrow> bool" where
  "F6_isOne K a \<longleftrightarrow> F2_isZero (F6_F K) (f6x a) \<and> F2_isZero (F6_F K) (f6y a) \<and> F2_isOne (F6_F K) (f6z a)"

definition F6_eq :: "'e F6Field \<Rightarrow> 'e F6 \<Rightarrow> 'e F6 \<Rightarrow> bool" where
  "F6_eq K a b \<longleftrightarrow> F2_eq (F6_F K) (f6x a) (f6x b) \<and> F2_eq (F6_F K) (f6y a) (f6y b) \<and> F2_eq (F6_F K) (f6z a) (f6z b)"

text \<open>The values of the elements, for a root \<open>t\<close> of \<open>9 + u\<close> of the third degree, and the norm that the code inverts.\<close>

definition F6_ok :: "('e \<Rightarrow> bool) \<Rightarrow> 'e F6 \<Rightarrow> bool" where
  "F6_ok ok a \<longleftrightarrow> F2_ok ok (f6x a) \<and> F2_ok ok (f6y a) \<and> F2_ok ok (f6z a)"

definition F6_val :: "('e \<Rightarrow> 'k::field) \<Rightarrow> 'k \<Rightarrow> 'k \<Rightarrow> 'e F6 \<Rightarrow> 'k" where
  "F6_val val u t a = F2_val val u (f6x a) * (t * t) + F2_val val u (f6y a) * t + F2_val val u (f6z a)"

definition F6_norm :: "('e \<Rightarrow> 'k::field) \<Rightarrow> 'k \<Rightarrow> 'e F6 \<Rightarrow> 'k" where
  "F6_norm val u a = (let x = F2_val val u (f6x a); y = F2_val val u (f6y a); z = F2_val val u (f6z a); xi = 9 + u
     in z * z * z + xi * y * y * y + xi * xi * x * x * x - 3 * xi * x * y * z)"

locale f6_field = f2_field F ok val nr u for F :: "'e base_ops" and ok and val :: "'e \<Rightarrow> 'k::field" and nr u +
  fixes t :: 'k and c1 c2 :: "'e F2" and c3 c4 :: 'e
  assumes minus_one: "val nr = - 1" "(1 :: 'k) \<noteq> - 1"
    and t: "t * t * t = 9 + u"
    and c_ok: "ok2 c1" "ok2 c2" "ok c3" "ok c4"
begin

abbreviation K6 :: "'e F6Field" where
  "K6 \<equiv> F6_initField K2 c1 c2 c3 c4"

abbreviation ok6 :: "'e F6 \<Rightarrow> bool" where
  "ok6 \<equiv> F6_ok ok"

abbreviation val6 :: "'e F6 \<Rightarrow> 'k" where
  "val6 \<equiv> F6_val val u t"

lemma K6 [simp]: "F6_F K6 = K2" "xiTo2PMinus2Over3 K6 = c1" "xiToPMinus1Over3 K6 = c2" "xiTo2PSquaredMinus2Over3 K6 = c3"
  "xiToPSquaredMinus1Over3 K6 = c4"
  by (simp_all add: F6_initField_def)

lemma mulXi_val [simp]: "ok2 a \<Longrightarrow> val2 (F2_mulXi K2 a) = t * t * t * val2 a"
  by (simp add: minus_one(1) t)

lemma square2_val [simp]: "ok2 a \<Longrightarrow> val2 (F2_square K2 a) = val2 a * val2 a"
  using square2 minus_one by blast

lemma consts6 [simp]:
  "ok6 (F6_zero K6)" "val6 (F6_zero K6) = 0" "ok6 (F6_one K6)" "val6 (F6_one K6) = 1" "ok6 (F6_negOne K6)" "val6 (F6_negOne K6) = - 1"
  by (simp_all add: F6_initField_def F6_ok_def F6_val_def)

lemma linear6 [simp]:
  "ok6 a \<Longrightarrow> ok6 b \<Longrightarrow> ok6 (F6_add K6 a b)" "ok6 a \<Longrightarrow> ok6 b \<Longrightarrow> val6 (F6_add K6 a b) = val6 a + val6 b"
  "ok6 a \<Longrightarrow> ok6 b \<Longrightarrow> ok6 (F6_sub K6 a b)" "ok6 a \<Longrightarrow> ok6 b \<Longrightarrow> val6 (F6_sub K6 a b) = val6 a - val6 b"
  "ok6 a \<Longrightarrow> ok6 (F6_neg K6 a)" "ok6 a \<Longrightarrow> val6 (F6_neg K6 a) = - val6 a"
  "ok6 a \<Longrightarrow> ok6 (F6_dbl K6 a)" "ok6 a \<Longrightarrow> val6 (F6_dbl K6 a) = 2 * val6 a"
  "ok6 a \<Longrightarrow> ok2 c \<Longrightarrow> ok6 (F6_mulScalar K6 a c)" "ok6 a \<Longrightarrow> ok2 c \<Longrightarrow> val6 (F6_mulScalar K6 a c) = val6 a * val2 c"
  "ok6 a \<Longrightarrow> ok d \<Longrightarrow> ok6 (F6_mulGFP K6 a d)" "ok6 a \<Longrightarrow> ok d \<Longrightarrow> val6 (F6_mulGFP K6 a d) = val6 a * val d"
  by (simp_all add: F6_add_def F6_sub_def F6_neg_def F6_dbl_def F6_mulScalar_def F6_mulGFP_def F6_ok_def F6_val_def Let_def algebra_simps)

lemma mulTau6 [simp]: "ok6 a \<Longrightarrow> ok6 (F6_mulTau K6 a)" "ok6 a \<Longrightarrow> val6 (F6_mulTau K6 a) = t * val6 a"
  by (simp_all add: F6_mulTau_def F6_ok_def F6_val_def Let_def algebra_simps)

lemma mul6 [simp]:
  "ok6 a \<Longrightarrow> ok6 b \<Longrightarrow> ok6 (F6_mul K6 a b)" "ok6 a \<Longrightarrow> ok6 b \<Longrightarrow> val6 (F6_mul K6 a b) = val6 a * val6 b"
  by (simp_all add: F6_mul_def F6_ok_def F6_val_def Let_def algebra_simps)

lemma square6 [simp]: "ok6 a \<Longrightarrow> ok6 (F6_square K6 a)" "ok6 a \<Longrightarrow> val6 (F6_square K6 a) = val6 a * val6 a"
  by (simp_all add: F6_square_def F6_ok_def F6_val_def Let_def algebra_simps)

abbreviation norm6 :: "'e F6 \<Rightarrow> 'k" where
  "norm6 \<equiv> F6_norm val u"

lemma inv6:
  assumes a: "ok6 a" "norm6 a \<noteq> 0" and i: "independent ok val u"
  shows "\<exists>c. F6_inv K6 a = Some c \<and> ok6 c \<and> val6 c * val6 a = 1"
proof -
  let ?A = "F2_sub K2 (F2_square K2 (f6z a)) (F2_mulXi K2 (F2_mul K2 (f6x a) (f6y a)))"
  let ?B = "F2_sub K2 (F2_mulXi K2 (F2_square K2 (f6x a))) (F2_mul K2 (f6y a) (f6z a))"
  let ?C = "F2_sub K2 (F2_square K2 (f6y a)) (F2_mul K2 (f6x a) (f6z a))"
  let ?G = "F2_add K2 (F2_add K2 (F2_mulXi K2 (F2_mul K2 ?C (f6y a))) (F2_mul K2 ?A (f6z a))) (F2_mulXi K2 (F2_mul K2 ?B (f6x a)))"
  have o: "ok2 (f6x a)" "ok2 (f6y a)" "ok2 (f6z a)" using a(1) by (simp_all add: F6_ok_def)
  have oG: "ok2 ?A" "ok2 ?B" "ok2 ?C" "ok2 ?G" using o by simp_all
  have G: "val2 ?G = norm6 a" using o unfolding F6_norm_def Let_def t [symmetric] by (simp add: algebra_simps)
  have f: "base_field (F2_base K2 (\<lambda>_. '''') (\<lambda>_. None)) ok2 val2"
    using F2_base_field minus_one i unfolding independent_def by blast
  obtain g where g: "F2_inv K2 ?G = Some g" "ok2 g" "val2 g = inverse (norm6 a)"
    using base_field.inv [OF f oG(4)] a(2) G by (auto simp: F2_base_def)
  let ?c = "\<lparr>f6x = F2_mul K2 ?C g, f6y = F2_mul K2 ?B g, f6z = F2_mul K2 ?A g\<rparr>"
  have "val6 ?c * val6 a = norm6 a * val2 g"
    using o g(2) unfolding F6_norm_def Let_def t [symmetric] by (simp add: F6_val_def algebra_simps)
  then have "val6 ?c * val6 a = 1" using g(3) a(2) by simp
  then show ?thesis using oG g(2) by (intro exI [of _ ?c]) (simp add: F6_inv_def Let_def g(1) F6_ok_def)
qed

lemma div6:
  assumes "ok6 a" "ok6 b" "norm6 b \<noteq> 0" "independent ok val u"
  shows "\<exists>c. F6_div K6 a b = Some c \<and> ok6 c \<and> val6 c * val6 b = val6 a"
proof -
  obtain c where "F6_inv K6 b = Some c" "ok6 c" "val6 c * val6 b = 1" using inv6 [OF assms(2-4)] by blast
  then show ?thesis using assms(1) by (simp add: F6_div_def mult.assoc)
qed

lemma Frobenius6_ok [simp]: "ok6 a \<Longrightarrow> ok6 (F6_Frobenius K6 a)" "ok6 a \<Longrightarrow> ok6 (F6_FrobeniusP2 K6 a)"
  by (simp_all add: F6_Frobenius_def F6_FrobeniusP2_def F6_ok_def Let_def c_ok)

end

subsection \<open>The extension of degree twelve\<close>

record 'e F12 =
  f12x :: "'e F6"
  f12y :: "'e F6"

record 'e F12Field =
  F12_F :: "'e F6Field"
  F12_one :: "'e F12"
  F12_zero :: "'e F12"
  F12_negOne :: "'e F12"
  xiToPMinus1Over6 :: "'e F2"
  xiToPSquaredMinus1Over6 :: 'e

definition F12_initField :: "'e F6Field \<Rightarrow> 'e F2 \<Rightarrow> 'e \<Rightarrow> 'e F12Field" where
  "F12_initField F c5 c6 =
     \<lparr>F12_F = F, F12_one = \<lparr>f12x = F6_zero F, f12y = F6_one F\<rparr>, F12_zero = \<lparr>f12x = F6_zero F, f12y = F6_zero F\<rparr>,
      F12_negOne = \<lparr>f12x = F6_zero F, f12y = F6_negOne F\<rparr>, xiToPMinus1Over6 = c5, xiToPSquaredMinus1Over6 = c6\<rparr>"

definition F12_add :: "'e F12Field \<Rightarrow> 'e F12 \<Rightarrow> 'e F12 \<Rightarrow> 'e F12" where
  "F12_add K a b = (let F = F12_F K in \<lparr>f12x = F6_add F (f12x a) (f12x b), f12y = F6_add F (f12y a) (f12y b)\<rparr>)"

definition F12_sub :: "'e F12Field \<Rightarrow> 'e F12 \<Rightarrow> 'e F12 \<Rightarrow> 'e F12" where
  "F12_sub K a b = (let F = F12_F K in \<lparr>f12x = F6_sub F (f12x a) (f12x b), f12y = F6_sub F (f12y a) (f12y b)\<rparr>)"

definition F12_neg :: "'e F12Field \<Rightarrow> 'e F12 \<Rightarrow> 'e F12" where
  "F12_neg K a = (let F = F12_F K in \<lparr>f12x = F6_neg F (f12x a), f12y = F6_neg F (f12y a)\<rparr>)"

definition F12_conjugate :: "'e F12Field \<Rightarrow> 'e F12 \<Rightarrow> 'e F12" where
  "F12_conjugate K a = (let F = F12_F K in \<lparr>f12x = F6_neg F (f12x a), f12y = f12y a\<rparr>)"

definition F12_mul :: "'e F12Field \<Rightarrow> 'e F12 \<Rightarrow> 'e F12 \<Rightarrow> 'e F12" where
  "F12_mul K a b =
     (let F = F12_F K;
          tx = F6_mul F (f12x a) (f12y b);
          t = F6_mul F (f12x b) (f12y a);
          tx = F6_add F tx t;
          ty = F6_mul F (f12y a) (f12y b);
          t = F6_mul F (f12x a) (f12x b);
          t = F6_mulTau F t
      in \<lparr>f12x = tx, f12y = F6_add F ty t\<rparr>)"

definition F12_mulScalar :: "'e F12Field \<Rightarrow> 'e F12 \<Rightarrow> 'e F6 \<Rightarrow> 'e F12" where
  "F12_mulScalar K a b = (let F = F12_F K in \<lparr>f12x = F6_mul F (f12x a) b, f12y = F6_mul F (f12y a) b\<rparr>)"

definition F12_square :: "'e F12Field \<Rightarrow> 'e F12 \<Rightarrow> 'e F12" where
  "F12_square K a =
     (let F = F12_F K;
          v0 = F6_mul F (f12x a) (f12y a);
          t = F6_mulTau F (f12x a);
          t = F6_add F (f12y a) t;
          ty = F6_add F (f12x a) (f12y a);
          ty = F6_mul F ty t;
          ty = F6_sub F ty v0;
          t = F6_mulTau F v0;
          ty = F6_sub F ty t
      in \<lparr>f12x = F6_dbl F v0, f12y = ty\<rparr>)"

text \<open>The loop over the bits of the scalar, from the top bit of its bytes downwards.\<close>

fun F12_exp_loop :: "'e F12Field \<Rightarrow> 'e F12 \<Rightarrow> u8 list \<Rightarrow> nat \<Rightarrow> 'e F12 \<Rightarrow> 'e F12" where
  "F12_exp_loop K a scalar 0 r = r"
| "F12_exp_loop K a scalar (Suc i) r =
     (let t = F12_square K r;
          r = (if BIT_IS_SET scalar i then F12_mul K t a else t)
      in F12_exp_loop K a scalar i r)"

definition F12_exp :: "'e F12Field \<Rightarrow> 'e F12 \<Rightarrow> u8 list \<Rightarrow> nat \<Rightarrow> 'e F12" where
  "F12_exp K a scalar scalarSize = F12_exp_loop K a scalar (scalarSize * 8) (F12_one K)"

definition F12_Frobenius :: "'e F12Field \<Rightarrow> 'e F12 \<Rightarrow> 'e F12" where
  "F12_Frobenius K a =
     (let F = F12_F K;
          rx = F6_Frobenius F (f12x a);
          ry = F6_Frobenius F (f12y a);
          rx = F6_mulScalar F rx (xiToPMinus1Over6 K)
      in \<lparr>f12x = rx, f12y = ry\<rparr>)"

definition F12_FrobeniusP2 :: "'e F12Field \<Rightarrow> 'e F12 \<Rightarrow> 'e F12" where
  "F12_FrobeniusP2 K a =
     (let F = F12_F K;
          rx = F6_FrobeniusP2 F (f12x a);
          rx = F6_mulGFP F rx (xiToPSquaredMinus1Over6 K);
          ry = F6_FrobeniusP2 F (f12y a)
      in \<lparr>f12x = rx, f12y = ry\<rparr>)"

definition F12_inv :: "'e F12Field \<Rightarrow> 'e F12 \<Rightarrow> 'e F12 option" where
  "F12_inv K a =
     (let F = F12_F K;
          t1 = F6_square F (f12x a);
          t2 = F6_square F (f12y a);
          t1 = F6_mulTau F t1;
          t1 = F6_sub F t2 t1
      in case F6_inv F t1 of
           None \<Rightarrow> None
         | Some t2 \<Rightarrow> Some (F12_mulScalar K \<lparr>f12x = F6_neg F (f12x a), f12y = f12y a\<rparr> t2))"

definition F12_div :: "'e F12Field \<Rightarrow> 'e F12 \<Rightarrow> 'e F12 \<Rightarrow> 'e F12 option" where
  "F12_div K a b = map_option (F12_mul K a) (F12_inv K b)"

definition F12_isZero :: "'e F12Field \<Rightarrow> 'e F12 \<Rightarrow> bool" where
  "F12_isZero K a \<longleftrightarrow> F6_isZero (F12_F K) (f12x a) \<and> F6_isZero (F12_F K) (f12y a)"

definition F12_isOne :: "'e F12Field \<Rightarrow> 'e F12 \<Rightarrow> bool" where
  "F12_isOne K a \<longleftrightarrow> F6_isZero (F12_F K) (f12x a) \<and> F6_isOne (F12_F K) (f12y a)"

definition F12_eq :: "'e F12Field \<Rightarrow> 'e F12 \<Rightarrow> 'e F12 \<Rightarrow> bool" where
  "F12_eq K a b \<longleftrightarrow> F6_eq (F12_F K) (f12x a) (f12x b) \<and> F6_eq (F12_F K) (f12y a) (f12y b)"

text \<open>The values of the elements, for a square root \<open>w\<close> of \<open>t\<close>, and their norm.\<close>

definition F12_ok :: "('e \<Rightarrow> bool) \<Rightarrow> 'e F12 \<Rightarrow> bool" where
  "F12_ok ok a \<longleftrightarrow> F6_ok ok (f12x a) \<and> F6_ok ok (f12y a)"

definition F12_val :: "('e \<Rightarrow> 'k::field) \<Rightarrow> 'k \<Rightarrow> 'k \<Rightarrow> 'k \<Rightarrow> 'e F12 \<Rightarrow> 'k" where
  "F12_val val u t w a = F6_val val u t (f12x a) * w + F6_val val u t (f12y a)"

definition F12_norm :: "'e F6Field \<Rightarrow> ('e \<Rightarrow> 'k::field) \<Rightarrow> 'k \<Rightarrow> 'e F12 \<Rightarrow> 'k" where
  "F12_norm K val u a = F6_norm val u (F6_sub K (F6_square K (f12y a)) (F6_mulTau K (F6_square K (f12x a))))"

locale f12_field = f6_field F ok val nr u t c1 c2 c3 c4
  for F :: "'e base_ops" and ok and val :: "'e \<Rightarrow> 'k::field" and nr u t c1 c2 c3 c4 +
  fixes w :: 'k and c5 :: "'e F2" and c6 :: 'e
  assumes w: "w * w = t" and c_ok12: "ok2 c5" "ok c6"
begin

abbreviation K12 :: "'e F12Field" where
  "K12 \<equiv> F12_initField K6 c5 c6"

abbreviation ok12 :: "'e F12 \<Rightarrow> bool" where
  "ok12 \<equiv> F12_ok ok"

abbreviation val12 :: "'e F12 \<Rightarrow> 'k" where
  "val12 \<equiv> F12_val val u t w"

lemma K12 [simp]: "F12_F K12 = K6" "xiToPMinus1Over6 K12 = c5" "xiToPSquaredMinus1Over6 K12 = c6"
  by (simp_all add: F12_initField_def)

lemma consts12 [simp]: "ok12 (F12_one K12)" "val12 (F12_one K12) = 1" "ok12 (F12_zero K12)" "val12 (F12_zero K12) = 0"
  by (simp_all add: F12_initField_def F12_ok_def F12_val_def)

lemma linear12 [simp]:
  "ok12 a \<Longrightarrow> ok12 b \<Longrightarrow> ok12 (F12_add K12 a b)" "ok12 a \<Longrightarrow> ok12 b \<Longrightarrow> val12 (F12_add K12 a b) = val12 a + val12 b"
  "ok12 a \<Longrightarrow> ok12 b \<Longrightarrow> ok12 (F12_sub K12 a b)" "ok12 a \<Longrightarrow> ok12 b \<Longrightarrow> val12 (F12_sub K12 a b) = val12 a - val12 b"
  "ok12 a \<Longrightarrow> ok12 (F12_neg K12 a)" "ok12 a \<Longrightarrow> val12 (F12_neg K12 a) = - val12 a"
  "ok12 a \<Longrightarrow> ok12 (F12_conjugate K12 a)" "ok12 a \<Longrightarrow> val12 (F12_conjugate K12 a) = val6 (f12y a) - val6 (f12x a) * w"
  "ok12 a \<Longrightarrow> ok6 c \<Longrightarrow> ok12 (F12_mulScalar K12 a c)" "ok12 a \<Longrightarrow> ok6 c \<Longrightarrow> val12 (F12_mulScalar K12 a c) = val12 a * val6 c"
  by (simp_all add: F12_add_def F12_sub_def F12_neg_def F12_conjugate_def F12_mulScalar_def F12_ok_def F12_val_def Let_def algebra_simps)

lemma w_root: "w * (w * x) = t * x" "x * w * w = x * t"
  using w by (simp_all add: ac_simps)

lemma mul12 [simp]:
  "ok12 a \<Longrightarrow> ok12 b \<Longrightarrow> ok12 (F12_mul K12 a b)" "ok12 a \<Longrightarrow> ok12 b \<Longrightarrow> val12 (F12_mul K12 a b) = val12 a * val12 b"
  by (simp_all add: F12_mul_def F12_ok_def F12_val_def Let_def algebra_simps w_root)

lemma square12 [simp]: "ok12 a \<Longrightarrow> ok12 (F12_square K12 a)" "ok12 a \<Longrightarrow> val12 (F12_square K12 a) = val12 a * val12 a"
  by (simp_all add: F12_square_def F12_ok_def F12_val_def Let_def algebra_simps w_root)

lemma Frobenius12_ok [simp]: "ok12 a \<Longrightarrow> ok12 (F12_Frobenius K12 a)" "ok12 a \<Longrightarrow> ok12 (F12_FrobeniusP2 K12 a)"
  by (simp_all add: F12_Frobenius_def F12_FrobeniusP2_def F12_ok_def Let_def c_ok12)

lemma exp12_loop:
  assumes "ok12 a" "i \<le> 8 * length s"
  shows "ok12 r \<Longrightarrow> ok12 (F12_exp_loop K12 a s i r) \<and> val12 (F12_exp_loop K12 a s i r) = val12 r ^ 2 ^ i * val12 a ^ (le_nat s mod 2 ^ i)"
  using assms(2)
proof (induction i arbitrary: r)
  case (Suc i)
  let ?t = "F12_square K12 r"
  let ?r = "if BIT_IS_SET s i then F12_mul K12 ?t a else ?t"
  have b: "BIT_IS_SET s i \<longleftrightarrow> bit (le_nat s) i" using Suc.prems(2) by (intro bit_is_set_le_nat) simp
  have r: "ok12 ?r" "val12 ?r = val12 r ^ 2 * val12 a ^ of_bool (bit (le_nat s) i)"
    using Suc.prems(1) assms(1) b by (simp_all add: power2_eq_square)
  have m: "le_nat s mod 2 ^ Suc i = 2 ^ i * of_bool (bit (le_nat s) i) + le_nat s mod 2 ^ i"
    using take_bit_Suc_from_most [of i "le_nat s"] by (simp add: take_bit_eq_mod)
  have e1: "F12_exp_loop K12 a s (Suc i) r = F12_exp_loop K12 a s i ?r" by (simp add: Let_def)
  have e2: "val12 ?r ^ 2 ^ i * val12 a ^ (le_nat s mod 2 ^ i) = val12 r ^ 2 ^ Suc i * val12 a ^ (le_nat s mod 2 ^ Suc i)"
    unfolding r(2) m by (simp add: power_mult_distrib power_add flip: power_mult)
  show ?case unfolding e1 using Suc.IH [OF r(1) Suc_leD [OF Suc.prems(2)]] unfolding e2 .
qed simp

lemma exp12:
  assumes "ok12 a" "n = length s"
  shows "ok12 (F12_exp K12 a s n)" "val12 (F12_exp K12 a s n) = val12 a ^ le_nat s"
proof -
  have "le_nat s mod 2 ^ (n * 8) = le_nat s" using le_nat_less [of s] assms(2) by (simp add: power_mult mult.commute [of _ 8])
  then show "ok12 (F12_exp K12 a s n)" "val12 (F12_exp K12 a s n) = val12 a ^ le_nat s"
    using exp12_loop [of a "n * 8" s "F12_one K12"] assms by (simp_all add: F12_exp_def)
qed

abbreviation norm12 :: "'e F12 \<Rightarrow> 'k" where
  "norm12 \<equiv> F12_norm K6 val u"

lemma inv12:
  assumes a: "ok12 a" "norm12 a \<noteq> 0" and i: "independent ok val u"
  shows "\<exists>c. F12_inv K12 a = Some c \<and> ok12 c \<and> val12 c * val12 a = 1"
proof -
  let ?t = "F6_sub K6 (F6_square K6 (f12y a)) (F6_mulTau K6 (F6_square K6 (f12x a)))"
  let ?n = "\<lparr>f12x = F6_neg K6 (f12x a), f12y = f12y a\<rparr>"
  have o: "ok6 (f12x a)" "ok6 (f12y a)" using a(1) by (simp_all add: F12_ok_def)
  then have t: "ok6 ?t" "ok12 ?n" by (simp_all add: F12_ok_def)
  obtain c where c: "F6_inv K6 ?t = Some c" "ok6 c" "val6 c * val6 ?t = 1"
    using inv6 [OF t(1) _ i] a(2) unfolding F12_norm_def by blast
  have "val12 (F12_mulScalar K12 ?n c) * val12 a = val6 c * val6 ?t"
    unfolding linear12(10) [OF t(2) c(2)] using o by (simp add: F12_val_def algebra_simps w_root)
  then show ?thesis using c t(2) by (intro exI [of _ "F12_mulScalar K12 ?n c"]) (simp add: F12_inv_def Let_def)
qed

end

subsection \<open>The results\<close>

text \<open>
  The tower over the real numbers in the complex ones: a field in which every number has the roots
  that the extensions need.
\<close>

lemma real_base: "base_field field_base (\<lambda>_. True) (of_real :: real \<Rightarrow> complex)"
  by unfold_locales (simp_all add: field_base_def)

definition tower_root :: complex where
  "tower_root = rcis (root 6 (cmod (9 + \<i>))) (Arg (9 + \<i>) / 6)"

lemma tower_root: "tower_root ^ 6 = 9 + \<i>"
  unfolding tower_root_def DeMoivre2 by (simp add: rcis_cmod_Arg)

interpretation complex_tower: f12_field field_base "\<lambda>_. True" "of_real :: real \<Rightarrow> complex" "- 1" \<i> "tower_root ^ 2"
    "\<lparr>f2a = 1, f2b = 0\<rparr>" "\<lparr>f2a = 1, f2b = 0\<rparr>" 1 1 tower_root "\<lparr>f2a = 1, f2b = 0\<rparr>" 1
proof (intro f12_field.intro f6_field.intro f2_field.intro real_base f12_field_axioms.intro f6_field_axioms.intro f2_field_axioms.intro)
  have "tower_root ^ 2 * tower_root ^ 2 * tower_root ^ 2 = tower_root ^ 6" by (simp flip: power_add)
  then show "tower_root ^ 2 * tower_root ^ 2 * tower_root ^ 2 = 9 + \<i>" using tower_root by simp
qed (simp_all add: F2_ok_def power2_eq_square)

text \<open>
  Property C17. The products, squares and powers of the tower, which the code computes with fewer
  products below, are those of the field whose elements they stand for, at every level.
\<close>

theorem tower_products:
  fixes F :: "'e base_ops" and val :: "'e \<Rightarrow> 'k::field"
  assumes "f12_field F ok val nr u t c1 c2 c3 c4 w c5 c6"
    and "F2_ok ok a2" "F2_ok ok b2" "F6_ok ok a6" "F6_ok ok b6" "F12_ok ok a" "F12_ok ok b"
  defines "K2 \<equiv> new_F2Field F nr"
  defines "K6 \<equiv> F6_initField K2 c1 c2 c3 c4"
  defines "K \<equiv> F12_initField K6 c5 c6"
  shows "F2_val val u (F2_mul K2 a2 b2) = F2_val val u a2 * F2_val val u b2 \<and> F2_val val u (F2_square K2 a2) = F2_val val u a2 ^ 2 \<and>
    F6_val val u t (F6_mul K6 a6 b6) = F6_val val u t a6 * F6_val val u t b6 \<and> F6_val val u t (F6_square K6 a6) = F6_val val u t a6 ^ 2 \<and>
    F12_val val u t w (F12_mul K a b) = F12_val val u t w a * F12_val val u t w b \<and> F12_val val u t w (F12_square K a) = F12_val val u t w a ^ 2 \<and>
    F12_val val u t w (F12_exp K a s (length s)) = F12_val val u t w a ^ le_nat s"
proof -
  have f: "f6_field F ok val nr u t c1 c2 c3 c4" "f2_field F ok val nr u" using assms(1) by (simp_all add: f12_field_def f6_field_def)
  show ?thesis
    unfolding K_def K6_def K2_def power2_eq_square
    using f2_field.mul2 [OF f(2) assms(2,3)] f6_field.square2_val [OF f(1) assms(2)] f6_field.mul6 [OF f(1) assms(4,5)]
      f6_field.square6 [OF f(1) assms(4)] f12_field.mul12 [OF assms(1,6,7)] f12_field.square12 [OF assms(1,6)]
      f12_field.exp12 [OF assms(1,6), of "length s" s] by simp
qed

theorem tower_products_witness:
  "F2_val of_real \<i> (F2_mul (new_F2Field field_base (- 1)) \<lparr>f2a = 1, f2b = 2\<rparr> \<lparr>f2a = 3, f2b = 4 :: real\<rparr>) = (1 + 2 * \<i>) * (3 + 4 * \<i>)"
proof -
  let ?o = "\<lambda>a b. \<lparr>f2a = a, f2b = b :: real\<rparr>"
  have o: "F2_ok (\<lambda>_. True) (?o x y)" for x y by (simp add: F2_ok_def)
  let ?s = "\<lparr>f6x = ?o 1 2, f6y = ?o 0 0, f6z = ?o 0 3\<rparr>"
  have o6: "F6_ok (\<lambda>_. True) ?s" by (simp add: F6_ok_def o)
  have o12: "F12_ok (\<lambda>_. True) \<lparr>f12x = ?s, f12y = ?s\<rparr>" by (simp add: F12_ok_def o6)
  show ?thesis
    using tower_products [OF complex_tower.f12_field_axioms o [of 1 2] o [of 3 4] o6 o6 o12 o12, of "[]"]
    by (simp add: F2_val_def)
qed

text \<open>
  Property C18. Inverses at every level: when \<open>u\<close> is no quotient of values of the base field, an element
  whose norm is not zero has one, and the code finds it. The condition holds for \<open>RawFq\<close> over every
  prime that is three modulo four, as that of bn128 is, with \<open>u * u = - 1\<close> (\<open>RawFq_independent\<close>).
\<close>

theorem tower_inverses:
  fixes F :: "'e base_ops" and val :: "'e \<Rightarrow> 'k::field"
  assumes "f12_field F ok val nr u t c1 c2 c3 c4 w c5 c6" "independent ok val u"
    and "F2_ok ok a2" "F2_val val u a2 \<noteq> 0" "F6_ok ok a6" "F6_norm val u a6 \<noteq> 0"
  defines "K2 \<equiv> new_F2Field F nr"
  defines "K6 \<equiv> F6_initField K2 c1 c2 c3 c4"
  defines "K \<equiv> F12_initField K6 c5 c6"
  assumes "F12_ok ok a" "F12_norm K6 val u a \<noteq> 0"
  shows "(\<exists>c. F2_inv K2 a2 = Some c \<and> F2_ok ok c \<and> F2_val val u c * F2_val val u a2 = 1) \<and>
    (\<exists>c. F6_inv K6 a6 = Some c \<and> F6_ok ok c \<and> F6_val val u t c * F6_val val u t a6 = 1) \<and>
    (\<exists>c. F12_inv K a = Some c \<and> F12_ok ok c \<and> F12_val val u t w c * F12_val val u t w a = 1)"
proof -
  have f: "f6_field F ok val nr u t c1 c2 c3 c4" "f2_field F ok val nr u" using assms(1) by (simp_all add: f12_field_def f6_field_def)
  have "base_field (F2_base K2 (\<lambda>_. '''') (\<lambda>_. None)) (F2_ok ok) (F2_val val u)"
    unfolding K2_def using f2_field.F2_base_field [OF f(2) f6_field.minus_one [OF f(1)]] assms(2) unfolding independent_def by blast
  from base_field.inv [OF this assms(3,4)] have "\<exists>c. F2_inv K2 a2 = Some c \<and> F2_ok ok c \<and> F2_val val u c * F2_val val u a2 = 1"
    using assms(4) by (auto simp: F2_base_def)
  then show ?thesis
    using f6_field.inv6 [OF f(1) assms(5,6,2)] f12_field.inv12 [OF assms(1) assms(10,11) [unfolded K6_def K2_def] assms(2)]
    unfolding K_def K6_def K2_def by blast
qed

theorem tower_inverses_witness:
  "\<exists>c. F2_inv (new_F2Field field_base (- 1)) \<lparr>f2a = 3, f2b = 4 :: real\<rparr> = Some c \<and> F2_val of_real \<i> c * (3 + 4 * \<i>) = 1"
proof -
  let ?K6 = "F6_initField (new_F2Field field_base (- 1 :: real)) \<lparr>f2a = 1, f2b = 0\<rparr> \<lparr>f2a = 1, f2b = 0\<rparr> 1 1"
  let ?o = "\<lparr>f2a = 3, f2b = 4 :: real\<rparr>" and ?s = "F6_one ?K6"
  let ?a = "\<lparr>f12x = F6_zero ?K6, f12y = ?s\<rparr>"
  have o: "F2_ok (\<lambda>_. True) ?o" "F6_ok (\<lambda>_. True) ?s" "F12_ok (\<lambda>_. True) ?a" by (simp_all add: F2_ok_def F6_ok_def F12_ok_def)
  have i: "independent (\<lambda>_. True) (of_real :: real \<Rightarrow> complex) \<i>"
    by (simp add: independent_def complex_eq_iff)
  have v: "F2_val of_real \<i> ?o = 3 + 4 * \<i>" "3 + 4 * \<i> \<noteq> 0" by (simp_all add: F2_val_def complex_eq_iff)
  have n: "F6_norm of_real \<i> ?s \<noteq> 0"
    by (simp add: F6_norm_def F6_initField_def new_F2Field_def F2_val_def field_base_def)
  have n12: "F12_norm ?K6 of_real \<i> ?a \<noteq> 0"
    by (simp add: F12_norm_def F6_norm_def F6_sub_def F6_square_def F6_mulTau_def F6_initField_def new_F2Field_def F2_val_def field_base_def
        F2_sub_def F2_add_def F2_square_def F2_mulXi_def F2_dbl_def Let_def)
  show ?thesis
    using tower_inverses [OF complex_tower.f12_field_axioms i o(1) _ o(2) n o(3) n12] v by auto
qed

end
