(* ===== verification/GoldilocksField.thy ===== *)
theory GoldilocksField
  imports FieldTower
begin

text \<open>
  The field of the goldilocks prime as a type, and the runtime with its constants as a base field
  over it. The proof that the number is prime is Proth's: a number whose power is minus one has an
  order that is a large power of two modulo every divisor, so that every divisor is large.
\<close>

subsection \<open>The prime\<close>

definition gl_p :: int where
  "gl_p = 18446744069414584321"

text \<open>A chain of squarings, each with its quotient.\<close>

fun square_chain :: "int \<Rightarrow> int \<Rightarrow> (int \<times> int) list \<Rightarrow> int" where
  "square_chain c a [] = a"
| "square_chain c a ((k, r) # xs) = (if a * a * c = k * gl_p + r then square_chain c r xs else 0)"

lemma square_chain:
  "square_chain c a xs \<noteq> 0 \<Longrightarrow> square_chain c a xs mod gl_p = a ^ 2 ^ length xs * c ^ (2 ^ length xs - 1) mod gl_p"
proof (induction c a xs rule: square_chain.induct)
  case (2 c a k r xs)
  let ?n = "2 ^ length xs :: nat"
  have e: "a * a * c = k * gl_p + r" using "2.prems" by (simp split: if_splits)
  then have "square_chain c a ((k, r) # xs) mod gl_p = r ^ ?n * c ^ (?n - 1) mod gl_p" using 2 by simp
  also have "r mod gl_p = (a * a * c) mod gl_p" unfolding e by simp
  then have "r ^ ?n mod gl_p = (a * a * c) ^ ?n mod gl_p" by (metis power_mod)
  then have "r ^ ?n * c ^ (?n - 1) mod gl_p = (a * a * c) ^ ?n * c ^ (?n - 1) mod gl_p" by (metis mod_mult_left_eq)
  also have "(a * a * c) ^ ?n * c ^ (?n - 1) = a ^ 2 ^ length ((k, r) # xs) * c ^ (2 ^ length ((k, r) # xs) - 1)"
  proof -
    have "?n + (?n - 1) = 2 ^ length ((k, r) # xs) - 1" by simp
    then have "c ^ ?n * c ^ (?n - 1) = c ^ (2 ^ length ((k, r) # xs) - 1)" by (metis power_add)
    moreover have "(a * a) ^ ?n = a ^ 2 ^ length ((k, r) # xs)" by (simp add: power_mult flip: power2_eq_square)
    ultimately show ?thesis by (simp add: power_mult_distrib mult.assoc)
  qed
  finally show ?case .
qed simp

definition gl_root :: int where
  "gl_root = 1753635133440165772"

definition gl_chain2 :: "(int \<times> int) list" where
  "gl_chain2 =
    [(166708887468903991, 4614640910117430873), (1154399424049971884, 9123114210336311365), (4511973093009996851, 16116352524544190054),
     (14080361158478670879, 6414415596519834757), (2230460144622294524, 1213594585890690845), (79841288704448195, 17096174751763063430),
     (15844486704156700236, 5456943929260765144), (1614281465338340559, 9713644485405565297), (5114988793349933654, 16905767614792059275),
     (15493518941330557636, 5416168637041100469), (1590247178281506213, 17654865857378133588), (16896981237942002723, 3511170319078647661),
     (668319404399374695, 18146160046829613826), (17850473948468743512, 9306717745644682924), (4695408299218975106, 12380578893860276750),
     (8309256808156222390, 6115771955107415310), (2027602620068516376, 17776499369601055404), (17130607366173278638, 16207902636198568418),
     (14240784545824149997, 1532612707718625687), (127334216977357403, 17492915097719143606), (16588405924890216597, 455906449640507599),
     (11267608529812975, 11353340290879379826), (6987592784692205430, 1803076106186727246), (176241586724885086, 13797081185216407910),
     (10319406422896923811, 17870292113338400769), (17311854006015885313, 549755813888), (16384, 70368744161280),
     (268435455, 17293822564807737345), (16212958654255595520, 18446744069397807105), (18446744069381029889, 281474976710656),
     (4294967296, 18446744069414584320)]"

lemma gl_root: "gl_root ^ 2 ^ 31 mod gl_p = (- 1) mod gl_p"
proof -
  have "square_chain 1 gl_root gl_chain2 = gl_p - 1"
    by (simp add: gl_root_def gl_chain2_def gl_p_def)
  moreover have "length gl_chain2 = 31" by (simp add: gl_chain2_def)
  ultimately show ?thesis using square_chain [of 1 gl_root gl_chain2] by (simp add: gl_p_def)
qed

lemma diff_dvd_power: "x - y dvd x ^ n - (y :: int) ^ n"
  unfolding power_diff_sumr2 [of x n y] by simp

lemma odd_part: "0 < k \<Longrightarrow> \<exists>e m. k = 2 ^ e * m \<and> odd (m :: nat)"
proof (induction k rule: less_induct)
  case (less k)
  show ?case
  proof (cases "even k")
    case True
    then obtain j where j: "k = 2 * j" by blast
    have "j < k" "0 < j" using j less.prems by simp_all
    then obtain e m where "j = 2 ^ e * m" "odd m" using less.IH by blast
    then show ?thesis using j by (intro exI [of _ "Suc e"] exI [of _ m]) simp
  next
    case False
    then show ?thesis by (intro exI [of _ 0] exI [of _ k]) simp
  qed
qed

lemma divisor_large:
  assumes r: "r dvd gl_p" "1 < r" and b: "b ^ 2 ^ 31 mod gl_p = (- 1) mod gl_p"
  shows "2 ^ 32 < (r :: int)"
proof -
  have odd: "odd r"
  proof
    assume "even r"
    then have "even gl_p" using r(1) by (rule dvd_trans)
    then show False by (simp add: gl_p_def)
  qed
  have two: "\<not> r dvd 2" using r(2) odd by (auto dest: zdvd_imp_le simp: le_less)
  have "gl_p dvd b ^ 2 ^ 31 - (- 1)" using b by (simp only: mod_eq_dvd_iff)
  then have m1: "r dvd b ^ 2 ^ 31 + 1" using r(1) by (metis diff_minus_eq_add dvd_trans)
  have not_one: "\<not> r dvd b ^ k - 1" if k: "0 < k" "k < 2 ^ 32" for k
  proof
    assume d: "r dvd b ^ k - 1"
    obtain e m where em: "k = 2 ^ e * m" "odd m" using odd_part [OF k(1)] by blast
    have "2 ^ e \<le> k" using em k(1) by simp
    then have "(2::nat) ^ e < 2 ^ 32" using k(2) by linarith
    then have e: "e \<le> 31" using power_less_imp_less_exp [of "2 :: nat" e 32] by simp
    have "r dvd (b ^ k) ^ 2 ^ (31 - e) - 1 ^ 2 ^ (31 - e)" using dvd_trans [OF d] diff_dvd_power [of "b ^ k" 1] by simp
    moreover have "(b ^ k) ^ 2 ^ (31 - e) = (b ^ 2 ^ 31) ^ m"
    proof -
      have "k * 2 ^ (31 - e) = 2 ^ 31 * m" using e em(1) by (simp flip: power_add) 
      then show ?thesis by (metis power_mult)
    qed
    ultimately have 1: "r dvd (b ^ 2 ^ 31) ^ m - 1" by simp
    have "r dvd (b ^ 2 ^ 31) ^ m + 1" using dvd_trans [OF m1] diff_dvd_power [of "b ^ 2 ^ 31" "- 1" m] em(2) by simp
    then have "r dvd ((b ^ 2 ^ 31) ^ m + 1) - ((b ^ 2 ^ 31) ^ m - 1)" using 1 by (rule dvd_diff)
    then show False using two by simp
  qed
  have inj: "inj_on (\<lambda>i. b ^ i mod r) {..<2 ^ 32}"
  proof (rule linorder_inj_onI)
    fix i j :: nat assume ij: "i < j" "i \<in> {..<2 ^ 32}" "j \<in> {..<2 ^ 32}"
    show "b ^ i mod r \<noteq> b ^ j mod r"
    proof
      assume "b ^ i mod r = b ^ j mod r"
      then have "r dvd b ^ j - b ^ i" by (metis mod_eq_dvd_iff)
      moreover have "b ^ j - b ^ i = b ^ i * (b ^ (j - i) - 1)" using ij(1) by (simp add: algebra_simps flip: power_add)
      moreover have "coprime r (b ^ i)"
      proof -
        have "coprime r (b ^ 2 ^ 31)"
        proof (rule coprimeI)
          fix c assume c: "c dvd r" "c dvd b ^ 2 ^ 31"
          then have "c dvd b ^ 2 ^ 31 + 1" using m1 by (meson dvd_trans)
          then have "c dvd 1" using c(2) by (simp add: dvd_add_right_iff)
          then show "is_unit c" .
        qed
        then show ?thesis by (simp add: coprime_power_right_iff)
      qed
      ultimately have "r dvd b ^ (j - i) - 1" by (simp add: coprime_dvd_mult_right_iff)
      then show False using not_one [of "j - i"] ij less_imp_diff_less [of j "2 ^ 32" i] by simp
    qed
  qed (rule linear)
  have sub: "(\<lambda>i. b ^ i mod r) ` {..<2 ^ 32} \<subseteq> {1..<r}"
  proof (intro image_subsetI)
    fix i :: nat
    have "0 \<le> b ^ i mod r" "b ^ i mod r < r" using r(2) by simp_all
    moreover have "b ^ i mod r \<noteq> 0"
    proof
      assume "b ^ i mod r = 0"
      then have "r dvd b ^ i" by (simp add: dvd_eq_mod_eq_0)
      then have "r dvd b ^ (2 ^ 31 * Suc i)" by (rule dvd_trans) (simp add: le_imp_power_dvd)
      then have d: "r dvd (b ^ 2 ^ 31) ^ Suc i" by (simp only: power_mult)
      have "r dvd (b ^ 2 ^ 31) ^ Suc i - (- 1) ^ Suc i" using m1 using diff_dvd_power [of "b ^ 2 ^ 31" "- 1"] by (metis diff_minus_eq_add dvd_trans)
      then have "r dvd (- 1) ^ Suc i" using d by (metis dvd_diff_right_iff)
      then have "r dvd (- 1) ^ Suc i * (- 1) ^ Suc i" by (rule dvd_mult2)
      then have "r dvd 1" by (simp flip: power_mult_distrib)
      then show False using r(2) by simp
    qed
    ultimately show "b ^ i mod r \<in> {1..<r}" by simp
  qed
  have "card ((\<lambda>i. b ^ i mod r) ` {..<2 ^ 32}) = 2 ^ 32" unfolding card_image [OF inj] by simp
  then have "2 ^ 32 \<le> card {1..<r}" using card_mono [OF finite_atLeastLessThan_int sub] by linarith
  then show ?thesis using r(2) by simp
qed

lemma gl_prime: "prime_modulus gl_p"
  unfolding prime_modulus_def
proof (intro allI impI)
  fix v :: int assume v: "0 < v \<and> v < gl_p"
  let ?g = "gcd v gl_p"
  show "coprime v gl_p"
  proof (rule ccontr)
    assume "\<not> coprime v gl_p"
    then have "?g \<noteq> 1" by (simp add: coprime_iff_gcd_eq_1)
    moreover have "0 < ?g" using v by simp
    ultimately have g: "1 < ?g" by linarith
    obtain h where h: "gl_p = ?g * h" using gcd_dvd2 [of v gl_p] by (auto simp: dvd_def)
    have "?g \<le> v" using v by (intro zdvd_imp_le) simp_all
    then have "?g * 1 < ?g * h" using v h by linarith
    then have h1: "1 < h" using g mult_less_cancel_left_pos [of ?g 1 h] by linarith
    have "2 ^ 32 < ?g" by (rule divisor_large [OF _ g gl_root]) simp
    moreover have "2 ^ 32 < h" by (rule divisor_large [OF _ h1 gl_root]) (metis dvd_triv_right h)
    ultimately have "2 ^ 32 * 2 ^ 32 < ?g * h" using g by (intro mult_strict_mono) (linarith | simp)+
    then show False using h by (simp add: gl_p_def)
  qed
qed

subsection \<open>The field\<close>

typedef gl = "{0..<gl_p}"
  by (rule exI [of _ 0]) (simp add: gl_p_def)

setup_lifting type_definition_gl

lemma gl_range: "x mod gl_p \<in> {0..<gl_p}"
  by (simp add: gl_p_def)

instantiation gl :: field
begin

lift_definition zero_gl :: gl is 0 by (simp add: gl_p_def)
lift_definition one_gl :: gl is 1 by (simp add: gl_p_def)
lift_definition plus_gl :: "gl \<Rightarrow> gl \<Rightarrow> gl" is "\<lambda>x y. (x + y) mod gl_p" by (rule gl_range)
lift_definition minus_gl :: "gl \<Rightarrow> gl \<Rightarrow> gl" is "\<lambda>x y. (x - y) mod gl_p" by (rule gl_range)
lift_definition uminus_gl :: "gl \<Rightarrow> gl" is "\<lambda>x. (- x) mod gl_p" by (rule gl_range)
lift_definition times_gl :: "gl \<Rightarrow> gl \<Rightarrow> gl" is "\<lambda>x y. (x * y) mod gl_p" by (rule gl_range)
lift_definition inverse_gl :: "gl \<Rightarrow> gl" is "\<lambda>x. if x = 0 then 0 else fst (bezw (nat x) (nat gl_p)) mod gl_p"
  by (simp add: gl_p_def)

definition divide_gl :: "gl \<Rightarrow> gl \<Rightarrow> gl" where
  "divide_gl x y = x * inverse y"

lemma inverse_law: "x \<in> {0..<gl_p} \<Longrightarrow> x \<noteq> 0 \<Longrightarrow> (fst (bezw (nat x) (nat gl_p)) mod gl_p * x) mod gl_p = 1"
proof -
  assume x: "x \<in> {0..<gl_p}" "x \<noteq> 0"
  then have "coprime x gl_p" using gl_prime unfolding prime_modulus_def by simp
  moreover have n: "int (nat x) = x" "int (nat gl_p) = gl_p" using x by simp_all
  ultimately have "int (gcd (nat x) (nat gl_p)) = 1" by (metis gcd_int_int_eq coprime_iff_gcd_eq_1)
  then have "1 = fst (bezw (nat x) (nat gl_p)) * x + snd (bezw (nat x) (nat gl_p)) * gl_p"
    using bezw_aux [of "nat x" "nat gl_p"] n by simp
  then have "fst (bezw (nat x) (nat gl_p)) * x = 1 + gl_p * (- snd (bezw (nat x) (nat gl_p)))" by (simp add: algebra_simps)
  then have "(fst (bezw (nat x) (nat gl_p)) * x) mod gl_p = 1 mod gl_p" by (metis mod_mult_self2)
  then show ?thesis by (simp add: mod_mult_left_eq gl_p_def)
qed

instance
proof
  fix a b c :: gl
  show "a * b * c = a * (b * c)" by transfer (simp add: mod_simps mult.assoc)
  show "a * b = b * a" by transfer (simp add: mult.commute)
  show "1 * a = a" by transfer simp
  show "a + b + c = a + (b + c)" by transfer (simp add: mod_simps add.assoc)
  show "a + b = b + a" by transfer (simp add: add.commute)
  show "0 + a = a" by transfer simp
  show "- a + a = 0" by transfer (simp add: mod_simps)
  show "a - b = a + - b" by transfer (simp add: mod_simps)
  show "(a + b) * c = a * c + b * c" by transfer (simp add: mod_simps distrib_right)
  show "(0 :: gl) \<noteq> 1" by transfer simp
  show "a \<noteq> 0 \<Longrightarrow> inverse a * a = 1" by transfer (simp only: inverse_law if_False simp_thms not_False_eq_True)
  show "a div b = a * inverse b" by (simp add: divide_gl_def)
  show "inverse (0 :: gl) = 0" by transfer simp
qed

end

lemma of_int_gl: "of_int v = (0 :: gl) \<longleftrightarrow> v mod gl_p = 0"
proof -
  have n: "Rep_gl (of_nat k) = int k mod gl_p" for k
    by (induction k) (simp_all add: zero_gl.rep_eq plus_gl.rep_eq one_gl.rep_eq mod_simps)
  have "Rep_gl (of_int v) = v mod gl_p"
    by (cases v rule: int_cases2) (simp_all add: n uminus_gl.rep_eq mod_simps)
  then show ?thesis by (metis Rep_gl_inject zero_gl.rep_eq)
qed

lemma gl_char: "of_int gl_p = (0 :: gl)"
  by (simp add: of_int_gl)

subsection \<open>The runtime over it\<close>

definition gl_params :: fr_params where
  "gl_params = render_params gl_p 4294967297"

lemma gl_bits: "bigint_bits gl_p = 64"
proof -
  have "(2::int) ^ 63 \<le> gl_p" "gl_p < 2 ^ 64" by (simp_all add: gl_p_def)
  moreover have "0 < gl_p" by (simp add: gl_p_def)
  ultimately have h: "(2::int) ^ 63 < 2 ^ bigint_bits gl_p" "(2::int) ^ (bigint_bits gl_p - 1) < 2 ^ 64"
    using bigint_bits_bounds [of gl_p] by linarith+
  have "63 < bigint_bits gl_p" "bigint_bits gl_p - 1 < 64"
    by (rule power_less_imp_less_exp [OF _ h(1)], simp, rule power_less_imp_less_exp [OF _ h(2)], simp)
  then show ?thesis by simp
qed

lemma gl_params_fields: "fr_n64 gl_params = 1" "qv gl_params = gl_p" "Rv gl_params = 2 ^ 64" "cannotOptimize gl_params"
proof -
  have "0 < gl_p" by (simp add: gl_p_def)
  note l = render_params_limbs [OF this gl_params_def]
  show "fr_n64 gl_params = 1" by (simp add: gl_params_def render_params_def gl_bits Let_def)
  then show "Rv gl_params = 2 ^ 64" by (simp add: Rv_def B64_def)
  show "qv gl_params = gl_p" using l by simp
  show "cannotOptimize gl_params" by (simp add: gl_params_def render_params_def gl_bits Let_def) (simp add: gl_p_def)
qed

lemma gl_fr_field: "fr_field mpn_ref gl_params"
proof -
  have "fr_params_ok gl_params"
    by (rule render_params_ok_aux [OF gl_params_def]) (simp_all add: gl_params_fields B64_def, simp_all add: gl_p_def)
  then show ?thesis by (simp add: fr_field_def fr_field_axioms_def gmp_ref.mpn_lib_axioms)
qed

definition gl_globals :: fr_globals where
  "gl_globals = snd (Fr_init mpz_ref gl_params
     \<lparr>initialized = False, mpz_q = 0, mpz_zero = 0, mpz_one = 0, mpz_mask = 0, nBits = 0\<rparr>)"

interpretation gl_gmp: fr_mpz mpn_ref gl_params mpz_ref gl_globals
proof -
  have "globals_ok gl_params gl_globals"
    unfolding gl_globals_def using Fr_init_ok [OF gmp_mpz.mpz_lib_axioms gl_fr_field] by simp
  then show "fr_mpz mpn_ref gl_params mpz_ref gl_globals"
    by (simp add: fr_mpz_def fr_mpz_axioms_def gl_fr_field gmp_mpz.mpz_lib_axioms)
qed

definition gl_RawFq :: "limbs base_ops" where
  "gl_RawFq = RawFq_ops mpz_ref mpn_ref gl_params gl_globals (the (new_RawFr mpz_ref mpn_ref gl_params gl_globals))"

text \<open>\<open>2 ^ 64 * (2 ^ 32 - 1) = 2 ^ 96 - 2 ^ 64\<close>, and \<open>2 ^ 96\<close> is minus one; its inverse is \<open>- 2 ^ 32\<close>.\<close>

definition gl_ok :: "limbs \<Rightarrow> bool" where
  "gl_ok = Fq_ok gl_params"

definition gl_val :: "limbs \<Rightarrow> gl" where
  "gl_val = Fq_val (- (2 ^ 32))"

interpretation gl_RawFq: base_field gl_RawFq gl_ok gl_val
proof -
  obtain z e n where n: "new_RawFr mpz_ref mpn_ref gl_params gl_globals = Some (z, e, n)" using gl_gmp.fe_new by blast
  have r: "(Rv gl_params * - (2 ^ 32)) mod qv gl_params = 1 mod qv gl_params" by (simp add: gl_params_fields gl_p_def)
  show "base_field gl_RawFq gl_ok gl_val"
    unfolding gl_RawFq_def n option.sel gl_ok_def gl_val_def
    by (rule gl_gmp.RawFq_base_field [OF n r]) (simp_all add: gl_params_fields gl_prime gl_char)
qed

end
