(* ===== verification/CurveOps.thy ===== *)
theory CurveOps
  imports GoldilocksField GroupMul
begin

text \<open>
  The class \<open>Curve\<close> (\<open>ffiasm/c/curve.cpp\<close>, \<open>curve.hpp\<close>): points of \<open>y^2 = x^3 + a x + b\<close> in the
  coordinates \<open>x = X / ZZ\<close>, \<open>y = Y / ZZZ\<close> with \<open>ZZ^3 = ZZZ^2\<close>, over a base field that is a parameter.
  The operations are proved to implement the law of chord and tangent, and so to give what the
  scalar multiplication expects of a group. In every operation the result may be one of the operands:
  a coordinate of an operand is read before the same coordinate of the result is written, and the
  code keeps what it needs later in local variables.
\<close>

subsection \<open>The operations\<close>

datatype type_of_a = a_is_zero | a_is_one | a_is_negone | a_is_long

record 'e Point =
  px :: 'e
  py :: 'e
  pzz :: 'e
  pzzz :: 'e

record 'e PointAffine =
  ax :: 'e
  ay :: 'e

record 'e Curve =
  C_F :: "'e base_ops"
  C_typeOfA :: type_of_a
  C_fa :: 'e
  C_fb :: 'e
  C_fone :: "'e Point"
  C_fzero :: "'e Point"
  C_foneAffine :: "'e PointAffine"
  C_fzeroAffine :: "'e PointAffine"

definition initCurve :: "'e base_ops \<Rightarrow> 'e \<Rightarrow> 'e \<Rightarrow> 'e \<Rightarrow> 'e \<Rightarrow> 'e Curve" where
  "initCurve F aa ab agx agy =
     \<lparr>C_F = F,
      C_typeOfA = (if b_isZero F aa then a_is_zero
                   else if b_eq F aa (b_one F) then a_is_one
                   else if b_eq F aa (b_negOne F) then a_is_negone
                   else a_is_long),
      C_fa = aa, C_fb = ab,
      C_fone = \<lparr>px = agx, py = agy, pzz = b_one F, pzzz = b_one F\<rparr>,
      C_fzero = \<lparr>px = b_one F, py = b_one F, pzz = b_zero F, pzzz = b_zero F\<rparr>,
      C_foneAffine = \<lparr>ax = agx, ay = agy\<rparr>,
      C_fzeroAffine = \<lparr>ax = b_zero F, ay = b_zero F\<rparr>\<rparr>"

definition new_Curve :: "'e base_ops \<Rightarrow> string \<Rightarrow> string \<Rightarrow> string \<Rightarrow> string \<Rightarrow> 'e Curve option" where
  "new_Curve F as bs gxs gys =
     (case (b_fromString F as, b_fromString F bs, b_fromString F gxs, b_fromString F gys) of
        (Some aa, Some ab, Some agx, Some agy) \<Rightarrow> Some (initCurve F aa ab agx agy)
      | _ \<Rightarrow> None)"

definition Curve_mulByA :: "'e Curve \<Rightarrow> 'e \<Rightarrow> 'e" where
  "Curve_mulByA C ab =
     (case C_typeOfA C of
        a_is_zero \<Rightarrow> b_zero (C_F C)
      | a_is_one \<Rightarrow> ab
      | a_is_negone \<Rightarrow> b_neg (C_F C) ab
      | a_is_long \<Rightarrow> b_mul (C_F C) (C_fa C) ab)"

definition Curve_isZero :: "'e Curve \<Rightarrow> 'e Point \<Rightarrow> bool" where
  "Curve_isZero C p1 \<longleftrightarrow> b_isZero (C_F C) (pzz p1)"

definition Curve_isZeroA :: "'e Curve \<Rightarrow> 'e PointAffine \<Rightarrow> bool" where
  "Curve_isZeroA C p1 \<longleftrightarrow> b_isZero (C_F C) (ax p1) \<and> b_isZero (C_F C) (ay p1)"

text \<open>The four overloadings of \<open>copy\<close>; that of a point to a point, or of an affine to an affine one, is the identity.\<close>

definition Curve_fromAffine :: "'e Curve \<Rightarrow> 'e PointAffine \<Rightarrow> 'e Point" where
  "Curve_fromAffine C a =
     (let F = C_F C
      in if Curve_isZeroA C a then \<lparr>px = b_one F, py = b_one F, pzz = b_zero F, pzzz = b_zero F\<rparr>
         else \<lparr>px = ax a, py = ay a, pzz = b_one F, pzzz = b_one F\<rparr>)"

definition Curve_toAffine :: "'e Curve \<Rightarrow> 'e Point \<Rightarrow> 'e PointAffine option" where
  "Curve_toAffine C a =
     (let F = C_F C
      in if Curve_isZero C a then Some \<lparr>ax = b_zero F, ay = b_zero F\<rparr>
         else case (b_div F (px a) (pzz a), b_div F (py a) (pzzz a)) of
                (Some x, Some y) \<Rightarrow> Some \<lparr>ax = x, ay = y\<rparr>
              | _ \<Rightarrow> None)"

definition Curve_dbl :: "'e Curve \<Rightarrow> 'e Point \<Rightarrow> 'e Point" where
  "Curve_dbl C p1 =
     (let F = C_F C
      in if Curve_isZero C p1 then p1
         else let U = b_add F (py p1) (py p1);
                  V = b_square F U;
                  W = b_mul F U V;
                  S = b_mul F (px p1) V;
                  M = b_square F (px p1);
                  tmp = b_add F M M;
                  M = b_add F M tmp;
                  M = (if C_typeOfA C \<noteq> a_is_zero
                       then let tmp = b_square F (pzz p1);
                                tmp = Curve_mulByA C tmp
                            in b_add F M tmp
                       else M);
                  x3 = b_square F M;
                  x3 = b_sub F x3 S;
                  x3 = b_sub F x3 S;
                  tmp = b_mul F W (py p1);
                  y3 = b_sub F S x3;
                  y3 = b_mul F M y3;
                  y3 = b_sub F y3 tmp;
                  zz3 = b_mul F V (pzz p1);
                  zzz3 = b_mul F W (pzzz p1)
              in \<lparr>px = x3, py = y3, pzz = zz3, pzzz = zzz3\<rparr>)"

definition Curve_dblA :: "'e Curve \<Rightarrow> 'e PointAffine \<Rightarrow> 'e Point" where
  "Curve_dblA C p1 =
     (let F = C_F C
      in if Curve_isZeroA C p1 then Curve_fromAffine C p1
         else let U = b_add F (ay p1) (ay p1);
                  zz3 = b_square F U;
                  zzz3 = b_mul F U zz3;
                  S = b_mul F (ax p1) zz3;
                  M = b_square F (ax p1);
                  tmp = b_add F M M;
                  M = b_add F tmp M;
                  M = b_add F M (C_fa C);
                  x3 = b_square F M;
                  x3 = b_sub F x3 S;
                  x3 = b_sub F x3 S;
                  tmp = b_mul F zzz3 (ay p1);
                  y3 = b_sub F S x3;
                  y3 = b_mul F M y3;
                  y3 = b_sub F y3 tmp
              in \<lparr>px = x3, py = y3, pzz = zz3, pzzz = zzz3\<rparr>)"

definition Curve_add :: "'e Curve \<Rightarrow> 'e Point \<Rightarrow> 'e Point \<Rightarrow> 'e Point" where
  "Curve_add C p1 p2 =
     (let F = C_F C
      in if Curve_isZero C p1 then p2
         else if Curve_isZero C p2 then p1
         else let U1 = b_mul F (px p1) (pzz p2);
                  U2 = b_mul F (px p2) (pzz p1);
                  S1 = b_mul F (py p1) (pzzz p2);
                  S2 = b_mul F (py p2) (pzzz p1);
                  P = b_sub F U2 U1;
                  R = b_sub F S2 S1
              in if b_isZero F P \<and> b_isZero F R then Curve_dbl C p1
                 else let PP = b_square F P;
                          PPP = b_mul F P PP;
                          Q = b_mul F U1 PP;
                          x3 = b_square F R;
                          x3 = b_sub F x3 PPP;
                          x3 = b_sub F x3 Q;
                          x3 = b_sub F x3 Q;
                          tmp = b_mul F S1 PPP;
                          y3 = b_sub F Q x3;
                          y3 = b_mul F y3 R;
                          y3 = b_sub F y3 tmp;
                          zz3 = b_mul F (pzz p1) (pzz p2);
                          zz3 = b_mul F zz3 PP;
                          zzz3 = b_mul F (pzzz p1) (pzzz p2);
                          zzz3 = b_mul F zzz3 PPP
                      in \<lparr>px = x3, py = y3, pzz = zz3, pzzz = zzz3\<rparr>)"

definition Curve_addM :: "'e Curve \<Rightarrow> 'e Point \<Rightarrow> 'e PointAffine \<Rightarrow> 'e Point" where
  "Curve_addM C p1 p2 =
     (let F = C_F C
      in if Curve_isZero C p1 then Curve_fromAffine C p2
         else if Curve_isZeroA C p2 then p1
         else let U2 = b_mul F (ax p2) (pzz p1);
                  S2 = b_mul F (ay p2) (pzzz p1);
                  P = b_sub F U2 (px p1);
                  R = b_sub F S2 (py p1)
              in if b_isZero F P \<and> b_isZero F R then Curve_dblA C p2
                 else let PP = b_square F P;
                          PPP = b_mul F P PP;
                          Q = b_mul F (px p1) PP;
                          x3 = b_square F R;
                          x3 = b_sub F x3 PPP;
                          x3 = b_sub F x3 Q;
                          x3 = b_sub F x3 Q;
                          tmp = b_mul F (py p1) PPP;
                          y3 = b_sub F Q x3;
                          y3 = b_mul F y3 R;
                          y3 = b_sub F y3 tmp;
                          zz3 = b_mul F (pzz p1) PP;
                          zzz3 = b_mul F (pzzz p1) PPP
                      in \<lparr>px = x3, py = y3, pzz = zz3, pzzz = zzz3\<rparr>)"

definition Curve_addA :: "'e Curve \<Rightarrow> 'e PointAffine \<Rightarrow> 'e PointAffine \<Rightarrow> 'e Point" where
  "Curve_addA C p1 p2 =
     (let F = C_F C
      in if Curve_isZeroA C p1 then Curve_fromAffine C p2
         else if Curve_isZeroA C p2 then Curve_fromAffine C p1
         else let P = b_sub F (ax p2) (ax p1);
                  R = b_sub F (ay p2) (ay p1)
              in if b_isZero F P \<and> b_isZero F R then Curve_dblA C p2
                 else let PP = b_square F P;
                          PPP = b_mul F P PP;
                          Q = b_mul F (ax p1) PP;
                          x3 = b_square F R;
                          x3 = b_sub F x3 PPP;
                          x3 = b_sub F x3 Q;
                          x3 = b_sub F x3 Q;
                          tmp = b_mul F (ay p1) PPP;
                          y3 = b_sub F Q x3;
                          y3 = b_mul F y3 R;
                          y3 = b_sub F y3 tmp
                      in \<lparr>px = x3, py = y3, pzz = PP, pzzz = PPP\<rparr>)"

definition Curve_eq :: "'e Curve \<Rightarrow> 'e Point \<Rightarrow> 'e Point \<Rightarrow> bool" where
  "Curve_eq C p1 p2 \<longleftrightarrow>
     (let F = C_F C
      in if Curve_isZero C p1 then Curve_isZero C p2
         else let U1 = b_mul F (px p1) (pzz p2);
                  U2 = b_mul F (px p2) (pzz p1);
                  S1 = b_mul F (py p1) (pzzz p2);
                  S2 = b_mul F (py p2) (pzzz p1);
                  P = b_sub F U2 U1;
                  R = b_sub F S2 S1
              in b_isZero F P \<and> b_isZero F R)"

definition Curve_eqM :: "'e Curve \<Rightarrow> 'e Point \<Rightarrow> 'e PointAffine \<Rightarrow> bool" where
  "Curve_eqM C p1 p2 \<longleftrightarrow>
     (let F = C_F C
      in if Curve_isZero C p1 then Curve_isZeroA C p2
         else let U2 = b_mul F (ax p2) (pzz p1);
                  S2 = b_mul F (ay p2) (pzzz p1);
                  P = b_sub F U2 (px p1);
                  R = b_sub F S2 (py p1)
              in b_isZero F P \<and> b_isZero F R)"

definition Curve_eqA :: "'e Curve \<Rightarrow> 'e PointAffine \<Rightarrow> 'e PointAffine \<Rightarrow> bool" where
  "Curve_eqA C p1 p2 \<longleftrightarrow> b_eq (C_F C) (ax p1) (ax p2) \<and> b_eq (C_F C) (ay p1) (ay p2)"

text \<open>The four overloadings of \<open>neg\<close>.\<close>

definition Curve_neg :: "'e Curve \<Rightarrow> 'e Point \<Rightarrow> 'e Point" where
  "Curve_neg C a = a\<lparr>py := b_neg (C_F C) (py a)\<rparr>"

definition Curve_negFromAffine :: "'e Curve \<Rightarrow> 'e PointAffine \<Rightarrow> 'e Point" where
  "Curve_negFromAffine C a =
     (let F = C_F C in \<lparr>px = ax a, py = b_neg F (ay a), pzz = b_one F, pzzz = b_one F\<rparr>)"

definition Curve_negToAffine :: "'e Curve \<Rightarrow> 'e Point \<Rightarrow> 'e PointAffine option" where
  "Curve_negToAffine C a =
     (let F = C_F C
      in if Curve_isZero C a then Some \<lparr>ax = b_zero F, ay = b_zero F\<rparr>
         else case (b_div F (px a) (pzz a), b_div F (py a) (pzzz a)) of
                (Some x, Some y) \<Rightarrow> Some \<lparr>ax = x, ay = b_neg F y\<rparr>
              | _ \<Rightarrow> None)"

definition Curve_negA :: "'e Curve \<Rightarrow> 'e PointAffine \<Rightarrow> 'e PointAffine" where
  "Curve_negA C a = a\<lparr>ay := b_neg (C_F C) (ay a)\<rparr>"

definition Curve_sub :: "'e Curve \<Rightarrow> 'e Point \<Rightarrow> 'e Point \<Rightarrow> 'e Point" where
  "Curve_sub C p1 p2 = (let tmp = Curve_neg C p2 in Curve_add C p1 tmp)"

definition Curve_subM :: "'e Curve \<Rightarrow> 'e Point \<Rightarrow> 'e PointAffine \<Rightarrow> 'e Point" where
  "Curve_subM C p1 p2 = (let tmp = Curve_negA C p2 in Curve_addM C p1 tmp)"

definition Curve_subA :: "'e Curve \<Rightarrow> 'e PointAffine \<Rightarrow> 'e PointAffine \<Rightarrow> 'e Point" where
  "Curve_subA C p1 p2 = (let tmp = Curve_negA C p2 in Curve_addA C p1 tmp)"

definition Curve_toString :: "'e Curve \<Rightarrow> 'e Point \<Rightarrow> string option" where
  "Curve_toString C p =
     map_option (\<lambda>tmp. ''('' @ b_toString (C_F C) (ax tmp) @ '','' @ b_toString (C_F C) (ay tmp) @ '')'') (Curve_toAffine C p)"

text \<open>The operations that the scalar multiplication and the prover use.\<close>

definition Curve_group :: "'e Curve \<Rightarrow> ('e Point, 'e PointAffine) curve_ops" where
  "Curve_group C =
     \<lparr>g_zero = C_fzero C, g_add = Curve_add C, g_addA = Curve_addM C, g_sub = Curve_sub C, g_subA = Curve_subM C,
      g_dbl = Curve_dbl C, g_neg = Curve_neg C, g_negA = Curve_negFromAffine C, g_fromAffine = Curve_fromAffine C,
      g_toAffine = \<lambda>p. the (Curve_toAffine C p)\<rparr>"

subsection \<open>Chord and tangent\<close>

text \<open>The points of the curve: the affine ones, and the one at infinity.\<close>

type_synonym 'k affine = "('k \<times> 'k) option"

definition on_curve :: "'k::field \<Rightarrow> 'k \<Rightarrow> 'k affine \<Rightarrow> bool" where
  "on_curve a b P = (case P of None \<Rightarrow> True | Some (x, y) \<Rightarrow> y * y = x * x * x + a * x + b)"

definition aff_neg :: "'k::field affine \<Rightarrow> 'k affine" where
  "aff_neg P = map_option (\<lambda>(x, y). (x, - y)) P"

text \<open>The third point of the line of slope \<open>m\<close>, reflected.\<close>

definition line_point :: "'k::field \<Rightarrow> 'k \<Rightarrow> 'k \<Rightarrow> 'k \<Rightarrow> 'k affine" where
  "line_point m x1 y1 x2 = (let x3 = m * m - x1 - x2 in Some (x3, m * (x1 - x3) - y1))"

definition aff_add :: "'k::field \<Rightarrow> 'k affine \<Rightarrow> 'k affine \<Rightarrow> 'k affine" where
  "aff_add a P Q =
     (case (P, Q) of
        (None, _) \<Rightarrow> Q
      | (_, None) \<Rightarrow> P
      | (Some (x1, y1), Some (x2, y2)) \<Rightarrow>
          if x1 \<noteq> x2 then line_point ((y2 - y1) / (x2 - x1)) x1 y1 x2
          else if y1 = y2 \<and> y1 \<noteq> 0 then line_point ((3 * (x1 * x1) + a) / (2 * y1)) x1 y1 x1
          else None)"

lemma aff_add_simps [simp]:
  "aff_add a None Q = Q" "aff_add a P None = P"
  by (simp_all add: aff_add_def split: option.splits)

lemma aff_neg_simps [simp]: "aff_neg None = None" "aff_neg (Some (x, y)) = Some (x, - y)"
  by (simp_all add: aff_neg_def)

lemma on_curve_neg: "on_curve a b P \<Longrightarrow> on_curve a b (aff_neg P)"
  by (auto simp: on_curve_def aff_neg_def split: option.splits)

text \<open>What four coordinates stand for. The point at infinity keeps a first coordinate that is not zero.\<close>

definition xyzz :: "'k::field \<Rightarrow> 'k \<Rightarrow> 'k \<Rightarrow> 'k \<Rightarrow> 'k affine \<Rightarrow> bool" where
  "xyzz X Y Z T P =
     (case P of None \<Rightarrow> Z = 0 \<and> X \<noteq> 0
      | Some (x, y) \<Rightarrow> Z \<noteq> 0 \<and> T \<noteq> 0 \<and> Z * Z * Z = T * T \<and> X = x * Z \<and> Y = y * T)"

lemma xyzz_simps [simp]:
  "xyzz X Y Z T None \<longleftrightarrow> Z = 0 \<and> X \<noteq> 0"
  "xyzz X Y Z T (Some (x, y)) \<longleftrightarrow> Z \<noteq> 0 \<and> T \<noteq> 0 \<and> Z * Z * Z = T * T \<and> X = x * Z \<and> Y = y * T"
  by (simp_all add: xyzz_def)

text \<open>The chord, in the coordinates of the code.\<close>

lemma xyzz_chord:
  fixes a :: "'k::field"
  assumes 1: "xyzz X1 Y1 Z1 T1 (Some (x1, y1))" and 2: "xyzz X2 Y2 Z2 T2 (Some (x2, y2))"
    and P: "P = X2 * Z1 - X1 * Z2" and R: "R = Y2 * T1 - Y1 * T2" and nz: "P \<noteq> 0 \<or> R \<noteq> 0"
    and X: "X3 = R * R - P * (P * P) - X1 * Z2 * (P * P) - X1 * Z2 * (P * P)"
    and Y: "Y3 = (X1 * Z2 * (P * P) - X3) * R - Y1 * T2 * (P * (P * P))"
  shows "xyzz X3 Y3 (Z1 * Z2 * (P * P)) (T1 * T2 * (P * (P * P))) (aff_add a (Some (x1, y1)) (Some (x2, y2)))"
proof -
  define Z T d e where "Z = Z1 * Z2" and "T = T1 * T2" and "d = x2 - x1" and "e = y2 - y1"
  have Z: "Z \<noteq> 0" "T \<noteq> 0" using 1 2 by (simp_all add: Z_def T_def)
  have "Z * Z * Z = Z1 * Z1 * Z1 * (Z2 * Z2 * Z2)" by (simp add: Z_def ac_simps)
  also have "\<dots> = T1 * T1 * (T2 * T2)" using 1 2 by simp
  finally have ZT: "Z * Z * Z = T * T" by (simp add: T_def ac_simps)
  have P': "P = Z * d" using 1 2 unfolding P Z_def d_def by (simp add: algebra_simps)
  have R': "R = T * e" using 1 2 unfolding R T_def e_def by (simp add: algebra_simps)
  have U: "X1 * Z2 = x1 * Z" "Y1 * T2 = y1 * T" using 1 by (simp_all add: Z_def T_def ac_simps)
  have "R * R = Z * Z * Z * (e * e)" unfolding R' ZT by (simp add: ac_simps)
  then have X3: "X3 = Z * Z * Z * (e * e - d * d * d - 2 * x1 * d * d)"
    unfolding X U P' by (simp add: algebra_simps)
  have Y3: "Y3 = T * (Z * Z * Z) * (e * (3 * x1 * d * d + d * d * d - e * e) - y1 * d * d * d)"
    unfolding Y U P' R' X3 by (simp add: algebra_simps)
  have ZZ: "Z1 * Z2 * (P * P) = Z * Z * Z * (d * d)" "T1 * T2 * (P * (P * P)) = T * (Z * Z * Z) * (d * d * d)"
    unfolding P' Z_def [symmetric] T_def [symmetric] by (simp_all add: ac_simps)
  show ?thesis
  proof (cases "d = 0")
    case True
    then have x: "x1 = x2" by (simp add: d_def)
    have e: "e \<noteq> 0" using nz P' R' True by auto
    then have "y1 \<noteq> y2" by (simp add: e_def)
    then have "aff_add a (Some (x1, y1)) (Some (x2, y2)) = None" using x by (simp add: aff_add_def)
    then show ?thesis using True Z e unfolding ZZ X3 by simp
  next
    case False
    then have x: "x1 \<noteq> x2" by (simp add: d_def)
    let ?m = "e / d"
    have m: "?m * d = e" using False by simp
    have x3: "(?m * ?m - x1 - x2) * (d * d) = e * e - d * d * d - 2 * x1 * d * d"
    proof -
      have "(?m * ?m - x1 - x2) * (d * d) = (?m * d) * (?m * d) - (2 * x1 + d) * (d * d)"
        by (simp add: d_def algebra_simps)
      then show ?thesis unfolding m by (simp add: algebra_simps)
    qed
    have y3: "(?m * (x1 - (?m * ?m - x1 - x2)) - y1) * (d * d * d) = e * (3 * x1 * d * d + d * d * d - e * e) - y1 * d * d * d"
    proof -
      have "(?m * (x1 - (?m * ?m - x1 - x2)) - y1) * (d * d * d) = ?m * d * (x1 * (d * d) - (?m * ?m - x1 - x2) * (d * d)) - y1 * (d * d * d)"
        by (simp add: algebra_simps)
      then show ?thesis unfolding m x3 by (simp add: algebra_simps)
    qed
    have add: "aff_add a (Some (x1, y1)) (Some (x2, y2)) = Some (?m * ?m - x1 - x2, ?m * (x1 - (?m * ?m - x1 - x2)) - y1)"
      using x by (simp add: aff_add_def line_point_def d_def e_def Let_def)
    have s: "Z * Z * Z * (d * d) * (Z * Z * Z * (d * d)) * (Z * Z * Z * (d * d)) =
        T * (Z * Z * Z) * (d * d * d) * (T * (Z * Z * Z) * (d * d * d))" (is "?l = ?r")
    proof -
      have "?l = Z * Z * Z * ((Z * Z * Z) * (Z * Z * Z) * (d * d * d) * (d * d * d))" by (simp only: ac_simps)
      also have "\<dots> = T * T * ((Z * Z * Z) * (Z * Z * Z) * (d * d * d) * (d * d * d))" by (simp only: ZT)
      finally show ?thesis by (simp only: ac_simps)
    qed
    show ?thesis unfolding add ZZ X3 Y3 xyzz_simps x3 [symmetric] y3 [symmetric]
      using s Z False by (simp add: ac_simps)
  qed
qed

text \<open>The tangent; where it is vertical, a curve without singular points has a slope that is not zero.\<close>

lemma xyzz_tangent:
  fixes a :: "'k::field"
  assumes 1: "xyzz X Y Z T (Some (x, y))" and c: "on_curve a b (Some (x, y))"
    and two: "(2 :: 'k) \<noteq> 0" and disc: "4 * (a * a * a) + 27 * (b * b) \<noteq> 0"
    and U: "U = Y + Y" and M: "M = X * X + (X * X + X * X) + a * (Z * Z)"
    and X3: "X3 = M * M - X * (U * U) - X * (U * U)"
    and Y3: "Y3 = M * (X * (U * U) - X3) - U * (U * U) * Y"
  shows "xyzz X3 Y3 (U * U * Z) (U * (U * U) * T) (aff_add a (Some (x, y)) (Some (x, y)))"
proof -
  define m where "m = 3 * (x * x) + a"
  have Z: "Z \<noteq> 0" "T \<noteq> 0" "T * T = Z * Z * Z" and XY: "X = x * Z" "Y = y * T" using 1 by simp_all
  have M': "M = Z * Z * m" unfolding M XY m_def by (simp add: algebra_simps)
  have "U * U = 4 * (y * y) * (T * T)" unfolding U XY by (simp add: algebra_simps)
  then have V: "U * U = 4 * (y * y) * (Z * Z * Z)" unfolding Z .
  have X': "X3 = Z * Z * Z * Z * (m * m - 8 * x * (y * y))" unfolding X3 V M' XY by (simp add: algebra_simps)
  have W: "U * (U * U) * T = 8 * (y * y * y) * (Z * Z * Z * (Z * Z * Z))"
  proof -
    have "U * (U * U) * T = 2 * y * T * T * (U * U)" unfolding U XY by (simp add: algebra_simps)
    also have "\<dots> = 2 * y * (T * T) * (U * U)" by (simp only: ac_simps)
    finally show ?thesis unfolding Z V by (simp add: ac_simps)
  qed
  have "U * (U * U) * Y = y * (U * (U * U) * T)" unfolding XY by (simp only: ac_simps)
  then have "Y3 = M * (X * (U * U) - X3) - y * (8 * (y * y * y) * (Z * Z * Z * (Z * Z * Z)))" unfolding Y3 W by simp
  then have Y': "Y3 = Z * Z * Z * (Z * Z * Z) * (m * (12 * x * (y * y) - m * m) - 8 * (y * y * y * y))"
    unfolding X' V M' XY by (simp add: algebra_simps)
  show ?thesis
  proof (cases "y = 0")
    case True
    have "m \<noteq> 0"
    proof
      assume "m = 0"
      then have a: "a = - 3 * (x * x)" by (simp add: m_def eq_neg_iff_add_eq_0 add.commute)
      have "x * x * x + a * x + b = 0" using c True by (simp add: on_curve_def)
      then have b: "b = 2 * (x * x * x)" unfolding a by (simp add: algebra_simps eq_neg_iff_add_eq_0)
      show False using disc unfolding a b by (simp add: algebra_simps)
    qed
    then show ?thesis using True Z unfolding X' V by (simp add: aff_add_def)
  next
    case False
    then have y2: "2 * y \<noteq> 0" using two by simp
    define n where "n = m / (2 * y)"
    have m: "n * (2 * y) = m" using y2 by (simp add: n_def)
    have x3: "(n * n - x - x) * (4 * (y * y)) = m * m - 8 * x * (y * y)"
    proof -
      have "(n * n - x - x) * (4 * (y * y)) = n * (2 * y) * (n * (2 * y)) - 8 * x * (y * y)"
        by (simp add: algebra_simps)
      then show ?thesis unfolding m .
    qed
    have y3: "(n * (x - (n * n - x - x)) - y) * (8 * (y * y * y)) = m * (12 * x * (y * y) - m * m) - 8 * (y * y * y * y)"
    proof -
      have "(n * (x - (n * n - x - x)) - y) * (8 * (y * y * y)) =
          n * (2 * y) * (x * (4 * (y * y)) - (n * n - x - x) * (4 * (y * y))) - 8 * (y * y * y * y)"
        by (simp add: algebra_simps)
      then show ?thesis unfolding m x3 by (simp add: algebra_simps)
    qed
    have add: "aff_add a (Some (x, y)) (Some (x, y)) = Some (n * n - x - x, n * (x - (n * n - x - x)) - y)"
      using False by (simp add: aff_add_def line_point_def n_def m_def Let_def)
    have nz: "4 * (y * y) * (Z * Z * Z) * Z \<noteq> 0" "8 * (y * y * y) * (Z * Z * Z * (Z * Z * Z)) \<noteq> 0"
    proof -
      have "4 * (y * y) = 2 * y * (2 * y)" "8 * (y * y * y) = 2 * y * (2 * y) * (2 * y)" by simp_all
      then show "4 * (y * y) * (Z * Z * Z) * Z \<noteq> 0" "8 * (y * y * y) * (Z * Z * Z * (Z * Z * Z)) \<noteq> 0"
        using y2 Z by (simp_all only: mult_eq_0_iff de_Morgan_disj simp_thms)
    qed
    show ?thesis unfolding add W X' Y' xyzz_simps x3 [symmetric] y3 [symmetric] unfolding V
      using nz by (simp add: ac_simps)
  qed
qed

text \<open>The sum of two points of the curve is one.\<close>

lemma line_point_on_curve:
  fixes a :: "'k::field"
  assumes 1: "y1 * y1 = x1 * x1 * x1 + a * x1 + b" and m: "x1 * x1 + x1 * x2 + x2 * x2 + a = m * m * (x2 - x1) + 2 * m * y1"
  shows "on_curve a b (line_point m x1 y1 x2)"
proof -
  define x3 where "x3 = m * m - x1 - x2"
  have mm: "m * m = x1 + x2 + x3" by (simp add: x3_def)
  have a: "a = m * m * (x2 - x1) + 2 * m * y1 - (x1 * x1 + x1 * x2 + x2 * x2)" using m by (simp add: algebra_simps)
  have "(m * (x1 - x3) - y1) * (m * (x1 - x3) - y1) = (m * m) * (x1 - x3) * (x1 - x3) - 2 * m * y1 * (x1 - x3) + y1 * y1"
    by (simp add: algebra_simps)
  also have "\<dots> = x3 * x3 * x3 + a * x3 + b" unfolding 1 unfolding a mm by (simp add: algebra_simps)
  finally show ?thesis by (simp add: on_curve_def line_point_def Let_def x3_def)
qed

lemma on_curve_add:
  fixes a :: "'k::field"
  assumes "on_curve a b P" "on_curve a b Q" and two: "(2 :: 'k) \<noteq> 0"
  shows "on_curve a b (aff_add a P Q)"
proof (cases "P = None \<or> Q = None")
  case True
  then show ?thesis using assms by auto
next
  case False
  then obtain x1 y1 x2 y2 where PQ: "P = Some (x1, y1)" "Q = Some (x2, y2)" by auto
  have c: "y1 * y1 = x1 * x1 * x1 + a * x1 + b" "y2 * y2 = x2 * x2 * x2 + a * x2 + b"
    using assms(1,2) by (simp_all add: PQ on_curve_def)
  show ?thesis
  proof (cases "x1 = x2")
    case x: False
    let ?m = "(y2 - y1) / (x2 - x1)" and ?d = "x2 - x1"
    have d: "?d \<noteq> 0" using x by simp
    then have md: "?m * ?d = y2 - y1" by simp
    have "(?m * ?m * ?d + 2 * ?m * y1) * ?d = (?m * ?d) * (?m * ?d) + 2 * (?m * ?d) * y1" by (simp only: algebra_simps)
    also have "\<dots> = y2 * y2 - y1 * y1" unfolding md by (simp add: algebra_simps)
    also have "\<dots> = (x1 * x1 + x1 * x2 + x2 * x2 + a) * ?d" unfolding c by (simp add: algebra_simps)
    finally have "x1 * x1 + x1 * x2 + x2 * x2 + a = ?m * ?m * ?d + 2 * ?m * y1" using d by simp
    from line_point_on_curve [OF c(1) this] show ?thesis using x by (simp add: PQ aff_add_def)
  next
    case x: True
    have t: "x1 * x1 + x1 * x1 + x1 * x1 + a = m * m * (x1 - x1) + 2 * m * y1"
      if "m = (3 * (x1 * x1) + a) / (2 * y1)" "y1 \<noteq> 0" for m
    proof -
      have "m * (2 * y1) = 3 * (x1 * x1) + a" using that two by simp
      then show ?thesis by (simp add: algebra_simps)
    qed
    show ?thesis using x line_point_on_curve [OF c(1) t] by (auto simp: PQ aff_add_def on_curve_def [of _ _ None])
  qed
qed

subsection \<open>The operations implement it\<close>

definition point_at :: "('e \<Rightarrow> bool) \<Rightarrow> ('e \<Rightarrow> 'k::field) \<Rightarrow> 'e Point \<Rightarrow> 'k affine \<Rightarrow> bool" where
  "point_at ok val p P \<longleftrightarrow>
     ok (px p) \<and> ok (py p) \<and> ok (pzz p) \<and> ok (pzzz p) \<and> xyzz (val (px p)) (val (py p)) (val (pzz p)) (val (pzzz p)) P"

definition aff_at :: "('e \<Rightarrow> bool) \<Rightarrow> ('e \<Rightarrow> 'k::field) \<Rightarrow> 'e PointAffine \<Rightarrow> 'k affine \<Rightarrow> bool" where
  "aff_at ok val p P \<longleftrightarrow> ok (ax p) \<and> ok (ay p) \<and> (val (ax p), val (ay p)) = (case P of None \<Rightarrow> (0, 0) | Some (x, y) \<Rightarrow> (x, y))"

text \<open>
  A curve without singular points over a field where two is not zero. The affine point \<open>(0, 0)\<close> stands
  for infinity, so it must not be on the curve.
\<close>

locale curve = base_field F ok val
  for F :: "'e base_ops" and ok :: "'e \<Rightarrow> bool" and val :: "'e \<Rightarrow> 'k::field" +
  fixes C :: "'e Curve" and aa ab gx gy :: 'e and a b :: 'k
  assumes C: "C = initCurve F aa ab gx gy"
    and coefs: "ok aa" "ok ab" "val aa = a" "val ab = b"
    and two: "(2 :: 'k) \<noteq> 0" and disc: "4 * (a * a * a) + 27 * (b * b) \<noteq> 0" and b_nz: "b \<noteq> 0"
begin

abbreviation pt :: "'e Point \<Rightarrow> 'k affine \<Rightarrow> bool" where
  "pt p P \<equiv> point_at ok val p P \<and> on_curve a b P"

abbreviation apt :: "'e PointAffine \<Rightarrow> 'k affine \<Rightarrow> bool" where
  "apt p P \<equiv> aff_at ok val p P \<and> on_curve a b P"

lemma C_simps [simp]: "C_F C = F" "C_fa C = aa" "C_fb C = ab"
  "C_fzero C = \<lparr>px = b_one F, py = b_one F, pzz = b_zero F, pzzz = b_zero F\<rparr>"
  "C_fzeroAffine C = \<lparr>ax = b_zero F, ay = b_zero F\<rparr>"
  by (simp_all add: C initCurve_def)

lemma typeOfA: "C_typeOfA C = a_is_zero \<longleftrightarrow> a = 0"
  using coefs by (simp add: C initCurve_def)

lemma mulByA [simp]: "ok e \<Longrightarrow> ok (Curve_mulByA C e)" "ok e \<Longrightarrow> val (Curve_mulByA C e) = a * val e"
  using coefs by (auto simp: C initCurve_def Curve_mulByA_def)

lemma isZero_point: "point_at ok val p P \<Longrightarrow> Curve_isZero C p \<longleftrightarrow> P = None"
  by (cases P) (auto simp: Curve_isZero_def point_at_def)

lemma not_origin: "on_curve a b (Some (x, y)) \<Longrightarrow> x \<noteq> 0 \<or> y \<noteq> 0"
  using b_nz by (auto simp: on_curve_def)

lemma isZero_aff: "apt p P \<Longrightarrow> Curve_isZeroA C p \<longleftrightarrow> P = None"
  using not_origin by (cases P) (auto simp: Curve_isZeroA_def aff_at_def)

lemma zero_point: "pt (C_fzero C) None"
  by (simp add: point_at_def on_curve_def)

lemma fromAffine_point: "apt p P \<Longrightarrow> point_at ok val (Curve_fromAffine C p) P"
  using isZero_aff [of p P] by (cases P) (auto simp: Curve_fromAffine_def Let_def aff_at_def point_at_def)

lemma dbl_point:
  assumes "pt p P"
  shows "point_at ok val (Curve_dbl C p) (aff_add a P P)"
proof (cases P)
  case None
  then show ?thesis using assms isZero_point [of p P] by (simp add: Curve_dbl_def Let_def)
next
  case (Some xy)
  obtain x y where xy: "xy = (x, y)" by (cases xy)
  have o: "ok (px p)" "ok (py p)" "ok (pzz p)" "ok (pzzz p)"
    and z: "xyzz (val (px p)) (val (py p)) (val (pzz p)) (val (pzzz p)) (Some (x, y))"
    using assms by (simp_all add: point_at_def Some xy)
  have c: "on_curve a b (Some (x, y))" using assms by (simp add: Some xy)
  have nz: "\<not> Curve_isZero C p" using assms isZero_point [of p P] by (simp add: Some)
  note t = xyzz_tangent [OF z c two disc refl refl refl refl]
  show ?thesis unfolding Some xy
    using t o nz typeOfA by (cases "a = 0") (simp_all add: Curve_dbl_def Let_def point_at_def del: xyzz_simps)
qed

lemma fromAffine_xyzz: "apt p (Some (x, y)) \<Longrightarrow> xyzz (val (ax p)) (val (ay p)) 1 1 (Some (x, y))"
  by (simp add: aff_at_def)

lemma dblA_point:
  assumes "apt p P"
  shows "point_at ok val (Curve_dblA C p) (aff_add a P P)"
proof (cases P)
  case None
  then show ?thesis using assms isZero_aff [of p P] fromAffine_point [of p P] by (simp add: Curve_dblA_def Let_def)
next
  case (Some xy)
  obtain x y where xy: "xy = (x, y)" by (cases xy)
  have o: "ok (ax p)" "ok (ay p)" using assms by (simp_all add: aff_at_def)
  have A: "apt p (Some (x, y))" using assms by (simp add: Some xy)
  then have z: "xyzz (val (ax p)) (val (ay p)) 1 1 (Some (x, y))" and c: "on_curve a b (Some (x, y))"
    using fromAffine_xyzz by blast+
  have nz: "\<not> Curve_isZeroA C p" using assms isZero_aff [of p P] by (simp add: Some)
  note t = xyzz_tangent [OF z c two disc refl refl refl refl]
  show ?thesis unfolding Some xy
    using t o nz coefs by (simp add: Curve_dblA_def Let_def point_at_def add.assoc del: xyzz_simps)
qed

text \<open>The last step of the three additions: the same point is doubled, other points are added along the chord.\<close>

lemma same_point:
  assumes "xyzz X1 Y1 Z1 T1 (Some (x1, y1))" "xyzz X2 Y2 Z2 T2 (Some (x2, y2))"
  shows "X2 * Z1 - X1 * Z2 = 0 \<and> Y2 * T1 - Y1 * T2 = 0 \<longleftrightarrow> x1 = x2 \<and> y1 = (y2 :: 'k)"
  using assms by (auto simp: mult.assoc mult.commute mult.left_commute)

lemma add_point:
  assumes p: "pt p P" and q: "pt q Q"
  shows "point_at ok val (Curve_add C p q) (aff_add a P Q)"
proof (cases "P = None \<or> Q = None")
  case True
  then show ?thesis using assms isZero_point [of p P] isZero_point [of q Q] by (auto simp: Curve_add_def Let_def)
next
  case False
  then obtain x1 y1 x2 y2 where PQ: "P = Some (x1, y1)" "Q = Some (x2, y2)" by auto
  have o: "ok (px p)" "ok (py p)" "ok (pzz p)" "ok (pzzz p)" "ok (px q)" "ok (py q)" "ok (pzz q)" "ok (pzzz q)"
    and z: "xyzz (val (px p)) (val (py p)) (val (pzz p)) (val (pzzz p)) (Some (x1, y1))"
      "xyzz (val (px q)) (val (py q)) (val (pzz q)) (val (pzzz q)) (Some (x2, y2))"
    using assms by (simp_all add: point_at_def PQ)
  have nz: "\<not> Curve_isZero C p" "\<not> Curve_isZero C q" using assms isZero_point by (auto simp: PQ)
  note s = same_point [OF z] and t = xyzz_chord [OF z refl refl _ refl refl]
  show ?thesis
  proof (cases "x1 = x2 \<and> y1 = y2")
    case True
    then have "Curve_add C p q = Curve_dbl C p" using s nz o by (simp add: Curve_add_def Let_def del: xyzz_simps)
    then show ?thesis using dbl_point [OF p] True by (simp add: PQ)
  next
    case False
    then show ?thesis using s t nz o unfolding PQ
      by (auto simp: Curve_add_def Let_def point_at_def simp del: xyzz_simps)
  qed
qed

lemma addM_point:
  assumes p: "pt p P" and q: "apt q Q"
  shows "point_at ok val (Curve_addM C p q) (aff_add a P Q)"
proof (cases "P = None \<or> Q = None")
  case True
  then show ?thesis using assms isZero_point [of p P] isZero_aff [of q Q] fromAffine_point [OF q]
    by (auto simp: Curve_addM_def Let_def)
next
  case False
  then obtain x1 y1 x2 y2 where PQ: "P = Some (x1, y1)" "Q = Some (x2, y2)" by auto
  have o: "ok (px p)" "ok (py p)" "ok (pzz p)" "ok (pzzz p)" "ok (ax q)" "ok (ay q)"
    and z: "xyzz (val (px p)) (val (py p)) (val (pzz p)) (val (pzzz p)) (Some (x1, y1))"
      "xyzz (val (ax q)) (val (ay q)) 1 1 (Some (x2, y2))"
    using assms by (simp_all add: point_at_def aff_at_def PQ)
  have nz: "\<not> Curve_isZero C p" "\<not> Curve_isZeroA C q"
    using assms isZero_point [of p P] isZero_aff [of q Q] by (auto simp: PQ)
  note s = same_point [OF z] and t = xyzz_chord [OF z refl refl _ refl refl]
  show ?thesis
  proof (cases "x1 = x2 \<and> y1 = y2")
    case True
    then have "Curve_addM C p q = Curve_dblA C q" using s nz o by (simp add: Curve_addM_def Let_def del: xyzz_simps)
    then show ?thesis using dblA_point [OF q] True by (simp add: PQ)
  next
    case False
    then show ?thesis using s t nz o unfolding PQ
      by (auto simp: Curve_addM_def Let_def point_at_def simp del: xyzz_simps)
  qed
qed

lemma addA_point:
  assumes p: "apt p P" and q: "apt q Q"
  shows "point_at ok val (Curve_addA C p q) (aff_add a P Q)"
proof (cases "P = None \<or> Q = None")
  case True
  then show ?thesis using assms isZero_aff [of p P] isZero_aff [of q Q] fromAffine_point [OF p] fromAffine_point [OF q]
    by (auto simp: Curve_addA_def Let_def)
next
  case False
  then obtain x1 y1 x2 y2 where PQ: "P = Some (x1, y1)" "Q = Some (x2, y2)" by auto
  have o: "ok (ax p)" "ok (ay p)" "ok (ax q)" "ok (ay q)"
    and z: "xyzz (val (ax p)) (val (ay p)) 1 1 (Some (x1, y1))" "xyzz (val (ax q)) (val (ay q)) 1 1 (Some (x2, y2))"
    using assms by (simp_all add: aff_at_def PQ)
  have nz: "\<not> Curve_isZeroA C p" "\<not> Curve_isZeroA C q"
    using assms isZero_aff [of p P] isZero_aff [of q Q] by (auto simp: PQ)
  note s = same_point [OF z] and t = xyzz_chord [OF z refl refl _ refl refl]
  show ?thesis
  proof (cases "x1 = x2 \<and> y1 = y2")
    case True
    then have "Curve_addA C p q = Curve_dblA C q" using s nz o by (simp add: Curve_addA_def Let_def del: xyzz_simps)
    then show ?thesis using dblA_point [OF q] True by (simp add: PQ)
  next
    case False
    then show ?thesis using s t nz o unfolding PQ
      by (auto simp: Curve_addA_def Let_def point_at_def simp del: xyzz_simps)
  qed
qed

lemma neg_point: "point_at ok val p P \<Longrightarrow> point_at ok val (Curve_neg C p) (aff_neg P)"
  by (cases P) (auto simp: point_at_def Curve_neg_def)

lemma negA_point: "aff_at ok val p P \<Longrightarrow> aff_at ok val (Curve_negA C p) (aff_neg P)"
  by (cases P) (auto simp: aff_at_def Curve_negA_def)

text \<open>The negation of an affine point as a projective one does not look at infinity.\<close>

lemma negFromAffine_point:
  "aff_at ok val p P \<Longrightarrow> P \<noteq> None \<Longrightarrow> point_at ok val (Curve_negFromAffine C p) (aff_neg P)"
  by (cases P) (auto simp: point_at_def aff_at_def Curve_negFromAffine_def Let_def)

lemma negFromAffine_infinity: "aff_at ok val p None \<Longrightarrow> \<not> Curve_isZero C (Curve_negFromAffine C p)"
  by (simp add: Curve_isZero_def Curve_negFromAffine_def Let_def)

lemma sub_point: "pt p P \<Longrightarrow> pt q Q \<Longrightarrow> point_at ok val (Curve_sub C p q) (aff_add a P (aff_neg Q))"
  by (auto simp: Curve_sub_def intro!: add_point neg_point on_curve_neg)

lemma subM_point: "pt p P \<Longrightarrow> apt q Q \<Longrightarrow> point_at ok val (Curve_subM C p q) (aff_add a P (aff_neg Q))"
  by (auto simp: Curve_subM_def intro!: addM_point negA_point on_curve_neg)

lemma subA_point: "apt p P \<Longrightarrow> apt q Q \<Longrightarrow> point_at ok val (Curve_subA C p q) (aff_add a P (aff_neg Q))"
  by (auto simp: Curve_subA_def intro!: addA_point negA_point on_curve_neg)

lemma toAffine_point:
  assumes p: "point_at ok val p P"
  obtains r r' where "Curve_toAffine C p = Some r" "aff_at ok val r P"
    "Curve_negToAffine C p = Some r'" "aff_at ok val r' (aff_neg P)"
proof (cases P)
  case None
  then show ?thesis using assms isZero_point [OF p] that by (simp add: Curve_toAffine_def Curve_negToAffine_def aff_at_def)
next
  case (Some xy)
  obtain x y where xy: "xy = (x, y)" by (cases xy)
  have o: "ok (px p)" "ok (py p)" "ok (pzz p)" "ok (pzzz p)"
    and z: "val (pzz p) \<noteq> 0" "val (pzzz p) \<noteq> 0" "val (px p) = x * val (pzz p)" "val (py p) = y * val (pzzz p)"
    using assms by (simp_all add: point_at_def Some xy)
  obtain u v where d: "b_div F (px p) (pzz p) = Some u" "b_div F (py p) (pzzz p) = Some v" "ok u" "ok v" "val u = x" "val v = y"
    using div [OF o(1) o(3) z(1)] div [OF o(2) o(4) z(2)] z by auto
  then show ?thesis using isZero_point [OF p] that [of "\<lparr>ax = u, ay = v\<rparr>" "\<lparr>ax = u, ay = b_neg F v\<rparr>"]
    by (simp add: Curve_toAffine_def Curve_negToAffine_def aff_at_def Some xy Let_def)
qed

lemma eq_point:
  assumes p: "pt p P" and q: "pt q Q"
  shows "Curve_eq C p q \<longleftrightarrow> P = Q"
proof (cases "P = None")
  case True
  then show ?thesis using assms isZero_point [of p P] isZero_point [of q Q] by (auto simp: Curve_eq_def)
next
  case P: False
  then have nz: "\<not> Curve_isZero C p" using assms isZero_point by auto
  show ?thesis
  proof (cases Q)
    case None
    then show ?thesis using P nz assms by (auto simp: Curve_eq_def Let_def point_at_def)
  next
    case (Some xy)
    obtain x1 y1 x2 y2 where PQ: "P = Some (x1, y1)" "Q = Some (x2, y2)" using P Some by (metis not_None_eq prod.exhaust)
    have "ok (px p)" "ok (py p)" "ok (pzz p)" "ok (pzzz p)" "ok (px q)" "ok (py q)" "ok (pzz q)" "ok (pzzz q)"
      "xyzz (val (px p)) (val (py p)) (val (pzz p)) (val (pzzz p)) (Some (x1, y1))"
      "xyzz (val (px q)) (val (py q)) (val (pzz q)) (val (pzzz q)) (Some (x2, y2))"
      using assms by (simp_all add: point_at_def PQ)
    then show ?thesis using same_point nz by (auto simp: Curve_eq_def Let_def PQ simp del: xyzz_simps)
  qed
qed

lemma eqM_point:
  assumes p: "pt p P" and q: "apt q Q"
  shows "Curve_eqM C p q \<longleftrightarrow> P = Q"
proof (cases P)
  case None
  then show ?thesis using assms isZero_point [of p P] isZero_aff [of q Q] by (auto simp: Curve_eqM_def)
next
  case (Some xy)
  obtain x1 y1 where xy: "xy = (x1, y1)" by (cases xy)
  have nz: "\<not> Curve_isZero C p" using assms isZero_point Some by auto
  have n0: "x1 \<noteq> 0 \<or> y1 \<noteq> 0" using p Some xy not_origin by blast
  show ?thesis
    using assms nz n0 by (cases Q) (auto simp: Curve_eqM_def Let_def point_at_def aff_at_def Some xy)
qed

lemma eqA_point: "apt p P \<Longrightarrow> apt q Q \<Longrightarrow> Curve_eqA C p q \<longleftrightarrow> P = Q"
  using not_origin by (cases P; cases Q) (fastforce simp: Curve_eqA_def aff_at_def)+

end

text \<open>
  The multiples of a point: a homomorphism from the integers, that is zero just at the multiples of
  its order. The operations then compute on the multiples, which is what the scalar multiplication asks.
\<close>

locale curve_multiples = curve F ok val C aa ab gx gy a b
  for F :: "'e base_ops" and ok :: "'e \<Rightarrow> bool" and val :: "'e \<Rightarrow> 'k::field" and C :: "'e Curve" and aa ab gx gy :: 'e and a b :: 'k +
  fixes q :: int and mp :: "int \<Rightarrow> 'k affine"
  assumes mp_add: "aff_add a (mp u) (mp v) = mp (u + v)" and mp_neg: "aff_neg (mp u) = mp (- u)"
    and mp_curve: "on_curve a b (mp u)" and mp_zero: "mp u = None \<longleftrightarrow> u mod q = 0"
    and mp_cong: "u mod q = v mod q \<Longrightarrow> mp u = mp v"

sublocale curve_multiples \<subseteq> group: curve_vals "Curve_group C" "\<lambda>p u. point_at ok val p (mp u)" "\<lambda>p u. aff_at ok val p (mp u)" q
proof
  note c = mp_curve
  fix p r s and u v :: int
  have z: "mp 0 = None" by (simp add: mp_zero)
  show "point_at ok val (g_zero (Curve_group C)) (mp 0)" using zero_point by (simp add: Curve_group_def z)
  assume p: "point_at ok val p (mp u)"
  note P = conjI [OF p c]
  have d: "aff_add a (mp u) (aff_neg (mp v)) = mp (u - v)" for u v by (simp add: mp_neg mp_add)
  show "point_at ok val (g_dbl (Curve_group C) p) (mp (2 * u))" using dbl_point [OF P] by (simp add: Curve_group_def mp_add)
  show "point_at ok val (g_neg (Curve_group C) p) (mp (- u))" using neg_point [OF p] by (simp add: Curve_group_def mp_neg)
  obtain x where "Curve_toAffine C p = Some x" "aff_at ok val x (mp u)" by (rule toAffine_point [OF p])
  then show "aff_at ok val (g_toAffine (Curve_group C) p) (mp u)" by (simp add: Curve_group_def)
  show "point_at ok val p (mp v)" if "u mod q = v mod q" using p mp_cong [OF that] by simp
  show "point_at ok val (g_add (Curve_group C) p r) (mp (u + v))" "point_at ok val (g_sub (Curve_group C) p r) (mp (u - v))"
    if r: "point_at ok val r (mp v)"
    using add_point [OF P conjI [OF r c]] sub_point [OF P conjI [OF r c]] by (simp_all add: Curve_group_def mp_add d)
  show "point_at ok val (g_addA (Curve_group C) p s) (mp (u + v))" "point_at ok val (g_subA (Curve_group C) p s) (mp (u - v))"
    if s: "aff_at ok val s (mp v)"
    using addM_point [OF P conjI [OF s c]] subM_point [OF P conjI [OF s c]] by (simp_all add: Curve_group_def mp_add d)
next
  fix s and v :: int
  assume s: "aff_at ok val s (mp v)"
  show "point_at ok val (g_negA (Curve_group C) s) (mp (- v))" if "v mod q \<noteq> 0"
    using negFromAffine_point [OF s] that by (simp add: Curve_group_def mp_zero mp_neg)
  show "point_at ok val (g_fromAffine (Curve_group C) s) (mp v)"
    using fromAffine_point [OF conjI [OF s mp_curve]] by (simp add: Curve_group_def)
qed

context curve_multiples
begin

lemmas group_vals = group.curve_vals_axioms

end

text \<open>The multiples of \<open>(0, 1)\<close>, a point of order three of the curve \<open>y^2 = x^3 + 1\<close> over any field.\<close>

definition three_multiple :: "int \<Rightarrow> 'k::field affine" where
  "three_multiple v = (if v mod 3 = 0 then None else if v mod 3 = 1 then Some (0, 1) else Some (0, - 1))"

lemma three_multiple_mod: "three_multiple v = three_multiple (v mod 3)"
  by (simp add: three_multiple_def)

lemma three_cases: "v mod 3 = 0 \<or> v mod 3 = 1 \<or> v mod 3 = 2" for v :: int
  by presburger

lemma three_multiple_add:
  assumes "(2 :: 'k::field) \<noteq> 0"
  shows "aff_add 0 (three_multiple u) (three_multiple v :: 'k affine) = three_multiple (u + v)"
proof -
  have one: "(1 :: 'k) \<noteq> - 1"
  proof
    assume "(1 :: 'k) = - 1"
    then have "1 + 1 = (0 :: 'k)" by (simp only: eq_neg_iff_add_eq_0)
    then show False using assms by simp
  qed
  have sum: "(three_multiple (u + v) :: 'k affine) = three_multiple (u mod 3 + v mod 3)"
    by (metis three_multiple_mod mod_add_eq)
  have "aff_add 0 (three_multiple x) (three_multiple y :: 'k affine) = three_multiple (x + y)"
    if "x = 0 \<or> x = 1 \<or> x = 2" "y = 0 \<or> y = 1 \<or> y = 2" for x y
    using that one by (elim disjE) (simp_all add: three_multiple_def aff_add_def line_point_def)
  from this [OF three_cases [of u] three_cases [of v]] show ?thesis
    by (simp only: sum three_multiple_mod [of u, symmetric] three_multiple_mod [of v, symmetric])
qed

lemma three_multiple_neg: "aff_neg (three_multiple v :: 'k::field affine) = three_multiple (- v)"
proof -
  have min: "(three_multiple (- v) :: 'k affine) = three_multiple (- (v mod 3))"
    by (metis three_multiple_mod mod_minus_eq)
  have "aff_neg (three_multiple x :: 'k affine) = three_multiple (- x)" if "x = 0 \<or> x = 1 \<or> x = 2" for x
    using that by (elim disjE) (simp_all add: three_multiple_def)
  from this [OF three_cases [of v]] show ?thesis by (simp only: min three_multiple_mod [of v, symmetric])
qed

lemma three_multiples:
  fixes val :: "'e \<Rightarrow> 'k::field"
  assumes "curve F ok val C aa ab gx gy 0 1"
  shows "curve_multiples F ok val C aa ab gx gy 0 1 3 three_multiple"
proof -
  have "on_curve 0 1 (three_multiple v :: 'k affine)" "(three_multiple v :: 'k affine) = None \<longleftrightarrow> v mod 3 = 0" for v
    by (simp_all add: three_multiple_def on_curve_def)
  moreover have "(three_multiple v :: 'k affine) = three_multiple w" if "v mod 3 = w mod 3" for v w
    unfolding three_multiple_def that ..
  ultimately have "curve_multiples_axioms (0 :: 'k) 1 3 three_multiple"
    by (intro curve_multiples_axioms.intro three_multiple_add [OF curve.two [OF assms]] three_multiple_neg)
  then show ?thesis using assms by (simp add: curve_multiples_def)
qed

subsection \<open>A curve over the goldilocks field\<close>

text \<open>\<open>y^2 = x^3 + 1\<close> over the elements of the runtime.\<close>

definition gl_curve :: "limbs Curve" where
  "gl_curve = initCurve gl_RawFq (b_zero gl_RawFq) (b_one gl_RawFq) (b_zero gl_RawFq) (b_one gl_RawFq)"

lemma gl_of_nat: "numeral k = (0 :: gl) \<longleftrightarrow> (numeral k :: int) mod gl_p = 0"
  using of_int_gl [of "numeral k"] by simp

lemma gl_curve: "curve gl_RawFq gl_ok gl_val gl_curve
    (b_zero gl_RawFq) (b_one gl_RawFq) (b_zero gl_RawFq) (b_one gl_RawFq) 0 1"
proof -
  have "(2 :: gl) \<noteq> 0" "(27 :: gl) \<noteq> 0" by (simp_all add: gl_of_nat gl_p_def)
  then show ?thesis
    by (simp add: curve_def curve_axioms_def gl_RawFq.base_field_axioms gl_curve_def)
qed

interpretation gl_curve: curve_multiples gl_RawFq gl_ok gl_val gl_curve
    "b_zero gl_RawFq" "b_one gl_RawFq" "b_zero gl_RawFq" "b_one gl_RawFq" 0 1 3 three_multiple
  by (rule three_multiples [OF gl_curve])

subsection \<open>Results\<close>

text \<open>
  Property C15. Over any base field that keeps the promise of \<open>base_field\<close>, for a curve without singular
  points on which \<open>(0, 0)\<close> does not lie, the operations of \<open>Curve\<close> implement the law of chord and
  tangent: all three additions (with equal, opposite and infinite operands), both doublings and the
  subtractions. The conversion to affine coordinates always succeeds, the comparison is that of the
  points, and the sum lies on the curve again.
\<close>

theorem curve_chord_tangent:
  assumes "curve F ok val C aa ab gx gy a b"
    and "point_at ok val p P" "point_at ok val r R" "aff_at ok val s S" "aff_at ok val t T"
    and "on_curve a b P" "on_curve a b R" "on_curve a b S" "on_curve a b T"
  shows "point_at ok val (Curve_add C p r) (aff_add a P R) \<and> point_at ok val (Curve_addM C p s) (aff_add a P S) \<and>
    point_at ok val (Curve_addA C s t) (aff_add a S T) \<and>
    point_at ok val (Curve_dbl C p) (aff_add a P P) \<and> point_at ok val (Curve_dblA C s) (aff_add a S S) \<and>
    point_at ok val (Curve_sub C p r) (aff_add a P (aff_neg R)) \<and>
    point_at ok val (Curve_subM C p s) (aff_add a P (aff_neg S)) \<and>
    point_at ok val (Curve_subA C s t) (aff_add a S (aff_neg T)) \<and>
    (\<exists>x. Curve_toAffine C p = Some x \<and> aff_at ok val x P) \<and>
    (Curve_eq C p r \<longleftrightarrow> P = R) \<and> (Curve_eqM C p s \<longleftrightarrow> P = S) \<and> (Curve_eqA C s t \<longleftrightarrow> S = T) \<and>
    on_curve a b (aff_add a P R)"
proof (intro conjI)
  note c = curve.add_point [OF assms(1)] curve.addM_point [OF assms(1)] curve.addA_point [OF assms(1)]
    curve.dbl_point [OF assms(1)] curve.dblA_point [OF assms(1)] curve.sub_point [OF assms(1)]
    curve.subM_point [OF assms(1)] curve.subA_point [OF assms(1)] curve.eq_point [OF assms(1)]
    curve.eqM_point [OF assms(1)] curve.eqA_point [OF assms(1)]
  show "point_at ok val (Curve_add C p r) (aff_add a P R)" by (rule c(1)) (use assms(2-9) in blast)+
  show "point_at ok val (Curve_addM C p s) (aff_add a P S)" by (rule c(2)) (use assms(2-9) in blast)+
  show "point_at ok val (Curve_addA C s t) (aff_add a S T)" by (rule c(3)) (use assms(2-9) in blast)+
  show "point_at ok val (Curve_dbl C p) (aff_add a P P)" by (rule c(4)) (use assms(2-9) in blast)+
  show "point_at ok val (Curve_dblA C s) (aff_add a S S)" by (rule c(5)) (use assms(2-9) in blast)+
  show "point_at ok val (Curve_sub C p r) (aff_add a P (aff_neg R))" by (rule c(6)) (use assms(2-9) in blast)+
  show "point_at ok val (Curve_subM C p s) (aff_add a P (aff_neg S))" by (rule c(7)) (use assms(2-9) in blast)+
  show "point_at ok val (Curve_subA C s t) (aff_add a S (aff_neg T))" by (rule c(8)) (use assms(2-9) in blast)+
  show "Curve_eq C p r \<longleftrightarrow> P = R" by (rule c(9)) (use assms(2-9) in blast)+
  show "Curve_eqM C p s \<longleftrightarrow> P = S" by (rule c(10)) (use assms(2-9) in blast)+
  show "Curve_eqA C s t \<longleftrightarrow> S = T" by (rule c(11)) (use assms(2-9) in blast)+
  show "\<exists>x. Curve_toAffine C p = Some x \<and> aff_at ok val x P"
    using curve.toAffine_point [OF assms(1,2)] by blast
  show "on_curve a b (aff_add a P R)" using on_curve_add [OF assms(6,7)] assms(1) by (simp add: curve_def curve_axioms_def)
qed

text \<open>The tangent at \<open>(0, 1)\<close> of the curve above is flat: twice the point is \<open>(0, - 1)\<close>.\<close>

lemma gl_points:
  "point_at gl_ok gl_val (C_fone gl_curve) (three_multiple 1)"
  "aff_at gl_ok gl_val (C_foneAffine gl_curve) (three_multiple 1)"
  "point_at gl_ok gl_val (C_fzero gl_curve) None"
  by (simp_all add: gl_curve_def initCurve_def point_at_def aff_at_def three_multiple_def)

theorem curve_chord_tangent_witness:
  "point_at gl_ok gl_val
      (Curve_dbl gl_curve (C_fone gl_curve)) (Some (0, - 1)) \<and>
   point_at gl_ok gl_val
      (Curve_addA gl_curve (C_foneAffine gl_curve) (C_foneAffine gl_curve)) (Some (0, - 1)) \<and>
   \<not> Curve_eq gl_curve (C_fone gl_curve) (C_fzero gl_curve)"
proof -
  have n: "on_curve 0 1 (None :: gl affine)" by (simp add: on_curve_def)
  have one: "three_multiple 1 = Some (0, 1)" and two: "three_multiple (1 + 1) = Some (0, - 1)" by (simp_all add: three_multiple_def)
  show ?thesis
    using curve_chord_tangent [OF gl_curve gl_points(1) gl_points(3) gl_points(2) gl_points(2) gl_curve.mp_curve n
        gl_curve.mp_curve gl_curve.mp_curve]
    unfolding gl_curve.mp_add unfolding one two by blast
qed

text \<open>
  Property C16. On the multiples of a point of the curve, the class \<open>Curve\<close> is what the scalar
  multiplication expects: double-and-add over the signed digits of a scalar returns the point
  multiplied by the scalar, and the sum of products by buckets, computed by any number of threads,
  returns the sum of the multiples.
\<close>

theorem curve_scalar_products:
  assumes "curve_multiples F ok val C aa ab gx gy a b q mp"
    and "point_at ok val p (mp u)" "aff_at ok val s (mp v)" "0 < length k"
    and "fair il" "0 < nThreads" "8 \<le> unat sz" "unat sz < 2 ^ 28" "unat n < 2 ^ 31"
    and "length scalars = unat n * unat sz" "\<forall>i < unat n. scalar_at scalars (unat sz) i < 2 ^ (8 * unat sz - 2)"
    and "\<forall>i < unat n. aff_at ok val (bases ! i) (mp (w i))"
  shows "point_at ok val (mulByScalar (Curve_group C) p k (length k)) (mp (int (le_nat k) * u)) \<and>
    point_at ok val (mulByScalarA (Curve_group C) s k (length k)) (mp (int (le_nat k) * v)) \<and>
    point_at ok val (multiMulByScalarMSM (Curve_group C) il nThreads bases scalars sz n)
      (mp (\<Sum>i < unat n. int (scalar_at scalars (unat sz) i) * w i))"
proof -
  note g = curve_multiples.group_vals [OF assms(1)]
  show ?thesis
    using curve_vals.mulByScalar_val [OF g assms(2,4)] curve_vals.mulByScalarA_val [OF g assms(3,4)]
      curve_vals.multiMulByScalarMSM_val [OF g assms(5-10)] assms(11,12) by blast
qed

theorem curve_scalar_products_witness:
  "point_at gl_ok gl_val
      (mulByScalar (Curve_group gl_curve) (C_fone gl_curve) [7, 1] (length [7, 1 :: u8])) (Some (0, - 1) :: gl affine) \<and>
   point_at gl_ok gl_val
      (multiMulByScalarMSM (Curve_group gl_curve) (\<lambda>jobs. rev (concat jobs)) 2 [C_foneAffine gl_curve, C_foneAffine gl_curve]
        [7, 1, 0, 0, 0, 0, 0, 0, 200, 0, 0, 0, 0, 0, 0, 63] 8 2) (Some (0, 1))"
proof -
  let ?s = "[7, 1, 0, 0, 0, 0, 0, 0, 200, 0, 0, 0, 0, 0, 0, 63] :: bytes"
  let ?b = "[C_foneAffine gl_curve, C_foneAffine gl_curve]"
  have s: "scalar_at ?s 8 0 = 263" "scalar_at ?s 8 (Suc 0) = 4539628424389460168"
    by (simp_all add: scalar_at_def)
  have u: "unat (8 :: u64) = 8" "unat (2 :: u64) = 2" by simp_all
  have i: "i < 2 \<Longrightarrow> i = 0 \<or> i = Suc 0" for i :: nat by linarith
  have b: "\<forall>i < 2. scalar_at ?s 8 i < 2 ^ (8 * 8 - 2)" using i s by fastforce
  have k: "\<forall>i < 2. aff_at gl_ok gl_val (?b ! i) (three_multiple 1)"
    using i gl_points(2) by fastforce
  have l: "length ?s = 2 * 8" "0 < length ([7, 1] :: bytes)" "(0 :: nat) < 2"
    "(8 :: nat) \<le> 8" "(8 :: nat) < 2 ^ 28" "(2 :: nat) < 2 ^ 31" by simp_all
  note r = curve_scalar_products [OF gl_curve.curve_multiples_axioms gl_points(1) gl_points(2) l(2) fair_concat(2) l(3),
      of 8 2 ?s ?b "\<lambda>_. 1", unfolded u, OF l(4-6) l(1) b k]
  have v: "(\<Sum>i < 2. int (scalar_at ?s 8 i) * 1) = 4539628424389460431"
  proof -
    have "(\<Sum>i < 2. f i) = f 0 + f (Suc 0)" for f :: "nat \<Rightarrow> int" by (simp add: eval_nat_numeral)
    then show ?thesis by (simp only: s)
  qed
  have m: "three_multiple (int (le_nat [7, 1]) * 1) = Some (0, - 1)" "three_multiple 4539628424389460431 = Some (0, 1)"
    by (simp_all add: three_multiple_def)
  note r' = r [unfolded v m]
  show ?thesis by (rule conjI [OF conjunct1 [OF r'] conjunct2 [OF conjunct2 [OF r']]])
qed

end
