(* ===== verification/PairingOps.thy ===== *)
theory PairingOps
  imports CurveOps Groth16
begin

text \<open>
  The pairing of the verifier (\<open>src/rapidsnark/src/groth16.cpp\<close>): the line functions, the loop of
  Miller and the final exponentiation, over the tower and the curves of \<open>ffiasm/c\<close>. They are proved to
  compute the optimal ate pairing: the loop returns, up to a factor in the quadratic extension, the
  product of the tangents and chords at the untwisted point, and the final exponentiation is a power
  that removes such factors.
\<close>

subsection \<open>The functions of the verifier\<close>

record 'e Bn_engine =
  en_f12 :: "'e F12Field"
  en_g1 :: "'e Curve"
  en_g2 :: "'e F2 Curve"
  v_xiToPMinus1Over3 :: "'e F2"
  v_xiToPMinus1Over2 :: "'e F2"
  v_xiToPSquaredMinus1Over3 :: 'e

definition en_f6 :: "'e Bn_engine \<Rightarrow> 'e F6Field" where
  "en_f6 E = F12_F (en_f12 E)"

definition en_f2 :: "'e Bn_engine \<Rightarrow> 'e F2Field" where
  "en_f2 E = F6_F (en_f6 E)"

definition lineFunctionAdd :: "'e F2Field \<Rightarrow> 'e F2 Point \<Rightarrow> 'e F2 PointAffine \<Rightarrow> 'e PointAffine \<Rightarrow> 'e F2 \<Rightarrow>
    'e F2 \<times> 'e F2 \<times> 'e F2 \<times> 'e F2 Point" where
  "lineFunctionAdd f2 r p q r2 =
     (let B = F2_mul f2 (ax p) (pzzz r);
          D = F2_add f2 (ay p) (pzz r);
          D = F2_square f2 D;
          D = F2_sub f2 D r2;
          D = F2_sub f2 D (pzzz r);
          D = F2_mul f2 D (pzzz r);
          H = F2_sub f2 B (px r);
          I = F2_square f2 H;
          E1 = F2_add f2 I I;
          E1 = F2_add f2 E1 E1;
          J = F2_mul f2 H E1;
          L1 = F2_sub f2 D (py r);
          L1 = F2_sub f2 L1 (py r);
          V = F2_mul f2 (px r) E1;
          x = F2_square f2 L1;
          x = F2_sub f2 x J;
          x = F2_sub f2 x V;
          x = F2_sub f2 x V;
          zz = F2_add f2 (pzz r) H;
          zz = F2_square f2 zz;
          zz = F2_sub f2 zz (pzzz r);
          zz = F2_sub f2 zz I;
          t = F2_sub f2 V x;
          t = F2_mul f2 t L1;
          t2 = F2_mul f2 (py r) J;
          t2 = F2_add f2 t2 t2;
          y = F2_sub f2 t t2;
          zzz = F2_square f2 zz;
          t = F2_add f2 (ay p) zz;
          t = F2_square f2 t;
          t = F2_sub f2 t r2;
          t = F2_sub f2 t zzz;
          t2 = F2_mul f2 L1 (ax p);
          t2 = F2_add f2 t2 t2;
          a = F2_sub f2 t2 t;
          c = F2_mulScalar f2 zz (ay q);
          c = F2_add f2 c c;
          b = F2_zero f2;
          b = F2_sub f2 b L1;
          b = F2_mulScalar f2 b (ax q);
          b = F2_add f2 b b
      in (a, b, c, \<lparr>px = x, py = y, pzz = zz, pzzz = zzz\<rparr>))"

definition lineFunctionDouble :: "'e F2Field \<Rightarrow> 'e F2 Point \<Rightarrow> 'e PointAffine \<Rightarrow> 'e F2 \<times> 'e F2 \<times> 'e F2 \<times> 'e F2 Point" where
  "lineFunctionDouble f2 r q =
     (let A = F2_square f2 (px r);
          B = F2_square f2 (py r);
          C = F2_square f2 B;
          D = F2_add f2 (px r) B;
          D = F2_square f2 D;
          D = F2_sub f2 D A;
          D = F2_sub f2 D C;
          D = F2_add f2 D D;
          E1 = F2_add f2 A A;
          E1 = F2_add f2 E1 A;
          G = F2_square f2 E1;
          x = F2_sub f2 G D;
          x = F2_sub f2 x D;
          zz = F2_add f2 (py r) (pzz r);
          zz = F2_square f2 zz;
          zz = F2_sub f2 zz B;
          zz = F2_sub f2 zz (pzzz r);
          y = F2_sub f2 D x;
          y = F2_mul f2 y E1;
          t = F2_add f2 C C;
          t = F2_add f2 t t;
          t = F2_add f2 t t;
          y = F2_sub f2 y t;
          zzz = F2_square f2 zz;
          t = F2_mul f2 E1 (pzzz r);
          t = F2_add f2 t t;
          b = F2_zero f2;
          b = F2_sub f2 b t;
          b = F2_mulScalar f2 b (ax q);
          a = F2_add f2 (px r) E1;
          a = F2_square f2 a;
          a = F2_sub f2 a A;
          a = F2_sub f2 a G;
          t = F2_add f2 B B;
          t = F2_add f2 t t;
          a = F2_sub f2 a t;
          c = F2_mul f2 zz (pzzz r);
          c = F2_add f2 c c;
          c = F2_mulScalar f2 c (ay q)
      in (a, b, c, \<lparr>px = x, py = y, pzz = zz, pzzz = zzz\<rparr>))"

definition mulLine :: "'e F6Field \<Rightarrow> 'e F12 \<Rightarrow> 'e F2 \<Rightarrow> 'e F2 \<Rightarrow> 'e F2 \<Rightarrow> 'e F12" where
  "mulLine f6 ret a b c =
     (let f2 = F6_F f6;
          a2 = \<lparr>f6x = F2_zero f2, f6y = a, f6z = b\<rparr>;
          a2 = F6_mul f6 a2 (f12x ret);
          t3 = F6_mulScalar f6 (f12y ret) c;
          t = F2_add f2 b c;
          t2 = \<lparr>f6x = F2_zero f2, f6y = a, f6z = t\<rparr>;
          x = F6_add f6 (f12x ret) (f12y ret);
          y = t3;
          x = F6_mul f6 x t2;
          x = F6_sub f6 x a2;
          x = F6_sub f6 x y;
          a2 = F6_mulTau f6 a2;
          y = F6_add f6 y a2
      in \<lparr>f12x = x, f12y = y\<rparr>)"

definition sixuPlus2NAF :: "int list" where
  "sixuPlus2NAF =
     [0, 0, 0, 1, 0, 1, 0, -1, 0, 0, 1, -1, 0, 0, 1, 0,
      0, 1, 1, 0, -1, 0, 0, 1, 0, -1, 0, 0, 0, 0, 1, 1,
      1, 0, 0, -1, 0, 0, 1, 0, 0, 0, 0, 0, -1, 0, 0, 1,
      1, 0, 0, -1, 0, 0, 0, 1, 1, 0, -1, 0, 0, 1, 0, 1, 1]"

fun miller_loop :: "'e Bn_engine \<Rightarrow> nat \<Rightarrow> 'e F2 PointAffine \<Rightarrow> 'e F2 PointAffine \<Rightarrow> 'e PointAffine \<Rightarrow> 'e F2 \<Rightarrow>
    nat \<Rightarrow> 'e F12 \<Rightarrow> 'e F2 Point \<Rightarrow> 'e F12 \<times> 'e F2 Point" where
  "miller_loop E count' aAffine minusA bAffine r2 0 ret r = (ret, r)"
| "miller_loop E count' aAffine minusA bAffine r2 (Suc i) ret r =
     (let (a, b, c, newR) = lineFunctionDouble (en_f2 E) r bAffine;
          ret = (if Suc i \<noteq> count' then F12_square (en_f12 E) ret else ret);
          ret = mulLine (en_f6 E) ret a b c;
          r = newR
      in if sixuPlus2NAF ! i = 1
         then let (a, b, c, newR) = lineFunctionAdd (en_f2 E) r aAffine bAffine r2;
                  ret = mulLine (en_f6 E) ret a b c
              in miller_loop E count' aAffine minusA bAffine r2 i ret newR
         else if sixuPlus2NAF ! i = - 1
         then let (a, b, c, newR) = lineFunctionAdd (en_f2 E) r minusA bAffine r2;
                  ret = mulLine (en_f6 E) ret a b c
              in miller_loop E count' aAffine minusA bAffine r2 i ret newR
         else miller_loop E count' aAffine minusA bAffine r2 i ret r)"

definition miller :: "'e Bn_engine \<Rightarrow> 'e F2 Point \<Rightarrow> 'e Point \<Rightarrow> 'e F12 option" where
  "miller E q p =
     (case (Curve_toAffine (en_g2 E) q, Curve_toAffine (en_g1 E) p) of
        (Some aAffine, Some bAffine) \<Rightarrow>
          (let f2 = en_f2 E;
               ret = F12_one (en_f12 E);
               minusA = Curve_negA (en_g2 E) aAffine;
               r = Curve_fromAffine (en_g2 E) aAffine;
               r2 = F2_square f2 (ay aAffine);
               count' = length sixuPlus2NAF - 1;
               (ret, r) = miller_loop E count' aAffine minusA bAffine r2 count' ret r;
               q1x = F2_conjugate f2 (ax aAffine);
               q1x = F2_mul f2 q1x (v_xiToPMinus1Over3 E);
               q1y = F2_conjugate f2 (ay aAffine);
               q1y = F2_mul f2 q1y (v_xiToPMinus1Over2 E);
               q1 = \<lparr>px = q1x, py = q1y, pzz = F2_one f2, pzzz = F2_one f2\<rparr>;
               minusQ2 = \<lparr>px = F2_mulScalar f2 (ax aAffine) (v_xiToPSquaredMinus1Over3 E), py = ay aAffine,
                  pzz = F2_one f2, pzzz = F2_one f2\<rparr>;
               r2 = F2_square f2 q1y
           in case Curve_toAffine (en_g2 E) q1 of
                None \<Rightarrow> None
              | Some q1Affine \<Rightarrow>
                  (let (a, b, c, newR) = lineFunctionAdd f2 r q1Affine bAffine r2;
                       ret = mulLine (en_f6 E) ret a b c;
                       r = newR
                   in case Curve_toAffine (en_g2 E) minusQ2 of
                        None \<Rightarrow> None
                      | Some minusQ2Affine \<Rightarrow>
                          (let r2 = F2_square f2 (py minusQ2);
                               (a, b, c, newR) = lineFunctionAdd f2 r minusQ2Affine bAffine r2;
                               ret = mulLine (en_f6 E) ret a b c
                           in Some ret)))
      | _ \<Rightarrow> None)"

definition bn_u :: nat where
  "bn_u = 4965661367192848881"

definition finalExponentiation :: "'e Bn_engine \<Rightarrow> 'e F12 \<Rightarrow> 'e F12 option" where
  "finalExponentiation E in' =
     (let f12 = en_f12 E; mul = F12_mul f12; conjugate = F12_conjugate f12; u = le_bytes 8 bn_u;
          t1 = \<lparr>f12x = F6_neg (en_f6 E) (f12x in'), f12y = f12y in'\<rparr>
      in case F12_inv f12 in' of
           None \<Rightarrow> None
         | Some inv' \<Rightarrow>
             (let t1 = mul t1 inv';
                  t2 = F12_FrobeniusP2 f12 t1;
                  t1 = mul t1 t2;
                  fp = F12_Frobenius f12 t1;
                  fp2 = F12_FrobeniusP2 f12 t1;
                  fp3 = F12_Frobenius f12 fp2;
                  fu = F12_exp f12 t1 u 8;
                  fu2 = F12_exp f12 fu u 8;
                  fu3 = F12_exp f12 fu2 u 8;
                  y3 = F12_Frobenius f12 fu;
                  fu2p = F12_Frobenius f12 fu2;
                  fu3p = F12_Frobenius f12 fu3;
                  y2 = F12_FrobeniusP2 f12 fu2;
                  y0 = mul fp fp2;
                  y0 = mul y0 fp3;
                  y1 = conjugate t1;
                  y5 = conjugate fu2;
                  y3 = conjugate y3;
                  y4 = mul fu fu2p;
                  y4 = conjugate y4;
                  y6 = mul fu3 fu3p;
                  y6 = conjugate y6;
                  t0 = F12_square f12 y6;
                  t0 = mul t0 y4;
                  t0 = mul t0 y5;
                  t1 = mul y3 y5;
                  t1 = mul t1 t0;
                  t0 = mul t0 y2;
                  t1 = F12_square f12 t1;
                  t1 = mul t1 t0;
                  t1 = F12_square f12 t1;
                  t0 = mul t1 y1;
                  t1 = mul t1 y0;
                  t0 = F12_square f12 t0;
                  t0 = mul t0 t1
              in Some t0))"

text \<open>The operations that \<open>pairingCheck\<close> uses; both functions return a value where they are called (below).\<close>

definition Bn_Pairing :: "'e Bn_engine \<Rightarrow> ('e Point, 'e F2 Point, 'e F12) Pairing" where
  "Bn_Pairing E =
     \<lparr>pr_isZero1 = Curve_isZero (en_g1 E), pr_isZero2 = Curve_isZero (en_g2 E),
      pr_one = F12_one (en_f12 E), pr_mul = F12_mul (en_f12 E),
      pr_miller = \<lambda>b a. the (miller E b a), pr_finalExponentiation = \<lambda>t. the (finalExponentiation E t),
      pr_isOne = F12_isOne (en_f12 E)\<rparr>"

subsection \<open>The optimal ate pairing\<close>

text \<open>
  The reference: the loop over the digits of \<open>6 u + 2\<close> at the affine points of the curve over the
  large field, with the tangent and the chord evaluated at the first argument. \<open>None\<close> where a
  denominator vanishes.
\<close>

definition third_point :: "'k::field \<Rightarrow> 'k \<times> 'k \<Rightarrow> 'k \<Rightarrow> 'k \<times> 'k" where
  "third_point m R x2 = (let x3 = m * m - fst R - x2 in (x3, m * (fst R - x3) - snd R))"

lemma third_point_line: "Some (third_point m (x1, y1) x2) = line_point m x1 y1 x2"
  by (simp add: third_point_def line_point_def Let_def)

definition ate_line :: "'k::field \<Rightarrow> 'k \<times> 'k \<Rightarrow> 'k \<times> 'k \<Rightarrow> 'k" where
  "ate_line m R P = (snd P - snd R) - m * (fst P - fst R)"

definition ate_double :: "'k::field \<times> 'k \<Rightarrow> 'k \<Rightarrow> 'k \<times> 'k \<Rightarrow> ('k \<times> 'k \<times> 'k) option" where
  "ate_double P f R =
     (if snd R = 0 then None
      else let m = 3 * (fst R * fst R) / (2 * snd R) in Some (f * ate_line m R P, third_point m R (fst R)))"

definition ate_add :: "'k::field \<times> 'k \<Rightarrow> 'k \<times> 'k \<Rightarrow> 'k \<Rightarrow> 'k \<times> 'k \<Rightarrow> ('k \<times> 'k \<times> 'k) option" where
  "ate_add P S f R =
     (if fst R = fst S then None
      else let m = (snd S - snd R) / (fst S - fst R) in Some (f * ate_line m S P, third_point m R (fst S)))"

fun ate_loop :: "'k::field \<times> 'k \<Rightarrow> 'k \<times> 'k \<Rightarrow> int list \<Rightarrow> 'k \<Rightarrow> 'k \<times> 'k \<Rightarrow> ('k \<times> 'k \<times> 'k) option" where
  "ate_loop P Q [] f R = Some (f, R)"
| "ate_loop P Q (d # ds) f R =
     (case ate_double P (f * f) R of
        None \<Rightarrow> None
      | Some (f, R) \<Rightarrow>
          (if d = 0 then ate_loop P Q ds f R
           else case ate_add P (if d = 1 then Q else (fst Q, - snd Q)) f R of
                  None \<Rightarrow> None
                | Some (f, R) \<Rightarrow> ate_loop P Q ds f R))"

text \<open>The digits below the leading one, from the highest; then the two points of the Frobenius map.\<close>

definition ate_digits :: "int list" where
  "ate_digits = rev (butlast sixuPlus2NAF)"

lemma ate_digits_value: "foldl (\<lambda>v d. 2 * v + d) 1 ate_digits = 6 * int bn_u + 2"
  by (simp add: ate_digits_def sixuPlus2NAF_def bn_u_def)

definition optimal_ate :: "nat \<Rightarrow> 'k::field \<times> 'k \<Rightarrow> 'k \<times> 'k \<Rightarrow> 'k option" where
  "optimal_ate p P Q =
     (case ate_loop P Q ate_digits 1 Q of
        None \<Rightarrow> None
      | Some (f, R) \<Rightarrow>
          (case ate_add P (fst Q ^ p, snd Q ^ p) f R of
             None \<Rightarrow> None
           | Some (f, R) \<Rightarrow>
               (case ate_add P (fst Q ^ (p * p), - (snd Q ^ (p * p))) f R of
                  None \<Rightarrow> None
                | Some (f, R) \<Rightarrow> Some f)))"

subsection \<open>The lines of the code\<close>

text \<open>The engine over the tower: its curves are over the fields of the tower.\<close>

locale bn_engine = f12_field F ok val nr u t c1 c2 c3 c4 w c5 c6
  for F :: "'e base_ops" and ok and val :: "'e \<Rightarrow> 'k::field" and nr u t c1 c2 c3 c4 w c5 c6 +
  fixes E :: "'e Bn_engine" and ts :: "'e F2 \<Rightarrow> string" and fs :: "string \<Rightarrow> 'e F2 option"
  assumes E_f12: "en_f12 E = F12_initField (F6_initField (new_F2Field F nr) c1 c2 c3 c4) c5 c6"
    and E_g1: "C_F (en_g1 E) = F" and E_g2: "C_F (en_g2 E) = F2_base (new_F2Field F nr) ts fs"
    and E_ok: "ok2 (v_xiToPMinus1Over3 E)" "ok2 (v_xiToPMinus1Over2 E)" "ok (v_xiToPSquaredMinus1Over3 E)"
    and indep: "independent ok val u"
begin

lemma E_simps [simp]: "en_f12 E = K12" "en_f6 E = K6" "en_f2 E = K2"
  by (simp_all add: en_f6_def en_f2_def E_f12)

lemma two_nz: "(2 :: 'k) \<noteq> 0"
proof
  assume "(2 :: 'k) = 0"
  then have "1 + 1 = (0 :: 'k)" by simp
  then have "(1 :: 'k) = - 1" by (simp only: eq_neg_iff_add_eq_0)
  then show False using minus_one(2) by simp
qed

lemma F2_field: "base_field (F2_base K2 ts fs) ok2 val2"
  using F2_base_field minus_one indep unfolding independent_def by blast

text \<open>A point with coordinates \<open>x = X / Z^2\<close> and \<open>y = Y / Z^3\<close>.\<close>

abbreviation jac :: "'e F2 Point \<Rightarrow> 'k \<Rightarrow> 'k \<Rightarrow> 'k \<Rightarrow> bool" where
  "jac r x y Z \<equiv> ok2 (px r) \<and> ok2 (py r) \<and> ok2 (pzz r) \<and> ok2 (pzzz r) \<and> Z \<noteq> 0 \<and>
     val2 (px r) = x * (Z * Z) \<and> val2 (py r) = y * (Z * Z * Z) \<and> val2 (pzz r) = Z \<and> val2 (pzzz r) = Z * Z"

text \<open>The three coefficients of a line are those of the line of slope \<open>m\<close> through \<open>(x, y)\<close>, times a factor.\<close>

abbreviation line_at :: "'e F2 \<Rightarrow> 'e F2 \<Rightarrow> 'e F2 \<Rightarrow> 'k \<Rightarrow> 'k \<Rightarrow> 'k \<Rightarrow> 'k \<Rightarrow> 'k \<Rightarrow> 'k \<Rightarrow> bool" where
  "line_at a b c s m x y xq yq \<equiv> ok2 a \<and> ok2 b \<and> ok2 c \<and>
     val2 a = s * (m * x - y) \<and> val2 b = - (s * m * xq) \<and> val2 c = s * yq"

lemma lineAdd_val:
  assumes r: "jac r x1 y1 Z" and p: "ok2 (ax p)" "ok2 (ay p)" "val2 (ax p) = x2" "val2 (ay p) = y2"
    and q: "ok (ax q)" "ok (ay q)" and r2: "ok2 r2" "val2 r2 = y2 * y2" and d: "x1 \<noteq> x2"
    and l: "lineFunctionAdd K2 r p q r2 = (a, b, c, r')"
  defines "m \<equiv> (y2 - y1) / (x2 - x1)" and "Z3 \<equiv> 2 * (x2 - x1) * (Z * Z * Z)"
  shows "line_at a b c (2 * Z3) m x2 y2 (val (ax q)) (val (ay q)) \<and>
    jac r' (fst (third_point m (x1, y1) x2)) (snd (third_point m (x1, y1) x2)) Z3"
proof -
  let ?d = "x2 - x1"
  have m: "m * ?d = y2 - y1" using d by (simp add: m_def)
  have y2: "y2 = y1 + m * ?d" using m by simp
  have Z3: "Z3 \<noteq> 0" using r d two_nz by (simp add: Z3_def)
  have rs: "ok2 (px r)" "ok2 (py r)" "ok2 (pzz r)" "ok2 (pzzz r)" "val2 (px r) = x1 * (Z * Z)"
    "val2 (py r) = y1 * (Z * Z * Z)" "val2 (pzz r) = Z" "val2 (pzzz r) = Z * Z"
    using r by blast+
  note s = rs p q r2
  have o: "ok2 (px r')" "ok2 (py r')" "ok2 (pzz r')" "ok2 (pzzz r')" "ok2 a" "ok2 b" "ok2 c"
    using l by (auto simp: lineFunctionAdd_def Let_def s)
  have zz: "val2 (pzz r') = Z3"
    using l by (auto simp: lineFunctionAdd_def Let_def Z3_def s algebra_simps)
  have zzz: "val2 (pzzz r') = Z3 * Z3"
    using l by (auto simp: lineFunctionAdd_def Let_def Z3_def s algebra_simps)
  have c: "val2 c = 2 * Z3 * val (ay q)"
    using l by (auto simp: lineFunctionAdd_def Let_def Z3_def s algebra_simps)
  have b: "val2 b = - (2 * Z3 * m * val (ax q))"
    using l by (auto simp: lineFunctionAdd_def Let_def Z3_def s y2 algebra_simps)
  have a: "val2 a = 2 * Z3 * (m * x2 - y2)"
    using l by (auto simp: lineFunctionAdd_def Let_def Z3_def s y2 algebra_simps)
  have x: "val2 (px r') = fst (third_point m (x1, y1) x2) * (Z3 * Z3)"
    using l by (auto simp: lineFunctionAdd_def third_point_def Let_def Z3_def s y2 algebra_simps)
  have y: "val2 (py r') = snd (third_point m (x1, y1) x2) * (Z3 * Z3 * Z3)"
    using l by (auto simp: lineFunctionAdd_def third_point_def Let_def Z3_def s y2 algebra_simps)
  show ?thesis using o Z3 zz zzz a b c x y by simp
qed

lemma lineDouble_val:
  assumes r: "jac r x1 y1 Z" and q: "ok (ax q)" "ok (ay q)" and d: "y1 \<noteq> 0"
    and l: "lineFunctionDouble K2 r q = (a, b, c, r')"
  defines "m \<equiv> 3 * (x1 * x1) / (2 * y1)" and "Z3 \<equiv> 2 * y1 * (Z * Z * Z * Z)"
  shows "line_at a b c (2 * Z3 * (Z * Z)) m x1 y1 (val (ax q)) (val (ay q)) \<and>
    jac r' (fst (third_point m (x1, y1) x1)) (snd (third_point m (x1, y1) x1)) Z3"
proof -
  have m: "3 * (x1 * x1) = 2 * m * y1" using d two_nz by (simp add: m_def)
  have Z3: "Z3 \<noteq> 0" using r d two_nz by (simp add: Z3_def)
  have rs: "ok2 (px r)" "ok2 (py r)" "ok2 (pzz r)" "ok2 (pzzz r)" "val2 (px r) = x1 * (Z * Z)"
    "val2 (py r) = y1 * (Z * Z * Z)" "val2 (pzz r) = Z" "val2 (pzzz r) = Z * Z"
    using r by blast+
  note s = rs q
  have o: "ok2 (px r')" "ok2 (py r')" "ok2 (pzz r')" "ok2 (pzzz r')" "ok2 a" "ok2 b" "ok2 c"
    using l by (auto simp: lineFunctionDouble_def Let_def s)
  have zz: "val2 (pzz r') = Z3"
    using l by (auto simp: lineFunctionDouble_def Let_def Z3_def s algebra_simps)
  have zzz: "val2 (pzzz r') = Z3 * Z3"
    using l by (auto simp: lineFunctionDouble_def Let_def Z3_def s algebra_simps)
  have c: "val2 c = 2 * Z3 * (Z * Z) * val (ay q)"
    using l by (auto simp: lineFunctionDouble_def Let_def Z3_def s algebra_simps)
  have "val2 b = - (2 * (3 * (x1 * x1)) * (Z * Z * Z * (Z * Z * Z)) * val (ax q))"
    using l by (auto simp: lineFunctionDouble_def Let_def s algebra_simps)
  then have b: "val2 b = - (2 * Z3 * (Z * Z) * m * val (ax q))" unfolding m by (simp add: Z3_def algebra_simps)
  have "val2 a = 2 * (x1 * (3 * (x1 * x1)) - 2 * (y1 * y1)) * (Z * Z * Z * (Z * Z * Z))"
    using l by (auto simp: lineFunctionDouble_def Let_def s algebra_simps)
  then have a: "val2 a = 2 * Z3 * (Z * Z) * (m * x1 - y1)" unfolding m by (simp add: Z3_def algebra_simps)
  have "val2 (px r') = (3 * (x1 * x1) * (3 * (x1 * x1)) - 8 * x1 * (y1 * y1)) * (Z * Z * Z * Z * (Z * Z * Z * Z))"
    using l by (auto simp: lineFunctionDouble_def Let_def s algebra_simps)
  then have x: "val2 (px r') = fst (third_point m (x1, y1) x1) * (Z3 * Z3)"
    unfolding m by (simp add: third_point_def Let_def Z3_def algebra_simps)
  have "val2 (py r') = (3 * (x1 * x1) * (12 * x1 * (y1 * y1) - 3 * (x1 * x1) * (3 * (x1 * x1))) - 8 * (y1 * y1 * (y1 * y1))) *
      (Z * Z * Z * Z * (Z * Z * Z * Z) * (Z * Z * Z * Z))"
    using l by (auto simp: lineFunctionDouble_def Let_def s algebra_simps)
  then have y: "val2 (py r') = snd (third_point m (x1, y1) x1) * (Z3 * Z3 * Z3)"
    unfolding m by (simp add: third_point_def Let_def Z3_def algebra_simps)
  show ?thesis using o Z3 zz zzz a b c x y by simp
qed

lemma mulLine_val:
  assumes "ok12 ret" "ok2 a" "ok2 b" "ok2 c"
  shows "ok12 (mulLine K6 ret a b c)" "val12 (mulLine K6 ret a b c) = val12 ret * (val2 c + (val2 a * t + val2 b) * w)"
proof -
  have o: "ok6 \<lparr>f6x = F2_zero K2, f6y = a', f6z = b'\<rparr>" if "ok2 a'" "ok2 b'" for a' b' using that by (simp add: F6_ok_def)
  have v: "val6 \<lparr>f6x = F2_zero K2, f6y = a', f6z = b'\<rparr> = val2 a' * t + val2 b'" for a' b' by (simp add: F6_val_def)
  show "ok12 (mulLine K6 ret a b c)" "val12 (mulLine K6 ret a b c) = val12 ret * (val2 c + (val2 a * t + val2 b) * w)"
    using assms by (simp_all add: mulLine_def Let_def F12_ok_def F12_val_def o v algebra_simps w_root)
qed

text \<open>The line at the untwisted points \<open>(x w^2, y w^3)\<close>.\<close>

abbreviation twist :: "'k \<times> 'k \<Rightarrow> 'k \<times> 'k" where
  "twist R \<equiv> (fst R * (w * w), snd R * (w * w * w))"

lemma line_twist:
  assumes "line_at a b c s m x y (fst P) (snd P)"
  shows "val2 c + (val2 a * t + val2 b) * w = s * ate_line (m * w) (twist (x, y)) P"
proof -
  have v: "val2 a = s * (m * x - y)" "val2 b = - (s * m * fst P)" "val2 c = s * snd P" using assms by blast+
  show ?thesis unfolding v w [symmetric] by (simp add: ate_line_def algebra_simps)
qed

lemma w_nz: "w \<noteq> 0"
proof
  assume "w = 0"
  then have "t = 0" using w by simp
  then have u: "9 + u = 0" using t by simp
  let ?n = "b_add F (b_one F) (b_add F (b_one F) (b_one F))"
  have "ok (b_mul F ?n ?n)" "val (b_mul F ?n ?n) = 9" by simp_all
  then have "val (b_mul F ?n ?n) + val (b_one F) * u = 0" using u by simp
  then have "val (b_one F) = 0" using indep unfolding independent_def by (metis one(1) \<open>ok (b_mul F ?n ?n)\<close>)
  then show False by simp
qed

lemma third_twist: "third_point (m * w) (twist R) (x * (w * w)) = twist (third_point m R x)"
  by (simp add: third_point_def Let_def algebra_simps)

text \<open>One tangent and one chord of the loop.\<close>

lemma double_step:
  assumes ret: "ok12 ret" "val12 ret = s * f" and r: "jac r (fst R) (snd R) Z" and q: "ok (ax q)" "ok (ay q)"
    and l: "lineFunctionDouble K2 r q = (a, b, c, r')" and s: "ate_double (val (ax q), val (ay q)) f (twist R) = Some (f', S)"
  obtains R' Z' where "S = twist R'" "jac r' (fst R') (snd R') Z'" "ok12 (mulLine K6 ret a b c)"
    "val12 (mulLine K6 ret a b c) = s * (2 * Z' * (Z * Z)) * f'"
proof -
  let ?P = "(val (ax q), val (ay q))" and ?m = "3 * (fst R * fst R) / (2 * snd R)"
  have y: "snd R \<noteq> 0" using s by (auto simp: ate_double_def split: if_splits)
  have m: "3 * (fst R * (w * w) * (fst R * (w * w))) / (2 * (snd R * (w * w * w))) = ?m * w"
    using y w_nz two_nz by (simp add: field_simps)
  have S: "f' = f * ate_line (?m * w) (twist R) ?P" "S = twist (third_point ?m R (fst R))"
    using s y w_nz unfolding ate_double_def fst_conv snd_conv m Let_def third_twist by simp_all
  note v = lineDouble_val [OF r q y l]
  have o: "ok2 a" "ok2 b" "ok2 c" using v by blast+
  let ?Z = "2 * snd R * (Z * Z * Z * Z)"
  have L: "line_at a b c (2 * ?Z * (Z * Z)) ?m (fst R) (snd R) (fst ?P) (snd ?P)" using v unfolding fst_conv snd_conv by blast
  have "val12 (mulLine K6 ret a b c) = s * f * (2 * ?Z * (Z * Z) * ate_line (?m * w) (twist R) ?P)"
    unfolding mulLine_val(2) [OF ret(1) o] ret(2) line_twist [OF L] prod.collapse ..
  then show ?thesis
    using that [of "third_point ?m R (fst R)" ?Z] v mulLine_val(1) [OF ret(1) o] S by (simp add: ac_simps)
qed

lemma add_step:
  assumes ret: "ok12 ret" "val12 ret = s * f" and r: "jac r (fst R) (snd R) Z" and q: "ok (ax q)" "ok (ay q)"
    and p: "ok2 (ax p)" "ok2 (ay p)" "val2 (ax p) = fst T" "val2 (ay p) = snd T" and r2: "ok2 r2" "val2 r2 = snd T * snd T"
    and l: "lineFunctionAdd K2 r p q r2 = (a, b, c, r')"
    and s: "ate_add (val (ax q), val (ay q)) (twist T) f (twist R) = Some (f', S)"
  obtains R' Z' where "S = twist R'" "jac r' (fst R') (snd R') Z'" "ok12 (mulLine K6 ret a b c)"
    "val12 (mulLine K6 ret a b c) = s * (2 * Z') * f'"
proof -
  let ?P = "(val (ax q), val (ay q))" and ?m = "(snd T - snd R) / (fst T - fst R)"
  have x: "fst R \<noteq> fst T" using s by (auto simp: ate_add_def split: if_splits)
  have m: "(snd T * (w * w * w) - snd R * (w * w * w)) / (fst T * (w * w) - fst R * (w * w)) = ?m * w"
    using w_nz by (simp flip: left_diff_distrib)
  have n: "fst R * (w * w) \<noteq> fst T * (w * w)" using x w_nz by simp
  have S: "f' = f * ate_line (?m * w) (twist T) ?P" "S = twist (third_point ?m R (fst T))"
    using s n unfolding ate_add_def fst_conv snd_conv m Let_def third_twist by simp_all
  note v = lineAdd_val [OF r p q r2 x l]
  have o: "ok2 a" "ok2 b" "ok2 c" using v by blast+
  let ?Z = "2 * (fst T - fst R) * (Z * Z * Z)"
  have L: "line_at a b c (2 * ?Z) ?m (fst T) (snd T) (fst ?P) (snd ?P)" using v unfolding fst_conv snd_conv by blast
  have "val12 (mulLine K6 ret a b c) = s * f * (2 * ?Z * ate_line (?m * w) (twist T) ?P)"
    unfolding mulLine_val(2) [OF ret(1) o] ret(2) line_twist [OF L] prod.collapse ..
  then show ?thesis
    using that [of "third_point ?m R (fst T)" ?Z] v mulLine_val(1) [OF ret(1) o] S by (simp add: ac_simps)
qed

subsection \<open>The loop of Miller\<close>

text \<open>A value up to a factor in the quadratic extension, and a point in the coordinates of the loop.\<close>

abbreviation scaled :: "'e F12 \<Rightarrow> 'k \<Rightarrow> bool" where
  "scaled ret f \<equiv> ok12 ret \<and> (\<exists>s. ok2 s \<and> val2 s \<noteq> 0 \<and> val12 ret = val2 s * f)"

abbreviation at_point :: "'e F2 Point \<Rightarrow> 'k \<times> 'k \<Rightarrow> bool" where
  "at_point r R \<equiv> \<exists>Z. jac r (fst R) (snd R) Z"

lemma scaled_mult:
  assumes "ok2 s" "val2 s \<noteq> 0" "ok2 z" "val2 z \<noteq> 0" "ok12 ret" "val12 ret = val2 s * (val2 z) * f"
  shows "scaled ret f"
  using assms by (intro conjI exI [of _ "F2_mul K2 s z"]) simp_all

lemma double_scaled:
  assumes ret: "scaled ret f" and r: "at_point r R" and q: "ok (ax q)" "ok (ay q)"
    and l: "lineFunctionDouble K2 r q = (a, b, c, r')" and d: "ate_double (val (ax q), val (ay q)) f (twist R) = Some (f', S)"
  shows "\<exists>R'. S = twist R' \<and> at_point r' R' \<and> scaled (mulLine K6 ret a b c) f'"
proof -
  obtain s where s: "ok2 s" "val2 s \<noteq> 0" "val12 ret = val2 s * f" using ret by blast
  obtain Z where Z: "jac r (fst R) (snd R) Z" using r by blast
  obtain R' Z' where R': "S = twist R'" "jac r' (fst R') (snd R') Z'" "ok12 (mulLine K6 ret a b c)"
    "val12 (mulLine K6 ret a b c) = val2 s * (2 * Z' * (Z * Z)) * f'"
    by (rule double_step [OF conjunct1 [OF ret] s(3) Z q l d])
  let ?z = "F2_mul K2 (F2_dbl K2 (pzz r')) (pzzz r)"
  have z: "ok2 ?z" "val2 ?z = 2 * Z' * (Z * Z)" using R'(2) Z by simp_all
  have nz: "val2 ?z \<noteq> 0" unfolding z(2) using R'(2) Z two_nz by simp
  have "scaled (mulLine K6 ret a b c) f'"
    by (rule scaled_mult [OF s(1,2) z(1) nz R'(3)]) (simp only: R'(4) z(2))
  then show ?thesis using R' by blast
qed

lemma add_scaled:
  assumes ret: "scaled ret f" and r: "at_point r R" and q: "ok (ax q)" "ok (ay q)"
    and p: "ok2 (ax p)" "ok2 (ay p)" "val2 (ax p) = fst T" "val2 (ay p) = snd T" and r2: "ok2 r2" "val2 r2 = snd T * snd T"
    and l: "lineFunctionAdd K2 r p q r2 = (a, b, c, r')"
    and d: "ate_add (val (ax q), val (ay q)) (twist T) f (twist R) = Some (f', S)"
  shows "\<exists>R'. S = twist R' \<and> at_point r' R' \<and> scaled (mulLine K6 ret a b c) f'"
proof -
  obtain s where s: "ok2 s" "val2 s \<noteq> 0" "val12 ret = val2 s * f" using ret by blast
  obtain Z where Z: "jac r (fst R) (snd R) Z" using r by blast
  obtain R' Z' where R': "S = twist R'" "jac r' (fst R') (snd R') Z'" "ok12 (mulLine K6 ret a b c)"
    "val12 (mulLine K6 ret a b c) = val2 s * (2 * Z') * f'"
    by (rule add_step [OF conjunct1 [OF ret] s(3) Z q p r2 l d])
  let ?z = "F2_dbl K2 (pzz r')"
  have z: "ok2 ?z" "val2 ?z = 2 * Z'" using R'(2) by simp_all
  have nz: "val2 ?z \<noteq> 0" unfolding z(2) using R'(2) two_nz by simp
  have "scaled (mulLine K6 ret a b c) f'"
    by (rule scaled_mult [OF s(1,2) z(1) nz R'(3)]) (simp only: R'(4) z(2))
  then show ?thesis using R' by blast
qed

lemma scaled_square: "scaled ret f \<Longrightarrow> scaled (F12_square K12 ret) (f * f)"
proof -
  assume a: "scaled ret f"
  then obtain s where s: "ok2 s" "val2 s \<noteq> 0" "val12 ret = val2 s * f" by blast
  show ?thesis
    by (rule scaled_mult [OF s(1,2) s(1,2)]) (use a in \<open>simp_all add: s(3) ac_simps\<close>)
qed

lemma NAF_digits: "set sixuPlus2NAF \<subseteq> {- 1, 0, 1}" "length sixuPlus2NAF = 65"
  by (simp_all add: sixuPlus2NAF_def)

lemma NAF_step: "i < length sixuPlus2NAF \<Longrightarrow> rev (take (Suc i) sixuPlus2NAF) = sixuPlus2NAF ! i # rev (take i sixuPlus2NAF)"
  by (simp add: take_Suc_conv_app_nth)

lemma miller_loop_val:
  assumes q: "ok (ax B)" "ok (ay B)" and A: "ok2 (ax A)" "ok2 (ay A)" "val2 (ax A) = fst Q" "val2 (ay A) = snd Q"
    and M: "M = \<lparr>ax = ax A, ay = F2_neg K2 (ay A)\<rparr>" and r2: "ok2 r2" "val2 r2 = snd Q * snd Q"
  shows "i < length sixuPlus2NAF \<Longrightarrow> scaled ret f \<Longrightarrow> i \<le> count' \<and> (i = count' \<longrightarrow> f = 1) \<Longrightarrow> at_point r R \<Longrightarrow>
    ate_loop (val (ax B), val (ay B)) (twist Q) (rev (take i sixuPlus2NAF)) f (twist R) = Some (f', S) \<Longrightarrow>
    \<exists>ret' r' R'. miller_loop E count' A M B r2 i ret r = (ret', r') \<and> S = twist R' \<and> at_point r' R' \<and> scaled ret' f'"
proof (induction i arbitrary: ret f r R)
  case 0
  then show ?case by auto
next
  case (Suc i)
  let ?P = "(val (ax B), val (ay B))" and ?d = "sixuPlus2NAF ! i"
  let ?ret = "if Suc i \<noteq> count' then F12_square K12 ret else ret"
  obtain a b c r1 where l: "lineFunctionDouble K2 r B = (a, b, c, r1)" by (metis prod_cases4)
  have i: "i < length sixuPlus2NAF" using Suc.prems(1) by simp
  have d: "?d = - 1 \<or> ?d = 0 \<or> ?d = 1" using nth_mem [OF i] NAF_digits(1) by blast
  have sq: "scaled ?ret (f * f)" using scaled_square [OF Suc.prems(2)] Suc.prems(2,3) by auto
  note run = Suc.prems(5) [unfolded NAF_step [OF i] ate_loop.simps]
  obtain f1 S1 where d1: "ate_double ?P (f * f) (twist R) = Some (f1, S1)"
    using run by (cases "ate_double ?P (f * f) (twist R)") auto
  obtain R1 where R1: "S1 = twist R1" "at_point r1 R1" "scaled (mulLine K6 ?ret a b c) f1"
    using double_scaled [OF sq Suc.prems(4) q l d1] by blast
  note run = run [unfolded d1 option.case prod.case R1(1)]
  let ?r1 = "mulLine K6 ?ret a b c"
  have IH: "\<exists>ret' r' R'. miller_loop E count' A M B r2 i ret r = (ret', r') \<and> S = twist R' \<and> at_point r' R' \<and> scaled ret' f'"
    if "scaled ret f" "at_point r R" "ate_loop ?P (twist Q) (rev (take i sixuPlus2NAF)) f (twist R) = Some (f', S)" for ret f r R
    using Suc.IH [OF i that(1) _ that(2,3)] Suc.prems(3) by simp
  show ?case
  proof (cases "?d = 0")
    case True
    then have e: "miller_loop E count' A M B r2 (Suc i) ret r = miller_loop E count' A M B r2 i ?r1 r1"
      by (simp add: Let_def l)
    show ?thesis unfolding e using IH [OF R1(3,2)] run True by simp
  next
    case False
    define T where "T = (if ?d = 1 then Q else (fst Q, - snd Q))"
    define p where "p = (if ?d = 1 then A else M)"
    have p: "ok2 (ax p)" "ok2 (ay p)" "val2 (ax p) = fst T" "val2 (ay p) = snd T" "val2 r2 = snd T * snd T"
      using A M r2 by (simp_all add: p_def T_def)
    have tw: "(if ?d = 1 then twist Q else (fst (twist Q), - snd (twist Q))) = twist T" by (simp add: T_def)
    obtain a' b' c' r3 where l': "lineFunctionAdd K2 r1 p B r2 = (a', b', c', r3)" by (metis prod_cases4)
    obtain f3 S3 where d3: "ate_add ?P (twist T) f1 (twist R1) = Some (f3, S3)"
      using run False unfolding tw by (cases "ate_add ?P (twist T) f1 (twist R1)") auto
    obtain R3 where R3: "S3 = twist R3" "at_point r3 R3" "scaled (mulLine K6 ?r1 a' b' c') f3"
      using add_scaled [OF R1(3,2) q p(1-4) r2(1) p(5) l' d3] by blast
    have e: "miller_loop E count' A M B r2 (Suc i) ret r = miller_loop E count' A M B r2 i (mulLine K6 ?r1 a' b' c') r3"
      using d False l l' by (auto simp: Let_def p_def)
    show ?thesis unfolding e using IH [OF R3(3,2)] run [unfolded tw d3 option.case prod.case R3(1)] False by simp
  qed
qed

text \<open>An affine point is converted to itself.\<close>

lemma toAffine_some:
  assumes f: "base_field G okg valg" "C_F C = G" and p: "point_at okg valg p (Some (x, y))"
  obtains r where "Curve_toAffine C p = Some r" "okg (ax r)" "okg (ay r)" "valg (ax r) = x" "valg (ay r) = y"
proof -
  have o: "okg (px p)" "okg (py p)" "okg (pzz p)" "okg (pzzz p)"
    and z: "valg (pzz p) \<noteq> 0" "valg (pzzz p) \<noteq> 0" "valg (px p) = x * valg (pzz p)" "valg (py p) = y * valg (pzzz p)"
    using p by (simp_all add: point_at_def)
  have nz: "\<not> Curve_isZero C p" using base_field.isZero [OF f(1) o(3)] z(1) by (simp add: Curve_isZero_def f(2))
  obtain a b where "b_div G (px p) (pzz p) = Some a" "okg a" "valg a = x" "b_div G (py p) (pzzz p) = Some b" "okg b" "valg b = y"
    using base_field.div [OF f(1) o(1) o(3) z(1)] base_field.div [OF f(1) o(2) o(4) z(2)] z by auto
  then show ?thesis using that [of "\<lparr>ax = a, ay = b\<rparr>"] nz by (simp add: Curve_toAffine_def f(2))
qed

lemma F2_base_simps [simp]: "b_one (F2_base K2 ts fs) = F2_one K2" "b_neg (F2_base K2 ts fs) = F2_neg K2"
  "b_isZero (F2_base K2 ts fs) = F2_isZero K2"
  by (simp_all add: F2_base_def)

end

subsection \<open>The Frobenius map\<close>

text \<open>
  The large field has characteristic \<open>p\<close>, and the constants of the code are what their names say:
  \<open>w\<close> is a sixth root of \<open>9 + u\<close>, so that \<open>w ^ (p - 1)\<close> is \<open>xiToPMinus1Over6\<close>, and so on.
\<close>

locale bn_frobenius = bn_engine F ok val nr u t c1 c2 c3 c4 w c5 c6 E ts fs
  for F :: "'e base_ops" and ok and val :: "'e \<Rightarrow> 'k::field" and nr u t c1 c2 c3 c4 w c5 c6 E ts fs +
  fixes p :: nat
  assumes frob_add: "((x :: 'k) + y) ^ p = x ^ p + y ^ p" and fermat: "ok e \<Longrightarrow> val e ^ p = val e"
    and u_p: "u ^ p = - u"
    and xi_p: "val2 c5 * w = w ^ p" "val2 c2 * t = t ^ p" "val2 c1 * (t * t) = (t * t) ^ p"
    and xi_p2: "val c6 * w = w ^ (p * p)" "val c4 * t = t ^ (p * p)" "val c3 * (t * t) = (t * t) ^ (p * p)"
    and xi_E: "val2 (v_xiToPMinus1Over3 E) * t = t ^ p" "val2 (v_xiToPMinus1Over2 E) * (w * w * w) = (w * w * w) ^ p"
      "val (v_xiToPSquaredMinus1Over3 E) * t = t ^ (p * p)"
    and root6: "val c6 * val c6 = val c6 - 1" and three: "(3 :: 'k) \<noteq> 0"
begin

lemma p_pos: "0 < p"
  using fermat [of "b_zero F"] by (cases p) simp_all

lemma frob_neg: "(- (x :: 'k)) ^ p = - (x ^ p)"
proof -
  have "x ^ p + (- x) ^ p = 0" using frob_add [of x "- x"] p_pos by (simp add: power_0_left)
  then show ?thesis by (simp add: eq_neg_iff_add_eq_0 add.commute)
qed

lemma frob_diff: "((x :: 'k) - y) ^ p = x ^ p - y ^ p"
  using frob_add [of x "- y"] by (simp add: frob_neg)

lemma power_pp: "(x :: 'k) ^ (p * p) = (x ^ p) ^ p"
  by (rule power_mult)

lemma frob2: "ok2 a \<Longrightarrow> val2 (F2_conjugate K2 a) = val2 a ^ p"
  using u_p by (simp add: F2_val_def F2_ok_def F2_conjugate_def Let_def frob_add power_mult_distrib fermat)

lemma conjugate2 [simp]: "ok2 a \<Longrightarrow> val2 (F2_conjugate K2 (F2_conjugate K2 a)) = val2 a"
  by (simp add: F2_val_def F2_ok_def F2_conjugate_def Let_def)

lemma frob2_twice [simp]: "ok2 a \<Longrightarrow> (val2 a ^ p) ^ p = val2 a"
  by (metis frob2 conjugate2 linear2(9))

lemma frob1_twice [simp]: "ok a \<Longrightarrow> val a ^ p = val a"
  by (rule fermat)

lemma frob6: 
  assumes "ok6 a"
  shows "val6 (F6_Frobenius K6 a) = val6 a ^ p"
proof -
  have o: "ok2 (f6x a)" "ok2 (f6y a)" "ok2 (f6z a)" using assms by (simp_all add: F6_ok_def)
  have "val6 (F6_Frobenius K6 a) = val2 (f6x a) ^ p * (val2 c1 * (t * t)) + val2 (f6y a) ^ p * (val2 c2 * t) + val2 (f6z a) ^ p"
    using o by (simp add: F6_Frobenius_def F6_val_def Let_def frob2 [symmetric] c_ok ac_simps del: linear2(10))
  then show ?thesis by (simp add: xi_p F6_val_def frob_add power_mult_distrib)
qed

lemma frob6_2:
  assumes "ok6 a"
  shows "val6 (F6_FrobeniusP2 K6 a) = val6 a ^ (p * p)"
proof -
  have o: "ok2 (f6x a)" "ok2 (f6y a)" "ok2 (f6z a)" using assms by (simp_all add: F6_ok_def)
  have "val6 (F6_FrobeniusP2 K6 a) = val2 (f6x a) * (val c3 * (t * t)) + val2 (f6y a) * (val c4 * t) + val2 (f6z a)"
    using o by (simp add: F6_FrobeniusP2_def F6_val_def Let_def c_ok ac_simps)
  then show ?thesis using o by (simp add: xi_p2 F6_val_def frob_add power_mult_distrib power_pp)
qed

lemma frob12:
  assumes "ok12 a"
  shows "val12 (F12_Frobenius K12 a) = val12 a ^ p" "val12 (F12_FrobeniusP2 K12 a) = val12 a ^ (p * p)"
proof -
  have o: "ok6 (f12x a)" "ok6 (f12y a)" using assms by (simp_all add: F12_ok_def)
  have "val12 (F12_Frobenius K12 a) = val6 (f12x a) ^ p * (val2 c5 * w) + val6 (f12y a) ^ p"
    using o by (simp add: F12_Frobenius_def F12_val_def Let_def frob6 c_ok12 ac_simps)
  then show "val12 (F12_Frobenius K12 a) = val12 a ^ p" by (simp add: xi_p F12_val_def frob_add power_mult_distrib)
  have "val12 (F12_FrobeniusP2 K12 a) = val6 (f12x a) ^ (p * p) * (val c6 * w) + val6 (f12y a) ^ (p * p)"
    using o by (simp add: F12_FrobeniusP2_def F12_val_def Let_def frob6_2 c_ok12 ac_simps)
  then show "val12 (F12_FrobeniusP2 K12 a) = val12 a ^ (p * p)"
    by (simp add: xi_p2 F12_val_def frob_add power_mult_distrib power_pp)
qed

text \<open>The sixth power of the map is the conjugation.\<close>

lemma t_nz: "t \<noteq> 0"
  using w_nz w by auto

lemma c4_val: "val c4 = val c6 * val c6" "val c3 = val c4 * val c4"
proof -
  have "val c4 * t = (w * w) ^ (p * p)" using xi_p2(2) w by simp
  also have "\<dots> = (val c6 * w) * (val c6 * w)" unfolding xi_p2(1) by (rule power_mult_distrib)
  also have "\<dots> = val c6 * val c6 * t" unfolding w [symmetric] by (simp only: ac_simps)
  finally show c4: "val c4 = val c6 * val c6" using t_nz by simp
  have "val c3 * (t * t) = t ^ (p * p) * t ^ (p * p)" using xi_p2(3) by (simp add: power_mult_distrib)
  also have "\<dots> = val c4 * val c4 * (t * t)" unfolding xi_p2(2) [symmetric] by (simp only: ac_simps)
  finally show "val c3 = val c4 * val c4" using t_nz by simp
qed

abbreviation frob2p :: "'k \<Rightarrow> 'k" where
  "frob2p x \<equiv> x ^ (p * p)"

lemma frob2p_simps:
  "frob2p (x + y) = frob2p x + frob2p y" "frob2p (x * y) = frob2p x * frob2p y"
  "frob2p t = val c4 * t" "frob2p w = val c6 * w" "ok2 a \<Longrightarrow> frob2p (val2 a) = val2 a" "ok e \<Longrightarrow> frob2p (val e) = val e"
  by (simp_all add: xi_p2 power_pp frob_add power_mult_distrib fermat)

lemma root6_cube: "val c6 * (val c6 * val c6) = - 1" "val c4 * (val c4 * val c4) = 1"
proof -
  show 3: "val c6 * (val c6 * val c6) = - 1" unfolding root6 by (simp add: algebra_simps root6)
  have "val c4 * (val c4 * val c4) = val c6 * (val c6 * val c6) * (val c6 * (val c6 * val c6))"
    unfolding c4_val by (simp only: ac_simps)
  then show "val c4 * (val c4 * val c4) = 1" unfolding 3 by simp
qed

lemma frob6p: "frob2p (frob2p (frob2p x)) = x ^ (p ^ 6)"
  by (simp add: eval_nat_numeral ac_simps flip: power_mult)

lemma frob6p_t: "frob2p (frob2p (frob2p t)) = t"
  using root6_cube(2) by (simp add: frob2p_simps c_ok ac_simps)

lemma frob6p_6: "ok6 a \<Longrightarrow> frob2p (frob2p (frob2p (val6 a))) = val6 a"
proof -
  assume a: "ok6 a"
  have t: "val c4 * (val c4 * (val c4 * x)) = x" for x using root6_cube(2) by (metis mult.assoc mult_1)
  show ?thesis using a by (simp add: F6_val_def F6_ok_def frob2p_simps c_ok ac_simps t)
qed

lemma conjugate12:
  assumes "ok12 a"
  shows "val12 (F12_conjugate K12 a) = val12 a ^ (p ^ 6)"
proof -
  have o: "ok6 (f12x a)" "ok6 (f12y a)" using assms by (simp_all add: F12_ok_def)
  have w: "val c6 * (val c6 * (val c6 * x)) = - x" for x using root6_cube(1) by (metis mult.assoc mult_minus1)
  have "frob2p (frob2p (frob2p w)) = - w" by (simp add: frob2p_simps c_ok12 w)
  then have "frob2p (frob2p (frob2p (val12 a))) = val6 (f12y a) - val6 (f12x a) * w"
    using frob6p_6 [OF o(1)] frob6p_6 [OF o(2)] by (simp add: F12_val_def frob2p_simps(1,2))
  then show ?thesis using assms by (simp add: frob6p)
qed

text \<open>The representation is unique, and the norms vanish only at zero.\<close>

lemma c4_root: "val c4 * val c4 + val c4 + 1 = 0"
  unfolding c4_val using root6 root6_cube(1) by (simp add: algebra_simps)

lemma unique6:
  assumes "ok6 a" "val6 a = 0"
  shows "val2 (f6x a) = 0" "val2 (f6y a) = 0" "val2 (f6z a) = 0"
proof -
  let ?x = "val2 (f6x a) * (t * t)" and ?y = "val2 (f6y a) * t" and ?z = "val2 (f6z a)" and ?o = "val c4"
  have o: "ok2 (f6x a)" "ok2 (f6y a)" "ok2 (f6z a)" using assms by (simp_all add: F6_ok_def)
  have e1: "?x + ?y + ?z = 0" using assms(2) by (simp add: F6_val_def)
  have "frob2p (?x + ?y + ?z) = 0" unfolding e1 using fermat [of "b_zero F"] by (simp add: power_pp)
  then have e2: "?o * ?o * ?x + ?o * ?y + ?z = 0" using o by (simp add: frob2p_simps ac_simps)
  have "frob2p (?o * ?o * ?x + ?o * ?y + ?z) = 0" unfolding e2 using fermat [of "b_zero F"] by (simp add: power_pp)
  then have "?o * ?o * (?o * ?o * ?x) + ?o * (?o * ?y) + ?z = 0" using o by (simp add: frob2p_simps c_ok ac_simps)
  moreover have oo: "?o * ?o = - ?o - 1" using c4_root by (simp add: algebra_simps eq_neg_iff_add_eq_0)
  ultimately have e3: "?o * ?x + ?o * ?o * ?y + ?z = 0"
    using root6_cube(2) by (simp add: mult.assoc) (metis mult.assoc mult_1)
  have "3 * ?z = (?x + ?y + ?z) + (?o * ?o * ?x + ?o * ?y + ?z) + (?o * ?x + ?o * ?o * ?y + ?z)"
    unfolding oo by (simp add: algebra_simps)
  then have z: "?z = 0" using three unfolding e1 e2 e3 by simp
  have "3 * ?x = (?x + ?y + ?z) + ?o * (?o * ?o * ?x + ?o * ?y + ?z) + ?o * ?o * (?o * ?x + ?o * ?o * ?y + ?z)"
  proof -
    have 4: "?o * (?o * (?o * v)) = v" for v using root6_cube(2) by (metis mult.assoc mult_1)
    have "?x + ?y + ?z + ?o * (?o * ?o * ?x + ?o * ?y + ?z) + ?o * ?o * (?o * ?x + ?o * ?o * ?y + ?z) =
        3 * ?x + (1 + ?o * ?o + ?o) * ?y + (1 + ?o + ?o * ?o) * ?z"
      by (simp add: algebra_simps 4)
    moreover have "1 + ?o * ?o + ?o = 0" "1 + ?o + ?o * ?o = 0" using c4_root by (simp_all add: algebra_simps)
    ultimately show ?thesis by simp
  qed
  then have x: "?x = 0" using three unfolding e1 e2 e3 by simp
  show "val2 (f6x a) = 0" "val2 (f6y a) = 0" "?z = 0" using x z e1 t_nz by simp_all
qed

lemma unique12:
  assumes "ok12 a" "val12 a = 0"
  shows "val6 (f12x a) = 0" "val6 (f12y a) = 0"
proof -
  have o: "ok6 (f12x a)" "ok6 (f12y a)" using assms by (simp_all add: F12_ok_def)
  have "(0 :: 'k) ^ p ^ 6 = 0" using p_pos by (simp add: power_0_left)
  then have "val12 (F12_conjugate K12 a) = 0" using conjugate12 [OF assms(1)] assms(2) by simp
  then have "val6 (f12y a) - val6 (f12x a) * w = 0" using linear12(8) [OF assms(1)] by simp
  moreover have "val6 (f12x a) * w + val6 (f12y a) = 0" using assms(2) by (simp add: F12_val_def)
  ultimately have "2 * val6 (f12y a) = 0" "2 * (val6 (f12x a) * w) = 0" by (simp_all add: algebra_simps eq_neg_iff_add_eq_0)
  then show "val6 (f12x a) = 0" "val6 (f12y a) = 0" using two_nz w_nz by simp_all
qed

lemma cube_factors:
  fixes o' :: 'k
  assumes "o' * o' = - o' - 1"
  shows "(X + Y + Z) * ((o' * o' * X + o' * Y + Z) * (o' * X + o' * o' * Y + Z)) = X * X * X + Y * Y * Y + Z * Z * Z - 3 * (X * Y * Z)"
proof -
  have o: "o' * (o' * v) = - (o' * v) - v" for v using arg_cong [OF assms, of "\<lambda>c. c * v"] by (simp add: algebra_simps)
  have e: "(o' * o' * X + o' * Y + Z) * (o' * X + o' * o' * Y + Z) = X * X + Y * Y + Z * Z - X * Y - Y * Z - X * Z"
    by (simp add: algebra_simps o assms)
  show ?thesis unfolding e by (simp add: algebra_simps)
qed

lemma norm6_nz:
  assumes "ok6 a" "val6 a \<noteq> 0"
  shows "norm6 a \<noteq> 0"
proof -
  let ?x = "val2 (f6x a)" and ?y = "val2 (f6y a)" and ?z = "val2 (f6z a)" and ?o = "val c4"
  have o: "ok2 (f6x a)" "ok2 (f6y a)" "ok2 (f6z a)" using assms by (simp_all add: F6_ok_def)
  have v: "val6 a = ?x * (t * t) + ?y * t + ?z" by (simp add: F6_val_def)
  have v2: "frob2p (val6 a) = ?o * ?o * (?x * (t * t)) + ?o * (?y * t) + ?z" using o by (simp add: v frob2p_simps ac_simps)
  have v4: "frob2p (frob2p (val6 a)) = ?o * (?x * (t * t)) + ?o * ?o * (?y * t) + ?z"
  proof -
    have f: "frob2p ?o = ?o" "frob2p ?x = ?x" "frob2p ?y = ?y" "frob2p ?z = ?z" using o by (simp_all add: frob2p_simps c_ok)
    have e: "?o * ?o * (?x * (?o * t * (?o * t))) = ?o * (?o * ?o) * (?o * (?x * (t * t)))"
      "?o * (?y * (?o * t)) = ?o * ?o * (?y * t)" by (simp_all only: ac_simps)
    show ?thesis unfolding v2 frob2p_simps(1-3) f e root6_cube(2) by simp
  qed
  have oo: "?o * ?o = - ?o - 1" using c4_root by (simp add: algebra_simps eq_neg_iff_add_eq_0)
  have "norm6 a = val6 a * (frob2p (val6 a) * frob2p (frob2p (val6 a)))"
    unfolding v4 unfolding v2 unfolding v cube_factors [OF oo] F6_norm_def Let_def t [symmetric] by (simp add: algebra_simps)
  then show ?thesis using assms(2) by simp
qed

lemma norm12_nz:
  assumes "ok12 a" "val12 a \<noteq> 0"
  shows "norm12 a \<noteq> 0"
proof -
  let ?b = "F6_sub K6 (F6_square K6 (f12y a)) (F6_mulTau K6 (F6_square K6 (f12x a)))"
  have o: "ok6 (f12x a)" "ok6 (f12y a)" using assms by (simp_all add: F12_ok_def)
  have "val6 ?b = (val6 (f12y a) - val6 (f12x a) * w) * val12 a"
    using o by (simp add: F12_val_def algebra_simps w_root)
  also have "\<dots> = val12 a ^ (p ^ 6) * val12 a" using conjugate12 [OF assms(1)] linear12(8) [OF assms(1)] by simp
  finally have "val6 ?b \<noteq> 0" using assms(2) by simp
  then show ?thesis unfolding F12_norm_def using o by (intro norm6_nz) simp_all
qed

lemma isOne12:
  assumes "ok12 a"
  shows "F12_isOne K12 a \<longleftrightarrow> val12 a = 1"
proof
  have o: "ok6 (f12x a)" "ok6 (f12y a)" "ok2 (f6x (f12x a))" "ok2 (f6y (f12x a))" "ok2 (f6z (f12x a))"
      "ok2 (f6x (f12y a))" "ok2 (f6y (f12y a))" "ok2 (f6z (f12y a))"
    using assms by (simp_all add: F12_ok_def F6_ok_def)
  have z: "F2_isZero K2 b \<longleftrightarrow> val2 b = 0" if "ok2 b" for b
    using base_field.isZero [OF F2_field that] by (simp add: F2_base_def)
  have e: "F2_isOne K2 b \<longleftrightarrow> val2 b = 1" if "ok2 b" for b
  proof -
    have "F2_isOne K2 b \<longleftrightarrow> F2_eq K2 b (F2_one K2)" using that by (simp add: F2_isOne_def F2_eq_def F2_ok_def new_F2Field_def)
    then show ?thesis using base_field.eq [OF F2_field that consts2(3)] by (simp add: F2_base_def)
  qed
  have d: "F12_isOne K12 a \<longleftrightarrow> (val2 (f6x (f12x a)) = 0 \<and> val2 (f6y (f12x a)) = 0 \<and> val2 (f6z (f12x a)) = 0) \<and>
      val2 (f6x (f12y a)) = 0 \<and> val2 (f6y (f12y a)) = 0 \<and> val2 (f6z (f12y a)) = 1"
    using o z e by (simp add: F12_isOne_def F6_isZero_def F6_isOne_def)
  show "F12_isOne K12 a \<Longrightarrow> val12 a = 1" unfolding d by (simp add: F12_val_def F6_val_def)
  assume v: "val12 a = 1"
  let ?b = "F12_sub K12 a (F12_one K12)"
  have b: "ok12 ?b" "val12 ?b = 0" using assms v by simp_all
  have b6: "ok6 (f12x ?b)" "ok6 (f12y ?b)" using b(1) by (simp_all add: F12_ok_def)
  note u = unique6 [OF b6(1) unique12(1) [OF b]] unique6 [OF b6(2) unique12(2) [OF b]]
  show "F12_isOne K12 a" unfolding d
    using u o by (simp add: F12_sub_def F12_initField_def F6_sub_def F6_initField_def Let_def)
qed

end

subsection \<open>The final exponentiation\<close>

definition final_exponent :: "int \<Rightarrow> int \<Rightarrow> int" where
  "final_exponent p u = p + p ^ 2 + p ^ 3 - 2 + 6 * u ^ 2 * p ^ 2 - 12 * u * p - 18 * (u + u ^ 2 * p) - 30 * u ^ 2 - 36 * (u ^ 3 + u ^ 3 * p)"

text \<open>The primes of the curve: for them the exponent is the one that maps onto the roots of unity.\<close>

definition bn_p :: int where
  "bn_p = 36 * int bn_u ^ 4 + 36 * int bn_u ^ 3 + 24 * int bn_u ^ 2 + 6 * int bn_u + 1"

definition bn_r :: int where
  "bn_r = 36 * int bn_u ^ 4 + 36 * int bn_u ^ 3 + 18 * int bn_u ^ 2 + 6 * int bn_u + 1"

lemma bn_primes:
  "bn_p = 21888242871839275222246405745257275088696311157297823662689037894645226208583"
  "bn_r = 21888242871839275222246405745257275088548364400416034343698204186575808495617"
  by (simp_all add: bn_p_def bn_r_def bn_u_def)

lemma final_exponent_bn: "final_exponent bn_p (int bn_u) * bn_r = bn_p ^ 4 - bn_p ^ 2 + 1"
  unfolding bn_primes by (simp add: final_exponent_def bn_u_def)

context bn_frobenius
begin

text \<open>Elements whose value is a power of a value \<open>h\<close> that the conjugation inverts.\<close>

abbreviation pow_of :: "'k \<Rightarrow> 'e F12 \<Rightarrow> int \<Rightarrow> bool" where
  "pow_of h a n \<equiv> ok12 a \<and> val12 a = h powi n"

lemma pow_of_ops:
  assumes h: "h \<noteq> 0" "h ^ (p ^ 6) = inverse h" and a: "pow_of h a m" and b: "pow_of h b n"
  shows "pow_of h (F12_mul K12 a b) (m + n)" "pow_of h (F12_square K12 a) (2 * m)" "pow_of h (F12_conjugate K12 a) (- m)"
    "pow_of h (F12_Frobenius K12 a) (m * int p)" "pow_of h (F12_FrobeniusP2 K12 a) (m * int p ^ 2)"
    "pow_of h (F12_exp K12 a (le_bytes 8 bn_u) 8) (m * int bn_u)"
proof -
  show "pow_of h (F12_mul K12 a b) (m + n)" using a b h(1) by (simp add: power_int_add)
  show "pow_of h (F12_square K12 a) (2 * m)"
    using a h(1) power_int_add [of h m m] by simp
  have "val12 (F12_conjugate K12 a) = (h powi m) ^ (p ^ 6)" using conjugate12 a by simp
  also have "\<dots> = (h powi int (p ^ 6)) powi m" by (simp only: power_int_power' power_int_mult [symmetric] mult.commute)
  also have "\<dots> = inverse h powi m" using h(2) by (simp only: power_int_of_nat)
  finally show "pow_of h (F12_conjugate K12 a) (- m)" using a by (simp add: power_int_inverse power_int_minus)
  show "pow_of h (F12_Frobenius K12 a) (m * int p)" using frob12(1) a by (simp add: power_int_power')
  show "pow_of h (F12_FrobeniusP2 K12 a) (m * int p ^ 2)"
    using frob12(2) a by (simp add: power_int_power' power2_eq_square)
  have "le_nat (le_bytes 8 bn_u) = bn_u" by (simp only: le_nat_le_bytes) (simp add: bn_u_def)
  then show "pow_of h (F12_exp K12 a (le_bytes 8 bn_u) 8) (m * int bn_u)"
    using exp12 [of a 8 "le_bytes 8 bn_u"] a by (simp add: power_int_power')
qed

lemma power_p12: "ok12 a \<Longrightarrow> (val12 a ^ (p ^ 6)) ^ (p ^ 6) = val12 a"
proof -
  assume a: "ok12 a"
  have "val12 (F12_conjugate K12 (F12_conjugate K12 a)) = val12 a"
    using a by (simp add: F12_conjugate_def F12_ok_def F12_val_def Let_def)
  then show ?thesis using conjugate12 [OF a] conjugate12 [OF linear12(7) [OF a]] by simp
qed

lemma final_val:
  assumes a: "ok12 a" "val12 a \<noteq> 0"
  defines "e \<equiv> (int p ^ 6 - 1) * (int p ^ 2 + 1)"
  shows "\<exists>ret. finalExponentiation E a = Some ret \<and> ok12 ret \<and> val12 ret = val12 a powi (e * final_exponent (int p) (int bn_u))"
proof -
  let ?g = "val12 a" and ?u = "le_bytes 8 bn_u"
  obtain i where i: "F12_inv K12 a = Some i" "ok12 i" "val12 i * ?g = 1" using inv12 [OF a(1) norm12_nz [OF a] indep] by blast
  have iv: "val12 i = inverse ?g" using inverse_unique [of ?g "val12 i"] i(3) by (simp add: mult.commute)
  define t1 where "t1 = F12_mul K12 \<lparr>f12x = F6_neg K6 (f12x a), f12y = f12y a\<rparr> i"
  define h1 where "h1 = ?g powi (int p ^ 6 - 1)"
  define t2 where "t2 = F12_mul K12 t1 (F12_FrobeniusP2 K12 t1)"
  define h where "h = ?g powi e"
  have c: "\<lparr>f12x = F6_neg K6 (f12x a), f12y = f12y a\<rparr> = F12_conjugate K12 a" by (simp add: F12_conjugate_def)
  have t1: "ok12 t1" "val12 t1 = h1"
  proof -
    show "ok12 t1" using a(1) i(2) by (simp add: t1_def c)
    have "val12 t1 = ?g ^ (p ^ 6) * inverse ?g"
      unfolding t1_def c using mul12(2) [OF linear12(7) [OF a(1)] i(2)] conjugate12 [OF a(1)] iv by simp
    also have "\<dots> = ?g powi int (p ^ 6) * ?g powi (- 1)" by (simp only: power_int_of_nat power_int_minus1_right)
    finally show "val12 t1 = h1" using a(2) by (simp add: h1_def power_int_diff divide_inverse)
  qed
  have t2: "ok12 t2" "val12 t2 = h"
  proof -
    show "ok12 t2" using t1(1) by (simp add: t2_def)
    have "val12 t2 = h1 powi 1 * h1 powi int (p * p)" 
      using t1 frob12(2) [OF t1(1)] by (simp add: t2_def del: of_nat_mult)
    also have "\<dots> = h1 powi (1 + int (p * p))" using a(2) by (subst power_int_add) (simp_all add: h1_def)
    also have "\<dots> = h" unfolding h_def h1_def e_def power_int_mult [symmetric] by (simp add: power2_eq_square algebra_simps)
    finally show "val12 t2 = h" .
  qed
  have h0: "h \<noteq> 0" using a(2) by (simp add: h_def)
  have h6: "h ^ (p ^ 6) = inverse h"
  proof -
    have "?g powi (int p ^ 6 * (int p ^ 6 - 1)) = inverse (?g powi (int p ^ 6 - 1))"
    proof -
      have g: "(?g powi int (p ^ 6)) powi int (p ^ 6) = ?g" using power_p12 [OF a(1)] by (simp only: power_int_of_nat)
      have "?g powi (int p ^ 6 * (int p ^ 6 - 1)) = (?g powi int (p ^ 6)) powi int (p ^ 6) * inverse (?g powi int (p ^ 6))"
        using a(2) by (simp add: right_diff_distrib power_int_diff divide_inverse flip: power_int_mult)
      also have "\<dots> = inverse (?g powi (int p ^ 6 - 1))" unfolding g using a(2) by (simp add: power_int_diff divide_inverse)
      finally show ?thesis .
    qed
    then have "(?g powi (int p ^ 6 * (int p ^ 6 - 1))) powi (int p ^ 2 + 1) = inverse h"
      by (simp only: h_def e_def power_int_inverse power_int_mult)
    moreover have "h ^ (p ^ 6) = (?g powi (int p ^ 6 * (int p ^ 6 - 1))) powi (int p ^ 2 + 1)"
      unfolding h_def e_def power_int_power' power_int_mult [symmetric] by (simp add: ac_simps)
    ultimately show ?thesis by simp
  qed
  note ops = pow_of_ops [OF h0 h6]
  have P: "pow_of h t2 1" using t2 by simp
  have "\<exists>ret. finalExponentiation E a = Some ret \<and> pow_of h ret (final_exponent (int p) (int bn_u))"
  proof -
    let ?fu = "F12_exp K12 t2 ?u 8"
    let ?fu2 = "F12_exp K12 ?fu ?u 8"
    let ?fu3 = "F12_exp K12 ?fu2 ?u 8"
    note P2 = ops(5) [OF P P] and P1 = ops(4) [OF P P]
    note P3 = ops(4) [OF P2 P2]
    note U1 = ops(6) [OF P P]
    note U2 = ops(6) [OF U1 U1]
    note U3 = ops(6) [OF U2 U2]
    note y3 = ops(3) [OF ops(4) [OF U1 U1] ops(4) [OF U1 U1]]
    note fu2p = ops(4) [OF U2 U2] and fu3p = ops(4) [OF U3 U3] and y2 = ops(5) [OF U2 U2]
    note y0 = ops(1) [OF ops(1) [OF P1 P2] P3]
    note y1 = ops(3) [OF P P] and y5 = ops(3) [OF U2 U2]
    note y4' = ops(1) [OF U1 fu2p]
    note y4 = ops(3) [OF y4' y4']
    note y6' = ops(1) [OF U3 fu3p]
    note y6 = ops(3) [OF y6' y6']
    note a1 = ops(1) [OF ops(1) [OF ops(2) [OF y6 y6] y4] y5]
    note b1 = ops(1) [OF ops(1) [OF y3 y5] a1]
    note a2 = ops(1) [OF a1 y2]
    note b2 = ops(1) [OF ops(2) [OF b1 b1] a2]
    note b3 = ops(2) [OF b2 b2]
    note a3 = ops(1) [OF b3 y1]
    note b4 = ops(1) [OF b3 y0]
    note r = ops(1) [OF ops(2) [OF a3 a3] b4]
    show ?thesis
      unfolding finalExponentiation_def Let_def E_simps i(1) option.case t1_def [symmetric] t2_def [symmetric]
      by (intro exI conjI [OF refl])
        (use r in \<open>simp add: final_exponent_def algebra_simps power2_eq_square power3_eq_cube\<close>)
  qed
  then show ?thesis unfolding h_def power_int_mult by blast
qed

lemma final_scaled:
  assumes "scaled a f" "f \<noteq> 0"
  defines "e \<equiv> (int p ^ 6 - 1) * (int p ^ 2 + 1) * final_exponent (int p) (int bn_u)"
  shows "\<exists>ret. finalExponentiation E a = Some ret \<and> ok12 ret \<and> val12 ret = f powi e"
proof -
  obtain s where s: "ok12 a" "ok2 s" "val2 s \<noteq> 0" "val12 a = val2 s * f" using assms(1) by blast
  have "val2 s powi (int p ^ 2) = val2 s powi int (p * p)" by (simp add: power2_eq_square)
  also have "\<dots> = val2 s" unfolding power_int_of_nat using s(2) by (simp add: power_pp)
  finally have "val2 s powi (int p ^ 2 - 1) = 1" using s(3) by (simp add: power_int_diff)
  moreover have "e = (int p ^ 2 - 1) * ((int p ^ 4 + int p ^ 2 + 1) * (int p ^ 2 + 1) * final_exponent (int p) (int bn_u))"
    unfolding e_def by (simp add: algebra_simps eval_nat_numeral)
  ultimately have "val2 s powi e = 1" by (simp only: power_int_mult power_int_1_left)
  then have "val12 a powi e = f powi e" unfolding s(4) power_int_mult_distrib by simp
  moreover have "val12 a \<noteq> 0" using s assms(2) by simp
  ultimately show ?thesis using final_val [OF s(1)] unfolding e_def by simp
qed

lemma miller_val:
  assumes q: "point_at ok2 val2 q (Some Q)" "Q \<noteq> (0, 0)" and p1: "point_at ok val p1 (Some P)"
    and f: "optimal_ate p P (twist Q) = Some f"
  shows "\<exists>ret. miller E q p1 = Some ret \<and> scaled ret f"
proof -
  obtain x y where Q: "Q = (x, y)" by (cases Q)
  obtain xp yp where P: "P = (xp, yp)" by (cases P)
  obtain A where A: "Curve_toAffine (en_g2 E) q = Some A" "ok2 (ax A)" "ok2 (ay A)" "val2 (ax A) = x" "val2 (ay A) = y"
    by (rule toAffine_some [OF F2_field E_g2 q(1) [unfolded Q]])
  obtain B where B: "Curve_toAffine (en_g1 E) p1 = Some B" "ok (ax B)" "ok (ay B)" "val (ax B) = xp" "val (ay B) = yp"
    by (rule toAffine_some [OF base_field_axioms E_g1 p1 [unfolded P]])
  let ?M = "Curve_negA (en_g2 E) A" and ?r = "Curve_fromAffine (en_g2 E) A" and ?r2 = "F2_square K2 (ay A)"
  let ?n = "length sixuPlus2NAF - 1"
  have M: "?M = \<lparr>ax = ax A, ay = F2_neg K2 (ay A)\<rparr>" by (simp add: Curve_negA_def E_g2)
  have nz: "\<not> Curve_isZeroA (en_g2 E) A"
    using q(2) base_field.isZero [OF F2_field A(2)] base_field.isZero [OF F2_field A(3)] A(4,5) by (auto simp: Q Curve_isZeroA_def E_g2)
  have r: "at_point ?r Q" using A nz by (intro exI [of _ 1]) (simp add: Curve_fromAffine_def E_g2 Let_def Q)
  have one: "scaled (F12_one K12) 1" by (intro conjI exI [of _ "F2_one K2"]) simp_all
  obtain g R h S k T where steps: "ate_loop P (twist Q) ate_digits 1 (twist Q) = Some (g, R)"
    "ate_add P (fst (twist Q) ^ p, snd (twist Q) ^ p) g R = Some (h, S)"
    "ate_add P (fst (twist Q) ^ (p * p), - (snd (twist Q) ^ (p * p))) h S = Some (f, T)"
    using f by (auto simp: optimal_ate_def split: option.splits)
  have dig: "ate_digits = rev (take ?n sixuPlus2NAF)" by (simp add: ate_digits_def butlast_conv_take)
  have A': "val2 (ax A) = fst Q" "val2 (ay A) = snd Q" using A by (simp_all add: Q)
  have r2: "ok2 ?r2" "val2 ?r2 = snd Q * snd Q" using A by (simp_all add: Q)
  have PB: "P = (val (ax B), val (ay B))" using B by (simp add: P)
  have n: "?n < length sixuPlus2NAF" by (simp add: NAF_digits(2))
  obtain ret1 r1 R1 where loop: "miller_loop E ?n A ?M B ?r2 ?n (F12_one K12) ?r = (ret1, r1)" "R = twist R1"
    "at_point r1 R1" "scaled ret1 g"
    using miller_loop_val [OF B(2,3) A(2,3) A' M r2 n one _ r steps(1) [unfolded dig PB]] by blast
  let ?x1 = "F2_mul K2 (F2_conjugate K2 (ax A)) (v_xiToPMinus1Over3 E)"
  let ?y1 = "F2_mul K2 (F2_conjugate K2 (ay A)) (v_xiToPMinus1Over2 E)"
  let ?q1 = "\<lparr>px = ?x1, py = ?y1, pzz = F2_one K2, pzzz = F2_one K2\<rparr>"
  let ?x2 = "F2_mulScalar K2 (ax A) (v_xiToPSquaredMinus1Over3 E)"
  let ?q2 = "\<lparr>px = ?x2, py = ay A, pzz = F2_one K2, pzzz = F2_one K2\<rparr>"
  define T1 T2 where "T1 = (val2 ?x1, val2 ?y1)" and "T2 = (val2 ?x2, y)"
  have t1: "twist T1 = (fst (twist Q) ^ p, snd (twist Q) ^ p)"
  proof -
    have "val2 ?x1 * (w * w) = x ^ p * t ^ p" using A(2,4) E_ok frob2 [OF A(2)] by (simp add: w mult.assoc xi_E del: linear2(10))
    moreover have "val2 ?y1 * (w * w * w) = y ^ p * (w * w * w) ^ p"
      using A(3,5) E_ok frob2 [OF A(3)] by (simp only: mul2 linear2 mult.assoc xi_E [unfolded mult.assoc])
    ultimately show ?thesis by (simp add: T1_def Q w power_mult_distrib)
  qed
  have t2: "twist T2 = (fst (twist Q) ^ (p * p), - (snd (twist Q) ^ (p * p)))"
  proof -
    have "(x * (w * w)) ^ (p * p) = x * (val (v_xiToPSquaredMinus1Over3 E) * t)"
      unfolding w frob2p_simps(2) xi_E(3) [symmetric] using frob2p_simps(5) [OF A(2)] A(4) by simp
    moreover have "(y * (w * w * w)) ^ (p * p) = - (y * (w * w * w))"
    proof -
      have "(y * (w * w * w)) ^ (p * p) = y * (val c6 * w * (val c6 * w) * (val c6 * w))"
        unfolding frob2p_simps(2,4) using frob2p_simps(5) [OF A(3)] A(5) by simp
      also have "\<dots> = val c6 * (val c6 * val c6) * (y * (w * w * w))" by (simp only: ac_simps)
      finally show ?thesis unfolding root6_cube(1) by simp
    qed
    ultimately show ?thesis using A(2,4) E_ok by (simp add: T2_def Q w ac_simps)
  qed
  have o1: "ok2 ?x1" "ok2 ?y1" "ok2 ?x2" using A E_ok by simp_all
  have pt: "point_at ok2 val2 \<lparr>px = a, py = b, pzz = F2_one K2, pzzz = F2_one K2\<rparr> (Some (val2 a, val2 b))"
    if "ok2 a" "ok2 b" for a b using that by (simp add: point_at_def)
  obtain Q1 where Q1: "Curve_toAffine (en_g2 E) ?q1 = Some Q1" "ok2 (ax Q1)" "ok2 (ay Q1)" "val2 (ax Q1) = fst T1" "val2 (ay Q1) = snd T1"
    using toAffine_some [OF F2_field E_g2 pt [OF o1(1,2)]] unfolding T1_def fst_conv snd_conv by blast
  obtain Q2 where Q2: "Curve_toAffine (en_g2 E) ?q2 = Some Q2" "ok2 (ax Q2)" "ok2 (ay Q2)" "val2 (ax Q2) = fst T2" "val2 (ay Q2) = snd T2"
    using toAffine_some [OF F2_field E_g2 pt [OF o1(3) A(3)]] unfolding T2_def fst_conv snd_conv A(5) by blast
  obtain a b c r3 where l1: "lineFunctionAdd K2 r1 Q1 B (F2_square K2 ?y1) = (a, b, c, r3)" by (metis prod_cases4)
  have s1: "ok2 (F2_square K2 ?y1)" "val2 (F2_square K2 ?y1) = snd T1 * snd T1" using o1 by (simp_all add: T1_def)
  obtain R3 where R3: "S = twist R3" "at_point r3 R3" "scaled (mulLine K6 ret1 a b c) h"
    using add_scaled [OF loop(4,3) B(2,3) Q1(2-5) s1 l1] steps(2) [folded t1, unfolded loop(2) PB] by blast
  obtain a' b' c' r4 where l2: "lineFunctionAdd K2 r3 Q2 B ?r2 = (a', b', c', r4)" by (metis prod_cases4)
  have s2: "ok2 ?r2" "val2 ?r2 = snd T2 * snd T2" using A by (simp_all add: T2_def)
  obtain R4 where R4: "T = twist R4" "at_point r4 R4" "scaled (mulLine K6 (mulLine K6 ret1 a b c) a' b' c') f"
    using add_scaled [OF R3(3,2) B(2,3) Q2(2-5) s2 l2] steps(3) [folded t2, unfolded R3(1) PB] by blast
  have "miller E q p1 = Some (mulLine K6 (mulLine K6 ret1 a b c) a' b' c')"
    unfolding miller_def A(1) B(1) option.case prod.case Let_def E_simps loop(1) Q1(1) l1 Point.simps Q2(1) l2 ..
  then show ?thesis using R4(3) by blast
qed

end


text \<open>The affine point of two coordinates, where \<open>(0, 0)\<close> stands for infinity, and the factor that a pair of points gives.\<close>

definition aff_of :: "('e \<Rightarrow> 'k::field) \<Rightarrow> 'e PointAffine \<Rightarrow> 'k affine" where
  "aff_of val s = (if val (ax s) = 0 \<and> val (ay s) = 0 then None else Some (val (ax s), val (ay s)))"

definition ate_factor :: "nat \<Rightarrow> 'k::field \<Rightarrow> 'k affine \<Rightarrow> 'k affine \<Rightarrow> 'k \<Rightarrow> bool" where
  "ate_factor p w P Q f \<longleftrightarrow>
     (case (P, Q) of
        (Some P, Some (x, y)) \<Rightarrow> optimal_ate p P (x * (w * w), y * (w * w * w)) = Some f \<and> f \<noteq> 0
      | _ \<Rightarrow> f = 1)"

text \<open>Two points as the code holds them, and the factor of their affine points.\<close>

definition pair_factor :: "('e \<Rightarrow> bool) \<Rightarrow> ('e \<Rightarrow> 'k::field) \<Rightarrow> 'k \<Rightarrow> 'k \<Rightarrow> nat \<Rightarrow> 'e Point \<Rightarrow> 'e F2 Point \<Rightarrow> 'k \<Rightarrow> bool" where
  "pair_factor ok val u w p a b f \<longleftrightarrow>
     (\<exists>P Q. point_at ok val a P \<and> point_at (F2_ok ok) (F2_val val u) b Q \<and> Q \<noteq> Some (0, 0) \<and> ate_factor p w P Q f)"

definition ate_exponent :: "int \<Rightarrow> int" where
  "ate_exponent p = (p ^ 6 - 1) * (p ^ 2 + 1) * final_exponent p (int bn_u)"

lemma ate_exponent_bn: "ate_exponent bn_p * bn_r = bn_p ^ 12 - 1"
proof -
  have "ate_exponent bn_p * bn_r = (bn_p ^ 6 - 1) * (bn_p ^ 2 + 1) * (bn_p ^ 4 - bn_p ^ 2 + 1)"
    unfolding ate_exponent_def mult.assoc final_exponent_bn ..
  then show ?thesis by (simp add: algebra_simps eval_nat_numeral)
qed

context bn_frobenius
begin

text \<open>The product of the values of the loop of Miller; pairs with a point at infinity are skipped.\<close>

lemma isZero_at:
  assumes "base_field G okg valg" "C_F C = G" "point_at okg valg a P"
  shows "Curve_isZero C a \<longleftrightarrow> P = None"
proof -
  have "okg (pzz a)" "xyzz (valg (px a)) (valg (py a)) (valg (pzz a)) (valg (pzzz a)) P" using assms(3) by (simp_all add: point_at_def)
  then show ?thesis using base_field.isZero [OF assms(1)] by (cases P) (auto simp: Curve_isZero_def assms(2))
qed

lemma miller_factor:
  assumes "pair_factor ok val u w p a b f"
  shows "f \<noteq> 0" "Curve_isZero (en_g1 E) a \<or> Curve_isZero (en_g2 E) b \<Longrightarrow> f = 1"
    "\<not> (Curve_isZero (en_g1 E) a \<or> Curve_isZero (en_g2 E) b) \<Longrightarrow> \<exists>ret. miller E b a = Some ret \<and> scaled ret f"
proof -
  obtain P Q where PQ: "point_at ok val a P" "point_at ok2 val2 b Q" "Q \<noteq> Some (0, 0)" "ate_factor p w P Q f"
    using assms unfolding pair_factor_def by blast
  have z1: "Curve_isZero (en_g1 E) a \<longleftrightarrow> P = None" by (rule isZero_at [OF base_field_axioms E_g1 PQ(1)])
  have z2: "Curve_isZero (en_g2 E) b \<longleftrightarrow> Q = None" by (rule isZero_at [OF F2_field E_g2 PQ(2)])
  show "f \<noteq> 0" using PQ(4) by (auto simp: ate_factor_def split: option.splits)
  show "Curve_isZero (en_g1 E) a \<or> Curve_isZero (en_g2 E) b \<Longrightarrow> f = 1"
    unfolding z1 z2 using PQ(4) by (auto simp: ate_factor_def split: option.splits)
  assume "\<not> (Curve_isZero (en_g1 E) a \<or> Curve_isZero (en_g2 E) b)"
  then obtain P' Q' where S: "P = Some P'" "Q = Some Q'" unfolding z1 z2 by auto
  have "optimal_ate p P' (twist Q') = Some f" using PQ(4) S by (simp add: ate_factor_def split_def)
  then show "\<exists>ret. miller E b a = Some ret \<and> scaled ret f"
    using miller_val [OF PQ(2) [unfolded S] _ PQ(1) [unfolded S]] PQ(3) S by simp
qed

lemma scaled_mul: "scaled a f \<Longrightarrow> scaled b g \<Longrightarrow> scaled (F12_mul K12 a b) (f * g)"
proof -
  assume a: "scaled a f" and b: "scaled b g"
  then obtain s z where s: "ok2 s" "val2 s \<noteq> 0" "val12 a = val2 s * f" and z: "ok2 z" "val2 z \<noteq> 0" "val12 b = val2 z * g" by blast
  show ?thesis
    by (rule scaled_mult [OF s(1,2) z(1,2)]) (use a b in \<open>simp_all add: s(3) z(3) ac_simps\<close>)
qed

lemma Bn_Pairing_sel: "pr_isZero1 (Bn_Pairing E) = Curve_isZero (en_g1 E)" "pr_isZero2 (Bn_Pairing E) = Curve_isZero (en_g2 E)"
  "pr_one (Bn_Pairing E) = F12_one K12" "pr_mul (Bn_Pairing E) = F12_mul K12" "pr_miller (Bn_Pairing E) b a = the (miller E b a)"
  "pr_finalExponentiation (Bn_Pairing E) r = the (finalExponentiation E r)" "pr_isOne (Bn_Pairing E) = F12_isOne K12"
  by (simp_all add: Bn_Pairing_def)

lemma pairing_loop_scaled:
  "length as = length gs \<Longrightarrow> length bs = length gs \<Longrightarrow> \<forall>i < length gs. pair_factor ok val u w p (as ! i) (bs ! i) (gs ! i) \<Longrightarrow>
     scaled acc f \<Longrightarrow> scaled (pairing_loop (Bn_Pairing E) as bs acc) (f * prod_list gs)"
proof (induction gs arbitrary: as bs acc f)
  case (Cons g gs)
  obtain a as' b bs' where ab: "as = a # as'" "bs = b # bs'" using Cons.prems(1,2) by (cases as; cases bs) simp_all
  have g: "pair_factor ok val u w p a b g" using Cons.prems(3) [rule_format, of 0] ab by simp
  have rest: "\<forall>i < length gs. pair_factor ok val u w p (as' ! i) (bs' ! i) (gs ! i)"
  proof (intro allI impI)
    fix i assume "i < length gs"
    then show "pair_factor ok val u w p (as' ! i) (bs' ! i) (gs ! i)" using Cons.prems(3) [rule_format, of "Suc i"] ab by simp
  qed
  have l: "length as' = length gs" "length bs' = length gs" using Cons.prems(1,2) ab by simp_all
  show ?case
  proof (cases "Curve_isZero (en_g1 E) a \<or> Curve_isZero (en_g2 E) b")
    case True
    then show ?thesis using Cons.IH [OF l rest Cons.prems(4)] miller_factor(2) [OF g True]
      unfolding ab pairing_loop.simps Bn_Pairing_sel by simp
  next
    case False
    obtain ret where ret: "miller E b a = Some ret" "scaled ret g" using miller_factor(3) [OF g False] by blast
    have s: "scaled (F12_mul K12 acc ret) (f * g)" by (rule scaled_mul [OF Cons.prems(4) ret(2)])
    have e: "pairing_loop (Bn_Pairing E) as bs acc = pairing_loop (Bn_Pairing E) as' bs' (F12_mul K12 acc ret)"
      using False unfolding ab pairing_loop.simps Bn_Pairing_sel ret(1) by simp
    show ?thesis unfolding e using Cons.IH [OF l rest s] by (simp add: mult.assoc)
  qed
qed simp

lemma scaled_one: "scaled (F12_one K12) 1"
  by (intro conjI exI [of _ "F2_one K2"]) simp_all

lemma pairingCheck_scaled:
  assumes "length as = length gs" "length bs = length gs" "\<forall>i < length gs. pair_factor ok val u w p (as ! i) (bs ! i) (gs ! i)"
  shows "pairingCheck (Bn_Pairing E) as bs \<longleftrightarrow> prod_list gs powi ate_exponent (int p) = 1"
proof -
  let ?acc = "pairing_loop (Bn_Pairing E) as bs (F12_one K12)"
  have s: "scaled ?acc (prod_list gs)" using pairing_loop_scaled [OF assms scaled_one] by simp
  have nz: "prod_list gs \<noteq> 0" using assms(3) miller_factor(1) by (auto simp: prod_list_zero_iff in_set_conv_nth)
  obtain ret where r: "finalExponentiation E ?acc = Some ret" "ok12 ret" "val12 ret = prod_list gs powi ate_exponent (int p)"
    using final_scaled [OF s nz] unfolding ate_exponent_def by blast
  show ?thesis unfolding pairingCheck_def Let_def Bn_Pairing_sel r(1) option.sel using isOne12 [OF r(2)] r(3) by simp
qed

end

subsection \<open>Opposite points\<close>

text \<open>
  The points of the second group are mapped to their opposites by the power \<open>p ^ 6\<close>, which fixes the
  coordinates of the first group, so that the pairings of a point and of its opposite cancel.
\<close>

context bn_frobenius
begin

abbreviation conj6 :: "'k \<Rightarrow> 'k" where
  "conj6 x \<equiv> x ^ (p ^ 6)"

lemma frob_iter_add: "((x :: 'k) + y) ^ (p ^ n) = x ^ (p ^ n) + y ^ (p ^ n)"
  by (induction n arbitrary: x y) (simp_all add: power_mult frob_add)

lemma frob_iter_neg: "(- (x :: 'k)) ^ (p ^ n) = - (x ^ (p ^ n))"
  by (induction n arbitrary: x) (simp_all add: power_mult frob_neg)

lemma frob_iter_diff: "((x :: 'k) - y) ^ (p ^ n) = x ^ (p ^ n) - y ^ (p ^ n)"
  using frob_iter_add [of x "- y" n] by (simp add: frob_iter_neg)

lemma frob_iter_ok: "ok e \<Longrightarrow> val e ^ (p ^ n) = val e"
  by (induction n) (simp_all add: power_mult fermat)

lemma frob_iter_nat: "(of_nat m :: 'k) ^ (p ^ n) = of_nat m"
proof (induction m)
  case 0
  show ?case using p_pos by (simp add: power_0_left)
qed (simp add: frob_iter_add)

lemma numeral_frob: "(numeral m :: 'k) ^ (p ^ n) = numeral m"
  using frob_iter_nat [of "numeral m" n] by simp

text \<open>\<open>f'\<close> is the image of \<open>f\<close> up to the sign, \<open>R\<close> is mapped to its opposite.\<close>

abbreviation conj_sign :: "'k \<Rightarrow> 'k \<Rightarrow> bool" where
  "conj_sign f f' \<equiv> f' = conj6 f \<or> f' = - conj6 f"

abbreviation opposite :: "'k \<times> 'k \<Rightarrow> bool" where
  "opposite R \<equiv> conj6 (fst R) = fst R \<and> conj6 (snd R) = - snd R"

lemma third_opposite: "opposite R \<Longrightarrow> conj6 x = x \<Longrightarrow> conj6 m = - m \<Longrightarrow> opposite (third_point m R x)"
  by (simp add: third_point_def Let_def frob_iter_diff frob_iter_add numeral_frob power_mult_distrib)

lemma line_opposite:
  assumes "opposite R" "conj6 m = - m" "conj6 x = x" "conj6 y = y"
  shows "ate_line m R (x, - y) = - conj6 (ate_line m R (x, y))"
  using assms by (simp add: ate_line_def frob_iter_diff power_mult_distrib)

lemma conj_sign_mult: "conj_sign f f' \<Longrightarrow> g' = - conj6 g \<Longrightarrow> conj_sign (f * g) (f' * g')"
  by (auto simp: power_mult_distrib)

lemma double_opposite:
  assumes P: "conj6 x = x" "conj6 y = y" and R: "opposite R" and f: "conj_sign f f'" and d: "ate_double (x, y) f R = Some (g, S)"
  shows "\<exists>g'. ate_double (x, - y) f' R = Some (g', S) \<and> conj_sign g g' \<and> opposite S"
proof -
  let ?m = "3 * (fst R * fst R) / (2 * snd R)"
  have y: "snd R \<noteq> 0" and S: "S = third_point ?m R (fst R)" and g: "g = f * ate_line ?m R (x, y)"
    using d by (auto simp: ate_double_def Let_def split: if_splits)
  have m: "conj6 ?m = - ?m" using R by (simp add: power_mult_distrib power_divide numeral_frob)
  have o: "opposite S" unfolding S using R by (intro third_opposite m) simp_all
  have l: "conj_sign g (f' * ate_line ?m R (x, - y))" unfolding g by (intro conj_sign_mult f line_opposite R m P)
  show ?thesis using y o l by (simp add: ate_double_def Let_def S)
qed

lemma add_opposite:
  assumes P: "conj6 x = x" "conj6 y = y" and R: "opposite R" and T: "opposite T" and f: "conj_sign f f'"
    and d: "ate_add (x, y) T f R = Some (g, S)"
  shows "\<exists>g'. ate_add (x, - y) T f' R = Some (g', S) \<and> conj_sign g g' \<and> opposite S"
proof -
  let ?m = "(snd T - snd R) / (fst T - fst R)"
  have n: "fst R \<noteq> fst T" and S: "S = third_point ?m R (fst T)" and g: "g = f * ate_line ?m T (x, y)"
    using d by (auto simp: ate_add_def Let_def split: if_splits)
  have "conj6 ?m = (snd R - snd T) / (fst T - fst R)" using R T by (simp add: power_divide frob_iter_diff)
  also have "\<dots> = - ?m" unfolding minus_divide_left minus_diff_eq ..
  finally have m: "conj6 ?m = - ?m" .
  have o: "opposite S" unfolding S using R T by (intro third_opposite m) simp_all
  have l: "conj_sign g (f' * ate_line ?m T (x, - y))" unfolding g by (intro conj_sign_mult f line_opposite T m P)
  show ?thesis using n o l by (simp add: ate_add_def Let_def S)
qed

lemma loop_opposite:
  assumes P: "conj6 x = x" "conj6 y = y" and Q: "opposite Q"
  shows "opposite R \<Longrightarrow> conj_sign f f' \<Longrightarrow> ate_loop (x, y) Q ds f R = Some (g, S) \<Longrightarrow>
    \<exists>g'. ate_loop (x, - y) Q ds f' R = Some (g', S) \<and> conj_sign g g' \<and> opposite S"
proof (induction ds arbitrary: f f' R)
  case (Cons d ds)
  have sq: "conj_sign (f * f) (f' * f')" using Cons.prems(2) by (auto simp: power_mult_distrib)
  note run = Cons.prems(3) [unfolded ate_loop.simps]
  obtain f1 R1 where d1: "ate_double (x, y) (f * f) R = Some (f1, R1)" using run by (cases "ate_double (x, y) (f * f) R") auto
  obtain f1' where d1': "ate_double (x, - y) (f' * f') R = Some (f1', R1)" "conj_sign f1 f1'" "opposite R1"
    using double_opposite [OF P Cons.prems(1) sq d1] by blast
  let ?T = "if d = 1 then Q else (fst Q, - snd Q)"
  have T: "opposite ?T" using Q by (simp add: frob_iter_neg)
  show ?case
  proof (cases "d = 0")
    case True
    then show ?thesis using Cons.IH [OF d1'(3,2)] run by (simp add: d1 d1'(1))
  next
    case False
    obtain f2 R2 where d2: "ate_add (x, y) ?T f1 R1 = Some (f2, R2)"
      using run False unfolding d1 option.case prod.case by (cases "ate_add (x, y) ?T f1 R1") auto
    obtain f2' where d2': "ate_add (x, - y) ?T f1' R1 = Some (f2', R2)" "conj_sign f2 f2'" "opposite R2"
      using add_opposite [OF P d1'(3) T d1'(2) d2] by blast
    show ?thesis
      using Cons.IH [OF d2'(3,2)] run False unfolding ate_loop.simps d1 d1'(1) option.case prod.case d2 d2'(1) by simp
  qed
qed simp

lemma optimal_ate_opposite:
  assumes P: "conj6 x = x" "conj6 y = y" and Q: "opposite Q" and f: "optimal_ate p (x, y) Q = Some f"
  shows "\<exists>f'. optimal_ate p (x, - y) Q = Some f' \<and> conj_sign f f'"
proof -
  let ?Q1 = "(fst Q ^ p, snd Q ^ p)" and ?Q2 = "(fst Q ^ (p * p), - (snd Q ^ (p * p)))"
  obtain g R h S T where s: "ate_loop (x, y) Q ate_digits 1 Q = Some (g, R)" "ate_add (x, y) ?Q1 g R = Some (h, S)"
    "ate_add (x, y) ?Q2 h S = Some (f, T)"
    using f by (auto simp: optimal_ate_def split: option.splits)
  have c: "conj6 (a ^ n) = conj6 a ^ n" for a :: 'k and n by (simp add: mult.commute flip: power_mult)
  have n: "(- (a :: 'k)) ^ (p * p) = - (a ^ (p * p))" for a by (simp add: power_mult frob_neg)
  have o: "opposite ?Q1" "opposite ?Q2" using Q unfolding fst_conv snd_conv frob_iter_neg c by (simp_all add: frob_neg n)
  obtain g' where g: "ate_loop (x, - y) Q ate_digits 1 Q = Some (g', R)" "conj_sign g g'" "opposite R"
    using loop_opposite [OF P Q Q _ s(1), of 1] by auto
  obtain h' where h: "ate_add (x, - y) ?Q1 g' R = Some (h', S)" "conj_sign h h'" "opposite S"
    using add_opposite [OF P g(3) o(1) g(2) s(2)] by blast
  obtain f' where f': "ate_add (x, - y) ?Q2 h' S = Some (f', T)" "conj_sign f f'"
    using add_opposite [OF P h(3) o(2) h(2) s(3)] by blast
  show ?thesis using f'(2) by (simp add: optimal_ate_def g(1) h(1) f'(1))
qed

end

context bn_frobenius
begin

lemma conj6_ok2: "ok2 a \<Longrightarrow> conj6 (val2 a) = val2 a"
  unfolding frob6p [symmetric] by (simp add: frob2p_simps)

lemma conj6_w: "conj6 w = - w"
proof -
  have c: "val c6 * (val c6 * (val c6 * x)) = - x" for x using root6_cube(1) by (metis mult.assoc mult_minus1)
  show ?thesis unfolding frob6p [symmetric] by (simp add: frob2p_simps c_ok12 c)
qed

lemma twist_opposite: "ok2 a \<Longrightarrow> ok2 b \<Longrightarrow> opposite (twist (val2 a, val2 b))"
  unfolding fst_conv snd_conv power_mult_distrib conj6_ok2 conj6_w by simp

lemma conj6_twice:
  assumes "scaled r f"
  shows "conj6 (conj6 f) = f"
proof -
  obtain s where s: "ok12 r" "ok2 s" "val2 s \<noteq> 0" "val12 r = val2 s * f" using assms by blast
  have "val2 s * conj6 (conj6 f) = conj6 (conj6 (val2 s * f))" using conj6_ok2 [OF s(2)] by (simp only: power_mult_distrib)
  also have "\<dots> = val2 s * f" using power_p12 [OF s(1)] unfolding s(4) .
  finally show ?thesis using s(3) by simp
qed

lemma odd_p: "odd p"
proof
  assume "even p"
  then have "(- 1) ^ p = (1 :: 'k)" by simp
  then show False using frob_neg [of 1] minus_one(2) by simp
qed

lemma opposite_cancel:
  assumes f: "scaled r f" "f \<noteq> 0" and s: "conj_sign f f'"
  shows "(f * f') powi ate_exponent (int p) = 1"
proof -
  let ?e = "(int p ^ 2 + 1) * final_exponent (int p) (int bn_u)"
  have 1: "(f * conj6 f) powi (int p ^ 6 - 1) = 1"
  proof -
    have "(f * conj6 f) powi (int (p ^ 6) - 1) = (f * conj6 f) powi int (p ^ 6) / (f * conj6 f) powi 1"
      using f(2) by (intro power_int_diff) simp
    also have "\<dots> = conj6 (f * conj6 f) / (f * conj6 f)" unfolding power_int_of_nat power_int_1_right ..
    also have "conj6 (f * conj6 f) = conj6 f * f" unfolding power_mult_distrib conj6_twice [OF f(1)] ..
    finally show ?thesis using f(2) by simp
  qed
  have 2: "(- (f * conj6 f)) powi (int p ^ 6 - 1) = (f * conj6 f) powi (int p ^ 6 - 1)"
    using odd_p by (intro power_int_minus_left_even) simp
  have "(f * f') powi (int p ^ 6 - 1) = 1" using s 1 2 by auto
  then show ?thesis unfolding ate_exponent_def mult.assoc power_int_mult by simp
qed

text \<open>A point and its opposite, paired with the same point.\<close>

lemma ate_opposite:
  assumes a: "point_at ok val a (Some (x, y))" and b: "point_at ok2 val2 b (Some Q)" "Q \<noteq> (0, 0)"
    and f: "optimal_ate p (x, y) (twist Q) = Some f" "f \<noteq> 0"
  shows "\<exists>f'. optimal_ate p (x, - y) (twist Q) = Some f' \<and> f' \<noteq> 0 \<and> (f * f') powi ate_exponent (int p) = 1"
proof -
  obtain aA where "Curve_toAffine (en_g1 E) a = Some aA" and A: "ok (ax aA)" "ok (ay aA)" "val (ax aA) = x" "val (ay aA) = y"
    by (rule toAffine_some [OF base_field_axioms E_g1 a])
  have b1: "point_at ok2 val2 b (Some (fst Q, snd Q))" using b(1) by simp
  obtain bA where "Curve_toAffine (en_g2 E) b = Some bA" and B: "ok2 (ax bA)" "ok2 (ay bA)" "val2 (ax bA) = fst Q" "val2 (ay bA) = snd Q"
    by (rule toAffine_some [OF F2_field E_g2 b1])
  have P: "conj6 x = x" "conj6 y = y" using frob_iter_ok [OF A(1)] frob_iter_ok [OF A(2)] A(3,4) by simp_all
  have Q: "opposite (twist Q)" using twist_opposite [OF B(1,2)] B(3,4) by simp
  obtain f' where f': "optimal_ate p (x, - y) (twist Q) = Some f'" "conj_sign f f'" using optimal_ate_opposite [OF P Q f(1)] by blast
  obtain r where r: "scaled r f" using miller_val [OF b a f(1)] by blast
  have "f' \<noteq> 0" using f'(2) f(2) by auto
  then show ?thesis using f'(1) opposite_cancel [OF r f(2) f'(2)] by blast
qed

end

subsection \<open>Bilinearity\<close>

text \<open>
  What the mathematics of pairings promises for two generators whose multiples are \<open>m1\<close> and \<open>m2\<close>: the
  values of the optimal ate pairing, raised to the final exponent, are powers of an element of order \<open>q\<close>.
\<close>

definition bilinear_ate :: "nat \<Rightarrow> 'k::field \<Rightarrow> int \<Rightarrow> (int \<Rightarrow> 'k affine) \<Rightarrow> (int \<Rightarrow> 'k affine) \<Rightarrow> 'k \<Rightarrow> bool" where
  "bilinear_ate p w q m1 m2 g \<longleftrightarrow>
     g \<noteq> 0 \<and> (\<forall>n. g powi n = 1 \<longleftrightarrow> n mod q = 0) \<and>
     (\<forall>k. (m1 k = None \<longleftrightarrow> k mod q = 0) \<and> (m2 k = None \<longleftrightarrow> k mod q = 0) \<and> m2 k \<noteq> Some (0, 0)) \<and>
     (\<forall>k l. k mod q \<noteq> 0 \<longrightarrow> l mod q \<noteq> 0 \<longrightarrow>
        (\<exists>f. ate_factor p w (m1 k) (m2 l) f \<and> f powi ate_exponent (int p) = g powi (k * l)))"

context bn_frobenius
begin

text \<open>Then the functions of the code satisfy the interface that the completeness of the prover is proved over.\<close>

lemma bilinear_pairing_vals:
  assumes b: "bilinear_ate p w q m1 m2 g"
  shows "pairing_vals (Bn_Pairing E) (\<lambda>a k. point_at ok val a (m1 k)) (\<lambda>b k. point_at ok2 val2 b (m2 k)) q
    (\<lambda>r n. \<exists>f. scaled r f \<and> f \<noteq> 0 \<and> f powi ate_exponent (int p) = g powi n)"
proof
  note b' = b [unfolded bilinear_ate_def]
  note g = conjunct1 [OF b']
  note Z = conjunct1 [OF conjunct2 [OF conjunct2 [OF b']], rule_format] and B = conjunct2 [OF conjunct2 [OF conjunct2 [OF b']], rule_format]
  show "\<exists>f. scaled (pr_one (Bn_Pairing E)) f \<and> f \<noteq> 0 \<and> f powi ate_exponent (int p) = g powi 0"
    unfolding Bn_Pairing_sel by (rule exI [of _ 1]) (use scaled_one in simp)
  show "\<exists>f. scaled (pr_mul (Bn_Pairing E) s r) f \<and> f \<noteq> 0 \<and> f powi ate_exponent (int p) = g powi (x + y)"
    if s: "\<exists>f. scaled s f \<and> f \<noteq> 0 \<and> f powi ate_exponent (int p) = g powi x"
      and r: "\<exists>f. scaled r f \<and> f \<noteq> 0 \<and> f powi ate_exponent (int p) = g powi y" for s r x y
  proof -
    obtain f h where f: "scaled s f" "f \<noteq> 0" "f powi ate_exponent (int p) = g powi x"
      and h: "scaled r h" "h \<noteq> 0" "h powi ate_exponent (int p) = g powi y" using s r by blast
    have m: "scaled (F12_mul K12 s r) (f * h)" by (rule scaled_mul [OF f(1) h(1)])
    have v: "(f * h) powi ate_exponent (int p) = g powi (x + y)"
      unfolding power_int_mult_distrib f(3) h(3) using g by (simp add: power_int_add)
    have nz: "f * h \<noteq> 0" using f(2) h(2) by simp
    show ?thesis unfolding Bn_Pairing_sel by (rule exI [of _ "f * h"], rule conjI [OF m conjI [OF nz v]])
  qed
  fix a x c y
  assume a: "point_at ok val a (m1 x)"
  have z1: "pr_isZero1 (Bn_Pairing E) a \<longleftrightarrow> x mod q = 0" unfolding Bn_Pairing_sel isZero_at [OF base_field_axioms E_g1 a] using Z [of x] by simp
  show "x mod q = 0" if "pr_isZero1 (Bn_Pairing E) a" using that z1 by simp
  assume c: "point_at ok2 val2 c (m2 y)"
  have z2: "pr_isZero2 (Bn_Pairing E) c \<longleftrightarrow> y mod q = 0" unfolding Bn_Pairing_sel isZero_at [OF F2_field E_g2 c] using Z [of y] by simp
  assume nz: "\<not> pr_isZero1 (Bn_Pairing E) a" "\<not> pr_isZero2 (Bn_Pairing E) c"
  then obtain f where f: "ate_factor p w (m1 x) (m2 y) f" "f powi ate_exponent (int p) = g powi (x * y)"
    using B [of x y] unfolding z1 z2 by blast
  have pf: "pair_factor ok val u w p a c f" using a c f(1) Z [of y] unfolding pair_factor_def by blast
  obtain r where r: "miller E c a = Some r" "scaled r f" using miller_factor(3) [OF pf] nz unfolding Bn_Pairing_sel by blast
  show "\<exists>f. scaled (pr_miller (Bn_Pairing E) c a) f \<and> f \<noteq> 0 \<and> f powi ate_exponent (int p) = g powi (x * y)"
    unfolding Bn_Pairing_sel r(1) option.sel using r(2) f(2) miller_factor(1) [OF pf] by blast
next
  fix b y
  assume c: "point_at ok2 val2 b (m2 y)" "pr_isZero2 (Bn_Pairing E) b"
  then have "m2 y = None" unfolding Bn_Pairing_sel isZero_at [OF F2_field E_g2 c(1)] by simp
  then show "y mod q = 0" using assms by (simp add: bilinear_ate_def)
next
  fix r n
  assume "\<exists>f. scaled r f \<and> f \<noteq> 0 \<and> f powi ate_exponent (int p) = g powi n"
  then obtain f where f: "scaled r f" "f \<noteq> 0" "f powi ate_exponent (int p) = g powi n" by blast
  obtain s where s: "finalExponentiation E r = Some s" "ok12 s" "val12 s = f powi ate_exponent (int p)"
    using final_scaled [OF f(1,2)] unfolding ate_exponent_def by blast
  show "pr_isOne (Bn_Pairing E) (pr_finalExponentiation (Bn_Pairing E) r) \<longleftrightarrow> n mod q = 0"
    unfolding Bn_Pairing_sel s(1) option.sel isOne12 [OF s(2)] s(3) f(3) using assms by (simp add: bilinear_ate_def)
qed

end

end
