(* ===== verification/Field79.thy ===== *)
theory Field79
  imports FieldTower "HOL-Library.Numeral_Type"
begin

text \<open>
  A field in which the tower and the pairing can be run: the field with \<open>79 ^ 12\<close> elements, as the
  quadratic, cubic and quadratic extension of the numbers modulo 79 by roots of \<open>- 1\<close>, \<open>9 + u\<close> and
  \<open>t\<close>. For the prime 79, as for the prime of the curve, \<open>- 1\<close> is no square and \<open>9 + u\<close> is neither
  square nor cube.
\<close>

subsection \<open>Numbers modulo 79\<close>

lemma all_79: "(\<forall>k \<in> {0..<79 :: int}. P (of_int k :: 79)) \<Longrightarrow> P x"
proof (cases x rule: bit1_cases)
  case (of_int z)
  then have "z \<in> {0..<79}" by simp
  then show "(\<forall>k \<in> {0..<79 :: int}. P (of_int k :: 79)) \<Longrightarrow> P x" using of_int(1) by simp
qed

lemma of_int_79: "of_int v = (0 :: 79) \<longleftrightarrow> v mod 79 = 0"
proof -
  have "of_int v = (0 :: 79) \<longleftrightarrow> int (CARD(79)) dvd v" by (simp only: of_int_eq_0_iff_char_dvd bit1.CHAR_eq)
  then show ?thesis by (simp add: dvd_eq_mod_eq_0)
qed

text \<open>A property of powers of numbers modulo 79, decided on the integers.\<close>

lemma power_79:
  fixes x :: 79
  assumes "\<forall>k \<in> set [0..78]. k ^ n mod 79 \<noteq> v mod 79"
  shows "x ^ n \<noteq> of_int v"
proof (rule all_79 [where P = "\<lambda>x. x ^ n \<noteq> of_int v"])
  show "\<forall>k \<in> {0..<79}. (of_int k :: 79) ^ n \<noteq> of_int v"
  proof
    fix k :: int assume "k \<in> {0..<79}"
    then have "k \<in> set [0..78]" by simp
    then have "(k ^ n - v) mod 79 \<noteq> 0" using assms by (auto simp: mod_eq_dvd_iff dvd_eq_mod_eq_0)
    then have "of_int (k ^ n - v) \<noteq> (0 :: 79)" unfolding of_int_79 .
    then show "(of_int k :: 79) ^ n \<noteq> of_int v" by simp
  qed
qed

lemma residues_79:
  fixes x :: 79
  shows "x * x \<noteq> - 1" "x * x \<noteq> 3" "x * x * x \<noteq> 3"
proof -
  have "x ^ 2 \<noteq> of_int (- 1)" "x ^ 2 \<noteq> of_int 3" "x ^ 3 \<noteq> of_int 3"
    by (rule power_79; code_simp)+
  then show "x * x \<noteq> - 1" "x * x \<noteq> 3" "x * x * x \<noteq> 3" by (simp_all add: power2_eq_square power3_eq_cube)
qed

fun power_mod :: "int \<Rightarrow> int \<Rightarrow> nat \<Rightarrow> int" where
  "power_mod m k 0 = 1"
| "power_mod m k (Suc n) = (k * power_mod m k n) mod m"

lemma power_mod: "power_mod m k n mod m = k ^ n mod m"
  by (induction n) (simp_all, metis mod_mult_right_eq)

lemma inverse_79: "(x :: 79) \<noteq> 0 \<Longrightarrow> x * x ^ 77 = 1"
proof -
  assume x: "x \<noteq> 0"
  obtain k :: int where k: "x = of_int k" "0 \<le> k" "k < 79" by (cases x rule: bit1_cases) auto
  have "k \<noteq> 0" using x k(1) by (metis of_int_0)
  then have k': "k \<in> set [1..78]" using k by simp
  have "\<forall>k \<in> set [1..78]. power_mod 79 k 78 = 1" by code_simp
  then have "k ^ 78 mod 79 = 1 mod 79" using k' power_mod [of 79 k 78] by simp
  moreover have "k ^ 78 = k * k ^ 77" by (simp flip: power_Suc)
  ultimately have "(k * k ^ 77 - 1) mod 79 = 0" by (metis mod_eq_dvd_iff dvd_eq_mod_eq_0)
  then have "of_int (k * k ^ 77 - 1) = (0 :: 79)" by (simp only: of_int_79)
  then show ?thesis by (simp only: k(1) of_int_diff of_int_mult of_int_power of_int_1 right_minus_eq)
qed

lemma domain_79:
  assumes "(x :: 79) * y = 0"
  shows "x = 0 \<or> y = 0"
proof (rule disjCI)
  assume y: "y \<noteq> 0"
  have "x = x * (y * y ^ 77)" by (simp only: inverse_79 [OF y] mult_1_right)
  also have "\<dots> = x * y * y ^ 77" by (simp only: mult.assoc)
  finally show "x = 0" by (simp only: assms mult_zero_left)
qed

lemma fermat_79: "(x :: 79) ^ 79 = x"
proof (cases "x = 0")
  case False
  have "x ^ 79 = x * (x * x ^ 77)" by (simp flip: power_Suc)
  then show ?thesis using inverse_79 [OF False] by simp
qed simp

subsection \<open>The quadratic extension\<close>

datatype gf2 = GF2 "79" "79"

instantiation gf2 :: comm_ring_1
begin

definition zero_gf2 :: gf2 where
  "zero_gf2 = GF2 0 0"

definition one_gf2 :: gf2 where
  "one_gf2 = GF2 1 0"

fun plus_gf2 :: "gf2 \<Rightarrow> gf2 \<Rightarrow> gf2" where
  "plus_gf2 (GF2 a b) (GF2 c d) = GF2 (a + c) (b + d)"

fun uminus_gf2 :: "gf2 \<Rightarrow> gf2" where
  "uminus_gf2 (GF2 a b) = GF2 (- a) (- b)"

fun minus_gf2 :: "gf2 \<Rightarrow> gf2 \<Rightarrow> gf2" where
  "minus_gf2 (GF2 a b) (GF2 c d) = GF2 (a - c) (b - d)"

fun times_gf2 :: "gf2 \<Rightarrow> gf2 \<Rightarrow> gf2" where
  "times_gf2 (GF2 a b) (GF2 c d) = GF2 (a * c - b * d) (a * d + b * c)"

instance
proof
  fix a b c :: gf2
  show "a + b + c = a + (b + c)" "a * b * c = a * (b * c)" "(a + b) * c = a * c + b * c"
    by (cases a; cases b; cases c; simp add: algebra_simps)+
  show "a + b = b + a" "a * b = b * a" "a - b = a + - b" by (cases a; cases b; simp add: algebra_simps)+
  show "0 + a = a" "- a + a = 0" "1 * a = a" by (cases a; simp add: zero_gf2_def one_gf2_def)+
  show "(0 :: gf2) \<noteq> 1" by (simp add: zero_gf2_def one_gf2_def)
qed

end

fun norm_gf2 :: "gf2 \<Rightarrow> 79" where
  "norm_gf2 (GF2 a b) = a * a + b * b"

fun inv_gf2 :: "gf2 \<Rightarrow> gf2" where
  "inv_gf2 (GF2 a b) = (let n = norm_gf2 (GF2 a b) ^ 77 in GF2 (a * n) (- (b * n)))"

lemma norm_gf2_mult: "norm_gf2 (x * y) = norm_gf2 x * norm_gf2 y"
  by (cases x; cases y) (simp add: algebra_simps)

lemma norm_gf2_nz:
  assumes "x \<noteq> 0"
  shows "norm_gf2 x \<noteq> 0"
proof (cases x)
  case (GF2 a b)
  show ?thesis
  proof (cases "b = 0")
    case True
    then have "a \<noteq> 0" using assms by (simp add: GF2 zero_gf2_def)
    then have "a * a \<noteq> 0" using domain_79 by blast
    then show ?thesis by (simp add: GF2 True)
  next
    case False
    show ?thesis
    proof
      assume "norm_gf2 x = 0"
      then have e: "a * a = - (b * b)" by (simp add: GF2 eq_neg_iff_add_eq_0)
      have "(a * b ^ 77) * (a * b ^ 77) = a * a * (b ^ 77 * b ^ 77)" by (simp only: ac_simps)
      also have "\<dots> = - (b * b) * (b ^ 77 * b ^ 77)" by (simp only: e)
      also have "\<dots> = - ((b * b ^ 77) * (b * b ^ 77))" by (simp only: mult_minus_left ac_simps)
      also have "\<dots> = - 1" by (simp only: inverse_79 [OF False] mult_1_right)
      finally show False using residues_79(1) by blast
    qed
  qed
qed

lemma inv_gf2: "x \<noteq> 0 \<Longrightarrow> x * inv_gf2 x = 1"
proof -
  assume x: "x \<noteq> 0"
  obtain a b where ab: "x = GF2 a b" by (cases x)
  have n: "(a * a + b * b) * (a * a + b * b) ^ 77 = 1" using inverse_79 [OF norm_gf2_nz [OF x]] by (simp add: ab)
  show ?thesis using n by (simp add: ab Let_def one_gf2_def algebra_simps)
qed

lemma domain_gf2:
  assumes "(x :: gf2) * y = 0"
  shows "x = 0 \<or> y = 0"
proof (rule disjCI)
  assume y: "y \<noteq> 0"
  have "x = x * (y * inv_gf2 y)" by (simp only: inv_gf2 [OF y] mult_1_right)
  also have "\<dots> = x * y * inv_gf2 y" by (simp only: mult.assoc)
  finally show "x = 0" by (simp only: assms mult_zero_left)
qed

definition xi79 :: gf2 where
  "xi79 = GF2 9 1"

lemma norm_xi79: "norm_gf2 xi79 = 3"
proof -
  have "of_int (82 - 3) = (0 :: 79)" unfolding of_int_79 by simp
  then have "(82 :: 79) = 3" by (simp only: of_int_diff of_int_numeral right_minus_eq)
  then show ?thesis by (simp add: xi79_def)
qed

lemma xi79_no_square: "x * x \<noteq> xi79"
  using norm_gf2_mult [of x x] norm_xi79 residues_79(2) by metis

lemma xi79_no_cube: "x * x * x \<noteq> xi79"
  using norm_gf2_mult norm_xi79 residues_79(3) by metis

subsection \<open>The cubic extension\<close>

text \<open>\<open>GF6 x y z\<close> is \<open>x t^2 + y t + z\<close>.\<close>

datatype gf6 = GF6 gf2 gf2 gf2

instantiation gf6 :: comm_ring_1
begin

definition zero_gf6 :: gf6 where
  "zero_gf6 = GF6 0 0 0"

definition one_gf6 :: gf6 where
  "one_gf6 = GF6 0 0 1"

fun plus_gf6 :: "gf6 \<Rightarrow> gf6 \<Rightarrow> gf6" where
  "plus_gf6 (GF6 a b c) (GF6 d e f) = GF6 (a + d) (b + e) (c + f)"

fun uminus_gf6 :: "gf6 \<Rightarrow> gf6" where
  "uminus_gf6 (GF6 a b c) = GF6 (- a) (- b) (- c)"

fun minus_gf6 :: "gf6 \<Rightarrow> gf6 \<Rightarrow> gf6" where
  "minus_gf6 (GF6 a b c) (GF6 d e f) = GF6 (a - d) (b - e) (c - f)"

fun times_gf6 :: "gf6 \<Rightarrow> gf6 \<Rightarrow> gf6" where
  "times_gf6 (GF6 a b c) (GF6 d e f) =
     GF6 (a * f + b * e + c * d) (b * f + c * e + xi79 * (a * d)) (c * f + xi79 * (a * e + b * d))"

instance
proof
  fix a b c :: gf6
  show "a + b + c = a + (b + c)" "a * b * c = a * (b * c)" "(a + b) * c = a * c + b * c"
    by (cases a; cases b; cases c; simp add: algebra_simps)+
  show "a + b = b + a" "a * b = b * a" "a - b = a + - b" by (cases a; cases b; simp add: algebra_simps)+
  show "0 + a = a" "- a + a = 0" "1 * a = a" by (cases a; simp add: zero_gf6_def one_gf6_def)+
  show "(0 :: gf6) \<noteq> 1" by (simp add: zero_gf6_def one_gf6_def)
qed

end

fun norm_gf6 :: "gf6 \<Rightarrow> gf2" where
  "norm_gf6 (GF6 x y z) = z * z * z + xi79 * (y * y * y) + xi79 * xi79 * (x * x * x) - 3 * (xi79 * (x * y * z))"

fun inv_gf6 :: "gf6 \<Rightarrow> gf6" where
  "inv_gf6 (GF6 x y z) =
     (let n = inv_gf2 (norm_gf6 (GF6 x y z))
      in GF6 ((y * y - x * z) * n) ((xi79 * (x * x) - y * z) * n) ((z * z - xi79 * (x * y)) * n))"

lemma norm_gf6_mult: "norm_gf6 (x * y) = norm_gf6 x * norm_gf6 y"
  by (cases x; cases y) (simp add: algebra_simps)

text \<open>An element of norm zero, times a suitable linear one, is linear: a cube root of \<open>9 + u\<close> unless it is zero.\<close>

lemma norm_gf6_nz:
  assumes "a \<noteq> 0"
  shows "norm_gf6 a \<noteq> 0"
proof (cases a)
  case (GF6 x y z)
  have cube: "p = 0 \<and> q = 0" if "q * q * q + xi79 * (p * p * p) = 0" for p q
  proof (cases "p = 0")
    case True
    then show ?thesis using that domain_gf2 by (metis add.right_neutral mult_zero_right)
  next
    case False
    let ?r = "- q * inv_gf2 p"
    have "q * q * q = - (xi79 * (p * p * p))" using that by (simp only: eq_neg_iff_add_eq_0)
    then have "- (q * q * q) = xi79 * (p * p * p)" by (simp only: minus_minus)
    have "?r * ?r * ?r = - (q * q * q) * (inv_gf2 p * inv_gf2 p * inv_gf2 p)"
      by (simp only: mult_minus_left mult_minus_right minus_minus ac_simps)
    also have "- (q * q * q) = xi79 * (p * p * p)" by fact
    also have "xi79 * (p * p * p) * (inv_gf2 p * inv_gf2 p * inv_gf2 p) = xi79 * (p * inv_gf2 p * (p * inv_gf2 p) * (p * inv_gf2 p))"
      by (simp only: ac_simps)
    also have "\<dots> = xi79" by (simp only: inv_gf2 [OF False] mult_1_right)
    finally show ?thesis using xi79_no_cube by blast
  qed
  show ?thesis
  proof
    assume n: "norm_gf6 a = 0"
    let ?p = "x * z - y * y" and ?q = "xi79 * (x * x) - y * z"
    have "?q * ?q * ?q + xi79 * (?p * ?p * ?p) = norm_gf6 a * (xi79 * (x * x * x) - y * y * y)"
      by (simp add: GF6 algebra_simps)
    then have "?p = 0 \<and> ?q = 0" using cube [of ?q ?p] n by simp
    then have pq: "x * z = y * y" "xi79 * (x * x) = y * z" by simp_all
    have "xi79 * (x * x * x) = y * (x * z)" using pq(2) by (metis mult.assoc mult.commute)
    then have "xi79 * (x * x * x) = y * y * y" unfolding pq(1) by (simp only: mult.assoc)
    then have "(- y) * (- y) * (- y) + xi79 * (x * x * x) = 0" by simp
    then have "x = 0 \<and> - y = 0" by (rule cube)
    then have xy: "x = 0" "y = 0" by simp_all
    then have "z * z * z = 0" using n by (simp add: GF6)
    then have "z = 0" using domain_gf2 by blast
    then show False using assms xy by (simp add: GF6 zero_gf6_def)
  qed
qed

lemma inv_gf6: "a \<noteq> 0 \<Longrightarrow> a * inv_gf6 a = 1"
proof -
  assume a: "a \<noteq> 0"
  obtain x y z where xyz: "a = GF6 x y z" by (cases a)
  define n where "n = inv_gf2 (norm_gf6 (GF6 x y z))"
  have n: "norm_gf6 (GF6 x y z) * n = 1" using inv_gf2 [OF norm_gf6_nz [OF a]] by (simp only: n_def xyz)
  have i: "inv_gf6 a = GF6 ((y * y - x * z) * n) ((xi79 * (x * x) - y * z) * n) ((z * z - xi79 * (x * y)) * n)"
    unfolding n_def xyz by (simp only: inv_gf6.simps Let_def)
  have "x * ((z * z - xi79 * (x * y)) * n) + y * ((xi79 * (x * x) - y * z) * n) + z * ((y * y - x * z) * n) = 0"
    "y * ((z * z - xi79 * (x * y)) * n) + z * ((xi79 * (x * x) - y * z) * n) + xi79 * (x * ((y * y - x * z) * n)) = 0"
    by (simp_all only: algebra_simps) simp_all
  moreover have "z * ((z * z - xi79 * (x * y)) * n) + xi79 * (x * ((xi79 * (x * x) - y * z) * n) + y * ((y * y - x * z) * n)) =
      norm_gf6 (GF6 x y z) * n"
    by (simp add: algebra_simps)
  ultimately show ?thesis unfolding i unfolding xyz times_gf6.simps one_gf6_def gf6.inject by (simp only: n)
qed

lemma domain_gf6:
  assumes "(x :: gf6) * y = 0"
  shows "x = 0 \<or> y = 0"
proof (rule disjCI)
  assume y: "y \<noteq> 0"
  have "x = x * (y * inv_gf6 y)" by (simp only: inv_gf6 [OF y] mult_1_right)
  also have "\<dots> = x * y * inv_gf6 y" by (simp only: mult.assoc)
  finally show "x = 0" by (simp only: assms mult_zero_left)
qed

definition tau79 :: gf6 where
  "tau79 = GF6 0 1 0"

lemma tau79_no_square: "x * x \<noteq> tau79"
proof
  assume "x * x = tau79"
  then have "norm_gf6 x * norm_gf6 x = norm_gf6 tau79" by (metis norm_gf6_mult)
  then show False using xi79_no_square by (simp add: tau79_def)
qed

subsection \<open>The extension of degree twelve\<close>

text \<open>\<open>GF12 x y\<close> is \<open>x w + y\<close>.\<close>

datatype gf12 = GF12 gf6 gf6

fun inv_gf12 :: "gf12 \<Rightarrow> gf12" where
  "inv_gf12 (GF12 x y) = (let n = inv_gf6 (y * y - tau79 * (x * x)) in GF12 (- x * n) (y * n))"

instantiation gf12 :: field
begin

definition zero_gf12 :: gf12 where
  "zero_gf12 = GF12 0 0"

definition one_gf12 :: gf12 where
  "one_gf12 = GF12 0 1"

fun plus_gf12 :: "gf12 \<Rightarrow> gf12 \<Rightarrow> gf12" where
  "plus_gf12 (GF12 a b) (GF12 c d) = GF12 (a + c) (b + d)"

fun uminus_gf12 :: "gf12 \<Rightarrow> gf12" where
  "uminus_gf12 (GF12 a b) = GF12 (- a) (- b)"

fun minus_gf12 :: "gf12 \<Rightarrow> gf12 \<Rightarrow> gf12" where
  "minus_gf12 (GF12 a b) (GF12 c d) = GF12 (a - c) (b - d)"

fun times_gf12 :: "gf12 \<Rightarrow> gf12 \<Rightarrow> gf12" where
  "times_gf12 (GF12 a b) (GF12 c d) = GF12 (a * d + b * c) (b * d + tau79 * (a * c))"

definition inverse_gf12 :: "gf12 \<Rightarrow> gf12" where
  "inverse_gf12 a = (if a = 0 then 0 else inv_gf12 a)"

definition divide_gf12 :: "gf12 \<Rightarrow> gf12 \<Rightarrow> gf12" where
  "divide_gf12 a b = a * inverse b"

instance
proof
  fix a b c :: gf12
  show "a + b + c = a + (b + c)" "a * b * c = a * (b * c)" "(a + b) * c = a * c + b * c"
    by (cases a; cases b; cases c; simp add: algebra_simps)+
  show com: "a + b = b + a" "a * b = b * a" "a - b = a + - b" by (cases a; cases b; simp add: algebra_simps)+
  show "0 + a = a" "- a + a = 0" "1 * a = a" by (cases a; simp add: zero_gf12_def one_gf12_def)+
  show "(0 :: gf12) \<noteq> 1" by (simp add: zero_gf12_def one_gf12_def)
  show "a div b = a * inverse b" by (rule divide_gf12_def)
  show "inverse (0 :: gf12) = 0" by (simp add: inverse_gf12_def)
  show "inverse a * a = 1" if a: "a \<noteq> 0"
  proof -
    obtain x y where xy: "a = GF12 x y" by (cases a)
    let ?n = "y * y - tau79 * (x * x)"
    have "?n \<noteq> 0"
    proof
      assume n: "?n = 0"
      show False
      proof (cases "x = 0")
        case True
        then have "y = 0" using n domain_gf6 by auto
        then show False using a True by (simp add: xy zero_gf12_def)
      next
        case False
        have "(y * inv_gf6 x) * (y * inv_gf6 x) = y * y * (inv_gf6 x * inv_gf6 x)" by (simp only: ac_simps)
        also have "y * y = tau79 * (x * x)" using n by simp
        also have "tau79 * (x * x) * (inv_gf6 x * inv_gf6 x) = tau79 * ((x * inv_gf6 x) * (x * inv_gf6 x))" by (simp only: ac_simps)
        finally show False using tau79_no_square by (simp only: inv_gf6 [OF False] mult_1_right)
      qed
    qed
    then have "?n * inv_gf6 ?n = 1" by (rule inv_gf6)
    moreover define m where "m = inv_gf6 ?n"
    ultimately have m: "?n * m = 1" by simp
    have i: "inverse a = GF12 (- x * m) (y * m)" using a by (simp add: inverse_gf12_def xy Let_def m_def)
    have "y * m * y + tau79 * (- x * m * x) = ?n * m" by (simp only: algebra_simps) simp
    moreover have "- x * m * y + y * m * x = 0" by (simp only: algebra_simps) simp
    ultimately show ?thesis unfolding i unfolding xy times_gf12.simps one_gf12_def gf12.inject by (simp only: m)
  qed
qed

end

subsection \<open>The characteristic\<close>

lemma prime_79: "prime_modulus 79"
proof -
  have c: "\<forall>v \<in> set [1..78]. coprime v (79 :: int)" by code_simp
  have "v \<in> set [1..78]" if "0 < v" "v < 79" for v :: int using that unfolding set_upto atLeastAtMost_iff by linarith
  then show ?thesis using c unfolding prime_modulus_def by blast
qed

definition u79 :: gf12 where
  "u79 = GF12 0 (GF6 0 0 (GF2 0 1))"

definition t79 :: gf12 where
  "t79 = GF12 0 tau79"

definition w79 :: gf12 where
  "w79 = GF12 1 0"

lemma embed_79:
  "GF12 0 a * GF12 0 b = GF12 0 (a * b)" "GF12 0 a + GF12 0 b = GF12 0 (a + b)" "- GF12 0 a = GF12 0 (- a)"
  "GF6 0 0 c * GF6 0 0 d = GF6 0 0 (c * d)" "GF6 0 0 c + GF6 0 0 d = GF6 0 0 (c + d)" "- GF6 0 0 c = GF6 0 0 (- c)"
  by simp_all

text \<open>The quadratic extension in the large field, by pairs of integers.\<close>

definition e79 :: "int \<Rightarrow> int \<Rightarrow> gf12" where
  "e79 a b = of_int a + of_int b * u79"

lemma of_int_gf12: "of_int v = GF12 0 (GF6 0 0 (GF2 (of_int v) 0))"
proof -
  have n: "(of_nat k :: gf12) = GF12 0 (GF6 0 0 (GF2 (of_nat k) 0))" for k
    by (induction k) (simp_all add: zero_gf12_def one_gf12_def zero_gf6_def one_gf6_def zero_gf2_def one_gf2_def)
  show ?thesis
    by (cases v rule: int_cases2) (simp_all add: n zero_gf6_def zero_gf2_def)
qed

lemma e79_val: "e79 a b = GF12 0 (GF6 0 0 (GF2 (of_int a) (of_int b)))"
  unfolding e79_def of_int_gf12 u79_def embed_79 by simp

lemma of_int_gf12_zero: "of_int v = (0 :: gf12) \<longleftrightarrow> v mod 79 = 0"
  unfolding of_int_gf12 by (simp add: zero_gf12_def zero_gf6_def zero_gf2_def of_int_79)

lemma e79_zero: "e79 a b = 0 \<longleftrightarrow> a mod 79 = 0 \<and> b mod 79 = 0"
  unfolding e79_val by (simp add: zero_gf12_def zero_gf6_def zero_gf2_def of_int_79)

lemma e79_mod: "e79 (a mod 79) (b mod 79) = e79 a b"
proof -
  have m: "of_int (v mod 79) = (of_int v :: gf12)" for v
    using of_int_gf12_zero [of "v mod 79 - v"] by (simp add: mod_simps)
  show ?thesis by (simp only: e79_def m)
qed

lemma u79_square: "u79 * u79 = - 1"
  unfolding u79_def one_gf12_def one_gf6_def one_gf2_def embed_79 by simp

lemma t79_cube: "t79 * t79 * t79 = 9 + u79"
proof -
  have "t79 * t79 * t79 = e79 9 1" unfolding e79_val by (simp add: t79_def tau79_def xi79_def zero_gf6_def)
  then show ?thesis by (simp add: e79_def)
qed

lemma w79_square: "w79 * w79 = t79"
  by (simp add: w79_def t79_def)

lemma e79_mult: "e79 a b * e79 c d = e79 ((a * c - b * d) mod 79) ((a * d + b * c) mod 79)"
proof -
  have "e79 a b * e79 c d = e79 (a * c - b * d) (a * d + b * c)"
    unfolding e79_val embed_79 by simp
  then show ?thesis by (simp only: e79_mod)
qed

lemma frobenius_79: "((x :: gf12) + y) ^ 79 = x ^ 79 + y ^ 79"
  by (rule power_sum_prime) (use prime_79 of_int_gf12_zero [of 79] in simp_all)

lemma of_int_gf12_fermat: "(of_int v :: gf12) ^ 79 = of_int v"
proof -
  have n: "GF12 0 (GF6 0 0 (GF2 a 0)) ^ k = GF12 0 (GF6 0 0 (GF2 (a ^ k) 0))" for a k
    by (induction k) (simp_all add: one_gf12_def one_gf6_def one_gf2_def)
  show ?thesis unfolding of_int_gf12 n fermat_79 ..
qed

lemma u79_power: "u79 ^ 79 = - u79"
proof -
  have "u79 ^ 79 = (u79 * u79) ^ 39 * u79" by (simp flip: power_mult power_Suc2 power2_eq_square)
  then show ?thesis by (simp add: u79_square)
qed

lemma e79_power: "e79 a b ^ 79 = e79 a (- b)"
  by (simp add: e79_def frobenius_79 power_mult_distrib of_int_gf12_fermat u79_power)

end
