(* ===== verification/PairingField.thy ===== *)
theory PairingField
  imports PairingOps Field79
begin

text \<open>
  An instance of the pairing's engine that is small enough to compute with: the field of 79 elements,
  whose extensions by \<open>u\<close>, \<open>t\<close> and \<open>w\<close> are the fields of \<open>Field79\<close>, with the constants that the
  constructor of the engine would have for this prime.
\<close>

subsection \<open>The base field and the engine\<close>

definition int79_inv :: "int \<Rightarrow> int" where
  "int79_inv a = power_mod 79 a 77 mod 79"

definition int79_ops :: "int base_ops" where
  "int79_ops =
     \<lparr>b_zero = 0, b_one = 1, b_negOne = 78, b_add = \<lambda>a b. (a + b) mod 79, b_sub = \<lambda>a b. (a - b) mod 79,
      b_mul = \<lambda>a b. (a * b) mod 79, b_neg = \<lambda>a. (- a) mod 79, b_square = \<lambda>a. (a * a) mod 79,
      b_inv = \<lambda>a. Some (int79_inv a), b_div = \<lambda>a b. Some ((a * int79_inv b) mod 79),
      b_isZero = \<lambda>a. a mod 79 = 0, b_eq = \<lambda>a b. a mod 79 = b mod 79, b_toString = \<lambda>_. '''', b_fromString = \<lambda>_. None\<rparr>"

abbreviation val79 :: "int \<Rightarrow> gf12" where
  "val79 \<equiv> of_int"

abbreviation ok79 :: "int \<Rightarrow> bool" where
  "ok79 \<equiv> \<lambda>_. True"

lemma of_int_mod_79: "(of_int (v mod 79) :: gf12) = of_int v"
  using of_int_gf12_zero [of "v mod 79 - v"] by (simp add: mod_simps)

lemma of_int_eq_79: "(of_int v :: gf12) = of_int x \<longleftrightarrow> v mod 79 = x mod 79"
proof -
  have "(of_int v :: gf12) = of_int x \<longleftrightarrow> (of_int (v - x) :: gf12) = 0" by simp
  then show ?thesis unfolding of_int_gf12_zero by (simp add: mod_eq_dvd_iff mod_eq_0_iff_dvd)
qed

lemma int79_inv: "(of_int a :: gf12) \<noteq> 0 \<Longrightarrow> of_int (int79_inv a) = inverse (of_int a :: gf12)"
proof -
  assume a: "(of_int a :: gf12) \<noteq> 0"
  have "(of_int a :: gf12) * (of_int a * of_int a ^ 77) = of_int a ^ 79" by (simp flip: power_Suc)
  then have "(of_int a :: gf12) * (of_int a * of_int a ^ 77) = of_int a * 1" unfolding of_int_gf12_fermat by simp
  then have "(of_int a :: gf12) * of_int a ^ 77 = 1" using a by (simp only: mult_cancel_left simp_thms)
  then have i: "inverse (of_int a :: gf12) = of_int a ^ 77" by (rule inverse_unique)
  show ?thesis unfolding i int79_inv_def power_mod of_int_mod_79 of_int_power ..
qed

lemma int79_field: "base_field int79_ops ok79 val79"
proof
  show "val79 (b_negOne int79_ops) = - 1"
    using of_int_eq_79 [of 78 "- 1"] by (simp add: int79_ops_def)
  fix a b :: int
  show "\<exists>c. b_inv int79_ops a = Some c \<and> True \<and> val79 c = inverse (val79 a)" if "val79 a \<noteq> 0"
    using int79_inv [OF that] by (simp add: int79_ops_def)
  show "\<exists>c. b_div int79_ops a b = Some c \<and> True \<and> val79 c = val79 a / val79 b" if "val79 b \<noteq> 0"
    using int79_inv [OF that] by (simp add: int79_ops_def of_int_mod_79 divide_inverse)
qed (simp_all add: int79_ops_def of_int_mod_79 of_int_gf12_zero of_int_eq_79)

definition g79 :: "int \<Rightarrow> int \<Rightarrow> int F2" where
  "g79 a b = \<lparr>f2a = a, f2b = b\<rparr>"

definition K79 :: "int F2Field" where
  "K79 = new_F2Field int79_ops 78"

definition ops79 :: "int F2 base_ops" where
  "ops79 = F2_base K79 (\<lambda>_. '''') (\<lambda>_. None)"

definition bn79 :: "int Bn_engine" where
  "bn79 =
     \<lparr>en_f12 = F12_initField (F6_initField K79 (g79 3 21) (g79 48 57) 55 23) (g79 6 64) 24,
      en_g1 = initCurve int79_ops 0 1 0 1, en_g2 = initCurve ops79 (g79 0 0) (g79 78 1) (g79 0 1) (g79 0 1),
      v_xiToPMinus1Over3 = g79 48 57, v_xiToPMinus1Over2 = g79 37 17, v_xiToPSquaredMinus1Over3 = 23\<rparr>"

lemma val2_79: "F2_val val79 u79 (g79 a b) = e79 a b"
  by (simp add: F2_val_def g79_def e79_def)

subsection \<open>The constants\<close>

text \<open>Powers of \<open>9 + u\<close>.\<close>

fun pow79 :: "int \<times> int \<Rightarrow> nat \<Rightarrow> int \<times> int" where
  "pow79 (a, b) 0 = (1, 0)"
| "pow79 (a, b) (Suc n) = (let (c, d) = pow79 (a, b) n in ((a * c - b * d) mod 79, (a * d + b * c) mod 79))"

lemma pow79: "e79 a b ^ n = e79 (fst (pow79 (a, b) n)) (snd (pow79 (a, b) n))"
proof (induction n)
  case 0
  show ?case by (simp add: e79_def)
next
  case (Suc n)
  then show ?case by (simp add: Let_def split_def e79_mult)
qed

lemma xi79_powers: "(9 + u79) ^ 13 = e79 6 64" "(9 + u79) ^ 26 = e79 48 57" "(9 + u79) ^ 52 = e79 3 21" "(9 + u79) ^ 39 = e79 37 17"
proof -
  have x: "9 + u79 = e79 9 1" by (simp add: e79_def)
  have c: "pow79 (9, 1) 13 = (6, 64)" "pow79 (9, 1) 26 = (48, 57)" "pow79 (9, 1) 52 = (3, 21)" "pow79 (9, 1) 39 = (37, 17)"
    by code_simp+
  show "(9 + u79) ^ 13 = e79 6 64" "(9 + u79) ^ 26 = e79 48 57" "(9 + u79) ^ 52 = e79 3 21" "(9 + u79) ^ 39 = e79 37 17"
    unfolding x pow79 c by simp_all
qed

lemma w79_powers:
  "e79 6 64 * w79 = w79 ^ 79" "e79 48 57 * t79 = t79 ^ 79" "e79 3 21 * (t79 * t79) = (t79 * t79) ^ 79"
  "e79 37 17 * (w79 * w79 * w79) = (w79 * w79 * w79) ^ 79"
proof -
  have w: "w79 ^ 6 = 9 + u79"
    unfolding t79_cube [symmetric] w79_square [symmetric] by (simp add: eval_nat_numeral ac_simps)
  have t: "t79 = w79 ^ 2" by (simp add: w79_square power2_eq_square)
  show "e79 6 64 * w79 = w79 ^ 79" unfolding xi79_powers(1) [symmetric] w [symmetric] by (simp flip: power_mult power_Suc2)
  show "e79 48 57 * t79 = t79 ^ 79" unfolding xi79_powers(2) [symmetric] w [symmetric] t by (simp flip: power_mult power_add)
  show "e79 3 21 * (t79 * t79) = (t79 * t79) ^ 79"
    unfolding xi79_powers(3) [symmetric] w [symmetric] t by (simp flip: power_mult power_add)
  show "e79 37 17 * (w79 * w79 * w79) = (w79 * w79 * w79) ^ 79"
    unfolding xi79_powers(4) [symmetric] w [symmetric] power3_eq_cube [symmetric] by (simp flip: power_mult power_add)
qed

lemma norm79: "e79 a b * x = x ^ 79 \<Longrightarrow> of_int (a * a + b * b) * x = x ^ (79 * 79)"
proof -
  assume a: "e79 a b * x = x ^ 79"
  have "x ^ (79 * 79) = (e79 a b * x) ^ 79" unfolding a by (simp only: power_mult)
  also have "\<dots> = e79 a (- b) * e79 a b * x" unfolding power_mult_distrib e79_power a [symmetric] mult.assoc ..
  also have "e79 a (- b) * e79 a b = of_int (a * a + b * b)" unfolding e79_mult e79_mod by (simp add: e79_def)
  finally show ?thesis ..
qed

lemma scalars_79: "(of_int 24 :: gf12) = of_int (6 * 6 + 64 * 64)" "(of_int 23 :: gf12) = of_int (48 * 48 + 57 * 57)"
  "(of_int 55 :: gf12) = of_int (3 * 3 + 21 * 21)"
  unfolding of_int_eq_79 by simp_all

lemma f12_79: "f12_field int79_ops ok79 val79 78 u79 t79 (g79 3 21) (g79 48 57) 55 23 w79 (g79 6 64) 24"
proof -
  have n: "val79 78 = - 1" using of_int_eq_79 [of 78 "- 1"] by simp
  have o: "(1 :: gf12) \<noteq> - 1" using of_int_eq_79 [of 1 "- 1"] by simp
  show ?thesis
    using int79_field n o u79_square t79_cube w79_square
    by (simp add: f12_field_def f12_field_axioms_def f6_field_def f6_field_axioms_def f2_field_def f2_field_axioms_def F2_ok_def)
qed

interpretation bn79: bn_frobenius int79_ops ok79 val79 78 u79 t79 "g79 3 21" "g79 48 57" 55 23 w79 "g79 6 64" 24 bn79 "\<lambda>_. ''''" "\<lambda>_. None" 79
proof (intro bn_frobenius.intro bn_engine.intro f12_79 bn_engine_axioms.intro bn_frobenius_axioms.intro)
  show "en_f12 bn79 = F12_initField (F6_initField (new_F2Field int79_ops 78) (g79 3 21) (g79 48 57) 55 23) (g79 6 64) 24"
    by (simp add: bn79_def K79_def)
  show "C_F (en_g1 bn79) = int79_ops" "C_F (en_g2 bn79) = F2_base (new_F2Field int79_ops 78) (\<lambda>_. '''') (\<lambda>_. None)"
    by (simp_all add: bn79_def initCurve_def ops79_def K79_def)
  show "independent ok79 val79 u79"
    unfolding independent_def e79_def [symmetric] e79_zero of_int_gf12_zero by blast
  show "((x :: gf12) + y) ^ 79 = x ^ 79 + y ^ 79" for x y by (rule frobenius_79)
  show "val79 e ^ 79 = val79 e" for e by (rule of_int_gf12_fermat)
  show "u79 ^ 79 = - u79" by (rule u79_power)
  show "F2_val val79 u79 (g79 6 64) * w79 = w79 ^ 79" "F2_val val79 u79 (g79 48 57) * t79 = t79 ^ 79"
    "F2_val val79 u79 (g79 3 21) * (t79 * t79) = (t79 * t79) ^ 79"
    unfolding val2_79 by (rule w79_powers)+
  show "val79 24 * w79 = w79 ^ (79 * 79)" "val79 23 * t79 = t79 ^ (79 * 79)" "val79 55 * (t79 * t79) = (t79 * t79) ^ (79 * 79)"
    unfolding scalars_79 by (rule norm79, rule w79_powers)+
  show "F2_val val79 u79 (v_xiToPMinus1Over3 bn79) * t79 = t79 ^ 79"
    "F2_val val79 u79 (v_xiToPMinus1Over2 bn79) * (w79 * w79 * w79) = (w79 * w79 * w79) ^ 79"
    using w79_powers by (simp_all add: bn79_def val2_79)
  show "val79 (v_xiToPSquaredMinus1Over3 bn79) * t79 = t79 ^ (79 * 79)"
    using norm79 [OF w79_powers(2)] scalars_79(2) by (simp add: bn79_def)
  show "val79 24 * val79 24 = val79 24 - 1"
    using of_int_eq_79 [of "24 * 24" "24 - 1"] by simp
  show "(3 :: gf12) \<noteq> 0" using of_int_gf12_zero [of 3] by simp
qed (simp_all add: F2_ok_def)

subsection \<open>The loop at a point of the twist\<close>

text \<open>Elements of the quadratic extension as pairs, and the chord and the tangent on them.\<close>

definition mul79 :: "int \<times> int \<Rightarrow> int \<times> int \<Rightarrow> int \<times> int" where
  "mul79 x y = ((fst x * fst y - snd x * snd y) mod 79, (fst x * snd y + snd x * fst y) mod 79)"

definition sub79 :: "int \<times> int \<Rightarrow> int \<times> int \<Rightarrow> int \<times> int" where
  "sub79 x y = ((fst x - fst y) mod 79, (snd x - snd y) mod 79)"

definition inv79 :: "int \<times> int \<Rightarrow> int \<times> int" where
  "inv79 x = (let i = power_mod 79 ((fst x * fst x + snd x * snd x) mod 79) 77 in ((fst x * i) mod 79, (- snd x * i) mod 79))"

definition third79 :: "int \<times> int \<Rightarrow> (int \<times> int) \<times> (int \<times> int) \<Rightarrow> int \<times> int \<Rightarrow> (int \<times> int) \<times> (int \<times> int)" where
  "third79 m R x2 = (let x3 = sub79 (sub79 (mul79 m m) (fst R)) x2 in (x3, sub79 (mul79 m (sub79 (fst R) x3)) (snd R)))"

definition dbl79 :: "(int \<times> int) \<times> (int \<times> int) \<Rightarrow> ((int \<times> int) \<times> (int \<times> int)) option" where
  "dbl79 R = (if snd R = (0, 0) then None
     else Some (third79 (mul79 (mul79 (3, 0) (mul79 (fst R) (fst R))) (inv79 (mul79 (2, 0) (snd R)))) R (fst R)))"

definition add79 :: "(int \<times> int) \<times> (int \<times> int) \<Rightarrow> (int \<times> int) \<times> (int \<times> int) \<Rightarrow> ((int \<times> int) \<times> (int \<times> int)) option" where
  "add79 S R = (if sub79 (fst S) (fst R) = (0, 0) then None
     else Some (third79 (mul79 (sub79 (snd S) (snd R)) (inv79 (sub79 (fst S) (fst R)))) R (fst S)))"

fun path79 :: "(int \<times> int) \<times> (int \<times> int) \<Rightarrow> int list \<Rightarrow> (int \<times> int) \<times> (int \<times> int) \<Rightarrow> ((int \<times> int) \<times> (int \<times> int)) option" where
  "path79 Q [] R = Some R"
| "path79 Q (d # ds) R =
     (case dbl79 R of
        None \<Rightarrow> None
      | Some R \<Rightarrow>
          (if d = 0 then path79 Q ds R
           else case add79 (if d = 1 then Q else (fst Q, sub79 (0, 0) (snd Q))) R of
                  None \<Rightarrow> None
                | Some R \<Rightarrow> path79 Q ds R))"

abbreviation E79 :: "int \<times> int \<Rightarrow> gf12" where
  "E79 x \<equiv> e79 (fst x) (snd x)"

definition tw79 :: "(int \<times> int) \<times> (int \<times> int) \<Rightarrow> gf12 \<times> gf12" where
  "tw79 R = (E79 (fst R) * (w79 * w79), E79 (snd R) * (w79 * w79 * w79))"

lemma E79_mul [simp]: "E79 (mul79 x y) = E79 x * E79 y"
  by (simp add: mul79_def e79_mult)

lemma E79_sub [simp]: "E79 (sub79 x y) = E79 x - E79 y"
  unfolding sub79_def fst_conv snd_conv e79_mod by (simp add: e79_def algebra_simps)

lemma E79_num: "E79 (2, 0) = 2" "E79 (3, 0) = 3" "E79 (0, 0) = 0"
  by (simp_all add: e79_def)

lemma norm79_nz: "(a * a + b * b) mod 79 = 0 \<Longrightarrow> a mod 79 = 0 \<and> b mod 79 = (0 :: int)"
proof -
  assume n: "(a * a + b * b) mod 79 = 0"
  have "norm_gf2 (GF2 (of_int a) (of_int b)) = of_int (a * a + b * b)" by simp
  then have "norm_gf2 (GF2 (of_int a) (of_int b)) = 0" using n by (simp only: of_int_79)
  then have "GF2 (of_int a) (of_int b) = 0" using norm_gf2_nz by blast
  then show ?thesis by (simp add: zero_gf2_def of_int_79)
qed

lemma E79_inv:
  assumes "E79 x \<noteq> 0"
  shows "E79 (inv79 x) = inverse (E79 x)"
proof -
  let ?n = "fst x * fst x + snd x * snd x"
  have n: "(of_int ?n :: gf12) \<noteq> 0"
  proof
    assume "(of_int ?n :: gf12) = 0"
    then have "fst x mod 79 = 0 \<and> snd x mod 79 = 0" unfolding of_int_gf12_zero by (rule norm79_nz)
    then show False using assms by (simp add: e79_zero)
  qed
  have i: "of_int (power_mod 79 (?n mod 79) 77) = inverse (of_int ?n :: gf12)"
    using int79_inv [of "?n mod 79"] n unfolding int79_inv_def by (simp add: of_int_mod_79)
  have e: "E79 (inv79 x) = (of_int (fst x) - of_int (snd x) * u79) * inverse (of_int ?n)"
    unfolding inv79_def Let_def fst_conv snd_conv e79_mod unfolding e79_def of_int_mult i by (simp add: algebra_simps)
  have "E79 x * (of_int (fst x) - of_int (snd x) * u79) = of_int ?n"
  proof -
    have "E79 x * e79 (fst x) (- snd x) = e79 ?n 0" unfolding e79_mult e79_mod by (simp add: mult.commute)
    then show ?thesis by (simp add: e79_def)
  qed
  then have "E79 x * E79 (inv79 x) = of_int ?n * inverse (of_int ?n)" unfolding e mult.assoc [symmetric] by simp
  then have "E79 x * E79 (inv79 x) = 1" using n by simp
  then show ?thesis by (rule inverse_unique [symmetric])
qed

lemma tw79_third: "third_point (E79 m * w79) (tw79 R) (E79 x * (w79 * w79)) = tw79 (third79 m R x)"
  by (simp add: third_point_def third79_def tw79_def Let_def algebra_simps)

text \<open>A line is not zero at a point whose second coordinate is not: it is that coordinate modulo \<open>w\<close>.\<close>

lemma line_nz:
  assumes "yp mod 79 \<noteq> 0"
  shows "ate_line (E79 m * w79) (tw79 R) (of_int xp, of_int yp) \<noteq> 0"
proof -
  let ?a = "E79 m * (of_int xp - E79 (fst R) * t79) + E79 (snd R) * t79"
  have e: "ate_line (E79 m * w79) (tw79 R) (of_int xp, of_int yp) = of_int yp - ?a * w79"
    by (simp add: ate_line_def tw79_def algebra_simps flip: w79_square)
  have "\<exists>b. ?a = GF12 0 b"
  proof -
    have i: "\<exists>b. x - y = GF12 0 b" if "\<exists>b. x = GF12 0 b" "\<exists>b. y = GF12 0 b" for x y using that by auto
    have m: "\<exists>b. x * y = GF12 0 b" if "\<exists>b. x = GF12 0 b" "\<exists>b. y = GF12 0 b" for x y using that by auto
    have p: "\<exists>b. x + y = GF12 0 b" if "\<exists>b. x = GF12 0 b" "\<exists>b. y = GF12 0 b" for x y using that by auto
    have c: "\<exists>b. E79 x = GF12 0 b" "\<exists>b. of_int v = GF12 0 b" "\<exists>b. t79 = GF12 0 b" for x v
      unfolding e79_val of_int_gf12 t79_def by blast+
    show ?thesis by (intro p i m c)
  qed
  then obtain b where b: "?a = GF12 0 b" by blast
  have "(of_int yp :: 79) \<noteq> 0" using assms by (simp add: of_int_79)
  then have n: "GF6 0 0 (GF2 (of_int yp) 0) \<noteq> 0" by (simp add: zero_gf6_def zero_gf2_def)
  have "GF12 0 b * w79 = GF12 b 0" by (simp add: w79_def)
  then have "of_int yp - ?a * w79 = GF12 (- b) (GF6 0 0 (GF2 (of_int yp) 0))" unfolding b of_int_gf12 [of yp] by simp
  then show ?thesis unfolding e using n by (simp add: zero_gf12_def)
qed

lemma slope_double:
  fixes x y w :: "'k::field"
  assumes "y \<noteq> 0" "w \<noteq> 0" "(2 :: 'k) \<noteq> 0"
  shows "3 * (x * (w * w) * (x * (w * w))) / (2 * (y * (w * w * w))) = 3 * (x * x) / (2 * y) * w"
  using assms by (simp add: field_simps)

lemma slope_add:
  fixes x y w :: "'k::field"
  assumes "w \<noteq> 0"
  shows "(y2 * (w * w * w) - y * (w * w * w)) / (x2 * (w * w) - x * (w * w)) = (y2 - y) / (x2 - x) * w"
  using assms by (simp flip: left_diff_distrib)

lemma dbl79:
  assumes y: "yp mod 79 \<noteq> 0" and d: "dbl79 R = Some S" and f: "f \<noteq> 0" and R: "snd R = (0, 0) \<longleftrightarrow> E79 (snd R) = 0"
  shows "\<exists>g. ate_double (of_int xp, of_int yp) f (tw79 R) = Some (g, tw79 S) \<and> g \<noteq> 0"
proof -
  have nz: "E79 (snd R) \<noteq> 0" and S: "S = third79 (mul79 (mul79 (3, 0) (mul79 (fst R) (fst R))) (inv79 (mul79 (2, 0) (snd R)))) R (fst R)"
    using d R by (auto simp: dbl79_def split: if_splits)
  let ?m = "mul79 (mul79 (3, 0) (mul79 (fst R) (fst R))) (inv79 (mul79 (2, 0) (snd R)))"
  have two: "E79 (mul79 (2, 0) (snd R)) \<noteq> 0" unfolding E79_mul E79_num using nz bn79.two_nz by simp
  have m: "E79 ?m = 3 * (E79 (fst R) * E79 (fst R)) / (2 * E79 (snd R))"
    unfolding E79_mul E79_inv [OF two] E79_num divide_inverse mult.assoc ..
  have w: "3 * (E79 (fst R) * (w79 * w79) * (E79 (fst R) * (w79 * w79))) / (2 * (E79 (snd R) * (w79 * w79 * w79))) = E79 ?m * w79"
    unfolding m by (rule slope_double [OF nz bn79.w_nz bn79.two_nz])
  have n: "snd (tw79 R) \<noteq> 0" using nz bn79.w_nz by (simp add: tw79_def)
  have m': "3 * (fst (tw79 R) * fst (tw79 R)) / (2 * snd (tw79 R)) = E79 ?m * w79" unfolding tw79_def fst_conv snd_conv by (rule w)
  have x: "fst (tw79 R) = E79 (fst R) * (w79 * w79)" by (simp only: tw79_def fst_conv)
  have "ate_double (of_int xp, of_int yp) f (tw79 R) = Some (f * ate_line (E79 ?m * w79) (tw79 R) (of_int xp, of_int yp), tw79 S)"
    using n unfolding ate_double_def Let_def m' S tw79_third [symmetric] by (simp only: if_False x)
  moreover have "f * ate_line (E79 ?m * w79) (tw79 R) (of_int xp, of_int yp) \<noteq> 0" using f line_nz [OF y, of ?m R xp] by simp
  ultimately show ?thesis by blast
qed

lemma add79:
  assumes y: "yp mod 79 \<noteq> 0" and d: "add79 S R = Some T" and f: "f \<noteq> 0"
    and R: "sub79 (fst S) (fst R) = (0, 0) \<longleftrightarrow> E79 (sub79 (fst S) (fst R)) = 0"
  shows "\<exists>g. ate_add (of_int xp, of_int yp) (tw79 S) f (tw79 R) = Some (g, tw79 T) \<and> g \<noteq> 0"
proof -
  let ?m = "mul79 (sub79 (snd S) (snd R)) (inv79 (sub79 (fst S) (fst R)))"
  have nz: "E79 (sub79 (fst S) (fst R)) \<noteq> 0" and T: "T = third79 ?m R (fst S)"
    using d R by (auto simp: add79_def split: if_splits)
  have m: "E79 ?m = (E79 (snd S) - E79 (snd R)) / (E79 (fst S) - E79 (fst R))"
    using E79_inv [OF nz] by (simp add: divide_inverse)
  have m': "(snd (tw79 S) - snd (tw79 R)) / (fst (tw79 S) - fst (tw79 R)) = E79 ?m * w79"
    unfolding tw79_def fst_conv snd_conv m by (rule slope_add [OF bn79.w_nz])
  have n: "fst (tw79 R) \<noteq> fst (tw79 S)" using nz bn79.w_nz by (auto simp: tw79_def)
  have x: "fst (tw79 S) = E79 (fst S) * (w79 * w79)" by (simp only: tw79_def fst_conv)
  have "ate_add (of_int xp, of_int yp) (tw79 S) f (tw79 R) = Some (f * ate_line (E79 ?m * w79) (tw79 S) (of_int xp, of_int yp), tw79 T)"
    using n unfolding ate_add_def Let_def m' T tw79_third [symmetric] by (simp only: if_False x)
  moreover have "f * ate_line (E79 ?m * w79) (tw79 S) (of_int xp, of_int yp) \<noteq> 0" using f line_nz [OF y, of ?m S xp] by simp
  ultimately show ?thesis by blast
qed

text \<open>Reduced pairs are zero only as \<open>(0, 0)\<close>.\<close>

abbreviation red79 :: "int \<times> int \<Rightarrow> bool" where
  "red79 x \<equiv> fst x mod 79 = fst x \<and> snd x mod 79 = snd x"

lemma red79_zero: "red79 x \<Longrightarrow> x = (0, 0) \<longleftrightarrow> E79 x = 0"
  unfolding e79_zero by (cases x) auto

lemma red79_sub: "red79 (sub79 x y)"
  by (simp add: sub79_def)

lemma red79_third: "red79 (snd (third79 m R x))"
  unfolding third79_def Let_def snd_conv by (rule red79_sub)

lemma red79_step: "dbl79 R = Some S \<Longrightarrow> red79 (snd S)" "add79 T R = Some S \<Longrightarrow> red79 (snd S)"
proof -
  assume "dbl79 R = Some S"
  then have "S = third79 (mul79 (mul79 (3, 0) (mul79 (fst R) (fst R))) (inv79 (mul79 (2, 0) (snd R)))) R (fst R)"
    unfolding dbl79_def by (simp split: if_splits)
  then show "red79 (snd S)" by (simp only: red79_third simp_thms)
next
  assume "add79 T R = Some S"
  then have "S = third79 (mul79 (sub79 (snd T) (snd R)) (inv79 (sub79 (fst T) (fst R)))) R (fst T)"
    unfolding add79_def by (simp split: if_splits)
  then show "red79 (snd S)" by (simp only: red79_third simp_thms)
qed

lemma tw79_neg: "(fst (tw79 Q), - snd (tw79 Q)) = tw79 (fst Q, sub79 (0, 0) (snd Q))"
  by (simp only: tw79_def fst_conv snd_conv E79_sub E79_num [unfolded fst_conv snd_conv] diff_0 minus_mult_left)

lemma path79:
  assumes y: "yp mod 79 \<noteq> 0"
  shows "red79 (snd R) \<Longrightarrow> path79 Q ds R = Some S \<Longrightarrow> f \<noteq> 0 \<Longrightarrow>
    \<exists>g. ate_loop (of_int xp, of_int yp) (tw79 Q) ds f (tw79 R) = Some (g, tw79 S) \<and> g \<noteq> 0"
proof (induction ds arbitrary: f R)
  case (Cons d ds)
  obtain R1 where R1: "dbl79 R = Some R1" using Cons.prems(2) by (cases "dbl79 R") simp_all
  have "f * f \<noteq> 0" using Cons.prems(3) by simp
  then obtain f1 where f1: "ate_double (of_int xp, of_int yp) (f * f) (tw79 R) = Some (f1, tw79 R1)" "f1 \<noteq> 0"
    using dbl79 [OF y R1 _ red79_zero [OF Cons.prems(1)]] by blast
  have r1: "red79 (snd R1)" using red79_step(1) [OF R1] .
  let ?T = "if d = 1 then Q else (fst Q, sub79 (0, 0) (snd Q))"
  have T: "(if d = 1 then tw79 Q else (fst (tw79 Q), - snd (tw79 Q))) = tw79 ?T"
    using tw79_neg by simp
  show ?case
  proof (cases "d = 0")
    case True
    then show ?thesis using Cons.IH [OF r1 _ f1(2)] Cons.prems(2) R1 f1(1) by simp
  next
    case False
    obtain R2 where R2: "add79 ?T R1 = Some R2" using Cons.prems(2) R1 False by (cases "add79 ?T R1") simp_all
    obtain f2 where f2: "ate_add (of_int xp, of_int yp) (tw79 ?T) f1 (tw79 R1) = Some (f2, tw79 R2)" "f2 \<noteq> 0"
      using add79 [OF y R2 f1(2) red79_zero [OF red79_sub]] by blast
    have r2: "red79 (snd R2)" using red79_step(2) [OF R2] .
    have "path79 Q ds R2 = Some S" using Cons.prems(2) R1 R2 False by simp
    from Cons.IH [OF r2 this f2(2)] show ?thesis
      using False unfolding ate_loop.simps f1(1) option.case prod.case T f2(1) by simp
  qed
qed simp

text \<open>The points of the Frobenius map, and the point \<open>(u, u)\<close>, at which no denominator of the pairing vanishes.\<close>

definition frob79 :: "(int \<times> int) \<times> (int \<times> int) \<Rightarrow> (int \<times> int) \<times> (int \<times> int)" where
  "frob79 Q = (mul79 (fst (fst Q), - snd (fst Q)) (48, 57), mul79 (fst (snd Q), - snd (snd Q)) (37, 17))"

lemma frob79: "tw79 (frob79 Q) = (fst (tw79 Q) ^ 79, snd (tw79 Q) ^ 79)"
proof -
  have w2: "e79 48 57 * (w79 * w79) = (w79 * w79) ^ 79" unfolding w79_square by (rule w79_powers)
  show ?thesis
    by (simp only: tw79_def frob79_def fst_conv snd_conv E79_mul power_mult_distrib [of "E79 x" for x] e79_power
        mult.assoc [of "e79 a b" "e79 c d" for a b c d] w2 w79_powers(4))
qed

lemma frob79_twice: "(fst (tw79 Q) ^ (79 * 79), - (snd (tw79 Q) ^ (79 * 79))) =
    tw79 (fst (frob79 (frob79 Q)), sub79 (0, 0) (snd (frob79 (frob79 Q))))"
proof -
  have p: "(x :: gf12) ^ (79 * 79) = (x ^ 79) ^ 79" for x by (rule power_mult)
  have "tw79 (frob79 (frob79 Q)) = ((fst (tw79 Q) ^ 79) ^ 79, (snd (tw79 Q) ^ 79) ^ 79)" by (simp add: frob79)
  then have q: "(fst (tw79 Q) ^ 79) ^ 79 = fst (tw79 (frob79 (frob79 Q)))" "(snd (tw79 Q) ^ 79) ^ 79 = snd (tw79 (frob79 (frob79 Q)))"
    by simp_all
  show ?thesis unfolding p q by (simp only: tw79_def fst_conv snd_conv E79_sub E79_num [unfolded fst_conv snd_conv] diff_0 minus_mult_left)
qed

definition ate79 :: "(int \<times> int) \<times> (int \<times> int) \<Rightarrow> bool" where
  "ate79 Q = (case path79 Q ate_digits Q of
      None \<Rightarrow> False
    | Some R \<Rightarrow> (case add79 (frob79 Q) R of
         None \<Rightarrow> False
       | Some S \<Rightarrow> add79 (fst (frob79 (frob79 Q)), sub79 (0, 0) (snd (frob79 (frob79 Q)))) S \<noteq> None))"

lemma ate79:
  assumes y: "yp mod 79 \<noteq> 0" and Q: "red79 (snd Q)" "ate79 Q"
  shows "\<exists>f. optimal_ate 79 (of_int xp, of_int yp) (tw79 Q) = Some f \<and> f \<noteq> 0"
proof -
  let ?Q2 = "(fst (frob79 (frob79 Q)), sub79 (0, 0) (snd (frob79 (frob79 Q))))"
  obtain R S T where s: "path79 Q ate_digits Q = Some R" "add79 (frob79 Q) R = Some S" "add79 ?Q2 S = Some T"
    using Q(2) by (auto simp: ate79_def split: option.splits)
  obtain g where g: "ate_loop (of_int xp, of_int yp) (tw79 Q) ate_digits 1 (tw79 Q) = Some (g, tw79 R)" "g \<noteq> 0"
    using path79 [OF y Q(1) s(1), of 1] by auto
  obtain h where h: "ate_add (of_int xp, of_int yp) (tw79 (frob79 Q)) g (tw79 R) = Some (h, tw79 S)" "h \<noteq> 0"
    using add79 [OF y s(2) g(2) red79_zero [OF red79_sub]] by blast
  obtain f where f: "ate_add (of_int xp, of_int yp) (tw79 ?Q2) h (tw79 S) = Some (f, tw79 T)" "f \<noteq> 0"
    using add79 [OF y s(3) h(2) red79_zero [OF red79_sub]] by blast
  show ?thesis unfolding optimal_ate_def g(1) option.case prod.case frob79 [symmetric] h(1) frob79_twice f(1) using f(2) by blast
qed

lemma ate79_u: "ate79 ((0, 1), (0, 1))"
  by code_simp

end
