(* ===== verification/PairingVerify.thy ===== *)
theory PairingVerify
  imports PairingField
begin

text \<open>
  The verifier over the pairing of the code. \<open>Groth16_verify\<close> on the curves of \<open>CurveOps\<close> and the
  pairing of \<open>PairingOps\<close> is proved to answer whether the product of four values of the optimal ate
  pairing is removed by the final exponent; no law of pairings is assumed.
\<close>

subsection \<open>Points of the verifier\<close>

lemma fromAffine_at:
  assumes "base_field G okg valg" "C = initCurve G ca cb gx gy" "okg (ax s)" "okg (ay s)"
  shows "point_at okg valg (Curve_fromAffine C s) (aff_of valg s)"
proof -
  note i = base_field.isZero [OF assms(1,3)] base_field.isZero [OF assms(1,4)] base_field.one [OF assms(1)]
    base_field.zero [OF assms(1)]
  show ?thesis
    using assms(3,4) i by (simp add: Curve_fromAffine_def Curve_isZeroA_def assms(2) initCurve_def point_at_def aff_of_def xyzz_def Let_def)
qed

lemma negFromAffine_at:
  assumes "base_field G okg valg" "C_F C = G" "okg (ax s)" "okg (ay s)"
  shows "point_at okg valg (Curve_negFromAffine C s) (Some (valg (ax s), - valg (ay s)))"
  using assms(3,4) base_field.neg [OF assms(1,4)] base_field.one [OF assms(1)]
  by (simp add: Curve_negFromAffine_def assms(2) point_at_def Let_def)

lemma aff_of_not_origin: "aff_of valg s \<noteq> Some (0, 0)"
  by (simp add: aff_of_def)

text \<open>The scalar of a public input, as the bytes of its element in normal form.\<close>

definition input_bytes :: "('e, 'p, 'a, 'r, 'b) Engine \<Rightarrow> 'e \<Rightarrow> bytes" where
  "input_bytes E x = fr_bytes E (f_fromMontgomery (e_fr E) x)"

lemma inputs_loop_scalars:
  assumes G: "curve_vals (e_g1 E) gp ga q" and sz: "0 < unat (fr_size E)"
  shows "gp vkX v \<Longrightarrow> \<forall>x \<in> set xs. length (input_bytes E x) = unat (fr_size E) \<Longrightarrow> \<forall>j < length xs. ga (IC ! (i + j + 1)) (ic (i + j + 1)) \<Longrightarrow>
     gp (inputs_loop E xs IC i vkX) (v + (\<Sum>j < length xs. int (le_nat (input_bytes E (xs ! j))) * ic (i + j + 1)))"
proof (induction xs arbitrary: i vkX v)
  case (Cons y xs)
  let ?s = "input_bytes E y"
  let ?vkX = "g_add (e_g1 E) vkX (mulByScalarA (e_g1 E) (IC ! (i + 1)) ?s (unat (fr_size E)))"
  have l: "length ?s = unat (fr_size E)" "0 < length ?s" using Cons.prems(2) sz by simp_all
  have "ga (IC ! (i + 1)) (ic (i + 1))" using Cons.prems(3) by force
  then have "gp (mulByScalarA (e_g1 E) (IC ! (i + 1)) ?s (length ?s)) (int (le_nat ?s) * ic (i + 1))"
    by (rule curve_vals.mulByScalarA_val [OF G _ l(2)])
  then have 1: "gp ?vkX (v + int (le_nat ?s) * ic (i + 1))"
    unfolding l(1) by (rule curve_vals.gp_add [OF G Cons.prems(1)])
  have 2: "\<forall>x \<in> set xs. length (input_bytes E x) = unat (fr_size E)" using Cons.prems(2) by simp
  have 3: "\<forall>j < length xs. ga (IC ! (i + 1 + j + 1)) (ic (i + 1 + j + 1))"
  proof (intro allI impI)
    fix j assume "j < length xs"
    then show "ga (IC ! (i + 1 + j + 1)) (ic (i + 1 + j + 1))" using Cons.prems(3) [rule_format, of "Suc j"] by simp
  qed
  have "(\<Sum>j < length (y # xs). int (le_nat (input_bytes E ((y # xs) ! j))) * ic (i + j + 1)) =
      int (le_nat ?s) * ic (i + 1) + (\<Sum>j < length xs. int (le_nat (input_bytes E (xs ! j))) * ic (i + 1 + j + 1))"
    unfolding length_Cons sum.lessThan_Suc_shift by simp
  then show ?case using Cons.IH [OF 1 2 3] by (simp add: Let_def add.assoc input_bytes_def)
qed simp

text \<open>The sum of the public inputs times the key's points, as a multiple of the generator.\<close>

definition inputs_value :: "('e, 'p, 'a, 'r, 'b) Engine \<Rightarrow> 'e list \<Rightarrow> (nat \<Rightarrow> int) \<Rightarrow> int" where
  "inputs_value E inputs ic = ic 0 + (\<Sum>i < length inputs. int (le_nat (input_bytes E (inputs ! i))) * ic (i + 1))"

context bn_frobenius
begin

text \<open>Four points as the verifier makes them, and their factors.\<close>

lemma verify_pairs:
  assumes m: "curve_multiples F ok val (en_g1 E) aa ab gx gy a b q mp"
    and g2: "en_g2 E = initCurve (F2_base K2 ts fs) a2 b2 gx2 gy2"
    and e: "e_g1 En = Curve_group (en_g1 E)" "e_g2 En = Curve_group (en_g2 E)"
    and x: "\<forall>x \<in> set inputs. length (input_bytes En x) = unat (fr_size En)" "0 < unat (fr_size En)"
    and l: "length inputs + 1 = length (vk_IC key)"
    and ic: "\<forall>i < length (vk_IC key). aff_at ok val (vk_IC key ! i) (mp (ic i))"
    and s1: "\<forall>s \<in> {pf_A pf, vk_Alpha key, pf_C pf}. ok (ax s) \<and> ok (ay s)"
    and s2: "\<forall>s \<in> {pf_B pf, vk_Beta key, vk_Gamma key, vk_Delta key}. ok2 (ax s) \<and> ok2 (ay s)"
    and f1: "ate_factor p w (aff_of val (pf_A pf)) (aff_of val2 (pf_B pf)) f1"
    and f2: "ate_factor p w (Some (val (ax (vk_Alpha key)), - val (ay (vk_Alpha key)))) (aff_of val2 (vk_Beta key)) f2"
    and f3: "ate_factor p w (mp (- inputs_value En inputs ic)) (aff_of val2 (vk_Gamma key)) f3"
    and f4: "ate_factor p w (Some (val (ax (pf_C pf)), - val (ay (pf_C pf)))) (aff_of val2 (vk_Delta key)) f4"
  shows "Groth16_verify En (Bn_Pairing E) pf inputs key = Inr ((f1 * f2 * f3 * f4) powi ate_exponent (int p) = 1)"
proof -
  let ?C1 = "en_g1 E" and ?C2 = "en_g2 E" and ?V = "inputs_value En inputs ic"
  let ?G1 = "Curve_group ?C1" and ?G2 = "Curve_group ?C2"
  let ?gp = "\<lambda>a k. point_at ok val a (mp k)" and ?ga = "\<lambda>a k. aff_at ok val a (mp k)"
  note G = curve_multiples.group_vals [OF m]
  have c1: "?C1 = initCurve F aa ab gx gy" using m by (simp add: curve_multiples_def curve_def curve_axioms_def)
  let ?X = "\<Sum>j < length inputs. int (le_nat (input_bytes En (inputs ! j))) * ic (j + 1)"
  let ?vkX = "g_addA ?G1 (inputs_loop En inputs (vk_IC key) 0 (g_zero ?G1)) (vk_IC key ! 0)"
  have ic': "\<forall>j < length inputs. ?ga (vk_IC key ! (0 + j + 1)) (ic (0 + j + 1))" "?ga (vk_IC key ! 0) (ic 0)"
  proof -
    show "\<forall>j < length inputs. ?ga (vk_IC key ! (0 + j + 1)) (ic (0 + j + 1))" using ic l by auto
    show "?ga (vk_IC key ! 0) (ic 0)" by (rule ic [rule_format]) (use l in linarith)
  qed
  have "?gp (inputs_loop En inputs (vk_IC key) 0 (g_zero ?G1)) (0 + (\<Sum>j < length inputs. int (le_nat (input_bytes En (inputs ! j))) * ic (0 + j + 1)))"
    by (rule inputs_loop_scalars [OF G [folded e(1)] x(2) _ x(1) ic'(1)]) (rule curve_vals.gp_zero [OF G])
  then have "?gp ?vkX (0 + ?X + ic 0)" using curve_vals.gp_addA [OF G _ ic'(2)] by simp
  from curve_vals.gp_neg [OF G this] have X: "point_at ok val (g_neg ?G1 ?vkX) (mp (- ?V))"
    by (simp only: inputs_value_def add.commute [of ?X] add_0)
  have A: "point_at ok val (g_fromAffine ?G1 (pf_A pf)) (aff_of val (pf_A pf))"
    using fromAffine_at [OF base_field_axioms c1] s1 by (simp add: Curve_group_def)
  have n: "point_at ok val (g_negA ?G1 s) (Some (val (ax s), - val (ay s)))" if "s = vk_Alpha key \<or> s = pf_C pf" for s
    using negFromAffine_at [OF base_field_axioms E_g1] s1 that by (auto simp: Curve_group_def)
  have B: "point_at ok2 val2 (g_fromAffine ?G2 s) (aff_of val2 s)"
    if "s = pf_B pf \<or> s = vk_Beta key \<or> s = vk_Gamma key \<or> s = vk_Delta key" for s
    using fromAffine_at [OF F2_field g2] s2 that by (auto simp: Curve_group_def)
  let ?as = "[g_fromAffine ?G1 (pf_A pf), g_negA ?G1 (vk_Alpha key), g_neg ?G1 ?vkX, g_negA ?G1 (pf_C pf)]"
  let ?bs = "[g_fromAffine ?G2 (pf_B pf), g_fromAffine ?G2 (vk_Beta key), g_fromAffine ?G2 (vk_Gamma key), g_fromAffine ?G2 (vk_Delta key)]"
  have pf: "pair_factor ok val u w p a b f" if "point_at ok val a P" "point_at ok2 val2 b (aff_of val2 s)" "ate_factor p w P (aff_of val2 s) f" for a b f P s
    using that aff_of_not_origin unfolding pair_factor_def by blast
  have p: "pair_factor ok val u w p (?as ! i) (?bs ! i) ([f1, f2, f3, f4] ! i)" if i: "i < length [f1, f2, f3, f4]" for i
  proof -
    have "i = 0 \<or> i = 1 \<or> i = 2 \<or> i = 3" using i by auto
    then show ?thesis
      using pf [OF A B f1] pf [OF n B f2] pf [OF X B f3] pf [OF n B f4] by auto
  qed
  have "pairingCheck (Bn_Pairing E) ?as ?bs \<longleftrightarrow> prod_list [f1, f2, f3, f4] powi ate_exponent (int p) = 1"
    by (rule pairingCheck_scaled [OF _ _ allI [OF impI [OF p]]]) simp_all
  then show ?thesis using l by (simp add: Groth16_verify_def Let_def e mult.assoc)
qed

end

subsection \<open>Points over the field of 79 elements\<close>

text \<open>The point \<open>(0, 1)\<close> of order three of the first curve, its opposite, and the point \<open>(u, u)\<close> of the second.\<close>

lemma curve79: "curve int79_ops ok79 val79 (en_g1 bn79) 0 1 0 1 0 1"
proof -
  have "(2 :: gf12) \<noteq> 0" "(27 :: gf12) \<noteq> 0" using of_int_gf12_zero [of 2] of_int_gf12_zero [of 27] by simp_all
  then show ?thesis using int79_field by (simp add: curve_def curve_axioms_def bn79_def)
qed

interpretation curve79: curve_multiples int79_ops ok79 val79 "en_g1 bn79" 0 1 0 1 0 1 3 three_multiple
  by (rule three_multiples [OF curve79])

definition P79 :: "int \<Rightarrow> int PointAffine" where
  "P79 y = \<lparr>ax = 0, ay = y\<rparr>"

definition Q79 :: "int F2 PointAffine" where
  "Q79 = \<lparr>ax = g79 0 1, ay = g79 0 1\<rparr>"

lemma gf12_78: "(78 :: gf12) = - 1"
  using of_int_eq_79 [of 78 "- 1"] by simp

lemma aff_P79: "aff_of val79 (P79 1) = Some (0, 1)" "aff_of val79 (P79 78) = Some (0, - 1)"
  "aff_at ok79 val79 (P79 1) (three_multiple 1)"
  by (simp_all add: aff_of_def P79_def aff_at_def three_multiple_def gf12_78)

lemma aff_Q79: "aff_of (F2_val val79 u79) Q79 = Some (e79 0 1, e79 0 1)"
  by (simp add: aff_of_def Q79_def val2_79 e79_zero)

lemma point_79:
  "point_at ok79 val79 (Curve_fromAffine (en_g1 bn79) (P79 1)) (Some (0, 1))"
  "point_at ok79 val79 (Curve_negFromAffine (en_g1 bn79) (P79 1)) (Some (0, - 1))"
  "point_at (F2_ok ok79) (F2_val val79 u79) (Curve_fromAffine (en_g2 bn79) Q79) (Some (e79 0 1, e79 0 1))"
proof -
  show "point_at ok79 val79 (Curve_fromAffine (en_g1 bn79) (P79 1)) (Some (0, 1))"
    using fromAffine_at [OF int79_field, of "en_g1 bn79" 0 1 0 1 "P79 1"] aff_P79 by (simp add: bn79_def)
  show "point_at ok79 val79 (Curve_negFromAffine (en_g1 bn79) (P79 1)) (Some (0, - 1))"
    using negFromAffine_at [OF int79_field bn79.E_g1, of "P79 1"] by (simp add: P79_def)
  show "point_at (F2_ok ok79) (F2_val val79 u79) (Curve_fromAffine (en_g2 bn79) Q79) (Some (e79 0 1, e79 0 1))"
    using fromAffine_at [OF bn79.F2_field, of "en_g2 bn79" "g79 0 0" "g79 78 1" "g79 0 1" "g79 0 1" Q79] aff_Q79
    by (simp add: bn79_def ops79_def K79_def F2_ok_def)
qed

text \<open>The pairings of the two points are defined, and cancel.\<close>

lemma factors79:
  obtains f f' where "ate_factor 79 w79 (Some (0, 1)) (Some (e79 0 1, e79 0 1)) f"
    "ate_factor 79 w79 (Some (0, - 1)) (Some (e79 0 1, e79 0 1)) f'" "(f * f') powi ate_exponent (int 79) = 1"
proof -
  have r: "red79 (snd ((0, 1), (0, 1)))" and y: "(1 :: int) mod 79 \<noteq> 0" by simp_all
  have tw: "tw79 ((0, 1), (0, 1)) = bn79.twist (e79 0 1, e79 0 1)" by (simp add: tw79_def)
  obtain f where f: "optimal_ate 79 (0, 1) (bn79.twist (e79 0 1, e79 0 1)) = Some f" "f \<noteq> 0"
    using ate79 [OF y r ate79_u, of 0] unfolding tw by auto
  have nz: "(e79 0 1, e79 0 1) \<noteq> (0, 0)" by (simp add: e79_zero)
  obtain f' where f': "optimal_ate 79 (0, - 1) (bn79.twist (e79 0 1, e79 0 1)) = Some f'" "f' \<noteq> 0" "(f * f') powi ate_exponent (int 79) = 1"
    using bn79.ate_opposite [OF point_79(1,3) nz f] by blast
  show ?thesis using that [of f f'] f f' by (simp add: ate_factor_def)
qed

subsection \<open>The results\<close>

text \<open>
  Property C4. The check of a list of pairs of points by the code's loop of Miller and final
  exponentiation answers whether the product of the values of the optimal ate pairing, raised to the
  final exponent, is one; pairs with a point at infinity are skipped. For the prime of bn128 the
  exponent is the one that maps onto the roots of unity of the group's order. Where the pairing is
  defined: no tangent and no chord of its loop is vertical.
\<close>

theorem pairing_check_correct:
  assumes "bn_frobenius F ok val nr u t c1 c2 c3 c4 w c5 c6 B ts fs p"
    and "length as = length gs" "length bs = length gs"
    and "\<forall>i < length gs. pair_factor ok val u w p (as ! i) (bs ! i) (gs ! i)"
  shows "(pairingCheck (Bn_Pairing B) as bs \<longleftrightarrow> prod_list gs powi ate_exponent (int p) = 1) \<and>
    (int p = bn_p \<longrightarrow> ate_exponent (int p) * bn_r = int p ^ 12 - 1)"
  using bn_frobenius.pairingCheck_scaled [OF assms] ate_exponent_bn by simp

text \<open>A point and its opposite, paired with the same point.\<close>

theorem pairing_check_correct_witness:
  "pairingCheck (Bn_Pairing bn79) [Curve_fromAffine (en_g1 bn79) (P79 1), Curve_negFromAffine (en_g1 bn79) (P79 1)]
     [Curve_fromAffine (en_g2 bn79) Q79, Curve_fromAffine (en_g2 bn79) Q79]"
proof -
  let ?a = "Curve_fromAffine (en_g1 bn79) (P79 1)" and ?a' = "Curve_negFromAffine (en_g1 bn79) (P79 1)"
  let ?b = "Curve_fromAffine (en_g2 bn79) Q79"
  obtain f f' where f: "ate_factor 79 w79 (Some (0, 1)) (Some (e79 0 1, e79 0 1)) f"
    "ate_factor 79 w79 (Some (0, - 1)) (Some (e79 0 1, e79 0 1)) f'" "(f * f') powi ate_exponent (int 79) = 1"
    by (rule factors79)
  have nz: "Some (e79 0 1, e79 0 1) \<noteq> Some (0, 0)" by (simp add: e79_zero)
  have "pair_factor ok79 val79 u79 w79 79 ?a ?b f" "pair_factor ok79 val79 u79 w79 79 ?a' ?b f'"
    using point_79 nz f(1,2) unfolding pair_factor_def by blast+
  then have "\<forall>i < length [f, f']. pair_factor ok79 val79 u79 w79 79 ([?a, ?a'] ! i) ([?b, ?b] ! i) ([f, f'] ! i)"
    by (simp add: less_Suc_eq)
  from pairing_check_correct [OF bn79.bn_frobenius_axioms _ _ this] show ?thesis using f(3) by simp
qed

text \<open>
  Property C5. The verifier reports a wrong number of inputs as an error. Otherwise it answers whether
  the product of the optimal ate pairings of the proof's first two points, of the key's points \<open>-Alpha\<close>
  and \<open>Beta\<close>, of the inputs' sum \<open>-vkX\<close> and \<open>Gamma\<close>, and of \<open>-C\<close> and \<open>Delta\<close>, raised to the final exponent, is one.
  A proof's points need not lie on the curve. An \<open>Alpha\<close> or \<open>C\<close> at infinity is taken for the point \<open>(0, 0)\<close>.
\<close>

theorem groth16_verify_correct:
  assumes "bn_frobenius F ok val nr u t c1 c2 c3 c4 w c5 c6 B ts fs p"
    and "curve_multiples F ok val (en_g1 B) aa ab gx gy a b q mp"
    and "en_g2 B = initCurve (F2_base (en_f2 B) ts fs) a2 b2 gx2 gy2"
    and "e_g1 E = Curve_group (en_g1 B)" "e_g2 E = Curve_group (en_g2 B)"
    and "\<forall>x \<in> set inputs. length (input_bytes E x) = unat (fr_size E)" "0 < unat (fr_size E)"
    and "\<forall>i < length (vk_IC key). aff_at ok val (vk_IC key ! i) (mp (ic i))"
    and "\<forall>s \<in> {pf_A pf, vk_Alpha key, pf_C pf}. ok (ax s) \<and> ok (ay s)"
    and "\<forall>s \<in> {pf_B pf, vk_Beta key, vk_Gamma key, vk_Delta key}. F2_ok ok (ax s) \<and> F2_ok ok (ay s)"
    and "ate_factor p w (aff_of val (pf_A pf)) (aff_of (F2_val val u) (pf_B pf)) f1"
    and "ate_factor p w (Some (val (ax (vk_Alpha key)), - val (ay (vk_Alpha key)))) (aff_of (F2_val val u) (vk_Beta key)) f2"
    and "ate_factor p w (mp (- inputs_value E inputs ic)) (aff_of (F2_val val u) (vk_Gamma key)) f3"
    and "ate_factor p w (Some (val (ax (pf_C pf)), - val (ay (pf_C pf)))) (aff_of (F2_val val u) (vk_Delta key)) f4"
  shows "Groth16_verify E (Bn_Pairing B) pf inputs key =
    (if length inputs + 1 \<noteq> length (vk_IC key) then Inl ''len(inputs)+1 != len(vk.IC)''
     else Inr ((f1 * f2 * f3 * f4) powi ate_exponent (int p) = 1))"
proof (cases "length inputs + 1 = length (vk_IC key)")
  case True
  have K: "en_f2 B = new_F2Field F nr" using bn_engine.E_simps(3) [OF bn_frobenius.axioms(1) [OF assms(1)]] .
  show ?thesis
    using bn_frobenius.verify_pairs [OF assms(1,2) assms(3) [unfolded K] assms(4-7) True assms(8-14)] True by simp
qed (simp add: Groth16_verify_def)

text \<open>
  An engine whose scalars are elements of the runtime for bn128 and whose curves are those over the
  field of 79 elements; a key with one public input, and a proof for the input five: \<open>vkX\<close> is seven times
  the point \<open>(0, 1)\<close>.
\<close>

definition engine79 :: "(limbs, int Point, int PointAffine, int F2 Point, int F2 PointAffine) Engine" where
  "engine79 = \<lparr>e_fr = bn128_Fr, fr_bytes = limb_bytes, fr_ofBytes = \<lambda>s. map rd64 (chunks 8 4 s), fr_size = 32,
     e_g1 = Curve_group (en_g1 bn79), e_g2 = Curve_group (en_g2 bn79)\<rparr>"

lemma engine79_sel: "e_fr engine79 = bn128_Fr" "fr_bytes engine79 = limb_bytes" "fr_size engine79 = 32"
  "e_g1 engine79 = Curve_group (en_g1 bn79)" "e_g2 engine79 = Curve_group (en_g2 bn79)"
  by (simp_all add: engine79_def)

definition key79 :: "(int PointAffine, int F2 PointAffine) VerificationKey" where
  "key79 = \<lparr>vk_Alpha = P79 1, vk_Beta = Q79, vk_Gamma = Q79, vk_Delta = Q79, vk_IC = [P79 78, P79 1]\<rparr>"

definition proof79 :: "(int PointAffine, int F2 PointAffine) Proof" where
  "proof79 = \<lparr>pf_A = P79 1, pf_B = Q79, pf_C = P79 78\<rparr>"

lemma input79: "length (input_bytes engine79 (bn128_el 5)) = 32" "int (le_nat (input_bytes engine79 (bn128_el 5))) = 5"
proof -
  have i: "input_bytes engine79 (bn128_el 5) = fr_bytes bn128_engine (f_fromMontgomery (e_fr bn128_engine) (bn128_el 5))"
    by (simp add: input_bytes_def engine79_sel bn128_engine_sel)
  have "fe bn128_params (bn128_el 5) 5" by (rule bn128_el)
  note f = bn128_engine.rel_fromMontgomery [OF this]
  show "length (input_bytes engine79 (bn128_el 5)) = 32" unfolding i using bn128_engine.bytes_len [OF f] by (simp add: bn128_engine_sel)
  show "int (le_nat (input_bytes engine79 (bn128_el 5))) = 5" unfolding i using bn128_engine.normal_val [OF f] by (simp add: bn128_q)
qed

theorem groth16_verify_correct_witness:
  "Groth16_verify engine79 (Bn_Pairing bn79) proof79 [bn128_el 5] key79 = Inr True"
proof -
  obtain f f' where f: "ate_factor 79 w79 (Some (0, 1)) (Some (e79 0 1, e79 0 1)) f"
    "ate_factor 79 w79 (Some (0, - 1)) (Some (e79 0 1, e79 0 1)) f'" "(f * f') powi ate_exponent (int 79) = 1"
    by (rule factors79)
  let ?ic = "\<lambda>i :: nat. if i = 0 then 2 else 1 :: int"
  note n = gf12_78
  have g2: "en_g2 bn79 = initCurve (F2_base (en_f2 bn79) (\<lambda>_. '''') (\<lambda>_. None)) (g79 0 0) (g79 78 1) (g79 0 1) (g79 0 1)"
    unfolding bn79.E_simps by (simp add: bn79_def ops79_def K79_def)
  have ic: "\<forall>i < length (vk_IC key79). aff_at ok79 val79 (vk_IC key79 ! i) (three_multiple (?ic i))"
    by (simp add: key79_def less_Suc_eq aff_at_def P79_def three_multiple_def n)
  have v: "inputs_value engine79 [bn128_el 5] ?ic = 7" by (simp add: inputs_value_def input79(2))
  have m: "three_multiple (- 7) = Some (0, - 1)" by (simp add: three_multiple_def)
  have "Groth16_verify engine79 (Bn_Pairing bn79) proof79 [bn128_el 5] key79 =
    (if length [bn128_el 5] + 1 \<noteq> length (vk_IC key79) then Inl ''len(inputs)+1 != len(vk.IC)''
     else Inr ((f * f' * f' * f) powi ate_exponent (int 79) = 1))"
  proof (rule groth16_verify_correct [OF bn79.bn_frobenius_axioms curve79.curve_multiples_axioms g2 _ _ _ _ ic])
    show "ate_factor 79 w79 (aff_of val79 (pf_A proof79)) (aff_of (F2_val val79 u79) (pf_B proof79)) f"
      using f(1) by (simp add: proof79_def aff_P79 aff_Q79)
    show "ate_factor 79 w79 (Some (val79 (ax (vk_Alpha key79)), - val79 (ay (vk_Alpha key79)))) (aff_of (F2_val val79 u79) (vk_Beta key79)) f'"
      using f(2) by (simp add: key79_def aff_Q79 P79_def)
    show "ate_factor 79 w79 (three_multiple (- inputs_value engine79 [bn128_el 5] ?ic)) (aff_of (F2_val val79 u79) (vk_Gamma key79)) f'"
      using f(2) unfolding v m by (simp add: key79_def aff_Q79)
    show "ate_factor 79 w79 (Some (val79 (ax (pf_C proof79)), - val79 (ay (pf_C proof79)))) (aff_of (F2_val val79 u79) (vk_Delta key79)) f"
      using f(1) by (simp add: key79_def proof79_def aff_Q79 P79_def n)
  qed (simp_all add: engine79_sel input79(1) F2_ok_def)
  moreover have "f * f' * f' * f = (f * f') * (f * f')" by (simp only: ac_simps)
  ultimately show ?thesis using f(3) by (simp add: power_int_mult_distrib key79_def)
qed

end
