(* ===== verification/Spec2Isabelle.thy ===== *)
theory Spec2Isabelle
  imports Prelude Gmp FrParams FrRaw FrMont FrElem FrArith FrCmp FrBits Mpz FrConv Goldilocks CalcWit Bytes
    DatFile JsonInput BinFile WitnessProgram RawFr Fft FftTables GroupMul Groth16 ProverApi ProverFiles ProofServer
    FieldTower GoldilocksField CurveOps PairingOps Field79 PairingField PairingVerify
begin

text \<open>
  The repository measures stateless-client proofs of a Merkle tree that are compressed with a
  Groth16 SNARK. Its C++ programs are the witness calculator that circom generates for a circuit
  (the runtime under \<open>src/circom/code_producers/src/c_elements\<close>), the prover, verifier and proof server
  of \<open>src/rapidsnark/src\<close>, and the library of fields and curves under them,
  \<open>src/rapidsnark/depends/ffiasm/c\<close>.

  \<^bold>\<open>How the parts interact.\<close> The compiler (\<open>c_code_generator.rs\<close>) renders the field runtime for
  a prime and writes the circuit's tables to a data file. The witness program loads the file
  (\<open>loadCircuit\<close>), makes a calculator (\<open>Circom_CalcWit\<close>), reads a JSON document (\<open>loadJson\<close>), turns
  its values into field elements (\<open>Fr_str2element\<close>) and hands them to \<open>setInputSignal\<close>, which finds
  their signals in the hash table and starts the circuit with the last one; then it writes the
  witness file. The prover (\<open>groth16_prover\<close>) maps a key file, reads key and witness through \<open>BinFile\<close>,
  computes with the transform, the multi-scalar multiplication and the curves, and returns the
  texts of a proof and of the public signals. The verifier (\<open>groth16_verify\<close>) reads these documents and
  the key's and checks a product of pairings. The proof server (\<open>fullprover.cpp\<close>) runs the witness
  program and the prover in a thread for requests that come over HTTP.

  \<^bold>\<open>Theories and sources: the witness program.\<close>
  \<^item> \<open>Prelude\<close>: limb arrays as integers, bitwise laws, congruences, list and word facts.
  \<^item> \<open>Gmp\<close>, \<open>Mpz\<close>: the two interfaces of the GMP library (\<open>mpn_*\<close> on limb arrays, \<open>mpz_*\<close> on
    integers). GMP is not part of the repository: its functions are the fields of a record that
    every definition calling them takes, the locales \<open>mpn_lib\<close> and \<open>mpz_lib\<close> state what its
    manual documents, and \<open>mpn_ref\<close>, \<open>mpz_ref\<close> are complete implementations that interpret them.
  \<^item> \<open>FrParams\<close>: the constants the generator renders into \<open>generic/fr.cpp\<close> (\<open>render_params\<close>), what
    the runtime relies on (\<open>fr_params_ok\<close>), and the primes circom offers.
  \<^item> \<open>FrRaw\<close>, \<open>FrMont\<close>: the functions \<open>Fr_raw*\<close> of \<open>generic/fr.cpp\<close> on limb arrays.
  \<^item> \<open>FrElem\<close>, \<open>FrArith\<close>, \<open>FrCmp\<close>, \<open>FrBits\<close>, \<open>FrConv\<close>: the functions \<open>Fr_*\<close> on elements, one
    definition for each C function. They take pointers, so the model passes a memory from
    addresses to elements: \<open>Ext i\<close> are elements of the caller and \<open>Loc x\<close> local variables, and a
    result may be one of the operands. The theorems on products, negation, squares, conversions and
    comparisons cover such calls; those on sums, differences and bitwise operators ask for a result
    that is neither operand, because in place the code is wrong for some representations
    (\<open>Fr_sub_in_place\<close>).
  \<^item> \<open>Goldilocks\<close>: \<open>goldilocks/fr.hpp\<close>, the field in one machine word.
  \<^item> \<open>CalcWit\<close>: \<open>common/calcwit.cpp\<close>, with the compiler's \<open>generate_hash_map\<close>.
  \<^item> \<open>Bytes\<close>, \<open>DatFile\<close>: the data file, its writer in the compiler and its reader in
    \<open>common/main.cpp\<close>.
  \<^item> \<open>JsonInput\<close>: the way from a parsed JSON document to the signals (\<open>common/main.cpp\<close>).
  \<^item> \<open>BinFile\<close>: \<open>binfile_utils.cpp\<close>, \<open>wtns_utils.cpp\<close>, \<open>zkey_utils.cpp\<close>, the reader of sectioned files.
  \<^item> \<open>WitnessProgram\<close>: \<open>main\<close> and \<open>writeBinWitness\<close>, from the data file and the document to the witness
    file as the reader of \<open>BinFile\<close> sees it.

  \<^bold>\<open>Theories and sources: the prover and the verifier.\<close>
  \<^item> \<open>RawFr\<close>: the class of \<open>build/fr.cpp\<close> and \<open>fr.hpp\<close> over the functions of \<open>FrRaw\<close> and \<open>FrMont\<close>.
  \<^item> \<open>Fft\<close>, \<open>FftTables\<close>: \<open>fft.cpp\<close> with the thread pool's division of loops (\<open>misc.hpp\<close>): the
    transforms, and the constructor of their tables.
  \<^item> \<open>GroupMul\<close>: \<open>naf.cpp\<close>, \<open>exp.hpp\<close>, \<open>msm.hpp\<close>, \<open>msm.cpp\<close> over a record of a group's operations.
  \<^item> \<open>FieldTower\<close>: \<open>f2field.cpp\<close>, \<open>f6field.cpp\<close>, \<open>f12field.cpp\<close> over a record of the base field's
    operations, and \<open>RawFq\<close> as that field.
  \<^item> \<open>CurveOps\<close>: \<open>curve.cpp\<close>; \<open>GoldilocksField\<close> is the field type over which the curve and \<open>RawFq\<close> are
    instantiated together.
  \<^item> \<open>Groth16\<close>: \<open>groth16.cpp\<close>: the prover, the verifier's equation and the product of pairings.
  \<^item> \<open>PairingOps\<close>: \<open>groth16.cpp\<close>: line functions, loop of Miller and final exponentiation.
    \<open>PairingVerify\<close> is the verifier over that pairing. \<open>Field79\<close> and \<open>PairingField\<close> are an instance of
    the whole tower and pairing that can be run: the fields of \<open>79\<close> and \<open>79 ^ 12\<close> elements.
  \<^item> \<open>ProverApi\<close>: \<open>prover.cpp\<close>, \<open>verifier.cpp\<close>, \<open>fileloader.cpp\<close> and the documents of \<open>groth16.cpp\<close>.
    \<open>ProverFiles\<close> follows a key file and a witness file through it.
  \<^item> \<open>ProofServer\<close>: \<open>fullprover.cpp\<close>, \<open>proverapi.cpp\<close> as a step relation.

  \<^bold>\<open>What the lemmas show.\<close> The locale \<open>fr_field\<close> (GMP's laws and well-formed parameters) gives each
  raw function its value as an integer modulo the prime. \<open>fr_rep P e v\<close> says that the element \<open>e\<close>
  represents the integer \<open>v\<close>; each operator has a lemma that what it stores represents the
  result of the abstract operation, whatever the forms of its operands, and that nothing else
  changes. \<open>fr_mpz\<close> extends it by GMP's integers. \<open>cw_inv\<close> is the invariant of the calculator (the
  counter is the number of unset inputs), \<open>probing\<close> the invariant of the hash table, \<open>bin_inv\<close> that of the
  file reader, \<open>server_inv\<close> that of the proof server. The data
  file and the document have round trips: what the calculator reads is what the compiler wrote
  and the user listed. \<open>field_vals\<close>, \<open>field_api\<close>, \<open>base_field\<close> and \<open>curve_vals\<close> are the interfaces of fields and
  groups: \<open>RawFr\<close> interprets the first two, \<open>RawFq\<close> and each level of the tower the third, and \<open>Curve\<close>,
  proved to follow the law of chord and tangent, the last. From them the transform evaluates and
  interpolates, the scalar multiplications multiply, and the prover's points satisfy the equation of
  Groth16 (\<open>groth16_complete\<close>). The verifier is treated twice. Over the interface \<open>pairing_vals\<close> (a
  bilinear pairing of the two groups) it accepts what the prover made. Over the pairing of the code
  (\<open>bn_engine\<close>, \<open>bn_frobenius\<close>) \<open>pairingCheck\<close> and the whole verifier decide a product of optimal ate
  pairings after the final exponent; no law of pairings is assumed. \<open>bilinear_pairing_vals\<close> joins
  the two: where the optimal ate pairing is bilinear and not degenerate, which is mathematics and not
  code, the pairing of the code has the laws of the interface.

  \<^bold>\<open>Errors and bounds.\<close> An assertion, an exception, a division by zero and an access outside an
  array are values: \<open>None\<close> in the field runtime and the prover, \<open>cw_error\<close> in the witness program,
  \<open>bin_error\<close> and \<open>api_error\<close> in the prover's interface. Machine
  integers are words of their width. The only fuel is that of the two probing loops: the size
  of the table, which bounds the number of slots either loop visits; the theorems show that
  the reader never runs out of it and the writer only for a table that is too small. The search for
  a non-residue is a \<open>partial_function\<close>; its end is part of the theorem on the constructor.

  \<^bold>\<open>Threads.\<close> A parallel loop runs the iterations of its jobs in any order that keeps the order in a
  job (\<open>fair\<close>); the results hold for all of them. The proof server's threads and requests interleave
  in every order of the accesses to its shared state.

  \<^bold>\<open>Not modelled.\<close> The assembly variants of the field (text for fixed primes), the
  WebAssembly backend and the compiler's own analysis (other languages); the circuit's
  generated code, which is the parameter \<open>run\<close>; opening and mapping files, whose
  contents are parameters; the HTTP layer, the JSON parser and GMP, which are third-party code; that
  the order of the curve's group is what the code says, and the bilinearity of the optimal ate pairing.
\<close>

end
